(* ===== verification/Prelude.thy ===== *)
theory Prelude
  imports Main "HOL-Library.Word"
begin

text \<open>
  Shared vocabulary of the development: the machine integer types of the Rust sources, the
  saturating and checked arithmetic of Rust's standard library on them, and the
  result-and-state computations in which the operations of the virtual machine are written.

  \<^item> \<open>sat_add\<close>, \<open>sat_sub\<close>, \<open>sat_mul\<close> are \<open>saturating_add\<close>, \<open>saturating_sub\<close> and
    \<open>saturating_mul\<close> of an unsigned integer type, \<open>checked_add\<close> and \<open>checked_mul\<close> the
    operations that return nothing on overflow;
  \<^item> a fallible operation on a state \<open>'s\<close> is a function \<open>'s \<Rightarrow> ('e + 'a) \<times> 's\<close>: the
    Rust method takes \<open>&mut self\<close> and returns a \<open>Result\<close>; on an error the state keeps the
    changes made before it, as in the code; \<open>rbind\<close> is the \<open>?\<close> operator;
  \<^item> \<open>keeps R m\<close> says that a computation relates the states before and after it by \<open>R\<close>;
    it is proved once for \<open>rbind\<close> and used for every operation.
\<close>

unbundle bit_operations_syntax

named_theorems keeps_intros \<open>rules that prove a relation between the states of a computation\<close>
named_theorems unfold_ops \<open>the defining equations of the small state operations\<close>

subsection \<open>Machine integers\<close>

type_synonym u8 = "8 word"
type_synonym u32 = "32 word"
type_synonym u64 = "64 word"
type_synonym u128 = "128 word"
type_synonym i64 = "64 word"
type_synonym bytes = "u8 list"

definition sat_add :: "'a::len word \<Rightarrow> 'a word \<Rightarrow> 'a word" where
  "sat_add a b = (if unat a + unat b < 2 ^ LENGTH('a) then a + b else - 1)"

definition sat_sub :: "'a::len word \<Rightarrow> 'a word \<Rightarrow> 'a word" where
  "sat_sub a b = (if b \<le> a then a - b else 0)"

definition sat_mul :: "'a::len word \<Rightarrow> 'a word \<Rightarrow> 'a word" where
  "sat_mul a b = (if unat a * unat b < 2 ^ LENGTH('a) then a * b else - 1)"

definition checked_add :: "'a::len word \<Rightarrow> 'a word \<Rightarrow> 'a word option" where
  "checked_add a b = (if unat a + unat b < 2 ^ LENGTH('a) then Some (a + b) else None)"

definition checked_mul :: "'a::len word \<Rightarrow> 'a word \<Rightarrow> 'a word option" where
  "checked_mul a b = (if unat a * unat b < 2 ^ LENGTH('a) then Some (a * b) else None)"

lemma unat_max_word: "unat (- 1 :: 'a::len word) = 2 ^ LENGTH('a) - 1"
  by (simp add: unsigned_minus_1_eq_mask mask_eq_exp_minus_1)

lemma unat_less_exp: "unat (w :: 'a::len word) < 2 ^ LENGTH('a)"
  by simp

lemma unat_sat_add: "unat (sat_add a b) = min (unat a + unat b) (2 ^ LENGTH('a) - 1)"
  for a b :: "'a::len word"
  by (auto simp: sat_add_def unat_word_ariths unat_max_word)

lemma unat_sat_sub: "unat (sat_sub a b) = unat a - unat b"
  by (auto simp: sat_sub_def unat_sub word_le_nat_alt)

lemma unat_sat_mul: "unat (sat_mul a b) = min (unat a * unat b) (2 ^ LENGTH('a) - 1)"
  for a b :: "'a::len word"
  by (auto simp: sat_mul_def unat_word_ariths unat_max_word)

lemma checked_add_eq_Some:
  "checked_add a b = Some c \<longleftrightarrow> unat a + unat b < 2 ^ LENGTH('a) \<and> c = a + b"
  for a b :: "'a::len word"
  by (auto simp: checked_add_def)

lemma unat_checked_add: "checked_add a b = Some c \<Longrightarrow> unat c = unat a + unat b"
  by (auto simp: checked_add_def unat_word_ariths split: if_splits)

lemma unat_checked_mul: "checked_mul a b = Some c \<Longrightarrow> unat c = unat a * unat b"
  by (auto simp: checked_mul_def unat_word_ariths split: if_splits)

lemma word_eq_unat: "(a = b) = (unat a = unat b)"
  by (simp add: word_unat_eq_iff)

lemma unat_of_nat_less: "n < 2 ^ LENGTH('a) \<Longrightarrow> unat (of_nat n :: 'a::len word) = n"
  by (simp add: unsigned_of_nat take_bit_nat_eq_self)

subsection \<open>Results and fallible state computations\<close>

type_synonym ('s, 'e, 'a) rsm = "'s \<Rightarrow> ('e + 'a) \<times> 's"

definition rreturn :: "'a \<Rightarrow> ('s, 'e, 'a) rsm" where
  "rreturn a = (\<lambda>s. (Inr a, s))"

definition rthrow :: "'e \<Rightarrow> ('s, 'e, 'a) rsm" where
  "rthrow e = (\<lambda>s. (Inl e, s))"

definition rbind :: "('s, 'e, 'a) rsm \<Rightarrow> ('a \<Rightarrow> ('s, 'e, 'b) rsm) \<Rightarrow> ('s, 'e, 'b) rsm" where
  "rbind m f = (\<lambda>s. case m s of (Inl e, s') \<Rightarrow> (Inl e, s') | (Inr a, s') \<Rightarrow> f a s')"

definition rget :: "('s \<Rightarrow> 'a) \<Rightarrow> ('s, 'e, 'a) rsm" where
  "rget f = (\<lambda>s. (Inr (f s), s))"

definition rmodify :: "('s \<Rightarrow> 's) \<Rightarrow> ('s, 'e, unit) rsm" where
  "rmodify f = (\<lambda>s. (Inr (), f s))"

definition rlift :: "'e + 'a \<Rightarrow> ('s, 'e, 'a) rsm" where
  "rlift r = (\<lambda>s. (r, s))"

definition rwhen :: "bool \<Rightarrow> ('s, 'e, unit) rsm \<Rightarrow> ('s, 'e, unit) rsm" where
  "rwhen c m = (if c then m else rreturn ())"

text \<open>Run a computation on a component of the state, and change the error type.\<close>

definition rzoom :: "('s \<Rightarrow> 't) \<Rightarrow> ('t \<Rightarrow> 's \<Rightarrow> 's) \<Rightarrow> ('t, 'e, 'a) rsm \<Rightarrow> ('s, 'e, 'a) rsm" where
  "rzoom g p m = (\<lambda>s. case m (g s) of (r, t) \<Rightarrow> (r, p t s))"

definition rmap_error :: "('e \<Rightarrow> 'f) \<Rightarrow> ('s, 'e, 'a) rsm \<Rightarrow> ('s, 'f, 'a) rsm" where
  "rmap_error f m = (\<lambda>s. case m s of (Inl e, s') \<Rightarrow> (Inl (f e), s') | (Inr a, s') \<Rightarrow> (Inr a, s'))"

lemmas rsm_defs = rreturn_def rthrow_def rbind_def rget_def rmodify_def rlift_def rwhen_def
  rzoom_def rmap_error_def

lemma rbind_return [simp]: "rbind (rreturn a) f = f a"
  by (simp add: rsm_defs)

lemma rbind_throw [simp]: "rbind (rthrow e) f = rthrow e"
  by (simp add: rsm_defs)

lemma rbind_get [simp]: "rbind (rget f) g s = g (f s) s"
  by (simp add: rsm_defs)

lemma rbind_assoc: "rbind (rbind m f) g = rbind m (\<lambda>a. rbind (f a) g)"
  by (auto simp: rbind_def fun_eq_iff split: prod.splits sum.splits)

lemma rbind_Inr:
  assumes "rbind m f s = (Inr b, s')"
  obtains a s1 where "m s = (Inr a, s1)" and "f a s1 = (Inr b, s')"
  using assms by (auto simp: rbind_def split: prod.splits sum.splits)

lemma rbind_cases:
  assumes "rbind m f s = (r, s')"
  obtains (err) e where "m s = (Inl e, s')" and "r = Inl e"
    | (ok) a s1 where "m s = (Inr a, s1)" and "f a s1 = (r, s')"
  using assms by (auto simp: rbind_def split: prod.splits sum.splits)

subsection \<open>Relations kept by a computation\<close>

definition keeps :: "('s \<Rightarrow> 's \<Rightarrow> bool) \<Rightarrow> ('s, 'e, 'a) rsm \<Rightarrow> bool" where
  "keeps R m \<longleftrightarrow> (\<forall>s. R s (snd (m s)))"

lemma keepsI: "(\<And>s r s'. m s = (r, s') \<Longrightarrow> R s s') \<Longrightarrow> keeps R m"
  by (metis keeps_def prod.collapse)

lemma keepsD: "keeps R m \<Longrightarrow> m s = (r, s') \<Longrightarrow> R s s'"
  by (metis keeps_def snd_conv)

lemma keeps_snd: "keeps R m \<Longrightarrow> R s (snd (m s))"
  by (simp add: keeps_def)

lemma keeps_mono: "keeps R m \<Longrightarrow> (\<And>s s'. R s s' \<Longrightarrow> Q s s') \<Longrightarrow> keeps Q m"
  by (simp add: keeps_def)

lemma keeps_rmodify: "(\<And>s. R s (f s)) \<Longrightarrow> keeps R (rmodify f)"
  by (simp add: keeps_def rmodify_def)

lemma keeps_case_prod: "(\<And>a b. keeps R (f a b)) \<Longrightarrow> keeps R (case p of (a, b) \<Rightarrow> f a b)"
  by (cases p) simp

text \<open>
  A preorder on states: what a run of operations may do to a state. Every operation that keeps
  it may be composed with every other one.
\<close>

locale step_preorder =
  fixes R :: "'s \<Rightarrow> 's \<Rightarrow> bool"
  assumes R_refl: "R s s"
    and R_trans: "R s t \<Longrightarrow> R t u \<Longrightarrow> R s u"
begin

lemma keeps_return: "keeps R (rreturn a)"
  by (simp add: keeps_def rreturn_def R_refl)

lemma keeps_throw: "keeps R (rthrow e)"
  by (simp add: keeps_def rthrow_def R_refl)

lemma keeps_get: "keeps R (rget f)"
  by (simp add: keeps_def rget_def R_refl)

lemma keeps_lift: "keeps R (rlift r)"
  by (simp add: keeps_def rlift_def R_refl)

lemma keeps_bind: "keeps R m \<Longrightarrow> (\<And>a. keeps R (f a)) \<Longrightarrow> keeps R (rbind m f)"
proof (rule keepsI)
  fix s r s'
  assume m: "keeps R m" and f: "\<And>a. keeps R (f a)" and run: "rbind m f s = (r, s')"
  from run show "R s s'"
  proof (cases rule: rbind_cases)
    case (err e)
    with m show ?thesis by (blast dest: keepsD)
  next
    case (ok a s1)
    with m f show ?thesis by (blast dest: keepsD intro: R_trans)
  qed
qed

lemma keeps_when: "keeps R m \<Longrightarrow> keeps R (rwhen c m)"
  by (simp add: rwhen_def keeps_return)

lemma keeps_map_error: "keeps R m \<Longrightarrow> keeps R (rmap_error f m)"
  by (auto simp: keeps_def rmap_error_def split: prod.splits sum.splits) (metis snd_conv)+

lemma keeps_if: "keeps R m \<Longrightarrow> keeps R m' \<Longrightarrow> keeps R (if c then m else m')"
  by simp

lemma keeps_case_option: "keeps R m \<Longrightarrow> (\<And>x. keeps R (f x)) \<Longrightarrow> keeps R (case v of None \<Rightarrow> m | Some x \<Rightarrow> f x)"
  by (cases v) simp_all

lemma keeps_case_sum: "(\<And>x. keeps R (f x)) \<Longrightarrow> (\<And>x. keeps R (g x)) \<Longrightarrow> keeps R (case v of Inl x \<Rightarrow> f x | Inr x \<Rightarrow> g x)"
  by (cases v) simp_all

lemmas keeps_rules = keeps_return keeps_throw keeps_get keeps_lift keeps_bind keeps_when
  keeps_map_error keeps_if keeps_case_option keeps_case_sum

end

end
