(* ===== verification/Errors.thy ===== *)
theory Errors
  imports Prelude
begin

text \<open>
  Exit codes, error numbers and execution errors: \<open>shared/src/error/mod.rs\<close>,
  \<open>fvm/src/kernel/error.rs\<close> and \<open>fvm/src/syscalls/error.rs\<close>. The informational message
  strings that the code attaches to errors (\<open>anyhow\<close> contexts, \<open>SyscallError\<close>'s text) have no
  influence on control flow and are left out; everything the code branches on is kept.
\<close>

subsection \<open>Exit codes\<close>

record ExitCode =
  code_value :: u32

definition exit_code_new :: "u32 \<Rightarrow> ExitCode" where
  "exit_code_new v = \<lparr>code_value = v\<rparr>"

definition is_success :: "ExitCode \<Rightarrow> bool" where
  "is_success c \<longleftrightarrow> code_value c = 0"

definition FIRST_USER_EXIT_CODE :: u32 where
  "FIRST_USER_EXIT_CODE = 16"

definition is_system_error :: "ExitCode \<Rightarrow> bool" where
  "is_system_error c \<longleftrightarrow> code_value c < FIRST_USER_EXIT_CODE"

definition OK :: ExitCode where
  "OK = exit_code_new 0"

definition SYS_SENDER_INVALID :: ExitCode where
  "SYS_SENDER_INVALID = exit_code_new 1"

definition SYS_SENDER_STATE_INVALID :: ExitCode where
  "SYS_SENDER_STATE_INVALID = exit_code_new 2"

definition SYS_ILLEGAL_INSTRUCTION :: ExitCode where
  "SYS_ILLEGAL_INSTRUCTION = exit_code_new 4"

definition SYS_INVALID_RECEIVER :: ExitCode where
  "SYS_INVALID_RECEIVER = exit_code_new 5"

definition SYS_INSUFFICIENT_FUNDS :: ExitCode where
  "SYS_INSUFFICIENT_FUNDS = exit_code_new 6"

definition SYS_OUT_OF_GAS :: ExitCode where
  "SYS_OUT_OF_GAS = exit_code_new 7"

definition SYS_ILLEGAL_EXIT_CODE :: ExitCode where
  "SYS_ILLEGAL_EXIT_CODE = exit_code_new 9"

definition SYS_ASSERTION_FAILED :: ExitCode where
  "SYS_ASSERTION_FAILED = exit_code_new 10"

definition SYS_MISSING_RETURN :: ExitCode where
  "SYS_MISSING_RETURN = exit_code_new 11"

lemmas exit_code_defs = exit_code_new_def is_success_def is_system_error_def
  FIRST_USER_EXIT_CODE_def OK_def SYS_SENDER_INVALID_def SYS_SENDER_STATE_INVALID_def
  SYS_ILLEGAL_INSTRUCTION_def SYS_INVALID_RECEIVER_def SYS_INSUFFICIENT_FUNDS_def
  SYS_OUT_OF_GAS_def SYS_ILLEGAL_EXIT_CODE_def SYS_ASSERTION_FAILED_def SYS_MISSING_RETURN_def

lemma is_success_OK [simp]: "is_success OK"
  by (simp add: exit_code_defs)

lemma is_success_failures [simp]:
  "\<not> is_success SYS_OUT_OF_GAS" "\<not> is_success SYS_ASSERTION_FAILED"
  "\<not> is_success SYS_INVALID_RECEIVER" "\<not> is_success SYS_INSUFFICIENT_FUNDS"
  "\<not> is_success SYS_ILLEGAL_EXIT_CODE" "\<not> is_success SYS_ILLEGAL_INSTRUCTION"
  "\<not> is_success SYS_MISSING_RETURN" "\<not> is_success SYS_SENDER_INVALID"
  "\<not> is_success SYS_SENDER_STATE_INVALID"
  by (simp_all add: exit_code_defs)

subsection \<open>Error numbers of syscalls\<close>

datatype ErrorNumber =
    IllegalArgument
  | IllegalOperation
  | LimitExceeded
  | AssertionFailed
  | InsufficientFunds
  | NotFound
  | InvalidHandle
  | IllegalCid
  | IllegalCodec
  | Serialization
  | Forbidden
  | BufferTooSmall
  | ReadOnly

fun error_number_code :: "ErrorNumber \<Rightarrow> u32" where
  "error_number_code IllegalArgument = 1"
| "error_number_code IllegalOperation = 2"
| "error_number_code LimitExceeded = 3"
| "error_number_code AssertionFailed = 4"
| "error_number_code InsufficientFunds = 5"
| "error_number_code NotFound = 6"
| "error_number_code InvalidHandle = 7"
| "error_number_code IllegalCid = 8"
| "error_number_code IllegalCodec = 9"
| "error_number_code Serialization = 10"
| "error_number_code Forbidden = 11"
| "error_number_code BufferTooSmall = 12"
| "error_number_code ReadOnly = 13"

lemma error_number_code_inj: "error_number_code a = error_number_code b \<Longrightarrow> a = b"
  by (cases a; cases b) simp_all

subsection \<open>Execution errors\<close>

datatype ExecutionError = OutOfGas | Syscall ErrorNumber | Fatal

type_synonym 'a kresult = "ExecutionError + 'a"

fun is_fatal :: "ExecutionError \<Rightarrow> bool" where
  "is_fatal Fatal = True"
| "is_fatal OutOfGas = False"
| "is_fatal (Syscall _) = False"

text \<open>\<open>or_fatal\<close> and \<open>or_error\<close> classify any error, whatever it is.\<close>

definition or_fatal :: "'e + 'a \<Rightarrow> 'a kresult" where
  "or_fatal r = (case r of Inl _ \<Rightarrow> Inl Fatal | Inr a \<Rightarrow> Inr a)"

definition or_error :: "ErrorNumber \<Rightarrow> 'e + 'a \<Rightarrow> 'a kresult" where
  "or_error c r = (case r of Inl _ \<Rightarrow> Inl (Syscall c) | Inr a \<Rightarrow> Inr a)"

definition or_illegal_argument :: "'e + 'a \<Rightarrow> 'a kresult" where
  "or_illegal_argument = or_error IllegalArgument"

text \<open>\<open>Option::ok_or_else\<close> and the \<open>context\<close> of a missing value.\<close>

definition ok_or :: "'e \<Rightarrow> 'a option \<Rightarrow> 'e + 'a" where
  "ok_or e v = (case v of None \<Rightarrow> Inl e | Some a \<Rightarrow> Inr a)"

lemma or_fatal_simps [simp]:
  "or_fatal (Inl e) = Inl Fatal" "or_fatal (Inr a) = Inr a"
  by (simp_all add: or_fatal_def)

lemma or_error_simps [simp]:
  "or_error c (Inl e) = Inl (Syscall c)" "or_error c (Inr a) = Inr a"
  by (simp_all add: or_error_def)

lemma ok_or_simps [simp]: "ok_or e None = Inl e" "ok_or e (Some a) = Inr a"
  by (simp_all add: ok_or_def)

subsection \<open>Aborts\<close>

type_synonym BlockId = u32

datatype Abort = AbortExit ExitCode BlockId | AbortOutOfGas | AbortFatal

definition from_error :: "ExitCode \<Rightarrow> ExecutionError \<Rightarrow> Abort" where
  "from_error code e = (case e of
      Syscall _ \<Rightarrow> AbortExit code 0
    | OutOfGas \<Rightarrow> AbortOutOfGas
    | Fatal \<Rightarrow> AbortFatal)"

definition from_error_as_fatal :: "ExecutionError \<Rightarrow> Abort" where
  "from_error_as_fatal e = (case e of
      OutOfGas \<Rightarrow> AbortOutOfGas
    | Fatal \<Rightarrow> AbortFatal
    | Syscall _ \<Rightarrow> AbortFatal)"

end
