(* ===== verification/Gas.thy ===== *)
theory Gas
  imports Errors
begin

text \<open>
  Gas and the gas tracker: \<open>fvm/src/gas/mod.rs\<close> and \<open>fvm/src/gas/charge.rs\<close>. Gas is a 64-bit
  count of milligas with saturating arithmetic. The tracker holds the limit, the gas used and a
  stack of outer limits that \<open>push_limit\<close> and \<open>pop_limit\<close> manage around calls with an explicit
  gas limit. Timers (\<open>gas/timer.rs\<close>) measure wall-clock time only and are left out: a charge
  returns unit where the code returns a \<open>GasTimer\<close>.

  The invariant \<open>tracker_inv\<close> says that the gas used never exceeds the limit, that no limit
  exceeds \<open>i64::MAX\<close> milligas, and that each inner limit fits into what its outer level had
  left. \<open>tracker_evolves\<close> is what any sequence of charges and balanced inner limits may do.
\<close>

subsection \<open>The Gas type\<close>

datatype Gas = Gas (as_milligas: u64)

definition MILLIGAS_PRECISION :: u64 where
  "MILLIGAS_PRECISION = 1000"

definition milligas_to_gas :: "u64 \<Rightarrow> bool \<Rightarrow> u64" where
  "milligas_to_gas milligas round_up =
    (let div_result = milligas div MILLIGAS_PRECISION
     in if round_up \<and> milligas mod MILLIGAS_PRECISION \<noteq> 0 then sat_add div_result 1 else div_result)"

definition from_milligas :: "u64 \<Rightarrow> Gas" where
  "from_milligas m = Gas m"

definition gas_new :: "u64 \<Rightarrow> Gas" where
  "gas_new g = Gas (sat_mul g MILLIGAS_PRECISION)"

definition round_up :: "Gas \<Rightarrow> u64" where
  "round_up g = milligas_to_gas (as_milligas g) True"

definition round_down :: "Gas \<Rightarrow> u64" where
  "round_down g = milligas_to_gas (as_milligas g) False"

text \<open>The operator implementations \<open>Zero\<close>, \<open>Add\<close>, \<open>Sub\<close> and the derived order.\<close>

instantiation Gas :: zero
begin

definition zero_Gas_def: "0 = Gas 0"

instance ..

end

instantiation Gas :: plus
begin

definition plus_Gas_def: "a + b = Gas (sat_add (as_milligas a) (as_milligas b))"

instance ..

end

instantiation Gas :: minus
begin

definition minus_Gas_def: "a - b = Gas (sat_sub (as_milligas a) (as_milligas b))"

instance ..

end

instantiation Gas :: linorder
begin

definition less_eq_Gas_def: "a \<le> b \<longleftrightarrow> as_milligas a \<le> as_milligas b"

definition less_Gas_def: "a < b \<longleftrightarrow> as_milligas a < as_milligas b"

instance
  by standard (auto simp: less_eq_Gas_def less_Gas_def intro: Gas.expand)

end

definition gas_mul :: "Gas \<Rightarrow> u64 \<Rightarrow> Gas" where
  "gas_mul g n = Gas (sat_mul (as_milligas g) n)"

text \<open>\<open>Mul<u32>\<close> widens its factor; \<open>Mul<usize>\<close> converts a length, saturating at \<open>u64::MAX\<close>.\<close>

definition gas_mul_u32 :: "Gas \<Rightarrow> u32 \<Rightarrow> Gas" where
  "gas_mul_u32 g n = Gas (sat_mul (as_milligas g) (ucast n))"

definition gas_mul_usize :: "Gas \<Rightarrow> nat \<Rightarrow> Gas" where
  "gas_mul_usize g n = Gas (sat_mul (as_milligas g) (if n < 2 ^ 64 then of_nat n else - 1))"

definition gas_is_zero :: "Gas \<Rightarrow> bool" where
  "gas_is_zero g \<longleftrightarrow> as_milligas g = 0"

text \<open>The gas as a natural number of milligas, the measure the lemmas reason with.\<close>

definition mg :: "Gas \<Rightarrow> nat" where
  "mg g = unat (as_milligas g)"

abbreviation U64_MAX :: nat where
  "U64_MAX \<equiv> 2 ^ 64 - 1"

abbreviation I64_MAX :: nat where
  "I64_MAX \<equiv> 2 ^ 63 - 1"

lemma mg_bound: "mg g \<le> U64_MAX"
  using unat_less_exp [of "as_milligas g"] by (simp add: mg_def)

lemma mg_zero [simp]: "mg 0 = 0"
  by (simp add: mg_def zero_Gas_def)

lemma mg_add: "mg (a + b) = min (mg a + mg b) U64_MAX"
  by (simp add: mg_def plus_Gas_def unat_sat_add)

lemma mg_sub: "mg (a - b) = mg a - mg b"
  by (simp add: mg_def minus_Gas_def unat_sat_sub)

lemma mg_mul: "mg (gas_mul g n) = min (mg g * unat n) U64_MAX"
  by (simp add: mg_def gas_mul_def unat_sat_mul)

lemma mg_new: "mg (gas_new g) = min (unat g * 1000) U64_MAX"
  by (simp add: mg_def gas_new_def unat_sat_mul MILLIGAS_PRECISION_def)

lemma Gas_le_mg: "a \<le> b \<longleftrightarrow> mg a \<le> mg b"
  by (simp add: less_eq_Gas_def mg_def word_le_nat_alt)

lemma Gas_less_mg: "a < b \<longleftrightarrow> mg a < mg b"
  by (simp add: less_Gas_def mg_def word_less_nat_alt)

lemma Gas_eq_mg: "a = b \<longleftrightarrow> mg a = mg b"
  by (cases a; cases b) (simp add: mg_def word_eq_unat)

lemma mg_min: "mg (min a b) = min (mg a) (mg b)"
  by (auto simp: min_def Gas_le_mg)

lemma mg_max: "mg (max a b) = max (mg a) (mg b)"
  by (auto simp: max_def Gas_le_mg)

lemma gas_is_zero_mg: "gas_is_zero g \<longleftrightarrow> mg g = 0"
  by (simp add: gas_is_zero_def mg_def unat_eq_zero)

lemmas mg_simps = mg_add mg_sub mg_min mg_max Gas_le_mg Gas_less_mg gas_is_zero_mg

lemma unat_div_1000: "unat ((m :: u64) div 1000) = unat m div 1000"
  by (simp add: unat_div)

lemma unat_mod_1000: "unat ((m :: u64) mod 1000) = unat m mod 1000"
  by (simp add: unat_mod)

lemma unat_round_down: "unat (round_down g) = mg g div 1000"
  by (simp add: round_down_def milligas_to_gas_def MILLIGAS_PRECISION_def mg_def unat_div_1000)

lemma div_1000_round_up:
  "(if m mod 1000 \<noteq> 0 then m div 1000 + 1 else m div 1000) = (m + 999) div (1000 :: nat)"
proof -
  have "m = 1000 * (m div 1000) + m mod 1000" and "m mod 1000 < 1000" by simp_all
  then obtain q r where "m = 1000 * q + r" and "r < 1000" by blast
  then show ?thesis by (auto intro!: div_nat_eqI [symmetric])
qed

lemma unat_round_up: "unat (round_up g) = (mg g + 999) div 1000"
proof -
  let ?m = "unat (as_milligas g)"
  have b: "?m < 2 ^ 64" using unat_less_exp [of "as_milligas g"] by simp
  have z: "as_milligas g mod 1000 = 0 \<longleftrightarrow> ?m mod 1000 = 0"
    by (simp add: word_eq_unat unat_mod_1000)
  have "unat (milligas_to_gas (as_milligas g) True) =
      (if ?m mod 1000 \<noteq> 0 then ?m div 1000 + 1 else ?m div 1000)"
    using b by (simp add: milligas_to_gas_def MILLIGAS_PRECISION_def z unat_sat_add unat_div_1000)
  also have "\<dots> = (?m + 999) div 1000"
    by (rule div_1000_round_up)
  finally show ?thesis by (simp add: round_up_def mg_def)
qed

lemma round_trip_whole_gas: "unat g * 1000 \<le> U64_MAX \<Longrightarrow> round_up (gas_new g) = g \<and> round_down (gas_new g) = g"
  by (simp add: word_eq_unat unat_round_up unat_round_down mg_new)

subsection \<open>Gas charges\<close>

record GasCharge =
  charge_name :: string
  compute_gas :: Gas
  other_gas :: Gas

definition gas_charge_new :: "string \<Rightarrow> Gas \<Rightarrow> Gas \<Rightarrow> GasCharge" where
  "gas_charge_new name compute other = \<lparr>charge_name = name, compute_gas = compute, other_gas = other\<rparr>"

definition total :: "GasCharge \<Rightarrow> Gas" where
  "total c = compute_gas c + other_gas c"

subsection \<open>The gas tracker\<close>

record GasSnapshot =
  snap_limit :: Gas
  snap_used :: Gas

record GasTracker =
  gt_limit :: Gas
  gt_used :: Gas
  gt_snapshots :: "GasSnapshot list"
  gt_trace :: "GasCharge list option"

definition tracker_new :: "Gas \<Rightarrow> Gas \<Rightarrow> bool \<Rightarrow> GasTracker" where
  "tracker_new gas_limit gas_used enable_tracing =
    (let max_gas = from_milligas (2 ^ 63 - 1);
         gas_limit = min gas_limit max_gas;
         gas_used = min gas_used gas_limit
     in \<lparr>gt_limit = gas_limit, gt_used = gas_used, gt_snapshots = [],
         gt_trace = (if enable_tracing then Some [] else None)\<rparr>)"

definition charge_gas_inner :: "Gas \<Rightarrow> (GasTracker, ExecutionError, unit) rsm" where
  "charge_gas_inner to_use t =
    (let gas_used = gt_used t + to_use
     in if gas_used > gt_limit t then (Inl OutOfGas, t\<lparr>gt_used := gt_limit t\<rparr>)
        else (Inr (), t\<lparr>gt_used := gas_used\<rparr>))"

definition push_trace :: "GasCharge \<Rightarrow> GasTracker \<Rightarrow> GasTracker" where
  "push_trace c t = t\<lparr>gt_trace := map_option (\<lambda>cs. cs @ [c]) (gt_trace t)\<rparr>"

definition charge_gas :: "string \<Rightarrow> Gas \<Rightarrow> (GasTracker, ExecutionError, unit) rsm" where
  "charge_gas name to_use t =
    (case charge_gas_inner to_use t of
      (res, t') \<Rightarrow> (res, push_trace (gas_charge_new name to_use 0) t'))"

definition apply_charge :: "GasCharge \<Rightarrow> (GasTracker, ExecutionError, unit) rsm" where
  "apply_charge c t =
    (case charge_gas_inner (total c) t of (res, t') \<Rightarrow> (res, push_trace c t'))"

definition gas_available :: "GasTracker \<Rightarrow> Gas" where
  "gas_available t = gt_limit t - gt_used t"

definition push_limit :: "Gas \<Rightarrow> GasTracker \<Rightarrow> GasTracker" where
  "push_limit new_limit t = t\<lparr>
    gt_snapshots := gt_snapshots t @ [\<lparr>snap_limit = gt_limit t, snap_used = gt_used t\<rparr>],
    gt_limit := min (gas_available t) new_limit,
    gt_used := 0\<rparr>"

definition pop_limit :: "(GasTracker, ExecutionError, unit) rsm" where
  "pop_limit t =
    (if gt_snapshots t = [] then (Inl Fatal, t)
     else let snap = last (gt_snapshots t)
          in (Inr (), t\<lparr>gt_snapshots := butlast (gt_snapshots t),
                        gt_limit := snap_limit snap,
                        gt_used := gt_used t + snap_used snap\<rparr>))"

definition drain_trace :: "GasTracker \<Rightarrow> GasCharge list \<times> GasTracker" where
  "drain_trace t = (case gt_trace t of
      None \<Rightarrow> ([], t)
    | Some cs \<Rightarrow> (cs, t\<lparr>gt_trace := Some []\<rparr>))"

subsection \<open>The invariant of the tracker\<close>

text \<open>
  The levels of the tracker, innermost first: the current level and the suspended ones. An inner
  limit is at most what the level around it has left.
\<close>

fun nested_limits :: "Gas \<Rightarrow> GasSnapshot list \<Rightarrow> bool" where
  "nested_limits inner [] = True"
| "nested_limits inner (snap # outer) \<longleftrightarrow>
    mg inner + mg (snap_used snap) \<le> mg (snap_limit snap) \<and> nested_limits (snap_limit snap) outer"

definition outer_levels :: "GasTracker \<Rightarrow> GasSnapshot list" where
  "outer_levels t = rev (gt_snapshots t)"

definition tracker_inv :: "GasTracker \<Rightarrow> bool" where
  "tracker_inv t \<longleftrightarrow>
    mg (gt_used t) \<le> mg (gt_limit t) \<and> mg (gt_limit t) \<le> I64_MAX \<and>
    nested_limits (gt_limit t) (outer_levels t) \<and>
    (\<forall>snap \<in> set (gt_snapshots t). mg (snap_limit snap) \<le> I64_MAX)"

text \<open>What charges and balanced inner limits may do to a tracker.\<close>

definition tracker_evolves :: "GasTracker \<Rightarrow> GasTracker \<Rightarrow> bool" where
  "tracker_evolves t t' \<longleftrightarrow>
    gt_limit t' = gt_limit t \<and> gt_snapshots t' = gt_snapshots t \<and>
    (tracker_inv t \<longrightarrow> tracker_inv t' \<and> mg (gt_used t) \<le> mg (gt_used t'))"

interpretation tracker: step_preorder tracker_evolves
  by unfold_locales (auto simp: tracker_evolves_def)

lemma tracker_new_inv: "tracker_inv (tracker_new l u e)"
  by (simp add: tracker_inv_def tracker_new_def outer_levels_def Let_def mg_simps from_milligas_def)
    (simp add: mg_def min_def)

lemma push_trace_simps [simp]:
  "gt_limit (push_trace c t) = gt_limit t" "gt_used (push_trace c t) = gt_used t"
  "gt_snapshots (push_trace c t) = gt_snapshots t"
  by (simp_all add: push_trace_def)

lemma tracker_evolves_same:
  "gt_limit t' = gt_limit t \<Longrightarrow> gt_snapshots t' = gt_snapshots t \<Longrightarrow>
   (tracker_inv t \<Longrightarrow> mg (gt_used t) \<le> mg (gt_used t') \<and> mg (gt_used t') \<le> mg (gt_limit t)) \<Longrightarrow>
   tracker_evolves t t'"
  by (auto simp: tracker_evolves_def tracker_inv_def outer_levels_def)

lemma charge_gas_inner_evolves: "tracker_evolves t (snd (charge_gas_inner g t))"
  by (rule tracker_evolves_same)
    (auto simp: charge_gas_inner_def Let_def mg_simps tracker_inv_def)

lemma push_trace_evolves: "tracker_evolves t (push_trace c t)"
  by (rule tracker_evolves_same) (auto simp: tracker_inv_def)

lemma charge_gas_evolves: "tracker_evolves t (snd (charge_gas n g t))"
  using tracker.R_trans [OF charge_gas_inner_evolves push_trace_evolves]
  by (auto simp: charge_gas_def split: prod.split) (metis snd_conv)

lemma apply_charge_evolves: "tracker_evolves t (snd (apply_charge c t))"
  using tracker.R_trans [OF charge_gas_inner_evolves push_trace_evolves]
  by (auto simp: apply_charge_def split: prod.split) (metis snd_conv)

text \<open>A charge either fits, and is added exactly, or empties the tracker.\<close>

lemma apply_charge_ok:
  assumes "tracker_inv t"
  shows "apply_charge c t = (if mg (gt_used t) + mg (total c) \<le> mg (gt_limit t)
    then (Inr (), push_trace c (t\<lparr>gt_used := gt_used t + total c\<rparr>))
    else (Inl OutOfGas, push_trace c (t\<lparr>gt_used := gt_limit t\<rparr>)))"
  using assms by (auto simp: apply_charge_def charge_gas_inner_def Let_def mg_simps tracker_inv_def)

lemma push_limit_inv: "tracker_inv t \<Longrightarrow> tracker_inv (push_limit l t)"
  by (auto simp: tracker_inv_def push_limit_def outer_levels_def gas_available_def mg_simps)

text \<open>Around an inner limit: the caller's limit comes back, and it pays exactly the inner use.\<close>

lemma push_evolve_pop:
  assumes inv: "tracker_inv t" and evo: "tracker_evolves (push_limit l t) t1"
  obtains t' where "pop_limit t1 = (Inr (), t')" and "tracker_inv t'"
    and "gt_limit t' = gt_limit t" and "gt_snapshots t' = gt_snapshots t"
    and "mg (gt_used t') = mg (gt_used t) + mg (gt_used t1)"
    and "mg (gt_used t1) \<le> mg l"
proof -
  let ?p = "push_limit l t"
  have inv1: "tracker_inv t1" and lim: "gt_limit t1 = gt_limit ?p"
    and snaps: "gt_snapshots t1 = gt_snapshots t @ [\<lparr>snap_limit = gt_limit t, snap_used = gt_used t\<rparr>]"
    using evo push_limit_inv [OF inv, of l] by (auto simp: tracker_evolves_def push_limit_def)
  have u: "mg (gt_used t1) \<le> min (mg (gt_limit t) - mg (gt_used t)) (mg l)"
    using inv1 by (simp add: tracker_inv_def lim) (simp add: push_limit_def gas_available_def mg_simps)
  have s: "mg (gt_used t1 + gt_used t) = mg (gt_used t) + mg (gt_used t1)"
    "mg (gt_used t1) + mg (gt_used t) \<le> mg (gt_limit t)"
    using u inv by (auto simp: mg_simps tracker_inv_def)
  let ?t = "t1\<lparr>gt_snapshots := gt_snapshots t, gt_limit := gt_limit t, gt_used := gt_used t1 + gt_used t\<rparr>"
  have run: "pop_limit t1 = (Inr (), ?t)"
    by (simp add: pop_limit_def snaps)
  have "tracker_inv ?t"
    using inv s by (simp add: tracker_inv_def outer_levels_def)
  then show thesis using that [OF run] s u by simp
qed

lemma pop_limit_empty: "gt_snapshots t = [] \<Longrightarrow> pop_limit t = (Inl Fatal, t)"
  by (simp add: pop_limit_def)

lemma drain_trace_evolves: "tracker_evolves t (snd (drain_trace t))"
  by (auto simp: drain_trace_def tracker_inv_def split: option.split intro!: tracker_evolves_same)

end
