(* ===== verification/RegisteredProof.thy ===== *)
theory RegisteredProof
  imports Prelude
begin

text \<open>
  The proof types of \<open>shared/src/sector/registered_proof.rs\<close>: the seal, PoSt, aggregate and update
  proof enumerations, their \<open>i64\<close> encodings (used by serialization), and the functions that derive
  sector size, partition size, proof size and the related proof types from one of them. Error
  texts are left out: an \<open>Err\<close> is \<open>Inl ()\<close>. The conversions into the types of the
  \<open>filecoin_proofs_api\<close> crate are in the theory \<open>Sectors\<close>.
\<close>

subsection \<open>The enumerations\<close>

datatype SectorSize = Size2KiB | Size8MiB | Size512MiB | Size32GiB | Size64GiB

fun sector_size_bytes :: "SectorSize \<Rightarrow> u64" where
  "sector_size_bytes Size2KiB = push_bit 10 2"
| "sector_size_bytes Size8MiB = push_bit 20 8"
| "sector_size_bytes Size512MiB = push_bit 20 512"
| "sector_size_bytes Size32GiB = push_bit 30 32"
| "sector_size_bytes Size64GiB = 2 * push_bit 30 32"

datatype RegisteredSealProof =
    StackedDRG2KiBV1
  | StackedDRG512MiBV1
  | StackedDRG8MiBV1
  | StackedDRG32GiBV1
  | StackedDRG64GiBV1
  | StackedDRG2KiBV1P1
  | StackedDRG512MiBV1P1
  | StackedDRG8MiBV1P1
  | StackedDRG32GiBV1P1
  | StackedDRG64GiBV1P1
  | StackedDRG2KiBV1P1_Feat_SyntheticPoRep
  | StackedDRG512MiBV1P1_Feat_SyntheticPoRep
  | StackedDRG8MiBV1P1_Feat_SyntheticPoRep
  | StackedDRG32GiBV1P1_Feat_SyntheticPoRep
  | StackedDRG64GiBV1P1_Feat_SyntheticPoRep
  | StackedDRG2KiBV1P2_Feat_NiPoRep
  | StackedDRG512MiBV1P2_Feat_NiPoRep
  | StackedDRG8MiBV1P2_Feat_NiPoRep
  | StackedDRG32GiBV1P2_Feat_NiPoRep
  | StackedDRG64GiBV1P2_Feat_NiPoRep
  | Invalid i64

datatype RegisteredPoStProof =
    StackedDRGWinning2KiBV1
  | StackedDRGWinning8MiBV1
  | StackedDRGWinning512MiBV1
  | StackedDRGWinning32GiBV1
  | StackedDRGWinning64GiBV1
  | StackedDRGWindow2KiBV1P1
  | StackedDRGWindow8MiBV1P1
  | StackedDRGWindow512MiBV1P1
  | StackedDRGWindow32GiBV1P1
  | StackedDRGWindow64GiBV1P1
  | Invalid i64

datatype RegisteredAggregateProof = SnarkPackV1 | SnarkPackV2 | Invalid i64

datatype RegisteredUpdateProof =
    StackedDRG2KiBV1
  | StackedDRG8MiBV1
  | StackedDRG512MiBV1
  | StackedDRG32GiBV1
  | StackedDRG64GiBV1
  | Invalid i64

subsection \<open>Functions of the seal proof\<close>

definition from_sector_size :: "SectorSize \<Rightarrow> u32 \<Rightarrow> RegisteredSealProof" where
  "from_sector_size sz network_version =
    (if network_version < 7 then (case sz of
        Size2KiB \<Rightarrow> RegisteredSealProof.StackedDRG2KiBV1
      | Size8MiB \<Rightarrow> RegisteredSealProof.StackedDRG8MiBV1
      | Size512MiB \<Rightarrow> RegisteredSealProof.StackedDRG512MiBV1
      | Size32GiB \<Rightarrow> RegisteredSealProof.StackedDRG32GiBV1
      | Size64GiB \<Rightarrow> RegisteredSealProof.StackedDRG64GiBV1)
     else (case sz of
        Size2KiB \<Rightarrow> RegisteredSealProof.StackedDRG2KiBV1P1
      | Size8MiB \<Rightarrow> RegisteredSealProof.StackedDRG8MiBV1P1
      | Size512MiB \<Rightarrow> RegisteredSealProof.StackedDRG512MiBV1P1
      | Size32GiB \<Rightarrow> RegisteredSealProof.StackedDRG32GiBV1P1
      | Size64GiB \<Rightarrow> RegisteredSealProof.StackedDRG64GiBV1P1))"

definition update_to_v1 :: "RegisteredSealProof \<Rightarrow> RegisteredSealProof" where
  "update_to_v1 p = (case p of
      RegisteredSealProof.StackedDRG2KiBV1 \<Rightarrow> RegisteredSealProof.StackedDRG2KiBV1P1
    | RegisteredSealProof.StackedDRG512MiBV1 \<Rightarrow> RegisteredSealProof.StackedDRG512MiBV1P1
    | RegisteredSealProof.StackedDRG8MiBV1 \<Rightarrow> RegisteredSealProof.StackedDRG8MiBV1P1
    | RegisteredSealProof.StackedDRG32GiBV1 \<Rightarrow> RegisteredSealProof.StackedDRG32GiBV1P1
    | RegisteredSealProof.StackedDRG64GiBV1 \<Rightarrow> RegisteredSealProof.StackedDRG64GiBV1P1
    | _ \<Rightarrow> p)"

definition sector_maximum_lifetime :: "RegisteredSealProof \<Rightarrow> i64" where
  "sector_maximum_lifetime p = (let epochs_per_year = 1262277 in 5 * epochs_per_year)"

fun seal_proof_size :: "RegisteredSealProof \<Rightarrow> unit + nat" where
  "seal_proof_size RegisteredSealProof.StackedDRG2KiBV1 = Inr 192"
| "seal_proof_size RegisteredSealProof.StackedDRG512MiBV1 = Inr 192"
| "seal_proof_size RegisteredSealProof.StackedDRG8MiBV1 = Inr 192"
| "seal_proof_size RegisteredSealProof.StackedDRG32GiBV1 = Inr 1920"
| "seal_proof_size RegisteredSealProof.StackedDRG64GiBV1 = Inr 1920"
| "seal_proof_size RegisteredSealProof.StackedDRG2KiBV1P1 = Inr 192"
| "seal_proof_size RegisteredSealProof.StackedDRG512MiBV1P1 = Inr 192"
| "seal_proof_size RegisteredSealProof.StackedDRG8MiBV1P1 = Inr 192"
| "seal_proof_size RegisteredSealProof.StackedDRG32GiBV1P1 = Inr 1920"
| "seal_proof_size RegisteredSealProof.StackedDRG64GiBV1P1 = Inr 1920"
| "seal_proof_size RegisteredSealProof.StackedDRG2KiBV1P1_Feat_SyntheticPoRep = Inr 192"
| "seal_proof_size RegisteredSealProof.StackedDRG512MiBV1P1_Feat_SyntheticPoRep = Inr 192"
| "seal_proof_size RegisteredSealProof.StackedDRG8MiBV1P1_Feat_SyntheticPoRep = Inr 192"
| "seal_proof_size RegisteredSealProof.StackedDRG32GiBV1P1_Feat_SyntheticPoRep = Inr 1920"
| "seal_proof_size RegisteredSealProof.StackedDRG64GiBV1P1_Feat_SyntheticPoRep = Inr 1920"
| "seal_proof_size RegisteredSealProof.StackedDRG2KiBV1P2_Feat_NiPoRep = Inr 14164"
| "seal_proof_size RegisteredSealProof.StackedDRG512MiBV1P2_Feat_NiPoRep = Inr 14164"
| "seal_proof_size RegisteredSealProof.StackedDRG8MiBV1P2_Feat_NiPoRep = Inr 14164"
| "seal_proof_size RegisteredSealProof.StackedDRG32GiBV1P2_Feat_NiPoRep = Inr 23092"
| "seal_proof_size RegisteredSealProof.StackedDRG64GiBV1P2_Feat_NiPoRep = Inr 23092"
| "seal_proof_size (RegisteredSealProof.Invalid i) = Inl ()"

definition seal_proof_default :: RegisteredSealProof where
  "seal_proof_default = RegisteredSealProof.Invalid (- 1)"

fun seal_sector_size :: "RegisteredSealProof \<Rightarrow> unit + SectorSize" where
  "seal_sector_size RegisteredSealProof.StackedDRG2KiBV1 = Inr Size2KiB"
| "seal_sector_size RegisteredSealProof.StackedDRG2KiBV1P1 = Inr Size2KiB"
| "seal_sector_size RegisteredSealProof.StackedDRG2KiBV1P1_Feat_SyntheticPoRep = Inr Size2KiB"
| "seal_sector_size RegisteredSealProof.StackedDRG2KiBV1P2_Feat_NiPoRep = Inr Size2KiB"
| "seal_sector_size RegisteredSealProof.StackedDRG8MiBV1 = Inr Size8MiB"
| "seal_sector_size RegisteredSealProof.StackedDRG8MiBV1P1 = Inr Size8MiB"
| "seal_sector_size RegisteredSealProof.StackedDRG8MiBV1P1_Feat_SyntheticPoRep = Inr Size8MiB"
| "seal_sector_size RegisteredSealProof.StackedDRG8MiBV1P2_Feat_NiPoRep = Inr Size8MiB"
| "seal_sector_size RegisteredSealProof.StackedDRG512MiBV1 = Inr Size512MiB"
| "seal_sector_size RegisteredSealProof.StackedDRG512MiBV1P1 = Inr Size512MiB"
| "seal_sector_size RegisteredSealProof.StackedDRG512MiBV1P1_Feat_SyntheticPoRep = Inr Size512MiB"
| "seal_sector_size RegisteredSealProof.StackedDRG512MiBV1P2_Feat_NiPoRep = Inr Size512MiB"
| "seal_sector_size RegisteredSealProof.StackedDRG32GiBV1 = Inr Size32GiB"
| "seal_sector_size RegisteredSealProof.StackedDRG32GiBV1P1 = Inr Size32GiB"
| "seal_sector_size RegisteredSealProof.StackedDRG32GiBV1P1_Feat_SyntheticPoRep = Inr Size32GiB"
| "seal_sector_size RegisteredSealProof.StackedDRG32GiBV1P2_Feat_NiPoRep = Inr Size32GiB"
| "seal_sector_size RegisteredSealProof.StackedDRG64GiBV1 = Inr Size64GiB"
| "seal_sector_size RegisteredSealProof.StackedDRG64GiBV1P1 = Inr Size64GiB"
| "seal_sector_size RegisteredSealProof.StackedDRG64GiBV1P1_Feat_SyntheticPoRep = Inr Size64GiB"
| "seal_sector_size RegisteredSealProof.StackedDRG64GiBV1P2_Feat_NiPoRep = Inr Size64GiB"
| "seal_sector_size (RegisteredSealProof.Invalid i) = Inl ()"

fun seal_window_post_partition_sectors :: "RegisteredSealProof \<Rightarrow> unit + u64" where
  "seal_window_post_partition_sectors RegisteredSealProof.StackedDRG64GiBV1 = Inr 2300"
| "seal_window_post_partition_sectors RegisteredSealProof.StackedDRG64GiBV1P1 = Inr 2300"
| "seal_window_post_partition_sectors RegisteredSealProof.StackedDRG64GiBV1P1_Feat_SyntheticPoRep = Inr 2300"
| "seal_window_post_partition_sectors RegisteredSealProof.StackedDRG64GiBV1P2_Feat_NiPoRep = Inr 2300"
| "seal_window_post_partition_sectors RegisteredSealProof.StackedDRG32GiBV1 = Inr 2349"
| "seal_window_post_partition_sectors RegisteredSealProof.StackedDRG32GiBV1P1 = Inr 2349"
| "seal_window_post_partition_sectors RegisteredSealProof.StackedDRG32GiBV1P1_Feat_SyntheticPoRep = Inr 2349"
| "seal_window_post_partition_sectors RegisteredSealProof.StackedDRG32GiBV1P2_Feat_NiPoRep = Inr 2349"
| "seal_window_post_partition_sectors RegisteredSealProof.StackedDRG2KiBV1 = Inr 2"
| "seal_window_post_partition_sectors RegisteredSealProof.StackedDRG2KiBV1P1 = Inr 2"
| "seal_window_post_partition_sectors RegisteredSealProof.StackedDRG2KiBV1P1_Feat_SyntheticPoRep = Inr 2"
| "seal_window_post_partition_sectors RegisteredSealProof.StackedDRG2KiBV1P2_Feat_NiPoRep = Inr 2"
| "seal_window_post_partition_sectors RegisteredSealProof.StackedDRG8MiBV1 = Inr 2"
| "seal_window_post_partition_sectors RegisteredSealProof.StackedDRG8MiBV1P1 = Inr 2"
| "seal_window_post_partition_sectors RegisteredSealProof.StackedDRG8MiBV1P1_Feat_SyntheticPoRep = Inr 2"
| "seal_window_post_partition_sectors RegisteredSealProof.StackedDRG8MiBV1P2_Feat_NiPoRep = Inr 2"
| "seal_window_post_partition_sectors RegisteredSealProof.StackedDRG512MiBV1 = Inr 2"
| "seal_window_post_partition_sectors RegisteredSealProof.StackedDRG512MiBV1P1 = Inr 2"
| "seal_window_post_partition_sectors RegisteredSealProof.StackedDRG512MiBV1P1_Feat_SyntheticPoRep = Inr 2"
| "seal_window_post_partition_sectors RegisteredSealProof.StackedDRG512MiBV1P2_Feat_NiPoRep = Inr 2"
| "seal_window_post_partition_sectors (RegisteredSealProof.Invalid i) = Inl ()"

fun registered_window_post_proof :: "RegisteredSealProof \<Rightarrow> unit + RegisteredPoStProof" where
  "registered_window_post_proof RegisteredSealProof.StackedDRG64GiBV1 = Inr RegisteredPoStProof.StackedDRGWindow64GiBV1P1"
| "registered_window_post_proof RegisteredSealProof.StackedDRG64GiBV1P1 = Inr RegisteredPoStProof.StackedDRGWindow64GiBV1P1"
| "registered_window_post_proof RegisteredSealProof.StackedDRG64GiBV1P1_Feat_SyntheticPoRep = Inr RegisteredPoStProof.StackedDRGWindow64GiBV1P1"
| "registered_window_post_proof RegisteredSealProof.StackedDRG64GiBV1P2_Feat_NiPoRep = Inr RegisteredPoStProof.StackedDRGWindow64GiBV1P1"
| "registered_window_post_proof RegisteredSealProof.StackedDRG32GiBV1 = Inr RegisteredPoStProof.StackedDRGWindow32GiBV1P1"
| "registered_window_post_proof RegisteredSealProof.StackedDRG32GiBV1P1 = Inr RegisteredPoStProof.StackedDRGWindow32GiBV1P1"
| "registered_window_post_proof RegisteredSealProof.StackedDRG32GiBV1P1_Feat_SyntheticPoRep = Inr RegisteredPoStProof.StackedDRGWindow32GiBV1P1"
| "registered_window_post_proof RegisteredSealProof.StackedDRG32GiBV1P2_Feat_NiPoRep = Inr RegisteredPoStProof.StackedDRGWindow32GiBV1P1"
| "registered_window_post_proof RegisteredSealProof.StackedDRG2KiBV1 = Inr RegisteredPoStProof.StackedDRGWindow2KiBV1P1"
| "registered_window_post_proof RegisteredSealProof.StackedDRG2KiBV1P1 = Inr RegisteredPoStProof.StackedDRGWindow2KiBV1P1"
| "registered_window_post_proof RegisteredSealProof.StackedDRG2KiBV1P1_Feat_SyntheticPoRep = Inr RegisteredPoStProof.StackedDRGWindow2KiBV1P1"
| "registered_window_post_proof RegisteredSealProof.StackedDRG2KiBV1P2_Feat_NiPoRep = Inr RegisteredPoStProof.StackedDRGWindow2KiBV1P1"
| "registered_window_post_proof RegisteredSealProof.StackedDRG8MiBV1 = Inr RegisteredPoStProof.StackedDRGWindow8MiBV1P1"
| "registered_window_post_proof RegisteredSealProof.StackedDRG8MiBV1P1 = Inr RegisteredPoStProof.StackedDRGWindow8MiBV1P1"
| "registered_window_post_proof RegisteredSealProof.StackedDRG8MiBV1P1_Feat_SyntheticPoRep = Inr RegisteredPoStProof.StackedDRGWindow8MiBV1P1"
| "registered_window_post_proof RegisteredSealProof.StackedDRG8MiBV1P2_Feat_NiPoRep = Inr RegisteredPoStProof.StackedDRGWindow8MiBV1P1"
| "registered_window_post_proof RegisteredSealProof.StackedDRG512MiBV1 = Inr RegisteredPoStProof.StackedDRGWindow512MiBV1P1"
| "registered_window_post_proof RegisteredSealProof.StackedDRG512MiBV1P1 = Inr RegisteredPoStProof.StackedDRGWindow512MiBV1P1"
| "registered_window_post_proof RegisteredSealProof.StackedDRG512MiBV1P1_Feat_SyntheticPoRep = Inr RegisteredPoStProof.StackedDRGWindow512MiBV1P1"
| "registered_window_post_proof RegisteredSealProof.StackedDRG512MiBV1P2_Feat_NiPoRep = Inr RegisteredPoStProof.StackedDRGWindow512MiBV1P1"
| "registered_window_post_proof (RegisteredSealProof.Invalid i) = Inl ()"

fun registered_update_proof :: "RegisteredSealProof \<Rightarrow> unit + RegisteredUpdateProof" where
  "registered_update_proof RegisteredSealProof.StackedDRG64GiBV1 = Inr RegisteredUpdateProof.StackedDRG64GiBV1"
| "registered_update_proof RegisteredSealProof.StackedDRG64GiBV1P1 = Inr RegisteredUpdateProof.StackedDRG64GiBV1"
| "registered_update_proof RegisteredSealProof.StackedDRG64GiBV1P1_Feat_SyntheticPoRep = Inr RegisteredUpdateProof.StackedDRG64GiBV1"
| "registered_update_proof RegisteredSealProof.StackedDRG64GiBV1P2_Feat_NiPoRep = Inr RegisteredUpdateProof.StackedDRG64GiBV1"
| "registered_update_proof RegisteredSealProof.StackedDRG32GiBV1 = Inr RegisteredUpdateProof.StackedDRG32GiBV1"
| "registered_update_proof RegisteredSealProof.StackedDRG32GiBV1P1 = Inr RegisteredUpdateProof.StackedDRG32GiBV1"
| "registered_update_proof RegisteredSealProof.StackedDRG32GiBV1P1_Feat_SyntheticPoRep = Inr RegisteredUpdateProof.StackedDRG32GiBV1"
| "registered_update_proof RegisteredSealProof.StackedDRG32GiBV1P2_Feat_NiPoRep = Inr RegisteredUpdateProof.StackedDRG32GiBV1"
| "registered_update_proof RegisteredSealProof.StackedDRG2KiBV1 = Inr RegisteredUpdateProof.StackedDRG2KiBV1"
| "registered_update_proof RegisteredSealProof.StackedDRG2KiBV1P1 = Inr RegisteredUpdateProof.StackedDRG2KiBV1"
| "registered_update_proof RegisteredSealProof.StackedDRG2KiBV1P1_Feat_SyntheticPoRep = Inr RegisteredUpdateProof.StackedDRG2KiBV1"
| "registered_update_proof RegisteredSealProof.StackedDRG2KiBV1P2_Feat_NiPoRep = Inr RegisteredUpdateProof.StackedDRG2KiBV1"
| "registered_update_proof RegisteredSealProof.StackedDRG8MiBV1 = Inr RegisteredUpdateProof.StackedDRG8MiBV1"
| "registered_update_proof RegisteredSealProof.StackedDRG8MiBV1P1 = Inr RegisteredUpdateProof.StackedDRG8MiBV1"
| "registered_update_proof RegisteredSealProof.StackedDRG8MiBV1P1_Feat_SyntheticPoRep = Inr RegisteredUpdateProof.StackedDRG8MiBV1"
| "registered_update_proof RegisteredSealProof.StackedDRG8MiBV1P2_Feat_NiPoRep = Inr RegisteredUpdateProof.StackedDRG8MiBV1"
| "registered_update_proof RegisteredSealProof.StackedDRG512MiBV1 = Inr RegisteredUpdateProof.StackedDRG512MiBV1"
| "registered_update_proof RegisteredSealProof.StackedDRG512MiBV1P1 = Inr RegisteredUpdateProof.StackedDRG512MiBV1"
| "registered_update_proof RegisteredSealProof.StackedDRG512MiBV1P1_Feat_SyntheticPoRep = Inr RegisteredUpdateProof.StackedDRG512MiBV1"
| "registered_update_proof RegisteredSealProof.StackedDRG512MiBV1P2_Feat_NiPoRep = Inr RegisteredUpdateProof.StackedDRG512MiBV1"
| "registered_update_proof (RegisteredSealProof.Invalid i) = Inl ()"

subsection \<open>Functions of the PoSt proof\<close>

fun post_sector_size :: "RegisteredPoStProof \<Rightarrow> unit + SectorSize" where
  "post_sector_size RegisteredPoStProof.StackedDRGWindow2KiBV1P1 = Inr Size2KiB"
| "post_sector_size RegisteredPoStProof.StackedDRGWinning2KiBV1 = Inr Size2KiB"
| "post_sector_size RegisteredPoStProof.StackedDRGWindow8MiBV1P1 = Inr Size8MiB"
| "post_sector_size RegisteredPoStProof.StackedDRGWinning8MiBV1 = Inr Size8MiB"
| "post_sector_size RegisteredPoStProof.StackedDRGWindow512MiBV1P1 = Inr Size512MiB"
| "post_sector_size RegisteredPoStProof.StackedDRGWinning512MiBV1 = Inr Size512MiB"
| "post_sector_size RegisteredPoStProof.StackedDRGWindow32GiBV1P1 = Inr Size32GiB"
| "post_sector_size RegisteredPoStProof.StackedDRGWinning32GiBV1 = Inr Size32GiB"
| "post_sector_size RegisteredPoStProof.StackedDRGWindow64GiBV1P1 = Inr Size64GiB"
| "post_sector_size RegisteredPoStProof.StackedDRGWinning64GiBV1 = Inr Size64GiB"
| "post_sector_size (RegisteredPoStProof.Invalid i) = Inl ()"

fun post_proof_size :: "RegisteredPoStProof \<Rightarrow> unit + nat" where
  "post_proof_size RegisteredPoStProof.StackedDRGWinning2KiBV1 = Inr 192"
| "post_proof_size RegisteredPoStProof.StackedDRGWinning8MiBV1 = Inr 192"
| "post_proof_size RegisteredPoStProof.StackedDRGWinning512MiBV1 = Inr 192"
| "post_proof_size RegisteredPoStProof.StackedDRGWinning32GiBV1 = Inr 192"
| "post_proof_size RegisteredPoStProof.StackedDRGWinning64GiBV1 = Inr 192"
| "post_proof_size RegisteredPoStProof.StackedDRGWindow2KiBV1P1 = Inr 192"
| "post_proof_size RegisteredPoStProof.StackedDRGWindow8MiBV1P1 = Inr 192"
| "post_proof_size RegisteredPoStProof.StackedDRGWindow512MiBV1P1 = Inr 192"
| "post_proof_size RegisteredPoStProof.StackedDRGWindow32GiBV1P1 = Inr 192"
| "post_proof_size RegisteredPoStProof.StackedDRGWindow64GiBV1P1 = Inr 192"
| "post_proof_size (RegisteredPoStProof.Invalid i) = Inl ()"

fun post_window_post_partition_sectors :: "RegisteredPoStProof \<Rightarrow> unit + u64" where
  "post_window_post_partition_sectors RegisteredPoStProof.StackedDRGWinning64GiBV1 = Inr 2300"
| "post_window_post_partition_sectors RegisteredPoStProof.StackedDRGWindow64GiBV1P1 = Inr 2300"
| "post_window_post_partition_sectors RegisteredPoStProof.StackedDRGWinning32GiBV1 = Inr 2349"
| "post_window_post_partition_sectors RegisteredPoStProof.StackedDRGWindow32GiBV1P1 = Inr 2349"
| "post_window_post_partition_sectors RegisteredPoStProof.StackedDRGWinning2KiBV1 = Inr 2"
| "post_window_post_partition_sectors RegisteredPoStProof.StackedDRGWindow2KiBV1P1 = Inr 2"
| "post_window_post_partition_sectors RegisteredPoStProof.StackedDRGWinning8MiBV1 = Inr 2"
| "post_window_post_partition_sectors RegisteredPoStProof.StackedDRGWindow8MiBV1P1 = Inr 2"
| "post_window_post_partition_sectors RegisteredPoStProof.StackedDRGWinning512MiBV1 = Inr 2"
| "post_window_post_partition_sectors RegisteredPoStProof.StackedDRGWindow512MiBV1P1 = Inr 2"
| "post_window_post_partition_sectors (RegisteredPoStProof.Invalid i) = Inl ()"

subsection \<open>Conversions from and to i64\<close>

definition post_from_i64 :: "i64 \<Rightarrow> RegisteredPoStProof" where
  "post_from_i64 value =
    (if value = 0 then RegisteredPoStProof.StackedDRGWinning2KiBV1
     else if value = 1 then RegisteredPoStProof.StackedDRGWinning8MiBV1
     else if value = 2 then RegisteredPoStProof.StackedDRGWinning512MiBV1
     else if value = 3 then RegisteredPoStProof.StackedDRGWinning32GiBV1
     else if value = 4 then RegisteredPoStProof.StackedDRGWinning64GiBV1
     else if value = 10 then RegisteredPoStProof.StackedDRGWindow2KiBV1P1
     else if value = 11 then RegisteredPoStProof.StackedDRGWindow8MiBV1P1
     else if value = 12 then RegisteredPoStProof.StackedDRGWindow512MiBV1P1
     else if value = 13 then RegisteredPoStProof.StackedDRGWindow32GiBV1P1
     else if value = 14 then RegisteredPoStProof.StackedDRGWindow64GiBV1P1
     else RegisteredPoStProof.Invalid value)"

fun post_to_i64 :: "RegisteredPoStProof \<Rightarrow> i64" where
  "post_to_i64 RegisteredPoStProof.StackedDRGWinning2KiBV1 = 0"
| "post_to_i64 RegisteredPoStProof.StackedDRGWinning8MiBV1 = 1"
| "post_to_i64 RegisteredPoStProof.StackedDRGWinning512MiBV1 = 2"
| "post_to_i64 RegisteredPoStProof.StackedDRGWinning32GiBV1 = 3"
| "post_to_i64 RegisteredPoStProof.StackedDRGWinning64GiBV1 = 4"
| "post_to_i64 RegisteredPoStProof.StackedDRGWindow2KiBV1P1 = 10"
| "post_to_i64 RegisteredPoStProof.StackedDRGWindow8MiBV1P1 = 11"
| "post_to_i64 RegisteredPoStProof.StackedDRGWindow512MiBV1P1 = 12"
| "post_to_i64 RegisteredPoStProof.StackedDRGWindow32GiBV1P1 = 13"
| "post_to_i64 RegisteredPoStProof.StackedDRGWindow64GiBV1P1 = 14"
| "post_to_i64 (RegisteredPoStProof.Invalid other) = other"

definition seal_from_i64 :: "i64 \<Rightarrow> RegisteredSealProof" where
  "seal_from_i64 value =
    (if value = 0 then RegisteredSealProof.StackedDRG2KiBV1
     else if value = 1 then RegisteredSealProof.StackedDRG8MiBV1
     else if value = 2 then RegisteredSealProof.StackedDRG512MiBV1
     else if value = 3 then RegisteredSealProof.StackedDRG32GiBV1
     else if value = 4 then RegisteredSealProof.StackedDRG64GiBV1
     else if value = 5 then RegisteredSealProof.StackedDRG2KiBV1P1
     else if value = 6 then RegisteredSealProof.StackedDRG8MiBV1P1
     else if value = 7 then RegisteredSealProof.StackedDRG512MiBV1P1
     else if value = 8 then RegisteredSealProof.StackedDRG32GiBV1P1
     else if value = 9 then RegisteredSealProof.StackedDRG64GiBV1P1
     else if value = 10 then RegisteredSealProof.StackedDRG2KiBV1P1_Feat_SyntheticPoRep
     else if value = 11 then RegisteredSealProof.StackedDRG8MiBV1P1_Feat_SyntheticPoRep
     else if value = 12 then RegisteredSealProof.StackedDRG512MiBV1P1_Feat_SyntheticPoRep
     else if value = 13 then RegisteredSealProof.StackedDRG32GiBV1P1_Feat_SyntheticPoRep
     else if value = 14 then RegisteredSealProof.StackedDRG64GiBV1P1_Feat_SyntheticPoRep
     else if value = 15 then RegisteredSealProof.StackedDRG2KiBV1P2_Feat_NiPoRep
     else if value = 16 then RegisteredSealProof.StackedDRG8MiBV1P2_Feat_NiPoRep
     else if value = 17 then RegisteredSealProof.StackedDRG512MiBV1P2_Feat_NiPoRep
     else if value = 18 then RegisteredSealProof.StackedDRG32GiBV1P2_Feat_NiPoRep
     else if value = 19 then RegisteredSealProof.StackedDRG64GiBV1P2_Feat_NiPoRep
     else RegisteredSealProof.Invalid value)"

fun seal_to_i64 :: "RegisteredSealProof \<Rightarrow> i64" where
  "seal_to_i64 RegisteredSealProof.StackedDRG2KiBV1 = 0"
| "seal_to_i64 RegisteredSealProof.StackedDRG8MiBV1 = 1"
| "seal_to_i64 RegisteredSealProof.StackedDRG512MiBV1 = 2"
| "seal_to_i64 RegisteredSealProof.StackedDRG32GiBV1 = 3"
| "seal_to_i64 RegisteredSealProof.StackedDRG64GiBV1 = 4"
| "seal_to_i64 RegisteredSealProof.StackedDRG2KiBV1P1 = 5"
| "seal_to_i64 RegisteredSealProof.StackedDRG8MiBV1P1 = 6"
| "seal_to_i64 RegisteredSealProof.StackedDRG512MiBV1P1 = 7"
| "seal_to_i64 RegisteredSealProof.StackedDRG32GiBV1P1 = 8"
| "seal_to_i64 RegisteredSealProof.StackedDRG64GiBV1P1 = 9"
| "seal_to_i64 RegisteredSealProof.StackedDRG2KiBV1P1_Feat_SyntheticPoRep = 10"
| "seal_to_i64 RegisteredSealProof.StackedDRG8MiBV1P1_Feat_SyntheticPoRep = 11"
| "seal_to_i64 RegisteredSealProof.StackedDRG512MiBV1P1_Feat_SyntheticPoRep = 12"
| "seal_to_i64 RegisteredSealProof.StackedDRG32GiBV1P1_Feat_SyntheticPoRep = 13"
| "seal_to_i64 RegisteredSealProof.StackedDRG64GiBV1P1_Feat_SyntheticPoRep = 14"
| "seal_to_i64 RegisteredSealProof.StackedDRG2KiBV1P2_Feat_NiPoRep = 15"
| "seal_to_i64 RegisteredSealProof.StackedDRG8MiBV1P2_Feat_NiPoRep = 16"
| "seal_to_i64 RegisteredSealProof.StackedDRG512MiBV1P2_Feat_NiPoRep = 17"
| "seal_to_i64 RegisteredSealProof.StackedDRG32GiBV1P2_Feat_NiPoRep = 18"
| "seal_to_i64 RegisteredSealProof.StackedDRG64GiBV1P2_Feat_NiPoRep = 19"
| "seal_to_i64 (RegisteredSealProof.Invalid other) = other"

definition aggregate_from_i64 :: "i64 \<Rightarrow> RegisteredAggregateProof" where
  "aggregate_from_i64 value =
    (if value = 0 then RegisteredAggregateProof.SnarkPackV1
     else if value = 1 then RegisteredAggregateProof.SnarkPackV2
     else RegisteredAggregateProof.Invalid value)"

fun aggregate_to_i64 :: "RegisteredAggregateProof \<Rightarrow> i64" where
  "aggregate_to_i64 RegisteredAggregateProof.SnarkPackV1 = 0"
| "aggregate_to_i64 RegisteredAggregateProof.SnarkPackV2 = 1"
| "aggregate_to_i64 (RegisteredAggregateProof.Invalid other) = other"

definition update_from_i64 :: "i64 \<Rightarrow> RegisteredUpdateProof" where
  "update_from_i64 value =
    (if value = 0 then RegisteredUpdateProof.StackedDRG2KiBV1
     else if value = 1 then RegisteredUpdateProof.StackedDRG8MiBV1
     else if value = 2 then RegisteredUpdateProof.StackedDRG512MiBV1
     else if value = 3 then RegisteredUpdateProof.StackedDRG32GiBV1
     else if value = 4 then RegisteredUpdateProof.StackedDRG64GiBV1
     else RegisteredUpdateProof.Invalid value)"

fun update_to_i64 :: "RegisteredUpdateProof \<Rightarrow> i64" where
  "update_to_i64 RegisteredUpdateProof.StackedDRG2KiBV1 = 0"
| "update_to_i64 RegisteredUpdateProof.StackedDRG8MiBV1 = 1"
| "update_to_i64 RegisteredUpdateProof.StackedDRG512MiBV1 = 2"
| "update_to_i64 RegisteredUpdateProof.StackedDRG32GiBV1 = 3"
| "update_to_i64 RegisteredUpdateProof.StackedDRG64GiBV1 = 4"
| "update_to_i64 (RegisteredUpdateProof.Invalid other) = other"

subsection \<open>Properties\<close>

lemma post_to_from: "post_to_i64 (post_from_i64 v) = v"
  by (simp add: post_from_i64_def)

lemma seal_to_from: "seal_to_i64 (seal_from_i64 v) = v"
  by (simp add: seal_from_i64_def)

lemma aggregate_to_from: "aggregate_to_i64 (aggregate_from_i64 v) = v"
  by (simp add: aggregate_from_i64_def)

lemma update_to_from: "update_to_i64 (update_from_i64 v) = v"
  by (simp add: update_from_i64_def)

lemma seal_from_to:
  "(\<forall>i. p \<noteq> RegisteredSealProof.Invalid i) \<Longrightarrow> seal_from_i64 (seal_to_i64 p) = p"
  by (cases p) (simp_all add: seal_from_i64_def)

lemma post_from_to:
  "(\<forall>i. p \<noteq> RegisteredPoStProof.Invalid i) \<Longrightarrow> post_from_i64 (post_to_i64 p) = p"
  by (cases p) (simp_all add: post_from_i64_def)

text \<open>
  The \<open>i64\<close> encodings of the proof types round trip. Decoding any \<open>i64\<close> and encoding the
  result gives the same number, so unknown numbers survive; encoding a named proof type and
  decoding it gives the type back, so no two named types share a number.
\<close>

theorem proof_type_roundtrip:
  "seal_to_i64 (seal_from_i64 v) = v \<and> post_to_i64 (post_from_i64 v) = v \<and>
   aggregate_to_i64 (aggregate_from_i64 v) = v \<and> update_to_i64 (update_from_i64 v) = v \<and>
   (seal_from_i64 (seal_to_i64 p) = p \<or> (\<exists>i. p = RegisteredSealProof.Invalid i)) \<and>
   (post_from_i64 (post_to_i64 q) = q \<or> (\<exists>i. q = RegisteredPoStProof.Invalid i))"
  using seal_from_to [of p] post_from_to [of q]
  by (auto simp: seal_to_from post_to_from aggregate_to_from update_to_from)

text \<open>
  The derived proof types agree on the sector. The window PoSt proof of a seal proof exists
  exactly for the named seal proofs, has the same sector size and the same partition size as the
  seal proof; the update to version 1 changes neither, leaves no version-0 proof, and the proof
  chosen for a sector size has that sector size.
\<close>

theorem derived_proofs_same_sector:
  "(case registered_window_post_proof p of
      Inr w \<Rightarrow> post_sector_size w = seal_sector_size p \<and>
        post_window_post_partition_sectors w = seal_window_post_partition_sectors p \<and>
        (\<exists>u. registered_update_proof p = Inr u)
    | Inl _ \<Rightarrow> (\<exists>i. p = RegisteredSealProof.Invalid i)) \<and>
   seal_sector_size (update_to_v1 p) = seal_sector_size p \<and>
   seal_window_post_partition_sectors (update_to_v1 p) = seal_window_post_partition_sectors p \<and>
   update_to_v1 (update_to_v1 p) = update_to_v1 p \<and>
   seal_sector_size (from_sector_size sz nv) = Inr sz \<and>
   update_to_v1 (from_sector_size sz nv) = from_sector_size sz 7"
proof -
  have "seal_sector_size (from_sector_size sz nv) = Inr sz"
    and "update_to_v1 (from_sector_size sz nv) = from_sector_size sz 7"
    by (cases sz; simp add: from_sector_size_def update_to_v1_def)+
  then show ?thesis
    by (cases p) (simp_all add: update_to_v1_def)
qed

end
