(* ===== verification/PriceList.thy ===== *)
theory PriceList
  imports Gas RegisteredProof
begin

text \<open>
  The price list of \<open>fvm/src/gas/price_list.rs\<close>: the record of prices, the Watermelon prices that
  every supported network version uses, and one function per operation of the virtual machine
  that says what it costs. A \<open>usize\<close> argument (a length) is a natural number. The hash maps of the
  code whose keys cover an enumeration are functions, the others are partial maps. The
  instruction costs (\<open>impl Rules for WasmGasPrices\<close>) are consumed by the \<open>wasmtime\<close>
  instrumentation crate and are not modelled.
\<close>

subsection \<open>Cost shapes\<close>

record ScalingCost =
  flat :: Gas
  scale :: Gas

definition apply_cost :: "ScalingCost \<Rightarrow> nat \<Rightarrow> Gas" where
  "apply_cost c v = flat c + gas_mul_usize (scale c) v"

definition apply_cost_u64 :: "ScalingCost \<Rightarrow> u64 \<Rightarrow> Gas" where
  "apply_cost_u64 c v = flat c + gas_mul (scale c) v"

definition apply_cost_u32 :: "ScalingCost \<Rightarrow> u32 \<Rightarrow> Gas" where
  "apply_cost_u32 c v = flat c + gas_mul_u32 (scale c) v"

definition fixed_cost :: "Gas \<Rightarrow> ScalingCost" where
  "fixed_cost g = \<lparr>flat = g, scale = 0\<rparr>"

definition zero_cost :: ScalingCost where
  "zero_cost = \<lparr>flat = 0, scale = 0\<rparr>"

record Step =
  start :: u64
  cost :: Gas

type_synonym StepCost = "Step list"

definition lookup_step :: "StepCost \<Rightarrow> u64 \<Rightarrow> Gas" where
  "lookup_step steps x = (case List.find (\<lambda>s. start s \<le> x) (rev steps) of
      Some s \<Rightarrow> cost s
    | None \<Rightarrow> 0)"

datatype SupportedHashes = Sha2_256 | Blake2b256 | Blake2b512 | Keccak256 | Ripemd160

datatype SignatureType = Secp256k1 | BLS

definition TABLE_ELEMENT_SIZE :: u32 where
  "TABLE_ELEMENT_SIZE = 8"

definition EVENT_OVERHEAD :: u64 where
  "EVENT_OVERHEAD = 12"

definition EVENT_ENTRY_OVERHEAD :: u64 where
  "EVENT_ENTRY_OVERHEAD = 9"

subsection \<open>The prices\<close>

record WasmGasPrices =
  instruction_default :: Gas
  math_default :: Gas
  jump_unconditional :: Gas
  jump_conditional :: Gas
  jump_indirect :: Gas
  wasm_call :: Gas
  memory_fill_base_cost :: Gas
  memory_fill_per_byte_cost :: Gas
  memory_access_cost :: Gas
  memory_copy_per_byte_cost :: Gas
  host_call_cost :: Gas

record PriceList =
  p_on_chain_message_compute :: ScalingCost
  p_on_chain_message_storage :: ScalingCost
  p_on_chain_return_compute :: ScalingCost
  p_on_chain_return_storage :: ScalingCost
  p_send_transfer_funds :: Gas
  p_send_invoke_method :: Gas
  p_address_lookup :: Gas
  p_address_assignment :: Gas
  p_actor_lookup :: Gas
  p_actor_update :: Gas
  p_actor_create_storage :: Gas
  p_sig_cost :: "SignatureType \<Rightarrow> ScalingCost"
  p_secp256k1_recover_cost :: Gas
  p_bls_pairing_cost :: Gas
  p_bls_hashing_cost :: ScalingCost
  p_hashing_cost :: "SupportedHashes \<Rightarrow> ScalingCost"
  p_lookback_cost :: ScalingCost
  p_compute_unsealed_sector_cid_base :: Gas
  p_verify_seal_base :: Gas
  p_verify_aggregate_seal_per :: "RegisteredSealProof \<rightharpoonup> Gas"
  p_verify_aggregate_seal_steps :: "RegisteredSealProof \<rightharpoonup> StepCost"
  p_verify_post_lookup :: "RegisteredPoStProof \<rightharpoonup> ScalingCost"
  p_verify_consensus_fault :: Gas
  p_verify_replica_update :: Gas
  p_block_memcpy :: ScalingCost
  p_block_allocate :: ScalingCost
  p_block_memory_retention_minimum :: ScalingCost
  p_block_open :: ScalingCost
  p_block_persist_storage :: ScalingCost
  p_block_persist_compute :: Gas
  p_wasm_rules :: WasmGasPrices
  p_event_per_entry :: ScalingCost
  p_builtin_actor_manifest_lookup :: Gas
  p_utf8_validation :: ScalingCost
  p_network_context :: Gas
  p_message_context :: Gas
  p_install_wasm_per_byte_cost :: Gas
  p_preloaded_actors :: "u64 list"
  p_ipld_cbor_scan_per_field :: Gas
  p_ipld_cbor_scan_per_cid :: Gas
  p_ipld_link_tracked :: Gas
  p_ipld_link_checked :: Gas

fun watermelon_sig_cost :: "SignatureType \<Rightarrow> ScalingCost" where
  "watermelon_sig_cost Secp256k1 = \<lparr>flat = gas_new 1637292, scale = gas_new 10\<rparr>"
| "watermelon_sig_cost BLS = \<lparr>flat = gas_new 16598605, scale = gas_new 26\<rparr>"

fun watermelon_hashing_cost :: "SupportedHashes \<Rightarrow> ScalingCost" where
  "watermelon_hashing_cost Sha2_256 = \<lparr>flat = 0, scale = gas_new 7\<rparr>"
| "watermelon_hashing_cost Blake2b256 = \<lparr>flat = 0, scale = gas_new 10\<rparr>"
| "watermelon_hashing_cost Blake2b512 = \<lparr>flat = 0, scale = gas_new 10\<rparr>"
| "watermelon_hashing_cost Keccak256 = \<lparr>flat = 0, scale = gas_new 33\<rparr>"
| "watermelon_hashing_cost Ripemd160 = \<lparr>flat = 0, scale = gas_new 35\<rparr>"

definition watermelon_aggregate_seal_per :: "RegisteredSealProof \<rightharpoonup> Gas" where
  "watermelon_aggregate_seal_per =
    [RegisteredSealProof.StackedDRG32GiBV1P1 \<mapsto> gas_new 449900,
     RegisteredSealProof.StackedDRG64GiBV1P1 \<mapsto> gas_new 359272]"

definition watermelon_aggregate_seal_steps :: "RegisteredSealProof \<rightharpoonup> StepCost" where
  "watermelon_aggregate_seal_steps =
    [RegisteredSealProof.StackedDRG32GiBV1P1 \<mapsto>
       [\<lparr>start = 4, cost = gas_new 103994170\<rparr>, \<lparr>start = 7, cost = gas_new 112356810\<rparr>,
        \<lparr>start = 13, cost = gas_new 122912610\<rparr>, \<lparr>start = 26, cost = gas_new 137559930\<rparr>,
        \<lparr>start = 52, cost = gas_new 162039100\<rparr>, \<lparr>start = 103, cost = gas_new 210960780\<rparr>,
        \<lparr>start = 205, cost = gas_new 318351180\<rparr>, \<lparr>start = 410, cost = gas_new 528274980\<rparr>],
     RegisteredSealProof.StackedDRG64GiBV1P1 \<mapsto>
       [\<lparr>start = 4, cost = gas_new 102581240\<rparr>, \<lparr>start = 7, cost = gas_new 110803030\<rparr>,
        \<lparr>start = 13, cost = gas_new 120803700\<rparr>, \<lparr>start = 26, cost = gas_new 134642130\<rparr>,
        \<lparr>start = 52, cost = gas_new 157357890\<rparr>, \<lparr>start = 103, cost = gas_new 203017690\<rparr>,
        \<lparr>start = 205, cost = gas_new 304253590\<rparr>, \<lparr>start = 410, cost = gas_new 509880640\<rparr>]]"

definition watermelon_post_lookup :: "RegisteredPoStProof \<rightharpoonup> ScalingCost" where
  "watermelon_post_lookup =
    [RegisteredPoStProof.StackedDRGWindow512MiBV1P1 \<mapsto> \<lparr>flat = gas_new 117680921, scale = gas_new 43780\<rparr>,
     RegisteredPoStProof.StackedDRGWindow32GiBV1P1 \<mapsto> \<lparr>flat = gas_new 117680921, scale = gas_new 43780\<rparr>,
     RegisteredPoStProof.StackedDRGWindow64GiBV1P1 \<mapsto> \<lparr>flat = gas_new 117680921, scale = gas_new 43780\<rparr>]"

definition watermelon_wasm_rules :: WasmGasPrices where
  "watermelon_wasm_rules = \<lparr>
    instruction_default = gas_new 4,
    math_default = gas_new 4,
    jump_unconditional = gas_new 4,
    jump_conditional = gas_new 4,
    jump_indirect = gas_new 4,
    wasm_call = 0,
    memory_fill_base_cost = 0,
    memory_fill_per_byte_cost = from_milligas 400,
    memory_access_cost = 0,
    memory_copy_per_byte_cost = from_milligas 400,
    host_call_cost = gas_new 14000\<rparr>"

definition WATERMELON_PRICES :: PriceList where
  "WATERMELON_PRICES = \<lparr>
    p_on_chain_message_compute = fixed_cost (gas_new 38863),
    p_on_chain_message_storage = \<lparr>flat = gas_new (36 * 1300), scale = gas_new 1300\<rparr>,
    p_on_chain_return_compute = zero_cost,
    p_on_chain_return_storage = \<lparr>flat = 0, scale = gas_new 1300\<rparr>,
    p_send_transfer_funds = gas_new 6000,
    p_send_invoke_method = gas_new 75000,
    p_address_lookup = gas_new 1050000,
    p_address_assignment = gas_new 1000000,
    p_actor_lookup = gas_new 500000,
    p_actor_update = gas_new 475000,
    p_actor_create_storage = gas_new 650000,
    p_sig_cost = watermelon_sig_cost,
    p_secp256k1_recover_cost = gas_new 1637292,
    p_bls_pairing_cost = gas_new 8299302,
    p_bls_hashing_cost = \<lparr>flat = 0, scale = gas_new 7\<rparr>,
    p_hashing_cost = watermelon_hashing_cost,
    p_lookback_cost = \<lparr>flat = gas_new (5800 * 19 + 15000 + 21000), scale = gas_new 75\<rparr>,
    p_compute_unsealed_sector_cid_base = gas_new 98647,
    p_verify_seal_base = gas_new 2000,
    p_verify_aggregate_seal_per = watermelon_aggregate_seal_per,
    p_verify_aggregate_seal_steps = watermelon_aggregate_seal_steps,
    p_verify_post_lookup = watermelon_post_lookup,
    p_verify_consensus_fault = gas_new 516422,
    p_verify_replica_update = gas_new 36316136,
    p_block_memcpy = \<lparr>flat = 0, scale = from_milligas 400\<rparr>,
    p_block_allocate = \<lparr>flat = 0, scale = gas_new 2\<rparr>,
    p_block_memory_retention_minimum = \<lparr>flat = 0, scale = gas_new 10\<rparr>,
    p_block_open = \<lparr>flat = gas_new 187440, scale = 0\<rparr>,
    p_block_persist_storage = \<lparr>flat = gas_new 334000, scale = gas_new 3340\<rparr>,
    p_block_persist_compute = gas_new 172000,
    p_wasm_rules = watermelon_wasm_rules,
    p_event_per_entry = \<lparr>flat = gas_new 2000, scale = gas_new 1400\<rparr>,
    p_builtin_actor_manifest_lookup = 0,
    p_utf8_validation = \<lparr>flat = gas_new 500, scale = gas_new 16\<rparr>,
    p_network_context = 0,
    p_message_context = 0,
    p_install_wasm_per_byte_cost = 0,
    p_preloaded_actors = [0, 1, 2, 3, 4, 5, 6, 7, 10, 99],
    p_ipld_cbor_scan_per_field = gas_new 35,
    p_ipld_cbor_scan_per_cid = gas_new 400,
    p_ipld_link_tracked = gas_new 300,
    p_ipld_link_checked = gas_new 300\<rparr>"

text \<open>A network version outside V21 to V25 makes the code panic: \<open>None\<close>.\<close>

definition price_list_by_network_version :: "u32 \<Rightarrow> PriceList option" where
  "price_list_by_network_version network_version =
    (if network_version \<in> {21, 22, 23, 24, 25} then Some WATERMELON_PRICES else None)"

subsection \<open>Wasm memory and tables\<close>

definition init_memory_gas :: "WasmGasPrices \<Rightarrow> nat \<Rightarrow> Gas" where
  "init_memory_gas w min_memory_bytes =
    memory_fill_base_cost w + gas_mul_usize (memory_fill_per_byte_cost w) min_memory_bytes"

definition grow_memory_gas :: "WasmGasPrices \<Rightarrow> nat \<Rightarrow> Gas" where
  "grow_memory_gas w grow_memory_bytes =
    memory_fill_base_cost w + gas_mul_usize (memory_fill_per_byte_cost w) grow_memory_bytes"

definition init_table_gas :: "WasmGasPrices \<Rightarrow> u32 \<Rightarrow> Gas" where
  "init_table_gas w min_table_elements =
    memory_fill_base_cost w +
    gas_mul_u32 (gas_mul_u32 (memory_fill_per_byte_cost w) min_table_elements) TABLE_ELEMENT_SIZE"

subsection \<open>The charge of each operation\<close>

definition on_chain_message :: "PriceList \<Rightarrow> nat \<Rightarrow> GasCharge" where
  "on_chain_message p msg_size = gas_charge_new ''OnChainMessage''
    (apply_cost (p_on_chain_message_compute p) msg_size)
    (p_actor_update p + apply_cost (p_on_chain_message_storage p) msg_size)"

definition on_value_transfer :: "PriceList \<Rightarrow> GasCharge" where
  "on_value_transfer p = gas_charge_new ''OnValueTransfer'' (p_send_transfer_funds p) 0"

definition on_method_invocation :: "PriceList \<Rightarrow> u32 \<Rightarrow> nat \<Rightarrow> GasCharge" where
  "on_method_invocation p param_size param_links = gas_charge_new ''OnMethodInvocation''
    (p_send_invoke_method p + gas_mul_usize (p_ipld_link_tracked p) param_links) 0"

definition on_method_return :: "PriceList \<Rightarrow> u32 \<Rightarrow> u32 \<Rightarrow> nat \<Rightarrow> GasCharge" where
  "on_method_return p call_depth return_size return_links =
    (if call_depth = 1
     then gas_charge_new ''OnChainReturnValue''
       (apply_cost_u32 (p_on_chain_return_compute p) return_size)
       (apply_cost_u32 (p_on_chain_return_storage p) return_size)
     else gas_charge_new ''OnReturnValue'' (gas_mul_usize (p_ipld_link_tracked p) return_links) 0)"

definition on_create_actor :: "PriceList \<Rightarrow> bool \<Rightarrow> GasCharge" where
  "on_create_actor p new_address =
    (let gas = p_actor_create_storage p;
         gas = (if new_address then gas + (p_address_assignment p + p_address_lookup p) else gas)
     in gas_charge_new ''OnCreateActor'' 0 gas)"

definition on_delete_actor :: "PriceList \<Rightarrow> GasCharge" where
  "on_delete_actor p = gas_charge_new ''OnDeleteActor'' 0 0"

definition on_verify_signature :: "PriceList \<Rightarrow> SignatureType \<Rightarrow> nat \<Rightarrow> GasCharge" where
  "on_verify_signature p sig_type data_len =
    gas_charge_new ''OnVerifySignature'' (apply_cost (p_sig_cost p sig_type) data_len) 0"

definition on_verify_aggregate_signature :: "PriceList \<Rightarrow> nat \<Rightarrow> nat \<Rightarrow> GasCharge" where
  "on_verify_aggregate_signature p num_sigs data_len =
    (let num_pairings = of_nat num_sigs + 1;
         gas_pairings = gas_mul (p_bls_pairing_cost p) num_pairings;
         gas_hashing = apply_cost (p_bls_hashing_cost p) data_len
     in gas_charge_new ''OnVerifyBlsAggregateSignature'' (gas_pairings + gas_hashing) 0)"

definition on_recover_secp_public_key :: "PriceList \<Rightarrow> GasCharge" where
  "on_recover_secp_public_key p = gas_charge_new ''OnRecoverSecpPublicKey'' (p_secp256k1_recover_cost p) 0"

definition on_hashing :: "PriceList \<Rightarrow> SupportedHashes \<Rightarrow> nat \<Rightarrow> GasCharge" where
  "on_hashing p hasher data_len =
    gas_charge_new ''OnHashing'' (apply_cost (p_hashing_cost p hasher) data_len) 0"

definition on_utf8_validation :: "PriceList \<Rightarrow> nat \<Rightarrow> GasCharge" where
  "on_utf8_validation p len = gas_charge_new ''OnUtf8Validation'' (apply_cost (p_utf8_validation p) len) 0"

definition on_compute_unsealed_sector_cid :: "PriceList \<Rightarrow> GasCharge" where
  "on_compute_unsealed_sector_cid p =
    gas_charge_new ''OnComputeUnsealedSectorCid'' (p_compute_unsealed_sector_cid_base p) 0"

definition on_verify_seal :: "PriceList \<Rightarrow> GasCharge" where
  "on_verify_seal p = gas_charge_new ''OnVerifySeal'' (p_verify_seal_base p) 0"

text \<open>
  The lookups of aggregate and PoSt prices fall back to one entry of the table; where that entry
  is missing the code panics (\<open>expect\<close>), here \<open>None\<close>.
\<close>

definition or_else_entry :: "('k \<rightharpoonup> 'v) \<Rightarrow> 'k \<Rightarrow> 'k \<Rightarrow> 'v option" where
  "or_else_entry m k dflt = (case m k of Some v \<Rightarrow> Some v | None \<Rightarrow> m dflt)"

definition on_verify_aggregate_seals :: "PriceList \<Rightarrow> RegisteredSealProof \<Rightarrow> nat \<Rightarrow> GasCharge option" where
  "on_verify_aggregate_seals p proof_type infos =
    Option.bind (or_else_entry (p_verify_aggregate_seal_per p) proof_type RegisteredSealProof.StackedDRG32GiBV1P1) (\<lambda>per_proof.
    Option.bind (or_else_entry (p_verify_aggregate_seal_steps p) proof_type RegisteredSealProof.StackedDRG32GiBV1P1) (\<lambda>step.
      let num = of_nat infos
      in Some (gas_charge_new ''OnVerifyAggregateSeals'' (gas_mul per_proof num + lookup_step step num) 0)))"

definition on_verify_replica_update :: "PriceList \<Rightarrow> GasCharge" where
  "on_verify_replica_update p = gas_charge_new ''OnVerifyReplicaUpdate'' (p_verify_replica_update p) 0"

definition on_verify_post :: "PriceList \<Rightarrow> RegisteredPoStProof list \<Rightarrow> nat \<Rightarrow> GasCharge option" where
  "on_verify_post p proofs challenged_sectors =
    (let p_proof = (case proofs of q # _ \<Rightarrow> q | [] \<Rightarrow> RegisteredPoStProof.StackedDRGWindow512MiBV1P1)
     in Option.bind (or_else_entry (p_verify_post_lookup p) p_proof RegisteredPoStProof.StackedDRGWindow512MiBV1P1) (\<lambda>c.
          Some (gas_charge_new ''OnVerifyPost'' (apply_cost c challenged_sectors) 0)))"

definition on_verify_consensus_fault :: "PriceList \<Rightarrow> GasCharge" where
  "on_verify_consensus_fault p = gas_charge_new ''OnVerifyConsensusFault'' 0 (p_verify_consensus_fault p)"

definition on_get_randomness :: "PriceList \<Rightarrow> i64 \<Rightarrow> GasCharge" where
  "on_get_randomness p lookback =
    gas_charge_new ''OnGetRandomness'' 0 (apply_cost_u64 (p_lookback_cost p) lookback)"

definition on_block_open_base :: "PriceList \<Rightarrow> GasCharge" where
  "on_block_open_base p = gas_charge_new ''OnBlockOpenBase'' (p_ipld_link_checked p) (flat (p_block_open p))"

definition on_block_open :: "PriceList \<Rightarrow> nat \<Rightarrow> nat \<Rightarrow> GasCharge" where
  "on_block_open p data_size links =
    (let compute = gas_mul_usize (p_ipld_link_tracked p) links;
         block_open = gas_mul_usize (scale (p_block_open p)) data_size
           + apply_cost (p_block_allocate p) data_size
           + apply_cost (p_block_memcpy p) data_size;
         retention_min = apply_cost (p_block_memory_retention_minimum p) data_size;
         retention_surcharge = max (retention_min - (compute + block_open)) 0
     in gas_charge_new ''OnBlockOpen'' compute (block_open + retention_surcharge))"

definition on_block_read :: "PriceList \<Rightarrow> nat \<Rightarrow> GasCharge" where
  "on_block_read p data_size = gas_charge_new ''OnBlockRead'' (apply_cost (p_block_memcpy p) data_size) 0"

definition on_block_create :: "PriceList \<Rightarrow> nat \<Rightarrow> nat \<Rightarrow> GasCharge" where
  "on_block_create p data_size links =
    (let compute = apply_cost (p_block_memcpy p) data_size
           + apply_cost (p_block_allocate p) data_size
           + gas_mul_usize (p_ipld_link_checked p) links;
         retention_min = apply_cost (p_block_memory_retention_minimum p) data_size;
         retention_surcharge = max (retention_min - compute) 0
     in gas_charge_new ''OnBlockCreate'' compute retention_surcharge)"

definition on_block_link :: "PriceList \<Rightarrow> SupportedHashes \<Rightarrow> nat \<Rightarrow> GasCharge" where
  "on_block_link p hash_code data_size =
    (let memcpy = apply_cost (p_block_memcpy p) data_size;
         alloc = apply_cost (p_block_allocate p) data_size;
         hashing = apply_cost (p_hashing_cost p hash_code) data_size;
         initial_compute = memcpy + alloc + hashing + p_ipld_link_tracked p;
         storage = apply_cost (p_block_persist_storage p) data_size;
         deferred_compute = p_block_persist_compute p
     in gas_charge_new ''OnBlockLink'' initial_compute (deferred_compute + storage))"

definition on_block_stat :: "PriceList \<Rightarrow> GasCharge" where
  "on_block_stat p = gas_charge_new ''OnBlockStat'' 0 0"

definition on_actor_lookup :: "PriceList \<Rightarrow> GasCharge" where
  "on_actor_lookup p = gas_charge_new ''OnActorLookup'' 0 (p_actor_lookup p)"

definition on_actor_update :: "PriceList \<Rightarrow> GasCharge" where
  "on_actor_update p = gas_charge_new ''OnActorUpdate'' 0 (p_actor_update p)"

definition on_actor_create :: "PriceList \<Rightarrow> GasCharge" where
  "on_actor_create p = gas_charge_new ''OnActorCreate'' 0 (p_actor_create_storage p)"

definition on_self_balance :: "PriceList \<Rightarrow> GasCharge" where
  "on_self_balance p = gas_charge_new ''OnSelfBalance'' 0 0"

definition on_balance_of :: "PriceList \<Rightarrow> GasCharge" where
  "on_balance_of p = gas_charge_new ''OnBalanceOf'' 0 0"

definition on_resolve_address :: "PriceList \<Rightarrow> GasCharge" where
  "on_resolve_address p = gas_charge_new ''OnResolveAddress'' 0 0"

definition on_lookup_delegated_address :: "PriceList \<Rightarrow> GasCharge" where
  "on_lookup_delegated_address p = gas_charge_new ''OnLookupAddress'' 0 0"

definition on_get_actor_code_cid :: "PriceList \<Rightarrow> GasCharge" where
  "on_get_actor_code_cid p = gas_charge_new ''OnGetActorCodeCid'' 0 0"

definition on_get_builtin_actor_type :: "PriceList \<Rightarrow> GasCharge" where
  "on_get_builtin_actor_type p =
    gas_charge_new ''OnGetBuiltinActorType'' (p_builtin_actor_manifest_lookup p) 0"

definition on_get_code_cid_for_type :: "PriceList \<Rightarrow> GasCharge" where
  "on_get_code_cid_for_type p =
    gas_charge_new ''OnGetCodeCidForType'' (p_builtin_actor_manifest_lookup p) 0"

definition on_tipset_cid :: "PriceList \<Rightarrow> i64 \<Rightarrow> GasCharge" where
  "on_tipset_cid p lookback =
    gas_charge_new ''OnTipsetCid'' 0 (apply_cost_u64 (p_lookback_cost p) lookback)"

definition on_network_context :: "PriceList \<Rightarrow> GasCharge" where
  "on_network_context p = gas_charge_new ''OnNetworkContext'' (p_network_context p) 0"

definition on_message_context :: "PriceList \<Rightarrow> GasCharge" where
  "on_message_context p = gas_charge_new ''OnMessageContext'' (p_message_context p) 0"

definition on_install_actor :: "PriceList \<Rightarrow> nat \<Rightarrow> GasCharge" where
  "on_install_actor p wasm_size =
    gas_charge_new ''OnInstallActor'' (gas_mul_usize (p_install_wasm_per_byte_cost p) wasm_size) 0"

definition on_actor_event :: "PriceList \<Rightarrow> nat \<Rightarrow> nat \<Rightarrow> nat \<Rightarrow> GasCharge" where
  "on_actor_event p entries keysize valuesize =
    (let validate_entries = apply_cost (p_event_per_entry p) entries;
         validate_utf8 = apply_cost (p_utf8_validation p) keysize;
         estimated_size = sat_add (sat_add (sat_add EVENT_OVERHEAD
             (sat_mul EVENT_ENTRY_OVERHEAD (of_nat entries))) (of_nat keysize)) (of_nat valuesize);
         mem = apply_cost_u64 (p_block_memcpy p) estimated_size + apply_cost_u64 (p_block_allocate p) estimated_size;
         hash = apply_cost_u64 (p_hashing_cost p Blake2b256) estimated_size
     in gas_charge_new ''OnActorEvent'' (gas_mul_u32 mem 2 + validate_entries + validate_utf8) (hash + mem))"

definition on_get_root :: "PriceList \<Rightarrow> GasCharge" where
  "on_get_root p = gas_charge_new ''OnActorGetRoot'' (p_ipld_link_tracked p) 0"

definition on_set_root :: "PriceList \<Rightarrow> GasCharge" where
  "on_set_root p = gas_charge_new ''OnActorSetRoot'' (p_ipld_link_checked p) 0"

subsection \<open>Properties of the charges\<close>

lemma total_gas_charge_new [simp]: "total (gas_charge_new n c x) = c + x"
  by (simp add: total_def gas_charge_new_def)

lemma mg_mul_usize: "n < 2 ^ 64 \<Longrightarrow> mg (gas_mul_usize g n) = min (mg g * n) U64_MAX"
  by (simp add: mg_def gas_mul_usize_def unat_sat_mul unat_of_nat_less)

lemma mg_apply_cost:
  "n < 2 ^ 64 \<Longrightarrow> mg (apply_cost c n) = min (mg (flat c) + mg (scale c) * n) U64_MAX"
  by (auto simp: apply_cost_def mg_simps mg_mul_usize)

lemma mg_total: "mg (total c) = min (mg (compute_gas c) + mg (other_gas c)) U64_MAX"
  by (simp add: total_def mg_add)

text \<open>Topping a cost up to a minimum charges the greater of the two.\<close>

lemma mg_top_up: "mg (c + max (r - c) 0) = max (mg c) (mg r)"
  using mg_bound [of c] mg_bound [of r] by (auto simp: mg_simps)

lemma mg_top_up_split: "mg (a + (b + max (r - (a + b)) 0)) = max (mg (a + b)) (mg r)"
  using mg_bound [of r] by (auto simp: mg_simps)

lemma on_block_open_total:
  "mg (total (on_block_open p n links)) = max
     (mg (gas_mul_usize (p_ipld_link_tracked p) links + (gas_mul_usize (scale (p_block_open p)) n
        + apply_cost (p_block_allocate p) n + apply_cost (p_block_memcpy p) n)))
     (mg (apply_cost (p_block_memory_retention_minimum p) n))"
  by (simp add: on_block_open_def Let_def mg_top_up_split)

lemma on_block_create_total:
  "mg (total (on_block_create p n links)) = max
     (mg (apply_cost (p_block_memcpy p) n + apply_cost (p_block_allocate p) n
        + gas_mul_usize (p_ipld_link_checked p) links))
     (mg (apply_cost (p_block_memory_retention_minimum p) n))"
  by (simp add: on_block_create_def Let_def mg_top_up)

text \<open>
  The memory retention minimum is a floor of the block charges. Opening or creating a block
  of \<open>n\<close> bytes charges, in total, the greater of the compute cost and the retention minimum, so
  with the Watermelon prices at least 10 gas per byte, for every number of links and every size
  a 32-bit length can state.
\<close>

theorem block_charges_cover_retention:
  assumes "n < 2 ^ 32"
  shows "10000 * n \<le> mg (total (on_block_open WATERMELON_PRICES n links)) \<and>
    10000 * n \<le> mg (total (on_block_create WATERMELON_PRICES n links)) \<and>
    mg (total (on_block_open p n links)) = max
      (mg (gas_mul_usize (p_ipld_link_tracked p) links + (gas_mul_usize (scale (p_block_open p)) n
        + apply_cost (p_block_allocate p) n + apply_cost (p_block_memcpy p) n)))
      (mg (apply_cost (p_block_memory_retention_minimum p) n))"
proof -
  have "mg (apply_cost (p_block_memory_retention_minimum WATERMELON_PRICES) n) = 10000 * n"
    using assms by (simp add: WATERMELON_PRICES_def mg_apply_cost mg_new)
  then show ?thesis
    by (simp add: on_block_open_total on_block_create_total)
qed

theorem block_charges_cover_retention_witness:
  "10000 * 100 \<le> mg (total (on_block_open WATERMELON_PRICES 100 3))"
  by (rule block_charges_cover_retention [THEN conjunct1]) simp

end
