(* ===== verification/Address.thy ===== *)
theory Address
  imports Prelude
begin

text \<open>
  Addresses: \<open>shared/src/address/\<close>. An address is a payload of one of five protocols; it has a
  byte encoding (\<open>to_bytes\<close>, \<open>from_bytes\<close>), which keys the state tree; the text form is not
  modelled here. Fixed-size arrays are lists with their length stated in
  \<open>payload_wf\<close>. The crates the code calls are parameters, collected in \<open>addr_crates\<close>: the
  variable-length integers of \<open>unsigned_varint\<close>, the \<open>blake2b_simd\<close> hash and the base-32 alphabet
  of \<open>data_encoding\<close>; \<open>varint_ok\<close> and \<open>base32_ok\<close> state what their documentation promises.
\<close>

subsection \<open>Payloads and protocols\<close>

type_synonym ActorID = u64

definition PAYLOAD_HASH_LEN :: nat where
  "PAYLOAD_HASH_LEN = 20"

definition SECP_PUB_LEN :: nat where
  "SECP_PUB_LEN = 65"

definition BLS_PUB_LEN :: nat where
  "BLS_PUB_LEN = 48"

definition MAX_SUBADDRESS_LEN :: nat where
  "MAX_SUBADDRESS_LEN = 54"

definition CHECKSUM_HASH_LEN :: nat where
  "CHECKSUM_HASH_LEN = 4"

definition MAX_ADDRRESS_TEXT_LEN :: nat where
  "MAX_ADDRRESS_TEXT_LEN = 138"

definition BLS_ZERO_ADDRESS_BYTES :: bytes where
  "BLS_ZERO_ADDRESS_BYTES = (replicate BLS_PUB_LEN 0)[0 := 192]"

lemmas address_consts = PAYLOAD_HASH_LEN_def SECP_PUB_LEN_def BLS_PUB_LEN_def
  MAX_SUBADDRESS_LEN_def CHECKSUM_HASH_LEN_def MAX_ADDRRESS_TEXT_LEN_def

datatype Error =
    UnknownNetwork
  | UnknownProtocol
  | InvalidPayload
  | InvalidLength
  | InvalidPayloadLength nat
  | InvalidBLSLength nat
  | InvalidSECPLength nat
  | InvalidChecksum
  | Base32Decoding
  | NonIDAddress
  | NonDelegatedAddress

datatype Protocol = ID | Secp256k1 | Actor | BLS | Delegated

fun protocol_byte :: "Protocol \<Rightarrow> u8" where
  "protocol_byte Protocol.ID = 0"
| "protocol_byte Protocol.Secp256k1 = 1"
| "protocol_byte Protocol.Actor = 2"
| "protocol_byte Protocol.BLS = 3"
| "protocol_byte Protocol.Delegated = 4"

definition protocol_from_byte :: "u8 \<Rightarrow> Protocol option" where
  "protocol_from_byte b =
    (if b = 0 then Some Protocol.ID
     else if b = 1 then Some Protocol.Secp256k1
     else if b = 2 then Some Protocol.Actor
     else if b = 3 then Some Protocol.BLS
     else if b = 4 then Some Protocol.Delegated
     else None)"

record DelegatedAddress =
  da_namespace :: ActorID
  da_length :: nat
  da_buffer :: bytes

definition delegated_new :: "ActorID \<Rightarrow> bytes \<Rightarrow> Error + DelegatedAddress" where
  "delegated_new namespace subaddress =
    (let len = length subaddress
     in if len > MAX_SUBADDRESS_LEN then Inl (InvalidPayloadLength len)
        else Inr \<lparr>da_namespace = namespace, da_length = len,
                  da_buffer = subaddress @ replicate (MAX_SUBADDRESS_LEN - len) 0\<rparr>)"

definition subaddress :: "DelegatedAddress \<Rightarrow> bytes" where
  "subaddress a = take (da_length a) (da_buffer a)"

datatype Payload =
    ID u64
  | Secp256k1 bytes
  | Actor bytes
  | BLS bytes
  | Delegated DelegatedAddress

datatype Address = Address (payload: Payload)

definition new_id :: "u64 \<Rightarrow> Address" where
  "new_id i = Address (Payload.ID i)"

fun protocol_of_payload :: "Payload \<Rightarrow> Protocol" where
  "protocol_of_payload (Payload.ID _) = Protocol.ID"
| "protocol_of_payload (Payload.Secp256k1 _) = Protocol.Secp256k1"
| "protocol_of_payload (Payload.Actor _) = Protocol.Actor"
| "protocol_of_payload (Payload.BLS _) = Protocol.BLS"
| "protocol_of_payload (Payload.Delegated _) = Protocol.Delegated"

definition protocol :: "Address \<Rightarrow> Protocol" where
  "protocol a = protocol_of_payload (payload a)"

definition address_id :: "Address \<Rightarrow> Error + u64" where
  "address_id a = (case payload a of Payload.ID i \<Rightarrow> Inr i | _ \<Rightarrow> Inl NonIDAddress)"

definition is_bls_zero_address :: "Address \<Rightarrow> bool" where
  "is_bls_zero_address a = (case payload a of Payload.BLS b \<Rightarrow> b = BLS_ZERO_ADDRESS_BYTES | _ \<Rightarrow> False)"

fun delegated_of_payload :: "Payload \<Rightarrow> Error + DelegatedAddress" where
  "delegated_of_payload (Payload.Delegated d) = Inr d"
| "delegated_of_payload _ = Inl NonDelegatedAddress"

text \<open>The lengths that the array types of the code fix, and the unused tail of a subaddress buffer.\<close>

fun payload_wf :: "Payload \<Rightarrow> bool" where
  "payload_wf (Payload.ID _) = True"
| "payload_wf (Payload.Secp256k1 b) \<longleftrightarrow> length b = PAYLOAD_HASH_LEN"
| "payload_wf (Payload.Actor b) \<longleftrightarrow> length b = PAYLOAD_HASH_LEN"
| "payload_wf (Payload.BLS b) \<longleftrightarrow> length b = BLS_PUB_LEN"
| "payload_wf (Payload.Delegated d) \<longleftrightarrow> length (da_buffer d) = MAX_SUBADDRESS_LEN \<and>
     da_length d \<le> MAX_SUBADDRESS_LEN \<and> (\<forall>b \<in> set (drop (da_length d) (da_buffer d)). b = 0)"

subsection \<open>The crates\<close>

record addr_crates =
  varint_encode :: "u64 \<Rightarrow> bytes"
  varint_decode :: "bytes \<Rightarrow> (u64 \<times> bytes) option"
  blake2b :: "nat \<Rightarrow> bytes \<Rightarrow> bytes"
  base32_encode :: "bytes \<Rightarrow> string"
  base32_decode :: "string \<Rightarrow> bytes option"

definition varint_ok :: "addr_crates \<Rightarrow> bool" where
  "varint_ok c \<longleftrightarrow>
    (\<forall>v rest. varint_decode c (varint_encode c v @ rest) = Some (v, rest)) \<and>
    (\<forall>b v rest. varint_decode c b = Some (v, rest) \<longrightarrow> b = varint_encode c v @ rest) \<and>
    (\<forall>v. varint_encode c v \<noteq> [])"

definition base32_ok :: "addr_crates \<Rightarrow> bool" where
  "base32_ok c \<longleftrightarrow>
    (\<forall>b. base32_decode c (base32_encode c b) = Some b) \<and>
    (\<forall>b. length (base32_encode c b) = (8 * length b + 4) div 5) \<and>
    (\<forall>n b. length (blake2b c n b) = n)"

subsection \<open>The byte encoding\<close>

definition to_leb_bytes :: "addr_crates \<Rightarrow> u64 \<Rightarrow> bytes" where
  "to_leb_bytes c i = varint_encode c i"

definition from_leb_bytes :: "addr_crates \<Rightarrow> bytes \<Rightarrow> Error + u64" where
  "from_leb_bytes c bz = (case varint_decode c bz of
      None \<Rightarrow> Inl InvalidPayload
    | Some (i, remaining) \<Rightarrow> if remaining \<noteq> [] then Inl InvalidPayload else Inr i)"

fun to_raw_bytes :: "addr_crates \<Rightarrow> Payload \<Rightarrow> bytes" where
  "to_raw_bytes c (Payload.ID i) = to_leb_bytes c i"
| "to_raw_bytes c (Payload.Secp256k1 arr) = arr"
| "to_raw_bytes c (Payload.Actor arr) = arr"
| "to_raw_bytes c (Payload.BLS arr) = arr"
| "to_raw_bytes c (Payload.Delegated addr) = to_leb_bytes c (da_namespace addr) @ subaddress addr"

definition payload_to_bytes :: "addr_crates \<Rightarrow> Payload \<Rightarrow> bytes" where
  "payload_to_bytes c p = protocol_byte (protocol_of_payload p) # to_raw_bytes c p"

definition to_bytes :: "addr_crates \<Rightarrow> Address \<Rightarrow> bytes" where
  "to_bytes c a = payload_to_bytes c (payload a)"

text \<open>\<open>try_into\<close> from a slice to an array of length \<open>n\<close>.\<close>

definition into_array :: "nat \<Rightarrow> bytes \<Rightarrow> Error + bytes" where
  "into_array n b = (if length b = n then Inr b else Inl (InvalidPayloadLength (length b)))"

definition payload_new :: "addr_crates \<Rightarrow> Protocol \<Rightarrow> bytes \<Rightarrow> Error + Payload" where
  "payload_new c prot bz = (case prot of
      Protocol.ID \<Rightarrow> map_sum id Payload.ID (from_leb_bytes c bz)
    | Protocol.Secp256k1 \<Rightarrow> map_sum id Payload.Secp256k1 (into_array PAYLOAD_HASH_LEN bz)
    | Protocol.Actor \<Rightarrow> map_sum id Payload.Actor (into_array PAYLOAD_HASH_LEN bz)
    | Protocol.BLS \<Rightarrow> map_sum id Payload.BLS (into_array BLS_PUB_LEN bz)
    | Protocol.Delegated \<Rightarrow> (case varint_decode c bz of
        None \<Rightarrow> Inl InvalidPayload
      | Some (i, remaining) \<Rightarrow> map_sum id Payload.Delegated (delegated_new i remaining)))"

definition address_new :: "addr_crates \<Rightarrow> Protocol \<Rightarrow> bytes \<Rightarrow> Error + Address" where
  "address_new c prot bz = map_sum id Address (payload_new c prot bz)"

definition from_bytes :: "addr_crates \<Rightarrow> bytes \<Rightarrow> Error + Address" where
  "from_bytes c bz =
    (if length bz < 2 then Inl InvalidLength
     else case protocol_from_byte (bz ! 0) of
       None \<Rightarrow> Inl UnknownProtocol
     | Some prot \<Rightarrow> address_new c prot (drop 1 bz))"

definition address_hash :: "addr_crates \<Rightarrow> bytes \<Rightarrow> bytes" where
  "address_hash c ingest = blake2b c PAYLOAD_HASH_LEN ingest"

definition new_secp256k1 :: "addr_crates \<Rightarrow> bytes \<Rightarrow> Error + Address" where
  "new_secp256k1 c pubkey =
    (if length pubkey \<noteq> SECP_PUB_LEN then Inl (InvalidSECPLength (length pubkey))
     else Inr (Address (Payload.Secp256k1 (address_hash c pubkey))))"

definition new_actor :: "addr_crates \<Rightarrow> bytes \<Rightarrow> Address" where
  "new_actor c data = Address (Payload.Actor (address_hash c data))"

definition new_delegated :: "ActorID \<Rightarrow> bytes \<Rightarrow> Error + Address" where
  "new_delegated ns sub = map_sum id (\<lambda>d. Address (Payload.Delegated d)) (delegated_new ns sub)"

definition new_bls :: "bytes \<Rightarrow> Error + Address" where
  "new_bls pubkey =
    (if length pubkey \<noteq> BLS_PUB_LEN then Inl (InvalidBLSLength (length pubkey))
     else Inr (Address (Payload.BLS pubkey)))"

subsection \<open>Round trip of the byte encoding\<close>

lemma protocol_from_to_byte [simp]: "protocol_from_byte (protocol_byte p) = Some p"
  by (cases p) (simp_all add: protocol_from_byte_def)

lemma protocol_to_from_byte: "protocol_from_byte b = Some p \<Longrightarrow> protocol_byte p = b"
  by (auto simp: protocol_from_byte_def split: if_splits)

lemma delegated_new_subaddress:
  assumes "payload_wf (Payload.Delegated d)"
  shows "delegated_new (da_namespace d) (subaddress d) = Inr d"
proof -
  have len: "length (subaddress d) = da_length d" and le: "da_length d \<le> MAX_SUBADDRESS_LEN"
    using assms by (auto simp: subaddress_def)
  have "drop (da_length d) (da_buffer d) = replicate (MAX_SUBADDRESS_LEN - da_length d) 0"
    using assms by (intro replicate_eqI) auto
  then have "subaddress d @ replicate (MAX_SUBADDRESS_LEN - da_length d) 0 = da_buffer d"
    using append_take_drop_id [of "da_length d" "da_buffer d"] by (simp add: subaddress_def)
  then show ?thesis using len le by (simp add: delegated_new_def)
qed

lemma delegated_new_Inr:
  assumes "delegated_new ns sub = Inr d"
  shows "payload_wf (Payload.Delegated d)" and "da_namespace d = ns" and "subaddress d = sub"
  using assms by (auto simp: delegated_new_def subaddress_def Let_def split: if_splits)

lemma varint_decode_encode: "varint_ok c \<Longrightarrow> varint_decode c (varint_encode c v @ rest) = Some (v, rest)"
  by (simp add: varint_ok_def)

lemma varint_strict: "varint_ok c \<Longrightarrow> varint_decode c b = Some (v, rest) \<Longrightarrow> b = varint_encode c v @ rest"
  by (simp add: varint_ok_def)

lemma from_to_leb_bytes: "varint_ok c \<Longrightarrow> from_leb_bytes c (to_leb_bytes c i) = Inr i"
  using varint_decode_encode [of c i "[]"] by (simp add: from_leb_bytes_def to_leb_bytes_def)

lemma to_from_leb_bytes: "varint_ok c \<Longrightarrow> from_leb_bytes c bz = Inr i \<Longrightarrow> to_leb_bytes c i = bz"
  using varint_strict [of c bz i "[]"]
  by (auto simp: from_leb_bytes_def to_leb_bytes_def split: option.splits if_splits)

lemma payload_new_to_raw:
  assumes "varint_ok c" and "payload_wf p"
  shows "payload_new c (protocol_of_payload p) (to_raw_bytes c p) = Inr p"
proof (cases p)
  case (ID i)
  then show ?thesis by (simp add: payload_new_def from_to_leb_bytes [OF assms(1)])
next
  case (Delegated d)
  then show ?thesis using assms(2) delegated_new_subaddress [of d]
    by (simp add: payload_new_def to_leb_bytes_def varint_decode_encode [OF assms(1)])
qed (use assms(2) in \<open>simp_all add: payload_new_def into_array_def\<close>)

lemma payload_new_Inr:
  assumes "varint_ok c" and "payload_new c prot bz = Inr p"
  shows "to_raw_bytes c p = bz \<and> protocol_of_payload p = prot \<and> payload_wf p"
proof (cases prot)
  case ID
  then show ?thesis using assms(2) to_from_leb_bytes [OF assms(1)]
    by (auto simp: payload_new_def map_sum_def split: sum.splits)
next
  case Delegated
  then obtain i rest d where dec: "varint_decode c bz = Some (i, rest)"
    and d: "delegated_new i rest = Inr d" and p: "p = Payload.Delegated d"
    using assms(2) by (auto simp: payload_new_def map_sum_def split: option.splits sum.splits)
  then have "bz = varint_encode c i @ rest"
    using assms(1) by (simp add: varint_ok_def)
  then show ?thesis using delegated_new_Inr [OF d] Delegated p by (simp add: to_leb_bytes_def)
qed (use assms(2) in \<open>auto simp: payload_new_def into_array_def split: if_splits\<close>)

lemma to_raw_bytes_nonempty: "varint_ok c \<Longrightarrow> payload_wf p \<Longrightarrow> to_raw_bytes c p \<noteq> []"
  by (cases p) (auto simp: varint_ok_def to_leb_bytes_def address_consts)

text \<open>
  The byte encoding of addresses is a bijection onto the accepted byte strings. Decoding the
  encoding of a well-formed address gives it back; whatever decoding accepts is the encoding of
  the address it returns, which is well formed. So no two addresses share a state tree key and no
  address has two keys.
\<close>

theorem address_bytes_roundtrip:
  assumes "varint_ok c"
  shows "(payload_wf (payload a) \<longrightarrow> from_bytes c (to_bytes c a) = Inr a) \<and>
    (from_bytes c bz = Inr b \<longrightarrow> to_bytes c b = bz \<and> payload_wf (payload b))"
proof (intro conjI impI)
  assume wf: "payload_wf (payload a)"
  have "length (to_bytes c a) \<ge> 2"
    using to_raw_bytes_nonempty [OF assms wf]
    by (cases "to_raw_bytes c (payload a)") (simp_all add: to_bytes_def payload_to_bytes_def)
  then show "from_bytes c (to_bytes c a) = Inr a"
    using payload_new_to_raw [OF assms wf]
    by (auto simp: from_bytes_def to_bytes_def payload_to_bytes_def address_new_def)
next
  assume "from_bytes c bz = Inr b"
  then obtain prot where len: "2 \<le> length bz" and prot: "protocol_from_byte (bz ! 0) = Some prot"
    and new: "payload_new c prot (drop 1 bz) = Inr (payload b)"
    by (auto simp: from_bytes_def address_new_def map_sum_def split: if_splits option.splits sum.splits)
  have "bz = bz ! 0 # drop 1 bz" using len by (cases bz) simp_all
  then show "to_bytes c b = bz" "payload_wf (payload b)"
    using payload_new_Inr [OF assms new] protocol_to_from_byte [OF prot]
    by (auto simp: to_bytes_def payload_to_bytes_def)
qed

subsection \<open>An instance of the varint contract\<close>

text \<open>LEB128 with minimal encodings, the format that \<open>unsigned_varint\<close> documents.\<close>

fun leb_encode :: "nat \<Rightarrow> bytes" where
  "leb_encode n = (if n < 128 then [of_nat n] else of_nat (n mod 128 + 128) # leb_encode (n div 128))"

declare leb_encode.simps [simp del]

fun leb_decode :: "bytes \<Rightarrow> (nat \<times> bytes) option" where
  "leb_decode [] = None"
| "leb_decode (b # bs) =
    (if unat b < 128 then Some (unat b, bs)
     else case leb_decode bs of
       None \<Rightarrow> None
     | Some (m, rest) \<Rightarrow> if m = 0 then None else Some (unat b - 128 + 128 * m, rest))"

lemma unat_byte: "n < 256 \<Longrightarrow> unat (of_nat n :: u8) = n"
  by (simp add: unat_of_nat_less)

lemma leb_decode_encode: "leb_decode (leb_encode n @ rest) = Some (n, rest)"
proof (induction n rule: leb_encode.induct)
  case (1 n)
  show ?case
  proof (cases "n < 128")
    case True
    then show ?thesis by (simp add: leb_encode.simps [of n] unat_byte)
  next
    case False
    have "n mod 128 + 128 < 256" by (simp add: order_less_le_trans [OF mod_less_divisor])
    moreover have "n div 128 \<noteq> 0" using False by (simp add: div_eq_0_iff)
    ultimately show ?thesis using 1 [OF False] False
      by (simp add: leb_encode.simps [of n] unat_byte del: of_nat_add)
  qed
qed

lemma leb_decode_strict: "leb_decode b = Some (n, rest) \<Longrightarrow> b = leb_encode n @ rest"
proof (induction b arbitrary: n rule: leb_decode.induct)
  case (2 b bs)
  show ?case
  proof (cases "unat b < 128")
    case True
    with 2(2) show ?thesis by (auto simp: leb_encode.simps [of "unat b"])
  next
    case False
    then obtain m where m: "leb_decode bs = Some (m, rest)" "m \<noteq> 0" "n = unat b - 128 + 128 * m"
      using 2(2) by (auto split: option.splits if_splits)
    have b: "unat b - 128 < 128" using unat_less_exp [of b] by simp
    have "n mod 128 = unat b - 128" "n div 128 = m" "\<not> n < 128"
      using b m by simp_all
    then show ?thesis using 2(1) [OF False m(1)] False by (simp add: leb_encode.simps [of n])
  qed
qed simp

definition leb_crates :: addr_crates where
  "leb_crates = \<lparr>
    varint_encode = (\<lambda>v. leb_encode (unat v)),
    varint_decode = (\<lambda>b. case leb_decode b of
        Some (n, rest) \<Rightarrow> if n < 2 ^ 64 then Some (of_nat n, rest) else None
      | None \<Rightarrow> None),
    blake2b = (\<lambda>n _. replicate n 0),
    base32_encode = (\<lambda>b. []), base32_decode = (\<lambda>_. None)\<rparr>"

lemma leb_varint_ok: "varint_ok leb_crates"
proof -
  have "leb_encode n \<noteq> []" for n by (simp add: leb_encode.simps [of n])
  moreover have "unat (v :: u64) < 18446744073709551616" for v using unat_less_exp [of v] by simp
  ultimately show ?thesis
    by (auto simp: varint_ok_def leb_crates_def leb_decode_encode unat_of_nat_less
        dest!: leb_decode_strict split: option.splits if_splits)
qed

theorem address_bytes_roundtrip_witness:
  "from_bytes leb_crates (to_bytes leb_crates (new_id 1000)) = Inr (new_id 1000)"
  using address_bytes_roundtrip [OF leb_varint_ok, of "new_id 1000" "[]" "new_id 0"]
  by (simp add: new_id_def)

end
