(* ===== verification/GasOutputs.thy ===== *)
theory GasOutputs
  imports Gas
begin

text \<open>
  The settlement of a message's gas: \<open>fvm/src/gas/outputs.rs\<close>. \<open>compute\<close> splits the amount
  \<open>fee_cap * gas_limit\<close> that the sender deposited into the base fee burn, the over-estimation
  burn, the miner's tip and the refund; \<open>compute_gas_overestimation_burn\<close> decides how much of the
  unused gas is burned. Token amounts are unbounded integers (\<open>BigInt\<close>), gas is \<open>u64\<close> and the
  intermediate products are \<open>u128\<close>, kept at their width.
\<close>

type_synonym TokenAmount = int

record GasOutputs =
  base_fee_burn :: TokenAmount
  over_estimation_burn :: TokenAmount
  miner_penalty :: TokenAmount
  miner_tip :: TokenAmount
  refund :: TokenAmount
  gas_refund :: u64
  gas_burned :: u64

definition GAS_OVERUSE_NUM :: u128 where
  "GAS_OVERUSE_NUM = 11"

definition GAS_OVERUSE_DENOM :: u128 where
  "GAS_OVERUSE_DENOM = 10"

definition compute_gas_overestimation_burn :: "u64 \<Rightarrow> u64 \<Rightarrow> u64 \<times> u64" where
  "compute_gas_overestimation_burn gas_used gas_limit =
    (if gas_used = 0 then (0, gas_limit)
     else
       let gas_used = (ucast gas_used :: u128);
           gas_limit = (ucast gas_limit :: u128);
           over = min (sat_sub gas_limit ((GAS_OVERUSE_NUM * gas_used) div GAS_OVERUSE_DENOM)) gas_used;
           gas_remaining = sat_sub gas_limit gas_used;
           gas_to_burn = (gas_remaining * over) div gas_used;
           refund = sat_sub gas_remaining gas_to_burn
       in (ucast refund, ucast gas_to_burn))"

definition gas_outputs_default :: GasOutputs where
  "gas_outputs_default = \<lparr>base_fee_burn = 0, over_estimation_burn = 0, miner_penalty = 0,
     miner_tip = 0, refund = 0, gas_refund = 0, gas_burned = 0\<rparr>"

definition compute :: "u64 \<Rightarrow> u64 \<Rightarrow> TokenAmount \<Rightarrow> TokenAmount \<Rightarrow> TokenAmount \<Rightarrow> GasOutputs" where
  "compute gas_used gas_limit base_fee fee_cap gas_premium =
    (let out = gas_outputs_default;
         (base_fee_to_pay, out) =
           (if base_fee > fee_cap
            then (fee_cap, out\<lparr>miner_penalty := (base_fee - fee_cap) * uint gas_used\<rparr>)
            else (base_fee, out));
         out = out\<lparr>base_fee_burn := base_fee_to_pay * uint gas_used\<rparr>;
         tip = (if base_fee_to_pay + gas_premium > fee_cap
                      then fee_cap - base_fee_to_pay else gas_premium);
         out = out\<lparr>miner_tip := tip * uint gas_limit\<rparr>;
         (out_gas_refund, out_gas_burned) = compute_gas_overestimation_burn gas_used gas_limit;
         out = out\<lparr>gas_refund := out_gas_refund, gas_burned := out_gas_burned\<rparr>;
         out = (if gas_burned out \<noteq> 0
                then out\<lparr>over_estimation_burn := base_fee_to_pay * uint (gas_burned out),
                         miner_penalty := miner_penalty out + (base_fee - base_fee_to_pay) * uint (gas_burned out)\<rparr>
                else out);
         required_funds = fee_cap * uint gas_limit
     in out\<lparr>refund := required_funds - base_fee_burn out - miner_tip out - over_estimation_burn out\<rparr>)"

subsection \<open>The over-estimation burn\<close>

text \<open>The same computation on natural numbers, without widths.\<close>

definition burn_spec :: "nat \<Rightarrow> nat \<Rightarrow> nat" where
  "burn_spec used limit =
    (if used = 0 then limit else (limit - used) * min (limit - (11 * used) div 10) used div used)"

lemma burn_spec_le: "burn_spec used limit \<le> limit - used"
proof (cases "used = 0")
  case False
  have "(limit - used) * min (limit - (11 * used) div 10) used div used \<le> (limit - used) * used div used"
    by (intro div_le_mono mult_le_mono) simp_all
  with False show ?thesis by (simp add: burn_spec_def)
qed (simp add: burn_spec_def)

lemma unat_ucast_128 [simp]: "unat (ucast (x :: u64) :: u128) = unat x"
  by (simp add: unsigned_ucast_eq take_bit_nat_eq_self_iff order_less_trans [OF unat_less_exp])

lemma unat_ucast_64: "unat (x :: u128) < 2 ^ 64 \<Longrightarrow> unat (ucast x :: u64) = unat x"
  by (simp add: unsigned_ucast_eq take_bit_nat_eq_self_iff)

lemma unat_u64_less: "unat (x :: u64) < 18446744073709551616"
  using unat_less_exp [of x] by simp

lemma overestimation_burn_unat:
  fixes used limit :: u64
  shows "unat (snd (compute_gas_overestimation_burn used limit)) = burn_spec (unat used) (unat limit)"
    and "used \<noteq> 0 \<Longrightarrow> unat (fst (compute_gas_overestimation_burn used limit)) =
      unat limit - unat used - burn_spec (unat used) (unat limit)"
proof -
  let ?u = "ucast used :: u128" and ?l = "ucast limit :: u128"
  let ?over = "min (sat_sub ?l ((11 * ?u) div 10)) ?u"
  let ?rem = "sat_sub ?l ?u"
  have m: "unat (11 * ?u) = 11 * unat used"
    using unat_u64_less [of used] by (simp add: unat_word_ariths)
  have o: "unat ?over = min (unat limit - (11 * unat used) div 10) (unat used)"
    by (simp add: min_def word_le_nat_alt unat_sat_sub unat_div m)
  have r: "unat ?rem = unat limit - unat used"
    by (simp add: unat_sat_sub)
  have "unat ?rem * unat ?over \<le> 18446744073709551616 * 18446744073709551616"
    using unat_u64_less [of used] unat_u64_less [of limit] o r by (intro mult_le_mono) simp_all
  also have "\<dots> \<le> 2 ^ 128" by simp
  finally have "unat ?rem * unat ?over \<le> 2 ^ 128" .
  moreover have "unat ?rem * unat ?over \<noteq> 2 ^ 128"
  proof -
    have "unat ?rem * unat ?over \<le> (18446744073709551615 :: nat) * 18446744073709551615"
      using unat_u64_less [of used] unat_u64_less [of limit] o r by (intro mult_le_mono) simp_all
    also have "\<dots> < 2 ^ 128" by simp
    finally show ?thesis by simp
  qed
  ultimately have p: "unat (?rem * ?over) = unat ?rem * unat ?over"
    by (simp add: unat_word_ariths)
  let ?b = "?rem * ?over div ?u"
  have b: "used \<noteq> 0 \<Longrightarrow> unat ?b = burn_spec (unat used) (unat limit)"
    by (simp add: unat_div p o r burn_spec_def unat_eq_zero)
  have fit: "unat ?b < 2 ^ 64" "unat (sat_sub ?rem ?b) < 2 ^ 64" if "used \<noteq> 0"
    using burn_spec_le [of "unat used" "unat limit"] unat_u64_less [of limit] that
    by (simp_all add: b unat_sat_sub)
  show "unat (snd (compute_gas_overestimation_burn used limit)) = burn_spec (unat used) (unat limit)"
    using fit by (auto simp: compute_gas_overestimation_burn_def Let_def GAS_OVERUSE_NUM_def
        GAS_OVERUSE_DENOM_def unat_ucast_64 b burn_spec_def [of 0])
  show "unat (fst (compute_gas_overestimation_burn used limit)) =
      unat limit - unat used - burn_spec (unat used) (unat limit)" if "used \<noteq> 0"
    using fit that by (auto simp: compute_gas_overestimation_burn_def Let_def GAS_OVERUSE_NUM_def
        GAS_OVERUSE_DENOM_def unat_ucast_64 b unat_sat_sub)
qed

text \<open>
  The over-estimation burn splits the unused gas. For gas used within the limit, the refunded
  gas, the burned gas and the used gas add up to the limit, at 64 bits and without truncation in
  the final casts; nothing is burned when the limit is at most 1.1 times the gas used, and
  everything unused is burned when nothing was used or the limit is at least 2.1 times the use.
\<close>

theorem overestimation_burn_splits:
  assumes "used \<le> limit" and "compute_gas_overestimation_burn used limit = (r, b)"
  shows "unat r + unat b + unat used = unat limit
    \<and> (used \<noteq> 0 \<and> unat limit \<le> 11 * unat used div 10 \<longrightarrow> b = 0)
    \<and> (used = 0 \<or> 11 * unat used div 10 + unat used \<le> unat limit \<longrightarrow> r = 0)"
proof (cases "used = 0")
  case True
  with assms(2) show ?thesis by (auto simp: compute_gas_overestimation_burn_def)
next
  case False
  have b: "unat b = burn_spec (unat used) (unat limit)"
    using overestimation_burn_unat(1) [of used limit] assms(2) by simp
  have r: "unat r = unat limit - unat used - burn_spec (unat used) (unat limit)"
    using overestimation_burn_unat(2) [OF False, of limit] assms(2) by simp
  have sum: "unat r + unat b + unat used = unat limit"
    using assms(1) burn_spec_le [of "unat used" "unat limit"] b r by (simp add: word_le_nat_alt)
  have nz: "unat used \<noteq> 0" using False by (simp add: unat_eq_zero)
  have none: "b = 0" if "unat limit \<le> 11 * unat used div 10"
    using that nz by (simp add: word_eq_unat b burn_spec_def)
  have whole: "r = 0" if "11 * unat used div 10 + unat used \<le> unat limit"
  proof -
    have "min (unat limit - 11 * unat used div 10) (unat used) = unat used"
      using that by simp
    then show ?thesis using nz by (simp add: word_eq_unat r burn_spec_def)
  qed
  from False sum none whole show ?thesis by blast
qed

theorem overestimation_burn_splits_witness:
  "compute_gas_overestimation_burn 100 200 = (10, 90) \<and>
   unat (10 :: u64) + unat (90 :: u64) + unat (100 :: u64) = unat (200 :: u64)"
proof -
  have run: "compute_gas_overestimation_burn 100 200 = (10, 90)"
    by (simp add: compute_gas_overestimation_burn_def GAS_OVERUSE_NUM_def GAS_OVERUSE_DENOM_def
        sat_sub_def min_def Let_def)
  then show ?thesis using overestimation_burn_splits [of 100 200 10 90] by simp
qed

subsection \<open>The settlement\<close>

lemma compute_fields:
  fixes base_fee fee_cap premium :: int
  defines "pay \<equiv> min base_fee fee_cap"
  defines "tip \<equiv> min premium (fee_cap - pay)"
  assumes "compute_gas_overestimation_burn used limit = (r, b)"
  shows "compute used limit base_fee fee_cap premium =
    \<lparr>base_fee_burn = pay * uint used, over_estimation_burn = pay * uint b,
     miner_penalty = (base_fee - pay) * (uint used + uint b), miner_tip = tip * uint limit,
     refund = fee_cap * uint limit - pay * uint used - tip * uint limit - pay * uint b,
     gas_refund = r, gas_burned = b\<rparr>"
  using assms(3)
  by (auto simp: compute_def Let_def gas_outputs_default_def pay_def tip_def min_def distrib_left)

lemma compute_amounts:
  assumes "used \<le> limit" and "0 \<le> base_fee" and "0 \<le> fee_cap" and "0 \<le> premium"
    and "out = compute used limit base_fee fee_cap premium"
  shows "base_fee_burn out + over_estimation_burn out + miner_tip out + refund out = fee_cap * uint limit"
    and "0 \<le> base_fee_burn out" and "0 \<le> over_estimation_burn out" and "0 \<le> miner_tip out" and "0 \<le> refund out"
proof -
  obtain r b where rb: "compute_gas_overestimation_burn used limit = (r, b)"
    by (cases "compute_gas_overestimation_burn used limit")
  define pay where "pay = min base_fee fee_cap"
  define tip where "tip = min premium (fee_cap - pay)"
  note out = assms(5) [unfolded compute_fields [OF rb, of base_fee fee_cap premium], folded pay_def, folded tip_def]
  have "unat b + unat used \<le> unat limit"
    using overestimation_burn_unat(1) [of used limit] burn_spec_le [of "unat used" "unat limit"] rb assms(1)
    by (simp add: word_le_nat_alt)
  then have ub: "uint used + uint b \<le> uint limit"
    unfolding uint_nat by linarith
  have pos: "0 \<le> pay" "0 \<le> tip" "pay + tip \<le> fee_cap"
    using assms(2-4) by (auto simp: pay_def tip_def)
  have "pay * (uint used + uint b) + tip * uint limit \<le> pay * uint limit + tip * uint limit"
    using ub pos by (simp add: mult_left_mono)
  also have "\<dots> \<le> fee_cap * uint limit"
    using pos by (simp add: mult_right_mono flip: distrib_right)
  finally show "0 \<le> refund out"
    by (simp add: out algebra_simps)
  from pos show "0 \<le> base_fee_burn out" "0 \<le> over_estimation_burn out" "0 \<le> miner_tip out"
    "base_fee_burn out + over_estimation_burn out + miner_tip out + refund out = fee_cap * uint limit"
    by (simp_all add: out)
qed

text \<open>
  The settlement conserves the deposit. For non-negative prices and gas used within the
  limit, the base fee burn, the over-estimation burn, the miner tip and the refund are all
  non-negative and add up to exactly \<open>fee_cap * gas_limit\<close>, the amount withdrawn from the sender;
  the miner's penalty is the base fee shortfall on all gas used or burned.
\<close>

theorem compute_conserves_deposit:
  assumes "used \<le> limit" and "0 \<le> base_fee" and "0 \<le> fee_cap" and "0 \<le> premium"
    and "out = compute used limit base_fee fee_cap premium"
  shows "base_fee_burn out + over_estimation_burn out + miner_tip out + refund out = fee_cap * uint limit
    \<and> 0 \<le> base_fee_burn out \<and> 0 \<le> over_estimation_burn out \<and> 0 \<le> miner_tip out \<and> 0 \<le> refund out
    \<and> miner_penalty out = max 0 (base_fee - fee_cap) * (uint used + uint (gas_burned out))"
proof -
  have "miner_penalty out = max 0 (base_fee - fee_cap) * (uint used + uint (gas_burned out))"
    using compute_fields [of used limit _ _ base_fee fee_cap premium, OF surjective_pairing]
    by (simp add: assms(5) max_def min_def)
  with compute_amounts [OF assms] show ?thesis by blast
qed

theorem compute_conserves_deposit_witness:
  "\<exists>out. out = compute 100 130 10 11 1 \<and>
     base_fee_burn out + over_estimation_burn out + miner_tip out + refund out = 11 * 130 \<and> 0 \<le> refund out"
  using compute_conserves_deposit [of 100 130 10 11 1, OF _ _ _ _ refl] by simp

end
