(* ===== verification/HistoryMap.thy ===== *)
theory HistoryMap
  imports Prelude
begin

text \<open>
  The map with an undo history of \<open>fvm/src/history_map.rs\<close>, which the state tree and the state
  access tracker use for their transactions, and the interface of a component with nested
  transactions (\<open>begin_transaction\<close> / \<open>end_transaction\<close>) as a locale.

  \<open>undoable m m'\<close> says that \<open>m'\<close> was reached from \<open>m\<close> by recorded changes: its history extends
  that of \<open>m\<close>, and undoing the extension gives back the map of \<open>m\<close>. Every operation of the map
  keeps it, and a rollback to the recorded length of the history gives \<open>m\<close> back exactly.
\<close>

subsection \<open>The map and its operations\<close>

record ('k, 'v) HistoryMap =
  hm_map :: "'k \<rightharpoonup> 'v"
  hm_history :: "('k \<times> 'v option) list"

definition hm_default :: "('k, 'v) HistoryMap" where
  "hm_default = \<lparr>hm_map = Map.empty, hm_history = []\<rparr>"

definition hm_from_iter :: "('k \<times> 'v) list \<Rightarrow> ('k, 'v) HistoryMap" where
  "hm_from_iter kvs = \<lparr>hm_map = map_of (rev kvs), hm_history = []\<rparr>"

definition hm_insert :: "'k \<Rightarrow> 'v \<Rightarrow> ('k, 'v) HistoryMap \<Rightarrow> ('k, 'v) HistoryMap" where
  "hm_insert k v m = (case hm_map m k of
      None \<Rightarrow> m\<lparr>hm_history := hm_history m @ [(k, None)], hm_map := (hm_map m)(k \<mapsto> v)\<rparr>
    | Some old \<Rightarrow>
        if old \<noteq> v then m\<lparr>hm_history := hm_history m @ [(k, Some old)], hm_map := (hm_map m)(k \<mapsto> v)\<rparr>
        else m)"

definition hm_get :: "'k \<Rightarrow> ('k, 'v) HistoryMap \<Rightarrow> 'v option" where
  "hm_get k m = hm_map m k"

definition get_or_try_insert_with :: "'k \<Rightarrow> 'e + 'v \<Rightarrow> (('k, 'v) HistoryMap, 'e, 'v) rsm" where
  "get_or_try_insert_with k f m = (case hm_map m k of
      Some v \<Rightarrow> (Inr v, m)
    | None \<Rightarrow> (case f of
        Inl e \<Rightarrow> (Inl e, m)
      | Inr v \<Rightarrow> (Inr v, m\<lparr>hm_history := hm_history m @ [(k, None)], hm_map := (hm_map m)(k \<mapsto> v)\<rparr>)))"

fun undo_one :: "('k \<times> 'v option) \<Rightarrow> ('k \<rightharpoonup> 'v) \<Rightarrow> ('k \<rightharpoonup> 'v)" where
  "undo_one (k, Some v) m = m(k \<mapsto> v)"
| "undo_one (k, None) m = m(k := None)"

definition rollback :: "nat \<Rightarrow> ('k, 'v) HistoryMap \<Rightarrow> ('k, 'v) HistoryMap" where
  "rollback height m =
    (if length (hm_history m) \<le> height then m
     else m\<lparr>hm_map := fold undo_one (rev (drop height (hm_history m))) (hm_map m),
            hm_history := take height (hm_history m)\<rparr>)"

definition history_len :: "('k, 'v) HistoryMap \<Rightarrow> nat" where
  "history_len m = length (hm_history m)"

definition discard_history :: "('k, 'v) HistoryMap \<Rightarrow> ('k, 'v) HistoryMap" where
  "discard_history m = m\<lparr>hm_history := []\<rparr>"

text \<open>\<open>iter_mut\<close>: the values change in place, keys and history do not.\<close>

definition hm_map_values :: "('k \<Rightarrow> 'v \<Rightarrow> 'v) \<Rightarrow> ('k, 'v) HistoryMap \<Rightarrow> ('k, 'v) HistoryMap" where
  "hm_map_values f m = m\<lparr>hm_map := (\<lambda>k. map_option (f k) (hm_map m k))\<rparr>"

subsection \<open>Undoing recorded changes\<close>

definition undoable :: "('k, 'v) HistoryMap \<Rightarrow> ('k, 'v) HistoryMap \<Rightarrow> bool" where
  "undoable m m' \<longleftrightarrow> (\<exists>changes. hm_history m' = hm_history m @ changes \<and>
     fold undo_one (rev changes) (hm_map m') = hm_map m)"

interpretation hm: step_preorder undoable
proof
  show "undoable m m" for m :: "('a, 'b) HistoryMap"
    by (simp add: undoable_def)
  show "undoable a b \<Longrightarrow> undoable b c \<Longrightarrow> undoable a c" for a b c :: "('a, 'b) HistoryMap"
    by (fastforce simp: undoable_def)
qed

lemma undoable_insert: "undoable m (hm_insert k v m)"
  by (auto simp: undoable_def hm_insert_def fun_upd_idem split: option.split)

lemma undoable_get_or_try_insert_with: "undoable m (snd (get_or_try_insert_with k f m))"
  by (auto simp: undoable_def get_or_try_insert_with_def fun_upd_idem split: option.split sum.split)

lemma get_or_try_insert_with_undoable: "get_or_try_insert_with k f m = (r, m') \<Longrightarrow> undoable m m'"
  using undoable_get_or_try_insert_with [of m k f] by simp

lemma rollback_undoable: "undoable m m' \<Longrightarrow> rollback (history_len m) m' = m"
  by (auto simp: undoable_def rollback_def history_len_def)

lemma undoable_rollback:
  "undoable m m1 \<Longrightarrow> undoable m1 m2 \<Longrightarrow> undoable m (rollback (history_len m1) m2)"
  by (simp add: rollback_undoable)

lemma hm_get_insert [simp]: "hm_get k' (hm_insert k v m) = (if k' = k then Some v else hm_get k' m)"
  by (auto simp: hm_get_def hm_insert_def split: option.split)

subsection \<open>Components with nested transactions\<close>

text \<open>
  A run inside a transaction: operations of the component and completed inner transactions,
  reverted or not.
\<close>

inductive nested_run :: "('s \<Rightarrow> 's) \<Rightarrow> (bool \<Rightarrow> ('s, 'e, unit) rsm) \<Rightarrow> ('s \<Rightarrow> 's \<Rightarrow> bool) \<Rightarrow> 's \<Rightarrow> 's \<Rightarrow> bool"
  for bgn :: "'s \<Rightarrow> 's" and fin :: "bool \<Rightarrow> ('s, 'e, unit) rsm" and op :: "'s \<Rightarrow> 's \<Rightarrow> bool"
where
  run_nil: "nested_run bgn fin op s s"
| run_op: "nested_run bgn fin op s s1 \<Longrightarrow> op s1 s2 \<Longrightarrow> nested_run bgn fin op s s2"
| run_transaction: "nested_run bgn fin op s s1 \<Longrightarrow> nested_run bgn fin op (bgn s1) s2 \<Longrightarrow>
    fin revert s2 = (r, s3) \<Longrightarrow> nested_run bgn fin op s s3"

text \<open>
  The contract: \<open>within s s'\<close> relates the states of a run; an \<open>end_transaction\<close> after a run
  succeeds, and with \<open>revert\<close> it restores what \<open>view\<close> shows of the state at the beginning.
\<close>

locale transactional =
  fixes bgn :: "'s \<Rightarrow> 's"
    and fin :: "bool \<Rightarrow> ('s, 'e, unit) rsm"
    and op :: "'s \<Rightarrow> 's \<Rightarrow> bool"
    and within :: "'s \<Rightarrow> 's \<Rightarrow> bool"
    and view :: "'s \<Rightarrow> 'v"
  assumes within_refl: "within s s"
    and within_trans: "within s t \<Longrightarrow> within t u \<Longrightarrow> within s u"
    and op_within: "op s t \<Longrightarrow> within s t"
    and fin_within: "within (bgn s) t \<Longrightarrow> within s (snd (fin revert t))"
    and fin_ok: "within (bgn s) t \<Longrightarrow> fst (fin revert t) = Inr ()"
    and fin_revert: "within (bgn s) t \<Longrightarrow> view (snd (fin True t)) = view s"
    and fin_commit: "within (bgn s) t \<Longrightarrow> view (snd (fin False t)) = view t"
begin

lemma nested_run_within: "nested_run bgn fin op s t \<Longrightarrow> within s t"
proof (induction rule: nested_run.induct)
  case (run_transaction s s1 s2 revert r s3)
  then have "within s1 s3" using fin_within [of s1 s2 revert] by simp
  with run_transaction.IH(1) show ?case by (rule within_trans)
qed (blast intro: within_refl within_trans op_within)+

lemma revert_restores:
  "nested_run bgn fin op (bgn s) t \<Longrightarrow> \<exists>s'. fin True t = (Inr (), s') \<and> view s' = view s \<and> within s s'"
  using nested_run_within [of "bgn s" t] fin_ok [of s t True] fin_revert [of s t] fin_within [of s t True]
  by (cases "fin True t") auto

lemma commit_keeps:
  "nested_run bgn fin op (bgn s) t \<Longrightarrow> \<exists>s'. fin False t = (Inr (), s') \<and> view s' = view t \<and> within s s'"
  using nested_run_within [of "bgn s" t] fin_ok [of s t False] fin_commit [of s t] fin_within [of s t False]
  by (cases "fin False t") auto

end

text \<open>A history map is one such component, with the recorded lengths as its layers.\<close>

definition hm_begin :: "('k, 'v) HistoryMap \<times> nat list \<Rightarrow> ('k, 'v) HistoryMap \<times> nat list" where
  "hm_begin s = (case s of (m, hs) \<Rightarrow> (m, history_len m # hs))"

definition hm_end :: "bool \<Rightarrow> (('k, 'v) HistoryMap \<times> nat list, 'e, unit) rsm" where
  "hm_end revert s = (case s of (m, hs) \<Rightarrow> (Inr (), if revert then rollback (hd hs) m else m, tl hs))"

inductive hm_op :: "('k, 'v) HistoryMap \<times> nat list \<Rightarrow> ('k, 'v) HistoryMap \<times> nat list \<Rightarrow> bool" where
  op_insert: "hm_op (m, hs) (hm_insert k v m, hs)"
| op_get_or_insert: "hm_op (m, hs) (snd (get_or_try_insert_with k (f :: unit + 'v) m), hs)"

interpretation hmt: transactional hm_begin "hm_end :: bool \<Rightarrow> (('k, 'v) HistoryMap \<times> nat list, 'e, unit) rsm"
  hm_op "\<lambda>s t. undoable (fst s) (fst t) \<and> snd s = snd t" fst
proof (unfold_locales, goal_cases)
  case (3 s t)
  then show ?case
    by (cases rule: hm_op.cases) (auto intro: undoable_insert undoable_get_or_try_insert_with)
qed (auto simp: hm_begin_def hm_end_def rollback_undoable hm.R_refl intro: hm.R_trans split: prod.splits)

text \<open>
  A rollback of the history map is exact. Whatever inserts, cached lookups and completed
  inner rollback points happen after the history length was taken, rolling back to that length
  gives back the map and its history as they were.
\<close>

theorem history_rollback_exact:
  assumes "nested_run hm_begin (hm_end :: bool \<Rightarrow> (('k, 'v) HistoryMap \<times> nat list, unit, unit) rsm) hm_op
    (hm_begin (m, hs)) (m', hs')"
  shows "rollback (history_len m) m' = m \<and> hs' = history_len m # hs"
  using hmt.nested_run_within [OF assms] by (auto simp: hm_begin_def rollback_undoable)

theorem history_rollback_exact_witness:
  "rollback 0 (hm_insert (1 :: nat) (5 :: nat) (hm_insert 1 4 hm_default)) = hm_default"
proof -
  let ?m = "hm_default :: (nat, nat) HistoryMap"
  have "nested_run hm_begin (hm_end :: bool \<Rightarrow> ((nat, nat) HistoryMap \<times> nat list, unit, unit) rsm) hm_op
    (hm_begin (?m, [])) (hm_insert 1 5 (hm_insert 1 4 ?m), [0])"
    (is "nested_run _ _ _ _ (hm_insert 1 5 ?m1, _)")
  proof (rule run_op)
    show "hm_op (?m1, [0]) (hm_insert 1 5 ?m1, [0])" by (rule op_insert)
    have "hm_op (hm_begin (?m, [])) (?m1, [0])"
      using op_insert [of ?m "[0]" 1 4] by (simp add: hm_begin_def history_len_def hm_default_def)
    then show "nested_run hm_begin hm_end hm_op (hm_begin (?m, [])) (?m1, [0])"
      by (rule run_op [OF run_nil])
  qed
  from history_rollback_exact [OF this] show ?thesis
    by (simp add: history_len_def hm_default_def)
qed

end
