(* ===== verification/StateTree.thy ===== *)
theory StateTree
  imports Errors Address GasOutputs HistoryMap
begin

text \<open>
  The state tree: \<open>fvm/src/state_tree.rs\<close>, with the actor state of \<open>shared/src/state/mod.rs\<close> and
  the init actor's state of \<open>fvm/src/init_actor.rs\<close>.

  A state tree is a HAMT of actors below two caches with an undo history and a stack of snapshot
  layers. The HAMT of actors and the HAMT of the init actor's address map are represented by
  their contents: a lookup gives \<open>Inl ()\<close> where a node cannot be loaded, and storing a key fails
  where looking it up fails. The block store is a function from CIDs to the outcome of a read.
  Encodings and hashes belong to other crates; they are the fields of \<open>ipld_env\<close>.

  \<open>st_view\<close> is what a caller sees of an actor through the caches. The lemmas say what each
  operation does to it, \<open>flush\<close> writes exactly this view into the HAMT, and reverting a
  transaction restores both caches as they were.
\<close>

subsection \<open>CIDs, actors and the state root\<close>

record Cid =
  cid_version :: u64
  cid_codec :: u64
  mh_code :: u64
  mh_digest :: bytes

type_synonym Blocks = "Cid \<Rightarrow> unit + bytes option"

record ActorState =
  code :: Cid
  state :: Cid
  sequence :: u64
  balance :: TokenAmount
  delegated_address :: "Address option"

datatype InvalidTransfer = InsufficientBalance TokenAmount TokenAmount | NegativeAmount TokenAmount

definition actor_new :: "Cid \<Rightarrow> Cid \<Rightarrow> TokenAmount \<Rightarrow> u64 \<Rightarrow> Address option \<Rightarrow> ActorState" where
  "actor_new c st bal seq a =
    \<lparr>code = c, state = st, sequence = seq, balance = bal, delegated_address = a\<rparr>"

definition deduct_funds :: "TokenAmount \<Rightarrow> ActorState \<Rightarrow> InvalidTransfer + ActorState" where
  "deduct_funds amt a =
    (if amt < 0 then Inl (NegativeAmount amt)
     else if balance a < amt then Inl (InsufficientBalance amt (balance a))
     else Inr (a\<lparr>balance := balance a - amt\<rparr>))"

definition deposit_funds :: "TokenAmount \<Rightarrow> ActorState \<Rightarrow> InvalidTransfer + ActorState" where
  "deposit_funds amt a =
    (if amt < 0 then Inl (NegativeAmount amt) else Inr (a\<lparr>balance := balance a + amt\<rparr>))"

datatype StateTreeVersion = V0 | V1 | V2 | V3 | V4 | V5

record StateRoot =
  root_version :: StateTreeVersion
  root_actors :: Cid
  root_info :: Cid

text \<open>The init actor's state (\<open>init_actor.rs\<close>, \<open>State\<close>).\<close>

record InitState =
  address_map :: Cid
  next_id :: ActorID
  network_name :: string

type_synonym ActorMap = "ActorID \<Rightarrow> unit + ActorState option"

text \<open>
  The encodings and hashes: \<open>put_cbor\<close> stores an encoding under \<open>cbor_cid\<close> of it; the HAMT
  operations load a map from its root and store an updated map, giving the new root.
\<close>

record ipld_env =
  cbor_cid :: "bytes \<Rightarrow> Cid"
  empty_arr_cid :: Cid
  enc_init_state :: "InitState \<Rightarrow> bytes"
  dec_init_state :: "bytes \<Rightarrow> InitState option"
  enc_state_root :: "StateRoot \<Rightarrow> bytes"
  dec_state_root :: "bytes \<Rightarrow> StateRoot option"
  enc_state_info0 :: bytes
  hamt_load :: "Blocks \<Rightarrow> Cid \<Rightarrow> unit + ActorMap"
  hamt_flush :: "ActorMap \<Rightarrow> Blocks \<Rightarrow> (unit + Cid) \<times> Blocks"
  address_map_get :: "Blocks \<Rightarrow> Cid \<Rightarrow> Address \<Rightarrow> unit + ActorID option"
  address_map_set :: "Cid \<Rightarrow> Address \<Rightarrow> ActorID \<Rightarrow> Blocks \<Rightarrow> (unit + Cid) \<times> Blocks"

definition new_empty :: "ipld_env \<Rightarrow> Cid \<Rightarrow> Address option \<Rightarrow> ActorState" where
  "new_empty env c a =
    \<lparr>code = c, state = empty_arr_cid env, sequence = 0, balance = 0, delegated_address = a\<rparr>"

definition put_cbor :: "ipld_env \<Rightarrow> bytes \<Rightarrow> Blocks \<Rightarrow> Cid \<times> Blocks" where
  "put_cbor env b bs = (let c = cbor_cid env b in (c, bs(c := Inr (Some b))))"

text \<open>\<open>get_cbor\<close>: an error of the store or of the decoder, nothing, or the decoded value.\<close>

definition get_cbor :: "(bytes \<Rightarrow> 'a option) \<Rightarrow> Cid \<Rightarrow> Blocks \<Rightarrow> unit + 'a option" where
  "get_cbor dec c bs = (case bs c of
      Inl e \<Rightarrow> Inl e
    | Inr None \<Rightarrow> Inr None
    | Inr (Some b) \<Rightarrow> (case dec b of None \<Rightarrow> Inl () | Some a \<Rightarrow> Inr (Some a)))"

subsection \<open>The state tree\<close>

record ActorCacheEntry =
  dirty :: bool
  actor :: "ActorState option"

record StateSnapLayer =
  actor_cache_height :: nat
  resolve_cache_height :: nat

record StateTree =
  st_hamt :: ActorMap
  st_version :: StateTreeVersion
  st_info :: "Cid option"
  st_actor_cache :: "(ActorID, ActorCacheEntry) HistoryMap"
  st_resolve_cache :: "(Address, ActorID) HistoryMap"
  st_layers :: "StateSnapLayer list"
  st_store :: Blocks

type_synonym 'a st_op = "(StateTree, ExecutionError, 'a) rsm"

definition st_new :: "ipld_env \<Rightarrow> Blocks \<Rightarrow> StateTreeVersion \<Rightarrow> StateTree kresult" where
  "st_new env store version = (case version of
      V5 \<Rightarrow> (let (c, store) = put_cbor env (enc_state_info0 env) store
             in Inr \<lparr>st_hamt = (\<lambda>_. Inr None), st_version = version, st_info = Some c,
                     st_actor_cache = hm_default, st_resolve_cache = hm_default,
                     st_layers = [], st_store = store\<rparr>)
    | _ \<Rightarrow> Inl Fatal)"

definition st_new_from_root :: "ipld_env \<Rightarrow> Blocks \<Rightarrow> Cid \<Rightarrow> StateTree kresult" where
  "st_new_from_root env store c =
    (case get_cbor (dec_state_root env) c store of
      Inl _ \<Rightarrow> Inl Fatal
    | Inr None \<Rightarrow> Inl Fatal
    | Inr (Some root) \<Rightarrow> (case root_version root of
        V5 \<Rightarrow> (case hamt_load env store (root_actors root) of
            Inl _ \<Rightarrow> Inl Fatal
          | Inr h \<Rightarrow> Inr \<lparr>st_hamt = h, st_version = V5, st_info = Some (root_info root),
              st_actor_cache = hm_default, st_resolve_cache = hm_default,
              st_layers = [], st_store = store\<rparr>)
      | _ \<Rightarrow> Inl Fatal))"

definition get_actor :: "ActorID \<Rightarrow> ActorState option st_op" where
  "get_actor i s =
    (case get_or_try_insert_with i
        (map_sum (\<lambda>_. Fatal) (\<lambda>a. \<lparr>dirty = False, actor = a\<rparr>) (st_hamt s i)) (st_actor_cache s) of
      (r, cache) \<Rightarrow> (map_sum id actor r, s\<lparr>st_actor_cache := cache\<rparr>))"

definition set_actor :: "ActorID \<Rightarrow> ActorState \<Rightarrow> StateTree \<Rightarrow> StateTree" where
  "set_actor i a s =
    s\<lparr>st_actor_cache := hm_insert i \<lparr>dirty = True, actor = Some a\<rparr> (st_actor_cache s)\<rparr>"

definition delete_actor :: "ActorID \<Rightarrow> StateTree \<Rightarrow> StateTree" where
  "delete_actor i s =
    s\<lparr>st_actor_cache := hm_insert i \<lparr>dirty = True, actor = None\<rparr> (st_actor_cache s)\<rparr>"

definition INIT_ACTOR_ID :: ActorID where
  "INIT_ACTOR_ID = 1"

text \<open>\<open>InitActorState::load\<close>, \<open>resolve_address\<close> and \<open>map_address_to_new_id\<close>.\<close>

definition init_load :: "ipld_env \<Rightarrow> (InitState \<times> ActorState) st_op" where
  "init_load env =
    rbind (get_actor INIT_ACTOR_ID) (\<lambda>a.
    rbind (rlift (ok_or Fatal a)) (\<lambda>init_act.
    rbind (rget (\<lambda>s. get_cbor (dec_init_state env) (state init_act) (st_store s))) (\<lambda>r.
    rbind (rlift (or_fatal r)) (\<lambda>st.
    rbind (rlift (ok_or Fatal st)) (\<lambda>st.
    rreturn (st, init_act))))))"

definition resolve_address :: "ipld_env \<Rightarrow> InitState \<Rightarrow> Blocks \<Rightarrow> Address \<Rightarrow> ActorID option kresult" where
  "resolve_address env st store addr = (case payload addr of
      Payload.ID i \<Rightarrow> Inr (Some i)
    | _ \<Rightarrow> or_fatal (address_map_get env store (address_map st) addr))"

definition map_address_to_new_id ::
  "ipld_env \<Rightarrow> Address \<Rightarrow> InitState \<Rightarrow> Blocks \<Rightarrow> (ActorID \<times> InitState) kresult \<times> Blocks" where
  "map_address_to_new_id env addr st store =
    (let i = next_id st;
         st = st\<lparr>next_id := next_id st + 1\<rparr>
     in case address_map_set env (address_map st) addr i store of
          (Inl _, store) \<Rightarrow> (Inl Fatal, store)
        | (Inr c, store) \<Rightarrow> (Inr (i, st\<lparr>address_map := c\<rparr>), store))"

definition lookup_id :: "ipld_env \<Rightarrow> Address \<Rightarrow> ActorID option st_op" where
  "lookup_id env addr s = (case payload addr of
      Payload.ID i \<Rightarrow> (Inr (Some i), s)
    | _ \<Rightarrow> (case hm_get addr (st_resolve_cache s) of
        Some i \<Rightarrow> (Inr (Some i), s)
      | None \<Rightarrow>
          rbind (init_load env) (\<lambda>(st, _).
          rbind (rget (\<lambda>s. resolve_address env st (st_store s) addr)) (\<lambda>r.
          rbind (rlift r) (\<lambda>a. case a of
              None \<Rightarrow> rreturn None
            | Some a \<Rightarrow>
                rbind (rmodify (\<lambda>s. s\<lparr>st_resolve_cache := hm_insert addr a (st_resolve_cache s)\<rparr>)) (\<lambda>_.
                rreturn (Some a))))) s))"

definition maybe_mutate_actor_id ::
  "ActorID \<Rightarrow> (ActorState \<Rightarrow> ActorState kresult) \<Rightarrow> bool st_op" where
  "maybe_mutate_actor_id i mutate =
    rbind (get_actor i) (\<lambda>a. case a of
        None \<Rightarrow> rreturn False
      | Some act \<Rightarrow>
          rbind (rlift (mutate act)) (\<lambda>act.
          rbind (rmodify (set_actor i act)) (\<lambda>_. rreturn True)))"

definition mutate_actor :: "ActorID \<Rightarrow> (ActorState \<Rightarrow> ActorState kresult) \<Rightarrow> unit st_op" where
  "mutate_actor i mutate =
    rbind (maybe_mutate_actor_id i mutate) (\<lambda>found. if found then rreturn () else rthrow Fatal)"

definition register_new_address :: "ipld_env \<Rightarrow> Address \<Rightarrow> ActorID st_op" where
  "register_new_address env addr =
    rbind (init_load env) (\<lambda>(st, act).
    rbind (\<lambda>s. case map_address_to_new_id env addr st (st_store s) of
            (r, store) \<Rightarrow> (r, s\<lparr>st_store := store\<rparr>)) (\<lambda>(new_id, st).
    rbind (\<lambda>s. case put_cbor env (enc_init_state env st) (st_store s) of
            (c, store) \<Rightarrow> (Inr c, s\<lparr>st_store := store\<rparr>)) (\<lambda>c.
    rbind (rmodify (set_actor INIT_ACTOR_ID (act\<lparr>state := c\<rparr>))) (\<lambda>_.
    rbind (rmodify (\<lambda>s. s\<lparr>st_resolve_cache := hm_insert addr new_id (st_resolve_cache s)\<rparr>)) (\<lambda>_.
    rreturn new_id)))))"

definition begin_transaction :: "StateTree \<Rightarrow> StateTree" where
  "begin_transaction s = s\<lparr>st_layers := st_layers s @
    [\<lparr>actor_cache_height = history_len (st_actor_cache s),
      resolve_cache_height = history_len (st_resolve_cache s)\<rparr>]\<rparr>"

definition in_transaction :: "StateTree \<Rightarrow> bool" where
  "in_transaction s \<longleftrightarrow> st_layers s \<noteq> []"

definition end_transaction :: "bool \<Rightarrow> unit st_op" where
  "end_transaction revert s =
    (if st_layers s = [] then (Inl Fatal, s)
     else
       let layer = last (st_layers s);
           s = s\<lparr>st_layers := butlast (st_layers s)\<rparr>;
           s = (if revert
                then s\<lparr>st_actor_cache := rollback (actor_cache_height layer) (st_actor_cache s),
                       st_resolve_cache := rollback (resolve_cache_height layer) (st_resolve_cache s)\<rparr>
                else s);
           s = (if \<not> in_transaction s
                then s\<lparr>st_actor_cache := discard_history (st_actor_cache s),
                       st_resolve_cache := discard_history (st_resolve_cache s)\<rparr>
                else s)
       in (Inr (), s))"

text \<open>
  \<open>flush\<close> visits the cache in the iteration order of the hash map, which is an argument. Storing
  into or deleting from the HAMT fails where the path of the key cannot be loaded. A missing
  \<open>info\<close> is a panic of the code (\<open>expect\<close>), which no constructor of the tree can cause; the model
  reports it as a fatal error.
\<close>

definition hamt_store :: "ActorID \<Rightarrow> ActorState option \<Rightarrow> ActorMap \<Rightarrow> unit + ActorMap" where
  "hamt_store i a h = (case h i of Inl e \<Rightarrow> Inl e | Inr _ \<Rightarrow> Inr (h(i := Inr a)))"

fun flush_entries :: "ActorID list \<Rightarrow> unit st_op" where
  "flush_entries [] s = (Inr (), s)"
| "flush_entries (i # ids) s = (case hm_map (st_actor_cache s) i of
      None \<Rightarrow> flush_entries ids s
    | Some entry \<Rightarrow>
        if \<not> dirty entry then flush_entries ids s
        else
          let clean = (\<lambda>j (e :: ActorCacheEntry). if j = i then e\<lparr>dirty := False\<rparr> else e);
              s = s\<lparr>st_actor_cache := hm_map_values clean (st_actor_cache s)\<rparr>
          in case hamt_store i (actor entry) (st_hamt s) of
               Inl _ \<Rightarrow> (Inl Fatal, s)
             | Inr h \<Rightarrow> flush_entries ids (s\<lparr>st_hamt := h\<rparr>))"

definition flush :: "ipld_env \<Rightarrow> ActorID list \<Rightarrow> Cid st_op" where
  "flush env order =
    rbind (rget in_transaction) (\<lambda>busy.
    if busy then rthrow Fatal
    else
      rbind (flush_entries order) (\<lambda>_.
      rbind (\<lambda>s. case hamt_flush env (st_hamt s) (st_store s) of
              (r, store) \<Rightarrow> (or_fatal r, s\<lparr>st_store := store\<rparr>)) (\<lambda>root.
      \<lambda>s. case st_version s of
        V0 \<Rightarrow> (Inr root, s)
      | v \<Rightarrow> (case st_info s of
          None \<Rightarrow> (Inl Fatal, s)
        | Some info \<Rightarrow>
            (case put_cbor env (enc_state_root env
                 \<lparr>root_version = v, root_actors = root, root_info = info\<rparr>) (st_store s) of
              (c, store) \<Rightarrow> (Inr c, s\<lparr>st_store := store\<rparr>))))))"

subsection \<open>What a caller sees\<close>

definition st_view :: "StateTree \<Rightarrow> ActorMap" where
  "st_view s i = (case hm_map (st_actor_cache s) i of
      Some e \<Rightarrow> Inr (actor e)
    | None \<Rightarrow> st_hamt s i)"

text \<open>Everything but the actor cache.\<close>

lemma get_actor_result: "fst (get_actor i s) = or_fatal (st_view s i)"
  by (auto simp: get_actor_def st_view_def get_or_try_insert_with_def or_fatal_def map_sum_def
      split: option.split sum.split)

lemma get_actor_fields [simp]:
  "st_hamt (snd (get_actor i s)) = st_hamt s" "st_layers (snd (get_actor i s)) = st_layers s"
  "st_store (snd (get_actor i s)) = st_store s"
  "st_resolve_cache (snd (get_actor i s)) = st_resolve_cache s"
  "st_version (snd (get_actor i s)) = st_version s" "st_info (snd (get_actor i s)) = st_info s"
  by (simp_all add: get_actor_def split: prod.split)

lemma get_actor_view [simp]: "st_view (snd (get_actor i s)) = st_view s"
  by (auto simp: get_actor_def st_view_def get_or_try_insert_with_def map_sum_def fun_eq_iff
      split: option.split sum.split prod.split)

lemma get_actor_cases:
  assumes "get_actor i s = (r, s')"
  shows "r = or_fatal (st_view s i)" and "st_view s' = st_view s"
  using assms get_actor_result [of i s] get_actor_view [of i s] by simp_all

lemma set_actor_view [simp]: "st_view (set_actor i a s) = (st_view s)(i := Inr (Some a))"
  by (auto simp: set_actor_def st_view_def fun_eq_iff hm_insert_def split: option.split)

lemma delete_actor_view [simp]: "st_view (delete_actor i s) = (st_view s)(i := Inr None)"
  by (auto simp: delete_actor_def st_view_def fun_eq_iff hm_insert_def split: option.split)

lemma set_delete_fields [simp]:
  "st_hamt (set_actor i a s) = st_hamt s" "st_layers (set_actor i a s) = st_layers s"
  "st_store (set_actor i a s) = st_store s" "st_resolve_cache (set_actor i a s) = st_resolve_cache s"
  "st_hamt (delete_actor i s) = st_hamt s" "st_layers (delete_actor i s) = st_layers s"
  "st_store (delete_actor i s) = st_store s" "st_resolve_cache (delete_actor i s) = st_resolve_cache s"
  by (simp_all add: set_actor_def delete_actor_def)

lemma view_other_fields [simp]:
  "st_view (s\<lparr>st_resolve_cache := c\<rparr>) = st_view s" "st_view (s\<lparr>st_store := b\<rparr>) = st_view s"
  "st_view (s\<lparr>st_layers := l\<rparr>) = st_view s"
  by (simp_all add: st_view_def fun_eq_iff split: option.split)

lemma mutate_actor_run:
  "mutate_actor i f s = (case st_view s i of
      Inl _ \<Rightarrow> (Inl Fatal, snd (get_actor i s))
    | Inr None \<Rightarrow> (Inl Fatal, snd (get_actor i s))
    | Inr (Some a) \<Rightarrow> (case f a of
        Inl e \<Rightarrow> (Inl e, snd (get_actor i s))
      | Inr a' \<Rightarrow> (Inr (), set_actor i a' (snd (get_actor i s)))))"
  by (cases "get_actor i s")
    (auto simp: mutate_actor_def maybe_mutate_actor_id_def rsm_defs dest: get_actor_cases
      split: sum.splits option.splits)

subsection \<open>Runs inside a transaction\<close>

text \<open>
  \<open>st_within s s'\<close>: \<open>s'\<close> was reached from \<open>s\<close> without leaving its transaction. The HAMT, the layers
  and the kind of tree are the same, and inside a transaction the caches' changes can be undone.
\<close>

definition st_within :: "StateTree \<Rightarrow> StateTree \<Rightarrow> bool" where
  "st_within s s' \<longleftrightarrow>
    st_hamt s' = st_hamt s \<and> st_layers s' = st_layers s \<and>
    st_version s' = st_version s \<and> st_info s' = st_info s \<and>
    (st_layers s \<noteq> [] \<longrightarrow>
      undoable (st_actor_cache s) (st_actor_cache s') \<and>
      undoable (st_resolve_cache s) (st_resolve_cache s'))"

interpretation st: step_preorder st_within
  by unfold_locales (auto simp: st_within_def hm.R_refl intro: hm.R_trans)

lemma keeps_get_actor [keeps_intros]: "keeps st_within (get_actor i)"
  by (rule keepsI) (auto simp: get_actor_def st_within_def hm.R_refl
      dest: get_or_try_insert_with_undoable split: prod.splits)

lemma within_set_actor: "st_within s (set_actor i a s)"
  by (simp add: st_within_def set_actor_def undoable_insert hm.R_refl)

lemma within_delete_actor: "st_within s (delete_actor i s)"
  by (simp add: st_within_def delete_actor_def undoable_insert hm.R_refl)

lemma within_resolve: "st_within s (s\<lparr>st_resolve_cache := hm_insert addr a (st_resolve_cache s)\<rparr>)"
  by (simp add: st_within_def undoable_insert hm.R_refl)

lemma keeps_store:
  "keeps st_within (\<lambda>s. case f (st_store s) of (r, store) \<Rightarrow> (g r, s\<lparr>st_store := store\<rparr>))"
  by (auto simp: keeps_def st_within_def hm.R_refl split: prod.splits)

lemmas st_keeps = st.keeps_rules keeps_get_actor keeps_rmodify [of st_within, OF within_set_actor]
  keeps_rmodify [of st_within, OF within_delete_actor] keeps_rmodify [of st_within, OF within_resolve]

lemma keeps_init_load [keeps_intros]: "keeps st_within (init_load env)"
  unfolding init_load_def by (intro st_keeps)

lemma keeps_mutate_actor [keeps_intros]: "keeps st_within (mutate_actor i f)"
  unfolding mutate_actor_def maybe_mutate_actor_id_def by (intro st_keeps)

lemma keeps_lookup_id [keeps_intros]: "keeps st_within (lookup_id env addr)"
proof (rule keepsI)
  fix s r s'
  assume run: "lookup_id env addr s = (r, s')"
  let ?slow = "rbind (init_load env) (\<lambda>(st, _).
      rbind (rget (\<lambda>s. resolve_address env st (st_store s) addr)) (\<lambda>r.
      rbind (rlift r) (\<lambda>a. case a of
          None \<Rightarrow> rreturn None
        | Some a \<Rightarrow>
            rbind (rmodify (\<lambda>s. s\<lparr>st_resolve_cache := hm_insert addr a (st_resolve_cache s)\<rparr>)) (\<lambda>_.
            rreturn (Some a)))))"
  have "keeps st_within ?slow"
    by (intro st_keeps keeps_case_prod keeps_init_load)
  with run show "st_within s s'"
    by (auto simp: lookup_id_def st.R_refl dest: keepsD split: Payload.splits option.splits)
qed

lemma keeps_map_address: "keeps st_within (\<lambda>s. case map_address_to_new_id env addr st (st_store s) of
    (r, store) \<Rightarrow> (r, s\<lparr>st_store := store\<rparr>))"
  by (rule keeps_store [where g = "\<lambda>r. r"])

lemma keeps_put_cbor: "keeps st_within (\<lambda>s. case put_cbor env b (st_store s) of
    (c, store) \<Rightarrow> (Inr c, s\<lparr>st_store := store\<rparr>))"
  by (rule keeps_store)

lemma keeps_register_new_address [keeps_intros]: "keeps st_within (register_new_address env addr)"
  unfolding register_new_address_def
  by (intro st_keeps keeps_case_prod keeps_init_load keeps_map_address keeps_put_cbor)

text \<open>The operations of the tree as one step relation.\<close>

inductive st_op :: "ipld_env \<Rightarrow> StateTree \<Rightarrow> StateTree \<Rightarrow> bool" for env where
  op_get: "st_op env s (snd (get_actor i s))"
| op_set: "st_op env s (set_actor i a s)"
| op_delete: "st_op env s (delete_actor i s)"
| op_mutate: "st_op env s (snd (mutate_actor i f s))"
| op_lookup: "st_op env s (snd (lookup_id env addr s))"
| op_register: "st_op env s (snd (register_new_address env addr s))"

lemma st_op_within: "st_op env s s' \<Longrightarrow> st_within s s'"
  by (induction rule: st_op.induct)
    (intro within_set_actor within_delete_actor keeps_snd [of st_within] keeps_get_actor
      keeps_mutate_actor keeps_lookup_id keeps_register_new_address)+

definition st_caches :: "StateTree \<Rightarrow> (ActorID \<rightharpoonup> ActorCacheEntry) \<times> (Address \<rightharpoonup> ActorID) \<times> ActorMap" where
  "st_caches s = (hm_map (st_actor_cache s), hm_map (st_resolve_cache s), st_hamt s)"

lemma end_transaction_within:
  assumes "st_within (begin_transaction s) t"
  shows "fst (end_transaction revert t) = Inr ()"
    and "st_within s (snd (end_transaction revert t))"
    and "st_caches (snd (end_transaction True t)) = st_caches s"
    and "st_caches (snd (end_transaction False t)) = st_caches t"
proof -
  let ?layer = "\<lparr>actor_cache_height = history_len (st_actor_cache s),
    resolve_cache_height = history_len (st_resolve_cache s)\<rparr>"
  have t: "st_layers t = st_layers s @ [?layer]" "st_hamt t = st_hamt s"
      "st_version t = st_version s" "st_info t = st_info s"
    and u: "undoable (st_actor_cache s) (st_actor_cache t)" "undoable (st_resolve_cache s) (st_resolve_cache t)"
    using assms by (auto simp: st_within_def begin_transaction_def)
  note undone = u [THEN rollback_undoable]
  show "fst (end_transaction revert t) = Inr ()"
    by (simp add: end_transaction_def t Let_def)
  show "st_within s (snd (end_transaction revert t))"
    using u by (simp add: end_transaction_def t undone Let_def in_transaction_def st_within_def hm.R_refl)
  show "st_caches (snd (end_transaction True t)) = st_caches s"
    "st_caches (snd (end_transaction False t)) = st_caches t"
    by (simp_all add: end_transaction_def t undone Let_def in_transaction_def st_caches_def discard_history_def)
qed

interpretation stt: transactional begin_transaction end_transaction "st_op env" st_within st_caches
  by unfold_locales
    (auto intro: st.R_trans end_transaction_within simp: st.R_refl st_op_within)

text \<open>
  C13: reverting a transaction of the state tree is exact. After \<open>begin_transaction\<close> and any
  sequence of lookups, updates, deletions, registrations and inner transactions (committed or
  reverted), \<open>end_transaction(true)\<close> succeeds and restores both caches, every actor as a caller sees
  it and the open layers; \<open>end_transaction(false)\<close> succeeds and keeps the caches as they are.
\<close>

theorem state_tree_transaction:
  assumes "nested_run begin_transaction end_transaction (st_op env) (begin_transaction s) t"
  shows "(\<exists>s'. end_transaction True t = (Inr (), s') \<and> st_caches s' = st_caches s \<and>
      st_view s' = st_view s \<and> st_layers s' = st_layers s) \<and>
    (\<exists>s'. end_transaction False t = (Inr (), s') \<and> st_caches s' = st_caches t \<and>
      st_view s' = st_view t \<and> st_layers s' = st_layers s)"
proof -
  have view: "st_view a = st_view b" if "st_caches a = st_caches b" for a b
    using that by (auto simp: st_caches_def st_view_def fun_eq_iff split: option.split)
  obtain s1 where "end_transaction True t = (Inr (), s1)" "st_caches s1 = st_caches s" "st_within s s1"
    using stt.revert_restores [OF assms] by blast
  moreover obtain s2 where "end_transaction False t = (Inr (), s2)" "st_caches s2 = st_caches t" "st_within s s2"
    using stt.commit_keeps [OF assms] by blast
  ultimately show ?thesis
    using view [of s1 s] view [of s2 t] by (simp add: st_within_def)
qed

text \<open>A concrete tree and concrete encodings, for the evaluations below.\<close>

definition example_cid :: "u8 \<Rightarrow> Cid" where
  "example_cid b = \<lparr>cid_version = 1, cid_codec = 0x71, mh_code = 0xb220, mh_digest = [b]\<rparr>"

definition example_env :: ipld_env where
  "example_env = \<lparr>
    cbor_cid = (\<lambda>b. \<lparr>cid_version = 1, cid_codec = 0x71, mh_code = 0, mh_digest = b\<rparr>),
    empty_arr_cid = example_cid 0,
    enc_init_state = (\<lambda>_. []), dec_init_state = (\<lambda>_. None),
    enc_state_root = (\<lambda>_. []), dec_state_root = (\<lambda>_. None), enc_state_info0 = [],
    hamt_load = (\<lambda>_ _. Inl ()), hamt_flush = (\<lambda>_ bs. (Inr (example_cid 1), bs)),
    address_map_get = (\<lambda>_ _ _. Inr None), address_map_set = (\<lambda>c _ _ bs. (Inr c, bs))\<rparr>"

definition example_actor :: ActorState where
  "example_actor = actor_new (example_cid 3) (example_cid 4) 1000 0 None"

definition example_tree :: StateTree where
  "example_tree = \<lparr>st_hamt = (\<lambda>_. Inr None), st_version = V5, st_info = Some (example_cid 2),
    st_actor_cache = hm_default, st_resolve_cache = hm_default, st_layers = [], st_store = (\<lambda>_. Inr None)\<rparr>"

theorem state_tree_transaction_witness:
  "\<exists>s'. end_transaction True (delete_actor 7 (begin_transaction example_tree)) = (Inr (), s') \<and>
     st_view s' = st_view example_tree"
proof -
  have "nested_run begin_transaction end_transaction (st_op env) (begin_transaction example_tree)
      (delete_actor 7 (begin_transaction example_tree))" for env
    using run_nil op_delete by (rule run_op)
  from state_tree_transaction [OF this] show ?thesis by blast
qed

subsection \<open>Flushing\<close>

text \<open>Clean cache entries agree with the HAMT below them.\<close>

definition cache_coherent :: "StateTree \<Rightarrow> bool" where
  "cache_coherent s \<longleftrightarrow> (\<forall>i e. hm_map (st_actor_cache s) i = Some e \<longrightarrow> \<not> dirty e \<longrightarrow> st_hamt s i = Inr (actor e))"

definition keeps_coherent :: "StateTree \<Rightarrow> StateTree \<Rightarrow> bool" where
  "keeps_coherent s s' \<longleftrightarrow> (cache_coherent s \<longrightarrow> cache_coherent s')"

interpretation coherent: step_preorder keeps_coherent
  by unfold_locales (auto simp: keeps_coherent_def)

lemma coherent_get_actor: "keeps keeps_coherent (get_actor i)"
  by (rule keepsI) (auto simp: keeps_coherent_def get_actor_def cache_coherent_def get_or_try_insert_with_def
      map_sum_def split: prod.splits option.splits sum.splits if_splits)

lemma coherent_set_actor: "keeps_coherent s (set_actor i a s)"
  by (auto simp: keeps_coherent_def cache_coherent_def set_actor_def hm_insert_def split: option.splits if_splits)

lemma coherent_delete_actor: "keeps_coherent s (delete_actor i s)"
  by (auto simp: keeps_coherent_def cache_coherent_def delete_actor_def hm_insert_def split: option.splits if_splits)

lemma coherent_resolve: "keeps_coherent s (s\<lparr>st_resolve_cache := c\<rparr>)"
  by (simp add: keeps_coherent_def cache_coherent_def)

lemma coherent_store:
  "keeps keeps_coherent (\<lambda>s. case f (st_store s) of (r, store) \<Rightarrow> (g r, s\<lparr>st_store := store\<rparr>))"
  by (auto simp: keeps_def keeps_coherent_def cache_coherent_def split: prod.splits)

lemma coherent_map_address: "keeps keeps_coherent (\<lambda>s. case map_address_to_new_id env addr st (st_store s) of
    (r, store) \<Rightarrow> (r, s\<lparr>st_store := store\<rparr>))"
  by (rule coherent_store [where g = "\<lambda>r. r"])

lemma flush_entries_effect:
  "flush_entries order s = (Inr (), s') \<Longrightarrow>
    hm_map (st_actor_cache s') i =
      (if i \<in> set order then map_option (\<lambda>e. e\<lparr>dirty := False\<rparr>) (hm_map (st_actor_cache s) i)
       else hm_map (st_actor_cache s) i) \<and>
    st_hamt s' i = (case hm_map (st_actor_cache s) i of
        Some e \<Rightarrow> if i \<in> set order \<and> dirty e then Inr (actor e) else st_hamt s i
      | None \<Rightarrow> st_hamt s i) \<and>
    st_version s' = st_version s \<and> st_info s' = st_info s \<and> st_layers s' = st_layers s"
proof (induction order s rule: flush_entries.induct)
  case (2 j ids s)
  show ?case
  proof (cases "hm_map (st_actor_cache s) j")
    case None
    with 2 show ?thesis by (auto split: option.splits)
  next
    case (Some e)
    show ?thesis
    proof (cases "dirty e")
      case False
      with 2 Some show ?thesis by (auto split: option.splits)
    next
      case True
      with 2 Some show ?thesis
        by (auto simp: hm_map_values_def hamt_store_def Let_def option.map_comp comp_def
            split: option.splits sum.splits if_splits)
    qed
  qed
qed (simp split: option.split)

lemma flush_entries_view:
  assumes run: "flush_entries order s = (Inr (), s')" and all: "set order = dom (hm_map (st_actor_cache s))"
    and coh: "cache_coherent s"
  shows "st_hamt s' = st_view s \<and> st_view s' = st_view s \<and> cache_coherent s' \<and>
    (\<forall>i e. hm_map (st_actor_cache s') i = Some e \<longrightarrow> \<not> dirty e)"
proof -
  note eff = flush_entries_effect [OF run, unfolded all]
  have hamt: "st_hamt s' i = st_view s i" for i
    using eff [of i] coh by (auto simp: cache_coherent_def st_view_def domIff split: option.splits)
  moreover have "st_view s' i = st_view s i" for i
    using eff [of i] hamt [of i] by (auto simp: st_view_def split: option.splits)
  moreover have "\<not> dirty e \<and> st_hamt s' i = Inr (actor e)" if "hm_map (st_actor_cache s') i = Some e" for i e
    using that eff [of i] hamt [of i] by (auto simp: st_view_def split: if_splits option.splits)
  ultimately show ?thesis by (auto simp: cache_coherent_def)
qed

lemma flush_ok:
  assumes "flush env order s = (Inr root, s')"
  obtains s1 where "\<not> in_transaction s" and "flush_entries order s = (Inr (), s1)"
    and "st_hamt s' = st_hamt s1" and "st_actor_cache s' = st_actor_cache s1"
proof (cases "in_transaction s")
  case True
  with assms show thesis by (simp add: flush_def rbind_def rget_def rthrow_def)
next
  case False
  obtain r s1 where run: "flush_entries order s = (r, s1)" by (cases "flush_entries order s")
  have r: "r = Inr ()"
    using assms False run by (cases r) (auto simp: flush_def rbind_def rget_def)
  obtain r2 store where fl: "hamt_flush env (st_hamt s1) (st_store s1) = (r2, store)"
    by (cases "hamt_flush env (st_hamt s1) (st_store s1)")
  obtain c where r2: "r2 = Inr c"
    using assms False run r fl by (cases r2) (auto simp: flush_def rbind_def rget_def)
  have "st_hamt s' = st_hamt s1 \<and> st_actor_cache s' = st_actor_cache s1"
    using assms False run r fl r2
    by (cases "st_version s1"; cases "st_info s1")
      (auto simp: flush_def rbind_def rget_def put_cbor_def Let_def)
  with False run r that show thesis by blast
qed

text \<open>
  C14: a flush writes exactly what callers see. If \<open>flush\<close> returns a root, then, for every
  iteration order of the cache, the HAMT whose root was computed maps every actor to what a
  caller saw before the flush (updated, deleted and untouched ones), callers still see the same,
  and no entry of the cache is dirty any more. Inside a transaction \<open>flush\<close> fails.
\<close>

theorem flush_writes_view:
  assumes "cache_coherent s" and "set order = dom (hm_map (st_actor_cache s))"
    and "flush env order s = (Inr root, s')"
  shows "\<not> in_transaction s \<and> st_hamt s' = st_view s \<and> st_view s' = st_view s \<and> cache_coherent s' \<and>
    (\<forall>i e. hm_map (st_actor_cache s') i = Some e \<longrightarrow> \<not> dirty e)"
proof -
  obtain s1 where "\<not> in_transaction s" and run: "flush_entries order s = (Inr (), s1)"
    and same: "st_hamt s' = st_hamt s1" "st_actor_cache s' = st_actor_cache s1"
    by (rule flush_ok [OF assms(3)])
  moreover have "st_view s' = st_view s1" "cache_coherent s' = cache_coherent s1"
    by (auto simp: st_view_def cache_coherent_def same fun_eq_iff split: option.split)
  ultimately show ?thesis using flush_entries_view [OF run assms(2,1)] by simp
qed

theorem flush_writes_view_witness:
  "\<exists>root s'. flush example_env [7] (set_actor 7 example_actor example_tree) = (Inr root, s') \<and>
     st_hamt s' 7 = Inr (Some example_actor)"
proof -
  let ?s = "set_actor 7 example_actor example_tree"
  obtain root s' where run: "flush example_env [7] ?s = (Inr root, s')"
    by (simp add: flush_def rsm_defs example_env_def example_tree_def set_actor_def hm_insert_def
        hm_default_def in_transaction_def hamt_store_def put_cbor_def Let_def)
  have "cache_coherent ?s" "set [7] = dom (hm_map (st_actor_cache ?s))"
    by (auto simp: cache_coherent_def set_actor_def example_tree_def hm_default_def hm_insert_def
        split: if_splits)
  from flush_writes_view [OF this run] run show ?thesis by simp
qed

end
