(* ===== verification/Machine.thy ===== *)
theory Machine
  imports PriceList StateTree
begin

text \<open>
  The machine's configuration (\<open>fvm/src/machine/mod.rs\<close>) and the manifest of built-in actors
  (\<open>fvm/src/machine/manifest.rs\<close>). \<open>anyhow\<close> errors are \<open>Inl ()\<close>.
\<close>

definition REWARD_ACTOR_ID :: ActorID where
  "REWARD_ACTOR_ID = 2"

definition BURNT_FUNDS_ACTOR_ID :: ActorID where
  "BURNT_FUNDS_ACTOR_ID = 99"

definition SYSTEM_ACTOR_ID :: ActorID where
  "SYSTEM_ACTOR_ID = 0"

definition EAM_ACTOR_ID :: ActorID where
  "EAM_ACTOR_ID = 10"

subsection \<open>Network and machine context\<close>

record NetworkConfig =
  network_version :: u32
  chain_id :: u64
  max_call_depth :: u32
  max_wasm_stack :: u32
  max_inst_memory_bytes :: u64
  cfg_max_memory_bytes :: u64
  max_block_size :: nat
  builtin_actors_override :: "Cid option"
  actor_debugging :: bool
  price_list :: PriceList
  actor_redirect :: "(Cid \<times> Cid) list"

text \<open>\<open>NetworkConfig::new\<close>; a version without a price list makes the code panic: \<open>None\<close>.\<close>

definition network_config_new :: "u32 \<Rightarrow> NetworkConfig option" where
  "network_config_new nv = map_option (\<lambda>prices. \<lparr>
    network_version = nv,
    chain_id = 0,
    max_call_depth = 1024,
    max_wasm_stack = 2048,
    max_inst_memory_bytes = 512 * push_bit 20 1,
    cfg_max_memory_bytes = 2 * push_bit 30 1,
    max_block_size = push_bit 20 1,
    builtin_actors_override = None,
    actor_debugging = False,
    price_list = prices,
    actor_redirect = []\<rparr>) (price_list_by_network_version nv)"

record MachineContext =
  network :: NetworkConfig
  epoch :: int
  timestamp :: u64
  base_fee :: TokenAmount
  initial_state_root :: Cid
  circ_supply :: TokenAmount
  tracing :: bool

definition for_epoch :: "TokenAmount \<Rightarrow> NetworkConfig \<Rightarrow> int \<Rightarrow> u64 \<Rightarrow> Cid \<Rightarrow> MachineContext" where
  "for_epoch total_filecoin cfg ep ts initial_state = \<lparr>
    network = cfg, epoch = ep, timestamp = ts, base_fee = 0,
    initial_state_root = initial_state, circ_supply = total_filecoin, tracing = False\<rparr>"

subsection \<open>The manifest\<close>

record Manifest =
  account_code :: Cid
  placeholder_code :: Cid
  system_code :: Cid
  init_code :: Cid
  eam_code :: Cid
  ethaccount_code :: Cid
  by_id :: "u32 \<rightharpoonup> Cid"
  by_code :: "Cid \<rightharpoonup> u32"

text \<open>The loop of \<open>Manifest::new\<close>: names, ids counted from 1, and codes; later entries win.\<close>

fun manifest_index ::
  "(string \<times> Cid) list \<Rightarrow> u32 \<Rightarrow> (string \<rightharpoonup> Cid) \<times> (u32 \<rightharpoonup> Cid) \<times> (Cid \<rightharpoonup> u32) \<Rightarrow>
   (string \<rightharpoonup> Cid) \<times> (u32 \<rightharpoonup> Cid) \<times> (Cid \<rightharpoonup> u32)" where
  "manifest_index [] i ms = ms"
| "manifest_index ((name, code_cid) # rest) i (by_name, ids, codes) =
    manifest_index rest (i + 1) (by_name(name \<mapsto> code_cid), ids(i \<mapsto> code_cid), codes(code_cid \<mapsto> i))"

definition manifest_new :: "(string \<times> Cid) list \<Rightarrow> unit + Manifest" where
  "manifest_new entries =
    (case manifest_index entries 1 (Map.empty, Map.empty, Map.empty) of (by_name, ids, codes) \<Rightarrow>
      case (by_name ''account'', by_name ''system'', by_name ''init'', by_name ''placeholder'',
            by_name ''eam'', by_name ''ethaccount'') of
        (Some acc, Some sys, Some ini, Some plc, Some eam, Some eth) \<Rightarrow>
          Inr \<lparr>account_code = acc, placeholder_code = plc, system_code = sys, init_code = ini,
               eam_code = eam, ethaccount_code = eth, by_id = ids, by_code = codes\<rparr>
      | _ \<Rightarrow> Inl ())"

definition manifest_load ::
  "(bytes \<Rightarrow> (string \<times> Cid) list option) \<Rightarrow> Blocks \<Rightarrow> Cid \<Rightarrow> u32 \<Rightarrow> unit + Manifest" where
  "manifest_load dec bs root_cid ver =
    (if ver \<noteq> 1 then Inl ()
     else case get_cbor dec root_cid bs of
       Inr (Some entries) \<Rightarrow> manifest_new entries
     | _ \<Rightarrow> Inl ())"

definition code_by_id :: "u32 \<Rightarrow> Manifest \<Rightarrow> Cid option" where
  "code_by_id i m = by_id m i"

definition id_by_code :: "Cid \<Rightarrow> Manifest \<Rightarrow> u32" where
  "id_by_code c m = (case by_code m c of Some i \<Rightarrow> i | None \<Rightarrow> 0)"

definition is_account_actor :: "Cid \<Rightarrow> Manifest \<Rightarrow> bool" where
  "is_account_actor c m \<longleftrightarrow> account_code m = c"

definition is_placeholder_actor :: "Cid \<Rightarrow> Manifest \<Rightarrow> bool" where
  "is_placeholder_actor c m \<longleftrightarrow> placeholder_code m = c"

definition is_ethaccount_actor :: "Cid \<Rightarrow> Manifest \<Rightarrow> bool" where
  "is_ethaccount_actor c m \<longleftrightarrow> ethaccount_code m = c"

text \<open>The index is a bijection between the ids \<open>1, \<dots>, n\<close> and the codes when no code occurs twice.\<close>

lemma manifest_index_other:
  "manifest_index entries i (n, ids, codes) = (n', ids', codes') \<Longrightarrow>
    (\<forall>k. unat k < unat i \<longrightarrow> unat i + length entries \<le> 2 ^ 32 \<longrightarrow> ids' k = ids k) \<and>
    (c \<notin> snd ` set entries \<longrightarrow> codes' c = codes c)"
proof (induction entries i "(n, ids, codes)" arbitrary: n ids codes rule: manifest_index.induct)
  case (2 name code rest i n ids codes)
  from 2(1) [OF 2(2) [unfolded manifest_index.simps]]
  show ?case
  proof (intro conjI allI impI)
    fix k :: u32
    assume lt: "unat k < unat i" "unat i + length ((name, code) # rest) \<le> 2 ^ 32"
    show "ids' k = ids k"
    proof (cases "rest")
      case Nil
      with 2(2) lt show ?thesis by auto
    next
      case (Cons r rs)
      then have "unat (i + 1) = unat i + 1" using lt by (simp add: unat_word_ariths)
      with 2(1) [OF 2(2) [unfolded manifest_index.simps]] lt show ?thesis by auto
    qed
  qed auto
qed simp

lemma manifest_index_nth:
  "manifest_index entries i (n, ids, codes) = (n', ids', codes') \<Longrightarrow> distinct (map snd entries) \<Longrightarrow>
    unat i + length entries \<le> 2 ^ 32 \<Longrightarrow> j < length entries \<Longrightarrow>
    ids' (i + of_nat j) = Some (snd (entries ! j)) \<and> codes' (snd (entries ! j)) = Some (i + of_nat j)"
proof (induction entries i "(n, ids, codes)" arbitrary: n ids codes j rule: manifest_index.induct)
  case (2 name code rest i n ids codes)
  let ?run = "manifest_index rest (i + 1) (n(name \<mapsto> code), ids(i \<mapsto> code), codes(code \<mapsto> i)) = (n', ids', codes')"
  have run: ?run using 2(2) by simp
  show ?case
  proof (cases j)
    case 0
    have "ids' i = Some code"
    proof (cases rest)
      case Nil
      with run show ?thesis by auto
    next
      case (Cons r rs)
      then have "unat (i + 1) = unat i + 1" using 2(4) by (simp add: unat_word_ariths)
      then show ?thesis using manifest_index_other [OF run] 2(4) by auto
    qed
    moreover have "codes' code = Some i"
      using manifest_index_other [OF run, of code] 2(3) by auto
    ultimately show ?thesis using 0 by simp
  next
    case (Suc j')
    then have "unat (i + 1) = unat i + 1" using 2(4,5) by (simp add: unat_word_ariths)
    then show ?thesis using 2(1) [OF run, of j'] 2(3-5) Suc by (simp add: add.assoc)
  qed
qed simp

text \<open>
  The manifest indexes the built-in actors one to one. For a list of at most \<open>2^32 - 2\<close> entries
  with distinct code CIDs that contains all required names, the \<open>j\<close>-th entry (from 0) has the actor
  type id \<open>j + 1\<close>: looking that id up gives its code, and looking its code up gives that id, which
  is never 0, the id of \<open>not a built-in actor\<close>.
\<close>

theorem manifest_bijection:
  assumes "manifest_new entries = Inr m" and "distinct (map snd entries)"
    and "length entries < 2 ^ 32 - 1" and "j < length entries"
  shows "code_by_id (of_nat (Suc j)) m = Some (snd (entries ! j)) \<and>
    id_by_code (snd (entries ! j)) m = of_nat (Suc j) \<and> id_by_code (snd (entries ! j)) m \<noteq> 0"
proof -
  obtain n ids codes where run: "manifest_index entries 1 (Map.empty, Map.empty, Map.empty) = (n, ids, codes)"
    by (metis prod_cases3)
  with assms(1) have m: "by_id m = ids" "by_code m = codes"
    by (auto simp: manifest_new_def split: option.splits)
  have le: "unat (1 :: u32) + length entries \<le> 2 ^ 32" using assms(3) by simp
  from manifest_index_nth [OF run assms(2) le assms(4)]
  have nth: "ids (1 + of_nat j) = Some (snd (entries ! j))" "codes (snd (entries ! j)) = Some (1 + of_nat j)"
    by simp_all
  have "Suc j < 2 ^ LENGTH(32)" using assms(3,4) by simp
  from unat_of_nat_less [OF this] have "(of_nat (Suc j) :: u32) \<noteq> 0"
    by (metis Suc_not_Zero unat_0)
  with nth show ?thesis by (simp add: code_by_id_def id_by_code_def m add.commute)
qed

definition example_manifest :: "(string \<times> Cid) list" where
  "example_manifest = [(''system'', example_cid 10), (''init'', example_cid 11), (''eam'', example_cid 12),
    (''ethaccount'', example_cid 13), (''account'', example_cid 14), (''placeholder'', example_cid 15)]"

theorem manifest_bijection_witness:
  "\<exists>m. manifest_new example_manifest = Inr m \<and> id_by_code (example_cid 14) m = 5"
proof -
  obtain m where m: "manifest_new example_manifest = Inr m"
    by (simp add: manifest_new_def example_manifest_def)
  have "distinct (map snd example_manifest)" by (simp add: example_manifest_def example_cid_def)
  from manifest_bijection [OF m this, of 4] have "id_by_code (example_cid 14) m = of_nat (Suc 4)"
    by (simp add: example_manifest_def)
  with m show ?thesis by simp
qed

end
