(* ===== verification/AccessTracker.thy ===== *)
theory AccessTracker
  imports StateTree
begin

text \<open>
  The state access tracker of \<open>fvm/src/call_manager/state_access_tracker.rs\<close>: which actors and
  addresses have been charged for in the current message. It is a second client of the history
  map: accesses made inside a reverted transaction are forgotten and charged again.
\<close>

record StateAccessLayer =
  addresses_height :: nat
  actors_height :: nat

datatype ActorAccessState = Read | Updated

record StateAccessTracker =
  at_actors :: "(ActorID, ActorAccessState) HistoryMap"
  at_addresses :: "(Address, unit) HistoryMap"
  at_layers :: "StateAccessLayer list"

definition at_new :: "ActorID list \<Rightarrow> StateAccessTracker" where
  "at_new preload_actors = \<lparr>
    at_actors = hm_from_iter (zip preload_actors (replicate (length preload_actors) Updated)),
    at_addresses = hm_default, at_layers = []\<rparr>"

definition at_begin_transaction :: "StateAccessTracker \<Rightarrow> StateAccessTracker" where
  "at_begin_transaction s = s\<lparr>at_layers := at_layers s @
    [\<lparr>addresses_height = history_len (at_addresses s), actors_height = history_len (at_actors s)\<rparr>]\<rparr>"

definition at_end_transaction :: "bool \<Rightarrow> (StateAccessTracker, ExecutionError, unit) rsm" where
  "at_end_transaction revert s =
    (if at_layers s = [] then (Inl Fatal, s)
     else
       let layer = last (at_layers s);
           s = s\<lparr>at_layers := butlast (at_layers s)\<rparr>
       in (Inr (), if revert
             then s\<lparr>at_actors := rollback (actors_height layer) (at_actors s),
                    at_addresses := rollback (addresses_height layer) (at_addresses s)\<rparr>
             else s))"

definition get_actor_access_state :: "ActorID \<Rightarrow> StateAccessTracker \<Rightarrow> ActorAccessState option" where
  "get_actor_access_state i s = hm_get i (at_actors s)"

definition record_actor_read :: "ActorID \<Rightarrow> StateAccessTracker \<Rightarrow> StateAccessTracker" where
  "record_actor_read i s =
    (if hm_get i (at_actors s) = None then s\<lparr>at_actors := hm_insert i Read (at_actors s)\<rparr> else s)"

definition record_actor_update :: "ActorID \<Rightarrow> StateAccessTracker \<Rightarrow> StateAccessTracker" where
  "record_actor_update i s = s\<lparr>at_actors := hm_insert i Updated (at_actors s)\<rparr>"

definition get_address_lookup_state :: "Address \<Rightarrow> StateAccessTracker \<Rightarrow> bool" where
  "get_address_lookup_state addr s \<longleftrightarrow>
    protocol addr = Protocol.ID \<or> hm_get addr (at_addresses s) \<noteq> None"

definition record_lookup_address :: "Address \<Rightarrow> StateAccessTracker \<Rightarrow> StateAccessTracker" where
  "record_lookup_address addr s =
    (if protocol addr = Protocol.ID then s else s\<lparr>at_addresses := hm_insert addr () (at_addresses s)\<rparr>)"

subsection \<open>What is recorded\<close>

lemma access_after_read:
  "get_actor_access_state j (record_actor_read i s) =
    (if j = i \<and> get_actor_access_state i s = None then Some Read else get_actor_access_state j s)"
  by (auto simp: get_actor_access_state_def record_actor_read_def)

lemma access_after_update:
  "get_actor_access_state j (record_actor_update i s) =
    (if j = i then Some Updated else get_actor_access_state j s)"
  by (simp add: get_actor_access_state_def record_actor_update_def)

lemma lookup_after_record:
  "get_address_lookup_state b (record_lookup_address a s) \<longleftrightarrow> b = a \<or> get_address_lookup_state b s"
  by (auto simp: get_address_lookup_state_def record_lookup_address_def)

lemma preloaded_updated: "i \<in> set ids \<Longrightarrow> get_actor_access_state i (at_new ids) = Some Updated"
  by (simp add: get_actor_access_state_def hm_get_def at_new_def hm_from_iter_def zip_replicate2
      rev_map map_of_map_restrict restrict_map_def)

subsection \<open>Transactions\<close>

definition at_within :: "StateAccessTracker \<Rightarrow> StateAccessTracker \<Rightarrow> bool" where
  "at_within s s' \<longleftrightarrow> at_layers s' = at_layers s \<and>
    undoable (at_actors s) (at_actors s') \<and> undoable (at_addresses s) (at_addresses s')"

inductive at_op :: "StateAccessTracker \<Rightarrow> StateAccessTracker \<Rightarrow> bool" where
  op_read: "at_op s (record_actor_read i s)"
| op_update: "at_op s (record_actor_update i s)"
| op_lookup: "at_op s (record_lookup_address a s)"

interpretation at: step_preorder at_within
  by unfold_locales (auto simp: at_within_def hm.R_refl intro: hm.R_trans)

lemma at_op_within: "at_op s s' \<Longrightarrow> at_within s s'"
  by (induction rule: at_op.induct)
    (auto simp: at_within_def record_actor_read_def record_actor_update_def record_lookup_address_def
      undoable_insert hm.R_refl)

lemma at_end_within:
  assumes "at_within (at_begin_transaction s) t"
  shows "fst (at_end_transaction revert t) = Inr ()"
    and "at_within s (snd (at_end_transaction revert t))"
    and "snd (at_end_transaction True t) = s"
    and "snd (at_end_transaction False t) = t\<lparr>at_layers := at_layers s\<rparr>"
proof -
  have t: "at_layers t = at_layers s @ [\<lparr>addresses_height = history_len (at_addresses s),
      actors_height = history_len (at_actors s)\<rparr>]"
    and u: "undoable (at_actors s) (at_actors t)" "undoable (at_addresses s) (at_addresses t)"
    using assms by (auto simp: at_within_def at_begin_transaction_def)
  note undone = u [THEN rollback_undoable]
  show "fst (at_end_transaction revert t) = Inr ()"
    by (simp add: at_end_transaction_def t Let_def)
  show "at_within s (snd (at_end_transaction revert t))"
    using u by (simp add: at_end_transaction_def t undone Let_def at_within_def hm.R_refl)
  show "snd (at_end_transaction True t) = s" "snd (at_end_transaction False t) = t\<lparr>at_layers := at_layers s\<rparr>"
    by (simp_all add: at_end_transaction_def t undone Let_def)
qed

interpretation att: transactional at_begin_transaction at_end_transaction at_op at_within
  "\<lambda>s. (at_actors s, at_addresses s)"
  by unfold_locales (auto intro: at.R_trans at_end_within simp: at.R_refl at_op_within at_end_within)

text \<open>
  A reverted transaction leaves no access records. After \<open>begin_transaction\<close>, any recorded
  accesses and inner transactions, \<open>end_transaction(true)\<close> gives the tracker back exactly, so every
  access of the reverted part is charged again; \<open>end_transaction(false)\<close> keeps all records.
\<close>

theorem access_tracker_revert:
  assumes "nested_run at_begin_transaction at_end_transaction at_op (at_begin_transaction s) t"
  shows "at_end_transaction True t = (Inr (), s) \<and>
    (\<exists>s'. at_end_transaction False t = (Inr (), s') \<and>
      get_actor_access_state i s' = get_actor_access_state i t \<and>
      get_address_lookup_state a s' = get_address_lookup_state a t)"
proof -
  note w = at_end_within [OF att.nested_run_within [OF assms]]
  have "at_end_transaction True t = (Inr (), s)"
    using w(1) [of True] w(3) by (cases "at_end_transaction True t") simp
  moreover have "at_end_transaction False t = (Inr (), t\<lparr>at_layers := at_layers s\<rparr>)"
    using w(1) [of False] w(4) by (cases "at_end_transaction False t") simp
  ultimately show ?thesis
    by (simp add: get_actor_access_state_def get_address_lookup_state_def)
qed

theorem access_tracker_revert_witness:
  "at_end_transaction True (record_actor_read 200 (at_begin_transaction (at_new [0, 1]))) = (Inr (), at_new [0, 1])"
proof -
  have "nested_run at_begin_transaction at_end_transaction at_op (at_begin_transaction (at_new [0, 1]))
      (record_actor_read 200 (at_begin_transaction (at_new [0, 1])))"
    using run_nil op_read by (rule run_op)
  from access_tracker_revert [OF this] show ?thesis by blast
qed

end
