(* ===== verification/Blocks.thy ===== *)
theory Blocks
  imports StateTree
begin

text \<open>
  The block registry of a kernel: \<open>fvm/src/kernel/blocks.rs\<close>. Blocks are addressed by handles
  counted from 1; the registry also holds the set of CIDs the actor may link to or open. Handles
  are 32 bits wide and a table holds at most \<open>i32::MAX\<close> blocks.
\<close>

definition FIRST_ID :: BlockId where
  "FIRST_ID = 1"

definition MAX_BLOCKS :: u32 where
  "MAX_BLOCKS = 2147483647"

record Block =
  block_codec :: u64
  block_data :: bytes
  block_links :: "Cid list"

record BlockStat =
  stat_codec :: u64
  stat_size :: u32

definition block_new :: "u64 \<Rightarrow> bytes \<Rightarrow> Cid list \<Rightarrow> Block" where
  "block_new c d ls = \<lparr>block_codec = c, block_data = d, block_links = ls\<rparr>"

definition block_size :: "Block \<Rightarrow> u32" where
  "block_size b = of_nat (length (block_data b))"

definition block_stat_of :: "Block \<Rightarrow> BlockStat" where
  "block_stat_of b = \<lparr>stat_codec = block_codec b, stat_size = block_size b\<rparr>"

record BlockRegistry =
  br_blocks :: "Block list"
  br_reachable :: "Cid set"

definition registry_new :: BlockRegistry where
  "registry_new = \<lparr>br_blocks = [], br_reachable = {}\<rparr>"

definition is_full :: "BlockRegistry \<Rightarrow> bool" where
  "is_full r \<longleftrightarrow> of_nat (length (br_blocks r)) = MAX_BLOCKS"

definition mark_reachable :: "Cid \<Rightarrow> BlockRegistry \<Rightarrow> BlockRegistry" where
  "mark_reachable k r = r\<lparr>br_reachable := insert k (br_reachable r)\<rparr>"

definition is_reachable :: "Cid \<Rightarrow> BlockRegistry \<Rightarrow> bool" where
  "is_reachable k r \<longleftrightarrow> k \<in> br_reachable r"

definition put_inner :: "Block \<Rightarrow> bool \<Rightarrow> (BlockRegistry, ExecutionError, BlockId) rsm" where
  "put_inner block check_reachable r =
    (if is_full r then (Inl (Syscall LimitExceeded), r)
     else if check_reachable \<and> List.find (\<lambda>k. \<not> is_reachable k r) (block_links block) \<noteq> None
     then (Inl (Syscall NotFound), r)
     else
       let r = (if check_reachable then r else fold mark_reachable (block_links block) r);
           i = FIRST_ID + of_nat (length (br_blocks r))
       in (Inr i, r\<lparr>br_blocks := br_blocks r @ [block]\<rparr>))"

definition put_reachable :: "Block \<Rightarrow> (BlockRegistry, ExecutionError, BlockId) rsm" where
  "put_reachable block = put_inner block False"

definition put_check_reachable :: "Block \<Rightarrow> (BlockRegistry, ExecutionError, BlockId) rsm" where
  "put_check_reachable block = put_inner block True"

definition registry_get :: "BlockId \<Rightarrow> BlockRegistry \<Rightarrow> Block kresult" where
  "registry_get i r =
    (if i < FIRST_ID then Inl (Syscall InvalidHandle)
     else let idx = unat i - unat FIRST_ID
          in if idx < length (br_blocks r) then Inr (br_blocks r ! idx) else Inl (Syscall InvalidHandle))"

definition registry_stat :: "BlockId \<Rightarrow> BlockRegistry \<Rightarrow> BlockStat kresult" where
  "registry_stat i r =
    (if i < FIRST_ID then Inl (Syscall InvalidHandle)
     else let idx = unat i - unat FIRST_ID
          in if idx < length (br_blocks r) then Inr (block_stat_of (br_blocks r ! idx))
             else Inl (Syscall InvalidHandle))"

subsection \<open>Invariant\<close>

text \<open>The table stays within its limit, and every link of a registered block is reachable.\<close>

definition registry_inv :: "BlockRegistry \<Rightarrow> bool" where
  "registry_inv r \<longleftrightarrow> length (br_blocks r) \<le> unat MAX_BLOCKS \<and>
    (\<forall>b \<in> set (br_blocks r). set (block_links b) \<subseteq> br_reachable r)"

lemma registry_new_inv: "registry_inv registry_new"
  by (simp add: registry_inv_def registry_new_def)

lemma fold_mark_reachable:
  "fold mark_reachable ks r = r\<lparr>br_reachable := set ks \<union> br_reachable r\<rparr>"
  by (induction ks arbitrary: r) (simp_all add: mark_reachable_def)

lemma is_full_iff: "registry_inv r \<Longrightarrow> is_full r \<longleftrightarrow> length (br_blocks r) = unat MAX_BLOCKS"
  by (simp add: is_full_def registry_inv_def MAX_BLOCKS_def word_eq_unat unat_of_nat_less)

lemma find_unreachable: "List.find (\<lambda>k. \<not> is_reachable k r) ks = None \<longleftrightarrow> set ks \<subseteq> br_reachable r"
  by (auto simp: find_None_iff is_reachable_def)

lemma put_inner_cases:
  assumes "registry_inv r" and "put_inner b chk r = (res, r')"
  obtains (full) "length (br_blocks r) = unat MAX_BLOCKS" "res = Inl (Syscall LimitExceeded)" "r' = r"
    | (unreachable) "chk" "\<not> set (block_links b) \<subseteq> br_reachable r" "res = Inl (Syscall NotFound)" "r' = r"
    | (ok) i where "res = Inr i" "unat i = Suc (length (br_blocks r))"
        "br_blocks r' = br_blocks r @ [b]" "length (br_blocks r) < unat MAX_BLOCKS"
        "br_reachable r' = (if chk then br_reachable r else set (block_links b) \<union> br_reachable r)"
        "set (block_links b) \<subseteq> br_reachable r'"
proof (cases "length (br_blocks r) = unat MAX_BLOCKS")
  case True
  with assms show ?thesis by (intro full) (simp_all add: put_inner_def is_full_iff)
next
  case False
  then have lt: "length (br_blocks r) < unat MAX_BLOCKS" using assms(1) by (simp add: registry_inv_def)
  moreover have "unat MAX_BLOCKS = 2147483647" and "(2 :: nat) ^ LENGTH(32) = 4294967296"
    by (simp_all add: MAX_BLOCKS_def)
  ultimately have "Suc (length (br_blocks r)) < 2 ^ LENGTH(32)" by linarith
  from unat_of_nat_less [OF this]
  have i: "unat (FIRST_ID + of_nat (length (br_blocks r)) :: u32) = Suc (length (br_blocks r))"
    by (simp add: FIRST_ID_def)
  show ?thesis
  proof (cases "chk \<and> \<not> set (block_links b) \<subseteq> br_reachable r")
    case True
    with assms False show ?thesis
      by (intro unreachable) (simp_all add: put_inner_def is_full_iff find_unreachable)
  next
    case F: False
    with assms False i lt show ?thesis
      by (intro ok [of "FIRST_ID + of_nat (length (br_blocks r))"])
        (auto simp: put_inner_def is_full_iff find_unreachable fold_mark_reachable split: if_splits)
  qed
qed

text \<open>
  Handles of the block registry are fresh and stable. While the invariant holds, adding a
  block either fails without a change (a full table, or, when links are checked, a link that is
  not reachable), or returns a handle that was invalid before, at which the block, and at every
  older handle the same block as before, is found; the invariant (at most \<open>i32::MAX\<close> blocks, all
  links reachable) holds again, and a checked insertion never extends the reachable set.
\<close>

theorem registry_put_get:
  assumes "registry_inv r" and "put_inner b chk r = (res, r')"
  shows "registry_inv r' \<and> (case res of
      Inl e \<Rightarrow> r' = r \<and> (e = Syscall LimitExceeded \<or> (chk \<and> e = Syscall NotFound))
    | Inr i \<Rightarrow> i \<noteq> 0 \<and> registry_get i r = Inl (Syscall InvalidHandle) \<and> registry_get i r' = Inr b \<and>
        (\<forall>j c. registry_get j r = Inr c \<longrightarrow> registry_get j r' = Inr c) \<and>
        set (block_links b) \<subseteq> br_reachable r' \<and> (chk \<longrightarrow> br_reachable r' = br_reachable r))"
  using assms
proof (cases rule: put_inner_cases)
  case (ok i)
  have "\<not> i < FIRST_ID" "i \<noteq> 0" and one: "unat FIRST_ID = 1"
    using ok(2) by (auto simp: FIRST_ID_def word_less_nat_alt word_eq_unat)
  then have "registry_get i r = Inl (Syscall InvalidHandle)" "registry_get i r' = Inr b"
    using ok by (simp_all add: registry_get_def)
  moreover have "registry_get j r' = Inr c" if "registry_get j r = Inr c" for j c
    using that ok(3) one by (auto simp: registry_get_def Let_def nth_append split: if_splits)
  moreover have "registry_inv r'"
    using assms(1) ok by (auto simp: registry_inv_def split: if_splits)
  ultimately show ?thesis using ok \<open>i \<noteq> 0\<close> by simp
qed (use assms(1) in simp_all)

theorem registry_put_get_witness:
  "registry_get 1 (snd (put_inner (block_new 0x55 [1, 2] []) True registry_new)) =
     Inr (block_new 0x55 [1, 2] [])"
proof -
  let ?b = "block_new 0x55 [1, 2] []"
  have run: "put_inner ?b True registry_new = (Inr 1, \<lparr>br_blocks = [?b], br_reachable = {}\<rparr>)"
    by (simp add: put_inner_def registry_new_def is_full_def MAX_BLOCKS_def block_new_def FIRST_ID_def)
  from registry_put_get [OF registry_new_inv run] run show ?thesis by simp
qed

end
