(* ===== verification/Limiter.thy ===== *)
theory Limiter
  imports Errors
begin

text \<open>
  The memory limiter of \<open>fvm/src/machine/limiter.rs\<close>: an upper bound on the memory of all Wasm
  instances of a call stack. \<open>usize\<close> is 64 bits wide. \<open>with_stack_frame\<close> runs a computation on a
  state that contains the limiter and afterwards sets the usage back to what it was.
\<close>

record DefaultMemoryLimiter =
  max_memory_bytes :: u64
  curr_memory_bytes :: u64

definition limiter_new :: "u64 \<Rightarrow> DefaultMemoryLimiter" where
  "limiter_new m = \<lparr>max_memory_bytes = m, curr_memory_bytes = 0\<rparr>"

definition grow_memory :: "u64 \<Rightarrow> DefaultMemoryLimiter \<Rightarrow> bool \<times> DefaultMemoryLimiter" where
  "grow_memory b l =
    (let total_desired = sat_add (curr_memory_bytes l) b
     in if total_desired > max_memory_bytes l then (False, l)
        else (True, l\<lparr>curr_memory_bytes := total_desired\<rparr>))"

definition grow_instance_memory :: "u64 \<Rightarrow> u64 \<Rightarrow> DefaultMemoryLimiter \<Rightarrow> bool \<times> DefaultMemoryLimiter" where
  "grow_instance_memory from_size to_size = grow_memory (sat_sub to_size from_size)"

definition grow_instance_table :: "u32 \<Rightarrow> u32 \<Rightarrow> DefaultMemoryLimiter \<Rightarrow> bool \<times> DefaultMemoryLimiter" where
  "grow_instance_table from_size to_size = grow_memory (ucast (sat_mul (sat_sub to_size from_size) 8))"

definition limiter_with_stack_frame ::
  "('t \<Rightarrow> DefaultMemoryLimiter) \<Rightarrow> ((DefaultMemoryLimiter \<Rightarrow> DefaultMemoryLimiter) \<Rightarrow> 't \<Rightarrow> 't) \<Rightarrow>
   ('t, 'e, 'a) rsm \<Rightarrow> ('t, 'e, 'a) rsm" where
  "limiter_with_stack_frame g upd f t =
    (let memory_bytes = curr_memory_bytes (g t)
     in case f t of (ret, t') \<Rightarrow> (ret, upd (\<lambda>l. l\<lparr>curr_memory_bytes := memory_bytes\<rparr>) t'))"

definition limiter_inv :: "DefaultMemoryLimiter \<Rightarrow> bool" where
  "limiter_inv l \<longleftrightarrow> curr_memory_bytes l \<le> max_memory_bytes l"

lemma limiter_new_inv: "limiter_inv (limiter_new m)"
  by (simp add: limiter_inv_def limiter_new_def)

text \<open>Growing is exact: it succeeds precisely when the sum fits, and saturation never hides an overflow.\<close>

lemma grow_memory_cases:
  assumes "limiter_inv l"
  shows "fst (grow_memory b l) \<longleftrightarrow> (unat (curr_memory_bytes l) + unat b \<le> unat (max_memory_bytes l)
        \<or> max_memory_bytes l = - 1)"
    and "limiter_inv (snd (grow_memory b l))"
    and "max_memory_bytes (snd (grow_memory b l)) = max_memory_bytes l"
    and "\<not> fst (grow_memory b l) \<Longrightarrow> snd (grow_memory b l) = l"
proof -
  have le: "unat (max_memory_bytes l) \<le> 18446744073709551615"
    using unat_less_exp [of "max_memory_bytes l"] by simp
  have full: "max_memory_bytes l = - 1 \<longleftrightarrow> unat (max_memory_bytes l) = 18446744073709551615"
    by (simp add: word_eq_unat unat_max_word)
  show "fst (grow_memory b l) \<longleftrightarrow> (unat (curr_memory_bytes l) + unat b \<le> unat (max_memory_bytes l)
        \<or> max_memory_bytes l = - 1)"
    using le unfolding full by (auto simp: grow_memory_def Let_def word_less_nat_alt unat_sat_add)
  show "limiter_inv (snd (grow_memory b l))" "max_memory_bytes (snd (grow_memory b l)) = max_memory_bytes l"
    "\<not> fst (grow_memory b l) \<Longrightarrow> snd (grow_memory b l) = l"
    using assms by (auto simp: grow_memory_def Let_def limiter_inv_def not_less split: if_splits)
qed

end
