(* ===== verification/Events.thy ===== *)
theory Events
  imports StateTree
begin

text \<open>
  Actor events (\<open>shared/src/event/mod.rs\<close>) and the events accumulator of
  \<open>fvm/src/call_manager/default.rs\<close>, the third component with nested transactions: events emitted
  by a reverted call vanish. The AMT root of the final event list is computed by the AMT of
  \<open>ipld/amt\<close>; here it is the argument \<open>events_amt\<close>.
\<close>

record Entry =
  entry_flags :: u64
  entry_key :: bytes
  entry_codec :: u64
  entry_value :: bytes

type_synonym ActorEvent = "Entry list"

record StampedEvent =
  emitter :: ActorID
  event :: ActorEvent

record EventsAccumulator =
  ev_events :: "StampedEvent list"
  ev_idxs :: "nat list"

record Events =
  events_root :: "Cid option"
  events_list :: "StampedEvent list"

definition events_default :: EventsAccumulator where
  "events_default = \<lparr>ev_events = [], ev_idxs = []\<rparr>"

definition ev_append :: "StampedEvent \<Rightarrow> EventsAccumulator \<Rightarrow> EventsAccumulator" where
  "ev_append evt s = s\<lparr>ev_events := ev_events s @ [evt]\<rparr>"

definition ev_begin_transaction :: "EventsAccumulator \<Rightarrow> EventsAccumulator" where
  "ev_begin_transaction s = s\<lparr>ev_idxs := ev_idxs s @ [length (ev_events s)]\<rparr>"

definition ev_end_transaction :: "bool \<Rightarrow> (EventsAccumulator, ExecutionError, unit) rsm" where
  "ev_end_transaction revert s =
    (if ev_idxs s = [] then (Inl Fatal, s)
     else
       let idx = last (ev_idxs s);
           s = s\<lparr>ev_idxs := butlast (ev_idxs s)\<rparr>
       in (Inr (), if revert then s\<lparr>ev_events := take idx (ev_events s)\<rparr> else s))"

definition ev_finish :: "(StampedEvent list \<Rightarrow> unit + Cid) \<Rightarrow> EventsAccumulator \<Rightarrow> Events kresult" where
  "ev_finish events_amt s =
    (if ev_idxs s \<noteq> [] then Inl Fatal
     else if ev_events s \<noteq> []
     then (case or_fatal (events_amt (ev_events s)) of
         Inl e \<Rightarrow> Inl e
       | Inr root \<Rightarrow> Inr \<lparr>events_root = Some root, events_list = ev_events s\<rparr>)
     else Inr \<lparr>events_root = None, events_list = ev_events s\<rparr>)"

subsection \<open>Transactions\<close>

definition ev_within :: "EventsAccumulator \<Rightarrow> EventsAccumulator \<Rightarrow> bool" where
  "ev_within s s' \<longleftrightarrow> ev_idxs s' = ev_idxs s \<and> (\<exists>more. ev_events s' = ev_events s @ more)"

inductive ev_op :: "EventsAccumulator \<Rightarrow> EventsAccumulator \<Rightarrow> bool" where
  op_append: "ev_op s (ev_append evt s)"

interpretation ev: step_preorder ev_within
  by unfold_locales (auto simp: ev_within_def)

lemma within_append: "ev_within s (ev_append evt s)"
  by (simp add: ev_within_def ev_append_def)

lemma ev_end_within:
  assumes "ev_within (ev_begin_transaction s) t"
  shows "fst (ev_end_transaction revert t) = Inr ()"
    and "snd (ev_end_transaction True t) = s"
    and "snd (ev_end_transaction False t) = t\<lparr>ev_idxs := ev_idxs s\<rparr>"
    and "ev_within s (snd (ev_end_transaction revert t))"
proof -
  obtain more where t: "ev_idxs t = ev_idxs s @ [length (ev_events s)]" "ev_events t = ev_events s @ more"
    using assms by (auto simp: ev_within_def ev_begin_transaction_def)
  show "fst (ev_end_transaction revert t) = Inr ()" "snd (ev_end_transaction True t) = s"
    "snd (ev_end_transaction False t) = t\<lparr>ev_idxs := ev_idxs s\<rparr>"
    "ev_within s (snd (ev_end_transaction revert t))"
    by (simp_all add: ev_end_transaction_def t Let_def ev_within_def)
qed

interpretation evt: transactional ev_begin_transaction ev_end_transaction ev_op ev_within ev_events
  by unfold_locales
    (auto intro: ev.R_trans ev_end_within within_append simp: ev.R_refl ev_end_within elim!: ev_op.cases)

text \<open>
  Events of a reverted call are dropped and no others. After \<open>begin_transaction\<close>, any emitted
  events and inner transactions, \<open>end_transaction(true)\<close> gives the accumulator back exactly, and
  \<open>end_transaction(false)\<close> keeps the events before the transaction as a prefix of the result.
\<close>

theorem events_revert:
  assumes "nested_run ev_begin_transaction ev_end_transaction ev_op (ev_begin_transaction s) t"
  shows "ev_end_transaction True t = (Inr (), s) \<and>
    (\<exists>more. ev_end_transaction False t = (Inr (), s\<lparr>ev_events := ev_events s @ more\<rparr>) \<and>
      ev_events t = ev_events s @ more)"
proof -
  note within = evt.nested_run_within [OF assms]
  note w = ev_end_within [OF within]
  obtain more where more: "ev_events t = ev_events s @ more"
    using within by (auto simp: ev_within_def ev_begin_transaction_def)
  have "ev_end_transaction True t = (Inr (), s)"
    using w(1) [of True] w(2) by (cases "ev_end_transaction True t") simp
  moreover have "ev_end_transaction False t = (Inr (), s\<lparr>ev_events := ev_events s @ more\<rparr>)"
    using w(1) [of False] w(3) more by (cases "ev_end_transaction False t") simp
  ultimately show ?thesis using more by blast
qed

theorem events_revert_witness:
  "ev_end_transaction True (ev_append \<lparr>emitter = 5, event = []\<rparr> (ev_begin_transaction events_default)) =
     (Inr (), events_default)"
proof -
  have "nested_run ev_begin_transaction ev_end_transaction ev_op (ev_begin_transaction events_default)
      (ev_append \<lparr>emitter = 5, event = []\<rparr> (ev_begin_transaction events_default))"
    using run_nil op_append by (rule run_op)
  from events_revert [OF this] show ?thesis by blast
qed

end
