(* ===== verification/CborScan.thy ===== *)
theory CborScan
  imports PriceList StateTree
begin

text \<open>
  Scanning DAG-CBOR blocks for links: \<open>fvm/src/ipld/mod.rs\<close> and \<open>fvm/src/ipld/cbor.rs\<close>. A block is
  walked header by header; every tag-42 byte string is parsed as a CID and visited: links that the
  virtual machine tracks are collected, inline (identity-hashed) CIDs are scanned recursively,
  Filecoin sector commitments are ignored and everything else is rejected. Every header and every
  CID is charged for.

  Parsing a CID (\<open>Cid::read_bytes\<close>) belongs to the \<open>cid\<close> crate and is the argument \<open>read_cid\<close>. The
  recursion into inline CIDs is bounded by a fuel argument; \<open>read_cid_ok\<close> (a digest is shorter than
  the bytes it was parsed from) makes the length of the block enough fuel.
\<close>

definition CBOR :: u64 where
  "CBOR = 0x51"

definition DAG_CBOR :: u64 where
  "DAG_CBOR = 0x71"

definition IPLD_RAW :: u64 where
  "IPLD_RAW = 0x55"

definition FIL_COMMITMENT_UNSEALED :: u64 where
  "FIL_COMMITMENT_UNSEALED = 0xf101"

definition FIL_COMMITMENT_SEALED :: u64 where
  "FIL_COMMITMENT_SEALED = 0xf102"

definition BLAKE2B_256 :: u64 where
  "BLAKE2B_256 = 0xb220"

definition IDENTITY_HASH :: u64 where
  "IDENTITY_HASH = 0"

definition ALLOWED_CODECS :: "u64 list" where
  "ALLOWED_CODECS = [CBOR, DAG_CBOR, IPLD_RAW]"

definition IGNORED_CODECS :: "u64 list" where
  "IGNORED_CODECS = [FIL_COMMITMENT_UNSEALED, FIL_COMMITMENT_SEALED]"

lemmas codec_defs = CBOR_def DAG_CBOR_def IPLD_RAW_def FIL_COMMITMENT_UNSEALED_def
  FIL_COMMITMENT_SEALED_def ALLOWED_CODECS_def IGNORED_CODECS_def

subsection \<open>The visitor\<close>

record LinkVisitor =
  lv_price_list :: PriceList
  lv_gas_available :: Gas
  lv_gas_remaining :: Gas
  lv_links :: "Cid list"

type_synonym 'a lv_op = "(LinkVisitor, ExecutionError, 'a) rsm"

definition lv_new :: "PriceList \<Rightarrow> Gas \<Rightarrow> LinkVisitor" where
  "lv_new p g = \<lparr>lv_price_list = p, lv_gas_available = g, lv_gas_remaining = g, lv_links = []\<rparr>"

definition lv_gas_used :: "LinkVisitor \<Rightarrow> Gas" where
  "lv_gas_used v = lv_gas_available v - lv_gas_remaining v"

definition lv_charge_gas :: "Gas \<Rightarrow> unit lv_op" where
  "lv_charge_gas g v =
    (if lv_gas_remaining v < g then (Inl OutOfGas, v\<lparr>lv_gas_remaining := 0\<rparr>)
     else (Inr (), v\<lparr>lv_gas_remaining := lv_gas_remaining v - g\<rparr>))"

subsection \<open>CBOR headers\<close>

text \<open>\<open>read_fixed\<close> splits off \<open>n\<close> bytes; \<open>be_value\<close> is \<open>from_be_bytes\<close>.\<close>

definition read_fixed :: "nat \<Rightarrow> bytes \<Rightarrow> (bytes \<times> bytes) kresult" where
  "read_fixed n r = (if length r < n then Inl (Syscall Serialization) else Inr (take n r, drop n r))"

definition be_value :: "bytes \<Rightarrow> u64" where
  "be_value bs = foldl (\<lambda>acc b. acc * 256 + ucast b) 0 bs"

definition cbor_read_header_buf :: "bytes \<Rightarrow> (u8 \<times> u64 \<times> bytes) kresult" where
  "cbor_read_header_buf br = (case read_fixed 1 br of
      Inl e \<Rightarrow> Inl e
    | Inr (first, br) \<Rightarrow>
        let maj = drop_bit 5 (first ! 0 AND 0xe0);
            low = first ! 0 AND 0x1f;
            wide = (\<lambda>n. case read_fixed n br of
                Inl e \<Rightarrow> Inl e
              | Inr (bs, br) \<Rightarrow> Inr (maj, be_value bs, br))
        in if low \<le> 23 then Inr (maj, ucast low, br)
           else if low = 24 then wide 1
           else if low = 25 then wide 2
           else if low = 26 then wide 4
           else if low = 27 then wide 8
           else Inl (Syscall Serialization))"

lemma read_header_shorter: "cbor_read_header_buf b = Inr (maj, v, rest) \<Longrightarrow> length rest < length b"
  by (auto simp: cbor_read_header_buf_def read_fixed_def Let_def split: if_splits)

subsection \<open>The walk\<close>

text \<open>
  One round of the loop of \<open>scan_for_reachable_links\<close> (in \<open>cbor.rs\<close>): it takes the number of fields
  still expected and the rest of the buffer and returns their new values. \<open>visit\<close> is
  \<open>visitor.visit_cid\<close>. The major type is at most 7.
\<close>

definition read_link ::
  "(bytes \<Rightarrow> (Cid \<times> bytes) option) \<Rightarrow> (Cid \<Rightarrow> unit lv_op) \<Rightarrow> bytes \<Rightarrow> bytes lv_op" where
  "read_link read_cid visit buf =
    rbind (rlift (cbor_read_header_buf buf)) (\<lambda>(maj, extra, buf).
    if maj \<noteq> 2 then rthrow (Syscall Serialization)
    else if unat extra > length buf then rthrow (Syscall Serialization)
    else if extra < 1 \<or> buf = [] \<or> hd buf \<noteq> 0 then rthrow (Syscall Serialization)
    else
      let cid_buf = take (unat extra - 1) (drop 1 buf);
          buf = drop (unat extra - 1) (drop 1 buf)
      in case read_cid cid_buf of
           None \<Rightarrow> rthrow (Syscall Serialization)
         | Some (cid, cid_buf) \<Rightarrow>
             if cid_buf \<noteq> [] then rthrow (Syscall Serialization)
             else rbind (visit cid) (\<lambda>_. rreturn buf))"

definition scan_step ::
  "(bytes \<Rightarrow> (Cid \<times> bytes) option) \<Rightarrow> (Cid \<Rightarrow> unit lv_op) \<Rightarrow> u64 \<Rightarrow> bytes \<Rightarrow> (u64 \<times> bytes) lv_op" where
  "scan_step read_cid visit remaining buf =
    (let remaining = remaining - 1 in
     rbind (rget lv_price_list) (\<lambda>p.
     rbind (lv_charge_gas (p_ipld_cbor_scan_per_field p)) (\<lambda>_.
     rbind (rlift (cbor_read_header_buf buf)) (\<lambda>(maj, extra, buf).
     if maj = 0 \<or> maj = 1 \<or> maj = 7 then rreturn (remaining, buf)
     else if maj = 2 \<or> maj = 3 then
       if unat extra > length buf then rthrow (Syscall Serialization)
       else rreturn (remaining, drop (unat extra) buf)
     else if maj = 6 then
       if extra \<noteq> 42 then rreturn (remaining + 1, buf)
       else
         rbind (lv_charge_gas (p_ipld_cbor_scan_per_cid p)) (\<lambda>_.
         rbind (read_link read_cid visit buf) (\<lambda>buf.
         rreturn (remaining, buf)))
     else if maj = 4 then
       rbind (rlift (or_error Serialization (ok_or () (checked_add remaining extra)))) (\<lambda>remaining.
       rreturn (remaining, buf))
     else
       rbind (rlift (or_error Serialization (ok_or ()
         (Option.bind (checked_mul extra 2) (\<lambda>x. checked_add x remaining))))) (\<lambda>remaining.
       rreturn (remaining, buf))))))"

lemma rlift_Inr: "rlift r s = (Inr a, s') \<longleftrightarrow> r = Inr a \<and> s' = s"
  by (auto simp: rlift_def)

lemma read_link_shorter: "read_link read_cid visit buf v = (Inr buf', v') \<Longrightarrow> length buf' < length buf"
  unfolding read_link_def
  by (auto simp: rlift_Inr rthrow_def rreturn_def Let_def dest!: read_header_shorter
      elim!: rbind_Inr split: if_splits option.splits) linarith

lemma scan_step_shorter:
  "scan_step read_cid visit remaining buf v = (Inr (remaining', buf'), v') \<Longrightarrow> length buf' < length buf"
  unfolding scan_step_def Let_def
  by (auto simp: rlift_Inr rthrow_def rreturn_def dest!: read_header_shorter read_link_shorter
      elim!: rbind_Inr split: if_splits)

text \<open>The loop. Every round consumes bytes, so it ends.\<close>

function scan_walk :: "(bytes \<Rightarrow> (Cid \<times> bytes) option) \<Rightarrow> (Cid \<Rightarrow> unit lv_op) \<Rightarrow> u64 \<Rightarrow> bytes \<Rightarrow> unit lv_op" where
  "scan_walk read_cid visit remaining buf v =
    (if remaining = 0
     then if buf \<noteq> [] then (Inl (Syscall Serialization), v) else (Inr (), v)
     else case scan_step read_cid visit remaining buf v of
       (Inl e, v) \<Rightarrow> (Inl e, v)
     | (Inr (remaining, buf), v) \<Rightarrow> scan_walk read_cid visit remaining buf v)"
  by pat_completeness auto

termination
  by (relation "measure (\<lambda>(_, _, _, buf, _). length buf)") (auto dest: scan_step_shorter [OF sym])

declare scan_walk.simps [simp del]

text \<open>
  \<open>visit_cid\<close> and \<open>scan_for_links_inner\<close>, which call each other on inline CIDs. The result for
  exhausted fuel is a fatal error, which the code never returns here.
\<close>

fun visit_cid :: "(bytes \<Rightarrow> (Cid \<times> bytes) option) \<Rightarrow> nat \<Rightarrow> Cid \<Rightarrow> unit lv_op"
  and scan_for_links_inner :: "(bytes \<Rightarrow> (Cid \<times> bytes) option) \<Rightarrow> nat \<Rightarrow> u64 \<Rightarrow> bytes \<Rightarrow> unit lv_op" where
  "visit_cid read_cid fuel cid =
    (let codec = cid_codec cid in
     if codec \<in> set IGNORED_CODECS then rreturn ()
     else if codec \<notin> set ALLOWED_CODECS then rthrow (Syscall NotFound)
     else if mh_code cid = IDENTITY_HASH then
       (case fuel of
         0 \<Rightarrow> rthrow Fatal
       | Suc n \<Rightarrow> scan_for_links_inner read_cid n codec (mh_digest cid))
     else if mh_code cid \<noteq> BLAKE2B_256 \<or> length (mh_digest cid) \<noteq> 32 then rthrow (Syscall NotFound)
     else rmodify (\<lambda>v. v\<lparr>lv_links := lv_links v @ [cid]\<rparr>))"
| "scan_for_links_inner read_cid fuel codec data =
    (if codec = DAG_CBOR then scan_walk read_cid (visit_cid read_cid fuel) 1 data
     else if codec = IPLD_RAW \<or> codec = CBOR then rreturn ()
     else rthrow (Syscall IllegalCodec))"

declare visit_cid.simps [simp del] scan_for_links_inner.simps [simp del]

definition scan_for_reachable_links ::
  "(bytes \<Rightarrow> (Cid \<times> bytes) option) \<Rightarrow> u64 \<Rightarrow> bytes \<Rightarrow> PriceList \<Rightarrow> (GasTracker, ExecutionError, Cid list) rsm" where
  "scan_for_reachable_links read_cid codec data p t =
    (let (ret, visitor) = scan_for_links_inner read_cid (length data) codec data (lv_new p (gas_available t))
     in rbind (charge_gas ''OnScanIpldLinks'' (lv_gas_used visitor)) (\<lambda>_.
          rlift (map_sum id (\<lambda>_. lv_links visitor) ret)) t)"

subsection \<open>What a scan collects and spends\<close>

text \<open>The CIDs that the virtual machine tracks: an allowed codec under a 32-byte blake2b hash.\<close>

definition trackable :: "Cid \<Rightarrow> bool" where
  "trackable c \<longleftrightarrow> cid_codec c \<in> set ALLOWED_CODECS \<and> mh_code c = BLAKE2B_256 \<and> length (mh_digest c) = 32"

definition lv_ok :: "LinkVisitor \<Rightarrow> LinkVisitor \<Rightarrow> bool" where
  "lv_ok v v' \<longleftrightarrow> lv_price_list v' = lv_price_list v \<and> lv_gas_available v' = lv_gas_available v \<and>
    mg (lv_gas_remaining v') \<le> mg (lv_gas_remaining v) \<and>
    (\<exists>more. lv_links v' = lv_links v @ more \<and> (\<forall>c \<in> set more. trackable c))"

interpretation lv: step_preorder lv_ok
  by unfold_locales (fastforce simp: lv_ok_def)+

lemma lv_charge_ok: "keeps lv_ok (lv_charge_gas g)"
  by (rule keepsI) (auto simp: lv_charge_gas_def lv_ok_def mg_simps split: if_splits)

lemma read_link_ok: "(\<And>c. keeps lv_ok (visit c)) \<Longrightarrow> keeps lv_ok (read_link read_cid visit buf)"
  unfolding read_link_def Let_def by (intro lv.keeps_rules keeps_case_prod)

lemma scan_step_ok: "(\<And>c. keeps lv_ok (visit c)) \<Longrightarrow> keeps lv_ok (scan_step read_cid visit remaining buf)"
  unfolding scan_step_def Let_def by (intro lv.keeps_rules keeps_case_prod lv_charge_ok read_link_ok)

lemma scan_walk_ok:
  assumes visit: "\<And>c. keeps lv_ok (visit c)"
  shows "scan_walk read_cid visit remaining buf v = (r, v') \<Longrightarrow> lv_ok v v'"
proof (induction "length buf" arbitrary: remaining buf v rule: less_induct)
  case less
  show ?case
  proof (cases "remaining = 0")
    case True
    with less(2) show ?thesis by (simp add: scan_walk.simps [of _ _ 0] lv.R_refl split: if_splits)
  next
    case False
    obtain r1 v1 where step: "scan_step read_cid visit remaining buf v = (r1, v1)"
      by (cases "scan_step read_cid visit remaining buf v")
    have v1: "lv_ok v v1" using scan_step_ok [OF visit] step by (rule keepsD)
    show ?thesis
    proof (cases r1)
      case (Inl e)
      with less(2) False step v1 show ?thesis by (simp add: scan_walk.simps [of _ _ remaining])
    next
      case (Inr p)
      obtain rem' buf' where p: "p = (rem', buf')" by (cases p)
      have "scan_walk read_cid visit rem' buf' v1 = (r, v')"
        using less(2) False step Inr p by (simp add: scan_walk.simps [of _ _ remaining])
      moreover have "length buf' < length buf" using scan_step_shorter step Inr p by blast
      ultimately show ?thesis using less(1) v1 lv.R_trans by blast
    qed
  qed
qed

lemma scan_inner_ok: "keeps lv_ok (visit_cid read_cid fuel c)"
  "keeps lv_ok (scan_for_links_inner read_cid fuel codec data)"
proof (induction read_cid fuel c and read_cid fuel codec data rule: visit_cid_scan_for_links_inner.induct)
  case (1 read_cid fuel cid)
  have "lv_ok v (v\<lparr>lv_links := lv_links v @ [cid]\<rparr>)" if "trackable cid" for v
    using that by (simp add: lv_ok_def)
  then have push: "keeps lv_ok (rmodify (\<lambda>v. v\<lparr>lv_links := lv_links v @ [cid]\<rparr>))" if "trackable cid"
    using that by (intro keeps_rmodify)
  show ?case
    unfolding visit_cid.simps Let_def
    using 1 push by (auto intro!: lv.keeps_rules simp: trackable_def split: nat.split)
next
  case (2 read_cid fuel codec data)
  have "keeps lv_ok (scan_walk read_cid (visit_cid read_cid fuel) 1 data)" if "codec = DAG_CBOR"
    using scan_walk_ok 2 [OF that] by (blast intro: keepsI)
  then show ?case
    unfolding scan_for_links_inner.simps by (auto intro!: lv.keeps_rules)
qed

subsection \<open>Enough fuel\<close>

definition read_cid_ok :: "(bytes \<Rightarrow> (Cid \<times> bytes) option) \<Rightarrow> bool" where
  "read_cid_ok read_cid \<longleftrightarrow> (\<forall>b c rest. read_cid b = Some (c, rest) \<longrightarrow> length (mh_digest c) < length b)"

text \<open>A walk only visits CIDs whose digests are shorter than the buffer.\<close>

lemma read_link_cong:
  assumes ok: "read_cid_ok read_cid" and eq: "\<And>c. length (mh_digest c) < length buf \<Longrightarrow> visit c = visit' c"
  shows "read_link read_cid visit buf = read_link read_cid visit' buf"
proof -
  have "visit c = visit' c"
    if "cbor_read_header_buf buf = Inr (maj, extra, b)" "read_cid (take n (drop 1 b)) = Some (c, rest)"
    for maj extra b n c rest
  proof -
    have "length (mh_digest c) < length (take n (drop 1 b))"
      using ok that(2) unfolding read_cid_ok_def by blast
    also have "\<dots> \<le> length b" by simp
    also have "\<dots> < length buf" using that(1) by (rule read_header_shorter)
    finally show ?thesis by (rule eq)
  qed
  then show ?thesis
    by (cases "cbor_read_header_buf buf")
      (auto simp: read_link_def rbind_def rlift_def Let_def fun_eq_iff split: option.splits)
qed

lemma scan_step_cong:
  assumes ok: "read_cid_ok read_cid" and eq: "\<And>c. length (mh_digest c) < length buf \<Longrightarrow> visit c = visit' c"
  shows "scan_step read_cid visit remaining buf = scan_step read_cid visit' remaining buf"
proof -
  have "read_link read_cid visit b = read_link read_cid visit' b"
    if "cbor_read_header_buf buf = Inr (maj, extra, b)" for maj extra b
    using read_header_shorter [OF that] by (intro read_link_cong [OF ok] eq) simp
  then show ?thesis
    by (cases "cbor_read_header_buf buf")
      (auto simp: scan_step_def rbind_def rlift_def rget_def Let_def fun_eq_iff split: sum.splits prod.splits)
qed

lemma scan_walk_cong:
  assumes ok: "read_cid_ok read_cid" and eq: "\<And>c. length (mh_digest c) < length buf \<Longrightarrow> visit c = visit' c"
  shows "scan_walk read_cid visit remaining buf v = scan_walk read_cid visit' remaining buf v"
  using eq
proof (induction "length buf" arbitrary: remaining buf v rule: less_induct)
  case less
  have step: "scan_step read_cid visit remaining buf = scan_step read_cid visit' remaining buf"
    using less(2) by (rule scan_step_cong [OF ok])
  have "scan_walk read_cid visit rem' buf' v1 = scan_walk read_cid visit' rem' buf' v1"
    if "scan_step read_cid visit' remaining buf v = (Inr (rem', buf'), v1)" for rem' buf' v1
    using scan_step_shorter [OF that] less(2) by (intro less(1)) auto
  then show ?case
    by (auto simp: scan_walk.simps [of _ _ remaining] step split: sum.split prod.split)
qed

lemma scan_fuel_enough:
  assumes ok: "read_cid_ok read_cid"
  shows "length data \<le> n \<Longrightarrow> length data \<le> m \<Longrightarrow>
    scan_for_links_inner read_cid n codec data = scan_for_links_inner read_cid m codec data"
proof (induction "length data" arbitrary: data codec n m rule: less_induct)
  case less
  have "visit_cid read_cid n c = visit_cid read_cid m c" if short: "length (mh_digest c) < length data" for c
  proof -
    obtain n' m' where nm: "n = Suc n'" "m = Suc m'"
      using less(2,3) short by (metis Suc_le_D Suc_leI order_trans)
    have "scan_for_links_inner read_cid n' k (mh_digest c) = scan_for_links_inner read_cid m' k (mh_digest c)" for k
      using short less(2,3) nm by (intro less(1)) simp_all
    then show ?thesis by (simp add: visit_cid.simps nm Let_def)
  qed
  then have "scan_walk read_cid (visit_cid read_cid n) 1 data v = scan_walk read_cid (visit_cid read_cid m) 1 data v" for v
    by (rule scan_walk_cong [OF ok])
  then show ?case by (simp add: scan_for_links_inner.simps fun_eq_iff)
qed

text \<open>With enough fuel the walk fails only for lack of gas or because of the data.\<close>

definition never_fatal :: "('s, ExecutionError, 'a) rsm \<Rightarrow> bool" where
  "never_fatal m \<longleftrightarrow> (\<forall>s e s'. m s = (Inl e, s') \<longrightarrow> e \<noteq> Fatal)"

lemma never_fatal_bind: "never_fatal m \<Longrightarrow> (\<And>a. never_fatal (f a)) \<Longrightarrow> never_fatal (rbind m f)"
  unfolding never_fatal_def by (blast elim: rbind_cases)

lemma never_fatal_basic:
  "never_fatal (rreturn a)" "e \<noteq> Fatal \<Longrightarrow> never_fatal (rthrow e)" "never_fatal (rmodify f)"
  "never_fatal (rget g)" "(\<And>e. r = Inl e \<Longrightarrow> e \<noteq> Fatal) \<Longrightarrow> never_fatal (rlift r)" "never_fatal (lv_charge_gas c)"
  by (auto simp: never_fatal_def rsm_defs lv_charge_gas_def split: if_splits)

lemma never_fatal_header: "never_fatal (rlift (cbor_read_header_buf b))"
  by (rule never_fatal_basic(5)) (auto simp: cbor_read_header_buf_def read_fixed_def Let_def split: if_splits)

lemma never_fatal_count: "never_fatal (rlift (or_error Serialization (ok_or () x)))"
  by (rule never_fatal_basic(5)) (cases x; auto)

lemmas never_fatal_rules = never_fatal_bind never_fatal_basic never_fatal_header never_fatal_count

lemma scan_walk_never_fatal:
  assumes "\<And>c. never_fatal (visit c)"
  shows "never_fatal (scan_walk read_cid visit remaining buf)"
proof -
  have step: "never_fatal (scan_step read_cid visit rem b)" for rem b
    unfolding scan_step_def read_link_def Let_def
    by (auto intro!: never_fatal_rules assms split: option.split)
  have "scan_walk read_cid visit rem b v = (Inl e, v') \<Longrightarrow> e \<noteq> Fatal" for rem b v e v'
  proof (induction "length b" arbitrary: rem b v rule: less_induct)
    case less
    obtain r v1 where run: "scan_step read_cid visit rem b v = (r, v1)"
      by (cases "scan_step read_cid visit rem b v")
    show ?case
    proof (cases "rem = 0")
      case True
      with less(2) show ?thesis by (auto simp: scan_walk.simps [of _ _ 0] split: if_splits)
    next
      case False
      show ?thesis
      proof (cases r)
        case (Inl e')
        then have "e' \<noteq> Fatal" using step [of rem b] run unfolding never_fatal_def by blast
        with less(2) run Inl False show ?thesis by (simp add: scan_walk.simps [of _ _ rem])
      next
        case (Inr p)
        with less run False scan_step_shorter [of read_cid visit rem b v] show ?thesis
          by (cases p) (auto simp: scan_walk.simps [of _ _ rem])
      qed
    qed
  qed
  then show ?thesis by (simp add: never_fatal_def)
qed

text \<open>The visitor that refuses what the fuel does not cover agrees with \<open>visit_cid\<close> on the rest.\<close>

lemma scan_never_fatal:
  assumes ok: "read_cid_ok read_cid"
  shows "length data \<le> n \<Longrightarrow> never_fatal (scan_for_links_inner read_cid n codec data)"
proof (induction "length data" arbitrary: data codec n rule: less_induct)
  case less
  define visit where "visit c = (if length (mh_digest c) < length data then visit_cid read_cid n c else rreturn ())" for c
  have "never_fatal (visit_cid read_cid n c)" if short: "length (mh_digest c) < length data" for c
  proof -
    obtain n' where n: "n = Suc n'" using less(2) short by (metis Suc_le_D Suc_leI order_trans)
    have "never_fatal (scan_for_links_inner read_cid n' k (mh_digest c))" for k
      using short less(2) n by (intro less(1)) simp_all
    then show ?thesis by (auto simp: visit_cid.simps n Let_def intro!: never_fatal_rules)
  qed
  then have "never_fatal (visit c)" for c by (simp add: visit_def never_fatal_basic)
  then have "never_fatal (scan_walk read_cid visit 1 data)" by (rule scan_walk_never_fatal)
  moreover have "scan_walk read_cid visit 1 data v = scan_walk read_cid (visit_cid read_cid n) 1 data v" for v
    by (rule scan_walk_cong [OF ok]) (simp add: visit_def)
  ultimately have "never_fatal (scan_walk read_cid (visit_cid read_cid n) 1 data)"
    by (simp add: never_fatal_def)
  then show ?case by (auto simp: scan_for_links_inner.simps intro!: never_fatal_rules)
qed

text \<open>
  C15: scanning a block for links. For a CID parser whose digests are shorter than its input, the
  scan of a block ends without a fatal error: it succeeds or reports a lack of gas or bad data.
  The links it returns all have an allowed codec and a 32-byte blake2b hash (so no inline CID, no
  commitment and no unsupported CID is ever tracked), the gas it charges never exceeds what is
  available, and recursing deeper than the length of the block cannot change its result.
\<close>

theorem scan_links_sound:
  assumes ok: "read_cid_ok read_cid" and "tracker_inv t"
    and run: "scan_for_reachable_links read_cid codec data p t = (r, t')"
  shows "(\<forall>links. r = Inr links \<longrightarrow> list_all trackable links) \<and> r \<noteq> Inl Fatal \<and>
    tracker_evolves t t' \<and> tracker_inv t' \<and>
    (\<forall>n \<ge> length data. scan_for_links_inner read_cid n codec data = scan_for_links_inner read_cid (length data) codec data)"
proof -
  let ?v0 = "lv_new p (gas_available t)"
  obtain ret v where scan: "scan_for_links_inner read_cid (length data) codec data ?v0 = (ret, v)"
    by (cases "scan_for_links_inner read_cid (length data) codec data ?v0")
  have v: "lv_ok ?v0 v" using scan_inner_ok(2) scan by (rule keepsD)
  have ret: "ret \<noteq> Inl Fatal"
    using scan_never_fatal [OF ok, of data "length data" codec] scan by (auto simp: never_fatal_def)
  obtain c t1 where charge: "charge_gas ''OnScanIpldLinks'' (lv_gas_used v) t = (c, t1)"
    by (cases "charge_gas ''OnScanIpldLinks'' (lv_gas_used v) t")
  have c: "c \<noteq> Inl Fatal"
    using charge by (auto simp: charge_gas_def charge_gas_inner_def Let_def split: if_splits)
  have t1: "tracker_evolves t t1"
    using charge_gas_evolves [of t "''OnScanIpldLinks''" "lv_gas_used v"] charge by simp
  have links: "list_all trackable (lv_links v)"
    using v by (auto simp: lv_ok_def lv_new_def list_all_iff)
  have "r = (case c of Inl e \<Rightarrow> Inl e | Inr _ \<Rightarrow> map_sum id (\<lambda>_. lv_links v) ret)" "t' = t1"
    using run scan charge by (auto simp: scan_for_reachable_links_def rbind_def rlift_def split: sum.splits)
  with c ret t1 links assms(2)
  have "(\<forall>links. r = Inr links \<longrightarrow> list_all trackable links) \<and> r \<noteq> Inl Fatal" "tracker_evolves t t'" "tracker_inv t'"
    by (auto simp: tracker_evolves_def map_sum_def split: sum.splits)
  moreover have "\<forall>n \<ge> length data.
      scan_for_links_inner read_cid n codec data = scan_for_links_inner read_cid (length data) codec data"
    using scan_fuel_enough [OF ok] by blast
  ultimately show ?thesis by blast
qed

text \<open>A concrete CID parser, and the scan of an array of one link.\<close>

definition example_read_cid :: "bytes \<Rightarrow> (Cid \<times> bytes) option" where
  "example_read_cid b = (if length b = 34
    then Some (\<lparr>cid_version = 1, cid_codec = ucast (b ! 0), mh_code = BLAKE2B_256, mh_digest = drop 2 b\<rparr>, [])
    else None)"

theorem scan_links_sound_witness:
  "\<exists>links t'. scan_for_reachable_links example_read_cid IPLD_RAW [1, 2] WATERMELON_PRICES
     (tracker_new (gas_new 1000) 0 False) = (Inr links, t') \<and> list_all trackable links"
proof -
  have ok: "read_cid_ok example_read_cid" by (auto simp: read_cid_ok_def example_read_cid_def)
  let ?t = "tracker_new (gas_new 1000) 0 False"
  obtain links t' where run: "scan_for_reachable_links example_read_cid IPLD_RAW [1, 2] WATERMELON_PRICES ?t = (Inr links, t')"
    by (simp add: scan_for_reachable_links_def scan_for_links_inner.simps codec_defs rsm_defs lv_new_def
        lv_gas_used_def charge_gas_def charge_gas_inner_def Let_def Gas_less_mg mg_simps tracker_new_def)
  from scan_links_sound [OF ok tracker_new_inv run] run show ?thesis by blast
qed

end
