(* ===== verification/SparseSlots.thy ===== *)
theory SparseSlots
  imports Prelude
begin

text \<open>
  The bit field that indexes the children of a HAMT or KAMT node (\<open>ipld/hamt/src/bitfield.rs\<close> and
  \<open>ipld/kamt/src/bitfield.rs\<close>): four words of 64 bits, one bit per slot. A node keeps a child only for
  a slot whose bit is set, at the position that counts the bits set below it. The theory shows that
  such a pair of a bit field and a list is a finite map from slots to children, under the operations
  by which nodes insert, replace and remove a child.
\<close>

datatype Bitfield = Bitfield (w0: u64) (w1: u64) (w2: u64) (w3: u64)

definition word_at :: "Bitfield \<Rightarrow> nat \<Rightarrow> u64" where
  "word_at b i = (if i = 0 then w0 b else if i = 1 then w1 b else if i = 2 then w2 b else w3 b)"

definition with_word :: "Bitfield \<Rightarrow> nat \<Rightarrow> u64 \<Rightarrow> Bitfield" where
  "with_word b i w =
    (if i = 0 then Bitfield w (w1 b) (w2 b) (w3 b)
     else if i = 1 then Bitfield (w0 b) w (w2 b) (w3 b)
     else if i = 2 then Bitfield (w0 b) (w1 b) w (w3 b)
     else Bitfield (w0 b) (w1 b) (w2 b) w)"

definition bm_clear_bit :: "Bitfield \<Rightarrow> nat \<Rightarrow> Bitfield" where
  "bm_clear_bit b idx =
    (let ai = idx div 64; bi = idx mod 64
     in with_word b ai (word_at b ai AND (- 1 - push_bit bi 1)))"

definition bm_test_bit :: "Bitfield \<Rightarrow> nat \<Rightarrow> bool" where
  "bm_test_bit b idx =
    (let ai = idx div 64; bi = idx mod 64
     in word_at b ai AND push_bit bi 1 \<noteq> 0)"

definition bm_set_bit :: "Bitfield \<Rightarrow> nat \<Rightarrow> Bitfield" where
  "bm_set_bit b idx =
    (let ai = idx div 64; bi = idx mod 64
     in with_word b ai (word_at b ai OR push_bit bi 1))"

definition count_ones :: "u64 \<Rightarrow> nat" where
  "count_ones w = length (filter (bit w) [0..<64])"

definition bm_count_ones :: "Bitfield \<Rightarrow> nat" where
  "bm_count_ones b = sum_list (map count_ones [w0 b, w1 b, w2 b, w3 b])"

definition bm_and :: "Bitfield \<Rightarrow> Bitfield \<Rightarrow> Bitfield" where
  "bm_and a b = Bitfield (w0 a AND w0 b) (w1 a AND w1 b) (w2 a AND w2 b) (w3 a AND w3 b)"

definition bm_zero :: Bitfield where
  "bm_zero = Bitfield 0 0 0 0"

definition set_bits_leq :: "u64 \<Rightarrow> nat \<Rightarrow> u64" where
  "set_bits_leq v i = ucast ((ucast v :: u128) OR (push_bit (1 + i) 1 - 1))"

definition bm_set_bits_leq :: "Bitfield \<Rightarrow> nat \<Rightarrow> Bitfield" where
  "bm_set_bits_leq b i =
    (if i < 64 then Bitfield (set_bits_leq (w0 b) i) (w1 b) (w2 b) (w3 b)
     else if i < 128 then Bitfield (- 1) (set_bits_leq (w1 b) (i - 64)) (w2 b) (w3 b)
     else if i < 192 then Bitfield (- 1) (- 1) (set_bits_leq (w2 b) (i - 128)) (w3 b)
     else Bitfield (- 1) (- 1) (- 1) (set_bits_leq (w3 b) (i - 192)))"

definition bm_set_bits_le :: "Bitfield \<Rightarrow> nat \<Rightarrow> Bitfield" where
  "bm_set_bits_le b i = (if i = 0 then b else bm_set_bits_leq b (i - 1))"

text \<open>\<open>Node::index_for_bit_pos\<close>.\<close>

definition index_for_bit_pos :: "Bitfield \<Rightarrow> nat \<Rightarrow> nat" where
  "index_for_bit_pos b bp = bm_count_ones (bm_and (bm_set_bits_le bm_zero bp) b)"

subsection \<open>The slots of a bit field\<close>

definition slots :: "Bitfield \<Rightarrow> nat set" where
  "slots b = {i. i < 256 \<and> bm_test_bit b i}"

lemma test_bit_bit: "bm_test_bit b i \<longleftrightarrow> bit (word_at b (i div 64)) (i mod 64)"
proof -
  have "word_at b (i div 64) AND push_bit (i mod 64) 1 = 0 \<longleftrightarrow> \<not> bit (word_at b (i div 64)) (i mod 64)"
    using and_exp_eq_0_iff_not_bit [of "word_at b (i div 64)" "i mod 64"] by (simp add: push_bit_eq_mult)
  then show ?thesis by (simp add: bm_test_bit_def Let_def)
qed

lemma word_at_with_word:
  "i < 4 \<Longrightarrow> j < 4 \<Longrightarrow> word_at (with_word b i w) j = (if i = j then w else word_at b j)"
  by (auto simp: word_at_def with_word_def)

lemma same_slot: "i div 64 = j div 64 \<Longrightarrow> i mod 64 = j mod 64 \<Longrightarrow> i = (j :: nat)"
  by (metis mult_div_mod_eq)

lemma bit_one_shift: "bit (2 ^ k :: u64) n \<longleftrightarrow> n = k \<and> k < 64"
  by (auto simp: bit_exp_iff)

lemma test_set_bit: "i < 256 \<Longrightarrow> j < 256 \<Longrightarrow> bm_test_bit (bm_set_bit b i) j \<longleftrightarrow> i = j \<or> bm_test_bit b j"
  by (auto simp: test_bit_bit bm_set_bit_def Let_def word_at_with_word bit_or_iff bit_one_shift less_mult_imp_div_less
      intro: same_slot)

lemma test_clear_bit: "i < 256 \<Longrightarrow> j < 256 \<Longrightarrow> bm_test_bit (bm_clear_bit b i) j \<longleftrightarrow> i \<noteq> j \<and> bm_test_bit b j"
proof -
  assume ij: "i < 256" "j < 256"
  have "- 1 - push_bit (i mod 64) 1 = (NOT (push_bit (i mod 64) 1) :: u64)" by (simp add: not_eq_complement)
  then show ?thesis using ij
    by (auto simp: test_bit_bit bm_clear_bit_def Let_def word_at_with_word bit_and_iff bit_not_iff bit_one_shift
        less_mult_imp_div_less intro: same_slot)
qed

lemma slots_zero [simp]: "slots bm_zero = {}"
  by (auto simp: slots_def test_bit_bit bm_zero_def word_at_def)

lemma slots_set: "i < 256 \<Longrightarrow> slots (bm_set_bit b i) = insert i (slots b)"
  by (auto simp: slots_def test_set_bit)

lemma slots_clear: "i < 256 \<Longrightarrow> slots (bm_clear_bit b i) = slots b - {i}"
  by (auto simp: slots_def test_clear_bit)

lemma finite_slots [simp]: "finite (slots b)"
  by (simp add: slots_def)

lemma slot_iff: "i < 256 \<Longrightarrow> i \<in> slots b \<longleftrightarrow> bm_test_bit b i"
  by (simp add: slots_def)

text \<open>The bits counted in each word.\<close>

lemma count_ones_card: "count_ones w = card {i. i < 64 \<and> bit w i}"
proof -
  have "count_ones w = card (set (filter (bit w) [0..<64]))"
    unfolding count_ones_def by (rule distinct_card [symmetric]) simp
  also have "set (filter (bit w) [0..<64]) = {i. i < 64 \<and> bit w i}" by auto
  finally show ?thesis .
qed

lemma count_ones_shift: "count_ones w = card {j. 64 * k \<le> j \<and> j < 64 * k + 64 \<and> bit w (j mod 64)}"
proof -
  have "{j. 64 * k \<le> j \<and> j < 64 * k + 64 \<and> bit w (j mod 64)} = (\<lambda>i. 64 * k + i) ` {i. i < 64 \<and> bit w i}"
  proof (intro set_eqI iffI)
    fix j
    assume j: "j \<in> {j. 64 * k \<le> j \<and> j < 64 * k + 64 \<and> bit w (j mod 64)}"
    then have "j mod 64 = j - 64 * k" by (intro mod_nat_eqI) auto
    with j show "j \<in> (\<lambda>i. 64 * k + i) ` {i. i < 64 \<and> bit w i}" by (intro image_eqI [of _ _ "j - 64 * k"]) auto
  qed auto
  then show ?thesis by (simp add: count_ones_card card_image inj_on_def)
qed

lemma count_ones_slots: "bm_count_ones b = card (slots b)"
proof -
  define S where "S k = {j. 64 * k \<le> j \<and> j < 64 * k + 64 \<and> bit (word_at b k) (j mod 64)}" for k
  have "slots b = S 0 \<union> (S 1 \<union> (S 2 \<union> S 3))"
  proof (intro set_eqI)
    fix j :: nat
    have "j div 64 = k" if "64 * k \<le> j" "j < 64 * k + 64" for k :: nat using that by (intro div_nat_eqI) auto
    then have "j \<in> S k \<longleftrightarrow> j div 64 = k \<and> bm_test_bit b j" for k
      using mult_div_mod_eq [of 64 j] by (auto simp: S_def test_bit_bit)
    moreover have "j < 256 \<longleftrightarrow> j div 64 \<in> {0, 1, 2, 3}" by auto
    ultimately show "j \<in> slots b \<longleftrightarrow> j \<in> S 0 \<union> (S 1 \<union> (S 2 \<union> S 3))" by (auto simp: slots_def)
  qed
  moreover have "finite (S k)" for k by (rule finite_subset [of _ "{..<64 * k + 64}"]) (auto simp: S_def)
  moreover have "S 0 \<inter> (S 1 \<union> (S 2 \<union> S 3)) = {}" "S 1 \<inter> (S 2 \<union> S 3) = {}" "S 2 \<inter> S 3 = {}" by (auto simp: S_def)
  ultimately have "card (slots b) = card (S 0) + (card (S 1) + (card (S 2) + card (S 3)))"
    by (simp add: card_Un_disjoint)
  moreover have "count_ones (word_at b k) = card (S k)" for k unfolding S_def by (rule count_ones_shift)
  from this [of 0] this [of 1] this [of 2] this [of 3] have "bm_count_ones b = card (S 0) + (card (S 1) + (card (S 2) + card (S 3)))"
    by (simp add: bm_count_ones_def word_at_def)
  ultimately show ?thesis by simp
qed

lemma slots_and: "slots (bm_and a b) = slots a \<inter> slots b"
  by (auto simp: slots_def test_bit_bit bm_and_def word_at_def bit_and_iff split: if_splits)

lemma bit_set_bits_leq: "n < 64 \<Longrightarrow> i < 64 \<Longrightarrow> bit (set_bits_leq v i) n \<longleftrightarrow> bit v n \<or> n \<le> i"
proof -
  assume n: "n < 64" "i < 64"
  have "push_bit (1 + i) 1 - 1 = (mask (1 + i) :: u128)" by (simp add: mask_eq_exp_minus_1 push_bit_eq_mult)
  then show ?thesis using n by (auto simp: set_bits_leq_def bit_unsigned_iff bit_or_iff bit_mask_iff)
qed

lemma slots_le: "i < 256 \<Longrightarrow> slots (bm_set_bits_le bm_zero i) = {..<i}"
proof (cases "i = 0")
  case False
  assume i: "i < 256"
  define k where "k = i - 1"
  have k: "i = Suc k" "k < 256" using False i by (simp_all add: k_def)
  have "bm_test_bit (bm_set_bits_leq bm_zero k) j \<longleftrightarrow> j \<le> k" if "j < 256" for j
  proof -
    define q m where "q = j div 64" and "m = j mod 64"
    then have "j = 64 * q + m" "j div 64 = q" "j mod 64 = m" "m < 64" "q < 4"
      using that by (auto intro: less_mult_imp_div_less)
    then have j: "j = 64 * q + m" "j div 64 = q" "j mod 64 = m" "m < 64" "q = 0 \<or> q = 1 \<or> q = 2 \<or> q = 3" by linarith+
    consider "k < 64" | "64 \<le> k" "k < 128" | "128 \<le> k" "k < 192" | "192 \<le> k" by linarith
    then show ?thesis
    proof cases
      case 1
      then show ?thesis using j
        by (auto simp: test_bit_bit bm_set_bits_leq_def bm_zero_def word_at_def bit_set_bits_leq)
    qed (use j k(2) in \<open>auto simp: test_bit_bit bm_set_bits_leq_def bm_zero_def word_at_def bit_set_bits_leq bit_minus_1_iff\<close>)
  qed
  then show ?thesis using k by (auto simp: slots_def bm_set_bits_le_def)
qed (simp add: bm_set_bits_le_def)

lemma index_card: "i < 256 \<Longrightarrow> index_for_bit_pos b i = card {j \<in> slots b. j < i}"
  unfolding index_for_bit_pos_def count_ones_slots slots_and
  by (simp add: slots_le) (rule arg_cong [of _ _ card], auto)

subsection \<open>A bit field and a list as a map from slots\<close>

text \<open>\<open>Vec::insert\<close> and \<open>Vec::remove\<close>.\<close>

definition vec_insert :: "nat \<Rightarrow> 'a \<Rightarrow> 'a list \<Rightarrow> 'a list" where
  "vec_insert i x xs = take i xs @ x # drop i xs"

definition vec_remove :: "nat \<Rightarrow> 'a list \<Rightarrow> 'a list" where
  "vec_remove i xs = take i xs @ drop (Suc i) xs"

definition slots_ok :: "Bitfield \<Rightarrow> 'a list \<Rightarrow> bool" where
  "slots_ok b ps \<longleftrightarrow> length ps = bm_count_ones b"

definition slot_get :: "Bitfield \<Rightarrow> 'a list \<Rightarrow> nat \<Rightarrow> 'a option" where
  "slot_get b ps i =
    (if i < 256 \<and> bm_test_bit b i \<and> index_for_bit_pos b i < length ps then Some (ps ! index_for_bit_pos b i) else None)"

lemma index_bound: "slots_ok b ps \<Longrightarrow> i \<in> slots b \<Longrightarrow> index_for_bit_pos b i < length ps"
proof -
  assume ok: "slots_ok b ps" and i: "i \<in> slots b"
  have "{j \<in> slots b. j < i} \<subset> slots b" using i by auto
  then have "card {j \<in> slots b. j < i} < card (slots b)" by (intro psubset_card_mono) auto
  then show ?thesis using ok i by (simp add: slots_ok_def count_ones_slots index_card slots_def)
qed

lemma slot_get_Some: "slots_ok b ps \<Longrightarrow> i \<in> slots b \<Longrightarrow> slot_get b ps i = Some (ps ! index_for_bit_pos b i)"
  using index_bound [of b ps i] by (simp add: slot_get_def slots_def)

lemma slot_get_None: "i \<notin> slots b \<Longrightarrow> slot_get b ps i = None"
  by (auto simp: slot_get_def slots_def)

lemma slot_get_dom: "slots_ok b ps \<Longrightarrow> slot_get b ps i \<noteq> None \<longleftrightarrow> i \<in> slots b"
  by (cases "i \<in> slots b") (simp_all add: slot_get_Some slot_get_None)

lemma index_mono: "i \<in> slots b \<Longrightarrow> i < j \<Longrightarrow> j < 256 \<Longrightarrow> index_for_bit_pos b i < index_for_bit_pos b j"
proof -
  assume i: "i \<in> slots b" "i < j" "j < 256"
  have "{k \<in> slots b. k < i} \<subset> {k \<in> slots b. k < j}" using i by auto
  then have "card {k \<in> slots b. k < i} < card {k \<in> slots b. k < j}" by (intro psubset_card_mono) auto
  then show ?thesis using i by (simp add: index_card slots_def)
qed

lemma index_mono_le: "i \<le> j \<Longrightarrow> j < 256 \<Longrightarrow> index_for_bit_pos b i \<le> index_for_bit_pos b j"
  by (simp add: index_card) (intro card_mono, auto)

lemma index_insert:
  assumes "i < 256" "i \<notin> slots b" "j < 256"
  shows "index_for_bit_pos (bm_set_bit b i) j = index_for_bit_pos b j + (if i < j then 1 else 0)"
proof -
  have "{k \<in> insert i (slots b). k < j} = (if i < j then insert i {k \<in> slots b. k < j} else {k \<in> slots b. k < j})" by auto
  then show ?thesis using assms by (simp add: index_card slots_set)
qed

lemma index_remove:
  assumes "i \<in> slots b" "j < 256"
  shows "index_for_bit_pos (bm_clear_bit b i) j = index_for_bit_pos b j - (if i < j then 1 else 0)"
proof -
  have "{k \<in> slots b - {i}. k < j} = {k \<in> slots b. k < j} - {i}" by auto
  moreover have "i < 256" using assms by (simp add: slots_def)
  ultimately show ?thesis using assms by (simp add: index_card slots_clear)
qed

text \<open>The three ways in which nodes change a child, and what they do to the map.\<close>

lemma slot_insert:
  assumes "slots_ok b ps" "i < 256" "i \<notin> slots b"
  shows "slots_ok (bm_set_bit b i) (vec_insert (index_for_bit_pos b i) p ps)"
    and "slot_get (bm_set_bit b i) (vec_insert (index_for_bit_pos b i) p ps) = (slot_get b ps)(i \<mapsto> p)"
proof -
  let ?c = "index_for_bit_pos b i" and ?b = "bm_set_bit b i"
  let ?ps = "vec_insert ?c p ps"
  have c: "?c \<le> length ps"
    using assms by (simp add: slots_ok_def count_ones_slots index_card card_mono)
  show ok: "slots_ok ?b ?ps"
    using assms c by (simp add: slots_ok_def count_ones_slots slots_set vec_insert_def)
  show "slot_get ?b ?ps = (slot_get b ps)(i \<mapsto> p)"
  proof
    fix j
    show "slot_get ?b ?ps j = ((slot_get b ps)(i \<mapsto> p)) j"
    proof (cases "j = i \<or> j \<notin> slots b")
      case True
      then show ?thesis using slot_get_Some [OF ok, of j] slot_get_None [of j] assms c
        by (auto simp: slots_set index_insert vec_insert_def nth_append slot_get_None)
    next
      case False
      then have j: "j \<noteq> i" "j \<in> slots b" "j < 256" by (auto simp: slots_def)
      have "?ps ! index_for_bit_pos ?b j = ps ! index_for_bit_pos b j"
      proof (cases "i < j")
        case True
        then have "?c \<le> index_for_bit_pos b j" using j index_mono_le [of i j b] by simp
        then show ?thesis using True assms j c by (simp add: index_insert vec_insert_def nth_append)
      next
        case False
        then have "index_for_bit_pos b j < ?c" using j assms index_mono [of j b i] by simp
        then show ?thesis using False assms j c by (simp add: index_insert vec_insert_def nth_append)
      qed
      then show ?thesis using j slot_get_Some [OF ok, of j] slot_get_Some [OF assms(1), of j] assms by (simp add: slots_set)
    qed
  qed
qed

lemma slot_remove:
  assumes "slots_ok b ps" "i \<in> slots b"
  shows "slots_ok (bm_clear_bit b i) (vec_remove (index_for_bit_pos b i) ps)"
    and "slot_get (bm_clear_bit b i) (vec_remove (index_for_bit_pos b i) ps) = (slot_get b ps)(i := None)"
proof -
  let ?c = "index_for_bit_pos b i" and ?b = "bm_clear_bit b i"
  let ?ps = "vec_remove ?c ps"
  have i: "i < 256" using assms(2) by (simp add: slots_def)
  have c: "?c < length ps" by (rule index_bound [OF assms])
  show ok: "slots_ok ?b ?ps"
    using assms c i by (simp add: slots_ok_def count_ones_slots slots_clear vec_remove_def)
  show "slot_get ?b ?ps = (slot_get b ps)(i := None)"
  proof
    fix j
    show "slot_get ?b ?ps j = ((slot_get b ps)(i := None)) j"
    proof (cases "j = i \<or> j \<notin> slots b")
      case True
      then show ?thesis using i by (auto simp: slots_clear slot_get_None)
    next
      case False
      then have j: "j \<noteq> i" "j \<in> slots b" "j < 256" by (auto simp: slots_def)
      have "?ps ! index_for_bit_pos ?b j = ps ! index_for_bit_pos b j"
      proof (cases "i < j")
        case True
        then have "?c < index_for_bit_pos b j" using j assms index_mono [of i b j] by simp
        then obtain d where d: "index_for_bit_pos b j = Suc (?c + d)" using less_iff_Suc_add by blast
        then have "Suc (?c + d) < length ps" using index_bound [OF assms(1) j(2)] by simp
        then show ?thesis using True assms j c d by (simp add: index_remove vec_remove_def nth_append)
      next
        case False
        then have "index_for_bit_pos b j < ?c" using j i index_mono [of j b i] by simp
        then show ?thesis using False assms j c by (simp add: index_remove vec_remove_def nth_append)
      qed
      then show ?thesis using j slot_get_Some [OF ok, of j] slot_get_Some [OF assms(1), of j] i by (simp add: slots_clear)
    qed
  qed
qed

lemma slot_update:
  assumes "slots_ok b ps" "i \<in> slots b"
  shows "slots_ok b (ps[index_for_bit_pos b i := p])"
    and "slot_get b (ps[index_for_bit_pos b i := p]) = (slot_get b ps)(i \<mapsto> p)"
proof -
  let ?ps = "ps[index_for_bit_pos b i := p]"
  show ok: "slots_ok b ?ps" using assms by (simp add: slots_ok_def)
  show "slot_get b ?ps = (slot_get b ps)(i \<mapsto> p)"
  proof
    fix j
    show "slot_get b ?ps j = ((slot_get b ps)(i \<mapsto> p)) j"
    proof (cases "j \<in> slots b")
      case True
      then have "j \<noteq> i \<Longrightarrow> index_for_bit_pos b j \<noteq> index_for_bit_pos b i"
        using index_mono [of i b j] index_mono [of j b i] assms(2) by (fastforce simp: slots_def)
      then show ?thesis using True slot_get_Some [OF ok, of j] slot_get_Some [OF assms(1), of j] index_bound [OF assms]
        by auto
    next
      case False
      then show ?thesis using assms(2) by (auto simp: slot_get_None)
    qed
  qed
qed

text \<open>The list holds exactly the children, in the order of their slots.\<close>

lemma slot_index:
  assumes n: "n < length (sorted_list_of_set (slots b))"
  shows "index_for_bit_pos b (sorted_list_of_set (slots b) ! n) = n"
proof -
  let ?xs = "sorted_list_of_set (slots b)"
  have sorted: "sorted_wrt (<) ?xs" by simp
  have in_slots: "?xs ! n \<in> slots b" using n by (metis finite_slots nth_mem set_sorted_list_of_set)
  have "{j \<in> slots b. j < ?xs ! n} = (\<lambda>k. ?xs ! k) ` {..<n}"
  proof (intro set_eqI iffI)
    fix j
    assume j: "j \<in> {j \<in> slots b. j < ?xs ! n}"
    then obtain k where k: "k < length ?xs" "j = ?xs ! k" by (metis (mono_tags) finite_slots in_set_conv_nth mem_Collect_eq set_sorted_list_of_set)
    then have "k < n" using j sorted_wrt_nth_less [OF sorted, of n k] by (cases k n rule: linorder_cases) auto
    then show "j \<in> (\<lambda>k. ?xs ! k) ` {..<n}" using k by auto
  next
    fix j
    assume "j \<in> (\<lambda>k. ?xs ! k) ` {..<n}"
    then obtain k where k: "k < n" "j = ?xs ! k" by auto
    then have "j < ?xs ! n" using sorted_wrt_nth_less [OF sorted k(1) n] by simp
    moreover have "j \<in> slots b" using k n by (metis finite_slots less_trans nth_mem set_sorted_list_of_set)
    ultimately show "j \<in> {j \<in> slots b. j < ?xs ! n}" by simp
  qed
  moreover have "inj_on (\<lambda>k. ?xs ! k) {..<n}" using n by (intro inj_on_nth) auto
  ultimately show ?thesis using in_slots by (simp add: index_card slots_def card_image)
qed

lemma slot_list: "slots_ok b ps \<Longrightarrow> ps = map (\<lambda>i. the (slot_get b ps i)) (sorted_list_of_set (slots b))"
proof (rule nth_equalityI)
  assume ok: "slots_ok b ps"
  let ?xs = "sorted_list_of_set (slots b)"
  show len: "length ps = length (map (\<lambda>i. the (slot_get b ps i)) ?xs)"
    using ok by (simp add: slots_ok_def count_ones_slots)
  fix n
  assume "n < length ps"
  then have n: "n < length ?xs" using len by simp
  have in_slots: "?xs ! n \<in> slots b" using n by (metis finite_slots nth_mem set_sorted_list_of_set)
  then show "ps ! n = map (\<lambda>i. the (slot_get b ps i)) ?xs ! n" using n slot_get_Some [OF ok in_slots] slot_index [OF n] by simp
qed

lemma slot_set: "slots_ok b ps \<Longrightarrow> set ps = {p. \<exists>i. slot_get b ps i = Some p}"
proof -
  assume ok: "slots_ok b ps"
  have "set ps = (\<lambda>i. the (slot_get b ps i)) ` slots b"
    using arg_cong [OF slot_list [OF ok], of set] by simp
  then show ?thesis using slot_get_dom [OF ok] by (auto simp: image_iff) (metis option.sel option.distinct(1))+
qed

subsection \<open>The encoding of a bit field\<close>

text \<open>The bytes of the four words in big-endian order, the highest word first, without leading zeros.\<close>

definition MAX_LEN :: nat where
  "MAX_LEN = 4 * 8"

definition write_u64_be :: "u64 \<Rightarrow> bytes" where
  "write_u64_be w = map (\<lambda>i. ucast (drop_bit (8 * i) w)) [7, 6, 5, 4, 3, 2, 1, 0]"

definition read_u64_be :: "bytes \<Rightarrow> u64" where
  "read_u64_be bs = foldl (\<lambda>w b. push_bit 8 w OR ucast b) 0 bs"

definition bm_serialize :: "Bitfield \<Rightarrow> bytes" where
  "bm_serialize b =
    dropWhile (\<lambda>x. x = 0) (write_u64_be (w3 b) @ write_u64_be (w2 b) @ write_u64_be (w1 b) @ write_u64_be (w0 b))"

definition bm_deserialize :: "bytes \<Rightarrow> nat + Bitfield" where
  "bm_deserialize bs =
    (if length bs > MAX_LEN then Inl (length bs)
     else
       let arr = replicate (MAX_LEN - length bs) 0 @ bs
       in Inr (Bitfield (read_u64_be (drop 24 arr)) (read_u64_be (take 8 (drop 16 arr)))
            (read_u64_be (take 8 (drop 8 arr))) (read_u64_be (take 8 arr))))"

lemma read_write_u64: "read_u64_be (write_u64_be w) = w"
proof (rule bit_word_eqI)
  fix n
  assume "n < LENGTH(64)"
  then have n: "n < 64" by simp
  have step: "bit (push_bit 8 x OR ucast (ucast (drop_bit k w) :: u8)) m \<longleftrightarrow>
      (if m < 8 then bit w (m + k) else bit x (m - 8))" if "m < 64" for x :: u64 and k m
    using that by (auto simp: bit_or_iff bit_push_bit_iff bit_unsigned_iff bit_drop_bit_eq add.commute)
  show "bit (read_u64_be (write_u64_be w)) n = bit w n"
    unfolding read_u64_be_def write_u64_be_def using n
    by (simp only: list.map foldl.simps step less_imp_diff_less) auto
qed

lemma pad_dropWhile: "length xs \<le> n \<Longrightarrow> replicate (n - length (dropWhile (\<lambda>x. x = 0) xs)) 0 @ dropWhile (\<lambda>x. x = 0) xs =
    replicate (n - length xs) 0 @ xs" for xs :: "u8 list"
proof (induction xs arbitrary: n)
  case (Cons x xs)
  show ?case
  proof (cases "x = 0")
    case True
    have "replicate (n - length xs) 0 = replicate (n - Suc (length xs)) (0 :: u8) @ [0]"
      using Cons.prems by (simp add: Suc_diff_Suc [symmetric] replicate_append_same)
    then show ?thesis using Cons True by simp
  qed simp
qed simp

lemma bm_round_trip: "bm_deserialize (bm_serialize b) = Inr b"
proof -
  let ?all = "write_u64_be (w3 b) @ write_u64_be (w2 b) @ write_u64_be (w1 b) @ write_u64_be (w0 b)"
  have len: "length (write_u64_be w) = 8" for w by (simp add: write_u64_be_def)
  have "length (dropWhile (\<lambda>x. x = 0) ?all) \<le> length ?all" by (rule length_dropWhile_le)
  moreover have "replicate (32 - length (dropWhile (\<lambda>x. x = 0) ?all)) 0 @ dropWhile (\<lambda>x. x = 0) ?all = ?all"
    using pad_dropWhile [of ?all 32] len by simp
  ultimately show ?thesis
    by (simp add: bm_deserialize_def bm_serialize_def MAX_LEN_def len read_write_u64 Let_def)
qed

end
