(* ===== verification/Sectors.thy ===== *)
theory Sectors
  imports CborScan SparseSlots
begin

text \<open>
  Sectors, pieces and commitments, as the Filecoin kernel uses them: \<open>shared/src/sector/\<close>,
  \<open>shared/src/piece/\<close>, \<open>shared/src/commcid/\<close>, \<open>shared/src/consensus/\<close> and the conversions into the
  types of the \<open>filecoin_proofs_api\<close> crate at the end of \<open>registered_proof.rs\<close>. The proofs
  themselves are that crate's; its functions are the record \<open>proofs_api\<close>. An \<open>attempt\<close> is the outcome
  of code that may panic: \<open>None\<close> is a panic, \<open>Some (Inl e)\<close> an error.
\<close>

type_synonym 'a attempt = "(unit + 'a) option"

subsection \<open>Messages of the sector proofs\<close>

record SectorID =
  sid_miner :: u64
  sid_number :: u64

record PieceInfo =
  piece_size :: u64
  piece_cid :: Cid

record SealVerifyInfo =
  sv_registered_proof :: RegisteredSealProof
  sv_sector_id :: SectorID
  sv_deal_ids :: "u64 list"
  sv_randomness :: bytes
  sv_interactive_randomness :: bytes
  sv_proof :: bytes
  sv_sealed_cid :: Cid
  sv_unsealed_cid :: Cid

record AggregateSealVerifyInfo =
  ai_sector_number :: u64
  ai_randomness :: bytes
  ai_interactive_randomness :: bytes
  ai_sealed_cid :: Cid
  ai_unsealed_cid :: Cid

record AggregateSealVerifyProofAndInfos =
  ag_miner :: u64
  ag_seal_proof :: RegisteredSealProof
  ag_aggregate_proof :: RegisteredAggregateProof
  ag_proof :: bytes
  ag_infos :: "AggregateSealVerifyInfo list"

record ReplicaUpdateInfo =
  ru_update_proof_type :: RegisteredUpdateProof
  ru_old_sealed_cid :: Cid
  ru_new_sealed_cid :: Cid
  ru_new_unsealed_cid :: Cid
  ru_proof :: bytes

record SectorInfo =
  si_proof :: RegisteredSealProof
  si_sector_number :: u64
  si_sealed_cid :: Cid

record PoStProof =
  po_post_proof :: RegisteredPoStProof
  po_proof_bytes :: bytes

record WindowPoStVerifyInfo =
  wp_randomness :: bytes
  wp_proofs :: "PoStProof list"
  wp_challenged_sectors :: "SectorInfo list"
  wp_prover :: u64

datatype ConsensusFaultType = DoubleForkMining | ParentGrinding | TimeOffsetMining

fun fault_type_u32 :: "ConsensusFaultType \<Rightarrow> u32" where
  "fault_type_u32 DoubleForkMining = 1"
| "fault_type_u32 ParentGrinding = 2"
| "fault_type_u32 TimeOffsetMining = 3"

record ConsensusFault =
  cf_target :: Address
  cf_epoch :: i64
  cf_fault_type :: ConsensusFaultType

subsection \<open>The proof types of the proofs crate\<close>

datatype ApiSealProof =
    StackedDrg2KiBV1
  | StackedDrg8MiBV1
  | StackedDrg512MiBV1
  | StackedDrg32GiBV1
  | StackedDrg64GiBV1
  | StackedDrg2KiBV1_1
  | StackedDrg8MiBV1_1
  | StackedDrg512MiBV1_1
  | StackedDrg32GiBV1_1
  | StackedDrg64GiBV1_1
  | StackedDrg2KiBV1_1_Feat_SyntheticPoRep
  | StackedDrg8MiBV1_1_Feat_SyntheticPoRep
  | StackedDrg512MiBV1_1_Feat_SyntheticPoRep
  | StackedDrg32GiBV1_1_Feat_SyntheticPoRep
  | StackedDrg64GiBV1_1_Feat_SyntheticPoRep
  | StackedDrg2KiBV1_2_Feat_NonInteractivePoRep
  | StackedDrg8MiBV1_2_Feat_NonInteractivePoRep
  | StackedDrg512MiBV1_2_Feat_NonInteractivePoRep
  | StackedDrg32GiBV1_2_Feat_NonInteractivePoRep
  | StackedDrg64GiBV1_2_Feat_NonInteractivePoRep

datatype ApiPoStProof =
    StackedDrgWinning2KiBV1
  | StackedDrgWinning8MiBV1
  | StackedDrgWinning512MiBV1
  | StackedDrgWinning32GiBV1
  | StackedDrgWinning64GiBV1
  | StackedDrgWindow2KiBV1_2
  | StackedDrgWindow8MiBV1_2
  | StackedDrgWindow512MiBV1_2
  | StackedDrgWindow32GiBV1_2
  | StackedDrgWindow64GiBV1_2

datatype ApiUpdateProof =
    StackedDrg2KiBV1
  | StackedDrg8MiBV1
  | StackedDrg512MiBV1
  | StackedDrg32GiBV1
  | StackedDrg64GiBV1

datatype ApiAggregationProof = SnarkPackV1 | SnarkPackV2

fun seal_try_from :: "RegisteredSealProof \<Rightarrow> unit + ApiSealProof" where
  "seal_try_from RegisteredSealProof.StackedDRG2KiBV1 = Inr ApiSealProof.StackedDrg2KiBV1"
| "seal_try_from RegisteredSealProof.StackedDRG8MiBV1 = Inr ApiSealProof.StackedDrg8MiBV1"
| "seal_try_from RegisteredSealProof.StackedDRG512MiBV1 = Inr ApiSealProof.StackedDrg512MiBV1"
| "seal_try_from RegisteredSealProof.StackedDRG32GiBV1 = Inr ApiSealProof.StackedDrg32GiBV1"
| "seal_try_from RegisteredSealProof.StackedDRG64GiBV1 = Inr ApiSealProof.StackedDrg64GiBV1"
| "seal_try_from RegisteredSealProof.StackedDRG2KiBV1P1 = Inr ApiSealProof.StackedDrg2KiBV1_1"
| "seal_try_from RegisteredSealProof.StackedDRG8MiBV1P1 = Inr ApiSealProof.StackedDrg8MiBV1_1"
| "seal_try_from RegisteredSealProof.StackedDRG512MiBV1P1 = Inr ApiSealProof.StackedDrg512MiBV1_1"
| "seal_try_from RegisteredSealProof.StackedDRG32GiBV1P1 = Inr ApiSealProof.StackedDrg32GiBV1_1"
| "seal_try_from RegisteredSealProof.StackedDRG64GiBV1P1 = Inr ApiSealProof.StackedDrg64GiBV1_1"
| "seal_try_from RegisteredSealProof.StackedDRG2KiBV1P1_Feat_SyntheticPoRep = Inr ApiSealProof.StackedDrg2KiBV1_1_Feat_SyntheticPoRep"
| "seal_try_from RegisteredSealProof.StackedDRG8MiBV1P1_Feat_SyntheticPoRep = Inr ApiSealProof.StackedDrg8MiBV1_1_Feat_SyntheticPoRep"
| "seal_try_from RegisteredSealProof.StackedDRG512MiBV1P1_Feat_SyntheticPoRep = Inr ApiSealProof.StackedDrg512MiBV1_1_Feat_SyntheticPoRep"
| "seal_try_from RegisteredSealProof.StackedDRG32GiBV1P1_Feat_SyntheticPoRep = Inr ApiSealProof.StackedDrg32GiBV1_1_Feat_SyntheticPoRep"
| "seal_try_from RegisteredSealProof.StackedDRG64GiBV1P1_Feat_SyntheticPoRep = Inr ApiSealProof.StackedDrg64GiBV1_1_Feat_SyntheticPoRep"
| "seal_try_from RegisteredSealProof.StackedDRG2KiBV1P2_Feat_NiPoRep = Inr ApiSealProof.StackedDrg2KiBV1_2_Feat_NonInteractivePoRep"
| "seal_try_from RegisteredSealProof.StackedDRG8MiBV1P2_Feat_NiPoRep = Inr ApiSealProof.StackedDrg8MiBV1_2_Feat_NonInteractivePoRep"
| "seal_try_from RegisteredSealProof.StackedDRG512MiBV1P2_Feat_NiPoRep = Inr ApiSealProof.StackedDrg512MiBV1_2_Feat_NonInteractivePoRep"
| "seal_try_from RegisteredSealProof.StackedDRG32GiBV1P2_Feat_NiPoRep = Inr ApiSealProof.StackedDrg32GiBV1_2_Feat_NonInteractivePoRep"
| "seal_try_from RegisteredSealProof.StackedDRG64GiBV1P2_Feat_NiPoRep = Inr ApiSealProof.StackedDrg64GiBV1_2_Feat_NonInteractivePoRep"
| "seal_try_from (RegisteredSealProof.Invalid _) = Inl ()"

fun post_try_from :: "RegisteredPoStProof \<Rightarrow> unit + ApiPoStProof" where
  "post_try_from RegisteredPoStProof.StackedDRGWinning2KiBV1 = Inr ApiPoStProof.StackedDrgWinning2KiBV1"
| "post_try_from RegisteredPoStProof.StackedDRGWinning8MiBV1 = Inr ApiPoStProof.StackedDrgWinning8MiBV1"
| "post_try_from RegisteredPoStProof.StackedDRGWinning512MiBV1 = Inr ApiPoStProof.StackedDrgWinning512MiBV1"
| "post_try_from RegisteredPoStProof.StackedDRGWinning32GiBV1 = Inr ApiPoStProof.StackedDrgWinning32GiBV1"
| "post_try_from RegisteredPoStProof.StackedDRGWinning64GiBV1 = Inr ApiPoStProof.StackedDrgWinning64GiBV1"
| "post_try_from RegisteredPoStProof.StackedDRGWindow2KiBV1P1 = Inr ApiPoStProof.StackedDrgWindow2KiBV1_2"
| "post_try_from RegisteredPoStProof.StackedDRGWindow8MiBV1P1 = Inr ApiPoStProof.StackedDrgWindow8MiBV1_2"
| "post_try_from RegisteredPoStProof.StackedDRGWindow512MiBV1P1 = Inr ApiPoStProof.StackedDrgWindow512MiBV1_2"
| "post_try_from RegisteredPoStProof.StackedDRGWindow32GiBV1P1 = Inr ApiPoStProof.StackedDrgWindow32GiBV1_2"
| "post_try_from RegisteredPoStProof.StackedDRGWindow64GiBV1P1 = Inr ApiPoStProof.StackedDrgWindow64GiBV1_2"
| "post_try_from (RegisteredPoStProof.Invalid _) = Inl ()"

fun update_try_from :: "RegisteredUpdateProof \<Rightarrow> unit + ApiUpdateProof" where
  "update_try_from RegisteredUpdateProof.StackedDRG2KiBV1 = Inr ApiUpdateProof.StackedDrg2KiBV1"
| "update_try_from RegisteredUpdateProof.StackedDRG8MiBV1 = Inr ApiUpdateProof.StackedDrg8MiBV1"
| "update_try_from RegisteredUpdateProof.StackedDRG512MiBV1 = Inr ApiUpdateProof.StackedDrg512MiBV1"
| "update_try_from RegisteredUpdateProof.StackedDRG32GiBV1 = Inr ApiUpdateProof.StackedDrg32GiBV1"
| "update_try_from RegisteredUpdateProof.StackedDRG64GiBV1 = Inr ApiUpdateProof.StackedDrg64GiBV1"
| "update_try_from (RegisteredUpdateProof.Invalid _) = Inl ()"

fun aggregate_try_from :: "RegisteredAggregateProof \<Rightarrow> unit + ApiAggregationProof" where
  "aggregate_try_from RegisteredAggregateProof.SnarkPackV1 = Inr ApiAggregationProof.SnarkPackV1"
| "aggregate_try_from RegisteredAggregateProof.SnarkPackV2 = Inr ApiAggregationProof.SnarkPackV2"
| "aggregate_try_from (RegisteredAggregateProof.Invalid _) = Inl ()"

record api_piece =
  ap_commitment :: bytes
  ap_size :: u64

text \<open>The functions of the proofs crate, in the order the kernel calls them.\<close>

record proofs_api =
  api_verify_window_post ::
    "bytes \<Rightarrow> (ApiPoStProof \<times> bytes) list \<Rightarrow> (u64 \<rightharpoonup> ApiPoStProof \<times> bytes) \<Rightarrow> bytes \<Rightarrow> bool attempt"
  api_verify_seal ::
    "ApiSealProof \<Rightarrow> bytes \<Rightarrow> bytes \<Rightarrow> bytes \<Rightarrow> u64 \<Rightarrow> bytes \<Rightarrow> bytes \<Rightarrow> bytes \<Rightarrow> bool attempt"
  api_get_seal_inputs ::
    "ApiSealProof \<Rightarrow> bytes \<Rightarrow> bytes \<Rightarrow> bytes \<Rightarrow> u64 \<Rightarrow> bytes \<Rightarrow> bytes \<Rightarrow> bytes list list attempt"
  api_verify_aggregate ::
    "ApiSealProof \<Rightarrow> ApiAggregationProof \<Rightarrow> bytes \<Rightarrow> bytes list \<Rightarrow> bytes list \<Rightarrow> bytes list list \<Rightarrow> bool attempt"
  api_verify_empty_sector_update ::
    "ApiUpdateProof \<Rightarrow> bytes \<Rightarrow> bytes \<Rightarrow> bytes \<Rightarrow> bytes \<Rightarrow> bool attempt"
  api_compute_comm_d :: "ApiSealProof \<Rightarrow> api_piece list \<Rightarrow> bytes attempt"

subsection \<open>Commitments as CIDs\<close>

definition POSEIDON_BLS12_381_A1_FC1 :: u64 where
  "POSEIDON_BLS12_381_A1_FC1 = 0xb401"

definition SHA2_256_TRUNC254_PADDED :: u64 where
  "SHA2_256_TRUNC254_PADDED = 0x1012"

definition validate_filecoin_cid_segments :: "u64 \<Rightarrow> u64 \<Rightarrow> bytes \<Rightarrow> unit + unit" where
  "validate_filecoin_cid_segments mc mh comm_x =
    (if (if mc = FIL_COMMITMENT_UNSEALED then mh \<noteq> SHA2_256_TRUNC254_PADDED
         else if mc = FIL_COMMITMENT_SEALED then mh \<noteq> POSEIDON_BLS12_381_A1_FC1
         else True) then Inl ()
     else if length comm_x \<noteq> 32 then Inl ()
     else Inr ())"

text \<open>Wrapping fails only for digests of more than 64 bytes, which the validation has excluded.\<close>

definition commitment_to_cid :: "u64 \<Rightarrow> u64 \<Rightarrow> bytes \<Rightarrow> unit + Cid" where
  "commitment_to_cid mc mh commitment = (case validate_filecoin_cid_segments mc mh commitment of
      Inl e \<Rightarrow> Inl e
    | Inr _ \<Rightarrow> Inr \<lparr>cid_version = 1, cid_codec = mc, mh_code = mh, mh_digest = commitment\<rparr>)"

definition cid_to_commitment :: "Cid \<Rightarrow> unit + u64 \<times> u64 \<times> bytes" where
  "cid_to_commitment c = (case validate_filecoin_cid_segments (cid_codec c) (mh_code c) (mh_digest c) of
      Inl e \<Rightarrow> Inl e
    | Inr _ \<Rightarrow> Inr (cid_codec c, mh_code c, mh_digest c))"

definition data_commitment_v1_to_cid :: "bytes \<Rightarrow> unit + Cid" where
  "data_commitment_v1_to_cid comm_d = commitment_to_cid FIL_COMMITMENT_UNSEALED SHA2_256_TRUNC254_PADDED comm_d"

definition cid_to_data_commitment_v1 :: "Cid \<Rightarrow> unit + bytes" where
  "cid_to_data_commitment_v1 c = (case cid_to_commitment c of
      Inl e \<Rightarrow> Inl e
    | Inr (codec, _, comm_d) \<Rightarrow> if codec \<noteq> FIL_COMMITMENT_UNSEALED then Inl () else Inr comm_d)"

definition replica_commitment_v1_to_cid :: "bytes \<Rightarrow> unit + Cid" where
  "replica_commitment_v1_to_cid comm_r = commitment_to_cid FIL_COMMITMENT_SEALED POSEIDON_BLS12_381_A1_FC1 comm_r"

definition cid_to_replica_commitment_v1 :: "Cid \<Rightarrow> unit + bytes" where
  "cid_to_replica_commitment_v1 c = (case cid_to_commitment c of
      Inl e \<Rightarrow> Inl e
    | Inr (codec, _, comm_r) \<Rightarrow> if codec \<noteq> FIL_COMMITMENT_SEALED then Inl () else Inr comm_r)"

definition piece_commitment_v1_to_cid :: "bytes \<Rightarrow> unit + Cid" where
  "piece_commitment_v1_to_cid comm_p = data_commitment_v1_to_cid comm_p"

definition cid_to_piece_commitment_v1 :: "Cid \<Rightarrow> unit + bytes" where
  "cid_to_piece_commitment_v1 c = cid_to_data_commitment_v1 c"

subsection \<open>Piece sizes\<close>

definition trailing_zeros :: "u64 \<Rightarrow> nat" where
  "trailing_zeros w = length (takeWhile (\<lambda>i. \<not> bit w i) [0..<64])"

definition padded :: "u64 \<Rightarrow> u64" where
  "padded u = u + u div 127"

definition validate_unpadded :: "u64 \<Rightarrow> unit + unit" where
  "validate_unpadded u =
    (if u < 127 then Inl ()
     else if drop_bit (trailing_zeros u) u \<noteq> 127 then Inl ()
     else Inr ())"

definition unpadded :: "u64 \<Rightarrow> u64" where
  "unpadded p = p - p div 128"

definition validate_padded :: "u64 \<Rightarrow> unit + unit" where
  "validate_padded p =
    (if p < 128 then Inl ()
     else if count_ones p \<noteq> 1 then Inl ()
     else Inr ())"

definition piece_try_from :: "PieceInfo \<Rightarrow> unit + api_piece" where
  "piece_try_from p = (case cid_to_piece_commitment_v1 (piece_cid p) of
      Inl e \<Rightarrow> Inl e
    | Inr c \<Rightarrow> Inr \<lparr>ap_commitment = c, ap_size = unpadded (piece_size p)\<rparr>)"

subsection \<open>Zero pieces\<close>

definition PIECE_COMMS :: "bytes list" where
  "PIECE_COMMS = [
    [0x37, 0x31, 0xbb, 0x99, 0xac, 0x68, 0x9f, 0x66, 0xee, 0xf5, 0x97, 0x3e, 0x4a, 0x94, 0xda, 0x18,
     0x8f, 0x4d, 0xdc, 0xae, 0x58, 0x7, 0x24, 0xfc, 0x6f, 0x3f, 0xd6, 0xd, 0xfd, 0x48, 0x83, 0x33],
    [0x64, 0x2a, 0x60, 0x7e, 0xf8, 0x86, 0xb0, 0x4, 0xbf, 0x2c, 0x19, 0x78, 0x46, 0x3a, 0xe1, 0xd4,
     0x69, 0x3a, 0xc0, 0xf4, 0x10, 0xeb, 0x2d, 0x1b, 0x7a, 0x47, 0xfe, 0x20, 0x5e, 0x5e, 0x75, 0xf],
    [0x57, 0xa2, 0x38, 0x1a, 0x28, 0x65, 0x2b, 0xf4, 0x7f, 0x6b, 0xef, 0x7a, 0xca, 0x67, 0x9b, 0xe4,
     0xae, 0xde, 0x58, 0x71, 0xab, 0x5c, 0xf3, 0xeb, 0x2c, 0x8, 0x11, 0x44, 0x88, 0xcb, 0x85, 0x26],
    [0x1f, 0x7a, 0xc9, 0x59, 0x55, 0x10, 0xe0, 0x9e, 0xa4, 0x1c, 0x46, 0xb, 0x17, 0x64, 0x30, 0xbb,
     0x32, 0x2c, 0xd6, 0xfb, 0x41, 0x2e, 0xc5, 0x7c, 0xb1, 0x7d, 0x98, 0x9a, 0x43, 0x10, 0x37, 0x2f],
    [0xfc, 0x7e, 0x92, 0x82, 0x96, 0xe5, 0x16, 0xfa, 0xad, 0xe9, 0x86, 0xb2, 0x8f, 0x92, 0xd4, 0x4a,
     0x4f, 0x24, 0xb9, 0x35, 0x48, 0x52, 0x23, 0x37, 0x6a, 0x79, 0x90, 0x27, 0xbc, 0x18, 0xf8, 0x33],
    [0x8, 0xc4, 0x7b, 0x38, 0xee, 0x13, 0xbc, 0x43, 0xf4, 0x1b, 0x91, 0x5c, 0xe, 0xed, 0x99, 0x11,
     0xa2, 0x60, 0x86, 0xb3, 0xed, 0x62, 0x40, 0x1b, 0xf9, 0xd5, 0x8b, 0x8d, 0x19, 0xdf, 0xf6, 0x24],
    [0xb2, 0xe4, 0x7b, 0xfb, 0x11, 0xfa, 0xcd, 0x94, 0x1f, 0x62, 0xaf, 0x5c, 0x75, 0xf, 0x3e, 0xa5,
     0xcc, 0x4d, 0xf5, 0x17, 0xd5, 0xc4, 0xf1, 0x6d, 0xb2, 0xb4, 0xd7, 0x7b, 0xae, 0xc1, 0xa3, 0x2f],
    [0xf9, 0x22, 0x61, 0x60, 0xc8, 0xf9, 0x27, 0xbf, 0xdc, 0xc4, 0x18, 0xcd, 0xf2, 0x3, 0x49, 0x31,
     0x46, 0x0, 0x8e, 0xae, 0xfb, 0x7d, 0x2, 0x19, 0x4d, 0x5e, 0x54, 0x81, 0x89, 0x0, 0x51, 0x8],
    [0x2c, 0x1a, 0x96, 0x4b, 0xb9, 0xb, 0x59, 0xeb, 0xfe, 0xf, 0x6d, 0xa2, 0x9a, 0xd6, 0x5a, 0xe3,
     0xe4, 0x17, 0x72, 0x4a, 0x8f, 0x7c, 0x11, 0x74, 0x5a, 0x40, 0xca, 0xc1, 0xe5, 0xe7, 0x40, 0x11],
    [0xfe, 0xe3, 0x78, 0xce, 0xf1, 0x64, 0x4, 0xb1, 0x99, 0xed, 0xe0, 0xb1, 0x3e, 0x11, 0xb6, 0x24,
     0xff, 0x9d, 0x78, 0x4f, 0xbb, 0xed, 0x87, 0x8d, 0x83, 0x29, 0x7e, 0x79, 0x5e, 0x2, 0x4f, 0x2],
    [0x8e, 0x9e, 0x24, 0x3, 0xfa, 0x88, 0x4c, 0xf6, 0x23, 0x7f, 0x60, 0xdf, 0x25, 0xf8, 0x3e, 0xe4,
     0xd, 0xca, 0x9e, 0xd8, 0x79, 0xeb, 0x6f, 0x63, 0x52, 0xd1, 0x50, 0x84, 0xf5, 0xad, 0xd, 0x3f],
    [0x75, 0x2d, 0x96, 0x93, 0xfa, 0x16, 0x75, 0x24, 0x39, 0x54, 0x76, 0xe3, 0x17, 0xa9, 0x85, 0x80,
     0xf0, 0x9, 0x47, 0xaf, 0xb7, 0xa3, 0x5, 0x40, 0xd6, 0x25, 0xa9, 0x29, 0x1c, 0xc1, 0x2a, 0x7],
    [0x70, 0x22, 0xf6, 0xf, 0x7e, 0xf6, 0xad, 0xfa, 0x17, 0x11, 0x7a, 0x52, 0x61, 0x9e, 0x30, 0xce,
     0xa8, 0x2c, 0x68, 0x7, 0x5a, 0xdf, 0x1c, 0x66, 0x77, 0x86, 0xec, 0x50, 0x6e, 0xef, 0x2d, 0x19],
    [0xd9, 0x98, 0x87, 0xb9, 0x73, 0x57, 0x3a, 0x96, 0xe1, 0x13, 0x93, 0x64, 0x52, 0x36, 0xc1, 0x7b,
     0x1f, 0x4c, 0x70, 0x34, 0xd7, 0x23, 0xc7, 0xa9, 0x9f, 0x70, 0x9b, 0xb4, 0xda, 0x61, 0x16, 0x2b],
    [0xd0, 0xb5, 0x30, 0xdb, 0xb0, 0xb4, 0xf2, 0x5c, 0x5d, 0x2f, 0x2a, 0x28, 0xdf, 0xee, 0x80, 0x8b,
     0x53, 0x41, 0x2a, 0x2, 0x93, 0x1f, 0x18, 0xc4, 0x99, 0xf5, 0xa2, 0x54, 0x8, 0x6b, 0x13, 0x26],
    [0x84, 0xc0, 0x42, 0x1b, 0xa0, 0x68, 0x5a, 0x1, 0xbf, 0x79, 0x5a, 0x23, 0x44, 0x6, 0x4f, 0xe4,
     0x24, 0xbd, 0x52, 0xa9, 0xd2, 0x43, 0x77, 0xb3, 0x94, 0xff, 0x4c, 0x4b, 0x45, 0x68, 0xe8, 0x11],
    [0x65, 0xf2, 0x9e, 0x5d, 0x98, 0xd2, 0x46, 0xc3, 0x8b, 0x38, 0x8c, 0xfc, 0x6, 0xdb, 0x1f, 0x6b,
     0x2, 0x13, 0x3, 0xc5, 0xa2, 0x89, 0x0, 0xb, 0xdc, 0xe8, 0x32, 0xa9, 0xc3, 0xec, 0x42, 0x1c],
    [0xa2, 0x24, 0x75, 0x8, 0x28, 0x58, 0x50, 0x96, 0x5b, 0x7e, 0x33, 0x4b, 0x31, 0x27, 0xb0, 0xc0,
     0x42, 0xb1, 0xd0, 0x46, 0xdc, 0x54, 0x40, 0x21, 0x37, 0x62, 0x7c, 0xd8, 0x79, 0x9c, 0xe1, 0x3a],
    [0xda, 0xfd, 0xab, 0x6d, 0xa9, 0x36, 0x44, 0x53, 0xc2, 0x6d, 0x33, 0x72, 0x6b, 0x9f, 0xef, 0xe3,
     0x43, 0xbe, 0x8f, 0x81, 0x64, 0x9e, 0xc0, 0x9, 0xaa, 0xd3, 0xfa, 0xff, 0x50, 0x61, 0x75, 0x8],
    [0xd9, 0x41, 0xd5, 0xe0, 0xd6, 0x31, 0x4a, 0x99, 0x5c, 0x33, 0xff, 0xbd, 0x4f, 0xbe, 0x69, 0x11,
     0x8d, 0x73, 0xd4, 0xe5, 0xfd, 0x2c, 0xd3, 0x1f, 0xf, 0x7c, 0x86, 0xeb, 0xdd, 0x14, 0xe7, 0x6],
    [0x51, 0x4c, 0x43, 0x5c, 0x3d, 0x4, 0xd3, 0x49, 0xa5, 0x36, 0x5f, 0xbd, 0x59, 0xff, 0xc7, 0x13,
     0x62, 0x91, 0x11, 0x78, 0x59, 0x91, 0xc1, 0xa3, 0xc5, 0x3a, 0xf2, 0x20, 0x79, 0x74, 0x1a, 0x2f],
    [0xad, 0x6, 0x85, 0x39, 0x69, 0xd3, 0x7d, 0x34, 0xff, 0x8, 0xe0, 0x9f, 0x56, 0x93, 0xa, 0x4a,
     0xd1, 0x9a, 0x89, 0xde, 0xf6, 0xc, 0xbf, 0xee, 0x7e, 0x1d, 0x33, 0x81, 0xc1, 0xe7, 0x1c, 0x37],
    [0x39, 0x56, 0xe, 0x7b, 0x13, 0xa9, 0x3b, 0x7, 0xa2, 0x43, 0xfd, 0x27, 0x20, 0xff, 0xa7, 0xcb,
     0x3e, 0x1d, 0x2e, 0x50, 0x5a, 0xb3, 0x62, 0x9e, 0x79, 0xf4, 0x63, 0x13, 0x51, 0x2c, 0xda, 0x6],
    [0xcc, 0xc3, 0xc0, 0x12, 0xf5, 0xb0, 0x5e, 0x81, 0x1a, 0x2b, 0xbf, 0xdd, 0xf, 0x68, 0x33, 0xb8,
     0x42, 0x75, 0xb4, 0x7b, 0xf2, 0x29, 0xc0, 0x5, 0x2a, 0x82, 0x48, 0x4f, 0x3c, 0x1a, 0x5b, 0x3d],
    [0x7d, 0xf2, 0x9b, 0x69, 0x77, 0x31, 0x99, 0xe8, 0xf2, 0xb4, 0xb, 0x77, 0x91, 0x9d, 0x4, 0x85,
     0x9, 0xee, 0xd7, 0x68, 0xe2, 0xc7, 0x29, 0x7b, 0x1f, 0x14, 0x37, 0x3, 0x4f, 0xc3, 0xc6, 0x2c],
    [0x66, 0xce, 0x5, 0xa3, 0x66, 0x75, 0x52, 0xcf, 0x45, 0xc0, 0x2b, 0xcc, 0x4e, 0x83, 0x92, 0x91,
     0x9b, 0xde, 0xac, 0x35, 0xde, 0x2f, 0xf5, 0x62, 0x71, 0x84, 0x8e, 0x9f, 0x7b, 0x67, 0x51, 0x7],
    [0xd8, 0x61, 0x2, 0x18, 0x42, 0x5a, 0xb5, 0xe9, 0x5b, 0x1c, 0xa6, 0x23, 0x9d, 0x29, 0xa2, 0xe4,
     0x20, 0xd7, 0x6, 0xa9, 0x6f, 0x37, 0x3e, 0x2f, 0x9c, 0x9a, 0x91, 0xd7, 0x59, 0xd1, 0x9b, 0x1],
    [0x6d, 0x36, 0x4b, 0x1e, 0xf8, 0x46, 0x44, 0x1a, 0x5a, 0x4a, 0x68, 0x86, 0x23, 0x14, 0xac, 0xc0,
     0xa4, 0x6f, 0x1, 0x67, 0x17, 0xe5, 0x34, 0x43, 0xe8, 0x39, 0xee, 0xdf, 0x83, 0xc2, 0x85, 0x3c],
    [0x7, 0x7e, 0x5f, 0xde, 0x35, 0xc5, 0xa, 0x93, 0x3, 0xa5, 0x50, 0x9, 0xe3, 0x49, 0x8a, 0x4e,
     0xbe, 0xdf, 0xf3, 0x9c, 0x42, 0xb7, 0x10, 0xb7, 0x30, 0xd8, 0xec, 0x7a, 0xc7, 0xaf, 0xa6, 0x3e],
    [0xe6, 0x40, 0x5, 0xa6, 0xbf, 0xe3, 0x77, 0x79, 0x53, 0xb8, 0xad, 0x6e, 0xf9, 0x3f, 0xf, 0xca,
     0x10, 0x49, 0xb2, 0x4, 0x16, 0x54, 0xf2, 0xa4, 0x11, 0xf7, 0x70, 0x27, 0x99, 0xce, 0xce, 0x2],
    [0x25, 0x9d, 0x3d, 0x6b, 0x1f, 0x4d, 0x87, 0x6d, 0x11, 0x85, 0xe1, 0x12, 0x3a, 0xf6, 0xf5, 0x50,
     0x1a, 0xf0, 0xf6, 0x7c, 0xf1, 0x5b, 0x52, 0x16, 0x25, 0x5b, 0x7b, 0x17, 0x8d, 0x12, 0x5, 0x1d],
    [0x3f, 0x9a, 0x4d, 0x41, 0x1d, 0xa4, 0xef, 0x1b, 0x36, 0xf3, 0x5f, 0xf0, 0xa1, 0x95, 0xae, 0x39,
     0x2a, 0xb2, 0x3f, 0xee, 0x79, 0x67, 0xb7, 0xc4, 0x1b, 0x3, 0xd1, 0x61, 0x3f, 0xc2, 0x92, 0x39],
    [0xfe, 0x4e, 0xf3, 0x28, 0xc6, 0x1a, 0xa3, 0x9c, 0xfd, 0xb2, 0x48, 0x4e, 0xaa, 0x32, 0xa1, 0x51,
     0xb1, 0xfe, 0x3d, 0xfd, 0x1f, 0x96, 0xdd, 0x8c, 0x97, 0x11, 0xfd, 0x86, 0xd6, 0xc5, 0x81, 0x13],
    [0xf5, 0x5d, 0x68, 0x90, 0xe, 0x2d, 0x83, 0x81, 0xec, 0xcb, 0x81, 0x64, 0xcb, 0x99, 0x76, 0xf2,
     0x4b, 0x2d, 0xe0, 0xdd, 0x61, 0xa3, 0x1b, 0x97, 0xce, 0x6e, 0xb2, 0x38, 0x50, 0xd5, 0xe8, 0x19],
    [0xaa, 0xaa, 0x8c, 0x4c, 0xb4, 0xa, 0xac, 0xee, 0x1e, 0x2, 0xdc, 0x65, 0x42, 0x4b, 0x2a, 0x6c,
     0x8e, 0x99, 0xf8, 0x3, 0xb7, 0x2f, 0x79, 0x29, 0xc4, 0x10, 0x1d, 0x7f, 0xae, 0x6b, 0xff, 0x32]]"

text \<open>The subtraction wraps below the first level; every index out of the table panics.\<close>

definition zero_piece_commitment :: "u64 \<Rightarrow> bytes option" where
  "zero_piece_commitment sz =
    (let tz = trailing_zeros sz
     in if tz < 7 \<or> tz - 7 \<ge> length PIECE_COMMS then None else Some (PIECE_COMMS ! (tz - 7)))"

subsection \<open>The lowest bit of a word\<close>

lemma trailing_zeros_bit:
  assumes "w \<noteq> 0"
  shows "trailing_zeros w < 64" "bit w (trailing_zeros w)" "i < trailing_zeros w \<Longrightarrow> \<not> bit w i"
proof -
  let ?xs = "[0..<64::nat]"
  obtain j where j: "bit w j" using assms by (auto simp: bit_eq_iff)
  then have "j \<in> set ?xs" using bit_imp_le_length [OF j] by simp
  then have "takeWhile (\<lambda>i. \<not> bit w i) ?xs \<noteq> ?xs" using j by (metis takeWhile_eq_all_conv)
  then have less: "length (takeWhile (\<lambda>i. \<not> bit w i) ?xs) < length ?xs"
    by (metis length_takeWhile_le le_neq_implies_less takeWhile_eq_take take_all_iff)
  then show "trailing_zeros w < 64" by (simp add: trailing_zeros_def)
  from nth_length_takeWhile [OF less] show "bit w (trailing_zeros w)"
    using less by (simp add: trailing_zeros_def)
  show "\<not> bit w i" if "i < trailing_zeros w"
  proof -
    have "?xs ! i \<in> set (takeWhile (\<lambda>i. \<not> bit w i) ?xs)"
      using that by (metis nth_mem takeWhile_nth trailing_zeros_def)
    moreover have "i < 64" using that \<open>trailing_zeros w < 64\<close> by simp
    ultimately show ?thesis by (auto dest: set_takeWhileD)
  qed
qed

lemma trailing_zeros_unique:
  assumes "bit w k" "\<And>i. i < k \<Longrightarrow> \<not> bit w i"
  shows "trailing_zeros w = k"
proof -
  have "w \<noteq> 0" using assms(1) by auto
  from trailing_zeros_bit [OF this] assms show ?thesis by (metis linorder_neqE_nat)
qed

lemma bit_power_word: "bit ((2 :: u64) ^ k) i \<longleftrightarrow> i = k \<and> k < 64"
  by (auto simp: bit_exp_iff)

lemma trailing_zeros_power: "k < 64 \<Longrightarrow> trailing_zeros (2 ^ k) = k"
  by (rule trailing_zeros_unique) (simp_all add: bit_power_word)

lemma unat_power_word: "k < 64 \<Longrightarrow> unat ((2 :: u64) ^ k) = 2 ^ k"
  using unat_of_nat [where x = "2 ^ k" and 'a = 64] power_strict_increasing [of k 64 "2 :: nat"] by simp

text \<open>A word without bits below \<open>k\<close> is a multiple of \<open>2 ^ k\<close>.\<close>

lemma no_low_bits_dvd:
  assumes "\<And>i. i < k \<Longrightarrow> \<not> bit (w :: u64) i"
  shows "2 ^ k dvd unat w"
proof -
  have "take_bit k (unat w) = 0"
    by (rule bit_eqI) (use assms in \<open>auto simp: bit_take_bit_iff bit_unsigned_iff\<close>)
  then show ?thesis by (simp add: take_bit_eq_0_iff)
qed

lemma clear_bit_sub:
  assumes "bit (w :: u64) k"
  shows "w XOR 2 ^ k = w - 2 ^ k" "unat (w XOR 2 ^ k) = unat w - 2 ^ k" "2 ^ k \<le> unat w"
proof -
  have k: "k < 64" using bit_imp_le_length [OF assms] by simp
  let ?v = "w XOR 2 ^ k"
  have "?v OR 2 ^ k = w" by (rule bit_eqI) (use assms in \<open>auto simp: bit_xor_iff bit_or_iff bit_power_word\<close>)
  moreover have "?v AND 2 ^ k = 0" by (rule bit_eqI) (use assms in \<open>auto simp: bit_xor_iff bit_and_iff bit_power_word\<close>)
  ultimately have sum: "?v + 2 ^ k = w" by (simp add: disjunctive_add_eq_or)
  then show "?v = w - 2 ^ k" by (simp add: eq_diff_eq)
  have "odd (unat w div 2 ^ k)" using assms by (simp add: bit_unsigned_iff flip: bit_iff_odd)
  then have "unat w div 2 ^ k \<noteq> 0" by (intro notI) simp
  then show ge: "2 ^ k \<le> unat w" by (simp add: div_eq_0_iff)
  then have le: "(2 :: u64) ^ k \<le> w" using unat_power_word [OF k] by (simp add: word_le_nat_alt)
  show "unat ?v = unat w - 2 ^ k" using le \<open>?v = w - 2 ^ k\<close> unat_power_word [OF k] by (simp add: unat_sub)
qed

lemma count_ones_zero: "count_ones w = 0 \<longleftrightarrow> w = 0"
  by (auto simp: count_ones_def filter_empty_conv intro!: bit_eqI dest: bit_imp_le_length)

lemma count_ones_clear:
  assumes "bit w k"
  shows "count_ones w = Suc (count_ones (w XOR 2 ^ k))"
proof -
  have k: "k < 64" using bit_imp_le_length [OF assms] by simp
  have "{i. i < 64 \<and> bit w i} = insert k {i. i < 64 \<and> bit (w XOR 2 ^ k) i}"
    using assms k by (auto simp: bit_xor_iff bit_power_word)
  moreover have "k \<notin> {i. i < 64 \<and> bit (w XOR 2 ^ k) i}" using assms k by (simp add: bit_xor_iff bit_power_word)
  ultimately show ?thesis by (simp add: count_ones_card)
qed

lemma count_ones_one: "count_ones w = 1 \<longleftrightarrow> (\<exists>k<64. w = 2 ^ k)"
proof
  assume one: "count_ones w = 1"
  then have "w \<noteq> 0" using count_ones_zero [of w] by linarith
  note tz = trailing_zeros_bit [OF this]
  have "count_ones (w XOR 2 ^ trailing_zeros w) = 0" using count_ones_clear [OF tz(2)] one by simp
  then have "w = 2 ^ trailing_zeros w" using clear_bit_sub(1) [OF tz(2)] by (simp add: count_ones_zero)
  then show "\<exists>k<64. w = 2 ^ k" using tz(1) by blast
next
  assume "\<exists>k<64. w = 2 ^ k"
  then obtain k where k: "k < 64" "w = 2 ^ k" by blast
  then have "bit w k" by (simp add: bit_power_word)
  from count_ones_clear [OF this] k show "count_ones w = 1" by (simp add: count_ones_zero)
qed

subsection \<open>Valid piece sizes\<close>

lemma bit_unat: "bit (w :: u64) i \<longleftrightarrow> odd (unat w div 2 ^ i)"
  using bit_imp_le_length [of w i] by (auto simp: bit_unsigned_iff simp flip: bit_iff_odd)

lemma trailing_zeros_multiple:
  assumes "unat w = c * 2 ^ j" "odd c"
  shows "trailing_zeros w = j"
proof (rule trailing_zeros_unique)
  show "bit w j" using assms by (simp add: bit_unat)
  show "\<not> bit w i" if "i < j" for i
  proof -
    have "(2 :: nat) ^ j = 2 ^ (j - i) * 2 ^ i" using that by (simp flip: power_add)
    then have "unat w div 2 ^ i = c * 2 ^ (j - i)" using assms by simp
    then show ?thesis using that by (simp add: bit_unat)
  qed
qed

lemma word_power_ge: "k < 64 \<Longrightarrow> (128 :: u64) \<le> 2 ^ k \<longleftrightarrow> 7 \<le> k"
  using power_increasing_iff [of "2 :: nat" 7 k] by (simp add: word_le_nat_alt unat_power_word)

lemma valid_padded_iff: "validate_padded p = Inr () \<longleftrightarrow> (\<exists>k. 7 \<le> k \<and> k < 64 \<and> p = 2 ^ k)"
proof -
  have "validate_padded p = Inr () \<longleftrightarrow> 128 \<le> p \<and> count_ones p = 1"
    by (auto simp: validate_padded_def not_less)
  also have "\<dots> \<longleftrightarrow> (\<exists>k. 7 \<le> k \<and> k < 64 \<and> p = 2 ^ k)"
    unfolding count_ones_one using word_power_ge by auto
  finally show ?thesis .
qed

lemma unat_unpadded: "unat (unpadded p) = unat p - unat p div 128"
  by (simp add: unpadded_def unat_sub word_le_nat_alt unat_div)

lemma unpadded_power:
  assumes "7 \<le> k" "k < 64"
  shows "unat (unpadded (2 ^ k)) = 127 * 2 ^ (k - 7)"
proof -
  have "(2 :: nat) ^ k = 128 * 2 ^ (k - 7)" using assms power_add [of "2 :: nat" 7 "k - 7"] by simp
  then show ?thesis using assms by (simp add: unat_unpadded unat_power_word)
qed

lemma valid_unpadded_iff: "validate_unpadded u = Inr () \<longleftrightarrow> (\<exists>j. j < 58 \<and> unat u = 127 * 2 ^ j)"
proof
  assume v: "validate_unpadded u = Inr ()"
  let ?j = "trailing_zeros u"
  have u: "u \<noteq> 0" "drop_bit ?j u = 127" using v by (auto simp: validate_unpadded_def split: if_splits)
  have "unat u div 2 ^ ?j = 127" using arg_cong [OF u(2), of unat] by (simp add: unat_drop_bit_eq) (simp add: drop_bit_eq_div)
  moreover have "2 ^ ?j dvd unat u" using trailing_zeros_bit(3) [OF u(1)] by (rule no_low_bits_dvd)
  ultimately have eq: "unat u = 127 * 2 ^ ?j" by (metis dvd_div_mult_self)
  have "?j < 58"
  proof (rule ccontr)
    assume "\<not> ?j < 58"
    then have "(2 :: nat) ^ 58 \<le> 2 ^ ?j" by (intro power_increasing) auto
    then show False using eq unat_less_exp [of u] by simp
  qed
  with eq show "\<exists>j. j < 58 \<and> unat u = 127 * 2 ^ j" by blast
next
  assume "\<exists>j. j < 58 \<and> unat u = 127 * 2 ^ j"
  then obtain j where j: "unat u = 127 * 2 ^ j" by blast
  then have tz: "trailing_zeros u = j" by (rule trailing_zeros_multiple) simp
  have "unat (drop_bit j u) = 127" using j by (simp add: unat_drop_bit_eq) (simp add: drop_bit_eq_div)
  then have "drop_bit j u = 127" by (simp add: word_unat_eq_iff)
  moreover have "127 \<le> u" using j by (simp add: word_le_nat_alt)
  ultimately show "validate_unpadded u = Inr ()" by (simp add: validate_unpadded_def tz not_less)
qed

lemma unat_padded: "unat (padded u) = (unat u + unat u div 127) mod 2 ^ 64"
  by (simp add: padded_def unat_word_ariths unat_div mod_add_right_eq)

lemma padded_power:
  assumes "unat u = 127 * 2 ^ j" "j < 57"
  shows "padded u = 2 ^ (j + 7)"
proof -
  have "(2 :: nat) ^ (j + 7) < 2 ^ 64" using assms(2) by (intro power_strict_increasing) auto
  then have "unat (padded u) = 2 ^ (j + 7)" using assms(1) by (simp add: unat_padded power_add)
  also have "\<dots> = unat ((2 :: u64) ^ (j + 7))" using assms(2) by (intro unat_power_word [symmetric]) simp
  finally show ?thesis by (simp add: word_unat_eq_iff)
qed

text \<open>
  The two piece size types agree. The unpadded size of every valid padded size is valid and
  padding it gives the size back; and the other way round for every valid unpadded size but the
  largest, \<open>127 * 2 ^ 57\<close>, whose padded size does not fit into 64 bits: \<open>padded\<close> wraps around to 0,
  which is not a valid size.
\<close>

theorem piece_size_round_trip:
  "(validate_padded p = Inr () \<longrightarrow> validate_unpadded (unpadded p) = Inr () \<and> padded (unpadded p) = p) \<and>
   (validate_unpadded u = Inr () \<and> unat u \<noteq> 127 * 2 ^ 57 \<longrightarrow>
      validate_padded (padded u) = Inr () \<and> unpadded (padded u) = u) \<and>
   (unat u = 127 * 2 ^ 57 \<longrightarrow> validate_unpadded u = Inr () \<and> padded u = 0 \<and> validate_padded (padded u) = Inl ())"
proof (intro conjI impI)
  assume "validate_padded p = Inr ()"
  then obtain k where k: "7 \<le> k" "k < 64" "p = 2 ^ k" by (auto simp: valid_padded_iff)
  note up = unpadded_power [OF k(1,2)]
  show "validate_unpadded (unpadded p) = Inr ()" using k up by (auto simp: valid_unpadded_iff intro: exI [of _ "k - 7"])
  show "padded (unpadded p) = p" using padded_power [OF up] k by simp
next
  assume "validate_unpadded u = Inr () \<and> unat u \<noteq> 127 * 2 ^ 57"
  then obtain j where j: "j < 58" "unat u = 127 * 2 ^ j" "j \<noteq> 57" unfolding valid_unpadded_iff by blast
  then have p: "padded u = 2 ^ (j + 7)" by (intro padded_power) auto
  show "validate_padded (padded u) = Inr ()" using p j by (auto simp: valid_padded_iff intro: exI [of _ "j + 7"])
  have "unat (unpadded (padded u)) = unat u" using p j unpadded_power [of "j + 7"] by simp
  then show "unpadded (padded u) = u" by (simp add: word_unat_eq_iff)
next
  assume u: "unat u = 127 * 2 ^ 57"
  then show "validate_unpadded u = Inr ()" by (auto simp: valid_unpadded_iff intro: exI [of _ 57])
  have "unat (padded u) = 0" using u by (simp add: unat_padded)
  then show p: "padded u = 0" by (simp add: unat_eq_0)
  show "validate_padded (padded u) = Inl ()" by (simp add: p validate_padded_def)
qed

theorem piece_size_round_trip_witness:
  "validate_unpadded (unpadded 2048) = Inr () \<and> padded (unpadded 2048) = 2048 \<and>
   validate_padded (padded 254) = Inr () \<and> unpadded (padded 254) = 254 \<and> padded (127 * 2 ^ 57) = 0"
proof -
  have "validate_padded 2048 = Inr ()" using valid_padded_iff [of 2048] by (auto intro: exI [of _ 11])
  moreover have "validate_unpadded 254 = Inr ()" using valid_unpadded_iff [of 254] by (auto intro: exI [of _ 1])
  ultimately show ?thesis
    using piece_size_round_trip [of 2048 254] piece_size_round_trip [of 2048 "127 * 2 ^ 57"] by simp
qed

subsection \<open>Commitments\<close>

lemmas commitment_defs = validate_filecoin_cid_segments_def commitment_to_cid_def cid_to_commitment_def
  data_commitment_v1_to_cid_def cid_to_data_commitment_v1_def replica_commitment_v1_to_cid_def
  cid_to_replica_commitment_v1_def FIL_COMMITMENT_UNSEALED_def FIL_COMMITMENT_SEALED_def
  POSEIDON_BLS12_381_A1_FC1_def SHA2_256_TRUNC254_PADDED_def

text \<open>
  The data and the replica commitments of 32 bytes are in bijection with their CIDs of version 1, and neither
  kind of CID is taken for the other.
\<close>

lemma data_commitment_iff:
  "cid_to_data_commitment_v1 c = Inr d \<longleftrightarrow> length d = 32 \<and> cid_codec c = FIL_COMMITMENT_UNSEALED \<and>
    mh_code c = SHA2_256_TRUNC254_PADDED \<and> mh_digest c = d"
  by (auto simp: commitment_defs)

lemma replica_commitment_iff:
  "cid_to_replica_commitment_v1 c = Inr d \<longleftrightarrow> length d = 32 \<and> cid_codec c = FIL_COMMITMENT_SEALED \<and>
    mh_code c = POSEIDON_BLS12_381_A1_FC1 \<and> mh_digest c = d"
  by (auto simp: commitment_defs)

lemma commitment_round_trip:
  assumes "length d = 32"
  shows "\<exists>c. data_commitment_v1_to_cid d = Inr c \<and> cid_to_data_commitment_v1 c = Inr d \<and> cid_to_replica_commitment_v1 c = Inl ()"
    "\<exists>c. replica_commitment_v1_to_cid d = Inr c \<and> cid_to_replica_commitment_v1 c = Inr d \<and> cid_to_data_commitment_v1 c = Inl ()"
  using assms by (auto simp: commitment_defs)

subsection \<open>Zero piece commitments\<close>

lemma piece_comms_length: "length PIECE_COMMS = 35" "list_all (\<lambda>c. length c = 32) PIECE_COMMS"
  by (simp_all add: PIECE_COMMS_def)

lemma zero_commitment_power:
  assumes "7 \<le> k" "k < 42"
  obtains c where "zero_piece_commitment (2 ^ k) = Some c" "length c = 32"
proof
  show "zero_piece_commitment (2 ^ k) = Some (PIECE_COMMS ! (k - 7))"
    using assms by (simp add: zero_piece_commitment_def trailing_zeros_power piece_comms_length)
  show "length (PIECE_COMMS ! (k - 7)) = 32"
    using assms piece_comms_length by (auto simp: list_all_length)
qed

lemma low_bits_clear:
  assumes "2 ^ k dvd unat (w :: u64)" "i < k"
  shows "\<not> bit w i"
proof -
  obtain c where c: "unat w = 2 ^ k * c" using assms(1) by blast
  have "(2 :: nat) ^ k = 2 ^ (k - i) * 2 ^ i" using assms(2) by (simp flip: power_add)
  then have "unat w div 2 ^ i = 2 ^ (k - i) * c" using c by (simp add: mult_ac)
  then show ?thesis using assms(2) by (simp add: bit_unat)
qed

end
