(* ===== verification/CallManager.thy ===== *)
theory CallManager
  imports Machine AccessTracker Blocks Limiter Events Sectors
begin

text \<open>
  The state and the non-recursive operations of the call manager:
  \<open>fvm/src/call_manager/default.rs\<close>, \<open>fvm/src/call_manager/mod.rs\<close> and
  \<open>fvm/src/call_manager/backtrace.rs\<close>. The recursive part (\<open>call_actor\<close> and the execution of actor
  code) is in the theory \<open>Vm\<close>. The engine handle is a parameter there. Log output is left out.
\<close>

subsection \<open>Entry points, results, traces\<close>

type_synonym MethodNum = u64

definition METHOD_SEND :: MethodNum where
  "METHOD_SEND = 0"

definition METHOD_CONSTRUCTOR :: MethodNum where
  "METHOD_CONSTRUCTOR = 1"

definition METHOD_UPGRADE :: MethodNum where
  "METHOD_UPGRADE = 932083"

definition NO_DATA_BLOCK_ID :: BlockId where
  "NO_DATA_BLOCK_ID = 0"

datatype Entrypoint = ImplicitConstructor | Invoke MethodNum | Upgrade Cid

datatype FuncName = INVOKE_FUNC_NAME | UPGRADE_FUNC_NAME

fun method_num :: "Entrypoint \<Rightarrow> MethodNum" where
  "method_num ImplicitConstructor = METHOD_CONSTRUCTOR"
| "method_num (Invoke num) = num"
| "method_num (Upgrade _) = METHOD_UPGRADE"

fun func_name :: "Entrypoint \<Rightarrow> FuncName" where
  "func_name ImplicitConstructor = INVOKE_FUNC_NAME"
| "func_name (Invoke _) = INVOKE_FUNC_NAME"
| "func_name (Upgrade _) = UPGRADE_FUNC_NAME"

fun invokes :: "Entrypoint \<Rightarrow> MethodNum \<Rightarrow> bool" where
  "invokes ImplicitConstructor m \<longleftrightarrow> m = METHOD_CONSTRUCTOR"
| "invokes (Invoke num) m \<longleftrightarrow> num = m"
| "invokes (Upgrade _) m = False"

fun is_invoke :: "Entrypoint \<Rightarrow> bool" where
  "is_invoke (Invoke _) = True"
| "is_invoke ImplicitConstructor = False"
| "is_invoke (Upgrade _) = False"

record InvocationResult =
  exit_code :: ExitCode
  ret_value :: "Block option"

definition invocation_default :: InvocationResult where
  "invocation_default = \<lparr>exit_code = OK, ret_value = None\<rparr>"

type_synonym IpldBlock = "u64 \<times> bytes"

definition to_ipld_block :: "Block \<Rightarrow> IpldBlock" where
  "to_ipld_block b = (block_codec b, block_data b)"

datatype ExecutionEvent =
    EventGasCharge GasCharge
  | EventCall ActorID Address MethodNum "IpldBlock option" TokenAmount u64 bool
  | EventCallReturn ExitCode "IpldBlock option"
  | EventCallError ErrorNumber
  | EventInvokeActor ActorID ActorState
  | EventLog string

subsection \<open>Backtraces\<close>

record Frame =
  frame_source :: ActorID
  frame_method :: MethodNum
  frame_code :: ExitCode

datatype Cause = CauseSyscall string string ErrorNumber | CauseFatal

record Backtrace =
  frames :: "Frame list"
  cause :: "Cause option"

definition backtrace_default :: Backtrace where
  "backtrace_default = \<lparr>frames = [], cause = None\<rparr>"

definition backtrace_is_empty :: "Backtrace \<Rightarrow> bool" where
  "backtrace_is_empty b \<longleftrightarrow> frames b = [] \<and> cause b = None"

definition backtrace_clear :: "Backtrace \<Rightarrow> Backtrace" where
  "backtrace_clear b = b\<lparr>cause := None, frames := []\<rparr>"

definition backtrace_begin :: "Cause \<Rightarrow> Backtrace \<Rightarrow> Backtrace" where
  "backtrace_begin c b = b\<lparr>cause := Some c, frames := []\<rparr>"

definition backtrace_set_cause :: "Cause \<Rightarrow> Backtrace \<Rightarrow> Backtrace" where
  "backtrace_set_cause c b = b\<lparr>cause := Some c\<rparr>"

definition backtrace_push_frame :: "Frame \<Rightarrow> Backtrace \<Rightarrow> Backtrace" where
  "backtrace_push_frame f b = b\<lparr>frames := frames b @ [f]\<rparr>"

subsection \<open>The call manager\<close>

record CallManager =
  cm_context :: MachineContext
  cm_builtin_actors :: Manifest
  cm_state_tree :: StateTree
  cm_gas_tracker :: GasTracker
  cm_access_tracker :: StateAccessTracker
  cm_gas_premium :: TokenAmount
  cm_origin :: ActorID
  cm_origin_address :: Address
  cm_nonce :: u64
  cm_num_actors_created :: u64
  cm_call_stack_depth :: u32
  cm_backtrace :: Backtrace
  cm_exec_trace :: "ExecutionEvent list"
  cm_invocation_count :: u64
  cm_limits :: DefaultMemoryLimiter
  cm_events :: EventsAccumulator
  cm_actor_call_stack :: "(ActorID \<times> FuncName) list"

type_synonym 'a cm_op = "(CallManager, ExecutionError, 'a) rsm"

text \<open>The crates and services that the call manager, the kernel and the engine use.\<close>

record vm_env =
  ve_ipld :: ipld_env
  ve_addr :: addr_crates
  enc_address :: "Address \<Rightarrow> bytes"
  enc_upgrade_info :: "Cid \<Rightarrow> bytes"
  events_amt :: "StampedEvent list \<Rightarrow> unit + Cid"
  read_cid :: "bytes \<Rightarrow> (Cid \<times> bytes) option"
  cid_bytes :: "Cid \<Rightarrow> bytes"
  digest :: "SupportedHashes \<Rightarrow> bytes \<Rightarrow> bytes"
  verify_sig :: "SignatureType \<Rightarrow> bytes \<Rightarrow> bytes \<Rightarrow> Address \<Rightarrow> bool option"
  verify_bls :: "bytes \<Rightarrow> bytes list \<Rightarrow> bytes list \<Rightarrow> bool option"
  recover_secp :: "bytes \<Rightarrow> bytes \<Rightarrow> bytes option"
  extern_tipset_cid :: "int \<Rightarrow> Cid option"
  extern_chain_randomness :: "int \<Rightarrow> bytes option"
  extern_beacon_randomness :: "int \<Rightarrow> bytes option"
  engine_preload :: "Cid \<Rightarrow> nat option"
  ve_proofs :: proofs_api
  extern_verify_consensus_fault :: "bytes \<Rightarrow> bytes \<Rightarrow> bytes \<Rightarrow> unit + ConsensusFault option \<times> i64"
  dec_pieces :: "bytes \<Rightarrow> PieceInfo list attempt"
  dec_post :: "bytes \<Rightarrow> WindowPoStVerifyInfo attempt"
  dec_aggregate :: "bytes \<Rightarrow> AggregateSealVerifyProofAndInfos attempt"
  dec_replica :: "bytes \<Rightarrow> ReplicaUpdateInfo attempt"
  dec_seals :: "bytes \<Rightarrow> SealVerifyInfo list attempt"

definition cm_prices :: "CallManager \<Rightarrow> PriceList" where
  "cm_prices s = price_list (network (cm_context s))"

definition cm_new ::
  "MachineContext \<Rightarrow> Manifest \<Rightarrow> StateTree \<Rightarrow> u64 \<Rightarrow> ActorID \<Rightarrow> Address \<Rightarrow> ActorID option \<Rightarrow> Address \<Rightarrow>
   u64 \<Rightarrow> TokenAmount \<Rightarrow> CallManager" where
  "cm_new ctx builtin tree gas_limit origin origin_address receiver receiver_address nonce gas_premium =
    (let limits = limiter_new (cfg_max_memory_bytes (network ctx));
         gas_tracker = tracker_new (gas_new gas_limit) 0 (tracing ctx);
         access = at_new (p_preloaded_actors (price_list (network ctx)));
         access = record_actor_update origin access;
         access = record_lookup_address origin_address access;
         access = (case receiver of Some receiver_id \<Rightarrow> record_actor_read receiver_id access | None \<Rightarrow> access);
         access = record_lookup_address receiver_address access
     in \<lparr>cm_context = ctx, cm_builtin_actors = builtin, cm_state_tree = tree,
         cm_gas_tracker = gas_tracker, cm_access_tracker = access, cm_gas_premium = gas_premium,
         cm_origin = origin, cm_origin_address = origin_address, cm_nonce = nonce,
         cm_num_actors_created = 0, cm_call_stack_depth = 0, cm_backtrace = backtrace_default,
         cm_exec_trace = [], cm_invocation_count = 0, cm_limits = limits,
         cm_events = events_default, cm_actor_call_stack = []\<rparr>)"

subsection \<open>Components of the state\<close>

definition on_gas :: "(GasTracker, ExecutionError, 'a) rsm \<Rightarrow> 'a cm_op" where
  "on_gas = rzoom cm_gas_tracker (\<lambda>g s. s\<lparr>cm_gas_tracker := g\<rparr>)"

definition on_tree :: "(StateTree, ExecutionError, 'a) rsm \<Rightarrow> 'a cm_op" where
  "on_tree = rzoom cm_state_tree (\<lambda>t s. s\<lparr>cm_state_tree := t\<rparr>)"

definition on_access :: "(StateAccessTracker, ExecutionError, 'a) rsm \<Rightarrow> 'a cm_op" where
  "on_access = rzoom cm_access_tracker (\<lambda>t s. s\<lparr>cm_access_tracker := t\<rparr>)"

definition on_events :: "(EventsAccumulator, ExecutionError, 'a) rsm \<Rightarrow> 'a cm_op" where
  "on_events = rzoom cm_events (\<lambda>e s. s\<lparr>cm_events := e\<rparr>)"

definition cm_charge_gas :: "(PriceList \<Rightarrow> GasCharge) \<Rightarrow> unit cm_op" where
  "cm_charge_gas f = rbind (rget cm_prices) (\<lambda>p. on_gas (apply_charge (f p)))"

subsection \<open>Charged access to the state tree\<close>

definition cm_resolve_address :: "vm_env \<Rightarrow> Address \<Rightarrow> ActorID option cm_op" where
  "cm_resolve_address env addr = (case address_id addr of
      Inr i \<Rightarrow> rreturn (Some i)
    | Inl _ \<Rightarrow>
        rbind (rget (\<lambda>s. get_address_lookup_state addr (cm_access_tracker s))) (\<lambda>charged.
        rbind (rwhen (\<not> charged) (cm_charge_gas on_resolve_address)) (\<lambda>_.
        rbind (on_tree (lookup_id (ve_ipld env) addr)) (\<lambda>i.
        rbind (rwhen (i \<noteq> None) (on_access (rmodify (record_lookup_address addr)))) (\<lambda>_.
        rreturn i)))))"

definition cm_get_actor :: "ActorID \<Rightarrow> ActorState option cm_op" where
  "cm_get_actor i =
    rbind (rget (\<lambda>s. get_actor_access_state i (cm_access_tracker s))) (\<lambda>access.
    rbind (rwhen (access = None) (cm_charge_gas on_actor_lookup)) (\<lambda>_.
    rbind (on_tree (get_actor i)) (\<lambda>a.
    rbind (on_access (rmodify (record_actor_read i))) (\<lambda>_.
    rreturn a))))"

text \<open>The charges that \<open>set_actor\<close> and \<open>delete_actor\<close> share.\<close>

definition charge_update :: "ActorID \<Rightarrow> unit cm_op" where
  "charge_update i =
    rbind (rget (\<lambda>s. get_actor_access_state i (cm_access_tracker s))) (\<lambda>access.
    rbind (rwhen (access = None) (cm_charge_gas on_actor_lookup)) (\<lambda>_.
    rwhen (access \<noteq> Some Updated) (cm_charge_gas on_actor_update)))"

definition cm_set_actor :: "ActorID \<Rightarrow> ActorState \<Rightarrow> unit cm_op" where
  "cm_set_actor i a =
    rbind (charge_update i) (\<lambda>_.
    rbind (on_tree (rmodify (set_actor i a))) (\<lambda>_.
    on_access (rmodify (record_actor_update i))))"

definition cm_delete_actor :: "ActorID \<Rightarrow> unit cm_op" where
  "cm_delete_actor i =
    rbind (charge_update i) (\<lambda>_.
    rbind (on_tree (rmodify (delete_actor i))) (\<lambda>_.
    on_access (rmodify (record_actor_update i))))"

definition transfer :: "ActorID \<Rightarrow> ActorID \<Rightarrow> TokenAmount \<Rightarrow> unit cm_op" where
  "transfer from to value =
    (if value < 0 then rthrow (Syscall IllegalArgument)
     else
       rbind (cm_get_actor from) (\<lambda>a.
       rbind (rlift (ok_or (Syscall InsufficientFunds) a)) (\<lambda>from_actor.
       if balance from_actor < value then rthrow (Syscall InsufficientFunds)
       else if from = to then rreturn ()
       else
         rbind (cm_get_actor to) (\<lambda>a.
         rbind (rlift (ok_or (Syscall NotFound) a)) (\<lambda>to_actor.
         rbind (rlift (or_fatal (deduct_funds value from_actor))) (\<lambda>from_actor.
         rbind (rlift (or_fatal (deposit_funds value to_actor))) (\<lambda>to_actor.
         rbind (cm_set_actor from from_actor) (\<lambda>_.
         cm_set_actor to to_actor))))))))"

definition to_be_bytes :: "u64 \<Rightarrow> bytes" where
  "to_be_bytes w = map (\<lambda>i. ucast (drop_bit (8 * i) w)) [7, 6, 5, 4, 3, 2, 1, 0]"

definition next_actor_address :: "vm_env \<Rightarrow> CallManager \<Rightarrow> Address" where
  "next_actor_address env s =
    new_actor (ve_addr env) (enc_address env (cm_origin_address s)
      @ to_be_bytes (cm_nonce s) @ to_be_bytes (cm_num_actors_created s))"

definition cm_create_actor :: "vm_env \<Rightarrow> Cid \<Rightarrow> ActorID \<Rightarrow> Address option \<Rightarrow> unit cm_op" where
  "cm_create_actor env code_id actor_id delegated =
    rbind (rget cm_builtin_actors) (\<lambda>builtin.
    if is_placeholder_actor code_id builtin then rthrow (Syscall Forbidden)
    else
      rbind (cm_get_actor actor_id) (\<lambda>found.
      rbind (case found of
          Some act \<Rightarrow>
            if is_placeholder_actor (code act) builtin
            then
              if delegated_address act = None then rthrow Fatal
              else if delegated_address act \<noteq> delegated then rthrow (Syscall Forbidden)
              else rreturn (act\<lparr>code := code_id\<rparr>)
            else rthrow (Syscall Forbidden)
        | None \<Rightarrow>
            rbind (cm_charge_gas (\<lambda>p. on_create_actor p False)) (\<lambda>_.
            rreturn (new_empty (ve_ipld env) code_id delegated))) (\<lambda>act.
      rbind (cm_set_actor actor_id act) (\<lambda>_.
      rmodify (\<lambda>s. s\<lparr>cm_num_actors_created := cm_num_actors_created s + 1\<rparr>)))))"

definition append_event :: "StampedEvent \<Rightarrow> unit cm_op" where
  "append_event evt = on_events (rmodify (ev_append evt))"

definition cm_trace :: "ExecutionEvent \<Rightarrow> unit cm_op" where
  "cm_trace e s = (case drain_trace (cm_gas_tracker s) of (charges, g) \<Rightarrow>
    (Inr (), s\<lparr>cm_gas_tracker := g,
       cm_exec_trace := cm_exec_trace s @ map EventGasCharge charges @ [e]\<rparr>))"

definition cm_log :: "string \<Rightarrow> unit cm_op" where
  "cm_log msg = cm_trace (EventLog msg)"

definition create_actor_from_send :: "vm_env \<Rightarrow> Address \<Rightarrow> ActorState \<Rightarrow> ActorID cm_op" where
  "create_actor_from_send env addr act =
    rbind (cm_charge_gas (\<lambda>p. on_create_actor p True)) (\<lambda>_.
    rbind (on_tree (register_new_address (ve_ipld env) addr)) (\<lambda>addr_id.
    rbind (on_access (rmodify (record_lookup_address addr))) (\<lambda>_.
    rbind (cm_set_actor addr_id act) (\<lambda>_.
    rreturn addr_id))))"

definition create_placeholder_actor_from_send :: "vm_env \<Rightarrow> Address \<Rightarrow> ActorID cm_op" where
  "create_placeholder_actor_from_send env addr =
    rbind (rget (\<lambda>s. placeholder_code (cm_builtin_actors s))) (\<lambda>code_cid.
    create_actor_from_send env addr (new_empty (ve_ipld env) code_cid (Some addr)))"

subsection \<open>Transactions and stack frames\<close>

definition cm_begin :: "CallManager \<Rightarrow> CallManager" where
  "cm_begin s = s\<lparr>
    cm_state_tree := begin_transaction (cm_state_tree s),
    cm_events := ev_begin_transaction (cm_events s),
    cm_access_tracker := at_begin_transaction (cm_access_tracker s)\<rparr>"

definition cm_end :: "bool \<Rightarrow> unit cm_op" where
  "cm_end revert =
    rbind (on_tree (end_transaction revert)) (\<lambda>_.
    rbind (on_events (ev_end_transaction revert)) (\<lambda>_.
    on_access (at_end_transaction revert)))"

text \<open>Whether the result of a call makes \<open>with_transaction\<close> revert.\<close>

definition call_failed :: "InvocationResult kresult \<Rightarrow> bool" where
  "call_failed res = (case res of Inr v \<Rightarrow> \<not> is_success (exit_code v) | Inl _ \<Rightarrow> True)"

definition with_transaction :: "InvocationResult cm_op \<Rightarrow> InvocationResult cm_op" where
  "with_transaction f s =
    (case f (cm_begin s) of (res, s1) \<Rightarrow>
      let revert = call_failed res
      in rbind (cm_end revert) (\<lambda>_. rlift res) s1)"

definition with_stack_frame :: "'a cm_op \<Rightarrow> 'a cm_op" where
  "with_stack_frame f s =
    (if cm_call_stack_depth s \<ge> max_call_depth (network (cm_context s))
     then (Inl (Syscall LimitExceeded), s)
     else
       case limiter_with_stack_frame cm_limits (\<lambda>u s. s\<lparr>cm_limits := u (cm_limits s)\<rparr>) f
              (s\<lparr>cm_call_stack_depth := cm_call_stack_depth s + 1\<rparr>) of
         (res, s1) \<Rightarrow> (res, s1\<lparr>cm_call_stack_depth := cm_call_stack_depth s1 - 1\<rparr>))"

subsection \<open>Finishing\<close>

record FinishRet =
  fin_gas_used :: u64
  fin_backtrace :: Backtrace
  fin_exec_trace :: "ExecutionEvent list"
  fin_events :: "StampedEvent list"
  fin_events_root :: "Cid option"

definition cm_finish :: "vm_env \<Rightarrow> CallManager \<Rightarrow> FinishRet kresult \<times> StateTree" where
  "cm_finish env s =
    (let gas_used = round_up (gt_used (cm_gas_tracker s));
         exec_trace = (if tracing (cm_context s)
           then cm_exec_trace s @ map EventGasCharge (fst (drain_trace (cm_gas_tracker s)))
           else cm_exec_trace s)
     in case ev_finish (events_amt env) (cm_events s) of
          Inl e \<Rightarrow> (Inl e, cm_state_tree s)
        | Inr ev \<Rightarrow> (Inr \<lparr>fin_gas_used = gas_used, fin_backtrace = cm_backtrace s,
            fin_exec_trace = exec_trace, fin_events = events_list ev, fin_events_root = events_root ev\<rparr>,
            cm_state_tree s))"

end
