(* ===== verification/Supply.thy ===== *)
theory Supply
  imports StateTree
begin

text \<open>
  The token supply of a state tree: the sum of all balances a caller can see. Actor ids are 64-bit
  words, so the sum is finite. \<open>funds_ok v v'\<close> says that no tokens appear between two views: if all
  balances of \<open>v\<close> are non-negative then so are those of \<open>v'\<close>, and the supply has not grown. (It may
  shrink: deleting an actor destroys its balance.)
\<close>

definition view_balance :: "ActorMap \<Rightarrow> ActorID \<Rightarrow> TokenAmount" where
  "view_balance v i = (case v i of Inr (Some a) \<Rightarrow> balance a | _ \<Rightarrow> 0)"

definition total_supply :: "ActorMap \<Rightarrow> TokenAmount" where
  "total_supply v = (\<Sum>i \<in> UNIV. view_balance v i)"

definition balances_ok :: "ActorMap \<Rightarrow> bool" where
  "balances_ok v \<longleftrightarrow> (\<forall>i. 0 \<le> view_balance v i)"

definition funds_ok :: "ActorMap \<Rightarrow> ActorMap \<Rightarrow> bool" where
  "funds_ok v v' \<longleftrightarrow> (balances_ok v \<longrightarrow> balances_ok v' \<and> total_supply v' \<le> total_supply v)"

lemma funds_ok_refl [simp]: "funds_ok v v"
  by (simp add: funds_ok_def)

lemma funds_ok_trans: "funds_ok u v \<Longrightarrow> funds_ok v w \<Longrightarrow> funds_ok u w"
  by (auto simp: funds_ok_def)

lemma view_balance_upd [simp]:
  "view_balance (v(i := x)) j = (if j = i then (case x of Inr (Some a) \<Rightarrow> balance a | _ \<Rightarrow> 0) else view_balance v j)"
  by (simp add: view_balance_def)

lemma total_supply_upd:
  "total_supply (v(i := x)) = total_supply v - view_balance v i + view_balance (v(i := x)) i"
proof -
  have "total_supply w = view_balance w i + (\<Sum>j \<in> UNIV - {i}. view_balance w j)" for w
    unfolding total_supply_def by (rule sum.remove) simp_all
  moreover have "(\<Sum>j \<in> UNIV - {i}. view_balance (v(i := x)) j) = (\<Sum>j \<in> UNIV - {i}. view_balance v j)"
    by (rule sum.cong) simp_all
  ultimately show ?thesis by (metis add.commute add_diff_cancel_left')
qed

text \<open>Replacing one actor: its balance may not grow and must stay non-negative.\<close>

lemma funds_ok_upd:
  assumes "balances_ok v \<Longrightarrow> 0 \<le> view_balance (v(i := x)) i \<and> view_balance (v(i := x)) i \<le> view_balance v i"
  shows "funds_ok v (v(i := x))"
  using assms by (auto simp: funds_ok_def balances_ok_def total_supply_upd)

lemma funds_ok_set:
  "0 \<le> balance a \<and> balance a \<le> view_balance v i \<or> balance a = view_balance v i \<or> balance a = 0
    \<Longrightarrow> funds_ok v (v(i := Inr (Some a)))"
  by (rule funds_ok_upd) (auto simp: balances_ok_def)

lemma funds_ok_delete: "funds_ok v (v(i := Inr None))"
  by (rule funds_ok_upd) (simp add: balances_ok_def)

subsection \<open>Address resolution and registration\<close>

lemma init_load_view: "snd (init_load env s) = snd (get_actor INIT_ACTOR_ID s)"
  by (cases "get_actor INIT_ACTOR_ID s")
    (auto simp: init_load_def rsm_defs or_fatal_def ok_or_def split: sum.splits option.splits)

lemma init_load_actor:
  assumes "init_load env s = (Inr (st, act), s1)"
  shows "st_view s INIT_ACTOR_ID = Inr (Some act)"
proof -
  obtain r s0 where g: "get_actor INIT_ACTOR_ID s = (r, s0)" by (cases "get_actor INIT_ACTOR_ID s")
  then have "r = Inr (Some act)"
    using assms by (simp add: init_load_def rsm_defs ok_or_def split: sum.splits option.splits)
  with get_actor_cases(1) [OF g] show ?thesis by (simp add: or_fatal_def split: sum.splits)
qed

lemma lookup_id_view: "st_view (snd (lookup_id env addr s)) = st_view s"
proof -
  have "st_view (snd (init_load env s)) = st_view s" by (simp add: init_load_view)
  then show ?thesis
    by (cases "init_load env s")
      (auto simp: lookup_id_def rsm_defs split: Payload.splits option.splits sum.splits prod.splits)
qed

lemma register_new_address_funds: "funds_ok (st_view s) (st_view (snd (register_new_address env addr s)))"
proof -
  obtain r s1 where load: "init_load env s = (r, s1)" by (cases "init_load env s")
  have v1: "st_view s1 = st_view s" using init_load_view [of env s] load by (metis get_actor_view snd_conv)
  show ?thesis
  proof (cases r)
    case (Inl e)
    then show ?thesis using load v1 by (simp add: register_new_address_def rsm_defs)
  next
    case (Inr p)
    obtain st act where p: "p = (st, act)" by (cases p)
    have act: "view_balance (st_view s) INIT_ACTOR_ID = balance act"
      using init_load_actor [of env s st act s1] load Inr p by (simp add: view_balance_def)
    have "funds_ok (st_view s) ((st_view s)(INIT_ACTOR_ID := Inr (Some (act\<lparr>state := c\<rparr>))))" for c
      by (rule funds_ok_set) (simp add: act)
    then show ?thesis using load v1 Inr p
      by (auto simp: register_new_address_def rsm_defs split: prod.splits sum.splits)
  qed
qed

end
