(* ===== verification/CallContracts.thy ===== *)
theory CallContracts
  imports CallManager Supply
begin

text \<open>
  What the operations of the call manager do to its state. \<open>cm_base\<close> collects what every run
  keeps: the fixed fields, the call depth and the call stack; the gas used grows within its limit;
  the changes of the three transactional components can be undone. \<open>evolves\<close> adds that no tokens
  appear; \<open>frozen\<close> adds that no actor changes and no event is emitted.

  The locale \<open>cm_relation\<close> is the contract such a relation has to satisfy for the operations that
  only read the state; \<open>call_relation\<close> extends it by the contract of the writing operations, where
  \<open>writes\<close> says whether they are covered at all. The lemmas about operations, and later about whole
  calls, are proved in these locales once and are used for both relations.
\<close>

definition cm_view :: "CallManager \<Rightarrow> ActorMap" where
  "cm_view s = st_view (cm_state_tree s)"

definition limits_kept :: "DefaultMemoryLimiter \<Rightarrow> DefaultMemoryLimiter \<Rightarrow> bool" where
  "limits_kept l l' \<longleftrightarrow> max_memory_bytes l' = max_memory_bytes l \<and> (limiter_inv l \<longrightarrow> limiter_inv l')"

definition cm_fixed :: "CallManager \<Rightarrow> CallManager \<Rightarrow> bool" where
  "cm_fixed s s' \<longleftrightarrow>
    cm_context s' = cm_context s \<and> cm_builtin_actors s' = cm_builtin_actors s \<and>
    cm_gas_premium s' = cm_gas_premium s \<and> cm_origin s' = cm_origin s \<and>
    cm_origin_address s' = cm_origin_address s \<and> cm_nonce s' = cm_nonce s \<and>
    cm_call_stack_depth s' = cm_call_stack_depth s \<and> cm_actor_call_stack s' = cm_actor_call_stack s"

definition cm_base :: "CallManager \<Rightarrow> CallManager \<Rightarrow> bool" where
  "cm_base s s' \<longleftrightarrow> cm_fixed s s' \<and>
    tracker_evolves (cm_gas_tracker s) (cm_gas_tracker s') \<and>
    st_within (cm_state_tree s) (cm_state_tree s') \<and>
    at_within (cm_access_tracker s) (cm_access_tracker s') \<and>
    ev_within (cm_events s) (cm_events s') \<and>
    limits_kept (cm_limits s) (cm_limits s')"

definition evolves :: "CallManager \<Rightarrow> CallManager \<Rightarrow> bool" where
  "evolves s s' \<longleftrightarrow> cm_base s s' \<and> funds_ok (cm_view s) (cm_view s')"

definition frozen :: "CallManager \<Rightarrow> CallManager \<Rightarrow> bool" where
  "frozen s s' \<longleftrightarrow> cm_base s s' \<and> cm_view s' = cm_view s \<and> ev_events (cm_events s') = ev_events (cm_events s)"

lemma cm_base_refl [simp]: "cm_base s s"
  by (simp add: cm_base_def cm_fixed_def tracker.R_refl st.R_refl at.R_refl ev.R_refl limits_kept_def)

lemma cm_base_trans:
  assumes "cm_base s t" and "cm_base t u"
  shows "cm_base s u"
  unfolding cm_base_def
proof (intro conjI)
  note st = assms(1) [unfolded cm_base_def] and tu = assms(2) [unfolded cm_base_def]
  show "cm_fixed s u" using st tu by (simp add: cm_fixed_def)
  show "tracker_evolves (cm_gas_tracker s) (cm_gas_tracker u)" using st tu by (blast intro: tracker.R_trans)
  show "st_within (cm_state_tree s) (cm_state_tree u)" using st tu by (blast intro: st.R_trans)
  show "at_within (cm_access_tracker s) (cm_access_tracker u)" using st tu by (blast intro: at.R_trans)
  show "ev_within (cm_events s) (cm_events u)" using st tu by (blast intro: ev.R_trans)
  show "limits_kept (cm_limits s) (cm_limits u)" using st tu by (simp add: limits_kept_def)
qed

subsection \<open>Operations that read\<close>

locale cm_relation = step_preorder R
  for R :: "CallManager \<Rightarrow> CallManager \<Rightarrow> bool" +
  assumes R_gas: "tracker_evolves (cm_gas_tracker s) g \<Longrightarrow> R s (s\<lparr>cm_gas_tracker := g\<rparr>)"
    and R_tree: "st_within (cm_state_tree s) t \<Longrightarrow> st_view t = cm_view s \<Longrightarrow> R s (s\<lparr>cm_state_tree := t\<rparr>)"
    and R_access: "at_within (cm_access_tracker s) a \<Longrightarrow> R s (s\<lparr>cm_access_tracker := a\<rparr>)"
    and R_limits: "limits_kept (cm_limits s) l \<Longrightarrow> R s (s\<lparr>cm_limits := l\<rparr>)"
    and R_trace: "R s (s\<lparr>cm_exec_trace := tr\<rparr>)"
    and R_backtrace: "R s (s\<lparr>cm_backtrace := b\<rparr>)"
    and R_invocations: "R s (s\<lparr>cm_invocation_count := n\<rparr>)"
    and R_base: "R s s' \<Longrightarrow> cm_base s s'"
begin

lemma keeps_on_gas: "keeps tracker_evolves m \<Longrightarrow> keeps R (on_gas m)"
  by (rule keepsI) (auto simp: on_gas_def rzoom_def split: prod.splits intro: R_gas dest: keepsD)

lemma keeps_apply_charge: "keeps R (on_gas (apply_charge c))"
  by (rule keeps_on_gas) (simp add: keeps_def apply_charge_evolves)

lemma keeps_charge: "keeps R (cm_charge_gas f)"
  unfolding cm_charge_gas_def by (intro keeps_rules keeps_apply_charge)

lemma keeps_on_tree:
  "keeps st_within m \<Longrightarrow> (\<And>t. st_view (snd (m t)) = st_view t) \<Longrightarrow> keeps R (on_tree m)"
proof (rule keepsI)
  fix s r s'
  assume m: "keeps st_within m" and v: "\<And>t. st_view (snd (m t)) = st_view t" and run: "on_tree m s = (r, s')"
  obtain r' t where mt: "m (cm_state_tree s) = (r', t)" by (cases "m (cm_state_tree s)")
  then have "s' = s\<lparr>cm_state_tree := t\<rparr>" using run by (simp add: on_tree_def rzoom_def)
  with keepsD [OF m mt] v [of "cm_state_tree s"] mt show "R s s'" by (auto simp: cm_view_def intro: R_tree)
qed

lemma keeps_on_access: "(\<And>a. at_within a (f a)) \<Longrightarrow> keeps R (on_access (rmodify f))"
  by (rule keepsI) (auto simp: on_access_def rzoom_def rmodify_def intro: R_access)

lemma keeps_record:
  "keeps R (on_access (rmodify (record_actor_read i)))"
  "keeps R (on_access (rmodify (record_actor_update i)))"
  "keeps R (on_access (rmodify (record_lookup_address addr)))"
  by (rule keeps_on_access, rule at_op_within, rule at_op.intros)+

lemma keeps_tree_get: "keeps R (on_tree (get_actor i))"
  by (rule keeps_on_tree [OF keeps_get_actor]) simp

lemma keeps_tree_lookup: "keeps R (on_tree (lookup_id env addr))"
  by (rule keeps_on_tree [OF keeps_lookup_id]) (rule lookup_id_view)

lemmas read_rules = keeps_rules keeps_charge keeps_record keeps_tree_get keeps_tree_lookup

lemma keeps_resolve_address: "keeps R (cm_resolve_address env addr)"
  unfolding cm_resolve_address_def by (intro read_rules)

lemma keeps_get_actor_charged: "keeps R (cm_get_actor i)"
  unfolding cm_get_actor_def by (intro read_rules)

lemma keeps_charge_update: "keeps R (charge_update i)"
  unfolding charge_update_def by (intro read_rules)

lemma keeps_trace: "keeps R (cm_trace e)"
proof (rule keepsI)
  fix s r s'
  assume "cm_trace e s = (r, s')"
  then obtain tr where s': "s' = s\<lparr>cm_gas_tracker := snd (drain_trace (cm_gas_tracker s)), cm_exec_trace := tr\<rparr>"
    by (auto simp: cm_trace_def split: prod.splits)
  show "R s s'" unfolding s' by (rule R_trans [OF R_gas [OF drain_trace_evolves] R_trace])
qed

lemmas call_rules = read_rules keeps_resolve_address keeps_get_actor_charged keeps_charge_update keeps_trace

end

lemma cm_base_fields:
  "tracker_evolves (cm_gas_tracker s) g \<Longrightarrow> cm_base s (s\<lparr>cm_gas_tracker := g\<rparr>)"
  "st_within (cm_state_tree s) t \<Longrightarrow> cm_base s (s\<lparr>cm_state_tree := t\<rparr>)"
  "at_within (cm_access_tracker s) a \<Longrightarrow> cm_base s (s\<lparr>cm_access_tracker := a\<rparr>)"
  "ev_within (cm_events s) e \<Longrightarrow> cm_base s (s\<lparr>cm_events := e\<rparr>)"
  "limits_kept (cm_limits s) l \<Longrightarrow> cm_base s (s\<lparr>cm_limits := l\<rparr>)"
  "cm_base s (s\<lparr>cm_exec_trace := tr\<rparr>)" "cm_base s (s\<lparr>cm_backtrace := b\<rparr>)"
  "cm_base s (s\<lparr>cm_invocation_count := n\<rparr>)" "cm_base s (s\<lparr>cm_num_actors_created := n\<rparr>)"
  by (simp_all add: cm_base_def cm_fixed_def tracker.R_refl st.R_refl at.R_refl ev.R_refl limits_kept_def)

lemma cm_view_fields [simp]:
  "cm_view (s\<lparr>cm_gas_tracker := g\<rparr>) = cm_view s" "cm_view (s\<lparr>cm_access_tracker := a\<rparr>) = cm_view s"
  "cm_view (s\<lparr>cm_limits := l\<rparr>) = cm_view s" "cm_view (s\<lparr>cm_exec_trace := tr\<rparr>) = cm_view s"
  "cm_view (s\<lparr>cm_backtrace := b\<rparr>) = cm_view s" "cm_view (s\<lparr>cm_invocation_count := n\<rparr>) = cm_view s"
  "cm_view (s\<lparr>cm_events := e\<rparr>) = cm_view s" "cm_view (s\<lparr>cm_num_actors_created := n\<rparr>) = cm_view s"
  "cm_view (s\<lparr>cm_call_stack_depth := d\<rparr>) = cm_view s" "cm_view (s\<lparr>cm_actor_call_stack := st\<rparr>) = cm_view s"
  "cm_view (s\<lparr>cm_state_tree := t\<rparr>) = st_view t"
  by (simp_all add: cm_view_def)

interpretation fr: cm_relation frozen
  by unfold_locales (auto simp: frozen_def cm_base_fields intro: cm_base_trans)

interpretation ev_rel: cm_relation evolves
  by unfold_locales (auto simp: evolves_def cm_base_fields intro: cm_base_trans funds_ok_trans)

lemma frozen_evolves: "frozen s s' \<Longrightarrow> evolves s s'"
  by (simp add: frozen_def evolves_def)

subsection \<open>Reading and writing one actor\<close>

lemma cm_get_actor_cases:
  assumes "cm_get_actor i s = (r, s')"
  shows "frozen s s'" and "r = Inr a \<Longrightarrow> cm_view s i = Inr a"
proof -
  show "frozen s s'" using fr.keeps_get_actor_charged assms by (rule keepsD)
  assume r: "r = Inr a"
  let ?charge = "rwhen (get_actor_access_state i (cm_access_tracker s) = None) (cm_charge_gas on_actor_lookup)"
  obtain s1 s2 where c: "?charge s = (Inr (), s1)" and g: "on_tree (get_actor i) s1 = (Inr a, s2)"
    using assms [unfolded r cm_get_actor_def]
    by (auto simp: rget_def rreturn_def elim!: rbind_Inr)
  have "frozen s s1" using c by (rule keepsD [rotated]) (intro fr.read_rules)
  then have v: "cm_view s1 = cm_view s" by (simp add: frozen_def)
  obtain t where "get_actor i (cm_state_tree s1) = (Inr a, t)"
    using g by (cases "get_actor i (cm_state_tree s1)") (simp add: on_tree_def rzoom_def)
  from get_actor_cases(1) [OF this] show "cm_view s i = Inr a"
    by (simp add: v [symmetric]) (simp add: cm_view_def or_fatal_def split: sum.splits)
qed

lemma cm_write_cases:
  assumes run: "rbind (charge_update i) (\<lambda>_. rbind (on_tree (rmodify f)) (\<lambda>_.
      on_access (rmodify (record_actor_update i)))) s = (r, s')"
    and within: "\<And>t. st_within t (f t)"
  obtains (failed) e where "r = Inl e" and "frozen s s'"
    | (ok) s1 where "r = Inr ()" and "frozen s s1" and "cm_base s s'" and "cm_view s' = st_view (f (cm_state_tree s1))"
      and "ev_events (cm_events s') = ev_events (cm_events s)"
  using run
proof (cases rule: rbind_cases)
  case (err e)
  then show thesis using failed keepsD [OF fr.keeps_charge_update] by blast
next
  case (ok u s1)
  have fr: "frozen s s1" using keepsD [OF fr.keeps_charge_update] ok(1) by blast
  let ?s2 = "s1\<lparr>cm_state_tree := f (cm_state_tree s1)\<rparr>"
  have s': "r = Inr ()" "s' = ?s2\<lparr>cm_access_tracker := record_actor_update i (cm_access_tracker s1)\<rparr>"
    using ok(2) by (simp_all add: rbind_def on_tree_def on_access_def rzoom_def rmodify_def)
  have "cm_base s1 ?s2" by (rule cm_base_fields(2) [OF within])
  moreover have "cm_base ?s2 s'" unfolding s'
    by (rule cm_base_fields(3)) (simp add: at_op_within at_op.op_update)
  ultimately have "cm_base s s'" using fr by (meson frozen_def cm_base_trans)
  with fr s' show thesis by (intro that(2) [of s1]) (simp_all add: frozen_def)
qed

lemma cm_set_actor_cases:
  assumes "cm_set_actor i a s = (r, s')"
  obtains (failed) e where "r = Inl e" and "frozen s s'"
    | (ok) "r = Inr ()" and "cm_base s s'" and "cm_view s' = (cm_view s)(i := Inr (Some a))"
      and "ev_events (cm_events s') = ev_events (cm_events s)"
  using assms unfolding cm_set_actor_def
  by (rule cm_write_cases [OF _ within_set_actor]) (auto simp: frozen_def cm_view_def)

lemma cm_delete_actor_cases:
  assumes "cm_delete_actor i s = (r, s')"
  obtains (failed) e where "r = Inl e" and "frozen s s'"
    | (ok) "r = Inr ()" and "cm_base s s'" and "cm_view s' = (cm_view s)(i := Inr None)"
      and "ev_events (cm_events s') = ev_events (cm_events s)"
  using assms unfolding cm_delete_actor_def
  by (rule cm_write_cases [OF _ within_delete_actor]) (auto simp: frozen_def cm_view_def)

lemma set_actor_evolves:
  assumes "cm_set_actor i a s = (r, s')"
    and "0 \<le> balance a \<and> balance a \<le> view_balance (cm_view s) i \<or>
      balance a = view_balance (cm_view s) i \<or> balance a = 0"
  shows "evolves s s'"
  using assms(1)
proof (cases rule: cm_set_actor_cases)
  case ok
  then show ?thesis using funds_ok_set [OF assms(2)] by (simp add: evolves_def)
qed (rule frozen_evolves)

lemma delete_actor_evolves: "keeps evolves (cm_delete_actor i)"
proof (rule keepsI)
  fix s r s'
  assume "cm_delete_actor i s = (r, s')"
  then show "evolves s s'"
  proof (cases rule: cm_delete_actor_cases)
    case ok
    then show ?thesis by (simp add: evolves_def funds_ok_delete)
  qed (rule frozen_evolves)
qed

subsection \<open>Transfers\<close>

lemma get_some_cases:
  assumes "rbind (cm_get_actor i) (\<lambda>a. rbind (rlift (ok_or err a)) f) s = (r, s')"
  obtains (failed) e where "r = Inl e" and "frozen s s'"
    | (ok) a s1 where "cm_view s i = Inr (Some a)" and "frozen s s1" and "f a s1 = (r, s')"
  using assms
proof (cases rule: rbind_cases)
  case (err e)
  then show thesis using failed cm_get_actor_cases(1) by blast
next
  case (ok a s1)
  note get = cm_get_actor_cases [OF ok(1)]
  show thesis
  proof (cases a)
    case None
    with ok(2) get(1) failed show thesis by (auto simp: rsm_defs)
  next
    case (Some b)
    with ok(2) get that(2) show thesis by (simp add: rsm_defs)
  qed
qed

lemma transfer_cases:
  assumes "transfer from to value s = (r, s')"
  obtains (failed) e where "r = Inl e" and "frozen s s'"
    | (self) "r = Inr ()" and "frozen s s'" and "from = to"
    | (half) a e where "r = Inl e" and "cm_base s s'" and "cm_view s from = Inr (Some a)"
        and "0 \<le> value" and "value \<le> balance a"
        and "cm_view s' = (cm_view s)(from := Inr (Some (a\<lparr>balance := balance a - value\<rparr>)))"
    | (moved) a b where "r = Inr ()" and "cm_base s s'" and "cm_view s from = Inr (Some a)"
        and "cm_view s to = Inr (Some b)" and "from \<noteq> to" and "0 \<le> value" and "value \<le> balance a"
        and "cm_view s' = (cm_view s)(from := Inr (Some (a\<lparr>balance := balance a - value\<rparr>)),
               to := Inr (Some (b\<lparr>balance := balance b + value\<rparr>)))"
proof (cases "value < 0")
  case True
  with assms show thesis
    by (intro that(1) [of "Syscall IllegalArgument"]) (auto simp: transfer_def rthrow_def fr.R_refl)
next
  case False
  from assms [unfolded transfer_def if_not_P [OF False]] show thesis
  proof (cases rule: get_some_cases)
    case (failed e)
    then show thesis by (rule that(1))
  next
    case (ok a s1)
    show thesis
    proof (cases "balance a < value \<or> from = to")
      case True
      with ok that(1,2) show thesis by (auto simp: rthrow_def rreturn_def split: if_splits)
    next
      case ne: False
      let ?a = "a\<lparr>balance := balance a - value\<rparr>"
      have v1: "cm_view s1 = cm_view s" using ok(2) by (simp add: frozen_def)
      from ok(3) ne have "rbind (cm_get_actor to) (\<lambda>b. rbind (rlift (ok_or (Syscall NotFound) b)) (\<lambda>to_actor.
          rbind (rlift (or_fatal (deduct_funds value a))) (\<lambda>from_actor.
          rbind (rlift (or_fatal (deposit_funds value to_actor))) (\<lambda>to_actor.
          rbind (cm_set_actor from from_actor) (\<lambda>_. cm_set_actor to to_actor))))) s1 = (r, s')"
        by simp
      then show thesis
      proof (cases rule: get_some_cases)
        case (failed e)
        with ok(2) show thesis by (intro that(1)) (auto intro: fr.R_trans)
      next
        case to: (ok b s2)
        let ?b = "b\<lparr>balance := balance b + value\<rparr>"
        have s2: "frozen s s2" using ok(2) to(2) by (rule fr.R_trans)
        have "rbind (cm_set_actor from ?a) (\<lambda>_. cm_set_actor to ?b) s2 = (r, s')"
          using to(3) False ne by (simp add: deduct_funds_def deposit_funds_def rsm_defs)
        then show thesis
        proof (cases rule: rbind_cases)
          case (err e)
          show thesis using err(1)
          proof (cases rule: cm_set_actor_cases)
            case failed
            with s2 err(2) show thesis by (intro that(1)) (auto intro: fr.R_trans)
          qed simp
        next
          case set1: (ok u s3)
          have v3: "cm_base s2 s3" "cm_view s3 = (cm_view s2)(from := Inr (Some ?a))"
            using set1(1) by (auto elim: cm_set_actor_cases)
          have b3: "cm_base s s3" "cm_view s3 = (cm_view s)(from := Inr (Some ?a))"
            using v3 s2 by (auto simp: frozen_def intro: cm_base_trans)
          show thesis using set1(2)
          proof (cases rule: cm_set_actor_cases)
            case (failed e)
            with b3 ok(1) False ne show thesis
              by (intro that(3) [of e a]) (auto simp: frozen_def intro: cm_base_trans)
          next
            case set2: ok
            with b3 ok(1) to(1) v1 False ne show thesis
              by (intro that(4) [of a b]) (auto intro: cm_base_trans)
          qed
        qed
      qed
    qed
  qed
qed

lemma transfer_evolves: "keeps evolves (transfer from to value)"
proof (rule keepsI)
  fix s r s'
  assume "transfer from to value s = (r, s')"
  then show "evolves s s'"
  proof (cases rule: transfer_cases)
    case (half a e)
    have "funds_ok (cm_view s) (cm_view s')"
      unfolding half(6) by (rule funds_ok_set) (use half in \<open>simp add: view_balance_def\<close>)
    with half show ?thesis by (simp add: evolves_def)
  next
    case (moved a b)
    let ?v = "(cm_view s)(from := Inr (Some (a\<lparr>balance := balance a - value\<rparr>)))"
    have "funds_ok (cm_view s) (cm_view s')"
      unfolding moved(8) using moved
      by (auto simp: funds_ok_def balances_ok_def total_supply_upd [of ?v] total_supply_upd [of "cm_view s"])
        (auto simp: view_balance_def dest: spec [where x = to])
    with moved show ?thesis by (simp add: evolves_def)
  qed (auto intro: frozen_evolves)
qed

subsection \<open>Creating actors\<close>

lemma rbind_frozen_evolves:
  assumes "keeps frozen m" and "\<And>s a s1 r s'. m s = (Inr a, s1) \<Longrightarrow> frozen s s1 \<Longrightarrow> f a s1 = (r, s') \<Longrightarrow> evolves s1 s'"
  shows "keeps evolves (rbind m f)"
proof (rule keepsI)
  fix s r s'
  assume "rbind m f s = (r, s')"
  then show "evolves s s'"
  proof (cases rule: rbind_cases)
    case (err e)
    then show ?thesis using assms(1) by (blast dest: keepsD intro: frozen_evolves)
  next
    case (ok a s1)
    then have "frozen s s1" using assms(1) by (blast dest: keepsD)
    then show ?thesis using assms(2) [OF ok(1) _ ok(2)] frozen_evolves ev_rel.R_trans by blast
  qed
qed

lemma num_created_evolves: "keeps evolves (rmodify (\<lambda>s. s\<lparr>cm_num_actors_created := cm_num_actors_created s + 1\<rparr>))"
  by (rule keeps_rmodify) (simp add: evolves_def cm_base_fields)

lemma new_empty_balance [simp]: "balance (new_empty env c a) = 0"
  by (simp add: new_empty_def)

lemma create_actor_evolves: "keeps evolves (cm_create_actor env code_id actor_id delegated)"
proof (rule keepsI)
  fix s r s'
  assume run: "cm_create_actor env code_id actor_id delegated s = (r, s')"
  let ?b = "cm_builtin_actors s"
  let ?choose = "\<lambda>found. case found of
      Some act \<Rightarrow>
        if is_placeholder_actor (code act) ?b
        then if delegated_address act = None then rthrow Fatal
          else if delegated_address act \<noteq> delegated then rthrow (Syscall Forbidden)
          else rreturn (act\<lparr>code := code_id\<rparr>)
        else rthrow (Syscall Forbidden)
    | None \<Rightarrow> rbind (cm_charge_gas (\<lambda>p. on_create_actor p False)) (\<lambda>_.
        rreturn (new_empty (ve_ipld env) code_id delegated))"
  let ?finish = "\<lambda>act. rbind (cm_set_actor actor_id act)
      (\<lambda>_. rmodify (\<lambda>s. s\<lparr>cm_num_actors_created := cm_num_actors_created s + 1\<rparr>))"
  show "evolves s s'"
  proof (cases "is_placeholder_actor code_id ?b")
    case True
    with run show ?thesis by (simp add: cm_create_actor_def rthrow_def ev_rel.R_refl)
  next
    case False
    have "rbind (cm_get_actor actor_id) (\<lambda>found. rbind (?choose found) ?finish) s = (r, s')"
      using run False by (simp add: cm_create_actor_def)
    then show ?thesis
    proof (cases rule: rbind_cases)
      case (err e)
      then show ?thesis using cm_get_actor_cases(1) frozen_evolves by blast
    next
      case (ok found s1)
      note get = cm_get_actor_cases [OF ok(1)]
      have choose: "keeps frozen (?choose found)"
        by (cases found) (auto intro!: fr.read_rules)
      from ok(2) have "evolves s1 s'"
      proof (cases rule: rbind_cases)
        case (err e)
        then show ?thesis using choose by (blast dest: keepsD intro: frozen_evolves)
      next
        case act: (ok act s2)
        have s2: "frozen s1 s2" using choose act(1) by (rule keepsD)
        have "balance act = view_balance (cm_view s) actor_id \<or> balance act = 0"
          using act(1) get(2)
          by (auto simp: view_balance_def rsm_defs split: option.splits if_splits prod.splits sum.splits)
        then have "balance act = view_balance (cm_view s2) actor_id \<or> balance act = 0"
          using s2 get(1) by (simp add: frozen_def)
        moreover obtain r3 s3 where set: "cm_set_actor actor_id act s2 = (r3, s3)"
          by (cases "cm_set_actor actor_id act s2")
        ultimately have "evolves s2 s3" by (blast intro: set_actor_evolves)
        moreover have "evolves s3 s'"
          using act(2) set num_created_evolves
          by (cases r3) (auto simp: rbind_def ev_rel.R_refl dest: keepsD)
        ultimately show ?thesis using s2 frozen_evolves ev_rel.R_trans by blast
      qed
      then show ?thesis using get(1) frozen_evolves ev_rel.R_trans by blast
    qed
  qed
qed

lemma register_evolves: "keeps evolves (on_tree (register_new_address env addr))"
proof (rule keepsI)
  fix s r s'
  assume run: "on_tree (register_new_address env addr) s = (r, s')"
  let ?m = "register_new_address env addr"
  have "s' = s\<lparr>cm_state_tree := snd (?m (cm_state_tree s))\<rparr>"
    using run by (cases "?m (cm_state_tree s)") (simp add: on_tree_def rzoom_def)
  moreover have "st_within (cm_state_tree s) (snd (?m (cm_state_tree s)))"
    by (rule keeps_snd [of st_within, OF keeps_register_new_address])
  ultimately show "evolves s s'"
    using register_new_address_funds [of "cm_state_tree s" env addr]
    by (simp add: evolves_def cm_base_fields cm_view_def)
qed

lemma create_actor_from_send_evolves:
  "balance act = 0 \<Longrightarrow> keeps evolves (create_actor_from_send env addr act)"
proof -
  assume zero: "balance act = 0"
  have "keeps evolves (cm_set_actor i act)" for i
    using zero by (auto intro!: keepsI set_actor_evolves)
  then show ?thesis
    unfolding create_actor_from_send_def by (intro ev_rel.read_rules register_evolves)
qed

lemma create_placeholder_evolves: "keeps evolves (create_placeholder_actor_from_send env addr)"
  unfolding create_placeholder_actor_from_send_def
  by (intro ev_rel.read_rules create_actor_from_send_evolves) simp

subsection \<open>Transactions\<close>

lemma cm_begin_fields [simp]:
  "cm_fixed (cm_begin s) t \<longleftrightarrow> cm_fixed s t" "cm_gas_tracker (cm_begin s) = cm_gas_tracker s"
  "cm_limits (cm_begin s) = cm_limits s" "cm_view (cm_begin s) = cm_view s"
  "ev_events (cm_events (cm_begin s)) = ev_events (cm_events s)"
  by (simp_all add: cm_begin_def cm_fixed_def cm_view_def begin_transaction_def ev_begin_transaction_def)

text \<open>
  The end of a transaction after any run: it succeeds; on a revert the actors, the events and the
  access records are those of the beginning, otherwise those of the run.
\<close>

lemma with_transaction_run:
  assumes run: "f (cm_begin s) = (res, s1)" and base: "cm_base (cm_begin s) s1"
  shows "\<exists>s2. with_transaction f s = (res, s2) \<and> cm_base s s2 \<and> cm_gas_tracker s2 = cm_gas_tracker s1 \<and>
    (if call_failed res
     then cm_view s2 = cm_view s \<and> cm_events s2 = cm_events s \<and> cm_access_tracker s2 = cm_access_tracker s
     else cm_view s2 = cm_view s1 \<and> ev_events (cm_events s2) = ev_events (cm_events s1))"
proof -
  define failed where "failed = call_failed res"
  let ?t = "snd (end_transaction failed (cm_state_tree s1))"
  let ?e = "snd (ev_end_transaction failed (cm_events s1))"
  let ?a = "snd (at_end_transaction failed (cm_access_tracker s1))"
  let ?s2 = "s1\<lparr>cm_state_tree := ?t, cm_events := ?e, cm_access_tracker := ?a\<rparr>"
  have w: "st_within (begin_transaction (cm_state_tree s)) (cm_state_tree s1)"
    "ev_within (ev_begin_transaction (cm_events s)) (cm_events s1)"
    "at_within (at_begin_transaction (cm_access_tracker s)) (cm_access_tracker s1)"
    using base by (simp_all add: cm_base_def cm_begin_def)
  note t = end_transaction_within [OF w(1)] and e = ev_end_within [OF w(2)] and a = at_end_within [OF w(3)]
  have "cm_end failed s1 = (Inr (), ?s2)"
    using t(1) [of failed] e(1) [of failed] a(1) [of failed]
    by (cases "end_transaction failed (cm_state_tree s1)"; cases "ev_end_transaction failed (cm_events s1)";
        cases "at_end_transaction failed (cm_access_tracker s1)")
      (simp add: cm_end_def rbind_def on_tree_def on_events_def on_access_def rzoom_def)
  then have "with_transaction f s = (res, ?s2)"
    using run by (simp add: with_transaction_def failed_def rbind_def rlift_def)
  moreover have "cm_base s ?s2"
    using base t(2) [of failed] e(4) [of failed] a(2) [of failed]
    by (simp add: cm_base_def) (simp add: cm_fixed_def)
  moreover have "cm_view ?s2 = cm_view s" if failed
    using t(3) that by (auto simp: cm_view_def st_caches_def st_view_def fun_eq_iff split: option.splits)
  moreover have "cm_view ?s2 = cm_view s1" if "\<not> failed"
    using t(4) that by (auto simp: cm_view_def st_caches_def st_view_def fun_eq_iff split: option.splits)
  ultimately show ?thesis
    unfolding failed_def [symmetric] using e(2,3) a(3) by (intro exI [of _ ?s2]) auto
qed

lemma with_transaction_evolves: "keeps evolves f \<Longrightarrow> keeps evolves (with_transaction f)"
proof (rule keepsI)
  fix s r s'
  assume f: "keeps evolves f" and run: "with_transaction f s = (r, s')"
  obtain res s1 where fs: "f (cm_begin s) = (res, s1)" by (cases "f (cm_begin s)")
  have e: "evolves (cm_begin s) s1" using f fs by (rule keepsD)
  then have "cm_base (cm_begin s) s1" by (simp add: evolves_def)
  from with_transaction_run [of f s, OF fs this] e run show "evolves s s'"
    by (auto simp: evolves_def split: if_splits)
qed

lemma with_transaction_frozen: "keeps frozen f \<Longrightarrow> keeps frozen (with_transaction f)"
proof (rule keepsI)
  fix s r s'
  assume f: "keeps frozen f" and run: "with_transaction f s = (r, s')"
  obtain res s1 where fs: "f (cm_begin s) = (res, s1)" by (cases "f (cm_begin s)")
  have e: "frozen (cm_begin s) s1" using f fs by (rule keepsD)
  then have "cm_base (cm_begin s) s1" by (simp add: frozen_def)
  from with_transaction_run [of f s, OF fs this] e run show "frozen s s'"
    by (auto simp: frozen_def split: if_splits)
qed

end
