(* ===== verification/Kernel.thy ===== *)
theory Kernel
  imports CallContracts CborScan
begin

text \<open>
  The kernel: \<open>fvm/src/kernel/default.rs\<close>, the operations an actor reaches through syscalls. A
  kernel holds the identity of the running actor, its block registry and, while it runs, the call
  manager. The operations that call other actors (\<open>send\<close>, \<open>upgrade_actor\<close>) take the call manager's
  \<open>call_actor\<close> as the argument \<open>call\<close>; the theory \<open>Vm\<close> closes the recursion. Timers and log output
  are left out. A signature check that panics is \<open>None\<close> in the environment.
\<close>

record Kernel =
  k_caller :: ActorID
  k_actor_id :: ActorID
  k_method :: MethodNum
  k_value_received :: TokenAmount
  k_read_only :: bool
  k_cm :: CallManager
  k_blocks :: BlockRegistry

type_synonym 'a k_op = "(Kernel, ExecutionError, 'a) rsm"

definition kernel_new ::
  "CallManager \<Rightarrow> BlockRegistry \<Rightarrow> ActorID \<Rightarrow> ActorID \<Rightarrow> MethodNum \<Rightarrow> TokenAmount \<Rightarrow> bool \<Rightarrow> Kernel" where
  "kernel_new mgr blocks caller actor_id meth value_received read_only = \<lparr>
    k_caller = caller, k_actor_id = actor_id, k_method = meth, k_value_received = value_received,
    k_read_only = read_only, k_cm = mgr, k_blocks = blocks\<rparr>"

definition on_cm :: "'a cm_op \<Rightarrow> 'a k_op" where
  "on_cm = rzoom k_cm (\<lambda>c k. k\<lparr>k_cm := c\<rparr>)"

definition on_blocks :: "(BlockRegistry, ExecutionError, 'a) rsm \<Rightarrow> 'a k_op" where
  "on_blocks = rzoom k_blocks (\<lambda>b k. k\<lparr>k_blocks := b\<rparr>)"

definition k_charge :: "(PriceList \<Rightarrow> GasCharge) \<Rightarrow> unit k_op" where
  "k_charge f = on_cm (cm_charge_gas f)"

definition unless_read_only :: "'a k_op \<Rightarrow> 'a k_op" where
  "unless_read_only m = rbind (rget k_read_only) (\<lambda>ro. if ro then rthrow (Syscall ReadOnly) else m)"

definition get_self :: "ActorState option k_op" where
  "get_self = rbind (rget k_actor_id) (\<lambda>i. on_cm (cm_get_actor i))"

subsection \<open>Calls\<close>

type_synonym call_fun =
  "ActorID \<Rightarrow> Address \<Rightarrow> Entrypoint \<Rightarrow> Block option \<Rightarrow> TokenAmount \<Rightarrow> Gas option \<Rightarrow> bool \<Rightarrow> InvocationResult cm_op"

record CallResult =
  res_block_id :: BlockId
  res_block_stat :: BlockStat
  res_exit_code :: ExitCode

definition empty_stat :: BlockStat where
  "empty_stat = \<lparr>stat_codec = 0, stat_size = 0\<rparr>"

definition load_params :: "BlockId \<Rightarrow> Block option k_op" where
  "load_params params_id =
    (if params_id = NO_DATA_BLOCK_ID then rreturn None
     else rbind (rget (\<lambda>k. registry_get params_id (k_blocks k))) (\<lambda>r.
          rbind (rlift r) (\<lambda>b. rreturn (Some b))))"

definition check_space :: "unit k_op" where
  "check_space = rbind (rget (\<lambda>k. is_full (k_blocks k))) (\<lambda>full.
    if full then rthrow (Syscall LimitExceeded) else rreturn ())"

definition result_block :: "InvocationResult \<Rightarrow> CallResult k_op" where
  "result_block result = (case ret_value result of
      Some blk \<Rightarrow>
        rbind (on_blocks (put_reachable blk)) (\<lambda>block_id.
        rreturn \<lparr>res_block_id = block_id, res_block_stat = block_stat_of blk, res_exit_code = exit_code result\<rparr>)
    | None \<Rightarrow> rreturn \<lparr>res_block_id = NO_DATA_BLOCK_ID, res_block_stat = empty_stat,
        res_exit_code = exit_code result\<rparr>)"

text \<open>\<open>send\<close> once the sender and the effective read-only flag are known; failing to store the result is fatal.\<close>

definition send_as ::
  "call_fun \<Rightarrow> ActorID \<Rightarrow> bool \<Rightarrow> Address \<Rightarrow> MethodNum \<Rightarrow> BlockId \<Rightarrow> TokenAmount \<Rightarrow> Gas option \<Rightarrow> CallResult k_op" where
  "send_as call from read_only recipient meth params_id value gas_limit =
    (if read_only \<and> value \<noteq> 0 then rthrow (Syscall ReadOnly)
     else
       rbind (load_params params_id) (\<lambda>params.
       rbind check_space (\<lambda>_.
       rbind (on_cm (with_transaction (call from recipient (Invoke meth) params value gas_limit read_only))) (\<lambda>result.
       rmap_error (\<lambda>_. Fatal) (result_block result)))))"

definition send ::
  "call_fun \<Rightarrow> Address \<Rightarrow> MethodNum \<Rightarrow> BlockId \<Rightarrow> TokenAmount \<Rightarrow> Gas option \<Rightarrow> bool \<Rightarrow> CallResult k_op" where
  "send call recipient meth params_id value gas_limit flag_read_only =
    rbind (rget k_actor_id) (\<lambda>from.
    rbind (rget (\<lambda>k. k_read_only k \<or> flag_read_only)) (\<lambda>read_only.
    send_as call from read_only recipient meth params_id value gas_limit))"

text \<open>
  The reentrancy check of \<open>upgrade_actor\<close>: after the first invocation of this actor on the stack
  only upgrades of this actor may follow.
\<close>

definition upgrade_forbidden :: "ActorID \<Rightarrow> (ActorID \<times> FuncName) list \<Rightarrow> bool" where
  "upgrade_forbidden i stack =
    (case dropWhile (\<lambda>e. e \<noteq> (i, INVOKE_FUNC_NAME)) stack of
      [] \<Rightarrow> False
    | _ # rest \<Rightarrow> \<not> list_all (\<lambda>e. e = (i, UPGRADE_FUNC_NAME)) rest)"

text \<open>
  The part of the upgrade that changes the actor: the new code with the old state, balance and
  sequence, and no delegated address. It returns the old code.
\<close>

definition install_code :: "ActorID \<Rightarrow> Cid \<Rightarrow> Cid cm_op" where
  "install_code actor_id new_code_cid =
    rbind (cm_get_actor actor_id) (\<lambda>a.
    rbind (rlift (ok_or (Syscall IllegalOperation) a)) (\<lambda>st.
    rbind (cm_set_actor actor_id (actor_new new_code_cid (state st) (balance st) (sequence st) None)) (\<lambda>_.
    rreturn (code st))))"

definition upgrade_call :: "call_fun \<Rightarrow> ActorID \<Rightarrow> ActorID \<Rightarrow> Cid \<Rightarrow> Block option \<Rightarrow> InvocationResult cm_op" where
  "upgrade_call call caller actor_id new_code_cid params =
    rbind (install_code actor_id new_code_cid) (\<lambda>old_code_cid.
    call caller (new_id actor_id) (Upgrade old_code_cid) params 0 None False)"

definition upgrade_actor :: "call_fun \<Rightarrow> Cid \<Rightarrow> BlockId \<Rightarrow> CallResult k_op" where
  "upgrade_actor call new_code_cid params_id =
    unless_read_only (
    rbind (rget k_actor_id) (\<lambda>i.
    rbind (rget k_caller) (\<lambda>caller.
    rbind (rget (\<lambda>k. cm_actor_call_stack (k_cm k))) (\<lambda>stack.
    if upgrade_forbidden i stack then rthrow (Syscall Forbidden)
    else
      rbind (load_params params_id) (\<lambda>params.
      rbind check_space (\<lambda>_.
      rbind (on_cm (with_transaction (upgrade_call call caller i new_code_cid params))) (\<lambda>result.
      result_block result)))))))"

subsection \<open>The actor itself\<close>

definition root :: "Cid k_op" where
  "root =
    rbind (k_charge on_get_root) (\<lambda>_.
    rbind get_self (\<lambda>a.
    rbind (rlift (or_error IllegalOperation (ok_or () a))) (\<lambda>a.
    rbind (on_blocks (rmodify (mark_reachable (state a)))) (\<lambda>_.
    rreturn (state a)))))"

definition set_actor_root :: "ActorID \<Rightarrow> Cid \<Rightarrow> unit cm_op" where
  "set_actor_root i new =
    rbind (cm_get_actor i) (\<lambda>a.
    rbind (rlift (ok_or (Syscall IllegalOperation) a)) (\<lambda>st.
    cm_set_actor i (st\<lparr>state := new\<rparr>)))"

definition set_root :: "Cid \<Rightarrow> unit k_op" where
  "set_root new =
    unless_read_only (
    rbind (k_charge on_set_root) (\<lambda>_.
    rbind (rget (\<lambda>k. is_reachable new (k_blocks k))) (\<lambda>reachable.
    if \<not> reachable then rthrow (Syscall NotFound)
    else rbind (rget k_actor_id) (\<lambda>i. on_cm (set_actor_root i new)))))"

definition current_balance :: "TokenAmount k_op" where
  "current_balance =
    rbind (k_charge on_self_balance) (\<lambda>_.
    rbind get_self (\<lambda>a.
    rreturn (case a of Some st \<Rightarrow> balance st | None \<Rightarrow> 0)))"

definition self_destruct :: "bool \<Rightarrow> unit k_op" where
  "self_destruct burn_unspent =
    unless_read_only (
    rbind (k_charge on_delete_actor) (\<lambda>_.
    rbind current_balance (\<lambda>bal.
    rbind (rget k_actor_id) (\<lambda>i.
    rbind (if bal \<noteq> 0
           then if \<not> burn_unspent then rthrow (Syscall IllegalOperation)
                else rmap_error (\<lambda>_. Fatal) (on_cm (transfer i BURNT_FUNDS_ACTOR_ID bal))
           else rreturn ()) (\<lambda>_.
    on_cm (cm_delete_actor i))))))"

subsection \<open>Blocks\<close>

definition k_scan :: "vm_env \<Rightarrow> u64 \<Rightarrow> bytes \<Rightarrow> Cid list k_op" where
  "k_scan env codec data =
    on_cm (rbind (rget cm_prices) (\<lambda>p. on_gas (scan_for_reachable_links (read_cid env) codec data p)))"

definition block_open :: "vm_env \<Rightarrow> Cid \<Rightarrow> (BlockId \<times> BlockStat) k_op" where
  "block_open env cid =
    rbind (k_charge on_block_open_base) (\<lambda>_.
    rbind (rget (\<lambda>k. is_reachable cid (k_blocks k))) (\<lambda>reachable.
    if \<not> reachable then rthrow (Syscall NotFound)
    else
      rbind (rget (\<lambda>k. st_store (cm_state_tree (k_cm k)) cid)) (\<lambda>found.
      rbind (rlift (or_fatal found)) (\<lambda>found.
      rbind (rlift (ok_or Fatal found)) (\<lambda>data.
      rbind (k_scan env (cid_codec cid) data) (\<lambda>children.
      rbind (k_charge (\<lambda>p. on_block_open p (length data) (length children))) (\<lambda>_.
      let block = block_new (cid_codec cid) data children
      in rbind (on_blocks (put_reachable block)) (\<lambda>i. rreturn (i, block_stat_of block)))))))))"

definition block_create :: "vm_env \<Rightarrow> u64 \<Rightarrow> bytes \<Rightarrow> BlockId k_op" where
  "block_create env codec data =
    rbind (rget (\<lambda>k. max_block_size (network (cm_context (k_cm k))))) (\<lambda>limit.
    if length data > limit then rthrow (Syscall LimitExceeded)
    else if codec \<notin> set ALLOWED_CODECS then rthrow (Syscall IllegalCodec)
    else
      rbind (k_scan env codec data) (\<lambda>children.
      rbind (k_charge (\<lambda>p. on_block_create p (length data) (length children))) (\<lambda>_.
      on_blocks (put_check_reachable (block_new codec data children)))))"

fun hash_code :: "SupportedHashes \<Rightarrow> u64" where
  "hash_code Sha2_256 = 0x12"
| "hash_code Blake2b256 = 0xb220"
| "hash_code Blake2b512 = 0xb240"
| "hash_code Keccak256 = 0x1b"
| "hash_code Ripemd160 = 0x1053"

definition supported_hash :: "u64 \<Rightarrow> SupportedHashes option" where
  "supported_hash c = List.find (\<lambda>h. hash_code h = c) [Sha2_256, Blake2b256, Blake2b512, Keccak256, Ripemd160]"

definition put_keyed :: "Cid \<Rightarrow> bytes \<Rightarrow> unit k_op" where
  "put_keyed c data = on_cm (on_tree (rmodify (\<lambda>t. t\<lparr>st_store := (st_store t)(c := Inr (Some data))\<rparr>)))"

definition block_link :: "vm_env \<Rightarrow> BlockId \<Rightarrow> u64 \<Rightarrow> u32 \<Rightarrow> Cid k_op" where
  "block_link env i hash_fun hash_len =
    (if hash_fun \<noteq> BLAKE2B_256 \<or> hash_len \<noteq> 32 then rthrow (Syscall IllegalCid)
     else
       rbind (rget (\<lambda>k. registry_get i (k_blocks k))) (\<lambda>r.
       rbind (rlift r) (\<lambda>block.
       rbind (rlift (ok_or (Syscall IllegalCid) (supported_hash hash_fun))) (\<lambda>hasher.
       rbind (k_charge (\<lambda>p. on_block_link p hasher (unat (block_size block)))) (\<lambda>_.
       let hash = digest env hasher (block_data block)
       in if length hash < unat hash_len then rthrow (Syscall IllegalCid)
          else
            let c = \<lparr>cid_version = 1, cid_codec = block_codec block, mh_code = hash_fun,
                     mh_digest = take (unat hash_len) hash\<rparr>
            in rbind (put_keyed c (block_data block)) (\<lambda>_.
               rbind (on_blocks (rmodify (mark_reachable c))) (\<lambda>_.
               rreturn c)))))))"

text \<open>\<open>block_read\<close> returns the bytes it copies into the buffer of length \<open>buf_len\<close> and the \<open>i32\<close> result.\<close>

definition block_read :: "BlockId \<Rightarrow> u32 \<Rightarrow> nat \<Rightarrow> (bytes \<times> int) k_op" where
  "block_read i offset buf_len =
    (let end_pos = unat offset + buf_len in
     if end_pos \<ge> 2 ^ 31 then rthrow (Syscall IllegalArgument)
     else
       rbind (rget (\<lambda>k. registry_get i (k_blocks k))) (\<lambda>r.
       rbind (rlift r) (\<lambda>block.
       let data = block_data block;
           start_pos = unat offset;
           to_read = min (length data - start_pos) buf_len
       in rbind (k_charge (\<lambda>p. on_block_read p to_read)) (\<lambda>_.
          rreturn (take to_read (drop start_pos data),
            sint (of_nat (length data) - of_nat end_pos :: 32 word))))))"

definition block_stat :: "BlockId \<Rightarrow> BlockStat k_op" where
  "block_stat i =
    rbind (k_charge on_block_stat) (\<lambda>_.
    rbind (rget (\<lambda>k. registry_stat i (k_blocks k))) rlift)"

subsection \<open>Message and network context\<close>

record MessageContext =
  mc_caller :: ActorID
  mc_origin :: ActorID
  mc_receiver :: ActorID
  mc_method_number :: MethodNum
  mc_value_received :: u128
  mc_gas_premium :: u128
  mc_read_only :: bool
  mc_nonce :: u64

text \<open>The token amounts that cross the syscall boundary are unsigned 128-bit integers.\<close>

definition sys_token_amount :: "TokenAmount \<Rightarrow> unit + u128" where
  "sys_token_amount v = (if 0 \<le> v \<and> v < 2 ^ 128 then Inr (word_of_int v) else Inl ())"

definition msg_context :: "MessageContext k_op" where
  "msg_context =
    rbind (k_charge on_message_context) (\<lambda>_.
    rbind (rget id) (\<lambda>k.
    rbind (rlift (or_fatal (sys_token_amount (k_value_received k)))) (\<lambda>value.
    rbind (rlift (or_fatal (sys_token_amount (cm_gas_premium (k_cm k))))) (\<lambda>premium.
    rreturn \<lparr>mc_caller = k_caller k, mc_origin = cm_origin (k_cm k), mc_receiver = k_actor_id k,
      mc_method_number = k_method k, mc_value_received = value, mc_gas_premium = premium,
      mc_read_only = k_read_only k, mc_nonce = cm_nonce (k_cm k)\<rparr>))))"

record NetworkContext =
  nc_chain_id :: u64
  nc_epoch :: int
  nc_network_version :: u32
  nc_timestamp :: u64
  nc_base_fee :: u128

definition network_context :: "NetworkContext k_op" where
  "network_context =
    rbind (k_charge on_network_context) (\<lambda>_.
    rbind (rget (\<lambda>k. cm_context (k_cm k))) (\<lambda>ctx.
    rbind (rlift (or_fatal (sys_token_amount (base_fee ctx)))) (\<lambda>fee.
    rreturn \<lparr>nc_chain_id = chain_id (network ctx), nc_epoch = epoch ctx,
      nc_network_version = network_version (network ctx), nc_timestamp = timestamp ctx,
      nc_base_fee = fee\<rparr>)))"

text \<open>Epochs are \<open>i64\<close>; the plain subtraction in \<open>tipset_cid\<close> wraps around.\<close>

definition tipset_cid :: "vm_env \<Rightarrow> int \<Rightarrow> Cid k_op" where
  "tipset_cid env ep =
    (if ep < 0 then rthrow (Syscall IllegalArgument)
     else
       rbind (rget (\<lambda>k. epoch (cm_context (k_cm k)))) (\<lambda>now.
       let offset = (word_of_int (now - ep) :: i64)
       in if sint offset \<le> 0 then rthrow (Syscall IllegalArgument)
          else
            rbind (k_charge (\<lambda>p. on_tipset_cid p offset)) (\<lambda>_.
            rlift (or_fatal (ok_or () (extern_tipset_cid env ep))))))"

definition checked_sub_i64 :: "int \<Rightarrow> int \<Rightarrow> int option" where
  "checked_sub_i64 a b = (if - (2 ^ 63) \<le> a - b \<and> a - b < 2 ^ 63 then Some (a - b) else None)"

definition get_randomness :: "(int \<Rightarrow> bytes option) \<Rightarrow> int \<Rightarrow> bytes k_op" where
  "get_randomness extern rand_epoch =
    rbind (rget (\<lambda>k. checked_sub_i64 (epoch (cm_context (k_cm k))) rand_epoch)) (\<lambda>r.
    rbind (rlift (ok_or (Syscall IllegalArgument) r)) (\<lambda>lookback.
    rbind (k_charge (\<lambda>p. on_get_randomness p (word_of_int lookback))) (\<lambda>_.
    rlift (or_illegal_argument (ok_or () (extern rand_epoch))))))"

definition get_randomness_from_tickets :: "vm_env \<Rightarrow> int \<Rightarrow> bytes k_op" where
  "get_randomness_from_tickets env = get_randomness (extern_chain_randomness env)"

definition get_randomness_from_beacon :: "vm_env \<Rightarrow> int \<Rightarrow> bytes k_op" where
  "get_randomness_from_beacon env = get_randomness (extern_beacon_randomness env)"

subsection \<open>Cryptography\<close>

text \<open>A panic of the signature library is caught and becomes \<open>IllegalArgument\<close>.\<close>

definition verify_signature :: "vm_env \<Rightarrow> SignatureType \<Rightarrow> bytes \<Rightarrow> Address \<Rightarrow> bytes \<Rightarrow> bool k_op" where
  "verify_signature env sig_type sig signer plaintext =
    rbind (k_charge (\<lambda>p. on_verify_signature p sig_type (length plaintext))) (\<lambda>_.
    if protocol signer \<in> {Protocol.BLS, Protocol.Secp256k1}
    then rlift (ok_or (Syscall IllegalArgument) (verify_sig env sig_type sig plaintext signer))
    else rthrow (Syscall IllegalArgument))"

text \<open>The plaintexts cut out of the concatenation, and the offset after the last one.\<close>

fun split_plaintexts :: "bytes \<Rightarrow> nat \<Rightarrow> u32 list \<Rightarrow> (bytes list \<times> nat) option" where
  "split_plaintexts text off [] = Some ([], off)"
| "split_plaintexts text off (l # ls) =
    (let next_off = off + unat l
     in if next_off \<le> length text
        then map_option (\<lambda>(ps, e). (take (unat l) (drop off text) # ps, e)) (split_plaintexts text next_off ls)
        else None)"

definition verify_bls_aggregate :: "vm_env \<Rightarrow> bytes \<Rightarrow> bytes list \<Rightarrow> bytes \<Rightarrow> u32 list \<Rightarrow> bool k_op" where
  "verify_bls_aggregate env aggregate_sig pub_keys plaintexts_concat plaintext_lens =
    (if length pub_keys \<noteq> length plaintext_lens then rthrow (Syscall IllegalArgument)
     else
       rbind (k_charge (\<lambda>p. on_verify_aggregate_signature p (length pub_keys) (length plaintexts_concat))) (\<lambda>_.
       rbind (rlift (ok_or (Syscall IllegalArgument) (split_plaintexts plaintexts_concat 0 plaintext_lens)))
         (\<lambda>(plaintexts, offset).
       if offset \<noteq> length plaintexts_concat then rthrow (Syscall IllegalArgument)
       else rreturn (verify_bls env aggregate_sig pub_keys plaintexts = Some True))))"

definition recover_secp_public_key :: "vm_env \<Rightarrow> bytes \<Rightarrow> bytes \<Rightarrow> bytes k_op" where
  "recover_secp_public_key env hash sig =
    rbind (k_charge on_recover_secp_public_key) (\<lambda>_.
    rlift (ok_or (Syscall IllegalArgument) (recover_secp env hash sig)))"

definition k_hash :: "vm_env \<Rightarrow> u64 \<Rightarrow> bytes \<Rightarrow> (u64 \<times> bytes) k_op" where
  "k_hash env hcode data =
    rbind (rlift (ok_or (Syscall IllegalArgument) (supported_hash hcode))) (\<lambda>hasher.
    rbind (k_charge (\<lambda>p. on_hashing p hasher (length data))) (\<lambda>_.
    rreturn (hcode, digest env hasher data)))"

subsection \<open>Actors\<close>

definition k_resolve_address :: "vm_env \<Rightarrow> Address \<Rightarrow> ActorID k_op" where
  "k_resolve_address env addr =
    rbind (k_charge on_resolve_address) (\<lambda>_.
    rbind (on_cm (cm_resolve_address env addr)) (\<lambda>r.
    rlift (ok_or (Syscall NotFound) r)))"

definition found_actor :: "ActorID \<Rightarrow> ActorState k_op" where
  "found_actor i = rbind (on_cm (cm_get_actor i)) (\<lambda>a. rlift (ok_or (Syscall NotFound) a))"

definition get_actor_code_cid :: "ActorID \<Rightarrow> Cid k_op" where
  "get_actor_code_cid i =
    rbind (k_charge on_get_actor_code_cid) (\<lambda>_.
    rbind (found_actor i) (\<lambda>a. rreturn (code a)))"

definition k_next_actor_address :: "vm_env \<Rightarrow> Address k_op" where
  "k_next_actor_address env = rget (\<lambda>k. next_actor_address env (k_cm k))"

definition create_actor :: "vm_env \<Rightarrow> Cid \<Rightarrow> ActorID \<Rightarrow> Address option \<Rightarrow> unit k_op" where
  "create_actor env code_id i delegated =
    rbind (rget k_actor_id) (\<lambda>self.
    if self \<noteq> INIT_ACTOR_ID then rthrow (Syscall Forbidden)
    else unless_read_only (on_cm (cm_create_actor env code_id i delegated)))"

text \<open>The engine compiles the code and reports its size; compilation may fail.\<close>

definition install_actor :: "vm_env \<Rightarrow> Cid \<Rightarrow> unit k_op" where
  "install_actor env code_id =
    rbind (rlift (or_illegal_argument (ok_or () (engine_preload env code_id)))) (\<lambda>code_size.
    k_charge (\<lambda>p. on_install_actor p code_size))"

definition get_builtin_actor_type :: "Cid \<Rightarrow> u32 k_op" where
  "get_builtin_actor_type code_cid =
    rbind (k_charge on_get_builtin_actor_type) (\<lambda>_.
    rget (\<lambda>k. id_by_code code_cid (cm_builtin_actors (k_cm k))))"

definition get_code_cid_for_type :: "u32 \<Rightarrow> Cid k_op" where
  "get_code_cid_for_type typ =
    rbind (k_charge on_get_code_cid_for_type) (\<lambda>_.
    rbind (rget (\<lambda>k. code_by_id typ (cm_builtin_actors (k_cm k)))) (\<lambda>c.
    rlift (or_illegal_argument (ok_or () c))))"

definition balance_of :: "ActorID \<Rightarrow> TokenAmount k_op" where
  "balance_of i =
    rbind (k_charge on_balance_of) (\<lambda>_.
    rbind (found_actor i) (\<lambda>a. rreturn (balance a)))"

definition lookup_delegated_address :: "ActorID \<Rightarrow> Address option k_op" where
  "lookup_delegated_address i =
    rbind (k_charge on_lookup_delegated_address) (\<lambda>_.
    rbind (found_actor i) (\<lambda>a. rreturn (delegated_address a)))"

subsection \<open>Gas and debugging\<close>

definition k_gas_available :: "Kernel \<Rightarrow> Gas" where
  "k_gas_available k = Gas.gas_available (cm_gas_tracker (k_cm k))"

definition k_charge_gas :: "string \<Rightarrow> Gas \<Rightarrow> unit k_op" where
  "k_charge_gas name amount = on_cm (on_gas (charge_gas name amount))"

definition k_log :: "string \<Rightarrow> unit k_op" where
  "k_log msg = on_cm (cm_log msg)"

definition debug_enabled :: "Kernel \<Rightarrow> bool" where
  "debug_enabled k = actor_debugging (network (cm_context (k_cm k)))"

definition MAX_ARTIFACT_NAME_LEN :: nat where
  "MAX_ARTIFACT_NAME_LEN = 256"

text \<open>The check of the artifact's name (its UTF-8 bytes); the write to the local disk is left out.\<close>

definition store_artifact :: "bytes \<Rightarrow> bytes \<Rightarrow> unit k_op" where
  "store_artifact name data =
    (if length name > MAX_ARTIFACT_NAME_LEN \<or> 0x2f \<in> set name \<or> name = [] \<or> hd name = 0x2e
     then rthrow (Syscall IllegalArgument)
     else rreturn ())"

end
