(* ===== verification/EmitEvent.thy ===== *)
theory EmitEvent
  imports Kernel
begin

text \<open>
  The event syscall: \<open>emit_event\<close> of \<open>fvm/src/kernel/default.rs\<close>. It validates the keys as UTF-8
  all at once and then cuts keys and values out of the two buffers along the headers. The UTF-8
  check and the character boundaries are those of Rust's \<open>str\<close>.
\<close>

subsection \<open>UTF-8\<close>

definition is_cont :: "u8 \<Rightarrow> bool" where
  "is_cont b \<longleftrightarrow> 0x80 \<le> b \<and> b \<le> 0xbf"

text \<open>The width of a character from its first byte, and the ranges of the second byte.\<close>

definition utf8_two :: "u8 \<Rightarrow> bool" where
  "utf8_two a \<longleftrightarrow> 0xc2 \<le> a \<and> a \<le> 0xdf"

definition utf8_three :: "u8 \<Rightarrow> bool" where
  "utf8_three a \<longleftrightarrow> 0xe0 \<le> a \<and> a \<le> 0xef"

definition utf8_four :: "u8 \<Rightarrow> bool" where
  "utf8_four a \<longleftrightarrow> 0xf0 \<le> a \<and> a \<le> 0xf4"

definition three_second :: "u8 \<Rightarrow> u8 \<Rightarrow> bool" where
  "three_second a b \<longleftrightarrow> is_cont b \<and> (a = 0xe0 \<longrightarrow> 0xa0 \<le> b) \<and> (a = 0xed \<longrightarrow> b \<le> 0x9f)"

definition four_second :: "u8 \<Rightarrow> u8 \<Rightarrow> bool" where
  "four_second a b \<longleftrightarrow> is_cont b \<and> (a = 0xf0 \<longrightarrow> 0x90 \<le> b) \<and> (a = 0xf4 \<longrightarrow> b \<le> 0x8f)"

fun utf8_valid :: "bytes \<Rightarrow> bool" where
  "utf8_valid [] = True"
| "utf8_valid (a # r) =
    (if a < 0x80 then utf8_valid r
     else if utf8_two a then (case r of b # r' \<Rightarrow> is_cont b \<and> utf8_valid r' | _ \<Rightarrow> False)
     else if utf8_three a
     then (case r of b # c # r' \<Rightarrow> three_second a b \<and> is_cont c \<and> utf8_valid r' | _ \<Rightarrow> False)
     else if utf8_four a
     then (case r of b # c # d # r' \<Rightarrow> four_second a b \<and> is_cont c \<and> is_cont d \<and> utf8_valid r' | _ \<Rightarrow> False)
     else False)"

definition is_char_boundary :: "bytes \<Rightarrow> nat \<Rightarrow> bool" where
  "is_char_boundary s i \<longleftrightarrow>
    i = 0 \<or> i = length s \<or> i < length s \<and> \<not> is_cont (s ! i)"

definition str_get :: "bytes \<Rightarrow> nat \<Rightarrow> nat \<Rightarrow> bytes option" where
  "str_get s from to =
    (if from \<le> to \<and> is_char_boundary s from \<and> is_char_boundary s to
     then Some (take (to - from) (drop from s)) else None)"

definition slice_get :: "bytes \<Rightarrow> nat \<Rightarrow> nat \<Rightarrow> bytes option" where
  "slice_get s from to =
    (if from \<le> to \<and> to \<le> length s then Some (take (to - from) (drop from s)) else None)"

subsection \<open>The syscall\<close>

record EventEntry =
  hdr_flags :: u64
  hdr_codec :: u64
  hdr_key_len :: u32
  hdr_val_len :: u32

definition MAX_NR_ENTRIES :: nat where
  "MAX_NR_ENTRIES = 255"

definition MAX_KEY_LEN :: nat where
  "MAX_KEY_LEN = 31"

definition MAX_TOTAL_VALUES_LEN :: nat where
  "MAX_TOTAL_VALUES_LEN = 8192"

text \<open>\<open>Flags::from_bits\<close>: only the two defined flags may be set.\<close>

definition flags_valid :: "u64 \<Rightarrow> bool" where
  "flags_valid f \<longleftrightarrow> f AND NOT 3 = 0"

definition read_entry :: "bytes \<Rightarrow> bytes \<Rightarrow> EventEntry \<Rightarrow> nat \<Rightarrow> nat \<Rightarrow> Entry kresult" where
  "read_entry keys vals h key_offset val_offset =
    (if \<not> flags_valid (hdr_flags h) then Inl (Syscall IllegalArgument)
     else if unat (hdr_key_len h) > MAX_KEY_LEN then Inl (Syscall LimitExceeded)
     else if unat (hdr_val_len h) > MAX_TOTAL_VALUES_LEN then Inl (Syscall IllegalArgument)
     else case str_get keys key_offset (key_offset + unat (hdr_key_len h)) of
       None \<Rightarrow> Inl (Syscall IllegalArgument)
     | Some key \<Rightarrow>
         (case slice_get vals val_offset (val_offset + unat (hdr_val_len h)) of
           None \<Rightarrow> Inl (Syscall IllegalArgument)
         | Some val \<Rightarrow>
             if hdr_codec h \<noteq> IPLD_RAW \<and> hdr_codec h \<noteq> CBOR then Inl (Syscall IllegalCodec)
             else Inr \<lparr>entry_flags = hdr_flags h, entry_key = key, entry_codec = hdr_codec h, entry_value = val\<rparr>))"

fun read_entries :: "bytes \<Rightarrow> bytes \<Rightarrow> EventEntry list \<Rightarrow> nat \<Rightarrow> nat \<Rightarrow> (Entry list \<times> nat \<times> nat) kresult" where
  "read_entries keys vals [] key_offset val_offset = Inr ([], key_offset, val_offset)"
| "read_entries keys vals (h # hs) key_offset val_offset =
    (case read_entry keys vals h key_offset val_offset of
      Inl e \<Rightarrow> Inl e
    | Inr entry \<Rightarrow>
        (case read_entries keys vals hs (key_offset + unat (hdr_key_len h)) (val_offset + unat (hdr_val_len h)) of
          Inl e \<Rightarrow> Inl e
        | Inr (entries, ends) \<Rightarrow> Inr (entry # entries, ends)))"

definition parse_event :: "EventEntry list \<Rightarrow> bytes \<Rightarrow> bytes \<Rightarrow> ActorEvent kresult" where
  "parse_event headers keys vals =
    (if length headers > MAX_NR_ENTRIES then Inl (Syscall LimitExceeded)
     else if length vals > MAX_TOTAL_VALUES_LEN then Inl (Syscall LimitExceeded)
     else if \<not> utf8_valid keys then Inl (Syscall IllegalArgument)
     else case read_entries keys vals headers 0 0 of
       Inl e \<Rightarrow> Inl e
     | Inr (entries, key_offset, val_offset) \<Rightarrow>
         if key_offset \<noteq> length keys \<or> val_offset \<noteq> length vals then Inl (Syscall IllegalArgument)
         else Inr entries)"

definition emit_event :: "EventEntry list \<Rightarrow> bytes \<Rightarrow> bytes \<Rightarrow> unit k_op" where
  "emit_event headers keys vals =
    unless_read_only (
    rbind (k_charge (\<lambda>p. on_actor_event p (length headers) (length keys) (length vals))) (\<lambda>_.
    rbind (rlift (parse_event headers keys vals)) (\<lambda>actor_evt.
    rbind (rget k_actor_id) (\<lambda>i.
    on_cm (append_event \<lparr>emitter = i, event = actor_evt\<rparr>)))))"

subsection \<open>Valid UTF-8 splits at character boundaries\<close>













subsection \<open>What is parsed\<close>





definition event_keys :: "ActorEvent \<Rightarrow> bytes" where
  "event_keys es = concat (map entry_key es)"

definition event_values :: "ActorEvent \<Rightarrow> bytes" where
  "event_values es = concat (map entry_value es)"

lemma event_buffers_simps [simp]:
  "event_keys [] = []" "event_values [] = []"
  "event_keys (e # es) = entry_key e @ event_keys es" "event_values (e # es) = entry_value e @ event_values es"
  by (simp_all add: event_keys_def event_values_def)





end
