(* ===== verification/SectorLayout.thy ===== *)
theory SectorLayout
  imports Sectors "HOL-Library.Sublist"
begin

text \<open>
  The pieces of a sector: \<open>get_required_padding\<close> and \<open>compute_unsealed_sector_cid\<close> of
  \<open>fvm/src/kernel/filecoin.rs\<close>. The given pieces are laid out one after the other; before each one,
  and at the end of the sector, zero pieces fill the gap up to the next multiple of its size. The
  theory shows that every piece, zero pieces included, starts at a multiple of its own size and that
  the pieces fill whole sectors, as the Merkle tree over the sector requires.

  Code that may panic has the type \<open>risky\<close>: \<open>None\<close> is a panic. Sizes are \<open>u64\<close> and wrap around; a
  remainder by zero panics.
\<close>

type_synonym 'a risky = "'a kresult option"

definition abind :: "'a risky \<Rightarrow> ('a \<Rightarrow> 'b risky) \<Rightarrow> 'b risky" where
  "abind m f = (case m of
      None \<Rightarrow> None
    | Some (Inl e) \<Rightarrow> Some (Inl e)
    | Some (Inr a) \<Rightarrow> f a)"

definition or_illegal :: "'e + 'a \<Rightarrow> 'a risky" where
  "or_illegal r = Some (or_illegal_argument r)"

definition attempt_or_illegal :: "'a attempt \<Rightarrow> 'a risky" where
  "attempt_or_illegal r = map_option or_illegal_argument r"

definition no_panic :: "'a option \<Rightarrow> 'a risky" where
  "no_panic v = map_option Inr v"

lemma abind_simps [simp]:
  "abind None f = None" "abind (Some (Inl e)) f = Some (Inl e)" "abind (Some (Inr a)) f = f a"
  by (simp_all add: abind_def)

lemma or_illegal_simps [simp]:
  "or_illegal (Inr a) = Some (Inr a)" "or_illegal (Inl e) = Some (Inl (Syscall IllegalArgument))"
  by (simp_all add: or_illegal_def or_illegal_argument_def)

subsection \<open>Padding\<close>

text \<open>The loop of \<open>get_required_padding\<close>: the lowest bit of \<open>to_fill\<close> becomes a piece, \<open>n\<close> times.\<close>

primrec fill_pieces :: "nat \<Rightarrow> u64 \<Rightarrow> u64 list \<Rightarrow> u64 \<Rightarrow> u64 list \<times> u64" where
  "fill_pieces 0 to_fill pad_pieces filled = (pad_pieces, filled)"
| "fill_pieces (Suc n) to_fill pad_pieces filled =
    (let p_size = 2 ^ trailing_zeros to_fill
     in fill_pieces n (to_fill XOR p_size) (pad_pieces @ [p_size]) (filled + p_size))"

definition get_required_padding :: "u64 \<Rightarrow> u64 \<Rightarrow> (u64 list \<times> u64) option" where
  "get_required_padding old_length new_piece_length =
    (if new_piece_length = 0 then None
     else let to_fill = (0 - old_length) mod new_piece_length
          in Some (fill_pieces (count_ones to_fill) to_fill [] 0))"

definition zero_piece :: "u64 \<Rightarrow> api_piece option" where
  "zero_piece p =
    map_option (\<lambda>c. \<lparr>ap_commitment = c, ap_size = unpadded p\<rparr>) (zero_piece_commitment p)"

subsection \<open>Laying out the pieces\<close>

primrec pad_to :: "u64 list \<Rightarrow> api_piece list \<Rightarrow> u64 \<Rightarrow> (api_piece list \<times> u64) option" where
  "pad_to [] all_pieces filled = Some (all_pieces, filled)"
| "pad_to (p # pads) all_pieces filled = (case zero_piece p of
      None \<Rightarrow> None
    | Some z \<Rightarrow> pad_to pads (all_pieces @ [z]) (filled + p))"

primrec place_pieces :: "PieceInfo list \<Rightarrow> api_piece list \<Rightarrow> u64 \<Rightarrow> (api_piece list \<times> u64) risky" where
  "place_pieces [] all_pieces filled = Some (Inr (all_pieces, filled))"
| "place_pieces (p # ps) all_pieces filled =
    abind (no_panic (get_required_padding filled (piece_size p))) (\<lambda>(pads, _).
    abind (no_panic (pad_to pads all_pieces filled)) (\<lambda>(all_pieces, filled).
    abind (or_illegal (piece_try_from p)) (\<lambda>q.
    place_pieces ps (all_pieces @ [q]) (filled + piece_size p))))"

definition sector_pieces :: "u64 \<Rightarrow> PieceInfo list \<Rightarrow> api_piece list risky" where
  "sector_pieces pssize pieces =
    (if pieces = [] then abind (no_panic (zero_piece pssize)) (\<lambda>z. Some (Inr [z]))
     else
       abind (place_pieces pieces [] 0) (\<lambda>(all_pieces, filled).
       abind (no_panic (get_required_padding filled pssize)) (\<lambda>(pads, _).
       abind (no_panic (pad_to pads all_pieces filled)) (\<lambda>(all_pieces, _).
       Some (Inr all_pieces)))))"

definition compute_unsealed_sector_cid ::
  "proofs_api \<Rightarrow> RegisteredSealProof \<Rightarrow> PieceInfo list \<Rightarrow> Cid risky" where
  "compute_unsealed_sector_cid api proof_type pieces =
    abind (or_illegal (seal_sector_size proof_type)) (\<lambda>ssize.
    abind (sector_pieces (sector_size_bytes ssize) pieces) (\<lambda>all_pieces.
    abind (or_illegal (seal_try_from proof_type)) (\<lambda>spt.
    abind (attempt_or_illegal (api_compute_comm_d api spt all_pieces)) (\<lambda>comm_d.
    or_illegal (data_commitment_v1_to_cid comm_d)))))"

subsection \<open>What the padding is\<close>

text \<open>Sizes laid out from an offset: each starts at a multiple of itself.\<close>

fun aligned :: "nat \<Rightarrow> nat list \<Rightarrow> bool" where
  "aligned off [] \<longleftrightarrow> True"
| "aligned off (s # ss) \<longleftrightarrow> s dvd off \<and> aligned (off + s) ss"

lemma aligned_append: "aligned off (xs @ ys) \<longleftrightarrow> aligned off xs \<and> aligned (off + sum_list xs) ys"
  by (induction xs arbitrary: off) (auto simp: add.assoc)

lemma fill_pieces_spec:
  "\<exists>ps. fill_pieces (count_ones f) f acc filled = (acc @ ps, filled + f) \<and>
    (\<forall>p\<in>set ps. \<exists>k. bit f k \<and> p = 2 ^ k) \<and> sum_list (map unat ps) = unat f \<and>
    (\<forall>off k. unat f < 2 ^ k \<longrightarrow> 2 ^ k dvd off + unat f \<longrightarrow> aligned off (map unat ps))"
proof (induction "count_ones f" arbitrary: f acc filled)
  case 0
  then have "f = 0" "count_ones (0 :: u64) = 0" using count_ones_zero by simp_all
  then show ?case by (intro exI [of _ "[]"]) simp
next
  case (Suc n)
  then have "f \<noteq> 0" using count_ones_zero [of f] by auto
  note tz = trailing_zeros_bit [OF this]
  let ?t = "trailing_zeros f" and ?g = "f XOR 2 ^ trailing_zeros f"
  note clear = clear_bit_sub [OF tz(2)]
  have pow: "unat ((2 :: u64) ^ ?t) = 2 ^ ?t" using tz(1) by (rule unat_power_word)
  have n: "n = count_ones ?g" using count_ones_clear [OF tz(2)] Suc.hyps(2) by simp
  from Suc.hyps(1) [OF n, of "acc @ [2 ^ ?t]" "filled + 2 ^ ?t"] obtain ps where
    ps: "fill_pieces n ?g (acc @ [2 ^ ?t]) (filled + 2 ^ ?t) = (acc @ [2 ^ ?t] @ ps, filled + 2 ^ ?t + ?g)"
      "\<forall>p\<in>set ps. \<exists>k. bit ?g k \<and> p = 2 ^ k" "sum_list (map unat ps) = unat ?g"
      "\<And>off k. unat ?g < 2 ^ k \<Longrightarrow> 2 ^ k dvd off + unat ?g \<Longrightarrow> aligned off (map unat ps)"
    using n by auto
  have run: "fill_pieces (count_ones f) f acc filled = (acc @ (2 ^ ?t # ps), filled + f)"
    using ps(1) clear(1) by (simp add: Let_def flip: Suc.hyps(2))
  have "\<exists>k. bit f k \<and> p = 2 ^ k" if mem: "p \<in> set (2 ^ ?t # ps)" for p
  proof (cases "p = 2 ^ ?t")
    case False
    then obtain k where "bit ?g k" "p = 2 ^ k" using mem ps(2) by auto
    moreover from this False have "bit f k" by (auto simp: bit_xor_iff bit_power_word)
    ultimately show ?thesis by blast
  qed (use tz(2) in blast)
  moreover have "sum_list (map unat (2 ^ ?t # ps)) = unat f" using ps(3) clear pow by simp
  moreover have "aligned off (map unat (2 ^ ?t # ps))" if "unat f < 2 ^ k" "2 ^ k dvd off + unat f" for off k
  proof -
    have "(2 :: nat) ^ ?t < 2 ^ k" using clear(3) that(1) by linarith
    then have "(2 :: nat) ^ ?t dvd 2 ^ k" by (intro le_imp_power_dvd) simp
    then have "2 ^ ?t dvd off + unat f" using that(2) dvd_trans by blast
    moreover have "2 ^ ?t dvd unat f" using tz(3) by (rule no_low_bits_dvd)
    ultimately have "2 ^ ?t dvd off" by (simp add: dvd_add_left_iff)
    moreover have "aligned (off + 2 ^ ?t) (map unat ps)"
      using that clear by (intro ps(4) [of k]) auto
    ultimately show ?thesis using pow by simp
  qed
  ultimately show ?case using run by blast
qed

text \<open>The zero pieces between an offset and the next multiple of a size \<open>2 ^ k\<close>.\<close>

lemma to_fill_dvd:
  assumes "k < 64"
  shows "2 ^ k dvd off + unat ((0 - of_nat off :: u64) mod 2 ^ k)"
proof -
  have exp: "(2 :: nat) ^ k dvd 2 ^ 64" using assms by (intro le_imp_power_dvd) simp
  have "(unat (of_nat off :: u64) + unat (0 - of_nat off :: u64)) mod 2 ^ 64 = unat (of_nat off + (0 - of_nat off) :: u64)"
    by (subst unat_word_ariths(1)) simp
  then have "(unat (of_nat off :: u64) + unat (0 - of_nat off :: u64)) mod 2 ^ 64 = 0" by simp
  then have "(off + unat (0 - of_nat off :: u64)) mod 2 ^ 64 = 0"
    by (simp add: unat_of_nat mod_add_left_eq)
  then have "2 ^ k dvd off + unat (0 - of_nat off :: u64)" using exp dvd_trans by blast
  then have "(off + unat (0 - of_nat off :: u64) mod 2 ^ k) mod 2 ^ k = 0" by (simp add: mod_add_right_eq dvd_eq_mod_eq_0)
  then show ?thesis using unat_power_word [OF assms] by (simp add: unat_mod dvd_eq_mod_eq_0)
qed

lemma required_padding:
  assumes "k < 64"
  obtains ps where "get_required_padding (of_nat off) (2 ^ k) = Some (ps, of_nat (sum_list (map unat ps)))"
    "aligned off (map unat ps)" "2 ^ k dvd off + sum_list (map unat ps)" "sum_list (map unat ps) < 2 ^ k"
    "\<And>j. 2 ^ j dvd off \<Longrightarrow> j \<le> k \<Longrightarrow> (\<forall>p\<in>set ps. \<exists>i. j \<le> i \<and> i < k \<and> p = 2 ^ i)"
proof -
  let ?f = "(0 - of_nat off :: u64) mod 2 ^ k"
  obtain ps where ps: "fill_pieces (count_ones ?f) ?f [] 0 = (ps, ?f)"
    "\<forall>p\<in>set ps. \<exists>i. bit ?f i \<and> p = 2 ^ i" "sum_list (map unat ps) = unat ?f"
    "\<And>off k. unat ?f < 2 ^ k \<Longrightarrow> 2 ^ k dvd off + unat ?f \<Longrightarrow> aligned off (map unat ps)"
    using fill_pieces_spec [of ?f "[]" 0] by auto
  have small: "unat ?f < 2 ^ k" using unat_power_word [OF assms] by (simp add: unat_mod)
  note fill = to_fill_dvd [OF assms, of off]
  show ?thesis
  proof
    show "get_required_padding (of_nat off) (2 ^ k) = Some (ps, of_nat (sum_list (map unat ps)))"
      using ps(1,3) assms by (auto simp: get_required_padding_def Let_def)
    show "aligned off (map unat ps)" using ps(4) small fill by blast
    show "2 ^ k dvd off + sum_list (map unat ps)" "sum_list (map unat ps) < 2 ^ k"
      using ps(3) fill small by simp_all
    show "\<forall>p\<in>set ps. \<exists>i. j \<le> i \<and> i < k \<and> p = 2 ^ i" if "2 ^ j dvd off" "j \<le> k" for j
    proof
      fix p assume "p \<in> set ps"
      then obtain i where i: "bit ?f i" "p = 2 ^ i" using ps(2) by blast
      have "2 ^ j dvd off + unat ?f" using fill le_imp_power_dvd [OF that(2), of "2 :: nat"] dvd_trans by blast
      then have "2 ^ j dvd unat ?f" using that(1) by (simp add: dvd_add_right_iff)
      then have "j \<le> i" using i(1) low_bits_clear [of j ?f i] by (meson not_le)
      moreover have "(2 :: nat) ^ i < 2 ^ k" using clear_bit_sub(3) [OF i(1)] small by linarith
      then have "i < k" by simp
      ultimately show "\<exists>i. j \<le> i \<and> i < k \<and> p = 2 ^ i" using i(2) by blast
    qed
  qed
qed

subsection \<open>The layout of a sector\<close>

text \<open>A piece of the layout: its padded size and its commitment.\<close>

type_synonym item = "u64 \<times> bytes"

definition to_api :: "item \<Rightarrow> api_piece" where
  "to_api i = \<lparr>ap_commitment = snd i, ap_size = unpadded (fst i)\<rparr>"

definition piece_item :: "PieceInfo \<Rightarrow> item" where
  "piece_item p = (piece_size p, mh_digest (piece_cid p))"

lemma fst_piece_item [simp]: "fst (piece_item p) = piece_size p"
  by (simp add: piece_item_def)

definition item_sizes :: "item list \<Rightarrow> nat list" where
  "item_sizes items = map (\<lambda>i. unat (fst i)) items"

definition is_zero_piece :: "item \<Rightarrow> bool" where
  "is_zero_piece i \<longleftrightarrow> zero_piece_commitment (fst i) = Some (snd i)"

lemma item_sizes_simps [simp]:
  "item_sizes [] = []" "item_sizes (i # is) = unat (fst i) # item_sizes is"
  "item_sizes (is @ js) = item_sizes is @ item_sizes js"
  by (simp_all add: item_sizes_def)

text \<open>The sizes of the zero pieces that the table of commitments has.\<close>

definition tabled :: "u64 \<Rightarrow> bool" where
  "tabled s \<longleftrightarrow> (\<exists>k. 7 \<le> k \<and> k < 42 \<and> s = 2 ^ k)"

lemma tabled_dvd: "tabled s \<Longrightarrow> 128 dvd unat s"
  using le_imp_power_dvd [of 7 _ "2 :: nat"] by (auto simp: tabled_def unat_power_word)

lemma tabled_zero:
  assumes "tabled s"
  obtains c where "zero_piece s = Some (to_api (s, c))" "is_zero_piece (s, c)"
  using assms by (auto simp: tabled_def zero_piece_def to_api_def is_zero_piece_def elim: zero_commitment_power)

lemma pad_to_spec:
  assumes "\<forall>p\<in>set ps. tabled p"
  shows "\<exists>zs. pad_to ps pieces (of_nat off) = Some (pieces @ map to_api zs, of_nat (off + sum_list (item_sizes zs))) \<and>
    map fst zs = ps \<and> list_all is_zero_piece zs"
  using assms
proof (induction ps arbitrary: pieces off)
  case Nil
  then show ?case by (intro exI [of _ "[]"]) simp
next
  case (Cons p ps)
  from Cons.prems obtain c where c: "zero_piece p = Some (to_api (p, c))" "is_zero_piece (p, c)"
    by (auto elim: tabled_zero)
  from Cons.IH [of "pieces @ [to_api (p, c)]" "off + unat p"] Cons.prems obtain zs where
    "pad_to ps (pieces @ [to_api (p, c)]) (of_nat (off + unat p)) =
      Some (pieces @ to_api (p, c) # map to_api zs, of_nat (off + unat p + sum_list (item_sizes zs)))"
    "map fst zs = ps" "list_all is_zero_piece zs"
    by auto
  then show ?case using c by (intro exI [of _ "(p, c) # zs"]) (simp add: add.assoc)
qed

text \<open>Filling the gap in front of a piece.\<close>

lemma gap_spec:
  assumes "tabled s" "128 dvd off"
  obtains ps zs where "get_required_padding (of_nat off) s = Some (ps, of_nat (sum_list (map unat ps)))"
    "pad_to ps pieces (of_nat off) = Some (pieces @ map to_api zs, of_nat (off + sum_list (item_sizes zs)))"
    "aligned off (item_sizes zs)" "unat s dvd off + sum_list (item_sizes zs)"
    "sum_list (item_sizes zs) < unat s" "list_all is_zero_piece zs"
proof -
  obtain k where k: "7 \<le> k" "k < 42" "s = 2 ^ k" using assms(1) by (auto simp: tabled_def)
  then have k64: "k < 64" and s: "unat s = 2 ^ k" by (simp_all add: unat_power_word)
  obtain ps where ps: "get_required_padding (of_nat off) (2 ^ k) = Some (ps, of_nat (sum_list (map unat ps)))"
    "aligned off (map unat ps)" "2 ^ k dvd off + sum_list (map unat ps)" "sum_list (map unat ps) < 2 ^ k"
    "\<And>j. 2 ^ j dvd off \<Longrightarrow> j \<le> k \<Longrightarrow> (\<forall>p\<in>set ps. \<exists>i. j \<le> i \<and> i < k \<and> p = 2 ^ i)"
    using k64 by (rule required_padding [where off = off]) blast
  have "\<forall>p\<in>set ps. tabled p" using ps(5) [of 7] assms(2) k by (fastforce simp: tabled_def)
  from pad_to_spec [OF this, of pieces off] obtain zs where
    zs: "pad_to ps pieces (of_nat off) = Some (pieces @ map to_api zs, of_nat (off + sum_list (item_sizes zs)))"
      "map fst zs = ps" "list_all is_zero_piece zs" by blast
  have sizes: "item_sizes zs = map unat ps" using zs(2) by (auto simp: item_sizes_def)
  show ?thesis by (rule that [OF _ zs(1) _ _ _ zs(3)]) (use ps k s sizes in simp_all)
qed

definition piece_ok :: "PieceInfo \<Rightarrow> bool" where
  "piece_ok p \<longleftrightarrow> tabled (piece_size p) \<and> (\<exists>c. cid_to_piece_commitment_v1 (piece_cid p) = Inr c)"

lemma piece_ok_item: "piece_ok p \<Longrightarrow> piece_try_from p = Inr (to_api (piece_item p))"
proof -
  assume "piece_ok p"
  then obtain c where c: "cid_to_piece_commitment_v1 (piece_cid p) = Inr c" by (auto simp: piece_ok_def)
  then have "c = mh_digest (piece_cid p)" by (simp add: cid_to_piece_commitment_v1_def data_commitment_iff)
  with c show ?thesis by (simp add: piece_try_from_def to_api_def piece_item_def)
qed

lemma place_pieces_spec:
  assumes "list_all piece_ok ps" "128 dvd off"
  shows "\<exists>items. place_pieces ps pieces (of_nat off) =
      Some (Inr (pieces @ map to_api items, of_nat (off + sum_list (item_sizes items)))) \<and>
    aligned off (item_sizes items) \<and> 128 dvd off + sum_list (item_sizes items) \<and>
    subseq (map piece_item ps) items \<and>
    (\<forall>i\<in>set items. i \<in> piece_item ` set ps \<or> is_zero_piece i) \<and>
    (if ps = [] then items = [] else items \<noteq> [] \<and> last items = piece_item (last ps))"
  using assms
proof (induction ps arbitrary: pieces off)
  case Nil
  then show ?case by (intro exI [of _ "[]"]) simp
next
  case (Cons p ps)
  have p: "tabled (piece_size p)" "piece_try_from p = Inr (to_api (piece_item p))"
    using Cons.prems piece_ok_item by (auto simp: piece_ok_def)
  obtain pads zs where gap: "get_required_padding (of_nat off) (piece_size p) = Some (pads, of_nat (sum_list (map unat pads)))"
    "pad_to pads pieces (of_nat off) = Some (pieces @ map to_api zs, of_nat (off + sum_list (item_sizes zs)))"
    "aligned off (item_sizes zs)" "unat (piece_size p) dvd off + sum_list (item_sizes zs)"
    "list_all is_zero_piece zs"
    using p(1) Cons.prems(2) by (rule gap_spec [where pieces = pieces]) blast
  let ?off = "off + sum_list (item_sizes zs) + unat (piece_size p)"
  have "128 dvd ?off" using tabled_dvd [OF p(1)] gap(4) by (meson dvd_add dvd_trans)
  with Cons.IH [of ?off "pieces @ map to_api zs @ [to_api (piece_item p)]"] Cons.prems obtain items where
    items: "place_pieces ps (pieces @ map to_api zs @ [to_api (piece_item p)]) (of_nat ?off) =
      Some (Inr (pieces @ map to_api zs @ to_api (piece_item p) # map to_api items, of_nat (?off + sum_list (item_sizes items))))"
    "aligned ?off (item_sizes items)" "128 dvd ?off + sum_list (item_sizes items)"
    "subseq (map piece_item ps) items" "\<forall>i\<in>set items. i \<in> piece_item ` set ps \<or> is_zero_piece i"
    "if ps = [] then items = [] else items \<noteq> [] \<and> last items = piece_item (last ps)"
    by auto
  let ?items = "zs @ piece_item p # items"
  have sum: "sum_list (item_sizes ?items) = sum_list (item_sizes zs) + unat (piece_size p) + sum_list (item_sizes items)"
    by (simp add: piece_item_def)
  have "place_pieces (p # ps) pieces (of_nat off) =
      Some (Inr (pieces @ map to_api ?items, of_nat (off + sum_list (item_sizes ?items))))"
    using gap(1,2) p(2) items(1) by (simp add: no_panic_def sum add.assoc)
  moreover have "aligned off (item_sizes ?items)"
    using gap(3,4) items(2) by (simp add: aligned_append piece_item_def add.assoc)
  moreover have "128 dvd off + sum_list (item_sizes ?items)" using items(3) by (simp only: sum add.assoc)
  moreover have "subseq (map piece_item (p # ps)) ?items" using items(4) by (simp add: list_emb_append2)
  moreover have "\<forall>i\<in>set ?items. i \<in> piece_item ` set (p # ps) \<or> is_zero_piece i"
    using items(5) gap(5) by (auto simp: list_all_iff)
  moreover have "if p # ps = [] then ?items = [] else ?items \<noteq> [] \<and> last ?items = piece_item (last (p # ps))" using items(6) by (auto split: if_splits)
  ultimately show ?case by blast
qed

lemma sector_size_power: obtains k where "10 < k" "k < 37" "sector_size_bytes s = 2 ^ k"
  by (cases s) (auto simp: push_bit_eq_mult intro: that [of 11] that [of 23] that [of 29] that [of 35] that [of 36])

lemma sector_size_tabled: "tabled (sector_size_bytes s)"
proof -
  obtain k where "10 < k" "k < 37" "sector_size_bytes s = 2 ^ k" by (rule sector_size_power)
  then show ?thesis unfolding tabled_def by (intro exI [of _ k]) simp
qed

lemma valid_piece_tabled:
  assumes "validate_padded p = Inr ()" "p \<le> sector_size_bytes s"
  shows "tabled p"
proof -
  obtain k where k: "7 \<le> k" "k < 64" "p = 2 ^ k" using assms(1) by (auto simp: valid_padded_iff)
  obtain m where m: "10 < m" "m < 37" "sector_size_bytes s = 2 ^ m" by (rule sector_size_power)
  have "unat p \<le> unat (sector_size_bytes s)" using assms(2) by (simp add: word_le_nat_alt)
  then have "(2 :: nat) ^ k \<le> 2 ^ m" using k m by (simp add: unat_power_word)
  then have "k \<le> m" by simp
  then show ?thesis using k m by (auto simp: tabled_def)
qed

lemma sized_proof_converts: "seal_sector_size pt = Inr s \<Longrightarrow> \<exists>spt. seal_try_from pt = Inr spt"
  by (cases pt) simp_all

lemma sector_pieces_spec:
  assumes "pieces \<noteq> []" "list_all piece_ok pieces" "tabled s"
  shows "\<exists>pre post. sector_pieces s pieces = Some (Inr (map to_api (pre @ post))) \<and>
    aligned 0 (item_sizes (pre @ post)) \<and> unat s dvd sum_list (item_sizes (pre @ post)) \<and>
    subseq (map piece_item pieces) pre \<and> (\<forall>i\<in>set pre. i \<in> piece_item ` set pieces \<or> is_zero_piece i) \<and>
    pre \<noteq> [] \<and> last pre = piece_item (last pieces) \<and>
    list_all is_zero_piece post \<and> sum_list (item_sizes post) < unat s"
proof -
  from place_pieces_spec [OF assms(2), of 0 "[]"] assms(1) obtain pre where
    pre: "place_pieces pieces [] 0 = Some (Inr (map to_api pre, of_nat (sum_list (item_sizes pre))))"
      "aligned 0 (item_sizes pre)" "128 dvd sum_list (item_sizes pre)" "subseq (map piece_item pieces) pre"
      "\<forall>i\<in>set pre. i \<in> piece_item ` set pieces \<or> is_zero_piece i" "pre \<noteq> []" "last pre = piece_item (last pieces)"
    by auto
  obtain pads post where post: "get_required_padding (of_nat (sum_list (item_sizes pre))) s =
      Some (pads, of_nat (sum_list (map unat pads)))"
    "pad_to pads (map to_api pre) (of_nat (sum_list (item_sizes pre))) =
      Some (map to_api pre @ map to_api post, of_nat (sum_list (item_sizes pre) + sum_list (item_sizes post)))"
    "aligned (sum_list (item_sizes pre)) (item_sizes post)"
    "unat s dvd sum_list (item_sizes pre) + sum_list (item_sizes post)"
    "sum_list (item_sizes post) < unat s" "list_all is_zero_piece post"
    using assms(3) pre(3) by (rule gap_spec [where pieces = "map to_api pre"]) blast
  show ?thesis
    by (rule exI [of _ pre], rule exI [of _ post])
      (use assms(1) pre post in \<open>simp add: sector_pieces_def no_panic_def aligned_append\<close>)
qed

text \<open>
  C37: the layout of a sector. For a known proof type and pieces with valid sizes that are at most
  the size of the sector and with data commitments as CIDs, computing the unsealed CID does not panic and asks the
  proofs crate for the commitment of a list of pieces that contains the given pieces in their
  order; everything else in it is a zero piece with its own commitment. Every piece of the list
  starts at a multiple of its size, the list fills a whole number of sectors, and what follows the
  last given piece is less than a sector. This holds for any number of pieces, although the code
  adds the sizes in 64 bits.
\<close>

theorem sector_layout:
  assumes "seal_sector_size pt = Inr ssz" "pieces \<noteq> []"
    "\<forall>p\<in>set pieces. validate_padded (piece_size p) = Inr () \<and> piece_size p \<le> sector_size_bytes ssz \<and>
      (\<exists>c. cid_to_piece_commitment_v1 (piece_cid p) = Inr c)"
  shows "\<exists>spt pre post. seal_try_from pt = Inr spt \<and>
    compute_unsealed_sector_cid api pt pieces =
      abind (attempt_or_illegal (api_compute_comm_d api spt (map to_api (pre @ post))))
        (\<lambda>comm_d. or_illegal (data_commitment_v1_to_cid comm_d)) \<and>
    aligned 0 (item_sizes (pre @ post)) \<and>
    unat (sector_size_bytes ssz) dvd sum_list (item_sizes (pre @ post)) \<and>
    subseq (map piece_item pieces) pre \<and> (\<forall>i\<in>set pre. i \<in> piece_item ` set pieces \<or> is_zero_piece i) \<and>
    pre \<noteq> [] \<and> last pre = piece_item (last pieces) \<and>
    list_all is_zero_piece post \<and> sum_list (item_sizes post) < unat (sector_size_bytes ssz)"
proof -
  obtain spt where spt: "seal_try_from pt = Inr spt" using sized_proof_converts [OF assms(1)] by blast
  have "list_all piece_ok pieces"
    using assms(3) valid_piece_tabled by (auto simp: list_all_iff piece_ok_def)
  from sector_pieces_spec [OF assms(2) this sector_size_tabled [of ssz]] obtain pre post where
    layout: "sector_pieces (sector_size_bytes ssz) pieces = Some (Inr (map to_api (pre @ post)))"
    and rest: "aligned 0 (item_sizes (pre @ post))" "unat (sector_size_bytes ssz) dvd sum_list (item_sizes (pre @ post))"
      "subseq (map piece_item pieces) pre" "\<forall>i\<in>set pre. i \<in> piece_item ` set pieces \<or> is_zero_piece i"
      "pre \<noteq> []" "last pre = piece_item (last pieces)" "list_all is_zero_piece post"
      "sum_list (item_sizes post) < unat (sector_size_bytes ssz)"
    by blast
  have "compute_unsealed_sector_cid api pt pieces =
      abind (attempt_or_illegal (api_compute_comm_d api spt (map to_api (pre @ post))))
        (\<lambda>comm_d. or_illegal (data_commitment_v1_to_cid comm_d))"
    using assms(1) layout spt by (simp add: compute_unsealed_sector_cid_def)
  with spt rest show ?thesis by blast
qed

definition example_piece :: "u64 \<Rightarrow> PieceInfo" where
  "example_piece s = \<lparr>piece_size = s, piece_cid = \<lparr>cid_version = 1, cid_codec = FIL_COMMITMENT_UNSEALED,
    mh_code = SHA2_256_TRUNC254_PADDED, mh_digest = replicate 32 7\<rparr>\<rparr>"

definition example_proofs :: proofs_api where
  "example_proofs = \<lparr>api_verify_window_post = (\<lambda>_ _ _ _. Some (Inr True)),
    api_verify_seal = (\<lambda>_ _ _ _ _ _ _ proof. if proof = [] then None else Some (Inr (hd proof = 1))),
    api_get_seal_inputs = (\<lambda>_ _ _ _ _ _ _. Some (Inr [])), api_verify_aggregate = (\<lambda>_ _ _ _ _ _. Some (Inr True)),
    api_verify_empty_sector_update = (\<lambda>_ _ _ _ _. Some (Inl ())),
    api_compute_comm_d = (\<lambda>_ ps. Some (Inr (replicate 32 (of_nat (length ps)))))\<rparr>"

theorem sector_layout_witness:
  "\<exists>spt pre post. seal_try_from RegisteredSealProof.StackedDRG2KiBV1 = Inr spt \<and>
    compute_unsealed_sector_cid example_proofs RegisteredSealProof.StackedDRG2KiBV1 [example_piece 128, example_piece 512] =
      abind (attempt_or_illegal (api_compute_comm_d example_proofs spt (map to_api (pre @ post))))
        (\<lambda>comm_d. or_illegal (data_commitment_v1_to_cid comm_d)) \<and>
    aligned 0 (item_sizes (pre @ post)) \<and> 2048 dvd sum_list (item_sizes (pre @ post)) \<and>
    subseq (map piece_item [example_piece 128, example_piece 512]) pre \<and> sum_list (item_sizes post) < 2048"
proof -
  have valid: "validate_padded 128 = Inr ()" "validate_padded 512 = Inr ()"
    using valid_padded_iff [of 128] valid_padded_iff [of 512] by (auto intro: exI [of _ 7] exI [of _ 9])
  have "cid_to_piece_commitment_v1 (piece_cid (example_piece s)) = Inr (replicate 32 7)" for s
    by (simp add: cid_to_piece_commitment_v1_def data_commitment_iff example_piece_def)
  moreover have "piece_size (example_piece s) = s" for s by (simp add: example_piece_def)
  ultimately show ?thesis
    using sector_layout [of RegisteredSealProof.StackedDRG2KiBV1 Size2KiB "[example_piece 128, example_piece 512]" example_proofs] valid
    by (auto simp del: map_append)
qed

end
