(* ===== verification/FilecoinKernel.thy ===== *)
theory FilecoinKernel
  imports Kernel SectorLayout
begin

text \<open>
  The Filecoin kernel: \<open>fvm/src/kernel/filecoin.rs\<close>, the operations that the Filecoin network's
  built-in actors need in addition to the default kernel. Each one charges gas, converts its
  arguments and calls the proofs crate (or, for consensus faults, the node); a panic on the way is
  caught and becomes an illegal argument. \<open>DefaultFilecoinKernel\<close> only wraps the default kernel, so
  its state is the same record. Running seal checks in parallel is not visible in their results.
\<close>

definition catch_and_log_panic :: "'a risky \<Rightarrow> 'a kresult" where
  "catch_and_log_panic f = (case f of
      Some v \<Rightarrow> v
    | None \<Rightarrow> Inl (Syscall IllegalArgument))"

text \<open>A computation on every element of a list, up to the first error or panic.\<close>

primrec amap :: "('a \<Rightarrow> 'b risky) \<Rightarrow> 'a list \<Rightarrow> 'b list risky" where
  "amap f [] = Some (Inr [])"
| "amap f (x # xs) = abind (f x) (\<lambda>y. abind (amap f xs) (\<lambda>ys. Some (Inr (y # ys))))"

definition bytes_32 :: "bytes \<Rightarrow> bytes risky" where
  "bytes_32 buf = (if length buf = 32 then Some (Inr buf) else None)"

subsection \<open>Checks of proofs\<close>

definition check_valid_proof_type :: "RegisteredPoStProof \<Rightarrow> RegisteredSealProof \<Rightarrow> bool" where
  "check_valid_proof_type post_type seal_type = (case registered_window_post_proof seal_type of
      Inr proof_type_v1p1 \<Rightarrow> proof_type_v1p1 = post_type
    | Inl _ \<Rightarrow> False)"

text \<open>The bytes of the address's payload, filled up to 32; longer ones would panic.\<close>

definition prover_id_from_u64 :: "addr_crates \<Rightarrow> u64 \<Rightarrow> bytes risky" where
  "prover_id_from_u64 crates i =
    (let prover_bytes = to_raw_bytes crates (payload (new_id i))
     in if length prover_bytes > 32 then None
        else Some (Inr (prover_bytes @ replicate (32 - length prover_bytes) 0)))"

text \<open>The map is collected from a list: of several entries for one sector the last one counts.\<close>

definition public_replica_info ::
  "RegisteredPoStProof \<Rightarrow> SectorInfo \<Rightarrow> (u64 \<times> (ApiPoStProof \<times> bytes)) risky" where
  "public_replica_info post_type sector_info =
    abind (or_illegal (cid_to_replica_commitment_v1 (si_sealed_cid sector_info))) (\<lambda>commr.
    if \<not> check_valid_proof_type post_type (si_proof sector_info) then Some (Inl (Syscall IllegalArgument))
    else abind (or_illegal (post_try_from post_type)) (\<lambda>t.
         Some (Inr (si_sector_number sector_info, (t, commr)))))"

definition to_fil_public_replica_infos ::
  "SectorInfo list \<Rightarrow> RegisteredPoStProof \<Rightarrow> (u64 \<rightharpoonup> ApiPoStProof \<times> bytes) risky" where
  "to_fil_public_replica_infos src post_type =
    abind (amap (public_replica_info post_type) src) (\<lambda>replicas. Some (Inr (map_of (rev replicas))))"

definition mask_randomness :: "bytes \<Rightarrow> bytes risky" where
  "mask_randomness r = (if length r \<le> 31 then None else Some (Inr (r[31 := r ! 31 AND 0x3f])))"

definition check_post :: "proofs_api \<Rightarrow> addr_crates \<Rightarrow> WindowPoStVerifyInfo \<Rightarrow> bool risky" where
  "check_post api crates info =
    abind (mask_randomness (wp_randomness info)) (\<lambda>randomness.
    case wp_proofs info of
      [] \<Rightarrow> None
    | first # _ \<Rightarrow>
        let proof_type = po_post_proof first
        in if \<not> list_all (\<lambda>p. po_post_proof p = proof_type) (wp_proofs info)
           then Some (Inl (Syscall IllegalArgument))
           else
             abind (to_fil_public_replica_infos (wp_challenged_sectors info) proof_type) (\<lambda>replicas.
             abind (amap (\<lambda>p. abind (or_illegal (post_try_from (po_post_proof p))) (\<lambda>t.
               Some (Inr (t, po_proof_bytes p)))) (wp_proofs info)) (\<lambda>proofs.
             abind (prover_id_from_u64 crates (wp_prover info)) (\<lambda>prover_id.
             abind (bytes_32 randomness) (\<lambda>rand.
             attempt_or_illegal (api_verify_window_post api rand proofs replicas prover_id))))))"

definition verify_seal :: "proofs_api \<Rightarrow> addr_crates \<Rightarrow> SealVerifyInfo \<Rightarrow> bool risky" where
  "verify_seal api crates vi =
    abind (or_illegal (cid_to_replica_commitment_v1 (sv_sealed_cid vi))) (\<lambda>commr.
    abind (or_illegal (cid_to_data_commitment_v1 (sv_unsealed_cid vi))) (\<lambda>commd.
    abind (prover_id_from_u64 crates (sid_miner (sv_sector_id vi))) (\<lambda>prover_id.
    abind (or_illegal (seal_try_from (sv_registered_proof vi))) (\<lambda>spt.
    abind (bytes_32 (sv_randomness vi)) (\<lambda>ticket.
    abind (bytes_32 (sv_interactive_randomness vi)) (\<lambda>seed.
    attempt_or_illegal (api_verify_seal api spt commr commd prover_id (sid_number (sv_sector_id vi))
      ticket seed (sv_proof vi))))))))"

record AggregationInputs =
  in_commr :: bytes
  in_commd :: bytes
  in_sector_id :: u64
  in_ticket :: bytes
  in_seed :: bytes

definition aggregation_input :: "AggregateSealVerifyInfo \<Rightarrow> AggregationInputs risky" where
  "aggregation_input info =
    abind (or_illegal (cid_to_replica_commitment_v1 (ai_sealed_cid info))) (\<lambda>commr.
    abind (or_illegal (cid_to_data_commitment_v1 (ai_unsealed_cid info))) (\<lambda>commd.
    abind (bytes_32 (ai_randomness info)) (\<lambda>ticket.
    abind (bytes_32 (ai_interactive_randomness info)) (\<lambda>seed.
    Some (Inr \<lparr>in_commr = commr, in_commd = commd, in_sector_id = ai_sector_number info,
      in_ticket = ticket, in_seed = seed\<rparr>)))))"

definition check_aggregate_seals ::
  "proofs_api \<Rightarrow> addr_crates \<Rightarrow> AggregateSealVerifyProofAndInfos \<Rightarrow> bool risky" where
  "check_aggregate_seals api crates agg =
    (if ag_infos agg = [] then Some (Inl (Syscall IllegalArgument))
     else
       abind (or_illegal (seal_try_from (ag_seal_proof agg))) (\<lambda>spt.
       abind (prover_id_from_u64 crates (ag_miner agg)) (\<lambda>prover_id.
       abind (amap aggregation_input (ag_infos agg)) (\<lambda>inputs.
       abind (amap (\<lambda>i. attempt_or_illegal (api_get_seal_inputs api spt (in_commr i) (in_commd i)
         prover_id (in_sector_id i) (in_ticket i) (in_seed i))) inputs) (\<lambda>inp.
       abind (or_illegal (aggregate_try_from (ag_aggregate_proof agg))) (\<lambda>agg_type.
       attempt_or_illegal (api_verify_aggregate api spt agg_type (ag_proof agg)
         (map in_commr inputs) (map in_seed inputs) (concat inp))))))))"

definition check_replica_update :: "proofs_api \<Rightarrow> ReplicaUpdateInfo \<Rightarrow> bool risky" where
  "check_replica_update api replica =
    abind (or_illegal (update_try_from (ru_update_proof_type replica))) (\<lambda>up.
    abind (or_illegal (cid_to_replica_commitment_v1 (ru_old_sealed_cid replica))) (\<lambda>commr_old.
    abind (or_illegal (cid_to_replica_commitment_v1 (ru_new_sealed_cid replica))) (\<lambda>commr_new.
    abind (or_illegal (cid_to_data_commitment_v1 (ru_new_unsealed_cid replica))) (\<lambda>commd.
    attempt_or_illegal (api_verify_empty_sector_update api up (ru_proof replica) commr_old commr_new commd)))))"

subsection \<open>The operations of the kernel\<close>

text \<open>
  A missing fallback price panics in the price list, outside of the caught part; the panic ends
  the invocation with a fatal error.
\<close>

definition k_charge_opt :: "(PriceList \<Rightarrow> GasCharge option) \<Rightarrow> unit k_op" where
  "k_charge_opt f =
    rbind (rget (\<lambda>k. f (cm_prices (k_cm k)))) (\<lambda>c. case c of
      None \<Rightarrow> rthrow Fatal
    | Some charge \<Rightarrow> k_charge (\<lambda>_. charge))"

definition fk_compute_unsealed_sector_cid :: "vm_env \<Rightarrow> RegisteredSealProof \<Rightarrow> PieceInfo list \<Rightarrow> Cid k_op" where
  "fk_compute_unsealed_sector_cid env proof_type pieces =
    rbind (k_charge on_compute_unsealed_sector_cid) (\<lambda>_.
    rlift (catch_and_log_panic (compute_unsealed_sector_cid (ve_proofs env) proof_type pieces)))"

definition fk_verify_post :: "vm_env \<Rightarrow> WindowPoStVerifyInfo \<Rightarrow> bool k_op" where
  "fk_verify_post env info =
    rbind (k_charge_opt (\<lambda>p. on_verify_post p (map po_post_proof (wp_proofs info)) (length (wp_challenged_sectors info)))) (\<lambda>_.
    rlift (catch_and_log_panic (check_post (ve_proofs env) (ve_addr env) info)))"

definition fk_verify_consensus_fault :: "vm_env \<Rightarrow> bytes \<Rightarrow> bytes \<Rightarrow> bytes \<Rightarrow> ConsensusFault option k_op" where
  "fk_verify_consensus_fault env h1 h2 extra =
    rbind (k_charge on_verify_consensus_fault) (\<lambda>_.
    rbind (rlift (or_illegal_argument (extern_verify_consensus_fault env h1 h2 extra))) (\<lambda>(fault, _).
    rreturn fault))"

text \<open>First every seal is charged for; a check that fails, errs or panics is a plain \<open>False\<close>.\<close>

primrec charge_seals :: "SealVerifyInfo list \<Rightarrow> unit k_op" where
  "charge_seals [] = rreturn ()"
| "charge_seals (vi # vis) = rbind (k_charge on_verify_seal) (\<lambda>_. charge_seals vis)"

definition seal_ok :: "vm_env \<Rightarrow> SealVerifyInfo \<Rightarrow> bool" where
  "seal_ok env vi = (case verify_seal (ve_proofs env) (ve_addr env) vi of
      Some (Inr correct) \<Rightarrow> correct
    | Some (Inl _) \<Rightarrow> False
    | None \<Rightarrow> False)"

definition fk_batch_verify_seals :: "vm_env \<Rightarrow> SealVerifyInfo list \<Rightarrow> bool list k_op" where
  "fk_batch_verify_seals env vis = rbind (charge_seals vis) (\<lambda>_. rreturn (map (seal_ok env) vis))"

definition fk_verify_aggregate_seals :: "vm_env \<Rightarrow> AggregateSealVerifyProofAndInfos \<Rightarrow> bool k_op" where
  "fk_verify_aggregate_seals env agg =
    rbind (k_charge_opt (\<lambda>p. on_verify_aggregate_seals p (ag_seal_proof agg) (length (ag_infos agg)))) (\<lambda>_.
    rlift (catch_and_log_panic (check_aggregate_seals (ve_proofs env) (ve_addr env) agg)))"

definition fk_verify_replica_update :: "vm_env \<Rightarrow> ReplicaUpdateInfo \<Rightarrow> bool k_op" where
  "fk_verify_replica_update env replica =
    rbind (k_charge on_verify_replica_update) (\<lambda>_.
    rlift (catch_and_log_panic (check_replica_update (ve_proofs env) replica)))"

definition fk_total_fil_circ_supply :: "TokenAmount k_op" where
  "fk_total_fil_circ_supply = rget (\<lambda>k. circ_supply (cm_context (k_cm k)))"

end
