(* ===== verification/Syscalls.thy ===== *)
theory Syscalls
  imports EmitEvent FilecoinKernel
begin

text \<open>
  The syscall bindings of \<open>fvm/src/syscalls/\<close>: how a running actor's linear memory
  (\<open>context.rs\<close>) and the kernel meet. A binding runs on a kernel and the memory of the actor,
  reads its arguments out of the memory, calls the kernel and returns the bytes of its result,
  which the linker (theory \<open>Vm\<close>) writes to the out pointer; the layouts are the packed, little
  endian structs of \<open>shared/src/sys/out.rs\<close>. Reading and writing CIDs is the \<open>cid\<close> crate's
  (\<open>read_cid\<close>, \<open>cid_bytes\<close> of the environment).
\<close>

subsection \<open>Memory\<close>

definition check_bounds :: "u32 \<Rightarrow> u32 \<Rightarrow> bytes \<Rightarrow> unit kresult" where
  "check_bounds off len mem =
    (if unat off + unat len \<le> length mem then Inr () else Inl (Syscall IllegalArgument))"

definition try_slice :: "u32 \<Rightarrow> u32 \<Rightarrow> bytes \<Rightarrow> bytes kresult" where
  "try_slice off len mem =
    (if unat off \<le> length mem \<and> unat len \<le> length mem - unat off
     then Inr (take (unat len) (drop (unat off) mem)) else Inl (Syscall IllegalArgument))"

fun chunks :: "nat \<Rightarrow> nat \<Rightarrow> bytes \<Rightarrow> bytes list" where
  "chunks S 0 bs = []"
| "chunks S (Suc n) bs = take S bs # chunks S n (drop S bs)"

definition try_chunks :: "nat \<Rightarrow> u32 \<Rightarrow> u32 \<Rightarrow> bytes \<Rightarrow> bytes list kresult" where
  "try_chunks S off len mem =
    (if unat len mod S \<noteq> 0 then Inl (Syscall IllegalArgument)
     else map_sum id (chunks S (unat len div S)) (try_slice off len mem))"

definition mem_read_cid :: "vm_env \<Rightarrow> u32 \<Rightarrow> bytes \<Rightarrow> Cid kresult" where
  "mem_read_cid env off mem =
    (if unat off \<le> length mem
     then (case read_cid env (drop (unat off) mem) of
         Some (c, _) \<Rightarrow> Inr c
       | None \<Rightarrow> Inl (Syscall IllegalArgument))
     else Inl (Syscall IllegalArgument))"

definition read_address :: "vm_env \<Rightarrow> u32 \<Rightarrow> u32 \<Rightarrow> bytes \<Rightarrow> Address kresult" where
  "read_address env off len mem = (case try_slice off len mem of
      Inl e \<Rightarrow> Inl e
    | Inr bz \<Rightarrow> or_error IllegalArgument (from_bytes (ve_addr env) bz))"

text \<open>Overwrite a part of the memory that is in bounds.\<close>

definition overwrite :: "nat \<Rightarrow> bytes \<Rightarrow> bytes \<Rightarrow> bytes" where
  "overwrite off bs mem = take off mem @ bs @ drop (off + length bs) mem"

subsection \<open>Operations on a kernel and a memory\<close>

type_synonym 'a s_op = "(Kernel \<times> bytes, ExecutionError, 'a) rsm"

definition on_kernel :: "'a k_op \<Rightarrow> 'a s_op" where
  "on_kernel = rzoom fst (\<lambda>k (_, mem). (k, mem))"

definition from_mem :: "(bytes \<Rightarrow> 'a kresult) \<Rightarrow> 'a s_op" where
  "from_mem f = rbind (rget (\<lambda>(_, mem). f mem)) rlift"

definition to_mem :: "nat \<Rightarrow> bytes \<Rightarrow> unit s_op" where
  "to_mem off bs = rmodify (\<lambda>(k, mem). (k, overwrite off bs mem))"

definition le_bytes :: "nat \<Rightarrow> 'a::len word \<Rightarrow> bytes" where
  "le_bytes n w = map (\<lambda>i. ucast (drop_bit (8 * i) w)) [0..<n]"

definition le_value :: "bytes \<Rightarrow> 'a::len word" where
  "le_value bs = foldr (\<lambda>b acc. ucast b + push_bit 8 acc) bs 0"

definition le32 :: "u32 \<Rightarrow> bytes" where
  "le32 w = le_bytes 4 w"

definition le64 :: "u64 \<Rightarrow> bytes" where
  "le64 w = le_bytes 8 w"

definition le128 :: "u128 \<Rightarrow> bytes" where
  "le128 w = le_bytes 16 w"

text \<open>A value of the array type \<open>[u8; n]\<close>.\<close>

definition fixed :: "nat \<Rightarrow> bytes \<Rightarrow> bytes" where
  "fixed n bs = take n (bs @ replicate n 0)"

definition utf8_string :: "bytes \<Rightarrow> string" where
  "utf8_string bs = map (\<lambda>b. char_of (unat b)) bs"

definition write_cid :: "vm_env \<Rightarrow> Cid \<Rightarrow> u32 \<Rightarrow> u32 \<Rightarrow> bytes s_op" where
  "write_cid env c off len =
    rbind (from_mem (try_slice off len)) (\<lambda>out.
    let bs = cid_bytes env c
    in if length bs > length out then rthrow (Syscall BufferTooSmall)
       else rbind (to_mem (unat off) bs) (\<lambda>_. rreturn (le32 (of_nat (length bs)))))"

subsection \<open>Bindings: ipld and self\<close>

definition stat_bytes :: "BlockStat \<Rightarrow> bytes" where
  "stat_bytes st = le64 (stat_codec st) @ le32 (stat_size st)"

definition sys_block_open :: "vm_env \<Rightarrow> u32 \<Rightarrow> bytes s_op" where
  "sys_block_open env cid =
    rbind (from_mem (mem_read_cid env cid)) (\<lambda>c.
    rbind (on_kernel (block_open env c)) (\<lambda>(i, st).
    rreturn (le64 (stat_codec st) @ le32 i @ le32 (stat_size st))))"

definition sys_block_create :: "vm_env \<Rightarrow> u64 \<Rightarrow> u32 \<Rightarrow> u32 \<Rightarrow> bytes s_op" where
  "sys_block_create env codec data_off data_len =
    rbind (from_mem (try_slice data_off data_len)) (\<lambda>data.
    rbind (on_kernel (block_create env codec data)) (\<lambda>i. rreturn (le32 i)))"

definition sys_block_link :: "vm_env \<Rightarrow> u32 \<Rightarrow> u64 \<Rightarrow> u32 \<Rightarrow> u32 \<Rightarrow> u32 \<Rightarrow> bytes s_op" where
  "sys_block_link env i hash_fun hash_len cid_off cid_len =
    rbind (from_mem (check_bounds cid_off cid_len)) (\<lambda>_.
    rbind (on_kernel (block_link env i hash_fun hash_len)) (\<lambda>c.
    write_cid env c cid_off cid_len))"

definition sys_block_read :: "u32 \<Rightarrow> u32 \<Rightarrow> u32 \<Rightarrow> u32 \<Rightarrow> bytes s_op" where
  "sys_block_read i offset obuf_off obuf_len =
    rbind (from_mem (try_slice obuf_off obuf_len)) (\<lambda>buf.
    rbind (on_kernel (block_read i offset (length buf))) (\<lambda>(data, ret).
    rbind (to_mem (unat obuf_off) data) (\<lambda>_.
    rreturn (le32 (word_of_int ret)))))"

definition sys_block_stat :: "u32 \<Rightarrow> bytes s_op" where
  "sys_block_stat i = rbind (on_kernel (block_stat i)) (\<lambda>st. rreturn (stat_bytes st))"

definition sys_root :: "vm_env \<Rightarrow> u32 \<Rightarrow> u32 \<Rightarrow> bytes s_op" where
  "sys_root env obuf_off obuf_len =
    rbind (from_mem (check_bounds obuf_off obuf_len)) (\<lambda>_.
    rbind (on_kernel root) (\<lambda>c. write_cid env c obuf_off obuf_len))"

definition sys_set_root :: "vm_env \<Rightarrow> u32 \<Rightarrow> bytes s_op" where
  "sys_set_root env cid_off =
    rbind (from_mem (mem_read_cid env cid_off)) (\<lambda>c.
    rbind (on_kernel (set_root c)) (\<lambda>_. rreturn []))"

definition token_bytes :: "TokenAmount \<Rightarrow> bytes s_op" where
  "token_bytes v = rbind (rlift (or_fatal (sys_token_amount v))) (\<lambda>w. rreturn (le128 w))"

definition sys_current_balance :: "bytes s_op" where
  "sys_current_balance = rbind (on_kernel current_balance) token_bytes"

definition sys_self_destruct :: "u32 \<Rightarrow> bytes s_op" where
  "sys_self_destruct burn_unspent =
    rbind (on_kernel (self_destruct (burn_unspent > 0))) (\<lambda>_. rreturn [])"

subsection \<open>Bindings: actor\<close>

definition sys_resolve_address :: "vm_env \<Rightarrow> u32 \<Rightarrow> u32 \<Rightarrow> bytes s_op" where
  "sys_resolve_address env addr_off addr_len =
    rbind (from_mem (read_address env addr_off addr_len)) (\<lambda>addr.
    rbind (on_kernel (k_resolve_address env addr)) (\<lambda>i. rreturn (le64 i)))"

definition sys_lookup_delegated_address :: "vm_env \<Rightarrow> u64 \<Rightarrow> u32 \<Rightarrow> u32 \<Rightarrow> bytes s_op" where
  "sys_lookup_delegated_address env i obuf_off obuf_len =
    rbind (from_mem (try_slice obuf_off obuf_len)) (\<lambda>obuf.
    rbind (on_kernel (lookup_delegated_address i)) (\<lambda>found.
    case found of
      Some addr \<Rightarrow>
        let bs = to_bytes (ve_addr env) addr
        in if length bs \<le> length obuf
           then rbind (to_mem (unat obuf_off) bs) (\<lambda>_. rreturn (le32 (of_nat (length bs))))
           else rthrow (Syscall BufferTooSmall)
    | None \<Rightarrow> rreturn (le32 0)))"

definition sys_get_actor_code_cid :: "vm_env \<Rightarrow> u64 \<Rightarrow> u32 \<Rightarrow> u32 \<Rightarrow> bytes s_op" where
  "sys_get_actor_code_cid env i obuf_off obuf_len =
    rbind (from_mem (check_bounds obuf_off obuf_len)) (\<lambda>_.
    rbind (on_kernel (get_actor_code_cid i)) (\<lambda>c. write_cid env c obuf_off obuf_len))"

definition sys_next_actor_address :: "vm_env \<Rightarrow> u32 \<Rightarrow> u32 \<Rightarrow> bytes s_op" where
  "sys_next_actor_address env obuf_off obuf_len =
    rbind (from_mem (try_slice obuf_off obuf_len)) (\<lambda>obuf.
    if unat obuf_len < PAYLOAD_HASH_LEN + 1 then rthrow (Syscall BufferTooSmall)
    else
      rbind (on_kernel (k_next_actor_address env)) (\<lambda>addr.
      let bs = to_bytes (ve_addr env) addr
      in if length bs > unat obuf_len then rthrow Fatal
         else rbind (to_mem (unat obuf_off) bs) (\<lambda>_. rreturn (le32 (of_nat (length bs))))))"

definition sys_create_actor :: "vm_env \<Rightarrow> u64 \<Rightarrow> u32 \<Rightarrow> u32 \<Rightarrow> u32 \<Rightarrow> bytes s_op" where
  "sys_create_actor env i typ_off delegated_addr_off delegated_addr_len =
    rbind (from_mem (mem_read_cid env typ_off)) (\<lambda>typ.
    rbind (if delegated_addr_len > 0
           then rbind (from_mem (read_address env delegated_addr_off delegated_addr_len)) (\<lambda>a. rreturn (Some a))
           else rreturn None) (\<lambda>addr.
    rbind (on_kernel (create_actor env typ i addr)) (\<lambda>_. rreturn [])))"

definition sys_get_builtin_actor_type :: "vm_env \<Rightarrow> u32 \<Rightarrow> bytes s_op" where
  "sys_get_builtin_actor_type env code_cid_off =
    rbind (from_mem (mem_read_cid env code_cid_off)) (\<lambda>c.
    rbind (on_kernel (get_builtin_actor_type c)) (\<lambda>i. rreturn (le32 i)))"

definition sys_get_code_cid_for_type :: "vm_env \<Rightarrow> u32 \<Rightarrow> u32 \<Rightarrow> u32 \<Rightarrow> bytes s_op" where
  "sys_get_code_cid_for_type env typ obuf_off obuf_len =
    rbind (from_mem (check_bounds obuf_off obuf_len)) (\<lambda>_.
    rbind (on_kernel (get_code_cid_for_type typ)) (\<lambda>c. write_cid env c obuf_off obuf_len))"

definition sys_install_actor :: "vm_env \<Rightarrow> u32 \<Rightarrow> bytes s_op" where
  "sys_install_actor env typ_off =
    rbind (from_mem (mem_read_cid env typ_off)) (\<lambda>typ.
    rbind (on_kernel (install_actor env typ)) (\<lambda>_. rreturn []))"

definition sys_balance_of :: "u64 \<Rightarrow> bytes s_op" where
  "sys_balance_of i = rbind (on_kernel (balance_of i)) token_bytes"

subsection \<open>Bindings: crypto\<close>

definition sig_type_from_u32 :: "u32 \<Rightarrow> SignatureType option" where
  "sig_type_from_u32 v = (if v = 1 then Some SignatureType.Secp256k1
    else if v = 2 then Some SignatureType.BLS else None)"

definition flag_i32 :: "bool \<Rightarrow> bytes" where
  "flag_i32 ok = le32 (if ok then 0 else - 1)"

definition sys_verify_signature ::
  "vm_env \<Rightarrow> u32 \<Rightarrow> u32 \<Rightarrow> u32 \<Rightarrow> u32 \<Rightarrow> u32 \<Rightarrow> u32 \<Rightarrow> u32 \<Rightarrow> bytes s_op" where
  "sys_verify_signature env sig_type sig_off sig_len addr_off addr_len plaintext_off plaintext_len =
    rbind (rlift (or_illegal_argument (ok_or () (sig_type_from_u32 sig_type)))) (\<lambda>typ.
    rbind (from_mem (try_slice sig_off sig_len)) (\<lambda>sig.
    rbind (from_mem (read_address env addr_off addr_len)) (\<lambda>addr.
    rbind (from_mem (try_slice plaintext_off plaintext_len)) (\<lambda>plaintext.
    rbind (on_kernel (verify_signature env typ sig addr plaintext)) (\<lambda>v. rreturn (flag_i32 v))))))"

text \<open>The sum of the plaintext lengths is taken in \<open>u32\<close>.\<close>

definition sys_verify_bls_aggregate :: "vm_env \<Rightarrow> u32 \<Rightarrow> u32 \<Rightarrow> u32 \<Rightarrow> u32 \<Rightarrow> u32 \<Rightarrow> bytes s_op" where
  "sys_verify_bls_aggregate env num_signers sig_off pub_keys_off plaintexts_off plaintext_lens_off =
    rbind (rlift (ok_or (Syscall IllegalArgument) (checked_mul num_signers (of_nat BLS_PUB_LEN)))) (\<lambda>pub_keys_len.
    rbind (from_mem (try_slice sig_off 96)) (\<lambda>sig.
    rbind (from_mem (try_chunks BLS_PUB_LEN pub_keys_off pub_keys_len)) (\<lambda>pub_keys.
    rbind (from_mem (try_slice plaintext_lens_off (num_signers * 4))) (\<lambda>raw_lens.
    let plaintext_lens = map le_value (chunks 4 (unat num_signers) raw_lens)
    in rbind (from_mem (try_slice plaintexts_off (sum_list plaintext_lens))) (\<lambda>plaintexts_concat.
    rbind (on_kernel (verify_bls_aggregate env sig pub_keys plaintexts_concat plaintext_lens)) (\<lambda>v.
    rreturn (flag_i32 v)))))))"

definition sys_recover_secp_public_key :: "vm_env \<Rightarrow> u32 \<Rightarrow> u32 \<Rightarrow> bytes s_op" where
  "sys_recover_secp_public_key env hash_off sig_off =
    rbind (from_mem (try_slice hash_off 32)) (\<lambda>hash.
    rbind (from_mem (try_slice sig_off 65)) (\<lambda>sig.
    rbind (on_kernel (recover_secp_public_key env hash sig)) (\<lambda>key. rreturn (fixed SECP_PUB_LEN key))))"

definition sys_hash :: "vm_env \<Rightarrow> u64 \<Rightarrow> u32 \<Rightarrow> u32 \<Rightarrow> u32 \<Rightarrow> u32 \<Rightarrow> bytes s_op" where
  "sys_hash env hcode data_off data_len digest_off digest_len =
    rbind (from_mem (check_bounds digest_off digest_len)) (\<lambda>_.
    rbind (from_mem (try_slice data_off data_len)) (\<lambda>data.
    rbind (on_kernel (k_hash env hcode data)) (\<lambda>(_, dig).
    rbind (from_mem (try_slice digest_off digest_len)) (\<lambda>out.
    let n = min (length out) (length dig)
    in rbind (to_mem (unat digest_off) (take n dig)) (\<lambda>_. rreturn (le32 (of_nat n)))))))"

subsection \<open>Bindings: message, network, randomness, events, gas, debugging\<close>

definition sys_message_context :: "bytes s_op" where
  "sys_message_context = rbind (on_kernel msg_context) (\<lambda>c.
    rreturn (le64 (mc_origin c) @ le64 (mc_nonce c) @ le64 (mc_caller c) @ le64 (mc_receiver c) @
      le64 (mc_method_number c) @ le128 (mc_value_received c) @ le128 (mc_gas_premium c) @
      le64 (if mc_read_only c then 1 else 0)))"

definition sys_network_context :: "bytes s_op" where
  "sys_network_context = rbind (on_kernel network_context) (\<lambda>c.
    rreturn (le64 (word_of_int (nc_epoch c)) @ le64 (nc_timestamp c) @ le128 (nc_base_fee c) @
      le64 (nc_chain_id c) @ le32 (nc_network_version c)))"

definition sys_tipset_cid :: "vm_env \<Rightarrow> i64 \<Rightarrow> u32 \<Rightarrow> u32 \<Rightarrow> bytes s_op" where
  "sys_tipset_cid env ep obuf_off obuf_len =
    rbind (from_mem (check_bounds obuf_off obuf_len)) (\<lambda>_.
    rbind (on_kernel (tipset_cid env (sint ep))) (\<lambda>c. write_cid env c obuf_off obuf_len))"

definition sys_get_chain_randomness :: "vm_env \<Rightarrow> i64 \<Rightarrow> bytes s_op" where
  "sys_get_chain_randomness env round_epoch =
    rbind (on_kernel (get_randomness_from_tickets env (sint round_epoch))) (\<lambda>r. rreturn (fixed 32 r))"

definition sys_get_beacon_randomness :: "vm_env \<Rightarrow> i64 \<Rightarrow> bytes s_op" where
  "sys_get_beacon_randomness env round_epoch =
    rbind (on_kernel (get_randomness_from_beacon env (sint round_epoch))) (\<lambda>r. rreturn (fixed 32 r))"

definition read_header :: "bytes \<Rightarrow> EventEntry" where
  "read_header bs = \<lparr>hdr_flags = le_value (take 8 bs), hdr_codec = le_value (take 8 (drop 8 bs)),
    hdr_key_len = le_value (take 4 (drop 16 bs)), hdr_val_len = le_value (take 4 (drop 20 bs))\<rparr>"

definition sys_emit_event :: "u32 \<Rightarrow> u32 \<Rightarrow> u32 \<Rightarrow> u32 \<Rightarrow> u32 \<Rightarrow> u32 \<Rightarrow> bytes s_op" where
  "sys_emit_event event_off event_len key_off key_len val_off val_len =
    rbind (rlift (or_illegal_argument (ok_or () (checked_mul event_len 24)))) (\<lambda>n.
    rbind (from_mem (try_slice event_off n)) (\<lambda>buf.
    rbind (from_mem (try_slice key_off key_len)) (\<lambda>raw_key.
    rbind (from_mem (try_slice val_off val_len)) (\<lambda>raw_val.
    rbind (on_kernel (emit_event (map read_header (chunks 24 (unat event_len) buf)) raw_key raw_val)) (\<lambda>_.
    rreturn [])))))"

definition sys_charge_gas :: "u32 \<Rightarrow> u32 \<Rightarrow> u64 \<Rightarrow> bytes s_op" where
  "sys_charge_gas name_off name_len amount =
    rbind (from_mem (try_slice name_off name_len)) (\<lambda>name.
    if \<not> utf8_valid name then rthrow (Syscall IllegalArgument)
    else rbind (on_kernel (k_charge_gas (utf8_string name) (gas_new amount))) (\<lambda>_. rreturn []))"

definition sys_gas_available :: "bytes s_op" where
  "sys_gas_available = rbind (on_kernel (rget k_gas_available)) (\<lambda>g. rreturn (le64 (round_down g)))"

definition sys_log :: "u32 \<Rightarrow> u32 \<Rightarrow> bytes s_op" where
  "sys_log msg_off msg_len =
    rbind (on_kernel (rget debug_enabled)) (\<lambda>enabled.
    if \<not> enabled then rreturn []
    else
      rbind (from_mem (try_slice msg_off msg_len)) (\<lambda>msg.
      if \<not> utf8_valid msg then rthrow (Syscall IllegalArgument)
      else rbind (on_kernel (k_log (utf8_string msg))) (\<lambda>_. rreturn [])))"

definition sys_debug_enabled :: "bytes s_op" where
  "sys_debug_enabled = rbind (on_kernel (rget debug_enabled)) (\<lambda>enabled. rreturn (flag_i32 enabled))"

definition sys_store_artifact :: "u32 \<Rightarrow> u32 \<Rightarrow> u32 \<Rightarrow> u32 \<Rightarrow> bytes s_op" where
  "sys_store_artifact name_off name_len data_off data_len =
    rbind (on_kernel (rget debug_enabled)) (\<lambda>enabled.
    if \<not> enabled then rreturn []
    else
      rbind (from_mem (try_slice data_off data_len)) (\<lambda>data.
      rbind (from_mem (try_slice name_off name_len)) (\<lambda>name.
      if \<not> utf8_valid name then rthrow (Syscall IllegalArgument)
      else rbind (on_kernel (store_artifact name data)) (\<lambda>_. rreturn []))))"

subsection \<open>Bindings of the Filecoin kernel\<close>

text \<open>Decoding CBOR is \<open>serde\<close>'s; a failure and a panic both end as an illegal argument.\<close>

definition read_cbor :: "(bytes \<Rightarrow> 'a attempt) \<Rightarrow> u32 \<Rightarrow> u32 \<Rightarrow> bytes \<Rightarrow> 'a kresult" where
  "read_cbor decode off len mem = (case try_slice off len mem of
      Inl e \<Rightarrow> Inl e
    | Inr bs \<Rightarrow> (case decode bs of
        Some r \<Rightarrow> or_error IllegalArgument r
      | None \<Rightarrow> Inl (Syscall IllegalArgument)))"

fun seal_invalid :: "RegisteredSealProof \<Rightarrow> bool" where
  "seal_invalid (RegisteredSealProof.Invalid _) = True"
| "seal_invalid _ = False"

definition sys_compute_unsealed_sector_cid :: "vm_env \<Rightarrow> i64 \<Rightarrow> u32 \<Rightarrow> u32 \<Rightarrow> u32 \<Rightarrow> u32 \<Rightarrow> bytes s_op" where
  "sys_compute_unsealed_sector_cid env proof_type pieces_off pieces_len cid_off cid_len =
    (let pt = seal_from_i64 proof_type
     in if seal_invalid pt then rthrow (Syscall IllegalArgument)
        else
          rbind (from_mem (read_cbor (dec_pieces env) pieces_off pieces_len)) (\<lambda>pieces.
          rbind (from_mem (check_bounds cid_off cid_len)) (\<lambda>_.
          rbind (on_kernel (fk_compute_unsealed_sector_cid env pt pieces)) (\<lambda>c.
          write_cid env c cid_off cid_len))))"

definition sys_verify_post :: "vm_env \<Rightarrow> u32 \<Rightarrow> u32 \<Rightarrow> bytes s_op" where
  "sys_verify_post env info_off info_len =
    rbind (from_mem (read_cbor (dec_post env) info_off info_len)) (\<lambda>info.
    rbind (on_kernel (fk_verify_post env info)) (\<lambda>v. rreturn (flag_i32 v)))"

definition fault_bytes :: "ConsensusFault option \<Rightarrow> bytes kresult" where
  "fault_bytes ret = (case ret of
      None \<Rightarrow> Inr (le64 0 @ le64 0 @ le32 0)
    | Some fault \<Rightarrow> (case or_fatal (address_id (cf_target fault)) of
        Inl e \<Rightarrow> Inl e
      | Inr target \<Rightarrow> Inr (le64 (cf_epoch fault) @ le64 target @ le32 (fault_type_u32 (cf_fault_type fault)))))"

definition sys_verify_consensus_fault ::
  "vm_env \<Rightarrow> u32 \<Rightarrow> u32 \<Rightarrow> u32 \<Rightarrow> u32 \<Rightarrow> u32 \<Rightarrow> u32 \<Rightarrow> bytes s_op" where
  "sys_verify_consensus_fault env h1_off h1_len h2_off h2_len extra_off extra_len =
    rbind (from_mem (try_slice h1_off h1_len)) (\<lambda>h1.
    rbind (from_mem (try_slice h2_off h2_len)) (\<lambda>h2.
    rbind (from_mem (try_slice extra_off extra_len)) (\<lambda>extra.
    rbind (on_kernel (fk_verify_consensus_fault env h1 h2 extra)) (\<lambda>ret.
    rlift (fault_bytes ret)))))"

definition sys_verify_aggregate_seals :: "vm_env \<Rightarrow> u32 \<Rightarrow> u32 \<Rightarrow> bytes s_op" where
  "sys_verify_aggregate_seals env agg_off agg_len =
    rbind (from_mem (read_cbor (dec_aggregate env) agg_off agg_len)) (\<lambda>info.
    rbind (on_kernel (fk_verify_aggregate_seals env info)) (\<lambda>v. rreturn (flag_i32 v)))"

definition sys_verify_replica_update :: "vm_env \<Rightarrow> u32 \<Rightarrow> u32 \<Rightarrow> bytes s_op" where
  "sys_verify_replica_update env rep_off rep_len =
    rbind (from_mem (read_cbor (dec_replica env) rep_off rep_len)) (\<lambda>info.
    rbind (on_kernel (fk_verify_replica_update env info)) (\<lambda>v. rreturn (flag_i32 v)))"

definition bool_byte :: "bool \<Rightarrow> u8" where
  "bool_byte b = (if b then 1 else 0)"

definition sys_batch_verify_seals :: "vm_env \<Rightarrow> u32 \<Rightarrow> u32 \<Rightarrow> u32 \<Rightarrow> bytes s_op" where
  "sys_batch_verify_seals env batch_off batch_len result_off =
    rbind (from_mem (read_cbor (dec_seals env) batch_off batch_len)) (\<lambda>batch.
    rbind (from_mem (try_slice result_off (of_nat (length batch)))) (\<lambda>_.
    rbind (on_kernel (fk_batch_verify_seals env batch)) (\<lambda>result.
    if length result \<noteq> length batch then rthrow Fatal
    else rbind (to_mem (unat result_off) (map bool_byte result)) (\<lambda>_. rreturn []))))"

definition sys_total_fil_circ_supply :: "bytes s_op" where
  "sys_total_fil_circ_supply = rbind (on_kernel fk_total_fil_circ_supply) token_bytes"

subsection \<open>Bindings that call actors\<close>

definition send_bytes :: "CallResult \<Rightarrow> bytes" where
  "send_bytes r = le32 (code_value (res_exit_code r)) @ le32 (res_block_id r) @
    le64 (stat_codec (res_block_stat r)) @ le32 (stat_size (res_block_stat r))"

definition sys_send ::
  "vm_env \<Rightarrow> call_fun \<Rightarrow> u32 \<Rightarrow> u32 \<Rightarrow> u64 \<Rightarrow> u32 \<Rightarrow> u64 \<Rightarrow> u64 \<Rightarrow> u64 \<Rightarrow> u64 \<Rightarrow> bytes s_op" where
  "sys_send env call recipient_off recipient_len meth params_id value_hi value_lo gas_limit flags =
    rbind (from_mem (read_address env recipient_off recipient_len)) (\<lambda>recipient.
    let value = uint value_hi * 2 ^ 64 + uint value_lo;
        limit = (if gas_limit < - 1 then Some (gas_new gas_limit) else None)
    in if flags AND NOT 1 \<noteq> 0 then rthrow (Syscall IllegalArgument)
       else rbind (on_kernel (send call recipient meth params_id value limit (flags AND 1 \<noteq> 0))) (\<lambda>r.
            rreturn (send_bytes r)))"

datatype 'a ControlFlow = Return 'a | ErrorFlow ErrorNumber | AbortFlow Abort

definition into_control_flow :: "'a kresult \<Rightarrow> 'a ControlFlow" where
  "into_control_flow r = (case r of
      Inr v \<Rightarrow> Return v
    | Inl (Syscall e) \<Rightarrow> ErrorFlow e
    | Inl OutOfGas \<Rightarrow> AbortFlow AbortOutOfGas
    | Inl Fatal \<Rightarrow> AbortFlow AbortFatal)"

type_synonym flow_op = "Kernel \<times> bytes \<Rightarrow> bytes ControlFlow \<times> (Kernel \<times> bytes)"

definition flow :: "bytes s_op \<Rightarrow> flow_op" where
  "flow m s = (case m s of (r, s') \<Rightarrow> (into_control_flow r, s'))"

text \<open>A successful upgrade does not return to the old code: it exits with the result.\<close>

definition sys_upgrade_actor :: "vm_env \<Rightarrow> call_fun \<Rightarrow> u32 \<Rightarrow> u32 \<Rightarrow> flow_op" where
  "sys_upgrade_actor env call new_code_cid_off params_id s =
    (case rbind (from_mem (mem_read_cid env new_code_cid_off)) (\<lambda>c.
            on_kernel (upgrade_actor call c params_id)) s of
      (Inl e, s') \<Rightarrow> (into_control_flow (Inl e), s')
    | (Inr r, s') \<Rightarrow>
        (if is_success (res_exit_code r) then AbortFlow (AbortExit (res_exit_code r) (res_block_id r))
         else Return (send_bytes r), s'))"

definition sys_exit :: "u32 \<Rightarrow> u32 \<Rightarrow> Abort" where
  "sys_exit v blk =
    (let c = exit_code_new v
     in if \<not> is_success c \<and> is_system_error c then AbortExit SYS_ILLEGAL_EXIT_CODE blk
        else AbortExit c blk)"

subsection \<open>The syscall table\<close>

datatype Syscall =
    VmExit u32 u32 u32 u32
  | VmMessageContext
  | NetworkContextCall
  | NetworkTipsetCid i64 u32 u32
  | IpldBlockOpen u32
  | IpldBlockCreate u64 u32 u32
  | IpldBlockRead u32 u32 u32 u32
  | IpldBlockStat u32
  | IpldBlockLink u32 u64 u32 u32 u32
  | SelfRoot u32 u32
  | SelfSetRoot u32
  | SelfCurrentBalance
  | SelfSelfDestruct u32
  | ActorResolveAddress u32 u32
  | ActorLookupDelegatedAddress u64 u32 u32
  | ActorGetActorCodeCid u64 u32 u32
  | ActorNextActorAddress u32 u32
  | ActorCreateActor u64 u32 u32 u32
  | ActorUpgradeActor u32 u32
  | ActorGetBuiltinActorType u32
  | ActorGetCodeCidForType u32 u32 u32
  | ActorBalanceOf u64
  | ActorInstallActor u32
  | CryptoVerifySignature u32 u32 u32 u32 u32 u32 u32
  | CryptoVerifyBlsAggregate u32 u32 u32 u32 u32
  | CryptoRecoverSecp u32 u32
  | CryptoHash u64 u32 u32 u32 u32
  | EventEmit u32 u32 u32 u32 u32 u32
  | RandChain i64
  | RandBeacon i64
  | GasChargeCall u32 u32 u64
  | GasAvailable
  | SendSend u32 u32 u64 u32 u64 u64 u64 u64
  | DebugLog u32 u32
  | DebugEnabled
  | DebugStoreArtifact u32 u32 u32 u32
  | NetworkTotalFilCircSupply
  | CryptoComputeUnsealedSectorCid i64 u32 u32 u32 u32
  | CryptoVerifyPost u32 u32
  | CryptoVerifyConsensusFault u32 u32 u32 u32 u32 u32
  | CryptoVerifyAggregateSeals u32 u32
  | CryptoVerifyReplicaUpdate u32 u32
  | CryptoBatchVerifySeals u32 u32 u32

text \<open>The size of the value a syscall returns through its out pointer; 0: it has none.\<close>

fun ret_size :: "Syscall \<Rightarrow> nat" where
  "ret_size VmMessageContext = 80"
| "ret_size NetworkContextCall = 44"
| "ret_size (IpldBlockOpen _) = 16"
| "ret_size (IpldBlockStat _) = 12"
| "ret_size SelfCurrentBalance = 16"
| "ret_size (ActorBalanceOf _) = 16"
| "ret_size (ActorResolveAddress _ _) = 8"
| "ret_size GasAvailable = 8"
| "ret_size (ActorUpgradeActor _ _) = 20"
| "ret_size (SendSend _ _ _ _ _ _ _ _) = 20"
| "ret_size (CryptoRecoverSecp _ _) = 65"
| "ret_size NetworkTotalFilCircSupply = 16"
| "ret_size (CryptoVerifyConsensusFault _ _ _ _ _ _) = 20"
| "ret_size (CryptoBatchVerifySeals _ _ _) = 0"
| "ret_size (RandChain _) = 32"
| "ret_size (RandBeacon _) = 32"
| "ret_size (VmExit _ _ _ _) = 0"
| "ret_size (SelfSetRoot _) = 0"
| "ret_size (SelfSelfDestruct _) = 0"
| "ret_size (ActorCreateActor _ _ _ _) = 0"
| "ret_size (ActorInstallActor _) = 0"
| "ret_size (EventEmit _ _ _ _ _ _) = 0"
| "ret_size (GasChargeCall _ _ _) = 0"
| "ret_size (DebugLog _ _) = 0"
| "ret_size (DebugStoreArtifact _ _ _ _) = 0"
| "ret_size _ = 4"

fun dispatch :: "vm_env \<Rightarrow> call_fun \<Rightarrow> Syscall \<Rightarrow> flow_op" where
  "dispatch env call (VmExit c blk _ _) = (\<lambda>s. (AbortFlow (sys_exit c blk), s))"
| "dispatch env call VmMessageContext = flow sys_message_context"
| "dispatch env call NetworkContextCall = flow sys_network_context"
| "dispatch env call (NetworkTipsetCid e a b) = flow (sys_tipset_cid env e a b)"
| "dispatch env call (IpldBlockOpen c) = flow (sys_block_open env c)"
| "dispatch env call (IpldBlockCreate c a b) = flow (sys_block_create env c a b)"
| "dispatch env call (IpldBlockRead i c a b) = flow (sys_block_read i c a b)"
| "dispatch env call (IpldBlockStat i) = flow (sys_block_stat i)"
| "dispatch env call (IpldBlockLink i h l a b) = flow (sys_block_link env i h l a b)"
| "dispatch env call (SelfRoot a b) = flow (sys_root env a b)"
| "dispatch env call (SelfSetRoot a) = flow (sys_set_root env a)"
| "dispatch env call SelfCurrentBalance = flow sys_current_balance"
| "dispatch env call (SelfSelfDestruct b) = flow (sys_self_destruct b)"
| "dispatch env call (ActorResolveAddress a b) = flow (sys_resolve_address env a b)"
| "dispatch env call (ActorLookupDelegatedAddress i a b) = flow (sys_lookup_delegated_address env i a b)"
| "dispatch env call (ActorGetActorCodeCid i a b) = flow (sys_get_actor_code_cid env i a b)"
| "dispatch env call (ActorNextActorAddress a b) = flow (sys_next_actor_address env a b)"
| "dispatch env call (ActorCreateActor i t a b) = flow (sys_create_actor env i t a b)"
| "dispatch env call (ActorUpgradeActor c p) = sys_upgrade_actor env call c p"
| "dispatch env call (ActorGetBuiltinActorType c) = flow (sys_get_builtin_actor_type env c)"
| "dispatch env call (ActorGetCodeCidForType t a b) = flow (sys_get_code_cid_for_type env t a b)"
| "dispatch env call (ActorBalanceOf i) = flow (sys_balance_of i)"
| "dispatch env call (ActorInstallActor a) = flow (sys_install_actor env a)"
| "dispatch env call (CryptoVerifySignature t a b c d e f) = flow (sys_verify_signature env t a b c d e f)"
| "dispatch env call (CryptoVerifyBlsAggregate n a b c d) = flow (sys_verify_bls_aggregate env n a b c d)"
| "dispatch env call (CryptoRecoverSecp a b) = flow (sys_recover_secp_public_key env a b)"
| "dispatch env call (CryptoHash h a b c d) = flow (sys_hash env h a b c d)"
| "dispatch env call (EventEmit a b c d e f) = flow (sys_emit_event a b c d e f)"
| "dispatch env call (RandChain r) = flow (sys_get_chain_randomness env r)"
| "dispatch env call (RandBeacon r) = flow (sys_get_beacon_randomness env r)"
| "dispatch env call (GasChargeCall a b c) = flow (sys_charge_gas a b c)"
| "dispatch env call GasAvailable = flow sys_gas_available"
| "dispatch env call (SendSend a b m p hi lo g f) = flow (sys_send env call a b m p hi lo g f)"
| "dispatch env call (DebugLog a b) = flow (sys_log a b)"
| "dispatch env call DebugEnabled = flow sys_debug_enabled"
| "dispatch env call (DebugStoreArtifact a b c d) = flow (sys_store_artifact a b c d)"
| "dispatch env call NetworkTotalFilCircSupply = flow sys_total_fil_circ_supply"
| "dispatch env call (CryptoComputeUnsealedSectorCid t a b c d) = flow (sys_compute_unsealed_sector_cid env t a b c d)"
| "dispatch env call (CryptoVerifyPost a b) = flow (sys_verify_post env a b)"
| "dispatch env call (CryptoVerifyConsensusFault a b c d e f) = flow (sys_verify_consensus_fault env a b c d e f)"
| "dispatch env call (CryptoVerifyAggregateSeals a b) = flow (sys_verify_aggregate_seals env a b)"
| "dispatch env call (CryptoVerifyReplicaUpdate a b) = flow (sys_verify_replica_update env a b)"
| "dispatch env call (CryptoBatchVerifySeals a b c) = flow (sys_batch_verify_seals env a b c)"

end
