(* ===== verification/KernelContracts.thy ===== *)
theory KernelContracts
  imports Syscalls
begin

text \<open>
  What the kernel operations and the syscall bindings do to the call manager. The locale
  \<open>call_relation\<close> is the contract between the call manager and everything that runs inside a call:
  a relation on call manager states that every read keeps, that every write keeps when \<open>W\<close> holds,
  and that survives transactions, stack frames and inner gas limits. It is interpreted for
  \<open>evolves\<close> with \<open>W\<close> true (no call creates tokens) and for \<open>frozen\<close> with \<open>W\<close> false (a read-only call
  changes no actor and emits no event).
\<close>

subsection \<open>The contract\<close>

locale call_relation = cm_relation R
  for R :: "CallManager \<Rightarrow> CallManager \<Rightarrow> bool" +
  fixes W :: bool
  assumes W_transfer: "W \<Longrightarrow> keeps R (transfer from to v)"
    and W_delete: "W \<Longrightarrow> keeps R (cm_delete_actor i)"
    and W_create: "W \<Longrightarrow> keeps R (cm_create_actor env c i delegated)"
    and W_set_actor_root: "W \<Longrightarrow> keeps R (set_actor_root i c)"
    and W_install_code: "W \<Longrightarrow> keeps R (install_code i c)"
    and W_append_event: "W \<Longrightarrow> keeps R (append_event e)"
    and W_create_from_send: "W \<Longrightarrow> balance act = 0 \<Longrightarrow> keeps R (create_actor_from_send env addr act)"
    and R_transaction: "keeps R f \<Longrightarrow> keeps R (with_transaction f)"
    and R_depth: "R (s\<lparr>cm_call_stack_depth := d\<rparr>) s' \<Longrightarrow>
      R s (s'\<lparr>cm_call_stack_depth := cm_call_stack_depth s\<rparr>)"
    and R_stack: "R (s\<lparr>cm_actor_call_stack := st\<rparr>) s' \<Longrightarrow>
      R s (s'\<lparr>cm_actor_call_stack := cm_actor_call_stack s\<rparr>)"
    and R_inner_gas: "R (s\<lparr>cm_gas_tracker := g\<rparr>) s' \<Longrightarrow> tracker_evolves (cm_gas_tracker s) g' \<Longrightarrow>
      R s (s'\<lparr>cm_gas_tracker := g'\<rparr>)"
    and R_restore_limits: "R s s' \<Longrightarrow> limits_kept (cm_limits s) l \<Longrightarrow> R s (s'\<lparr>cm_limits := l\<rparr>)"

lemma get_then_set_evolves:
  assumes "\<And>a. balance (f a) = balance a"
  shows "keeps evolves (rbind (cm_get_actor i) (\<lambda>a. rbind (rlift (ok_or err a)) (\<lambda>st. cm_set_actor i (f st))))"
proof (rule keepsI)
  fix s r s'
  assume "rbind (cm_get_actor i) (\<lambda>a. rbind (rlift (ok_or err a)) (\<lambda>st. cm_set_actor i (f st))) s = (r, s')"
  then show "evolves s s'"
  proof (cases rule: get_some_cases)
    case (failed e)
    then show ?thesis by (blast intro: frozen_evolves)
  next
    case (ok a s1)
    have "balance (f a) = view_balance (cm_view s1) i"
      using ok assms by (simp add: frozen_def view_balance_def)
    then show ?thesis using ok by (blast intro: set_actor_evolves frozen_evolves ev_rel.R_trans)
  qed
qed

lemma set_actor_root_evolves: "keeps evolves (set_actor_root i c)"
  unfolding set_actor_root_def by (rule get_then_set_evolves) simp

lemma install_code_evolves: "keeps evolves (install_code i c)"
proof -
  let ?m = "rbind (cm_get_actor i) (\<lambda>a. rbind (rlift (ok_or (Syscall IllegalOperation) a)) (\<lambda>st.
    cm_set_actor i (actor_new c (state st) (balance st) (sequence st) None)))"
  have "keeps evolves ?m" by (rule get_then_set_evolves) (simp add: actor_new_def)
  moreover have "snd (install_code i c s) = snd (?m s)" for s
    by (auto simp: install_code_def rbind_def rreturn_def split: prod.splits sum.splits)
  ultimately show ?thesis by (simp add: keeps_def)
qed

lemma append_event_evolves: "keeps evolves (append_event e)"
  by (rule keepsI)
    (auto simp: append_event_def on_events_def rzoom_def rmodify_def evolves_def
      intro!: cm_base_fields within_append)

lemma cm_base_depth:
  "cm_base (s\<lparr>cm_call_stack_depth := d\<rparr>) s' \<Longrightarrow> cm_base s (s'\<lparr>cm_call_stack_depth := cm_call_stack_depth s\<rparr>)"
  by (simp add: cm_base_def cm_fixed_def)

lemma cm_base_stack:
  "cm_base (s\<lparr>cm_actor_call_stack := st\<rparr>) s' \<Longrightarrow> cm_base s (s'\<lparr>cm_actor_call_stack := cm_actor_call_stack s\<rparr>)"
  by (simp add: cm_base_def cm_fixed_def)

lemma cm_base_inner_gas:
  "cm_base (s\<lparr>cm_gas_tracker := g\<rparr>) s' \<Longrightarrow> tracker_evolves (cm_gas_tracker s) g' \<Longrightarrow>
   cm_base s (s'\<lparr>cm_gas_tracker := g'\<rparr>)"
  by (simp add: cm_base_def cm_fixed_def)

lemma cm_base_limits: "cm_base s s' \<Longrightarrow> limits_kept (cm_limits s) l \<Longrightarrow> cm_base s (s'\<lparr>cm_limits := l\<rparr>)"
  by (simp add: cm_base_def cm_fixed_def)

interpretation no_mint: call_relation evolves True
  by unfold_locales
    (auto intro: transfer_evolves delete_actor_evolves create_actor_evolves set_actor_root_evolves
      install_code_evolves append_event_evolves create_actor_from_send_evolves with_transaction_evolves
      simp: evolves_def cm_base_depth cm_base_stack cm_base_inner_gas cm_base_limits)

interpretation read_only: call_relation frozen False
  by unfold_locales
    (auto intro: with_transaction_frozen simp: frozen_def cm_base_depth cm_base_stack cm_base_inner_gas cm_base_limits)

subsection \<open>From the call manager to the kernel\<close>

text \<open>
  A kernel keeps its identity, and its call manager the relation; with \<open>W\<close> false this is claimed of
  read-only kernels alone.
\<close>

definition k_same :: "Kernel \<Rightarrow> Kernel \<Rightarrow> bool" where
  "k_same k k' \<longleftrightarrow> k_caller k' = k_caller k \<and> k_actor_id k' = k_actor_id k \<and> k_method k' = k_method k \<and>
    k_value_received k' = k_value_received k \<and> k_read_only k' = k_read_only k"

definition k_rel :: "(CallManager \<Rightarrow> CallManager \<Rightarrow> bool) \<Rightarrow> bool \<Rightarrow> Kernel \<Rightarrow> Kernel \<Rightarrow> bool" where
  "k_rel R W k k' \<longleftrightarrow> (W \<or> k_read_only k \<longrightarrow> k_same k k' \<and> R (k_cm k) (k_cm k'))"

definition s_rel :: "(CallManager \<Rightarrow> CallManager \<Rightarrow> bool) \<Rightarrow> bool \<Rightarrow> Kernel \<times> bytes \<Rightarrow> Kernel \<times> bytes \<Rightarrow> bool" where
  "s_rel R W s s' \<longleftrightarrow> k_rel R W (fst s) (fst s')"

text \<open>The contract of a call, as the kernel uses it: read-only calls carry no value.\<close>

definition call_ok :: "(CallManager \<Rightarrow> CallManager \<Rightarrow> bool) \<Rightarrow> bool \<Rightarrow> call_fun \<Rightarrow> bool" where
  "call_ok R W call \<longleftrightarrow> (\<forall>from to entry params value gas ro.
    W \<or> ro \<and> value = 0 \<longrightarrow> keeps R (call from to entry params value gas ro))"

sublocale call_relation \<subseteq> kr: step_preorder "k_rel R W"
  by unfold_locales (auto simp: k_rel_def k_same_def R_refl intro: R_trans)

sublocale call_relation \<subseteq> sr: step_preorder "s_rel R W"
  by unfold_locales (auto simp: s_rel_def kr.R_refl intro: kr.R_trans)

lemma charge_keeps: "keeps tracker_evolves (charge_gas name g)"
  by (simp add: keeps_def charge_gas_evolves)

context call_relation
begin

lemma k_on_cm: "keeps R m \<Longrightarrow> keeps (k_rel R W) (on_cm m)"
  by (rule keepsI) (auto simp: on_cm_def rzoom_def k_rel_def k_same_def split: prod.splits dest: keepsD)

lemma k_on_blocks: "keeps (k_rel R W) (on_blocks m)"
  by (rule keepsI) (auto simp: on_blocks_def rzoom_def k_rel_def k_same_def R_refl split: prod.splits)

lemma k_unless_read_only:
  assumes "W \<Longrightarrow> keeps (k_rel R W) m"
  shows "keeps (k_rel R W) (unless_read_only m)"
proof (rule keepsI)
  fix k r k'
  assume run: "unless_read_only m k = (r, k')"
  show "k_rel R W k k'"
  proof (cases "k_read_only k")
    case True
    with run show ?thesis by (simp add: unless_read_only_def rthrow_def kr.R_refl)
  next
    case False
    with run have "m k = (r, k')" by (simp add: unless_read_only_def)
    with False assms show ?thesis by (cases W) (auto simp: k_rel_def dest: keepsD)
  qed
qed

lemma k_charge_keeps: "keeps (k_rel R W) (k_charge f)"
  unfolding k_charge_def by (rule k_on_cm [OF keeps_charge])

lemmas k_basic = kr.keeps_rules keeps_case_prod k_charge_keeps k_on_blocks k_unless_read_only

lemma k_get_self: "keeps (k_rel R W) get_self"
  unfolding get_self_def by (intro k_basic k_on_cm keeps_get_actor_charged)

lemma k_found_actor: "keeps (k_rel R W) (found_actor i)"
  unfolding found_actor_def by (intro k_basic k_on_cm keeps_get_actor_charged)

lemma k_put_keyed: "keeps (k_rel R W) (put_keyed c data)"
  unfolding put_keyed_def
  by (intro k_on_cm keeps_on_tree) (auto simp: keeps_def rmodify_def st_within_def hm.R_refl st_view_def fun_eq_iff)

lemma k_load_params: "keeps (k_rel R W) (load_params i)"
  unfolding load_params_def by (intro k_basic)

lemma k_check_space: "keeps (k_rel R W) check_space"
  unfolding check_space_def by (intro k_basic)

lemma k_root: "keeps (k_rel R W) root"
  unfolding root_def by (intro k_basic k_get_self)

lemma k_set_root: "keeps (k_rel R W) (set_root c)"
  unfolding set_root_def by (intro k_basic k_on_cm W_set_actor_root)

lemma k_current_balance: "keeps (k_rel R W) current_balance"
  unfolding current_balance_def by (intro k_basic k_get_self)

lemma k_self_destruct: "keeps (k_rel R W) (self_destruct b)"
  unfolding self_destruct_def by (intro k_basic k_current_balance k_on_cm W_transfer W_delete)

lemma k_block_stat: "keeps (k_rel R W) (block_stat i)"
  unfolding block_stat_def by (intro k_basic)

lemma k_block_read: "keeps (k_rel R W) (block_read i off len)"
  unfolding block_read_def Let_def by (intro k_basic)

lemma k_block_link: "keeps (k_rel R W) (block_link env i h l)"
  unfolding block_link_def Let_def by (intro k_basic k_put_keyed)

lemma k_msg_context: "keeps (k_rel R W) msg_context"
  unfolding msg_context_def by (intro k_basic)

lemma k_network_context: "keeps (k_rel R W) network_context"
  unfolding network_context_def by (intro k_basic)

lemma k_tipset_cid: "keeps (k_rel R W) (tipset_cid env e)"
  unfolding tipset_cid_def Let_def by (intro k_basic)

lemma k_get_randomness: "keeps (k_rel R W) (get_randomness f e)"
  unfolding get_randomness_def by (intro k_basic)

lemma k_randomness:
  "keeps (k_rel R W) (get_randomness_from_tickets env e)" "keeps (k_rel R W) (get_randomness_from_beacon env e)"
  unfolding get_randomness_from_tickets_def get_randomness_from_beacon_def by (rule k_get_randomness)+

lemma k_crypto:
  "keeps (k_rel R W) (verify_signature env t sig signer text)"
  "keeps (k_rel R W) (verify_bls_aggregate env agg pks text lens)"
  "keeps (k_rel R W) (recover_secp_public_key env h sig)"
  "keeps (k_rel R W) (k_hash env c data)"
  unfolding verify_signature_def verify_bls_aggregate_def recover_secp_public_key_def k_hash_def
  by (intro k_basic)+

lemma k_actor_ops:
  "keeps (k_rel R W) (k_resolve_address env addr)" "keeps (k_rel R W) (get_actor_code_cid i)"
  "keeps (k_rel R W) (k_next_actor_address env)" "keeps (k_rel R W) (install_actor env c)"
  "keeps (k_rel R W) (get_builtin_actor_type c)" "keeps (k_rel R W) (get_code_cid_for_type typ)"
  "keeps (k_rel R W) (balance_of i)" "keeps (k_rel R W) (lookup_delegated_address i)"
  unfolding k_resolve_address_def get_actor_code_cid_def k_next_actor_address_def install_actor_def
    get_builtin_actor_type_def get_code_cid_for_type_def balance_of_def lookup_delegated_address_def
  by (intro k_basic k_found_actor k_on_cm keeps_resolve_address)+

lemma k_create_actor: "keeps (k_rel R W) (create_actor env c i a)"
  unfolding create_actor_def by (intro k_basic k_on_cm W_create)

lemma k_gas_debug:
  "keeps (k_rel R W) (k_charge_gas name g)" "keeps (k_rel R W) (k_log msg)" "keeps (k_rel R W) (store_artifact artifact data)"
proof -
  show "keeps (k_rel R W) (k_charge_gas name g)"
    unfolding k_charge_gas_def by (intro k_on_cm keeps_on_gas charge_keeps)
  show "keeps (k_rel R W) (k_log msg)"
    unfolding k_log_def cm_log_def by (intro k_on_cm keeps_trace)
  show "keeps (k_rel R W) (store_artifact artifact data)"
    unfolding store_artifact_def by (intro k_basic)
qed

lemma k_scan_keeps: "keeps (k_rel R W) (k_scan env codec data)"
proof -
  have "keeps tracker_evolves (scan_for_reachable_links rc codec data p)" for rc p
    by (rule keepsI) (auto simp: scan_for_reachable_links_def rbind_def rlift_def charge_gas_evolves
      split: prod.splits sum.splits dest: keepsD intro: keepsD [of tracker_evolves, OF charge_keeps])
  then show ?thesis unfolding k_scan_def by (intro k_on_cm keeps_rules keeps_on_gas)
qed

lemma k_block_open: "keeps (k_rel R W) (block_open env c)"
  unfolding block_open_def Let_def by (intro k_basic k_scan_keeps)

lemma k_block_create: "keeps (k_rel R W) (block_create env codec data)"
  unfolding block_create_def by (intro k_basic k_scan_keeps)

lemma k_charge_opt_keeps: "keeps (k_rel R W) (k_charge_opt f)"
  unfolding k_charge_opt_def by (intro k_basic)

lemma k_charge_seals: "keeps (k_rel R W) (charge_seals vis)"
  by (induction vis) (auto intro: k_basic)

lemma k_filecoin:
  "keeps (k_rel R W) (fk_compute_unsealed_sector_cid env pt pieces)" "keeps (k_rel R W) (fk_verify_post env info)"
  "keeps (k_rel R W) (fk_verify_consensus_fault env h1 h2 extra)" "keeps (k_rel R W) (fk_batch_verify_seals env vis)"
  "keeps (k_rel R W) (fk_verify_aggregate_seals env agg)" "keeps (k_rel R W) (fk_verify_replica_update env rep)"
  "keeps (k_rel R W) fk_total_fil_circ_supply"
  unfolding fk_compute_unsealed_sector_cid_def fk_verify_post_def fk_verify_consensus_fault_def
    fk_batch_verify_seals_def fk_verify_aggregate_seals_def fk_verify_replica_update_def fk_total_fil_circ_supply_def
  by (intro k_basic k_charge_opt_keeps k_charge_seals)+

lemma k_emit_event: "keeps (k_rel R W) (emit_event hs ks vs)"
  unfolding emit_event_def by (intro k_basic k_on_cm W_append_event)

lemma k_result_block: "keeps (k_rel R W) (result_block r)"
  unfolding result_block_def by (intro k_basic)

lemma k_send_as:
  assumes "call_ok R W call" and "W \<or> read_only"
  shows "keeps (k_rel R W) (send_as call from read_only to meth params value gas)"
proof (cases "read_only \<and> value \<noteq> 0")
  case True
  then show ?thesis by (simp add: send_as_def kr.keeps_throw)
next
  case False
  then have "keeps R (call from to (Invoke meth) p value gas read_only)" for p
    using assms by (auto simp: call_ok_def)
  with False show ?thesis
    unfolding send_as_def if_not_P [OF False]
    by (intro k_basic k_load_params k_check_space k_on_cm R_transaction k_result_block)
qed

lemma k_send:
  assumes "call_ok R W call"
  shows "keeps (k_rel R W) (send call to meth params value gas ro)"
proof (rule keepsI)
  fix k r k'
  assume "send call to meth params value gas ro k = (r, k')"
  then have run: "send_as call (k_actor_id k) (k_read_only k \<or> ro) to meth params value gas k = (r, k')"
    by (simp add: send_def)
  show "k_rel R W k k'"
  proof (cases "W \<or> k_read_only k")
    case True
    then have "W \<or> (k_read_only k \<or> ro)" by blast
    from keepsD [OF k_send_as [OF assms this] run] show ?thesis .
  qed (simp add: k_rel_def)
qed

lemma k_upgrade_actor:
  assumes "call_ok R W call"
  shows "keeps (k_rel R W) (upgrade_actor call c params)"
proof -
  have "W \<Longrightarrow> keeps R (upgrade_call call caller i c p)" for caller i p
    using assms unfolding upgrade_call_def by (intro keeps_rules W_install_code) (auto simp: call_ok_def)
  then show ?thesis
    unfolding upgrade_actor_def by (intro k_basic k_load_params k_check_space k_on_cm R_transaction k_result_block)
qed

lemma s_on_kernel: "keeps (k_rel R W) m \<Longrightarrow> keeps (s_rel R W) (on_kernel m)"
  by (rule keepsI) (auto simp: on_kernel_def rzoom_def s_rel_def split: prod.splits dest: keepsD)

lemma s_from_mem: "keeps (s_rel R W) (from_mem f)"
  unfolding from_mem_def by (intro sr.keeps_rules)

lemma s_to_mem: "keeps (s_rel R W) (to_mem off bs)"
  by (rule keepsI) (auto simp: to_mem_def rmodify_def s_rel_def kr.R_refl split: prod.splits)

lemmas s_basic = sr.keeps_rules keeps_case_prod s_on_kernel s_from_mem s_to_mem

lemma s_write_cid: "keeps (s_rel R W) (write_cid env c off len)"
  unfolding write_cid_def Let_def by (intro s_basic)

lemma s_token_bytes: "keeps (s_rel R W) (token_bytes v)"
  unfolding token_bytes_def by (intro s_basic)

lemmas sys_read_defs = sys_block_open_def sys_block_create_def sys_block_link_def sys_block_read_def
  sys_block_stat_def sys_root_def sys_current_balance_def sys_resolve_address_def
  sys_lookup_delegated_address_def sys_get_actor_code_cid_def sys_next_actor_address_def
  sys_get_builtin_actor_type_def sys_get_code_cid_for_type_def sys_install_actor_def sys_balance_of_def
  sys_verify_signature_def sys_verify_bls_aggregate_def sys_recover_secp_public_key_def sys_hash_def
  sys_message_context_def sys_network_context_def sys_tipset_cid_def sys_get_chain_randomness_def
  sys_get_beacon_randomness_def sys_charge_gas_def sys_gas_available_def sys_log_def
  sys_debug_enabled_def sys_store_artifact_def sys_set_root_def sys_self_destruct_def
  sys_create_actor_def sys_emit_event_def sys_compute_unsealed_sector_cid_def sys_verify_post_def
  sys_verify_consensus_fault_def sys_verify_aggregate_seals_def sys_verify_replica_update_def
  sys_batch_verify_seals_def sys_total_fil_circ_supply_def

lemmas sys_rules = s_basic s_write_cid s_token_bytes k_block_open k_block_create k_block_link k_block_read
  k_block_stat k_root k_set_root k_current_balance k_self_destruct k_actor_ops k_create_actor k_crypto
  k_msg_context k_network_context k_tipset_cid k_randomness k_gas_debug k_emit_event k_filecoin kr.keeps_get

lemma flow_keeps: "keeps (s_rel R W) m \<Longrightarrow> s_rel R W s (snd (flow m s))"
  by (auto simp: flow_def split: prod.splits dest: keepsD)

lemma s_send: "call_ok R W call \<Longrightarrow> keeps (s_rel R W) (sys_send env call a b m p hi lo g f)"
  unfolding sys_send_def Let_def by (intro s_basic k_send)

lemma s_upgrade:
  assumes "call_ok R W call"
  shows "s_rel R W s (snd (sys_upgrade_actor env call c p s))"
proof -
  have "keeps (s_rel R W) (rbind (from_mem (mem_read_cid env c)) (\<lambda>c. on_kernel (upgrade_actor call c p)))"
    by (intro s_basic k_upgrade_actor assms)
  then show ?thesis by (auto simp: sys_upgrade_actor_def split: prod.splits sum.splits dest: keepsD)
qed

lemma dispatch_keeps:
  assumes "call_ok R W call"
  shows "s_rel R W s (snd (dispatch env call sc s))"
proof (cases sc)
  case (VmExit a b c d)
  then show ?thesis by (simp add: sr.R_refl)
next
  case (ActorUpgradeActor c p)
  then show ?thesis using s_upgrade [OF assms] by simp
next
  case (SendSend a b m p hi lo g f)
  then show ?thesis using flow_keeps [OF s_send [OF assms]] by simp
qed (simp only: dispatch.simps, rule flow_keeps, unfold sys_read_defs Let_def, (intro sys_rules)+)+

end

end
