(* ===== verification/Vm.thy ===== *)
theory Vm
  imports KernelContracts
begin

text \<open>
  Running actor code: the gas accounting around Wasm execution (\<open>fvm/src/syscalls/mod.rs\<close>), the
  syscall linker (\<open>fvm/src/syscalls/linker.rs\<close>), the engine's \<open>instantiate\<close> and \<open>new_store\<close>
  (\<open>fvm/src/engine/mod.rs\<close>) and the calls of the call manager
  (\<open>fvm/src/call_manager/default.rs\<close>: \<open>call_actor\<close>, \<open>call_actor_unchecked\<close>, \<open>call_actor_resolved\<close>,
  \<open>create_account_actor_from_send\<close>).

  The Wasm runtime is not part of the sources. A module is a value of \<open>wasm_module\<close>: its exports,
  and for each entry point the behaviour of the instrumented code as a tree \<open>prog\<close> of its
  interactions with the host. At every interaction the code hands over the current value of its
  gas counter (the injected global, in milligas, negative when exhausted) and, for a syscall, the
  contents of its memory; it goes on with what the host returns. A path through the tree is
  finite, since metered code cannot run forever; what a path does is arbitrary.

  \<open>call_actor\<close> carries a bound on the nesting of calls. \<open>with_stack_frame\<close> refuses calls beyond
  \<open>max_call_depth\<close>, so \<open>max_call_depth\<close> minus the current depth is always enough: the theory
  \<open>CallProperties\<close> proves that larger bounds give the same result.
\<close>

subsection \<open>Actor code\<close>

datatype prog =
    Finish i64 u32
  | Trap i64
  | BadTrap i64
  | Panic
  | GrowMemory u64 u64 "u64 option" "bool \<Rightarrow> prog"
  | GrowTable u32 u32 "u32 option" "bool \<Rightarrow> prog"
  | HostCall i64 bytes u32 Syscall "u32 \<Rightarrow> bytes \<Rightarrow> i64 \<Rightarrow> prog"

record wasm_module =
  wm_links :: bool
  wm_memory_min :: "u64 option"
  wm_table_min :: "u32 option"
  wm_start :: "i64 \<Rightarrow> prog"
  wm_invoke :: "(BlockId \<Rightarrow> i64 \<Rightarrow> prog) option"
  wm_upgrade :: "(BlockId \<Rightarrow> BlockId \<Rightarrow> i64 \<Rightarrow> prog) option"

text \<open>The engine: modules already in its cache, the loader, and the redirections of code CIDs.\<close>

record engine =
  eng_cache :: "Cid \<Rightarrow> wasm_module option"
  eng_load :: "bytes \<Rightarrow> wasm_module option"
  eng_redirect :: "Cid \<Rightarrow> Cid option"

definition with_redirect :: "engine \<Rightarrow> Cid \<Rightarrow> Cid" where
  "with_redirect eng k = (case eng_redirect eng k of Some c \<Rightarrow> c | None \<Rightarrow> k)"

definition min_memory_bytes :: "wasm_module \<Rightarrow> u64 kresult" where
  "min_memory_bytes m = (case wm_memory_min m of
      Some pages \<Rightarrow> Inr (pages * 65536)
    | None \<Rightarrow> Inl Fatal)"

definition min_table_elements :: "wasm_module \<Rightarrow> u32 option" where
  "min_table_elements m = wm_table_min m"

subsection \<open>The invocation data and gas accounting\<close>

record InvocationData =
  inv_kernel :: Kernel
  inv_last_error :: "Cause option"
  inv_avail_gas :: i64
  inv_last_gas_available :: Gas
  inv_last_memory_bytes :: u64

type_synonym 'a i_op = "(InvocationData, Abort, 'a) rsm"

definition memory_used :: "Kernel \<Rightarrow> u64" where
  "memory_used k = curr_memory_bytes (cm_limits (k_cm k))"

definition wasm_prices :: "InvocationData \<Rightarrow> WasmGasPrices" where
  "wasm_prices d = p_wasm_rules (cm_prices (k_cm (inv_kernel d)))"

definition new_store :: "Kernel \<Rightarrow> InvocationData" where
  "new_store k = \<lparr>inv_kernel = k, inv_last_error = None, inv_avail_gas = 0,
    inv_last_gas_available = 0, inv_last_memory_bytes = memory_used k\<rparr>"

definition charge_as_fatal :: "string \<Rightarrow> Gas \<Rightarrow> unit i_op" where
  "charge_as_fatal name g =
    rzoom inv_kernel (\<lambda>k d. d\<lparr>inv_kernel := k\<rparr>) (rmap_error from_error_as_fatal (k_charge_gas name g))"

definition update_gas_available :: "unit i_op" where
  "update_gas_available d =
    (let avail_gas = k_gas_available (inv_kernel d)
     in if unat (as_milligas avail_gas) \<ge> 2 ^ 63 then (Inl AbortFatal, d)
        else (Inr (), d\<lparr>inv_avail_gas := as_milligas avail_gas,
                        inv_last_gas_available := avail_gas,
                        inv_last_memory_bytes := memory_used (inv_kernel d)\<rparr>))"

definition abs_diff_zero :: "i64 \<Rightarrow> u64" where
  "abs_diff_zero w = (if sint w < 0 then - w else w)"

text \<open>The execution gas since the last charge, and the part of it that is for memory.\<close>

definition exec_gas :: "InvocationData \<Rightarrow> Gas" where
  "exec_gas d =
    (if sint (inv_avail_gas d) < 0
     then inv_last_gas_available d + from_milligas (abs_diff_zero (inv_avail_gas d))
     else inv_last_gas_available d - from_milligas (abs_diff_zero (inv_avail_gas d)))"

definition charge_for_exec :: "unit i_op" where
  "charge_for_exec =
    rbind (rget id) (\<lambda>d.
    let exec_gas_charge = exec_gas d;
        memory_delta_bytes = sat_sub (memory_used (inv_kernel d)) (inv_last_memory_bytes d);
        memory_gas_charge = grow_memory_gas (wasm_prices d) (unat memory_delta_bytes);
        (exec_gas_charge, memory_gas_charge) =
          (if memory_gas_charge \<le> exec_gas_charge
           then (exec_gas_charge - memory_gas_charge, memory_gas_charge)
           else (0, exec_gas_charge))
    in rbind (charge_as_fatal ''wasm_exec'' exec_gas_charge) (\<lambda>_.
       rwhen (\<not> gas_is_zero memory_gas_charge) (charge_as_fatal ''wasm_memory_grow'' memory_gas_charge)))"

definition charge_syscall_gas :: "unit i_op" where
  "charge_syscall_gas = rbind (rget wasm_prices) (\<lambda>p. charge_as_fatal ''OnSyscall'' (host_call_cost p))"

definition charge_for_init :: "wasm_module \<Rightarrow> (InvocationData, ExecutionError, unit) rsm" where
  "charge_for_init m =
    rbind (rlift (min_memory_bytes m)) (\<lambda>min_bytes.
    rbind (rget wasm_prices) (\<lambda>p.
    rbind (rmodify (\<lambda>d. d\<lparr>inv_last_memory_bytes := inv_last_memory_bytes d + min_bytes\<rparr>)) (\<lambda>_.
    let charge = (\<lambda>name g. rzoom inv_kernel (\<lambda>k d. d\<lparr>inv_kernel := k\<rparr>) (k_charge_gas name g))
    in rbind (case min_table_elements m of
           Some n \<Rightarrow> charge ''wasm_table_init'' (init_table_gas p n)
         | None \<Rightarrow> rreturn ()) (\<lambda>_.
       charge ''wasm_memory_init'' (init_memory_gas p (unat min_bytes))))))"

subsection \<open>Host calls\<close>

fun syscall_name :: "Syscall \<Rightarrow> string \<times> string" where
  "syscall_name (VmExit _ _ _ _) = (''vm'', ''exit'')"
| "syscall_name VmMessageContext = (''vm'', ''message_context'')"
| "syscall_name NetworkContextCall = (''network'', ''context'')"
| "syscall_name (NetworkTipsetCid _ _ _) = (''network'', ''tipset_cid'')"
| "syscall_name (IpldBlockOpen _) = (''ipld'', ''block_open'')"
| "syscall_name (IpldBlockCreate _ _ _) = (''ipld'', ''block_create'')"
| "syscall_name (IpldBlockRead _ _ _ _) = (''ipld'', ''block_read'')"
| "syscall_name (IpldBlockStat _) = (''ipld'', ''block_stat'')"
| "syscall_name (IpldBlockLink _ _ _ _ _) = (''ipld'', ''block_link'')"
| "syscall_name (SelfRoot _ _) = (''self'', ''root'')"
| "syscall_name (SelfSetRoot _) = (''self'', ''set_root'')"
| "syscall_name SelfCurrentBalance = (''self'', ''current_balance'')"
| "syscall_name (SelfSelfDestruct _) = (''self'', ''self_destruct'')"
| "syscall_name (ActorResolveAddress _ _) = (''actor'', ''resolve_address'')"
| "syscall_name (ActorLookupDelegatedAddress _ _ _) = (''actor'', ''lookup_delegated_address'')"
| "syscall_name (ActorGetActorCodeCid _ _ _) = (''actor'', ''get_actor_code_cid'')"
| "syscall_name (ActorNextActorAddress _ _) = (''actor'', ''next_actor_address'')"
| "syscall_name (ActorCreateActor _ _ _ _) = (''actor'', ''create_actor'')"
| "syscall_name (ActorUpgradeActor _ _) = (''actor'', ''upgrade_actor'')"
| "syscall_name (ActorGetBuiltinActorType _) = (''actor'', ''get_builtin_actor_type'')"
| "syscall_name (ActorGetCodeCidForType _ _ _) = (''actor'', ''get_code_cid_for_type'')"
| "syscall_name (ActorBalanceOf _) = (''actor'', ''balance_of'')"
| "syscall_name (ActorInstallActor _) = (''actor'', ''install_actor'')"
| "syscall_name (CryptoVerifySignature _ _ _ _ _ _ _) = (''crypto'', ''verify_signature'')"
| "syscall_name (CryptoVerifyBlsAggregate _ _ _ _ _) = (''crypto'', ''verify_bls_aggregate'')"
| "syscall_name (CryptoRecoverSecp _ _) = (''crypto'', ''recover_secp_public_key'')"
| "syscall_name (CryptoHash _ _ _ _ _) = (''crypto'', ''hash'')"
| "syscall_name (EventEmit _ _ _ _ _ _) = (''event'', ''emit_event'')"
| "syscall_name (RandChain _) = (''rand'', ''get_chain_randomness'')"
| "syscall_name (RandBeacon _) = (''rand'', ''get_beacon_randomness'')"
| "syscall_name (GasChargeCall _ _ _) = (''gas'', ''charge'')"
| "syscall_name GasAvailable = (''gas'', ''available'')"
| "syscall_name (SendSend _ _ _ _ _ _ _ _) = (''send'', ''send'')"
| "syscall_name (DebugLog _ _) = (''debug'', ''log'')"
| "syscall_name DebugEnabled = (''debug'', ''enabled'')"
| "syscall_name (DebugStoreArtifact _ _ _ _) = (''debug'', ''store_artifact'')"
| "syscall_name NetworkTotalFilCircSupply = (''network'', ''total_fil_circ_supply'')"
| "syscall_name (CryptoComputeUnsealedSectorCid _ _ _ _ _) = (''crypto'', ''compute_unsealed_sector_cid'')"
| "syscall_name (CryptoVerifyPost _ _) = (''crypto'', ''verify_post'')"
| "syscall_name (CryptoVerifyConsensusFault _ _ _ _ _ _) = (''crypto'', ''verify_consensus_fault'')"
| "syscall_name (CryptoVerifyAggregateSeals _ _) = (''crypto'', ''verify_aggregate_seals'')"
| "syscall_name (CryptoVerifyReplicaUpdate _ _) = (''crypto'', ''verify_replica_update'')"
| "syscall_name (CryptoBatchVerifySeals _ _ _) = (''crypto'', ''batch_verify_seals'')"

definition cause_of :: "Syscall \<Rightarrow> ErrorNumber \<Rightarrow> Cause" where
  "cause_of sc e = (case syscall_name sc of (m, n) \<Rightarrow> CauseSyscall m n e)"

definition no_space :: "Syscall \<Rightarrow> u32 \<Rightarrow> bytes \<Rightarrow> bool" where
  "no_space sc ret mem \<longleftrightarrow> ret_size sc \<noteq> 0 \<and>
    (unat ret > length mem \<or> length mem - unat ret < ret_size sc)"

definition set_last_error :: "Cause option \<Rightarrow> unit i_op" where
  "set_last_error c = rmodify (\<lambda>d. d\<lparr>inv_last_error := c\<rparr>)"

definition syscall_result :: "Syscall \<Rightarrow> u32 \<Rightarrow> bytes ControlFlow \<Rightarrow> bytes \<Rightarrow> (u32 \<times> bytes) i_op" where
  "syscall_result sc ret out mem = (case out of
      Return value \<Rightarrow>
        rbind (set_last_error None) (\<lambda>_.
        rbind update_gas_available (\<lambda>_.
        rreturn (0, if ret_size sc = 0 then mem else overwrite (unat ret) value mem)))
    | ErrorFlow e \<Rightarrow>
        rbind (set_last_error (Some (cause_of sc e))) (\<lambda>_.
        rbind update_gas_available (\<lambda>_.
        rreturn (error_number_code e, mem)))
    | AbortFlow a \<Rightarrow> rbind update_gas_available (\<lambda>_. rthrow a))"

text \<open>
  The wrapper that the linker puts around every syscall. It returns the error number (0: success)
  and the new memory. Without space for the return value it returns before the gas counter of the
  module is refreshed.
\<close>

definition host_call :: "vm_env \<Rightarrow> call_fun \<Rightarrow> bytes \<Rightarrow> u32 \<Rightarrow> Syscall \<Rightarrow> (u32 \<times> bytes) i_op" where
  "host_call env call mem ret sc =
    rbind charge_for_exec (\<lambda>_.
    rbind charge_syscall_gas (\<lambda>_.
    if no_space sc ret mem
    then
      rbind (set_last_error (Some (cause_of sc IllegalArgument))) (\<lambda>_.
      rreturn (error_number_code IllegalArgument, mem))
    else (\<lambda>d.
      case dispatch env call sc (inv_kernel d, mem) of (out, (k, mem1)) \<Rightarrow>
        syscall_result sc ret out mem1 (d\<lparr>inv_kernel := k\<rparr>))))"

subsection \<open>Execution of a program\<close>

definition set_global :: "i64 \<Rightarrow> unit i_op" where
  "set_global g = rmodify (\<lambda>d. d\<lparr>inv_avail_gas := g\<rparr>)"

definition on_limiter :: "(DefaultMemoryLimiter \<Rightarrow> bool \<times> DefaultMemoryLimiter) \<Rightarrow> bool i_op" where
  "on_limiter f d =
    (let cm = k_cm (inv_kernel d)
     in case f (cm_limits cm) of (ok, l) \<Rightarrow>
       (Inr ok, d\<lparr>inv_kernel := (inv_kernel d)\<lparr>k_cm := cm\<lparr>cm_limits := l\<rparr>\<rparr>\<rparr>))"

definition memory_growing :: "u64 \<Rightarrow> u64 \<Rightarrow> u64 option \<Rightarrow> bool i_op" where
  "memory_growing current desired maximum =
    (if (case maximum of Some m \<Rightarrow> desired > m | None \<Rightarrow> False) then rreturn False
     else on_limiter (grow_instance_memory current desired))"

definition table_growing :: "u32 \<Rightarrow> u32 \<Rightarrow> u32 option \<Rightarrow> bool i_op" where
  "table_growing current desired maximum =
    (if (case maximum of Some m \<Rightarrow> desired > m | None \<Rightarrow> False) then rreturn False
     else on_limiter (grow_instance_table current desired))"

text \<open>
  The outcome of running code: the value, the abort that \<open>From<anyhow::Error> for Abort\<close> makes of
  the error, or a panic of the host.
\<close>

datatype outcome = Value u32 | Failed Abort | Panicked

primrec run :: "vm_env \<Rightarrow> call_fun \<Rightarrow> prog \<Rightarrow> InvocationData \<Rightarrow> outcome \<times> InvocationData" where
  "run env call (Finish g v) d = (Value v, d\<lparr>inv_avail_gas := g\<rparr>)"
| "run env call (Trap g) d = (Failed (AbortExit SYS_ILLEGAL_INSTRUCTION NO_DATA_BLOCK_ID), d\<lparr>inv_avail_gas := g\<rparr>)"
| "run env call (BadTrap g) d = (Failed AbortFatal, d\<lparr>inv_avail_gas := g\<rparr>)"
| "run env call Panic d = (Panicked, d)"
| "run env call (GrowMemory current desired maximum k) d =
    (case memory_growing current desired maximum d of
      (Inr ok, d1) \<Rightarrow> run env call (k ok) d1
    | (Inl a, d1) \<Rightarrow> (Failed a, d1))"
| "run env call (GrowTable current desired maximum k) d =
    (case table_growing current desired maximum d of
      (Inr ok, d1) \<Rightarrow> run env call (k ok) d1
    | (Inl a, d1) \<Rightarrow> (Failed a, d1))"
| "run env call (HostCall g mem ret sc k) d =
    (case host_call env call mem ret sc (d\<lparr>inv_avail_gas := g\<rparr>) of
      (Inr (errno, mem1), d1) \<Rightarrow> run env call (k errno mem1 (inv_avail_gas d1)) d1
    | (Inl a, d1) \<Rightarrow> (Failed a, d1))"

subsection \<open>Instantiation\<close>

text \<open>
  Whatever error the initialisation of the instance produces, the result is an illegal instruction.
  (A panic of the host during initialisation is not caught here; it is treated as a fatal error.)
\<close>

definition instantiate_module :: "vm_env \<Rightarrow> call_fun \<Rightarrow> wasm_module \<Rightarrow> wasm_module option i_op" where
  "instantiate_module env call m =
    rbind (rmap_error from_error_as_fatal (charge_for_init m)) (\<lambda>_.
    if \<not> wm_links m then rthrow AbortFatal
    else
      rbind update_gas_available (\<lambda>_ d.
      case run env call (wm_start m (inv_avail_gas d)) d of (res, d1) \<Rightarrow>
        rbind charge_for_exec (\<lambda>_.
        case res of
          Value _ \<Rightarrow> rreturn (Some m)
        | Failed _ \<Rightarrow> rthrow (AbortExit SYS_ILLEGAL_INSTRUCTION 0)
        | Panicked \<Rightarrow> rthrow AbortFatal) d1))"

definition instantiate :: "vm_env \<Rightarrow> engine \<Rightarrow> call_fun \<Rightarrow> Cid \<Rightarrow> wasm_module option i_op" where
  "instantiate env eng call k =
    (let k = with_redirect eng k
     in case eng_cache eng k of
          Some m \<Rightarrow> instantiate_module env call m
        | None \<Rightarrow>
            rbind (rget (\<lambda>d. st_store (cm_state_tree (k_cm (inv_kernel d))) k)) (\<lambda>found.
            case found of
              Inl _ \<Rightarrow> rthrow AbortFatal
            | Inr None \<Rightarrow> rreturn None
            | Inr (Some raw_wasm) \<Rightarrow>
                (case eng_load eng raw_wasm of
                  None \<Rightarrow> rthrow AbortFatal
                | Some m \<Rightarrow> instantiate_module env call m)))"

text \<open>\<open>Entrypoint::into_params\<close>: an upgrade gets the old code CID in a second block.\<close>

definition into_params :: "vm_env \<Rightarrow> Entrypoint \<Rightarrow> (BlockRegistry, ExecutionError, BlockId option) rsm" where
  "into_params env entry = (case entry of
      Upgrade old_code_cid \<Rightarrow>
        rbind (put_reachable (block_new CBOR (enc_upgrade_info env old_code_cid) [])) (\<lambda>i. rreturn (Some i))
    | ImplicitConstructor \<Rightarrow> rreturn None
    | Invoke _ \<Rightarrow> rreturn None)"

definition entry_func :: "wasm_module \<Rightarrow> Entrypoint \<Rightarrow> BlockId \<Rightarrow> BlockId option \<Rightarrow> (i64 \<Rightarrow> prog) option" where
  "entry_func m entry params_id extra = (case func_name entry of
      INVOKE_FUNC_NAME \<Rightarrow> map_option (\<lambda>f. f params_id) (wm_invoke m)
    | UPGRADE_FUNC_NAME \<Rightarrow> map_option (\<lambda>f. f params_id (case extra of Some i \<Rightarrow> i | None \<Rightarrow> 0)) (wm_upgrade m))"

text \<open>A panic is fatal at once; otherwise the remaining execution gas is charged before the result is read.\<close>

definition finish_entry :: "outcome \<Rightarrow> BlockId i_op" where
  "finish_entry res = (case res of
      Panicked \<Rightarrow> rthrow AbortFatal
    | Value v \<Rightarrow> rbind charge_for_exec (\<lambda>_. rreturn v)
    | Failed a \<Rightarrow> rbind charge_for_exec (\<lambda>_. rthrow a))"

definition run_entry :: "vm_env \<Rightarrow> call_fun \<Rightarrow> (i64 \<Rightarrow> prog) \<Rightarrow> BlockId i_op" where
  "run_entry env call f =
    rbind update_gas_available (\<lambda>_ d.
    case run env call (f (inv_avail_gas d)) d of (res, d1) \<Rightarrow> finish_entry res d1)"

definition run_actor ::
  "vm_env \<Rightarrow> engine \<Rightarrow> call_fun \<Rightarrow> Cid \<Rightarrow> Entrypoint \<Rightarrow> BlockId \<Rightarrow> BlockId option \<Rightarrow> BlockId i_op" where
  "run_actor env eng call code_cid entry params_id extra =
    rbind (instantiate env eng call code_cid) (\<lambda>inst.
    rbind (rlift (ok_or AbortFatal inst)) (\<lambda>m.
    if wm_memory_min m = None then rthrow AbortFatal
    else case entry_func m entry params_id extra of
      None \<Rightarrow> rthrow (AbortExit SYS_INVALID_RECEIVER 0)
    | Some f \<Rightarrow> run_entry env call f))"

subsection \<open>The result of an invocation\<close>

text \<open>The returned block, or the abort for a block that does not exist.\<close>

definition resolve_return :: "Abort + BlockId \<Rightarrow> BlockRegistry \<Rightarrow> Abort + Block option" where
  "resolve_return result blocks = (case result of
      Inl a \<Rightarrow> Inl a
    | Inr ret_id \<Rightarrow>
        if ret_id = NO_DATA_BLOCK_ID then Inr None
        else (case registry_get ret_id blocks of
            Inl _ \<Rightarrow> Inl (AbortExit SYS_MISSING_RETURN NO_DATA_BLOCK_ID)
          | Inr b \<Rightarrow> Inr (Some b)))"

fun abort_result :: "BlockRegistry \<Rightarrow> Abort \<Rightarrow> ExitCode \<times> InvocationResult kresult" where
  "abort_result blocks (AbortExit c blk_id) =
    (if blk_id = NO_DATA_BLOCK_ID then (c, Inr \<lparr>exit_code = c, ret_value = None\<rparr>)
     else case registry_get blk_id blocks of
       Inl _ \<Rightarrow> (SYS_MISSING_RETURN, Inl Fatal)
     | Inr blk \<Rightarrow> (c, Inr \<lparr>exit_code = c, ret_value = Some blk\<rparr>))"
| "abort_result blocks AbortOutOfGas = (SYS_OUT_OF_GAS, Inl OutOfGas)"
| "abort_result blocks AbortFatal = (SYS_ASSERTION_FAILED, Inl Fatal)"

definition record_frame :: "Entrypoint \<Rightarrow> ActorID \<Rightarrow> Cause option \<Rightarrow> ExitCode \<Rightarrow> CallManager \<Rightarrow> CallManager" where
  "record_frame entry to last_error c s = (case entry of
      Invoke meth \<Rightarrow>
        if is_success c then s
        else
          let b = (case last_error of Some err \<Rightarrow> backtrace_begin err (cm_backtrace s) | None \<Rightarrow> cm_backtrace s)
          in s\<lparr>cm_backtrace := backtrace_push_frame \<lparr>frame_source = to, frame_method = meth, frame_code = c\<rparr> b\<rparr>
    | ImplicitConstructor \<Rightarrow> s
    | Upgrade _ \<Rightarrow> s)"

definition charge_return :: "InvocationResult \<Rightarrow> InvocationResult cm_op" where
  "charge_return r = (case ret_value r of
      None \<Rightarrow> rreturn r
    | Some v \<Rightarrow>
        rbind (rget cm_call_stack_depth) (\<lambda>depth.
        rbind (cm_charge_gas (\<lambda>p. on_method_return p depth (block_size v) (length (block_links v)))) (\<lambda>_.
        rreturn r)))"

definition invoke_code ::
  "vm_env \<Rightarrow> engine \<Rightarrow> call_fun \<Rightarrow> Cid \<Rightarrow> ActorID \<Rightarrow> ActorID \<Rightarrow> Entrypoint \<Rightarrow> TokenAmount \<Rightarrow> bool \<Rightarrow>
   BlockRegistry \<Rightarrow> BlockId \<Rightarrow> BlockId option \<Rightarrow> InvocationResult cm_op" where
  "invoke_code env eng call code_cid from to entry value read_only registry params_id extra s =
    (let kernel = kernel_new s registry from to (method_num entry) value read_only
     in case run_actor env eng call code_cid entry params_id extra (new_store kernel) of (result, d) \<Rightarrow>
       let cm = k_cm (inv_kernel d);
           blocks = k_blocks (inv_kernel d)
       in case resolve_return result blocks of
            Inr ret \<Rightarrow> charge_return \<lparr>exit_code = OK, ret_value = ret\<rparr> cm
          | Inl abort \<Rightarrow>
              (case abort_result blocks abort of (c, res) \<Rightarrow>
                let cm = record_frame entry to (inv_last_error d) c cm
                in (case res of
                     Inr r \<Rightarrow> charge_return r cm
                   | Inl e \<Rightarrow> (Inl e, cm))))"

subsection \<open>Calls\<close>

definition param_registry :: "vm_env \<Rightarrow> Entrypoint \<Rightarrow> Block option \<Rightarrow> (BlockId \<times> BlockId option) kresult \<times> BlockRegistry" where
  "param_registry env entry params =
    rbind (case params of Some blk \<Rightarrow> put_reachable blk | None \<Rightarrow> rreturn NO_DATA_BLOCK_ID) (\<lambda>params_id.
    rbind (into_params env entry) (\<lambda>extra.
    rreturn (params_id, extra))) registry_new"

definition trace_if :: "(CallManager \<Rightarrow> bool) \<Rightarrow> (CallManager \<Rightarrow> ExecutionEvent) \<Rightarrow> unit cm_op" where
  "trace_if c e = rbind (rget (\<lambda>s. c s \<and> tracing (cm_context s))) (\<lambda>on.
    if on then rbind (rget e) cm_trace else rreturn ())"

definition param_size :: "Block option \<Rightarrow> u32 \<times> nat" where
  "param_size params = (case params of Some p \<Rightarrow> (block_size p, length (block_links p)) | None \<Rightarrow> (0, 0))"

definition call_actor_resolved ::
  "vm_env \<Rightarrow> engine \<Rightarrow> call_fun \<Rightarrow> ActorID \<Rightarrow> ActorID \<Rightarrow> Entrypoint \<Rightarrow> Block option \<Rightarrow> TokenAmount \<Rightarrow> bool \<Rightarrow>
   InvocationResult cm_op" where
  "call_actor_resolved env eng call from to entry params value read_only =
    rbind (cm_get_actor to) (\<lambda>a.
    rbind (rlift (ok_or (Syscall NotFound) a)) (\<lambda>st.
    rbind (trace_if (\<lambda>_. is_invoke entry) (\<lambda>_. EventInvokeActor to st)) (\<lambda>_.
    rbind (if value \<noteq> 0 then rbind (cm_charge_gas on_value_transfer) (\<lambda>_. transfer from to value)
           else rreturn ()) (\<lambda>_.
    if invokes entry METHOD_SEND then rreturn invocation_default
    else
      rbind (cm_charge_gas (\<lambda>p. on_method_invocation p (fst (param_size params)) (snd (param_size params)))) (\<lambda>_.
      case param_registry env entry params of
        (Inl e, _) \<Rightarrow> rthrow e
      | (Inr (params_id, extra), registry) \<Rightarrow>
          rbind (rmodify (\<lambda>s. s\<lparr>cm_invocation_count := cm_invocation_count s + 1\<rparr>)) (\<lambda>_.
          invoke_code env eng call (code st) from to entry value read_only registry params_id extra))))))"

definition create_account_actor_from_send :: "vm_env \<Rightarrow> engine \<Rightarrow> call_fun \<Rightarrow> Address \<Rightarrow> ActorID cm_op" where
  "create_account_actor_from_send env eng call addr =
    (if is_bls_zero_address addr then rthrow (Syscall IllegalArgument)
     else
       rbind (rget (\<lambda>s. account_code (cm_builtin_actors s))) (\<lambda>code_cid.
       rbind (create_actor_from_send env addr (new_empty (ve_ipld env) code_cid None)) (\<lambda>i.
       rbind (call_actor_resolved env eng call SYSTEM_ACTOR_ID i ImplicitConstructor
           (Some (block_new CBOR (enc_address env addr) [])) 0 False) (\<lambda>_.
       rreturn i))))"

definition with_call_stack :: "ActorID \<times> FuncName \<Rightarrow> 'a cm_op \<Rightarrow> 'a cm_op" where
  "with_call_stack e f s =
    (case f (s\<lparr>cm_actor_call_stack := cm_actor_call_stack s @ [e]\<rparr>) of (r, s1) \<Rightarrow>
      (r, s1\<lparr>cm_actor_call_stack := butlast (cm_actor_call_stack s1)\<rparr>))"

definition is_eam_delegated :: "Address \<Rightarrow> bool" where
  "is_eam_delegated a = (case payload a of
      Payload.Delegated da \<Rightarrow> da_namespace da = EAM_ACTOR_ID
    | _ \<Rightarrow> False)"

text \<open>The receiver of a call: resolved, or created by the call.\<close>

definition receiver_of :: "vm_env \<Rightarrow> engine \<Rightarrow> call_fun \<Rightarrow> Address \<Rightarrow> bool \<Rightarrow> ActorID cm_op" where
  "receiver_of env eng call to read_only =
    rbind (cm_resolve_address env to) (\<lambda>found.
    case found of
      Some i \<Rightarrow> rreturn i
    | None \<Rightarrow>
        if protocol to \<in> {Protocol.BLS, Protocol.Secp256k1}
        then if read_only then rthrow (Syscall ReadOnly) else create_account_actor_from_send env eng call to
        else if is_eam_delegated to
        then if read_only then rthrow (Syscall ReadOnly) else create_placeholder_actor_from_send env to
        else rthrow (Syscall NotFound))"

definition call_actor_unchecked ::
  "vm_env \<Rightarrow> engine \<Rightarrow> call_fun \<Rightarrow> ActorID \<Rightarrow> Address \<Rightarrow> Entrypoint \<Rightarrow> Block option \<Rightarrow> TokenAmount \<Rightarrow> bool \<Rightarrow>
   InvocationResult cm_op" where
  "call_actor_unchecked env eng call from to entry params value read_only =
    rbind (receiver_of env eng call to read_only) (\<lambda>to_id.
    with_call_stack (to_id, func_name entry)
      (call_actor_resolved env eng call from to_id entry params value read_only))"

definition call_event :: "ActorID \<Rightarrow> Address \<Rightarrow> Entrypoint \<Rightarrow> Block option \<Rightarrow> TokenAmount \<Rightarrow> Gas option \<Rightarrow> bool \<Rightarrow>
   CallManager \<Rightarrow> ExecutionEvent" where
  "call_event from to entry params value gas_limit read_only s =
    EventCall from to (method_num entry) (map_option to_ipld_block params) value
      (min (round_up (case gas_limit of Some g \<Rightarrow> g | None \<Rightarrow> from_milligas (- 1)))
           (round_up (Gas.gas_available (cm_gas_tracker s)))) read_only"

definition result_event :: "InvocationResult kresult \<Rightarrow> ExecutionEvent" where
  "result_event result = (case result of
      Inr r \<Rightarrow> EventCallReturn (exit_code r) (map_option to_ipld_block (ret_value r))
    | Inl OutOfGas \<Rightarrow> EventCallReturn SYS_OUT_OF_GAS None
    | Inl Fatal \<Rightarrow> EventCallError Forbidden
    | Inl (Syscall e) \<Rightarrow> EventCallError e)"

text \<open>
  An inner limit that runs out is the callee's failure, not the caller's. The limit that
  \<open>with_gas_limit\<close> pushes is still there to pop when the call returns (\<open>call_restores_stack\<close>), so the
  early return for a missing one is never taken.
\<close>

definition contain_out_of_gas :: "InvocationResult kresult \<Rightarrow> CallManager \<Rightarrow> InvocationResult kresult" where
  "contain_out_of_gas result s =
    (if \<not> gas_is_zero (Gas.gas_available (cm_gas_tracker s)) \<and> result = Inl OutOfGas
     then Inr \<lparr>exit_code = SYS_OUT_OF_GAS, ret_value = None\<rparr> else result)"

definition with_gas_limit :: "Gas option \<Rightarrow> InvocationResult cm_op \<Rightarrow> InvocationResult cm_op" where
  "with_gas_limit gas_limit f s = (case gas_limit of
      None \<Rightarrow> (case f s of (res, s1) \<Rightarrow> (contain_out_of_gas res s1, s1))
    | Some l \<Rightarrow>
        (case f (s\<lparr>cm_gas_tracker := push_limit l (cm_gas_tracker s)\<rparr>) of (res, s1) \<Rightarrow>
          (case pop_limit (cm_gas_tracker s1) of
            (Inl e, g) \<Rightarrow> (Inl e, s1\<lparr>cm_gas_tracker := g\<rparr>)
          | (Inr _, g) \<Rightarrow>
              let s2 = s1\<lparr>cm_gas_tracker := g\<rparr> in (contain_out_of_gas res s2, s2))))"

definition call_body :: "vm_env \<Rightarrow> engine \<Rightarrow> call_fun \<Rightarrow> call_fun" where
  "call_body env eng call from to entry params value gas_limit read_only =
    rbind (trace_if (\<lambda>_. is_invoke entry) (call_event from to entry params value gas_limit read_only)) (\<lambda>_ s.
    case with_gas_limit gas_limit
           (with_stack_frame (call_actor_unchecked env eng call from to entry params value read_only)) s of
      (result, s1) \<Rightarrow>
        rbind (trace_if (\<lambda>_. is_invoke entry) (\<lambda>_. result_event result)) (\<lambda>_. rlift result) s1)"

text \<open>The recursion: \<open>n\<close> bounds the nesting of calls; without any left a call is a fatal error.\<close>

definition no_call :: call_fun where
  "no_call from to entry params value gas_limit read_only = rthrow Fatal"

primrec call_actor :: "vm_env \<Rightarrow> engine \<Rightarrow> nat \<Rightarrow> call_fun" where
  "call_actor env eng 0 = call_body env eng no_call"
| "call_actor env eng (Suc n) = call_body env eng (call_actor env eng n)"

end
