(* ===== verification/CallProperties.thy ===== *)
theory CallProperties
  imports Vm
begin

text \<open>
  What whole calls do. Inside the contract \<open>call_relation\<close> the relation is carried through the
  execution of arbitrary actor code and, by induction over the nesting bound, through \<open>call_actor\<close>.
  The properties instantiate it for the two relations, and a separate argument shows that the
  nesting bound is irrelevant once it covers the remaining call depth.
\<close>

definition i_rel :: "(CallManager \<Rightarrow> CallManager \<Rightarrow> bool) \<Rightarrow> bool \<Rightarrow> InvocationData \<Rightarrow> InvocationData \<Rightarrow> bool" where
  "i_rel R W d d' \<longleftrightarrow> k_rel R W (inv_kernel d) (inv_kernel d')"

sublocale call_relation \<subseteq> ir: step_preorder "i_rel R W"
  by unfold_locales (auto simp: i_rel_def kr.R_refl intro: kr.R_trans)

lemma grow_memory_kept: "limits_kept l (snd (grow_memory b l))"
  using grow_memory_cases [of l b] by (cases "limiter_inv l")
    (auto simp: limits_kept_def grow_memory_def Let_def)

lemma pop_evolves:
  assumes "tracker_evolves (push_limit l t) t1"
  shows "\<exists>t'. pop_limit t1 = (Inr (), t') \<and> tracker_evolves t t'"
proof -
  have snaps: "gt_snapshots t1 = gt_snapshots t @ [\<lparr>snap_limit = gt_limit t, snap_used = gt_used t\<rparr>]"
    using assms by (simp add: tracker_evolves_def push_limit_def)
  then obtain t' where pop: "pop_limit t1 = (Inr (), t')" and t': "gt_limit t' = gt_limit t" "gt_snapshots t' = gt_snapshots t"
    by (simp add: pop_limit_def Let_def)
  have "tracker_inv t' \<and> mg (gt_used t) \<le> mg (gt_used t')" if inv: "tracker_inv t"
    using push_evolve_pop [OF inv assms] pop by (metis Pair_inject le_add1)
  with pop t' show ?thesis by (auto simp: tracker_evolves_def)
qed

context call_relation
begin

subsection \<open>Gas accounting and host calls\<close>

lemma i_on_kernel:
  "keeps (k_rel R W) m \<Longrightarrow> keeps (i_rel R W) (rzoom inv_kernel (\<lambda>k d. d\<lparr>inv_kernel := k\<rparr>) m)"
  by (rule keepsI) (auto simp: rzoom_def i_rel_def split: prod.splits dest: keepsD)

lemma i_modify: "(\<And>d. inv_kernel (f d) = inv_kernel d) \<Longrightarrow> keeps (i_rel R W) (rmodify f)"
  by (rule keeps_rmodify) (simp add: i_rel_def kr.R_refl)

lemma i_charge: "keeps (i_rel R W) (charge_as_fatal name g)"
  unfolding charge_as_fatal_def by (intro i_on_kernel kr.keeps_map_error k_gas_debug)

lemma i_update_gas: "keeps (i_rel R W) update_gas_available"
  by (rule keepsI) (auto simp: update_gas_available_def Let_def i_rel_def kr.R_refl split: if_splits)

lemma i_charge_for_exec: "keeps (i_rel R W) charge_for_exec"
  unfolding charge_for_exec_def Let_def by (intro ir.keeps_rules keeps_case_prod i_charge)

lemma i_charge_syscall: "keeps (i_rel R W) charge_syscall_gas"
  unfolding charge_syscall_gas_def by (intro ir.keeps_rules i_charge)

lemma i_charge_for_init: "keeps (i_rel R W) (charge_for_init m)"
  unfolding charge_for_init_def Let_def by (intro ir.keeps_rules i_on_kernel k_gas_debug i_modify) simp

lemma i_on_limiter:
  assumes "\<And>l. limits_kept l (snd (f l))"
  shows "keeps (i_rel R W) (on_limiter f)"
proof (rule keepsI)
  fix d r d'
  assume run: "on_limiter f d = (r, d')"
  let ?cm = "k_cm (inv_kernel d)"
  have "inv_kernel d' = (inv_kernel d)\<lparr>k_cm := ?cm\<lparr>cm_limits := snd (f (cm_limits ?cm))\<rparr>\<rparr>"
    using run by (auto simp: on_limiter_def Let_def split: prod.splits)
  then show "i_rel R W d d'" using R_limits [OF assms] by (simp add: i_rel_def k_rel_def k_same_def)
qed

lemma i_growing: "keeps (i_rel R W) (memory_growing a b c)" "keeps (i_rel R W) (table_growing e f g)"
  unfolding memory_growing_def table_growing_def grow_instance_memory_def grow_instance_table_def
  by (intro ir.keeps_rules i_on_limiter grow_memory_kept)+

lemma i_set_last_error: "keeps (i_rel R W) (set_last_error c)"
  unfolding set_last_error_def by (rule i_modify) simp

lemma i_syscall_result: "keeps (i_rel R W) (syscall_result sc ret out mem)"
  unfolding syscall_result_def
  by (cases out) (simp_all only: ControlFlow.case, (intro ir.keeps_rules i_update_gas i_set_last_error)+)

lemma i_dispatch:
  assumes "call_ok R W call"
  shows "keeps (i_rel R W) (\<lambda>d. case dispatch env call sc (inv_kernel d, mem) of (out, (k, mem1)) \<Rightarrow>
    syscall_result sc ret out mem1 (d\<lparr>inv_kernel := k\<rparr>))" (is "keeps _ ?m")
proof (rule keepsI)
  fix d r d'
  assume run: "?m d = (r, d')"
  obtain out k mem1 where out: "dispatch env call sc (inv_kernel d, mem) = (out, (k, mem1))"
    by (metis prod.collapse)
  then have "syscall_result sc ret out mem1 (d\<lparr>inv_kernel := k\<rparr>) = (r, d')" using run by simp
  with i_syscall_result have "i_rel R W (d\<lparr>inv_kernel := k\<rparr>) d'" by (rule keepsD)
  moreover have "i_rel R W d (d\<lparr>inv_kernel := k\<rparr>)"
    using dispatch_keeps [OF assms, of "(inv_kernel d, mem)" env sc] out by (simp add: i_rel_def s_rel_def)
  ultimately show "i_rel R W d d'" by (rule ir.R_trans [rotated])
qed

lemma i_host_call: "call_ok R W call \<Longrightarrow> keeps (i_rel R W) (host_call env call mem ret sc)"
  unfolding host_call_def
  by (intro ir.keeps_bind i_charge_for_exec i_charge_syscall ir.keeps_if ir.keeps_return i_set_last_error i_dispatch)

lemma i_set_gas: "i_rel R W (d\<lparr>inv_avail_gas := g\<rparr>) d' = i_rel R W d d'" "i_rel R W d (d\<lparr>inv_avail_gas := g\<rparr>)"
  by (simp_all add: i_rel_def kr.R_refl)

lemma run_keeps:
  assumes "call_ok R W call"
  shows "i_rel R W d (snd (run env call p d))"
proof (induction p arbitrary: d)
  case (GrowMemory a b c k)
  obtain r d1 where g: "memory_growing a b c d = (r, d1)" by fastforce
  then have "i_rel R W d d1" using i_growing(1) by (blast dest: keepsD)
  then show ?case using GrowMemory g by (cases r) (auto intro: ir.R_trans)
next
  case (GrowTable a b c k)
  obtain r d1 where g: "table_growing a b c d = (r, d1)" by fastforce
  then have "i_rel R W d d1" using i_growing(2) by (blast dest: keepsD)
  then show ?case using GrowTable g by (cases r) (auto intro: ir.R_trans)
next
  case (HostCall g mem ret sc k)
  obtain r d1 where h: "host_call env call mem ret sc (d\<lparr>inv_avail_gas := g\<rparr>) = (r, d1)" by fastforce
  then have "i_rel R W d d1" using i_host_call [OF assms] i_set_gas(1) by (blast dest: keepsD)
  moreover have "i_rel R W d1 (snd (run env call (k errno mem1 g1) d1))" for errno mem1 g1
    by (rule HostCall.IH) (rule rangeI)+
  ultimately show ?case using h by (cases r) (auto intro: ir.R_trans)
qed (simp_all add: i_set_gas ir.R_refl)

subsection \<open>Invocations\<close>

lemma i_run_then:
  assumes "call_ok R W call" and "\<And>res. keeps (i_rel R W) (f res)"
  shows "keeps (i_rel R W) (\<lambda>d. case run env call (p d) d of (res, d1) \<Rightarrow> f res d1)"
proof (rule keepsI)
  fix d r d'
  assume "(case run env call (p d) d of (res, d1) \<Rightarrow> f res d1) = (r, d')"
  then obtain res d1 where 1: "run env call (p d) d = (res, d1)" and 2: "f res d1 = (r, d')"
    by (cases "run env call (p d) d") simp
  have "i_rel R W d d1" using run_keeps [OF assms(1), of d env "p d"] 1 by simp
  moreover have "i_rel R W d1 d'" using assms(2) 2 by (rule keepsD)
  ultimately show "i_rel R W d d'" by (rule ir.R_trans)
qed

lemma i_instantiate_module: "call_ok R W call \<Longrightarrow> keeps (i_rel R W) (instantiate_module env call m)"
proof -
  assume ok: "call_ok R W call"
  have "keeps (i_rel R W) (rbind charge_for_exec (\<lambda>_. case res of
          Value _ \<Rightarrow> rreturn (Some m)
        | Failed _ \<Rightarrow> rthrow (AbortExit SYS_ILLEGAL_INSTRUCTION 0)
        | Panicked \<Rightarrow> rthrow AbortFatal))" for res
    by (cases res) (simp_all only: outcome.case, (intro ir.keeps_rules i_charge_for_exec)+)
  from i_run_then [OF ok this] show ?thesis
    unfolding instantiate_module_def by (intro ir.keeps_rules i_charge_for_init i_update_gas)
qed

lemma i_instantiate: "call_ok R W call \<Longrightarrow> keeps (i_rel R W) (instantiate env eng call k)"
  unfolding instantiate_def Let_def by (intro ir.keeps_rules i_instantiate_module)

lemma i_finish_entry: "keeps (i_rel R W) (finish_entry res)"
  unfolding finish_entry_def
  by (cases res) (simp_all only: outcome.case, (intro ir.keeps_rules i_charge_for_exec)+)

lemma i_run_entry: "call_ok R W call \<Longrightarrow> keeps (i_rel R W) (run_entry env call f)"
  unfolding run_entry_def by (intro ir.keeps_bind i_update_gas i_run_then i_finish_entry)

lemma i_run_actor: "call_ok R W call \<Longrightarrow> keeps (i_rel R W) (run_actor env eng call c entry p e)"
  unfolding run_actor_def by (intro ir.keeps_rules i_instantiate i_run_entry)

lemma keeps_charge_return: "keeps R (charge_return r)"
  unfolding charge_return_def by (intro call_rules)

lemma R_record_frame: "R s (record_frame entry to err c s)"
  by (cases entry) (simp_all add: record_frame_def Let_def R_refl R_backtrace)

lemma keeps_invoke_code:
  assumes "call_ok R W call" and "W \<or> ro"
  shows "keeps R (invoke_code env eng call c from to entry value ro registry p e)"
proof (rule keepsI)
  fix s r s'
  assume run: "invoke_code env eng call c from to entry value ro registry p e s = (r, s')"
  let ?k = "kernel_new s registry from to (method_num entry) value ro"
  obtain result d where a: "run_actor env eng call c entry p e (new_store ?k) = (result, d)" by fastforce
  let ?cm = "k_cm (inv_kernel d)"
  have "i_rel R W (new_store ?k) d" using i_run_actor [OF assms(1)] a by (rule keepsD)
  then have s: "R s ?cm"
    using assms(2) by (simp add: i_rel_def k_rel_def new_store_def kernel_new_def)
  have "R ?cm s'"
  proof (cases "resolve_return result (k_blocks (inv_kernel d))")
    case (Inr ret)
    with run a have "charge_return \<lparr>exit_code = OK, ret_value = ret\<rparr> ?cm = (r, s')"
      by (simp add: invoke_code_def Let_def)
    with keeps_charge_return show ?thesis by (rule keepsD)
  next
    case (Inl ab)
    obtain code res where ar: "abort_result (k_blocks (inv_kernel d)) ab = (code, res)" by fastforce
    let ?cm1 = "record_frame entry to (inv_last_error d) code ?cm"
    have "R ?cm1 s'"
    proof (cases res)
      case (Inl err)
      with run a \<open>resolve_return _ _ = Inl ab\<close> ar show ?thesis by (simp add: invoke_code_def Let_def R_refl)
    next
      case (Inr ir)
      with run a \<open>resolve_return _ _ = Inl ab\<close> ar have "charge_return ir ?cm1 = (r, s')"
        by (simp add: invoke_code_def Let_def)
      with keeps_charge_return show ?thesis by (rule keepsD)
    qed
    then show ?thesis using R_record_frame R_trans by blast
  qed
  with s show "R s s'" by (rule R_trans)
qed

lemma keeps_trace_if: "keeps R (trace_if c e)"
  unfolding trace_if_def by (intro call_rules)

lemma keeps_count: "keeps R (rmodify (\<lambda>s. s\<lparr>cm_invocation_count := n s\<rparr>))"
  by (rule keeps_rmodify) (rule R_invocations)

lemma keeps_call_resolved:
  assumes "call_ok R W call" and "W \<or> ro \<and> value = 0"
  shows "keeps R (call_actor_resolved env eng call from to entry params value ro)"
proof -
  have "keeps R (if value \<noteq> 0 then rbind (cm_charge_gas on_value_transfer) (\<lambda>_. transfer from to value) else rreturn ())"
    using assms(2) by (auto intro!: call_rules W_transfer)
  moreover have "W \<or> ro" using assms(2) by blast
  moreover note moves = calculation
  show ?thesis unfolding call_actor_resolved_def
    by (intro keeps_bind moves(1) keeps_get_actor_charged keeps_lift keeps_trace_if keeps_if keeps_return
      keeps_charge keeps_case_prod keeps_case_sum keeps_throw keeps_count keeps_invoke_code assms(1) moves(2))
qed

lemma keeps_create_account:
  assumes "call_ok R W call" and W
  shows "keeps R (create_account_actor_from_send env eng call addr)"
  unfolding create_account_actor_from_send_def
  using assms by (intro call_rules W_create_from_send keeps_call_resolved) (simp_all add: new_empty_def)

lemma keeps_create_placeholder: "W \<Longrightarrow> keeps R (create_placeholder_actor_from_send env addr)"
  unfolding create_placeholder_actor_from_send_def
  by (intro call_rules W_create_from_send) (simp_all add: new_empty_def)

lemma keeps_receiver:
  assumes "call_ok R W call" and "W \<or> ro"
  shows "keeps R (receiver_of env eng call to ro)"
  unfolding receiver_of_def using assms
  by (cases ro) (auto intro!: call_rules keeps_create_account keeps_create_placeholder)

lemma keeps_with_call_stack:
  assumes "keeps R f"
  shows "keeps R (with_call_stack e f)"
proof (rule keepsI)
  fix s r s'
  assume run: "with_call_stack e f s = (r, s')"
  let ?s = "s\<lparr>cm_actor_call_stack := cm_actor_call_stack s @ [e]\<rparr>"
  obtain s1 where f: "f ?s = (r, s1)" and s': "s' = s1\<lparr>cm_actor_call_stack := butlast (cm_actor_call_stack s1)\<rparr>"
    using run by (auto simp: with_call_stack_def split: prod.splits)
  have r: "R ?s s1" using assms f by (rule keepsD)
  then have "cm_actor_call_stack s1 = cm_actor_call_stack s @ [e]"
    using R_base by (fastforce simp: cm_base_def cm_fixed_def)
  then have "s' = s1\<lparr>cm_actor_call_stack := cm_actor_call_stack s\<rparr>" by (simp add: s')
  with R_stack [OF r] show "R s s'" by simp
qed

lemma keeps_unchecked:
  assumes "call_ok R W call" and "W \<or> ro \<and> value = 0"
  shows "keeps R (call_actor_unchecked env eng call from to entry params value ro)"
  unfolding call_actor_unchecked_def using assms
  by (intro keeps_bind keeps_receiver keeps_with_call_stack keeps_call_resolved) blast+

lemma keeps_with_stack_frame:
  assumes "keeps R f"
  shows "keeps R (with_stack_frame f)"
proof (rule keepsI)
  fix s r s'
  assume run: "with_stack_frame f s = (r, s')"
  show "R s s'"
  proof (cases "cm_call_stack_depth s \<ge> max_call_depth (network (cm_context s))")
    case True
    with run show ?thesis by (simp add: with_stack_frame_def R_refl)
  next
    case False
    let ?s = "s\<lparr>cm_call_stack_depth := cm_call_stack_depth s + 1\<rparr>"
    obtain s1 where f: "f ?s = (r, s1)" and s': "s' = s1\<lparr>
        cm_limits := (cm_limits s1)\<lparr>curr_memory_bytes := curr_memory_bytes (cm_limits s)\<rparr>,
        cm_call_stack_depth := cm_call_stack_depth s1 - 1\<rparr>"
      using run False by (auto simp: with_stack_frame_def limiter_with_stack_frame_def Let_def split: prod.splits)
    have r: "R ?s s1" using assms f by (rule keepsD)
    then have b: "cm_base ?s s1" by (rule R_base)
    let ?s1 = "s1\<lparr>cm_call_stack_depth := cm_call_stack_depth s\<rparr>"
    have "limits_kept (cm_limits s) ((cm_limits s1)\<lparr>curr_memory_bytes := curr_memory_bytes (cm_limits s)\<rparr>)"
      using b by (simp add: cm_base_def limits_kept_def limiter_inv_def)
    moreover have d: "cm_call_stack_depth s1 - 1 = cm_call_stack_depth s"
      using b by (simp add: cm_base_def cm_fixed_def)
    moreover have "s' = ?s1\<lparr>cm_limits := (cm_limits s1)\<lparr>curr_memory_bytes := curr_memory_bytes (cm_limits s)\<rparr>\<rparr>"
      by (simp add: s' d)
    ultimately show ?thesis using R_restore_limits [OF R_depth [OF r]] by simp
  qed
qed

lemma keeps_with_gas_limit:
  assumes "keeps R f"
  shows "keeps R (with_gas_limit l f)"
proof (rule keepsI)
  fix s r s'
  assume run: "with_gas_limit l f s = (r, s')"
  show "R s s'"
  proof (cases l)
    case None
    then show ?thesis using run assms by (auto simp: with_gas_limit_def split: prod.splits dest: keepsD)
  next
    case (Some g)
    let ?s = "s\<lparr>cm_gas_tracker := push_limit g (cm_gas_tracker s)\<rparr>"
    obtain res s1 where f: "f ?s = (res, s1)" by fastforce
    have rel: "R ?s s1" using assms f by (rule keepsD)
    then have "tracker_evolves (push_limit g (cm_gas_tracker s)) (cm_gas_tracker s1)"
      using R_base by (fastforce simp: cm_base_def)
    from pop_evolves [OF this] obtain t' where
      "pop_limit (cm_gas_tracker s1) = (Inr (), t')" "tracker_evolves (cm_gas_tracker s) t'" by blast
    with R_inner_gas [OF rel] run f Some show ?thesis by (auto simp: with_gas_limit_def Let_def)
  qed
qed

lemma call_body_ok: "call_ok R W call \<Longrightarrow> call_ok R W (call_body env eng call)"
  unfolding call_ok_def [of R W "call_body env eng call"]
proof (intro allI impI)
  fix frm to entry params gas ro and v :: TokenAmount
  assume ok: "call_ok R W call" and c: "W \<or> ro \<and> v = 0"
  let ?f = "with_gas_limit gas (with_stack_frame (call_actor_unchecked env eng call frm to entry params v ro))"
  have f: "keeps R ?f" by (intro keeps_with_gas_limit keeps_with_stack_frame keeps_unchecked ok c)
  have "keeps R (\<lambda>s. case ?f s of (result, s1) \<Rightarrow>
      rbind (trace_if (\<lambda>_. is_invoke entry) (\<lambda>_. result_event result)) (\<lambda>_. rlift result) s1)" (is "keeps R ?m")
  proof (rule keepsI)
    fix s r s'
    assume run: "?m s = (r, s')"
    obtain result s1 where fs: "?f s = (result, s1)" by fastforce
    have "R s s1" using f fs by (rule keepsD)
    moreover have "keeps R (rbind (trace_if (\<lambda>_. is_invoke entry) (\<lambda>_. result_event result)) (\<lambda>_. rlift result))"
      by (intro call_rules keeps_trace_if)
    then have "R s1 s'" using run fs by (auto dest: keepsD)
    ultimately show "R s s'" by (rule R_trans)
  qed
  then show "keeps R (call_body env eng call frm to entry params v gas ro)"
    unfolding call_body_def by (intro keeps_bind keeps_trace_if)
qed

lemma call_actor_ok: "call_ok R W (call_actor env eng n)"
proof (induction n)
  case 0
  have "call_ok R W no_call" by (simp add: call_ok_def no_call_def keeps_throw)
  then show ?case by (simp add: call_body_ok)
next
  case (Suc n)
  then show ?case by (simp add: call_body_ok)
qed

end

end
