(* ===== verification/CallBound.thy ===== *)
theory CallBound
  imports CallProperties
begin

text \<open>
  The nesting bound of \<open>call_actor\<close> does not matter. Two functions for nested calls that agree at
  the next call depth give the same execution at this depth: the argument follows the execution
  from the kernel operations up to \<open>call_actor\<close>, using that everything in between keeps the call
  depth and the machine context.
\<close>

definition at_depth :: "MachineContext \<Rightarrow> u32 \<Rightarrow> CallManager \<Rightarrow> bool" where
  "at_depth c d s \<longleftrightarrow> cm_context s = c \<and> cm_call_stack_depth s = d"

definition eq_on :: "('s \<Rightarrow> bool) \<Rightarrow> ('s, 'e, 'a) rsm \<Rightarrow> ('s, 'e, 'a) rsm \<Rightarrow> bool" where
  "eq_on P m m' \<longleftrightarrow> (\<forall>s. P s \<longrightarrow> m s = m' s)"

text \<open>The two functions agree at a depth, and the first keeps the contract of calls.\<close>

definition calls_agree :: "MachineContext \<Rightarrow> u32 \<Rightarrow> call_fun \<Rightarrow> call_fun \<Rightarrow> bool" where
  "calls_agree c d f g \<longleftrightarrow> call_ok evolves True f \<and>
    (\<forall>from to entry params value gas ro.
      eq_on (at_depth c d) (f from to entry params value gas ro) (g from to entry params value gas ro))"

lemma eq_on_refl: "eq_on P m m"
  by (simp add: eq_on_def)

lemma eq_on_bind:
  assumes "eq_on P m m'" and "\<And>s. P s \<Longrightarrow> P (snd (m s))" and "\<And>a. eq_on P (f a) (f' a)"
  shows "eq_on P (rbind m f) (rbind m' f')"
  unfolding eq_on_def
proof (intro allI impI)
  fix s
  assume "P s"
  obtain r s1 where r: "m s = (r, s1)" by fastforce
  then have "m' s = (r, s1)" using assms(1) \<open>P s\<close> by (simp add: eq_on_def)
  moreover have "P s1" using assms(2) [OF \<open>P s\<close>] r by simp
  ultimately show "rbind m f s = rbind m' f' s"
    using assms(3) r by (cases r) (simp_all add: rbind_def eq_on_def)
qed

lemma eq_on_if: "eq_on P m m' \<Longrightarrow> eq_on P n n' \<Longrightarrow> eq_on P (if b then m else n) (if b then m' else n')"
  by simp

lemma evolves_at_depth: "evolves s s' \<Longrightarrow> at_depth c d s \<Longrightarrow> at_depth c d s'"
  by (simp add: evolves_def cm_base_def cm_fixed_def at_depth_def)

lemma k_rel_at_depth: "k_rel evolves True k k' \<Longrightarrow> at_depth c d (k_cm k) \<Longrightarrow> at_depth c d (k_cm k')"
  by (auto simp: k_rel_def intro: evolves_at_depth)

lemma keeps_at_depth: "keeps evolves m \<Longrightarrow> at_depth c d s \<Longrightarrow> at_depth c d (snd (m s))"
  using keeps_snd [of evolves m s] by (auto intro: evolves_at_depth)

lemma k_keeps_at_depth: "keeps (k_rel evolves True) m \<Longrightarrow> at_depth c d (k_cm k) \<Longrightarrow> at_depth c d (k_cm (snd (m k)))"
  using keeps_snd [of "k_rel evolves True" m k] by (auto intro: k_rel_at_depth)

lemma s_keeps_at_depth:
  "keeps (s_rel evolves True) m \<Longrightarrow> at_depth c d (k_cm (fst s)) \<Longrightarrow> at_depth c d (k_cm (fst (snd (m s))))"
  using keeps_snd [of "s_rel evolves True" m s] by (auto simp: s_rel_def intro: k_rel_at_depth)

lemma i_keeps_at_depth:
  "keeps (i_rel evolves True) m \<Longrightarrow> at_depth c d (k_cm (inv_kernel s)) \<Longrightarrow>
   at_depth c d (k_cm (inv_kernel (snd (m s))))"
  using keeps_snd [of "i_rel evolves True" m s] by (auto simp: i_rel_def intro: k_rel_at_depth)

subsection \<open>Kernel operations\<close>

abbreviation k_at :: "MachineContext \<Rightarrow> u32 \<Rightarrow> Kernel \<Rightarrow> bool" where
  "k_at c d k \<equiv> at_depth c d (k_cm k)"

abbreviation s_at :: "MachineContext \<Rightarrow> u32 \<Rightarrow> Kernel \<times> bytes \<Rightarrow> bool" where
  "s_at c d s \<equiv> at_depth c d (k_cm (fst s))"

abbreviation i_at :: "MachineContext \<Rightarrow> u32 \<Rightarrow> InvocationData \<Rightarrow> bool" where
  "i_at c d i \<equiv> at_depth c d (k_cm (inv_kernel i))"

lemma k_bind_same:
  "keeps (k_rel evolves True) m \<Longrightarrow> (\<And>a. eq_on (k_at c d) (f a) (f' a)) \<Longrightarrow> eq_on (k_at c d) (rbind m f) (rbind m f')"
  by (rule eq_on_bind [OF eq_on_refl]) (auto intro: k_keeps_at_depth)

lemma on_cm_agree: "eq_on (at_depth c d) m m' \<Longrightarrow> eq_on (k_at c d) (on_cm m) (on_cm m')"
  by (simp add: eq_on_def on_cm_def rzoom_def)

lemma at_depth_begin [simp]: "at_depth c d (cm_begin s) = at_depth c d s"
  by (simp add: at_depth_def cm_begin_def)

lemma with_transaction_agree: "eq_on (at_depth c d) m m' \<Longrightarrow> eq_on (at_depth c d) (with_transaction m) (with_transaction m')"
  by (simp add: eq_on_def with_transaction_def)

lemma call_agree:
  "calls_agree c d f g \<Longrightarrow> eq_on (at_depth c d) (f from to entry params value gas ro) (g from to entry params value gas ro)"
  by (simp add: calls_agree_def)

lemma call_ok_of: "calls_agree c d f g \<Longrightarrow> call_ok evolves True f"
  by (simp add: calls_agree_def)

lemma call_keeps: "calls_agree c d f g \<Longrightarrow> keeps evolves (f from to entry params value gas ro)"
  by (simp add: calls_agree_def call_ok_def)

lemma send_agree:
  assumes "calls_agree c d f g"
  shows "eq_on (k_at c d) (send f to meth params value gas ro) (send g to meth params value gas ro)"
proof -
  have tx: "eq_on (k_at c d) (on_cm (with_transaction (f i to (Invoke meth) p value gas b)))
      (on_cm (with_transaction (g i to (Invoke meth) p value gas b)))" for i p b
    by (intro on_cm_agree with_transaction_agree call_agree assms)
  have "k_at c d k \<Longrightarrow> k_at c d (snd (on_cm (with_transaction (f i to (Invoke meth) p value gas b)) k))" for i p b k
    by (rule k_keeps_at_depth [OF no_mint.k_on_cm [OF no_mint.R_transaction [OF call_keeps [OF assms]]]])
  from eq_on_bind [OF tx this eq_on_refl]
  have "eq_on (k_at c d) (send_as f i b to meth params value gas) (send_as g i b to meth params value gas)" for i b
    unfolding send_as_def
    by (intro eq_on_if eq_on_refl k_bind_same no_mint.k_load_params no_mint.k_check_space)
  then show ?thesis by (simp add: eq_on_def send_def)
qed

lemma upgrade_agree:
  assumes "calls_agree c d f g"
  shows "eq_on (k_at c d) (upgrade_actor f nc params) (upgrade_actor g nc params)"
proof -
  have up: "eq_on (at_depth c d) (upgrade_call f i j nc p) (upgrade_call g i j nc p)" for i j p
    unfolding upgrade_call_def
    by (rule eq_on_bind [OF eq_on_refl keeps_at_depth [OF install_code_evolves] call_agree [OF assms]])
  have keep: "keeps evolves (upgrade_call f i j nc p)" for i j p
    unfolding upgrade_call_def by (intro ev_rel.keeps_rules install_code_evolves call_keeps [OF assms])
  have "eq_on (k_at c d)
      (rbind (on_cm (with_transaction (upgrade_call f i j nc p))) result_block)
      (rbind (on_cm (with_transaction (upgrade_call g i j nc p))) result_block)" for i j p
    by (rule eq_on_bind [OF on_cm_agree [OF with_transaction_agree [OF up]]
          k_keeps_at_depth [OF no_mint.k_on_cm [OF no_mint.R_transaction [OF keep]]] eq_on_refl])
  then show ?thesis
    unfolding upgrade_actor_def unless_read_only_def
    by (intro eq_on_if eq_on_refl k_bind_same no_mint.k_load_params no_mint.k_check_space no_mint.kr.keeps_get)
qed

lemma s_bind_mem:
  "(\<And>a. eq_on (s_at c d) (h a) (h' a)) \<Longrightarrow> eq_on (s_at c d) (rbind (from_mem f) h) (rbind (from_mem f) h')"
  by (rule eq_on_bind [OF eq_on_refl]) (auto intro: s_keeps_at_depth no_mint.s_from_mem)

lemma on_kernel_agree: "eq_on (k_at c d) m m' \<Longrightarrow> eq_on (s_at c d) (on_kernel m) (on_kernel m')"
  by (simp add: eq_on_def on_kernel_def rzoom_def)

lemma dispatch_agree:
  assumes "calls_agree c d f g" and "s_at c d s"
  shows "dispatch env f sc s = dispatch env g sc s"
proof (cases sc)
  case (ActorUpgradeActor a p)
  have "eq_on (s_at c d) (rbind (from_mem (mem_read_cid env a)) (\<lambda>x. on_kernel (upgrade_actor f x p)))
      (rbind (from_mem (mem_read_cid env a)) (\<lambda>x. on_kernel (upgrade_actor g x p)))"
    by (intro s_bind_mem on_kernel_agree upgrade_agree assms(1))
  then have "rbind (from_mem (mem_read_cid env a)) (\<lambda>x. on_kernel (upgrade_actor f x p)) s =
      rbind (from_mem (mem_read_cid env a)) (\<lambda>x. on_kernel (upgrade_actor g x p)) s"
    using assms(2) unfolding eq_on_def by blast
  then show ?thesis by (simp only: ActorUpgradeActor dispatch.simps sys_upgrade_actor_def)
next
  case (SendSend a b m p hi lo l fl)
  have "eq_on (s_at c d) (sys_send env f a b m p hi lo l fl) (sys_send env g a b m p hi lo l fl)"
  proof -
    have "eq_on (s_at c d) (rbind (on_kernel (send f r m p v gl ro)) h) (rbind (on_kernel (send g r m p v gl ro)) h)"
      for r v gl ro and h :: "CallResult \<Rightarrow> bytes s_op"
      by (rule eq_on_bind [OF on_kernel_agree [OF send_agree [OF assms(1)]]
            s_keeps_at_depth [OF no_mint.s_on_kernel [OF no_mint.k_send [OF call_ok_of [OF assms(1)]]]] eq_on_refl])
    then show ?thesis unfolding sys_send_def Let_def
      by (intro s_bind_mem eq_on_if eq_on_refl)
  qed
  then have "sys_send env f a b m p hi lo l fl s = sys_send env g a b m p hi lo l fl s"
    using assms(2) unfolding eq_on_def by blast
  then show ?thesis by (simp only: SendSend dispatch.simps flow_def)
qed simp_all

subsection \<open>Execution\<close>

lemma i_bind_same:
  "keeps (i_rel evolves True) m \<Longrightarrow> (\<And>a. eq_on (i_at c d) (f a) (f' a)) \<Longrightarrow>
   eq_on (i_at c d) (rbind m f) (rbind m f')"
  by (rule eq_on_bind [OF eq_on_refl]) (auto intro: i_keeps_at_depth)

lemma host_call_agree:
  assumes "calls_agree c d f g"
  shows "eq_on (i_at c d) (host_call env f mem ret sc) (host_call env g mem ret sc)"
proof -
  have "eq_on (i_at c d)
      (\<lambda>i. case dispatch env f sc (inv_kernel i, mem) of (out, (k, mem1)) \<Rightarrow>
        syscall_result sc ret out mem1 (i\<lparr>inv_kernel := k\<rparr>))
      (\<lambda>i. case dispatch env g sc (inv_kernel i, mem) of (out, (k, mem1)) \<Rightarrow>
        syscall_result sc ret out mem1 (i\<lparr>inv_kernel := k\<rparr>))"
    unfolding eq_on_def
  proof (intro allI impI)
    fix i
    assume "i_at c d i"
    then have "dispatch env f sc (inv_kernel i, mem) = dispatch env g sc (inv_kernel i, mem)"
      by (intro dispatch_agree [OF assms]) simp
    then show "(case dispatch env f sc (inv_kernel i, mem) of (out, (k, mem1)) \<Rightarrow>
        syscall_result sc ret out mem1 (i\<lparr>inv_kernel := k\<rparr>)) =
      (case dispatch env g sc (inv_kernel i, mem) of (out, (k, mem1)) \<Rightarrow>
        syscall_result sc ret out mem1 (i\<lparr>inv_kernel := k\<rparr>))" by (simp only:)
  qed
  then show ?thesis unfolding host_call_def
    by (intro i_bind_same eq_on_if eq_on_refl no_mint.i_charge_for_exec no_mint.i_charge_syscall)
qed

lemma run_agree:
  assumes "calls_agree c d f g"
  shows "i_at c d i \<Longrightarrow> run env f p i = run env g p i"
proof (induction p arbitrary: i)
  case (GrowMemory a b m k)
  obtain r i1 where r: "memory_growing a b m i = (r, i1)" by fastforce
  then have "i_at c d i1" using i_keeps_at_depth [OF no_mint.i_growing(1) GrowMemory.prems, of a b m] by simp
  with GrowMemory.IH r show ?case by (cases r) simp_all
next
  case (GrowTable a b m k)
  obtain r i1 where r: "table_growing a b m i = (r, i1)" by fastforce
  then have "i_at c d i1" using i_keeps_at_depth [OF no_mint.i_growing(2) GrowTable.prems, of a b m] by simp
  with GrowTable.IH r show ?case by (cases r) simp_all
next
  case (HostCall gl mem ret sc k)
  let ?i = "i\<lparr>inv_avail_gas := gl\<rparr>"
  have at: "i_at c d ?i" using HostCall.prems by simp
  have h: "host_call env f mem ret sc ?i = host_call env g mem ret sc ?i"
    using host_call_agree [OF assms] at unfolding eq_on_def by blast
  obtain r i1 where r: "host_call env f mem ret sc ?i = (r, i1)" by fastforce
  then have "i_at c d i1"
    using i_keeps_at_depth [OF no_mint.i_host_call [OF call_ok_of [OF assms]] at, of env mem ret sc] by simp
  then have "run env f (k x y z) i1 = run env g (k x y z) i1" for x y z
    by (rule HostCall.IH [OF rangeI rangeI rangeI])
  with r h show ?case by (cases r) (auto simp: split_beta)
qed simp_all

lemma run_then_agree:
  assumes "calls_agree c d f g"
  shows "eq_on (i_at c d) (\<lambda>i. case run env f (p i) i of (res, i1) \<Rightarrow> h res i1)
    (\<lambda>i. case run env g (p i) i of (res, i1) \<Rightarrow> h res i1)"
  using run_agree [OF assms] by (simp add: eq_on_def)

lemma instantiate_agree:
  assumes "calls_agree c d f g"
  shows "eq_on (i_at c d) (instantiate env eng f k) (instantiate env eng g k)"
proof -
  have m: "eq_on (i_at c d) (instantiate_module env f m) (instantiate_module env g m)" for m
    unfolding instantiate_module_def
    by (intro i_bind_same eq_on_if eq_on_refl run_then_agree [OF assms]
        no_mint.ir.keeps_map_error no_mint.i_charge_for_init no_mint.i_update_gas)
  show ?thesis
  proof (cases "eng_cache eng (with_redirect eng k)")
    case (Some w)
    then show ?thesis using m by (simp add: instantiate_def)
  next
    case None
    have "eq_on (i_at c d)
        (case found of Inl _ \<Rightarrow> rthrow AbortFatal | Inr None \<Rightarrow> rreturn None
          | Inr (Some raw) \<Rightarrow> (case eng_load eng raw of None \<Rightarrow> rthrow AbortFatal | Some m \<Rightarrow> instantiate_module env f m))
        (case found of Inl _ \<Rightarrow> rthrow AbortFatal | Inr None \<Rightarrow> rreturn None
          | Inr (Some raw) \<Rightarrow> (case eng_load eng raw of None \<Rightarrow> rthrow AbortFatal | Some m \<Rightarrow> instantiate_module env g m))"
      for found :: "unit + bytes option"
      using m by (auto simp: eq_on_refl split: sum.splits option.splits)
    then show ?thesis using None unfolding instantiate_def Let_def
      by (simp only: option.case) (intro i_bind_same no_mint.ir.keeps_get)
  qed
qed

lemma run_actor_agree:
  assumes "calls_agree c d f g"
  shows "eq_on (i_at c d) (run_actor env eng f k entry p e) (run_actor env eng g k entry p e)"
proof -
  have entry: "eq_on (i_at c d) (run_entry env f h) (run_entry env g h)" for h
    unfolding run_entry_def by (intro i_bind_same no_mint.i_update_gas run_then_agree assms)
  have "eq_on (i_at c d)
      (if wm_memory_min m = None then rthrow AbortFatal
       else case entry_func m entry p e of None \<Rightarrow> rthrow (AbortExit SYS_INVALID_RECEIVER 0) | Some h \<Rightarrow> run_entry env f h)
      (if wm_memory_min m = None then rthrow AbortFatal
       else case entry_func m entry p e of None \<Rightarrow> rthrow (AbortExit SYS_INVALID_RECEIVER 0) | Some h \<Rightarrow> run_entry env g h)" for m
    using entry by (auto simp: eq_on_refl split: option.splits)
  then show ?thesis unfolding run_actor_def
    by (intro eq_on_bind [OF instantiate_agree [OF assms]] i_bind_same no_mint.ir.keeps_lift
        i_keeps_at_depth no_mint.i_instantiate call_ok_of [OF assms])
qed

subsection \<open>Calls\<close>

lemma c_bind_same:
  "keeps evolves m \<Longrightarrow> (\<And>a. eq_on (at_depth c d) (f a) (f' a)) \<Longrightarrow> eq_on (at_depth c d) (rbind m f) (rbind m f')"
  by (rule eq_on_bind [OF eq_on_refl]) (auto intro: keeps_at_depth)

lemma invoke_code_agree:
  assumes "calls_agree c d f g"
  shows "eq_on (at_depth c d) (invoke_code env eng f k from to entry value ro reg p e)
    (invoke_code env eng g k from to entry value ro reg p e)"
  using run_actor_agree [OF assms, of env eng k entry p e]
  by (simp add: eq_on_def invoke_code_def Let_def new_store_def kernel_new_def)

lemma call_resolved_agree:
  assumes "calls_agree c d f g"
  shows "eq_on (at_depth c d) (call_actor_resolved env eng f from to entry params value ro)
    (call_actor_resolved env eng g from to entry params value ro)"
proof -
  have move: "keeps evolves (if value \<noteq> 0 then rbind (cm_charge_gas on_value_transfer) (\<lambda>_. transfer from to value) else rreturn ())"
    by (intro ev_rel.call_rules transfer_evolves)
  have "eq_on (at_depth c d)
      (case param_registry env entry params of (Inl e, _) \<Rightarrow> rthrow e
        | (Inr (params_id, extra), registry) \<Rightarrow>
          rbind (rmodify (\<lambda>s. s\<lparr>cm_invocation_count := cm_invocation_count s + 1\<rparr>)) (\<lambda>_.
          invoke_code env eng f k from to entry value ro registry params_id extra))
      (case param_registry env entry params of (Inl e, _) \<Rightarrow> rthrow e
        | (Inr (params_id, extra), registry) \<Rightarrow>
          rbind (rmodify (\<lambda>s. s\<lparr>cm_invocation_count := cm_invocation_count s + 1\<rparr>)) (\<lambda>_.
          invoke_code env eng g k from to entry value ro registry params_id extra))" for k
    using c_bind_same [OF no_mint.keeps_count invoke_code_agree [OF assms]]
    by (auto simp: eq_on_refl split: prod.splits sum.splits)
  then show ?thesis unfolding call_actor_resolved_def
    by (intro c_bind_same eq_on_if eq_on_refl ev_rel.keeps_get_actor_charged ev_rel.keeps_lift
        no_mint.keeps_trace_if ev_rel.keeps_charge move)
qed

lemma receiver_agree:
  assumes "calls_agree c d f g"
  shows "eq_on (at_depth c d) (receiver_of env eng f to ro) (receiver_of env eng g to ro)"
proof -
  have "eq_on (at_depth c d) (create_account_actor_from_send env eng f to) (create_account_actor_from_send env eng g to)"
    unfolding create_account_actor_from_send_def
    by (intro eq_on_if eq_on_refl c_bind_same ev_rel.keeps_get create_actor_from_send_evolves
        eq_on_bind [OF call_resolved_agree [OF assms]] keeps_at_depth no_mint.keeps_call_resolved call_ok_of [OF assms])
      simp_all
  then have "eq_on (at_depth c d)
      (case found of Some i \<Rightarrow> rreturn i | None \<Rightarrow>
        if protocol to \<in> {Protocol.BLS, Protocol.Secp256k1}
        then if ro then rthrow (Syscall ReadOnly) else create_account_actor_from_send env eng f to
        else if is_eam_delegated to
        then if ro then rthrow (Syscall ReadOnly) else create_placeholder_actor_from_send env to
        else rthrow (Syscall NotFound))
      (case found of Some i \<Rightarrow> rreturn i | None \<Rightarrow>
        if protocol to \<in> {Protocol.BLS, Protocol.Secp256k1}
        then if ro then rthrow (Syscall ReadOnly) else create_account_actor_from_send env eng g to
        else if is_eam_delegated to
        then if ro then rthrow (Syscall ReadOnly) else create_placeholder_actor_from_send env to
        else rthrow (Syscall NotFound))" for found
    by (cases found) (simp_all only: option.case eq_on_refl, intro eq_on_if eq_on_refl)
  then show ?thesis unfolding receiver_of_def by (intro c_bind_same ev_rel.keeps_resolve_address)
qed

lemma unchecked_agree:
  assumes "calls_agree c d f g"
  shows "eq_on (at_depth c d) (call_actor_unchecked env eng f from to entry params value ro)
    (call_actor_unchecked env eng g from to entry params value ro)"
proof -
  have "eq_on (at_depth c d) (with_call_stack x (call_actor_resolved env eng f from i entry params value ro))
      (with_call_stack x (call_actor_resolved env eng g from i entry params value ro))" for x i
    using call_resolved_agree [OF assms, of env eng "from" i entry params "value" ro]
    by (simp add: eq_on_def with_call_stack_def at_depth_def)
  then show ?thesis unfolding call_actor_unchecked_def
    by (intro eq_on_bind [OF receiver_agree [OF assms]] keeps_at_depth no_mint.keeps_receiver call_ok_of [OF assms])
      simp_all
qed

text \<open>One step of the recursion: agreement one level deeper gives agreement here.\<close>

lemma call_body_agree:
  assumes "d < max_call_depth (network c) \<Longrightarrow> calls_agree c (d + 1) f g"
  shows "eq_on (at_depth c d) (call_body env eng f from to entry params value gas ro)
    (call_body env eng g from to entry params value gas ro)"
proof -
  let ?u = "\<lambda>call. call_actor_unchecked env eng call from to entry params value ro"
  have frame: "eq_on (at_depth c d) (with_stack_frame (?u f)) (with_stack_frame (?u g))"
    unfolding eq_on_def
  proof (intro allI impI)
    fix s
    assume s: "at_depth c d s"
    show "with_stack_frame (?u f) s = with_stack_frame (?u g) s"
    proof (cases "d < max_call_depth (network c)")
      case True
      have "at_depth c (d + 1) (s\<lparr>cm_call_stack_depth := cm_call_stack_depth s + 1\<rparr>)"
        using s by (simp add: at_depth_def)
      with unchecked_agree [OF assms [OF True], of env eng "from" to entry params "value" ro]
      show ?thesis unfolding with_stack_frame_def limiter_with_stack_frame_def eq_on_def by simp
    next
      case False
      with s show ?thesis by (simp add: with_stack_frame_def at_depth_def not_less)
    qed
  qed
  have lim: "eq_on (at_depth c d) (with_gas_limit gas (with_stack_frame (?u f))) (with_gas_limit gas (with_stack_frame (?u g)))"
    using frame by (cases gas) (simp_all add: eq_on_def with_gas_limit_def at_depth_def)
  have "eq_on (at_depth c d)
      (\<lambda>s. case with_gas_limit gas (with_stack_frame (?u f)) s of (result, s1) \<Rightarrow>
        rbind (trace_if (\<lambda>_. is_invoke entry) (\<lambda>_. result_event result)) (\<lambda>_. rlift result) s1)
      (\<lambda>s. case with_gas_limit gas (with_stack_frame (?u g)) s of (result, s1) \<Rightarrow>
        rbind (trace_if (\<lambda>_. is_invoke entry) (\<lambda>_. result_event result)) (\<lambda>_. rlift result) s1)"
    using lim by (simp add: eq_on_def)
  then show ?thesis unfolding call_body_def by (intro c_bind_same no_mint.keeps_trace_if)
qed

lemma call_actor_agree:
  "unat (max_call_depth (network c)) - unat d \<le> n \<Longrightarrow> unat (max_call_depth (network c)) - unat d \<le> m \<Longrightarrow>
   eq_on (at_depth c d) (call_actor env eng n from to entry params value gas ro)
     (call_actor env eng m from to entry params value gas ro)"
proof (induction n arbitrary: d m "from" to entry params "value" gas ro)
  case 0
  then have "\<not> d < max_call_depth (network c)" by (simp add: word_less_nat_alt)
  then show ?case by (cases m) (simp_all add: call_body_agree)
next
  case (Suc n)
  show ?case
  proof (cases "d < max_call_depth (network c)")
    case False
    then show ?thesis by (cases m) (simp_all add: call_body_agree)
  next
    case True
    then have lt: "unat d < unat (max_call_depth (network c))" by (simp add: word_less_nat_alt)
    then have "unat (d + 1) = Suc (unat d)"
      using unat_less_exp [of "max_call_depth (network c)"] by (simp add: unatSuc unat_word_ariths)
    with lt Suc.prems obtain m' where m: "m = Suc m'" and
      "unat (max_call_depth (network c)) - unat (d + 1) \<le> n" "unat (max_call_depth (network c)) - unat (d + 1) \<le> m'"
      by (cases m) auto
    with Suc.IH have "calls_agree c (d + 1) (call_actor env eng n) (call_actor env eng m')"
      by (simp add: calls_agree_def no_mint.call_actor_ok)
    with m show ?thesis by (simp add: call_body_agree)
  qed
qed

end
