(* ===== verification/CallTheorems.thy ===== *)
theory CallTheorems
  imports CallBound
begin

text \<open>
  The properties of calls. Actor code, the engine and the crates are arbitrary throughout: the
  theorems hold for every program an actor may run, every module the engine may load and every
  sequence of nested calls, up to the call depth the network allows.
\<close>

subsection \<open>An example machine\<close>

definition example_network :: NetworkConfig where
  "example_network = \<lparr>network_version = 21, chain_id = 0, max_call_depth = 1024, max_wasm_stack = 2048,
    max_inst_memory_bytes = 512 * push_bit 20 1, cfg_max_memory_bytes = 2 * push_bit 30 1,
    max_block_size = push_bit 20 1, builtin_actors_override = None, actor_debugging = False,
    price_list = WATERMELON_PRICES, actor_redirect = []\<rparr>"

definition example_context :: MachineContext where
  "example_context = \<lparr>network = example_network, epoch = 100, timestamp = 0, base_fee = 100,
    initial_state_root = example_cid 1, circ_supply = 1005, tracing = False\<rparr>"

definition example_builtin :: Manifest where
  "example_builtin = \<lparr>account_code = example_cid 14, placeholder_code = example_cid 15,
    system_code = example_cid 10, init_code = example_cid 11, eam_code = example_cid 12,
    ethaccount_code = example_cid 13, by_id = [1 \<mapsto> example_cid 10], by_code = [example_cid 10 \<mapsto> 1]\<rparr>"

definition example_accounts :: ActorMap where
  "example_accounts i = Inr (if i = 100 then Some example_actor
    else if i = 101 then Some (example_actor\<lparr>balance := 5\<rparr>) else None)"

definition example_vm :: vm_env where
  "example_vm = \<lparr>ve_ipld = example_env, ve_addr = leb_crates, enc_address = (\<lambda>_. []),
    enc_upgrade_info = (\<lambda>_. []), events_amt = (\<lambda>_. Inr (example_cid 9)),
    read_cid = (\<lambda>_. None), cid_bytes = (\<lambda>_. []), digest = (\<lambda>_ _. replicate 32 0),
    verify_sig = (\<lambda>_ _ _ _. Some False), verify_bls = (\<lambda>_ _ _. None), recover_secp = (\<lambda>_ _. None),
    extern_tipset_cid = (\<lambda>_. None), extern_chain_randomness = (\<lambda>_. None),
    extern_beacon_randomness = (\<lambda>_. None), engine_preload = (\<lambda>_. None),
    ve_proofs = example_proofs, extern_verify_consensus_fault = (\<lambda>_ _ _. Inr (None, 0)),
    dec_pieces = (\<lambda>_. None), dec_post = (\<lambda>_. Some (Inl ())), dec_aggregate = (\<lambda>_. None),
    dec_replica = (\<lambda>_. None), dec_seals = (\<lambda>_. Some (Inr []))\<rparr>"

definition example_engine :: engine where
  "example_engine = \<lparr>eng_cache = (\<lambda>_. None), eng_load = (\<lambda>_. None), eng_redirect = (\<lambda>_. None)\<rparr>"

definition example_cm :: CallManager where
  "example_cm = cm_new example_context example_builtin (example_tree\<lparr>st_hamt := example_accounts\<rparr>)
    10000000 100 (new_id 100) (Some 101) (new_id 101) 0 0"

lemma example_view: "cm_view example_cm = example_accounts"
  by (simp add: example_cm_def cm_new_def Let_def cm_view_def st_view_def example_tree_def hm_default_def fun_eq_iff)

lemma example_balances: "balances_ok (cm_view example_cm)"
  by (simp add: example_view balances_ok_def view_balance_def example_accounts_def example_actor_def actor_new_def)

lemma example_tracker: "tracker_inv (cm_gas_tracker example_cm)"
  by (simp add: example_cm_def cm_new_def Let_def tracker_new_inv)

subsection \<open>Tokens\<close>

text \<open>
  C2: no call creates tokens. Whatever code runs, if no balance is negative before a call then none
  is negative after it, and the sum of all balances has not grown, whether the call succeeds,
  fails or runs out of gas, with every transfer, actor creation, upgrade, self destruct and nested
  call inside it.
\<close>

theorem call_never_mints:
  assumes "balances_ok (cm_view s)"
  shows "balances_ok (cm_view (snd (call_actor env eng n from to entry params value gas ro s))) \<and>
    total_supply (cm_view (snd (call_actor env eng n from to entry params value gas ro s))) \<le> total_supply (cm_view s)"
proof -
  have "keeps evolves (call_actor env eng n from to entry params value gas ro)"
    using no_mint.call_actor_ok [of env eng n] by (simp add: call_ok_def)
  from keeps_snd [OF this] assms show ?thesis by (simp add: evolves_def funds_ok_def)
qed

theorem call_never_mints_witness:
  "total_supply (cm_view (snd (call_actor example_vm example_engine 1024 100 (new_id 101) (Invoke METHOD_SEND)
      None 7 None False example_cm))) \<le> total_supply (cm_view example_cm)"
  using call_never_mints [OF example_balances] by blast

subsection \<open>Read-only calls\<close>

text \<open>
  C3: a read-only call changes nothing. A call with the read-only flag and no value leaves every
  actor as it was (state root, code, balance, sequence) and emits no event, although the code it
  runs may call any other actor with any flags.
\<close>

theorem read_only_call_frozen:
  "cm_view (snd (call_actor env eng n from to entry params 0 gas True s)) = cm_view s \<and>
   ev_events (cm_events (snd (call_actor env eng n from to entry params 0 gas True s))) = ev_events (cm_events s)"
proof -
  have "keeps frozen (call_actor env eng n from to entry params 0 gas True)"
    using read_only.call_actor_ok [of env eng n] unfolding call_ok_def by blast
  from keeps_snd [OF this, of s] show ?thesis by (simp add: frozen_def)
qed

subsection \<open>Depth\<close>

text \<open>
  C9: the nesting bound of the model is no restriction. With the remaining call depth as the bound
  the result of a call is the result for every larger bound, so the bounded model runs every call
  the network allows to its end: recursion of actors stops at the depth check of
  \<open>with_stack_frame\<close>.
\<close>

theorem call_bound_enough:
  assumes "unat (max_call_depth (network (cm_context s))) - unat (cm_call_stack_depth s) \<le> n"
  shows "call_actor env eng n from to entry params value gas ro s =
    call_actor env eng (unat (max_call_depth (network (cm_context s))) - unat (cm_call_stack_depth s))
      from to entry params value gas ro s"
  using call_actor_agree [OF assms order_refl, of env eng "from" to entry params "value" gas ro]
  by (simp add: eq_on_def at_depth_def)

theorem call_bound_enough_witness:
  "call_actor example_vm example_engine 5000 100 (new_id 101) (Invoke 7) None 0 None False example_cm =
   call_actor example_vm example_engine 1024 100 (new_id 101) (Invoke 7) None 0 None False example_cm"
proof -
  have *: "unat (max_call_depth (network (cm_context example_cm))) - unat (cm_call_stack_depth example_cm) = 1024"
    by (simp add: example_cm_def cm_new_def example_context_def example_network_def)
  then show ?thesis using call_bound_enough [of example_cm 5000] by simp
qed

subsection \<open>What a call gives back\<close>

lemma call_base: "cm_base s (snd (call_actor env eng n from to entry params value gas ro s))"
proof -
  have "keeps evolves (call_actor env eng n from to entry params value gas ro)"
    using no_mint.call_actor_ok [of env eng n] by (simp add: call_ok_def)
  from keeps_snd [OF this, of s] show ?thesis by (simp add: evolves_def)
qed

lemma trace_if_fields:
  assumes "trace_if c e s = (r, s')"
  shows "cm_limits s' = cm_limits s" and "gt_used (cm_gas_tracker s') = gt_used (cm_gas_tracker s)"
    and "r = Inr ()"
  using assms
  by (auto simp: trace_if_def rbind_def rget_def rreturn_def cm_trace_def drain_trace_def
      split: if_splits prod.splits option.splits)



text \<open>A call in three parts: the first trace event, the limited call proper, the last trace event.\<close>

lemma call_body_parts:
  assumes "call_body env eng call from to entry params value gas ro s = (r, s')"
  obtains s1 s2 where
    "cm_limits s1 = cm_limits s" "gt_used (cm_gas_tracker s1) = gt_used (cm_gas_tracker s)"
    "with_gas_limit gas (with_stack_frame (call_actor_unchecked env eng call from to entry params value ro)) s1 = (r, s2)"
    "cm_limits s' = cm_limits s2" "gt_used (cm_gas_tracker s') = gt_used (cm_gas_tracker s2)" "frozen s s1"
proof -
  let ?f = "with_gas_limit gas (with_stack_frame (call_actor_unchecked env eng call from to entry params value ro))"
  let ?pre = "trace_if (\<lambda>_. is_invoke entry) (call_event from to entry params value gas ro)"
  obtain r1 s1 where pre: "?pre s = (r1, s1)" by fastforce
  note f1 = trace_if_fields [OF pre]
  obtain r2 s2 where f: "?f s1 = (r2, s2)" by fastforce
  obtain r3 s3 where post: "trace_if (\<lambda>_. is_invoke entry) (\<lambda>_. result_event r2) s2 = (r3, s3)" by fastforce
  note f3 = trace_if_fields [OF post]
  have "r = r2" "s' = s3"
    using assms pre f post f1(3) f3(3) by (simp_all add: call_body_def rbind_def rlift_def)
  moreover have "frozen s s1" using read_only.keeps_trace_if pre by (rule keepsD)
  ultimately show thesis using that f1 f f3 by blast
qed

lemma call_actor_body: "\<exists>call. call_actor env eng n = call_body env eng call \<and> call_ok evolves True call"
proof (cases n)
  case 0
  have "call_ok evolves True no_call" by (simp add: call_ok_def no_call_def ev_rel.keeps_throw)
  then show ?thesis using 0 by (intro exI [of _ no_call]) simp
next
  case (Suc m)
  then show ?thesis using no_mint.call_actor_ok [of env eng m] by (intro exI [of _ "call_actor env eng m"]) simp
qed


text \<open>
  C10: a call pays for itself within its limit. The gas used never shrinks and never exceeds the
  limit of the tracker, which stays at most \<open>i64::MAX\<close> milligas; and a call with an explicit gas
  limit uses at most that much, however deep the calls inside it go.
\<close>

theorem call_gas_bounded:
  assumes "tracker_inv (cm_gas_tracker s)"
  shows "let t = cm_gas_tracker s; t' = cm_gas_tracker (snd (call_actor env eng n from to entry params value gas ro s)) in
    tracker_inv t' \<and> mg (gt_used t) \<le> mg (gt_used t') \<and> mg (gt_used t') \<le> mg (gt_limit t) \<and>
    (case gas of Some l \<Rightarrow> mg (gt_used t') \<le> mg (gt_used t) + mg l | None \<Rightarrow> True)"
proof -
  obtain r s' where run: "call_actor env eng n from to entry params value gas ro s = (r, s')" by fastforce
  obtain call where call: "call_actor env eng n = call_body env eng call" "call_ok evolves True call"
    using call_actor_body by blast
  with run have "call_body env eng call from to entry params value gas ro s = (r, s')" by simp
  then obtain s1 s2 where 1: "gt_used (cm_gas_tracker s1) = gt_used (cm_gas_tracker s)"
    "with_gas_limit gas (with_stack_frame (call_actor_unchecked env eng call from to entry params value ro)) s1 = (r, s2)"
    "gt_used (cm_gas_tracker s') = gt_used (cm_gas_tracker s2)" and fr: "frozen s s1"
    by (rule call_body_parts)
  have inv1: "tracker_inv (cm_gas_tracker s1)"
    using fr assms by (simp add: frozen_def cm_base_def tracker_evolves_def)
  have "mg (gt_used (cm_gas_tracker s2)) \<le> mg (gt_used (cm_gas_tracker s1)) + mg l" if gas: "gas = Some l" for l
  proof -
    let ?f = "with_stack_frame (call_actor_unchecked env eng call from to entry params value ro)"
    let ?s = "s1\<lparr>cm_gas_tracker := push_limit l (cm_gas_tracker s1)\<rparr>"
    obtain res s3 where f: "?f ?s = (res, s3)" by fastforce
    have "keeps evolves ?f" using call(2) by (intro no_mint.keeps_with_stack_frame no_mint.keeps_unchecked) simp_all
    from keepsD [OF this f] have "tracker_evolves (push_limit l (cm_gas_tracker s1)) (cm_gas_tracker s3)"
      by (simp add: evolves_def cm_base_def)
    from push_evolve_pop [OF inv1 this] obtain t' where "pop_limit (cm_gas_tracker s3) = (Inr (), t')"
      "mg (gt_used t') = mg (gt_used (cm_gas_tracker s1)) + mg (gt_used (cm_gas_tracker s3))"
      "mg (gt_used (cm_gas_tracker s3)) \<le> mg l" by metis
    then show ?thesis using 1(2) f gas by (auto simp: with_gas_limit_def Let_def)
  qed
  moreover have "cm_base s s'" using call_base [of s env eng n "from" to entry params "value" gas ro] run by simp
  ultimately show ?thesis
    using run assms 1 by (auto simp: cm_base_def tracker_evolves_def tracker_inv_def split: option.split)
qed

theorem call_gas_bounded_witness:
  "mg (gt_used (cm_gas_tracker (snd (call_actor example_vm example_engine 1024 100 (new_id 101) (Invoke 7)
      None 0 (Some (gas_new 50)) False example_cm)))) \<le> 50000"
proof -
  have "gt_used (cm_gas_tracker example_cm) = 0"
    by (simp add: example_cm_def cm_new_def tracker_new_def Let_def min_def zero_Gas_def less_eq_Gas_def)
  then have "mg (gt_used (cm_gas_tracker example_cm)) = 0" by simp
  with call_gas_bounded [OF example_tracker, where gas = "Some (gas_new 50)"]
  show ?thesis by (simp add: Let_def mg_new)
qed

text \<open>
  C8: a failed call leaves no trace but the gas it used. When the result of a call is an error or
  a non-zero exit code, the transaction around it succeeds in restoring every actor, the events
  and the record of charged accesses to exactly what they were, after any nested calls and
  transactions.
\<close>

theorem failed_call_reverts:
  assumes "with_transaction (call_actor env eng n from to entry params value gas ro) s = (res, s')"
    and "call_failed res"
  shows "cm_view s' = cm_view s \<and> cm_events s' = cm_events s \<and> cm_access_tracker s' = cm_access_tracker s \<and>
    st_layers (cm_state_tree s') = st_layers (cm_state_tree s) \<and>
    fst (call_actor env eng n from to entry params value gas ro (cm_begin s)) = res"
proof -
  let ?call = "call_actor env eng n from to entry params value gas ro"
  obtain r1 s1 where run: "?call (cm_begin s) = (r1, s1)" by fastforce
  have "cm_base (cm_begin s) s1"
    using call_base [of "cm_begin s" env eng n "from" to entry params "value" gas ro] run by simp
  from with_transaction_run [of ?call, OF run this] obtain s2 where
    "with_transaction ?call s = (r1, s2)" "cm_base s s2" "if call_failed r1
     then cm_view s2 = cm_view s \<and> cm_events s2 = cm_events s \<and> cm_access_tracker s2 = cm_access_tracker s
     else cm_view s2 = cm_view s1 \<and> ev_events (cm_events s2) = ev_events (cm_events s1)" by blast
  with assms run show ?thesis by (auto simp: cm_base_def st_within_def)
qed

lemma call_at_max_depth:
  assumes "\<not> tracing (cm_context s)" and "max_call_depth (network (cm_context s)) \<le> cm_call_stack_depth s"
  shows "call_actor env eng n from to entry params value None ro s = (Inl (Syscall LimitExceeded), s)"
proof -
  obtain call where "call_actor env eng n = call_body env eng call" using call_actor_body by blast
  then show ?thesis using assms
    by (simp add: call_body_def trace_if_def rbind_def rget_def rreturn_def rlift_def with_gas_limit_def
        with_stack_frame_def contain_out_of_gas_def)
qed

theorem failed_call_reverts_witness:
  "cm_view (snd (with_transaction (call_actor example_vm example_engine 0 100 (new_id 101) (Invoke 7) None 0 None False)
      (example_cm\<lparr>cm_call_stack_depth := 1024\<rparr>))) = cm_view example_cm"
proof -
  let ?s = "example_cm\<lparr>cm_call_stack_depth := 1024\<rparr>"
  let ?call = "call_actor example_vm example_engine 0 100 (new_id 101) (Invoke 7) None 0 None False"
  obtain res s' where run: "with_transaction ?call ?s = (res, s')" by fastforce
  have "?call (cm_begin ?s) = (Inl (Syscall LimitExceeded), cm_begin ?s)"
    by (rule call_at_max_depth)
      (simp_all add: cm_begin_def example_cm_def cm_new_def Let_def example_context_def example_network_def)
  moreover have "cm_base (cm_begin ?s) (cm_begin ?s)" by simp
  ultimately obtain s2 where "with_transaction ?call ?s = (Inl (Syscall LimitExceeded), s2)"
    using with_transaction_run [of ?call ?s "Inl (Syscall LimitExceeded)" "cm_begin ?s"] by blast
  with run have "call_failed res" by (simp add: call_failed_def)
  from failed_call_reverts [OF run this] run show ?thesis by simp
qed

subsection \<open>Transfers\<close>

text \<open>Between actors whose update is already charged a covered transfer costs nothing and succeeds.\<close>

definition warm :: "CallManager \<Rightarrow> ActorID \<Rightarrow> bool" where
  "warm s i \<longleftrightarrow> get_actor_access_state i (cm_access_tracker s) = Some Updated"

lemma cm_get_actor_warm:
  assumes "warm s i" "cm_view s i = Inr a"
  shows "\<exists>s'. cm_get_actor i s = (Inr a, s') \<and> warm s' = warm s \<and> cm_view s' = cm_view s"
proof -
  obtain t where t: "get_actor i (cm_state_tree s) = (Inr a, t)" "st_view t = st_view (cm_state_tree s)"
    using assms get_actor_cases [of i "cm_state_tree s"] by (cases "get_actor i (cm_state_tree s)") (auto simp: cm_view_def or_fatal_def)
  then show ?thesis using assms(1)
    by (auto simp: cm_get_actor_def rbind_def rget_def rwhen_def rreturn_def on_tree_def rzoom_def on_access_def rmodify_def
        warm_def cm_view_def record_actor_read_def get_actor_access_state_def fun_eq_iff)
qed

lemma cm_set_actor_warm:
  assumes "warm s i"
  shows "\<exists>s'. cm_set_actor i a s = (Inr (), s') \<and> (\<forall>j. warm s j \<longrightarrow> warm s' j)"
  using assms
  by (auto simp: cm_set_actor_def charge_update_def rbind_def rget_def rwhen_def rreturn_def on_tree_def rzoom_def on_access_def rmodify_def
      warm_def record_actor_update_def get_actor_access_state_def hm_get_def hm_insert_def)

lemma transfer_warm:
  assumes w: "warm s from" "warm s to" and v: "0 \<le> v" "v \<le> balance a"
    and a: "cm_view s from = Inr (Some a)" and b: "cm_view s to = Inr (Some b)"
  shows "fst (transfer from to v s) = Inr ()"
proof -
  from cm_get_actor_warm [OF w(1) a] obtain s1 where
    1: "cm_get_actor from s = (Inr (Some a), s1)" "warm s1 = warm s" "cm_view s1 = cm_view s" by blast
  from cm_get_actor_warm [of s1 to "Some b"] 1 w(2) b obtain s2 where
    2: "cm_get_actor to s1 = (Inr (Some b), s2)" "warm s2 = warm s" by auto
  obtain s3 where 3: "cm_set_actor from (a\<lparr>balance := balance a - v\<rparr>) s2 = (Inr (), s3)" "warm s3 to"
    using cm_set_actor_warm [of s2 "from" "a\<lparr>balance := balance a - v\<rparr>"] 2 w by auto
  obtain s4 where 4: "cm_set_actor to (b\<lparr>balance := balance b + v\<rparr>) s3 = (Inr (), s4)"
    using cm_set_actor_warm [OF 3(2)] by blast
  show ?thesis using v 1 2 3 4
    by (simp add: transfer_def rbind_def rlift_def ok_or_def rreturn_def deduct_funds_def deposit_funds_def or_fatal_def)
qed
text \<open>
  C12: a transfer moves exactly the value. When \<open>transfer\<close> succeeds the amount was not negative and
  covered by the sender; the sender has it less and the receiver more, everything else of both and
  every other actor is as before, and the total supply is the same. A negative amount is refused
  without any effect.
\<close>

theorem transfer_exact:
  assumes "transfer from to value s = (r, s')"
  shows "(value < 0 \<longrightarrow> r = Inl (Syscall IllegalArgument) \<and> s' = s) \<and>
    (r = Inr () \<longrightarrow> 0 \<le> value \<and> value \<le> view_balance (cm_view s) from \<and>
      total_supply (cm_view s') = total_supply (cm_view s) \<and>
      (if from = to then cm_view s' = cm_view s
       else \<exists>a b. cm_view s from = Inr (Some a) \<and> cm_view s to = Inr (Some b) \<and>
         cm_view s' = (cm_view s)(from := Inr (Some (a\<lparr>balance := balance a - value\<rparr>)),
           to := Inr (Some (b\<lparr>balance := balance b + value\<rparr>)))))"
proof (intro conjI impI)
  assume neg: "value < 0"
  with assms show "r = Inl (Syscall IllegalArgument)" "s' = s" by (simp_all add: transfer_def rthrow_def)
next
  assume ok: "r = Inr ()"
  have nn: "0 \<le> value" using assms ok by (cases "value < 0") (simp_all add: transfer_def rthrow_def)
  show "0 \<le> value" by (rule nn)
  have cov: "\<exists>a. cm_view s from = Inr (Some a) \<and> value \<le> balance a"
    using assms [unfolded transfer_def] nn ok
    by (auto simp: rreturn_def rthrow_def frozen_def elim!: get_some_cases split: if_splits)
  then show "value \<le> view_balance (cm_view s) from" by (auto simp: view_balance_def)
  show "total_supply (cm_view s') = total_supply (cm_view s)"
    using assms
    by (cases rule: transfer_cases) (use ok in \<open>auto simp: frozen_def total_supply_upd view_balance_def\<close>)
  show "if from = to then cm_view s' = cm_view s
       else \<exists>a b. cm_view s from = Inr (Some a) \<and> cm_view s to = Inr (Some b) \<and>
         cm_view s' = (cm_view s)(from := Inr (Some (a\<lparr>balance := balance a - value\<rparr>)),
           to := Inr (Some (b\<lparr>balance := balance b + value\<rparr>)))"
    using assms by (cases rule: transfer_cases) (use ok in \<open>auto simp: frozen_def\<close>)
qed

theorem transfer_exact_witness:
  "let s = example_cm\<lparr>cm_access_tracker := record_actor_update 101 (record_actor_update 100 (at_new []))\<rparr>;
       v' = cm_view (snd (transfer 100 101 5 s))
   in v' 100 = Inr (Some (example_actor\<lparr>balance := 995\<rparr>)) \<and> v' 101 = Inr (Some (example_actor\<lparr>balance := 10\<rparr>))"
proof -
  let ?s = "example_cm\<lparr>cm_access_tracker := record_actor_update 101 (record_actor_update 100 (at_new []))\<rparr>"
  have warm: "warm ?s 100" "warm ?s 101"
    by (simp_all add: warm_def get_actor_access_state_def record_actor_update_def at_new_def hm_get_def hm_insert_def hm_from_iter_def)
  have bal: "balance example_actor = 1000" by (simp add: example_actor_def actor_new_def)
  have "fst (transfer 100 101 5 ?s) = Inr ()"
    by (rule transfer_warm [OF warm, of 5 example_actor "example_actor\<lparr>balance := 5\<rparr>"])
      (simp_all add: example_view example_accounts_def bal)
  then obtain s' where run: "transfer 100 101 5 ?s = (Inr (), s')" by (metis prod.collapse)
  from transfer_exact [OF run] have "cm_view s' = (cm_view ?s)(100 := Inr (Some (example_actor\<lparr>balance := 995\<rparr>)),
      101 := Inr (Some (example_actor\<lparr>balance := 10\<rparr>)))"
    by (auto simp: example_view example_accounts_def bal)
  with run show ?thesis by (simp add: Let_def)
qed

end
