(* ===== verification/Executor.thy ===== *)
theory Executor
  imports CallTheorems GasOutputs
begin

text \<open>
  The executor (\<open>fvm/src/executor/default.rs\<close>): the checks before a message, its execution and the
  settlement of its fees; and the machine it runs on (\<open>fvm/src/machine/default.rs\<close>). \<open>anyhow\<close> errors
  are \<open>Inl ()\<close>; messages of errors are dropped. The machine is poisoned only by a panic, which is not
  modelled, so it is always there. The engine pool hands out the engine; waiting for it is not
  modelled.
\<close>

subsection \<open>The machine\<close>

record DefaultMachine =
  mc_context :: MachineContext
  mc_state_tree :: StateTree
  mc_builtin_actors :: Manifest

type_synonym 'a ex_op = "(DefaultMachine, unit, 'a) rsm"

definition mc_view :: "DefaultMachine \<Rightarrow> ActorMap" where
  "mc_view m = st_view (mc_state_tree m)"

text \<open>An operation of the state tree, its error turned into an \<open>anyhow\<close> error.\<close>

definition on_machine_tree :: "'a st_op \<Rightarrow> 'a ex_op" where
  "on_machine_tree m =
    rzoom mc_state_tree (\<lambda>t s. s\<lparr>mc_state_tree := t\<rparr>) (rmap_error (\<lambda>_. ()) m)"

text \<open>
  \<open>DefaultMachine::new\<close>. The decoders of the system actor's state, of a manifest override and of a
  manifest belong to serde; \<open>raw_cid\<close> is the CID of a block under Blake2b-256.
\<close>

record manifest_codec =
  dec_system_state :: "bytes \<Rightarrow> Cid option"
  dec_override :: "bytes \<Rightarrow> (u32 \<times> Cid) option"
  dec_manifest :: "bytes \<Rightarrow> (string \<times> Cid) list option"

definition supported_versions :: "u32 set" where
  "supported_versions = {21..25}"

definition system_load :: "manifest_codec \<Rightarrow> StateTree \<Rightarrow> (Cid \<times> ActorState) kresult \<times> StateTree" where
  "system_load dec =
    rbind (get_actor SYSTEM_ACTOR_ID) (\<lambda>a.
    rbind (rlift (ok_or Fatal a)) (\<lambda>system_act.
    rbind (rget (\<lambda>s. get_cbor (dec_system_state dec) (state system_act) (st_store s))) (\<lambda>r.
    rbind (rlift (or_fatal r)) (\<lambda>st.
    rbind (rlift (ok_or Fatal st)) (\<lambda>st.
    rreturn (st, system_act))))))"

definition put_empty_blocks :: "ipld_env \<Rightarrow> Blocks \<Rightarrow> Blocks" where
  "put_empty_blocks env bs = snd (put_cbor env [128] bs)"

definition builtin_cid :: "manifest_codec \<Rightarrow> MachineContext \<Rightarrow> StateTree \<Rightarrow> (unit + (Cid \<times> u32)) \<times> StateTree" where
  "builtin_cid dec ctx t = (case builtin_actors_override (network ctx) of
      Some manifest_cid \<Rightarrow>
        (case get_cbor (dec_override dec) manifest_cid (st_store t) of
          Inr (Some (version, cid)) \<Rightarrow> (Inr (cid, version), t)
        | _ \<Rightarrow> (Inl (), t))
    | None \<Rightarrow>
        (case system_load dec t of
          (Inr (cid, _), t) \<Rightarrow> (Inr (cid, 1), t)
        | (Inl _, t) \<Rightarrow> (Inl (), t)))"

definition machine_new :: "ipld_env \<Rightarrow> manifest_codec \<Rightarrow> MachineContext \<Rightarrow> Blocks \<Rightarrow> unit + DefaultMachine" where
  "machine_new env dec ctx blockstore =
    (if network_version (network ctx) \<notin> supported_versions then Inl ()
     else case blockstore (initial_state_root ctx) of
       Inl _ \<Rightarrow> Inl ()
     | Inr None \<Rightarrow> Inl ()
     | Inr (Some _) \<Rightarrow>
         (case st_new_from_root env (put_empty_blocks env blockstore) (initial_state_root ctx) of
           Inl _ \<Rightarrow> Inl ()
         | Inr t \<Rightarrow>
             (case builtin_cid dec ctx t of
               (Inl _, t) \<Rightarrow> Inl ()
             | (Inr (cid, version), t) \<Rightarrow>
                 (case manifest_load (dec_manifest dec) (st_store t) cid version of
                   Inl _ \<Rightarrow> Inl ()
                 | Inr builtin \<Rightarrow> Inr \<lparr>mc_context = ctx, mc_state_tree = t, mc_builtin_actors = builtin\<rparr>))))"

subsection \<open>Messages and results\<close>

record Message =
  msg_version :: u64
  msg_from :: Address
  msg_to :: Address
  msg_sequence :: u64
  msg_value :: TokenAmount
  msg_method_num :: MethodNum
  msg_params :: bytes
  msg_gas_limit :: u64
  msg_gas_fee_cap :: TokenAmount
  msg_gas_premium :: TokenAmount

definition msg_check :: "Message \<Rightarrow> unit + unit" where
  "msg_check msg =
    (if msg_gas_limit msg = 0 then Inl ()
     else if unat (msg_gas_limit msg) > 2 ^ 63 - 1 then Inl ()
     else Inr ())"

datatype ApplyKind = Explicit | Implicit

record Receipt =
  rc_exit_code :: ExitCode
  rc_return_data :: bytes
  rc_gas_used :: u64
  rc_events_root :: "Cid option"

datatype ApplyFailure = MessageBacktrace Backtrace | PreValidation

record ApplyRet =
  msg_receipt :: Receipt
  ar_penalty :: TokenAmount
  ar_miner_tip :: TokenAmount
  ar_base_fee_burn :: TokenAmount
  ar_over_estimation_burn :: TokenAmount
  ar_refund :: TokenAmount
  ar_gas_refund :: u64
  ar_gas_burned :: u64
  failure_info :: "ApplyFailure option"
  ar_exec_trace :: "ExecutionEvent list"
  ar_events :: "StampedEvent list"

definition prevalidation_fail :: "ExitCode \<Rightarrow> TokenAmount \<Rightarrow> ApplyRet" where
  "prevalidation_fail c penalty = \<lparr>
    msg_receipt = \<lparr>rc_exit_code = c, rc_return_data = [], rc_gas_used = 0, rc_events_root = None\<rparr>,
    ar_penalty = penalty, ar_miner_tip = 0, ar_base_fee_burn = 0, ar_over_estimation_burn = 0,
    ar_refund = 0, ar_gas_refund = 0, ar_gas_burned = 0, failure_info = Some PreValidation,
    ar_exec_trace = [], ar_events = []\<rparr>"

subsection \<open>Before a message\<close>

text \<open>The inclusion cost and the penalty of the miner for including an invalid message.\<close>

definition inclusion :: "MachineContext \<Rightarrow> Message \<Rightarrow> ApplyKind \<Rightarrow> nat \<Rightarrow> ApplyRet + (GasCharge \<times> TokenAmount)" where
  "inclusion ctx msg kind raw_length = (case kind of
      Implicit \<Rightarrow> Inr (gas_charge_new ''none'' 0 0, 0)
    | Explicit \<Rightarrow>
        let inclusion_cost = on_chain_message (price_list (network ctx)) raw_length;
            inclusion_total = round_up (total inclusion_cost)
        in if inclusion_total > msg_gas_limit msg
           then Inl (prevalidation_fail SYS_OUT_OF_GAS (base_fee ctx * uint inclusion_total))
           else Inr (inclusion_cost, base_fee ctx * uint (msg_gas_limit msg)))"

text \<open>The sender as it may send: a placeholder with an EAM address becomes an Ethereum account.\<close>

definition valid_sender :: "Manifest \<Rightarrow> ActorState \<Rightarrow> ActorState option" where
  "valid_sender builtin st =
    (if is_placeholder_actor (code st) builtin \<and> sequence st = 0 \<and>
        (case delegated_address st of Some a \<Rightarrow> is_eam_delegated a | None \<Rightarrow> False)
     then Some (st\<lparr>code := ethaccount_code builtin\<rparr>)
     else if is_account_actor (code st) builtin \<or> is_ethaccount_actor (code st) builtin then Some st
     else None)"

definition charge_sender :: "Message \<Rightarrow> ActorState \<Rightarrow> TokenAmount \<Rightarrow> ApplyRet + (unit + ActorState \<times> TokenAmount)" where
  "charge_sender msg st penalty =
    (if msg_sequence msg \<noteq> sequence st then Inl (prevalidation_fail SYS_SENDER_STATE_INVALID penalty)
     else
       let st = st\<lparr>sequence := sequence st + 1\<rparr>;
           gas_cost = msg_gas_fee_cap msg * uint (msg_gas_limit msg)
       in if balance st < gas_cost then Inl (prevalidation_fail SYS_SENDER_STATE_INVALID penalty)
          else Inr (case deduct_funds gas_cost st of Inl _ \<Rightarrow> Inl () | Inr st \<Rightarrow> Inr (st, gas_cost)))"

text \<open>The checks of the sender of an explicit message, and the charge for its gas.\<close>

definition check_sender :: "Message \<Rightarrow> ActorID \<Rightarrow> TokenAmount \<Rightarrow> GasCharge \<Rightarrow> (ApplyRet + (ActorID \<times> TokenAmount \<times> GasCharge)) ex_op" where
  "check_sender msg sender_id penalty inclusion_cost =
    rbind (on_machine_tree (get_actor sender_id)) (\<lambda>a.
    case a of
      None \<Rightarrow> rreturn (Inl (prevalidation_fail SYS_SENDER_INVALID penalty))
    | Some st \<Rightarrow>
        rbind (rget mc_builtin_actors) (\<lambda>builtin.
        case valid_sender builtin st of
          None \<Rightarrow> rreturn (Inl (prevalidation_fail SYS_SENDER_INVALID penalty))
        | Some st \<Rightarrow>
            (case charge_sender msg st penalty of
              Inl ret \<Rightarrow> rreturn (Inl ret)
            | Inr (Inl e) \<Rightarrow> rthrow e
            | Inr (Inr (st, gas_cost)) \<Rightarrow>
                rbind (on_machine_tree (rmodify (set_actor sender_id st))) (\<lambda>_.
                rreturn (Inr (sender_id, gas_cost, inclusion_cost))))))"

definition preflight_message ::
  "vm_env \<Rightarrow> Message \<Rightarrow> ApplyKind \<Rightarrow> nat \<Rightarrow> (ApplyRet + (ActorID \<times> TokenAmount \<times> GasCharge)) ex_op" where
  "preflight_message env msg kind raw_length =
    rbind (rlift (msg_check msg)) (\<lambda>_.
    rbind (rget mc_context) (\<lambda>ctx.
    case inclusion ctx msg kind raw_length of
      Inl ret \<Rightarrow> rreturn (Inl ret)
    | Inr (inclusion_cost, penalty) \<Rightarrow>
        rbind (on_machine_tree (lookup_id (ve_ipld env) (msg_from msg))) (\<lambda>found.
        case found of
          None \<Rightarrow> rreturn (Inl (prevalidation_fail SYS_SENDER_INVALID penalty))
        | Some sender_id \<Rightarrow>
            if kind = Implicit then rreturn (Inr (sender_id, 0, inclusion_cost))
            else check_sender msg sender_id penalty inclusion_cost)))"

subsection \<open>After a message\<close>

definition transfer_to_actor :: "ActorID \<Rightarrow> TokenAmount \<Rightarrow> unit ex_op" where
  "transfer_to_actor addr amt =
    (if amt < 0 then rthrow ()
     else if amt = 0 then rreturn ()
     else on_machine_tree (mutate_actor addr (\<lambda>act. or_fatal (deposit_funds amt act))))"

definition finish_message ::
  "ActorID \<Rightarrow> Message \<Rightarrow> Receipt \<Rightarrow> ApplyFailure option \<Rightarrow> TokenAmount \<Rightarrow> ExecutionEvent list \<Rightarrow>
   StampedEvent list \<Rightarrow> ApplyRet ex_op" where
  "finish_message sender_id msg receipt failure gas_cost exec_trace events =
    rbind (rget (\<lambda>m. base_fee (mc_context m))) (\<lambda>bf.
    let out = compute (rc_gas_used receipt) (msg_gas_limit msg) bf (msg_gas_fee_cap msg) (msg_gas_premium msg)
    in rbind (transfer_to_actor BURNT_FUNDS_ACTOR_ID (base_fee_burn out)) (\<lambda>_.
       rbind (transfer_to_actor REWARD_ACTOR_ID (miner_tip out)) (\<lambda>_.
       rbind (transfer_to_actor BURNT_FUNDS_ACTOR_ID (over_estimation_burn out)) (\<lambda>_.
       rbind (transfer_to_actor sender_id (refund out)) (\<lambda>_.
       if base_fee_burn out + over_estimation_burn out + refund out + miner_tip out \<noteq> gas_cost
       then rthrow ()
       else rreturn \<lparr>msg_receipt = receipt, ar_penalty = miner_penalty out, ar_miner_tip = miner_tip out,
         ar_base_fee_burn = base_fee_burn out, ar_over_estimation_burn = over_estimation_burn out,
         ar_refund = refund out, ar_gas_refund = gas_refund out, ar_gas_burned = gas_burned out,
         failure_info = failure, ar_exec_trace = exec_trace, ar_events = events\<rparr>)))))"

subsection \<open>Execution\<close>

definition effective_premium :: "Message \<Rightarrow> MachineContext \<Rightarrow> TokenAmount" where
  "effective_premium msg ctx = max (min (msg_gas_premium msg) (msg_gas_fee_cap msg - base_fee ctx)) 0"

definition msg_block :: "Message \<Rightarrow> Block option" where
  "msg_block msg =
    (if msg_params msg = [] then None
     else Some (block_new (if msg_method_num msg = METHOD_SEND then IPLD_RAW else CBOR) (msg_params msg) []))"

text \<open>
  The part inside \<open>map_machine\<close>: the call manager is made from the machine and gives it back. The
  call depth is 0 at the start, so the nesting bound is the maximal call depth.
\<close>

definition message_cm :: "Message \<Rightarrow> ActorID \<Rightarrow> ActorID option \<Rightarrow> DefaultMachine \<Rightarrow> CallManager" where
  "message_cm msg sender_id receiver_id m =
    cm_new (mc_context m) (mc_builtin_actors m) (mc_state_tree m) (msg_gas_limit msg) sender_id
      (msg_from msg) receiver_id (msg_to msg) (msg_sequence msg) (effective_premium msg (mc_context m))"

definition apply_message ::
  "vm_env \<Rightarrow> engine \<Rightarrow> Message \<Rightarrow> ActorID \<Rightarrow> ActorID option \<Rightarrow> GasCharge \<Rightarrow>
   (DefaultMachine, ExecutionError, InvocationResult kresult \<times> FinishRet) rsm" where
  "apply_message env eng msg sender_id receiver_id inclusion_cost m =
    (case cm_charge_gas (\<lambda>_. inclusion_cost) (message_cm msg sender_id receiver_id m) of
      (Inl e, cm) \<Rightarrow> (Inl e, m\<lparr>mc_state_tree := snd (cm_finish env cm)\<rparr>)
    | (Inr _, cm) \<Rightarrow>
        (case with_transaction
                (call_actor env eng (unat (max_call_depth (network (mc_context m)))) sender_id (msg_to msg)
                  (Invoke (msg_method_num msg)) (msg_block msg) (msg_value msg) None False) cm of
          (result, cm) \<Rightarrow>
            (case cm_finish env cm of
              (Inl e, t) \<Rightarrow> (Inl e, m\<lparr>mc_state_tree := t\<rparr>)
            | (Inr fin, t) \<Rightarrow> (Inr (result, fin), m\<lparr>mc_state_tree := t\<rparr>))))"

definition dispatch_exit_code :: "ErrorNumber \<Rightarrow> ExitCode" where
  "dispatch_exit_code e = (case e of
      InsufficientFunds \<Rightarrow> SYS_INSUFFICIENT_FUNDS
    | NotFound \<Rightarrow> SYS_INVALID_RECEIVER
    | _ \<Rightarrow> SYS_ASSERTION_FAILED)"

definition make_receipt :: "Message \<Rightarrow> InvocationResult kresult \<Rightarrow> FinishRet \<Rightarrow> Receipt \<times> Backtrace" where
  "make_receipt msg res fin =
    (let bt = fin_backtrace fin;
         failed = (\<lambda>c g. \<lparr>rc_exit_code = c, rc_return_data = [], rc_gas_used = g, rc_events_root = fin_events_root fin\<rparr>)
     in case res of
          Inr r \<Rightarrow>
            (\<lparr>rc_exit_code = exit_code r,
              rc_return_data = (case ret_value r of Some blk \<Rightarrow> block_data blk | None \<Rightarrow> []),
              rc_gas_used = fin_gas_used fin, rc_events_root = fin_events_root fin\<rparr>,
             if is_success (exit_code r) then backtrace_clear bt else bt)
        | Inl OutOfGas \<Rightarrow> (failed SYS_OUT_OF_GAS (fin_gas_used fin), bt)
        | Inl (Syscall e) \<Rightarrow>
            (failed (dispatch_exit_code e) (fin_gas_used fin),
             backtrace_begin (CauseSyscall ''send'' ''send'' e) bt)
        | Inl Fatal \<Rightarrow>
            (failed SYS_ASSERTION_FAILED (msg_gas_limit msg), backtrace_set_cause CauseFatal bt))"

definition implicit_ret :: "Receipt \<Rightarrow> ApplyFailure option \<Rightarrow> FinishRet \<Rightarrow> ApplyRet" where
  "implicit_ret receipt failure fin = \<lparr>
    msg_receipt = receipt, ar_penalty = 0, ar_miner_tip = 0, ar_base_fee_burn = 0,
    ar_over_estimation_burn = 0, ar_refund = 0, ar_gas_refund = 0, ar_gas_burned = 0,
    failure_info = failure, ar_exec_trace = fin_exec_trace fin, ar_events = fin_events fin\<rparr>"

definition execute_message ::
  "vm_env \<Rightarrow> engine \<Rightarrow> Message \<Rightarrow> ApplyKind \<Rightarrow> nat \<Rightarrow> ApplyRet ex_op" where
  "execute_message env eng msg kind raw_length =
    rbind (preflight_message env msg kind raw_length) (\<lambda>pre.
    case pre of
      Inl ret \<Rightarrow> rreturn ret
    | Inr (sender_id, gas_cost, inclusion_cost) \<Rightarrow>
        rbind (on_machine_tree (lookup_id (ve_ipld env) (msg_to msg))) (\<lambda>receiver_id.
        rbind (rmap_error (\<lambda>_. ()) (apply_message env eng msg sender_id receiver_id inclusion_cost)) (\<lambda>(res, fin).
        case make_receipt msg res fin of (receipt, bt) \<Rightarrow>
          let failure = (if backtrace_is_empty bt \<or> is_success (rc_exit_code receipt) then None
                         else Some (MessageBacktrace bt))
          in (case kind of
                Explicit \<Rightarrow> finish_message sender_id msg receipt failure gas_cost
                  (fin_exec_trace fin) (fin_events fin)
              | Implicit \<Rightarrow> rreturn (implicit_ret receipt failure fin)))))"

subsection \<open>What the checks do\<close>

lemma machine_treeE:
  assumes "on_machine_tree m s = (r, s')"
  obtains r0 t where "m (mc_state_tree s) = (r0, t)" "s' = s\<lparr>mc_state_tree := t\<rparr>"
    "r = (case r0 of Inl _ \<Rightarrow> Inl () | Inr a \<Rightarrow> Inr a)"
  using assms
  by (cases "m (mc_state_tree s)") (auto simp: on_machine_tree_def rzoom_def rmap_error_def split: sum.splits)

text \<open>What the executor never changes, and what its reading steps do not change either.\<close>

definition mc_same :: "DefaultMachine \<Rightarrow> DefaultMachine \<Rightarrow> bool" where
  "mc_same m m' \<longleftrightarrow> mc_context m' = mc_context m \<and> mc_builtin_actors m' = mc_builtin_actors m"

definition mc_reads :: "DefaultMachine \<Rightarrow> DefaultMachine \<Rightarrow> bool" where
  "mc_reads m m' \<longleftrightarrow> mc_same m m' \<and> mc_view m' = mc_view m"

interpretation mcr: step_preorder mc_reads
  by unfold_locales (auto simp: mc_reads_def mc_same_def)

lemma reads_tree:
  assumes "\<And>t. st_view (snd (m t)) = st_view t"
  shows "keeps mc_reads (on_machine_tree m)"
  by (rule keepsI, elim machine_treeE) (metis assms mc_reads_def mc_same_def mc_view_def snd_conv
      DefaultMachine.select_convs DefaultMachine.update_convs DefaultMachine.surjective)

lemmas machine_reads = reads_tree [OF lookup_id_view] reads_tree [OF get_actor_view]

lemma machine_get_actor:
  assumes "on_machine_tree (get_actor i) s = (Inr a, s')"
  shows "mc_view s i = Inr a"
  using assms
proof (rule machine_treeE)
  fix r0 t
  assume "get_actor i (mc_state_tree s) = (r0, t)" "Inr a = (case r0 of Inl _ \<Rightarrow> Inl () | Inr a \<Rightarrow> Inr a)"
  then show ?thesis using get_actor_cases(1) [of i "mc_state_tree s" r0 t]
    by (auto simp: mc_view_def or_fatal_def split: sum.splits)
qed

lemma machine_set_actor:
  "on_machine_tree (rmodify (set_actor i a)) s = (Inr (), s\<lparr>mc_state_tree := set_actor i a (mc_state_tree s)\<rparr>)"
  by (simp add: on_machine_tree_def rzoom_def rmap_error_def rmodify_def)

text \<open>A message that is charged: who sends it, and the sender's state afterwards.\<close>

definition charged_sender :: "Message \<Rightarrow> Manifest \<Rightarrow> ActorState \<Rightarrow> ActorState option" where
  "charged_sender msg builtin st0 = (case valid_sender builtin st0 of
      None \<Rightarrow> None
    | Some st \<Rightarrow>
        if msg_sequence msg = sequence st \<and> 0 \<le> msg_gas_fee_cap msg * uint (msg_gas_limit msg) \<and>
           msg_gas_fee_cap msg * uint (msg_gas_limit msg) \<le> balance st
        then Some (st\<lparr>sequence := sequence st + 1, balance := balance st - msg_gas_fee_cap msg * uint (msg_gas_limit msg)\<rparr>)
        else None)"

definition rejection :: "ApplyRet \<Rightarrow> bool" where
  "rejection ret \<longleftrightarrow> (\<exists>c p. ret = prevalidation_fail c p \<and> \<not> is_success c)"

lemma rejections [simp]:
  "rejection (prevalidation_fail SYS_OUT_OF_GAS p)" "rejection (prevalidation_fail SYS_SENDER_INVALID p)"
  "rejection (prevalidation_fail SYS_SENDER_STATE_INVALID p)"
  unfolding rejection_def
  by (rule exI, rule exI, rule conjI, rule refl,
      simp add: is_success_def SYS_OUT_OF_GAS_def SYS_SENDER_INVALID_def SYS_SENDER_STATE_INVALID_def
        exit_code_new_def)+

lemma charge_sender_cases:
  assumes "valid_sender builtin st0 = Some st"
  obtains (reject) ret where "charge_sender msg st p = Inl ret" "rejection ret"
  | (error) "charge_sender msg st p = Inr (Inl ())"
  | (ok) st' where "charge_sender msg st p = Inr (Inr (st', msg_gas_fee_cap msg * uint (msg_gas_limit msg)))"
      "charged_sender msg builtin st0 = Some st'"
proof -
  let ?cost = "msg_gas_fee_cap msg * uint (msg_gas_limit msg)"
  consider "msg_sequence msg \<noteq> sequence st \<or> balance st < ?cost"
    | "msg_sequence msg = sequence st" "?cost \<le> balance st" "?cost < 0"
    | "msg_sequence msg = sequence st" "?cost \<le> balance st" "0 \<le> ?cost" by linarith
  then show thesis
  proof cases
    case 1
    then have "charge_sender msg st p = Inl (prevalidation_fail SYS_SENDER_STATE_INVALID p)"
      by (auto simp: charge_sender_def Let_def)
    then show thesis by (rule reject) simp
  next
    case 2
    then show thesis by (intro error) (simp add: charge_sender_def deduct_funds_def Let_def)
  next
    case 3
    then show thesis by (intro ok) (simp_all add: charge_sender_def charged_sender_def deduct_funds_def Let_def assms)
  qed
qed

lemma check_sender_cases:
  assumes "check_sender msg i p c m = (r, m')"
  obtains (fail) "mc_reads m m'" "r = Inl ()"
  | (reject) ret where "mc_reads m m'" "r = Inr (Inl ret)" "rejection ret"
  | (ok) st0 st where "mc_same m m'" "mc_view m i = Inr (Some st0)"
      "charged_sender msg (mc_builtin_actors m) st0 = Some st" "mc_view m' = (mc_view m)(i := Inr (Some st))"
      "r = Inr (Inr (i, msg_gas_fee_cap msg * uint (msg_gas_limit msg), c))"
proof -
  obtain f m1 where look: "on_machine_tree (get_actor i) m = (f, m1)" by fastforce
  have r1: "mc_reads m m1" using machine_reads(2) look by (rule keepsD)
  then have b1: "mc_builtin_actors m1 = mc_builtin_actors m" by (simp add: mc_reads_def mc_same_def)
  consider (err) "f = Inl ()" | (none) "f = Inr None" | (some) st0 where "f = Inr (Some st0)"
    by (cases f) auto
  then show thesis
  proof cases
    case err
    then show thesis using assms look r1 by (intro fail) (simp_all add: check_sender_def rsm_defs)
  next
    case none
    then show thesis using assms look r1
      by (intro reject [of "prevalidation_fail SYS_SENDER_INVALID p"]) (simp_all add: check_sender_def rsm_defs)
  next
    case (some st0)
    have v: "mc_view m i = Inr (Some st0)" using machine_get_actor look some by simp
    show thesis
    proof (cases "valid_sender (mc_builtin_actors m) st0")
      case None
      then show thesis using assms look r1 b1 some
        by (intro reject [of "prevalidation_fail SYS_SENDER_INVALID p"]) (simp_all add: check_sender_def rsm_defs)
    next
      case valid: (Some st)
      note run = assms [unfolded check_sender_def, unfolded rbind_def rget_def, simplified look some b1 valid, simplified b1 valid]
      from valid show thesis
      proof (cases rule: charge_sender_cases [where msg = msg and p = p])
        case (reject ret)
        then show thesis using that(2) [of ret] run r1 b1 valid by (simp add: rreturn_def)
      next
        case error
        then show thesis using that(1) run r1 b1 valid by (simp add: rthrow_def)
      next
        case (ok st')
        have "mc_view (m1\<lparr>mc_state_tree := set_actor i st' (mc_state_tree m1)\<rparr>) = (mc_view m)(i := Inr (Some st'))"
          using r1 by (simp add: mc_view_def mc_reads_def)
        then show thesis using that(3) [OF _ v ok(2)] run ok(1) r1 b1 valid
          by (auto simp: machine_set_actor rreturn_def mc_reads_def mc_same_def)
      qed
    qed
  qed
qed

lemma preflight_cases:
  assumes "preflight_message env msg kind raw_length m = (r, m')"
  obtains (fail) "mc_reads m m'" "r = Inl ()"
  | (reject) ret where "mc_reads m m'" "r = Inr (Inl ret)" "rejection ret"
  | (implicit) i where "mc_reads m m'" "kind = Implicit" "r = Inr (Inr (i, 0, gas_charge_new ''none'' 0 0))"
  | (explicit) i st0 st c where "kind = Explicit" "mc_same m m'" "mc_view m i = Inr (Some st0)"
      "charged_sender msg (mc_builtin_actors m) st0 = Some st" "mc_view m' = (mc_view m)(i := Inr (Some st))"
      "r = Inr (Inr (i, msg_gas_fee_cap msg * uint (msg_gas_limit msg), c))"
      "c = on_chain_message (price_list (network (mc_context m))) raw_length"
      "round_up (total c) \<le> msg_gas_limit msg"
proof (cases "msg_check msg")
  case (Inl e)
  then show thesis using assms by (intro fail) (simp_all add: preflight_message_def rsm_defs mcr.R_refl)
next
  case chk: (Inr u)
  show thesis
  proof (cases "inclusion (mc_context m) msg kind raw_length")
    case (Inl ret)
    then have "rejection ret" by (auto simp: inclusion_def Let_def split: ApplyKind.splits if_splits)
    then show thesis using assms chk Inl
      by (intro reject [of ret]) (simp_all add: preflight_message_def rsm_defs mcr.R_refl)
  next
    case incl: (Inr ip)
    obtain c p where ip: "ip = (c, p)" by (cases ip)
    obtain f m1 where look: "on_machine_tree (lookup_id (ve_ipld env) (msg_from msg)) m = (f, m1)" by fastforce
    have r1: "mc_reads m m1" using machine_reads(1) look by (rule keepsD)
    consider (err) "f = Inl ()" | (none) "f = Inr None" | (some) i where "f = Inr (Some i)"
      by (cases f) auto
    then show thesis
    proof cases
      case err
      then show thesis using assms chk incl ip look r1 by (intro fail) (simp_all add: preflight_message_def rsm_defs)
    next
      case none
      then show thesis using assms chk incl ip look r1
        by (intro reject [of "prevalidation_fail SYS_SENDER_INVALID p"]) (simp_all add: preflight_message_def rsm_defs)
    next
      case (some i)
      show thesis
      proof (cases kind)
        case Implicit
        then have "c = gas_charge_new ''none'' 0 0" using incl ip by (simp add: inclusion_def)
        then show thesis using assms chk incl ip look r1 some Implicit
          by (intro implicit [of i]) (simp_all add: preflight_message_def rsm_defs)
      next
        case Explicit
        then have c: "c = on_chain_message (price_list (network (mc_context m))) raw_length"
          "round_up (total c) \<le> msg_gas_limit msg"
          using incl ip by (auto simp: inclusion_def Let_def not_less split: if_splits)
        have run: "check_sender msg i p c m1 = (r, m')"
          using assms chk incl ip look some Explicit by (simp add: preflight_message_def rsm_defs)
        then show thesis
        proof (cases rule: check_sender_cases)
          case fail
          then show thesis using that(1) r1 by (blast intro: mcr.R_trans)
        next
          case (reject ret)
          then show thesis using that(2) r1 by (blast intro: mcr.R_trans)
        next
          case (ok st0 st)
          then show thesis using that(4) [OF Explicit _ _ _ _ _ c] r1 by (simp add: mc_reads_def mc_same_def)
        qed
      qed
    qed
  qed
qed

subsection \<open>What the execution does\<close>

lemma message_cm_facts:
  "cm_view (message_cm msg i rid m) = mc_view m" "cm_state_tree (message_cm msg i rid m) = mc_state_tree m"
  "tracker_inv (cm_gas_tracker (message_cm msg i rid m))"
  "mg (gt_limit (cm_gas_tracker (message_cm msg i rid m))) \<le> 1000 * unat (msg_gas_limit msg)"
  by (simp_all add: message_cm_def cm_new_def Let_def cm_view_def mc_view_def tracker_new_inv)
    (simp add: tracker_new_def Let_def mg_simps mg_new)

lemma cm_finish_tree: "snd (cm_finish env s) = cm_state_tree s"
  by (simp add: cm_finish_def Let_def split: sum.split)

lemma cm_finish_gas: "cm_finish env s = (Inr fin, t) \<Longrightarrow> fin_gas_used fin = round_up (gt_used (cm_gas_tracker s))"
  by (auto simp: cm_finish_def Let_def split: sum.splits)

lemma round_up_within: "mg g \<le> 1000 * unat n \<Longrightarrow> round_up g \<le> n"
  by (simp add: word_le_nat_alt unat_round_up)

text \<open>The transaction around the call of a message.\<close>

lemma message_call:
  assumes "with_transaction (call_actor env eng n from to entry params value gas ro) s = (res, s')"
  shows "evolves s s'" and "call_failed res \<Longrightarrow> cm_view s' = cm_view s"
proof -
  let ?call = "call_actor env eng n from to entry params value gas ro"
  have ev: "keeps evolves ?call" using no_mint.call_actor_ok [of env eng n] by (simp add: call_ok_def)
  from with_transaction_evolves [OF ev] assms show "evolves s s'" by (rule keepsD)
  obtain r1 s1 where run: "?call (cm_begin s) = (r1, s1)" by fastforce
  have "cm_base (cm_begin s) s1" using keepsD [OF ev run] by (simp add: evolves_def)
  from with_transaction_run [of ?call, OF run this] assms
  show "call_failed res \<Longrightarrow> cm_view s' = cm_view s" by auto
qed

lemma apply_message_effect:
  assumes "apply_message env eng msg i rid c m = (r, m')"
  shows "mc_same m m'" and "funds_ok (mc_view m) (mc_view m')"
    and "r = Inr (res, fin) \<Longrightarrow> fin_gas_used fin \<le> msg_gas_limit msg"
    and "r = Inr (res, fin) \<Longrightarrow> call_failed res \<Longrightarrow> mc_view m' = mc_view m"
proof -
  let ?cm = "message_cm msg i rid m"
  let ?call = "call_actor env eng (unat (max_call_depth (network (mc_context m)))) i (msg_to msg)
    (Invoke (msg_method_num msg)) (msg_block msg) (msg_value msg) None False"
  obtain r0 s0 where chg: "cm_charge_gas (\<lambda>_. c) ?cm = (r0, s0)" by fastforce
  have "keeps frozen (cm_charge_gas (\<lambda>_. c))" by (rule fr.keeps_charge)
  from keepsD [OF this chg] have fr: "frozen ?cm s0" .
  then have v0: "cm_view s0 = mc_view m" by (simp add: frozen_def message_cm_facts)
  obtain res' s1 where call: "with_transaction ?call s0 = (res', s1)" by fastforce
  note eff = message_call [OF call]
  have view: "mc_view m' = (if isl r0 then cm_view s0 else cm_view s1)" and same: "mc_same m m'"
    using assms chg call cm_finish_tree [of env s0] cm_finish_tree [of env s1]
    by (auto simp: apply_message_def mc_view_def mc_same_def cm_view_def split: sum.splits prod.splits)
  show "mc_same m m'" by (rule same)
  show "funds_ok (mc_view m) (mc_view m')" using view eff(1) v0 by (simp add: evolves_def)
  assume r: "r = Inr (res, fin)"
  have ok: "\<not> isl r0" "res = res'" "fst (cm_finish env s1) = Inr fin"
    using assms chg call r by (auto simp: apply_message_def split: sum.splits prod.splits)
  from ok(2) view v0 eff(2) show "mc_view m' = mc_view m" if "call_failed res"
    using that ok(1) by simp
  have "mg (gt_used (cm_gas_tracker s1)) \<le> mg (gt_limit (cm_gas_tracker ?cm))"
  proof -
    have "tracker_evolves (cm_gas_tracker ?cm) (cm_gas_tracker s0)" using fr by (simp add: frozen_def cm_base_def)
    moreover have "tracker_evolves (cm_gas_tracker s0) (cm_gas_tracker s1)" using eff(1) by (simp add: evolves_def cm_base_def)
    ultimately have "tracker_evolves (cm_gas_tracker ?cm) (cm_gas_tracker s1)" by (rule tracker.R_trans)
    with message_cm_facts(3) have "tracker_inv (cm_gas_tracker s1)" "gt_limit (cm_gas_tracker s1) = gt_limit (cm_gas_tracker ?cm)"
      unfolding tracker_evolves_def by blast+
    then show ?thesis by (simp add: tracker_inv_def)
  qed
  also note message_cm_facts(4)
  finally have "round_up (gt_used (cm_gas_tracker s1)) \<le> msg_gas_limit msg" by (rule round_up_within)
  then show "fin_gas_used fin \<le> msg_gas_limit msg"
    using cm_finish_gas [of env s1 fin] ok(3) by (cases "cm_finish env s1") simp
qed

lemma make_receipt_gas:
  assumes "make_receipt msg res fin = (rc, bt)" and "fin_gas_used fin \<le> msg_gas_limit msg"
  shows "rc_gas_used rc \<le> msg_gas_limit msg"
  using assms by (auto simp: make_receipt_def Let_def split: sum.splits ExecutionError.splits)

lemma make_receipt_failed:
  assumes "make_receipt msg res fin = (rc, bt)"
  shows "is_success (rc_exit_code rc) \<longleftrightarrow> \<not> call_failed res"
  using assms
  by (auto simp: make_receipt_def Let_def call_failed_def dispatch_exit_code_def is_success_def exit_code_new_def
      SYS_OUT_OF_GAS_def SYS_INSUFFICIENT_FUNDS_def SYS_INVALID_RECEIVER_def SYS_ASSERTION_FAILED_def
      split: sum.splits ExecutionError.splits ErrorNumber.splits)

subsection \<open>What the settlement does\<close>

definition credit :: "TokenAmount \<Rightarrow> ActorID \<Rightarrow> ActorMap \<Rightarrow> ActorMap" where
  "credit amt i v = (if amt = 0 then v else
    v(i := (case v i of Inr (Some a) \<Rightarrow> Inr (Some (a\<lparr>balance := balance a + amt\<rparr>)) | x \<Rightarrow> x)))"

lemma transfer_to_actor_ok:
  assumes "transfer_to_actor i amt m = (Inr (), m')"
  shows "mc_same m m'" "0 \<le> amt" "mc_view m' = credit amt i (mc_view m)"
    "amt \<noteq> 0 \<Longrightarrow> \<exists>a. mc_view m i = Inr (Some a)"
proof -
  show nn: "0 \<le> amt" using assms by (simp add: transfer_to_actor_def rthrow_def split: if_splits)
  have "mc_same m m' \<and> mc_view m' = credit amt i (mc_view m) \<and> (amt \<noteq> 0 \<longrightarrow> (\<exists>a. mc_view m i = Inr (Some a)))"
  proof (cases "amt = 0")
    case True
    then show ?thesis using assms by (simp add: transfer_to_actor_def rreturn_def mc_same_def credit_def)
  next
    case False
    with nn assms have "on_machine_tree (mutate_actor i (\<lambda>act. or_fatal (deposit_funds amt act))) m = (Inr (), m')"
      by (simp add: transfer_to_actor_def)
    then obtain t where mut: "mutate_actor i (\<lambda>act. or_fatal (deposit_funds amt act)) (mc_state_tree m) = (Inr (), t)"
      and m': "m' = m\<lparr>mc_state_tree := t\<rparr>"
      by (rule machine_treeE) (auto split: sum.splits)
    obtain r1 t1 where g: "get_actor i (mc_state_tree m) = (r1, t1)" by fastforce
    note gc = get_actor_cases [OF g]
    from mut g nn obtain a where "r1 = Inr (Some a)" "t = set_actor i (a\<lparr>balance := balance a + amt\<rparr>) t1"
      by (auto simp: mutate_actor_def maybe_mutate_actor_id_def rsm_defs or_fatal_def deposit_funds_def
          split: sum.splits option.splits)
    then show ?thesis using gc m' False
      by (auto simp: mc_view_def mc_same_def credit_def or_fatal_def split: sum.splits)
  qed
  then show "mc_same m m'" "mc_view m' = credit amt i (mc_view m)"
    "amt \<noteq> 0 \<Longrightarrow> \<exists>a. mc_view m i = Inr (Some a)" by blast+
qed


lemma credit_supply: "(amt = 0 \<or> (\<exists>a. v i = Inr (Some a))) \<Longrightarrow> total_supply (credit amt i v) = total_supply v + amt"
  by (auto simp: credit_def total_supply_upd view_balance_def)

lemma credit_balances: "balances_ok v \<Longrightarrow> 0 \<le> amt \<Longrightarrow> balances_ok (credit amt i v)"
  by (auto simp: credit_def balances_ok_def view_balance_def split: sum.splits option.splits)

lemma credit_other: "j \<noteq> i \<Longrightarrow> credit amt i v j = v j"
  by (simp add: credit_def)

lemma credit_exists: "(\<exists>a. v j = Inr (Some a)) \<Longrightarrow> \<exists>a. credit amt i v j = Inr (Some a)"
  by (auto simp: credit_def)

text \<open>The accounts after the settlement.\<close>

definition settle :: "GasOutputs \<Rightarrow> ActorID \<Rightarrow> ActorMap \<Rightarrow> ActorMap" where
  "settle out i v = credit (refund out) i (credit (over_estimation_burn out) BURNT_FUNDS_ACTOR_ID
    (credit (miner_tip out) REWARD_ACTOR_ID (credit (base_fee_burn out) BURNT_FUNDS_ACTOR_ID v)))"

lemma finish_message_ok:
  assumes "finish_message i msg receipt failure gas_cost tr evs m = (Inr ret, m')"
  defines "out \<equiv> compute (rc_gas_used receipt) (msg_gas_limit msg) (base_fee (mc_context m)) (msg_gas_fee_cap msg) (msg_gas_premium msg)"
  shows "mc_same m m'" "mc_view m' = settle out i (mc_view m)" "msg_receipt ret = receipt"
    "total_supply (mc_view m') = total_supply (mc_view m) + gas_cost"
    "balances_ok (mc_view m) \<Longrightarrow> balances_ok (mc_view m')"
    "ar_base_fee_burn ret + ar_over_estimation_burn ret + ar_miner_tip ret + ar_refund ret = gas_cost"
    "0 \<le> ar_base_fee_burn ret" "0 \<le> ar_over_estimation_burn ret" "0 \<le> ar_miner_tip ret" "0 \<le> ar_refund ret"
    "failure_info ret = failure"
proof -
  note run = assms(1) [unfolded finish_message_def Let_def, simplified, folded out_def]
  from run obtain m1 m2 m3 where t:
    "transfer_to_actor BURNT_FUNDS_ACTOR_ID (base_fee_burn out) m = (Inr (), m1)"
    "transfer_to_actor REWARD_ACTOR_ID (miner_tip out) m1 = (Inr (), m2)"
    "transfer_to_actor BURNT_FUNDS_ACTOR_ID (over_estimation_burn out) m2 = (Inr (), m3)"
    "transfer_to_actor i (refund out) m3 = (Inr (), m')"
    and sum: "base_fee_burn out + over_estimation_burn out + refund out + miner_tip out = gas_cost"
    and ret: "msg_receipt ret = receipt" "failure_info ret = failure" "ar_base_fee_burn ret = base_fee_burn out" "ar_miner_tip ret = miner_tip out"
      "ar_over_estimation_burn ret = over_estimation_burn out" "ar_refund ret = refund out"
    by (elim rbind_Inr) (auto simp: rreturn_def rthrow_def split: if_splits)
  note e = transfer_to_actor_ok [OF t(1)] transfer_to_actor_ok [OF t(2)]
    transfer_to_actor_ok [OF t(3)] transfer_to_actor_ok [OF t(4)]
  show "mc_same m m'" using e(1,5,9,13) by (simp add: mc_same_def)
  show "mc_view m' = settle out i (mc_view m)" using e(3,7,11,15) by (simp add: settle_def)
  show "msg_receipt ret = receipt" "failure_info ret = failure" by (rule ret)+
  have "total_supply (mc_view m1) = total_supply (mc_view m) + base_fee_burn out"
    unfolding e(3) by (rule credit_supply) (use e(4) in blast)
  moreover have "total_supply (mc_view m2) = total_supply (mc_view m1) + miner_tip out"
    unfolding e(7) by (rule credit_supply) (use e(8) in blast)
  moreover have "total_supply (mc_view m3) = total_supply (mc_view m2) + over_estimation_burn out"
    unfolding e(11) by (rule credit_supply) (use e(12) in blast)
  moreover have "total_supply (mc_view m') = total_supply (mc_view m3) + refund out"
    unfolding e(15) by (rule credit_supply) (use e(16) in blast)
  ultimately show "total_supply (mc_view m') = total_supply (mc_view m) + gas_cost" using sum by simp
  show "balances_ok (mc_view m) \<Longrightarrow> balances_ok (mc_view m')"
    using e(2,3,6,7,10,11,14,15) by (simp add: credit_balances)
  show "ar_base_fee_burn ret + ar_over_estimation_burn ret + ar_miner_tip ret + ar_refund ret = gas_cost"
    using sum by (simp add: ret)
  show "0 \<le> ar_base_fee_burn ret" "0 \<le> ar_over_estimation_burn ret" "0 \<le> ar_miner_tip ret" "0 \<le> ar_refund ret"
    using e(2,6,10,14) by (simp_all add: ret)
qed

text \<open>The three ends of an execution: rejected by the checks, executed implicitly, executed and settled.\<close>

lemma execute_cases:
  assumes "execute_message env eng msg kind raw_length m = (Inr ret, m')"
  obtains (reject) "rejection ret" "mc_reads m m'"
  | (implicit) i rid m1 res fin bt where "kind = Implicit" "mc_reads m m1"
      "apply_message env eng msg i rid (gas_charge_new ''none'' 0 0) m1 = (Inr (res, fin), m')"
      "make_receipt msg res fin = (msg_receipt ret, bt)" "ret = implicit_ret (msg_receipt ret) (failure_info ret) fin"
  | (explicit) i st0 st c rid m1 m2 res fin bt failure where "kind = Explicit"
      "mc_same m m1" "mc_view m i = Inr (Some st0)" "charged_sender msg (mc_builtin_actors m) st0 = Some st"
      "mc_view m1 = (mc_view m)(i := Inr (Some st))"
      "apply_message env eng msg i rid c m1 = (Inr (res, fin), m2)"
      "make_receipt msg res fin = (msg_receipt ret, bt)"
      "finish_message i msg (msg_receipt ret) failure (msg_gas_fee_cap msg * uint (msg_gas_limit msg))
         (fin_exec_trace fin) (fin_events fin) m2 = (Inr ret, m')"
      "failure_info ret \<noteq> Some PreValidation"
proof -
  obtain pre m0 where pre: "preflight_message env msg kind raw_length m = (Inr pre, m0)"
    using assms by (auto simp: execute_message_def elim: rbind_Inr)
  show thesis
  proof (cases pre)
    case (Inl r)
    with pre assms have "r = ret" "m' = m0" by (simp_all add: execute_message_def rsm_defs)
    with pre Inl show thesis by (cases rule: preflight_cases) (auto intro: reject)
  next
    case (Inr x)
    obtain i cost c where x: "x = (i, cost, c)" by (cases x)
    obtain rid m1 where look: "on_machine_tree (lookup_id (ve_ipld env) (msg_to msg)) m0 = (Inr rid, m1)"
      using assms pre Inr x by (auto simp: execute_message_def rbind_def split: prod.splits sum.splits)
    have r1: "mc_reads m0 m1" using machine_reads(1) look by (rule keepsD)
    obtain res fin m2 where app: "apply_message env eng msg i rid c m1 = (Inr (res, fin), m2)"
      using assms pre Inr x look
      by (auto simp: execute_message_def rbind_def rmap_error_def split: prod.splits sum.splits)
    obtain rc bt where mk: "make_receipt msg res fin = (rc, bt)" by fastforce
    define failure where "failure = (if backtrace_is_empty bt \<or> is_success (rc_exit_code rc) then None
                         else Some (MessageBacktrace bt))"
    have fin: "(case kind of
                Explicit \<Rightarrow> finish_message i msg rc failure cost (fin_exec_trace fin) (fin_events fin)
              | Implicit \<Rightarrow> rreturn (implicit_ret rc failure fin)) m2 = (Inr ret, m')"
      using assms pre Inr x look app mk
      by (cases kind) (simp_all add: execute_message_def rbind_def rmap_error_def failure_def Let_def)
    from pre show thesis
    proof (cases rule: preflight_cases)
      case (implicit j)
      then have "mc_reads m m1" using r1 by (blast intro: mcr.R_trans)
      moreover have "m' = m2" "rc = msg_receipt ret" "i = j" "c = gas_charge_new ''none'' 0 0"
        "ret = implicit_ret (msg_receipt ret) (failure_info ret) fin"
        using fin implicit Inr x by (auto simp: rreturn_def implicit_ret_def)
      ultimately show thesis using that(2) implicit app mk by blast
    next
      case (explicit j st0 st d)
      have *: "i = j" "cost = msg_gas_fee_cap msg * uint (msg_gas_limit msg)" using explicit Inr x by auto
      have "finish_message i msg rc failure cost (fin_exec_trace fin) (fin_events fin) m2 = (Inr ret, m')"
        using fin explicit by simp
      moreover from finish_message_ok(3,11) [OF this] have "rc = msg_receipt ret" "failure_info ret \<noteq> Some PreValidation"
        by (simp_all add: failure_def)
      moreover have "mc_same m m1" "mc_view m1 = (mc_view m)(i := Inr (Some st))"
        using explicit r1 * by (auto simp: mc_reads_def mc_same_def)
      ultimately show thesis using that(3) explicit app mk * by blast
    qed (use Inr in simp_all)
  qed
qed


lemma transfer_to_actor_succeeds:
  assumes "0 \<le> amt" and "\<exists>a. mc_view m i = Inr (Some a)"
  shows "\<exists>m'. transfer_to_actor i amt m = (Inr (), m') \<and> mc_same m m' \<and> mc_view m' = credit amt i (mc_view m)"
proof -
  obtain a where a: "st_view (mc_state_tree m) i = Inr (Some a)" using assms(2) by (auto simp: mc_view_def)
  obtain t where "get_actor i (mc_state_tree m) = (Inr (Some a), t)"
    using get_actor_cases [of i "mc_state_tree m"] a
    by (cases "get_actor i (mc_state_tree m)") (auto simp: or_fatal_def)
  then have "\<exists>m'. transfer_to_actor i amt m = (Inr (), m')"
    using assms(1)
    by (auto simp: transfer_to_actor_def on_machine_tree_def mutate_actor_def maybe_mutate_actor_id_def rsm_defs
        or_fatal_def deposit_funds_def)
  then obtain m' where "transfer_to_actor i amt m = (Inr (), m')" by blast
  with transfer_to_actor_ok [OF this] show ?thesis by blast
qed

lemma lookup_id_cached:
  assumes "lookup_id env a s = (Inr (Some i), s')" and "st_resolve_cache t = st_resolve_cache s'"
  shows "lookup_id env a t = (Inr (Some i), t)"
proof (cases "payload a")
  case (ID j)
  then show ?thesis using assms(1) by (simp add: lookup_id_def)
qed (use assms in \<open>auto simp: lookup_id_def rsm_defs hm_get_insert split: option.splits sum.splits prod.splits\<close>)

lemma preflight_lookup:
  assumes "preflight_message env msg Explicit raw_length m = (Inr (Inr (i, gc, c)), m1)"
  shows "fst (lookup_id (ve_ipld env) (msg_from msg) (mc_state_tree m)) = Inr (Some i)"
    and "lookup_id (ve_ipld env) (msg_from msg) (mc_state_tree m1) = (Inr (Some i), mc_state_tree m1)"
proof -
  have chk: "msg_check msg = Inr ()" using assms by (cases "msg_check msg") (auto simp: preflight_message_def rsm_defs)
  obtain d p where incl: "inclusion (mc_context m) msg Explicit raw_length = Inr (d, p)"
    using assms chk by (auto simp: preflight_message_def rsm_defs split: sum.splits prod.splits)
  obtain j m0 where look: "on_machine_tree (lookup_id (ve_ipld env) (msg_from msg)) m = (Inr (Some j), m0)"
    and snd: "check_sender msg j p d m0 = (Inr (Inr (i, gc, c)), m1)"
    using assms chk incl by (auto simp: preflight_message_def rsm_defs split: sum.splits prod.splits option.splits)
  from snd have "i = j" by (cases rule: check_sender_cases) auto
  obtain t where t: "lookup_id (ve_ipld env) (msg_from msg) (mc_state_tree m) = (Inr (Some j), t)"
    and m0: "mc_state_tree m0 = t"
    using look by (rule machine_treeE) (auto split: sum.splits)
  have "st_resolve_cache (mc_state_tree m1) = st_resolve_cache t"
    using snd m0
    by (auto simp: check_sender_def on_machine_tree_def rsm_defs set_actor_def
        split: prod.splits sum.splits option.splits dest: arg_cong [where f = snd])
      (metis get_actor_fields(4) snd_conv)+
  with lookup_id_cached [OF t] \<open>i = j\<close>
  show "lookup_id (ve_ipld env) (msg_from msg) (mc_state_tree m1) = (Inr (Some i), mc_state_tree m1)" by simp
  show "fst (lookup_id (ve_ipld env) (msg_from msg) (mc_state_tree m)) = Inr (Some i)" using t \<open>i = j\<close> by simp
qed

lemma finish_message_succeeds:
  assumes "rc_gas_used receipt \<le> msg_gas_limit msg" and "0 \<le> base_fee (mc_context m)"
    and "0 \<le> msg_gas_fee_cap msg" and "0 \<le> msg_gas_premium msg"
    and "\<forall>j \<in> {BURNT_FUNDS_ACTOR_ID, REWARD_ACTOR_ID, i}. \<exists>a. mc_view m j = Inr (Some a)"
  shows "\<exists>ret m'. finish_message i msg receipt failure (msg_gas_fee_cap msg * uint (msg_gas_limit msg)) tr evs m = (Inr ret, m')"
proof -
  define out where "out = compute (rc_gas_used receipt) (msg_gas_limit msg) (base_fee (mc_context m))
      (msg_gas_fee_cap msg) (msg_gas_premium msg)"
  note amounts = compute_amounts [OF assms(1-4) out_def]
  obtain m1 where 1: "transfer_to_actor BURNT_FUNDS_ACTOR_ID (base_fee_burn out) m = (Inr (), m1)"
    "mc_view m1 = credit (base_fee_burn out) BURNT_FUNDS_ACTOR_ID (mc_view m)"
    using transfer_to_actor_succeeds [OF amounts(2)] assms(5) by blast
  obtain m2 where 2: "transfer_to_actor REWARD_ACTOR_ID (miner_tip out) m1 = (Inr (), m2)"
    "mc_view m2 = credit (miner_tip out) REWARD_ACTOR_ID (mc_view m1)"
    using transfer_to_actor_succeeds [OF amounts(4), of m1 REWARD_ACTOR_ID] assms(5) credit_exists 1(2) by auto
  obtain m3 where 3: "transfer_to_actor BURNT_FUNDS_ACTOR_ID (over_estimation_burn out) m2 = (Inr (), m3)"
    "mc_view m3 = credit (over_estimation_burn out) BURNT_FUNDS_ACTOR_ID (mc_view m2)"
    using transfer_to_actor_succeeds [OF amounts(3), of m2 BURNT_FUNDS_ACTOR_ID] assms(5) credit_exists 1(2) 2(2) by auto
  obtain m4 where 4: "transfer_to_actor i (refund out) m3 = (Inr (), m4)"
    "mc_view m4 = credit (refund out) i (mc_view m3)"
    using transfer_to_actor_succeeds [OF amounts(5), of m3 i] assms(5) credit_exists 1(2) 2(2) 3(2) by auto
  have "base_fee_burn out + over_estimation_burn out + refund out + miner_tip out =
      msg_gas_fee_cap msg * uint (msg_gas_limit msg)" using amounts(1) by simp
  with 1(1) 2(1) 3(1) 4(1) show ?thesis
    by (simp add: finish_message_def rbind_def rget_def rreturn_def Let_def flip: out_def)
qed

subsection \<open>Properties\<close>

text \<open>
  C1: executing a message creates no tokens. With the deposit for gas, the call with all its nested
  calls, the burnt fees, the tip and the refund taken together, the sum of all balances never
  grows and no balance becomes negative, for explicit and implicit messages.
\<close>

theorem message_never_mints:
  assumes "balances_ok (mc_view m)" and "execute_message env eng msg kind raw_length m = (Inr ret, m')"
  shows "balances_ok (mc_view m') \<and> total_supply (mc_view m') \<le> total_supply (mc_view m)"
  using assms(2)
proof (cases rule: execute_cases)
  case reject
  then show ?thesis using assms(1) by (simp add: mc_reads_def)
next
  case (implicit i rid m1 res fin bt)
  then show ?thesis using apply_message_effect(2) [OF implicit(3)] assms(1)
    by (simp add: mc_reads_def funds_ok_def)
next
  case (explicit i st0 st c rid m1 m2 res fin bt failure)
  let ?gc = "msg_gas_fee_cap msg * uint (msg_gas_limit msg)"
  have st: "balance st = balance st0 - ?gc" "0 \<le> balance st"
    using explicit(4) by (auto simp: charged_sender_def valid_sender_def split: option.splits if_splits)
  have "total_supply (mc_view m1) = total_supply (mc_view m) - ?gc"
    by (simp add: explicit(3,5) total_supply_upd view_balance_def st)
  moreover have "balances_ok (mc_view m1)"
    using assms(1) st by (auto simp: explicit(5) balances_ok_def)
  moreover have "funds_ok (mc_view m1) (mc_view m2)" using explicit(6) by (rule apply_message_effect)
  moreover note finish_message_ok(4,5) [OF explicit(8)]
  ultimately show ?thesis by (simp add: funds_ok_def)
qed

text \<open>
  C6: the receipt stays within the gas limit and the fees within the deposit. The gas used in the
  receipt is at most the gas limit of the message, also after a fatal error; for an explicit
  message that was not rejected, the burnt fees, the tip and the refund are non-negative and add
  up to exactly what was withdrawn from the sender for gas.
\<close>

theorem receipt_within_limit:
  assumes "execute_message env eng msg kind raw_length m = (Inr ret, m')"
  shows "rc_gas_used (msg_receipt ret) \<le> msg_gas_limit msg \<and>
    0 \<le> ar_base_fee_burn ret \<and> 0 \<le> ar_over_estimation_burn ret \<and> 0 \<le> ar_miner_tip ret \<and> 0 \<le> ar_refund ret \<and>
    ar_base_fee_burn ret + ar_over_estimation_burn ret + ar_miner_tip ret + ar_refund ret =
      (if kind = Implicit \<or> failure_info ret = Some PreValidation then 0 else msg_gas_fee_cap msg * uint (msg_gas_limit msg))"
  using assms
proof (cases rule: execute_cases)
  case reject
  then show ?thesis by (auto simp: rejection_def prevalidation_fail_def)
next
  case (implicit i rid m1 res fin bt)
  have "rc_gas_used (msg_receipt ret) \<le> msg_gas_limit msg"
    by (rule make_receipt_gas [OF implicit(4)]) (use apply_message_effect(3) [OF implicit(3)] in blast)
  then show ?thesis using implicit(1) by (subst (2 3 4 5 6 7 8 9) implicit(5)) (simp add: implicit_ret_def)
next
  case (explicit i st0 st c rid m1 m2 res fin bt failure)
  have "rc_gas_used (msg_receipt ret) \<le> msg_gas_limit msg"
    by (rule make_receipt_gas [OF explicit(7)]) (use apply_message_effect(3) [OF explicit(6)] in blast)
  then show ?thesis using finish_message_ok(6-10) [OF explicit(8)] explicit(1,9) by simp
qed

text \<open>
  C4: a failed message changes nothing but its fees. When the receipt of an executed message has a
  non-zero exit code, every actor is as before, except that an explicit message has withdrawn the
  deposit from its sender, advanced the sender's sequence, and settled the fees; a rejected
  message changes no actor at all.
\<close>

theorem failed_message_effect:
  assumes "execute_message env eng msg kind raw_length m = (Inr ret, m')"
    and "\<not> is_success (rc_exit_code (msg_receipt ret))"
  shows "mc_view m' = mc_view m \<or> (\<exists>i st0 st. kind = Explicit \<and> mc_view m i = Inr (Some st0) \<and>
    charged_sender msg (mc_builtin_actors m) st0 = Some st \<and>
    mc_view m' = settle (compute (rc_gas_used (msg_receipt ret)) (msg_gas_limit msg) (base_fee (mc_context m))
      (msg_gas_fee_cap msg) (msg_gas_premium msg)) i ((mc_view m)(i := Inr (Some st))))"
  using assms(1)
proof (cases rule: execute_cases)
  case reject
  then show ?thesis by (simp add: mc_reads_def)
next
  case (implicit i rid m1 res fin bt)
  with assms(2) have "call_failed res" using make_receipt_failed by blast
  then show ?thesis using apply_message_effect(4) [OF implicit(3)] implicit(2) by (simp add: mc_reads_def)
next
  case (explicit i st0 st c rid m1 m2 res fin bt failure)
  with assms(2) have "call_failed res" using make_receipt_failed by blast
  then have "mc_view m2 = mc_view m1" using apply_message_effect(4) [OF explicit(6)] by simp
  moreover have "mc_context m2 = mc_context m"
    using apply_message_effect(1) [OF explicit(6)] explicit(2) by (simp add: mc_same_def)
  ultimately show ?thesis using finish_message_ok(2) [OF explicit(8)] explicit(1,3,4,5) by auto
qed

text \<open>
  C5: a message is charged once. When the checks accept an explicit message, its sender exists, is
  an account (or a placeholder that becomes one), has the sequence of the message and covers the
  deposit; exactly the deposit and one sequence number are taken from it and no other actor
  changes. Checked again on the resulting machine, the message is not accepted. When the checks do
  not accept a message, no actor changes.
\<close>

theorem preflight_charges_once:
  assumes "preflight_message env msg Explicit raw_length m = (r, m1)"
  shows "case r of
      Inr (Inr (i, gc, c)) \<Rightarrow>
        (\<exists>st0 st. mc_view m i = Inr (Some st0) \<and> charged_sender msg (mc_builtin_actors m) st0 = Some st \<and>
          mc_view m1 = (mc_view m)(i := Inr (Some st))) \<and>
        gc = msg_gas_fee_cap msg * uint (msg_gas_limit msg) \<and>
        (\<forall>raw_length2 x. fst (preflight_message env msg Explicit raw_length2 m1) \<noteq> Inr (Inr x))
    | _ \<Rightarrow> mc_view m1 = mc_view m"
  using assms
proof (cases rule: preflight_cases)
  case (explicit i st0 st c)
  have seq: "sequence st = msg_sequence msg + 1"
    using explicit(4) by (auto simp: charged_sender_def split: option.splits if_splits)
  have "fst (preflight_message env msg Explicit raw_length2 m1) \<noteq> Inr (Inr x)" for raw_length2 x
  proof
    assume acc: "fst (preflight_message env msg Explicit raw_length2 m1) = Inr (Inr x)"
    obtain j gc d where x: "x = (j, gc, d)" by (cases x)
    obtain m2 where run: "preflight_message env msg Explicit raw_length2 m1 = (Inr (Inr (j, gc, d)), m2)"
      using acc x by (metis prod.collapse)
    from run show False
    proof (cases rule: preflight_cases)
      case (explicit j' st1 st2 d')
      have "i = j'"
        using preflight_lookup(2) [OF assms [unfolded \<open>r = _\<close>]] preflight_lookup(1) [OF run] explicit by simp
      then have "st1 = st" using \<open>mc_view m1 j' = _\<close> \<open>mc_view m1 = _\<close> by simp
      then have "msg_sequence msg = sequence st"
        using explicit(4) by (auto simp: charged_sender_def valid_sender_def split: option.splits if_splits)
      with seq show False by simp
    qed simp_all
  qed
  then show ?thesis using explicit by auto
qed (auto simp: mc_reads_def)

text \<open>
  C7: settlement succeeds. For non-negative fees, gas used within the limit and existing accounts for
  burnt funds, rewards and the sender, settling a message returns its result and credits the
  three accounts by the computed amounts.
\<close>

theorem settlement_succeeds:
  assumes "rc_gas_used receipt \<le> msg_gas_limit msg" and "0 \<le> base_fee (mc_context m)"
    and "0 \<le> msg_gas_fee_cap msg" and "0 \<le> msg_gas_premium msg"
    and "\<forall>j \<in> {BURNT_FUNDS_ACTOR_ID, REWARD_ACTOR_ID, i}. \<exists>a. mc_view m j = Inr (Some a)"
  shows "\<exists>ret m'. finish_message i msg receipt failure (msg_gas_fee_cap msg * uint (msg_gas_limit msg)) tr evs m = (Inr ret, m') \<and>
    msg_receipt ret = receipt \<and>
    mc_view m' = settle (compute (rc_gas_used receipt) (msg_gas_limit msg) (base_fee (mc_context m))
      (msg_gas_fee_cap msg) (msg_gas_premium msg)) i (mc_view m)"
proof -
  obtain ret m' where run: "finish_message i msg receipt failure (msg_gas_fee_cap msg * uint (msg_gas_limit msg)) tr evs m = (Inr ret, m')"
    using finish_message_succeeds [OF assms] by blast
  with finish_message_ok(2,3) [OF run] show ?thesis by blast
qed

subsection \<open>An example\<close>

definition example_funds :: ActorMap where
  "example_funds i = Inr (if i \<in> {2, 99, 101} then Some (example_actor\<lparr>balance := 5\<rparr>)
    else if i = 100 then Some (example_actor\<lparr>balance := 1000000000\<rparr>) else None)"

definition example_machine :: DefaultMachine where
  "example_machine = \<lparr>mc_context = example_context\<lparr>network := example_network\<lparr>max_call_depth := 0\<rparr>\<rparr>,
    mc_state_tree = example_tree\<lparr>st_hamt := example_funds\<rparr>,
    mc_builtin_actors = example_builtin\<lparr>account_code := example_cid 3\<rparr>\<rparr>"

definition example_message :: Message where
  "example_message = \<lparr>msg_version = 0, msg_from = new_id 100, msg_to = new_id 101, msg_sequence = 0,
    msg_value = 0, msg_method_num = 0, msg_params = [], msg_gas_limit = 1000000, msg_gas_fee_cap = 200,
    msg_gas_premium = 1\<rparr>"

lemma example_inclusion: "mg (total (on_chain_message WATERMELON_PRICES 100)) = 690663000"
  by (simp add: on_chain_message_def total_def gas_charge_new_def mg_simps mg_apply_cost mg_new WATERMELON_PRICES_def
      fixed_cost_def)

lemma example_machine_view: "mc_view example_machine = example_funds"
  by (simp add: example_machine_def mc_view_def st_view_def example_tree_def hm_default_def fun_eq_iff)

lemma example_preflight:
  "\<exists>m1. preflight_message example_vm example_message Explicit 100 example_machine =
    (Inr (Inr (100, 200000000, on_chain_message WATERMELON_PRICES 100)), m1)"
proof -
  have chk: "msg_check example_message = Inr ()" by (simp add: msg_check_def example_message_def)
  have "unat (round_up (total (on_chain_message WATERMELON_PRICES 100))) = 690663"
    by (simp add: unat_round_up example_inclusion)
  then have incl: "inclusion (mc_context example_machine) example_message Explicit 100 =
      Inr (on_chain_message WATERMELON_PRICES 100, 100000000)"
    by (simp add: inclusion_def Let_def example_machine_def example_context_def example_network_def
        example_message_def word_less_nat_alt)
  have look: "on_machine_tree (lookup_id (ve_ipld example_vm) (msg_from example_message)) example_machine =
      (Inr (Some 100), example_machine)"
    by (simp add: on_machine_tree_def lookup_id_def example_message_def new_id_def rsm_defs)
  let ?a = "example_actor\<lparr>balance := 1000000000\<rparr>"
  obtain m1 where get: "on_machine_tree (get_actor 100) example_machine = (Inr (Some ?a), m1)"
    and same: "mc_builtin_actors m1 = mc_builtin_actors example_machine"
  proof -
    obtain r t where g: "get_actor 100 (mc_state_tree example_machine) = (r, t)" by fastforce
    have "r = Inr (Some ?a)"
      using get_actor_cases(1) [OF g] example_machine_view
      by (simp add: mc_view_def or_fatal_def example_funds_def)
    then show thesis using that g by (simp add: on_machine_tree_def rsm_defs)
  qed
  have valid: "valid_sender (mc_builtin_actors example_machine) ?a = Some ?a"
    by (simp add: valid_sender_def example_machine_def example_actor_def actor_new_def is_account_actor_def
        is_placeholder_actor_def)
  have "charge_sender example_message ?a 100000000 =
      Inr (Inr (?a\<lparr>sequence := 1, balance := 800000000\<rparr>, 200000000))"
    by (simp add: charge_sender_def example_message_def example_actor_def actor_new_def deduct_funds_def Let_def)
  then show ?thesis using chk incl look get same valid
    by (simp add: preflight_message_def check_sender_def rsm_defs machine_set_actor [unfolded rmodify_def])
qed

lemma example_execution:
  "\<exists>ret m'. execute_message example_vm example_engine example_message Explicit 100 example_machine = (Inr ret, m') \<and>
    \<not> is_success (rc_exit_code (msg_receipt ret))"
proof -
  let ?c = "on_chain_message WATERMELON_PRICES 100"
  obtain m1 where pre: "preflight_message example_vm example_message Explicit 100 example_machine =
    (Inr (Inr (100, 200000000, ?c)), m1)" using example_preflight by blast
  then obtain st where same: "mc_same example_machine m1" and v1: "mc_view m1 = example_funds(100 := Inr (Some st))"
    by (cases rule: preflight_cases) (auto simp: example_machine_view)
  have view: "\<forall>j \<in> {BURNT_FUNDS_ACTOR_ID, REWARD_ACTOR_ID, 100}. \<exists>a. mc_view m1 j = Inr (Some a)"
    by (simp add: v1 example_funds_def BURNT_FUNDS_ACTOR_ID_def REWARD_ACTOR_ID_def)
  have ctx: "mc_context m1 = example_context\<lparr>network := example_network\<lparr>max_call_depth := 0\<rparr>\<rparr>"
    using same by (simp add: mc_same_def example_machine_def)
  have look: "on_machine_tree (lookup_id (ve_ipld example_vm) (msg_to example_message)) m1 = (Inr (Some 101), m1)"
    by (simp add: on_machine_tree_def lookup_id_def example_message_def new_id_def rsm_defs)
  let ?cm = "message_cm example_message 100 (Some 101) m1"
  have "mg (gt_limit (cm_gas_tracker ?cm)) = 1000000000" "gt_used (cm_gas_tracker ?cm) = 0"
    by (simp_all add: message_cm_def cm_new_def Let_def example_message_def tracker_new_def mg_simps mg_new from_milligas_def
        mg_def [of "Gas _"] min_def zero_Gas_def)
  then obtain g where chg: "cm_charge_gas (\<lambda>_. ?c) ?cm = (Inr (), ?cm\<lparr>cm_gas_tracker := g\<rparr>)"
    using apply_charge_ok [OF message_cm_facts(3) [of example_message 100 "Some 101" m1], of ?c] example_inclusion
    by (simp add: cm_charge_gas_def on_gas_def rzoom_def rsm_defs)
  let ?s = "?cm\<lparr>cm_gas_tracker := g\<rparr>"
  let ?call = "call_actor example_vm example_engine (unat (max_call_depth (network (mc_context m1)))) 100
    (msg_to example_message) (Invoke (msg_method_num example_message)) (msg_block example_message)
    (msg_value example_message) None False"
  have "?call (cm_begin ?s) = (Inl (Syscall LimitExceeded), cm_begin ?s)"
    by (rule call_at_max_depth)
      (simp_all add: cm_begin_def message_cm_def cm_new_def Let_def ctx example_context_def)
  moreover have "cm_base (cm_begin ?s) (cm_begin ?s)" by simp
  ultimately obtain s2 where tr: "with_transaction ?call ?s = (Inl (Syscall LimitExceeded), s2)"
    and "cm_events s2 = cm_events ?s"
    using with_transaction_run [of ?call ?s "Inl (Syscall LimitExceeded)" "cm_begin ?s"]
    by (auto simp: call_failed_def)
  then have "ev_finish (events_amt example_vm) (cm_events s2) = Inr \<lparr>events_root = None, events_list = []\<rparr>"
    by (simp add: message_cm_def cm_new_def Let_def ev_finish_def events_default_def)
  then obtain fin t where "cm_finish example_vm s2 = (Inr fin, t)" by (simp add: cm_finish_def Let_def)
  then have "\<exists>res fin m2. apply_message example_vm example_engine example_message 100 (Some 101) ?c m1 = (Inr (res, fin), m2) \<and>
      call_failed res"
    using chg tr by (simp add: apply_message_def call_failed_def)
  then obtain res fin m2 where app: "apply_message example_vm example_engine example_message 100 (Some 101) ?c m1 = (Inr (res, fin), m2)"
    and f: "call_failed res" by blast
  obtain rc bt where mk: "make_receipt example_message res fin = (rc, bt)" by fastforce
  have "\<not> is_success (rc_exit_code rc)" using make_receipt_failed [OF mk] f by simp
  have "mc_view m2 = mc_view m1" "mc_same m1 m2" using apply_message_effect(1,4) [OF app] f by simp_all
  then have "\<exists>ret m'. finish_message 100 example_message rc failure (msg_gas_fee_cap example_message * uint (msg_gas_limit example_message))
      (fin_exec_trace fin) (fin_events fin) m2 = (Inr ret, m')" for failure
    using make_receipt_gas [OF mk] apply_message_effect(3) [OF app] view ctx
    by (intro finish_message_succeeds) (simp_all add: mc_same_def example_message_def example_context_def)
  then obtain ret m' where fin: "finish_message 100 example_message rc (if backtrace_is_empty bt \<or> is_success (rc_exit_code rc) then None
                         else Some (MessageBacktrace bt)) 200000000 (fin_exec_trace fin) (fin_events fin) m2 = (Inr ret, m')"
    by (fastforce simp: example_message_def)
  have "execute_message example_vm example_engine example_message Explicit 100 example_machine = (Inr ret, m')"
    using pre look app mk fin by (simp add: execute_message_def rbind_def rmap_error_def)
  with finish_message_ok(3) [OF fin] \<open>\<not> is_success _\<close> show ?thesis by blast
qed

theorem message_never_mints_witness:
  "\<exists>ret m'. execute_message example_vm example_engine example_message Explicit 100 example_machine = (Inr ret, m') \<and>
    total_supply (mc_view m') \<le> total_supply (mc_view example_machine)"
proof -
  have "balances_ok (mc_view example_machine)"
    by (simp add: example_machine_view balances_ok_def view_balance_def example_funds_def example_actor_def actor_new_def)
  with example_execution message_never_mints show ?thesis by blast
qed

theorem receipt_within_limit_witness:
  "\<exists>ret m'. execute_message example_vm example_engine example_message Explicit 100 example_machine = (Inr ret, m') \<and>
    rc_gas_used (msg_receipt ret) \<le> 1000000"
proof -
  obtain ret m' where "execute_message example_vm example_engine example_message Explicit 100 example_machine = (Inr ret, m')"
    using example_execution by blast
  moreover from receipt_within_limit [OF this] have "rc_gas_used (msg_receipt ret) \<le> 1000000"
    by (simp add: example_message_def)
  ultimately show ?thesis by blast
qed

theorem failed_message_effect_witness:
  "\<exists>ret m'. execute_message example_vm example_engine example_message Explicit 100 example_machine = (Inr ret, m') \<and>
    (mc_view m' = mc_view example_machine \<or> (\<exists>i st0 st. mc_view example_machine i = Inr (Some st0) \<and>
      charged_sender example_message (mc_builtin_actors example_machine) st0 = Some st))"
  using example_execution failed_message_effect [of example_vm example_engine example_message Explicit 100 example_machine]
  by blast

theorem preflight_charges_once_witness:
  "\<exists>m1. fst (preflight_message example_vm example_message Explicit 100 m1) \<noteq>
      fst (preflight_message example_vm example_message Explicit 100 example_machine)"
proof -
  obtain m1 where pre: "preflight_message example_vm example_message Explicit 100 example_machine =
    (Inr (Inr (100, 200000000, on_chain_message WATERMELON_PRICES 100)), m1)" using example_preflight by blast
  from preflight_charges_once [OF this] have "fst (preflight_message example_vm example_message Explicit 100 m1) \<noteq>
      Inr (Inr (100, 200000000, on_chain_message WATERMELON_PRICES 100))" by simp
  with pre show ?thesis by (intro exI [of _ m1]) simp
qed

theorem settlement_succeeds_witness:
  "\<exists>ret m'. finish_message 100 example_message \<lparr>rc_exit_code = OK, rc_return_data = [], rc_gas_used = 700000, rc_events_root = None\<rparr>
     None 200000000 [] [] example_machine = (Inr ret, m')"
proof -
  let ?rc = "\<lparr>rc_exit_code = OK, rc_return_data = [], rc_gas_used = 700000, rc_events_root = None\<rparr>"
  have msg: "msg_gas_limit example_message = 1000000" "msg_gas_fee_cap example_message = 200"
    "msg_gas_premium example_message = 1" by (simp_all add: example_message_def)
  have fee: "base_fee (mc_context example_machine) = 100"
    by (simp add: example_machine_def example_context_def)
  have "\<forall>j \<in> {BURNT_FUNDS_ACTOR_ID, REWARD_ACTOR_ID, 100}. \<exists>a. mc_view example_machine j = Inr (Some a)"
    by (simp add: example_machine_view example_funds_def BURNT_FUNDS_ACTOR_ID_def REWARD_ACTOR_ID_def)
  with settlement_succeeds [of ?rc example_message example_machine 100 None "[]" "[]"] show ?thesis
    by (auto simp: msg fee)
qed

end
