(* ===== verification/RangeSets.thy ===== *)
theory RangeSets
  imports Prelude
begin

text \<open>
  Sorted ranges of bits: \<open>ipld/bitfield/src/range.rs\<close>, \<open>ipld/bitfield/src/iter/mod.rs\<close> and
  \<open>ipld/bitfield/src/iter/combine.rs\<close>. A range \<open>start..end\<close> of \<open>u64\<close> is a pair of natural numbers; an
  iterator over ranges is the list of what it yields. The operations only compare, take minima and
  maxima, and subtract: no bound ever exceeds those of the inputs, and where the code adds one with
  \<open>checked_add\<close> so does the model. The subtractions are of a smaller from a larger number on the
  sorted, disjoint ranges that the code works on.

  A combinator is a record of its four functions and \<open>combine\<close> the iterator driven by them. The
  locale \<open>pointwise\<close> states when a combinator computes a Boolean operation bit by bit; it is
  interpreted by union, intersection, difference and symmetric difference.
\<close>

type_synonym range = "nat \<times> nat"

definition U64_END :: nat where
  "U64_END = 2 ^ 64 - 1"

definition range_size :: "range \<Rightarrow> nat" where
  "range_size r = (if snd r \<le> fst r then 0 else snd r - fst r)"

definition range_is_empty :: "range \<Rightarrow> bool" where
  "range_is_empty r \<longleftrightarrow> \<not> fst r < snd r"

subsection \<open>Skip and take\<close>

fun skip_bits :: "nat \<Rightarrow> range list \<Rightarrow> range list" where
  "skip_bits skip [] = []"
| "skip_bits skip (r # rs) =
    (if range_size r > skip then (fst r + skip, snd r) # rs
     else skip_bits (skip - range_size r) rs)"

fun take_bits :: "nat \<Rightarrow> range list \<Rightarrow> range list" where
  "take_bits n [] = []"
| "take_bits n (r # rs) =
    (if n = 0 then []
     else
       let r = (if range_size r > n then (fst r, fst r + n) else r)
       in r # take_bits (n - range_size r) rs)"

subsection \<open>Ranges from sorted bits\<close>

text \<open>
  \<open>ranges_from_bits\<close>: a panic (bits out of order, or the bit \<open>u64::MAX\<close>) is \<open>None\<close>. The inner loop
  extends the current range by the bits that follow it.
\<close>

fun bits_run :: "nat \<Rightarrow> nat list \<Rightarrow> (nat \<times> nat list) option" where
  "bits_run end [] = Some (end, [])"
| "bits_run end (next # bits) =
    (if next < end then None
     else if next > end then Some (end, next # bits)
     else if end \<ge> U64_END then None
     else bits_run (end + 1) bits)"

lemma bits_run_length: "bits_run e bits = Some (e', rest) \<Longrightarrow> length rest \<le> length bits"
  by (induction e bits rule: bits_run.induct) (auto split: if_splits)

function ranges_from_bits :: "nat list \<Rightarrow> range list option" where
  "ranges_from_bits [] = Some []"
| "ranges_from_bits (start # bits) =
    (if start \<ge> U64_END then None
     else case bits_run (start + 1) bits of
       None \<Rightarrow> None
     | Some (end, rest) \<Rightarrow> map_option (\<lambda>rs. (start, end) # rs) (ranges_from_bits rest))"
  by pat_completeness auto
termination
  by (relation "measure length") (auto dest: bits_run_length)

subsection \<open>Combinators\<close>

record 'st combinator =
  advance_lhs :: "'st \<Rightarrow> range \<Rightarrow> range \<Rightarrow> range \<times> range \<times> 'st"
  advance_rhs :: "'st \<Rightarrow> range \<Rightarrow> range \<Rightarrow> range \<times> range \<times> 'st"
  advance_lhs_tail :: "'st \<Rightarrow> range \<Rightarrow> range option"
  advance_rhs_tail :: "'st \<Rightarrow> range \<Rightarrow> range option"

definition Union_comb :: "unit combinator" where
  "Union_comb = \<lparr>
    advance_lhs = (\<lambda>st l r. ((min (fst l) (fst r), snd l), r, st)),
    advance_rhs = (\<lambda>st l r. ((min (fst l) (fst r), snd r), l, st)),
    advance_lhs_tail = (\<lambda>st l. Some l),
    advance_rhs_tail = (\<lambda>st r. Some r)\<rparr>"

definition Intersection_comb :: "unit combinator" where
  "Intersection_comb = \<lparr>
    advance_lhs = (\<lambda>st l r. ((max (fst l) (fst r), snd l), r, st)),
    advance_rhs = (\<lambda>st l r. ((max (fst l) (fst r), snd r), l, st)),
    advance_lhs_tail = (\<lambda>st l. None),
    advance_rhs_tail = (\<lambda>st r. None)\<rparr>"

definition Difference_comb :: "unit combinator" where
  "Difference_comb = \<lparr>
    advance_lhs = (\<lambda>st l r. ((fst l, min (snd l) (fst r)), r, st)),
    advance_rhs = (\<lambda>st l r. ((fst l, min (snd l) (fst r)), (max (fst l) (snd r), snd l), st)),
    advance_lhs_tail = (\<lambda>st l. Some l),
    advance_rhs_tail = (\<lambda>st r. None)\<rparr>"

definition symmetric_advance :: "range \<Rightarrow> range \<Rightarrow> range \<times> range" where
  "symmetric_advance left right =
    (if fst left \<le> fst right
     then ((fst left, min (snd left) (fst right)), (max (fst right) (snd left), snd right))
     else ((fst right, fst left), (snd left, snd right)))"

definition SymmetricDifference_comb :: "unit combinator" where
  "SymmetricDifference_comb = \<lparr>
    advance_lhs = (\<lambda>st l r. case symmetric_advance l r of (out, r') \<Rightarrow> (out, r', st)),
    advance_rhs = (\<lambda>st l r. case symmetric_advance r l of (out, l') \<Rightarrow> (out, l', st)),
    advance_lhs_tail = (\<lambda>st l. Some l),
    advance_rhs_tail = (\<lambda>st r. Some r)\<rparr>"

text \<open>The state of \<open>Cut\<close> is the number of bits cut out so far.\<close>

definition cut_offset :: "nat \<Rightarrow> range \<Rightarrow> range" where
  "cut_offset offset r = (fst r - offset, snd r - offset)"

definition Cut_comb :: "nat combinator" where
  "Cut_comb = \<lparr>
    advance_lhs = (\<lambda>offset l r. (cut_offset offset (fst l, min (snd l) (fst r)), r, offset)),
    advance_rhs = (\<lambda>offset l r.
      (cut_offset offset (fst l, min (snd l) (fst r)), (max (fst l) (snd r), snd l), offset + range_size r)),
    advance_lhs_tail = (\<lambda>offset l. Some (cut_offset offset l)),
    advance_rhs_tail = (\<lambda>offset r. None)\<rparr>"

text \<open>
  \<open>_Combine\<close>: the range with the smaller upper bound is handed to the combinator and dropped. A tail
  without a result ends the iteration. Empty ranges are skipped.
\<close>

fun next_ranges :: "'st combinator \<Rightarrow> 'st \<Rightarrow> range list \<Rightarrow> range list \<Rightarrow> range list" where
  "next_ranges c st (l # ls) (r # rs) =
    (if snd l \<le> snd r
     then (case advance_lhs c st l r of (out, r', st') \<Rightarrow> out # next_ranges c st' ls (r' # rs))
     else (case advance_rhs c st l r of (out, l', st') \<Rightarrow> out # next_ranges c st' (l' # ls) rs))"
| "next_ranges c st (l # ls) [] =
    (case advance_lhs_tail c st l of None \<Rightarrow> [] | Some out \<Rightarrow> out # next_ranges c st ls [])"
| "next_ranges c st [] (r # rs) =
    (case advance_rhs_tail c st r of None \<Rightarrow> [] | Some out \<Rightarrow> out # next_ranges c st [] rs)"
| "next_ranges c st [] [] = []"

fun merge_ranges :: "range list \<Rightarrow> range list" where
  "merge_ranges (r # next # rs) =
    (if fst next > snd r then r # merge_ranges (next # rs)
     else merge_ranges ((fst r, max (snd r) (snd next)) # rs))"
| "merge_ranges [r] = [r]"
| "merge_ranges [] = []"

definition combine :: "'st combinator \<Rightarrow> 'st \<Rightarrow> range list \<Rightarrow> range list \<Rightarrow> range list" where
  "combine c st a b = merge_ranges (filter (\<lambda>r. \<not> range_is_empty r) (next_ranges c st a b))"

definition range_union :: "range list \<Rightarrow> range list \<Rightarrow> range list" where
  "range_union = combine Union_comb ()"

definition range_intersection :: "range list \<Rightarrow> range list \<Rightarrow> range list" where
  "range_intersection = combine Intersection_comb ()"

definition range_difference :: "range list \<Rightarrow> range list \<Rightarrow> range list" where
  "range_difference = combine Difference_comb ()"

definition range_symmetric_difference :: "range list \<Rightarrow> range list \<Rightarrow> range list" where
  "range_symmetric_difference = combine SymmetricDifference_comb ()"

definition range_cut :: "range list \<Rightarrow> range list \<Rightarrow> range list" where
  "range_cut = combine Cut_comb 0"

subsection \<open>The bits of ranges\<close>

definition in_range :: "nat \<Rightarrow> range \<Rightarrow> bool" where
  "in_range i r \<longleftrightarrow> fst r \<le> i \<and> i < snd r"

definition bits :: "range list \<Rightarrow> nat set" where
  "bits rs = {i. \<exists>r \<in> set rs. in_range i r}"

lemma bits_simps [simp]:
  "bits [] = {}" "i \<in> bits (r # rs) \<longleftrightarrow> in_range i r \<or> i \<in> bits rs"
  by (auto simp: bits_def)

text \<open>Ranges in order, disjoint and not touching; the ranges of a bit field are also non-empty.\<close>

fun separated :: "range list \<Rightarrow> bool" where
  "separated [] \<longleftrightarrow> True"
| "separated [r] \<longleftrightarrow> fst r \<le> snd r"
| "separated (r # next # rs) \<longleftrightarrow> fst r \<le> snd r \<and> snd r < fst next \<and> separated (next # rs)"

definition ranges_ok :: "range list \<Rightarrow> bool" where
  "ranges_ok rs \<longleftrightarrow> separated rs \<and> list_all (\<lambda>r. fst r < snd r) rs"

lemma separated_tail: "separated (r # rs) \<Longrightarrow> separated rs"
  by (cases rs) auto

lemma separated_first: "separated (r # rs) \<Longrightarrow> fst r \<le> snd r"
  by (cases rs) auto

lemma separated_above: "separated (r # rs) \<Longrightarrow> i \<in> bits rs \<Longrightarrow> snd r < i"
proof (induction rs arbitrary: r)
  case (Cons x xs)
  have "snd r < fst x" "fst x \<le> snd x" "separated (x # xs)"
    using Cons.prems(1) by (auto dest: separated_first)
  with Cons.IH [of x] Cons.prems(2) show ?case by (force simp: in_range_def)
qed simp

lemma separated_head:
  "separated (r # rs) \<Longrightarrow> fst r \<le> fst r' \<Longrightarrow> fst r' \<le> snd r' \<Longrightarrow> snd r' = snd r \<Longrightarrow> separated (r' # rs)"
  by (cases rs) auto

subsection \<open>Merging\<close>

text \<open>
  Merging ranges with ascending starts keeps their bits and separates them.
\<close>

fun ascending :: "range list \<Rightarrow> bool" where
  "ascending (r # next # rs) \<longleftrightarrow> fst r \<le> fst next \<and> ascending (next # rs)"
| "ascending _ \<longleftrightarrow> True"

lemma merge_bits:
  "ascending rs \<Longrightarrow> list_all (\<lambda>r. fst r < snd r) rs \<Longrightarrow> bits (merge_ranges rs) = bits rs"
proof (induction rs rule: merge_ranges.induct)
  case (1 r n rs)
  show ?case
  proof (cases "fst n > snd r")
    case True
    then show ?thesis using 1 by (auto simp: set_eq_iff)
  next
    case False
    let ?m = "(fst r, max (snd r) (snd n))"
    have "ascending (?m # rs)" using 1(3) by (cases rs) auto
    then have "bits (merge_ranges (?m # rs)) = bits (?m # rs)" using 1(2) [OF False] 1(4) by auto
    also have "\<dots> = bits (r # n # rs)" using False 1(3) by (auto simp: set_eq_iff in_range_def)
    finally show ?thesis using False by simp
  qed
qed simp_all

lemma merge_head:
  "merge_ranges (r # rs) \<noteq> [] \<and> fst (hd (merge_ranges (r # rs))) = fst r"
  by (induction "r # rs" arbitrary: r rs rule: merge_ranges.induct) auto

lemma merge_ok:
  "list_all (\<lambda>r. fst r < snd r) rs \<Longrightarrow> ranges_ok (merge_ranges rs)"
proof (induction rs rule: merge_ranges.induct)
  case (1 r n rs)
  show ?case
  proof (cases "fst n > snd r")
    case True
    then have ok: "ranges_ok (merge_ranges (n # rs))" using 1 by auto
    obtain x xs where m: "merge_ranges (n # rs) = x # xs" "fst x = fst n"
      using merge_head [of n rs] by (cases "merge_ranges (n # rs)") auto
    then show ?thesis using True ok 1(3) by (auto simp: ranges_ok_def)
  next
    case False
    then show ?thesis using 1 by auto
  qed
qed (simp_all add: ranges_ok_def)

text \<open>The ranges that are not skipped have ascending starts.\<close>

definition starts :: "range list \<Rightarrow> bool" where
  "starts rs \<longleftrightarrow> ascending (filter (\<lambda>r. \<not> range_is_empty r) rs)"

lemma bits_filter: "bits (filter (\<lambda>r. \<not> range_is_empty r) rs) = bits rs"
  by (auto simp: bits_def range_is_empty_def in_range_def) (metis fst_conv snd_conv order_le_less_trans)+

lemma starts_Cons:
  assumes "starts rs" and "fst r < snd r \<Longrightarrow> (\<And>j. j \<in> bits rs \<Longrightarrow> fst r \<le> j)"
  shows "starts (r # rs)"
proof (cases "filter (\<lambda>r. \<not> range_is_empty r) rs")
  case Nil
  then show ?thesis by (simp add: starts_def)
next
  case (Cons x xs)
  then have "x \<in> set rs" "fst x < snd x" by (auto simp: filter_eq_Cons_iff range_is_empty_def)
  then have "fst x \<in> bits rs" by (auto simp: bits_def in_range_def)
  then show ?thesis using assms Cons by (auto simp: starts_def range_is_empty_def)
qed

lemma starts_separated: "separated rs \<Longrightarrow> starts rs"
proof (induction rs)
  case (Cons r rs)
  then have "starts rs" by (auto dest: separated_tail)
  then show ?case
    by (rule starts_Cons) (use Cons.prems separated_above separated_first in fastforce)
qed (simp add: starts_def)

subsection \<open>Bitwise combinators\<close>

text \<open>
  The contract of a combinator that computes \<open>f\<close> bit by bit: advancing over the range with the
  smaller end \<open>e\<close> yields a range of results below \<open>e\<close> and may shorten the other range from the left;
  together they account for all results below \<open>e\<close>, and nothing that is left lies before the start of
  the yielded range.
\<close>

locale pointwise =
  fixes c :: "'st combinator" and f :: "bool \<Rightarrow> bool \<Rightarrow> bool"
  assumes f_none: "\<not> f False False"
    and lhs_step: "advance_lhs c st l r = (out, r', st') \<Longrightarrow> fst l \<le> snd l \<Longrightarrow> fst r \<le> snd r \<Longrightarrow> snd l \<le> snd r \<Longrightarrow>
      fst r \<le> fst r' \<and> fst r' \<le> snd r' \<and> snd r' = snd r \<and>
      (if i < snd l then f (in_range i l) (in_range i r) = (in_range i out \<or> f False (in_range i r'))
       else \<not> in_range i out \<and> in_range i r' = in_range i r)"
    and lhs_first: "advance_lhs c st l r = (out, r', st') \<Longrightarrow> fst l \<le> snd l \<Longrightarrow> fst r \<le> snd r \<Longrightarrow> snd l \<le> snd r \<Longrightarrow>
      fst out < snd out \<Longrightarrow> i < fst out \<Longrightarrow> \<not> f False (in_range i r')"
    and rhs_step: "advance_rhs c st l r = (out, l', st') \<Longrightarrow> fst l \<le> snd l \<Longrightarrow> fst r \<le> snd r \<Longrightarrow> snd r < snd l \<Longrightarrow>
      fst l \<le> fst l' \<and> fst l' \<le> snd l' \<and> snd l' = snd l \<and>
      (if i < snd r then f (in_range i l) (in_range i r) = (in_range i out \<or> f (in_range i l') False)
       else \<not> in_range i out \<and> in_range i l' = in_range i l)"
    and rhs_first: "advance_rhs c st l r = (out, l', st') \<Longrightarrow> fst l \<le> snd l \<Longrightarrow> fst r \<le> snd r \<Longrightarrow> snd r < snd l \<Longrightarrow>
      fst out < snd out \<Longrightarrow> i < fst out \<Longrightarrow> \<not> f (in_range i l') False"
    and lhs_tail: "advance_lhs_tail c st l = (if f True False then Some l else None)"
    and rhs_tail: "advance_rhs_tail c st r = (if f False True then Some r else None)"
begin

lemma step_lhs:
  assumes "separated (l # ls)" "separated (r # rs)" "snd l \<le> snd r" "advance_lhs c st l r = (out, r', st')"
  shows "separated (r' # rs)"
    and "f (i \<in> bits (l # ls)) (i \<in> bits (r # rs)) \<longleftrightarrow> in_range i out \<or> f (i \<in> bits ls) (i \<in> bits (r' # rs))"
    and "fst out < snd out \<Longrightarrow> f (j \<in> bits ls) (j \<in> bits (r' # rs)) \<Longrightarrow> fst out \<le> j"
proof -
  have le: "fst l \<le> snd l" "fst r \<le> snd r" using assms(1,2) by (simp_all add: separated_first)
  note step = lhs_step [OF assms(4) le assms(3)]
  show "separated (r' # rs)" using assms(2) step by (blast intro: separated_head)
  have low: "k \<notin> bits ls" "k \<notin> bits rs" if "k < snd l" for k
    using separated_above [OF assms(1), of k] separated_above [OF assms(2), of k] assms(3) that by auto
  have none: "\<not> in_range k l" if "\<not> k < snd l" for k using that by (simp add: in_range_def)
  show "f (i \<in> bits (l # ls)) (i \<in> bits (r # rs)) \<longleftrightarrow> in_range i out \<or> f (i \<in> bits ls) (i \<in> bits (r' # rs))"
    using step [of i] low [of i] none [of i] by (cases "i < snd l") simp_all
  assume out: "fst out < snd out" and j: "f (j \<in> bits ls) (j \<in> bits (r' # rs))"
  show "fst out \<le> j"
  proof (rule ccontr)
    assume "\<not> fst out \<le> j"
    then have lt: "j < fst out" by simp
    have "in_range (fst out) out" using out by (simp add: in_range_def)
    then have "fst out < snd l" using step [of "fst out"] by (auto split: if_splits)
    with lt have "f False (in_range j r')" using j low [of j] by simp
    with lhs_first [OF assms(4) le assms(3) out lt] show False by simp
  qed
qed

lemma step_rhs:
  assumes "separated (l # ls)" "separated (r # rs)" "snd r < snd l" "advance_rhs c st l r = (out, l', st')"
  shows "separated (l' # ls)"
    and "f (i \<in> bits (l # ls)) (i \<in> bits (r # rs)) \<longleftrightarrow> in_range i out \<or> f (i \<in> bits (l' # ls)) (i \<in> bits rs)"
    and "fst out < snd out \<Longrightarrow> f (j \<in> bits (l' # ls)) (j \<in> bits rs) \<Longrightarrow> fst out \<le> j"
proof -
  have le: "fst l \<le> snd l" "fst r \<le> snd r" using assms(1,2) by (simp_all add: separated_first)
  note step = rhs_step [OF assms(4) le assms(3)]
  show "separated (l' # ls)" using assms(1) step by (blast intro: separated_head)
  have low: "k \<notin> bits ls" "k \<notin> bits rs" if "k < snd r" for k
    using separated_above [OF assms(1), of k] separated_above [OF assms(2), of k] assms(3) that by auto
  have none: "\<not> in_range k r" if "\<not> k < snd r" for k using that by (simp add: in_range_def)
  show "f (i \<in> bits (l # ls)) (i \<in> bits (r # rs)) \<longleftrightarrow> in_range i out \<or> f (i \<in> bits (l' # ls)) (i \<in> bits rs)"
    using step [of i] low [of i] none [of i] by (cases "i < snd r") simp_all
  assume out: "fst out < snd out" and j: "f (j \<in> bits (l' # ls)) (j \<in> bits rs)"
  show "fst out \<le> j"
  proof (rule ccontr)
    assume "\<not> fst out \<le> j"
    then have lt: "j < fst out" by simp
    have "in_range (fst out) out" using out by (simp add: in_range_def)
    then have "fst out < snd r" using step [of "fst out"] by (auto split: if_splits)
    with lt have "f (in_range j l') False" using j low [of j] by simp
    with rhs_first [OF assms(4) le assms(3) out lt] show False by simp
  qed
qed

lemma lhs_rest: "next_ranges c st a [] = (if f True False then a else [])"
  by (induction a) (simp_all add: lhs_tail)

lemma rhs_rest: "next_ranges c st [] b = (if f False True then b else [])"
  by (induction b) (simp_all add: rhs_tail)

lemma next_bits:
  "separated a \<Longrightarrow> separated b \<Longrightarrow>
    bits (next_ranges c st a b) = {i. f (i \<in> bits a) (i \<in> bits b)} \<and> starts (next_ranges c st a b)"
proof (induction "length a + length b" arbitrary: st a b rule: less_induct)
  case less
  show ?case
  proof (cases a)
    case Nil
    have "f False (i \<in> bits b) \<longleftrightarrow> f False True \<and> i \<in> bits b" for i using f_none by (cases "i \<in> bits b") simp_all
    then show ?thesis using Nil less.prems starts_separated by (auto simp: rhs_rest starts_def)
  next
    case a: (Cons l ls)
    show ?thesis
    proof (cases b)
      case Nil
      have "f (i \<in> bits a) False \<longleftrightarrow> f True False \<and> i \<in> bits a" for i using f_none by (cases "i \<in> bits a") simp_all
      then show ?thesis using Nil less.prems starts_separated by (auto simp: lhs_rest starts_def)
    next
      case b: (Cons r rs)
      note sep = less.prems [unfolded a b]
      show ?thesis
      proof (cases "snd l \<le> snd r")
        case True
        obtain out r' st' where adv: "advance_lhs c st l r = (out, r', st')" by (cases "advance_lhs c st l r")
        note step = step_lhs [OF sep True adv]
        have run: "next_ranges c st a b = out # next_ranges c st' ls (r' # rs)" using True adv by (simp add: a b)
        have ih: "bits (next_ranges c st' ls (r' # rs)) = {i. f (i \<in> bits ls) (i \<in> bits (r' # rs))}"
          "starts (next_ranges c st' ls (r' # rs))"
          using less.hyps [of ls "r' # rs" st'] sep step(1) by (auto simp: a b dest: separated_tail)
        show ?thesis unfolding run
          using step(2) ih starts_Cons [OF ih(2), of out] step(3) by (auto simp: a b set_eq_iff range_is_empty_def)
      next
        case False
        then have lt: "snd r < snd l" by simp
        obtain out l' st' where adv: "advance_rhs c st l r = (out, l', st')" by (cases "advance_rhs c st l r")
        note step = step_rhs [OF sep lt adv]
        have run: "next_ranges c st a b = out # next_ranges c st' (l' # ls) rs" using False adv by (simp add: a b)
        have ih: "bits (next_ranges c st' (l' # ls) rs) = {i. f (i \<in> bits (l' # ls)) (i \<in> bits rs)}"
          "starts (next_ranges c st' (l' # ls) rs)"
          using less.hyps [of "l' # ls" rs st'] sep step(1) by (auto simp: a b dest: separated_tail)
        show ?thesis unfolding run
          using step(2) ih starts_Cons [OF ih(2), of out] step(3) by (auto simp: a b set_eq_iff range_is_empty_def)
      qed
    qed
  qed
qed

lemma combine_ok:
  assumes "separated a" "separated b"
  shows "bits (combine c st a b) = {i. f (i \<in> bits a) (i \<in> bits b)}" and "ranges_ok (combine c st a b)"
proof -
  let ?n = "filter (\<lambda>r. \<not> range_is_empty r) (next_ranges c st a b)"
  have ne: "list_all (\<lambda>r. fst r < snd r) ?n" by (induction "next_ranges c st a b") (auto simp: range_is_empty_def list_all_iff)
  then show "ranges_ok (combine c st a b)" unfolding combine_def by (rule merge_ok)
  have "bits (combine c st a b) = bits ?n"
    unfolding combine_def using next_bits [OF assms] ne by (intro merge_bits) (simp_all add: starts_def)
  also have "\<dots> = bits (next_ranges c st a b)" by (rule bits_filter)
  finally show "bits (combine c st a b) = {i. f (i \<in> bits a) (i \<in> bits b)}" using next_bits [OF assms] by simp
qed

end

interpretation union: pointwise Union_comb "(\<or>)"
  by unfold_locales (auto simp: Union_comb_def in_range_def min_def split: if_splits)

interpretation intersection: pointwise Intersection_comb "(\<and>)"
  by unfold_locales (auto simp: Intersection_comb_def in_range_def max_def split: if_splits)

interpretation difference: pointwise Difference_comb "\<lambda>a b. a \<and> \<not> b"
  by unfold_locales (auto simp: Difference_comb_def in_range_def max_def min_def split: if_splits)

interpretation symmetric_difference: pointwise SymmetricDifference_comb "\<lambda>a b. a \<noteq> b"
  by unfold_locales (auto simp: SymmetricDifference_comb_def symmetric_advance_def in_range_def max_def min_def split: if_splits)

subsection \<open>The bits in order\<close>

definition flat :: "range list \<Rightarrow> nat list" where
  "flat rs = concat (map (\<lambda>r. [fst r..<snd r]) rs)"

lemma flat_simps [simp]: "flat [] = []" "flat (r # rs) = [fst r..<snd r] @ flat rs"
  by (simp_all add: flat_def)

lemma set_flat: "set (flat rs) = bits rs"
  by (induction rs) (auto simp: in_range_def)

lemma flat_ordered: "separated rs \<Longrightarrow> sorted_wrt (<) (flat rs)"
proof (induction rs)
  case (Cons r rs)
  have "\<forall>x \<in> set [fst r..<snd r]. \<forall>y \<in> set (flat rs). x < y"
    using separated_above [OF Cons.prems] by (fastforce simp: set_flat)
  with Cons show ?case by (auto simp: sorted_wrt_append dest: separated_tail)
qed simp

lemma flat_sorted_list: "separated rs \<Longrightarrow> flat rs = sorted_list_of_set (bits rs)"
  using flat_ordered by (metis set_flat strict_sorted_iff sorted_list_of_set.idem_if_sorted_distinct)

lemma flat_skip: "flat (skip_bits n rs) = drop n (flat rs)"
  by (induction n rs rule: skip_bits.induct) (auto simp: range_size_def)

lemma flat_take: "flat (take_bits n rs) = take n (flat rs)"
  by (induction n rs rule: take_bits.induct) (auto simp: range_size_def Let_def take_upt)

lemma skip_ok: "ranges_ok rs \<Longrightarrow> ranges_ok (skip_bits n rs)"
proof (induction n rs rule: skip_bits.induct)
  case (2 n r rs)
  then show ?case by (cases rs) (auto simp: ranges_ok_def range_size_def)
qed simp

lemma take_first: "take_bits n (r # rs) = [] \<or> fst (hd (take_bits n (r # rs))) = fst r"
  by (simp add: Let_def)

lemma take_ok: "ranges_ok rs \<Longrightarrow> ranges_ok (take_bits n rs)"
proof (induction n rs rule: take_bits.induct)
  case (2 n r rs)
  show ?case
  proof (cases "n = 0 \<or> rs = []")
    case True
    then show ?thesis using 2(2) by (auto simp: ranges_ok_def range_size_def Let_def)
  next
    case False
    then obtain x xs where rs: "rs = x # xs" by (cases rs) auto
    let ?r = "if range_size r > n then (fst r, fst r + n) else r"
    have ih: "ranges_ok (take_bits (n - range_size ?r) rs)"
      using 2(1) [OF _ refl] 2(2) False by (auto simp: ranges_ok_def rs)
    have gap: "snd ?r < fst x" "fst ?r < snd ?r" using 2(2) False by (auto simp: ranges_ok_def rs range_size_def)
    show ?thesis
    proof (cases "take_bits (n - range_size ?r) rs")
      case Nil
      then show ?thesis using False gap by (auto simp: ranges_ok_def Let_def)
    next
      case (Cons y ys)
      then have "fst y = fst x" using take_first [of "n - range_size ?r" x xs] rs by simp
      then show ?thesis using False gap ih Cons by (auto simp: ranges_ok_def Let_def)
    qed
  qed
qed (simp add: ranges_ok_def)

lemma bits_run_Some:
  "sorted_wrt (<) xs \<Longrightarrow> list_all (\<lambda>x. e \<le> x \<and> x < U64_END) xs \<Longrightarrow> e \<le> U64_END \<Longrightarrow>
    \<exists>e' rest. bits_run e xs = Some (e', rest) \<and> e \<le> e' \<and> e' \<le> U64_END \<and> xs = [e..<e'] @ rest \<and>
      list_all (\<lambda>x. e' < x) rest"
proof (induction e xs rule: bits_run.induct)
  case (2 e x xs)
  show ?case
  proof (cases "x = e")
    case True
    then have "e + 1 \<le> U64_END" "list_all (\<lambda>y. e + 1 \<le> y \<and> y < U64_END) xs"
      using 2(2,3) by (auto simp: list_all_iff)
    with 2(1) True 2(2,3) obtain e' rest where "bits_run (e + 1) xs = Some (e', rest)" "e + 1 \<le> e'" "e' \<le> U64_END"
      "xs = [e + 1..<e'] @ rest" "list_all (\<lambda>x. e' < x) rest" by auto
    moreover have "x # [e + 1..<e'] = [e..<e']" using True \<open>e + 1 \<le> e'\<close> by (simp add: upt_conv_Cons)
    ultimately show ?thesis using True \<open>e + 1 \<le> U64_END\<close> by auto
  next
    case False
    then have "list_all (\<lambda>y. e < y) (x # xs)" using 2(2,3) by (auto simp: list_all_iff)
    then show ?thesis using False 2(2-) by auto
  qed
qed simp

lemma ranges_from_bits_ok:
  "sorted_wrt (<) xs \<Longrightarrow> list_all (\<lambda>x. x < U64_END) xs \<Longrightarrow>
    \<exists>rs. ranges_from_bits xs = Some rs \<and> flat rs = xs \<and> ranges_ok rs \<and> list_all (\<lambda>r. snd r \<le> U64_END) rs"
proof (induction xs rule: ranges_from_bits.induct)
  case (2 x xs)
  have "list_all (\<lambda>y. x + 1 \<le> y \<and> y < U64_END) xs" "x + 1 \<le> U64_END"
    using 2(2,3) by (auto simp: list_all_iff)
  then obtain e rest where run: "bits_run (x + 1) xs = Some (e, rest)" and e: "x + 1 \<le> e" "e \<le> U64_END"
    and xs: "xs = [x + 1..<e] @ rest" and gap: "list_all (\<lambda>y. e < y) rest"
    using bits_run_Some [of xs "x + 1"] 2(2) by auto
  have "sorted_wrt (<) rest" "list_all (\<lambda>x. x < U64_END) rest"
    using 2(2,3) xs by (auto simp: sorted_wrt_append)
  with 2(1) [OF _ run refl] 2(3) obtain rs where rs: "ranges_from_bits rest = Some rs" "flat rs = rest" "ranges_ok rs"
    "list_all (\<lambda>r. snd r \<le> U64_END) rs" by auto
  have "ranges_ok ((x, e) # rs)"
  proof (cases rs)
    case (Cons y ys)
    then have "fst y \<in> set rest" using rs(2,3) by (auto simp: ranges_ok_def)
    with gap Cons rs(3) e(1) show ?thesis by (auto simp: ranges_ok_def list_all_iff)
  qed (use e in \<open>simp add: ranges_ok_def\<close>)
  moreover have "flat ((x, e) # rs) = x # xs" using e(1) by (simp add: xs rs(2) upt_conv_Cons)
  ultimately show ?case using run rs e 2(3) by auto
qed (simp add: ranges_ok_def)

subsection \<open>Cutting\<close>

text \<open>The place of bit \<open>i\<close> after the bits of \<open>B\<close> are cut out.\<close>

definition cut_index :: "nat set \<Rightarrow> nat \<Rightarrow> nat" where
  "cut_index B i = i - card {j \<in> B. j < i}"

lemma cut_index_mono: "i \<le> k \<Longrightarrow> cut_index B i \<le> cut_index B k"
proof -
  assume le: "i \<le> k"
  have "{j \<in> B. j < k} \<subseteq> {j \<in> B. j < i} \<union> {i..<k}" by auto
  then have "card {j \<in> B. j < k} \<le> card ({j \<in> B. j < i} \<union> {i..<k})" by (intro card_mono) auto
  also have "\<dots> \<le> card {j \<in> B. j < i} + (k - i)" using card_Un_le [of "{j \<in> B. j < i}" "{i..<k}"] by simp
  finally show ?thesis using le by (simp add: cut_index_def)
qed

lemma cut_out:
  assumes "finite D" "card D = off" "\<And>d. d \<in> D \<Longrightarrow> d < s"
    and "\<And>i. s \<le> i \<Longrightarrow> i < e \<Longrightarrow> {j \<in> B. j < i} = D"
  shows "(in_range i (cut_offset off (s, e))) \<longleftrightarrow> (\<exists>k. s \<le> k \<and> k < e \<and> i = cut_index B k)"
proof -
  have "D \<subseteq> {..<s}" using assms(3) by auto
  then have "card D \<le> card {..<s}" by (intro card_mono) auto
  then have off: "off \<le> s" by (simp add: assms(2))
  have idx: "cut_index B k = k - off" if "s \<le> k" "k < e" for k
    using assms(2,4) that by (simp add: cut_index_def)
  show ?thesis
  proof
    assume "in_range i (cut_offset off (s, e))"
    then show "\<exists>k. s \<le> k \<and> k < e \<and> i = cut_index B k"
      using off idx [of "i + off"] by (intro exI [of _ "i + off"]) (auto simp: cut_offset_def in_range_def)
  next
    assume "\<exists>k. s \<le> k \<and> k < e \<and> i = cut_index B k"
    then show "in_range i (cut_offset off (s, e))" using off idx by (auto simp: cut_offset_def in_range_def)
  qed
qed

text \<open>The bits of \<open>b\<close> that are already cut out are \<open>D\<close>, all below the remaining ranges.\<close>

lemma cut_step:
  assumes "separated (l # ls)" "separated b" "finite D" "card D = off" "\<forall>d \<in> D. d < fst l"
    and e: "e = (case b of [] \<Rightarrow> snd l | r # rs \<Rightarrow> min (snd l) (fst r))"
    and rest: "bits rest = cut_index (D \<union> bits b) ` M" "starts rest"
    and split: "bits (l # ls) - bits b = {k. fst l \<le> k \<and> k < e} \<union> M" and low: "\<And>k. k \<in> M \<Longrightarrow> fst l \<le> k"
  shows "bits (cut_offset off (fst l, e) # rest) = cut_index (D \<union> bits b) ` (bits (l # ls) - bits b) \<and>
    starts (cut_offset off (fst l, e) # rest)"
proof -
  let ?B = "D \<union> bits b"
  have below: "\<not> k < e" if "k \<in> bits b" for k
  proof (cases b)
    case (Cons r rs)
    then have "k \<in> bits rs \<longrightarrow> snd r < k" "fst r \<le> snd r"
      using assms(2) separated_above [of r rs k] separated_first [of r rs] by simp_all
    with that Cons show ?thesis by (auto simp: e in_range_def)
  qed (use that in simp)
  have out: "in_range i (cut_offset off (fst l, e)) \<longleftrightarrow> (\<exists>k. fst l \<le> k \<and> k < e \<and> i = cut_index ?B k)" for i
  proof (rule cut_out [OF assms(3,4)])
    show d: "d < fst l" if "d \<in> D" for d using assms(5) that by simp
    show "{j \<in> ?B. j < k} = D" if "fst l \<le> k" "k < e" for k
      using that below d by fastforce
  qed
  have "cut_index ?B (fst l) \<le> j" if "j \<in> bits rest" for j
    using that low by (auto simp: rest(1) intro: cut_index_mono)
  moreover have "cut_index ?B (fst l) = fst l - off" if "fst l < e"
  proof -
    have "{j \<in> ?B. j < fst l} = D" using assms(5) below that by fastforce
    then show ?thesis by (simp add: cut_index_def assms(4))
  qed
  ultimately have "starts (cut_offset off (fst l, e) # rest)"
    by (intro starts_Cons rest(2)) (auto simp: cut_offset_def)
  moreover have "bits (cut_offset off (fst l, e) # rest) = cut_index ?B ` (bits (l # ls) - bits b)"
    unfolding split using out by (auto simp: set_eq_iff rest(1))
  ultimately show ?thesis by blast
qed

lemma separated_later: "separated (r # rs) \<Longrightarrow> x \<in> set rs \<Longrightarrow> snd r < fst x"
proof (induction rs arbitrary: r)
  case (Cons y ys)
  then show ?case using separated_first [of y ys] by (cases "x = y") (fastforce+)
qed simp

lemma cut_next_bits:
  "separated a \<Longrightarrow> separated b \<Longrightarrow> finite D \<Longrightarrow> card D = off \<Longrightarrow>
    (\<And>d r. d \<in> D \<Longrightarrow> r \<in> set a \<union> set b \<Longrightarrow> d < fst r) \<Longrightarrow>
    bits (next_ranges Cut_comb off a b) = cut_index (D \<union> bits b) ` (bits a - bits b) \<and>
    starts (next_ranges Cut_comb off a b)"
proof (induction "length a + length b" arbitrary: off D a b rule: less_induct)
  case less
  show ?case
  proof (cases a)
    case Nil
    then show ?thesis by (cases b) (simp_all add: Cut_comb_def starts_def)
  next
    case a: (Cons l ls)
    have sep: "separated (l # ls)" using less.prems(1) by (simp add: a)
    have lls: "snd l < i" if "i \<in> bits ls" for i using separated_above [OF sep that] .
    have sls: "separated ls" using sep by (rule separated_tail)
    have D: "d < fst r" if "d \<in> D" "r \<in> set (l # b)" for d r
      using less.prems(5) [of d r] that by (simp add: a) blast
    have "\<forall>d \<in> D. d < fst l" using D by simp
    note step = cut_step [OF sep less.prems(2,3,4) this]
    show ?thesis
    proof (cases b)
      case Nil
      have run: "next_ranges Cut_comb off a b = cut_offset off (fst l, snd l) # next_ranges Cut_comb off ls []"
        by (simp add: a Nil Cut_comb_def)
      have ih: "bits (next_ranges Cut_comb off ls []) = cut_index (D \<union> bits b) ` bits ls"
        "starts (next_ranges Cut_comb off ls [])"
        using less.hyps [of ls "[]" D off] sls less.prems(3-5) by (auto simp: a Nil)
      show ?thesis unfolding run
        using step [of "snd l" "next_ranges Cut_comb off ls []" "bits ls"] ih lls separated_first [OF sep]
        by (fastforce simp: a Nil in_range_def)
    next
      case b: (Cons r rs)
      have sb: "separated (r # rs)" using less.prems(2) by (simp add: b)
      have rrs: "snd r < i" if "i \<in> bits rs" for i using separated_above [OF sb that] .
      show ?thesis
      proof (cases "snd l \<le> snd r")
        case True
        have run: "next_ranges Cut_comb off a b =
            cut_offset off (fst l, min (snd l) (fst r)) # next_ranges Cut_comb off ls b"
          using True by (simp add: a b Cut_comb_def)
        have ih: "bits (next_ranges Cut_comb off ls b) = cut_index (D \<union> bits b) ` (bits ls - bits b)"
          "starts (next_ranges Cut_comb off ls b)"
          using less.hyps [of ls b D off] sls less.prems(2-5) by (auto simp: a)
        have "bits (l # ls) - bits b = {k. fst l \<le> k \<and> k < min (snd l) (fst r)} \<union> (bits ls - bits b)"
        proof (rule set_eqI)
          fix k
          show "k \<in> bits (l # ls) - bits b \<longleftrightarrow> k \<in> {k. fst l \<le> k \<and> k < min (snd l) (fst r)} \<union> (bits ls - bits b)"
            using True lls [of k] rrs [of k] separated_first [OF sb] by (auto simp: b in_range_def)
        qed
        moreover have "fst l \<le> k" if "k \<in> bits ls - bits b" for k
          using lls [of k] that separated_first [OF sep] by simp
        ultimately show ?thesis unfolding run unfolding a by (intro step [OF _ ih]) (simp_all add: b)
      next
        case False
        let ?l = "(max (fst l) (snd r), snd l)" and ?D = "D \<union> {k. in_range k r}"
        have run: "next_ranges Cut_comb off a b =
            cut_offset off (fst l, min (snd l) (fst r)) # next_ranges Cut_comb (off + range_size r) (?l # ls) rs"
          using False by (simp add: a b Cut_comb_def)
        have "{k. in_range k r} = {fst r..<snd r}" by (auto simp: in_range_def)
        moreover have "D \<inter> {fst r..<snd r} = {}" using D [of _ r] by (fastforce simp: b)
        ultimately have "finite ?D" "card ?D = off + range_size r"
          using less.prems(3,4) by (auto simp: card_Un_disjoint range_size_def)
        moreover have "separated (?l # ls)" using separated_first [OF sep] False by (intro separated_head [OF sep]) auto
        moreover have "separated rs" using sb by (rule separated_tail)
        moreover have "d < fst x" if d: "d \<in> ?D" and x: "x \<in> set (?l # ls) \<union> set rs" for d x
        proof -
          have "snd r \<le> fst x" using x False separated_later [OF sep, of x] separated_later [OF sb, of x] by auto
          moreover have "y < fst x" if "y \<in> D" for y
            using x less.prems(5) [OF that, of x] D [OF that, of l] by (auto simp: a b)
          ultimately show ?thesis using d by (auto simp: in_range_def)
        qed
        ultimately have ih: "bits (next_ranges Cut_comb (off + range_size r) (?l # ls) rs) =
            cut_index (?D \<union> bits rs) ` (bits (?l # ls) - bits rs)"
          "starts (next_ranges Cut_comb (off + range_size r) (?l # ls) rs)"
          using less.hyps [of "?l # ls" rs ?D "off + range_size r"] by (auto simp: a b)
        have "?D \<union> bits rs = D \<union> bits b" by (auto simp: b)
        note ih = ih [unfolded this]
        have "bits (l # ls) - bits b = {k. fst l \<le> k \<and> k < min (snd l) (fst r)} \<union> (bits (?l # ls) - bits rs)"
        proof (rule set_eqI)
          fix k
          show "k \<in> bits (l # ls) - bits b \<longleftrightarrow> k \<in> {k. fst l \<le> k \<and> k < min (snd l) (fst r)} \<union> (bits (?l # ls) - bits rs)"
            using False lls [of k] rrs [of k] separated_first [OF sb] by (auto simp: b in_range_def)
        qed
        moreover have "fst l \<le> k" if "k \<in> bits (?l # ls) - bits rs" for k
          using lls [of k] that separated_first [OF sep] by (auto simp: in_range_def)
        ultimately show ?thesis unfolding run unfolding a by (intro step [OF _ ih]) (simp_all add: b)
      qed
    qed
  qed
qed

lemma cut_ok:
  assumes "separated a" "separated b"
  shows "bits (range_cut a b) = cut_index (bits b) ` (bits a - bits b)" and "ranges_ok (range_cut a b)"
proof -
  let ?n = "filter (\<lambda>r. \<not> range_is_empty r) (next_ranges Cut_comb 0 a b)"
  have ne: "list_all (\<lambda>r. fst r < snd r) ?n" by (auto simp: range_is_empty_def list_all_iff)
  then show "ranges_ok (range_cut a b)" unfolding range_cut_def combine_def by (rule merge_ok)
  note "next" = cut_next_bits [OF assms, of "{}" 0]
  have "bits (range_cut a b) = bits ?n"
    unfolding range_cut_def combine_def using "next" ne by (intro merge_bits) (simp_all add: starts_def)
  also have "\<dots> = bits (next_ranges Cut_comb 0 a b)" by (rule bits_filter)
  finally show "bits (range_cut a b) = cut_index (bits b) ` (bits a - bits b)" using "next" by simp
qed

end
