(* ===== verification/BitField.thy ===== *)
theory BitField
  imports RangeSets
begin

text \<open>
  Bit fields: \<open>ipld/bitfield/src/lib.rs\<close> and the operators of \<open>ipld/bitfield/src/ops.rs\<close>. A bit field
  keeps the ranges it was built from and two buffers of single bits set and unset since. The
  abstraction is the set of its bits; every operation refines the operation on sets it stands for, on
  each of its branches (the operators return one argument unchanged when the other is trivially
  empty). A panic is \<open>None\<close>: under the invariant there is none.
\<close>

record BitField =
  bf_ranges :: "range list"
  bf_set :: "nat set"
  bf_unset :: "nat set"

datatype OutOfRangeError = OutOfRangeError

datatype MaybeBitField = Ok BitField | OutOfBounds

subsection \<open>Construction\<close>

definition bf_new :: BitField where
  "bf_new = \<lparr>bf_ranges = [], bf_set = {}, bf_unset = {}\<rparr>"

definition from_ranges :: "range list \<Rightarrow> BitField" where
  "from_ranges rs = bf_new\<lparr>bf_ranges := rs\<rparr>"

text \<open>\<open>MaybeBitField::from_iter\<close> on Booleans and on indices.\<close>

definition from_iter_bool :: "bool list \<Rightarrow> MaybeBitField option" where
  "from_iter_bool bs =
    (let bits = map fst (filter snd (zip [0..<length bs] (take U64_END bs)))
     in map_option (\<lambda>rs. if length bs > U64_END then OutOfBounds else Ok (from_ranges rs)) (ranges_from_bits bits))"




subsection \<open>Single bits\<close>

definition try_set :: "BitField \<Rightarrow> nat \<Rightarrow> OutOfRangeError + BitField" where
  "try_set bf i =
    (if i = U64_END then Inl OutOfRangeError
     else Inr (bf\<lparr>bf_unset := bf_unset bf - {i}, bf_set := insert i (bf_set bf)\<rparr>))"

definition bf_set_bit :: "BitField \<Rightarrow> nat \<Rightarrow> BitField option" where
  "bf_set_bit bf i = (case try_set bf i of Inl _ \<Rightarrow> None | Inr bf' \<Rightarrow> Some bf')"


text \<open>
  The comparison of \<open>get\<close> and the binary search of the standard library over the window \<open>[lo, hi)\<close>.
\<close>

datatype Ordering = Less | Equal | Greater

definition range_cmp :: "nat \<Rightarrow> range \<Rightarrow> Ordering" where
  "range_cmp index r = (if index < fst r then Greater else if index \<ge> snd r then Less else Equal)"

function binary_search_by :: "('a \<Rightarrow> Ordering) \<Rightarrow> 'a list \<Rightarrow> nat \<Rightarrow> nat \<Rightarrow> nat option" where
  "binary_search_by cmp xs lo hi =
    (if lo < hi then
       let mid = lo + (hi - lo) div 2
       in case cmp (xs ! mid) of
            Less \<Rightarrow> binary_search_by cmp xs (mid + 1) hi
          | Greater \<Rightarrow> binary_search_by cmp xs lo mid
          | Equal \<Rightarrow> Some mid
     else None)"
  by pat_completeness auto
termination
  by (relation "measure (\<lambda>(cmp, xs, lo, hi). hi - lo)") auto

declare binary_search_by.simps [simp del]

definition get :: "BitField \<Rightarrow> nat \<Rightarrow> bool" where
  "get bf index =
    (if index \<in> bf_set bf then True
     else if index \<in> bf_unset bf then False
     else binary_search_by (range_cmp index) (bf_ranges bf) 0 (length (bf_ranges bf)) \<noteq> None)"

subsection \<open>Iteration\<close>

definition set_ranges :: "BitField \<Rightarrow> range list option" where
  "set_ranges bf = ranges_from_bits (sorted_list_of_set (bf_set bf))"

definition unset_ranges :: "BitField \<Rightarrow> range list option" where
  "unset_ranges bf = ranges_from_bits (sorted_list_of_set (bf_unset bf))"

definition bf_iter :: "BitField \<Rightarrow> nat list option" where
  "bf_iter bf =
    map_option (\<lambda>rs. filter (\<lambda>i. i \<notin> bf_unset bf) (flat (range_union (bf_ranges bf) rs))) (set_ranges bf)"

text \<open>\<open>ranges()\<close>.\<close>

definition all_ranges :: "BitField \<Rightarrow> range list option" where
  "all_ranges bf =
    (case set_ranges bf of None \<Rightarrow> None
     | Some s \<Rightarrow> map_option (range_difference (range_union (bf_ranges bf) s)) (unset_ranges bf))"

definition bf_min :: "nat set \<Rightarrow> nat option" where
  "bf_min s = (if s = {} then None else Some (Min s))"

definition bf_max :: "nat set \<Rightarrow> nat option" where
  "bf_max s = (if s = {} then None else Some (Max s))"

definition or_both :: "('a \<Rightarrow> 'a \<Rightarrow> 'a) \<Rightarrow> 'a option \<Rightarrow> 'a option \<Rightarrow> 'a option" where
  "or_both f x y = (case (x, y) of
     (None, None) \<Rightarrow> None
   | (Some v, None) \<Rightarrow> Some v
   | (None, Some v) \<Rightarrow> Some v
   | (Some a, Some b) \<Rightarrow> Some (f a b))"

definition bf_first :: "BitField \<Rightarrow> nat option" where
  "bf_first bf = or_both min (bf_min (bf_set bf)) (List.find (\<lambda>i. i \<notin> bf_unset bf) (flat (bf_ranges bf)))"

definition bf_last :: "BitField \<Rightarrow> nat option" where
  "bf_last bf = or_both max (bf_max (bf_set bf))
    (List.find (\<lambda>i. i \<notin> bf_unset bf) (concat (map (\<lambda>r. rev [fst r..<snd r]) (rev (bf_ranges bf)))))"

definition bf_is_empty :: "BitField \<Rightarrow> bool" where
  "bf_is_empty bf \<longleftrightarrow> bf_set bf = {} \<and> list_all (\<lambda>i. i \<in> bf_unset bf) (flat (bf_ranges bf))"

definition is_trivially_empty :: "BitField \<Rightarrow> bool" where
  "is_trivially_empty bf \<longleftrightarrow> bf_set bf = {} \<and> bf_ranges bf = []"

definition bf_len :: "BitField \<Rightarrow> nat option" where
  "bf_len bf = map_option (\<lambda>rs. sum_list (map range_size rs)) (all_ranges bf)"

definition bounded_iter :: "BitField \<Rightarrow> nat \<Rightarrow> nat list option option" where
  "bounded_iter bf limit =
    (case bf_len bf of None \<Rightarrow> None
     | Some n \<Rightarrow> if n \<le> limit then map_option Some (bf_iter bf) else Some None)"


subsection \<open>Two bit fields\<close>

definition with_ranges :: "BitField \<Rightarrow> BitField \<Rightarrow> (range list \<Rightarrow> range list \<Rightarrow> 'a) \<Rightarrow> 'a option" where
  "with_ranges a b f =
    (case all_ranges a of None \<Rightarrow> None | Some ra \<Rightarrow> map_option (f ra) (all_ranges b))"

definition bf_eq :: "BitField \<Rightarrow> BitField \<Rightarrow> bool option" where
  "bf_eq a b = with_ranges a b (=)"

definition bf_cut :: "BitField \<Rightarrow> BitField \<Rightarrow> BitField option" where
  "bf_cut a b = with_ranges a b (\<lambda>ra rb. from_ranges (range_cut ra rb))"

definition bitor :: "BitField \<Rightarrow> BitField \<Rightarrow> BitField option" where
  "bitor a b =
    (if is_trivially_empty a then Some b
     else if is_trivially_empty b then Some a
     else with_ranges a b (\<lambda>ra rb. from_ranges (range_union ra rb)))"

definition bitand :: "BitField \<Rightarrow> BitField \<Rightarrow> BitField option" where
  "bitand a b =
    (if is_trivially_empty a \<or> is_trivially_empty b then Some bf_new
     else with_ranges a b (\<lambda>ra rb. from_ranges (range_intersection ra rb)))"

definition bf_sub :: "BitField \<Rightarrow> BitField \<Rightarrow> BitField option" where
  "bf_sub a b =
    (if is_trivially_empty a \<or> is_trivially_empty b then Some a
     else with_ranges a b (\<lambda>ra rb. from_ranges (range_difference ra rb)))"

definition bitxor :: "BitField \<Rightarrow> BitField \<Rightarrow> BitField option" where
  "bitxor a b =
    (if is_trivially_empty a then Some b
     else if is_trivially_empty b then Some a
     else with_ranges a b (\<lambda>ra rb. from_ranges (range_symmetric_difference ra rb)))"

definition contains_any :: "BitField \<Rightarrow> BitField \<Rightarrow> bool option" where
  "contains_any a b =
    (if is_trivially_empty a \<or> is_trivially_empty b then Some False
     else with_ranges a b (\<lambda>ra rb. range_intersection ra rb \<noteq> []))"

definition contains_all :: "BitField \<Rightarrow> BitField \<Rightarrow> bool option" where
  "contains_all a b =
    (if is_trivially_empty b then Some True
     else with_ranges b a (\<lambda>rb ra. range_difference rb ra = []))"

definition bf_union :: "BitField list \<Rightarrow> BitField option" where
  "bf_union bfs = fold (\<lambda>b acc. Option.bind acc (\<lambda>a. bitor a b)) bfs (Some bf_new)"

subsection \<open>Run lengths in JSON\<close>

text \<open>
  The serializer of the \<open>json\<close> feature writes the lengths of the runs, zeros first; the deserializer
  adds them up in \<open>u64\<close>.
\<close>

fun json_runs :: "nat \<Rightarrow> range list \<Rightarrow> nat list" where
  "json_runs last_index [] = []"
| "json_runs last_index (r # rs) = (fst r - last_index) # (snd r - fst r) # json_runs (snd r) rs"

definition json_serialize :: "BitField \<Rightarrow> nat list option" where
  "json_serialize bf = (if bf_is_empty bf then Some [0] else map_option (json_runs 0) (all_ranges bf))"

fun json_ranges :: "bool \<Rightarrow> nat \<Rightarrow> nat list \<Rightarrow> range list" where
  "json_ranges should_set last_index [] = []"
| "json_ranges should_set last_index (index # xs) =
    (let ending_index = (index + last_index) mod 2 ^ 64
     in (if should_set then [(last_index, ending_index)] else []) @ json_ranges (\<not> should_set) ending_index xs)"

definition json_deserialize :: "nat list \<Rightarrow> BitField" where
  "json_deserialize xs = from_ranges (json_ranges False 0 xs)"

subsection \<open>Invariant and abstraction\<close>

definition bitfield_ok :: "BitField \<Rightarrow> bool" where
  "bitfield_ok bf \<longleftrightarrow>
    ranges_ok (bf_ranges bf) \<and> list_all (\<lambda>r. snd r \<le> U64_END) (bf_ranges bf) \<and>
    finite (bf_set bf) \<and> finite (bf_unset bf) \<and> bf_set bf \<inter> bf_unset bf = {} \<and>
    bf_set bf \<subseteq> {..<U64_END} \<and> bf_unset bf \<subseteq> {..<U64_END}"

definition bitfield_bits :: "BitField \<Rightarrow> nat set" where
  "bitfield_bits bf = bits (bf_ranges bf) \<union> bf_set bf - bf_unset bf"

lemma ranges_bound:
  assumes "list_all (\<lambda>r. fst r < snd r) rs"
  shows "list_all (\<lambda>r. snd r \<le> n) rs \<longleftrightarrow> bits rs \<subseteq> {..<n}"
proof
  assume "bits rs \<subseteq> {..<n}"
  moreover have "snd r - 1 \<in> bits rs" if "r \<in> set rs" for r
    using that assms by (force simp: bits_def in_range_def list_all_iff)
  ultimately show "list_all (\<lambda>r. snd r \<le> n) rs" by (force simp: list_all_iff)
qed (auto simp: bits_def in_range_def list_all_iff)

lemma finite_bits: "finite (bits rs)"
  by (simp flip: set_flat)

lemma from_ranges_bits [simp]: "bitfield_bits (from_ranges rs) = bits rs"
  by (simp add: bitfield_bits_def from_ranges_def bf_new_def)

lemma from_ranges_ok: "bitfield_ok (from_ranges rs) \<longleftrightarrow> ranges_ok rs \<and> bits rs \<subseteq> {..<U64_END}"
  using ranges_bound [of rs U64_END] by (auto simp: bitfield_ok_def from_ranges_def bf_new_def ranges_ok_def)

lemma new_ok [simp]: "bitfield_ok bf_new" "bitfield_bits bf_new = {}"
  by (simp_all add: bitfield_ok_def bitfield_bits_def bf_new_def ranges_ok_def)

lemma sorted_set_ranges:
  assumes "finite S" "S \<subseteq> {..<U64_END}"
  shows "\<exists>rs. ranges_from_bits (sorted_list_of_set S) = Some rs \<and> ranges_ok rs \<and> bits rs = S"
proof -
  have "list_all (\<lambda>x. x < U64_END) (sorted_list_of_set S)" using assms by (auto simp: list_all_iff)
  then obtain rs where rs: "ranges_from_bits (sorted_list_of_set S) = Some rs" "flat rs = sorted_list_of_set S" "ranges_ok rs"
    using ranges_from_bits_ok [of "sorted_list_of_set S"] by auto
  moreover have "bits rs = S" using assms(1) by (simp add: rs(2) flip: set_flat)
  ultimately show ?thesis by blast
qed

lemmas union_ok = union.combine_ok [of _ _ "()", folded range_union_def]
lemmas intersection_ok = intersection.combine_ok [of _ _ "()", folded range_intersection_def]
lemmas difference_ok = difference.combine_ok [of _ _ "()", folded range_difference_def]
lemmas symmetric_difference_ok =
  symmetric_difference.combine_ok [of _ _ "()", folded range_symmetric_difference_def]

lemma ranges_ok_separated [simp]: "ranges_ok rs \<Longrightarrow> separated rs"
  by (simp add: ranges_ok_def)

lemma bits_bound: "bitfield_ok bf \<Longrightarrow> bitfield_bits bf \<subseteq> {..<U64_END}"
  using ranges_bound [of "bf_ranges bf" U64_END] by (auto simp: bitfield_ok_def bitfield_bits_def ranges_ok_def)

lemma all_ranges_Some:
  assumes "bitfield_ok bf"
  shows "\<exists>rs. all_ranges bf = Some rs \<and> ranges_ok rs \<and> bits rs = bitfield_bits bf"
proof -
  have ok: "finite (bf_set bf)" "bf_set bf \<subseteq> {..<U64_END}" "finite (bf_unset bf)" "bf_unset bf \<subseteq> {..<U64_END}"
    "ranges_ok (bf_ranges bf)"
    using assms by (simp_all add: bitfield_ok_def)
  obtain s where s: "set_ranges bf = Some s" "ranges_ok s" "bits s = bf_set bf"
    using sorted_set_ranges [OF ok(1,2)] by (auto simp: set_ranges_def)
  obtain u where u: "unset_ranges bf = Some u" "ranges_ok u" "bits u = bf_unset bf"
    using sorted_set_ranges [OF ok(3,4)] by (auto simp: unset_ranges_def)
  have un: "ranges_ok (range_union (bf_ranges bf) s)" "bits (range_union (bf_ranges bf) s) = bits (bf_ranges bf) \<union> bf_set bf"
    using union_ok [of "bf_ranges bf" s] ok(5) s by auto
  show ?thesis
    using difference_ok [of "range_union (bf_ranges bf) s" u] un u s
    by (auto simp: all_ranges_def bitfield_bits_def)
qed

subsection \<open>Queries\<close>

lemma separated_nth: "separated rs \<Longrightarrow> i < j \<Longrightarrow> j < length rs \<Longrightarrow> snd (rs ! i) < fst (rs ! j)"
proof (induction rs arbitrary: i j)
  case (Cons r rs)
  then obtain k where j: "j = Suc k" by (cases j) auto
  show ?case
  proof (cases i)
    case 0
    then show ?thesis using Cons.prems separated_later [of r rs "rs ! k"] by (simp add: j)
  next
    case (Suc i')
    then show ?thesis using Cons separated_tail [of r rs] by (simp add: j)
  qed
qed simp

text \<open>The search finds a range with the index in the window iff there is one.\<close>

lemma binary_search_range:
  assumes "separated rs" "hi \<le> length rs"
  shows "binary_search_by (range_cmp index) rs lo hi \<noteq> None \<longleftrightarrow> (\<exists>k. lo \<le> k \<and> k < hi \<and> in_range index (rs ! k))"
  using assms
proof (induction "range_cmp index" rs lo hi rule: binary_search_by.induct)
  case (1 rs lo hi)
  let ?mid = "lo + (hi - lo) div 2"
  show ?case
  proof (cases "lo < hi")
    case True
    then have mid: "lo \<le> ?mid" "?mid < hi" by auto
    have wf: "fst (rs ! k) \<le> snd (rs ! k)" if "k < length rs" for k
      using 1(3) that by (induction rs arbitrary: k) (auto simp: nth_Cons' dest: separated_first separated_tail)
    have below: "snd (rs ! k) < fst (rs ! ?mid)" if "k < ?mid" for k
      using separated_nth [OF 1(3) that] mid 1(4) by simp
    have above: "snd (rs ! ?mid) < fst (rs ! k)" if "?mid < k" "k < hi" for k
      using separated_nth [OF 1(3) that(1)] that 1(4) by simp
    consider "range_cmp index (rs ! ?mid) = Less" | "range_cmp index (rs ! ?mid) = Greater" | "range_cmp index (rs ! ?mid) = Equal"
      by (cases "range_cmp index (rs ! ?mid)") auto
    then show ?thesis
    proof cases
      case 1
      then have "snd (rs ! ?mid) \<le> index" by (auto simp: range_cmp_def split: if_splits)
      then have no: "\<not> in_range index (rs ! k)" if "k \<le> ?mid" for k
        using that below [of k] wf [of ?mid] mid \<open>hi \<le> length rs\<close> by (cases "k = ?mid") (auto simp: in_range_def)
      have "lo \<le> k \<and> k < hi \<and> in_range index (rs ! k) \<longleftrightarrow> ?mid + 1 \<le> k \<and> k < hi \<and> in_range index (rs ! k)" for k
        using mid(1) no [of k] by (cases "k \<le> ?mid") auto
      then show ?thesis using "1.hyps"(1) [OF True refl 1] 1 True "1.prems"
        by (subst binary_search_by.simps) (simp add: Let_def)
    next
      case 2
      then have "index < fst (rs ! ?mid)" by (auto simp: range_cmp_def split: if_splits)
      then have no: "\<not> in_range index (rs ! k)" if "?mid \<le> k" "k < hi" for k
        using that above [of k] wf [of ?mid] mid \<open>hi \<le> length rs\<close> by (cases "k = ?mid") (auto simp: in_range_def)
      have "lo \<le> k \<and> k < hi \<and> in_range index (rs ! k) \<longleftrightarrow> lo \<le> k \<and> k < ?mid \<and> in_range index (rs ! k)" for k
        using mid(2) no [of k] by (cases "?mid \<le> k") auto
      then show ?thesis using "1.hyps"(2) [OF True refl 2] 2 True "1.prems" mid
        by (subst binary_search_by.simps) (simp add: Let_def)
    next
      case 3
      then have "in_range index (rs ! ?mid)" by (auto simp: range_cmp_def in_range_def split: if_splits)
      then have "\<exists>k. lo \<le> k \<and> k < hi \<and> in_range index (rs ! k)" using mid by blast
      then show ?thesis using 3 True by (subst binary_search_by.simps) (simp add: Let_def)
    qed
  qed (simp add: binary_search_by.simps)
qed

lemma bits_nth: "i \<in> bits rs \<longleftrightarrow> (\<exists>k < length rs. in_range i (rs ! k))"
  unfolding bits_def Bex_def in_set_conv_nth by blast

lemma get_iff: "bitfield_ok bf \<Longrightarrow> get bf i \<longleftrightarrow> i \<in> bitfield_bits bf"
  using binary_search_range [of "bf_ranges bf" "length (bf_ranges bf)" i 0]
  by (auto simp: get_def bitfield_ok_def bitfield_bits_def bits_nth)

lemma find_sorted:
  assumes "sorted_wrt (<) (xs :: nat list)"
  shows "List.find P xs = bf_min {x \<in> set xs. P x}"
  using assms
proof (induction xs)
  case (Cons x xs)
  show ?case
  proof (cases "P x")
    case True
    have "Min {y \<in> set (x # xs). P y} = x" using Cons.prems True by (intro Min_eqI) auto
    then show ?thesis using True by (auto simp: bf_min_def)
  next
    case False
    then have "{y \<in> set (x # xs). P y} = {y \<in> set xs. P y}" by auto
    then show ?thesis using Cons False by simp
  qed
qed (simp add: bf_min_def)

lemma find_sorted_rev:
  assumes "sorted_wrt (>) (xs :: nat list)"
  shows "List.find P xs = bf_max {x \<in> set xs. P x}"
  using assms
proof (induction xs)
  case (Cons x xs)
  show ?case
  proof (cases "P x")
    case True
    have "Max {y \<in> set (x # xs). P y} = x" using Cons.prems True by (intro Max_eqI) auto
    then show ?thesis using True by (auto simp: bf_max_def)
  next
    case False
    then have "{y \<in> set (x # xs). P y} = {y \<in> set xs. P y}" by auto
    then show ?thesis using Cons False by simp
  qed
qed (simp add: bf_max_def)

lemma or_both_Un:
  assumes "finite A" "finite B"
  shows "or_both min (bf_min A) (bf_min B) = bf_min (A \<union> B)" "or_both max (bf_max A) (bf_max B) = bf_max (A \<union> B)"
  using assms by (auto simp: or_both_def bf_min_def bf_max_def Min_Un Max_Un)

lemma rev_flat: "concat (map (\<lambda>r. rev [fst r..<snd r]) (rev rs)) = rev (flat rs)"
  by (induction rs) auto

lemma ok_set_unset: "bitfield_ok bf \<Longrightarrow> bf_set bf - bf_unset bf = bf_set bf"
  by (auto simp: bitfield_ok_def)

lemma first_min:
  assumes "bitfield_ok bf"
  shows "bf_first bf = bf_min (bitfield_bits bf)"
proof -
  have "separated (bf_ranges bf)" "finite (bf_set bf)" using assms by (simp_all add: bitfield_ok_def ranges_ok_def)
  then show ?thesis
    using find_sorted [OF flat_ordered, of "bf_ranges bf"] ok_set_unset [OF assms] finite_bits [of "bf_ranges bf"]
    by (auto simp: bf_first_def set_flat or_both_Un bitfield_bits_def intro!: arg_cong [where f = bf_min])
qed

lemma last_max:
  assumes "bitfield_ok bf"
  shows "bf_last bf = bf_max (bitfield_bits bf)"
proof -
  have sep: "separated (bf_ranges bf)" "finite (bf_set bf)" using assms by (simp_all add: bitfield_ok_def ranges_ok_def)
  have "sorted_wrt (>) (rev (flat (bf_ranges bf)))" using flat_ordered [OF sep(1)] by (simp add: sorted_wrt_rev)
  then show ?thesis
    using find_sorted_rev [of "rev (flat (bf_ranges bf))"] sep ok_set_unset [OF assms] finite_bits [of "bf_ranges bf"]
    by (auto simp: bf_last_def rev_flat set_flat or_both_Un bitfield_bits_def intro!: arg_cong [where f = bf_max])
qed

lemma is_empty_iff: "bitfield_ok bf \<Longrightarrow> bf_is_empty bf \<longleftrightarrow> bitfield_bits bf = {}"
  by (auto simp: bf_is_empty_def bitfield_bits_def list_all_iff set_flat bitfield_ok_def)

lemma sum_sizes: "sum_list (map range_size rs) = length (flat rs)"
  by (induction rs) (auto simp: range_size_def)

lemma flat_card: "separated rs \<Longrightarrow> length (flat rs) = card (bits rs)"
  by (simp add: flat_sorted_list)

lemma len_card: "bitfield_ok bf \<Longrightarrow> bf_len bf = Some (card (bitfield_bits bf))"
  using all_ranges_Some [of bf] by (auto simp: bf_len_def sum_sizes flat_card)

lemma iter_sorted:
  assumes "bitfield_ok bf"
  shows "bf_iter bf = Some (sorted_list_of_set (bitfield_bits bf))"
proof -
  have ok: "finite (bf_set bf)" "bf_set bf \<subseteq> {..<U64_END}" "ranges_ok (bf_ranges bf)"
    using assms by (simp_all add: bitfield_ok_def)
  obtain s where s: "set_ranges bf = Some s" "ranges_ok s" "bits s = bf_set bf"
    using sorted_set_ranges [OF ok(1,2)] by (auto simp: set_ranges_def)
  let ?u = "range_union (bf_ranges bf) s"
  have un: "ranges_ok ?u" "bits ?u = bits (bf_ranges bf) \<union> bf_set bf"
    using union_ok [of "bf_ranges bf" s] ok(3) s by auto
  have "sorted_wrt (<) (filter (\<lambda>i. i \<notin> bf_unset bf) (flat ?u))"
    using un(1) by (intro sorted_wrt_filter flat_ordered) simp
  moreover have "set (filter (\<lambda>i. i \<notin> bf_unset bf) (flat ?u)) = bitfield_bits bf"
    using un(2) by (auto simp: set_flat bitfield_bits_def)
  ultimately have "filter (\<lambda>i. i \<notin> bf_unset bf) (flat ?u) = sorted_list_of_set (bitfield_bits bf)"
    by (metis strict_sorted_iff sorted_list_of_set.idem_if_sorted_distinct)
  then show ?thesis using s(1) by (simp add: bf_iter_def)
qed
subsection \<open>Operations\<close>



lemma with_ranges_Some:
  assumes "bitfield_ok a" "bitfield_ok b"
  shows "\<exists>ra rb. with_ranges a b f = Some (f ra rb) \<and> ranges_ok ra \<and> ranges_ok rb \<and>
    bits ra = bitfield_bits a \<and> bits rb = bitfield_bits b"
proof -
  obtain ra rb where "all_ranges a = Some ra" "all_ranges b = Some rb" "ranges_ok ra" "ranges_ok rb"
    "bits ra = bitfield_bits a" "bits rb = bitfield_bits b"
    using all_ranges_Some [OF assms(1)] all_ranges_Some [OF assms(2)] by blast
  then show ?thesis by (intro exI [of _ ra] exI [of _ rb]) (simp add: with_ranges_def)
qed

lemma trivially_empty: "is_trivially_empty bf \<Longrightarrow> bitfield_bits bf = {}"
  by (simp add: is_trivially_empty_def bitfield_bits_def)

text \<open>
  An operation that goes through the ranges of both arguments, with a combination of ranges that
  computes \<open>g\<close>, computes \<open>g\<close> on the bits.
\<close>

lemma with_ranges_op:
  assumes "bitfield_ok a" "bitfield_ok b"
    and "\<And>ra rb. ranges_ok ra \<Longrightarrow> ranges_ok rb \<Longrightarrow> ranges_ok (f ra rb) \<and> bits (f ra rb) = g (bits ra) (bits rb)"
    and "g (bitfield_bits a) (bitfield_bits b) \<subseteq> {..<U64_END}"
  shows "\<exists>c. with_ranges a b (\<lambda>ra rb. from_ranges (f ra rb)) = Some c \<and> bitfield_ok c \<and>
    bitfield_bits c = g (bitfield_bits a) (bitfield_bits b)"
proof -
  obtain ra rb where r: "with_ranges a b (\<lambda>ra rb. from_ranges (f ra rb)) = Some (from_ranges (f ra rb))"
    "ranges_ok ra" "ranges_ok rb" "bits ra = bitfield_bits a" "bits rb = bitfield_bits b"
    using with_ranges_Some [OF assms(1,2)] by blast
  then show ?thesis using assms(3) [OF r(2,3)] assms(4) by (simp add: from_ranges_ok)
qed

lemma bitor_ok:
  assumes "bitfield_ok a" "bitfield_ok b"
  shows "\<exists>c. bitor a b = Some c \<and> bitfield_ok c \<and> bitfield_bits c = bitfield_bits a \<union> bitfield_bits b"
  using with_ranges_op [OF assms, of range_union "(\<union>)"] bits_bound [OF assms(1)] bits_bound [OF assms(2)]
    trivially_empty [of a] trivially_empty [of b] assms union_ok
  by (auto simp: bitor_def)

lemma bitand_ok:
  assumes "bitfield_ok a" "bitfield_ok b"
  shows "\<exists>c. bitand a b = Some c \<and> bitfield_ok c \<and> bitfield_bits c = bitfield_bits a \<inter> bitfield_bits b"
  using with_ranges_op [OF assms, of range_intersection "(\<inter>)"] bits_bound [OF assms(1)]
    trivially_empty [of a] trivially_empty [of b] assms intersection_ok
  by (auto simp: bitand_def)

lemma sub_ok:
  assumes "bitfield_ok a" "bitfield_ok b"
  shows "\<exists>c. bf_sub a b = Some c \<and> bitfield_ok c \<and> bitfield_bits c = bitfield_bits a - bitfield_bits b"
  using with_ranges_op [OF assms, of range_difference "(-)"] bits_bound [OF assms(1)]
    trivially_empty [of a] trivially_empty [of b] assms difference_ok
  by (auto simp: bf_sub_def)

definition set_xor :: "nat set \<Rightarrow> nat set \<Rightarrow> nat set" where
  "set_xor A B = (A - B) \<union> (B - A)"

lemma bitxor_ok:
  assumes "bitfield_ok a" "bitfield_ok b"
  shows "\<exists>c. bitxor a b = Some c \<and> bitfield_ok c \<and> bitfield_bits c = set_xor (bitfield_bits a) (bitfield_bits b)"
  using with_ranges_op [OF assms, of range_symmetric_difference set_xor]
    bits_bound [OF assms(1)] bits_bound [OF assms(2)]
    trivially_empty [of a] trivially_empty [of b] assms symmetric_difference_ok
  by (auto simp: bitxor_def set_xor_def)

lemma cut_index_le: "cut_index B i \<le> i"
  by (simp add: cut_index_def)

lemma bf_cut_ok:
  assumes "bitfield_ok a" "bitfield_ok b"
  shows "\<exists>c. bf_cut a b = Some c \<and> bitfield_ok c \<and>
    bitfield_bits c = cut_index (bitfield_bits b) ` (bitfield_bits a - bitfield_bits b)"
proof -
  have "cut_index (bitfield_bits b) ` (bitfield_bits a - bitfield_bits b) \<subseteq> {..<U64_END}"
    using bits_bound [OF assms(1)] cut_index_le by (auto intro: le_less_trans)
  then show ?thesis
    unfolding bf_cut_def
    using cut_ok by (intro with_ranges_op [OF assms, where g = "\<lambda>A B. cut_index B ` (A - B)"]) auto
qed

lemma ok_Nil_iff: "ranges_ok rs \<Longrightarrow> rs = [] \<longleftrightarrow> bits rs = {}"
  by (cases rs) (auto simp: ranges_ok_def in_range_def set_eq_iff)

lemma ranges_unique:
  "ranges_ok a \<Longrightarrow> ranges_ok b \<Longrightarrow> bits a = bits b \<Longrightarrow> a = b"
proof (induction a arbitrary: b)
  case Nil
  then show ?case using ok_Nil_iff [of b] by simp
next
  case (Cons r rs)
  then obtain x xs where b: "b = x # xs" using ok_Nil_iff [of b] ok_Nil_iff [of "r # rs"] by (cases b) auto
  have r: "fst r < snd r" "separated (r # rs)" and x: "fst x < snd x" "separated (x # xs)"
    using Cons.prems by (auto simp: b ranges_ok_def)
  have eq: "in_range i r \<or> i \<in> bits rs \<longleftrightarrow> in_range i x \<or> i \<in> bits xs" for i
    using Cons.prems(3) by (simp add: b set_eq_iff)
  note above = separated_above [OF r(2)] separated_above [OF x(2)]
  have "fst r = fst x"
    using eq [of "fst r"] eq [of "fst x"] above [of "fst r"] above [of "fst x"] r(1) x(1) by (auto simp: in_range_def)
  moreover have "snd r = snd x"
    using eq [of "snd r"] eq [of "snd x"] above [of "snd r"] above [of "snd x"] r(1) x(1) \<open>fst r = fst x\<close>
    by (force simp: in_range_def)
  ultimately have "r = x" by (simp add: prod_eq_iff)
  moreover have "bits rs = bits xs"
  proof (rule set_eqI)
    fix i
    show "i \<in> bits rs \<longleftrightarrow> i \<in> bits xs" using eq [of i] above [of i] \<open>r = x\<close> by (auto simp: in_range_def)
  qed
  ultimately show ?case using Cons.IH [of xs] Cons.prems(1,2) by (auto simp: b ranges_ok_def dest: separated_tail)
qed

lemma bf_eq_iff:
  assumes "bitfield_ok a" "bitfield_ok b"
  shows "bf_eq a b = Some (bitfield_bits a = bitfield_bits b)"
  using with_ranges_Some [OF assms, of "(=)"] ranges_unique by (auto simp: bf_eq_def)

lemma contains_any_iff:
  assumes "bitfield_ok a" "bitfield_ok b"
  shows "contains_any a b = Some (bitfield_bits a \<inter> bitfield_bits b \<noteq> {})"
proof -
  obtain ra rb where "with_ranges a b (\<lambda>ra rb. range_intersection ra rb \<noteq> []) = Some (range_intersection ra rb \<noteq> [])"
    "ranges_ok ra" "ranges_ok rb" "bits ra = bitfield_bits a" "bits rb = bitfield_bits b"
    using with_ranges_Some [OF assms] by blast
  then show ?thesis using intersection_ok [of ra rb] ok_Nil_iff [of "range_intersection ra rb"]
      trivially_empty [of a] trivially_empty [of b]
    by (auto simp: contains_any_def)
qed

lemma contains_all_iff:
  assumes "bitfield_ok a" "bitfield_ok b"
  shows "contains_all a b = Some (bitfield_bits b \<subseteq> bitfield_bits a)"
proof -
  obtain ra rb where "with_ranges b a (\<lambda>rb ra. range_difference rb ra = []) = Some (range_difference rb ra = [])"
    "ranges_ok ra" "ranges_ok rb" "bits ra = bitfield_bits a" "bits rb = bitfield_bits b"
    using with_ranges_Some [OF assms(2,1)] by blast
  then show ?thesis using difference_ok [of rb ra] ok_Nil_iff [of "range_difference rb ra"] trivially_empty [of b]
    by (auto simp: contains_all_def)
qed

lemma union_list:
  "\<forall>bf \<in> set bfs. bitfield_ok bf \<Longrightarrow> bitfield_ok a \<Longrightarrow>
    \<exists>c. fold (\<lambda>b acc. Option.bind acc (\<lambda>a. bitor a b)) bfs (Some a) = Some c \<and> bitfield_ok c \<and>
      bitfield_bits c = bitfield_bits a \<union> (\<Union>bf \<in> set bfs. bitfield_bits bf)"
proof (induction bfs arbitrary: a)
  case (Cons bf bfs)
  then obtain c where "bitor a bf = Some c" "bitfield_ok c" "bitfield_bits c = bitfield_bits a \<union> bitfield_bits bf"
    using bitor_ok [of a bf] by auto
  then show ?case using Cons.IH [of c] Cons.prems(1) by (auto simp: Un_assoc)
qed simp


subsection \<open>Construction from bits\<close>





lemma from_iter_bool_ok:
  "if length bs > U64_END then from_iter_bool bs = Some OutOfBounds
   else \<exists>bf. from_iter_bool bs = Some (Ok bf) \<and> bitfield_ok bf \<and> bitfield_bits bf = {i. i < length bs \<and> bs ! i}"
proof -
  let ?bits = "map fst (filter snd (zip [0..<length bs] (take U64_END bs)))"
  have "sorted_wrt (<) (map fst (zip [0..<length bs] (take U64_END bs)))"
    by (simp add: map_fst_zip_take)
  then have sorted: "sorted_wrt (<) ?bits"
    by (simp add: sorted_wrt_map sorted_wrt_filter)
  have set: "set ?bits = {i. i < min (length bs) U64_END \<and> bs ! i}"
    by (force simp: set_zip)
  then have "list_all (\<lambda>x. x < U64_END) ?bits" by (simp add: list_all_iff)
  then obtain rs where rs: "ranges_from_bits ?bits = Some rs" "flat rs = ?bits" "ranges_ok rs"
    "list_all (\<lambda>r. snd r \<le> U64_END) rs"
    using ranges_from_bits_ok [OF sorted] by auto
  then have "bits rs = {i. i < min (length bs) U64_END \<and> bs ! i}" by (metis set set_flat)
  then show ?thesis using rs by (auto simp: from_iter_bool_def Let_def from_ranges_ok)
qed

subsection \<open>JSON\<close>

lemma json_round:
  "ranges_ok rs \<Longrightarrow> list_all (\<lambda>r. snd r \<le> U64_END) rs \<Longrightarrow> list_all (\<lambda>r. n \<le> fst r) rs \<Longrightarrow>
    json_ranges False n (json_runs n rs) = rs"
proof (induction rs arbitrary: n)
  case (Cons r rs)
  then have le: "n \<le> fst r" "fst r \<le> snd r" "snd r \<le> U64_END" "separated (r # rs)" by (simp_all add: ranges_ok_def)
  then have "(fst r - n + n) mod 2 ^ 64 = fst r" "(snd r - fst r + fst r) mod 2 ^ 64 = snd r" by (simp_all add: U64_END_def)
  moreover have "json_ranges False (snd r) (json_runs (snd r) rs) = rs"
    using Cons separated_later [OF le(4)] by (intro Cons.IH) (auto simp: ranges_ok_def list_all_iff order_less_imp_le dest: separated_tail)
  ultimately show ?case by (simp add: Let_def)
qed simp

subsection \<open>Properties\<close>

text \<open>A field with one range, one bit set and one bit unset, and a field of two ranges.\<close>

definition example_a :: BitField where
  "example_a = \<lparr>bf_ranges = [(2, 5)], bf_set = {7}, bf_unset = {3}\<rparr>"

definition example_b :: BitField where
  "example_b = from_ranges [(0, 3), (6, 8)]"

lemma example_ok: "bitfield_ok example_a" "bitfield_ok example_b"
  by (simp_all add: example_a_def example_b_def bitfield_ok_def ranges_ok_def U64_END_def from_ranges_def bf_new_def)

text \<open>
  C25: The operators of bit fields are the operations on sets. On two bit fields that satisfy the
  invariant, \<open>|\<close>, \<open>&\<close>, \<open>-\<close> and \<open>^\<close> never panic, return a bit field that satisfies it again and
  represent the union, intersection, difference and symmetric difference of the bits; \<open>cut\<close> returns
  the bits of the first that are not in the second, each moved down by the number of bits of the
  second below it.
\<close>

theorem bitfield_operators_refine_sets:
  assumes "bitfield_ok a" "bitfield_ok b"
  shows "(\<exists>c. bitor a b = Some c \<and> bitfield_ok c \<and> bitfield_bits c = bitfield_bits a \<union> bitfield_bits b) \<and>
    (\<exists>c. bitand a b = Some c \<and> bitfield_ok c \<and> bitfield_bits c = bitfield_bits a \<inter> bitfield_bits b) \<and>
    (\<exists>c. bf_sub a b = Some c \<and> bitfield_ok c \<and> bitfield_bits c = bitfield_bits a - bitfield_bits b) \<and>
    (\<exists>c. bitxor a b = Some c \<and> bitfield_ok c \<and> bitfield_bits c = set_xor (bitfield_bits a) (bitfield_bits b)) \<and>
    (\<exists>c. bf_cut a b = Some c \<and> bitfield_ok c \<and>
      bitfield_bits c = cut_index (bitfield_bits b) ` (bitfield_bits a - bitfield_bits b))"
  using assms by (intro conjI bitor_ok bitand_ok sub_ok bitxor_ok bf_cut_ok)

theorem bitfield_operators_refine_sets_witness:
  "\<exists>c. bitor example_a example_b = Some c \<and> bitfield_ok c \<and>
    bitfield_bits c = bitfield_bits example_a \<union> bitfield_bits example_b"
  using bitfield_operators_refine_sets [OF example_ok] by simp

text \<open>
  C26: The queries of a bit field answer for the set of its bits: \<open>get\<close> (a binary search over the ranges
  behind the two buffers) is membership, \<open>first\<close> and \<open>last\<close> are minimum and maximum, \<open>iter\<close> enumerates
  the bits in ascending order, \<open>len\<close> counts them, \<open>is_empty\<close> holds when there are none; equality,
  \<open>contains_any\<close> and \<open>contains_all\<close> are equality, overlap and inclusion of the bits.
\<close>

theorem bitfield_queries_correct:
  assumes "bitfield_ok a" "bitfield_ok b"
  shows "(get a i \<longleftrightarrow> i \<in> bitfield_bits a) \<and>
    bf_first a = bf_min (bitfield_bits a) \<and> bf_last a = bf_max (bitfield_bits a) \<and>
    bf_iter a = Some (sorted_list_of_set (bitfield_bits a)) \<and>
    bf_len a = Some (card (bitfield_bits a)) \<and>
    (bf_is_empty a \<longleftrightarrow> bitfield_bits a = {}) \<and>
    bf_eq a b = Some (bitfield_bits a = bitfield_bits b) \<and>
    contains_any a b = Some (bitfield_bits a \<inter> bitfield_bits b \<noteq> {}) \<and>
    contains_all a b = Some (bitfield_bits b \<subseteq> bitfield_bits a)"
  using assms by (intro conjI get_iff first_min last_max iter_sorted len_card is_empty_iff bf_eq_iff
    contains_any_iff contains_all_iff)

theorem bitfield_queries_correct_witness: "get example_a 4 \<and> \<not> get example_a 3"
  using bitfield_queries_correct [OF example_ok, of 4] bitfield_queries_correct [OF example_ok, of 3]
  by (simp add: example_a_def bitfield_bits_def in_range_def)



text \<open>
  The JSON form of a bit field reads back as the same bit field: on a bit field that satisfies the
  invariant, serializing never fails, and deserializing the result gives a bit field with the same
  bits that satisfies the invariant, the empty field included.
\<close>

theorem json_round_trip:
  assumes "bitfield_ok bf"
  shows "\<exists>xs. json_serialize bf = Some xs \<and> bitfield_ok (json_deserialize xs) \<and>
    bitfield_bits (json_deserialize xs) = bitfield_bits bf"
proof (cases "bf_is_empty bf")
  case True
  then show ?thesis
    using is_empty_iff [OF assms] by (simp add: json_serialize_def json_deserialize_def from_ranges_ok ranges_ok_def)
next
  case False
  obtain rs where rs: "all_ranges bf = Some rs" "ranges_ok rs" "bits rs = bitfield_bits bf"
    using all_ranges_Some [OF assms] by blast
  have "list_all (\<lambda>r. snd r \<le> U64_END) rs" "list_all (\<lambda>r. 0 \<le> fst r) rs"
    using ranges_bound [of rs U64_END] rs(2,3) bits_bound [OF assms] by (auto simp: ranges_ok_def list_all_iff)
  then have "json_deserialize (json_runs 0 rs) = from_ranges rs"
    using json_round rs(2) by (simp add: json_deserialize_def)
  then show ?thesis using rs False bits_bound [OF assms] by (simp add: json_serialize_def from_ranges_ok)
qed

theorem json_round_trip_witness:
  "\<exists>xs. json_serialize example_a = Some xs \<and> bitfield_ok (json_deserialize xs) \<and>
    bitfield_bits (json_deserialize xs) = bitfield_bits example_a"
  using json_round_trip [OF example_ok(1)] .

end
