(* ===== verification/RlePlus.thy ===== *)
theory RlePlus
  imports BitField
begin

unbundle bit_operations_syntax

text \<open>
  The RLE+ encoding of bit fields: \<open>ipld/bitfield/src/rleplus/reader.rs\<close>, \<open>writer.rs\<close> and \<open>mod.rs\<close>, and
  the bit field that is validated on first use (\<open>unvalidated.rs\<close>). Readers and writers keep their
  buffers at the width of the code. The varint encoder is the one of the \<open>unsigned_varint\<close> crate: a
  parameter, with the format it documents as hypothesis.

  A reader stands for a natural number, the bits that are still to be read with the first as least
  significant, followed by infinitely many zeros; a writer stands for the number whose bits were
  written. Run lengths are coded in such numbers by \<open>enc_len\<close>; \<open>dec_len\<close> is its inverse and what
  \<open>read_len\<close> computes.
\<close>

datatype RleError = NotMinimal | UnsupportedVersion | RLEOverflow | InvalidVarint

definition VARINT_MAX_BYTES :: nat where
  "VARINT_MAX_BYTES = 10"

definition MAX_ENCODED_SIZE :: nat where
  "MAX_ENCODED_SIZE = 32 * 2 ^ 10"

subsection \<open>The reader\<close>

record BitReader =
  br_bytes :: "u8 list"
  br_bits :: u64
  br_num_bits :: nat

definition byte_at :: "u8 list \<Rightarrow> nat \<Rightarrow> u8" where
  "byte_at bytes i = (if i < length bytes then bytes ! i else 0)"

definition reader_new :: "u8 list \<Rightarrow> RleError + BitReader" where
  "reader_new bytes =
    (if bytes \<noteq> [] \<and> last bytes = 0 then Inl NotMinimal
     else Inr \<lparr>
       br_bytes = drop 2 bytes,
       br_bits = fold (\<lambda>i bits. bits OR push_bit (8 * i) (ucast (byte_at bytes i))) [0, 1] 0,
       br_num_bits = 16\<rparr>)"

definition peek :: "BitReader \<Rightarrow> nat \<Rightarrow> u8" where
  "peek r num_bits = ucast (br_bits r AND (push_bit num_bits 1 - 1))"

definition drop_bits :: "BitReader \<Rightarrow> nat \<Rightarrow> BitReader" where
  "drop_bits r num_bits =
    (let bits = drop_bit num_bits (br_bits r);
         num = br_num_bits r - num_bits;
         bits = bits OR push_bit num (ucast (byte_at (br_bytes r) 0))
     in if num < 8 then \<lparr>br_bytes = drop 1 (br_bytes r), br_bits = bits, br_num_bits = num + 8\<rparr>
        else \<lparr>br_bytes = br_bytes r, br_bits = bits, br_num_bits = num\<rparr>)"

definition read :: "BitReader \<Rightarrow> nat \<Rightarrow> u8 \<times> BitReader" where
  "read r num_bits = (peek r num_bits, drop_bits r num_bits)"

text \<open>The loop of \<open>read_varint\<close>: \<open>n\<close> bytes are left, this one is byte \<open>i\<close>.\<close>

fun read_varint_from :: "nat \<Rightarrow> nat \<Rightarrow> u64 \<Rightarrow> BitReader \<Rightarrow> RleError + u64 \<times> BitReader" where
  "read_varint_from 0 i len r = Inl InvalidVarint"
| "read_varint_from (Suc n) i len r =
    (case read r 8 of (byte, r) \<Rightarrow>
       let len = len OR push_bit (i * 7) (ucast byte AND 0x7f)
       in if byte AND 0x80 = 0 then
            if i = 9 \<and> byte > 1 \<or> byte = 0 \<and> i \<noteq> 0 then Inl InvalidVarint else Inr (len, r)
          else read_varint_from n (i + 1) len r)"

definition read_varint :: "BitReader \<Rightarrow> RleError + u64 \<times> BitReader" where
  "read_varint r = read_varint_from VARINT_MAX_BYTES 0 0 r"

definition has_more :: "BitReader \<Rightarrow> bool" where
  "has_more r \<longleftrightarrow> br_bits r \<noteq> 0 \<or> br_bytes r \<noteq> []"

definition read_len :: "BitReader \<Rightarrow> RleError + (u64 \<times> BitReader) option" where
  "read_len r =
    (if \<not> has_more r then Inr None
     else
       let peek6 = peek r 6
       in if peek6 AND 1 \<noteq> 0 then Inr (Some (1, drop_bits r 1))
          else if peek6 AND 2 \<noteq> 0 then
            let val = ucast (drop_bit 2 peek6 AND 0x0f); r = drop_bits r 6
            in if val < 2 then Inl NotMinimal else Inr (Some (val, r))
          else
            case read_varint (drop_bits r 2) of
              Inl e \<Rightarrow> Inl e
            | Inr (val, r) \<Rightarrow> if val < 16 then Inl NotMinimal else Inr (Some (val, r)))"

subsection \<open>The writer\<close>

record BitWriter =
  bw_bytes :: "u8 list"
  bw_bits :: "16 word"
  bw_num_bits :: nat

definition writer_new :: BitWriter where
  "writer_new = \<lparr>bw_bytes = [], bw_bits = 0, bw_num_bits = 0\<rparr>"

definition write_bits :: "BitWriter \<Rightarrow> u8 \<Rightarrow> nat \<Rightarrow> BitWriter" where
  "write_bits w byte num_bits =
    (let bits = bw_bits w OR push_bit (bw_num_bits w) (ucast byte);
         num = bw_num_bits w + num_bits
     in if num \<ge> 8
        then \<lparr>bw_bytes = bw_bytes w @ [ucast bits], bw_bits = drop_bit 8 bits, bw_num_bits = num - 8\<rparr>
        else \<lparr>bw_bytes = bw_bytes w, bw_bits = bits, bw_num_bits = num\<rparr>)"

definition write_len :: "(u64 \<Rightarrow> u8 list) \<Rightarrow> BitWriter \<Rightarrow> u64 \<Rightarrow> BitWriter" where
  "write_len varint w len =
    (if len = 1 then write_bits w 1 1
     else if len < 16 then write_bits (write_bits w 2 2) (ucast len) 4
     else fold (\<lambda>byte w. write_bits w byte 8) (varint len) (write_bits w 0 2))"

definition finish :: "BitWriter \<Rightarrow> u8 list" where
  "finish w =
    (let bytes = (if bw_bits w > 0 then bw_bytes w @ [ucast (bw_bits w)] else bw_bytes w)
     in rev (dropWhile (\<lambda>b. b = 0) (rev bytes)))"

subsection \<open>Bit fields\<close>

text \<open>
  The loop of \<open>rle_from_bytes\<close>. Every length takes at least one of the bits that are left, so the number
  of bits of the input is enough fuel; running out of it would be \<open>None\<close>.
\<close>

fun read_runs :: "nat \<Rightarrow> BitReader \<Rightarrow> bool \<Rightarrow> range list \<Rightarrow> u64 \<Rightarrow> u64 \<Rightarrow> (RleError + range list) option" where
  "read_runs 0 r next_value ranges index total_len = None"
| "read_runs (Suc fuel) r next_value ranges index total_len =
    (case read_len r of
       Inl e \<Rightarrow> Some (Inl e)
     | Inr None \<Rightarrow> Some (if next_value then Inl NotMinimal else Inr ranges)
     | Inr (Some (len, r)) \<Rightarrow>
         let new_total_len = total_len + len
         in if new_total_len < total_len then Some (Inl RLEOverflow)
            else
              let end = index + len;
                  ranges = (if next_value then ranges @ [(unat index, unat end)] else ranges)
              in read_runs fuel r (\<not> next_value) ranges end new_total_len)"

definition rle_from_bytes :: "u8 list \<Rightarrow> (RleError + BitField) option" where
  "rle_from_bytes bytes =
    (case reader_new bytes of
       Inl e \<Rightarrow> Some (Inl e)
     | Inr r \<Rightarrow>
         (case read r 2 of (version, r) \<Rightarrow>
            if version \<noteq> 0 then Some (Inl UnsupportedVersion)
            else
              (case read r 1 of (first, r) \<Rightarrow>
                 map_option (map_sum id from_ranges)
                   (read_runs (8 * length bytes + 1) r (first = 1) [] 0 0))))"

fun write_ranges :: "(u64 \<Rightarrow> u8 list) \<Rightarrow> nat \<Rightarrow> range list \<Rightarrow> BitWriter \<Rightarrow> BitWriter" where
  "write_ranges varint index [] w = w"
| "write_ranges varint index (r # rs) w =
    write_ranges varint (snd r) rs
      (write_len varint (write_len varint w (of_nat (fst r - index))) (of_nat (range_size r)))"

definition ranges_to_bytes :: "(u64 \<Rightarrow> u8 list) \<Rightarrow> range list \<Rightarrow> u8 list" where
  "ranges_to_bytes varint ranges =
    (case ranges of
       [] \<Rightarrow> []
     | first_range # iter \<Rightarrow>
         let w = write_bits writer_new 0 2;
             w = (if fst first_range = 0 then write_bits w 1 1
                  else write_len varint (write_bits w 0 1) (of_nat (fst first_range)));
             w = write_len varint w (of_nat (range_size first_range))
         in finish (write_ranges varint (snd first_range) iter w))"

definition rle_to_bytes :: "(u64 \<Rightarrow> u8 list) \<Rightarrow> BitField \<Rightarrow> u8 list option" where
  "rle_to_bytes varint bf = map_option (ranges_to_bytes varint) (all_ranges bf)"

text \<open>
  What the serializer hands to \<open>strict_bytes\<close> and the deserializer makes of the bytes it gets; the
  error of a too large field is the number of its bytes.
\<close>

definition bf_serialize :: "(u64 \<Rightarrow> u8 list) \<Rightarrow> BitField \<Rightarrow> (nat + u8 list) option" where
  "bf_serialize varint bf =
    map_option (\<lambda>bytes. if length bytes > MAX_ENCODED_SIZE then Inl (length bytes) else Inr bytes) (rle_to_bytes varint bf)"

datatype de_error = TooLarge nat | Custom RleError

definition bf_deserialize :: "u8 list \<Rightarrow> (de_error + BitField) option" where
  "bf_deserialize bytes =
    (if length bytes > MAX_ENCODED_SIZE then Some (Inl (TooLarge (length bytes)))
     else map_option (map_sum Custom id) (rle_from_bytes bytes))"

subsection \<open>Validation on first use\<close>

datatype UnvalidatedBitField = Validated BitField | Unvalidated "u8 list"

text \<open>\<open>validate_mut\<close> also replaces the encoding by the decoded field; on failure it stays as it is.\<close>

definition validate_mut :: "UnvalidatedBitField \<Rightarrow> ((RleError + BitField) \<times> UnvalidatedBitField) option" where
  "validate_mut ubf =
    (case ubf of
       Validated bf \<Rightarrow> Some (Inr bf, ubf)
     | Unvalidated bytes \<Rightarrow>
         map_option (\<lambda>res. case res of Inl e \<Rightarrow> (Inl e, ubf) | Inr bf \<Rightarrow> (Inr bf, Validated bf)) (rle_from_bytes bytes))"

definition try_from_unvalidated :: "UnvalidatedBitField \<Rightarrow> (RleError + BitField) option" where
  "try_from_unvalidated ubf =
    (case ubf of Validated bf \<Rightarrow> Some (Inr bf) | Unvalidated bytes \<Rightarrow> rle_from_bytes bytes)"

definition unvalidated_deserialize :: "u8 list \<Rightarrow> nat + UnvalidatedBitField" where
  "unvalidated_deserialize bytes =
    (if length bytes > MAX_ENCODED_SIZE then Inl (length bytes) else Inr (Unvalidated bytes))"

subsection \<open>Numbers of bytes\<close>

fun bytes_value :: "u8 list \<Rightarrow> nat" where
  "bytes_value [] = 0"
| "bytes_value (b # bs) = unat b + 256 * bytes_value bs"

lemma byte_bound: "unat (b :: u8) < 256"
  using unsigned_less [of b] by simp

lemma le_bound: "bytes_value bs < 256 ^ length bs"
proof (induction bs)
  case (Cons b bs)
  then show ?case using byte_bound [of b] by simp
qed simp

lemma le_append: "bytes_value (xs @ ys) = bytes_value xs + 256 ^ length xs * bytes_value ys"
  by (induction xs) (simp_all add: algebra_simps)

lemma le_zero: "bytes_value bs = 0 \<longleftrightarrow> (\<forall>b \<in> set bs. b = 0)"
  by (induction bs) (auto simp: unat_eq_0)

lemma le_hd: "bs \<noteq> [] \<Longrightarrow> bytes_value bs = unat (hd bs) + 256 * bytes_value (tl bs)"
  by (cases bs) simp_all

text \<open>Without trailing zero bytes the number determines the bytes.\<close>

definition no_trailing :: "u8 list \<Rightarrow> bool" where
  "no_trailing bs \<longleftrightarrow> (bs \<noteq> [] \<longrightarrow> last bs \<noteq> 0)"

lemma no_trailing_zero: "no_trailing bs \<Longrightarrow> bytes_value bs = 0 \<longleftrightarrow> bs = []"
  by (cases "bs = []") (auto simp: no_trailing_def le_zero dest: last_in_set)

lemma no_trailing_tl: "no_trailing (b # bs) \<Longrightarrow> no_trailing bs"
  by (auto simp: no_trailing_def split: if_splits)

lemma le_inject: "no_trailing a \<Longrightarrow> no_trailing b \<Longrightarrow> bytes_value a = bytes_value b \<Longrightarrow> a = b"
proof (induction a arbitrary: b)
  case Nil
  then show ?case using no_trailing_zero [of b] by simp
next
  case (Cons x xs)
  then obtain y ys where b: "b = y # ys" using no_trailing_zero [of "x # xs"] by (cases b) auto
  have "unat x = bytes_value (x # xs) mod 256" "unat y = bytes_value (y # ys) mod 256"
    "bytes_value xs = bytes_value (x # xs) div 256" "bytes_value ys = bytes_value (y # ys) div 256"
    using byte_bound [of x] byte_bound [of y] by simp_all
  then have "unat x = unat y" "bytes_value xs = bytes_value ys" using Cons.prems(3) by (simp_all only: b)
  then show ?case using Cons.IH [of ys] Cons.prems(1,2) by (auto simp: b dest: no_trailing_tl unsigned_word_eqI)
qed

lemma trim_value:
  "no_trailing (rev (dropWhile (\<lambda>b. b = 0) (rev bs)))" "bytes_value (rev (dropWhile (\<lambda>b. b = 0) (rev bs))) = bytes_value bs"
proof -
  show "bytes_value (rev (dropWhile (\<lambda>b. b = 0) (rev bs))) = bytes_value bs"
    by (induction bs rule: rev_induct) (auto simp: le_append)
  show "no_trailing (rev (dropWhile (\<lambda>b. b = 0) (rev bs)))"
    using hd_dropWhile [of "\<lambda>b. b = 0" "rev bs"] by (auto simp: no_trailing_def last_rev)
qed

subsection \<open>Disjunction of numbers\<close>

lemma or_shift_nat:
  fixes x b :: nat
  shows "(x OR 2 ^ k * b) mod 2 ^ k = x mod 2 ^ k" "(x OR 2 ^ k * b) div 2 ^ k = (x div 2 ^ k) OR b"
proof -
  show "(x OR 2 ^ k * b) mod 2 ^ k = x mod 2 ^ k"
    using take_bit_or [of k x "2 ^ k * b"] by (simp add: take_bit_eq_mod)
  show "(x OR 2 ^ k * b) div 2 ^ k = (x div 2 ^ k) OR b"
    using drop_bit_or [of k x "2 ^ k * b"] by (simp add: drop_bit_eq_div)
qed

lemma or_add_nat:
  fixes x b :: nat
  assumes "x < 2 ^ k"
  shows "x OR 2 ^ k * b = x + 2 ^ k * b"
proof -
  have "x OR 2 ^ k * b = (x OR 2 ^ k * b) mod 2 ^ k + 2 ^ k * ((x OR 2 ^ k * b) div 2 ^ k)" by simp
  then show ?thesis using assms by (simp only: or_shift_nat) simp
qed

lemma unat_push:
  fixes b :: "'a::len word"
  assumes "2 ^ k * unat b < 2 ^ LENGTH('b)"
  shows "unat (push_bit k (ucast b :: 'b::len word)) = 2 ^ k * unat b"
proof -
  have "unat b \<le> 2 ^ k * unat b" by simp
  with assms have "unat b < 2 ^ LENGTH('b)" by (rule le_less_trans [rotated])
  then have "unat (ucast b :: 'b word) = unat b" by (simp add: unsigned_ucast_eq take_bit_nat_eq_self)
  then have "unat (push_bit k (ucast b :: 'b word)) = take_bit LENGTH('b) (push_bit k (unat b))"
    by (simp only: unsigned_push_bit_eq)
  then show ?thesis using assms by (simp add: take_bit_nat_eq_self push_bit_eq_mult mult.commute)
qed

subsection \<open>What a reader stands for\<close>

definition reader_value :: "BitReader \<Rightarrow> nat" where
  "reader_value r = unat (br_bits r) mod 2 ^ br_num_bits r + 2 ^ br_num_bits r * bytes_value (br_bytes r)"

definition reader_ok :: "BitReader \<Rightarrow> bool" where
  "reader_ok r \<longleftrightarrow> 8 \<le> br_num_bits r \<and> br_num_bits r \<le> 16 \<and> no_trailing (br_bytes r) \<and>
    unat (br_bits r) div 2 ^ br_num_bits r \<in> {0, unat (byte_at (br_bytes r) 0)}"

lemma byte_at_value: "bytes_value bs = unat (byte_at bs 0) + 256 * bytes_value (drop 1 bs)"
  by (cases bs) (simp_all add: byte_at_def)

lemma byte_at_drop [simp]: "byte_at (drop n bs) i = byte_at bs (n + i)"
  by (auto simp: byte_at_def)

lemma drop2: "drop (Suc (Suc 0)) xs = drop 2 xs"
  by (simp add: numeral_2_eq_2)

lemma no_trailing_drop: "no_trailing bs \<Longrightarrow> no_trailing (drop n bs)"
  by (auto simp: no_trailing_def)

lemma reader_new_ok:
  assumes "no_trailing bytes"
  shows "\<exists>r. reader_new bytes = Inr r \<and> reader_ok r \<and> reader_value r = bytes_value bytes"
proof -
  let ?bits = "fold (\<lambda>i bits. bits OR push_bit (8 * i) (ucast (byte_at bytes i))) [0, 1] (0 :: u64)"
  let ?b0 = "byte_at bytes 0" and ?b1 = "byte_at bytes 1"
  have "unat ?bits = unat ?b0 OR unat (push_bit 8 (ucast ?b1 :: u64))"
    by (simp add: unsigned_or_eq unsigned_ucast_eq take_bit_nat_eq_self byte_bound [THEN less_trans])
  also have "unat (push_bit 8 (ucast ?b1 :: u64)) = 2 ^ 8 * unat ?b1"
    using byte_bound [of ?b1] by (intro unat_push) simp
  finally have bits: "unat ?bits = unat ?b0 + 256 * unat ?b1"
    using or_add_nat [of "unat ?b0" 8] byte_bound [of ?b0] by simp
  have "unat ?bits < 2 ^ 16" unfolding bits using byte_bound [of ?b0] byte_bound [of ?b1] by simp
  moreover have "bytes_value bytes = unat ?b0 + 256 * unat ?b1 + 2 ^ 16 * bytes_value (drop 2 bytes)"
    using byte_at_value [of bytes] byte_at_value [of "drop 1 bytes"] by (simp add: drop2)
  ultimately show ?thesis
    using assms bits by (simp add: reader_new_def reader_ok_def reader_value_def no_trailing_drop) (auto simp: no_trailing_def)
qed

lemma peek_value:
  assumes "reader_ok r" "n \<le> 8"
  shows "unat (peek r n) = reader_value r mod 2 ^ n"
proof -
  have "push_bit n 1 - 1 = (mask n :: u64)" by (simp add: mask_eq_exp_minus_1 push_bit_eq_mult)
  then have "unat (peek r n) = take_bit 8 (take_bit n (unat (br_bits r)))"
    by (simp add: peek_def unsigned_ucast_eq unsigned_take_bit_eq min.commute flip: take_bit_eq_mask)
  also have "\<dots> = unat (br_bits r) mod 2 ^ n" using assms(2) by (simp add: min_def flip: take_bit_eq_mod)
  also have "\<dots> = reader_value r mod 2 ^ n"
  proof -
    have "2 ^ n dvd (2 :: nat) ^ br_num_bits r" using assms by (intro le_imp_power_dvd) (simp add: reader_ok_def)
    then obtain c where c: "(2 :: nat) ^ br_num_bits r = 2 ^ n * c" by (elim dvdE)
    then have "reader_value r mod 2 ^ n = (unat (br_bits r) mod (2 ^ n * c)) mod 2 ^ n"
      by (simp add: reader_value_def mult.assoc)
    then show ?thesis by (simp add: mod_mod_cancel)
  qed
  finally show ?thesis .
qed

lemma take64: "take_bit 64 (unat (w :: u64)) = unat w"
  by (rule take_bit_nat_eq_self) (rule order_less_le_trans [OF unsigned_less], simp)

lemma drop_value:
  assumes "reader_ok r" "n \<le> 8"
  shows "reader_ok (drop_bits r n)" "reader_value (drop_bits r n) = reader_value r div 2 ^ n"
proof -
  define x where "x = unat (br_bits r)"
  define m where "m = br_num_bits r"
  define k where "k = m - n"
  define b where "b = unat (byte_at (br_bytes r) 0)"
  have m: "8 \<le> m" "m \<le> 16" "n + k = m" "x div 2 ^ m \<in> {0, b}" "b < 256"
    using assms byte_bound by (auto simp: reader_ok_def m_def k_def x_def b_def)
  let ?bits = "drop_bit n (br_bits r) OR push_bit k (ucast (byte_at (br_bytes r) 0))"
  have "2 ^ k \<le> (2 :: nat) ^ 16" using m by (intro power_increasing) auto
  with m(5) have "2 ^ k * b < 2 ^ 16 * 256" by (intro mult_le_less_imp_less) auto
  then have "unat (push_bit k (ucast (byte_at (br_bytes r) 0) :: u64)) = 2 ^ k * b"
    unfolding b_def by (intro unat_push) simp
  then have bits: "unat ?bits = x div 2 ^ n OR 2 ^ k * b"
    by (simp add: unsigned_or_eq unsigned_drop_bit_eq x_def take64 flip: drop_bit_eq_div)
  have split: "(2 :: nat) ^ m = 2 ^ n * 2 ^ k" using m(3) by (simp flip: power_add)
  have low: "unat ?bits mod 2 ^ k = x mod 2 ^ m div 2 ^ n"
    by (simp add: bits or_shift_nat split mod_mult2_eq)
  have "x div 2 ^ n div 2 ^ k = x div 2 ^ m" by (simp add: split div_mult2_eq)
  then have high: "unat ?bits div 2 ^ k = b" using m(4) by (auto simp: bits or_shift_nat)
  have val: "reader_value r div 2 ^ n = x mod 2 ^ m div 2 ^ n + 2 ^ k * bytes_value (br_bytes r)"
    by (simp add: reader_value_def split mult.assoc flip: x_def m_def)
  have tl: "bytes_value (br_bytes r) = b + 256 * bytes_value (drop 1 (br_bytes r))" unfolding b_def by (rule byte_at_value)
  have all: "unat ?bits = x mod 2 ^ m div 2 ^ n + 2 ^ k * b"
    using mod_mult_div_eq [of "unat ?bits" "2 ^ k"] unfolding low high by (rule sym)
  have step: "drop_bits r n =
      (if k < 8 then \<lparr>br_bytes = drop 1 (br_bytes r), br_bits = ?bits, br_num_bits = k + 8\<rparr>
       else \<lparr>br_bytes = br_bytes r, br_bits = ?bits, br_num_bits = k\<rparr>)"
    by (simp add: drop_bits_def Let_def k_def m_def)
  have nt: "no_trailing (br_bytes r)" using assms(1) by (simp add: reader_ok_def)
  have "x mod 2 ^ m div 2 ^ n < 2 ^ k" by (intro less_mult_imp_div_less) (simp add: split mult.commute)
  with m(5) have "x mod 2 ^ m div 2 ^ n + 2 ^ k * b < 2 ^ k + 2 ^ k * 255" by (intro add_less_le_mono mult_le_mono) auto
  then have small: "unat ?bits < 2 ^ (k + 8)" unfolding all by (simp add: power_add)
  show "reader_ok (drop_bits r n)"
    using m small high nt no_trailing_drop [OF nt, of 1] by (auto simp: step reader_ok_def b_def)
  show "reader_value (drop_bits r n) = reader_value r div 2 ^ n"
  proof (cases "k < 8")
    case True
    then have "reader_value (drop_bits r n) = unat ?bits + 2 ^ (k + 8) * bytes_value (drop 1 (br_bytes r))"
      using small by (simp add: step reader_value_def)
    also have "\<dots> = reader_value r div 2 ^ n" unfolding all val tl by (simp add: power_add algebra_simps)
    finally show ?thesis .
  next
    case False
    then show ?thesis unfolding val by (simp add: step reader_value_def low)
  qed
qed

lemma has_more_iff:
  assumes "reader_ok r"
  shows "has_more r \<longleftrightarrow> reader_value r \<noteq> 0"
proof (cases "br_bytes r = []")
  case True
  then have "unat (br_bits r) div 2 ^ br_num_bits r = 0" using assms by (auto simp: reader_ok_def byte_at_def)
  then have "reader_value r = unat (br_bits r)"
    using True mult_div_mod_eq [of "2 ^ br_num_bits r" "unat (br_bits r)"] by (simp add: reader_value_def)
  then show ?thesis using True by (simp add: has_more_def unat_eq_0)
next
  case False
  then have "bytes_value (br_bytes r) \<noteq> 0" using assms no_trailing_zero by (auto simp: reader_ok_def)
  then show ?thesis using False by (simp add: has_more_def reader_value_def)
qed

subsection \<open>Run lengths in numbers\<close>

text \<open>
  \<open>enc_len l rest\<close> is the number whose low bits encode the length \<open>l\<close> and whose other bits are \<open>rest\<close>.
\<close>

function enc_varint :: "nat \<Rightarrow> nat \<Rightarrow> nat" where
  "enc_varint n rest = (if n < 128 then n + 256 * rest else (n mod 128 + 128) + 256 * enc_varint (n div 128) rest)"
  by pat_completeness auto
termination
  by (relation "measure fst") auto

declare enc_varint.simps [simp del]

definition enc_len :: "nat \<Rightarrow> nat \<Rightarrow> nat" where
  "enc_len l rest =
    (if l = 1 then 1 + 2 * rest
     else if l < 16 then 2 + 4 * (l + 16 * rest)
     else 4 * enc_varint l rest)"

fun dec_varint :: "nat \<Rightarrow> bool \<Rightarrow> nat \<Rightarrow> (nat \<times> nat) option" where
  "dec_varint 0 first v = None"
| "dec_varint (Suc k) first v =
    (let byte = v mod 256; rest = v div 256
     in if byte < 128 then
          if k = 0 \<and> byte > 1 \<or> byte = 0 \<and> \<not> first then None else Some (byte, rest)
        else map_option (\<lambda>(n, rest). (byte - 128 + 128 * n, rest)) (dec_varint k False rest))"

definition dec_len :: "nat \<Rightarrow> RleError + (nat \<times> nat) option" where
  "dec_len v =
    (if v = 0 then Inr None
     else if v mod 2 = 1 then Inr (Some (1, v div 2))
     else if v mod 4 = 2 then
       let l = v div 4 mod 16 in if l < 2 then Inl NotMinimal else Inr (Some (l, v div 64))
     else
       case dec_varint 10 True (v div 4) of
         None \<Rightarrow> Inl InvalidVarint
       | Some (l, rest) \<Rightarrow> if l < 16 then Inl NotMinimal else Inr (Some (l, rest)))"

lemma dec_varint_enc:
  "n < 2 ^ (7 * k + 1) \<Longrightarrow> first \<or> 0 < n \<Longrightarrow> dec_varint (Suc k) first (enc_varint n rest) = Some (n, rest)"
proof (induction k arbitrary: n first)
  case 0
  then show ?case by (subst enc_varint.simps) auto
next
  case (Suc k)
  show ?case
  proof (cases "n < 128")
    case True
    then show ?thesis using Suc.prems by (subst enc_varint.simps) (auto simp: Let_def)
  next
    case False
    then have "n div 128 < 2 ^ (7 * k + 1)" "0 < n div 128"
      using Suc.prems(1) by (auto simp: power_add less_mult_imp_div_less)
    then have "dec_varint (Suc k) False (enc_varint (n div 128) rest) = Some (n div 128, rest)"
      using Suc.IH by blast
    moreover have "enc_varint n rest mod 256 = n mod 128 + 128" "enc_varint n rest div 256 = enc_varint (n div 128) rest"
      using False by (subst enc_varint.simps; simp)+
    ultimately show ?thesis by (simp del: dec_varint.simps add: dec_varint.simps(2) [of "Suc k"] Let_def)
  qed
qed

lemma enc_varint_dec:
  "dec_varint k first v = Some (n, rest) \<Longrightarrow> v = enc_varint n rest \<and> n < 2 ^ (7 * (k - 1) + 1) \<and> (first \<or> 0 < n)"
proof (induction k arbitrary: first v n)
  case (Suc k)
  show ?case
  proof (cases "v mod 256 < 128")
    case True
    then have n: "n = v mod 256" "rest = v div 256" "\<not> (k = 0 \<and> n > 1)" "n = 0 \<longrightarrow> first"
      using Suc.prems by (auto simp: Let_def split: if_splits)
    have "n < 2 ^ (7 * k + 1)" using n(3) True n(1)
      by (cases k) (auto simp: power_add intro: less_le_trans)
    then show ?thesis using True n by (subst enc_varint.simps) auto
  next
    case False
    then obtain m where m: "dec_varint k False (v div 256) = Some (m, rest)" "n = v mod 256 - 128 + 128 * m"
      using Suc.prems by (auto simp: Let_def)
    then have ih: "v div 256 = enc_varint m rest" "m < 2 ^ (7 * (k - 1) + 1)" "0 < m" using Suc.IH by blast+
    have b: "v mod 256 - 128 < 128" by simp
    then have "n div 128 = m" "n mod 128 = v mod 256 - 128" "\<not> n < 128" using m(2) ih(3) by auto
    moreover have "k \<noteq> 0" using m(1) by (cases k) auto
    then have "n < 2 ^ (7 * k + 1)" using m(2) ih(2) b by (cases k) (auto simp: power_add)
    moreover have "v = v mod 256 + 256 * (v div 256)" by simp
    ultimately show ?thesis using False ih(1) by (subst enc_varint.simps) simp
  qed
qed simp

lemma ten: "(10 :: nat) = Suc 9"
  by simp

lemma dec_enc: "0 < l \<Longrightarrow> l < 2 ^ 64 \<Longrightarrow> dec_len (enc_len l rest) = Inr (Some (l, rest))"
proof -
  assume l: "0 < l" "l < 2 ^ 64"
  consider "l = 1" | "l \<noteq> 1" "l < 16" | "l \<ge> 16" by linarith
  then show ?thesis
  proof cases
    case 1
    then show ?thesis by (simp add: enc_len_def dec_len_def)
  next
    case 2
    have "(2 + 4 * (l + 16 * rest)) mod 4 = 2" "(2 + 4 * (l + 16 * rest)) mod 2 = 0" "(2 + 4 * (l + 16 * rest)) div 4 = l + 16 * rest"
      "(2 + 4 * (l + 16 * rest)) div 64 = rest"
      using 2 by presburger+
    then show ?thesis using 2 l(1) by (simp add: enc_len_def dec_len_def Let_def)
  next
    case 3
    have "enc_varint l rest \<noteq> 0" using 3 by (subst enc_varint.simps) simp
    moreover have "dec_varint 10 True (enc_varint l rest) = Some (l, rest)"
      using dec_varint_enc [of l 9 True rest] l(2) by (simp only: ten) simp
    ultimately show ?thesis using 3 by (simp add: enc_len_def dec_len_def)
  qed
qed

lemma enc_dec:
  assumes "dec_len v = Inr (Some (l, rest))"
  shows "v = enc_len l rest" "0 < l" "l < 2 ^ 64"
proof -
  have "v = enc_len l rest \<and> 0 < l \<and> l < 2 ^ 64"
  proof -
    consider "v mod 2 = 1" | "v mod 2 \<noteq> 1" "v mod 4 = 2" | "v mod 2 \<noteq> 1" "v mod 4 \<noteq> 2" by blast
    then show ?thesis
  proof cases
    case 1
    then have "v = 1 + 2 * (v div 2)" by presburger
    then show ?thesis using assms 1 by (auto simp: dec_len_def enc_len_def split: if_splits)
  next
    case 2
    have "v = 2 + 4 * (v div 4)" using 2(2) by presburger
    moreover have "v div 4 = v div 4 mod 16 + 16 * (v div 64)"
      using mod_mult_div_eq [of "v div 4" 16] div_mult2_eq [of v 4 16] by simp
    ultimately have "v = 2 + 4 * (v div 4 mod 16 + 16 * (v div 64))" by simp
    moreover have "l = v div 4 mod 16" "rest = v div 64" "2 \<le> v div 4 mod 16"
      using assms 2 by (auto simp: dec_len_def Let_def split: if_splits)
    moreover have "v div 4 mod 16 < 16" by simp
    then have "v div 4 mod 16 < 2 ^ 64" by (rule less_le_trans) simp
    ultimately show ?thesis by (simp add: enc_len_def)
  next
    case 3
    note False = 3
    then have v: "v = 4 * (v div 4)" by presburger
    obtain "dec_varint 10 True (v div 4) = Some (l, rest)" "16 \<le> l"
      using assms False by (auto simp: dec_len_def split: if_splits option.splits)
    then show ?thesis using enc_varint_dec [of 10 True "v div 4" l rest] v by (simp add: enc_len_def)
  qed
  qed
  then show "v = enc_len l rest" "0 < l" "l < 2 ^ 64" by simp_all
qed

lemma enc_varint_ge: "0 < n \<Longrightarrow> 0 < enc_varint n rest \<and> rest \<le> enc_varint n rest"
proof (induction n rest rule: enc_varint.induct)
  case (1 n rest)
  show ?case
  proof (cases "n < 128")
    case False
    then have "rest \<le> enc_varint (n div 128) rest" using 1 by simp
    with False show ?thesis by (subst (1 2) enc_varint.simps) simp
  qed (use 1 in \<open>subst (1 2) enc_varint.simps, simp\<close>)
qed

lemma enc_len_ge: "0 < l \<Longrightarrow> 0 < enc_len l rest \<and> 2 * rest \<le> enc_len l rest"
  using enc_varint_ge [of l rest] by (auto simp: enc_len_def)

lemma dec_len_less: "dec_len v = Inr (Some (l, rest)) \<Longrightarrow> 0 < v \<and> 2 * rest \<le> v"
  using enc_dec [of v l rest] enc_len_ge [of l rest] by simp
subsection \<open>The reader computes \<open>dec_len\<close>\<close>

lemma byte_and:
  "unat (b AND 0x7f :: u8) = unat b mod 128" "b AND 0x80 = 0 \<longleftrightarrow> unat (b :: u8) < 128"
proof -
  have "unat (b AND mask 7) = take_bit 7 (unat b)" by (simp add: unsigned_take_bit_eq flip: take_bit_eq_mask)
  then show "unat (b AND 0x7f) = unat b mod 128" by (simp add: mask_eq_exp_minus_1 take_bit_eq_mod)
  have "b AND 0x80 = 0 \<longleftrightarrow> \<not> bit b 7"
    using and_exp_eq_0_iff_not_bit [of b 7] by simp
  also have "\<dots> \<longleftrightarrow> \<not> bit (unat b) 7" by (simp add: bit_unsigned_iff)
  also have "\<dots> \<longleftrightarrow> unat b < 128"
  proof (cases "unat b < 128")
    case False
    then have "unat b div 128 = 1" using byte_bound [of b] by (intro div_nat_eqI) auto
    then show ?thesis using False by (simp add: bit_iff_odd)
  qed (simp add: bit_iff_odd)
  finally show "b AND 0x80 = 0 \<longleftrightarrow> unat b < 128" .
qed

lemma unat_ucast_and:
  "unat (ucast (b :: u8) AND 0x7f :: u64) = unat b mod 128"
proof -
  have "unat (ucast b AND mask 7 :: u64) = take_bit 7 (unat b)"
    by (simp add: unsigned_take_bit_eq unsigned_ucast_eq flip: take_bit_eq_mask)
  then show ?thesis by (simp add: mask_eq_exp_minus_1 take_bit_eq_mod)
qed

lemma varint_acc:
  fixes len x :: u64
  assumes "unat len < 2 ^ k" "2 ^ k * unat x < 2 ^ 64"
  shows "unat (len OR push_bit k x) = unat len + 2 ^ k * unat x"
proof -
  have "unat (push_bit k (ucast x :: u64)) = 2 ^ k * unat x" using assms(2) by (intro unat_push) simp
  then show ?thesis using or_add_nat [OF assms(1)] by (simp add: unsigned_or_eq)
qed

lemma read_varint_value:
  "reader_ok r \<Longrightarrow> i + k = 10 \<Longrightarrow> unat len < 2 ^ (i * 7) \<Longrightarrow>
    (case dec_varint k (i = 0) (reader_value r) of
       None \<Rightarrow> read_varint_from k i len r = Inl InvalidVarint
     | Some (n, rest) \<Rightarrow> \<exists>r' len'. read_varint_from k i len r = Inr (len', r') \<and> reader_ok r' \<and> reader_value r' = rest \<and>
         unat len' = unat len + 2 ^ (i * 7) * n)"
proof (induction k arbitrary: i len r)
  case (Suc k)
  let ?byte = "peek r 8" and ?r = "drop_bits r 8"
  define len1 where "len1 = len OR push_bit (i * 7) (ucast ?byte AND 0x7f)"
  have byte: "unat ?byte = reader_value r mod 256" and r: "reader_ok ?r" "reader_value ?r = reader_value r div 256"
    using peek_value [OF Suc.prems(1), of 8] drop_value [OF Suc.prems(1), of 8] by simp_all
  have run: "read_varint_from (Suc k) i len r =
      (if unat ?byte < 128 then
         if i = 9 \<and> unat ?byte > 1 \<or> unat ?byte = 0 \<and> i \<noteq> 0 then Inl InvalidVarint else Inr (len1, ?r)
       else read_varint_from k (i + 1) len1 ?r)"
    by (simp add: read_def Let_def byte_and(2) word_less_nat_alt unat_eq_0 len1_def)
  have k: "k = 0 \<longleftrightarrow> i = 9" using Suc.prems(2) by auto
  have acc: "unat len1 = unat len + 2 ^ (i * 7) * (unat ?byte mod 128)" if "i = 9 \<longrightarrow> unat ?byte mod 128 \<le> 1"
  proof -
    have "2 ^ (i * 7) * (unat ?byte mod 128) < 2 ^ 64"
    proof (cases "i = 9")
      case True
      then have "2 ^ (i * 7) * (unat ?byte mod 128) \<le> 2 ^ 63 * 1" using that by (intro mult_le_mono) auto
      then show ?thesis by simp
    next
      case False
      then have "i * 7 \<le> 56" using Suc.prems(2) by simp
      then have "2 ^ (i * 7) \<le> (2 :: nat) ^ 56" by (intro power_increasing) auto
      then have "2 ^ (i * 7) * (unat ?byte mod 128) \<le> 2 ^ 56 * 127" by (intro mult_le_mono) auto
      then show ?thesis by simp
    qed
    then show ?thesis using varint_acc [OF Suc.prems(3), of "ucast ?byte AND 0x7f"] unfolding len1_def unat_ucast_and by blast
  qed
  show ?case
  proof (cases "unat ?byte < 128")
    case True
    then show ?thesis using acc k r byte unfolding run by (auto simp: Let_def not_less)
  next
    case False
    note big = False
    show ?thesis
    proof (cases "k = 0")
      case True
      then show ?thesis using big unfolding run by (simp add: byte [symmetric] Let_def)
    next
      case False
      then have len: "unat len1 = unat len + 2 ^ (i * 7) * (unat ?byte mod 128)" using acc k by simp
      have m: "unat ?byte mod 128 = unat ?byte - 128" using big byte_bound [of ?byte] by (simp add: mod_if)
      have "unat ?byte mod 128 \<le> 127" by simp
      then have "unat len + 2 ^ (i * 7) * (unat ?byte mod 128) < 2 ^ (i * 7) + 2 ^ (i * 7) * 127"
        using Suc.prems(3) by (intro add_less_le_mono mult_le_mono) auto
      then have "unat len1 < 2 ^ ((i + 1) * 7)" unfolding len by (simp add: power_add)
      then have ih: "case dec_varint k False (reader_value r div 256) of
          None \<Rightarrow> read_varint_from k (i + 1) len1 ?r = Inl InvalidVarint
        | Some (n, rest) \<Rightarrow> \<exists>r' len'. read_varint_from k (i + 1) len1 ?r = Inr (len', r') \<and> reader_ok r' \<and>
            reader_value r' = rest \<and> unat len' = unat len1 + 2 ^ ((i + 1) * 7) * n"
        using Suc.IH [OF r(1), of "i + 1" len1] Suc.prems(2) r(2) by simp
      have pw: "2 ^ ((i + 1) * 7) * n = 2 ^ (i * 7) * (128 * n)" for n :: nat by (simp add: power_add)
      show ?thesis
      proof (cases "dec_varint k False (reader_value r div 256)")
        case None
        then show ?thesis using ih big unfolding run by (simp add: byte [symmetric] Let_def)
      next
        case (Some p)
        then obtain n rest r' len' where "p = (n, rest)" "read_varint_from k (i + 1) len1 ?r = Inr (len', r')"
          "reader_ok r'" "reader_value r' = rest" "unat len' = unat len1 + 2 ^ ((i + 1) * 7) * n"
          using ih by (cases p) auto
        then show ?thesis using big Some unfolding run
          by (simp add: byte [symmetric] Let_def len pw m [symmetric] distrib_left power_add)
      qed
    qed
  qed
qed simp


lemma take16: "take_bit 16 (unat (w :: 16 word)) = unat w"
  by (rule take_bit_nat_eq_self) (rule order_less_le_trans [OF unsigned_less], simp)

lemma take8: "take_bit 8 (unat (w :: u8)) = unat w"
  by (rule take_bit_nat_eq_self) (rule order_less_le_trans [OF unsigned_less], simp)

lemma read_len_value:
  assumes "reader_ok r"
  shows "case dec_len (reader_value r) of
      Inl e \<Rightarrow> read_len r = Inl e
    | Inr None \<Rightarrow> read_len r = Inr None
    | Inr (Some (l, rest)) \<Rightarrow> \<exists>r' len. read_len r = Inr (Some (len, r')) \<and> reader_ok r' \<and> reader_value r' = rest \<and> unat len = l"
proof -
  let ?v = "reader_value r" and ?p = "peek r 6"
  have p: "unat ?p = ?v mod 64" using peek_value [OF assms, of 6] by simp
  have odd: "?p AND 1 \<noteq> 0 \<longleftrightarrow> ?v mod 2 = 1"
  proof -
    have "?p AND 1 \<noteq> 0 \<longleftrightarrow> bit (unat ?p) 0"
      using and_exp_eq_0_iff_not_bit [of ?p 0] by (simp add: bit_unsigned_iff)
    then show ?thesis unfolding p by (simp add: bit_0) presburger
  qed
  have two: "?p AND 2 \<noteq> 0 \<longleftrightarrow> ?v div 2 mod 2 = 1"
  proof -
    have "?p AND 2 \<noteq> 0 \<longleftrightarrow> bit (unat ?p) 1"
      using and_exp_eq_0_iff_not_bit [of ?p 1] by (simp add: bit_unsigned_iff)
    moreover have "?v mod 64 div 2 mod 2 = ?v div 2 mod 2"
      using mod_mult2_eq [of ?v 2 32] by (simp add: mod_mod_cancel)
    ultimately show ?thesis unfolding p by (simp add: bit_iff_odd odd_iff_mod_2_eq_one)
  qed
  have short: "unat (ucast (drop_bit 2 ?p AND 0x0f) :: u64) = ?v div 4 mod 16"
  proof -
    have "unat (drop_bit 2 ?p AND mask 4) = take_bit 4 (drop_bit 2 (unat ?p))"
      by (simp add: unsigned_take_bit_eq unsigned_drop_bit_eq take8 flip: take_bit_eq_mask)
    then have "unat (drop_bit 2 ?p AND 0x0f) = ?v mod 64 div 4 mod 16"
      by (simp add: p mask_eq_exp_minus_1 take_bit_eq_mod drop_bit_eq_div)
    also have "\<dots> = ?v div 4 mod 16" using mod_mult2_eq [of ?v 4 16] by simp
    finally show ?thesis by (simp add: unsigned_ucast_eq take_bit_nat_eq_self)
  qed
  have more: "has_more r \<longleftrightarrow> ?v \<noteq> 0" by (rule has_more_iff [OF assms])
  consider "?v = 0" | "?v \<noteq> 0" "?v mod 2 = 1" | "?v \<noteq> 0" "?v mod 2 \<noteq> 1" "?v div 2 mod 2 = 1"
    | "?v \<noteq> 0" "?v mod 2 \<noteq> 1" "?v div 2 mod 2 \<noteq> 1" by blast
  then show ?thesis
  proof cases
    case 1
    then show ?thesis using more by (simp add: read_len_def dec_len_def)
  next
    case 2
    then show ?thesis using more odd drop_value [OF assms, of 1] by (simp add: read_len_def dec_len_def Let_def)
  next
    case 3
    then have "?v mod 4 = 2" by presburger
    then show ?thesis using 3 more odd two short drop_value [OF assms, of 6]
      by (simp add: read_len_def dec_len_def Let_def word_less_nat_alt)
  next
    case 4
    then have m: "?v mod 4 \<noteq> 2" by presburger
    have "case dec_varint 10 True (?v div 4) of
        None \<Rightarrow> read_varint (drop_bits r 2) = Inl InvalidVarint
      | Some (n, rest) \<Rightarrow> \<exists>r' len. read_varint (drop_bits r 2) = Inr (len, r') \<and> reader_ok r' \<and> reader_value r' = rest \<and> unat len = n"
      using read_varint_value [of "drop_bits r 2" 0 10 0] drop_value [OF assms, of 2]
      by (auto simp: read_varint_def VARINT_MAX_BYTES_def split: option.splits)
    then show ?thesis using 4 m more odd two
      by (auto simp: read_len_def dec_len_def Let_def word_less_nat_alt split: option.splits)
  qed
qed
subsection \<open>What a writer stands for\<close>

definition writer_value :: "BitWriter \<Rightarrow> nat" where
  "writer_value w = bytes_value (bw_bytes w) + 256 ^ length (bw_bytes w) * unat (bw_bits w)"

definition writer_len :: "BitWriter \<Rightarrow> nat" where
  "writer_len w = 8 * length (bw_bytes w) + bw_num_bits w"

definition writer_ok :: "BitWriter \<Rightarrow> bool" where
  "writer_ok w \<longleftrightarrow> bw_num_bits w < 8 \<and> unat (bw_bits w) < 2 ^ bw_num_bits w"

text \<open>A writer \<open>w'\<close> that extends \<open>w\<close> by the \<open>n\<close> low bits \<open>v\<close>.\<close>

definition extends :: "BitWriter \<Rightarrow> nat \<Rightarrow> nat \<Rightarrow> BitWriter \<Rightarrow> bool" where
  "extends w v n w' \<longleftrightarrow> writer_ok w' \<and> writer_value w' = writer_value w + 2 ^ writer_len w * v \<and>
    writer_len w' = writer_len w + n"

lemma write_extends:
  assumes "writer_ok w" "n \<le> 8" "unat b < 2 ^ n"
  shows "extends w (unat b) n (write_bits w b n)"
proof -
  let ?m = "bw_num_bits w" and ?x = "unat (bw_bits w)" and ?L = "length (bw_bytes w)"
  define B where "B = bw_bits w OR push_bit ?m (ucast b)"
  have wr: "write_bits w b n =
      (if 8 \<le> ?m + n then \<lparr>bw_bytes = bw_bytes w @ [ucast B], bw_bits = drop_bit 8 B, bw_num_bits = ?m + n - 8\<rparr>
       else \<lparr>bw_bytes = bw_bytes w, bw_bits = B, bw_num_bits = ?m + n\<rparr>)"
    by (simp add: write_bits_def Let_def B_def)
  have m: "?m < 8" "?x < 2 ^ ?m" using assms(1) by (simp_all add: writer_ok_def)
  have sum: "?x + 2 ^ ?m * unat b < 2 ^ (?m + n)"
  proof -
    have "?x + 2 ^ ?m * unat b < 2 ^ ?m + 2 ^ ?m * (2 ^ n - 1)"
      using m(2) assms(3) by (intro add_less_le_mono mult_le_mono) auto
    then show ?thesis by (simp add: power_add algebra_simps)
  qed
  have le: "(2 :: nat) ^ (?m + n) \<le> 2 ^ 16" using m(1) assms(2) by (intro power_increasing) auto
  then have "unat (push_bit ?m (ucast b :: 16 word)) = 2 ^ ?m * unat b" using sum by (intro unat_push) simp
  then have bits: "unat B = ?x + 2 ^ ?m * unat b" using or_add_nat [OF m(2)] by (simp add: B_def unsigned_or_eq)
  have pw: "2 ^ writer_len w = 256 ^ ?L * (2 :: nat) ^ ?m"
    by (simp add: writer_len_def power_add power_mult)
  show ?thesis
  proof (cases "8 \<le> ?m + n")
    case True
    have low: "unat (ucast B :: u8) = unat B mod 256" by (simp add: unsigned_ucast_eq take_bit_eq_mod)
    have "unat (drop_bit 8 B) = drop_bit 8 (take_bit 16 (unat B))" by (simp only: unsigned_drop_bit_eq) simp
    then have high: "unat (drop_bit 8 B) = unat B div 256" by (simp only: take16 drop_bit_eq_div) simp
    have "(2 :: nat) ^ (?m + n) = 2 ^ (?m + n - 8) * 2 ^ 8" using True by (simp only: flip: power_add) simp
    then have small: "unat B div 256 < 2 ^ (?m + n - 8)"
      using sum unfolding bits by (intro less_mult_imp_div_less) simp
    have "writer_value (write_bits w b n) =
        bytes_value (bw_bytes w) + 256 ^ ?L * (unat (ucast B :: u8) + 256 * unat (drop_bit 8 B))"
      using True by (simp add: wr writer_value_def le_append algebra_simps)
    then have "writer_value (write_bits w b n) = bytes_value (bw_bytes w) + 256 ^ ?L * unat B"
      unfolding low high by simp
    then have "writer_value (write_bits w b n) = bytes_value (bw_bytes w) + 256 ^ ?L * (?x + 2 ^ ?m * unat b)"
      by (simp add: bits)
    then have "writer_value (write_bits w b n) = writer_value w + 2 ^ writer_len w * unat b"
      by (simp only: writer_value_def pw) (simp add: algebra_simps)
    moreover have "?m + n - 8 < 8" using m(1) assms(2) by linarith
    ultimately show ?thesis using True high small by (simp add: extends_def writer_ok_def writer_len_def wr)
  next
    case False
    then show ?thesis using sum
      by (simp add: extends_def writer_ok_def wr writer_value_def bits pw algebra_simps) (simp add: writer_len_def)
  qed
qed

lemma extends_trans: "extends w v n w' \<Longrightarrow> extends w' v' n' w'' \<Longrightarrow> extends w (v + 2 ^ n * v') (n + n') w''"
  by (simp add: extends_def power_add algebra_simps)

lemma extends_refl: "writer_ok w \<Longrightarrow> extends w 0 0 w"
  by (simp add: extends_def)

lemma finish_value: "no_trailing (finish w)" "bytes_value (finish w) = writer_value w" if "writer_ok w"
proof -
  have "unat (bw_bits w) < 256"
    using that power_increasing [of "bw_num_bits w" 8 "2 :: nat"] by (simp add: writer_ok_def)
  then have "unat (ucast (bw_bits w) :: u8) = unat (bw_bits w)" by (simp add: unsigned_ucast_eq take_bit_nat_eq_self)
  then have "bytes_value (if bw_bits w > 0 then bw_bytes w @ [ucast (bw_bits w)] else bw_bytes w) = writer_value w"
    by (simp add: writer_value_def le_append word_gt_0)
  then show "no_trailing (finish w)" "bytes_value (finish w) = writer_value w"
    by (simp_all only: finish_def Let_def trim_value)
qed

subsection \<open>The writer computes \<open>enc_len\<close>\<close>

text \<open>The documented format of the varint encoder: groups of seven bits, the least significant first.\<close>

function uvarint :: "nat \<Rightarrow> u8 list" where
  "uvarint n = (if n < 128 then [of_nat n] else of_nat (n mod 128 + 128) # uvarint (n div 128))"
  by pat_completeness auto
termination
  by (relation "measure id") auto

declare uvarint.simps [simp del]

definition varint_format :: "(u64 \<Rightarrow> u8 list) \<Rightarrow> bool" where
  "varint_format varint \<longleftrightarrow> (\<forall>len. varint len = uvarint (unat len))"

text \<open>Writing puts the bits of \<open>f\<close> in front of what is written later.\<close>

definition appends :: "BitWriter \<Rightarrow> (nat \<Rightarrow> nat) \<Rightarrow> BitWriter \<Rightarrow> bool" where
  "appends w f w' \<longleftrightarrow> (\<exists>v n. extends w v n w' \<and> (\<forall>rest. f rest = v + 2 ^ n * rest))"

lemma appends_comp: "appends w f w' \<Longrightarrow> appends w' g w'' \<Longrightarrow> appends w (\<lambda>rest. f (g rest)) w''"
proof -
  assume "appends w f w'" "appends w' g w''"
  then obtain v n v' n' where 1: "extends w v n w'" "\<And>rest. f rest = v + 2 ^ n * rest"
    and 2: "extends w' v' n' w''" "\<And>rest. g rest = v' + 2 ^ n' * rest" by (auto simp: appends_def)
  show ?thesis
    unfolding appends_def
    using extends_trans [OF 1(1) 2(1)] 1(2) 2(2)
    by (intro exI [of _ "v + 2 ^ n * v'"] exI [of _ "n + n'"]) (simp add: power_add algebra_simps)
qed

lemma appends_refl: "writer_ok w \<Longrightarrow> appends w (\<lambda>rest. rest) w"
  using extends_refl by (fastforce simp: appends_def)

lemma appends_ok: "appends w f w' \<Longrightarrow> writer_ok w'"
  by (auto simp: appends_def extends_def)

lemma appends_write:
  "writer_ok w \<Longrightarrow> n \<le> 8 \<Longrightarrow> unat b < 2 ^ n \<Longrightarrow> appends w (\<lambda>rest. unat b + 2 ^ n * rest) (write_bits w b n)"
  unfolding appends_def using write_extends [of w n b] by blast

lemma write_uvarint:
  "writer_ok w \<Longrightarrow> appends w (enc_varint n) (fold (\<lambda>byte w. write_bits w byte 8) (uvarint n) w)"
proof (induction n arbitrary: w rule: uvarint.induct)
  case (1 n)
  have byte: "appends w (\<lambda>rest. m + 256 * rest) (write_bits w (of_nat m) 8)" if "m < 256" for m
    using appends_write [OF "1.prems", of 8 "of_nat m"] that by (simp add: unsigned_of_nat take_bit_nat_eq_self)
  show ?case
  proof (cases "n < 128")
    case True
    then have "enc_varint n = (\<lambda>rest. n + 256 * rest)" by (intro ext) (simp add: enc_varint.simps)
    then show ?thesis using byte [of n] True by (simp add: uvarint.simps)
  next
    case False
    let ?w = "write_bits w (of_nat (n mod 128 + 128)) 8"
    have 1: "appends w (\<lambda>rest. n mod 128 + 128 + 256 * rest) ?w" using byte [of "n mod 128 + 128"] by simp
    then have "appends ?w (enc_varint (n div 128)) (fold (\<lambda>byte w. write_bits w byte 8) (uvarint (n div 128)) ?w)"
      using "1.IH" [OF False] appends_ok by blast
    moreover have "enc_varint n = (\<lambda>rest. n mod 128 + 128 + 256 * enc_varint (n div 128) rest)"
      using False by (intro ext) (subst enc_varint.simps, simp)
    ultimately show ?thesis using appends_comp [OF 1] False by (simp add: uvarint.simps [of n])
  qed
qed

lemma write_len_appends:
  assumes "varint_format varint" "writer_ok w" "0 < len"
  shows "appends w (enc_len (unat len)) (write_len varint w len)"
proof -
  consider "len = 1" | "len \<noteq> 1" "len < 16" | "16 \<le> len" by (metis not_le)
  then show ?thesis
  proof cases
    case 1
    then have "enc_len (unat len) = (\<lambda>rest. 1 + 2 * rest)" by (auto simp: enc_len_def)
    then show ?thesis using appends_write [OF assms(2), of 1 1] 1 by (simp add: write_len_def)
  next
    case 2
    note short = this
    have "len = of_nat (unat len)" by simp
    with 2 have l: "unat len < 16" "unat len \<noteq> 1" by (simp add: word_less_nat_alt, metis of_nat_1)
    then have c: "unat (ucast len :: u8) = unat len" by (simp add: unsigned_ucast_eq take_bit_nat_eq_self)
    have 1: "appends w (\<lambda>rest. 2 + 4 * rest) (write_bits w 2 2)" using appends_write [OF assms(2), of 2 2] by simp
    have 2: "appends (write_bits w 2 2) (\<lambda>rest. unat len + 16 * rest) (write_bits (write_bits w 2 2) (ucast len) 4)"
      using appends_write [OF appends_ok [OF 1], of 4 "ucast len"] c l(1) by simp
    have "enc_len (unat len) = (\<lambda>rest. 2 + 4 * (unat len + 16 * rest))" using l by (auto simp: enc_len_def)
    then show ?thesis using appends_comp [OF 1 2] short by (simp add: write_len_def)
  next
    case 3
    then have l: "16 \<le> unat len" "len \<noteq> 1" "\<not> len < 16" by (auto simp: word_le_nat_alt word_less_nat_alt)
    have 1: "appends w (\<lambda>rest. 4 * rest) (write_bits w 0 2)" using appends_write [OF assms(2), of 2 0] by simp
    moreover have "enc_len (unat len) = (\<lambda>rest. 4 * enc_varint (unat len) rest)" using l(1) by (auto simp: enc_len_def)
    ultimately show ?thesis
      using appends_comp [OF 1 write_uvarint [OF appends_ok [OF 1]]] l assms(1)
      by (simp add: write_len_def varint_format_def)
  qed
qed

definition enc_runs :: "nat list \<Rightarrow> nat \<Rightarrow> nat" where
  "enc_runs ls rest = foldr enc_len ls rest"

lemma enc_runs_simps [simp]: "enc_runs [] rest = rest" "enc_runs (l # ls) rest = enc_len l (enc_runs ls rest)"
  by (simp_all add: enc_runs_def)

lemma write_len_nat:
  "varint_format varint \<Longrightarrow> writer_ok w \<Longrightarrow> 0 < l \<Longrightarrow> l < 2 ^ 64 \<Longrightarrow>
    appends w (enc_len l) (write_len varint w (of_nat l))"
  using write_len_appends [of varint w "of_nat l"]
  by (simp add: unsigned_of_nat take_bit_nat_eq_self word_less_nat_alt)

lemma write_ranges_appends:
  "varint_format varint \<Longrightarrow> writer_ok w \<Longrightarrow> ranges_ok rs \<Longrightarrow> list_all (\<lambda>r. snd r \<le> U64_END) rs \<Longrightarrow>
    list_all (\<lambda>r. index < fst r) rs \<Longrightarrow>
    appends w (enc_runs (json_runs index rs)) (write_ranges varint index rs w)"
proof (induction rs arbitrary: index w)
  case Nil
  then show ?case using appends_refl by (simp add: enc_runs_def)
next
  case (Cons r rs)
  have r: "index < fst r" "fst r < snd r" "snd r < 2 ^ 64" "separated (r # rs)"
    using Cons.prems(3-5) by (auto simp: ranges_ok_def U64_END_def)
  let ?w1 = "write_len varint w (of_nat (fst r - index))"
  let ?w2 = "write_len varint ?w1 (of_nat (range_size r))"
  have 1: "appends w (enc_len (fst r - index)) ?w1" using Cons.prems(1,2) r by (intro write_len_nat) auto
  have 2: "appends ?w1 (enc_len (snd r - fst r)) ?w2"
    using Cons.prems(1) appends_ok [OF 1] r write_len_nat [of varint ?w1 "snd r - fst r"] by (simp add: range_size_def)
  have "appends ?w2 (enc_runs (json_runs (snd r) rs)) (write_ranges varint (snd r) rs ?w2)"
    using Cons.prems separated_later [OF r(4)] separated_tail [OF r(4)] appends_ok [OF 2]
    by (intro Cons.IH) (auto simp: ranges_ok_def list_all_iff)
  from appends_comp [OF appends_comp [OF 1 2] this] show ?case by (simp add: enc_runs_def)
qed

lemma writer_new_ok: "writer_ok writer_new" "writer_value writer_new = 0" "writer_len writer_new = 0"
  by (simp_all add: writer_ok_def writer_new_def writer_value_def writer_len_def)

lemma appends_finish:
  assumes "appends writer_new f w"
  shows "no_trailing (finish w)" "bytes_value (finish w) = f 0"
  using finish_value [OF appends_ok [OF assms]] assms writer_new_ok by (auto simp: appends_def extends_def)

text \<open>The runs of ones and zeros of ranges: the first run is of ones iff the first range starts at zero.\<close>

definition first_bit :: "range list \<Rightarrow> nat" where
  "first_bit rs = (if rs \<noteq> [] \<and> fst (hd rs) = 0 then 1 else 0)"

definition ranges_runs :: "range list \<Rightarrow> nat list" where
  "ranges_runs rs = (if first_bit rs = 1 then tl (json_runs 0 rs) else json_runs 0 rs)"

lemma ranges_to_bytes_value:
  assumes "varint_format varint" "ranges_ok rs" "list_all (\<lambda>r. snd r \<le> U64_END) rs"
  shows "no_trailing (ranges_to_bytes varint rs)"
    "bytes_value (ranges_to_bytes varint rs) = 4 * (first_bit rs + 2 * enc_runs (ranges_runs rs) 0)"
proof -
  have "no_trailing (ranges_to_bytes varint rs) \<and>
    bytes_value (ranges_to_bytes varint rs) = 4 * (first_bit rs + 2 * enc_runs (ranges_runs rs) 0)"
  proof (cases rs)
    case Nil
    then show ?thesis by (simp add: ranges_to_bytes_def no_trailing_def first_bit_def ranges_runs_def)
  next
    case (Cons r xs)
    have r: "fst r < snd r" "snd r < 2 ^ 64" "separated (r # xs)" using assms(2,3) by (auto simp: Cons ranges_ok_def U64_END_def)
    let ?w0 = "write_bits writer_new 0 2"
    let ?w1 = "if fst r = 0 then write_bits ?w0 1 1 else write_len varint (write_bits ?w0 0 1) (of_nat (fst r))"
    let ?w2 = "write_len varint ?w1 (of_nat (range_size r))"
    have 0: "appends writer_new (\<lambda>rest. 4 * rest) ?w0"
      using appends_write [OF writer_new_ok(1), of 2 0] by simp
    have 1: "appends ?w0 (\<lambda>rest. if fst r = 0 then 1 + 2 * rest else 2 * enc_len (fst r) rest) ?w1"
    proof (cases "fst r = 0")
      case True
      then show ?thesis using appends_write [OF appends_ok [OF 0], of 1 1] by simp
    next
      case False
      have z: "appends ?w0 (\<lambda>rest. 2 * rest) (write_bits ?w0 0 1)" using appends_write [OF appends_ok [OF 0], of 1 0] by simp
      show ?thesis
        using appends_comp [OF z write_len_nat [OF assms(1) appends_ok [OF z], of "fst r"]] False r by simp
    qed
    have 2: "appends ?w1 (enc_len (snd r - fst r)) ?w2"
      using write_len_nat [OF assms(1) appends_ok [OF 1], of "snd r - fst r"] r by (simp add: range_size_def)
    have 3: "appends ?w2 (enc_runs (json_runs (snd r) xs)) (write_ranges varint (snd r) xs ?w2)"
      using assms separated_later [OF r(3)] separated_tail [OF r(3)] appends_ok [OF 2]
      by (intro write_ranges_appends) (auto simp: ranges_ok_def list_all_iff Cons)
    note all = appends_finish [OF appends_comp [OF 0 appends_comp [OF 1 appends_comp [OF 2 3]]]]
    have bytes: "ranges_to_bytes varint rs = finish (write_ranges varint (snd r) xs ?w2)"
      by (simp add: ranges_to_bytes_def Cons Let_def)
    show ?thesis unfolding bytes all(2) using all(1) by (auto simp: Cons first_bit_def ranges_runs_def)
  qed
  then show "no_trailing (ranges_to_bytes varint rs)"
    "bytes_value (ranges_to_bytes varint rs) = 4 * (first_bit rs + 2 * enc_runs (ranges_runs rs) 0)" by simp_all
qed
subsection \<open>Reading runs\<close>

fun runs_ranges :: "bool \<Rightarrow> nat \<Rightarrow> nat list \<Rightarrow> range list" where
  "runs_ranges b i [] = []"
| "runs_ranges b i (l # ls) = (if b then [(i, i + l)] else []) @ runs_ranges (\<not> b) (i + l) ls"

text \<open>The words of the loop as numbers: as long as the sum stays below \<open>2 ^ 64\<close> there is no wrap.\<close>

lemma add_wraps: "(a + b :: u64) < a \<longleftrightarrow> 2 ^ 64 \<le> unat a + unat b"
proof -
  have bound: "unat a < 2 ^ 64" "unat b < 2 ^ 64"
    by (rule order_less_le_trans [OF unsigned_less], simp)+
  have "unat (a + b) = (unat a + unat b) mod 2 ^ 64" by (simp add: unat_word_ariths)
  then show ?thesis using bound by (auto simp: word_less_nat_alt mod_if split: if_splits)
qed

lemma add_plain: "unat a + unat b < 2 ^ 64 \<Longrightarrow> unat (a + b :: u64) = unat a + unat b"
  by (simp add: unat_word_ariths)

lemma read_runs_fuel:
  "reader_ok r \<Longrightarrow> reader_value r < 2 ^ k \<Longrightarrow> read_runs (Suc k) r nv ranges index total_len \<noteq> None"
proof (induction k arbitrary: r nv ranges index total_len)
  case 0
  then show ?case using read_len_value [OF 0(1)] by (simp add: dec_len_def)
next
  case (Suc k)
  consider e where "dec_len (reader_value r) = Inl e" | "dec_len (reader_value r) = Inr None"
    | l rest where "dec_len (reader_value r) = Inr (Some (l, rest))"
    by (metis obj_sumE option.exhaust surj_pair)
  then show ?case
  proof cases
    case 1
    then show ?thesis using read_len_value [OF Suc.prems(1)] by (simp only: read_runs.simps) simp
  next
    case 2
    then show ?thesis using read_len_value [OF Suc.prems(1)] by (simp only: read_runs.simps) simp
  next
    case 3
    then obtain r' len where r': "read_len r = Inr (Some (len, r'))" "reader_ok r'" "reader_value r' = rest"
      using read_len_value [OF Suc.prems(1)] by auto
    moreover have "rest < 2 ^ k" using dec_len_less [OF 3] Suc.prems(2) by simp
    ultimately have "read_runs (Suc k) r' nv' ranges' index' total' \<noteq> None" for nv' ranges' index' total'
      using Suc.IH by blast
    then show ?thesis using r'(1) by (simp only: read_runs.simps(2) [of "Suc k"]) (simp add: Let_def)
  qed
qed

lemma read_runs_complete:
  "reader_ok r \<Longrightarrow> reader_value r = enc_runs ls 0 \<Longrightarrow> list_all (\<lambda>l. 0 < l \<and> l < 2 ^ 64) ls \<Longrightarrow>
    unat index + sum_list ls < 2 ^ 64 \<Longrightarrow> length ls < fuel \<Longrightarrow> nv = odd (length ls) \<Longrightarrow>
    read_runs fuel r nv ranges index index = Some (Inr (ranges @ runs_ranges nv (unat index) ls))"
proof (induction ls arbitrary: fuel r nv ranges index)
  case Nil
  then obtain k where "fuel = Suc k" by (cases fuel) auto
  then show ?case using Nil read_len_value [OF Nil(1)] by (simp add: dec_len_def)
next
  case (Cons l ls)
  then obtain k where fuel: "fuel = Suc k" by (cases fuel) auto
  have "dec_len (reader_value r) = Inr (Some (l, enc_runs ls 0))" using Cons.prems(2,3) dec_enc by simp
  then obtain r' len where r': "read_len r = Inr (Some (len, r'))" "reader_ok r'" "reader_value r' = enc_runs ls 0" "unat len = l"
    using read_len_value [OF Cons.prems(1)] by auto
  have sum: "unat index + unat len < 2 ^ 64" using Cons.prems(4) r'(4) by simp
  then have "read_runs k r' (\<not> nv) (if nv then ranges @ [(unat index, unat (index + len))] else ranges) (index + len) (index + len) =
      Some (Inr ((if nv then ranges @ [(unat index, unat (index + len))] else ranges) @ runs_ranges (\<not> nv) (unat (index + len)) ls))"
    using Cons.prems r' fuel by (intro Cons.IH) (auto simp: add_plain)
  then show ?case using r'(1,4) sum by (simp add: fuel Let_def add_wraps not_le add_plain)
qed

lemma read_runs_sound:
  "reader_ok r \<Longrightarrow> read_runs fuel r nv ranges index index = Some (Inr rs) \<Longrightarrow>
    \<exists>ls. reader_value r = enc_runs ls 0 \<and> list_all (\<lambda>l. 0 < l) ls \<and> unat index + sum_list ls < 2 ^ 64 \<and>
      nv = odd (length ls) \<and> rs = ranges @ runs_ranges nv (unat index) ls"
proof (induction fuel arbitrary: r nv ranges index)
  case (Suc fuel)
  consider e where "dec_len (reader_value r) = Inl e" | "dec_len (reader_value r) = Inr None"
    | l rest where "dec_len (reader_value r) = Inr (Some (l, rest))"
    by (metis obj_sumE option.exhaust surj_pair)
  then show ?case
  proof cases
    case 1
    then show ?thesis using Suc.prems(2) read_len_value [OF Suc.prems(1)] by simp
  next
    case 2
    then have "reader_value r = 0" by (auto simp: dec_len_def Let_def split: if_splits option.splits)
    moreover have "unat index < 2 ^ 64" by (rule order_less_le_trans [OF unsigned_less]) simp
    ultimately show ?thesis using 2 Suc.prems(2) read_len_value [OF Suc.prems(1)]
      by (intro exI [of _ "[]"]) (auto split: if_splits)
  next
    case 3
    obtain r' len where r': "read_len r = Inr (Some (len, r'))" "reader_ok r'" "reader_value r' = rest" "unat len = l"
      using 3 read_len_value [OF Suc.prems(1)] by auto
    let ?ranges = "if nv then ranges @ [(unat index, unat (index + len))] else ranges"
    have sum: "unat index + unat len < 2 ^ 64" and run: "read_runs fuel r' (\<not> nv) ?ranges (index + len) (index + len) = Some (Inr rs)"
      using Suc.prems(2) r'(1) by (auto simp: Let_def add_wraps not_le split: if_splits)
    obtain ls where "rest = enc_runs ls 0" "list_all (\<lambda>l. 0 < l) ls" "unat (index + len) + sum_list ls < 2 ^ 64"
      "(\<not> nv) = odd (length ls)" "rs = ?ranges @ runs_ranges (\<not> nv) (unat (index + len)) ls"
      using Suc.IH [OF r'(2) run] r'(3) by blast
    then show ?thesis using enc_dec [OF 3] r'(4) add_plain [OF sum] by (intro exI [of _ "l # ls"]) auto
  qed
qed simp

subsection \<open>Runs and ranges\<close>

lemma runs_ranges_json:
  "ranges_ok rs \<Longrightarrow> list_all (\<lambda>r. i \<le> fst r) rs \<Longrightarrow> runs_ranges False i (json_runs i rs) = rs"
proof (induction rs arbitrary: i)
  case (Cons r rs)
  then have r: "i \<le> fst r" "fst r < snd r" "separated (r # rs)" by (auto simp: ranges_ok_def)
  then have "runs_ranges False (snd r) (json_runs (snd r) rs) = rs"
    using Cons separated_later [OF r(3)] separated_tail [OF r(3)] by (intro Cons.IH) (auto simp: ranges_ok_def list_all_iff order_less_imp_le)
  then show ?case using r by simp
qed simp

lemma json_length: "length (json_runs i rs) = 2 * length rs"
  by (induction rs arbitrary: i) auto

lemma json_sum:
  "separated rs \<Longrightarrow> list_all (\<lambda>r. i \<le> fst r) rs \<Longrightarrow> list_all (\<lambda>r. snd r \<le> n) rs \<Longrightarrow> i \<le> n \<Longrightarrow> i + sum_list (json_runs i rs) \<le> n"
proof (induction rs arbitrary: i)
  case (Cons r rs)
  have "snd r + sum_list (json_runs (snd r) rs) \<le> n"
    using Cons.prems separated_later [OF Cons.prems(1)] separated_tail [OF Cons.prems(1)]
    by (intro Cons.IH) (auto simp: list_all_iff order_less_imp_le)
  then show ?case using Cons.prems separated_first [OF Cons.prems(1)] by simp
qed simp

lemma json_positive:
  "ranges_ok rs \<Longrightarrow> list_all (\<lambda>r. i < fst r) rs \<Longrightarrow> list_all (\<lambda>l. 0 < l) (json_runs i rs)"
proof (induction rs arbitrary: i)
  case (Cons r rs)
  then have r: "i < fst r" "fst r < snd r" "separated (r # rs)" by (auto simp: ranges_ok_def)
  have "list_all (\<lambda>l. 0 < l) (json_runs (snd r) rs)"
    using Cons.prems(1) separated_later [OF r(3)] separated_tail [OF r(3)]
    by (intro Cons.IH) (auto simp: ranges_ok_def list_all_iff)
  then show ?case using r by simp
qed simp

lemma ranges_runs_facts:
  assumes "ranges_ok rs" "list_all (\<lambda>r. snd r \<le> U64_END) rs"
  shows "runs_ranges (first_bit rs = 1) 0 (ranges_runs rs) = rs" "list_all (\<lambda>l. 0 < l) (ranges_runs rs)"
    "sum_list (ranges_runs rs) \<le> U64_END" "(first_bit rs = 1) = odd (length (ranges_runs rs))"
proof -
  have sep: "separated rs" using assms(1) by simp
  have sum: "sum_list (json_runs 0 rs) \<le> U64_END" using json_sum [OF sep, of 0 U64_END] assms(2) by (auto simp: list_all_iff)
  show "runs_ranges (first_bit rs = 1) 0 (ranges_runs rs) = rs"
    using runs_ranges_json [OF assms(1), of 0] by (cases rs) (auto simp: ranges_runs_def first_bit_def list_all_iff)
  show "sum_list (ranges_runs rs) \<le> U64_END" using sum by (cases rs) (auto simp: ranges_runs_def)
  show "(first_bit rs = 1) = odd (length (ranges_runs rs))"
    using json_length [of 0 rs] by (cases rs) (auto simp: ranges_runs_def first_bit_def)
  show "list_all (\<lambda>l. 0 < l) (ranges_runs rs)"
  proof (cases rs)
    case (Cons r xs)
    have x: "ranges_ok xs" "list_all (\<lambda>x. snd r < fst x) xs" "fst r < snd r"
      using assms(1) separated_later [of r xs] separated_tail [of r xs] by (auto simp: Cons ranges_ok_def list_all_iff)
    then show ?thesis using json_positive [OF x(1,2)] by (auto simp: ranges_runs_def first_bit_def Cons)
  qed (simp add: ranges_runs_def first_bit_def)
qed

text \<open>Conversely, alternating runs that end with ones are the runs of the ranges they describe.\<close>

lemma runs_ranges_props:
  "list_all (\<lambda>l. 0 < l) ls \<Longrightarrow> b = odd (length ls) \<Longrightarrow>
    ranges_ok (runs_ranges b i ls) \<and> list_all (\<lambda>r. snd r \<le> i + sum_list ls) (runs_ranges b i ls) \<and>
    (ls \<noteq> [] \<longrightarrow> runs_ranges b i ls \<noteq> [] \<and> fst (hd (runs_ranges b i ls)) = (if b then i else i + hd ls)) \<and>
    json_runs i (runs_ranges b i ls) = (if b then 0 # ls else ls)"
proof (induction ls arbitrary: b i)
  case (Cons l ls)
  let ?rs = "runs_ranges (\<not> b) (i + l) ls"
  have ih: "ranges_ok ?rs" "list_all (\<lambda>r. snd r \<le> i + l + sum_list ls) ?rs"
    "ls \<noteq> [] \<longrightarrow> ?rs \<noteq> [] \<and> fst (hd ?rs) = (if b then i + l + hd ls else i + l)"
    "json_runs (i + l) ?rs = (if b then ls else 0 # ls)"
    using Cons.IH [of "\<not> b" "i + l"] Cons.prems by auto
  show ?case
  proof (cases b)
    case True
    have "ranges_ok ((i, i + l) # ?rs)"
    proof (cases ls)
      case Nil
      then show ?thesis using Cons.prems(1) by (simp add: ranges_ok_def)
    next
      case (Cons m ms)
      then show ?thesis using ih(1,3) True \<open>list_all (\<lambda>l. 0 < l) (l # ls)\<close>
        by (cases ?rs) (auto simp: ranges_ok_def)
    qed
    then show ?thesis using True ih by (simp add: add.assoc)
  next
    case False
    then have "ls \<noteq> []" using Cons.prems(2) by auto
    then obtain x xs where x: "?rs = x # xs" "fst x = i + l" using ih(3) False by (cases ?rs) auto
    have "json_runs i ?rs = l # ls" using ih(4) False x by simp
    then show ?thesis using False ih x by (simp add: add.assoc)
  qed
qed (simp add: ranges_ok_def)

subsection \<open>Properties\<close>

declare read_runs.simps [simp del]

lemma from_bytes_reader:
  assumes "no_trailing bytes"
  shows "\<exists>r. reader_ok r \<and> reader_value r = bytes_value bytes div 8 \<and>
    rle_from_bytes bytes =
      (if bytes_value bytes mod 4 \<noteq> 0 then Some (Inl UnsupportedVersion)
       else map_option (map_sum id from_ranges)
         (read_runs (8 * length bytes + 1) r (bytes_value bytes div 4 mod 2 = 1) [] 0 0))"
proof -
  obtain r where r: "reader_new bytes = Inr r" "reader_ok r" "reader_value r = bytes_value bytes"
    using reader_new_ok [OF assms] by blast
  let ?r1 = "drop_bits r 2" and ?r2 = "drop_bits (drop_bits r 2) 1"
  have 1: "reader_ok ?r1" "reader_value ?r1 = bytes_value bytes div 4" using drop_value [OF r(2), of 2] r(3) by simp_all
  have 2: "reader_ok ?r2" "reader_value ?r2 = bytes_value bytes div 8"
    using drop_value [OF 1(1), of 1] 1(2) by (simp_all flip: div_mult2_eq)
  have version: "peek r 2 \<noteq> 0 \<longleftrightarrow> bytes_value bytes mod 4 \<noteq> 0"
    using peek_value [OF r(2), of 2] r(3) by (simp flip: unat_eq_0)
  have "peek ?r1 1 = 1 \<longleftrightarrow> unat (peek ?r1 1) = 1" by (metis unsigned_1 unsigned_word_eqI)
  then have first: "peek ?r1 1 = 1 \<longleftrightarrow> bytes_value bytes div 4 mod 2 = 1"
    using peek_value [OF 1(1), of 1] 1(2) by simp
  show ?thesis
    using r(1) 2 version first by (intro exI [of _ ?r2]) (simp add: rle_from_bytes_def read_def)
qed

lemma enc_runs_length:
  "list_all (\<lambda>l. 0 < l) ls \<Longrightarrow> ls \<noteq> [] \<Longrightarrow> 2 ^ length ls \<le> 2 * enc_runs ls 0"
proof (induction ls)
  case (Cons l ls)
  then show ?case using enc_len_ge [of l "enc_runs ls 0"] by (cases ls) auto
qed simp

lemma from_bytes_runs:
  assumes "no_trailing bytes" "bytes_value bytes = 4 * (b + 2 * enc_runs ls 0)" "b \<le> 1"
    and "list_all (\<lambda>l. 0 < l) ls" "sum_list ls \<le> U64_END" "(b = 1) = odd (length ls)"
  shows "rle_from_bytes bytes = Some (Inr (from_ranges (runs_ranges (b = 1) 0 ls)))"
proof -
  obtain r where r: "reader_ok r" "reader_value r = bytes_value bytes div 8" "rle_from_bytes bytes =
      (if bytes_value bytes mod 4 \<noteq> 0 then Some (Inl UnsupportedVersion)
       else map_option (map_sum id from_ranges)
         (read_runs (8 * length bytes + 1) r (bytes_value bytes div 4 mod 2 = 1) [] 0 0))"
    using from_bytes_reader [OF assms(1)] by blast
  have v: "bytes_value bytes div 8 = enc_runs ls 0" "bytes_value bytes mod 4 = 0" "bytes_value bytes div 4 mod 2 = b"
    using assms(3) by (auto simp: assms(2))
  have each: "list_all (\<lambda>l. 0 < l \<and> l < 2 ^ 64) ls"
    using assms(4,5) member_le_sum_list [of _ ls] by (fastforce simp: list_all_iff U64_END_def)
  have "length ls < 8 * length bytes + 1"
  proof (cases "ls = []")
    case False
    have "2 ^ length ls \<le> bytes_value bytes" using enc_runs_length [OF assms(4) False] by (simp add: assms(2))
    also have "\<dots> < 2 ^ (8 * length bytes)" using le_bound [of bytes] by (simp add: power_mult)
    finally show ?thesis by simp
  qed simp
  then have "read_runs (8 * length bytes + 1) r (b = 1) [] 0 0 = Some (Inr ([] @ runs_ranges (b = 1) (unat (0 :: u64)) ls))"
    using r(1,2) v(1) each assms(5,6) by (intro read_runs_complete) (auto simp: U64_END_def)
  then show ?thesis using r(3) v by simp
qed

lemma all_ranges_from: "ranges_ok rs \<Longrightarrow> bits rs \<subseteq> {..<U64_END} \<Longrightarrow> all_ranges (from_ranges rs) = Some rs"
  using all_ranges_Some [of "from_ranges rs"] ranges_unique [of _ rs] by (auto simp: from_ranges_ok)

lemma from_bytes_sound:
  assumes "varint_format varint" "rle_from_bytes bytes = Some (Inr bf)"
  shows "bitfield_ok bf \<and> rle_to_bytes varint bf = Some bytes"
proof -
  have nt: "no_trailing bytes" using assms(2) by (auto simp: rle_from_bytes_def reader_new_def no_trailing_def split: if_splits)
  obtain r where r: "reader_ok r" "reader_value r = bytes_value bytes div 8" "rle_from_bytes bytes =
      (if bytes_value bytes mod 4 \<noteq> 0 then Some (Inl UnsupportedVersion)
       else map_option (map_sum id from_ranges)
         (read_runs (8 * length bytes + 1) r (bytes_value bytes div 4 mod 2 = 1) [] 0 0))"
    using from_bytes_reader [OF nt] by blast
  let ?b = "bytes_value bytes div 4 mod 2"
  obtain res where res: "bytes_value bytes mod 4 = 0" "map_sum id from_ranges res = Inr bf"
    "read_runs (8 * length bytes + 1) r (?b = 1) [] 0 0 = Some res"
    using assms(2) r(3) by (auto split: if_splits)
  then obtain rs where rs: "bytes_value bytes mod 4 = 0" "bf = from_ranges rs"
    "read_runs (8 * length bytes + 1) r (?b = 1) [] 0 0 = Some (Inr rs)"
    by (cases res) auto
  obtain ls where ls: "bytes_value bytes div 8 = enc_runs ls 0" "list_all (\<lambda>l. 0 < l) ls" "sum_list ls < 2 ^ 64"
    "(?b = 1) = odd (length ls)" "rs = runs_ranges (?b = 1) 0 ls"
    using read_runs_sound [OF r(1) rs(3)] r(2) unfolding unsigned_0 add_0 append_Nil by metis
  have props: "ranges_ok rs" "list_all (\<lambda>r. snd r \<le> sum_list ls) rs" "json_runs 0 rs = (if ?b = 1 then 0 # ls else ls)"
    "ls \<noteq> [] \<longrightarrow> rs \<noteq> [] \<and> fst (hd rs) = (if ?b = 1 then 0 else hd ls)"
    using runs_ranges_props [OF ls(2,4), of 0] by (simp_all add: ls(5))
  have bound: "list_all (\<lambda>r. snd r \<le> U64_END) rs" using props(2) ls(3) by (auto simp: list_all_iff U64_END_def)
  have first: "first_bit rs = ?b"
  proof (cases ls)
    case Nil
    then show ?thesis using ls(4,5) by (simp add: first_bit_def)
  next
    case (Cons l xs)
    then show ?thesis using props(4) ls(2) by (auto simp: first_bit_def)
  qed
  have runs: "ranges_runs rs = ls" using props(3) first by (auto simp: ranges_runs_def)
  have "bytes_value bytes = 4 * (bytes_value bytes div 4)" using rs(1) by auto
  also have "bytes_value bytes div 4 = ?b + 2 * (bytes_value bytes div 8)"
    using mod_mult_div_eq [of "bytes_value bytes div 4" 2] div_mult2_eq [of "bytes_value bytes" 4 2] by simp
  finally have "bytes_value bytes = 4 * (?b + 2 * enc_runs ls 0)" by (simp only: ls(1))
  then have "bytes_value (ranges_to_bytes varint rs) = bytes_value bytes" "no_trailing (ranges_to_bytes varint rs)"
    using ranges_to_bytes_value [OF assms(1) props(1) bound] first runs by simp_all
  then have "ranges_to_bytes varint rs = bytes" using le_inject nt by blast
  moreover have "bits rs \<subseteq> {..<U64_END}" using bound ranges_bound [of rs U64_END] props(1) by (simp add: ranges_ok_def)
  ultimately show ?thesis using props(1) by (simp add: rs(2) from_ranges_ok rle_to_bytes_def all_ranges_from)
qed

lemma to_bytes_Some:
  assumes "varint_format varint" "bitfield_ok bf"
  shows "\<exists>bytes rs. rle_to_bytes varint bf = Some bytes \<and> rle_from_bytes bytes = Some (Inr (from_ranges rs)) \<and>
    all_ranges bf = Some rs \<and> ranges_ok rs \<and> bits rs = bitfield_bits bf"
proof -
  obtain rs where rs: "all_ranges bf = Some rs" "ranges_ok rs" "bits rs = bitfield_bits bf"
    using all_ranges_Some [OF assms(2)] by blast
  have bound: "list_all (\<lambda>r. snd r \<le> U64_END) rs"
    using bits_bound [OF assms(2)] rs ranges_bound [of rs U64_END] by (simp add: ranges_ok_def)
  note f = ranges_runs_facts [OF rs(2) bound] and v = ranges_to_bytes_value [OF assms(1) rs(2) bound]
  have "rle_from_bytes (ranges_to_bytes varint rs) = Some (Inr (from_ranges rs))"
    using from_bytes_runs [OF v(1,2) _ f(2,3,4)] f(1) by (simp add: first_bit_def)
  then show ?thesis using rs by (simp add: rle_to_bytes_def)
qed

text \<open>
  C24: RLE+ round trip. Every bit field that satisfies the invariant is encoded, and its encoding
  decodes to a bit field that satisfies the invariant and has the same bits.
\<close>

theorem rle_round_trip:
  assumes "varint_format varint" "bitfield_ok bf"
  shows "\<exists>bytes bf'. rle_to_bytes varint bf = Some bytes \<and> rle_from_bytes bytes = Some (Inr bf') \<and>
    bitfield_ok bf' \<and> bitfield_bits bf' = bitfield_bits bf"
proof -
  obtain bytes rs where "rle_to_bytes varint bf = Some bytes" "rle_from_bytes bytes = Some (Inr (from_ranges rs))"
    "ranges_ok rs" "bits rs = bitfield_bits bf"
    using to_bytes_Some [OF assms] by blast
  then show ?thesis using bits_bound [OF assms(2)] by (auto simp: from_ranges_ok)
qed

lemma uvarint_format: "varint_format (\<lambda>len. uvarint (unat len))"
  by (simp add: varint_format_def)

theorem rle_round_trip_witness:
  "\<exists>bytes bf'. rle_to_bytes (\<lambda>len. uvarint (unat len)) example_a = Some bytes \<and> rle_from_bytes bytes = Some (Inr bf') \<and>
    bitfield_ok bf' \<and> bitfield_bits bf' = bitfield_bits example_a"
  using rle_round_trip [OF uvarint_format example_ok(1)] .

text \<open>
  C23: RLE+ encodings are unique. Whatever bytes the decoder accepts, the bit field it returns satisfies
  the invariant and is encoded as exactly these bytes: no two encodings decode to the same bits.
\<close>

theorem rle_encoding_unique:
  assumes "varint_format varint" "rle_from_bytes bytes = Some (Inr bf)"
  shows "bitfield_ok bf \<and> rle_to_bytes varint bf = Some bytes"
  using from_bytes_sound [OF assms] .

theorem rle_encoding_unique_witness:
  "bitfield_ok (from_ranges []) \<and> rle_to_bytes (\<lambda>len. uvarint (unat len)) (from_ranges []) = Some []"
proof (rule rle_encoding_unique [OF uvarint_format])
  show "rle_from_bytes [] = Some (Inr (from_ranges []))"
    by (simp add: rle_from_bytes_def reader_new_def read_def peek_def drop_bits_def byte_at_def read_len_def has_more_def Let_def read_runs.simps)
qed

text \<open>
  Decoding always ends. The loop over the runs of an encoding has as many steps as the input has
  bits at most: on every byte string the decoder returns a bit field or one of its errors, so the
  validation of an unvalidated bit field always ends too and leaves it in place when it fails.
\<close>

theorem rle_decoding_ends:
  "rle_from_bytes bytes \<noteq> None \<and>
   (case validate_mut (Unvalidated bytes) of
      None \<Rightarrow> False
    | Some (Inl e, ubf) \<Rightarrow> rle_from_bytes bytes = Some (Inl e) \<and> ubf = Unvalidated bytes
    | Some (Inr bf, ubf) \<Rightarrow> rle_from_bytes bytes = Some (Inr bf) \<and> ubf = Validated bf)"
proof -
  have "rle_from_bytes bytes \<noteq> None"
  proof (cases "no_trailing bytes")
    case False
    then show ?thesis by (auto simp: rle_from_bytes_def reader_new_def no_trailing_def)
  next
    case True
    obtain r where r: "reader_ok r" "reader_value r = bytes_value bytes div 8" "rle_from_bytes bytes =
        (if bytes_value bytes mod 4 \<noteq> 0 then Some (Inl UnsupportedVersion)
         else map_option (map_sum id from_ranges)
           (read_runs (8 * length bytes + 1) r (bytes_value bytes div 4 mod 2 = 1) [] 0 0))"
      using from_bytes_reader [OF True] by blast
    have "reader_value r < 2 ^ (8 * length bytes)"
      using le_bound [of bytes] r(2) by (simp add: power_mult)
    then show ?thesis using read_runs_fuel [OF r(1), of "8 * length bytes"] r(3) by simp
  qed
  then show ?thesis by (auto simp: validate_mut_def split: sum.splits)
qed

end
