(* ===== verification/HashBits.thy ===== *)
theory HashBits
  imports Prelude
begin

text \<open>
  The bits of a hashed key that select the path through a HAMT (\<open>ipld/hamt/src/hash_bits.rs\<close>): a
  position in a byte string from which up to eight bits are taken at a time, the most significant bit
  of a byte first. The theory shows that \<open>next_bits\<close>, which masks, shifts and recurses over byte
  boundaries, returns the number of the bits it takes.
\<close>

datatype HamtError = MaxDepth | InvalidHashBitLen | ZeroPointers | CidNotFound | StartKeyNotFound | Dynamic string | Panic

text \<open>\<open>Panic\<close> stands for an index out of bounds, at which the code panics.\<close>

definition mkmask :: "nat \<Rightarrow> u8" where
  "mkmask n = ucast (push_bit n 1 - 1 :: 16 word)"

function next_bits :: "bytes \<Rightarrow> nat \<Rightarrow> nat \<Rightarrow> (u8 \<times> nat) option" where
  "next_bits b consumed i =
    (let curbi = consumed div 8;
         leftb = 8 - consumed mod 8
     in if curbi \<ge> length b then None
        else
          let curb = b ! curbi
          in if i = leftb then Some (mkmask i AND curb, consumed + i)
             else if i < leftb then
               let a = curb AND mkmask leftb;
                   b = a AND NOT (mkmask (leftb - i));
                   c = drop_bit (leftb - i) b
               in Some (c, consumed + i)
             else
               let out = push_bit (i - leftb) (mkmask leftb AND curb)
               in map_option (\<lambda>(rest, consumed). (out + rest, consumed)) (next_bits b (consumed + leftb) (i - leftb)))"
  by pat_completeness auto
termination
  by (relation "measure (\<lambda>(b, consumed, i). i)") (auto intro!: diff_less)

declare next_bits.simps [simp del]

definition hash_next :: "bytes \<Rightarrow> nat \<Rightarrow> nat \<Rightarrow> HamtError + u8 \<times> nat" where
  "hash_next b consumed i =
    (if i > 8 \<or> i = 0 then Inl InvalidHashBitLen
     else
       let maxi = length b * 8 - consumed
       in if maxi = 0 then Inl MaxDepth
          else case next_bits b consumed (min i maxi) of None \<Rightarrow> Inl Panic | Some r \<Rightarrow> Inr r)"

subsection \<open>The number of the bits taken\<close>

definition byte_bits :: "u8 \<Rightarrow> bool list" where
  "byte_bits w = map (bit w) (rev [0..<8])"

definition key_bits :: "bytes \<Rightarrow> bool list" where
  "key_bits b = concat (map byte_bits b)"

definition bits_value :: "bool list \<Rightarrow> nat" where
  "bits_value = foldl (\<lambda>n x. 2 * n + of_bool x) 0"

lemma bits_value_foldl: "foldl (\<lambda>n x. 2 * n + of_bool x) m xs = m * 2 ^ length xs + bits_value xs"
proof (induction xs arbitrary: m)
  case (Cons x xs)
  have "foldl (\<lambda>n x. 2 * n + of_bool x) m (x # xs) = (2 * m + of_bool x) * 2 ^ length xs + bits_value xs"
    using Cons.IH by simp
  moreover have "bits_value (x # xs) = of_bool x * 2 ^ length xs + bits_value xs"
    using Cons.IH [of "of_bool x"] by (simp add: bits_value_def)
  ultimately show ?case by (simp add: algebra_simps)
qed (simp add: bits_value_def)

lemma bits_value_append: "bits_value (xs @ ys) = bits_value xs * 2 ^ length ys + bits_value ys"
  using bits_value_foldl [of "bits_value xs" ys] by (simp add: bits_value_def)

lemma bits_value_slice: "bits_value (map (bit w) (rev [a..<a + i])) = unat w div 2 ^ a mod 2 ^ i" for w :: u8
proof (induction i)
  case (Suc i)
  have "bits_value (map (bit w) (rev [a..<a + Suc i])) = of_bool (bit w (a + i)) * 2 ^ i + unat w div 2 ^ a mod 2 ^ i"
    using bits_value_append [of "[bit w (a + i)]" "map (bit w) (rev [a..<a + i])"] Suc
    by (simp add: bits_value_def)
  moreover have "of_bool (bit w (a + i)) = unat w div 2 ^ a div 2 ^ i mod 2"
    using bit_iff_odd [of "unat w" "a + i"] by (simp add: bit_unsigned_iff mod_2_eq_odd power_add div_mult2_eq)
  ultimately show ?case using mod_mult2_eq [of "unat w div 2 ^ a" "2 ^ i" 2] by (simp add: mult.commute)
qed (simp add: bits_value_def)

lemma mkmask_mask: "n \<le> 8 \<Longrightarrow> mkmask n = mask n"
proof (rule bit_word_eqI)
  fix m
  assume "m < LENGTH(8)"
  moreover have "push_bit n 1 - 1 = (mask n :: 16 word)" by (simp add: mask_eq_exp_minus_1 push_bit_eq_mult)
  ultimately show "bit (mkmask n) m = bit (mask n :: u8) m" by (simp add: mkmask_def bit_unsigned_iff bit_mask_iff)
qed

lemma unat_mask: "n \<le> 8 \<Longrightarrow> unat (x AND mkmask n) = unat x mod 2 ^ n" for x :: u8
proof -
  assume "n \<le> 8"
  then have "x AND mkmask n = take_bit n x" by (simp add: mkmask_mask take_bit_eq_mask)
  then have "unat (x AND mkmask n) = take_bit n (unat x)" by (simp only: unsigned_take_bit_eq)
  then show ?thesis by (simp only: take_bit_eq_mod)
qed

lemma drop_above_mask: "k \<le> 8 \<Longrightarrow> unat (drop_bit k (x AND NOT (mkmask k))) = unat x div 2 ^ k" for x :: u8
proof -
  assume k: "k \<le> 8"
  have "drop_bit k (x AND NOT (mask k)) = drop_bit k x"
    by (rule bit_word_eqI) (auto simp: bit_drop_bit_eq bit_and_iff bit_not_iff bit_mask_iff dest: bit_imp_le_length)
  moreover have "take_bit 8 (unat x) = unat x" using unat_less_exp [of x] by (simp add: take_bit_nat_eq_self)
  then have "unat (drop_bit k x) = drop_bit k (unat x)" by (simp add: unsigned_drop_bit_eq)
  ultimately show ?thesis using k by (simp add: mkmask_mask drop_bit_eq_div)
qed

lemma bits_value_less: "bits_value xs < 2 ^ length xs"
proof (induction xs rule: rev_induct)
  case (snoc x xs)
  then show ?case by (simp add: bits_value_append) (simp add: bits_value_def)
qed (simp add: bits_value_def)

lemma byte_slice:
  assumes "s + i \<le> 8"
  shows "bits_value (take i (drop s (byte_bits w))) = unat w div 2 ^ (8 - s - i) mod 2 ^ i"
proof -
  have "take i (drop s (byte_bits w)) = map (bit w) (rev [8 - s - i..<(8 - s - i) + i])"
  proof (rule nth_equalityI)
    show "length (take i (drop s (byte_bits w))) = length (map (bit w) (rev [8 - s - i..<(8 - s - i) + i]))"
      using assms by (simp add: byte_bits_def)
    fix k
    assume "k < length (take i (drop s (byte_bits w)))"
    then have k: "k < i" "s + k < 8" using assms by (auto simp: byte_bits_def)
    then show "take i (drop s (byte_bits w)) ! k = map (bit w) (rev [8 - s - i..<(8 - s - i) + i]) ! k"
      using assms by (simp add: byte_bits_def rev_nth)
  qed
  then show ?thesis using bits_value_slice by simp
qed

lemma key_bits_length: "length (key_bits b) = 8 * length b"
  by (induction b) (simp_all add: key_bits_def byte_bits_def)

lemma key_bits_in_byte:
  assumes "j < length b" "s + i \<le> 8"
  shows "take i (drop (8 * j + s) (key_bits b)) = take i (drop s (byte_bits (b ! j)))"
proof -
  have "drop (8 * j) (key_bits b) = byte_bits (b ! j) @ key_bits (drop (Suc j) b)"
    using assms(1)
  proof (induction b arbitrary: j)
    case (Cons x b)
    then show ?case by (cases j) (simp_all add: key_bits_def byte_bits_def)
  qed simp
  then have "drop (8 * j + s) (key_bits b) = drop s (byte_bits (b ! j)) @ key_bits (drop (Suc j) b)"
    using assms(2) by (simp add: drop_drop [symmetric] add.commute byte_bits_def del: drop_drop)
  then show ?thesis using assms(2) by (simp add: byte_bits_def)
qed

lemma take_split: "i \<le> n \<Longrightarrow> take n xs = take i xs @ take (n - i) (drop i xs)"
  by (metis le_add_diff_inverse take_add)

lemma next_bits_value:
  "0 < i \<Longrightarrow> i \<le> 8 \<Longrightarrow> consumed + i \<le> 8 * length b \<Longrightarrow>
    \<exists>w. next_bits b consumed i = Some (w, consumed + i) \<and> unat w = bits_value (take i (drop consumed (key_bits b)))"
proof (induction b consumed i rule: next_bits.induct)
  case (1 b consumed i)
  define j s where "j = consumed div 8" and "s = consumed mod 8"
  have js: "consumed = 8 * j + s" "s < 8" by (simp_all add: j_def s_def)
  have j: "j < length b" using "1.prems" js by linarith
  note unf = next_bits.simps [of b consumed i, folded j_def s_def]
  have slice: "bits_value (take m (drop consumed (key_bits b))) = unat (b ! j) div 2 ^ (8 - s - m) mod 2 ^ m" if "s + m \<le> 8" for m
    using key_bits_in_byte [OF j that] byte_slice [OF that] by (simp add: js(1))
  consider "i = 8 - s" | "i < 8 - s" | "8 - s < i" by linarith
  then show ?case
  proof cases
    case 1
    then have "unat (mkmask i AND b ! j) = bits_value (take i (drop consumed (key_bits b)))"
      using slice [of i] js(2) unat_mask [of i "b ! j"] by (simp add: and.commute)
    then show ?thesis unfolding unf using 1 j by (simp add: Let_def)
  next
    case 2
    define a where "a = b ! j AND mkmask (8 - s)"
    have "unat (drop_bit (8 - s - i) (a AND NOT (mkmask (8 - s - i)))) = unat a div 2 ^ (8 - s - i)"
      by (rule drop_above_mask) simp
    also have "\<dots> = unat (b ! j) mod (2 ^ (8 - s - i) * 2 ^ i) div 2 ^ (8 - s - i)"
      using 2 unat_mask [of "8 - s" "b ! j"] by (simp add: a_def flip: power_add)
    also have "\<dots> = unat (b ! j) div 2 ^ (8 - s - i) mod 2 ^ i" by (simp add: mod_mult2_eq)
    finally show ?thesis unfolding unf using 2 j slice [of i] by (simp add: Let_def a_def)
  next
    case 3
    have small: "0 < i - (8 - s)" "i - (8 - s) \<le> 8" "consumed + (8 - s) + (i - (8 - s)) = consumed + i" "\<not> length b \<le> j"
      "i \<noteq> 8 - s" "\<not> i < 8 - s"
      using 3 "1.prems" j by linarith+
    obtain w where w: "next_bits b (consumed + (8 - s)) (i - (8 - s)) = Some (w, consumed + i)"
      "unat w = bits_value (take (i - (8 - s)) (drop (consumed + (8 - s)) (key_bits b)))"
      using "1.IH" [OF j_def _ _ refl _ _ refl, of "8 - s"] "1.prems"(3) small by (auto simp: s_def)
    have "take i (drop consumed (key_bits b)) = take (8 - s) (drop consumed (key_bits b)) @ take (i - (8 - s)) (drop (consumed + (8 - s)) (key_bits b))"
      using take_split [of "8 - s" i "drop consumed (key_bits b)"] 3 by (simp add: add.commute)
    then have sum: "bits_value (take i (drop consumed (key_bits b))) = unat (b ! j) mod 2 ^ (8 - s) * 2 ^ (i - (8 - s)) + unat w"
      using slice [of "8 - s"] js(2) w(2) "1.prems" by (simp add: bits_value_append key_bits_length)
    have "unat (push_bit (i - (8 - s)) (mkmask (8 - s) AND b ! j) + w) = unat (b ! j) mod 2 ^ (8 - s) * 2 ^ (i - (8 - s)) + unat w"
    proof -
      let ?m = "i - (8 - s)" and ?y = "unat (b ! j) mod 2 ^ (8 - s)"
      have "bits_value (take i (drop consumed (key_bits b))) < 2 ^ i"
        using bits_value_less [of "take i (drop consumed (key_bits b))"] "1.prems" by (simp add: key_bits_length)
      also have "(2 :: nat) ^ i \<le> 2 ^ 8" using "1.prems" by (intro power_increasing) auto
      finally have less: "?y * 2 ^ ?m + unat w < 2 ^ 8" using sum by simp
      have "unat (mkmask (8 - s) AND b ! j) = ?y" using unat_mask [of "8 - s" "b ! j"] by (simp add: and.commute)
      then have "unat (push_bit ?m (mkmask (8 - s) AND b ! j)) = take_bit 8 (?y * 2 ^ ?m)"
        by (simp only: unsigned_push_bit_eq push_bit_nat_def) simp
      then have "unat (push_bit ?m (mkmask (8 - s) AND b ! j)) = ?y * 2 ^ ?m"
        using less by (simp only: take_bit_nat_eq_self)
      then show ?thesis using less by (simp add: unat_word_ariths)
    qed
    then show ?thesis unfolding unf using 3 j w(1) sum by (simp add: Let_def)
  qed
qed

lemma hash_next_value:
  assumes "0 < i" "i \<le> 8" "consumed < 8 * length b"
  defines "n \<equiv> min i (8 * length b - consumed)"
  shows "\<exists>w. hash_next b consumed i = Inr (w, consumed + n) \<and> unat w = bits_value (take n (drop consumed (key_bits b)))"
proof -
  have "0 < n" "n \<le> 8" "consumed + n \<le> 8 * length b" using assms by (auto simp: n_def)
  then obtain w where "next_bits b consumed n = Some (w, consumed + n)" "unat w = bits_value (take n (drop consumed (key_bits b)))"
    using next_bits_value by blast
  then show ?thesis using assms by (auto simp: hash_next_def Let_def mult.commute)
qed

lemma hash_next_error:
  "hash_next b consumed i = Inl e \<Longrightarrow>
    (i = 0 \<or> 8 < i) \<and> e = InvalidHashBitLen \<or> 8 * length b \<le> consumed \<and> e = MaxDepth"
  using hash_next_value [of i consumed b]
  by (cases "i = 0 \<or> 8 < i"; cases "consumed < 8 * length b") (auto simp: hash_next_def Let_def split: if_splits)

lemma bits_value_inject: "length xs = length ys \<Longrightarrow> bits_value xs = bits_value ys \<Longrightarrow> xs = ys"
proof (induction xs arbitrary: ys rule: rev_induct)
  case (snoc x xs)
  then obtain z zs where ys: "ys = zs @ [z]" by (cases ys rule: rev_cases) auto
  have one: "bits_value [y] = of_bool y" for y by (simp add: bits_value_def)
  have "2 * bits_value xs + of_bool x = 2 * bits_value zs + of_bool z"
    using snoc.prems(2) by (simp add: ys bits_value_append one mult.commute)
  then have "x = z" "bits_value xs = bits_value zs" by (cases x; cases z; simp; presburger)+
  then show ?case using snoc by (simp add: ys)
qed simp

end
