(* ===== verification/CborStore.thy ===== *)
theory CborStore
  imports CborScan
begin

text \<open>
  Typed objects in a block store: \<open>ipld/encoding/src/cbor_store.rs\<close> over the \<open>Blockstore\<close> trait of
  \<open>ipld/blockstore/src/lib.rs\<close>. The serializer, the deserializer and the hash that makes up a CID are
  parameters. A store is the map from CIDs to the answers of \<open>get\<close>; a block that was put is found
  under its CID.
\<close>

type_synonym store_error = string

record 'a codec =
  to_vec :: "'a \<Rightarrow> bytes option"
  from_slice :: "bytes \<Rightarrow> 'a option"
  block_cid :: "bytes \<Rightarrow> Cid"

definition cbor_get :: "'a codec \<Rightarrow> Blocks \<Rightarrow> Cid \<Rightarrow> store_error + 'a option" where
  "cbor_get cd bs c =
    (if cid_codec c \<noteq> CBOR \<and> cid_codec c \<noteq> DAG_CBOR then Inl ''not CBOR or DagCBOR''
     else case bs c of
       Inl _ \<Rightarrow> Inl ''blockstore''
     | Inr None \<Rightarrow> Inr None
     | Inr (Some bz) \<Rightarrow> (case from_slice cd bz of None \<Rightarrow> Inl ''deserialization'' | Some res \<Rightarrow> Inr (Some res)))"

definition cbor_put :: "'a codec \<Rightarrow> Blocks \<Rightarrow> 'a \<Rightarrow> store_error + Cid \<times> Blocks" where
  "cbor_put cd bs obj =
    (case to_vec cd obj of
       None \<Rightarrow> Inl ''serialization''
     | Some bz \<Rightarrow> let k = block_cid cd bz in Inr (k, bs(k := Inr (Some bz))))"

text \<open>
  What the containers rely on: everything is serialized and read back, CIDs made for \<open>DAG_CBOR\<close> say so
  and are collision free, and a store only holds blocks under their own CIDs.
\<close>

definition codec_ok :: "'a codec \<Rightarrow> bool" where
  "codec_ok cd \<longleftrightarrow>
    (\<forall>x. \<exists>bz. to_vec cd x = Some bz \<and> from_slice cd bz = Some x) \<and>
    (\<forall>bz. cid_codec (block_cid cd bz) = DAG_CBOR) \<and> inj (block_cid cd)"

definition obj_cid :: "'a codec \<Rightarrow> 'a \<Rightarrow> Cid" where
  "obj_cid cd x = block_cid cd (the (to_vec cd x))"

text \<open>Nothing that was readable is lost or changed.\<close>

definition extends_store :: "'a codec \<Rightarrow> Blocks \<Rightarrow> Blocks \<Rightarrow> bool" where
  "extends_store cd bs bs' \<longleftrightarrow>
    (\<forall>c x. cbor_get cd bs c = Inr (Some x) \<and> c = obj_cid cd x \<longrightarrow> cbor_get cd bs' c = Inr (Some x))"

lemma obj_cid_inject: "codec_ok cd \<Longrightarrow> obj_cid cd x = obj_cid cd y \<Longrightarrow> x = y"
proof -
  assume ok: "codec_ok cd" and eq: "obj_cid cd x = obj_cid cd y"
  obtain bx "by" where "to_vec cd x = Some bx" "from_slice cd bx = Some x" "to_vec cd y = Some by" "from_slice cd by = Some y"
    using ok unfolding codec_ok_def by blast
  moreover have "the (to_vec cd x) = the (to_vec cd y)" using ok eq by (auto simp: codec_ok_def obj_cid_def dest: injD)
  ultimately show ?thesis by simp
qed

lemma cbor_put_get:
  assumes "codec_ok cd"
  obtains bs' where "cbor_put cd bs x = Inr (obj_cid cd x, bs')" "cbor_get cd bs' (obj_cid cd x) = Inr (Some x)"
    "extends_store cd bs bs'"
proof -
  obtain bz where bz: "to_vec cd x = Some bz" "from_slice cd bz = Some x" using assms by (auto simp: codec_ok_def)
  let ?bs = "bs(block_cid cd bz := Inr (Some bz))"
  have "cbor_put cd bs x = Inr (obj_cid cd x, ?bs)" using bz by (simp add: cbor_put_def obj_cid_def Let_def)
  moreover have get: "cbor_get cd ?bs (obj_cid cd x) = Inr (Some x)"
    using bz assms by (simp add: cbor_get_def obj_cid_def codec_ok_def)
  moreover have "extends_store cd bs ?bs"
    unfolding extends_store_def
  proof (intro allI impI)
    fix c y
    assume c: "cbor_get cd bs c = Inr (Some y) \<and> c = obj_cid cd y"
    show "cbor_get cd ?bs c = Inr (Some y)"
    proof (cases "c = block_cid cd bz")
      case True
      then have "y = x" using c obj_cid_inject [OF assms, of y x] bz by (simp add: obj_cid_def)
      then show ?thesis using get c by simp
    next
      case False
      then have "cbor_get cd ?bs c = cbor_get cd bs c" by (simp add: cbor_get_def)
      then show ?thesis using conjunct1 [OF c] by (rule trans)
    qed
  qed
  ultimately show ?thesis using that by blast
qed

lemma extends_store_refl: "extends_store cd bs bs"
  by (simp add: extends_store_def)

lemma extends_store_trans: "extends_store cd a b \<Longrightarrow> extends_store cd b c \<Longrightarrow> extends_store cd a c"
  by (simp add: extends_store_def)


text \<open>A codec that satisfies these assumptions, for any type whose values can be numbered.\<close>

definition numbering_codec :: "('a \<Rightarrow> nat) \<Rightarrow> 'a codec" where
  "numbering_codec num =
    \<lparr>to_vec = \<lambda>x. Some (replicate (num x) 0), from_slice = \<lambda>bz. Some (inv num (length bz)),
     block_cid = \<lambda>bz. \<lparr>cid_version = 1, cid_codec = DAG_CBOR, mh_code = 0xb220, mh_digest = bz\<rparr>\<rparr>"

lemma numbering_codec_ok: "inj num \<Longrightarrow> codec_ok (numbering_codec num)"
  by (simp add: codec_ok_def numbering_codec_def inj_def)

subsection \<open>Traversals with a limit\<close>

text \<open>The items that a traversal with a limit visits, and those it leaves.\<close>

definition limit_list :: "nat option \<Rightarrow> 'a list \<Rightarrow> 'a list" where
  "limit_list limit xs = (case limit of None \<Rightarrow> xs | Some l \<Rightarrow> take l xs)"

definition after_limit :: "nat option \<Rightarrow> 'a list \<Rightarrow> 'a list" where
  "after_limit limit xs = (case limit of None \<Rightarrow> [] | Some l \<Rightarrow> drop l xs)"

end
