(* ===== verification/Hamt.thy ===== *)
theory Hamt
  imports SparseSlots HashBits CborStore
begin

text \<open>
  The hash array mapped trie of \<open>ipld/hamt/src\<close>: nodes and pointers (\<open>node.rs\<close>, \<open>pointer.rs\<close>) and the
  map on top of them (\<open>hamt.rs\<close>). A node keeps a child for every slot whose bit is set: a bucket of
  key-value pairs, a link to a stored node with a cache of it, or a node that is not stored yet. The
  operations descend along the bits of the hashed key and end at the latest when the bits are used
  up. Every operation returns its result together with the node it leaves behind, on errors too:
  caches that were filled and buckets that were taken apart before the error stay so, as in the code.

  The hash function, the serializer and the CIDs are parameters.
\<close>

record Config =
  bit_width :: nat
  min_data_depth :: nat
  max_array_width :: nat

text \<open>A hashed key has 32 bytes.\<close>

typedef HashedKey = "{b :: bytes. length b = 32}"
  by (rule exI [of _ "replicate 32 0"]) simp

lemma hashed_key_length [simp]: "length (Rep_HashedKey h) = 32"
  using Rep_HashedKey [of h] by simp

datatype ('k, 'v) Pointer =
    Values "('k \<times> 'v) list"
  | Link Cid "('k, 'v) Node option"
  | Dirty "('k, 'v) Node"
and ('k, 'v) Node = Node (node_bitfield: Bitfield) (node_pointers: "('k, 'v) Pointer list")

definition node_default :: "('k, 'v) Node" where
  "node_default = Node bm_zero []"

text \<open>What is stored of a pointer.\<close>

datatype ('k, 'v) PointerSer = SerValues "('k \<times> 'v) list" | SerLink Cid

type_synonym ('k, 'v) node_codec = "(Bitfield \<times> ('k, 'v) PointerSer list) codec"

record ('k, 'v) hamt_env =
  hm_conf :: Config
  hm_codec :: "('k, 'v) node_codec"
  hm_hash :: "'k \<Rightarrow> HashedKey"

definition pointer_de :: "('k, 'v) PointerSer \<Rightarrow> ('k, 'v) Pointer" where
  "pointer_de p = (case p of SerValues kvs \<Rightarrow> Values kvs | SerLink c \<Rightarrow> Link c None)"

fun pointers_ser :: "('k, 'v) Pointer list \<Rightarrow> HamtError + ('k, 'v) PointerSer list" where
  "pointers_ser [] = Inr []"
| "pointers_ser (p # ps) =
    (case (case p of Values kvs \<Rightarrow> Inr (SerValues kvs) | Link c _ \<Rightarrow> Inr (SerLink c)
             | Dirty _ \<Rightarrow> Inl (Dynamic ''Cannot serialize cached values'')) of
       Inl e \<Rightarrow> Inl e
     | Inr q \<Rightarrow> (case pointers_ser ps of Inl e \<Rightarrow> Inl e | Inr qs \<Rightarrow> Inr (q # qs)))"

definition node_put :: "('k, 'v) node_codec \<Rightarrow> ('k, 'v) Node \<Rightarrow> Blocks \<Rightarrow> HamtError + Cid \<times> Blocks" where
  "node_put cd n bs =
    (case pointers_ser (node_pointers n) of
       Inl e \<Rightarrow> Inl e
     | Inr qs \<Rightarrow> (case cbor_put cd bs (node_bitfield n, qs) of Inl e \<Rightarrow> Inl (Dynamic e) | Inr r \<Rightarrow> Inr r))"

subsection \<open>Loading a node\<close>

fun keys_ascending :: "('k::linorder \<times> 'v) list \<Rightarrow> bool" where
  "keys_ascending (a # b # kvs) \<longleftrightarrow> fst a < fst b \<and> keys_ascending (b # kvs)"
| "keys_ascending _ \<longleftrightarrow> True"

fun check_pointers :: "Config \<Rightarrow> nat \<Rightarrow> ('k::linorder, 'v) Pointer list \<Rightarrow> HamtError option" where
  "check_pointers conf depth [] = None"
| "check_pointers conf depth (p # ps) =
    (case (case p of
        Values kvs \<Rightarrow>
          if depth < min_data_depth conf then Some (Dynamic ''values not allowed below the minimum data depth'')
          else if kvs = [] then Some (Dynamic ''empty HAMT bucket'')
          else if length kvs > max_array_width conf then Some (Dynamic ''too many items in bucket'')
          else if \<not> keys_ascending kvs then Some (Dynamic ''duplicate or unsorted keys in bucket'')
          else None
      | Link c _ \<Rightarrow> if cid_codec c \<noteq> DAG_CBOR then Some (Dynamic ''hamt nodes must be DagCBOR'') else None
      | Dirty _ \<Rightarrow> Some Panic) of
       Some e \<Rightarrow> Some e
     | None \<Rightarrow> check_pointers conf depth ps)"

definition node_load :: "Config \<Rightarrow> ('k::linorder, 'v) node_codec \<Rightarrow> Blocks \<Rightarrow> Cid \<Rightarrow> nat \<Rightarrow> HamtError + ('k, 'v) Node" where
  "node_load conf cd bs k depth =
    (case cbor_get cd bs k of
       Inl e \<Rightarrow> Inl (Dynamic e)
     | Inr None \<Rightarrow> Inl CidNotFound
     | Inr (Some (bitfield, qs)) \<Rightarrow>
         let pointers = map pointer_de qs
         in if length pointers > 2 ^ bit_width conf then Inl (Dynamic ''number of pointers exceeds the bitwidth'')
            else if bm_count_ones bitfield \<noteq> length pointers then Inl (Dynamic ''number of pointers does not match bitfield'')
            else if pointers = [] \<and> depth \<noteq> 0 then Inl ZeroPointers
            else case check_pointers conf depth pointers of
              Some e \<Rightarrow> Inl e
            | None \<Rightarrow> Inr (Node bitfield pointers))"

text \<open>\<open>cache.get_or_try_init\<close>: the cached node, or the loaded one.\<close>

definition cached :: "Config \<Rightarrow> ('k::linorder, 'v) node_codec \<Rightarrow> Blocks \<Rightarrow> Cid \<Rightarrow> ('k, 'v) Node option \<Rightarrow> nat \<Rightarrow> HamtError + ('k, 'v) Node" where
  "cached conf cd bs c cache depth = (case cache of Some n \<Rightarrow> Inr n | None \<Rightarrow> node_load conf cd bs c depth)"

subsection \<open>Children\<close>

definition with_child :: "('k, 'v) Node \<Rightarrow> nat \<Rightarrow> ('k, 'v) Pointer \<Rightarrow> ('k, 'v) Node" where
  "with_child n i p = Node (node_bitfield n) ((node_pointers n)[i := p])"

definition insert_pointer :: "('k, 'v) Node \<Rightarrow> nat \<Rightarrow> ('k, 'v) Pointer \<Rightarrow> ('k, 'v) Node" where
  "insert_pointer n idx p =
    (let i = index_for_bit_pos (node_bitfield n) idx
     in Node (bm_set_bit (node_bitfield n) idx) (vec_insert i p (node_pointers n)))"

definition insert_child :: "('k, 'v) Node \<Rightarrow> nat \<Rightarrow> 'k \<Rightarrow> 'v \<Rightarrow> ('k, 'v) Node" where
  "insert_child n idx key val = insert_pointer n idx (Values [(key, val)])"

definition insert_child_dirty :: "('k, 'v) Node \<Rightarrow> nat \<Rightarrow> ('k, 'v) Node \<Rightarrow> ('k, 'v) Node" where
  "insert_child_dirty n idx node = insert_pointer n idx (Dirty node)"

definition rm_child :: "('k, 'v) Node \<Rightarrow> nat \<Rightarrow> nat \<Rightarrow> ('k, 'v) Node" where
  "rm_child n i idx = Node (bm_clear_bit (node_bitfield n) idx) (vec_remove i (node_pointers n))"

definition position :: "('a \<Rightarrow> bool) \<Rightarrow> 'a list \<Rightarrow> nat option" where
  "position P xs = (case filter (\<lambda>i. P (xs ! i)) [0..<length xs] of [] \<Rightarrow> None | i # _ \<Rightarrow> Some i)"

subsection \<open>Looking up\<close>

definition hash_step :: "('k, 'v) hamt_env \<Rightarrow> HashedKey \<Rightarrow> nat \<Rightarrow> HamtError + u8 \<times> nat" where
  "hash_step env h consumed = hash_next (Rep_HashedKey h) consumed (bit_width (hm_conf env))"

lemma next_bits_consumed: "next_bits b c i = Some (w, c') \<Longrightarrow> c' = c + i"
proof (induction b c i arbitrary: w c' rule: next_bits.induct)
  case (1 b c i)
  then show ?case
    by (subst (asm) (2) next_bits.simps) (auto simp: Let_def split: if_splits)
qed

lemma hash_step_less: "hash_step env h c = Inr (w, c') \<Longrightarrow> 256 - c' < 256 - c"
  by (auto simp: hash_step_def hash_next_def Let_def dest!: next_bits_consumed split: if_splits option.splits)

function get_value ::
  "('k::linorder, 'v) hamt_env \<Rightarrow> Blocks \<Rightarrow> 'k \<Rightarrow> HashedKey \<Rightarrow> nat \<Rightarrow> nat \<Rightarrow> ('k, 'v) Node \<Rightarrow>
    (HamtError + ('k \<times> 'v) option) \<times> ('k, 'v) Node" where
  "get_value env bs key h consumed depth n =
    (case hash_step env h consumed of
       Inl e \<Rightarrow> (Inl e, n)
     | Inr (idx, consumed') \<Rightarrow>
         if \<not> bm_test_bit (node_bitfield n) (unat idx) then (Inr None, n)
         else
           let i = index_for_bit_pos (node_bitfield n) (unat idx)
           in if i \<ge> length (node_pointers n) then (Inl Panic, n)
              else case node_pointers n ! i of
                Link c cache \<Rightarrow>
                  (case cached (hm_conf env) (hm_codec env) bs c cache (depth + 1) of
                     Inl e \<Rightarrow> (Inl e, n)
                   | Inr node \<Rightarrow>
                       (case get_value env bs key h consumed' (depth + 1) node of
                          (r, node') \<Rightarrow> (r, with_child n i (Link c (Some node')))))
              | Dirty node \<Rightarrow>
                  (case get_value env bs key h consumed' (depth + 1) node of
                     (r, node') \<Rightarrow> (r, with_child n i (Dirty node')))
              | Values vals \<Rightarrow> (Inr (List.find (\<lambda>kv. fst kv = key) vals), n))"
  by pat_completeness auto
termination
  by (relation "measure (\<lambda>(env, bs, key, h, consumed, depth, n). 256 - consumed)") (auto dest: hash_step_less)

declare get_value.simps [simp del]

subsection \<open>Setting a value\<close>

text \<open>
  \<open>modify_value\<close> returns the old value and whether anything changed. A full bucket is taken apart into
  a new node; \<open>modify_all\<close> is the loop that puts its pairs there. When that fails, the pairs are gone.
\<close>

function modify_value ::
  "('k::linorder, 'v) hamt_env \<Rightarrow> Blocks \<Rightarrow> bool \<Rightarrow> 'k \<Rightarrow> 'v \<Rightarrow> HashedKey \<Rightarrow> nat \<Rightarrow> nat \<Rightarrow> ('k, 'v) Node \<Rightarrow>
    (HamtError + 'v option \<times> bool) \<times> ('k, 'v) Node"
  and modify_all ::
  "('k::linorder, 'v) hamt_env \<Rightarrow> Blocks \<Rightarrow> bool \<Rightarrow> ('k \<times> 'v) list \<Rightarrow> nat \<Rightarrow> nat \<Rightarrow> ('k, 'v) Node \<Rightarrow>
    (HamtError + unit) \<times> ('k, 'v) Node" where
  "modify_value env bs overwrite key val h consumed depth n =
    (case hash_step env h consumed of
       Inl e \<Rightarrow> (Inl e, n)
     | Inr (idx, consumed') \<Rightarrow>
         if \<not> bm_test_bit (node_bitfield n) (unat idx) then
           if depth \<ge> min_data_depth (hm_conf env) then (Inr (None, True), insert_child n (unat idx) key val)
           else
             (case modify_value env bs overwrite key val h consumed' (depth + 1) node_default of
                (Inl e, sub) \<Rightarrow> (Inl e, n)
              | (Inr _, sub) \<Rightarrow> (Inr (None, True), insert_child_dirty n (unat idx) sub))
         else
           let i = index_for_bit_pos (node_bitfield n) (unat idx)
           in if i \<ge> length (node_pointers n) then (Inl Panic, n)
              else case node_pointers n ! i of
                Link c cache \<Rightarrow>
                  (case cached (hm_conf env) (hm_codec env) bs c cache (depth + 1) of
                     Inl e \<Rightarrow> (Inl e, n)
                   | Inr node \<Rightarrow>
                       (case modify_value env bs overwrite key val h consumed' (depth + 1) node of
                          (Inl e, node') \<Rightarrow> (Inl e, with_child n i (Link c (Some node')))
                        | (Inr (old, modified), node') \<Rightarrow>
                            (Inr (old, modified),
                             with_child n i (if modified then Dirty node' else Link c (Some node')))))
              | Dirty node \<Rightarrow>
                  (case modify_value env bs overwrite key val h consumed' (depth + 1) node of
                     (r, node') \<Rightarrow> (r, with_child n i (Dirty node')))
              | Values vals \<Rightarrow>
                  (case position (\<lambda>p. fst p = key) vals of
                     Some j \<Rightarrow>
                       if overwrite
                       then (Inr (Some (snd (vals ! j)), snd (vals ! j) \<noteq> val),
                             with_child n i (Values (vals[j := (fst (vals ! j), val)])))
                       else (Inr (None, False), n)
                   | None \<Rightarrow>
                       if length vals \<ge> max_array_width (hm_conf env) then
                         (case modify_value env bs overwrite key val h consumed' (depth + 1) node_default of
                            (Inl e, sub) \<Rightarrow> (Inl e, with_child n i (Values []))
                          | (Inr modified, sub) \<Rightarrow>
                              (case modify_all env bs overwrite vals consumed' (depth + 1) sub of
                                 (Inl e, sub) \<Rightarrow> (Inl e, with_child n i (Values []))
                               | (Inr _, sub) \<Rightarrow> (Inr modified, with_child n i (Dirty sub))))
                       else
                         let j = (case position (\<lambda>c. fst c > key) vals of Some j \<Rightarrow> j | None \<Rightarrow> length vals)
                         in (Inr (None, True), with_child n i (Values (vec_insert j (key, val) vals)))))"
| "modify_all env bs overwrite [] consumed depth sub = (Inr (), sub)"
| "modify_all env bs overwrite (kv # kvs) consumed depth sub =
    (case modify_value env bs overwrite (fst kv) (snd kv) (hm_hash env (fst kv)) consumed depth sub of
       (Inl e, sub) \<Rightarrow> (Inl e, sub)
     | (Inr _, sub) \<Rightarrow> modify_all env bs overwrite kvs consumed depth sub)"
  by pat_completeness auto
termination
  by (relation "measures
      [\<lambda>x. case x of Inl (env, bs, overwrite, key, val, h, consumed, depth, n) \<Rightarrow> 256 - consumed
             | Inr (env, bs, overwrite, kvs, consumed, depth, sub) \<Rightarrow> 256 - consumed,
       \<lambda>x. case x of Inl _ \<Rightarrow> 0 | Inr (env, bs, overwrite, kvs, consumed, depth, sub) \<Rightarrow> Suc (length kvs)]")
    (auto dest: hash_step_less)

declare modify_value.simps [simp del]

subsection \<open>Removing a value\<close>

text \<open>\<open>Pointer::clean\<close>: a node that is left with few values goes back into a bucket.\<close>

fun bucket_of :: "('k, 'v) Pointer \<Rightarrow> ('k \<times> 'v) list option" where
  "bucket_of (Values vals) = Some vals"
| "bucket_of _ = None"

definition pointer_clean :: "Config \<Rightarrow> nat \<Rightarrow> ('k::linorder, 'v) Node \<Rightarrow> HamtError + ('k, 'v) Pointer" where
  "pointer_clean conf depth n =
    (let ps = node_pointers n
     in if length ps = 0 then Inl ZeroPointers
        else if depth < min_data_depth conf then Inr (Dirty n)
        else if length ps = 1 then
          (case bucket_of (ps ! 0) of Some vals \<Rightarrow> Inr (Values vals) | None \<Rightarrow> Inr (Dirty n))
        else if length ps \<le> max_array_width conf then
          if list_all (\<lambda>p. bucket_of p \<noteq> None) ps then
            let vals = concat (map (\<lambda>p. the (bucket_of p)) ps)
            in if length vals > max_array_width conf then Inr (Dirty n) else Inr (Values (sort_key fst vals))
          else Inr (Dirty n)
        else Inr (Dirty n))"

text \<open>\<open>Node::clean\<close>: nothing when the child is empty and may be removed.\<close>

definition node_clean :: "Config \<Rightarrow> nat \<Rightarrow> ('k::linorder, 'v) Node \<Rightarrow> HamtError + ('k, 'v) Pointer option" where
  "node_clean conf depth n =
    (case pointer_clean conf depth n of
       Inr p \<Rightarrow> Inr (Some p)
     | Inl ZeroPointers \<Rightarrow> if depth < min_data_depth conf then Inr None else Inl ZeroPointers
     | Inl e \<Rightarrow> Inl e)"

definition cleaned :: "('k::linorder, 'v) hamt_env \<Rightarrow> nat \<Rightarrow> ('k, 'v) Node \<Rightarrow> nat \<Rightarrow> nat \<Rightarrow> ('k, 'v) Node \<Rightarrow> ('k \<times> 'v) \<Rightarrow>
    (HamtError + ('k \<times> 'v) option) \<times> ('k, 'v) Node" where
  "cleaned env depth n i idx node deleted =
    (case node_clean (hm_conf env) depth node of
       Inl e \<Rightarrow> (Inl e, with_child n i (Dirty node))
     | Inr (Some p) \<Rightarrow> (Inr (Some deleted), with_child n i p)
     | Inr None \<Rightarrow> (Inr (Some deleted), rm_child n i idx))"

function rm_value ::
  "('k::linorder, 'v) hamt_env \<Rightarrow> Blocks \<Rightarrow> 'k \<Rightarrow> HashedKey \<Rightarrow> nat \<Rightarrow> nat \<Rightarrow> ('k, 'v) Node \<Rightarrow>
    (HamtError + ('k \<times> 'v) option) \<times> ('k, 'v) Node" where
  "rm_value env bs key h consumed depth n =
    (case hash_step env h consumed of
       Inl e \<Rightarrow> (Inl e, n)
     | Inr (idx, consumed') \<Rightarrow>
         if \<not> bm_test_bit (node_bitfield n) (unat idx) then (Inr None, n)
         else
           let i = index_for_bit_pos (node_bitfield n) (unat idx)
           in if i \<ge> length (node_pointers n) then (Inl Panic, n)
              else case node_pointers n ! i of
                Link c cache \<Rightarrow>
                  (case cached (hm_conf env) (hm_codec env) bs c cache (depth + 1) of
                     Inl e \<Rightarrow> (Inl e, n)
                   | Inr node \<Rightarrow>
                       (case rm_value env bs key h consumed' (depth + 1) node of
                          (Inl e, node') \<Rightarrow> (Inl e, with_child n i (Link c (Some node')))
                        | (Inr None, node') \<Rightarrow> (Inr None, with_child n i (Link c (Some node')))
                        | (Inr (Some kv), node') \<Rightarrow> cleaned env depth n i (unat idx) node' kv))
              | Dirty node \<Rightarrow>
                  (case rm_value env bs key h consumed' (depth + 1) node of
                     (Inl e, node') \<Rightarrow> (Inl e, with_child n i (Dirty node'))
                   | (Inr None, node') \<Rightarrow> (Inr None, with_child n i (Dirty node'))
                   | (Inr (Some kv), node') \<Rightarrow> cleaned env depth n i (unat idx) node' kv)
              | Values vals \<Rightarrow>
                  (case position (\<lambda>p. key = fst p) vals of
                     None \<Rightarrow> (Inr None, n)
                   | Some j \<Rightarrow>
                       if length vals = 1 then (Inr (Some (vals ! 0)), rm_child n i (unat idx))
                       else (Inr (Some (vals ! j)), with_child n i (Values (vec_remove j vals)))))"
  by pat_completeness auto
termination
  by (relation "measure (\<lambda>(env, bs, key, h, consumed, depth, n). 256 - consumed)") (auto dest: hash_step_less)

declare rm_value.simps [simp del]

subsection \<open>Storing the nodes\<close>

text \<open>
  \<open>Node::flush\<close> stores the dirty nodes bottom up and turns them into links that keep the node cached.
  It stops at the first error with what was stored so far.
\<close>

fun node_flush :: "('k, 'v) node_codec \<Rightarrow> ('k, 'v) Node \<Rightarrow> Blocks \<Rightarrow> (HamtError + unit) \<times> ('k, 'v) Node \<times> Blocks"
  and pointers_flush :: "('k, 'v) node_codec \<Rightarrow> ('k, 'v) Pointer list \<Rightarrow> Blocks \<Rightarrow>
    (HamtError + unit) \<times> ('k, 'v) Pointer list \<times> Blocks"
  and pointer_flush :: "('k, 'v) node_codec \<Rightarrow> ('k, 'v) Pointer \<Rightarrow> Blocks \<Rightarrow>
    (HamtError + unit) \<times> ('k, 'v) Pointer \<times> Blocks" where
  "node_flush cd (Node b ps) bs = (case pointers_flush cd ps bs of (r, ps', bs') \<Rightarrow> (r, Node b ps', bs'))"
| "pointers_flush cd [] bs = (Inr (), [], bs)"
| "pointers_flush cd (p # ps) bs =
    (case pointer_flush cd p bs of
       (Inl e, p', bs') \<Rightarrow> (Inl e, p' # ps, bs')
     | (Inr _, p', bs') \<Rightarrow> (case pointers_flush cd ps bs' of (r, ps', bs'') \<Rightarrow> (r, p' # ps', bs'')))"
| "pointer_flush cd (Dirty n) bs =
    (case node_flush cd n bs of
       (Inl e, n', bs') \<Rightarrow> (Inl e, Dirty n', bs')
     | (Inr _, n', bs') \<Rightarrow>
         (case node_put cd n' bs' of
            Inl e \<Rightarrow> (Inl e, Dirty n', bs')
          | Inr (c, bs'') \<Rightarrow> (Inr (), Link c (Some n'), bs'')))"
| "pointer_flush cd p bs = (Inr (), p, bs)"

subsection \<open>The map\<close>

record ('k, 'v) Hamt =
  hamt_root :: "('k, 'v) Node"
  hamt_blocks :: Blocks
  flushed_cid :: "Cid option"

definition hamt_new :: "Blocks \<Rightarrow> ('k, 'v) Hamt" where
  "hamt_new bs = \<lparr>hamt_root = node_default, hamt_blocks = bs, flushed_cid = None\<rparr>"

definition hamt_load_root :: "('k::linorder, 'v) hamt_env \<Rightarrow> Cid \<Rightarrow> Blocks \<Rightarrow> HamtError + ('k, 'v) Hamt" where
  "hamt_load_root env c bs =
    (case node_load (hm_conf env) (hm_codec env) bs c 0 of
       Inl e \<Rightarrow> Inl e
     | Inr n \<Rightarrow> Inr \<lparr>hamt_root = n, hamt_blocks = bs, flushed_cid = Some c\<rparr>)"

definition hamt_set_root :: "('k::linorder, 'v) hamt_env \<Rightarrow> Cid \<Rightarrow> ('k, 'v) Hamt \<Rightarrow> (HamtError + unit) \<times> ('k, 'v) Hamt" where
  "hamt_set_root env c t =
    (case node_load (hm_conf env) (hm_codec env) (hamt_blocks t) c 0 of
       Inl e \<Rightarrow> (Inl e, t)
     | Inr n \<Rightarrow> (Inr (), t\<lparr>hamt_root := n, flushed_cid := Some c\<rparr>))"

definition hamt_modify :: "('k::linorder, 'v) hamt_env \<Rightarrow> bool \<Rightarrow> 'k \<Rightarrow> 'v \<Rightarrow> ('k, 'v) Hamt \<Rightarrow>
    (HamtError + 'v option \<times> bool) \<times> ('k, 'v) Hamt" where
  "hamt_modify env overwrite key val t =
    (case modify_value env (hamt_blocks t) overwrite key val (hm_hash env key) 0 0 (hamt_root t) of
       (Inl e, n) \<Rightarrow> (Inl e, t\<lparr>hamt_root := n\<rparr>)
     | (Inr (old, modified), n) \<Rightarrow>
         (Inr (old, modified), t\<lparr>hamt_root := n, flushed_cid := (if modified then None else flushed_cid t)\<rparr>))"

definition hamt_set :: "('k::linorder, 'v) hamt_env \<Rightarrow> 'k \<Rightarrow> 'v \<Rightarrow> ('k, 'v) Hamt \<Rightarrow> (HamtError + 'v option) \<times> ('k, 'v) Hamt" where
  "hamt_set env key val t = map_prod (map_sum id fst) id (hamt_modify env True key val t)"

definition hamt_set_if_absent :: "('k::linorder, 'v) hamt_env \<Rightarrow> 'k \<Rightarrow> 'v \<Rightarrow> ('k, 'v) Hamt \<Rightarrow> (HamtError + bool) \<times> ('k, 'v) Hamt" where
  "hamt_set_if_absent env key val t = map_prod (map_sum id snd) id (hamt_modify env False key val t)"

definition hamt_get :: "('k::linorder, 'v) hamt_env \<Rightarrow> 'k \<Rightarrow> ('k, 'v) Hamt \<Rightarrow> (HamtError + 'v option) \<times> ('k, 'v) Hamt" where
  "hamt_get env key t =
    (case get_value env (hamt_blocks t) key (hm_hash env key) 0 0 (hamt_root t) of
       (r, n) \<Rightarrow> (map_sum id (map_option snd) r, t\<lparr>hamt_root := n\<rparr>))"

definition hamt_contains_key :: "('k::linorder, 'v) hamt_env \<Rightarrow> 'k \<Rightarrow> ('k, 'v) Hamt \<Rightarrow> (HamtError + bool) \<times> ('k, 'v) Hamt" where
  "hamt_contains_key env key t = map_prod (map_sum id (\<lambda>v. v \<noteq> None)) id (hamt_get env key t)"

definition hamt_delete :: "('k::linorder, 'v) hamt_env \<Rightarrow> 'k \<Rightarrow> ('k, 'v) Hamt \<Rightarrow> (HamtError + ('k \<times> 'v) option) \<times> ('k, 'v) Hamt" where
  "hamt_delete env key t =
    (case rm_value env (hamt_blocks t) key (hm_hash env key) 0 0 (hamt_root t) of
       (Inl e, n) \<Rightarrow> (Inl e, t\<lparr>hamt_root := n\<rparr>)
     | (Inr deleted, n) \<Rightarrow>
         (Inr deleted, t\<lparr>hamt_root := n, flushed_cid := (if deleted \<noteq> None then None else flushed_cid t)\<rparr>))"

definition hamt_flush_root :: "('k, 'v) hamt_env \<Rightarrow> ('k, 'v) Hamt \<Rightarrow> (HamtError + Cid) \<times> ('k, 'v) Hamt" where
  "hamt_flush_root env t =
    (case flushed_cid t of
       Some c \<Rightarrow> (Inr c, t)
     | None \<Rightarrow>
         (case node_flush (hm_codec env) (hamt_root t) (hamt_blocks t) of
            (Inl e, n, bs) \<Rightarrow> (Inl e, t\<lparr>hamt_root := n, hamt_blocks := bs\<rparr>)
          | (Inr _, n, bs) \<Rightarrow>
              (case node_put (hm_codec env) n bs of
                 Inl e \<Rightarrow> (Inl e, t\<lparr>hamt_root := n, hamt_blocks := bs\<rparr>)
               | Inr (c, bs') \<Rightarrow> (Inr c, t\<lparr>hamt_root := n, hamt_blocks := bs', flushed_cid := Some c\<rparr>))))"

definition hamt_is_empty :: "('k, 'v) Hamt \<Rightarrow> bool" where
  "hamt_is_empty t \<longleftrightarrow> node_pointers (hamt_root t) = []"

definition hamt_clear :: "('k, 'v) Hamt \<Rightarrow> ('k, 'v) Hamt" where
  "hamt_clear t = (if hamt_is_empty t then t else t\<lparr>hamt_root := node_default, flushed_cid := None\<rparr>)"

end
