(* ===== verification/HamtTree.thy ===== *)
theory HamtTree
  imports Hamt
begin

text \<open>
  The maps that HAMT nodes stand for. \<open>tree env bs c d n m\<close> says that node \<open>n\<close>, reached after \<open>c\<close> bits
  of the hash at depth \<open>d\<close>, holds exactly the entries of \<open>m\<close> in canonical form: every key is in the slot
  that its hash selects, buckets are sorted, not empty and not too long, there are no buckets above the
  minimum data depth, and a child node is there only where a bucket would be too long (or above the
  minimum data depth). Every link leads to a stored node of the entries below it. Looking up, setting
  and removing refine the operations on maps.
\<close>

definition conf_ok :: "Config \<Rightarrow> bool" where
  "conf_ok conf \<longleftrightarrow> 0 < bit_width conf \<and> bit_width conf \<le> 8 \<and> 0 < max_array_width conf \<and>
    min_data_depth conf * bit_width conf < 256"

definition next_consumed :: "('k, 'v) hamt_env \<Rightarrow> nat \<Rightarrow> nat" where
  "next_consumed env c = c + min (bit_width (hm_conf env)) (256 - c)"

definition key_slot :: "('k, 'v) hamt_env \<Rightarrow> nat \<Rightarrow> 'k \<Rightarrow> nat" where
  "key_slot env c k = (case hash_step env (hm_hash env k) c of Inl _ \<Rightarrow> 0 | Inr (w, _) \<Rightarrow> unat w)"

lemma hash_step_Inr:
  assumes "conf_ok (hm_conf env)" "c < 256"
  obtains w where "hash_step env (hm_hash env k) c = Inr (w, next_consumed env c)" "unat w = key_slot env c k"
proof -
  obtain w where "hash_step env (hm_hash env k) c = Inr (w, next_consumed env c)"
    using hash_next_value [of "bit_width (hm_conf env)" c "Rep_HashedKey (hm_hash env k)"] assms
    by (auto simp: hash_step_def conf_ok_def next_consumed_def)
  then show ?thesis using that by (simp add: key_slot_def)
qed

lemma key_slot_bound: "key_slot env c k < 256"
  using unat_less_exp [where 'a = 8] by (auto simp: key_slot_def split: sum.splits)

lemma next_consumed_less: "conf_ok (hm_conf env) \<Longrightarrow> c < 256 \<Longrightarrow> c < next_consumed env c \<and> next_consumed env c \<le> 256"
  by (auto simp: next_consumed_def conf_ok_def)

subsection \<open>The tree of a map\<close>

definition node_slot :: "('k, 'v) Node \<Rightarrow> nat \<Rightarrow> ('k, 'v) Pointer option" where
  "node_slot n = slot_get (node_bitfield n) (node_pointers n)"

definition node_ok :: "('k, 'v) Node \<Rightarrow> bool" where
  "node_ok n \<longleftrightarrow> slots_ok (node_bitfield n) (node_pointers n)"

fun child :: "('k::linorder, 'v) hamt_env \<Rightarrow> Blocks \<Rightarrow> nat \<Rightarrow> ('k, 'v) Pointer \<Rightarrow> ('k, 'v) Node option" where
  "child env bs d (Dirty n) = Some n"
| "child env bs d (Link c cache) =
    (case cached (hm_conf env) (hm_codec env) bs c cache d of Inl _ \<Rightarrow> None | Inr n \<Rightarrow> Some n)"
| "child env bs d (Values _) = None"

definition bucket_ok :: "Config \<Rightarrow> ('k::linorder \<times> 'v) list \<Rightarrow> bool" where
  "bucket_ok conf vs \<longleftrightarrow> vs \<noteq> [] \<and> length vs \<le> max_array_width conf \<and> sorted_wrt (<) (map fst vs)"

definition at_slot :: "('k, 'v) hamt_env \<Rightarrow> nat \<Rightarrow> ('k \<Rightarrow> 'v option) \<Rightarrow> nat \<Rightarrow> ('k \<Rightarrow> 'v option)" where
  "at_slot env c m i = m |` {k. key_slot env c k = i}"

text \<open>How many entries justify a child node.\<close>

definition child_size :: "Config \<Rightarrow> nat \<Rightarrow> ('k \<Rightarrow> 'v option) \<Rightarrow> bool" where
  "child_size conf d m \<longleftrightarrow> (if min_data_depth conf \<le> d then max_array_width conf < card (dom m) else m \<noteq> Map.empty)"

text \<open>The canonical form of a map in the store.\<close>

inductive stored :: "('k::linorder, 'v) hamt_env \<Rightarrow> Blocks \<Rightarrow> nat \<Rightarrow> nat \<Rightarrow> Cid \<Rightarrow> ('k \<Rightarrow> 'v option) \<Rightarrow> bool"
  for env bs where
  stored_node:
  "c < 256 \<Longrightarrow> cbor_get (hm_codec env) bs cid = Inr (Some (b, qs)) \<Longrightarrow> cid = obj_cid (hm_codec env) (b, qs) \<Longrightarrow> slots_ok b qs \<Longrightarrow>
    \<forall>i. slot_get b qs i = None \<longrightarrow> at_slot env c m i = Map.empty \<Longrightarrow>
    \<forall>i vs. slot_get b qs i = Some (SerValues vs) \<longrightarrow>
      min_data_depth (hm_conf env) \<le> d \<and> bucket_ok (hm_conf env) vs \<and> at_slot env c m i = map_of vs \<Longrightarrow>
    \<forall>i l. slot_get b qs i = Some (SerLink l) \<longrightarrow>
      child_size (hm_conf env) d (at_slot env c m i) \<and> stored env bs (next_consumed env c) (d + 1) l (at_slot env c m i) \<Longrightarrow>
    stored env bs c d cid m"

fun link_stored :: "('k::linorder, 'v) hamt_env \<Rightarrow> Blocks \<Rightarrow> nat \<Rightarrow> nat \<Rightarrow> ('k, 'v) Pointer \<Rightarrow> ('k \<Rightarrow> 'v option) \<Rightarrow> bool" where
  "link_stored env bs c d (Link l _) m = stored env bs c d l m"
| "link_stored env bs c d _ m = True"

inductive tree :: "('k::linorder, 'v) hamt_env \<Rightarrow> Blocks \<Rightarrow> nat \<Rightarrow> nat \<Rightarrow> ('k, 'v) Node \<Rightarrow> ('k \<Rightarrow> 'v option) \<Rightarrow> bool"
  for env bs where
  tree_node:
  "c < 256 \<Longrightarrow> node_ok n \<Longrightarrow>
    \<forall>i. node_slot n i = None \<longrightarrow> at_slot env c m i = Map.empty \<Longrightarrow>
    \<forall>i vs. node_slot n i = Some (Values vs) \<longrightarrow>
      min_data_depth (hm_conf env) \<le> d \<and> bucket_ok (hm_conf env) vs \<and> at_slot env c m i = map_of vs \<Longrightarrow>
    \<forall>i p. node_slot n i = Some p \<and> bucket_of p = None \<longrightarrow>
      (\<exists>n'. child env bs (d + 1) p = Some n' \<and> child_size (hm_conf env) d (at_slot env c m i) \<and>
        link_stored env bs (next_consumed env c) (d + 1) p (at_slot env c m i) \<and>
        tree env bs (next_consumed env c) (d + 1) n' (at_slot env c m i)) \<Longrightarrow>
    tree env bs c d n m"

text \<open>What a slot holds.\<close>

definition slot_rep :: "('k::linorder, 'v) hamt_env \<Rightarrow> Blocks \<Rightarrow> nat \<Rightarrow> nat \<Rightarrow> ('k, 'v) Pointer option \<Rightarrow> ('k \<Rightarrow> 'v option) \<Rightarrow> bool" where
  "slot_rep env bs c d po m =
    (case po of
       None \<Rightarrow> m = Map.empty
     | Some p \<Rightarrow>
         (case bucket_of p of
            Some vs \<Rightarrow> min_data_depth (hm_conf env) \<le> d \<and> bucket_ok (hm_conf env) vs \<and> m = map_of vs
          | None \<Rightarrow> \<exists>n'. child env bs (d + 1) p = Some n' \<and> child_size (hm_conf env) d m \<and>
              link_stored env bs (next_consumed env c) (d + 1) p m \<and> tree env bs (next_consumed env c) (d + 1) n' m))"

lemma bucket_of_Some: "bucket_of p = Some vs \<longleftrightarrow> p = Values vs"
  by (cases p) auto

lemma tree_iff: "tree env bs c d n m \<longleftrightarrow> c < 256 \<and> node_ok n \<and> (\<forall>i. slot_rep env bs c d (node_slot n i) (at_slot env c m i))"
  unfolding tree.simps [of env bs c d n m] slot_rep_def
  by (auto simp: bucket_of_Some split: option.splits)

lemma treeD:
  assumes "tree env bs c d n m"
  shows "c < 256" "node_ok n" "slot_rep env bs c d (node_slot n i) (at_slot env c m i)"
  using assms by (simp_all add: tree_iff)

lemma tree_change:
  assumes "tree env bs c d n m" "node_ok n'" "node_slot n' = (node_slot n)(i := po)"
    and "slot_rep env bs c d po (at_slot env c m' i)" "\<And>j. j \<noteq> i \<Longrightarrow> at_slot env c m' j = at_slot env c m j"
  shows "tree env bs c d n' m'"
  unfolding tree_iff
proof (intro conjI allI)
  show "c < 256" "node_ok n'" using treeD(1) [OF assms(1)] assms(2) by simp_all
  fix j
  show "slot_rep env bs c d (node_slot n' j) (at_slot env c m' j)"
    using assms(3-5) treeD(3) [OF assms(1), of j] by (cases "j = i") simp_all
qed

lemma at_slot_key: "at_slot env c m (key_slot env c k) k = m k"
  by (simp add: at_slot_def)

lemma at_slot_upd:
  "at_slot env c (m(k := v)) (key_slot env c k) = (at_slot env c m (key_slot env c k))(k := v)"
  "j \<noteq> key_slot env c k \<Longrightarrow> at_slot env c (m(k := v)) j = at_slot env c m j"
  by (auto simp: at_slot_def restrict_map_def fun_eq_iff)

lemma tree_empty: "c < 256 \<Longrightarrow> tree env bs c d node_default Map.empty"
  by (simp add: tree_iff node_ok_def node_default_def slots_ok_def count_ones_slots node_slot_def slot_get_None slot_rep_def at_slot_def)

subsection \<open>Children of a node\<close>

lemma with_child_slot:
  assumes "node_ok n" "i < 256" "bm_test_bit (node_bitfield n) i"
  defines "j \<equiv> index_for_bit_pos (node_bitfield n) i"
  shows "node_ok (with_child n j p)" "node_slot (with_child n j p) = (node_slot n)(i \<mapsto> p)"
    "j < length (node_pointers n)" "node_slot n i = Some (node_pointers n ! j)"
    "node_ok (rm_child n j i)" "node_slot (rm_child n j i) = (node_slot n)(i := None)"
proof -
  have i: "i \<in> slots (node_bitfield n)" using assms(2,3) by (simp add: slots_def)
  note ok = assms(1) [unfolded node_ok_def]
  show "node_ok (with_child n j p)" "node_slot (with_child n j p) = (node_slot n)(i \<mapsto> p)"
    using slot_update [OF ok i] by (simp_all add: with_child_def node_ok_def node_slot_def j_def)
  show "j < length (node_pointers n)" "node_slot n i = Some (node_pointers n ! j)"
    using index_bound [OF ok i] slot_get_Some [OF ok i] by (simp_all add: j_def node_slot_def)
  show "node_ok (rm_child n j i)" "node_slot (rm_child n j i) = (node_slot n)(i := None)"
    using slot_remove [OF ok i] by (simp_all add: rm_child_def node_ok_def node_slot_def j_def)
qed

lemma insert_slot:
  assumes "node_ok n" "i < 256" "\<not> bm_test_bit (node_bitfield n) i"
  shows "node_ok (insert_pointer n i p)" "node_slot (insert_pointer n i p) = (node_slot n)(i \<mapsto> p)" "node_slot n i = None"
proof -
  have i: "i \<notin> slots (node_bitfield n)" using assms(3) by (simp add: slots_def)
  show "node_ok (insert_pointer n i p)" "node_slot (insert_pointer n i p) = (node_slot n)(i \<mapsto> p)"
    using slot_insert [OF assms(1) [unfolded node_ok_def] assms(2) i] by (simp_all add: insert_pointer_def node_ok_def node_slot_def Let_def)
  show "node_slot n i = None" using i by (simp add: node_slot_def slot_get_None)
qed

subsection \<open>Looking up\<close>

text \<open>A child pointer whose node is replaced, as far as the cache or the dirty node goes.\<close>

fun refill :: "('k, 'v) Pointer \<Rightarrow> ('k, 'v) Node \<Rightarrow> ('k, 'v) Pointer" where
  "refill (Link c _) n = Link c (Some n)"
| "refill (Dirty _) n = Dirty n"
| "refill (Values vs) n = Values vs"

lemma refill_child: "child env bs d p = Some n \<Longrightarrow> child env bs d (refill p n') = Some n' \<and> bucket_of (refill p n') = None \<and>
    link_stored env bs c d (refill p n') m = link_stored env bs c d p m"
  by (cases p) (auto simp: cached_def)

lemma slot_rep_child:
  "child env bs (d + 1) p = Some n \<Longrightarrow>
    slot_rep env bs c d (Some p) m \<longleftrightarrow> child_size (hm_conf env) d m \<and>
      link_stored env bs (next_consumed env c) (d + 1) p m \<and> tree env bs (next_consumed env c) (d + 1) n m"
  by (cases p) (auto simp: slot_rep_def)

lemma slot_rep_cases:
  assumes "slot_rep env bs c d (Some p) m"
  obtains (bucket) vs where "p = Values vs" "min_data_depth (hm_conf env) \<le> d" "bucket_ok (hm_conf env) vs" "m = map_of vs"
    | (child) n where "child env bs (d + 1) p = Some n" "bucket_of p = None" "child_size (hm_conf env) d m"
      "link_stored env bs (next_consumed env c) (d + 1) p m" "tree env bs (next_consumed env c) (d + 1) n m"
  using assms by (cases p) (auto simp: slot_rep_def split: option.splits sum.splits)

lemma find_bucket: "List.find (\<lambda>kv. fst kv = k) vs = map_option (Pair k) (map_of vs k)"
  by (induction vs) auto

lemma get_value_empty:
  assumes "hash_step env h c = Inr (w, c')" "\<not> bm_test_bit (node_bitfield n) (unat w)"
  shows "get_value env bs k h c d n = (Inr None, n)"
  using assms by (subst get_value.simps) simp

lemma get_value_child:
  assumes "hash_step env h c = Inr (w, c')" "bm_test_bit (node_bitfield n) (unat w)"
    and "index_for_bit_pos (node_bitfield n) (unat w) = j" "j < length (node_pointers n)" "node_pointers n ! j = p"
    and "child env bs (d + 1) p = Some n'" "get_value env bs k h c' (d + 1) n' = (r, n'')"
  shows "get_value env bs k h c d n = (r, with_child n j (refill p n''))"
  using assms by (subst get_value.simps) (cases p, auto split: sum.splits)

lemma get_value_bucket:
  assumes "hash_step env h c = Inr (w, c')" "bm_test_bit (node_bitfield n) (unat w)"
    and "index_for_bit_pos (node_bitfield n) (unat w) = j" "j < length (node_pointers n)" "node_pointers n ! j = Values vs"
  shows "get_value env bs k h c d n = (Inr (List.find (\<lambda>kv. fst kv = k) vs), n)"
  using assms by (subst get_value.simps) simp

lemma next_consumed_measure: "conf_ok (hm_conf env) \<Longrightarrow> c < 256 \<Longrightarrow> 256 - next_consumed env c < 256 - c"
  using next_consumed_less [of env c] by linarith

lemma get_value_tree:
  assumes "conf_ok (hm_conf env)"
  shows "tree env bs c d n m \<Longrightarrow>
    \<exists>n'. get_value env bs k (hm_hash env k) c d n = (Inr (map_option (Pair k) (m k)), n') \<and> tree env bs c d n' m"
proof (induction "256 - c" arbitrary: c d n m rule: less_induct)
  case less
  let ?i = "key_slot env c k" and ?h = "hm_hash env k"
  note t = treeD [OF less.prems]
  obtain w where w: "hash_step env ?h c = Inr (w, next_consumed env c)" "unat w = ?i"
    using hash_step_Inr [OF assms t(1)] by blast
  have key: "m k = at_slot env c m ?i k" by (simp add: at_slot_key)
  show ?case
  proof (cases "bm_test_bit (node_bitfield n) ?i")
    case False
    then have "node_slot n ?i = None" by (rule insert_slot(3) [OF t(2) key_slot_bound])
    then have "m k = None" using t(3) [of ?i] key by (simp add: slot_rep_def)
    then show ?thesis using get_value_empty [OF w(1)] False w(2) less.prems by simp
  next
    case True
    define j where "j = index_for_bit_pos (node_bitfield n) ?i"
    note ch = with_child_slot [OF t(2) key_slot_bound [of env c k] True, folded j_def]
    have rep: "slot_rep env bs c d (Some (node_pointers n ! j)) (at_slot env c m ?i)" using t(3) [of ?i] ch(4) by simp
    then show ?thesis
    proof (cases rule: slot_rep_cases)
      case (bucket vs)
      have "get_value env bs k ?h c d n = (Inr (List.find (\<lambda>kv. fst kv = k) vs), n)"
        using get_value_bucket [OF w(1) _ _ ch(3) bucket(1)] True w(2) by (simp add: j_def)
      then show ?thesis using bucket(4) key less.prems by (simp add: find_bucket)
    next
      case (child n1)
      obtain n2 where n2: "get_value env bs k ?h (next_consumed env c) (d + 1) n1 =
          (Inr (map_option (Pair k) (at_slot env c m ?i k)), n2)" "tree env bs (next_consumed env c) (d + 1) n2 (at_slot env c m ?i)"
        using less.hyps [OF next_consumed_measure [OF assms t(1)] child(5)] by blast
      let ?p = "refill (node_pointers n ! j) n2"
      have "get_value env bs k ?h c d n = (Inr (map_option (Pair k) (m k)), with_child n j ?p)"
        using get_value_child [OF w(1) _ _ ch(3) refl child(1) n2(1)] True w(2) key by (simp add: j_def)
      moreover have "tree env bs c d (with_child n j ?p) m"
        using n2(2) child(3,4) refill_child [OF child(1), of n2]
        by (intro tree_change [OF less.prems ch(1,2)]) (simp_all add: slot_rep_child)
      ultimately show ?thesis by blast
    qed
  qed
qed

subsection \<open>Buckets\<close>

lemma position_Some:
  assumes "position P xs = Some j"
  shows "j < length xs" "P (xs ! j)" "\<And>i. i < j \<Longrightarrow> \<not> P (xs ! i)"
proof -
  obtain rest where f: "filter (\<lambda>i. P (xs ! i)) [0..<length xs] = j # rest"
    using assms by (auto simp: position_def split: list.splits)
  then have "j \<in> set (filter (\<lambda>i. P (xs ! i)) [0..<length xs])" by simp
  then show "j < length xs" "P (xs ! j)" by auto
  fix i
  assume "i < j"
  show "\<not> P (xs ! i)"
  proof
    assume "P (xs ! i)"
    then have "i \<in> set (j # rest)" using \<open>i < j\<close> \<open>j < length xs\<close> unfolding f [symmetric] by simp
    moreover have "sorted_wrt (<) (j # rest)" unfolding f [symmetric] by (intro sorted_wrt_filter) simp
    ultimately show False using \<open>i < j\<close> by auto
  qed
qed

lemma position_None: "position P xs = None \<longleftrightarrow> (\<forall>x \<in> set xs. \<not> P x)"
proof -
  have "position P xs = None \<longleftrightarrow> filter (\<lambda>i. P (xs ! i)) [0..<length xs] = []" by (simp add: position_def split: list.splits)
  then show ?thesis by (auto simp: filter_empty_conv all_set_conv_all_nth)
qed

lemma map_of_middle: "k \<notin> fst ` set xs \<Longrightarrow> map_of (xs @ (k, v) # ys) = (map_of (xs @ ys))(k \<mapsto> v)"
  by (induction xs) (auto simp: fun_upd_twist)

lemma bucket_distinct: "bucket_ok conf vs \<Longrightarrow> distinct (map fst vs)"
  by (auto simp: bucket_ok_def strict_sorted_iff)

lemma bucket_update:
  assumes "bucket_ok conf vs" "position (\<lambda>p. fst p = k) vs = Some j"
  shows "bucket_ok conf (vs[j := (fst (vs ! j), v)])" "map_of (vs[j := (fst (vs ! j), v)]) = (map_of vs)(k \<mapsto> v)"
    "map_of vs k = Some (snd (vs ! j))"
proof -
  note p = position_Some [OF assms(2)]
  have keys: "map fst (vs[j := (fst (vs ! j), v)]) = map fst vs" by (simp add: map_update) (metis list_update_id nth_map p(1))
  show "bucket_ok conf (vs[j := (fst (vs ! j), v)])" using assms(1) keys by (simp add: bucket_ok_def)
  have dist: "distinct (map fst vs)" by (rule bucket_distinct [OF assms(1)])
  show "map_of vs k = Some (snd (vs ! j))" using dist p(1,2) by (metis map_of_eq_Some_iff nth_mem prod.collapse)
  have split: "vs = take j vs @ (k, snd (vs ! j)) # drop (Suc j) vs"
    using p(1,2) id_take_nth_drop [OF p(1)] by (metis prod.collapse)
  have "distinct (map fst (take j vs @ (k, snd (vs ! j)) # drop (Suc j) vs))" using dist split by simp
  then have k: "k \<notin> fst ` set (take j vs)" by auto
  have "map_of vs = (map_of (take j vs @ drop (Suc j) vs))(k \<mapsto> snd (vs ! j))"
    using map_of_middle [OF k] split by metis
  then show "map_of (vs[j := (fst (vs ! j), v)]) = (map_of vs)(k \<mapsto> v)"
    using p map_of_middle [OF k, of v "drop (Suc j) vs"] by (simp add: upd_conv_take_nth_drop)
qed

lemma map_of_insert:
  assumes "k \<notin> fst ` set vs"
  shows "map_of (vec_insert j (k, v) vs) = (map_of vs)(k \<mapsto> v)"
proof -
  have "k \<notin> fst ` set (take j vs)" using assms by (meson image_mono in_mono set_take_subset)
  then show ?thesis by (simp add: vec_insert_def map_of_middle del: map_of_append)
qed

lemma sorted_insert:
  fixes k :: "'k::linorder"
  assumes "sorted_wrt (<) (map fst vs)" "k \<notin> fst ` set vs"
    and "j = (case position (\<lambda>c. k < fst c) vs of Some j \<Rightarrow> j | None \<Rightarrow> length vs)"
  shows "sorted_wrt (<) (map fst (vec_insert j (k, v :: 'v) vs))"
proof -
  have low: "fst x < k" if x: "x \<in> set (take j vs)" for x
  proof -
    obtain i where i: "i < j" "i < length vs" "x = vs ! i" using x by (auto simp: in_set_conv_nth)
    have "\<not> k < fst x"
    proof (cases "position (\<lambda>c. k < fst c) vs")
      case None
      then show ?thesis using i by (auto simp: position_None)
    next
      case (Some a)
      then show ?thesis using assms(3) i position_Some(3) [OF Some] by simp
    qed
    moreover have "fst x \<noteq> k" using i assms(2) by (metis image_eqI nth_mem)
    ultimately show ?thesis by simp
  qed
  have high: "k < fst x" if x: "x \<in> set (drop j vs)" for x
  proof (cases "position (\<lambda>c. k < fst c) vs")
    case None
    then show ?thesis using assms(3) x by simp
  next
    case (Some a)
    note p = position_Some [OF Some]
    obtain i where i: "a \<le> i" "i < length vs" "x = vs ! i"
      using x assms(3) Some by (auto simp: in_set_conv_nth) (metis add.commute le_add1 less_diff_conv)
    have "fst (vs ! a) \<le> fst (vs ! i)"
      using sorted_wrt_nth_less [OF assms(1), of a i] i by (cases "a = i") auto
    then show ?thesis using p(2) i(3) by simp
  qed
  have "sorted_wrt (<) (map fst (take j vs))" "sorted_wrt (<) (map fst (drop j vs))"
    using assms(1) by (metis append_take_drop_id map_append sorted_wrt_append)+
  then show ?thesis using low high by (fastforce simp: vec_insert_def sorted_wrt_append)
qed

lemma bucket_insert:
  assumes "bucket_ok conf vs" "position (\<lambda>p. fst p = k) vs = None" "length vs < max_array_width conf"
  defines "j \<equiv> case position (\<lambda>c. k < fst c) vs of Some j \<Rightarrow> j | None \<Rightarrow> length vs"
  shows "bucket_ok conf (vec_insert j (k, v) vs)" "map_of (vec_insert j (k, v) vs) = (map_of vs)(k \<mapsto> v)" "map_of vs k = None"
proof -
  have k: "k \<notin> fst ` set vs" using assms(2) by (auto simp: position_None)
  have "sorted_wrt (<) (map fst (vec_insert j (k, v) vs))"
    using assms(1) k by (intro sorted_insert) (simp_all add: bucket_ok_def j_def)
  then show "bucket_ok conf (vec_insert j (k, v) vs)" using assms(3) by (simp add: bucket_ok_def vec_insert_def)
  show "map_of (vec_insert j (k, v) vs) = (map_of vs)(k \<mapsto> v)" by (rule map_of_insert [OF k])
  show "map_of vs k = None" using k by (simp add: map_of_eq_None_iff)
qed

lemma bucket_remove:
  assumes "bucket_ok conf vs" "position (\<lambda>p. k = fst p) vs = Some j" "length vs \<noteq> 1"
  shows "bucket_ok conf (vec_remove j vs)" "map_of (vec_remove j vs) = (map_of vs)(k := None)"
proof -
  note p = position_Some [OF assms(2)]
  have dist: "distinct (map fst vs)" by (rule bucket_distinct [OF assms(1)])
  have split: "vs = take j vs @ vs ! j # drop (Suc j) vs" using p(1) by (rule id_take_nth_drop)
  have "sorted_wrt (<) (map fst (take j vs @ vs ! j # drop (Suc j) vs))" using assms(1) split by (simp add: bucket_ok_def)
  then have "sorted_wrt (<) (map fst (vec_remove j vs))" by (auto simp: vec_remove_def sorted_wrt_append)
  moreover have "length (vec_remove j vs) = length vs - 1" using p(1) by (simp add: vec_remove_def)
  ultimately show "bucket_ok conf (vec_remove j vs)" using assms p(1) by (auto simp: bucket_ok_def)
  have d: "distinct (map fst (take j vs @ vs ! j # drop (Suc j) vs))" using dist split by simp
  then have k: "k \<notin> fst ` set (take j vs)" "k \<notin> fst ` set (take j vs @ drop (Suc j) vs)" using p(2) by auto
  have "map_of vs = (map_of (take j vs @ drop (Suc j) vs))(k \<mapsto> snd (vs ! j))"
    using map_of_middle [OF k(1)] split p(2) by (metis prod.collapse)
  moreover have "map_of (take j vs @ drop (Suc j) vs) k = None" using k(2) by (simp only: map_of_eq_None_iff simp_thms)
  ultimately show "map_of (vec_remove j vs) = (map_of vs)(k := None)" by (simp add: vec_remove_def fun_upd_idem del: map_of_append)
qed

end
