(* ===== verification/HamtUpdate.thy ===== *)
theory HamtUpdate
  imports HamtTree
begin

text \<open>
  Setting and removing in a HAMT refine updating a map, and keep the canonical form. Setting fails only
  when more keys than fit into one bucket have the same hash.
\<close>

subsection \<open>Keys with a common prefix\<close>

definition hash_prefix :: "('k, 'v) hamt_env \<Rightarrow> nat \<Rightarrow> 'k \<Rightarrow> bool list" where
  "hash_prefix env c k = take c (key_bits (Rep_HashedKey (hm_hash env k)))"

definition agreeing :: "('k, 'v) hamt_env \<Rightarrow> nat \<Rightarrow> 'k set \<Rightarrow> bool" where
  "agreeing env c K \<longleftrightarrow> (\<forall>x \<in> K. \<forall>y \<in> K. hash_prefix env c x = hash_prefix env c y)"

definition collision :: "('k, 'v) hamt_env \<Rightarrow> 'k set \<Rightarrow> bool" where
  "collision env K \<longleftrightarrow>
    (\<exists>C \<subseteq> K. max_array_width (hm_conf env) < card C \<and> (\<forall>x \<in> C. \<forall>y \<in> C. hm_hash env x = hm_hash env y))"

lemma agreeing_subset: "agreeing env c K \<Longrightarrow> L \<subseteq> K \<Longrightarrow> agreeing env c L"
  unfolding agreeing_def by blast

lemma collision_mono: "collision env K \<Longrightarrow> K \<subseteq> L \<Longrightarrow> collision env L"
  unfolding collision_def by (meson subset_trans)

lemma key_slot_value:
  assumes "conf_ok (hm_conf env)" "c < 256"
  shows "key_slot env c k = bits_value (take (next_consumed env c - c) (drop c (key_bits (Rep_HashedKey (hm_hash env k)))))"
  using hash_next_value [of "bit_width (hm_conf env)" c "Rep_HashedKey (hm_hash env k)"] assms
  by (auto simp: key_slot_def hash_step_def conf_ok_def next_consumed_def)

lemma agreeing_slot:
  assumes "conf_ok (hm_conf env)" "c < 256" "agreeing env c K" "\<And>x. x \<in> K \<Longrightarrow> key_slot env c x = i"
  shows "agreeing env (next_consumed env c) K"
  unfolding agreeing_def
proof (intro ballI)
  fix x y
  assume xy: "x \<in> K" "y \<in> K"
  let ?b = "\<lambda>k. key_bits (Rep_HashedKey (hm_hash env k))"
  define s where "s = next_consumed env c - c"
  have nc: "next_consumed env c = c + s" using next_consumed_less [OF assms(1,2)] by (simp add: s_def)
  have "bits_value (take s (drop c (?b z))) = i" if "z \<in> K" for z
    unfolding s_def by (rule trans [OF sym [OF key_slot_value [OF assms(1,2)]] assms(4) [OF that]])
  then have "bits_value (take s (drop c (?b x))) = bits_value (take s (drop c (?b y)))" using xy by simp
  then have "take s (drop c (?b x)) = take s (drop c (?b y))" by (rule bits_value_inject [rotated]) (simp add: key_bits_length)
  moreover have "take c (?b x) = take c (?b y)" using assms(3) xy unfolding agreeing_def hash_prefix_def by blast
  ultimately show "hash_prefix env (next_consumed env c) x = hash_prefix env (next_consumed env c) y"
    by (simp add: hash_prefix_def nc take_add)
qed

lemma key_bits_inject: "length a = length b \<Longrightarrow> key_bits a = key_bits b \<Longrightarrow> a = b"
proof (induction a b rule: list_induct2)
  case (Cons x a y b)
  have "map (bit x) (rev [0..<8]) = map (bit y) (rev [0..<8])" and "key_bits a = key_bits b"
    using Cons.prems by (simp_all add: key_bits_def byte_bits_def append_eq_append_conv)
  then have "bit x n = bit y n" if "n < 8" for n using that by (auto simp: map_eq_conv)
  then have "x = y" by (intro bit_word_eqI) simp
  then show ?case using Cons.IH \<open>key_bits a = key_bits b\<close> by simp
qed simp

lemma agreeing_all:
  assumes "agreeing env 256 K" "x \<in> K" "y \<in> K"
  shows "hm_hash env x = hm_hash env y"
proof -
  have "length (key_bits (Rep_HashedKey h)) = 256" for h by (simp add: key_bits_length)
  then have "hash_prefix env 256 z = key_bits (Rep_HashedKey (hm_hash env z))" for z by (simp add: hash_prefix_def)
  then have "key_bits (Rep_HashedKey (hm_hash env x)) = key_bits (Rep_HashedKey (hm_hash env y))"
    using assms unfolding agreeing_def by metis
  then have "Rep_HashedKey (hm_hash env x) = Rep_HashedKey (hm_hash env y)" by (rule key_bits_inject [rotated]) simp
  then show ?thesis by (simp only: Rep_HashedKey_inject)
qed

lemma agreeing_0: "agreeing env 0 K"
  by (simp add: agreeing_def hash_prefix_def)

subsection \<open>Finite maps and sizes\<close>

lemma tree_finite: "conf_ok (hm_conf env) \<Longrightarrow> tree env bs c d n m \<Longrightarrow> finite (dom m)"
proof (induction "256 - c" arbitrary: c d n m rule: less_induct)
  case less
  note t = treeD [OF less.prems(2)]
  have "finite (dom (at_slot env c m i))" for i
  proof (cases "node_slot n i")
    case None
    then show ?thesis using t(3) [of i] by (simp add: slot_rep_def)
  next
    case (Some p)
    then have "slot_rep env bs c d (Some p) (at_slot env c m i)" using t(3) [of i] by simp
    then show ?thesis
    proof (cases rule: slot_rep_cases)
      case (child n')
      show ?thesis by (rule less.hyps [OF next_consumed_measure [OF less.prems(1) t(1)] less.prems(1) child(5)])
    qed (simp add: finite_dom_map_of)
  qed
  moreover have "dom m \<subseteq> (\<Union>i < 256. dom (at_slot env c m i))"
    using key_slot_bound [of env c] by (fastforce simp: at_slot_def restrict_map_def)
  ultimately show ?case using finite_subset by (metis (no_types, lifting) finite_UN_I finite_lessThan)
qed

text \<open>What setting a key makes of a map.\<close>

definition put_map :: "bool \<Rightarrow> 'k \<Rightarrow> 'v \<Rightarrow> ('k \<Rightarrow> 'v option) \<Rightarrow> ('k \<Rightarrow> 'v option)" where
  "put_map overwrite k v m = (if overwrite \<or> m k = None then m(k \<mapsto> v) else m)"

definition put_old :: "bool \<Rightarrow> 'k \<Rightarrow> ('k \<Rightarrow> 'v option) \<Rightarrow> 'v option" where
  "put_old overwrite k m = (if overwrite then m k else None)"

lemma at_slot_put:
  "at_slot env c (put_map ow k v m) (key_slot env c k) = put_map ow k v (at_slot env c m (key_slot env c k))"
  "j \<noteq> key_slot env c k \<Longrightarrow> at_slot env c (put_map ow k v m) j = at_slot env c m j"
  by (simp_all add: put_map_def at_slot_key at_slot_upd)

lemma put_changes: "put_map ow k v m \<noteq> m \<longleftrightarrow> m k = None \<or> ow \<and> m k \<noteq> Some v"
  by (auto simp: put_map_def fun_eq_iff)

lemma put_changes_slot: "put_map ow k v (at_slot env c m (key_slot env c k)) \<noteq> at_slot env c m (key_slot env c k) \<longleftrightarrow> put_map ow k v m \<noteq> m"
  by (simp add: put_changes at_slot_key)

lemma child_size_put: "finite (dom m) \<Longrightarrow> child_size conf d m \<Longrightarrow> child_size conf d (put_map ow k v m)"
proof -
  assume fin: "finite (dom m)" and cs: "child_size conf d m"
  have "dom m \<subseteq> dom (put_map ow k v m)" "finite (dom (put_map ow k v m))" using fin by (auto simp: put_map_def)
  then have "card (dom m) \<le> card (dom (put_map ow k v m))" by (metis card_mono)
  moreover have "put_map ow k v m \<noteq> Map.empty" by (cases "m k") (auto simp: put_map_def fun_eq_iff)
  ultimately show ?thesis using cs by (auto simp: child_size_def split: if_splits)
qed

subsection \<open>Setting\<close>

definition modified_to ::
  "('k::linorder, 'v) hamt_env \<Rightarrow> Blocks \<Rightarrow> nat \<Rightarrow> nat \<Rightarrow> bool \<Rightarrow> 'k \<Rightarrow> 'v \<Rightarrow> ('k \<Rightarrow> 'v option) \<Rightarrow>
    (HamtError + 'v option \<times> bool) \<times> ('k, 'v) Node \<Rightarrow> bool" where
  "modified_to env bs c d ow k v m res =
    (case res of
       (Inl e, _) \<Rightarrow> e = MaxDepth \<and> collision env (insert k (dom m))
     | (Inr (old, modified), n) \<Rightarrow>
         old = put_old ow k m \<and> modified = (put_map ow k v m \<noteq> m) \<and> tree env bs c d n (put_map ow k v m))"

lemma modify_value_empty:
  assumes "hash_step env h c = Inr (w, c')" "\<not> bm_test_bit (node_bitfield n) (unat w)"
  shows "modify_value env bs ow k v h c d n =
    (if d \<ge> min_data_depth (hm_conf env) then (Inr (None, True), insert_child n (unat w) k v)
     else case modify_value env bs ow k v h c' (d + 1) node_default of
       (Inl e, sub) \<Rightarrow> (Inl e, n) | (Inr _, sub) \<Rightarrow> (Inr (None, True), insert_child_dirty n (unat w) sub))"
  using assms by (subst modify_value.simps) simp

lemma modify_value_child:
  assumes "hash_step env h c = Inr (w, c')" "bm_test_bit (node_bitfield n) (unat w)"
    and "index_for_bit_pos (node_bitfield n) (unat w) = j" "j < length (node_pointers n)" "node_pointers n ! j = p"
    and "child env bs (d + 1) p = Some n'" "modify_value env bs ow k v h c' (d + 1) n' = (Inr (old, b), n'')"
  shows "modify_value env bs ow k v h c d n = (Inr (old, b), with_child n j (if b then Dirty n'' else refill p n''))"
  using assms by (subst modify_value.simps) (cases p, auto split: sum.splits)

lemma modify_value_child_error:
  assumes "hash_step env h c = Inr (w, c')" "bm_test_bit (node_bitfield n) (unat w)"
    and "index_for_bit_pos (node_bitfield n) (unat w) = j" "j < length (node_pointers n)" "node_pointers n ! j = p"
    and "child env bs (d + 1) p = Some n'" "modify_value env bs ow k v h c' (d + 1) n' = (Inl e, n'')"
  shows "modify_value env bs ow k v h c d n = (Inl e, with_child n j (refill p n''))"
  using assms by (subst modify_value.simps) (cases p, auto split: sum.splits)

lemma modify_value_bucket:
  assumes "hash_step env h c = Inr (w, c')" "bm_test_bit (node_bitfield n) (unat w)"
    and "index_for_bit_pos (node_bitfield n) (unat w) = j" "j < length (node_pointers n)" "node_pointers n ! j = Values vals"
  shows "modify_value env bs ow k v h c d n =
    (case position (\<lambda>p. fst p = k) vals of
       Some i \<Rightarrow> if ow then (Inr (Some (snd (vals ! i)), snd (vals ! i) \<noteq> v), with_child n j (Values (vals[i := (fst (vals ! i), v)])))
                else (Inr (None, False), n)
     | None \<Rightarrow>
         if length vals \<ge> max_array_width (hm_conf env) then
           (case modify_value env bs ow k v h c' (d + 1) node_default of
              (Inl e, sub) \<Rightarrow> (Inl e, with_child n j (Values []))
            | (Inr modified, sub) \<Rightarrow>
                (case modify_all env bs ow vals c' (d + 1) sub of
                   (Inl e, sub) \<Rightarrow> (Inl e, with_child n j (Values []))
                 | (Inr _, sub) \<Rightarrow> (Inr modified, with_child n j (Dirty sub))))
         else
           let i = (case position (\<lambda>c. fst c > k) vals of Some i \<Rightarrow> i | None \<Rightarrow> length vals)
           in (Inr (None, True), with_child n j (Values (vec_insert i (k, v) vals))))"
  using assms by (subst modify_value.simps) simp

lemma put_map_new: "m k = None \<Longrightarrow> put_map ow k v m = m(k \<mapsto> v) \<and> put_old ow k m = None \<and> put_map ow k v m \<noteq> m"
  by (auto simp: put_map_def put_old_def fun_eq_iff)

lemma put_map_empty [simp]: "put_map ow k v Map.empty = [k \<mapsto> v]" "put_old ow k Map.empty = None"
  by (simp_all add: put_map_def put_old_def)

text \<open>Putting several new pairs, when putting one is right.\<close>

lemma modify_all_tree:
  assumes one: "\<And>n m k v. tree env bs c d n m \<Longrightarrow> agreeing env c (insert k (dom m)) \<Longrightarrow>
      modified_to env bs c d ow k v m (modify_value env bs ow k v (hm_hash env k) c d n)"
  shows "tree env bs c d n m \<Longrightarrow> agreeing env c (fst ` set kvs \<union> dom m) \<Longrightarrow> distinct (map fst kvs) \<Longrightarrow>
    dom m \<inter> fst ` set kvs = {} \<Longrightarrow>
    (case modify_all env bs ow kvs c d n of
       (Inl e, _) \<Rightarrow> e = MaxDepth \<and> collision env (fst ` set kvs \<union> dom m)
     | (Inr _, n') \<Rightarrow> tree env bs c d n' (m ++ map_of kvs))"
proof (induction kvs arbitrary: n m)
  case (Cons kv kvs)
  obtain k v where kv: "kv = (k, v)" by (cases kv)
  have new: "m k = None" using Cons.prems(4) by (auto simp: kv)
  have "agreeing env c (insert k (dom m))" by (rule agreeing_subset [OF Cons.prems(2)]) (auto simp: kv)
  then have step: "modified_to env bs c d ow k v m (modify_value env bs ow k v (hm_hash env k) c d n)"
    by (rule one [OF Cons.prems(1)])
  show ?case
  proof (cases "modify_value env bs ow k v (hm_hash env k) c d n")
    case (Pair r n1)
    show ?thesis
    proof (cases r)
      case (Inl e)
      then have "e = MaxDepth" "collision env (insert k (dom m))" using step Pair by (simp_all add: modified_to_def)
      then show ?thesis using Pair Inl by (auto simp: kv elim: collision_mono)
    next
      case (Inr ob)
      then have n1: "tree env bs c d n1 (m(k \<mapsto> v))"
        using step Pair put_map_new [of m k, OF new] by (auto simp: modified_to_def split: prod.splits)
      have eq: "fst ` set kvs \<union> dom (m(k \<mapsto> v)) = fst ` set (kv # kvs) \<union> dom m" by (auto simp: kv)
      have ag: "agreeing env c (fst ` set kvs \<union> dom (m(k \<mapsto> v)))" using Cons.prems(2) eq by simp
      have dj: "dom (m(k \<mapsto> v)) \<inter> fst ` set kvs = {}" using Cons.prems(3,4) by (auto simp: kv)
      have IH: "case modify_all env bs ow kvs c d n1 of
            (Inl e, _) \<Rightarrow> e = MaxDepth \<and> collision env (fst ` set kvs \<union> dom (m(k \<mapsto> v)))
          | (Inr _, n') \<Rightarrow> tree env bs c d n' (m(k \<mapsto> v) ++ map_of kvs)"
        using Cons.prems(3) by (intro Cons.IH [OF n1 ag _ dj]) simp
      have "m(k \<mapsto> v) ++ map_of kvs = m ++ map_of (kv # kvs)"
        using Cons.prems(3) by (auto simp: kv map_add_upd_left image_def dom_map_of_conv_image_fst)
      moreover have "modify_all env bs ow (kv # kvs) c d n = modify_all env bs ow kvs c d n1" using Pair Inr by (simp add: kv)
      ultimately show ?thesis using IH eq by (simp split: prod.splits sum.splits)
    qed
  qed
qed simp

lemma next_consumed_depth:
  assumes "conf_ok (hm_conf env)" "c \<le> d * bit_width (hm_conf env)"
  shows "next_consumed env c \<le> (d + 1) * bit_width (hm_conf env)"
    and "d < min_data_depth (hm_conf env) \<Longrightarrow> next_consumed env c < 256"
proof -
  show le: "next_consumed env c \<le> (d + 1) * bit_width (hm_conf env)" using assms(2) by (auto simp: next_consumed_def)
  assume "d < min_data_depth (hm_conf env)"
  then have "(d + 1) * bit_width (hm_conf env) \<le> min_data_depth (hm_conf env) * bit_width (hm_conf env)" by (intro mult_right_mono) simp_all
  then show "next_consumed env c < 256" using le assms(1) by (simp add: conf_ok_def)
qed

lemma modify_value_max_depth:
  assumes "conf_ok (hm_conf env)"
  shows "modify_value env bs ow k v h 256 d n = (Inl MaxDepth, n)"
proof -
  have "hash_step env h 256 = Inl MaxDepth" using assms by (simp add: hash_step_def hash_next_def conf_ok_def)
  then show ?thesis by (subst modify_value.simps) simp
qed

lemma agreeing_at_slot:
  assumes "conf_ok (hm_conf env)" "c < 256" "agreeing env c (insert k (dom m))"
  shows "agreeing env (next_consumed env c) (insert k (dom (at_slot env c m (key_slot env c k))))"
proof (rule agreeing_slot [OF assms(1,2)])
  show "agreeing env c (insert k (dom (at_slot env c m (key_slot env c k))))"
    by (rule agreeing_subset [OF assms(3)]) (auto simp: at_slot_def)
  show "key_slot env c x = key_slot env c k" if "x \<in> insert k (dom (at_slot env c m (key_slot env c k)))" for x
    using that by (auto simp: at_slot_def restrict_map_def split: if_splits)
qed

lemma collision_at_slot: "collision env (insert k (dom (at_slot env c m i))) \<Longrightarrow> collision env (insert k (dom m))"
  by (erule collision_mono) (auto simp: at_slot_def)

text \<open>A full bucket whose key is new is taken apart.\<close>

lemma split_bucket:
  assumes ok: "conf_ok (hm_conf env)" and c: "c < 256"
    and IH: "\<And>n m k v. next_consumed env c < 256 \<Longrightarrow> tree env bs (next_consumed env c) (d + 1) n m \<Longrightarrow>
      agreeing env (next_consumed env c) (insert k (dom m)) \<Longrightarrow>
      modified_to env bs (next_consumed env c) (d + 1) ow k v m
        (modify_value env bs ow k v (hm_hash env k) (next_consumed env c) (d + 1) n)"
    and vs: "bucket_ok (hm_conf env) vs" "map_of vs k = None" "max_array_width (hm_conf env) \<le> length vs"
    and agree: "agreeing env (next_consumed env c) (insert k (fst ` set vs))"
  shows "case (case modify_value env bs ow k v (hm_hash env k) (next_consumed env c) (d + 1) node_default of
            (Inl e, sub) \<Rightarrow> (Inl e, sub)
          | (Inr modified, sub) \<Rightarrow>
              (case modify_all env bs ow vs (next_consumed env c) (d + 1) sub of
                 (Inl e, sub) \<Rightarrow> (Inl e, sub) | (Inr _, sub) \<Rightarrow> (Inr modified, sub))) of
      (Inl e, _) \<Rightarrow> e = MaxDepth \<and> collision env (insert k (fst ` set vs))
    | (Inr r, sub) \<Rightarrow> r = (None, True) \<and> max_array_width (hm_conf env) < card (dom ((map_of vs)(k \<mapsto> v))) \<and>
        tree env bs (next_consumed env c) (d + 1) sub ((map_of vs)(k \<mapsto> v))"
proof -
  let ?C = "insert k (fst ` set vs)" and ?c = "next_consumed env c"
  have k: "k \<notin> fst ` set vs" using vs(2) by (simp add: map_of_eq_None_iff)
  have dist: "distinct (map fst vs)" by (rule bucket_distinct [OF vs(1)])
  have dom: "dom ((map_of vs)(k \<mapsto> v)) = ?C" by (simp add: dom_map_of_conv_image_fst)
  have "card (fst ` set vs) = length vs" using distinct_card [OF dist] by simp
  then have size: "max_array_width (hm_conf env) < card ?C" using k vs(3) by simp
  show ?thesis
  proof (cases "?c < 256")
    case False
    then have nc: "?c = 256" using next_consumed_less [OF ok c] by simp
    have "hm_hash env x = hm_hash env y" if "x \<in> ?C" "y \<in> ?C" for x y using agreeing_all [OF _ that] agree nc by simp
    then have "collision env ?C" using size unfolding collision_def by blast
    then show ?thesis by (simp add: nc modify_value_max_depth [OF ok])
  next
    case True
    have "agreeing env ?c (insert k (dom Map.empty))" by (rule agreeing_subset [OF agree]) simp
    then have first: "modified_to env bs ?c (d + 1) ow k v Map.empty (modify_value env bs ow k v (hm_hash env k) ?c (d + 1) node_default)"
      by (rule IH [OF True tree_empty [OF True]])
    obtain r sub where r: "modify_value env bs ow k v (hm_hash env k) ?c (d + 1) node_default = (r, sub)" by fastforce
    show ?thesis
    proof (cases r)
      case (Inl e)
      then show ?thesis using first r by (auto simp: modified_to_def elim: collision_mono)
    next
      case (Inr ob)
      then have sub: "tree env bs ?c (d + 1) sub [k \<mapsto> v]" and ob: "ob = (None, True)"
        using first r by (auto simp: modified_to_def split: prod.splits)
      have "case modify_all env bs ow vs ?c (d + 1) sub of
          (Inl e, _) \<Rightarrow> e = MaxDepth \<and> collision env (fst ` set vs \<union> dom [k \<mapsto> v])
        | (Inr _, n') \<Rightarrow> tree env bs ?c (d + 1) n' ([k \<mapsto> v] ++ map_of vs)"
        using agree k dist by (intro modify_all_tree [OF IH [OF True] sub]) (simp_all add: insert_commute)
      moreover have "[k \<mapsto> v] ++ map_of vs = (map_of vs)(k \<mapsto> v)"
        using vs(2) by (auto simp: fun_eq_iff map_add_def split: option.splits)
      ultimately show ?thesis using r Inr ob size dom by (auto split: prod.splits sum.splits)
    qed
  qed
qed

text \<open>How a node's change follows from the change in one of its slots.\<close>

lemma modified_slot:
  assumes "tree env bs c d n m" "node_ok n'" "node_slot n' = (node_slot n)(key_slot env c k \<mapsto> p)"
    and "slot_rep env bs c d (Some p) (put_map ow k v (at_slot env c m (key_slot env c k)))"
    and "old = put_old ow k (at_slot env c m (key_slot env c k))"
    and "b = (put_map ow k v (at_slot env c m (key_slot env c k)) \<noteq> at_slot env c m (key_slot env c k))"
  shows "modified_to env bs c d ow k v m (Inr (old, b), n')"
proof -
  have "tree env bs c d n' (put_map ow k v m)"
    using assms(4) by (intro tree_change [OF assms(1-3)]) (simp_all add: at_slot_put)
  then show ?thesis using assms(5,6) by (simp add: modified_to_def put_changes_slot put_old_def at_slot_key)
qed

lemma modify_empty_tree:
  assumes ok: "conf_ok (hm_conf env)" and t: "tree env bs c d n m"
    and IH: "\<And>n m. next_consumed env c < 256 \<Longrightarrow> tree env bs (next_consumed env c) (d + 1) n m \<Longrightarrow>
      agreeing env (next_consumed env c) (insert k (dom m)) \<Longrightarrow>
      modified_to env bs (next_consumed env c) (d + 1) ow k v m
        (modify_value env bs ow k v (hm_hash env k) (next_consumed env c) (d + 1) n)"
    and c: "c \<le> d * bit_width (hm_conf env)" and ag: "agreeing env c (insert k (dom m))"
    and w: "hash_step env (hm_hash env k) c = Inr (w, next_consumed env c)" "unat w = key_slot env c k"
    and none: "\<not> bm_test_bit (node_bitfield n) (key_slot env c k)"
  shows "modified_to env bs c d ow k v m (modify_value env bs ow k v (hm_hash env k) c d n)"
proof -
  let ?i = "key_slot env c k" and ?c = "next_consumed env c"
  note ins = insert_slot [OF treeD(2) [OF t] key_slot_bound none]
  have e: "at_slot env c m ?i = Map.empty" using treeD(3) [OF t, of ?i] ins(3) by (simp add: slot_rep_def)
  note unf = modify_value_empty [OF w(1), unfolded w(2), OF none, of bs ow k v d]
  show ?thesis
  proof (cases "min_data_depth (hm_conf env) \<le> d")
    case True
    have "bucket_ok (hm_conf env) [(k, v)]" using ok by (simp add: bucket_ok_def conf_ok_def Suc_le_eq)
    then show ?thesis unfolding unf using True
      by (auto simp: insert_child_def slot_rep_def e intro!: modified_slot [OF t ins(1,2)])
  next
    case False
    then have lt: "?c < 256" using next_consumed_depth(2) [OF ok c] by simp
    have "agreeing env ?c (insert k (dom Map.empty))"
      using agreeing_at_slot [OF ok treeD(1) [OF t] ag] by (rule agreeing_subset) simp
    then have sub: "modified_to env bs ?c (d + 1) ow k v Map.empty (modify_value env bs ow k v (hm_hash env k) ?c (d + 1) node_default)"
      by (rule IH [OF lt tree_empty [OF lt]])
    obtain r n1 where r: "modify_value env bs ow k v (hm_hash env k) ?c (d + 1) node_default = (r, n1)" by fastforce
    show ?thesis
    proof (cases r)
      case (Inl e)
      then show ?thesis unfolding unf using sub r False by (auto simp: modified_to_def elim: collision_mono)
    next
      case (Inr ob)
      then have "tree env bs ?c (d + 1) n1 [k \<mapsto> v]" using sub r by (auto simp: modified_to_def split: prod.splits)
      then have "slot_rep env bs c d (Some (Dirty n1)) [k \<mapsto> v]" using False by (simp add: slot_rep_def child_size_def)
      then show ?thesis unfolding unf using Inr r False
        by (auto simp: insert_child_dirty_def e intro!: modified_slot [OF t ins(1,2)])
    qed
  qed
qed

lemma modify_bucket_tree:
  assumes ok: "conf_ok (hm_conf env)" and t: "tree env bs c d n m"
    and IH: "\<And>n m k v. next_consumed env c < 256 \<Longrightarrow> tree env bs (next_consumed env c) (d + 1) n m \<Longrightarrow>
      agreeing env (next_consumed env c) (insert k (dom m)) \<Longrightarrow>
      modified_to env bs (next_consumed env c) (d + 1) ow k v m
        (modify_value env bs ow k v (hm_hash env k) (next_consumed env c) (d + 1) n)"
    and ag: "agreeing env c (insert k (dom m))"
    and w: "hash_step env (hm_hash env k) c = Inr (w, next_consumed env c)" "unat w = key_slot env c k"
    and some: "bm_test_bit (node_bitfield n) (key_slot env c k)"
    and j: "j = index_for_bit_pos (node_bitfield n) (key_slot env c k)"
    and vs: "node_pointers n ! j = Values vs" "min_data_depth (hm_conf env) \<le> d" "bucket_ok (hm_conf env) vs"
      "at_slot env c m (key_slot env c k) = map_of vs"
  shows "modified_to env bs c d ow k v m (modify_value env bs ow k v (hm_hash env k) c d n)"
proof -
  let ?i = "key_slot env c k" and ?c = "next_consumed env c"
  note ch = with_child_slot [OF treeD(2) [OF t] key_slot_bound some, folded j]
  note unf = modify_value_bucket [OF w(1), unfolded w(2), OF some j [symmetric] ch(3) vs(1), of bs ow k v d]
  show ?thesis
  proof (cases "position (\<lambda>p. fst p = k) vs")
    case (Some i)
    note b = bucket_update [OF vs(3) Some]
    have "modified_to env bs c d ow k v m (Inr (None, False), n)" if "\<not> ow"
    proof -
      have "m k = Some (snd (vs ! i))" using b(3) vs(4) at_slot_key [of env c m k] by simp
      then show ?thesis using that t by (simp add: modified_to_def put_map_def put_old_def)
    qed
    moreover have "slot_rep env bs c d (Some (Values (vs[i := (fst (vs ! i), v)]))) (put_map True k v (map_of vs))"
      using b(1,2) vs(2) by (simp add: slot_rep_def put_map_def)
    moreover have "(snd (vs ! i) \<noteq> v) = (put_map True k v (map_of vs) \<noteq> map_of vs)" using b(3) by (simp add: put_changes)
    ultimately show ?thesis unfolding unf using Some b(3)
      by (cases ow) (simp_all add: vs(4) put_old_def modified_slot [OF t ch(1,2)])
  next
    case None
    have new: "map_of vs k = None" using None by (auto simp: position_None map_of_eq_None_iff)
    note put = put_map_new [of "map_of vs" k ow v, OF new]
    have chg: "(map_of vs)(k \<mapsto> v) \<noteq> map_of vs" using put by metis
    show ?thesis
    proof (cases "max_array_width (hm_conf env) \<le> length vs")
      case True
      have ag': "agreeing env ?c (insert k (fst ` set vs))"
        using agreeing_at_slot [OF ok treeD(1) [OF t] ag] by (simp add: vs(4) dom_map_of_conv_image_fst)
      have col: "collision env (insert k (fst ` set vs)) \<Longrightarrow> collision env (insert k (dom m))"
        using collision_at_slot [of env k c m ?i] by (simp add: vs(4) dom_map_of_conv_image_fst)
      have rep: "slot_rep env bs c d (Some (Dirty sub)) ((map_of vs)(k \<mapsto> v))"
        if "tree env bs ?c (d + 1) sub ((map_of vs)(k \<mapsto> v))" "max_array_width (hm_conf env) < card (dom ((map_of vs)(k \<mapsto> v)))" for sub
        using that vs(2) by (simp add: slot_rep_def child_size_def)
      have sub: "modified_to env bs c d ow k v m (Inr (None, True), with_child n j (Dirty sub))"
        if "tree env bs ?c (d + 1) sub ((map_of vs)(k \<mapsto> v))" "max_array_width (hm_conf env) < card (dom ((map_of vs)(k \<mapsto> v)))" for sub
        by (rule modified_slot [OF t ch(1,2)]) (simp_all add: vs(4) put chg rep [OF that] del: fun_upd_apply)
      show ?thesis unfolding unf
        using split_bucket [OF ok treeD(1) [OF t] IH vs(3) new True ag', of v] True None sub col
        by (auto simp: modified_to_def split: prod.splits sum.splits)
    next
      case False
      then have len: "length vs < max_array_width (hm_conf env)" by simp
      let ?j = "case position (\<lambda>c. fst c > k) vs of Some j \<Rightarrow> j | None \<Rightarrow> length vs"
      note b = bucket_insert [OF vs(3) None len]
      have "slot_rep env bs c d (Some (Values (vec_insert ?j (k, v) vs))) ((map_of vs)(k \<mapsto> v))"
        using b(1,2) vs(2) by (simp add: slot_rep_def)
      then have "modified_to env bs c d ow k v m (Inr (None, True), with_child n j (Values (vec_insert ?j (k, v) vs)))"
        by (intro modified_slot [OF t ch(1,2)]) (simp_all add: vs(4) put chg del: fun_upd_apply)
      then show ?thesis unfolding unf using None False by (simp add: Let_def)
    qed
  qed
qed

lemma modify_child_tree:
  assumes ok: "conf_ok (hm_conf env)" and t: "tree env bs c d n m"
    and IH: "\<And>n m. tree env bs (next_consumed env c) (d + 1) n m \<Longrightarrow> agreeing env (next_consumed env c) (insert k (dom m)) \<Longrightarrow>
      modified_to env bs (next_consumed env c) (d + 1) ow k v m
        (modify_value env bs ow k v (hm_hash env k) (next_consumed env c) (d + 1) n)"
    and ag: "agreeing env c (insert k (dom m))"
    and w: "hash_step env (hm_hash env k) c = Inr (w, next_consumed env c)" "unat w = key_slot env c k"
    and some: "bm_test_bit (node_bitfield n) (key_slot env c k)"
    and j: "j = index_for_bit_pos (node_bitfield n) (key_slot env c k)"
    and p: "child env bs (d + 1) (node_pointers n ! j) = Some n1" "child_size (hm_conf env) d (at_slot env c m (key_slot env c k))"
      "link_stored env bs (next_consumed env c) (d + 1) (node_pointers n ! j) (at_slot env c m (key_slot env c k))"
      "tree env bs (next_consumed env c) (d + 1) n1 (at_slot env c m (key_slot env c k))"
  shows "modified_to env bs c d ow k v m (modify_value env bs ow k v (hm_hash env k) c d n)"
proof -
  let ?i = "key_slot env c k" and ?c = "next_consumed env c" and ?p = "node_pointers n ! j"
  note ch = with_child_slot [OF treeD(2) [OF t] key_slot_bound some, folded j]
  have sub: "modified_to env bs ?c (d + 1) ow k v (at_slot env c m ?i) (modify_value env bs ow k v (hm_hash env k) ?c (d + 1) n1)"
    by (rule IH [OF p(4) agreeing_at_slot [OF ok treeD(1) [OF t] ag]])
  obtain r n2 where r: "modify_value env bs ow k v (hm_hash env k) ?c (d + 1) n1 = (r, n2)" by fastforce
  show ?thesis
  proof (cases r)
    case (Inl e)
    then have "e = MaxDepth" "collision env (insert k (dom m))"
      using sub r collision_at_slot [of env k c m ?i] by (simp_all add: modified_to_def)
    then show ?thesis
      using modify_value_child_error [OF w(1), unfolded w(2), OF some j [symmetric] ch(3) refl p(1) r [unfolded Inl]]
      by (simp add: modified_to_def)
  next
    case (Inr ob)
    obtain old b where ob: "ob = (old, b)" by fastforce
    have res: "old = put_old ow k (at_slot env c m ?i)" "b = (put_map ow k v (at_slot env c m ?i) \<noteq> at_slot env c m ?i)"
      "tree env bs ?c (d + 1) n2 (put_map ow k v (at_slot env c m ?i))"
      using sub r Inr ob by (simp_all add: modified_to_def)
    have size: "child_size (hm_conf env) d (put_map ow k v (at_slot env c m ?i))"
      by (rule child_size_put [OF tree_finite [OF ok p(4)] p(2)])
    have "slot_rep env bs c d (Some (if b then Dirty n2 else refill ?p n2)) (put_map ow k v (at_slot env c m ?i))"
      using size res(2,3) p(3) refill_child [OF p(1), of n2] slot_rep_child [of env bs d "if b then Dirty n2 else refill ?p n2" n2 c]
      by (cases b) simp_all
    then show ?thesis
      using modify_value_child [OF w(1), unfolded w(2), OF some j [symmetric] ch(3) refl p(1) r [unfolded Inr ob]]
        modified_slot [OF t ch(1,2) _ res(1,2)] by simp
  qed
qed

lemma modify_value_tree:
  assumes "conf_ok (hm_conf env)"
  shows "tree env bs c d n m \<Longrightarrow> c \<le> d * bit_width (hm_conf env) \<Longrightarrow> agreeing env c (insert k (dom m)) \<Longrightarrow>
    modified_to env bs c d ow k v m (modify_value env bs ow k v (hm_hash env k) c d n)"
proof (induction "256 - c" arbitrary: c d n m k v rule: less_induct)
  case less
  let ?i = "key_slot env c k"
  note t = treeD [OF less.prems(1)]
  note IH = less.hyps [OF next_consumed_measure [OF assms t(1)] _ next_consumed_depth(1) [OF assms less.prems(2)]]
  obtain w where w: "hash_step env (hm_hash env k) c = Inr (w, next_consumed env c)" "unat w = ?i"
    using hash_step_Inr [OF assms t(1)] by blast
  show ?case
  proof (cases "bm_test_bit (node_bitfield n) ?i")
    case False
    show ?thesis by (rule modify_empty_tree [OF assms less.prems(1) IH less.prems(2,3) w False])
  next
    case True
    define j where "j = index_for_bit_pos (node_bitfield n) ?i"
    have "slot_rep env bs c d (Some (node_pointers n ! j)) (at_slot env c m ?i)"
      using t(3) [of ?i] with_child_slot(4) [OF t(2) key_slot_bound True] by (simp add: j_def)
    then show ?thesis
    proof (cases rule: slot_rep_cases)
      case (bucket vs)
      show ?thesis by (rule modify_bucket_tree [OF assms less.prems(1) IH less.prems(3) w True j_def bucket])
    next
      case (child n1)
      show ?thesis by (rule modify_child_tree [OF assms less.prems(1) IH less.prems(3) w True j_def child(1,3,4,5)])
    qed
  qed
qed


subsection \<open>Cleaning a node after a removal\<close>

lemma distinct_keys_concat:
  "distinct xs \<Longrightarrow> (\<And>x. x \<in> set xs \<Longrightarrow> distinct (map fst (f x))) \<Longrightarrow>
    (\<And>x y. x \<in> set xs \<Longrightarrow> y \<in> set xs \<Longrightarrow> x \<noteq> y \<Longrightarrow> fst ` set (f x) \<inter> fst ` set (f y) = {}) \<Longrightarrow>
    distinct (map fst (concat (map f xs)))"
proof (induction xs)
  case (Cons x xs)
  have "fst ` set (f x) \<inter> fst ` set (f y) = {}" if "y \<in> set xs" for y
    using Cons.prems(1,3) that by (metis distinct.simps(2) list.set_intros)
  then have "fst ` set (f x) \<inter> fst ` set (concat (map f xs)) = {}" by auto
  moreover have "distinct (map fst (concat (map f xs)))" using Cons.prems by (intro Cons.IH) simp_all
  ultimately show ?case using Cons.prems(2) [of x] by simp
qed simp

lemma node_slot_list: "node_ok n \<Longrightarrow> node_pointers n = map (\<lambda>i. the (node_slot n i)) (sorted_list_of_set (slots (node_bitfield n)))"
  using slot_list [of "node_bitfield n" "node_pointers n"] by (simp add: node_ok_def node_slot_def)

lemma node_slot_dom: "node_ok n \<Longrightarrow> node_slot n i \<noteq> None \<longleftrightarrow> i \<in> slots (node_bitfield n)"
  using slot_get_dom [of "node_bitfield n" "node_pointers n"] by (simp add: node_ok_def node_slot_def)

lemma node_slot_Some:
  assumes "node_ok n" "i \<in> slots (node_bitfield n)"
  obtains p where "node_slot n i = Some p" "p \<in> set (node_pointers n)"
proof -
  obtain p where p: "node_slot n i = Some p" using node_slot_dom [OF assms(1), of i] assms(2) by (cases "node_slot n i") simp_all
  moreover have "set (node_pointers n) = {p. \<exists>i. node_slot n i = Some p}"
    using slot_set assms(1) by (simp add: node_ok_def node_slot_def)
  ultimately show ?thesis using that by blast
qed

lemma node_pointer_slot: "node_ok n \<Longrightarrow> p \<in> set (node_pointers n) \<Longrightarrow> \<exists>i. node_slot n i = Some p"
  using slot_set [of "node_bitfield n" "node_pointers n"] by (simp add: node_ok_def node_slot_def)

lemma at_slot_dom: "k \<in> dom (at_slot env c m i) \<longleftrightarrow> k \<in> dom m \<and> key_slot env c k = i"
  by (auto simp: at_slot_def restrict_map_def split: if_splits)

lemma slot_nonempty:
  assumes "slot_rep env bs c d (Some p) m" "conf_ok (hm_conf env)"
  shows "m \<noteq> Map.empty"
  using assms(1)
proof (cases rule: slot_rep_cases)
  case (bucket vs)
  then show ?thesis by (cases vs) (auto simp: bucket_ok_def)
next
  case (child n)
  then show ?thesis by (auto simp: child_size_def split: if_splits)
qed

lemma tree_slots_keys:
  assumes "conf_ok (hm_conf env)" "tree env bs c d n m"
  shows "slots (node_bitfield n) = key_slot env c ` dom m"
proof (intro set_eqI iffI)
  note t = treeD [OF assms(2)]
  fix i
  show "i \<in> key_slot env c ` dom m" if mem: "i \<in> slots (node_bitfield n)"
  proof -
    obtain p where "node_slot n i = Some p" by (rule node_slot_Some [OF t(2) mem])
    then have "at_slot env c m i \<noteq> Map.empty" using t(3) [of i] slot_nonempty [OF _ assms(1)] by simp
    then obtain k where "k \<in> dom (at_slot env c m i)" by (auto simp: fun_eq_iff)
    then show ?thesis using at_slot_dom [of k env c m i] by blast
  qed
  show "i \<in> slots (node_bitfield n)" if i: "i \<in> key_slot env c ` dom m"
  proof (rule ccontr)
    assume "i \<notin> slots (node_bitfield n)"
    then have "at_slot env c m i = Map.empty" using node_slot_dom [OF t(2), of i] t(3) [of i] by (simp add: slot_rep_def)
    then show False using i at_slot_dom [of _ env c m i] by auto
  qed
qed

lemma node_pointers_length: "node_ok n \<Longrightarrow> length (node_pointers n) = card (slots (node_bitfield n))"
  by (simp add: node_ok_def slots_ok_def count_ones_slots)

lemma tree_pointers:
  assumes "conf_ok (hm_conf env)" "tree env bs c d n m"
  shows "length (node_pointers n) \<le> card (dom m)" and "node_pointers n = [] \<longleftrightarrow> m = Map.empty"
proof -
  have len: "length (node_pointers n) = card (key_slot env c ` dom m)"
    using node_pointers_length [OF treeD(2) [OF assms(2)]] tree_slots_keys [OF assms] by simp
  show "length (node_pointers n) \<le> card (dom m)" unfolding len by (rule card_image_le [OF tree_finite [OF assms]])
  have "node_pointers n = [] \<longleftrightarrow> key_slot env c ` dom m = {}" using len tree_finite [OF assms] by (simp flip: length_0_conv)
  then show "node_pointers n = [] \<longleftrightarrow> m = Map.empty" by simp
qed

text \<open>A node that has a child node holds many entries.\<close>

lemma child_many:
  assumes "conf_ok (hm_conf env)" "tree env bs c d n m" "min_data_depth (hm_conf env) \<le> d"
    and "p \<in> set (node_pointers n)" "bucket_of p = None"
  shows "max_array_width (hm_conf env) < card (dom m)"
proof -
  note t = treeD [OF assms(2)]
  obtain i where i: "node_slot n i = Some p" using node_pointer_slot [OF t(2) assms(4)] by blast
  then have "slot_rep env bs c d (Some p) (at_slot env c m i)" using t(3) [of i] by simp
  then have "child_size (hm_conf env) d (at_slot env c m i)" using assms(5) by (cases rule: slot_rep_cases) auto
  then have "max_array_width (hm_conf env) < card (dom (at_slot env c m i))" using assms(3) by (simp add: child_size_def)
  also have "\<dots> \<le> card (dom m)" 
    using at_slot_dom [of _ env c m i] by (intro card_mono [OF tree_finite [OF assms(1,2)]] subsetI) simp
  finally show ?thesis .
qed

text \<open>The entries of a node, slot by slot.\<close>

lemma slots_concat:
  assumes "conf_ok (hm_conf env)" "tree env bs c d n m"
    and slot: "\<And>i. i \<in> slots (node_bitfield n) \<Longrightarrow> distinct (map fst (f i)) \<and> map_of (f i) = at_slot env c m i"
  defines "vals \<equiv> concat (map f (sorted_list_of_set (slots (node_bitfield n))))"
  shows "distinct (map fst vals)" "map_of vals = m"
proof -
  have keys: "key_slot env c k = i" if "i \<in> slots (node_bitfield n)" "k \<in> fst ` set (f i)" for i k
    using slot [OF that(1)] that(2) at_slot_dom [of k env c m i] by (metis dom_map_of_conv_image_fst)
  show dist: "distinct (map fst vals)"
    unfolding vals_def using slot keys finite_slots [of "node_bitfield n"] by (intro distinct_keys_concat) (simp_all, blast)
  show "map_of vals = m"
  proof
    fix k
    have "map_of vals k = Some v \<longleftrightarrow> m k = Some v" for v
    proof -
      have "map_of vals k = Some v \<longleftrightarrow> (\<exists>i \<in> slots (node_bitfield n). (k, v) \<in> set (f i))"
        using map_of_eq_Some_iff [OF dist, of k v] unfolding vals_def using finite_slots [of "node_bitfield n"] by simp
      also have "\<dots> \<longleftrightarrow> (\<exists>i \<in> slots (node_bitfield n). at_slot env c m i k = Some v)"
        using slot by (metis map_of_eq_Some_iff)
      also have "\<dots> \<longleftrightarrow> m k = Some v"
        unfolding tree_slots_keys [OF assms(1,2)] by (auto simp: at_slot_def restrict_map_def split: if_splits)
      finally show ?thesis .
    qed
    then show "map_of vals k = m k" by (metis not_Some_eq)
  qed
qed

lemma all_buckets:
  assumes "conf_ok (hm_conf env)" "tree env bs c d n m" "list_all (\<lambda>p. bucket_of p \<noteq> None) (node_pointers n)"
  defines "vals \<equiv> concat (map (\<lambda>p. the (bucket_of p)) (node_pointers n))"
  shows "distinct (map fst vals)" "map_of vals = m"
proof -
  note t = treeD [OF assms(2)]
  let ?f = "\<lambda>i. the (bucket_of (the (node_slot n i)))"
  have vals: "vals = concat (map ?f (sorted_list_of_set (slots (node_bitfield n))))"
    unfolding vals_def by (subst node_slot_list [OF t(2)]) (simp add: comp_def)
  have slot: "distinct (map fst (?f i)) \<and> map_of (?f i) = at_slot env c m i" if mem: "i \<in> slots (node_bitfield n)" for i
  proof -
    obtain p where p: "node_slot n i = Some p" "p \<in> set (node_pointers n)" by (rule node_slot_Some [OF t(2) mem])
    then obtain vs where vs: "p = Values vs" using assms(3) by (cases p) (auto simp: list_all_iff)
    then show ?thesis using t(3) [of i] p bucket_distinct by (auto simp: slot_rep_def)
  qed
  show "distinct (map fst vals)" unfolding vals by (rule slots_concat(1) [OF assms(1,2) slot])
  show "map_of vals = m" unfolding vals by (rule slots_concat(2) [OF assms(1,2) slot])
qed

lemma sorted_bucket:
  assumes "distinct (map fst vals)" "vals \<noteq> []" "length vals \<le> max_array_width conf"
  shows "bucket_ok conf (sort_key fst vals)" "map_of (sort_key fst vals) = map_of vals"
proof -
  have "distinct (map fst (sort_key fst vals))" using assms(1) by (simp add: distinct_map)
  then show "bucket_ok conf (sort_key fst vals)" using assms by (auto simp: bucket_ok_def strict_sorted_iff dest: arg_cong [of _ "[]" length])
  show "map_of (sort_key fst vals) = map_of vals"
    using \<open>distinct (map fst (sort_key fst vals))\<close> assms(1) by (subst map_of_inject_set) simp_all
qed

lemma pointer_clean_tree:
  assumes ok: "conf_ok (hm_conf env)" and t: "tree env bs c (d + 1) n m" and d: "min_data_depth (hm_conf env) \<le> d" and m: "m \<noteq> Map.empty"
  shows "if max_array_width (hm_conf env) < card (dom m) then pointer_clean (hm_conf env) d n = Inr (Dirty n)
    else \<exists>vs. pointer_clean (hm_conf env) d n = Inr (Values vs) \<and> bucket_ok (hm_conf env) vs \<and> map_of vs = m"
proof -
  let ?ps = "node_pointers n" and ?w = "max_array_width (hm_conf env)"
  let ?vals = "concat (map (\<lambda>p. the (bucket_of p)) ?ps)"
  have ne: "?ps \<noteq> []" using tree_pointers(2) [OF ok t] m by simp
  show ?thesis
  proof (cases "list_all (\<lambda>p. bucket_of p \<noteq> None) ?ps")
    case False
    then obtain p where p: "p \<in> set ?ps" "bucket_of p = None" by (auto simp: list_all_iff)
    then have "?w < card (dom m)" using child_many [OF ok t] d by simp
    moreover have "bucket_of (?ps ! 0) = None" if "length ?ps = 1" using that p by (cases ?ps) auto
    ultimately show ?thesis using False d ne by (auto simp: pointer_clean_def Let_def split: option.splits)
  next
    case True
    note v = all_buckets [OF ok t True]
    have len: "length ?vals = card (dom m)"
      using distinct_card [OF v(1)] dom_map_of_conv_image_fst [of ?vals] unfolding v(2) set_map length_map by simp
    have vne: "?vals \<noteq> []" using m v(2) by auto
    show ?thesis
    proof (cases "length ?ps = 1")
      case one: True
      then obtain vs where vs: "?ps = [Values vs]" using True by (cases ?ps; cases "?ps ! 0") auto
      have "node_slot n i = Some (Values vs) \<Longrightarrow> bucket_ok (hm_conf env) vs" for i
        using treeD(3) [OF t, of i] by (simp add: slot_rep_def)
      moreover obtain i where "node_slot n i = Some (Values vs)"
        using node_pointer_slot [OF treeD(2) [OF t], of "Values vs"] vs by auto
      ultimately have "bucket_ok (hm_conf env) vs" by blast
      then show ?thesis using vs v(2) len d by (auto simp: pointer_clean_def bucket_ok_def)
    next
      case False
      then show ?thesis
        using True d ne len sorted_bucket [OF v(1) vne, of "hm_conf env"] v(2) tree_pointers(1) [OF ok t]
        by (auto simp: pointer_clean_def Let_def)
    qed
  qed
qed


subsection \<open>Removing\<close>

lemma rm_value_empty:
  assumes "hash_step env h c = Inr (w, c')" "\<not> bm_test_bit (node_bitfield n) (unat w)"
  shows "rm_value env bs k h c d n = (Inr None, n)"
  using assms by (subst rm_value.simps) simp

lemma rm_value_child:
  assumes "hash_step env h c = Inr (w, c')" "bm_test_bit (node_bitfield n) (unat w)"
    and "index_for_bit_pos (node_bitfield n) (unat w) = j" "j < length (node_pointers n)" "node_pointers n ! j = p"
    and "child env bs (d + 1) p = Some n'" "rm_value env bs k h c' (d + 1) n' = (Inr r, n'')"
  shows "rm_value env bs k h c d n =
    (case r of None \<Rightarrow> (Inr None, with_child n j (refill p n'')) | Some kv \<Rightarrow> cleaned env d n j (unat w) n'' kv)"
  using assms by (subst rm_value.simps) (cases p, auto split: sum.splits option.splits)

lemma rm_value_bucket:
  assumes "hash_step env h c = Inr (w, c')" "bm_test_bit (node_bitfield n) (unat w)"
    and "index_for_bit_pos (node_bitfield n) (unat w) = j" "j < length (node_pointers n)" "node_pointers n ! j = Values vals"
  shows "rm_value env bs k h c d n =
    (case position (\<lambda>p. k = fst p) vals of
       None \<Rightarrow> (Inr None, n)
     | Some i \<Rightarrow>
         if length vals = 1 then (Inr (Some (vals ! 0)), rm_child n j (unat w))
         else (Inr (Some (vals ! i)), with_child n j (Values (vec_remove i vals))))"
  using assms by (subst rm_value.simps) simp

text \<open>What the node becomes when the entries of a child shrink.\<close>

lemma cleaned_tree:
  assumes ok: "conf_ok (hm_conf env)" and t: "tree env bs c d n m"
    and i: "i < 256" "bm_test_bit (node_bitfield n) i" and j: "j = index_for_bit_pos (node_bitfield n) i"
    and sub: "tree env bs (next_consumed env c) (d + 1) n2 (at_slot env c m' i)"
    and rest: "\<And>l. l \<noteq> i \<Longrightarrow> at_slot env c m' l = at_slot env c m l"
    and size: "min_data_depth (hm_conf env) \<le> d \<Longrightarrow> max_array_width (hm_conf env) \<le> card (dom (at_slot env c m' i))"
  shows "\<exists>n'. cleaned env d n j i n2 kv = (Inr (Some kv), n') \<and> tree env bs c d n' m'"
proof -
  let ?m = "at_slot env c m' i" and ?conf = "hm_conf env"
  note ch = with_child_slot [OF treeD(2) [OF t] i, folded j]
  have replace: "tree env bs c d (with_child n j p) m'" if "slot_rep env bs c d (Some p) ?m" for p
    by (rule tree_change [OF t ch(1,2) that rest])
  have remove: "tree env bs c d (rm_child n j i) m'" if "?m = Map.empty"
    using that by (intro tree_change [OF t ch(5,6) _ rest]) (simp_all add: slot_rep_def)
  have dirty: "slot_rep env bs c d (Some (Dirty n2)) ?m" if "child_size ?conf d ?m"
    using that sub slot_rep_child [of env bs d "Dirty n2" n2 c ?m] by simp
  show ?thesis
  proof (cases "min_data_depth ?conf \<le> d")
    case True
    have ne: "?m \<noteq> Map.empty" using size [OF True] ok by (auto simp: conf_ok_def)
    show ?thesis
    proof (cases "max_array_width ?conf < card (dom ?m)")
      case many: True
      have "pointer_clean ?conf d n2 = Inr (Dirty n2)" using pointer_clean_tree [OF ok sub True ne] many by simp
      then have "cleaned env d n j i n2 kv = (Inr (Some kv), with_child n j (Dirty n2))" by (simp add: cleaned_def node_clean_def)
      then show ?thesis using replace [OF dirty] many True by (simp add: child_size_def)
    next
      case False
      then obtain vs where vs: "pointer_clean ?conf d n2 = Inr (Values vs)" "bucket_ok ?conf vs" "map_of vs = ?m"
        using pointer_clean_tree [OF ok sub True ne] by auto
      then have "cleaned env d n j i n2 kv = (Inr (Some kv), with_child n j (Values vs))" by (simp add: cleaned_def node_clean_def)
      moreover have "slot_rep env bs c d (Some (Values vs)) ?m" using vs True by (simp add: slot_rep_def)
      ultimately show ?thesis using replace by blast
    qed
  next
    case False
    show ?thesis
    proof (cases "?m = Map.empty")
      case True
      then have "node_pointers n2 = []" using tree_pointers(2) [OF ok sub] by simp
      then have "cleaned env d n j i n2 kv = (Inr (Some kv), rm_child n j i)"
        using False by (simp add: cleaned_def node_clean_def pointer_clean_def)
      then show ?thesis using remove [OF True] by blast
    next
      case ne: False
      then have "node_pointers n2 \<noteq> []" using tree_pointers(2) [OF ok sub] by simp
      then have "cleaned env d n j i n2 kv = (Inr (Some kv), with_child n j (Dirty n2))"
        using False by (simp add: cleaned_def node_clean_def pointer_clean_def Let_def)
      then show ?thesis using replace [OF dirty] ne False by (simp add: child_size_def)
    qed
  qed
qed

lemma rm_bucket_tree:
  assumes t: "tree env bs c d n m"
    and w: "hash_step env (hm_hash env k) c = Inr (w, next_consumed env c)" "unat w = key_slot env c k"
    and some: "bm_test_bit (node_bitfield n) (key_slot env c k)"
    and j: "j = index_for_bit_pos (node_bitfield n) (key_slot env c k)"
    and vs: "node_pointers n ! j = Values vs" "min_data_depth (hm_conf env) \<le> d" "bucket_ok (hm_conf env) vs"
      "at_slot env c m (key_slot env c k) = map_of vs"
  shows "\<exists>n'. rm_value env bs k (hm_hash env k) c d n = (Inr (map_option (Pair k) (m k)), n') \<and> tree env bs c d n' (m(k := None))"
proof -
  let ?i = "key_slot env c k"
  note ch = with_child_slot [OF treeD(2) [OF t] key_slot_bound some, folded j]
  note unf = rm_value_bucket [OF w(1), unfolded w(2), OF some j [symmetric] ch(3) vs(1), of bs k d]
  have mk: "m k = map_of vs k" using vs(4) at_slot_key [of env c m k] by simp
  show ?thesis
  proof (cases "position (\<lambda>p. k = fst p) vs")
    case None
    then have "map_of vs k = None" by (auto simp: position_None map_of_eq_None_iff)
    then have "m(k := None) = m" "map_option (Pair k) (m k) = None" using mk by (simp_all add: fun_upd_idem)
    then show ?thesis using None t by (simp add: unf)
  next
    case (Some l)
    note p = position_Some [OF Some]
    have mk: "m k = Some (snd (vs ! l))"
      using mk p map_of_eq_Some_iff [OF bucket_distinct [OF vs(3)], of k "snd (vs ! l)"] nth_mem [OF p(1)] by simp
    then have res: "map_option (Pair k) (m k) = Some (vs ! l)" using p(2) by simp
    show ?thesis
    proof (cases "length vs = 1")
      case True
      then have l: "l = 0" using p(1) by simp
      have "vs = [vs ! 0]" using True by (cases vs) auto
      then have "at_slot env c (m(k := None)) ?i = Map.empty"
        using p(2) l map_of.simps(2) [of "vs ! 0" "[]"] vs(4) by (simp add: at_slot_upd)
      then have "tree env bs c d (rm_child n j ?i) (m(k := None))"
        by (intro tree_change [OF t ch(5,6)]) (simp_all add: slot_rep_def at_slot_upd)
      then show ?thesis unfolding res using Some True l by (simp add: unf)
    next
      case False
      note b = bucket_remove [OF vs(3) Some False]
      have "tree env bs c d (with_child n j (Values (vec_remove l vs))) (m(k := None))"
        using b vs(2) by (intro tree_change [OF t ch(1,2)]) (simp_all add: slot_rep_def at_slot_upd vs(4))
      then show ?thesis unfolding res using Some False by (simp add: unf)
    qed
  qed
qed

lemma rm_value_tree:
  assumes "conf_ok (hm_conf env)"
  shows "tree env bs c d n m \<Longrightarrow>
    \<exists>n'. rm_value env bs k (hm_hash env k) c d n = (Inr (map_option (Pair k) (m k)), n') \<and> tree env bs c d n' (m(k := None))"
proof (induction "256 - c" arbitrary: c d n m rule: less_induct)
  case less
  let ?i = "key_slot env c k" and ?h = "hm_hash env k" and ?c = "next_consumed env c"
  note t = treeD [OF less.prems]
  obtain w where w: "hash_step env ?h c = Inr (w, ?c)" "unat w = ?i" using hash_step_Inr [OF assms t(1)] by blast
  show ?case
  proof (cases "bm_test_bit (node_bitfield n) ?i")
    case False
    then have "node_slot n ?i = None" by (rule insert_slot(3) [OF t(2) key_slot_bound])
    then have "m k = None" using t(3) [of ?i] at_slot_key [of env c m k] by (simp add: slot_rep_def)
    then show ?thesis using rm_value_empty [OF w(1)] False w(2) less.prems by (simp add: fun_upd_idem)
  next
    case True
    define j where "j = index_for_bit_pos (node_bitfield n) ?i"
    note ch = with_child_slot [OF t(2) key_slot_bound [of env c k] True, folded j_def]
    let ?m = "at_slot env c m ?i" and ?p = "node_pointers n ! j"
    have "slot_rep env bs c d (Some ?p) ?m" using t(3) [of ?i] ch(4) by simp
    then show ?thesis
    proof (cases rule: slot_rep_cases)
      case (bucket vs)
      show ?thesis by (rule rm_bucket_tree [OF less.prems w True j_def bucket])
    next
      case (child n1)
      obtain n2 where n2: "rm_value env bs k ?h ?c (d + 1) n1 = (Inr (map_option (Pair k) (m k)), n2)"
          "tree env bs ?c (d + 1) n2 (?m(k := None))"
        using less.hyps [OF next_consumed_measure [OF assms t(1)] child(5)] at_slot_key [of env c m k] by auto
      note unf = rm_value_child [OF w(1), unfolded w(2), OF True j_def [symmetric] ch(3) refl child(1) n2(1)]
      show ?thesis
      proof (cases "m k")
        case None
        then have "?m(k := None) = ?m" using at_slot_key [of env c m k] by (simp add: fun_upd_idem)
        then have "tree env bs c d (with_child n j (refill ?p n2)) m"
          using n2(2) child(3,4) refill_child [OF child(1), of n2]
          by (intro tree_change [OF less.prems ch(1,2)]) (simp_all add: slot_rep_child)
        then show ?thesis using None unf by (simp add: fun_upd_idem)
      next
        case (Some v)
        have fin: "finite (dom ?m)" by (rule tree_finite [OF assms child(5)])
        have "max_array_width (hm_conf env) \<le> card (dom (?m(k := None)))" if "min_data_depth (hm_conf env) \<le> d"
          using child(3) that fin by (auto simp: child_size_def card_Diff_singleton_if)
        then have "\<exists>n'. cleaned env d n j ?i n2 (k, v) = (Inr (Some (k, v)), n') \<and> tree env bs c d n' (m(k := None))"
          using n2(2) by (intro cleaned_tree [OF assms less.prems key_slot_bound True j_def]) (simp_all add: at_slot_upd)
        then show ?thesis using Some unf by simp
      qed
    qed
  qed
qed

end
