(* ===== verification/HamtStore.thy ===== *)
theory HamtStore
  imports HamtUpdate
begin

text \<open>
  HAMTs in the store. A flush stores the canonical form of the map, loading its root gives the map
  back, and the root CID is determined by the map and determines it, whatever operations built the
  tree and whatever is cached.
\<close>

subsection \<open>Stored maps\<close>

definition ser_rep :: "('k::linorder, 'v) hamt_env \<Rightarrow> Blocks \<Rightarrow> nat \<Rightarrow> nat \<Rightarrow> ('k, 'v) PointerSer option \<Rightarrow> ('k \<Rightarrow> 'v option) \<Rightarrow> bool" where
  "ser_rep env bs c d qo m =
    (case qo of
       None \<Rightarrow> m = Map.empty
     | Some (SerValues vs) \<Rightarrow> min_data_depth (hm_conf env) \<le> d \<and> bucket_ok (hm_conf env) vs \<and> m = map_of vs
     | Some (SerLink l) \<Rightarrow> child_size (hm_conf env) d m \<and> stored env bs (next_consumed env c) (d + 1) l m)"

lemma ser_rep_split:
  "ser_rep env bs c d qo m \<longleftrightarrow>
    (qo = None \<longrightarrow> m = Map.empty) \<and>
    (\<forall>vs. qo = Some (SerValues vs) \<longrightarrow> min_data_depth (hm_conf env) \<le> d \<and> bucket_ok (hm_conf env) vs \<and> m = map_of vs) \<and>
    (\<forall>l. qo = Some (SerLink l) \<longrightarrow> child_size (hm_conf env) d m \<and> stored env bs (next_consumed env c) (d + 1) l m)"
  by (simp add: ser_rep_def split: option.split PointerSer.split)

lemma stored_iff:
  "stored env bs c d cid m \<longleftrightarrow>
    (\<exists>b qs. c < 256 \<and> cbor_get (hm_codec env) bs cid = Inr (Some (b, qs)) \<and> cid = obj_cid (hm_codec env) (b, qs) \<and>
      slots_ok b qs \<and> (\<forall>i. ser_rep env bs c d (slot_get b qs i) (at_slot env c m i)))"
  unfolding stored.simps [of env bs c d cid m] ser_rep_split all_conj_distrib by blast

lemma stored_mono: "stored env bs c d cid m \<Longrightarrow> extends_store (hm_codec env) bs bs' \<Longrightarrow> stored env bs' c d cid m"
proof (induction rule: stored.induct)
  case (stored_node c cid b qs m d)
  show ?case
    using stored_node by (intro stored.stored_node [of _ _ _ _ b qs]) (auto simp: extends_store_def)
qed

lemma load_mono:
  assumes "stored env bs c d cid m" "extends_store (hm_codec env) bs bs'"
  shows "node_load conf (hm_codec env) bs' cid k = node_load conf (hm_codec env) bs cid k"
proof -
  obtain x where "cbor_get (hm_codec env) bs cid = Inr (Some x)" "cid = obj_cid (hm_codec env) x"
    using assms(1) unfolding stored_iff by blast
  then have "cbor_get (hm_codec env) bs' cid = cbor_get (hm_codec env) bs cid" using assms(2) unfolding extends_store_def by metis
  then show ?thesis by (simp add: node_load_def)
qed

lemma child_mono:
  assumes "child env bs k p = Some n" "link_stored env bs c d p m" "extends_store (hm_codec env) bs bs'"
  shows "child env bs' k p = Some n" "link_stored env bs' c d p m"
proof -
  show "link_stored env bs' c d p m" using assms stored_mono by (cases p) auto
  show "child env bs' k p = Some n"
  proof (cases p)
    case (Link l cache)
    then show ?thesis using assms load_mono [OF _ assms(3)] by (cases cache) (auto simp: cached_def)
  qed (use assms in auto)
qed

lemma tree_mono: "tree env bs c d n m \<Longrightarrow> extends_store (hm_codec env) bs bs' \<Longrightarrow> tree env bs' c d n m"
proof (induction rule: tree.induct)
  case (tree_node c n m d)
  show ?case
  proof (rule tree.tree_node [OF tree_node.hyps(1-4)], intro allI impI)
    fix i p
    assume p: "node_slot n i = Some p \<and> bucket_of p = None"
    then obtain n' where n': "child env bs (d + 1) p = Some n'" "child_size (hm_conf env) d (at_slot env c m i)"
        "link_stored env bs (next_consumed env c) (d + 1) p (at_slot env c m i)"
        "tree env bs' (next_consumed env c) (d + 1) n' (at_slot env c m i)"
      using tree_node.IH tree_node.prems by blast
    then show "\<exists>n'. child env bs' (d + 1) p = Some n' \<and> child_size (hm_conf env) d (at_slot env c m i) \<and>
        link_stored env bs' (next_consumed env c) (d + 1) p (at_slot env c m i) \<and>
        tree env bs' (next_consumed env c) (d + 1) n' (at_slot env c m i)"
      using child_mono [OF n'(1,3) tree_node.prems] by blast
  qed
qed

lemma slot_rep_mono: "slot_rep env bs c d (Some p) m \<Longrightarrow> extends_store (hm_codec env) bs bs' \<Longrightarrow> slot_rep env bs' c d (Some p) m"
proof -
  assume ext: "extends_store (hm_codec env) bs bs'"
  assume "slot_rep env bs c d (Some p) m"
  then show ?thesis
  proof (cases rule: slot_rep_cases)
    case (child n)
    then show ?thesis
      using child_mono [OF child(1,4) ext] tree_mono [OF child(5) ext] slot_rep_child by blast
  qed (simp add: slot_rep_def)
qed


subsection \<open>Loading\<close>

lemma keys_ascending_sorted: "keys_ascending kvs \<longleftrightarrow> sorted_wrt (<) (map fst kvs)"
proof (induction kvs rule: keys_ascending.induct)
  case (1 a b kvs)
  then show ?case by auto
qed auto

lemma check_pointers_None:
  "check_pointers conf d ps = None \<longleftrightarrow>
    (\<forall>p \<in> set ps. case p of Values vs \<Rightarrow> min_data_depth conf \<le> d \<and> bucket_ok conf vs | Link l _ \<Rightarrow> cid_codec l = DAG_CBOR | Dirty _ \<Rightarrow> False)"
  by (induction ps) (auto simp: keys_ascending_sorted bucket_ok_def split: Pointer.splits)

lemma key_slot_width: "conf_ok (hm_conf env) \<Longrightarrow> c < 256 \<Longrightarrow> key_slot env c k < 2 ^ bit_width (hm_conf env)"
proof -
  assume ok: "conf_ok (hm_conf env)" "c < 256"
  let ?bits = "take (next_consumed env c - c) (drop c (key_bits (Rep_HashedKey (hm_hash env k))))"
  have "length ?bits \<le> bit_width (hm_conf env)" by (simp add: next_consumed_def)
  then have "bits_value ?bits < 2 ^ bit_width (hm_conf env)"
    using bits_value_less [of ?bits] by (meson one_le_numeral order_less_le_trans power_increasing)
  then show ?thesis using key_slot_value [OF ok] by simp
qed

lemma ser_slots_keys:
  assumes "slots_ok b qs" "\<forall>i. ser_rep env bs c d (slot_get b qs i) (at_slot env c m i)" "conf_ok (hm_conf env)"
  shows "slots b = key_slot env c ` dom m"
proof (intro set_eqI iffI)
  fix i
  have rep: "ser_rep env bs c d (slot_get b qs i) (at_slot env c m i)" using assms(2) by blast
  show "i \<in> key_slot env c ` dom m" if "i \<in> slots b"
  proof -
    have "slot_get b qs i \<noteq> None" using that slot_get_dom [OF assms(1)] by blast
    then have "at_slot env c m i \<noteq> Map.empty"
      using rep by (auto simp: ser_rep_def bucket_ok_def child_size_def split: option.splits PointerSer.splits if_splits)
    then obtain k where "k \<in> dom (at_slot env c m i)" by (auto simp: fun_eq_iff)
    then show ?thesis using at_slot_dom [of k env c m i] by blast
  qed
  show "i \<in> slots b" if i: "i \<in> key_slot env c ` dom m"
  proof (rule ccontr)
    assume "i \<notin> slots b"
    then have "at_slot env c m i = Map.empty" using rep slot_get_None [of i b qs] by (simp add: ser_rep_def)
    then show False using i at_slot_dom [of _ env c m i] by auto
  qed
qed

lemma slot_get_map: "slot_get b (map f qs) i = map_option f (slot_get b qs i)"
  by (simp add: slot_get_def)

lemma obj_cid_codec: "codec_ok cd \<Longrightarrow> cid_codec (obj_cid cd x) = DAG_CBOR"
  by (simp add: codec_ok_def obj_cid_def)

lemma stored_load:
  assumes "conf_ok (hm_conf env)" "codec_ok (hm_codec env)"
  shows "stored env bs c d cid m \<Longrightarrow> d = 0 \<or> m \<noteq> Map.empty \<Longrightarrow>
    \<exists>n. node_load (hm_conf env) (hm_codec env) bs cid d = Inr n \<and> tree env bs c d n m"
proof (induction "256 - c" arbitrary: c d cid m rule: less_induct)
  case less
  let ?conf = "hm_conf env"
  obtain b qs where x: "c < 256" "cbor_get (hm_codec env) bs cid = Inr (Some (b, qs))" "slots_ok b qs"
      and rep: "\<forall>i. ser_rep env bs c d (slot_get b qs i) (at_slot env c m i)"
    using less.prems(1) unfolding stored_iff by blast
  let ?n = "Node b (map pointer_de qs)"
  have slots: "slots b = key_slot env c ` dom m" by (rule ser_slots_keys [OF x(3) rep assms(1)])
  have len: "length qs = card (slots b)" using x(3) by (simp add: slots_ok_def count_ones_slots)
  have "slots b \<subseteq> {..<2 ^ bit_width ?conf}" using key_slot_width [OF assms(1) x(1)] slots by auto
  then have width: "length qs \<le> 2 ^ bit_width ?conf" using len card_mono [of "{..<2 ^ bit_width ?conf}" "slots b"] by simp
  have empty: "qs \<noteq> []" if "d \<noteq> 0"
  proof -
    have "slots b \<noteq> {}" using that less.prems(2) slots by auto
    then show ?thesis using len finite_slots [of b] by auto
  qed
  have "case pointer_de q of Values vs \<Rightarrow> min_data_depth ?conf \<le> d \<and> bucket_ok ?conf vs | Link l _ \<Rightarrow> cid_codec l = DAG_CBOR | Dirty _ \<Rightarrow> False"
    if mem: "q \<in> set qs" for q
  proof -
    obtain i where "slot_get b qs i = Some q" using mem unfolding slot_set [OF x(3)] by blast
    then have "ser_rep env bs c d (Some q) (at_slot env c m i)" using rep by metis
    then show ?thesis
    proof (cases q)
      case (SerLink l)
      then have "stored env bs (next_consumed env c) (d + 1) l (at_slot env c m i)"
        using \<open>ser_rep env bs c d (Some q) (at_slot env c m i)\<close> by (simp add: ser_rep_def)
      then have "\<exists>x. l = obj_cid (hm_codec env) x" unfolding stored_iff by blast
      then show ?thesis using obj_cid_codec [OF assms(2)] SerLink by (auto simp: pointer_de_def)
    qed (simp add: ser_rep_def pointer_de_def)
  qed
  then have "check_pointers ?conf d (map pointer_de qs) = None" by (simp add: check_pointers_None)
  then have load: "node_load ?conf (hm_codec env) bs cid d = Inr ?n"
    using x width empty by (auto simp: node_load_def Let_def slots_ok_def)
  have "slot_rep env bs c d (node_slot ?n i) (at_slot env c m i)" for i
  proof (cases "slot_get b qs i")
    case None
    then show ?thesis using spec [OF rep, of i] by (simp add: node_slot_def slot_get_map slot_rep_def ser_rep_def)
  next
    case (Some q)
    show ?thesis
    proof (cases q)
      case (SerValues vs)
      then show ?thesis using spec [OF rep, of i] Some by (simp add: node_slot_def slot_get_map slot_rep_def ser_rep_def pointer_de_def)
    next
      case (SerLink l)
      then have st: "child_size ?conf d (at_slot env c m i)" "stored env bs (next_consumed env c) (d + 1) l (at_slot env c m i)"
        using spec [OF rep, of i] Some by (simp_all add: ser_rep_def)
      have "at_slot env c m i \<noteq> Map.empty" using st(1) by (auto simp: child_size_def split: if_splits)
      then obtain n' where "node_load ?conf (hm_codec env) bs l (d + 1) = Inr n'" "tree env bs (next_consumed env c) (d + 1) n' (at_slot env c m i)"
        using less.hyps [OF next_consumed_measure [OF assms(1) x(1)] st(2)] by blast
      then show ?thesis using Some SerLink st slot_rep_child [of env bs d "Link l None" n' c "at_slot env c m i"]
        by (simp add: node_slot_def slot_get_map pointer_de_def cached_def)
    qed
  qed
  then have "tree env bs c d ?n m" using x(1,3) by (simp add: tree_iff node_ok_def slots_ok_def)
  then show ?case using load by blast
qed

subsection \<open>Storing\<close>

fun settled :: "('k, 'v) Pointer \<Rightarrow> bool" where
  "settled (Dirty _) = False"
| "settled _ = True"

fun pointer_se :: "('k, 'v) Pointer \<Rightarrow> ('k, 'v) PointerSer" where
  "pointer_se (Values vs) = SerValues vs"
| "pointer_se (Link l _) = SerLink l"
| "pointer_se (Dirty _) = SerValues []"

lemma settled_ser: "list_all settled ps \<Longrightarrow> pointers_ser ps = Inr (map pointer_se ps)"
proof (induction ps)
  case (Cons p ps)
  then show ?case by (cases p) auto
qed simp

lemma put_settled:
  assumes "codec_ok (hm_codec env)" "tree env bs c d n m" "list_all settled (node_pointers n)"
  obtains cid bs' where "node_put (hm_codec env) n bs = Inr (cid, bs')" "extends_store (hm_codec env) bs bs'" "stored env bs' c d cid m"
proof -
  let ?x = "(node_bitfield n, map pointer_se (node_pointers n))"
  obtain bs' where put: "cbor_put (hm_codec env) bs ?x = Inr (obj_cid (hm_codec env) ?x, bs')"
      "cbor_get (hm_codec env) bs' (obj_cid (hm_codec env) ?x) = Inr (Some ?x)" "extends_store (hm_codec env) bs bs'"
    by (rule cbor_put_get [OF assms(1)])
  note t = treeD [OF tree_mono [OF assms(2) put(3)]]
  have "ser_rep env bs' c d (slot_get (node_bitfield n) (map pointer_se (node_pointers n)) i) (at_slot env c m i)" for i
  proof (cases "node_slot n i")
    case None
    then show ?thesis using t(3) [of i] by (simp add: node_slot_def slot_get_map slot_rep_def ser_rep_def)
  next
    case (Some p)
    then have "p \<in> set (node_pointers n)" using slot_set [of "node_bitfield n" "node_pointers n"] t(2)
      by (auto simp: node_ok_def node_slot_def)
    then have "settled p" using assms(3) by (simp add: list_all_iff)
    then show ?thesis using t(3) [of i] Some
      by (cases p) (auto simp: node_slot_def slot_get_map slot_rep_def ser_rep_def)
  qed
  then have "stored env bs' c d (obj_cid (hm_codec env) ?x) m"
    unfolding stored_iff using t(1,2) put(2)
    by (intro exI [of _ "node_bitfield n"] exI [of _ "map pointer_se (node_pointers n)"] conjI allI)
      (simp_all add: node_ok_def slots_ok_def)
  moreover have "node_put (hm_codec env) n bs = Inr (obj_cid (hm_codec env) ?x, bs')"
    using put(1) by (simp add: node_put_def settled_ser [OF assms(3)])
  ultimately show ?thesis using that put(3) by blast
qed

text \<open>The slots of a node as the list of its pointers.\<close>

lemma tree_list_iff:
  "tree env bs c d n m \<longleftrightarrow> c < 256 \<and> node_ok n \<and> (\<forall>i. i \<notin> slots (node_bitfield n) \<longrightarrow> at_slot env c m i = Map.empty) \<and>
    list_all2 (\<lambda>p. slot_rep env bs c d (Some p)) (node_pointers n) (map (at_slot env c m) (sorted_list_of_set (slots (node_bitfield n))))"
proof (cases "node_ok n")
  case True
  let ?b = "node_bitfield n" and ?xs = "sorted_list_of_set (slots (node_bitfield n))"
  have ps: "node_pointers n = map (\<lambda>i. the (node_slot n i)) ?xs" by (rule node_slot_list [OF True])
  have set: "set ?xs = slots ?b" by (simp add: finite_slots)
  have "list_all2 (\<lambda>p. slot_rep env bs c d (Some p)) (node_pointers n) (map (at_slot env c m) ?xs) \<longleftrightarrow>
      (\<forall>i \<in> slots ?b. slot_rep env bs c d (node_slot n i) (at_slot env c m i))"
  proof -
    have some: "Some (the (node_slot n i)) = node_slot n i" if "i \<in> slots ?b" for i using that node_slot_dom [OF True, of i] by simp
    have "list_all2 (\<lambda>p. slot_rep env bs c d (Some p)) (map (\<lambda>i. the (node_slot n i)) ?xs) (map (at_slot env c m) ?xs) \<longleftrightarrow>
        (\<forall>i \<in> slots ?b. slot_rep env bs c d (Some (the (node_slot n i))) (at_slot env c m i))"
      by (simp only: list_all2_map1 list_all2_map2 list_all2_same set)
    then show ?thesis unfolding ps [symmetric] using some by simp
  qed
  moreover have "slot_rep env bs c d (node_slot n i) (at_slot env c m i) \<longleftrightarrow> at_slot env c m i = Map.empty" if "i \<notin> slots ?b" for i
    using that node_slot_dom [OF True, of i] by (simp add: slot_rep_def)
  ultimately show ?thesis using True unfolding tree_iff by blast
qed (simp add: tree_iff)

lemma flush_tree:
  fixes env :: "('k::linorder, 'v) hamt_env"
  assumes ok: "codec_ok (hm_codec env)"
  shows "tree env bs c d n m \<Longrightarrow> \<exists>n' bs'. node_flush (hm_codec env) n bs = (Inr (), n', bs') \<and>
      extends_store (hm_codec env) bs bs' \<and> tree env bs' c d n' m \<and> list_all settled (node_pointers n')"
    and "list_all2 (\<lambda>p. slot_rep env bs c d (Some p)) ps ms \<Longrightarrow> \<exists>ps' bs'. pointers_flush (hm_codec env) ps bs = (Inr (), ps', bs') \<and>
      extends_store (hm_codec env) bs bs' \<and> list_all2 (\<lambda>p. slot_rep env bs' c d (Some p)) ps' ms \<and> list_all settled ps'"
    and "slot_rep env bs c d (Some p) m \<Longrightarrow> \<exists>p' bs'. pointer_flush (hm_codec env) p bs = (Inr (), p', bs') \<and>
      extends_store (hm_codec env) bs bs' \<and> slot_rep env bs' c d (Some p') m \<and> settled p'"
proof (induction "hm_codec env" n bs and "hm_codec env" ps bs and "hm_codec env" p bs arbitrary: c d m and c d ms and c d m
    rule: node_flush_pointers_flush_pointer_flush.induct)
  case (1 b ps bs)
  note t = "1.prems" [unfolded tree_list_iff]
  obtain ps' bs' where f: "pointers_flush (hm_codec env) ps bs = (Inr (), ps', bs')" "extends_store (hm_codec env) bs bs'"
      "list_all2 (\<lambda>p. slot_rep env bs' c d (Some p)) ps' (map (at_slot env c m) (sorted_list_of_set (slots b)))" "list_all settled ps'"
    using "1.hyps" [of c d "map (at_slot env c m) (sorted_list_of_set (slots b))"] t by auto
  have "length ps' = length ps" using f(3) t by (auto dest!: list_all2_lengthD)
  then have "tree env bs' c d (Node b ps') m" using t f(3) by (simp add: tree_list_iff node_ok_def slots_ok_def)
  then show ?case using f by simp
next
  case (2 bs)
  then show ?case by (simp add: extends_store_refl)
next
  case (3 p ps bs)
  obtain m0 ms0 where ms: "ms = m0 # ms0" "slot_rep env bs c d (Some p) m0" "list_all2 (\<lambda>p. slot_rep env bs c d (Some p)) ps ms0"
    using "3.prems" by (cases ms) auto
  obtain p' bs1 where p': "pointer_flush (hm_codec env) p bs = (Inr (), p', bs1)" "extends_store (hm_codec env) bs bs1"
      "slot_rep env bs1 c d (Some p') m0" "settled p'"
    using "3.hyps"(1) [OF ms(2)] by blast
  have "list_all2 (\<lambda>p. slot_rep env bs1 c d (Some p)) ps ms0"
    using ms(3) by (rule list_all2_mono) (rule slot_rep_mono [OF _ p'(2)])
  then obtain ps' bs2 where ps': "pointers_flush (hm_codec env) ps bs1 = (Inr (), ps', bs2)" "extends_store (hm_codec env) bs1 bs2"
      "list_all2 (\<lambda>p. slot_rep env bs2 c d (Some p)) ps' ms0" "list_all settled ps'"
    using "3.hyps"(2) [OF p'(1) [symmetric] refl refl, of c d ms0] by blast
  then show ?case using p' ms(1) slot_rep_mono [OF p'(3) ps'(2)] extends_store_trans [OF p'(2) ps'(2)] by simp
next
  case (4 n bs)
  let ?c = "next_consumed env c"
  have t: "child_size (hm_conf env) d m" "tree env bs ?c (d + 1) n m" using "4.prems" by (simp_all add: slot_rep_def)
  obtain n' bs1 where f: "node_flush (hm_codec env) n bs = (Inr (), n', bs1)" "extends_store (hm_codec env) bs bs1"
      "tree env bs1 ?c (d + 1) n' m" "list_all settled (node_pointers n')"
    using "4.hyps" [OF t(2)] by blast
  obtain cid bs2 where put: "node_put (hm_codec env) n' bs1 = Inr (cid, bs2)" "extends_store (hm_codec env) bs1 bs2"
      "stored env bs2 ?c (d + 1) cid m"
    by (rule put_settled [OF ok f(3,4)])
  have "slot_rep env bs2 c d (Some (Link cid (Some n'))) m"
    using t(1) put(3) tree_mono [OF f(3) put(2)] slot_rep_child [of env bs2 d "Link cid (Some n')" n' c m] by (simp add: cached_def)
  then show ?case using f(1) put(1) extends_store_trans [OF f(2) put(2)] by simp
qed (simp_all add: extends_store_refl)


subsection \<open>The root is determined by the map\<close>

lemma slots_inject: "slots a = slots b \<Longrightarrow> a = b"
proof -
  assume eq: "slots a = slots b"
  have "word_at a j = word_at b j" if "j < 4" for j
  proof (rule bit_word_eqI)
    fix n
    assume "n < LENGTH(64)"
    then have n: "n < 64" by simp
    let ?i = "64 * j + n"
    have i: "?i < 256" "?i div 64 = j" "?i mod 64 = n" using that n by auto
    have "bm_test_bit a ?i \<longleftrightarrow> bm_test_bit b ?i" using eq i(1) unfolding slots_def by blast
    then show "bit (word_at a j) n = bit (word_at b j) n" unfolding test_bit_bit i(2,3) .
  qed
  then have "word_at a 0 = word_at b 0" "word_at a 1 = word_at b 1" "word_at a 2 = word_at b 2" "word_at a 3 = word_at b 3" by simp_all
  then show ?thesis by (simp add: word_at_def Bitfield.expand)
qed

lemma bucket_unique:
  assumes "bucket_ok conf vs" "bucket_ok conf ws" "map_of vs = map_of ws"
  shows "vs = ws"
proof -
  have eq: "xs = map (\<lambda>k. (k, the (map_of xs k))) (map fst xs)" if "distinct (map fst xs)" for xs :: "('a \<times> 'b) list"
    using map_of_is_SomeI [OF that] by (auto simp: comp_def intro!: map_idI [symmetric])
  have "fst ` set vs = fst ` set ws" using assms(3) by (metis dom_map_of_conv_image_fst)
  then have "map fst vs = map fst ws"
    using assms(1,2) unfolding bucket_ok_def strict_sorted_iff by (intro sorted_distinct_set_unique) auto
  then show ?thesis using eq [OF bucket_distinct [OF assms(1)]] eq [OF bucket_distinct [OF assms(2)]] assms(3) by metis
qed

lemma bucket_small: "bucket_ok conf vs \<Longrightarrow> card (dom (map_of vs)) \<le> max_array_width conf"
  using distinct_card [of "map fst vs"] bucket_distinct [of conf vs]
  by (simp add: bucket_ok_def dom_map_of_conv_image_fst)

lemma slot_get_ext: "slots_ok b ps \<Longrightarrow> slots_ok b qs \<Longrightarrow> (\<And>i. slot_get b ps i = slot_get b qs i) \<Longrightarrow> ps = qs"
  using slot_list [of b ps] slot_list [of b qs] by simp

lemma stored_unique:
  assumes "conf_ok (hm_conf env)"
  shows "stored env bs1 c d cid1 m \<Longrightarrow> stored env bs2 c d cid2 m \<Longrightarrow> cid1 = cid2"
proof (induction "256 - c" arbitrary: c d cid1 cid2 m rule: less_induct)
  case less
  obtain b1 qs1 where s1: "c < 256" "cid1 = obj_cid (hm_codec env) (b1, qs1)" "slots_ok b1 qs1"
      "\<forall>i. ser_rep env bs1 c d (slot_get b1 qs1 i) (at_slot env c m i)"
    using less.prems(1) unfolding stored_iff by blast
  obtain b2 qs2 where s2: "cid2 = obj_cid (hm_codec env) (b2, qs2)" "slots_ok b2 qs2"
      "\<forall>i. ser_rep env bs2 c d (slot_get b2 qs2 i) (at_slot env c m i)"
    using less.prems(2) unfolding stored_iff by blast
  have b: "b1 = b2"
    using ser_slots_keys [OF s1(3,4) assms] ser_slots_keys [OF s2(2,3) assms] by (intro slots_inject) simp
  have "slot_get b1 qs1 i = slot_get b1 qs2 i" for i
  proof (cases "i \<in> slots b1")
    case False
    then show ?thesis by (simp add: slot_get_None)
  next
    case True
    then obtain q1 q2 where q: "slot_get b1 qs1 i = Some q1" "slot_get b1 qs2 i = Some q2"
      using slot_get_Some [OF s1(3)] slot_get_Some [OF s2(2)] b by blast
    then have rep: "ser_rep env bs1 c d (Some q1) (at_slot env c m i)" "ser_rep env bs2 c d (Some q2) (at_slot env c m i)"
      using spec [OF s1(4), of i] spec [OF s2(3), of i] b by simp_all
    have mixed: False if "min_data_depth (hm_conf env) \<le> d" "bucket_ok (hm_conf env) vs" "at_slot env c m i = map_of vs"
        "child_size (hm_conf env) d (at_slot env c m i)" for vs
      using that bucket_small [OF that(2)] by (simp add: child_size_def)
    have "q1 = q2"
    proof (cases q1; cases q2)
      fix vs ws
      assume "q1 = SerValues vs" "q2 = SerValues ws"
      then show ?thesis using rep bucket_unique [of "hm_conf env" vs ws] by (simp add: ser_rep_def)
    next
      fix l1 l2
      assume l: "q1 = SerLink l1" "q2 = SerLink l2"
      have "l1 = l2"
        using rep l by (intro less.hyps [OF next_consumed_measure [OF assms s1(1)]]) (auto simp: ser_rep_def)
      then show ?thesis using l by simp
    qed (use rep mixed in \<open>auto simp: ser_rep_def\<close>)
    then show ?thesis using q by simp
  qed
  then have "qs1 = qs2" using slot_get_ext [OF s1(3)] s2(2) b by blast
  then show ?case using s1(2) s2(1) b by simp
qed

lemma stored_inject:
  assumes "conf_ok (hm_conf env)" "codec_ok (hm_codec env)"
  shows "stored env bs1 c d cid m1 \<Longrightarrow> stored env bs2 c d cid m2 \<Longrightarrow> m1 = m2"
proof (induction "256 - c" arbitrary: c d cid m1 m2 rule: less_induct)
  case less
  obtain b qs where s1: "c < 256" "cid = obj_cid (hm_codec env) (b, qs)" "slots_ok b qs"
      "\<forall>i. ser_rep env bs1 c d (slot_get b qs i) (at_slot env c m1 i)"
    using less.prems(1) unfolding stored_iff by blast
  obtain b2 qs2 where s2: "cid = obj_cid (hm_codec env) (b2, qs2)"
      "\<forall>i. ser_rep env bs2 c d (slot_get b2 qs2 i) (at_slot env c m2 i)"
    using less.prems(2) unfolding stored_iff by blast
  have "(b, qs) = (b2, qs2)" by (rule obj_cid_inject [OF assms(2)]) (use s1(2) s2(1) in simp)
  then have s2: "\<forall>i. ser_rep env bs2 c d (slot_get b qs i) (at_slot env c m2 i)" using s2(2) by simp
  have "at_slot env c m1 i = at_slot env c m2 i" for i
  proof (cases "slot_get b qs i")
    case None
    then show ?thesis using spec [OF s1(4), of i] spec [OF s2, of i] by (simp add: ser_rep_def)
  next
    case (Some q)
    then have rep: "ser_rep env bs1 c d (Some q) (at_slot env c m1 i)" "ser_rep env bs2 c d (Some q) (at_slot env c m2 i)"
      using spec [OF s1(4), of i] spec [OF s2, of i] by simp_all
    show ?thesis
    proof (cases q)
      case (SerLink l)
      then show ?thesis
        using rep by (intro less.hyps [OF next_consumed_measure [OF assms(1) s1(1)], of "d + 1" l]) (auto simp: ser_rep_def)
    qed (use rep in \<open>simp add: ser_rep_def\<close>)
  qed
  then show ?case using at_slot_key by (metis ext)
qed

subsection \<open>The map as a whole\<close>

definition hamt_rep :: "('k::linorder, 'v) hamt_env \<Rightarrow> ('k, 'v) Hamt \<Rightarrow> ('k \<Rightarrow> 'v option) \<Rightarrow> bool" where
  "hamt_rep env t m \<longleftrightarrow> tree env (hamt_blocks t) 0 0 (hamt_root t) m \<and>
    (\<forall>cid. flushed_cid t = Some cid \<longrightarrow> stored env (hamt_blocks t) 0 0 cid m)"

lemma hamt_new_rep: "hamt_rep env (hamt_new bs) Map.empty"
  by (simp add: hamt_rep_def hamt_new_def tree_empty)

lemma hamt_get_rep:
  assumes "conf_ok (hm_conf env)" "hamt_rep env t m"
  shows "\<exists>t'. hamt_get env k t = (Inr (m k), t') \<and> hamt_rep env t' m"
  using get_value_tree [OF assms(1), of "hamt_blocks t" 0 0 "hamt_root t" m k] assms(2)
  by (auto simp: hamt_rep_def hamt_get_def option.map_comp comp_def option.map_ident)

lemma hamt_delete_rep:
  assumes "conf_ok (hm_conf env)" "hamt_rep env t m"
  shows "\<exists>t'. hamt_delete env k t = (Inr (map_option (Pair k) (m k)), t') \<and> hamt_rep env t' (m(k := None))"
proof -
  obtain n where n: "rm_value env (hamt_blocks t) k (hm_hash env k) 0 0 (hamt_root t) = (Inr (map_option (Pair k) (m k)), n)"
      "tree env (hamt_blocks t) 0 0 n (m(k := None))"
    using rm_value_tree [OF assms(1)] assms(2) unfolding hamt_rep_def by blast
  moreover have "m(k := None) = m" if "m k = None" using that by (simp add: fun_upd_idem)
  ultimately show ?thesis using assms(2) by (auto simp: hamt_delete_def hamt_rep_def)
qed

lemma hamt_modify_rep:
  assumes "conf_ok (hm_conf env)" "hamt_rep env t m" "\<not> collision env (insert k (dom m))"
  shows "\<exists>t'. hamt_modify env ow k v t = (Inr (put_old ow k m, put_map ow k v m \<noteq> m), t') \<and> hamt_rep env t' (put_map ow k v m)"
proof -
  have "modified_to env (hamt_blocks t) 0 0 ow k v m (modify_value env (hamt_blocks t) ow k v (hm_hash env k) 0 0 (hamt_root t))"
    using assms(2) by (intro modify_value_tree [OF assms(1)]) (simp_all add: hamt_rep_def agreeing_0)
  moreover obtain r n where r: "modify_value env (hamt_blocks t) ow k v (hm_hash env k) 0 0 (hamt_root t) = (r, n)" by fastforce
  ultimately have "r = Inr (put_old ow k m, put_map ow k v m \<noteq> m)" "tree env (hamt_blocks t) 0 0 n (put_map ow k v m)"
    using assms(3) by (cases r; simp add: modified_to_def split: prod.splits)+
  then show ?thesis using r assms(2) by (auto simp: hamt_modify_def hamt_rep_def)
qed

lemma hamt_modify_error:
  assumes "conf_ok (hm_conf env)" "hamt_rep env t m" "hamt_modify env ow k v t = (Inl e, t')"
  shows "e = MaxDepth \<and> collision env (insert k (dom m))"
proof -
  have "modified_to env (hamt_blocks t) 0 0 ow k v m (modify_value env (hamt_blocks t) ow k v (hm_hash env k) 0 0 (hamt_root t))"
    using assms(2) by (intro modify_value_tree [OF assms(1)]) (simp_all add: hamt_rep_def agreeing_0)
  then show ?thesis using assms(3) by (auto simp: modified_to_def hamt_modify_def split: prod.splits sum.splits)
qed

lemma hamt_flush_rep:
  assumes "codec_ok (hm_codec env)" "hamt_rep env t m"
  obtains cid t' where "hamt_flush_root env t = (Inr cid, t')" "hamt_rep env t' m" "stored env (hamt_blocks t') 0 0 cid m"
    "extends_store (hm_codec env) (hamt_blocks t) (hamt_blocks t')"
proof (cases "flushed_cid t")
  case (Some cid)
  then show ?thesis using assms(2) by (intro that [of cid t]) (auto simp: hamt_flush_root_def hamt_rep_def extends_store_refl)
next
  case None
  obtain n bs where f: "node_flush (hm_codec env) (hamt_root t) (hamt_blocks t) = (Inr (), n, bs)"
      "extends_store (hm_codec env) (hamt_blocks t) bs" "tree env bs 0 0 n m" "list_all settled (node_pointers n)"
    using flush_tree(1) [OF assms(1)] assms(2) unfolding hamt_rep_def by blast
  obtain cid bs' where p: "node_put (hm_codec env) n bs = Inr (cid, bs')" "extends_store (hm_codec env) bs bs'" "stored env bs' 0 0 cid m"
    by (rule put_settled [OF assms(1) f(3,4)])
  have fl: "hamt_flush_root env t = (Inr cid, t\<lparr>hamt_root := n, hamt_blocks := bs', flushed_cid := Some cid\<rparr>)"
    using None f(1) p(1) by (simp add: hamt_flush_root_def)
  show ?thesis using p(3) tree_mono [OF f(3) p(2)] extends_store_trans [OF f(2) p(2)]
    by (intro that [OF fl]) (simp_all add: hamt_rep_def)
qed

lemma hamt_load_rep:
  assumes "conf_ok (hm_conf env)" "codec_ok (hm_codec env)" "stored env bs 0 0 cid m"
  shows "\<exists>t. hamt_load_root env cid bs = Inr t \<and> hamt_rep env t m \<and> hamt_blocks t = bs"
  using stored_load [OF assms(1,2) assms(3)] assms(3) by (auto simp: hamt_load_root_def hamt_rep_def)

lemma hamt_empty_rep:
  assumes "conf_ok (hm_conf env)" "hamt_rep env t m"
  shows "hamt_is_empty t \<longleftrightarrow> m = Map.empty" "hamt_rep env (hamt_clear t) Map.empty"
proof -
  show e: "hamt_is_empty t \<longleftrightarrow> m = Map.empty"
    using tree_pointers(2) [OF assms(1)] assms(2) unfolding hamt_is_empty_def hamt_rep_def by blast
  show "hamt_rep env (hamt_clear t) Map.empty"
    using e assms(2) by (auto simp: hamt_clear_def hamt_rep_def tree_empty)
qed

end
