(* ===== verification/HamtIter.thy ===== *)
theory HamtIter
  imports HamtStore
begin

text \<open>
  Iteration over a HAMT: \<open>ipld/hamt/src/iter.rs\<close> and the traversals of \<open>hamt.rs\<close>. An iterator is a stack
  of the pointers still to be visited, one list per level, and the rest of the bucket it is in. Links
  are loaded on the way; an iteration visits every pointer once, so the caches that it fills are not
  kept in the model. The loop of \<open>next\<close> is a partial function, because nothing in the code bounds it when
  the store is arbitrary; it is shown to end on every tree.
\<close>

record ('k, 'v) IterImpl =
  it_stack :: "('k, 'v) Pointer list list"
  it_current :: "('k \<times> 'v) list"

definition iter_new :: "('k, 'v) Node \<Rightarrow> ('k, 'v) IterImpl" where
  "iter_new root = \<lparr>it_stack = [node_pointers root], it_current = []\<rparr>"

function iter_start ::
  "('k::linorder, 'v) hamt_env \<Rightarrow> Blocks \<Rightarrow> 'k \<Rightarrow> HashedKey \<Rightarrow> nat \<Rightarrow> ('k, 'v) Node \<Rightarrow> ('k, 'v) Pointer list list \<Rightarrow>
    HamtError + ('k, 'v) IterImpl" where
  "iter_start env bs key h consumed n stack =
    (case hash_step env h consumed of
       Inl e \<Rightarrow> Inl e
     | Inr (idx, consumed') \<Rightarrow>
         let i = index_for_bit_pos (node_bitfield n) (unat idx)
         in if i > length (node_pointers n) then Inl Panic
            else case drop i (node_pointers n) of
              [] \<Rightarrow> iter_start env bs key h consumed' n ([] # stack)
            | p # ps \<Rightarrow>
                (case p of
                   Link c cache \<Rightarrow>
                     (case cached (hm_conf env) (hm_codec env) bs c cache (length (ps # stack)) of
                        Inl e \<Rightarrow> Inl e
                      | Inr node \<Rightarrow> iter_start env bs key h consumed' node (ps # stack))
                 | Dirty node \<Rightarrow> iter_start env bs key h consumed' node (ps # stack)
                 | Values vals \<Rightarrow>
                     (case position (\<lambda>kv. fst kv = key) vals of
                        Some offset \<Rightarrow> Inr \<lparr>it_stack = ps # stack, it_current = drop offset vals\<rparr>
                      | None \<Rightarrow> Inl StartKeyNotFound)))"
  by pat_completeness auto
termination
  by (relation "measure (\<lambda>(env, bs, key, h, consumed, n, stack). 256 - consumed)") (auto dest: hash_step_less)

declare iter_start.simps [simp del]

definition iter_new_from :: "('k::linorder, 'v) hamt_env \<Rightarrow> Blocks \<Rightarrow> ('k, 'v) Node \<Rightarrow> 'k \<Rightarrow> HamtError + ('k, 'v) IterImpl" where
  "iter_new_from env bs root key = iter_start env bs key (hm_hash env key) 0 root []"

partial_function (option) iter_loop ::
  "('k::linorder, 'v) hamt_env \<Rightarrow> Blocks \<Rightarrow> ('k, 'v) Pointer list list \<Rightarrow>
    ((HamtError + 'k \<times> 'v) option \<times> ('k, 'v) IterImpl) option" where
  "iter_loop env bs stack =
    (case stack of
       [] \<Rightarrow> Some (None, \<lparr>it_stack = [], it_current = []\<rparr>)
     | level # rest \<Rightarrow>
         (case level of
            [] \<Rightarrow> iter_loop env bs rest
          | p # ps \<Rightarrow>
              (case p of
                 Link c cache \<Rightarrow>
                   (case cached (hm_conf env) (hm_codec env) bs c cache (length stack) of
                      Inl e \<Rightarrow> Some (Some (Inl e), \<lparr>it_stack = ps # rest, it_current = []\<rparr>)
                    | Inr node \<Rightarrow> iter_loop env bs (node_pointers node # ps # rest))
               | Dirty node \<Rightarrow> iter_loop env bs (node_pointers node # ps # rest)
               | Values kvs \<Rightarrow>
                   (case kvs of
                      [] \<Rightarrow> iter_loop env bs (ps # rest)
                    | kv # kvs' \<Rightarrow> Some (Some (Inr kv), \<lparr>it_stack = ps # rest, it_current = kvs'\<rparr>)))))"

definition iter_next :: "('k::linorder, 'v) hamt_env \<Rightarrow> Blocks \<Rightarrow> ('k, 'v) IterImpl \<Rightarrow>
    ((HamtError + 'k \<times> 'v) option \<times> ('k, 'v) IterImpl) option" where
  "iter_next env bs it =
    (case it_current it of
       kv # kvs \<Rightarrow> Some (Some (Inr kv), it\<lparr>it_current := kvs\<rparr>)
     | [] \<Rightarrow> iter_loop env bs (it_stack it))"

text \<open>
  \<open>for_each\<close> over an iterator, with at most \<open>max\<close> items where a maximum is given (\<open>take\<close>); the function
  that is called may fail and may change a state. The result has the number of items visited.
\<close>

type_synonym ('k, 'v, 's) visitor = "'k \<Rightarrow> 'v \<Rightarrow> 's \<Rightarrow> (string + unit) \<times> 's"

partial_function (option) iter_visit ::
  "('k::linorder, 'v) hamt_env \<Rightarrow> Blocks \<Rightarrow> ('k, 'v, 's) visitor \<Rightarrow> nat option \<Rightarrow> nat \<Rightarrow> ('k, 'v) IterImpl \<Rightarrow> 's \<Rightarrow>
    ((HamtError + nat) \<times> ('k, 'v) IterImpl \<times> 's) option" where
  "iter_visit env bs f limit traversed it s =
    (if limit = Some 0 then Some (Inr traversed, it, s)
     else
       Option.bind (iter_next env bs it) (\<lambda>(item, it').
       case item of
         None \<Rightarrow> Some (Inr traversed, it', s)
       | Some (Inl e) \<Rightarrow> Some (Inl e, it', s)
       | Some (Inr kv) \<Rightarrow>
           (case f (fst kv) (snd kv) s of
              (Inl e, s') \<Rightarrow> Some (Inl (Dynamic e), it', s')
            | (Inr _, s') \<Rightarrow> iter_visit env bs f (map_option (\<lambda>l. l - 1) limit) (traversed + 1) it' s')))"

definition hamt_for_each :: "('k::linorder, 'v) hamt_env \<Rightarrow> ('k, 'v, 's) visitor \<Rightarrow> ('k, 'v) Hamt \<Rightarrow> 's \<Rightarrow>
    ((HamtError + unit) \<times> 's) option" where
  "hamt_for_each env f t s =
    Option.bind (iter_visit env (hamt_blocks t) f None 0 (iter_new (hamt_root t)) s) (\<lambda>(r, _, s'). Some (map_sum id (\<lambda>_. ()) r, s'))"

definition hamt_for_each_ranged :: "('k::linorder, 'v) hamt_env \<Rightarrow> 'k option \<Rightarrow> nat option \<Rightarrow> ('k, 'v, 's) visitor \<Rightarrow> ('k, 'v) Hamt \<Rightarrow> 's \<Rightarrow>
    ((HamtError + nat \<times> 'k option) \<times> 's) option" where
  "hamt_for_each_ranged env starting_key limit f t s =
    (case (case starting_key of Some key \<Rightarrow> iter_new_from env (hamt_blocks t) (hamt_root t) key | None \<Rightarrow> Inr (iter_new (hamt_root t))) of
       Inl e \<Rightarrow> Some (Inl e, s)
     | Inr it \<Rightarrow>
         Option.bind (iter_visit env (hamt_blocks t) f limit 0 it s) (\<lambda>(r, it', s').
         case r of
           Inl e \<Rightarrow> Some (Inl e, s')
         | Inr traversed \<Rightarrow>
             Option.bind (iter_next env (hamt_blocks t) it') (\<lambda>(item, _).
             case item of
               None \<Rightarrow> Some (Inr (traversed, None), s')
             | Some (Inl e) \<Rightarrow> Some (Inl e, s')
             | Some (Inr kv) \<Rightarrow> Some (Inr (traversed, Some (fst kv)), s'))))"


subsection \<open>What an iterator yields\<close>

inductive yields :: "('k::linorder, 'v) hamt_env \<Rightarrow> Blocks \<Rightarrow> ('k, 'v) IterImpl \<Rightarrow> ('k \<times> 'v) list \<Rightarrow> bool" for env bs where
  yields_done: "iter_next env bs it = Some (None, it') \<Longrightarrow> yields env bs it []"
| yields_item: "iter_next env bs it = Some (Some (Inr kv), it') \<Longrightarrow> yields env bs it' kvs \<Longrightarrow> yields env bs it (kv # kvs)"

lemma yields_cong: "iter_next env bs it = iter_next env bs it' \<Longrightarrow> yields env bs it kvs \<Longrightarrow> yields env bs it' kvs"
proof -
  assume eq: "iter_next env bs it = iter_next env bs it'" and "yields env bs it kvs"
  from this(2) show ?thesis by (cases rule: yields.cases) (metis eq yields_done, metis eq yields_item)
qed

lemma yields_current:
  "yields env bs \<lparr>it_stack = st, it_current = []\<rparr> kvs \<Longrightarrow> yields env bs \<lparr>it_stack = st, it_current = vs\<rparr> (vs @ kvs)"
  by (induction vs) (auto intro: yields_item simp: iter_next_def)

lemma yields_empty: "yields env bs \<lparr>it_stack = [], it_current = []\<rparr> []"
  by (rule yields_done) (simp add: iter_next_def iter_loop.simps)

lemma yields_pop: "yields env bs \<lparr>it_stack = rest, it_current = []\<rparr> kvs \<Longrightarrow> yields env bs \<lparr>it_stack = [] # rest, it_current = []\<rparr> kvs"
  by (erule yields_cong [rotated]) (simp add: iter_next_def iter_loop.simps [of env bs "[] # rest"])

lemma yields_bucket:
  assumes "yields env bs \<lparr>it_stack = ps # rest, it_current = []\<rparr> kvs"
  shows "yields env bs \<lparr>it_stack = (Values vs # ps) # rest, it_current = []\<rparr> (vs @ kvs)"
proof (cases vs)
  case Nil
  have "iter_next env bs \<lparr>it_stack = ps # rest, it_current = []\<rparr> = iter_next env bs \<lparr>it_stack = (Values [] # ps) # rest, it_current = []\<rparr>"
    by (simp add: iter_next_def iter_loop.simps [of env bs "(Values [] # ps) # rest"])
  from yields_cong [OF this assms] show ?thesis using Nil by simp
next
  case (Cons kv vs')
  have "iter_next env bs \<lparr>it_stack = (Values vs # ps) # rest, it_current = []\<rparr> = Some (Some (Inr kv), \<lparr>it_stack = ps # rest, it_current = vs'\<rparr>)"
    unfolding Cons by (simp add: iter_next_def iter_loop.simps [of env bs "(Values (kv # vs') # ps) # rest"])
  then show ?thesis using Cons yields_item yields_current [OF assms, of vs'] by fastforce
qed

lemma yields_child:
  assumes "child env bs (Suc (length rest)) p = Some n" "yields env bs \<lparr>it_stack = node_pointers n # ps # rest, it_current = []\<rparr> kvs"
  shows "yields env bs \<lparr>it_stack = (p # ps) # rest, it_current = []\<rparr> kvs"
  using assms(2)
proof (rule yields_cong [rotated])
  show "iter_next env bs \<lparr>it_stack = node_pointers n # ps # rest, it_current = []\<rparr> = iter_next env bs \<lparr>it_stack = (p # ps) # rest, it_current = []\<rparr>"
    unfolding iter_next_def using assms(1)
    by (cases p) (simp_all, (subst (2) iter_loop.simps, auto split: sum.splits)+)
qed

text \<open>Starting at a key, from the pointer of its slot.\<close>

definition pointer_start :: "('k::linorder, 'v) hamt_env \<Rightarrow> Blocks \<Rightarrow> 'k \<Rightarrow> nat \<Rightarrow> ('k, 'v) Pointer \<Rightarrow> ('k, 'v) Pointer list list \<Rightarrow>
    HamtError + ('k, 'v) IterImpl" where
  "pointer_start env bs k c p stack =
    (case child env bs (length stack) p of
       Some n \<Rightarrow> iter_start env bs k (hm_hash env k) c n stack
     | None \<Rightarrow>
         (case bucket_of p of
            Some vals \<Rightarrow>
              (case position (\<lambda>kv. fst kv = k) vals of
                 Some offset \<Rightarrow> Inr \<lparr>it_stack = stack, it_current = drop offset vals\<rparr>
               | None \<Rightarrow> Inl StartKeyNotFound)
          | None \<Rightarrow> Inl Panic))"

lemma iter_start_pointer:
  assumes "hash_step env (hm_hash env k) c = Inr (w, c')" "index_for_bit_pos (node_bitfield n) (unat w) = j" "j < length (node_pointers n)"
    and "child env bs (Suc (length rest)) (node_pointers n ! j) \<noteq> None \<or> bucket_of (node_pointers n ! j) \<noteq> None"
  shows "iter_start env bs k (hm_hash env k) c n rest =
    pointer_start env bs k c' (node_pointers n ! j) (drop (Suc j) (node_pointers n) # rest)"
  unfolding iter_start.simps [of env bs k "hm_hash env k" c n rest] using assms Cons_nth_drop_Suc [OF assms(3), symmetric]
  by (cases "node_pointers n ! j") (auto simp: pointer_start_def split: sum.splits)

text \<open>The entries that a pointer or a node contributes, and where each of them starts.\<close>

definition pointer_entries :: "('k::linorder, 'v) hamt_env \<Rightarrow> Blocks \<Rightarrow> nat \<Rightarrow> nat \<Rightarrow> ('k, 'v) Pointer \<Rightarrow> ('k \<times> 'v) list \<Rightarrow> bool" where
  "pointer_entries env bs c d p kvs \<longleftrightarrow>
    (\<forall>ps rest r. length rest = d \<longrightarrow> yields env bs \<lparr>it_stack = ps # rest, it_current = []\<rparr> r \<longrightarrow>
      yields env bs \<lparr>it_stack = (p # ps) # rest, it_current = []\<rparr> (kvs @ r) \<and>
      (\<forall>i < length kvs. \<exists>it. pointer_start env bs (fst (kvs ! i)) (next_consumed env c) p (ps # rest) = Inr it \<and>
        yields env bs it (drop i kvs @ r)))"

definition node_entries :: "('k::linorder, 'v) hamt_env \<Rightarrow> Blocks \<Rightarrow> nat \<Rightarrow> nat \<Rightarrow> ('k, 'v) Node \<Rightarrow> ('k \<times> 'v) list \<Rightarrow> bool" where
  "node_entries env bs c d n kvs \<longleftrightarrow>
    (\<forall>rest r. length rest = d \<longrightarrow> yields env bs \<lparr>it_stack = rest, it_current = []\<rparr> r \<longrightarrow>
      yields env bs \<lparr>it_stack = node_pointers n # rest, it_current = []\<rparr> (kvs @ r) \<and>
      (\<forall>i < length kvs. \<exists>it. iter_start env bs (fst (kvs ! i)) (hm_hash env (fst (kvs ! i))) c n rest = Inr it \<and>
        yields env bs it (drop i kvs @ r)))"

lemma bucket_entries:
  assumes "bucket_ok conf vs"
  shows "pointer_entries env bs c d (Values vs) vs"
  unfolding pointer_entries_def
proof (intro allI impI conjI)
  fix ps :: "('a, 'b) Pointer list" and rest r i
  assume y: "yields env bs \<lparr>it_stack = ps # rest, it_current = []\<rparr> r"
  show "yields env bs \<lparr>it_stack = (Values vs # ps) # rest, it_current = []\<rparr> (vs @ r)" by (rule yields_bucket [OF y])
  assume i: "i < length vs"
  have "position (\<lambda>kv. fst kv = fst (vs ! i)) vs = Some i"
  proof (cases "position (\<lambda>kv. fst kv = fst (vs ! i)) vs")
    case None
    then show ?thesis using i by (auto simp: position_None)
  next
    case (Some j)
    then show ?thesis using position_Some [OF Some] i nth_eq_iff_index_eq [OF bucket_distinct [OF assms], of j i] by simp
  qed
  then show "\<exists>it. pointer_start env bs (fst (vs ! i)) (next_consumed env c) (Values vs) (ps # rest) = Inr it \<and> yields env bs it (drop i vs @ r)"
    using yields_current [OF y, of "drop i vs"] by (simp add: pointer_start_def)
qed

lemma child_entries:
  assumes "child env bs (d + 1) p = Some n" "node_entries env bs (next_consumed env c) (d + 1) n kvs"
  shows "pointer_entries env bs c d p kvs"
  unfolding pointer_entries_def
proof (intro allI impI conjI)
  fix ps :: "('a, 'b) Pointer list" and rest r i
  assume d: "length rest = d" and y: "yields env bs \<lparr>it_stack = ps # rest, it_current = []\<rparr> r"
  have n: "yields env bs \<lparr>it_stack = node_pointers n # ps # rest, it_current = []\<rparr> (kvs @ r)"
    "\<And>i. i < length kvs \<Longrightarrow> \<exists>it. iter_start env bs (fst (kvs ! i)) (hm_hash env (fst (kvs ! i))) (next_consumed env c) n (ps # rest) = Inr it \<and>
        yields env bs it (drop i kvs @ r)"
    using assms(2) d y unfolding node_entries_def by simp_all
  show "yields env bs \<lparr>it_stack = (p # ps) # rest, it_current = []\<rparr> (kvs @ r)"
    using yields_child [OF _ n(1)] assms(1) d by simp
  assume "i < length kvs"
  then show "\<exists>it. pointer_start env bs (fst (kvs ! i)) (next_consumed env c) p (ps # rest) = Inr it \<and> yields env bs it (drop i kvs @ r)"
    using n(2) [of i] assms(1) d by (simp add: pointer_start_def)
qed

lemma pointers_entries:
  "length rest = d \<Longrightarrow> yields env bs \<lparr>it_stack = rest, it_current = []\<rparr> r \<Longrightarrow> \<forall>i \<in> set xs. pointer_entries env bs c d (p i) (f i) \<Longrightarrow>
    yields env bs \<lparr>it_stack = map p xs # rest, it_current = []\<rparr> (concat (map f xs) @ r)"
proof (induction xs)
  case (Cons x xs)
  then show ?case by (simp add: pointer_entries_def)
qed (simp add: yields_pop)

lemma concat_split:
  "i < length (concat (map f xs)) \<Longrightarrow> \<exists>l j. l < length xs \<and> j < length (f (xs ! l)) \<and> concat (map f xs) ! i = f (xs ! l) ! j \<and>
    drop i (concat (map f xs)) = drop j (f (xs ! l)) @ concat (map f (drop (Suc l) xs))"
proof (induction xs arbitrary: i)
  case (Cons x xs)
  show ?case
  proof (cases "i < length (f x)")
    case True
    then show ?thesis by (intro exI [of _ 0] exI [of _ i]) (simp add: nth_append)
  next
    case False
    have "length (concat (map f (x # xs))) = length (f x) + length (concat (map f xs))" by simp
    then have "i - length (f x) < length (concat (map f xs))" using Cons.prems False by linarith
    then obtain l j where "l < length xs" "j < length (f (xs ! l))" "concat (map f xs) ! (i - length (f x)) = f (xs ! l) ! j"
        "drop (i - length (f x)) (concat (map f xs)) = drop j (f (xs ! l)) @ concat (map f (drop (Suc l) xs))"
      using Cons.IH by blast
    then show ?thesis using False by (intro exI [of _ "Suc l"] exI [of _ j]) (simp add: nth_append)
  qed
qed simp

lemma tree_entries:
  assumes "conf_ok (hm_conf env)"
  shows "tree env bs c d n m \<Longrightarrow> \<exists>kvs. distinct (map fst kvs) \<and> map_of kvs = m \<and> node_entries env bs c d n kvs"
proof (induction "256 - c" arbitrary: c d n m rule: less_induct)
  case less
  note t = treeD [OF less.prems]
  let ?b = "node_bitfield n"
  let ?xs = "sorted_list_of_set (slots ?b)" and ?p = "\<lambda>i. the (node_slot n i)"
  have "\<exists>kvs. distinct (map fst kvs) \<and> map_of kvs = at_slot env c m i \<and> pointer_entries env bs c d (?p i) kvs" if mem: "i \<in> slots ?b" for i
  proof -
    obtain p where p: "node_slot n i = Some p" by (rule node_slot_Some [OF t(2) mem])
    then have "slot_rep env bs c d (Some p) (at_slot env c m i)" using t(3) [of i] by simp
    then show ?thesis
    proof (cases rule: slot_rep_cases)
      case (bucket vs)
      then show ?thesis using p bucket_entries [OF bucket(3)] bucket_distinct [OF bucket(3)] by auto
    next
      case (child n')
      then show ?thesis
        using less.hyps [OF next_consumed_measure [OF assms t(1)] child(5)] child_entries [OF child(1)] p by auto
    qed
  qed
  then have "\<exists>f. \<forall>i \<in> slots ?b. distinct (map fst (f i)) \<and> map_of (f i) = at_slot env c m i \<and> pointer_entries env bs c d (?p i) (f i)"
    by (intro bchoice) blast
  then obtain f where f: "\<And>i. i \<in> slots ?b \<Longrightarrow> distinct (map fst (f i)) \<and> map_of (f i) = at_slot env c m i"
      "\<And>i. i \<in> slots ?b \<Longrightarrow> pointer_entries env bs c d (?p i) (f i)" by blast
  let ?kvs = "concat (map f ?xs)"
  note kvs = slots_concat [OF assms less.prems, of f, OF f(1)]
  have ps: "node_pointers n = map ?p ?xs" by (rule node_slot_list [OF t(2)])
  have set: "set ?xs = slots ?b" by (simp add: finite_slots)
  have "node_entries env bs c d n ?kvs"
    unfolding node_entries_def
  proof (intro allI impI conjI)
    fix rest r i
    assume d: "length rest = d" and y: "yields env bs \<lparr>it_stack = rest, it_current = []\<rparr> r"
    have suffix: "yields env bs \<lparr>it_stack = map ?p (drop l ?xs) # rest, it_current = []\<rparr> (concat (map f (drop l ?xs)) @ r)" for l
      using f(2) set set_drop_subset [of l ?xs] by (intro pointers_entries [OF d y, of _ c ?p f]) blast
    show "yields env bs \<lparr>it_stack = node_pointers n # rest, it_current = []\<rparr> (?kvs @ r)" using suffix [of 0] ps by simp
    assume "i < length ?kvs"
    then obtain l j where lj: "l < length ?xs" "j < length (f (?xs ! l))" "?kvs ! i = f (?xs ! l) ! j"
        "drop i ?kvs = drop j (f (?xs ! l)) @ concat (map f (drop (Suc l) ?xs))"
      using concat_split by (metis (no_types, lifting))
    let ?i = "?xs ! l" and ?k = "fst (?kvs ! i)"
    have mem: "?i \<in> slots ?b" using lj(1) set nth_mem by metis
    obtain it where it: "pointer_start env bs ?k (next_consumed env c) (?p ?i) (map ?p (drop (Suc l) ?xs) # rest) = Inr it"
        "yields env bs it (drop j (f ?i) @ (concat (map f (drop (Suc l) ?xs)) @ r))"
      using f(2) [OF mem] lj(2,3) d suffix [of "Suc l"] unfolding pointer_entries_def by metis
    have "?k \<in> dom (at_slot env c m ?i)"
      using f(1) [OF mem] lj(2,3) by (metis dom_map_of_conv_image_fst image_eqI nth_mem)
    then have slot: "key_slot env c ?k = ?i" using at_slot_dom [of ?k env c m ?i] by blast
    obtain w where w: "hash_step env (hm_hash env ?k) c = Inr (w, next_consumed env c)" "unat w = ?i"
      using hash_step_Inr [OF assms t(1), of ?k] slot by metis
    have ptr: "node_pointers n ! l = ?p ?i" "l < length (node_pointers n)" "drop (Suc l) (node_pointers n) = map ?p (drop (Suc l) ?xs)"
      using lj(1) ps by (simp_all add: drop_map)
    obtain q where q: "node_slot n ?i = Some q" by (rule node_slot_Some [OF t(2) mem])
    have "slot_rep env bs c d (Some q) (at_slot env c m ?i)" using t(3) [of ?i] q by simp
    then have "child env bs (Suc (length rest)) q \<noteq> None \<or> bucket_of q \<noteq> None" using d by (cases rule: slot_rep_cases) auto
    then have "iter_start env bs ?k (hm_hash env ?k) c n rest = Inr it"
      using iter_start_pointer [OF w(1), of n l bs rest] w(2) slot_index [OF lj(1)] ptr q it(1) by simp
    then show "\<exists>it. iter_start env bs ?k (hm_hash env ?k) c n rest = Inr it \<and> yields env bs it (drop i ?kvs @ r)"
      using it(2) lj(4) by simp
  qed
  then show ?case using kvs by blast
qed

subsection \<open>Traversals\<close>

text \<open>Calling the function on the items of a list, until it fails.\<close>

fun visit_list :: "('k, 'v, 's) visitor \<Rightarrow> ('k \<times> 'v) list \<Rightarrow> 's \<Rightarrow> (HamtError + unit) \<times> 's" where
  "visit_list f [] s = (Inr (), s)"
| "visit_list f (kv # kvs) s =
    (case f (fst kv) (snd kv) s of (Inl e, s') \<Rightarrow> (Inl (Dynamic e), s') | (Inr _, s') \<Rightarrow> visit_list f kvs s')"

lemma iter_loop_end:
  assumes "iter_loop env bs stack = Some y" "fst y = None"
  shows "snd y = \<lparr>it_stack = [], it_current = []\<rparr>"
proof -
  have "fst y = None \<longrightarrow> snd y = \<lparr>it_stack = [], it_current = []\<rparr>"
    by (rule iter_loop.raw_induct [OF _ assms(1)]) (fastforce split: list.splits Pointer.splits sum.splits)
  then show ?thesis using assms(2) by simp
qed

lemma yields_end: "iter_next env bs it = Some (None, it') \<Longrightarrow> yields env bs it' []"
  using yields_empty iter_loop_end [of env bs "it_stack it" "(None, it')"] by (auto simp: iter_next_def split: list.splits)

lemma iter_visit_yields:
  "yields env bs it kvs \<Longrightarrow>
    case visit_list f (limit_list limit kvs) s of
      (Inl e, s') \<Rightarrow> \<exists>it'. iter_visit env bs f limit n it s = Some (Inl e, it', s')
    | (Inr _, s') \<Rightarrow> \<exists>it'. iter_visit env bs f limit n it s = Some (Inr (n + length (limit_list limit kvs)), it', s') \<and>
        yields env bs it' (after_limit limit kvs)"
proof (induction arbitrary: limit n s rule: yields.induct)
  case (yields_done it it')
  then show ?case using yields_end [OF yields_done] yields.yields_done [OF yields_done]
    by (subst (1 2) iter_visit.simps) (auto simp: limit_list_def after_limit_def split: option.splits)
next
  case (yields_item it kv it' kvs)
  show ?case
  proof (cases "limit = Some 0")
    case True
    then show ?thesis using yields.yields_item [OF yields_item.hyps]
      by (subst (1 2) iter_visit.simps) (simp add: limit_list_def after_limit_def)
  next
    case False
    let ?l = "map_option (\<lambda>l. l - 1) limit"
    have lim: "limit_list limit (kv # kvs) = kv # limit_list ?l kvs" "after_limit limit (kv # kvs) = after_limit ?l kvs"
      using False by (cases limit; simp add: limit_list_def after_limit_def take_Cons' drop_Cons')+
    obtain r s1 where fr: "f (fst kv) (snd kv) s = (r, s1)" by fastforce
    show ?thesis
      using yields_item.IH [where limit = ?l and s = s1 and n = "n + 1"] False fr lim yields_item.hyps(1)
      by (subst (1 2) iter_visit.simps) (cases r; simp split: prod.splits sum.splits)
  qed
qed

definition ranged_result :: "nat option \<Rightarrow> ('k, 'v, 's) visitor \<Rightarrow> ('k \<times> 'v) list \<Rightarrow> 's \<Rightarrow> (HamtError + nat \<times> 'k option) \<times> 's" where
  "ranged_result limit f kvs s =
    (case visit_list f (limit_list limit kvs) s of
       (Inl e, s') \<Rightarrow> (Inl e, s')
     | (Inr _, s') \<Rightarrow>
         (Inr (length (limit_list limit kvs), case after_limit limit kvs of [] \<Rightarrow> None | kv # _ \<Rightarrow> Some (fst kv)), s'))"

lemma for_each_yields:
  assumes "yields env (hamt_blocks t) (iter_new (hamt_root t)) kvs"
  shows "hamt_for_each env f t s = Some (visit_list f kvs s)"
proof -
  obtain r s' where r: "visit_list f kvs s = (r, s')" by fastforce
  show ?thesis
    using iter_visit_yields [OF assms, where f = f and limit = None and s = s and n = 0] r
    by (cases r) (auto simp: hamt_for_each_def limit_list_def)
qed

lemma ranged_yields:
  assumes "yields env (hamt_blocks t) it kvs"
    and "(case from_key of Some key \<Rightarrow> iter_new_from env (hamt_blocks t) (hamt_root t) key | None \<Rightarrow> Inr (iter_new (hamt_root t))) = Inr it"
  shows "hamt_for_each_ranged env from_key limit f t s = Some (ranged_result limit f kvs s)"
proof -
  obtain r s' where r: "visit_list f (limit_list limit kvs) s = (r, s')" by fastforce
  have item: "\<exists>it''. iter_next env (hamt_blocks t) it' = Some (case ys of [] \<Rightarrow> None | kv # _ \<Rightarrow> Some (Inr kv), it'')"
    if "yields env (hamt_blocks t) it' ys" for it' ys using that by (cases rule: yields.cases) auto
  show ?thesis
  proof (cases r)
    case (Inl e)
    then show ?thesis using iter_visit_yields [OF assms(1), where f = f and limit = limit and s = s and n = 0] r assms(2)
      by (auto simp: hamt_for_each_ranged_def ranged_result_def)
  next
    case (Inr u)
    then obtain it' where "iter_visit env (hamt_blocks t) f limit 0 it s = Some (Inr (length (limit_list limit kvs)), it', s')"
        "yields env (hamt_blocks t) it' (after_limit limit kvs)"
      using iter_visit_yields [OF assms(1), where f = f and limit = limit and s = s and n = 0] r by auto
    then show ?thesis using item [of it' "after_limit limit kvs"] r Inr assms(2)
      by (auto simp: hamt_for_each_ranged_def ranged_result_def split: list.splits)
  qed
qed

lemma hamt_entries:
  assumes "conf_ok (hm_conf env)" "hamt_rep env t m"
  obtains kvs where "distinct (map fst kvs)" "map_of kvs = m" "yields env (hamt_blocks t) (iter_new (hamt_root t)) kvs"
    "\<forall>i < length kvs. \<exists>it. iter_new_from env (hamt_blocks t) (hamt_root t) (fst (kvs ! i)) = Inr it \<and>
      yields env (hamt_blocks t) it (drop i kvs)"
proof -
  obtain kvs where kvs: "distinct (map fst kvs)" "map_of kvs = m" "node_entries env (hamt_blocks t) 0 0 (hamt_root t) kvs"
    using tree_entries [OF assms(1)] assms(2) unfolding hamt_rep_def by blast
  then show ?thesis
    using that [of kvs] spec [OF spec [OF kvs(3) [unfolded node_entries_def], of "[]"], of "[]"] yields_empty [of env "hamt_blocks t"]
    by (simp add: iter_new_def iter_new_from_def)
qed

text \<open>
  Starting at a key of an empty HAMT uses up the hash and reports \<open>MaxDepth\<close>, not \<open>StartKeyNotFound\<close>.
\<close>

lemma empty_start_max_depth:
  assumes "conf_ok (hm_conf env)"
  shows "iter_new_from env bs node_default k = Inl MaxDepth"
proof -
  have "c \<le> 256 \<Longrightarrow> iter_start env bs k (hm_hash env k) c node_default stack = Inl MaxDepth" for c stack
  proof (induction "256 - c" arbitrary: c stack rule: less_induct)
    case less
    show ?case
    proof (cases "c = 256")
      case True
      then have "hash_step env (hm_hash env k) c = Inl MaxDepth" using assms by (simp add: hash_step_def hash_next_def conf_ok_def)
      then show ?thesis by (subst iter_start.simps) simp
    next
      case False
      then have c: "c < 256" using less.prems by simp
      obtain w where w: "hash_step env (hm_hash env k) c = Inr (w, next_consumed env c)" using hash_step_Inr [OF assms c] by blast
      have "index_for_bit_pos bm_zero i = 0" if "i < 256" for i
        using that index_card [OF that, of bm_zero] by (simp add: slots_def bm_test_bit_def bm_zero_def word_at_def Let_def)
      then have "index_for_bit_pos bm_zero (unat w) = 0" using unat_less_exp [of w] by simp
      then show ?thesis
        using w less.hyps [OF next_consumed_measure [OF assms c], of "[] # stack"] next_consumed_less [OF assms c]
        by (subst iter_start.simps) (simp add: node_default_def)
    qed
  qed
  then show ?thesis by (simp add: iter_new_from_def)
qed

end
