(* ===== verification/KeyedMap.thy ===== *)
theory KeyedMap
  imports Prelude
begin

text \<open>
  What the HAMT and the KAMT promise as maps from keys to values: every operation answers and changes the
  structure as it would a map, and flushing gives a root that is determined by the map and determines it.
  The consequences for whole histories of operations are proved here once.
\<close>

datatype ('k, 'v) map_op =
    MGet 'k
  | MContains 'k
  | MSet 'k 'v
  | MSetIfAbsent 'k 'v
  | MDelete 'k
  | MClear
  | MFlush

datatype 'v map_result = RValue "'v option" | RBool bool | RUnit

fun map_step :: "('k, 'v) map_op \<Rightarrow> ('k \<Rightarrow> 'v option) \<Rightarrow> 'v map_result \<times> ('k \<Rightarrow> 'v option)" where
  "map_step (MGet k) m = (RValue (m k), m)"
| "map_step (MContains k) m = (RBool (m k \<noteq> None), m)"
| "map_step (MSet k v) m = (RValue (m k), m(k \<mapsto> v))"
| "map_step (MSetIfAbsent k v) m = (RBool (m k = None), if m k = None then m(k \<mapsto> v) else m)"
| "map_step (MDelete k) m = (RValue (m k), m(k := None))"
| "map_step MClear m = (RUnit, Map.empty)"
| "map_step MFlush m = (RUnit, m)"

text \<open>A history of operations: its results and what it leaves behind.\<close>

fun run_ops :: "('o \<Rightarrow> 's \<Rightarrow> 'r \<times> 's) \<Rightarrow> 'o list \<Rightarrow> 's \<Rightarrow> 'r list \<times> 's" where
  "run_ops step [] s = ([], s)"
| "run_ops step (x # xs) s = (case step x s of (r, s') \<Rightarrow> (case run_ops step xs s' of (rs, s'') \<Rightarrow> (r # rs, s'')))"

locale keyed_map =
  fixes rep :: "'t \<Rightarrow> ('k \<Rightarrow> 'v option) \<Rightarrow> bool"
    and step :: "('k, 'v) map_op \<Rightarrow> 't \<Rightarrow> ('e + 'v map_result) \<times> 't"
  assumes step_law: "rep t m \<Longrightarrow> \<exists>t'. step x t = (Inr (fst (map_step x m)), t') \<and> rep t' (snd (map_step x m))"
begin

lemma history:
  "rep t m \<Longrightarrow> \<exists>t'. run_ops step xs t = (map Inr (fst (run_ops map_step xs m)), t') \<and> rep t' (snd (run_ops map_step xs m))"
proof (induction xs arbitrary: t m)
  case (Cons x xs)
  obtain t1 where t1: "step x t = (Inr (fst (map_step x m)), t1)" "rep t1 (snd (map_step x m))"
    using step_law [OF Cons.prems] by blast
  then show ?case using Cons.IH [OF t1(2)] by (auto split: prod.splits)
qed auto

end

locale rooted_map = keyed_map rep step
  for rep :: "'t \<Rightarrow> ('k \<Rightarrow> 'v option) \<Rightarrow> bool" and step :: "('k, 'v) map_op \<Rightarrow> 't \<Rightarrow> ('e + 'v map_result) \<times> 't" +
  fixes flush_root :: "'t \<Rightarrow> ('e + 'c) \<times> 't"
  assumes flush_law: "rep t m \<Longrightarrow> \<exists>c t'. flush_root t = (Inr c, t') \<and> rep t' m"
    and root_law: "rep t1 m1 \<Longrightarrow> rep t2 m2 \<Longrightarrow> flush_root t1 = (Inr c1, t1') \<Longrightarrow> flush_root t2 = (Inr c2, t2') \<Longrightarrow> c1 = c2 \<longleftrightarrow> m1 = m2"
begin

text \<open>The root depends on what the history leaves in the map, and on nothing else.\<close>

lemma history_root:
  assumes "rep t1 m1" "rep t2 m2"
  shows "\<exists>t1' t2' c1 c2 t1'' t2''.
    run_ops step xs t1 = (map Inr (fst (run_ops map_step xs m1)), t1') \<and> flush_root t1' = (Inr c1, t1'') \<and>
    run_ops step ys t2 = (map Inr (fst (run_ops map_step ys m2)), t2') \<and> flush_root t2' = (Inr c2, t2'') \<and>
    rep t1'' (snd (run_ops map_step xs m1)) \<and> rep t2'' (snd (run_ops map_step ys m2)) \<and>
    (c1 = c2 \<longleftrightarrow> snd (run_ops map_step xs m1) = snd (run_ops map_step ys m2))"
proof -
  obtain t1' where r1: "run_ops step xs t1 = (map Inr (fst (run_ops map_step xs m1)), t1')" "rep t1' (snd (run_ops map_step xs m1))"
    using history [OF assms(1)] by blast
  obtain t2' where r2: "run_ops step ys t2 = (map Inr (fst (run_ops map_step ys m2)), t2')" "rep t2' (snd (run_ops map_step ys m2))"
    using history [OF assms(2)] by blast
  obtain c1 t1'' where f1: "flush_root t1' = (Inr c1, t1'')" "rep t1'' (snd (run_ops map_step xs m1))" using flush_law [OF r1(2)] by blast
  obtain c2 t2'' where f2: "flush_root t2' = (Inr c2, t2'')" "rep t2'' (snd (run_ops map_step ys m2))" using flush_law [OF r2(2)] by blast
  show ?thesis using r1(1) r2(1) f1 f2 root_law [OF r1(2) r2(2) f1(1) f2(1)] by blast
qed

end

end
