(* ===== verification/HamtTheorems.thy ===== *)
theory HamtTheorems
  imports HamtIter KeyedMap "HOL-Library.Countable"
begin

text \<open>
  The theorems about the HAMT as its users see it (\<open>ipld/hamt/src/hamt.rs\<close>), each with an instance.
\<close>

subsection \<open>A concrete HAMT\<close>

definition ser_number :: "Bitfield \<times> (nat, nat) PointerSer list \<Rightarrow> nat" where
  "ser_number x = to_nat ((w0 (fst x), w1 (fst x), w2 (fst x), w3 (fst x)),
    map (\<lambda>q. case q of SerValues vs \<Rightarrow> Inl vs | SerLink l \<Rightarrow> Inr (cid_version l, cid_codec l, mh_code l, mh_digest l)) (snd x))"

definition hamt_example_hash :: "nat \<Rightarrow> HashedKey" where
  "hamt_example_hash k = Abs_HashedKey (of_nat k # replicate 31 0)"

definition hamt_example_env :: "(nat, nat) hamt_env" where
  "hamt_example_env = \<lparr>hm_conf = \<lparr>bit_width = 5, min_data_depth = 0, max_array_width = 3\<rparr>,
    hm_codec = numbering_codec ser_number, hm_hash = hamt_example_hash\<rparr>"

lemma ser_number_inj: "inj ser_number"
proof (rule injI)
  fix x y :: "Bitfield \<times> (nat, nat) PointerSer list"
  let ?f = "\<lambda>q :: (nat, nat) PointerSer. case q of SerValues vs \<Rightarrow> Inl vs
      | SerLink l \<Rightarrow> Inr (cid_version l, cid_codec l, mh_code l, mh_digest l)"
  assume "ser_number x = ser_number y"
  then have eq: "w0 (fst x) = w0 (fst y)" "w1 (fst x) = w1 (fst y)" "w2 (fst x) = w2 (fst y)" "w3 (fst x) = w3 (fst y)"
      "map ?f (snd x) = map ?f (snd y)" by (simp_all add: ser_number_def)
  have "inj ?f" by (rule injI) (auto split: PointerSer.splits)
  then have "snd x = snd y" using eq(5) by (simp add: inj_map_eq_map)
  then show "x = y" using eq(1-4) by (simp add: prod_eq_iff Bitfield.expand)
qed

lemma hamt_example_ok: "conf_ok (hm_conf hamt_example_env)" "codec_ok (hm_codec hamt_example_env)"
  by (simp_all add: hamt_example_env_def conf_ok_def numbering_codec_ok [OF ser_number_inj])

subsection \<open>Operations\<close>

lemma hamt_put_cases:
  assumes "conf_ok (hm_conf env)" "hamt_rep env t m"
  shows "case hamt_modify env ow k v t of
      (Inl e, t') \<Rightarrow> e = MaxDepth \<and> collision env (insert k (dom m))
    | (Inr (old, b), t') \<Rightarrow> old = put_old ow k m \<and> b = (put_map ow k v m \<noteq> m) \<and> hamt_rep env t' (put_map ow k v m)"
proof (cases "hamt_modify env ow k v t")
  case (Pair r t')
  show ?thesis
  proof (cases r)
    case (Inl e)
    then show ?thesis using hamt_modify_error [OF assms] Pair by simp
  next
    case (Inr ob)
    obtain old b where ob: "ob = (old, b)" by fastforce
    have "modified_to env (hamt_blocks t) 0 0 ow k v m (modify_value env (hamt_blocks t) ow k v (hm_hash env k) 0 0 (hamt_root t))"
      using assms(2) by (intro modify_value_tree [OF assms(1)]) (simp_all add: hamt_rep_def agreeing_0)
    then show ?thesis using Pair Inr ob assms(2)
      by (auto simp: hamt_modify_def hamt_rep_def modified_to_def split: prod.splits sum.splits)
  qed
qed

lemma hamt_example_no_collision: "\<not> collision hamt_example_env (insert 5 (dom Map.empty))"
proof
  assume "collision hamt_example_env (insert 5 (dom Map.empty))"
  then obtain C where "C \<subseteq> {5 :: nat}" "3 < card C" by (auto simp: collision_def hamt_example_env_def)
  moreover then have "card C \<le> 1" using card_mono [of "{5 :: nat}" C] by simp
  ultimately show False by simp
qed

lemma hamt_example_set:
  "\<exists>t. hamt_set hamt_example_env 5 7 (hamt_new (\<lambda>_. Inr None)) = (Inr None, t) \<and> hamt_rep hamt_example_env t [5 \<mapsto> 7]"
proof -
  obtain r t where r: "hamt_modify hamt_example_env True 5 7 (hamt_new (\<lambda>_. Inr None)) = (r, t)" by fastforce
  then show ?thesis
    using hamt_put_cases [OF hamt_example_ok(1) hamt_new_rep [of hamt_example_env "\<lambda>_. Inr None"], where ow = True and k = 5 and v = 7]
      hamt_example_no_collision
    by (cases r) (auto simp: hamt_set_def)
qed

text \<open>
  C17: A HAMT that holds the map \<open>m\<close> answers as \<open>m\<close> does and is updated as \<open>m\<close> is. Getting a key and asking
  for it give what \<open>m\<close> has; deleting returns the pair that was there and removes it; setting returns the
  old value and setting if absent whether the key was new; clearing empties it. Every operation keeps
  the invariant of the tree. No operation fails, except that setting reports \<open>MaxDepth\<close>, and only when
  more keys than fit into a bucket have the same hash.
\<close>

theorem hamt_refines_map:
  assumes "conf_ok (hm_conf env)" "hamt_rep env t m"
  shows "(\<exists>t'. hamt_get env k t = (Inr (m k), t') \<and> hamt_rep env t' m) \<and>
    (\<exists>t'. hamt_contains_key env k t = (Inr (m k \<noteq> None), t') \<and> hamt_rep env t' m) \<and>
    (\<exists>t'. hamt_delete env k t = (Inr (map_option (Pair k) (m k)), t') \<and> hamt_rep env t' (m(k := None))) \<and>
    (case hamt_set env k v t of
       (Inl e, t') \<Rightarrow> e = MaxDepth \<and> collision env (insert k (dom m))
     | (Inr old, t') \<Rightarrow> old = m k \<and> hamt_rep env t' (m(k \<mapsto> v))) \<and>
    (case hamt_set_if_absent env k v t of
       (Inl e, t') \<Rightarrow> e = MaxDepth \<and> collision env (insert k (dom m))
     | (Inr new, t') \<Rightarrow> new = (m k = None) \<and> hamt_rep env t' (if m k = None then m(k \<mapsto> v) else m)) \<and>
    (hamt_is_empty t \<longleftrightarrow> m = Map.empty) \<and> hamt_rep env (hamt_clear t) Map.empty"
proof (intro conjI)
  show get: "\<exists>t'. hamt_get env k t = (Inr (m k), t') \<and> hamt_rep env t' m" by (rule hamt_get_rep [OF assms])
  then show "\<exists>t'. hamt_contains_key env k t = (Inr (m k \<noteq> None), t') \<and> hamt_rep env t' m" by (auto simp: hamt_contains_key_def)
  show "\<exists>t'. hamt_delete env k t = (Inr (map_option (Pair k) (m k)), t') \<and> hamt_rep env t' (m(k := None))"
    by (rule hamt_delete_rep [OF assms])
  show "case hamt_set env k v t of
       (Inl e, t') \<Rightarrow> e = MaxDepth \<and> collision env (insert k (dom m))
     | (Inr old, t') \<Rightarrow> old = m k \<and> hamt_rep env t' (m(k \<mapsto> v))"
  proof (cases "hamt_modify env True k v t")
    case (Pair r t')
    then show ?thesis using hamt_put_cases [OF assms, where ow = True and k = k and v = v]
      by (cases r) (auto simp: hamt_set_def put_old_def put_map_def fun_eq_iff split: if_splits)
  qed
  show "case hamt_set_if_absent env k v t of
       (Inl e, t') \<Rightarrow> e = MaxDepth \<and> collision env (insert k (dom m))
     | (Inr new, t') \<Rightarrow> new = (m k = None) \<and> hamt_rep env t' (if m k = None then m(k \<mapsto> v) else m)"
  proof (cases "hamt_modify env False k v t")
    case (Pair r t')
    then show ?thesis using hamt_put_cases [OF assms, where ow = False and k = k and v = v]
      by (cases r) (auto simp: hamt_set_if_absent_def put_old_def put_map_def fun_eq_iff split: if_splits)
  qed
  show "hamt_is_empty t \<longleftrightarrow> m = Map.empty" "hamt_rep env (hamt_clear t) Map.empty" by (rule hamt_empty_rep [OF assms])+
qed

theorem hamt_refines_map_witness:
  "\<exists>t. hamt_set hamt_example_env 5 7 (hamt_new (\<lambda>_. Inr None)) = (Inr None, t) \<and> hamt_rep hamt_example_env t [5 \<mapsto> 7]"
proof -
  obtain r t where r: "hamt_set hamt_example_env 5 7 (hamt_new (\<lambda>_. Inr None)) = (r, t)" by fastforce
  then show ?thesis
    using hamt_refines_map [OF hamt_example_ok(1) hamt_new_rep [of hamt_example_env "\<lambda>_. Inr None"], of 5 7] hamt_example_no_collision
    by (cases r) simp_all
qed


subsection \<open>Roots\<close>

text \<open>
  Flushing a HAMT always succeeds, keeps what it holds and what the store held, and the root it
  returns loads, into the same or a new HAMT, as a HAMT that holds the same map.
\<close>

theorem hamt_flush_load:
  assumes "conf_ok (hm_conf env)" "codec_ok (hm_codec env)" "hamt_rep env t m"
  shows "\<exists>cid t' t''. hamt_flush_root env t = (Inr cid, t') \<and> hamt_rep env t' m \<and>
    extends_store (hm_codec env) (hamt_blocks t) (hamt_blocks t') \<and>
    hamt_load_root env cid (hamt_blocks t') = Inr t'' \<and> hamt_rep env t'' m \<and>
    (\<exists>t3. hamt_set_root env cid t' = (Inr (), t3) \<and> hamt_rep env t3 m)"
proof -
  obtain cid t' where f: "hamt_flush_root env t = (Inr cid, t')" "hamt_rep env t' m" "stored env (hamt_blocks t') 0 0 cid m"
      "extends_store (hm_codec env) (hamt_blocks t) (hamt_blocks t')"
    by (rule hamt_flush_rep [OF assms(2,3)])
  obtain n where n: "node_load (hm_conf env) (hm_codec env) (hamt_blocks t') cid 0 = Inr n" "tree env (hamt_blocks t') 0 0 n m"
    using stored_load [OF assms(1,2) f(3)] by blast
  then have "hamt_set_root env cid t' = (Inr (), t'\<lparr>hamt_root := n, flushed_cid := Some cid\<rparr>)"
      "hamt_rep env (t'\<lparr>hamt_root := n, flushed_cid := Some cid\<rparr>) m"
    using f(3) by (simp_all add: hamt_set_root_def hamt_rep_def)
  then show ?thesis using f hamt_load_rep [OF assms(1,2) f(3)] by blast
qed

theorem hamt_flush_load_witness:
  "\<exists>cid t' t''. hamt_flush_root hamt_example_env (hamt_new (\<lambda>_. Inr None)) = (Inr cid, t') \<and>
    hamt_load_root hamt_example_env cid (hamt_blocks t') = Inr t'' \<and> hamt_rep hamt_example_env t'' Map.empty"
  using hamt_flush_load [OF hamt_example_ok hamt_new_rep [of hamt_example_env "\<lambda>_. Inr None"]] by blast

text \<open>
  C18: The root is canonical: two HAMTs of the same configuration, in whatever stores and with whatever
  history, flush to the same root exactly when they hold the same map.
\<close>

theorem hamt_root_canonical:
  assumes "conf_ok (hm_conf env)" "codec_ok (hm_codec env)" "hamt_rep env t1 m1" "hamt_rep env t2 m2"
    and "hamt_flush_root env t1 = (Inr cid1, t1')" "hamt_flush_root env t2 = (Inr cid2, t2')"
  shows "cid1 = cid2 \<longleftrightarrow> m1 = m2"
proof -
  have s1: "stored env (hamt_blocks t1') 0 0 cid1 m1" by (rule hamt_flush_rep [OF assms(2,3)]) (use assms(5) in simp)
  have s2: "stored env (hamt_blocks t2') 0 0 cid2 m2" by (rule hamt_flush_rep [OF assms(2,4)]) (use assms(6) in simp)
  show ?thesis using stored_unique [OF assms(1)] stored_inject [OF assms(1,2)] s1 s2 by metis
qed

theorem hamt_root_canonical_witness:
  "\<exists>t cid0 t0 cid1 t1. hamt_set hamt_example_env 5 7 (hamt_new (\<lambda>_. Inr None)) = (Inr None, t) \<and>
    hamt_flush_root hamt_example_env (hamt_new (\<lambda>_. Inr None)) = (Inr cid0, t0) \<and>
    hamt_flush_root hamt_example_env t = (Inr cid1, t1) \<and> cid0 \<noteq> cid1"
proof -
  obtain t where t: "hamt_set hamt_example_env 5 7 (hamt_new (\<lambda>_. Inr None)) = (Inr None, t)" "hamt_rep hamt_example_env t [5 \<mapsto> 7]"
    using hamt_example_set by blast
  note new = hamt_new_rep [of hamt_example_env "\<lambda>_. Inr None"]
  obtain cid0 t0 where f0: "hamt_flush_root hamt_example_env (hamt_new (\<lambda>_. Inr None)) = (Inr cid0, t0)"
    by (rule hamt_flush_rep [OF hamt_example_ok(2) new])
  obtain cid1 t1 where f1: "hamt_flush_root hamt_example_env t = (Inr cid1, t1)"
    by (rule hamt_flush_rep [OF hamt_example_ok(2) t(2)])
  have "cid0 \<noteq> cid1" using hamt_root_canonical [OF hamt_example_ok new t(2) f0 f1] by (auto simp: fun_eq_iff)
  then show ?thesis using t(1) f0 f1 by blast
qed

subsection \<open>A failed split\<close>

text \<open>
  When a full bucket has to be split and the hash has no bits left, setting a new key fails and the
  entries of the bucket are gone: the node that is left behind answers that none of them is there.
\<close>

theorem failed_split_loses_bucket:
  assumes "conf_ok (hm_conf env)" "c < 256" "next_consumed env c = 256"
    and "node_ok n" "node_slot n (key_slot env c k) = Some (Values vs)"
    and "max_array_width (hm_conf env) \<le> length vs" "k \<notin> fst ` set vs" "key_slot env c k' = key_slot env c k"
  shows "\<exists>n'. modify_value env bs ow k v (hm_hash env k) c d n = (Inl MaxDepth, n') \<and>
    get_value env bs k' (hm_hash env k') c d n' = (Inr None, n')"
proof -
  let ?i = "key_slot env c k"
  define j where "j = index_for_bit_pos (node_bitfield n) ?i"
  have bit: "bm_test_bit (node_bitfield n) ?i"
    using node_slot_dom [OF assms(4), of ?i] assms(5) by (simp add: slots_def)
  note ch = with_child_slot [OF assms(4) key_slot_bound bit, folded j_def]
  have ptr: "node_pointers n ! j = Values vs" using ch(4) assms(5) by simp
  obtain w where w: "hash_step env (hm_hash env k) c = Inr (w, 256)" "unat w = ?i"
    using hash_step_Inr [OF assms(1,2)] assms(3) by metis
  obtain w' where w': "hash_step env (hm_hash env k') c = Inr (w', 256)" "unat w' = ?i"
    using hash_step_Inr [OF assms(1,2)] assms(3,8) by metis
  let ?n = "with_child n j (Values [])"
  have "position (\<lambda>p. fst p = k) vs = None" using assms(7) by (auto simp: position_None)
  then have "modify_value env bs ow k v (hm_hash env k) c d n = (Inl MaxDepth, ?n)"
    using modify_value_bucket [OF w(1), unfolded w(2), OF bit j_def [symmetric] ch(3) ptr, of bs ow k v d] assms(6)
    by (simp add: modify_value_max_depth [OF assms(1)])
  moreover have "get_value env bs k' (hm_hash env k') c d ?n = (Inr None, ?n)"
    using get_value_bucket [OF w'(1), of ?n j "[]" bs k' d] w'(2) bit ch(3) by (simp add: with_child_def j_def)
  ultimately show ?thesis by blast
qed

definition hamt_colliding_env :: "(nat, nat) hamt_env" where
  "hamt_colliding_env = \<lparr>hm_conf = \<lparr>bit_width = 8, min_data_depth = 0, max_array_width = 1\<rparr>,
    hm_codec = numbering_codec ser_number, hm_hash = \<lambda>_. hamt_example_hash 0\<rparr>"

theorem failed_split_loses_bucket_witness:
  "let n = insert_pointer node_default (key_slot hamt_colliding_env 248 2) (Values [(1, 1)])
   in \<exists>n'. modify_value hamt_colliding_env (\<lambda>_. Inr None) True 2 2 (hm_hash hamt_colliding_env 2) 248 31 n = (Inl MaxDepth, n') \<and>
     get_value hamt_colliding_env (\<lambda>_. Inr None) 1 (hm_hash hamt_colliding_env 1) 248 31 n' = (Inr None, n')"
proof -
  let ?env = hamt_colliding_env
  let ?i = "key_slot ?env 248 2" and ?p = "Values [(1, 1)] :: (nat, nat) Pointer"
  have conf: "conf_ok (hm_conf ?env)" "next_consumed ?env 248 = 256" "max_array_width (hm_conf ?env) = 1"
    by (simp_all add: hamt_colliding_env_def conf_ok_def next_consumed_def)
  have "tree ?env (\<lambda>_. Inr None) 248 31 node_default Map.empty" by (rule tree_empty) simp
  then have ok: "node_ok (node_default :: (nat, nat) Node)" by (rule treeD(2))
  have none: "\<not> bm_test_bit (node_bitfield (node_default :: (nat, nat) Node)) ?i"
    by (simp add: node_default_def bm_test_bit_def bm_zero_def word_at_def Let_def)
  have n: "node_ok (insert_pointer node_default ?i ?p)" "node_slot (insert_pointer node_default ?i ?p) ?i = Some ?p"
    using insert_slot(1,2) [OF ok key_slot_bound none, of ?p] by simp_all
  have same: "key_slot ?env 248 1 = ?i" by (simp add: key_slot_def hamt_colliding_env_def)
  show ?thesis unfolding Let_def
    by (rule failed_split_loses_bucket [OF conf(1) _ conf(2) n _ _ same]) (simp_all add: conf(3))
qed


subsection \<open>Traversals\<close>

text \<open>
  C19: Traversals end and visit every entry of the map exactly once, in one fixed order. A traversal from
  a key visits what follows the key in this order, a limit cuts it short, the count is the number of
  entries visited, and the key that is returned is the one after the limit, from which the traversal
  can go on. The first error of the visiting function ends the traversal.
\<close>

theorem hamt_iteration:
  fixes env :: "('k::linorder, 'v) hamt_env" and s :: 's
  assumes "conf_ok (hm_conf env)" "hamt_rep env t m"
  shows "\<exists>kvs. distinct (map fst kvs) \<and> map_of kvs = m \<and>
    (\<forall>(f :: ('k, 'v, 's) visitor) s. hamt_for_each env f t s = Some (visit_list f kvs s)) \<and>
    (\<forall>limit (f :: ('k, 'v, 's) visitor) s. hamt_for_each_ranged env None limit f t s = Some (ranged_result limit f kvs s)) \<and>
    (\<forall>i limit (f :: ('k, 'v, 's) visitor) s. i < length kvs \<longrightarrow>
      hamt_for_each_ranged env (Some (fst (kvs ! i))) limit f t s = Some (ranged_result limit f (drop i kvs) s))"
proof -
  obtain kvs where kvs: "distinct (map fst kvs)" "map_of kvs = m" "yields env (hamt_blocks t) (iter_new (hamt_root t)) kvs"
    "\<forall>i < length kvs. \<exists>it. iter_new_from env (hamt_blocks t) (hamt_root t) (fst (kvs ! i)) = Inr it \<and>
      yields env (hamt_blocks t) it (drop i kvs)"
    by (rule hamt_entries [OF assms])
  show ?thesis
  proof (intro exI [of _ kvs] conjI allI impI)
    show "hamt_for_each env f t s = Some (visit_list f kvs s)" for f :: "('k, 'v, 's) visitor" and s
      by (rule for_each_yields [OF kvs(3)])
    show "hamt_for_each_ranged env None limit f t s = Some (ranged_result limit f kvs s)" for limit and f :: "('k, 'v, 's) visitor" and s
      by (rule ranged_yields [OF kvs(3)]) simp
    fix i limit and f :: "('k, 'v, 's) visitor" and s
    assume "i < length kvs"
    then obtain it where "iter_new_from env (hamt_blocks t) (hamt_root t) (fst (kvs ! i)) = Inr it" "yields env (hamt_blocks t) it (drop i kvs)"
      using kvs(4) by blast
    then show "hamt_for_each_ranged env (Some (fst (kvs ! i))) limit f t s = Some (ranged_result limit f (drop i kvs) s)"
      by (intro ranged_yields) simp_all
  qed (use kvs in simp_all)
qed

theorem hamt_iteration_witness:
  "hamt_for_each hamt_example_env (\<lambda>k v acc. (Inr (), acc + v)) (hamt_new (\<lambda>_. Inr None)) (3 :: nat) = Some (Inr (), 3)"
proof -
  obtain kvs where "map_of kvs = (Map.empty :: nat \<Rightarrow> nat option)"
      "\<forall>(f :: (nat, nat, nat) visitor) s. hamt_for_each hamt_example_env f (hamt_new (\<lambda>_. Inr None)) s = Some (visit_list f kvs s)"
    using hamt_iteration [OF hamt_example_ok(1) hamt_new_rep [of hamt_example_env "\<lambda>_. Inr None"]] by blast
  then show ?thesis by simp
qed

subsection \<open>Histories\<close>

definition hamt_step :: "('k::linorder, 'v) hamt_env \<Rightarrow> ('k, 'v) map_op \<Rightarrow> ('k, 'v) Hamt \<Rightarrow> (HamtError + 'v map_result) \<times> ('k, 'v) Hamt" where
  "hamt_step env x t =
    (case x of
       MGet k \<Rightarrow> map_prod (map_sum id RValue) id (hamt_get env k t)
     | MContains k \<Rightarrow> map_prod (map_sum id RBool) id (hamt_contains_key env k t)
     | MSet k v \<Rightarrow> map_prod (map_sum id RValue) id (hamt_set env k v t)
     | MSetIfAbsent k v \<Rightarrow> map_prod (map_sum id RBool) id (hamt_set_if_absent env k v t)
     | MDelete k \<Rightarrow> map_prod (map_sum id (RValue \<circ> map_option snd)) id (hamt_delete env k t)
     | MClear \<Rightarrow> (Inr RUnit, hamt_clear t)
     | MFlush \<Rightarrow> map_prod (map_sum id (\<lambda>_. RUnit)) id (hamt_flush_root env t))"

text \<open>A HAMT that holds a map, of keys of which no more than fit into a bucket have the same hash.\<close>

definition hamt_holds :: "('k::linorder, 'v) hamt_env \<Rightarrow> ('k, 'v) Hamt \<Rightarrow> ('k \<Rightarrow> 'v option) \<Rightarrow> bool" where
  "hamt_holds env t m \<longleftrightarrow> conf_ok (hm_conf env) \<and> codec_ok (hm_codec env) \<and> (\<forall>K. \<not> collision env K) \<and> hamt_rep env t m"

lemma hamt_holds_put:
  assumes "hamt_holds env t m"
  shows "\<exists>t'. hamt_modify env ow k v t = (Inr (put_old ow k m, put_map ow k v m \<noteq> m), t') \<and> hamt_holds env t' (put_map ow k v m)"
proof -
  have h: "conf_ok (hm_conf env)" "hamt_rep env t m" "\<not> collision env (insert k (dom m))" using assms by (simp_all add: hamt_holds_def)
  obtain r t' where r: "hamt_modify env ow k v t = (r, t')" by fastforce
  then show ?thesis using hamt_put_cases [OF h(1,2), where ow = ow and k = k and v = v] h(3) assms by (cases r) (auto simp: hamt_holds_def)
qed

lemma hamt_step_holds:
  assumes "hamt_holds env t m"
  shows "\<exists>t'. hamt_step env x t = (Inr (fst (map_step x m)), t') \<and> hamt_holds env t' (snd (map_step x m))"
proof -
  have h: "conf_ok (hm_conf env)" "hamt_rep env t m" "codec_ok (hm_codec env)" using assms by (simp_all add: hamt_holds_def)
  have keep: "hamt_holds env t' m'" if "hamt_rep env t' m'" for t' m' using assms that by (simp add: hamt_holds_def)
  show ?thesis
  proof (cases x)
    case (MGet k)
    then show ?thesis using hamt_get_rep [OF h(1,2), of k] keep by (auto simp: hamt_step_def)
  next
    case (MContains k)
    then show ?thesis using hamt_get_rep [OF h(1,2), of k] keep by (auto simp: hamt_step_def hamt_contains_key_def)
  next
    case (MSet k v)
    have "put_old True k m = m k" "put_map True k v m = m(k \<mapsto> v)" by (auto simp: put_old_def put_map_def)
    then show ?thesis using hamt_holds_put [OF assms, of True k v] MSet by (auto simp: hamt_step_def hamt_set_def)
  next
    case (MSetIfAbsent k v)
    have "(put_map False k v m \<noteq> m) = (m k = None)" "put_map False k v m = (if m k = None then m(k \<mapsto> v) else m)"
      by (auto simp: put_map_def fun_eq_iff)
    then show ?thesis using hamt_holds_put [OF assms, of False k v] MSetIfAbsent by (auto simp: hamt_step_def hamt_set_if_absent_def)
  next
    case (MDelete k)
    then show ?thesis using hamt_delete_rep [OF h(1,2), of k] keep by (auto simp: hamt_step_def option.map_comp comp_def option.map_ident)
  next
    case MFlush
    obtain c t' where "hamt_flush_root env t = (Inr c, t')" "hamt_rep env t' m" by (rule hamt_flush_rep [OF h(3,2)])
    then show ?thesis using MFlush keep by (simp add: hamt_step_def)
  qed (use hamt_empty_rep(2) [OF h(1,2)] keep in \<open>simp add: hamt_step_def\<close>)
qed

lemma hamt_root_unique:
  assumes "hamt_holds env t1 m1" "hamt_holds env t2 m2" "hamt_flush_root env t1 = (Inr c1, t1')" "hamt_flush_root env t2 = (Inr c2, t2')"
  shows "c1 = c2 \<longleftrightarrow> m1 = m2"
proof -
  have h: "conf_ok (hm_conf env)" "codec_ok (hm_codec env)" "hamt_rep env t1 m1" "hamt_rep env t2 m2"
    using assms(1,2) by (simp_all add: hamt_holds_def)
  have s1: "stored env (hamt_blocks t1') 0 0 c1 m1" by (rule hamt_flush_rep [OF h(2,3)]) (use assms(3) in simp)
  have s2: "stored env (hamt_blocks t2') 0 0 c2 m2" by (rule hamt_flush_rep [OF h(2,4)]) (use assms(4) in simp)
  show ?thesis using stored_unique [OF h(1)] stored_inject [OF h(1,2)] s1 s2 by metis
qed

interpretation hamt_map: rooted_map "hamt_holds env" "hamt_step env" "hamt_flush_root env"
  for env :: "('k::linorder, 'v) hamt_env"
proof unfold_locales
  fix t :: "('k, 'v) Hamt" and m x
  assume h: "hamt_holds env t m"
  show "\<exists>t'. hamt_step env x t = (Inr (fst (map_step x m)), t') \<and> hamt_holds env t' (snd (map_step x m))"
    by (rule hamt_step_holds [OF h])
  have r: "codec_ok (hm_codec env)" "hamt_rep env t m" using h by (simp_all add: hamt_holds_def)
  show "\<exists>c t'. hamt_flush_root env t = (Inr c, t') \<and> hamt_holds env t' m"
    by (rule hamt_flush_rep [OF r]) (use h in \<open>auto simp: hamt_holds_def\<close>)
qed (rule hamt_root_unique)

text \<open>
  Whatever is done with a HAMT whose keys have no colliding hashes, the results are those of the same
  operations on a map, and the root depends on the resulting map only.
\<close>

theorem hamt_history_root:
  assumes "conf_ok (hm_conf env)" "codec_ok (hm_codec env)" "\<forall>K. \<not> collision env K"
  shows "\<exists>t1 t2 c1 c2 t1' t2'.
    run_ops (hamt_step env) xs (hamt_new bs1) = (map Inr (fst (run_ops map_step xs Map.empty)), t1) \<and> hamt_flush_root env t1 = (Inr c1, t1') \<and>
    run_ops (hamt_step env) ys (hamt_new bs2) = (map Inr (fst (run_ops map_step ys Map.empty)), t2) \<and> hamt_flush_root env t2 = (Inr c2, t2') \<and>
    (c1 = c2 \<longleftrightarrow> snd (run_ops map_step xs Map.empty) = snd (run_ops map_step ys Map.empty))"
proof -
  have new: "hamt_holds env (hamt_new bs) Map.empty" for bs using assms hamt_new_rep [of env bs] by (simp add: hamt_holds_def)
  show ?thesis using hamt_map.history_root [OF new new, of xs bs1 ys bs2] by blast
qed

end
