(* ===== verification/Amt.thy ===== *)
theory Amt
  imports CborStore
begin

text \<open>
  The array mapped trie of \<open>ipld/amt/src\<close>: nodes (\<open>node.rs\<close>), their stored form, the root (\<open>root.rs\<close>) and the
  array on top of them (\<open>amt.rs\<close>). A node of height 0 has a value for every index, a higher node a link
  for every block of indices: a link to a stored node with a cache of it, or a node that is not stored
  yet. Indices and the count are \<open>u64\<close>, the bit width and the height \<open>u32\<close> in the code; they are natural
  numbers here, with \<open>u64\<close> wrap-around and saturation written out where the code can reach it. A panic is
  the error \<open>AmtPanic\<close>; going below height 0, which only a malformed tree can ask for, is such a panic.

  The serializer and the CIDs are parameters, shared by nodes and roots.
\<close>

datatype AmtError =
    OutOfRange nat | MaxHeight nat nat | Cached | LinksAndValues | AmtCidNotFound | AmtDynamic string | AmtPanic

definition DEFAULT_BIT_WIDTH :: nat where
  "DEFAULT_BIT_WIDTH = 3"

definition MAX_HEIGHT :: nat where
  "MAX_HEIGHT = 64"

definition u64_max :: nat where
  "u64_max = 2 ^ 64 - 1"

definition MAX_INDEX :: nat where
  "MAX_INDEX = u64_max - 1"

definition nodes_for_height :: "nat \<Rightarrow> nat \<Rightarrow> nat" where
  "nodes_for_height bw h = (let height_log_two = bw * h in if height_log_two \<ge> 64 then u64_max else 2 ^ height_log_two)"

definition init_sized_vec :: "nat \<Rightarrow> 'a option list" where
  "init_sized_vec bw = replicate (2 ^ bw) None"

definition bmap_bytes :: "nat \<Rightarrow> nat" where
  "bmap_bytes bw = (if bw \<le> 3 then 1 else 2 ^ (bw - 3))"

datatype 'v AmtLink = CidLink Cid "'v AmtNode option" | DirtyNode "'v AmtNode"
and 'v AmtNode = LinkNode "'v AmtLink option list" | LeafNode "'v option list"

text \<open>The stored form of a node: a bitmap, the links and the values that are there.\<close>

datatype 'v CollapsedNode = CollapsedNode bytes "Cid list" "'v list"

datatype AmtVersion = V0 | V3

record 'v RootImpl =
  amt_bit_width :: nat
  amt_height :: nat
  amt_count :: nat
  amt_node :: "'v AmtNode"

text \<open>The stored form of a root. The bit width is there from version 3 on.\<close>

type_synonym 'v root_ser = "nat option \<times> nat \<times> nat \<times> 'v CollapsedNode"

record 'v amt_env =
  am_node :: "'v CollapsedNode codec"
  am_root :: "'v root_ser codec"
  am_version :: AmtVersion

subsection \<open>Stored form\<close>

definition bmap_bit :: "bytes \<Rightarrow> nat \<Rightarrow> bool" where
  "bmap_bit bmap i \<longleftrightarrow> (bmap ! (i div 8)) AND push_bit (i mod 8) 1 \<noteq> 0"

fun set_bmap :: "nat \<Rightarrow> 'a option list \<Rightarrow> bytes \<Rightarrow> bytes" where
  "set_bmap i [] bmap = bmap"
| "set_bmap i (None # xs) bmap = set_bmap (i + 1) xs bmap"
| "set_bmap i (Some _ # xs) bmap = set_bmap (i + 1) xs (bmap[i div 8 := (bmap ! (i div 8)) OR push_bit (i mod 8) 1])"

definition items_bmap :: "'a option list \<Rightarrow> bytes" where
  "items_bmap xs = set_bmap 0 xs (replicate ((length xs - 1) div 8 + 1) 0)"

fun collapse_links :: "'v AmtLink option list \<Rightarrow> AmtError + Cid list" where
  "collapse_links [] = Inr []"
| "collapse_links (None # ls) = collapse_links ls"
| "collapse_links (Some (CidLink c _) # ls) = (case collapse_links ls of Inl e \<Rightarrow> Inl e | Inr cs \<Rightarrow> Inr (c # cs))"
| "collapse_links (Some (DirtyNode _) # ls) = Inl Cached"

definition node_collapse :: "'v AmtNode \<Rightarrow> AmtError + 'v CollapsedNode" where
  "node_collapse n =
    (case n of
       LeafNode vals \<Rightarrow> Inr (CollapsedNode (items_bmap vals) [] (map the (filter (\<lambda>v. v \<noteq> None) vals)))
     | LinkNode links \<Rightarrow>
         (case collapse_links links of Inl e \<Rightarrow> Inl e | Inr cs \<Rightarrow> Inr (CollapsedNode (items_bmap links) cs [])))"

fun expand_items :: "bytes \<Rightarrow> nat \<Rightarrow> nat \<Rightarrow> 'a list \<Rightarrow> (string + 'a option list \<times> 'a list)" where
  "expand_items bmap i 0 items = Inr ([], items)"
| "expand_items bmap i (Suc n) items =
    (if bmap_bit bmap i then
       (case items of
          [] \<Rightarrow> Inl ''Bitmap contained more set bits than provided''
        | x # rest \<Rightarrow> (case expand_items bmap (i + 1) n rest of Inl e \<Rightarrow> Inl e | Inr (xs, left) \<Rightarrow> Inr (Some x # xs, left)))
     else (case expand_items bmap (i + 1) n items of Inl e \<Rightarrow> Inl e | Inr (xs, left) \<Rightarrow> Inr (None # xs, left)))"

definition expand_all :: "bytes \<Rightarrow> nat \<Rightarrow> 'a list \<Rightarrow> AmtError + 'a option list" where
  "expand_all bmap bw items =
    (case expand_items bmap 0 (2 ^ bw) items of
       Inl e \<Rightarrow> Inl (AmtDynamic e)
     | Inr (xs, left) \<Rightarrow> if left \<noteq> [] then Inl (AmtDynamic ''Bitmap contained less set bits than provided'') else Inr xs)"

definition node_expand :: "nat \<Rightarrow> 'v CollapsedNode \<Rightarrow> AmtError + 'v AmtNode" where
  "node_expand bw c =
    (case c of CollapsedNode bmap links vals \<Rightarrow>
       if links \<noteq> [] \<and> vals \<noteq> [] then Inl LinksAndValues
       else if bmap_bytes bw \<noteq> length bmap then Inl (AmtDynamic ''unexpected length of the bitfield'')
       else if links \<noteq> [] then
         (case expand_all bmap bw links of
            Inl e \<Rightarrow> Inl e
          | Inr xs \<Rightarrow> Inr (LinkNode (map (map_option (\<lambda>c. CidLink c None)) xs)))
       else (case expand_all bmap bw vals of Inl e \<Rightarrow> Inl e | Inr xs \<Rightarrow> Inr (LeafNode xs)))"

definition amt_put :: "'v amt_env \<Rightarrow> 'v AmtNode \<Rightarrow> Blocks \<Rightarrow> AmtError + Cid \<times> Blocks" where
  "amt_put env n bs =
    (case node_collapse n of
       Inl e \<Rightarrow> Inl e
     | Inr x \<Rightarrow> (case cbor_put (am_node env) bs x of Inl e \<Rightarrow> Inl (AmtDynamic e) | Inr r \<Rightarrow> Inr r))"

definition amt_load_node :: "'v amt_env \<Rightarrow> Blocks \<Rightarrow> nat \<Rightarrow> Cid \<Rightarrow> AmtError + 'v AmtNode" where
  "amt_load_node env bs bw c =
    (case cbor_get (am_node env) bs c of
       Inl e \<Rightarrow> Inl (AmtDynamic e)
     | Inr None \<Rightarrow> Inl AmtCidNotFound
     | Inr (Some x) \<Rightarrow> node_expand bw x)"

text \<open>The node of a link, from the cache or from the store.\<close>

definition link_node :: "'v amt_env \<Rightarrow> Blocks \<Rightarrow> nat \<Rightarrow> 'v AmtLink \<Rightarrow> AmtError + 'v AmtNode" where
  "link_node env bs bw l =
    (case l of
       DirtyNode n \<Rightarrow> Inr n
     | CidLink c (Some n) \<Rightarrow> Inr n
     | CidLink c None \<Rightarrow> amt_load_node env bs bw c)"

fun amt_refill :: "'v AmtLink \<Rightarrow> 'v AmtNode \<Rightarrow> 'v AmtLink" where
  "amt_refill (CidLink c _) n = CidLink c (Some n)"
| "amt_refill (DirtyNode _) n = DirtyNode n"

subsection \<open>Nodes\<close>

definition amt_node_empty :: "'v AmtNode" where
  "amt_node_empty = LeafNode []"

definition can_collapse :: "'v AmtNode \<Rightarrow> bool" where
  "can_collapse n =
    (case n of
       LinkNode links \<Rightarrow> (case links of [] \<Rightarrow> False | l # ls \<Rightarrow> l \<noteq> None \<and> list_all (\<lambda>x. x = None) ls)
     | LeafNode _ \<Rightarrow> False)"

definition amt_node_is_empty :: "'v AmtNode \<Rightarrow> bool" where
  "amt_node_is_empty n =
    (case n of LinkNode links \<Rightarrow> list_all (\<lambda>x. x = None) links | LeafNode vals \<Rightarrow> list_all (\<lambda>x. x = None) vals)"

text \<open>\<open>vec.get(i)\<close> on a vector of options.\<close>

definition opt_nth :: "'a option list \<Rightarrow> nat \<Rightarrow> 'a option" where
  "opt_nth xs i = (if i < length xs then xs ! i else None)"

fun amt_node_get :: "'v amt_env \<Rightarrow> Blocks \<Rightarrow> nat \<Rightarrow> nat \<Rightarrow> nat \<Rightarrow> 'v AmtNode \<Rightarrow> (AmtError + 'v option) \<times> 'v AmtNode" where
  "amt_node_get env bs bw h i (LeafNode vals) = (Inr (opt_nth vals i), LeafNode vals)"
| "amt_node_get env bs bw 0 i (LinkNode links) =
    (if opt_nth links i = None then (Inr None, LinkNode links) else (Inl AmtPanic, LinkNode links))"
| "amt_node_get env bs bw (Suc h) i (LinkNode links) =
    (let nfh = nodes_for_height bw (Suc h); sub_i = i div nfh
     in case opt_nth links sub_i of
       None \<Rightarrow> (Inr None, LinkNode links)
     | Some l \<Rightarrow>
         (case link_node env bs bw l of
            Inl e \<Rightarrow> (Inl e, LinkNode links)
          | Inr sub \<Rightarrow>
              (case amt_node_get env bs bw h (i mod nfh) sub of
                 (r, sub') \<Rightarrow> (r, LinkNode (links[sub_i := Some (amt_refill l sub')])))))"

definition set_leaf :: "nat \<Rightarrow> 'v \<Rightarrow> 'v AmtNode \<Rightarrow> (AmtError + 'v option) \<times> 'v AmtNode" where
  "set_leaf i val n =
    (case n of
       LeafNode vals \<Rightarrow> if i < length vals then (Inr (vals ! i), LeafNode (vals[i := Some val])) else (Inl AmtPanic, n)
     | LinkNode _ \<Rightarrow> (Inl AmtPanic, n))"

definition fresh_node :: "nat \<Rightarrow> nat \<Rightarrow> 'v AmtNode" where
  "fresh_node bw h = (if h = 1 then LeafNode (init_sized_vec bw) else LinkNode (init_sized_vec bw))"

fun amt_node_set :: "'v amt_env \<Rightarrow> Blocks \<Rightarrow> nat \<Rightarrow> nat \<Rightarrow> nat \<Rightarrow> 'v \<Rightarrow> 'v AmtNode \<Rightarrow> (AmtError + 'v option) \<times> 'v AmtNode" where
  "amt_node_set env bs bw 0 i val n = set_leaf i val n"
| "amt_node_set env bs bw (Suc h) i val n =
    (let nfh = nodes_for_height bw (Suc h); idx = i div nfh
     in case n of
       LeafNode _ \<Rightarrow> (Inl AmtPanic, n)
     | LinkNode links \<Rightarrow>
         if idx \<ge> length links then (Inl AmtPanic, n)
         else
           (case (case links ! idx of None \<Rightarrow> Inr (fresh_node bw (Suc h)) | Some l \<Rightarrow> link_node env bs bw l) of
              Inl e \<Rightarrow> (Inl e, n)
            | Inr sub \<Rightarrow>
                (case amt_node_set env bs bw h (i mod nfh) val sub of
                   (r, sub') \<Rightarrow> (r, LinkNode (links[idx := Some (DirtyNode sub')])))))"

fun amt_node_delete :: "'v amt_env \<Rightarrow> Blocks \<Rightarrow> nat \<Rightarrow> nat \<Rightarrow> nat \<Rightarrow> 'v AmtNode \<Rightarrow> (AmtError + 'v option) \<times> 'v AmtNode" where
  "amt_node_delete env bs bw h i (LeafNode vals) = (Inr (opt_nth vals i), LeafNode (vals[i := None]))"
| "amt_node_delete env bs bw 0 i (LinkNode links) =
    (if i < length links \<and> links ! i = None then (Inr None, LinkNode links) else (Inl AmtPanic, LinkNode links))"
| "amt_node_delete env bs bw (Suc h) i (LinkNode links) =
    (let nfh = nodes_for_height bw (Suc h); sub_i = i div nfh
     in if sub_i \<ge> length links then (Inl AmtPanic, LinkNode links)
        else case links ! sub_i of
          None \<Rightarrow> (Inr None, LinkNode links)
        | Some l \<Rightarrow>
            (case link_node env bs bw l of
               Inl e \<Rightarrow> (Inl e, LinkNode links)
             | Inr sub \<Rightarrow>
                 (case amt_node_delete env bs bw h (i mod nfh) sub of
                    (Inl e, sub') \<Rightarrow> (Inl e, LinkNode (links[sub_i := Some (amt_refill l sub')]))
                  | (Inr None, sub') \<Rightarrow> (Inr None, LinkNode (links[sub_i := Some (amt_refill l sub')]))
                  | (Inr (Some v), sub') \<Rightarrow>
                      (Inr (Some v), LinkNode (links[sub_i := (if amt_node_is_empty sub' then None else Some (DirtyNode sub'))])))))"

fun amt_node_flush :: "'v amt_env \<Rightarrow> 'v AmtNode \<Rightarrow> Blocks \<Rightarrow> (AmtError + unit) \<times> 'v AmtNode \<times> Blocks"
  and amt_links_flush :: "'v amt_env \<Rightarrow> 'v AmtLink option list \<Rightarrow> Blocks \<Rightarrow> (AmtError + unit) \<times> 'v AmtLink option list \<times> Blocks"
  and amt_link_flush :: "'v amt_env \<Rightarrow> 'v AmtLink option \<Rightarrow> Blocks \<Rightarrow> (AmtError + unit) \<times> 'v AmtLink option \<times> Blocks" where
  "amt_node_flush env (LeafNode vals) bs = (Inr (), LeafNode vals, bs)"
| "amt_node_flush env (LinkNode links) bs = (case amt_links_flush env links bs of (r, links', bs') \<Rightarrow> (r, LinkNode links', bs'))"
| "amt_links_flush env [] bs = (Inr (), [], bs)"
| "amt_links_flush env (l # ls) bs =
    (case amt_link_flush env l bs of
       (Inl e, l', bs') \<Rightarrow> (Inl e, l' # ls, bs')
     | (Inr _, l', bs') \<Rightarrow> (case amt_links_flush env ls bs' of (r, ls', bs'') \<Rightarrow> (r, l' # ls', bs'')))"
| "amt_link_flush env (Some (DirtyNode n)) bs =
    (case amt_node_flush env n bs of
       (Inl e, n', bs') \<Rightarrow> (Inl e, Some (DirtyNode n'), bs')
     | (Inr _, n', bs') \<Rightarrow>
         (case amt_put env n' bs' of
            Inl e \<Rightarrow> (Inl e, Some (DirtyNode n'), bs')
          | Inr (c, bs'') \<Rightarrow> (Inr (), Some (CidLink c (Some n')), bs'')))"
| "amt_link_flush env (Some (CidLink c cache)) bs = (Inr (), Some (CidLink c cache), bs)"
| "amt_link_flush env None bs = (Inr (), None, bs)"

text \<open>
  \<open>for_each_while_mut\<close>. The closure gets an index, a value and its own state; it returns whether to go on,
  what it has written to the value (nothing, when it only read it), and its state.
\<close>

type_synonym ('v, 's) mut_visitor = "nat \<Rightarrow> 'v \<Rightarrow> 's \<Rightarrow> (string + bool) \<times> 'v option \<times> 's"

fun leaf_for_each :: "('v, 's) mut_visitor \<Rightarrow> nat \<Rightarrow> 'v option list \<Rightarrow> 's \<Rightarrow> (AmtError + bool \<times> bool) \<times> 'v option list \<times> 's" where
  "leaf_for_each f offset [] s = (Inr (True, False), [], s)"
| "leaf_for_each f offset (None # vs) s = (case leaf_for_each f (offset + 1) vs s of (r, vs', s') \<Rightarrow> (r, None # vs', s'))"
| "leaf_for_each f offset (Some v # vs) s =
    (case f offset v s of
       (r, written, s') \<Rightarrow>
         let v' = (case written of None \<Rightarrow> v | Some w \<Rightarrow> w)
         in case r of
           Inl e \<Rightarrow> (Inl (AmtDynamic e), Some v' # vs, s')
         | Inr keep_going \<Rightarrow>
             if \<not> keep_going then (Inr (False, written \<noteq> None), Some v' # vs, s')
             else
               (case leaf_for_each f (offset + 1) vs s' of
                  (r', vs', s'') \<Rightarrow> (map_sum id (\<lambda>(go, did). (go, written \<noteq> None \<or> did)) r', Some v' # vs', s'')))"

function (sequential) amt_for_each_mut :: "'v amt_env \<Rightarrow> Blocks \<Rightarrow> ('v, 's) mut_visitor \<Rightarrow> nat \<Rightarrow> nat \<Rightarrow> nat \<Rightarrow> 'v AmtNode \<Rightarrow> 's \<Rightarrow>
    (AmtError + bool \<times> bool) \<times> 'v AmtNode \<times> 's"
  and amt_links_for_each :: "'v amt_env \<Rightarrow> Blocks \<Rightarrow> ('v, 's) mut_visitor \<Rightarrow> nat \<Rightarrow> nat \<Rightarrow> nat \<Rightarrow> 'v AmtLink option list \<Rightarrow> 's \<Rightarrow>
    (AmtError + bool \<times> bool) \<times> 'v AmtLink option list \<times> 's" where
  "amt_for_each_mut env bs f bw h offset (LeafNode vals) s =
    (case leaf_for_each f offset vals s of (r, vals', s') \<Rightarrow> (r, LeafNode vals', s'))"
| "amt_for_each_mut env bs f bw h offset (LinkNode links) s =
    (case amt_links_for_each env bs f bw h offset links s of (r, links', s') \<Rightarrow> (r, LinkNode links', s'))"
| "amt_links_for_each env bs f bw h offset [] s = (Inr (True, False), [], s)"
| "amt_links_for_each env bs f bw h offset (None # ls) s =
    (case amt_links_for_each env bs f bw h (offset + nodes_for_height bw h) ls s of (r, ls', s') \<Rightarrow> (r, None # ls', s'))"
| "amt_links_for_each env bs f bw 0 offset (Some l # ls) s = (Inl AmtPanic, Some l # ls, s)"
| "amt_links_for_each env bs f bw (Suc h) offset (Some l # ls) s =
    (case link_node env bs bw l of
       Inl e \<Rightarrow> (Inl e, Some l # ls, s)
     | Inr sub \<Rightarrow>
         (case amt_for_each_mut env bs f bw h offset sub s of
            (Inl e, sub', s') \<Rightarrow> (Inl e, Some (amt_refill l sub') # ls, s')
          | (Inr (keep_going, did), sub', s') \<Rightarrow>
              let l' = (if did then DirtyNode sub' else amt_refill l sub')
              in if \<not> keep_going then (Inr (False, did), Some l' # ls, s')
                 else
                   (case amt_links_for_each env bs f bw (Suc h) (offset + nodes_for_height bw (Suc h)) ls s' of
                      (r', ls', s'') \<Rightarrow> (map_sum id (\<lambda>(go, did'). (go, did \<or> did')) r', Some l' # ls', s''))))"

  by pat_completeness auto
termination
  by (relation "measures
      [\<lambda>x. case x of Inl (env, bs, f, bw, h, offset, n, s) \<Rightarrow> h | Inr (env, bs, f, bw, h, offset, ls, s) \<Rightarrow> h,
       \<lambda>x. case x of Inl (env, bs, f, bw, h, offset, n, s) \<Rightarrow> (case n of LinkNode ls \<Rightarrow> Suc (length ls) | LeafNode _ \<Rightarrow> 0)
            | Inr (env, bs, f, bw, h, offset, ls, s) \<Rightarrow> length ls]") auto

subsection \<open>The array\<close>

record 'v Amt =
  amt_root :: "'v RootImpl"
  amt_store :: Blocks
  amt_flushed_cid :: "Cid option"

definition amt_new_with_bit_width :: "Blocks \<Rightarrow> nat \<Rightarrow> 'v Amt" where
  "amt_new_with_bit_width bs bw =
    \<lparr>amt_root = \<lparr>amt_bit_width = bw, amt_height = 0, amt_count = 0, amt_node = LeafNode (init_sized_vec bw)\<rparr>,
     amt_store = bs, amt_flushed_cid = None\<rparr>"

definition amt_new :: "Blocks \<Rightarrow> 'v Amt" where
  "amt_new bs = amt_new_with_bit_width bs DEFAULT_BIT_WIDTH"

definition amt_load :: "'v amt_env \<Rightarrow> Cid \<Rightarrow> Blocks \<Rightarrow> AmtError + 'v Amt" where
  "amt_load env cid bs =
    (case cbor_get (am_root env) bs cid of
       Inl e \<Rightarrow> Inl (AmtDynamic e)
     | Inr None \<Rightarrow> Inl AmtCidNotFound
     | Inr (Some (bw, height, count, x)) \<Rightarrow>
         let bw' = (case bw of None \<Rightarrow> DEFAULT_BIT_WIDTH | Some w \<Rightarrow> w)
         in case node_expand bw' x of
           Inl _ \<Rightarrow> Inl (AmtDynamic ''deserialization'')
         | Inr n \<Rightarrow>
             if height > MAX_HEIGHT then Inl (MaxHeight height MAX_HEIGHT)
             else Inr \<lparr>amt_root = \<lparr>amt_bit_width = bw', amt_height = height, amt_count = count, amt_node = n\<rparr>,
                    amt_store = bs, amt_flushed_cid = Some cid\<rparr>)"

definition amt_get :: "'v amt_env \<Rightarrow> nat \<Rightarrow> 'v Amt \<Rightarrow> (AmtError + 'v option) \<times> 'v Amt" where
  "amt_get env i t =
    (let r = amt_root t; bw = amt_bit_width r; h = amt_height r
     in if i > MAX_INDEX then (Inl (OutOfRange i), t)
        else if i \<ge> nodes_for_height bw (h + 1) then (Inr None, t)
        else case amt_node_get env (amt_store t) bw h i (amt_node r) of
          (res, n) \<Rightarrow> (res, t\<lparr>amt_root := r\<lparr>amt_node := n\<rparr>\<rparr>))"

text \<open>
  The loop of \<open>set\<close> that adds levels at the top. With bit width 0 a level adds nothing and the loop does
  not end for a positive index, so it is a partial function.
\<close>

partial_function (option) amt_expand :: "nat \<Rightarrow> 'v RootImpl \<Rightarrow> 'v RootImpl option" where
  "amt_expand i r =
    (if i \<ge> nodes_for_height (amt_bit_width r) (amt_height r + 1) then
       amt_expand i
         (r\<lparr>amt_node := LinkNode (if \<not> amt_node_is_empty (amt_node r)
                then (init_sized_vec (amt_bit_width r))[0 := Some (DirtyNode (amt_node r))]
                else init_sized_vec (amt_bit_width r)),
            amt_height := amt_height r + 1\<rparr>)
     else Some r)"

definition amt_set :: "'v amt_env \<Rightarrow> nat \<Rightarrow> 'v \<Rightarrow> 'v Amt \<Rightarrow> ((AmtError + unit) \<times> 'v Amt) option" where
  "amt_set env i val t =
    (if i > MAX_INDEX then Some (Inl (OutOfRange i), t)
     else
       Option.bind (amt_expand i (amt_root t)) (\<lambda>r.
       case amt_node_set env (amt_store t) (amt_bit_width r) (amt_height r) i val (amt_node r) of
         (Inl e, n) \<Rightarrow> Some (Inl e, t\<lparr>amt_root := r\<lparr>amt_node := n\<rparr>\<rparr>)
       | (Inr old, n) \<Rightarrow>
           Some (Inr (),
             t\<lparr>amt_root := r\<lparr>amt_node := n, amt_count := (if old = None then (amt_count r + 1) mod 2 ^ 64 else amt_count r)\<rparr>,
               amt_flushed_cid := None\<rparr>)))"

fun amt_batch_set_from :: "'v amt_env \<Rightarrow> nat \<Rightarrow> 'v list \<Rightarrow> 'v Amt \<Rightarrow> ((AmtError + unit) \<times> 'v Amt) option" where
  "amt_batch_set_from env i [] t = Some (Inr (), t)"
| "amt_batch_set_from env i (v # vs) t =
    Option.bind (amt_set env i v t) (\<lambda>(r, t').
    case r of Inl e \<Rightarrow> Some (Inl e, t') | Inr _ \<Rightarrow> amt_batch_set_from env (i + 1) vs t')"

definition amt_batch_set :: "'v amt_env \<Rightarrow> 'v list \<Rightarrow> 'v Amt \<Rightarrow> ((AmtError + unit) \<times> 'v Amt) option" where
  "amt_batch_set env vs t = amt_batch_set_from env 0 vs t"

text \<open>After a deletion, a root with nothing but its first link gives way to the node below.\<close>

fun amt_shrink :: "'v amt_env \<Rightarrow> Blocks \<Rightarrow> nat \<Rightarrow> nat \<Rightarrow> 'v AmtNode \<Rightarrow> (AmtError + unit) \<times> nat \<times> 'v AmtNode" where
  "amt_shrink env bs bw 0 n = (Inr (), 0, n)"
| "amt_shrink env bs bw (Suc h) n =
    (if can_collapse n then
       (case n of
          LinkNode (Some l # ls) \<Rightarrow>
            (case link_node env bs bw l of
               Inl e \<Rightarrow> (Inl e, Suc h, n)
             | Inr sub \<Rightarrow> amt_shrink env bs bw h sub)
        | _ \<Rightarrow> (Inl AmtPanic, Suc h, n))
     else (Inr (), Suc h, n))"

definition amt_delete :: "'v amt_env \<Rightarrow> nat \<Rightarrow> 'v Amt \<Rightarrow> (AmtError + 'v option) \<times> 'v Amt" where
  "amt_delete env i t =
    (let r = amt_root t; bw = amt_bit_width r; h = amt_height r
     in if i > MAX_INDEX then (Inl (OutOfRange i), t)
        else if i \<ge> nodes_for_height bw (h + 1) then (Inr None, t)
        else case amt_node_delete env (amt_store t) bw h i (amt_node r) of
          (Inl e, n) \<Rightarrow> (Inl e, t\<lparr>amt_root := r\<lparr>amt_node := n\<rparr>\<rparr>)
        | (Inr None, n) \<Rightarrow> (Inr None, t\<lparr>amt_root := r\<lparr>amt_node := n\<rparr>\<rparr>)
        | (Inr (Some v), n) \<Rightarrow>
            let r' = r\<lparr>amt_node := n, amt_count := amt_count r - 1\<rparr>
            in if amt_node_is_empty n then
                 (Inr (Some v),
                  t\<lparr>amt_root := r'\<lparr>amt_node := LeafNode (init_sized_vec bw), amt_height := 0\<rparr>, amt_flushed_cid := None\<rparr>)
               else
                 (case amt_shrink env (amt_store t) bw h n of
                    (res, h', n') \<Rightarrow>
                      (map_sum id (\<lambda>_. Some v) res,
                       t\<lparr>amt_root := r'\<lparr>amt_node := n', amt_height := h'\<rparr>, amt_flushed_cid := None\<rparr>)))"

fun amt_delete_all :: "'v amt_env \<Rightarrow> bool \<Rightarrow> bool \<Rightarrow> nat list \<Rightarrow> 'v Amt \<Rightarrow> (AmtError + bool) \<times> 'v Amt" where
  "amt_delete_all env strict modified [] t = (Inr modified, t)"
| "amt_delete_all env strict modified (i # is) t =
    (case amt_delete env i t of
       (Inl e, t') \<Rightarrow> (Inl e, t')
     | (Inr d, t') \<Rightarrow>
         if strict \<and> d = None then (Inl (AmtDynamic ''no such index in Amt for batch delete''), t')
         else amt_delete_all env strict (modified \<or> d \<noteq> None) is t')"

definition amt_batch_delete :: "'v amt_env \<Rightarrow> nat list \<Rightarrow> bool \<Rightarrow> 'v Amt \<Rightarrow> (AmtError + bool) \<times> 'v Amt" where
  "amt_batch_delete env is strict t = amt_delete_all env strict False (sort is) t"

definition root_ser_of :: "'v amt_env \<Rightarrow> 'v RootImpl \<Rightarrow> 'v CollapsedNode \<Rightarrow> 'v root_ser" where
  "root_ser_of env r x =
    (case am_version env of
       V0 \<Rightarrow> (None, amt_height r, amt_count r, x)
     | V3 \<Rightarrow> (Some (amt_bit_width r), amt_height r, amt_count r, x))"

definition amt_flush :: "'v amt_env \<Rightarrow> 'v Amt \<Rightarrow> (AmtError + Cid) \<times> 'v Amt" where
  "amt_flush env t =
    (case amt_flushed_cid t of
       Some c \<Rightarrow> (Inr c, t)
     | None \<Rightarrow>
         (case amt_node_flush env (amt_node (amt_root t)) (amt_store t) of
            (Inl e, n, bs) \<Rightarrow> (Inl e, t\<lparr>amt_root := (amt_root t)\<lparr>amt_node := n\<rparr>, amt_store := bs\<rparr>)
          | (Inr _, n, bs) \<Rightarrow>
              let t' = t\<lparr>amt_root := (amt_root t)\<lparr>amt_node := n\<rparr>, amt_store := bs\<rparr>
              in case node_collapse n of
                Inl e \<Rightarrow> (Inl e, t')
              | Inr x \<Rightarrow>
                  (case cbor_put (am_root env) bs (root_ser_of env (amt_root t) x) of
                     Inl e \<Rightarrow> (Inl (AmtDynamic e), t')
                   | Inr (c, bs') \<Rightarrow> (Inr c, t'\<lparr>amt_store := bs', amt_flushed_cid := Some c\<rparr>))))"

definition amt_new_from_iter :: "'v amt_env \<Rightarrow> Blocks \<Rightarrow> nat \<Rightarrow> 'v list \<Rightarrow> ((AmtError + Cid) \<times> 'v Amt) option" where
  "amt_new_from_iter env bs bw vs =
    Option.bind (amt_batch_set env vs (amt_new_with_bit_width bs bw)) (\<lambda>(r, t).
    case r of Inl e \<Rightarrow> Some (Inl e, t) | Inr _ \<Rightarrow> Some (amt_flush env t))"

definition amt_for_each_while_mut :: "'v amt_env \<Rightarrow> ('v, 's) mut_visitor \<Rightarrow> 'v Amt \<Rightarrow> 's \<Rightarrow> (AmtError + unit) \<times> 'v Amt \<times> 's" where
  "amt_for_each_while_mut env f t s =
    (let r = amt_root t
     in case amt_for_each_mut env (amt_store t) f (amt_bit_width r) (amt_height r) 0 (amt_node r) s of
       (Inl e, n, s') \<Rightarrow> (Inl e, t\<lparr>amt_root := r\<lparr>amt_node := n\<rparr>\<rparr>, s')
     | (Inr (_, did_mutate), n, s') \<Rightarrow>
         (Inr (), t\<lparr>amt_root := r\<lparr>amt_node := n\<rparr>, amt_flushed_cid := (if did_mutate then None else amt_flushed_cid t)\<rparr>, s'))"

end
