(* ===== verification/AmtTree.thy ===== *)
theory AmtTree
  imports Amt
begin

text \<open>
  The arrays that AMT nodes stand for. \<open>anode env bs bw h n m\<close> says that node \<open>n\<close> of height \<open>h\<close> holds exactly
  the entries of the partial map \<open>m\<close> from indices: a leaf has them at their index, a link node has the
  block of indices \<open>j * 2 ^ (bw * h), ...\<close> below its link \<open>j\<close>, and no link leads to an empty node. \<open>astored\<close>
  is the same for nodes in the store.
\<close>

subsection \<open>Optional items and their bitmap\<close>

definition somes :: "'a option list \<Rightarrow> 'a list" where
  "somes xs = map the (filter (\<lambda>v. v \<noteq> None) xs)"

lemma somes_simps [simp]: "somes [] = []" "somes (None # xs) = somes xs" "somes (Some x # xs) = x # somes xs"
  by (simp_all add: somes_def)

lemma somes_empty: "somes xs = [] \<longleftrightarrow> (\<forall>x \<in> set xs. x = None)"
  by (auto simp: somes_def filter_empty_conv)

lemma byte_bit: "(w :: u8) AND push_bit n 1 \<noteq> 0 \<longleftrightarrow> bit w n"
  using and_exp_eq_0_iff_not_bit [of w n] by (simp add: push_bit_eq_mult)

lemma set_bmap_length [simp]: "length (set_bmap i xs bmap) = length bmap"
  by (induction i xs bmap rule: set_bmap.induct) simp_all

lemma set_bmap_bit:
  "i + length xs \<le> 8 * length bmap \<Longrightarrow> k < 8 * length bmap \<Longrightarrow>
    bmap_bit (set_bmap i xs bmap) k \<longleftrightarrow> bmap_bit bmap k \<or> i \<le> k \<and> k < i + length xs \<and> xs ! (k - i) \<noteq> None"
proof (induction i xs bmap rule: set_bmap.induct)
  case (2 i xs bmap)
  then show ?case by (cases "k = i") (auto simp: nth_Cons' Suc_diff_Suc)
next
  case (3 i x xs bmap)
  let ?b = "bmap[i div 8 := (bmap ! (i div 8)) OR push_bit (i mod 8) 1]"
  have "i div 8 < length bmap" using "3.prems" by (simp add: less_mult_imp_div_less mult.commute)
  then have "bmap_bit ?b k \<longleftrightarrow> bmap_bit bmap k \<or> k = i"
  proof (cases "k div 8 = i div 8")
    case True
    then have "bmap_bit ?b k \<longleftrightarrow> bit (bmap ! (k div 8) OR push_bit (i mod 8) 1) (k mod 8)"
      using \<open>i div 8 < length bmap\<close> unfolding bmap_bit_def byte_bit by simp
    also have "\<dots> \<longleftrightarrow> bit (bmap ! (k div 8)) (k mod 8) \<or> k mod 8 = i mod 8"
      by (auto simp: bit_or_iff bit_exp_iff)
    also have "k mod 8 = i mod 8 \<longleftrightarrow> k = i" using True by (metis div_mult_mod_eq)
    finally show ?thesis unfolding bmap_bit_def byte_bit .
  qed (auto simp: bmap_bit_def)
  moreover have "bmap_bit (set_bmap (i + 1) xs ?b) k \<longleftrightarrow> bmap_bit ?b k \<or> i + 1 \<le> k \<and> k < i + 1 + length xs \<and> xs ! (k - (i + 1)) \<noteq> None"
    using "3.prems" by (intro "3.IH") simp_all
  ultimately show ?case by (cases "k = i") (auto simp: nth_Cons' Suc_diff_Suc)
qed auto

lemma items_bmap_bit: "i < length xs \<Longrightarrow> bmap_bit (items_bmap xs) i \<longleftrightarrow> xs ! i \<noteq> None"
proof -
  assume i: "i < length xs"
  let ?n = "(length xs - 1) div 8 + 1"
  have "length xs - 1 < 8 + (length xs - 1) div 8 * 8" by (rule dividend_less_div_times) simp
  then have "length xs \<le> 8 * ?n" using i by simp
  moreover have "\<not> bmap_bit (replicate ?n 0) i"
  proof -
    have "i div 8 < ?n" using i by (simp add: div_le_mono less_Suc_eq_le)
    then show ?thesis by (simp add: bmap_bit_def del: replicate_Suc)
  qed
  ultimately show ?thesis using i unfolding items_bmap_def by (subst set_bmap_bit) auto
qed

lemma items_bmap_length: "length xs = 2 ^ bw \<Longrightarrow> length (items_bmap xs) = bmap_bytes bw"
proof -
  assume len: "length xs = 2 ^ bw"
  have "((2 :: nat) ^ bw - 1) div 8 + 1 = bmap_bytes bw"
  proof (cases "bw \<le> 3")
    case True
    then have "bw = 0 \<or> bw = 1 \<or> bw = 2 \<or> bw = 3" by auto
    then show ?thesis by (auto simp: bmap_bytes_def)
  next
    case False
    then have "(2 :: nat) ^ bw = 8 * 2 ^ (bw - 3)" using power_add [of "2 :: nat" 3 "bw - 3"] by simp
    moreover have "(8 * k - 1) div 8 + 1 = k" if "0 < k" for k :: nat using that by presburger
    ultimately show ?thesis using False by (simp add: bmap_bytes_def)
  qed
  then show ?thesis by (simp add: items_bmap_def len)
qed

lemma expand_items_somes:
  "(\<And>k. k < length xs \<Longrightarrow> bmap_bit bmap (i + k) \<longleftrightarrow> xs ! k \<noteq> None) \<Longrightarrow> expand_items bmap i (length xs) (somes xs) = Inr (xs, [])"
proof (induction xs arbitrary: i)
  case (Cons x xs)
  have "bmap_bit bmap i \<longleftrightarrow> x \<noteq> None" using Cons.prems [of 0] by simp
  moreover have "expand_items bmap (i + 1) (length xs) (somes xs) = Inr (xs, [])"
  proof (rule Cons.IH)
    show "bmap_bit bmap (i + 1 + k) \<longleftrightarrow> xs ! k \<noteq> None" if "k < length xs" for k using Cons.prems [of "Suc k"] that by simp
  qed
  ultimately show ?case by (cases x) simp_all
qed simp

lemma expand_somes: "length xs = 2 ^ bw \<Longrightarrow> expand_all (items_bmap xs) bw (somes xs) = Inr xs"
  using expand_items_somes [of xs "items_bmap xs" 0] items_bmap_bit [of _ xs] by (simp add: expand_all_def)

lemma items_bmap_inject:
  assumes "length xs = 2 ^ bw" "length ys = 2 ^ bw" "items_bmap xs = items_bmap ys" "somes xs = somes ys"
  shows "xs = ys"
proof -
  have "Inr xs = (Inr ys :: AmtError + 'a option list)"
    using expand_somes [OF assms(1)] unfolding assms(3,4) by (rule trans [OF sym expand_somes [OF assms(2)]])
  then show ?thesis by simp
qed

lemma items_bmap_map: "items_bmap (map (map_option f) xs) = items_bmap xs"
proof -
  have "set_bmap i (map (map_option f) xs) bmap = set_bmap i xs bmap" for i bmap
    by (induction i xs bmap rule: set_bmap.induct) simp_all
  then show ?thesis by (simp add: items_bmap_def)
qed

subsection \<open>Blocks of indices\<close>

definition sub_map :: "nat \<Rightarrow> nat \<Rightarrow> nat \<Rightarrow> (nat \<Rightarrow> 'v option) \<Rightarrow> (nat \<Rightarrow> 'v option)" where
  "sub_map bw h j m i = (if i < 2 ^ (bw * h) then m (j * 2 ^ (bw * h) + i) else None)"

lemma sub_map_at: "sub_map bw h (i div 2 ^ (bw * h)) m (i mod 2 ^ (bw * h)) = m i"
  by (simp add: sub_map_def div_mult_mod_eq)

lemma sub_map_upd:
  "sub_map bw h j (m(i := v)) = (if j = i div 2 ^ (bw * h) then (sub_map bw h j m)(i mod 2 ^ (bw * h) := v) else sub_map bw h j m)"
proof
  fix k
  have "j * 2 ^ (bw * h) + k = i \<longleftrightarrow> j = i div 2 ^ (bw * h) \<and> k = i mod 2 ^ (bw * h)" if "k < 2 ^ (bw * h)"
    using that by (auto simp: div_mult_mod_eq)
  then show "sub_map bw h j (m(i := v)) k =
      (if j = i div 2 ^ (bw * h) then (sub_map bw h j m)(i mod 2 ^ (bw * h) := v) else sub_map bw h j m) k"
    by (auto simp: sub_map_def)
qed

lemma sub_map_empty [simp]: "sub_map bw h j Map.empty = Map.empty"
  by (simp add: sub_map_def fun_eq_iff)

lemma sub_map_dom: "dom (sub_map bw h j m) \<subseteq> {..<2 ^ (bw * h)}"
  by (auto simp: sub_map_def split: if_splits)

lemma sub_map_first: "dom m \<subseteq> {..<2 ^ (bw * h)} \<Longrightarrow> sub_map bw h j m = (if j = 0 then m else Map.empty)"
proof -
  assume dom: "dom m \<subseteq> {..<2 ^ (bw * h)}"
  then have out: "m i = None" if "2 ^ (bw * h) \<le> i" for i using that by (meson domIff in_mono lessThan_iff not_le)
  have "sub_map bw h j m i = (if j = 0 then m else Map.empty) i" for i
    using out by (cases j) (auto simp: sub_map_def)
  then show ?thesis by blast
qed

lemma block_bound: "i < 2 ^ (bw * (h + 1)) \<Longrightarrow> i div 2 ^ (bw * h) < 2 ^ bw" for i :: nat
  by (simp add: less_mult_imp_div_less power_add add.commute mult.commute)

lemma sub_map_all_empty:
  assumes "dom m \<subseteq> {..<2 ^ (bw * (h + 1))}" "\<And>j. j < 2 ^ bw \<Longrightarrow> sub_map bw h j m = Map.empty"
  shows "m = Map.empty"
proof
  fix i
  show "m i = None"
  proof (cases "i < 2 ^ (bw * (h + 1))")
    case True
    then have "i div 2 ^ (bw * h) < 2 ^ bw" by (rule block_bound)
    then show ?thesis using assms(2) sub_map_at [of bw h i m] by simp
  next
    case False
    then show ?thesis using assms(1) by (meson domIff in_mono lessThan_iff)
  qed
qed

lemma nodes_for_height_exact: "bw * h < 64 \<Longrightarrow> nodes_for_height bw h = 2 ^ (bw * h)"
  by (simp add: nodes_for_height_def)

subsection \<open>Stored arrays\<close>

fun astored :: "'v amt_env \<Rightarrow> Blocks \<Rightarrow> nat \<Rightarrow> nat \<Rightarrow> Cid \<Rightarrow> (nat \<Rightarrow> 'v option) \<Rightarrow> bool"
  and aser :: "'v amt_env \<Rightarrow> Blocks \<Rightarrow> nat \<Rightarrow> nat \<Rightarrow> 'v CollapsedNode \<Rightarrow> (nat \<Rightarrow> 'v option) \<Rightarrow> bool" where
  "astored env bs bw h c m \<longleftrightarrow>
    (\<exists>x. cbor_get (am_node env) bs c = Inr (Some x) \<and> c = obj_cid (am_node env) x \<and> aser env bs bw h x m)"
| "aser env bs bw 0 x m \<longleftrightarrow>
    (\<exists>vals. length vals = 2 ^ bw \<and> m = opt_nth vals \<and> x = CollapsedNode (items_bmap vals) [] (somes vals))"
| "aser env bs bw (Suc h) x m \<longleftrightarrow>
    dom m \<subseteq> {..<2 ^ (bw * (Suc h + 1))} \<and>
    (\<exists>cs. length cs = 2 ^ bw \<and> x = CollapsedNode (items_bmap cs) (somes cs) [] \<and>
      (\<forall>j < 2 ^ bw. (cs ! j = None \<longrightarrow> sub_map bw (Suc h) j m = Map.empty) \<and>
        (\<forall>c. cs ! j = Some c \<longrightarrow> sub_map bw (Suc h) j m \<noteq> Map.empty \<and> astored env bs bw h c (sub_map bw (Suc h) j m))))"


declare astored.simps [simp del] aser.simps [simp del]

subsection \<open>Nodes\<close>

fun anode :: "'v amt_env \<Rightarrow> Blocks \<Rightarrow> nat \<Rightarrow> nat \<Rightarrow> 'v AmtNode \<Rightarrow> (nat \<Rightarrow> 'v option) \<Rightarrow> bool" where
  "anode env bs bw 0 n m \<longleftrightarrow> (\<exists>vals. n = LeafNode vals \<and> length vals = 2 ^ bw \<and> m = opt_nth vals)"
| "anode env bs bw (Suc h) n m \<longleftrightarrow>
    dom m \<subseteq> {..<2 ^ (bw * (Suc h + 1))} \<and>
    (\<exists>links. n = LinkNode links \<and> length links = 2 ^ bw \<and>
      (\<forall>j < 2 ^ bw. (links ! j = None \<longrightarrow> sub_map bw (Suc h) j m = Map.empty) \<and>
        (\<forall>l. links ! j = Some l \<longrightarrow> sub_map bw (Suc h) j m \<noteq> Map.empty \<and>
          (\<exists>n'. link_node env bs bw l = Inr n' \<and> anode env bs bw h n' (sub_map bw (Suc h) j m)) \<and>
          (\<forall>c cache. l = CidLink c cache \<longrightarrow> astored env bs bw h c (sub_map bw (Suc h) j m)))))"

definition link_rep :: "'v amt_env \<Rightarrow> Blocks \<Rightarrow> nat \<Rightarrow> nat \<Rightarrow> 'v AmtLink option \<Rightarrow> (nat \<Rightarrow> 'v option) \<Rightarrow> bool" where
  "link_rep env bs bw h lo m \<longleftrightarrow>
    (lo = None \<longrightarrow> m = Map.empty) \<and>
    (\<forall>l. lo = Some l \<longrightarrow> m \<noteq> Map.empty \<and> (\<exists>n'. link_node env bs bw l = Inr n' \<and> anode env bs bw h n' m) \<and>
      (\<forall>c cache. l = CidLink c cache \<longrightarrow> astored env bs bw h c m))"

lemma anode_Suc:
  "anode env bs bw (Suc h) n m \<longleftrightarrow>
    dom m \<subseteq> {..<2 ^ (bw * (Suc h + 1))} \<and>
    (\<exists>links. n = LinkNode links \<and> length links = 2 ^ bw \<and>
      (\<forall>j < 2 ^ bw. link_rep env bs bw h (links ! j) (sub_map bw (Suc h) j m)))"
  by (simp add: link_rep_def)

declare anode.simps(2) [simp del]

lemma anode_cases:
  assumes "anode env bs bw h n m"
  obtains (leaf) vals where "h = 0" "n = LeafNode vals" "length vals = 2 ^ bw" "m = opt_nth vals"
    | (links) h' links where "h = Suc h'" "n = LinkNode links" "length links = 2 ^ bw" "dom m \<subseteq> {..<2 ^ (bw * (Suc h' + 1))}"
      "\<And>j. j < 2 ^ bw \<Longrightarrow> link_rep env bs bw h' (links ! j) (sub_map bw (Suc h') j m)"
  using assms by (cases h) (auto simp: anode_Suc)

lemma opt_nth_dom: "dom (opt_nth xs) \<subseteq> {..<length xs}"
  by (auto simp: opt_nth_def split: if_splits)

lemma anode_dom: "anode env bs bw h n m \<Longrightarrow> dom m \<subseteq> {..<2 ^ (bw * (h + 1))}"
  by (erule anode_cases) (use opt_nth_dom in \<open>force simp: mult.commute\<close>)+

lemma anode_empty_iff: "anode env bs bw h n m \<Longrightarrow> amt_node_is_empty n \<longleftrightarrow> m = Map.empty"
proof (erule anode_cases)
  fix vals
  assume "n = LeafNode vals" "m = opt_nth vals"
  then show ?thesis by (auto simp: amt_node_is_empty_def opt_nth_def fun_eq_iff list_all_length)
next
  fix h' links
  assume n: "n = LinkNode links" "length links = 2 ^ bw" "dom m \<subseteq> {..<2 ^ (bw * (Suc h' + 1))}"
    and rep: "\<And>j. j < 2 ^ bw \<Longrightarrow> link_rep env bs bw h' (links ! j) (sub_map bw (Suc h') j m)"
  show ?thesis
  proof
    assume "amt_node_is_empty n"
    then have "links ! j = None" if "j < 2 ^ bw" for j using that n by (simp add: amt_node_is_empty_def list_all_length)
    then show "m = Map.empty" using rep by (intro sub_map_all_empty [OF n(3)]) (simp add: link_rep_def)
  next
    assume m: "m = Map.empty"
    have "links ! j = None" if "j < 2 ^ bw" for j using rep [OF that] m by (cases "links ! j") (simp_all add: link_rep_def)
    then show "amt_node_is_empty n" using n by (simp add: amt_node_is_empty_def list_all_length)
  qed
qed

text \<open>Replacing one link.\<close>

lemma anode_change:
  assumes "length links = 2 ^ bw" "dom m' \<subseteq> {..<2 ^ (bw * (Suc h + 1))}"
    and "\<And>j. j < 2 ^ bw \<Longrightarrow> link_rep env bs bw h (links ! j) (sub_map bw (Suc h) j m)"
    and "k < 2 ^ bw" "link_rep env bs bw h lo (sub_map bw (Suc h) k m')"
    and "\<And>j. j \<noteq> k \<Longrightarrow> sub_map bw (Suc h) j m' = sub_map bw (Suc h) j m"
  shows "anode env bs bw (Suc h) (LinkNode (links[k := lo])) m'"
  unfolding anode_Suc using assms by (auto simp: nth_list_update)

lemma refill_link: "link_node env bs bw (amt_refill l n) = Inr n"
  by (cases l) (simp_all add: link_node_def)

lemma refill_cid: "amt_refill l n = CidLink c cache \<Longrightarrow> \<exists>cache'. l = CidLink c cache'"
  by (cases l) simp_all

lemma link_rep_refill:
  assumes "link_rep env bs bw h (Some l) m" "anode env bs bw h n m"
  shows "link_rep env bs bw h (Some (amt_refill l n)) m"
  using assms refill_cid [of l n] by (auto simp: link_rep_def refill_link)

lemma link_rep_dirty: "anode env bs bw h n m \<Longrightarrow> m \<noteq> Map.empty \<Longrightarrow> link_rep env bs bw h (Some (DirtyNode n)) m"
  by (simp add: link_rep_def link_node_def)

lemma link_repD:
  assumes "link_rep env bs bw h (Some l) m"
  obtains n where "link_node env bs bw l = Inr n" "anode env bs bw h n m" "m \<noteq> Map.empty"
  using assms by (auto simp: link_rep_def)

subsection \<open>Reading and writing\<close>

lemma node_get_array:
  "anode env bs bw h n m \<Longrightarrow> bw * h < 64 \<Longrightarrow> i < 2 ^ (bw * (h + 1)) \<Longrightarrow>
    \<exists>n'. amt_node_get env bs bw h i n = (Inr (m i), n') \<and> anode env bs bw h n' m"
proof (induction h arbitrary: n m i)
  case 0
  then show ?case by auto
next
  case (Suc h)
  let ?p = "2 ^ (bw * Suc h) :: nat"
  obtain links where n: "n = LinkNode links" "length links = 2 ^ bw" "dom m \<subseteq> {..<2 ^ (bw * (Suc h + 1))}"
      and rep: "\<And>j. j < 2 ^ bw \<Longrightarrow> link_rep env bs bw h (links ! j) (sub_map bw (Suc h) j m)"
    using Suc.prems(1) by (auto simp: anode_Suc)
  define j where "j = i div ?p"
  have j: "j < 2 ^ bw" unfolding j_def by (rule block_bound) (use Suc.prems(3) in simp)
  have nfh: "nodes_for_height bw (Suc h) = ?p" by (rule nodes_for_height_exact [OF Suc.prems(2)])
  have at: "sub_map bw (Suc h) j m (i mod ?p) = m i" unfolding j_def by (rule sub_map_at)
  show ?case
  proof (cases "links ! j")
    case None
    then have "m i = None" using rep [OF j] at by (simp add: link_rep_def)
    then show ?thesis using None n j Suc.prems(1) nfh by (simp add: opt_nth_def j_def Let_def)
  next
    case (Some l)
    obtain n1 where n1: "link_node env bs bw l = Inr n1" "anode env bs bw h n1 (sub_map bw (Suc h) j m)"
      using rep [OF j] Some by (auto elim: link_repD)
    have lt: "bw * h < 64" "i mod ?p < 2 ^ (bw * (h + 1))" using Suc.prems(2) by simp_all
    obtain n2 where n2: "amt_node_get env bs bw h (i mod ?p) n1 = (Inr (m i), n2)" "anode env bs bw h n2 (sub_map bw (Suc h) j m)"
      using Suc.IH [OF n1(2) lt] unfolding at by blast
    have "anode env bs bw (Suc h) (LinkNode (links[j := Some (amt_refill l n2)])) m"
      using rep [OF j] Some n2(2) by (intro anode_change [OF n(2,3) rep j]) (simp_all add: link_rep_refill)
    then show ?thesis using n1 n2 Some n j nfh by (simp add: opt_nth_def j_def Let_def)
  qed
qed

lemma fresh_anode: "anode env bs bw h (fresh_node bw (Suc h)) Map.empty"
  by (cases h) (simp_all add: fresh_node_def init_sized_vec_def anode_Suc link_rep_def opt_nth_def fun_eq_iff)

lemma node_set_array:
  "anode env bs bw h n m \<Longrightarrow> bw * h < 64 \<Longrightarrow> i < 2 ^ (bw * (h + 1)) \<Longrightarrow>
    \<exists>n'. amt_node_set env bs bw h i v n = (Inr (m i), n') \<and> anode env bs bw h n' (m(i \<mapsto> v))"
proof (induction h arbitrary: n m i)
  case 0
  then obtain vals where "n = LeafNode vals" "length vals = 2 ^ bw" "m = opt_nth vals" by auto
  then show ?case using 0 by (auto simp: set_leaf_def opt_nth_def fun_eq_iff nth_list_update)
next
  case (Suc h)
  let ?p = "2 ^ (bw * Suc h) :: nat"
  obtain links where n: "n = LinkNode links" "length links = 2 ^ bw" "dom m \<subseteq> {..<2 ^ (bw * (Suc h + 1))}"
      and rep: "\<And>j. j < 2 ^ bw \<Longrightarrow> link_rep env bs bw h (links ! j) (sub_map bw (Suc h) j m)"
    using Suc.prems(1) by (auto simp: anode_Suc)
  define j where "j = i div ?p"
  let ?m = "sub_map bw (Suc h) j m"
  have j: "j < 2 ^ bw" unfolding j_def by (rule block_bound) (use Suc.prems(3) in simp)
  have nfh: "nodes_for_height bw (Suc h) = ?p" by (rule nodes_for_height_exact [OF Suc.prems(2)])
  have at: "?m (i mod ?p) = m i" unfolding j_def by (rule sub_map_at)
  obtain n1 where n1: "(case links ! j of None \<Rightarrow> Inr (fresh_node bw (Suc h)) | Some l \<Rightarrow> link_node env bs bw l) = Inr n1"
      "anode env bs bw h n1 ?m"
  proof (cases "links ! j")
    case None
    then have "?m = Map.empty" using rep [OF j] by (simp add: link_rep_def)
    then show ?thesis using None that [of "fresh_node bw (Suc h)"] fresh_anode [of env bs bw h] by simp
  next
    case (Some l)
    then show ?thesis using rep [OF j] that by (auto elim: link_repD)
  qed
  have lt: "bw * h < 64" "i mod ?p < 2 ^ (bw * (h + 1))" using Suc.prems(2) by simp_all
  obtain n2 where n2: "amt_node_set env bs bw h (i mod ?p) v n1 = (Inr (m i), n2)" "anode env bs bw h n2 (?m(i mod ?p \<mapsto> v))"
    using Suc.IH [OF n1(2) lt] unfolding at by blast
  have "anode env bs bw (Suc h) (LinkNode (links[j := Some (DirtyNode n2)])) (m(i \<mapsto> v))"
  proof (rule anode_change [OF n(2) _ rep j])
    show "dom (m(i \<mapsto> v)) \<subseteq> {..<2 ^ (bw * (Suc h + 1))}" using n(3) Suc.prems(3) by auto
    have "sub_map bw (Suc h) j (m(i \<mapsto> v)) = ?m(i mod ?p \<mapsto> v)" by (simp add: sub_map_upd j_def)
    then show "link_rep env bs bw h (Some (DirtyNode n2)) (sub_map bw (Suc h) j (m(i \<mapsto> v)))"
      using n2(2) by (simp add: link_rep_dirty)
  qed (simp_all add: sub_map_upd j_def)
  then show ?case using n1(1) n2(1) n j nfh by (simp add: j_def Let_def del: fun_upd_apply)
qed

lemma node_delete_array:
  "anode env bs bw h n m \<Longrightarrow> bw * h < 64 \<Longrightarrow> i < 2 ^ (bw * (h + 1)) \<Longrightarrow>
    \<exists>n'. amt_node_delete env bs bw h i n = (Inr (m i), n') \<and> anode env bs bw h n' (m(i := None))"
proof (induction h arbitrary: n m i)
  case 0
  then obtain vals where "n = LeafNode vals" "length vals = 2 ^ bw" "m = opt_nth vals" by auto
  then show ?case using 0 by (auto simp: opt_nth_def fun_eq_iff nth_list_update)
next
  case (Suc h)
  let ?p = "2 ^ (bw * Suc h) :: nat"
  obtain links where n: "n = LinkNode links" "length links = 2 ^ bw" "dom m \<subseteq> {..<2 ^ (bw * (Suc h + 1))}"
      and rep: "\<And>j. j < 2 ^ bw \<Longrightarrow> link_rep env bs bw h (links ! j) (sub_map bw (Suc h) j m)"
    using Suc.prems(1) by (auto simp: anode_Suc)
  define j where "j = i div ?p"
  let ?m = "sub_map bw (Suc h) j m"
  have j: "j < 2 ^ bw" unfolding j_def by (rule block_bound) (use Suc.prems(3) in simp)
  have nfh: "nodes_for_height bw (Suc h) = ?p" by (rule nodes_for_height_exact [OF Suc.prems(2)])
  have at: "?m (i mod ?p) = m i" unfolding j_def by (rule sub_map_at)
  show ?case
  proof (cases "links ! j")
    case None
    then have "m i = None" using rep [OF j] at by (simp add: link_rep_def)
    then show ?thesis using None n j Suc.prems(1) nfh by (simp add: j_def Let_def fun_upd_idem)
  next
    case (Some l)
    obtain n1 where n1: "link_node env bs bw l = Inr n1" "anode env bs bw h n1 ?m" using rep [OF j] Some by (auto elim: link_repD)
    have lt: "bw * h < 64" "i mod ?p < 2 ^ (bw * (h + 1))" using Suc.prems(2) by simp_all
    obtain n2 where n2: "amt_node_delete env bs bw h (i mod ?p) n1 = (Inr (m i), n2)" "anode env bs bw h n2 (?m(i mod ?p := None))"
      using Suc.IH [OF n1(2) lt] unfolding at by blast
    have dom: "dom (m(i := None)) \<subseteq> {..<2 ^ (bw * (Suc h + 1))}" using n(3) by auto
    have sub: "sub_map bw (Suc h) j (m(i := None)) = ?m(i mod ?p := None)" by (simp add: sub_map_upd j_def)
    have change: "anode env bs bw (Suc h) (LinkNode (links[j := lo])) (m(i := None))"
      if "link_rep env bs bw h lo (?m(i mod ?p := None))" for lo
      using that by (intro anode_change [OF n(2) dom rep j]) (simp_all only: sub, simp add: sub_map_upd j_def)
    show ?thesis
    proof (cases "m i")
      case None
      then have "?m(i mod ?p := None) = ?m" using at by (simp add: fun_upd_idem)
      then have "link_rep env bs bw h (Some (amt_refill l n2)) (?m(i mod ?p := None))"
        using rep [OF j] Some n2(2) by (simp add: link_rep_refill)
      then show ?thesis using change n1 n2 Some None n j nfh by (simp add: j_def Let_def del: fun_upd_apply)
    next
      case old: (Some v)
      have "link_rep env bs bw h (if amt_node_is_empty n2 then None else Some (DirtyNode n2)) (?m(i mod ?p := None))"
        using n2(2) anode_empty_iff [OF n2(2)] by (auto simp: link_rep_dirty, simp add: link_rep_def)
      then show ?thesis using change n1 n2 Some old n j nfh by (simp add: j_def Let_def del: fun_upd_apply)
    qed
  qed
qed

subsection \<open>Height\<close>

text \<open>No lower tree would do.\<close>

definition min_height :: "nat \<Rightarrow> nat \<Rightarrow> (nat \<Rightarrow> 'v option) \<Rightarrow> bool" where
  "min_height bw h m \<longleftrightarrow> h = 0 \<or> \<not> dom m \<subseteq> {..<2 ^ (bw * h)}"

lemma anode_raise:
  assumes "anode env bs bw h n m" "0 < bw"
  shows "anode env bs bw (Suc h) (LinkNode (if \<not> amt_node_is_empty n then (init_sized_vec bw)[0 := Some (DirtyNode n)] else init_sized_vec bw)) m"
proof -
  have dom: "dom m \<subseteq> {..<2 ^ (bw * Suc h)}" using anode_dom [OF assms(1)] by simp
  have "(2 :: nat) ^ (bw * Suc h) \<le> 2 ^ (bw * (Suc h + 1))" by (intro power_increasing) auto
  then have dom': "dom m \<subseteq> {..<2 ^ (bw * (Suc h + 1))}" using dom by (meson lessThan_subset_iff order_trans)
  show ?thesis
  proof (cases "m = Map.empty")
    case True
    then show ?thesis using anode_empty_iff [OF assms(1)] dom' by (simp add: anode_Suc init_sized_vec_def link_rep_def)
  next
    case False
    then show ?thesis using anode_empty_iff [OF assms(1)] dom' assms(1)
      by (auto simp: anode_Suc init_sized_vec_def nth_list_update sub_map_first [OF dom] link_rep_dirty) (simp add: link_rep_def)
  qed
qed

lemma can_collapse_iff:
  assumes "anode env bs bw (Suc h) n m" "m \<noteq> Map.empty"
  shows "can_collapse n \<longleftrightarrow> dom m \<subseteq> {..<2 ^ (bw * Suc h)}"
proof -
  obtain links where n: "n = LinkNode links" "length links = 2 ^ bw" "dom m \<subseteq> {..<2 ^ (bw * (Suc h + 1))}"
      and rep: "\<And>j. j < 2 ^ bw \<Longrightarrow> link_rep env bs bw h (links ! j) (sub_map bw (Suc h) j m)"
    using assms(1) by (auto simp: anode_Suc)
  have none: "links ! j = None \<longleftrightarrow> sub_map bw (Suc h) j m = Map.empty" if "j < 2 ^ bw" for j
    using rep [OF that] by (cases "links ! j") (auto simp: link_rep_def)
  have "can_collapse n \<longleftrightarrow> links ! 0 \<noteq> None \<and> (\<forall>j < 2 ^ bw. 0 < j \<longrightarrow> links ! j = None)"
  proof (cases links)
    case (Cons l ls)
    then have "2 ^ bw = Suc (length ls)" using n(2) by simp
    then show ?thesis using Cons n(1) by (simp add: can_collapse_def list_all_length All_less_Suc2)
  qed (use n(2) in simp)
  also have "\<dots> \<longleftrightarrow> dom m \<subseteq> {..<2 ^ (bw * Suc h)}"
  proof
    assume c: "links ! 0 \<noteq> None \<and> (\<forall>j < 2 ^ bw. 0 < j \<longrightarrow> links ! j = None)"
    show "dom m \<subseteq> {..<2 ^ (bw * Suc h)}"
    proof
      fix i
      assume i: "i \<in> dom m"
      then have "i div 2 ^ (bw * Suc h) < 2 ^ bw" using n(3) by (intro block_bound) auto
      moreover have "sub_map bw (Suc h) (i div 2 ^ (bw * Suc h)) m \<noteq> Map.empty"
        using sub_map_at [of bw "Suc h" i m] i by auto
      ultimately have "i div 2 ^ (bw * Suc h) = 0" using c none by (metis gr0I)
      then show "i \<in> {..<2 ^ (bw * Suc h)}" by (simp add: div_eq_0_iff)
    qed
  next
    assume dom: "dom m \<subseteq> {..<2 ^ (bw * Suc h)}"
    then show "links ! 0 \<noteq> None \<and> (\<forall>j < 2 ^ bw. 0 < j \<longrightarrow> links ! j = None)"
      using none assms(2) by (simp add: sub_map_first [OF dom])
  qed
  finally show ?thesis .
qed

lemma shrink_array:
  "anode env bs bw h n m \<Longrightarrow> m \<noteq> Map.empty \<Longrightarrow>
    \<exists>h' n'. amt_shrink env bs bw h n = (Inr (), h', n') \<and> h' \<le> h \<and> anode env bs bw h' n' m \<and> min_height bw h' m"
proof (induction h arbitrary: n)
  case 0
  then show ?case by (simp add: min_height_def)
next
  case (Suc h)
  show ?case
  proof (cases "can_collapse n")
    case False
    then show ?thesis using can_collapse_iff [OF Suc.prems] Suc.prems by (auto simp: min_height_def)
  next
    case True
    then have dom: "dom m \<subseteq> {..<2 ^ (bw * Suc h)}" using can_collapse_iff [OF Suc.prems] by simp
    obtain l ls where n: "n = LinkNode (Some l # ls)" using True by (auto simp: can_collapse_def split: AmtNode.splits list.splits)
    have "\<forall>j < 2 ^ bw. link_rep env bs bw h ((Some l # ls) ! j) (sub_map bw (Suc h) j m)" using Suc.prems(1) n by (simp add: anode_Suc)
    moreover have "(0 :: nat) < 2 ^ bw" by simp
    ultimately have "link_rep env bs bw h ((Some l # ls) ! 0) (sub_map bw (Suc h) 0 m)" by blast
    then have "link_rep env bs bw h (Some l) (sub_map bw (Suc h) 0 m)" by simp
    then obtain n1 where "link_node env bs bw l = Inr n1" "anode env bs bw h n1 m"
      by (auto simp: sub_map_first [OF dom] elim: link_repD)
    then show ?thesis using Suc.IH [of n1] Suc.prems(2) n True by auto
  qed
qed

end
