(* ===== verification/AmtStore.thy ===== *)
theory AmtStore
  imports AmtTree
begin

text \<open>
  AMTs in the store: a flush stores the canonical form of the array, its root loads as the array, and
  the root CID is determined by the array and determines it.
\<close>

text \<open>What is needed of the serializers: both are faithful, and they share the CIDs.\<close>

definition amt_codec_ok :: "'v amt_env \<Rightarrow> bool" where
  "amt_codec_ok env \<longleftrightarrow> codec_ok (am_node env) \<and> codec_ok (am_root env) \<and> block_cid (am_node env) = block_cid (am_root env)"

lemma put_root_extends:
  assumes "amt_codec_ok env" "cbor_put (am_root env) bs x = Inr (c, bs')"
  shows "extends_store (am_node env) bs bs'"
  unfolding extends_store_def
proof (intro allI impI)
  fix k y
  assume k: "cbor_get (am_node env) bs k = Inr (Some y) \<and> k = obj_cid (am_node env) y"
  obtain bz where bz: "to_vec (am_root env) x = Some bz" "bs' = bs(block_cid (am_root env) bz := Inr (Some bz))"
    using assms(2) by (auto simp: cbor_put_def Let_def split: option.splits)
  obtain bx where bx: "to_vec (am_node env) y = Some bx" "from_slice (am_node env) bx = Some y"
    using assms(1) unfolding amt_codec_ok_def codec_ok_def by blast
  show "cbor_get (am_node env) bs' k = Inr (Some y)"
  proof (cases "k = block_cid (am_root env) bz")
    case True
    then have "bx = bz" using k bx assms(1) by (auto simp: amt_codec_ok_def codec_ok_def obj_cid_def dest: injD)
    moreover have "cid_codec k = DAG_CBOR" using True assms(1) by (simp add: amt_codec_ok_def codec_ok_def)
    ultimately show ?thesis using True bz bx by (simp add: cbor_get_def)
  next
    case False
    then have "cbor_get (am_node env) bs' k = cbor_get (am_node env) bs k" by (simp add: cbor_get_def bz(2))
    then show ?thesis using conjunct1 [OF k] by (rule trans)
  qed
qed

subsection \<open>A growing store\<close>

lemma astored_mono:
  "astored env bs bw h c m \<Longrightarrow> extends_store (am_node env) bs bs' \<Longrightarrow> astored env bs' bw h c m"
proof (induction h arbitrary: c m)
  case 0
  then show ?case unfolding astored.simps [of _ _ _ 0] aser.simps(1) extends_store_def by blast
next
  case (Suc h)
  obtain x where x: "cbor_get (am_node env) bs c = Inr (Some x)" "c = obj_cid (am_node env) x" "aser env bs bw (Suc h) x m"
    using Suc.prems(1) unfolding astored.simps by blast
  have "cbor_get (am_node env) bs' c = Inr (Some x)" using x(1,2) Suc.prems(2) unfolding extends_store_def by blast
  moreover have "aser env bs' bw (Suc h) x m"
    using x(3) Suc.IH [OF _ Suc.prems(2)] unfolding aser.simps(2) by blast
  ultimately show ?case unfolding astored.simps using x(2) by blast
qed

lemma aser_mono: "aser env bs bw h x m \<Longrightarrow> extends_store (am_node env) bs bs' \<Longrightarrow> aser env bs' bw h x m"
  using astored_mono [of env bs bw _ _ _ bs'] by (cases h) (simp only: aser.simps, simp only: aser.simps, blast)

lemma amt_load_mono:
  assumes "astored env bs bw h c m" "extends_store (am_node env) bs bs'"
  shows "amt_load_node env bs' w c = amt_load_node env bs w c"
proof -
  obtain x where "cbor_get (am_node env) bs c = Inr (Some x)" "c = obj_cid (am_node env) x"
    using assms(1) unfolding astored.simps by blast
  then have "cbor_get (am_node env) bs' c = cbor_get (am_node env) bs c" using assms(2) unfolding extends_store_def by metis
  then show ?thesis by (simp add: amt_load_node_def)
qed

lemma link_node_mono:
  assumes "link_node env bs bw l = Inr n" "\<forall>c cache. l = CidLink c cache \<longrightarrow> astored env bs bw h c m" "extends_store (am_node env) bs bs'"
  shows "link_node env bs' bw l = Inr n"
proof (cases l)
  case (CidLink c cache)
  then show ?thesis using assms amt_load_mono [of env bs bw h c m bs' bw] by (cases cache) (simp_all add: link_node_def)
qed (use assms in \<open>simp add: link_node_def\<close>)

lemma anode_mono: "anode env bs bw h n m \<Longrightarrow> extends_store (am_node env) bs bs' \<Longrightarrow> anode env bs' bw h n m"
proof (induction h arbitrary: n m)
  case (Suc h)
  have "link_rep env bs' bw h lo m'" if rep: "link_rep env bs bw h lo m'" for lo m'
  proof (cases lo)
    case None
    then show ?thesis using rep by (simp add: link_rep_def)
  next
    case (Some l)
    then obtain n' where n': "link_node env bs bw l = Inr n'" "anode env bs bw h n' m'" "m' \<noteq> Map.empty"
      using rep by (auto elim: link_repD)
    have st: "\<forall>c cache. l = CidLink c cache \<longrightarrow> astored env bs bw h c m'" using rep Some by (simp add: link_rep_def)
    then show ?thesis
      using Some n'(3) link_node_mono [OF n'(1) st Suc.prems(2)] Suc.IH [OF n'(2) Suc.prems(2)] astored_mono [OF _ Suc.prems(2)]
      by (simp add: link_rep_def)
  qed
  then show ?case using Suc.prems(1) unfolding anode_Suc by blast
qed simp

lemma link_rep_mono: "link_rep env bs bw h lo m \<Longrightarrow> extends_store (am_node env) bs bs' \<Longrightarrow> link_rep env bs' bw h lo m"
  unfolding link_rep_def using link_node_mono anode_mono astored_mono by (metis (no_types, lifting))

subsection \<open>Loading\<close>

lemma aser_expand:
  "aser env bs bw h x m \<Longrightarrow> h = 0 \<or> m \<noteq> Map.empty \<Longrightarrow> \<exists>n. node_expand bw x = Inr n \<and> anode env bs bw h n m"
proof (induction h arbitrary: x m)
  case 0
  then obtain vals where v: "length vals = 2 ^ bw" "m = opt_nth vals" "x = CollapsedNode (items_bmap vals) [] (somes vals)"
    unfolding aser.simps(1) by blast
  then have "node_expand bw x = Inr (LeafNode vals)"
    using items_bmap_length [OF v(1)] expand_somes [OF v(1)] by (simp add: node_expand_def)
  then show ?case using v by simp
next
  case (Suc h)
  obtain cs where dom: "dom m \<subseteq> {..<2 ^ (bw * (Suc h + 1))}" and cs: "length cs = 2 ^ bw" "x = CollapsedNode (items_bmap cs) (somes cs) []"
      and rep: "\<And>j. j < 2 ^ bw \<Longrightarrow> (cs ! j = None \<longrightarrow> sub_map bw (Suc h) j m = Map.empty) \<and>
        (\<forall>c. cs ! j = Some c \<longrightarrow> sub_map bw (Suc h) j m \<noteq> Map.empty \<and> astored env bs bw h c (sub_map bw (Suc h) j m))"
    using Suc.prems(1) unfolding aser.simps(2) by blast
  have "somes cs \<noteq> []"
  proof
    assume "somes cs = []"
    then have "cs ! j = None" if "j < 2 ^ bw" for j using that cs(1) by (simp add: somes_empty)
    then show False using rep Suc.prems(2) sub_map_all_empty [OF dom] by blast
  qed
  then have "node_expand bw x = Inr (LinkNode (map (map_option (\<lambda>c. CidLink c None)) cs))"
    using cs(2) items_bmap_length [OF cs(1)] expand_somes [OF cs(1)] by (simp add: node_expand_def)
  moreover have "link_rep env bs bw h (map_option (\<lambda>c. CidLink c None) (cs ! j)) (sub_map bw (Suc h) j m)" if j: "j < 2 ^ bw" for j
  proof (cases "cs ! j")
    case None
    then show ?thesis using rep [OF j] by (simp add: link_rep_def)
  next
    case (Some c)
    then have st: "astored env bs bw h c (sub_map bw (Suc h) j m)" "sub_map bw (Suc h) j m \<noteq> Map.empty" using rep [OF j] by auto
    then obtain y where "cbor_get (am_node env) bs c = Inr (Some y)" "aser env bs bw h y (sub_map bw (Suc h) j m)"
      unfolding astored.simps by blast
    then obtain n where "link_node env bs bw (CidLink c None) = Inr n" "anode env bs bw h n (sub_map bw (Suc h) j m)"
      using Suc.IH [of y] st(2) by (auto simp: link_node_def amt_load_node_def)
    then show ?thesis using Some st by (simp add: link_rep_def)
  qed
  ultimately show ?case using dom cs(1) by (simp add: anode_Suc)
qed

subsection \<open>Storing\<close>

fun settled_link :: "'v AmtLink option \<Rightarrow> bool" where
  "settled_link (Some (DirtyNode _)) = False"
| "settled_link _ = True"

definition settled_node :: "'v AmtNode \<Rightarrow> bool" where
  "settled_node n = (case n of LinkNode links \<Rightarrow> list_all settled_link links | LeafNode _ \<Rightarrow> True)"

fun link_cid :: "'v AmtLink \<Rightarrow> Cid option" where
  "link_cid (CidLink c _) = Some c"
| "link_cid (DirtyNode _) = None"

lemma settled_collapse: "list_all settled_link links \<Longrightarrow> collapse_links links = Inr (somes (map (map_option (\<lambda>l. the (link_cid l))) links))"
proof (induction links rule: collapse_links.induct)
  case (3 c cache ls)
  then show ?case by simp
qed simp_all

lemma collapse_settled:
  assumes "anode env bs bw h n m" "settled_node n"
  obtains x where "node_collapse n = Inr x" "aser env bs bw h x m"
  using assms(1)
proof (cases rule: anode_cases)
  case (leaf vals)
  then show ?thesis using that by (auto simp: node_collapse_def aser.simps somes_def)
next
  case (links h' links)
  let ?cs = "map (map_option (\<lambda>l. the (link_cid l))) links"
  have set: "list_all settled_link links" using assms(2) links(2) by (simp add: settled_node_def)
  have "(?cs ! j = None \<longrightarrow> sub_map bw (Suc h') j m = Map.empty) \<and>
      (\<forall>c. ?cs ! j = Some c \<longrightarrow> sub_map bw (Suc h') j m \<noteq> Map.empty \<and> astored env bs bw h' c (sub_map bw (Suc h') j m))" if j: "j < 2 ^ bw" for j
  proof (cases "links ! j")
    case None
    then show ?thesis using links(3,5) j by (simp add: link_rep_def)
  next
    case (Some l)
    have "settled_link (links ! j)" using set j links(3) by (simp add: list_all_length)
    then obtain c cache where "l = CidLink c cache" using Some by (cases l) simp_all
    then show ?thesis using links(3) links(5) [OF j] j Some by (simp add: link_rep_def)
  qed
  then have "aser env bs bw h (CollapsedNode (items_bmap ?cs) (somes ?cs) []) m"
    unfolding links(1) aser.simps(2) using links(3,4) by (intro conjI exI [of _ ?cs]) simp_all
  moreover have "node_collapse n = Inr (CollapsedNode (items_bmap ?cs) (somes ?cs) [])"
    using settled_collapse [OF set] links(2) by (simp add: node_collapse_def items_bmap_map)
  ultimately show ?thesis using that by blast
qed


lemma put_settled_node:
  assumes "amt_codec_ok env" "anode env bs bw h n m" "settled_node n"
  obtains c bs' where "amt_put env n bs = Inr (c, bs')" "extends_store (am_node env) bs bs'" "astored env bs' bw h c m"
proof -
  obtain x where x: "node_collapse n = Inr x" "aser env bs bw h x m" by (rule collapse_settled [OF assms(2,3)])
  have ok: "codec_ok (am_node env)" using assms(1) by (simp add: amt_codec_ok_def)
  obtain bs' where put: "cbor_put (am_node env) bs x = Inr (obj_cid (am_node env) x, bs')"
      "cbor_get (am_node env) bs' (obj_cid (am_node env) x) = Inr (Some x)" "extends_store (am_node env) bs bs'"
    by (rule cbor_put_get [OF ok])
  have "astored env bs' bw h (obj_cid (am_node env) x) m"
    unfolding astored.simps using put(2) aser_mono [OF x(2) put(3)] by blast
  then show ?thesis using that x(1) put(1,3) by (simp add: amt_put_def)
qed

lemma amt_flush_array:
  fixes env :: "'v amt_env"
  shows "amt_codec_ok env \<Longrightarrow> anode env bs bw h n m \<Longrightarrow> \<exists>n' bs'. amt_node_flush env n bs = (Inr (), n', bs') \<and>
      extends_store (am_node env) bs bs' \<and> anode env bs' bw h n' m \<and> settled_node n'"
    and "amt_codec_ok env \<Longrightarrow> list_all2 (link_rep env bs bw h) ls ms \<Longrightarrow> \<exists>ls' bs'. amt_links_flush env ls bs = (Inr (), ls', bs') \<and>
      extends_store (am_node env) bs bs' \<and> list_all2 (link_rep env bs' bw h) ls' ms \<and> list_all settled_link ls'"
    and "amt_codec_ok env \<Longrightarrow> link_rep env bs bw h lo m \<Longrightarrow> \<exists>lo' bs'. amt_link_flush env lo bs = (Inr (), lo', bs') \<and>
      extends_store (am_node env) bs bs' \<and> link_rep env bs' bw h lo' m \<and> settled_link lo'"
proof (induction env n bs and env ls bs and env lo bs arbitrary: h m and h ms and h m
    rule: amt_node_flush_amt_links_flush_amt_link_flush.induct)
  case (1 env vals bs)
  then show ?case by (simp add: extends_store_refl settled_node_def)
next
  case (2 env links bs)
  from "2.prems"(2) show ?case
  proof (cases rule: anode_cases)
    case l: (links h' links')
    have eq: "links' = links" using l(2) by simp
    let ?ms = "map (\<lambda>j. sub_map bw (Suc h') j m) [0..<2 ^ bw]"
    have "list_all2 (link_rep env bs bw h') links ?ms" using l(3,5) eq by (simp add: list_all2_conv_all_nth)
    then obtain ls' bs' where f: "amt_links_flush env links bs = (Inr (), ls', bs')" "extends_store (am_node env) bs bs'"
        "list_all2 (link_rep env bs' bw h') ls' ?ms" "list_all settled_link ls'"
      using "2.IH" [OF "2.prems"(1)] by blast
    have "anode env bs' bw h (LinkNode ls') m" using f(3) l(1,4) by (auto simp: anode_Suc list_all2_conv_all_nth)
    then show ?thesis using f by (simp add: settled_node_def)
  qed simp
next
  case (3 env bs)
  then show ?case by (simp add: extends_store_refl)
next
  case (4 env l ls bs)
  obtain m0 ms0 where ms: "ms = m0 # ms0" "link_rep env bs bw h l m0" "list_all2 (link_rep env bs bw h) ls ms0"
    using "4.prems"(2) by (cases ms) auto
  obtain l' bs1 where l': "amt_link_flush env l bs = (Inr (), l', bs1)" "extends_store (am_node env) bs bs1"
      "link_rep env bs1 bw h l' m0" "settled_link l'"
    using "4.IH"(1) [OF "4.prems"(1) ms(2)] by blast
  have "list_all2 (link_rep env bs1 bw h) ls ms0" using ms(3) by (rule list_all2_mono) (rule link_rep_mono [OF _ l'(2)])
  then obtain ls' bs2 where ls': "amt_links_flush env ls bs1 = (Inr (), ls', bs2)" "extends_store (am_node env) bs1 bs2"
      "list_all2 (link_rep env bs2 bw h) ls' ms0" "list_all settled_link ls'"
    using "4.IH"(2) [OF l'(1) [symmetric] refl refl "4.prems"(1), of h ms0] by blast
  then show ?case using l' ms(1) link_rep_mono [OF l'(3) ls'(2)] extends_store_trans [OF l'(2) ls'(2)] by simp
next
  case (5 env n bs)
  have t: "m \<noteq> Map.empty" "anode env bs bw h n m" using "5.prems"(2) by (simp_all add: link_rep_def link_node_def)
  obtain n' bs1 where f: "amt_node_flush env n bs = (Inr (), n', bs1)" "extends_store (am_node env) bs bs1"
      "anode env bs1 bw h n' m" "settled_node n'"
    using "5.IH" [OF "5.prems"(1) t(2)] by blast
  obtain c bs2 where put: "amt_put env n' bs1 = Inr (c, bs2)" "extends_store (am_node env) bs1 bs2" "astored env bs2 bw h c m"
    by (rule put_settled_node [OF "5.prems"(1) f(3,4)])
  have "link_rep env bs2 bw h (Some (CidLink c (Some n'))) m"
    using t(1) put(3) anode_mono [OF f(3) put(2)] by (simp add: link_rep_def link_node_def)
  then show ?case using f(1) put(1) extends_store_trans [OF f(2) put(2)] by simp
qed (simp_all add: extends_store_refl)

subsection \<open>The root is determined by the array\<close>

lemma opt_nth_inject: "length xs = length ys \<Longrightarrow> opt_nth xs = opt_nth ys \<Longrightarrow> xs = ys"
  by (rule nth_equalityI) (auto simp: opt_nth_def fun_eq_iff, metis)

lemma aser_unique: "aser env bs1 bw h x1 m \<Longrightarrow> aser env bs2 bw h x2 m \<Longrightarrow> x1 = x2"
proof (induction h arbitrary: x1 x2 m)
  case 0
  obtain v1 v2 where "length v1 = 2 ^ bw" "m = opt_nth v1" "x1 = CollapsedNode (items_bmap v1) [] (somes v1)"
      "length v2 = 2 ^ bw" "m = opt_nth v2" "x2 = CollapsedNode (items_bmap v2) [] (somes v2)"
    using 0 unfolding aser.simps(1) by blast
  then show ?case using opt_nth_inject [of v1 v2] by simp
next
  case (Suc h)
  obtain c1 where c1: "length c1 = 2 ^ bw" "x1 = CollapsedNode (items_bmap c1) (somes c1) []"
      and r1: "\<And>j. j < 2 ^ bw \<Longrightarrow> (c1 ! j = None \<longrightarrow> sub_map bw (Suc h) j m = Map.empty) \<and>
        (\<forall>c. c1 ! j = Some c \<longrightarrow> sub_map bw (Suc h) j m \<noteq> Map.empty \<and> astored env bs1 bw h c (sub_map bw (Suc h) j m))"
    using Suc.prems(1) unfolding aser.simps(2) by blast
  obtain c2 where c2: "length c2 = 2 ^ bw" "x2 = CollapsedNode (items_bmap c2) (somes c2) []"
      and r2: "\<And>j. j < 2 ^ bw \<Longrightarrow> (c2 ! j = None \<longrightarrow> sub_map bw (Suc h) j m = Map.empty) \<and>
        (\<forall>c. c2 ! j = Some c \<longrightarrow> sub_map bw (Suc h) j m \<noteq> Map.empty \<and> astored env bs2 bw h c (sub_map bw (Suc h) j m))"
    using Suc.prems(2) unfolding aser.simps(2) by blast
  have "c1 ! j = c2 ! j" if j: "j < 2 ^ bw" for j
  proof (cases "c1 ! j")
    case None
    then show ?thesis using r1 [OF j] r2 [OF j] by (cases "c2 ! j") auto
  next
    case (Some a)
    then obtain b where b: "c2 ! j = Some b" using r1 [OF j] r2 [OF j] by (cases "c2 ! j") auto
    have "astored env bs1 bw h a (sub_map bw (Suc h) j m)" "astored env bs2 bw h b (sub_map bw (Suc h) j m)"
      using r1 [OF j] r2 [OF j] Some b by auto
    then have "a = b" unfolding astored.simps using Suc.IH by metis
    then show ?thesis using Some b by simp
  qed
  then have "c1 = c2" using c1(1) c2(1) by (intro nth_equalityI) simp_all
  then show ?case using c1(2) c2(2) by simp
qed

lemma aser_inject:
  assumes "amt_codec_ok env" "aser env bs1 bw h x m1" "aser env bs2 bw h x m2"
  shows "m1 = m2"
  using assms(2,3)
proof (induction h arbitrary: x m1 m2)
  case 0
  then show ?case unfolding aser.simps(1) using items_bmap_inject by (metis CollapsedNode.inject)
next
  case (Suc h)
  obtain c1 where d1: "dom m1 \<subseteq> {..<2 ^ (bw * (Suc h + 1))}" and c1: "length c1 = 2 ^ bw" "x = CollapsedNode (items_bmap c1) (somes c1) []"
      and r1: "\<And>j. j < 2 ^ bw \<Longrightarrow> (c1 ! j = None \<longrightarrow> sub_map bw (Suc h) j m1 = Map.empty) \<and>
        (\<forall>c. c1 ! j = Some c \<longrightarrow> sub_map bw (Suc h) j m1 \<noteq> Map.empty \<and> astored env bs1 bw h c (sub_map bw (Suc h) j m1))"
    using Suc.prems(1) unfolding aser.simps(2) by blast
  obtain c2 where d2: "dom m2 \<subseteq> {..<2 ^ (bw * (Suc h + 1))}" and c2: "length c2 = 2 ^ bw" "x = CollapsedNode (items_bmap c2) (somes c2) []"
      and r2: "\<And>j. j < 2 ^ bw \<Longrightarrow> (c2 ! j = None \<longrightarrow> sub_map bw (Suc h) j m2 = Map.empty) \<and>
        (\<forall>c. c2 ! j = Some c \<longrightarrow> sub_map bw (Suc h) j m2 \<noteq> Map.empty \<and> astored env bs2 bw h c (sub_map bw (Suc h) j m2))"
    using Suc.prems(2) unfolding aser.simps(2) by blast
  have eq: "c1 = c2" by (rule items_bmap_inject [OF c1(1) c2(1)]) (use c1(2) c2(2) in simp_all)
  have sub: "sub_map bw (Suc h) j m1 = sub_map bw (Suc h) j m2" if j: "j < 2 ^ bw" for j
  proof (cases "c1 ! j")
    case None
    then show ?thesis using r1 [OF j] r2 [OF j] eq by simp
  next
    case (Some c)
    then have "astored env bs1 bw h c (sub_map bw (Suc h) j m1)" "astored env bs2 bw h c (sub_map bw (Suc h) j m2)"
      using r1 [OF j] r2 [OF j] eq by auto
    then obtain y1 y2 where "obj_cid (am_node env) y1 = obj_cid (am_node env) y2" "aser env bs1 bw h y1 (sub_map bw (Suc h) j m1)"
        "aser env bs2 bw h y2 (sub_map bw (Suc h) j m2)" unfolding astored.simps by metis
    moreover have "y1 = y2" using assms(1) calculation(1) by (intro obj_cid_inject [of "am_node env"]) (simp_all add: amt_codec_ok_def)
    ultimately show ?thesis using Suc.IH by blast
  qed
  show ?case
  proof
    fix i
    show "m1 i = m2 i"
    proof (cases "i < 2 ^ (bw * (Suc h + 1))")
      case True
      then have "i div 2 ^ (bw * Suc h) < 2 ^ bw" by (rule block_bound)
      then show ?thesis using sub sub_map_at [of bw "Suc h" i m1] sub_map_at [of bw "Suc h" i m2] by metis
    next
      case False
      then show ?thesis using d1 d2 by (metis domIff in_mono lessThan_iff)
    qed
  qed
qed

subsection \<open>The array as a whole\<close>

definition root_stored :: "'v amt_env \<Rightarrow> Blocks \<Rightarrow> nat \<Rightarrow> nat \<Rightarrow> Cid \<Rightarrow> (nat \<Rightarrow> 'v option) \<Rightarrow> bool" where
  "root_stored env bs bw h c m \<longleftrightarrow>
    (\<exists>x. let ser = ((case am_version env of V0 \<Rightarrow> None | V3 \<Rightarrow> Some bw), h, card (dom m), x)
      in cbor_get (am_root env) bs c = Inr (Some ser) \<and> c = obj_cid (am_root env) ser \<and> aser env bs bw h x m)"

definition width_ok :: "'v amt_env \<Rightarrow> nat \<Rightarrow> bool" where
  "width_ok env bw \<longleftrightarrow> 0 < bw \<and> (am_version env = V0 \<longrightarrow> bw = DEFAULT_BIT_WIDTH)"

definition amt_rep :: "'v amt_env \<Rightarrow> 'v Amt \<Rightarrow> (nat \<Rightarrow> 'v option) \<Rightarrow> bool" where
  "amt_rep env t m \<longleftrightarrow>
    (let r = amt_root t; bw = amt_bit_width r; h = amt_height r
     in width_ok env bw \<and> bw * h < 64 \<and> dom m \<subseteq> {..MAX_INDEX} \<and> min_height bw h m \<and> amt_count r = card (dom m) \<and>
       anode env (amt_store t) bw h (amt_node r) m \<and>
       (\<forall>c. amt_flushed_cid t = Some c \<longrightarrow> root_stored env (amt_store t) bw h c m))"

lemmas amt_repD = amt_rep_def [unfolded Let_def, THEN iffD1]

lemma amt_new_rep: "width_ok env bw \<Longrightarrow> amt_rep env (amt_new_with_bit_width bs bw) Map.empty"
  by (auto simp: amt_rep_def amt_new_with_bit_width_def init_sized_vec_def min_height_def opt_nth_def fun_eq_iff)

lemma finite_index: "dom m \<subseteq> {..MAX_INDEX} \<Longrightarrow> finite (dom m) \<and> card (dom m) \<le> u64_max" for m :: "nat \<Rightarrow> 'v option"
proof
  assume dom: "dom m \<subseteq> {..MAX_INDEX}"
  show "finite (dom m)" using dom finite_subset by blast
  have "card (dom m) \<le> card {..MAX_INDEX}" using dom by (intro card_mono) simp_all
  then show "card (dom m) \<le> u64_max" by (simp add: MAX_INDEX_def u64_max_def)
qed

lemma in_range: "i \<le> MAX_INDEX \<Longrightarrow> i < nodes_for_height bw (h + 1) \<longleftrightarrow> i < 2 ^ (bw * (h + 1))"
proof -
  assume i: "i \<le> MAX_INDEX"
  show ?thesis
  proof (cases "bw * (h + 1) < 64")
    case True
    then show ?thesis by (simp add: nodes_for_height_exact)
  next
    case False
    then have "(2 :: nat) ^ 64 \<le> 2 ^ (bw * (h + 1))" by (intro power_increasing) simp_all
    moreover have "i < u64_max" "u64_max < 2 ^ 64" using i by (simp_all add: MAX_INDEX_def u64_max_def)
    moreover have "nodes_for_height bw (h + 1) = u64_max" using False by (simp add: nodes_for_height_def)
    ultimately show ?thesis by linarith
  qed
qed

lemma amt_get_rep:
  assumes "amt_rep env t m" "i \<le> MAX_INDEX"
  shows "\<exists>t'. amt_get env i t = (Inr (m i), t') \<and> amt_rep env t' m"
proof -
  note r = amt_repD [OF assms(1)]
  let ?r = "amt_root t"
  show ?thesis
  proof (cases "i < nodes_for_height (amt_bit_width ?r) (amt_height ?r + 1)")
    case True
    then obtain n where "amt_node_get env (amt_store t) (amt_bit_width ?r) (amt_height ?r) i (amt_node ?r) = (Inr (m i), n)"
        "anode env (amt_store t) (amt_bit_width ?r) (amt_height ?r) n m"
      using node_get_array [of env "amt_store t" "amt_bit_width ?r" "amt_height ?r" "amt_node ?r" m i] r in_range [OF assms(2)] by blast
    then show ?thesis using True assms by (auto simp: amt_get_def amt_rep_def Let_def)
  next
    case False
    then have "m i = None"
      using in_range [OF assms(2)] anode_dom [of env "amt_store t" "amt_bit_width ?r" "amt_height ?r" "amt_node ?r" m] r
      by (metis domIff in_mono lessThan_iff)
    then show ?thesis using False assms by (simp add: amt_get_def Let_def)
  qed
qed

lemma expand_array:
  "0 < amt_bit_width r \<Longrightarrow> i \<le> MAX_INDEX \<Longrightarrow> amt_bit_width r * amt_height r < 64 \<Longrightarrow>
    anode env bs (amt_bit_width r) (amt_height r) (amt_node r) m \<Longrightarrow>
    \<exists>r'. amt_expand i r = Some r' \<and> amt_bit_width r' = amt_bit_width r \<and> amt_count r' = amt_count r \<and>
      amt_bit_width r * amt_height r' < 64 \<and> anode env bs (amt_bit_width r) (amt_height r') (amt_node r') m \<and>
      i < 2 ^ (amt_bit_width r * (amt_height r' + 1)) \<and>
      (amt_height r' = amt_height r \<or> 2 ^ (amt_bit_width r * amt_height r') \<le> i)"
proof (induction "64 - amt_height r" arbitrary: r rule: less_induct)
  case less
  let ?bw = "amt_bit_width r" and ?h = "amt_height r"
  show ?case
  proof (cases "i < nodes_for_height ?bw (?h + 1)")
    case True
    then have "amt_expand i r = Some r" by (subst amt_expand.simps) simp
    then show ?thesis using True less.prems in_range [OF less.prems(2)] by blast
  next
    case False
    define r1 where "r1 = r\<lparr>amt_node := LinkNode (if \<not> amt_node_is_empty (amt_node r)
        then (init_sized_vec ?bw)[0 := Some (DirtyNode (amt_node r))] else init_sized_vec ?bw), amt_height := ?h + 1\<rparr>"
    have lt: "?bw * (?h + 1) < 64"
    proof (rule ccontr)
      assume "\<not> ?bw * (?h + 1) < 64"
      then have "nodes_for_height ?bw (?h + 1) = u64_max" by (simp add: nodes_for_height_def)
      then show False using False less.prems(2) by (simp add: MAX_INDEX_def u64_max_def)
    qed
    have "1 * (?h + 1) \<le> ?bw * (?h + 1)" by (rule mult_le_mono1) (use less.prems(1) in simp)
    then have "64 - amt_height r1 < 64 - ?h" using lt by (simp add: r1_def)
    moreover have "anode env bs ?bw (amt_height r1) (amt_node r1) m"
      using anode_raise [OF less.prems(4,1)] by (simp add: r1_def)
    ultimately obtain r' where r': "amt_expand i r1 = Some r'" "amt_bit_width r' = ?bw" "amt_count r' = amt_count r"
        "?bw * amt_height r' < 64" "anode env bs ?bw (amt_height r') (amt_node r') m" "i < 2 ^ (?bw * (amt_height r' + 1))"
        "amt_height r' = ?h + 1 \<or> 2 ^ (?bw * amt_height r') \<le> i"
      using less.hyps [of r1] less.prems(1,2) lt by (auto simp: r1_def)
    have "amt_expand i r = amt_expand i r1" using False by (subst amt_expand.simps) (simp add: r1_def)
    moreover have "2 ^ (?bw * (?h + 1)) \<le> i" using False in_range [OF less.prems(2)] by (meson not_le)
    ultimately show ?thesis using r' by auto
  qed
qed

lemma amt_set_rep:
  assumes "amt_rep env t m" "i \<le> MAX_INDEX"
  shows "\<exists>t'. amt_set env i v t = Some (Inr (), t') \<and> amt_rep env t' (m(i \<mapsto> v))"
proof -
  note rep = amt_repD [OF assms(1)]
  let ?r = "amt_root t"
  let ?bw = "amt_bit_width ?r"
  obtain r where r: "amt_expand i ?r = Some r" "amt_bit_width r = ?bw" "amt_count r = amt_count ?r"
      "?bw * amt_height r < 64" "anode env (amt_store t) ?bw (amt_height r) (amt_node r) m" "i < 2 ^ (?bw * (amt_height r + 1))"
      "amt_height r = amt_height ?r \<or> 2 ^ (?bw * amt_height r) \<le> i"
    using expand_array [of ?r i env "amt_store t" m] rep assms(2) by (auto simp: width_ok_def)
  obtain n where n: "amt_node_set env (amt_store t) ?bw (amt_height r) i v (amt_node r) = (Inr (m i), n)"
      "anode env (amt_store t) ?bw (amt_height r) n (m(i \<mapsto> v))"
    using node_set_array [OF r(5,4,6)] by blast
  have dom: "dom (m(i \<mapsto> v)) \<subseteq> {..MAX_INDEX}" using rep assms(2) by auto
  have "min_height ?bw (amt_height r) (m(i \<mapsto> v))" using rep r(7) by (auto simp: min_height_def)
  moreover have "(if m i = None then (amt_count r + 1) mod 2 ^ 64 else amt_count r) = card (dom (m(i \<mapsto> v)))"
  proof (cases "m i")
    case None
    then have "card (dom (m(i \<mapsto> v))) = card (dom m) + 1" using finite_index [of m] rep by (simp add: domIff)
    moreover have "card (dom (m(i \<mapsto> v))) < 2 ^ 64" using finite_index [OF dom] by (simp add: u64_max_def)
    ultimately show ?thesis using None r(3) rep by simp
  next
    case (Some w)
    then have "dom (m(i \<mapsto> v)) = dom m" by auto
    then show ?thesis using Some r(3) rep by simp
  qed
  ultimately show ?thesis using n r dom rep assms(2)
    by (simp add: amt_set_def amt_rep_def Let_def del: fun_upd_apply)
qed

lemma amt_delete_rep:
  assumes "amt_rep env t m" "i \<le> MAX_INDEX"
  shows "\<exists>t'. amt_delete env i t = (Inr (m i), t') \<and> amt_rep env t' (m(i := None))"
proof -
  note rep = amt_repD [OF assms(1)]
  let ?r = "amt_root t"
  let ?bw = "amt_bit_width ?r" and ?h = "amt_height ?r" and ?m = "m(i := None)"
  show ?thesis
  proof (cases "i < nodes_for_height ?bw (?h + 1)")
    case False
    then have "m i = None"
      using in_range [OF assms(2)] anode_dom [of env "amt_store t" ?bw ?h "amt_node ?r" m] rep by (metis domIff in_mono lessThan_iff)
    then show ?thesis using False assms by (simp add: amt_delete_def Let_def fun_upd_idem)
  next
    case True
    then obtain n where n: "amt_node_delete env (amt_store t) ?bw ?h i (amt_node ?r) = (Inr (m i), n)" "anode env (amt_store t) ?bw ?h n ?m"
      using node_delete_array [of env "amt_store t" ?bw ?h "amt_node ?r" m i] rep in_range [OF assms(2)] by blast
    show ?thesis
    proof (cases "m i")
      case None
      then have "?m = m" by (simp add: fun_upd_idem)
      then show ?thesis using n True None rep assms by (auto simp: amt_delete_def amt_rep_def Let_def)
    next
      case (Some v)
      have dom: "dom ?m \<subseteq> {..MAX_INDEX}" using rep by auto
      have count: "amt_count ?r - 1 = card (dom ?m)" using Some rep finite_index [of m] by (simp add: card_Diff_singleton_if domIff)
      show ?thesis
      proof (cases "?m = Map.empty")
        case True
        then have "amt_node_is_empty n" using anode_empty_iff [OF n(2)] by simp
        moreover define t' where "t' = t\<lparr>amt_root := ?r\<lparr>amt_node := LeafNode (init_sized_vec ?bw), amt_count := amt_count ?r - 1,
            amt_height := 0\<rparr>, amt_flushed_cid := None\<rparr>"
        ultimately have "amt_delete env i t = (Inr (Some v), t')"
          using n(1) Some assms(2) \<open>i < nodes_for_height ?bw (?h + 1)\<close> by (simp add: amt_delete_def Let_def)
        moreover have "amt_count ?r - 1 = 0" using count unfolding True by simp
        then have "amt_rep env t' Map.empty"
          using rep by (simp add: t'_def amt_rep_def init_sized_vec_def min_height_def opt_nth_def fun_eq_iff)
        ultimately show ?thesis unfolding True using Some by simp
      next
        case False
        then have "\<not> amt_node_is_empty n" using anode_empty_iff [OF n(2)] by simp
        moreover obtain h' n' where s: "amt_shrink env (amt_store t) ?bw ?h n = (Inr (), h', n')" "h' \<le> ?h"
            "anode env (amt_store t) ?bw h' n' ?m" "min_height ?bw h' ?m"
          using shrink_array [OF n(2) False] by blast
        moreover have "?bw * h' < 64" using s(2) rep by (meson le_less_trans mult_le_mono2)
        ultimately show ?thesis using n Some dom count rep assms(2) \<open>i < nodes_for_height ?bw (?h + 1)\<close>
          by (simp add: amt_delete_def amt_rep_def Let_def del: fun_upd_apply)
      qed
    qed
  qed
qed

end
