(* ===== verification/AmtIter.thy ===== *)
theory AmtIter
  imports AmtStore
begin

text \<open>
  Iteration over an AMT: \<open>ipld/amt/src/iter.rs\<close> and the traversals of \<open>amt.rs\<close>. An iterator has a stack of
  nodes, the top first, each with the index of the slot to look at next, and the key of the slot it has
  reached. Links are loaded on the way; an iteration visits every slot once, so the caches that it fills
  are not kept in the model. The loops are partial functions, because nothing in the code bounds them
  when the store is arbitrary; they are shown to end on every AMT.
\<close>

record 'v AmtIter =
  ai_stack :: "('v AmtNode \<times> nat) list"
  ai_height :: nat
  ai_bit_width :: nat
  ai_key :: nat

definition amt_iter_new :: "'v AmtNode \<Rightarrow> nat \<Rightarrow> nat \<Rightarrow> nat \<Rightarrow> 'v AmtIter" where
  "amt_iter_new n height bw offset = \<lparr>ai_stack = [(n, 0)], ai_height = height, ai_bit_width = bw, ai_key = offset\<rparr>"

definition amt_iter :: "'v Amt \<Rightarrow> 'v AmtIter" where
  "amt_iter t = amt_iter_new (amt_node (amt_root t)) (amt_height (amt_root t)) (amt_bit_width (amt_root t)) 0"

text \<open>
  The loop of \<open>iter_from\<close>. It subtracts the length of the stack from the height, as \<open>u32\<close> values, and so
  cannot go deeper than the height.
\<close>

function amt_iter_start ::
  "'v amt_env \<Rightarrow> Blocks \<Rightarrow> nat \<Rightarrow> nat \<Rightarrow> nat \<Rightarrow> nat \<Rightarrow> 'v AmtNode \<Rightarrow> ('v AmtNode \<times> nat) list \<Rightarrow>
    AmtError + ('v AmtNode \<times> nat) list" where
  "amt_iter_start env bs bw height start_at offset node stack =
    (let start_idx = start_at - offset
     in case node of
       LeafNode vals \<Rightarrow>
         if start_idx \<ge> length vals then Inl (AmtDynamic ''incorrect height for tree depth'')
         else Inr ((node, start_idx) # stack)
     | LinkNode links \<Rightarrow>
         if length stack > height then Inl AmtPanic
         else
           let nfh = nodes_for_height bw (height - length stack); idx = start_idx div nfh
           in if \<not> idx < length links then Inl AmtPanic
              else case links ! idx of
                None \<Rightarrow> Inr ((node, idx) # stack)
              | Some l \<Rightarrow>
                  (case link_node env bs bw l of
                     Inl e \<Rightarrow> Inl e
                   | Inr sub \<Rightarrow> amt_iter_start env bs bw height start_at (offset + idx * nfh) sub ((node, idx + 1) # stack)))"
  by pat_completeness auto
termination
  by (relation "measure (\<lambda>(env, bs, bw, height, start_at, offset, node, stack). height + 1 - length stack)") auto

declare amt_iter_start.simps [simp del]

definition amt_iter_from :: "'v amt_env \<Rightarrow> nat \<Rightarrow> 'v Amt \<Rightarrow> AmtError + 'v AmtIter" where
  "amt_iter_from env start_at t =
    (if start_at = 0 then Inr (amt_iter t)
     else
       let r = amt_root t; height = amt_height r; bw = amt_bit_width r
       in if start_at \<ge> nodes_for_height bw (height + 1) then
            Inr \<lparr>ai_stack = [], ai_height = height, ai_bit_width = bw, ai_key = start_at\<rparr>
          else case amt_iter_start env (amt_store t) bw height start_at 0 (amt_node r) [] of
            Inl e \<Rightarrow> Inl e
          | Inr stack \<Rightarrow> Inr \<lparr>ai_stack = stack, ai_height = height, ai_bit_width = bw, ai_key = start_at\<rparr>)"

text \<open>The loop over the values of a leaf: the value found, and the index and the key after it.\<close>

function leaf_next :: "'v option list \<Rightarrow> nat \<Rightarrow> nat \<Rightarrow> 'v option \<times> nat \<times> nat" where
  "leaf_next vals idx key =
    (if idx < length vals \<and> key \<le> MAX_INDEX then
       (case vals ! idx of
          Some v \<Rightarrow> (Some v, idx + 1, key + 1)
        | None \<Rightarrow> leaf_next vals (idx + 1) (key + 1))
     else (None, idx, key))"
  by pat_completeness auto
termination
  by (relation "measure (\<lambda>(vals, idx, key). length vals - idx)") auto

declare leaf_next.simps [simp del]

definition saturating_add :: "nat \<Rightarrow> nat \<Rightarrow> nat" where
  "saturating_add a b = (if a + b > u64_max then u64_max else a + b)"

partial_function (option) amt_iter_next ::
  "'v amt_env \<Rightarrow> Blocks \<Rightarrow> 'v AmtIter \<Rightarrow> ((AmtError + nat \<times> 'v) option \<times> 'v AmtIter) option" where
  "amt_iter_next env bs it =
    (if \<not> ai_key it \<le> MAX_INDEX then Some (None, it)
     else case ai_stack it of
       [] \<Rightarrow> Some (None, it)
     | level # rest \<Rightarrow>
         (case level of (node, idx) \<Rightarrow>
            case node of
              LeafNode vals \<Rightarrow>
                (case leaf_next vals idx (ai_key it) of (found, idx', key) \<Rightarrow>
                   case found of
                     Some v \<Rightarrow> Some (Some (Inr (key - 1, v)), it\<lparr>ai_stack := (node, idx') # rest, ai_key := key\<rparr>)
                   | None \<Rightarrow> amt_iter_next env bs (it\<lparr>ai_stack := rest, ai_key := key\<rparr>))
            | LinkNode links \<Rightarrow>
                if idx < length links then
                  (case links ! idx of
                     Some l \<Rightarrow>
                       (case link_node env bs (ai_bit_width it) l of
                          Inl e \<Rightarrow> Some (Some (Inl e), it\<lparr>ai_stack := (node, idx + 1) # rest\<rparr>)
                        | Inr sub \<Rightarrow> amt_iter_next env bs (it\<lparr>ai_stack := (sub, 0) # (node, idx + 1) # rest\<rparr>))
                   | None \<Rightarrow>
                       if length (level # rest) > ai_height it then Some (Some (Inl AmtPanic), it)
                       else
                         amt_iter_next env bs
                           (it\<lparr>ai_stack := (node, idx + 1) # rest,
                               ai_key := saturating_add (ai_key it)
                                 (nodes_for_height (ai_bit_width it) (ai_height it - length (level # rest) + 1))\<rparr>))
                else amt_iter_next env bs (it\<lparr>ai_stack := rest\<rparr>)))"

subsection \<open>Traversals\<close>

text \<open>The functions that a traversal calls may fail and may change a state.\<close>

type_synonym ('v, 'r, 's) amt_visitor = "nat \<Rightarrow> 'v \<Rightarrow> 's \<Rightarrow> (string + 'r) \<times> 's"

partial_function (option) amt_visit ::
  "'v amt_env \<Rightarrow> Blocks \<Rightarrow> ('v, unit, 's) amt_visitor \<Rightarrow> 'v AmtIter \<Rightarrow> 's \<Rightarrow> ((AmtError + unit) \<times> 's) option" where
  "amt_visit env bs f it s =
    Option.bind (amt_iter_next env bs it) (\<lambda>(item, it').
    case item of
      None \<Rightarrow> Some (Inr (), s)
    | Some (Inl e) \<Rightarrow> Some (Inl e, s)
    | Some (Inr kv) \<Rightarrow>
        (case f (fst kv) (snd kv) s of
           (Inl e, s') \<Rightarrow> Some (Inl (AmtDynamic e), s')
         | (Inr _, s') \<Rightarrow> amt_visit env bs f it' s'))"

definition amt_for_each :: "'v amt_env \<Rightarrow> ('v, unit, 's) amt_visitor \<Rightarrow> 'v Amt \<Rightarrow> 's \<Rightarrow> ((AmtError + unit) \<times> 's) option" where
  "amt_for_each env f t s = amt_visit env (amt_store t) f (amt_iter t) s"

partial_function (option) amt_visit_while ::
  "'v amt_env \<Rightarrow> Blocks \<Rightarrow> ('v, bool, 's) amt_visitor \<Rightarrow> 'v AmtIter \<Rightarrow> 's \<Rightarrow> ((AmtError + unit) \<times> 's) option" where
  "amt_visit_while env bs f it s =
    Option.bind (amt_iter_next env bs it) (\<lambda>(item, it').
    case item of
      None \<Rightarrow> Some (Inr (), s)
    | Some (Inl e) \<Rightarrow> Some (Inl e, s)
    | Some (Inr kv) \<Rightarrow>
        (case f (fst kv) (snd kv) s of
           (Inl e, s') \<Rightarrow> Some (Inl (AmtDynamic e), s')
         | (Inr go, s') \<Rightarrow> if \<not> go then Some (Inr (), s') else amt_visit_while env bs f it' s'))"

definition amt_for_each_while :: "'v amt_env \<Rightarrow> ('v, bool, 's) amt_visitor \<Rightarrow> 'v Amt \<Rightarrow> 's \<Rightarrow> ((AmtError + unit) \<times> 's) option" where
  "amt_for_each_while env f t s = amt_visit_while env (amt_store t) f (amt_iter t) s"

partial_function (option) amt_visit_ranged ::
  "'v amt_env \<Rightarrow> Blocks \<Rightarrow> ('v, unit, 's) amt_visitor \<Rightarrow> nat option \<Rightarrow> nat \<Rightarrow> 'v AmtIter \<Rightarrow> 's \<Rightarrow>
    ((AmtError + nat \<times> nat option) \<times> 's) option" where
  "amt_visit_ranged env bs f limit traversed it s =
    Option.bind (amt_iter_next env bs it) (\<lambda>(item, it').
    case item of
      None \<Rightarrow> Some (Inr (traversed, None), s)
    | Some (Inl e) \<Rightarrow> Some (Inl e, s)
    | Some (Inr kv) \<Rightarrow>
        (if (case limit of Some l \<Rightarrow> traversed \<ge> l | None \<Rightarrow> False) then Some (Inr (traversed, Some (fst kv)), s)
         else case f (fst kv) (snd kv) s of
           (Inl e, s') \<Rightarrow> Some (Inl (AmtDynamic e), s')
         | (Inr _, s') \<Rightarrow> amt_visit_ranged env bs f limit (traversed + 1) it' s'))"

definition amt_for_each_ranged ::
  "'v amt_env \<Rightarrow> nat option \<Rightarrow> nat option \<Rightarrow> ('v, unit, 's) amt_visitor \<Rightarrow> 'v Amt \<Rightarrow> 's \<Rightarrow> ((AmtError + nat \<times> nat option) \<times> 's) option" where
  "amt_for_each_ranged env start_at limit f t s =
    (case amt_iter_from env (case start_at of Some i \<Rightarrow> i | None \<Rightarrow> 0) t of
       Inl e \<Rightarrow> Some (Inl e, s)
     | Inr it \<Rightarrow> amt_visit_ranged env (amt_store t) f limit 0 it s)"

partial_function (option) amt_visit_while_ranged ::
  "'v amt_env \<Rightarrow> Blocks \<Rightarrow> ('v, bool, 's) amt_visitor \<Rightarrow> nat option \<Rightarrow> nat \<Rightarrow> bool \<Rightarrow> 'v AmtIter \<Rightarrow> 's \<Rightarrow>
    ((AmtError + nat \<times> nat option) \<times> 's) option" where
  "amt_visit_while_ranged env bs f limit traversed keep_going it s =
    Option.bind (amt_iter_next env bs it) (\<lambda>(item, it').
    case item of
      None \<Rightarrow> Some (Inr (traversed, None), s)
    | Some (Inl e) \<Rightarrow> Some (Inl e, s)
    | Some (Inr kv) \<Rightarrow>
        (if \<not> keep_going \<or> (case limit of Some l \<Rightarrow> traversed \<ge> l | None \<Rightarrow> False) then Some (Inr (traversed, Some (fst kv)), s)
         else case f (fst kv) (snd kv) s of
           (Inl e, s') \<Rightarrow> Some (Inl (AmtDynamic e), s')
         | (Inr go, s') \<Rightarrow> amt_visit_while_ranged env bs f limit (traversed + 1) go it' s'))"

definition amt_for_each_while_ranged ::
  "'v amt_env \<Rightarrow> nat option \<Rightarrow> nat option \<Rightarrow> ('v, bool, 's) amt_visitor \<Rightarrow> 'v Amt \<Rightarrow> 's \<Rightarrow> ((AmtError + nat \<times> nat option) \<times> 's) option" where
  "amt_for_each_while_ranged env start_at limit f t s =
    (case amt_iter_from env (case start_at of Some i \<Rightarrow> i | None \<Rightarrow> 0) t of
       Inl e \<Rightarrow> Some (Inl e, s)
     | Inr it \<Rightarrow> amt_visit_while_ranged env (amt_store t) f limit 0 True it s)"


subsection \<open>What an iterator yields\<close>

inductive amt_yields :: "'v amt_env \<Rightarrow> Blocks \<Rightarrow> 'v AmtIter \<Rightarrow> (nat \<times> 'v) list \<Rightarrow> bool" for env bs where
  amt_yields_done: "amt_iter_next env bs it = Some (None, it') \<Longrightarrow> amt_yields env bs it []"
| amt_yields_item: "amt_iter_next env bs it = Some (Some (Inr kv), it') \<Longrightarrow> amt_yields env bs it' kvs \<Longrightarrow> amt_yields env bs it (kv # kvs)"

lemma amt_yields_cong:
  assumes "amt_iter_next env bs it = amt_iter_next env bs it'" "amt_yields env bs it' kvs"
  shows "amt_yields env bs it kvs"
  using assms(2) by (cases rule: amt_yields.cases) (metis assms(1) amt_yields_done, metis assms(1) amt_yields_item)

text \<open>An iterator over nodes of bit width \<open>bw\<close>, at the exact position \<open>k\<close> in the stack's entries.\<close>

definition iter_at :: "nat \<Rightarrow> nat \<Rightarrow> nat \<Rightarrow> ('v AmtNode \<times> nat) list \<Rightarrow> 'v AmtIter" where
  "iter_at bw h k stack = \<lparr>ai_stack = stack, ai_height = h, ai_bit_width = bw, ai_key = min k u64_max\<rparr>"

lemma iter_at_add: "iter_at bw h (k + d) stack = (iter_at bw h k stack)\<lparr>ai_key := saturating_add (min k u64_max) d\<rparr>"
  by (auto simp: iter_at_def saturating_add_def min_def)

lemma key_limit: "min k u64_max \<le> MAX_INDEX \<longleftrightarrow> k \<le> MAX_INDEX"
  by (auto simp: MAX_INDEX_def u64_max_def min_def)

lemma next_over: "MAX_INDEX < k \<Longrightarrow> amt_iter_next env bs (iter_at bw h k stack) = Some (None, iter_at bw h k stack)"
  by (subst amt_iter_next.simps) (simp add: iter_at_def key_limit)

lemma yields_over: "MAX_INDEX < k \<Longrightarrow> amt_yields env bs (iter_at bw h k stack) []"
  by (rule amt_yields_done) (rule next_over)

lemma yields_over_Nil: "MAX_INDEX < k \<Longrightarrow> amt_yields env bs (iter_at bw h k stack) kvs \<Longrightarrow> kvs = []"
  by (erule amt_yields.cases) (auto simp: next_over)

lemma yields_nil: "amt_yields env bs (iter_at bw h k []) []"
  by (rule amt_yields_done [of _ _ _ "iter_at bw h k []"], subst amt_iter_next.simps) (simp add: iter_at_def)

lemma yields_pop_links:
  assumes "amt_yields env bs (iter_at bw h k rest) kvs"
  shows "amt_yields env bs (iter_at bw h k ((LinkNode links, length links) # rest)) kvs"
proof (cases "k \<le> MAX_INDEX")
  case True
  show ?thesis
    by (rule amt_yields_cong [OF _ assms], subst amt_iter_next.simps) (use True in \<open>simp add: iter_at_def key_limit\<close>)
next
  case False
  then show ?thesis using yields_over_Nil [OF _ assms] yields_over [of k env bs bw h] by auto
qed

lemma yields_skip_link:
  assumes "amt_yields env bs (iter_at bw h (k + nodes_for_height bw (h - length rest)) ((LinkNode links, Suc i) # rest)) kvs"
    and "i < length links" "links ! i = None" "length rest < h"
  shows "amt_yields env bs (iter_at bw h k ((LinkNode links, i) # rest)) kvs"
proof (cases "k \<le> MAX_INDEX")
  case True
  have "h - Suc (length rest) + 1 = h - length rest" using assms(4) by simp
  then show ?thesis using True assms(2,3,4)
    by (intro amt_yields_cong [OF _ assms(1)], subst amt_iter_next.simps) (simp add: iter_at_add, simp add: iter_at_def key_limit)
next
  case False
  then have "kvs = []" using yields_over_Nil [OF _ assms(1)] by auto
  then show ?thesis using False yields_over [of k env bs bw h] by auto
qed

lemma yields_enter_link:
  assumes "amt_yields env bs (iter_at bw h k ((n, 0) # (LinkNode links, Suc i) # rest)) kvs"
    and "i < length links" "links ! i = Some l" "link_node env bs bw l = Inr n"
  shows "amt_yields env bs (iter_at bw h k ((LinkNode links, i) # rest)) kvs"
proof (cases "k \<le> MAX_INDEX")
  case True
  then show ?thesis using assms(2-)
    by (intro amt_yields_cong [OF _ assms(1)], subst amt_iter_next.simps) (simp add: iter_at_def key_limit)
next
  case False
  then show ?thesis using yields_over_Nil [OF _ assms(1)] yields_over [of k env bs bw h] by auto
qed

text \<open>The entries of a part of an array, with the keys moved by \<open>k\<close>, as far as they are indices.\<close>

definition entry_at :: "nat \<Rightarrow> (nat \<Rightarrow> 'v option) \<Rightarrow> nat \<Rightarrow> (nat \<times> 'v) list" where
  "entry_at k m i = (case m i of Some v \<Rightarrow> if k + i \<le> MAX_INDEX then [(k + i, v)] else [] | None \<Rightarrow> [])"

definition array_entries :: "nat \<Rightarrow> (nat \<Rightarrow> 'v option) \<Rightarrow> nat \<Rightarrow> nat \<Rightarrow> (nat \<times> 'v) list" where
  "array_entries k m a b = concat (map (entry_at k m) [a..<b])"

lemma array_entries_same [simp]: "array_entries k m a a = []"
  by (simp add: array_entries_def)

lemma array_entries_split: "a \<le> b \<Longrightarrow> b \<le> c \<Longrightarrow> array_entries k m a c = array_entries k m a b @ array_entries k m b c"
  unfolding array_entries_def by (metis concat_append le_Suc_ex map_append upt_add_eq_append)

lemma array_entries_Suc: "a < b \<Longrightarrow> array_entries k m a b = entry_at k m a @ array_entries k m (Suc a) b"
  by (simp add: array_entries_def upt_conv_Cons)

lemma array_entries_over:
  assumes "MAX_INDEX < k + a"
  shows "array_entries k m a b = []"
  using assms by (auto simp: array_entries_def entry_at_def split: option.splits)

lemma array_entries_empty: "(\<And>i. a \<le> i \<Longrightarrow> i < b \<Longrightarrow> m i = None) \<Longrightarrow> array_entries k m a b = []"
  by (simp add: array_entries_def entry_at_def)

lemma array_entries_shift:
  assumes "\<And>i. i < d \<Longrightarrow> m' i = m (a + i)"
  shows "array_entries (k + a) m' c d = array_entries k m (a + c) (a + d)"
proof -
  have "[a + c..<a + d] = map (\<lambda>i. a + i) [c..<d]" by (induction d) (auto simp: not_le)
  then show ?thesis using assms
    by (auto simp: array_entries_def entry_at_def add.assoc intro!: arg_cong [where f = concat] split: option.splits)
qed

lemma yields_leaf:
  assumes "amt_yields env bs (iter_at bw h (k + length vals) rest) r"
  shows "i \<le> length vals \<Longrightarrow>
    amt_yields env bs (iter_at bw h (k + i) ((LeafNode vals, i) # rest)) (array_entries k (opt_nth vals) i (length vals) @ r)"
proof (induction "length vals - i" arbitrary: i)
  case 0
  then have i: "i = length vals" by simp
  show ?case
  proof (cases "k + i \<le> MAX_INDEX")
    case True
    have "leaf_next vals (length vals) q = (None, length vals, q)" for q by (subst leaf_next.simps) simp
    then have "amt_iter_next env bs (iter_at bw h (k + length vals) ((LeafNode vals, length vals) # rest)) =
        amt_iter_next env bs (iter_at bw h (k + length vals) rest)"
      using True i by (subst amt_iter_next.simps) (simp add: iter_at_def key_limit)
    then show ?thesis using amt_yields_cong [OF _ assms] i by simp
  next
    case False
    then show ?thesis using i yields_over_Nil [OF _ assms] yields_over [of "k + length vals" env bs bw h] by simp
  qed
next
  case (Suc d)
  then have i: "i < length vals" and IH: "amt_yields env bs (iter_at bw h (k + Suc i) ((LeafNode vals, Suc i) # rest))
      (array_entries k (opt_nth vals) (Suc i) (length vals) @ r)"
    using Suc.hyps(1) [of "Suc i"] by auto
  consider "MAX_INDEX < k + i" | v where "k + i \<le> MAX_INDEX" "vals ! i = Some v" | "k + Suc i \<le> MAX_INDEX" "vals ! i = None"
    | "k + i = MAX_INDEX" "vals ! i = None" by (cases "vals ! i") fastforce+
  then show ?case
  proof cases
    case 1
    then have "r = []" using i by (intro yields_over_Nil [OF _ assms]) simp
    then show ?thesis using 1 yields_over [of "k + i" env bs bw h] by (simp add: array_entries_over)
  next
    case (2 v)
    then have "amt_iter_next env bs (iter_at bw h (k + i) ((LeafNode vals, i) # rest)) =
        Some (Some (Inr (k + i, v)), iter_at bw h (k + Suc i) ((LeafNode vals, Suc i) # rest))"
      using i by (subst amt_iter_next.simps) (simp add: iter_at_def key_limit leaf_next.simps [of vals i], simp add: MAX_INDEX_def u64_max_def min_def)
    then show ?thesis using amt_yields_item [OF _ IH] 2 i by (simp add: array_entries_Suc entry_at_def opt_nth_def)
  next
    case 3
    then have "amt_iter_next env bs (iter_at bw h (k + i) ((LeafNode vals, i) # rest)) =
        amt_iter_next env bs (iter_at bw h (k + Suc i) ((LeafNode vals, Suc i) # rest))"
      using i by (subst (1 2) amt_iter_next.simps, subst leaf_next.simps)
        (simp add: iter_at_def key_limit, simp add: iter_at_def MAX_INDEX_def u64_max_def min_def cong: option.case_cong)
    then show ?thesis using amt_yields_cong [OF _ IH] 3 i by (simp add: array_entries_Suc entry_at_def opt_nth_def)
  next
    case 4
    have "r = []" using i 4 by (intro yields_over_Nil [OF _ assms]) simp
    moreover have "amt_yields env bs (iter_at bw h (k + i) ((LeafNode vals, i) # rest)) []"
      using i 4 by (intro amt_yields_done, subst amt_iter_next.simps, subst leaf_next.simps, subst leaf_next.simps, subst amt_iter_next.simps)
        (simp add: iter_at_def MAX_INDEX_def u64_max_def)
    moreover have "array_entries k (opt_nth vals) (Suc i) (length vals) = []" using 4 by (intro array_entries_over) simp
    ultimately show ?thesis using 4 i by (simp add: array_entries_Suc entry_at_def opt_nth_def)
  qed
qed

text \<open>A block of entries of a node is the entries of the node below.\<close>

lemma block_entries:
  "array_entries (k + j * 2 ^ (bw * h)) (sub_map bw h j m) i (2 ^ (bw * h)) =
    array_entries k m (j * 2 ^ (bw * h) + i) (Suc j * 2 ^ (bw * h))"
  using array_entries_shift [of "2 ^ (bw * h)" "sub_map bw h j m" m "j * 2 ^ (bw * h)" k i]
  by (simp add: sub_map_def add.commute)

text \<open>Going on from slot \<open>j\<close> of a node whose slots yield their entries.\<close>

lemma yields_links:
  assumes "length links = 2 ^ bw" "length rest < h" "bw * (h - length rest) < 64"
    and "amt_yields env bs (iter_at bw h (k + 2 ^ bw * 2 ^ (bw * (h - length rest))) rest) r"
    and "\<And>j l r' k. j < 2 ^ bw \<Longrightarrow> links ! j = Some l \<Longrightarrow>
      amt_yields env bs (iter_at bw h (k + 2 ^ (bw * (h - length rest))) ((LinkNode links, Suc j) # rest)) r' \<Longrightarrow>
      \<exists>n. link_node env bs bw l = Inr n \<and> amt_yields env bs (iter_at bw h k ((n, 0) # (LinkNode links, Suc j) # rest))
        (array_entries k (sub_map bw (h - length rest) j m) 0 (2 ^ (bw * (h - length rest))) @ r')"
    and "\<And>j. j < 2 ^ bw \<Longrightarrow> links ! j = None \<Longrightarrow> sub_map bw (h - length rest) j m = Map.empty"
  shows "j \<le> 2 ^ bw \<Longrightarrow> amt_yields env bs (iter_at bw h (k + j * 2 ^ (bw * (h - length rest))) ((LinkNode links, j) # rest))
    (array_entries k m (j * 2 ^ (bw * (h - length rest))) (2 ^ bw * 2 ^ (bw * (h - length rest))) @ r)"
proof (induction "2 ^ bw - j" arbitrary: j)
  case 0
  then have "j = 2 ^ bw" by simp
  then show ?case using yields_pop_links [OF assms(4), of links] assms(1) by simp
next
  case (Suc d)
  let ?B = "2 ^ (bw * (h - length rest)) :: nat"
  have j: "j < 2 ^ bw" using Suc.hyps(2) by simp
  have IH: "amt_yields env bs (iter_at bw h (k + j * ?B + ?B) ((LinkNode links, Suc j) # rest)) (array_entries k m (Suc j * ?B) (2 ^ bw * ?B) @ r)"
    using Suc.hyps(1) [of "Suc j"] Suc.hyps(2) by (simp add: add.commute add.left_commute)
  have "Suc j * ?B \<le> 2 ^ bw * ?B" using j by (intro mult_le_mono1) simp
  then have split: "array_entries k m (j * ?B) (2 ^ bw * ?B) = array_entries k m (j * ?B) (Suc j * ?B) @ array_entries k m (Suc j * ?B) (2 ^ bw * ?B)"
    by (intro array_entries_split) simp_all
  show ?case
  proof (cases "links ! j")
    case None
    have "array_entries k m (j * ?B) (Suc j * ?B) = []"
      using block_entries [of k j bw "h - length rest" m 0] unfolding assms(6) [OF j None] by (simp add: array_entries_empty)
    then show ?thesis using yields_skip_link [of env bs bw h "k + j * ?B" rest links j] None j assms(1,2,3) IH split
      by (simp add: nodes_for_height_exact)
  next
    case (Some l)
    show ?thesis using assms(5) [OF j Some IH] yields_enter_link [OF _ _ Some] j assms(1) split
      by (auto simp: block_entries [where i = 0])
  qed
qed

lemma anode_links_yield:
  assumes "anode env bs bw (Suc d) (LinkNode links) m" "Suc d + length rest = h" "bw * h < 64" "j \<le> 2 ^ bw"
    and "amt_yields env bs (iter_at bw h (k + 2 ^ (bw * (Suc d + 1))) rest) r"
    and sub: "\<And>n m rest k r. anode env bs bw d n m \<Longrightarrow> d + length rest = h \<Longrightarrow>
      amt_yields env bs (iter_at bw h (k + 2 ^ (bw * (d + 1))) rest) r \<Longrightarrow>
      amt_yields env bs (iter_at bw h k ((n, 0) # rest)) (array_entries k m 0 (2 ^ (bw * (d + 1))) @ r)"
  shows "amt_yields env bs (iter_at bw h (k + j * 2 ^ (bw * Suc d)) ((LinkNode links, j) # rest))
    (array_entries k m (j * 2 ^ (bw * Suc d)) (2 ^ (bw * (Suc d + 1))) @ r)"
proof -
  have h: "h - length rest = Suc d" "length rest < h" using assms(2) by auto
  have "bw * Suc d \<le> bw * h" using assms(2) by (intro mult_le_mono2) simp
  then have B: "bw * Suc d < 64" using assms(3) by linarith
  have P: "2 ^ (bw * (Suc d + 1)) = (2 ^ bw * 2 ^ (bw * Suc d) :: nat)" by (simp add: power_add)
  have links: "length links = 2 ^ bw" "\<And>j. j < 2 ^ bw \<Longrightarrow> link_rep env bs bw d (links ! j) (sub_map bw (Suc d) j m)"
    using assms(1) by (auto simp: anode_Suc)
  have "amt_yields env bs (iter_at bw h (k + j * 2 ^ (bw * (h - length rest))) ((LinkNode links, j) # rest))
      (array_entries k m (j * 2 ^ (bw * (h - length rest))) (2 ^ bw * 2 ^ (bw * (h - length rest))) @ r)"
  proof (rule yields_links)
    show "length links = 2 ^ bw" by fact
    show "length rest < h" "bw * (h - length rest) < 64" using h B by simp_all
    show "amt_yields env bs (iter_at bw h (k + 2 ^ bw * 2 ^ (bw * (h - length rest))) rest) r" using assms(5) h P by simp
    fix j :: nat
    assume j: "j < 2 ^ bw"
    note rep = links(2) [OF j]
    show "sub_map bw (h - length rest) j m = Map.empty" if "links ! j = None" using rep that h by (simp add: link_rep_def)
    fix l r' k
    assume l: "links ! j = Some l" and y: "amt_yields env bs (iter_at bw h (k + 2 ^ (bw * (h - length rest))) ((LinkNode links, Suc j) # rest)) r'"
    obtain n' where n': "link_node env bs bw l = Inr n'" "anode env bs bw d n' (sub_map bw (Suc d) j m)"
      using rep l unfolding link_rep_def by blast
    have "amt_yields env bs (iter_at bw h k ((n', 0) # (LinkNode links, Suc j) # rest))
        (array_entries k (sub_map bw (Suc d) j m) 0 (2 ^ (bw * (d + 1))) @ r')"
      using assms(2) y h by (intro sub [OF n'(2)]) simp_all
    then show "\<exists>n. link_node env bs bw l = Inr n \<and> amt_yields env bs (iter_at bw h k ((n, 0) # (LinkNode links, Suc j) # rest))
        (array_entries k (sub_map bw (h - length rest) j m) 0 (2 ^ (bw * (h - length rest))) @ r')"
      using n'(1) h by simp
  qed (use assms(4) in simp)
  then show ?thesis using h P by simp
qed

lemma node_yields:
  "anode env bs bw d n m \<Longrightarrow> d + length rest = h \<Longrightarrow> bw * h < 64 \<Longrightarrow> amt_yields env bs (iter_at bw h (k + 2 ^ (bw * (d + 1))) rest) r \<Longrightarrow>
    amt_yields env bs (iter_at bw h k ((n, 0) # rest)) (array_entries k m 0 (2 ^ (bw * (d + 1))) @ r)"
proof (induction d arbitrary: n m rest k r)
  case 0
  then obtain vals where "n = LeafNode vals" "length vals = 2 ^ bw" "m = opt_nth vals" by auto
  then show ?case using 0 yields_leaf [of env bs bw h k vals rest r 0] by simp
next
  case (Suc d)
  from Suc.prems(1) obtain links where n: "n = LinkNode links" by (cases rule: anode_cases) auto
  show ?case
    using anode_links_yield [OF Suc.prems(1) [unfolded n] Suc.prems(2,3) _ Suc.prems(4), of 0] Suc.IH [OF _ _ Suc.prems(3)] n
    by simp
qed

subsection \<open>Starting at an index\<close>

text \<open>
  How far the start lies behind the beginning of the empty block it falls into: 0 when there is a leaf
  for it.
\<close>

fun start_gap :: "nat \<Rightarrow> nat \<Rightarrow> (nat \<Rightarrow> 'v option) \<Rightarrow> nat \<Rightarrow> nat" where
  "start_gap bw 0 m i = 0"
| "start_gap bw (Suc h) m i =
    (let B = 2 ^ (bw * Suc h); m' = sub_map bw (Suc h) (i div B) m
     in if m' = Map.empty then i mod B else start_gap bw h m' (i mod B))"

lemma start_gap_entry: "m i \<noteq> None \<Longrightarrow> start_gap bw h m i = 0"
proof (induction h arbitrary: m i)
  case (Suc h)
  let ?B = "2 ^ (bw * Suc h) :: nat"
  have "sub_map bw (Suc h) (i div ?B) m (i mod ?B) \<noteq> None" using Suc.prems sub_map_at [of bw "Suc h" i m] by simp
  then show ?case using Suc.IH [of "sub_map bw (Suc h) (i div ?B) m" "i mod ?B"] by (auto simp: Let_def fun_eq_iff simp del: power_Suc mult_Suc_right)
qed simp

lemma iter_start_yields:
  "anode env bs bw d n m \<Longrightarrow> d + length rest = h \<Longrightarrow> bw * h < 64 \<Longrightarrow> offset \<le> start_at \<Longrightarrow> start_at - offset < 2 ^ (bw * (d + 1)) \<Longrightarrow>
    \<exists>stack. amt_iter_start env bs bw h start_at offset n rest = Inr stack \<and>
      (\<forall>r. amt_yields env bs (iter_at bw h (offset + start_gap bw d m (start_at - offset) + 2 ^ (bw * (d + 1))) rest) r \<longrightarrow>
        amt_yields env bs (iter_at bw h start_at stack)
          (array_entries (offset + start_gap bw d m (start_at - offset)) m (start_at - offset) (2 ^ (bw * (d + 1))) @ r))"
proof (induction d arbitrary: n m rest offset)
  case 0
  then obtain vals where "n = LeafNode vals" "length vals = 2 ^ bw" "m = opt_nth vals" by auto
  then show ?case using 0 yields_leaf [of env bs bw h offset vals rest _ "start_at - offset"]
    by (subst amt_iter_start.simps) (auto simp: Let_def)
next
  case (Suc d)
  let ?B = "2 ^ (bw * Suc d) :: nat"
  let ?i = "start_at - offset"
  let ?j = "?i div ?B"
  let ?m = "sub_map bw (Suc d) ?j m"
  from Suc.prems(1) show ?case
  proof (cases rule: anode_cases)
    case (links d' links)
    have n: "anode env bs bw (Suc d) (LinkNode links) m" using Suc.prems(1) links(2) by simp
    have h: "h - length rest = Suc d" "\<not> h < length rest" using Suc.prems(2) by auto
    have "bw * Suc d \<le> bw * h" using Suc.prems(2) by (intro mult_le_mono2) simp
    then have B: "bw * Suc d < 64" using Suc.prems(3) by linarith
    have j: "?j < 2 ^ bw" using block_bound [of ?i bw "Suc d"] Suc.prems(5) by simp
    have rep: "link_rep env bs bw d (links ! ?j) ?m" using links j by simp
    have le: "Suc ?j * ?B \<le> 2 ^ (bw * (Suc d + 1))" using mult_le_mono1 [of "Suc ?j" "2 ^ bw" ?B] j by (simp add: power_add)
    have i: "?i = ?j * ?B + ?i mod ?B" by (rule div_mult_mod_eq [symmetric])
    have mod: "?i mod ?B < ?B" by simp
    have step: "amt_iter_start env bs bw h start_at offset (LinkNode links) rest =
      (case links ! ?j of None \<Rightarrow> Inr ((LinkNode links, ?j) # rest)
       | Some l \<Rightarrow> (case link_node env bs bw l of Inl e \<Rightarrow> Inl e
          | Inr sub \<Rightarrow> amt_iter_start env bs bw h start_at (offset + ?j * ?B) sub ((LinkNode links, Suc ?j) # rest)))"
      using h j links(3) B by (subst amt_iter_start.simps) (simp add: Let_def nodes_for_height_exact del: mult_Suc_right mult_Suc cong: option.case_cong sum.case_cong)
    have go: "amt_yields env bs (iter_at bw h (k + j * ?B) ((LinkNode links, j) # rest)) (array_entries k m (j * ?B) (2 ^ (bw * (Suc d + 1))) @ r)"
      if "j \<le> 2 ^ bw" "amt_yields env bs (iter_at bw h (k + 2 ^ (bw * (Suc d + 1))) rest) r" for j k r
      by (rule anode_links_yield [OF n Suc.prems(2,3) that]) (rule node_yields [OF _ _ Suc.prems(3)])
    show ?thesis
    proof (cases "links ! ?j")
      case None
      then have empty: "?m = Map.empty" using rep by (simp add: link_rep_def)
      let ?g = "?i mod ?B"
      have "m x = None" if "?j * ?B \<le> x" "x < ?i" for x
      proof -
        have "x - ?j * ?B < ?B" using that i mod by linarith
        then show ?thesis using that fun_cong [OF empty, of "x - ?j * ?B"] by (simp add: sub_map_def)
      qed
      then have skip: "array_entries k m (?j * ?B) ?i = []" for k by (intro array_entries_empty) simp
      have "array_entries (offset + ?g) m (?j * ?B) (2 ^ (bw * (Suc d + 1))) = array_entries (offset + ?g) m ?i (2 ^ (bw * (Suc d + 1)))"
        using array_entries_split [of "?j * ?B" ?i "2 ^ (bw * (Suc d + 1))" "offset + ?g" m] skip Suc.prems(5) by simp
      moreover have "offset + ?g + ?j * ?B = start_at" using i Suc.prems(4) by linarith
      moreover have "start_gap bw (Suc d) m ?i = ?g" using empty by (simp add: Let_def)
      ultimately show ?thesis using step None links(2) go [of ?j "offset + ?g"] j by simp
    next
      case (Some l)
      then have ne: "?m \<noteq> Map.empty" using rep by (simp add: link_rep_def)
      obtain n' where n': "link_node env bs bw l = Inr n'" "anode env bs bw d n' ?m" using rep Some unfolding link_rep_def by blast
      let ?g = "start_gap bw d ?m (?i mod ?B)" and ?P = "2 ^ (bw * (Suc d + 1)) :: nat"
      have off: "start_at - (offset + ?j * ?B) = ?i mod ?B" "offset + ?j * ?B \<le> start_at" using i Suc.prems(4) by linarith+
      obtain stack where stack: "amt_iter_start env bs bw h start_at (offset + ?j * ?B) n' ((LinkNode links, Suc ?j) # rest) = Inr stack"
          "\<And>r. amt_yields env bs (iter_at bw h (offset + ?j * ?B + ?g + ?B) ((LinkNode links, Suc ?j) # rest)) r \<Longrightarrow>
            amt_yields env bs (iter_at bw h start_at stack) (array_entries (offset + ?j * ?B + ?g) ?m (?i mod ?B) ?B @ r)"
        using Suc.IH [OF n'(2), of "(LinkNode links, Suc ?j) # rest" "offset + ?j * ?B"] Suc.prems(2,3) off mod by auto
      have gap: "start_gap bw (Suc d) m ?i = ?g" using ne by (simp add: Let_def)
      have entries: "array_entries (offset + ?g) m ?i ?P =
          array_entries (offset + ?j * ?B + ?g) ?m (?i mod ?B) ?B @ array_entries (offset + ?g) m (Suc ?j * ?B) ?P"
      proof -
        have "?i \<le> Suc ?j * ?B" using i mod unfolding mult_Suc by linarith
        moreover have "array_entries (offset + ?j * ?B + ?g) ?m (?i mod ?B) ?B = array_entries (offset + ?g) m ?i (Suc ?j * ?B)"
          using block_entries [of "offset + ?g" ?j bw "Suc d" m "?i mod ?B"] unfolding i [symmetric] by (simp only: ac_simps)
        ultimately show ?thesis using array_entries_split [OF _ le, of ?i "offset + ?g" m] by simp
      qed
      have "amt_yields env bs (iter_at bw h start_at stack) (array_entries (offset + ?g) m ?i ?P @ r)"
        if "amt_yields env bs (iter_at bw h (offset + ?g + ?P) rest) r" for r
      proof -
        have "amt_yields env bs (iter_at bw h (offset + ?g + Suc ?j * ?B) ((LinkNode links, Suc ?j) # rest))
            (array_entries (offset + ?g) m (Suc ?j * ?B) ?P @ r)" using go [OF _ that, of "Suc ?j"] j by simp
        moreover have "offset + ?g + Suc ?j * ?B = offset + ?j * ?B + ?g + ?B" by simp
        ultimately have "amt_yields env bs (iter_at bw h (offset + ?j * ?B + ?g + ?B) ((LinkNode links, Suc ?j) # rest))
            (array_entries (offset + ?g) m (Suc ?j * ?B) ?P @ r)" by (simp only:)
        then show ?thesis unfolding entries append_assoc by (rule stack(2))
      qed
      then show ?thesis using step Some links(2) n'(1) stack(1) gap by simp
    qed
  qed simp
qed


subsection \<open>What an AMT yields\<close>

lemma entry_at_cases: "entry_at k m i = [] \<or> (\<exists>v. m i = Some v \<and> entry_at k m i = [(k + i, v)])"
  by (auto simp: entry_at_def split: option.splits)

lemma array_entries_set: "set (array_entries k m a b) = {(k + i, v) | i v. a \<le> i \<and> i < b \<and> m i = Some v \<and> k + i \<le> MAX_INDEX}"
  by (auto simp: array_entries_def entry_at_def split: option.splits if_splits)

lemma array_entries_sorted: "sorted_wrt (<) (map fst (array_entries k m a b))"
proof (induction "b - a" arbitrary: a)
  case (Suc d)
  then show ?case using entry_at_cases [of k m a]
    by (auto simp: array_entries_Suc sorted_wrt_append array_entries_set)
qed (simp add: array_entries_def)

lemma array_entries_map_of:
  assumes "dom m \<subseteq> {..<b}" "dom m \<subseteq> {..MAX_INDEX}"
  shows "map_of (array_entries 0 m 0 b) = m"
proof
  fix i
  have d: "distinct (map fst (array_entries 0 m 0 b))" using array_entries_sorted [of 0 m 0 b] by (simp add: strict_sorted_iff)
  show "map_of (array_entries 0 m 0 b) i = m i"
  proof (cases "m i")
    case None
    then show ?thesis by (auto simp: map_of_eq_None_iff array_entries_set)
  next
    case (Some v)
    then have "(i, v) \<in> set (array_entries 0 m 0 b)" using assms by (auto simp: array_entries_set dom_def subset_eq)
    then show ?thesis using d Some by simp
  qed
qed

lemma array_entries_moved:
  assumes "dom m \<subseteq> {..MAX_INDEX}" "a \<le> b"
  shows "array_entries g m a b =
    map (\<lambda>(i, v). (i + g, v)) (filter (\<lambda>(i, v). a \<le> i \<and> i + g \<le> MAX_INDEX) (array_entries 0 m 0 b))"
proof -
  have part: "map (\<lambda>(i, v). (i + g, v)) (filter (\<lambda>(i, v). a \<le> i \<and> i + g \<le> MAX_INDEX) (array_entries 0 m c d)) =
      (if d \<le> a then [] else array_entries g m c d)" if "a \<le> c \<or> d \<le> a" for c d
    using that
  proof (induction "d - c" arbitrary: c)
    case (Suc e)
    have dom: "m c = Some v \<Longrightarrow> c \<le> MAX_INDEX" for v using assms(1) by (auto simp: dom_def)
    have c: "c < d" "a \<le> Suc c \<or> d \<le> a" using Suc.hyps(2) Suc.prems by auto
    have "map (\<lambda>(i, v). (i + g, v)) (filter (\<lambda>(i, v). a \<le> i \<and> i + g \<le> MAX_INDEX) (entry_at 0 m c)) =
        (if d \<le> a then [] else entry_at g m c)"
      using Suc.prems c(1) dom by (cases "m c") (auto simp: entry_at_def add.commute)
    then show ?case using Suc.hyps(1) [of "Suc c"] Suc.hyps(2) c by (auto simp: array_entries_Suc [OF c(1)])
  qed (simp add: array_entries_def)
  show ?thesis using array_entries_split [of 0 a b 0 m] assms(2) part [of 0 a] part [of a b] by (cases "a = b") simp_all
qed

definition amt_span :: "'v Amt \<Rightarrow> nat" where
  "amt_span t = 2 ^ (amt_bit_width (amt_root t) * (amt_height (amt_root t) + 1))"

definition amt_entries :: "'v Amt \<Rightarrow> (nat \<Rightarrow> 'v option) \<Rightarrow> (nat \<times> 'v) list" where
  "amt_entries t m = array_entries 0 m 0 (amt_span t)"

definition amt_gap :: "'v Amt \<Rightarrow> (nat \<Rightarrow> 'v option) \<Rightarrow> nat \<Rightarrow> nat" where
  "amt_gap t m i = (if i < amt_span t then start_gap (amt_bit_width (amt_root t)) (amt_height (amt_root t)) m i else 0)"

lemma amt_entries_ok:
  assumes "amt_rep env t m"
  shows "sorted_wrt (<) (map fst (amt_entries t m))" "map_of (amt_entries t m) = m"
proof -
  note rep = amt_repD [OF assms]
  show "sorted_wrt (<) (map fst (amt_entries t m))" unfolding amt_entries_def by (rule array_entries_sorted)
  show "map_of (amt_entries t m) = m" unfolding amt_entries_def
    by (rule array_entries_map_of) (use rep anode_dom [of env "amt_store t"] in \<open>simp_all add: amt_span_def, blast\<close>)
qed

lemma amt_iter_yields:
  assumes "amt_rep env t m"
  shows "amt_yields env (amt_store t) (amt_iter t) (amt_entries t m)"
proof -
  note rep = amt_repD [OF assms]
  let ?bw = "amt_bit_width (amt_root t)" and ?h = "amt_height (amt_root t)"
  have n: "anode env (amt_store t) ?bw ?h (amt_node (amt_root t)) m" "?bw * ?h < 64" using rep by simp_all
  have "amt_yields env (amt_store t) (iter_at ?bw ?h 0 [(amt_node (amt_root t), 0)]) (array_entries 0 m 0 (2 ^ (?bw * (?h + 1))) @ [])"
    by (rule node_yields [OF n(1) _ n(2) yields_nil]) simp
  moreover have "iter_at ?bw ?h 0 [(amt_node (amt_root t), 0)] = amt_iter t" by (simp add: iter_at_def amt_iter_def amt_iter_new_def)
  ultimately show ?thesis by (simp add: amt_entries_def amt_span_def)
qed

lemma nodes_for_height_le: "nodes_for_height bw h \<le> 2 ^ (bw * h)"
proof (cases "bw * h < 64")
  case False
  then have "(2 :: nat) ^ 64 \<le> 2 ^ (bw * h)" by (intro power_increasing) simp_all
  then show ?thesis using False by (simp add: nodes_for_height_def u64_max_def)
qed (simp add: nodes_for_height_exact)

lemma amt_iter_from_yields:
  assumes "amt_rep env t m" "i \<le> u64_max"
  shows "\<exists>it. amt_iter_from env i t = Inr it \<and> amt_yields env (amt_store t) it
    (map (\<lambda>(k, v). (k + amt_gap t m i, v)) (filter (\<lambda>(k, v). i \<le> k \<and> k + amt_gap t m i \<le> MAX_INDEX) (amt_entries t m)))"
proof -
  note rep = amt_repD [OF assms(1)]
  let ?bw = "amt_bit_width (amt_root t)" and ?h = "amt_height (amt_root t)" and ?n = "amt_node (amt_root t)" and ?bs = "amt_store t"
  have n: "anode env ?bs ?bw ?h ?n m" "?bw * ?h < 64" "dom m \<subseteq> {..MAX_INDEX}" using rep by simp_all
  have dom: "dom m \<subseteq> {..<amt_span t}" using anode_dom [OF n(1)] by (simp add: amt_span_def)
  consider "i = 0" | "0 < i" "nodes_for_height ?bw (?h + 1) \<le> i" | "0 < i" "i < nodes_for_height ?bw (?h + 1)" by linarith
  then show ?thesis
  proof cases
    case 1
    have "start_gap bw d m 0 = 0" for bw d and m :: "nat \<Rightarrow> 'a option" by (induction d arbitrary: m) (simp_all add: Let_def)
    then have gap: "amt_gap t m 0 = 0" by (simp add: amt_gap_def)
    have "filter (\<lambda>(k, v). 0 \<le> k \<and> k \<le> MAX_INDEX) (amt_entries t m) = amt_entries t m"
      by (rule filter_True) (auto simp: amt_entries_def array_entries_set)
    then show ?thesis using 1 amt_iter_yields [OF assms(1)] gap by (simp add: amt_iter_from_def case_prod_beta)
  next
    case 2
    have "\<not> i \<le> k" if "m k = Some v" for k v
    proof -
      have "k < amt_span t" "k \<le> MAX_INDEX" using that dom n(3) by (auto simp: dom_def)
      then show ?thesis using 2(2) by (auto simp: nodes_for_height_def amt_span_def Let_def MAX_INDEX_def u64_max_def split: if_splits)
    qed
    then have "filter (\<lambda>(k, v). i \<le> k \<and> k + amt_gap t m i \<le> MAX_INDEX) (amt_entries t m) = []"
      by (intro filter_False) (auto simp: amt_entries_def array_entries_set)
    moreover have "amt_yields env ?bs \<lparr>ai_stack = [], ai_height = ?h, ai_bit_width = ?bw, ai_key = i\<rparr> []"
      using yields_nil [of env ?bs ?bw ?h i] assms(2) by (simp add: iter_at_def)
    ultimately show ?thesis using 2 by (simp add: amt_iter_from_def Let_def)
  next
    case 3
    have i: "i < amt_span t" using 3(2) nodes_for_height_le [of ?bw "?h + 1"] unfolding amt_span_def by linarith
    obtain stack where stack: "amt_iter_start env ?bs ?bw ?h i 0 ?n [] = Inr stack"
        "\<And>r. amt_yields env ?bs (iter_at ?bw ?h (start_gap ?bw ?h m i + 2 ^ (?bw * (?h + 1))) []) r \<Longrightarrow>
          amt_yields env ?bs (iter_at ?bw ?h i stack) (array_entries (start_gap ?bw ?h m i) m i (2 ^ (?bw * (?h + 1))) @ r)"
      using iter_start_yields [OF n(1) _ n(2), of "[]" 0 i] i unfolding amt_span_def by auto
    have "amt_yields env ?bs (iter_at ?bw ?h i stack) (array_entries (amt_gap t m i) m i (amt_span t))"
      using stack(2) [OF yields_nil] i by (simp add: amt_gap_def amt_span_def)
    then show ?thesis using 3 stack(1) assms(2) i array_entries_moved [OF n(3), of i "amt_span t" "amt_gap t m i"]
      by (simp add: amt_iter_from_def iter_at_def Let_def amt_entries_def)
  qed
qed

subsection \<open>Traversals of a list of entries\<close>

text \<open>Calling the function on the items of a list, until it fails or asks to stop.\<close>

fun visit_entries :: "('v, unit, 's) amt_visitor \<Rightarrow> (nat \<times> 'v) list \<Rightarrow> 's \<Rightarrow> (AmtError + unit) \<times> 's" where
  "visit_entries f [] s = (Inr (), s)"
| "visit_entries f (kv # kvs) s =
    (case f (fst kv) (snd kv) s of (Inl e, s') \<Rightarrow> (Inl (AmtDynamic e), s') | (Inr _, s') \<Rightarrow> visit_entries f kvs s')"

fun visit_entries_while :: "('v, bool, 's) amt_visitor \<Rightarrow> (nat \<times> 'v) list \<Rightarrow> 's \<Rightarrow> (AmtError + nat) \<times> 's" where
  "visit_entries_while f [] s = (Inr 0, s)"
| "visit_entries_while f (kv # kvs) s =
    (case f (fst kv) (snd kv) s of
       (Inl e, s') \<Rightarrow> (Inl (AmtDynamic e), s')
     | (Inr go, s') \<Rightarrow> if go then (case visit_entries_while f kvs s' of (r, s'') \<Rightarrow> (map_sum id Suc r, s'')) else (Inr 1, s'))"

definition first_key :: "(nat \<times> 'v) list \<Rightarrow> nat option" where
  "first_key kvs = (case kvs of [] \<Rightarrow> None | kv # _ \<Rightarrow> Some (fst kv))"

text \<open>The result of a traversal with a limit: how many items it visited and the key of the next one.\<close>

definition ranged_entries :: "nat option \<Rightarrow> ('v, unit, 's) amt_visitor \<Rightarrow> (nat \<times> 'v) list \<Rightarrow> 's \<Rightarrow> (AmtError + nat \<times> nat option) \<times> 's" where
  "ranged_entries limit f kvs s =
    (case visit_entries f (limit_list limit kvs) s of
       (Inl e, s') \<Rightarrow> (Inl e, s')
     | (Inr _, s') \<Rightarrow> (Inr (length (limit_list limit kvs), first_key (after_limit limit kvs)), s'))"

definition ranged_entries_while :: "nat option \<Rightarrow> ('v, bool, 's) amt_visitor \<Rightarrow> (nat \<times> 'v) list \<Rightarrow> 's \<Rightarrow>
    (AmtError + nat \<times> nat option) \<times> 's" where
  "ranged_entries_while limit f kvs s =
    (case visit_entries_while f (limit_list limit kvs) s of
       (Inl e, s') \<Rightarrow> (Inl e, s')
     | (Inr n, s') \<Rightarrow> (Inr (n, first_key (drop n kvs)), s'))"

lemma visit_yields: "amt_yields env bs it kvs \<Longrightarrow> amt_visit env bs f it s = Some (visit_entries f kvs s)"
proof (induction arbitrary: s rule: amt_yields.induct)
  case (amt_yields_item it kv it' kvs)
  then show ?case by (subst amt_visit.simps) (auto split: prod.splits sum.splits)
qed (subst amt_visit.simps, simp)

lemma visit_while_yields:
  "amt_yields env bs it kvs \<Longrightarrow> amt_visit_while env bs f it s = Some (map_prod (map_sum id (\<lambda>_. ())) id (visit_entries_while f kvs s))"
proof (induction arbitrary: s rule: amt_yields.induct)
  case (amt_yields_item it kv it' kvs)
  obtain r s1 where f: "f (fst kv) (snd kv) s = (r, s1)" by fastforce
  obtain q s2 where v: "visit_entries_while f kvs s1 = (q, s2)" by fastforce
  show ?case using amt_yields_item.hyps(1) amt_yields_item.IH [of s1] f v
    by (subst amt_visit_while.simps) (cases r; cases q; simp)
qed (subst amt_visit_while.simps, simp)

text \<open>The limit as the number of items still allowed.\<close>

lemma limit_Cons:
  "limit_list limit (kv # kvs) = (if limit = Some 0 then [] else kv # limit_list (map_option (\<lambda>l. l - 1) limit) kvs)"
  "after_limit limit (kv # kvs) = (if limit = Some 0 then kv # kvs else after_limit (map_option (\<lambda>l. l - 1) limit) kvs)"
  by (cases limit; simp add: limit_list_def after_limit_def take_Cons' drop_Cons')+

lemma limit_Nil [simp]: "limit_list limit [] = []" "after_limit limit [] = []"
  by (cases limit; simp add: limit_list_def after_limit_def)+

lemma visit_ranged_yields:
  "amt_yields env bs it kvs \<Longrightarrow> amt_visit_ranged env bs f (map_option (\<lambda>l. l + n) limit) n it s =
    Some (map_prod (map_sum id (map_prod (\<lambda>c. c + n) id)) id (ranged_entries limit f kvs s))"
proof (induction arbitrary: limit n s rule: amt_yields.induct)
  case (amt_yields_item it kv it' kvs)
  show ?case
  proof (cases "limit = Some 0")
    case True
    then show ?thesis using amt_yields_item.hyps(1)
      by (subst amt_visit_ranged.simps) (simp add: ranged_entries_def first_key_def limit_Cons)
  next
    case False
    let ?l = "map_option (\<lambda>l. l - 1) limit"
    have l: "map_option (\<lambda>l. l + n) limit = map_option (\<lambda>l. l + (n + 1)) ?l" using False by (cases limit) auto
    have go: "\<not> (case map_option (\<lambda>l. l + n) limit of Some l \<Rightarrow> n \<ge> l | None \<Rightarrow> False)" using False by (cases limit) auto
    obtain r s1 where f: "f (fst kv) (snd kv) s = (r, s1)" by fastforce
    obtain q s2 where v: "visit_entries f (limit_list ?l kvs) s1 = (q, s2)" by fastforce
    show ?thesis using amt_yields_item.hyps(1) amt_yields_item.IH [where limit = ?l and n = "n + 1" and s = s1] f v False go l
      by (subst amt_visit_ranged.simps) (cases r; cases q; simp add: ranged_entries_def limit_Cons)
  qed
qed (subst amt_visit_ranged.simps, simp add: ranged_entries_def first_key_def)

lemma visit_while_ranged_yields:
  "amt_yields env bs it kvs \<Longrightarrow> amt_visit_while_ranged env bs f (map_option (\<lambda>l. l + n) limit) n True it s =
    Some (map_prod (map_sum id (map_prod (\<lambda>c. c + n) id)) id (ranged_entries_while limit f kvs s))"
proof (induction arbitrary: limit n s rule: amt_yields.induct)
  case (amt_yields_item it kv it' kvs)
  have stop: "amt_visit_while_ranged env bs f l n' False it' s' = Some (Inr (n', first_key kvs), s')" for l n' s'
    using amt_yields_item.hyps(2) by (cases rule: amt_yields.cases) (subst amt_visit_while_ranged.simps, simp add: first_key_def)+
  show ?case
  proof (cases "limit = Some 0")
    case True
    then show ?thesis using amt_yields_item.hyps(1)
      by (subst amt_visit_while_ranged.simps) (simp add: ranged_entries_while_def first_key_def limit_Cons)
  next
    case False
    let ?l = "map_option (\<lambda>l. l - 1) limit"
    have l: "map_option (\<lambda>l. l + n) limit = map_option (\<lambda>l. l + (n + 1)) ?l" using False by (cases limit) auto
    have go: "\<not> (case map_option (\<lambda>l. l + n) limit of Some l \<Rightarrow> n \<ge> l | None \<Rightarrow> False)" using False by (cases limit) auto
    obtain r s1 where f: "f (fst kv) (snd kv) s = (r, s1)" by fastforce
    obtain q s2 where v: "visit_entries_while f (limit_list ?l kvs) s1 = (q, s2)" by fastforce
    show ?thesis
    proof (cases "r = Inr False")
      case True
      then show ?thesis using amt_yields_item.hyps(1) f False go stop
        by (subst amt_visit_while_ranged.simps) (simp add: ranged_entries_while_def limit_Cons)
    next
      case r: False
      then show ?thesis using amt_yields_item.hyps(1) amt_yields_item.IH [where limit = ?l and n = "n + 1" and s = s1] f v False go l
        by (subst amt_visit_while_ranged.simps) (cases r; cases q; auto simp: ranged_entries_while_def limit_Cons)
    qed
  qed
qed (subst amt_visit_while_ranged.simps, simp add: ranged_entries_while_def first_key_def)


lemmas map_idents = map_prod.id sum.map_id0 option.map_id0 map_prod.id [unfolded id_def] sum.map_id0 [unfolded id_def] option.map_id0 [unfolded id_def]

lemma visit_ranged_all:
  assumes "amt_yields env bs it kvs"
  shows "amt_visit_ranged env bs f limit 0 it s = Some (ranged_entries limit f kvs s)"
  using visit_ranged_yields [OF assms, of f 0 limit s] by (simp add: id_def map_idents)

lemma visit_while_ranged_all:
  assumes "amt_yields env bs it kvs"
  shows "amt_visit_while_ranged env bs f limit 0 True it s = Some (ranged_entries_while limit f kvs s)"
  using visit_while_ranged_yields [OF assms, of f 0 limit s] by (simp add: id_def map_idents)

end
