(* ===== verification/AmtDiff.thy ===== *)
theory AmtDiff
  imports AmtIter
begin

text \<open>
  The difference of two AMTs: \<open>ipld/amt/src/diff.rs\<close>. The two arrays have their own stores; the values
  have one type here, and \<open>enc\<close> is the serialization by which two values are compared. Offsets are
  \<open>u64\<close>, with the wrap-around of the release build.
\<close>

datatype ChangeType = Add | Remove | Modify

record 'v Change =
  ch_key :: nat
  ch_before :: "'v option"
  ch_after :: "'v option"

definition change_type :: "'v Change \<Rightarrow> AmtError + ChangeType" where
  "change_type c =
    (case (ch_before c, ch_after c) of
       (Some _, Some _) \<Rightarrow> Inr Modify
     | (Some _, None) \<Rightarrow> Inr Remove
     | (None, Some _) \<Rightarrow> Inr Add
     | (None, None) \<Rightarrow> Inl AmtPanic)"

record NodeContext =
  nc_height :: nat
  nc_bit_width :: nat
  nc_store :: Blocks

definition nodes_at_height :: "NodeContext \<Rightarrow> nat" where
  "nodes_at_height ctx = nodes_for_height (nc_bit_width ctx) (nc_height ctx)"

definition context_of :: "'v Amt \<Rightarrow> NodeContext" where
  "context_of t = \<lparr>nc_height = amt_height (amt_root t), nc_bit_width = amt_bit_width (amt_root t), nc_store = amt_store t\<rparr>"

text \<open>The context one level down.\<close>

definition sub_context :: "NodeContext \<Rightarrow> NodeContext" where
  "sub_context ctx = ctx\<lparr>nc_height := nc_height ctx - 1\<rparr>"

text \<open>Results of code that may not end and may fail.\<close>

type_synonym 'a running = "(AmtError + 'a) option"

definition then_run :: "'a running \<Rightarrow> ('a \<Rightarrow> 'b running) \<Rightarrow> 'b running" where
  "then_run x f = (case x of None \<Rightarrow> None | Some (Inl e) \<Rightarrow> Some (Inl e) | Some (Inr v) \<Rightarrow> f v)"

partial_function (option) collect_items :: "'v amt_env \<Rightarrow> Blocks \<Rightarrow> 'v AmtIter \<Rightarrow> (nat \<times> 'v) list running" where
  "collect_items env bs it =
    Option.bind (amt_iter_next env bs it) (\<lambda>(item, it').
    case item of
      None \<Rightarrow> Some (Inr [])
    | Some (Inl e) \<Rightarrow> Some (Inl e)
    | Some (Inr kv) \<Rightarrow> Option.bind (collect_items env bs it') (\<lambda>r. Some (map_sum id (\<lambda>kvs. kv # kvs) r)))"

definition add_all :: "'v amt_env \<Rightarrow> NodeContext \<Rightarrow> 'v AmtNode \<Rightarrow> nat \<Rightarrow> 'v Change list running" where
  "add_all env ctx node offset =
    then_run (collect_items env (nc_store ctx) (amt_iter_new node (nc_height ctx) (nc_bit_width ctx) offset))
      (\<lambda>kvs. Some (Inr (map (\<lambda>(k, v). \<lparr>ch_key = k, ch_before = None, ch_after = Some v\<rparr>) kvs)))"

definition remove_all :: "'v amt_env \<Rightarrow> NodeContext \<Rightarrow> 'v AmtNode \<Rightarrow> nat \<Rightarrow> 'v Change list running" where
  "remove_all env ctx node offset =
    then_run (collect_items env (nc_store ctx) (amt_iter_new node (nc_height ctx) (nc_bit_width ctx) offset))
      (\<lambda>kvs. Some (Inr (map (\<lambda>(k, v). \<lparr>ch_key = k, ch_before = Some v, ch_after = None\<rparr>) kvs)))"

fun diff_values :: "('v \<Rightarrow> bytes option) \<Rightarrow> nat \<Rightarrow> nat \<Rightarrow> 'v option list \<Rightarrow> 'v option list \<Rightarrow> AmtError + 'v Change list" where
  "diff_values enc offset i (p # ps) (c # cs) =
    (let here =
       (case (p, c) of
          (None, None) \<Rightarrow> Inr []
        | (Some x, Some y) \<Rightarrow>
            (case (enc x, enc y) of
               (Some bx, Some by) \<Rightarrow>
                 if bx \<noteq> by then Inr [\<lparr>ch_key = (offset + i) mod 2 ^ 64, ch_before = Some x, ch_after = Some y\<rparr>] else Inr []
             | _ \<Rightarrow> Inl (AmtDynamic ''serialization''))
        | _ \<Rightarrow> Inr [\<lparr>ch_key = (offset + i) mod 2 ^ 64, ch_before = p, ch_after = c\<rparr>])
     in case here of
       Inl e \<Rightarrow> Inl e
     | Inr ch \<Rightarrow> (case diff_values enc offset (i + 1) ps cs of Inl e \<Rightarrow> Inl e | Inr chs \<Rightarrow> Inr (ch @ chs)))"
| "diff_values enc offset i _ _ = Inr []"

definition diff_leaves :: "('v \<Rightarrow> bytes option) \<Rightarrow> 'v AmtNode \<Rightarrow> 'v AmtNode \<Rightarrow> nat \<Rightarrow> AmtError + 'v Change list" where
  "diff_leaves enc prev_node curr_node offset =
    (case prev_node of
       LinkNode _ \<Rightarrow> Inl (AmtDynamic ''The previous node is expected to be a leaf node'')
     | LeafNode prev_vals \<Rightarrow>
         (case curr_node of
            LinkNode _ \<Rightarrow> Inl (AmtDynamic ''The current node is expected to be a leaf node'')
          | LeafNode curr_vals \<Rightarrow>
              if length prev_vals \<noteq> length curr_vals then Inl (AmtDynamic ''node leaves have different numbers of values'')
              else diff_values enc offset 0 prev_vals curr_vals))"

definition get_sub_node :: "'v amt_env \<Rightarrow> 'v AmtLink \<Rightarrow> NodeContext \<Rightarrow> AmtError + 'v AmtNode" where
  "get_sub_node env l ctx =
    (case l of
       DirtyNode n \<Rightarrow> Inr n
     | CidLink c (Some n) \<Rightarrow> Inr n
     | CidLink c None \<Rightarrow>
         (case cbor_get (am_node env) (nc_store ctx) c of
            Inl e \<Rightarrow> Inl (AmtDynamic e)
          | Inr None \<Rightarrow> Inl (AmtDynamic ''Failed to get collapsed node from block store'')
          | Inr (Some x) \<Rightarrow> node_expand (nc_bit_width ctx) x))"

text \<open>Two links to the same stored node.\<close>

definition same_cid :: "'v AmtLink \<Rightarrow> 'v AmtLink \<Rightarrow> bool" where
  "same_cid a b = (case (a, b) of (CidLink c _, CidLink c' _) \<Rightarrow> c = c' | _ \<Rightarrow> False)"

function (sequential) diff_node ::
    "'v amt_env \<Rightarrow> ('v \<Rightarrow> bytes option) \<Rightarrow> NodeContext \<Rightarrow> 'v AmtNode \<Rightarrow> NodeContext \<Rightarrow> 'v AmtNode \<Rightarrow> nat \<Rightarrow> 'v Change list running"
  and diff_grown ::
    "'v amt_env \<Rightarrow> ('v \<Rightarrow> bytes option) \<Rightarrow> NodeContext \<Rightarrow> 'v AmtNode \<Rightarrow> NodeContext \<Rightarrow> nat \<Rightarrow> nat \<Rightarrow> 'v AmtLink option list \<Rightarrow> 'v Change list running"
  and diff_shrunk ::
    "'v amt_env \<Rightarrow> ('v \<Rightarrow> bytes option) \<Rightarrow> NodeContext \<Rightarrow> NodeContext \<Rightarrow> 'v AmtNode \<Rightarrow> nat \<Rightarrow> nat \<Rightarrow> 'v AmtLink option list \<Rightarrow> 'v Change list running"
  and diff_links ::
    "'v amt_env \<Rightarrow> ('v \<Rightarrow> bytes option) \<Rightarrow> NodeContext \<Rightarrow> NodeContext \<Rightarrow> nat \<Rightarrow> nat \<Rightarrow> 'v AmtLink option list \<Rightarrow> 'v AmtLink option list \<Rightarrow>
      'v Change list running"
  and diff_link ::
    "'v amt_env \<Rightarrow> ('v \<Rightarrow> bytes option) \<Rightarrow> NodeContext \<Rightarrow> NodeContext \<Rightarrow> nat \<Rightarrow> 'v AmtLink option \<Rightarrow> 'v AmtLink option \<Rightarrow>
      'v Change list running" where
  "diff_node env enc prev_ctx prev_node curr_ctx curr_node offset =
    (if nc_height prev_ctx = 0 \<and> nc_height curr_ctx = 0 then Some (diff_leaves enc prev_node curr_node offset)
     else if nc_height curr_ctx > nc_height prev_ctx then
       (case curr_node of
          LinkNode links \<Rightarrow> diff_grown env enc prev_ctx prev_node curr_ctx offset 0 links
        | LeafNode _ \<Rightarrow> Some (Inl (AmtDynamic ''Node::Link expected'')))
     else if nc_height curr_ctx < nc_height prev_ctx then
       (case prev_node of
          LinkNode links \<Rightarrow> diff_shrunk env enc prev_ctx curr_ctx curr_node offset 0 links
        | LeafNode _ \<Rightarrow> Some (Inl (AmtDynamic ''Node::Link expected'')))
     else
       (case (prev_node, curr_node) of
          (LinkNode prev_links, LinkNode curr_links) \<Rightarrow>
            if length prev_links \<noteq> length curr_links then Some (Inl (AmtDynamic ''nodes have different numbers of links''))
            else diff_links env enc prev_ctx curr_ctx offset 0 prev_links curr_links
        | _ \<Rightarrow> Some (Inl (AmtDynamic ''Nodes has no links''))))"
| "diff_grown env enc prev_ctx prev_node curr_ctx offset i [] = Some (Inr [])"
| "diff_grown env enc prev_ctx prev_node curr_ctx offset i (None # links) =
    diff_grown env enc prev_ctx prev_node curr_ctx offset (i + 1) links"
| "diff_grown env enc prev_ctx prev_node curr_ctx offset i (Some l # links) =
    (if nc_height curr_ctx = 0 then Some (Inl AmtPanic)
     else case get_sub_node env l (sub_context curr_ctx) of
       Inl e \<Rightarrow> Some (Inl e)
     | Inr sub_node \<Rightarrow>
         let new_offset = (offset + nodes_at_height curr_ctx * i) mod 2 ^ 64
         in then_run
              (if i = 0 then diff_node env enc prev_ctx prev_node (sub_context curr_ctx) sub_node new_offset
               else add_all env (sub_context curr_ctx) sub_node new_offset)
              (\<lambda>chs. then_run (diff_grown env enc prev_ctx prev_node curr_ctx offset (i + 1) links) (\<lambda>rest. Some (Inr (chs @ rest)))))"
| "diff_shrunk env enc prev_ctx curr_ctx curr_node offset i [] = Some (Inr [])"
| "diff_shrunk env enc prev_ctx curr_ctx curr_node offset i (None # links) =
    diff_shrunk env enc prev_ctx curr_ctx curr_node offset (i + 1) links"
| "diff_shrunk env enc prev_ctx curr_ctx curr_node offset i (Some l # links) =
    (if nc_height prev_ctx = 0 then Some (Inl AmtPanic)
     else case get_sub_node env l (sub_context prev_ctx) of
       Inl e \<Rightarrow> Some (Inl e)
     | Inr sub_node \<Rightarrow>
         let new_offset = (offset + nodes_at_height prev_ctx * i) mod 2 ^ 64
         in then_run
              (if i = 0 then diff_node env enc (sub_context prev_ctx) sub_node curr_ctx curr_node new_offset
               else remove_all env (sub_context prev_ctx) sub_node new_offset)
              (\<lambda>chs. then_run (diff_shrunk env enc prev_ctx curr_ctx curr_node offset (i + 1) links) (\<lambda>rest. Some (Inr (chs @ rest)))))"
| "diff_links env enc prev_ctx curr_ctx offset i (p # ps) (c # cs) =
    then_run (diff_link env enc prev_ctx curr_ctx ((offset + nodes_at_height prev_ctx * i) mod 2 ^ 64) p c)
      (\<lambda>chs. then_run (diff_links env enc prev_ctx curr_ctx offset (i + 1) ps cs) (\<lambda>rest. Some (Inr (chs @ rest))))"
| "diff_links env enc prev_ctx curr_ctx offset i _ _ = Some (Inr [])"
| "diff_link env enc prev_ctx curr_ctx new_offset p c =
    (case (p, c) of
       (None, None) \<Rightarrow> Some (Inr [])
     | (Some l, None) \<Rightarrow>
         (case get_sub_node env l (sub_context prev_ctx) of
            Inl e \<Rightarrow> Some (Inl e)
          | Inr sub_node \<Rightarrow> remove_all env (sub_context prev_ctx) sub_node new_offset)
     | (None, Some l) \<Rightarrow>
         (case get_sub_node env l (sub_context curr_ctx) of
            Inl e \<Rightarrow> Some (Inl e)
          | Inr sub_node \<Rightarrow> add_all env (sub_context curr_ctx) sub_node new_offset)
     | (Some l, Some l') \<Rightarrow>
         (case get_sub_node env l (sub_context prev_ctx) of
            Inl e \<Rightarrow> Some (Inl e)
          | Inr prev_sub \<Rightarrow>
              (case get_sub_node env l' (sub_context curr_ctx) of
                 Inl e \<Rightarrow> Some (Inl e)
               | Inr curr_sub \<Rightarrow>
                   if same_cid l l' then Some (Inr [])
                   else if nc_height prev_ctx = 0 \<or> nc_height curr_ctx = 0 then Some (Inl AmtPanic)
                   else diff_node env enc (sub_context prev_ctx) prev_sub (sub_context curr_ctx) curr_sub new_offset)))"
  by pat_completeness auto
termination
  by (relation "inv_image (less_than <*lex*> less_than <*lex*> less_than) (\<lambda>x. case x of
        Inl (Inl (env, enc, p, pn, c, cn, offset)) \<Rightarrow> (nc_height p + nc_height c, 1 :: nat, 0 :: nat)
      | Inl (Inr (env, enc, p, pn, c, offset, i, ls)) \<Rightarrow> (nc_height p + nc_height c, 0, length ls)
      | Inr (Inl (env, enc, p, c, cn, offset, i, ls)) \<Rightarrow> (nc_height p + nc_height c, 0, length ls)
      | Inr (Inr (Inl (env, enc, p, c, offset, i, ps, cs))) \<Rightarrow> (nc_height p + nc_height c, 0, length ps)
      | Inr (Inr (Inr (env, enc, p, c, offset, l, l'))) \<Rightarrow> (nc_height p + nc_height c, 0, 0))")
     (auto simp: sub_context_def)

declare diff_node.simps [simp del] diff_link.simps [simp del]

definition amt_diff :: "'v amt_env \<Rightarrow> ('v \<Rightarrow> bytes option) \<Rightarrow> 'v Amt \<Rightarrow> 'v Amt \<Rightarrow> 'v Change list running" where
  "amt_diff env enc prev_amt curr_amt =
    (if amt_bit_width (amt_root prev_amt) \<noteq> amt_bit_width (amt_root curr_amt) then
       Some (Inl (AmtDynamic ''diffing AMTs with differing bitWidths not supported''))
     else if amt_count (amt_root prev_amt) = 0 \<and> amt_count (amt_root curr_amt) \<noteq> 0 then
       add_all env (context_of curr_amt) (amt_node (amt_root curr_amt)) 0
     else if amt_count (amt_root prev_amt) \<noteq> 0 \<and> amt_count (amt_root curr_amt) = 0 then
       remove_all env (context_of prev_amt) (amt_node (amt_root prev_amt)) 0
     else diff_node env enc (context_of prev_amt) (amt_node (amt_root prev_amt)) (context_of curr_amt) (amt_node (amt_root curr_amt)) 0)"


subsection \<open>The changes between two arrays\<close>

definition change_at :: "('v \<Rightarrow> bytes option) \<Rightarrow> nat \<Rightarrow> (nat \<Rightarrow> 'v option) \<Rightarrow> (nat \<Rightarrow> 'v option) \<Rightarrow> nat \<Rightarrow> 'v Change list" where
  "change_at enc k m1 m2 i =
    (if map_option enc (m1 i) = map_option enc (m2 i) then [] else [\<lparr>ch_key = k + i, ch_before = m1 i, ch_after = m2 i\<rparr>])"

definition changes :: "('v \<Rightarrow> bytes option) \<Rightarrow> nat \<Rightarrow> (nat \<Rightarrow> 'v option) \<Rightarrow> (nat \<Rightarrow> 'v option) \<Rightarrow> nat \<Rightarrow> nat \<Rightarrow> 'v Change list" where
  "changes enc k m1 m2 a b = concat (map (change_at enc k m1 m2) [a..<b])"

lemma changes_split: "a \<le> b \<Longrightarrow> b \<le> c \<Longrightarrow> changes enc k m1 m2 a c = changes enc k m1 m2 a b @ changes enc k m1 m2 b c"
  unfolding changes_def by (metis concat_append le_Suc_ex map_append upt_add_eq_append)

lemma changes_Suc: "a < b \<Longrightarrow> changes enc k m1 m2 a b = change_at enc k m1 m2 a @ changes enc k m1 m2 (Suc a) b"
  by (simp add: changes_def upt_conv_Cons)

lemma changes_same: "(\<And>i. a \<le> i \<Longrightarrow> i < b \<Longrightarrow> m1 i = m2 i) \<Longrightarrow> changes enc k m1 m2 a b = []"
  by (simp add: changes_def change_at_def)

lemma changes_cong:
  "(\<And>i. a \<le> i \<Longrightarrow> i < b \<Longrightarrow> m1 i = m1' i \<and> m2 i = m2' i) \<Longrightarrow> changes enc k m1 m2 a b = changes enc k m1' m2' a b"
  unfolding changes_def by (auto simp: change_at_def intro!: arg_cong [where f = concat])

lemma changes_shift:
  assumes "\<And>i. i < d \<Longrightarrow> m1' i = m1 (a + i)" "\<And>i. i < d \<Longrightarrow> m2' i = m2 (a + i)"
  shows "changes enc (k + a) m1' m2' 0 d = changes enc k m1 m2 a (a + d)"
proof -
  have "[a..<a + d] = map (\<lambda>i. a + i) [0..<d]" by (induction d) (auto simp: not_le)
  then show ?thesis using assms
    by (auto simp: changes_def change_at_def add.assoc intro!: arg_cong [where f = concat])
qed

lemma block_changes:
  "changes enc (k + j * 2 ^ (bw * h)) (sub_map bw h j m1) (sub_map bw h j m2) 0 (2 ^ (bw * h)) =
    changes enc k m1 m2 (j * 2 ^ (bw * h)) (Suc j * 2 ^ (bw * h))"
  using changes_shift [of "2 ^ (bw * h)" "sub_map bw h j m1" m1 "j * 2 ^ (bw * h)" "sub_map bw h j m2" m2 enc k]
  by (simp add: sub_map_def add.commute)

lemma changes_set:
  "set (changes enc k m1 m2 a b) = {\<lparr>ch_key = k + i, ch_before = m1 i, ch_after = m2 i\<rparr> | i.
    a \<le> i \<and> i < b \<and> map_option enc (m1 i) \<noteq> map_option enc (m2 i)}"
  by (auto simp: changes_def change_at_def split: if_splits)

lemma changes_sorted: "sorted_wrt (<) (map ch_key (changes enc k m1 m2 a b))"
proof (induction "b - a" arbitrary: a)
  case (Suc d)
  then show ?case by (auto simp: changes_Suc change_at_def sorted_wrt_append changes_set)
qed (simp add: changes_def)

text \<open>Indices of the entries of a block at an offset.\<close>

definition indexed :: "nat \<Rightarrow> (nat \<Rightarrow> 'v option) \<Rightarrow> bool" where
  "indexed k m \<longleftrightarrow> (\<forall>i \<in> dom m. k + i \<le> MAX_INDEX)"

lemma indexed_sub: "indexed k m \<Longrightarrow> indexed (k + j * 2 ^ (bw * h)) (sub_map bw h j m)"
  unfolding indexed_def by (auto simp: sub_map_def dom_def add.assoc split: if_splits)

lemma indexed_offset: "indexed k m \<Longrightarrow> m \<noteq> Map.empty \<Longrightarrow> k mod 2 ^ 64 = k"
  unfolding indexed_def MAX_INDEX_def u64_max_def by (auto simp: fun_eq_iff dom_def)

lemma entries_added:
  assumes "indexed k m"
  shows "map (\<lambda>(k, v). \<lparr>ch_key = k, ch_before = None, ch_after = Some v\<rparr>) (array_entries k m a b) = changes enc k Map.empty m a b"
proof -
  have "map (\<lambda>(k, v). \<lparr>ch_key = k, ch_before = None, ch_after = Some v\<rparr>) (entry_at k m i) = change_at enc k Map.empty m i" for i
    using assms by (auto simp: entry_at_def change_at_def indexed_def dom_def split: option.splits)
  then show ?thesis by (simp add: array_entries_def changes_def map_concat comp_def)
qed

lemma entries_removed:
  assumes "indexed k m"
  shows "map (\<lambda>(k, v). \<lparr>ch_key = k, ch_before = Some v, ch_after = None\<rparr>) (array_entries k m a b) = changes enc k m Map.empty a b"
proof -
  have "map (\<lambda>(k, v). \<lparr>ch_key = k, ch_before = Some v, ch_after = None\<rparr>) (entry_at k m i) = change_at enc k m Map.empty i" for i
    using assms by (auto simp: entry_at_def change_at_def indexed_def dom_def split: option.splits)
  then show ?thesis by (simp add: array_entries_def changes_def map_concat comp_def)
qed

subsection \<open>Whole nodes added or removed\<close>

lemma collect_yields: "amt_yields env bs it kvs \<Longrightarrow> collect_items env bs it = Some (Inr kvs)"
  by (induction rule: amt_yields.induct) (subst collect_items.simps, simp)+

lemma collect_node:
  assumes "anode env bs bw h n m" "bw * h < 64" "k mod 2 ^ 64 = k"
  shows "collect_items env bs (amt_iter_new n h bw k) = Some (Inr (array_entries k m 0 (2 ^ (bw * (h + 1)))))"
proof -
  have "k \<le> u64_max" using assms(3) mod_less_divisor [of "2 ^ 64" k] by (simp add: u64_max_def)
  then have "iter_at bw h k [(n, 0)] = amt_iter_new n h bw k" by (simp add: iter_at_def amt_iter_new_def)
  then show ?thesis using collect_yields [OF node_yields [OF assms(1) _ assms(2) yields_nil, where k = k]] by simp
qed

lemma then_run_simps [simp]: "then_run (Some (Inr v)) f = f v" "then_run (Some (Inl e)) f = Some (Inl e)"
  by (simp_all add: then_run_def)

lemma add_all_changes:
  assumes "anode env (nc_store ctx) (nc_bit_width ctx) (nc_height ctx) n m" "nc_bit_width ctx * nc_height ctx < 64"
    and "indexed k m" "k mod 2 ^ 64 = k"
  shows "add_all env ctx n k = Some (Inr (changes enc k Map.empty m 0 (2 ^ (nc_bit_width ctx * (nc_height ctx + 1)))))"
  unfolding add_all_def collect_node [OF assms(1,2,4)] by (simp add: entries_added [OF assms(3), of 0 _ enc])

lemma remove_all_changes:
  assumes "anode env (nc_store ctx) (nc_bit_width ctx) (nc_height ctx) n m" "nc_bit_width ctx * nc_height ctx < 64"
    and "indexed k m" "k mod 2 ^ 64 = k"
  shows "remove_all env ctx n k = Some (Inr (changes enc k m Map.empty 0 (2 ^ (nc_bit_width ctx * (nc_height ctx + 1)))))"
  unfolding remove_all_def collect_node [OF assms(1,2,4)] by (simp add: entries_removed [OF assms(3), of 0 _ enc])

lemma get_sub_node_ok: "link_node env (nc_store ctx) (nc_bit_width ctx) l = Inr n \<Longrightarrow> get_sub_node env l ctx = Inr n"
  by (auto simp: get_sub_node_def link_node_def amt_load_node_def split: AmtLink.splits option.splits sum.splits)

subsection \<open>Leaves\<close>

lemma diff_values_changes:
  assumes "\<And>v. enc v \<noteq> None" "length ps = length cs" "indexed k m1" "indexed k m2"
    and "m1 = opt_nth (qs @ ps)" "m2 = opt_nth (ds @ cs)" "length qs = i" "length ds = i"
  shows "diff_values enc k i ps cs = Inr (changes enc k m1 m2 i (i + length ps))"
  using assms(2,5-)
proof (induction ps cs arbitrary: i qs ds rule: list_induct2)
  case Nil
  then show ?case by (simp add: changes_def)
next
  case (Cons p ps c cs)
  have m: "m1 i = p" "m2 i = c" using Cons.prems by (simp_all add: opt_nth_def nth_append)
  have key: "(k + i) mod 2 ^ 64 = k + i" if "p \<noteq> None \<or> c \<noteq> None"
  proof -
    have "k + i \<le> MAX_INDEX" using that assms(3,4) m by (auto simp: indexed_def dom_def)
    then show ?thesis by (simp add: MAX_INDEX_def u64_max_def)
  qed
  obtain e where "\<And>v. enc v = Some (e v)" using that [of "\<lambda>v. the (enc v)"] assms(1) by simp
  then have "(case (p, c) of
          (None, None) \<Rightarrow> Inr []
        | (Some x, Some y) \<Rightarrow>
            (case (enc x, enc y) of
               (Some bx, Some by) \<Rightarrow>
                 if bx \<noteq> by then Inr [\<lparr>ch_key = (k + i) mod 2 ^ 64, ch_before = Some x, ch_after = Some y\<rparr>] else Inr []
             | _ \<Rightarrow> Inl (AmtDynamic ''serialization''))
        | _ \<Rightarrow> Inr [\<lparr>ch_key = (k + i) mod 2 ^ 64, ch_before = p, ch_after = c\<rparr>]) = Inr (change_at enc k m1 m2 i)"
    using key m by (cases p; cases c) (auto simp: change_at_def)
  moreover have "diff_values enc k (i + 1) ps cs = Inr (changes enc k m1 m2 (i + 1) (i + 1 + length ps))"
    by (rule Cons.IH [of "qs @ [p]" "ds @ [c]"]) (use Cons.prems in simp_all)
  ultimately show ?case using changes_Suc [of i "i + length (p # ps)" enc k m1 m2] by (simp add: Let_def)
qed


subsection \<open>Nodes\<close>

definition ctx_at :: "nat \<Rightarrow> Blocks \<Rightarrow> nat \<Rightarrow> NodeContext" where
  "ctx_at bw bs h = \<lparr>nc_height = h, nc_bit_width = bw, nc_store = bs\<rparr>"

lemma ctx_at_simps [simp]:
  "nc_height (ctx_at bw bs h) = h" "nc_bit_width (ctx_at bw bs h) = bw" "nc_store (ctx_at bw bs h) = bs"
  "sub_context (ctx_at bw bs (Suc h)) = ctx_at bw bs h"
  by (simp_all add: ctx_at_def sub_context_def)

lemma nodes_at_ctx: "bw * h < 64 \<Longrightarrow> nodes_at_height (ctx_at bw bs h) = 2 ^ (bw * h)"
  by (simp add: nodes_at_height_def nodes_for_height_exact)

lemma link_rep_sub:
  assumes "link_rep env bs bw d (Some l) m"
  obtains n where "get_sub_node env l (ctx_at bw bs d) = Inr n" "anode env bs bw d n m" "m \<noteq> Map.empty"
  using assms get_sub_node_ok [of env "ctx_at bw bs d" l] unfolding link_rep_def by auto

lemma links_of:
  assumes "anode env bs bw (Suc d) n m"
  obtains links where "n = LinkNode links" "length links = 2 ^ bw"
    "\<And>j. j < 2 ^ bw \<Longrightarrow> link_rep env bs bw d (links ! j) (sub_map bw (Suc d) j m)"
  using assms by (auto simp: anode_Suc)

lemma block_offset:
  assumes "indexed k m" "sub_map bw h j m \<noteq> Map.empty"
  shows "(k + 2 ^ (bw * h) * j) mod 2 ^ 64 = k + j * 2 ^ (bw * h)"
  using indexed_offset [OF indexed_sub [OF assms(1), of j bw h] assms(2)] by (simp add: mult.commute)

lemma height_less: "bw * Suc d < 64 \<Longrightarrow> bw * d < 64"
  by simp

text \<open>The blocks of a node that the other array does not reach.\<close>

lemma add_block:
  assumes "link_rep env bs bw d (Some l) (sub_map bw (Suc d) j m)" "indexed k m" "bw * Suc d < 64"
  obtains n where "get_sub_node env l (ctx_at bw bs d) = Inr n"
    "add_all env (ctx_at bw bs d) n ((k + 2 ^ (bw * Suc d) * j) mod 2 ^ 64) =
      Some (Inr (changes enc k Map.empty m (j * 2 ^ (bw * Suc d)) (Suc j * 2 ^ (bw * Suc d))))"
proof (rule link_rep_sub [OF assms(1)])
  let ?m = "sub_map bw (Suc d) j m"
  fix n
  assume n: "get_sub_node env l (ctx_at bw bs d) = Inr n" "anode env bs bw d n ?m" "?m \<noteq> Map.empty"
  note off = block_offset [OF assms(2) n(3)] and idx = indexed_sub [OF assms(2), of j bw "Suc d"]
  have "add_all env (ctx_at bw bs d) n (k + j * 2 ^ (bw * Suc d)) =
      Some (Inr (changes enc (k + j * 2 ^ (bw * Suc d)) Map.empty ?m 0 (2 ^ (bw * (d + 1)))))"
    using add_all_changes [of env "ctx_at bw bs d" n ?m "k + j * 2 ^ (bw * Suc d)" enc] n(2) assms(3) idx indexed_offset [OF idx n(3)]
      height_less [OF assms(3)] by simp
  then show thesis using that [OF n(1)] off block_changes [of enc k j bw "Suc d" Map.empty m] by simp
qed

lemma remove_block:
  assumes "link_rep env bs bw d (Some l) (sub_map bw (Suc d) j m)" "indexed k m" "bw * Suc d < 64"
  obtains n where "get_sub_node env l (ctx_at bw bs d) = Inr n"
    "remove_all env (ctx_at bw bs d) n ((k + 2 ^ (bw * Suc d) * j) mod 2 ^ 64) =
      Some (Inr (changes enc k m Map.empty (j * 2 ^ (bw * Suc d)) (Suc j * 2 ^ (bw * Suc d))))"
proof (rule link_rep_sub [OF assms(1)])
  let ?m = "sub_map bw (Suc d) j m"
  fix n
  assume n: "get_sub_node env l (ctx_at bw bs d) = Inr n" "anode env bs bw d n ?m" "?m \<noteq> Map.empty"
  note off = block_offset [OF assms(2) n(3)] and idx = indexed_sub [OF assms(2), of j bw "Suc d"]
  have "remove_all env (ctx_at bw bs d) n (k + j * 2 ^ (bw * Suc d)) =
      Some (Inr (changes enc (k + j * 2 ^ (bw * Suc d)) ?m Map.empty 0 (2 ^ (bw * (d + 1)))))"
    using remove_all_changes [of env "ctx_at bw bs d" n ?m "k + j * 2 ^ (bw * Suc d)" enc] n(2) assms(3) idx indexed_offset [OF idx n(3)]
      height_less [OF assms(3)] by simp
  then show thesis using that [OF n(1)] off block_changes [of enc k j bw "Suc d" m Map.empty] by simp
qed

lemma empty_block:
  assumes "sub_map bw h j m1 = Map.empty" "sub_map bw h j m2 = Map.empty"
  shows "changes enc k m1 m2 (j * 2 ^ (bw * h)) (Suc j * 2 ^ (bw * h)) = []"
  using block_changes [of enc k j bw h m1 m2] assms by (simp add: changes_same)

lemma next_block:
  "j < N \<Longrightarrow> changes enc k m1 m2 (j * B) (N * B) = changes enc k m1 m2 (j * B) (Suc j * B) @ changes enc k m1 m2 (Suc j * B) (N * B)"
  by (rule changes_split) (simp, rule mult_le_mono1, simp)

lemma grown_rest:
  assumes "bw * Suc d < 64" "indexed k m" "length links = 2 ^ bw"
    and rep: "\<And>j. j < 2 ^ bw \<Longrightarrow> link_rep env bs bw d (links ! j) (sub_map bw (Suc d) j m)"
  shows "0 < j \<Longrightarrow> j \<le> 2 ^ bw \<Longrightarrow> diff_grown env enc c1 n1 (ctx_at bw bs (Suc d)) k j (drop j links) =
    Some (Inr (changes enc k Map.empty m (j * 2 ^ (bw * Suc d)) (2 ^ bw * 2 ^ (bw * Suc d))))"
proof (induction "2 ^ bw - j" arbitrary: j)
  case 0
  then show ?case using assms(3) by (simp add: changes_def)
next
  case (Suc e)
  have j: "j < 2 ^ bw" using Suc.hyps(2) by simp
  have IH: "diff_grown env enc c1 n1 (ctx_at bw bs (Suc d)) k (j + 1) (drop (Suc j) links) =
      Some (Inr (changes enc k Map.empty m (Suc j * 2 ^ (bw * Suc d)) (2 ^ bw * 2 ^ (bw * Suc d))))"
    using Suc.hyps(1) [of "Suc j"] Suc.hyps(2) Suc.prems by simp
  have drop: "drop j links = links ! j # drop (Suc j) links" using j assms(3) by (simp add: Cons_nth_drop_Suc)
  note blk = next_block [OF j, of enc k Map.empty m "2 ^ (bw * Suc d)"]
  show ?case
  proof (cases "links ! j")
    case None
    then have "sub_map bw (Suc d) j m = Map.empty" using rep [OF j] by (simp add: link_rep_def)
    then show ?thesis using None IH drop blk empty_block [of bw "Suc d" j Map.empty m enc k] by simp
  next
    case (Some l)
    obtain n where "get_sub_node env l (ctx_at bw bs d) = Inr n" "add_all env (ctx_at bw bs d) n ((k + 2 ^ (bw * Suc d) * j) mod 2 ^ 64) =
        Some (Inr (changes enc k Map.empty m (j * 2 ^ (bw * Suc d)) (Suc j * 2 ^ (bw * Suc d))))"
      by (rule add_block [OF rep [OF j, unfolded Some] assms(2,1), of enc])
    then show ?thesis using Some IH drop blk Suc.prems(1) nodes_at_ctx [OF assms(1), of bs] by (simp add: Let_def del: mult_Suc mult_Suc_right)
  qed
qed
lemma shrunk_rest:
  assumes "bw * Suc d < 64" "indexed k m" "length links = 2 ^ bw"
    and rep: "\<And>j. j < 2 ^ bw \<Longrightarrow> link_rep env bs bw d (links ! j) (sub_map bw (Suc d) j m)"
  shows "0 < j \<Longrightarrow> j \<le> 2 ^ bw \<Longrightarrow> diff_shrunk env enc (ctx_at bw bs (Suc d)) c2 n2 k j (drop j links) =
    Some (Inr (changes enc k m Map.empty (j * 2 ^ (bw * Suc d)) (2 ^ bw * 2 ^ (bw * Suc d))))"
proof (induction "2 ^ bw - j" arbitrary: j)
  case 0
  then show ?case using assms(3) by (simp add: changes_def)
next
  case (Suc e)
  have j: "j < 2 ^ bw" using Suc.hyps(2) by simp
  have IH: "diff_shrunk env enc (ctx_at bw bs (Suc d)) c2 n2 k (j + 1) (drop (Suc j) links) =
      Some (Inr (changes enc k m Map.empty (Suc j * 2 ^ (bw * Suc d)) (2 ^ bw * 2 ^ (bw * Suc d))))"
    using Suc.hyps(1) [of "Suc j"] Suc.hyps(2) Suc.prems by simp
  have drop: "drop j links = links ! j # drop (Suc j) links" using j assms(3) by (simp add: Cons_nth_drop_Suc)
  note blk = next_block [OF j, of enc k m Map.empty "2 ^ (bw * Suc d)"]
  show ?case
  proof (cases "links ! j")
    case None
    then have "sub_map bw (Suc d) j m = Map.empty" using rep [OF j] by (simp add: link_rep_def)
    then show ?thesis using None IH drop blk empty_block [of bw "Suc d" j m Map.empty enc k] by simp
  next
    case (Some l)
    obtain n where "get_sub_node env l (ctx_at bw bs d) = Inr n" "remove_all env (ctx_at bw bs d) n ((k + 2 ^ (bw * Suc d) * j) mod 2 ^ 64) =
        Some (Inr (changes enc k m Map.empty (j * 2 ^ (bw * Suc d)) (Suc j * 2 ^ (bw * Suc d))))"
      by (rule remove_block [OF rep [OF j, unfolded Some] assms(2,1), of enc])
    then show ?thesis using Some IH drop blk Suc.prems(1) nodes_at_ctx [OF assms(1), of bs] by (simp add: Let_def del: mult_Suc mult_Suc_right)
  qed
qed

text \<open>Two nodes of the same height.\<close>

lemma links_rest:
  assumes "length ps = 2 ^ bw" "length cs = 2 ^ bw" "nodes_at_height c1 = 2 ^ (bw * h)"
    and "\<And>j. j < 2 ^ bw \<Longrightarrow> diff_link env enc c1 c2 ((k + 2 ^ (bw * h) * j) mod 2 ^ 64) (ps ! j) (cs ! j) =
      Some (Inr (changes enc k m1 m2 (j * 2 ^ (bw * h)) (Suc j * 2 ^ (bw * h))))"
  shows "j \<le> 2 ^ bw \<Longrightarrow> diff_links env enc c1 c2 k j (drop j ps) (drop j cs) =
    Some (Inr (changes enc k m1 m2 (j * 2 ^ (bw * h)) (2 ^ bw * 2 ^ (bw * h))))"
proof (induction "2 ^ bw - j" arbitrary: j)
  case 0
  then show ?case using assms(1,2) by (simp add: changes_def)
next
  case (Suc e)
  have j: "j < 2 ^ bw" using Suc.hyps(2) by simp
  have IH: "diff_links env enc c1 c2 k (j + 1) (drop (Suc j) ps) (drop (Suc j) cs) =
      Some (Inr (changes enc k m1 m2 (Suc j * 2 ^ (bw * h)) (2 ^ bw * 2 ^ (bw * h))))"
    using Suc.hyps(1) [of "Suc j"] Suc.hyps(2) Suc.prems by simp
  have drop: "drop j ps = ps ! j # drop (Suc j) ps" "drop j cs = cs ! j # drop (Suc j) cs" using j assms(1,2) by (simp_all add: Cons_nth_drop_Suc)
  show ?case using IH drop next_block [OF j, of enc k m1 m2 "2 ^ (bw * h)"] assms(3) assms(4) [OF j]
    by (simp del: mult_Suc mult_Suc_right)
qed

lemma same_cid_same:
  assumes "amt_codec_ok env" "link_rep env bs1 bw d (Some l1) m1" "link_rep env bs2 bw d (Some l2) m2" "same_cid l1 l2"
  shows "m1 = m2"
proof -
  obtain c a b where l: "l1 = CidLink c a" "l2 = CidLink c b" using assms(4) by (auto simp: same_cid_def split: AmtLink.splits)
  have "astored env bs1 bw d c m1" "astored env bs2 bw d c m2" using assms(2,3) l by (auto simp: link_rep_def)
  then obtain x y where "c = obj_cid (am_node env) x" "aser env bs1 bw d x m1" "c = obj_cid (am_node env) y" "aser env bs2 bw d y m2"
    unfolding astored.simps by blast
  moreover have "codec_ok (am_node env)" using assms(1) by (simp add: amt_codec_ok_def)
  ultimately show ?thesis using aser_inject [OF assms(1)] obj_cid_inject by metis
qed

lemma diff_link_changes:
  assumes "amt_codec_ok env" "link_rep env bs1 bw d p (sub_map bw (Suc d) j m1)" "link_rep env bs2 bw d c (sub_map bw (Suc d) j m2)"
    and "indexed k m1" "indexed k m2" "bw * Suc d < 64"
    and sub: "\<And>n1 n2 m1 m2 k. anode env bs1 bw d n1 m1 \<Longrightarrow> anode env bs2 bw d n2 m2 \<Longrightarrow> indexed k m1 \<Longrightarrow> indexed k m2 \<Longrightarrow> k mod 2 ^ 64 = k \<Longrightarrow>
      diff_node env enc (ctx_at bw bs1 d) n1 (ctx_at bw bs2 d) n2 k = Some (Inr (changes enc k m1 m2 0 (2 ^ (bw * (d + 1)))))"
  shows "diff_link env enc (ctx_at bw bs1 (Suc d)) (ctx_at bw bs2 (Suc d)) ((k + 2 ^ (bw * Suc d) * j) mod 2 ^ 64) p c =
    Some (Inr (changes enc k m1 m2 (j * 2 ^ (bw * Suc d)) (Suc j * 2 ^ (bw * Suc d))))"
proof -
  let ?m1 = "sub_map bw (Suc d) j m1" and ?m2 = "sub_map bw (Suc d) j m2" and ?B = "2 ^ (bw * Suc d) :: nat"
  have cut: "changes enc k m1 m2 (j * ?B) (Suc j * ?B) = changes enc k (if ?m1 = Map.empty then Map.empty else m1) (if ?m2 = Map.empty then Map.empty else m2) (j * ?B) (Suc j * ?B)"
    unfolding block_changes [symmetric] by (cases "?m1 = Map.empty"; cases "?m2 = Map.empty") simp_all
  consider "p = None" "c = None" | l where "p = Some l" "c = None" | l where "p = None" "c = Some l" | l l' where "p = Some l" "c = Some l'"
    by (cases p; cases c) auto
  then show ?thesis
  proof cases
    case 1
    then show ?thesis using assms(2,3) empty_block [of bw "Suc d" j m1 m2 enc k] by (simp add: link_rep_def diff_link.simps)
  next
    case (2 l)
    have "?m2 = Map.empty" "?m1 \<noteq> Map.empty" using assms(2,3) 2 by (auto simp: link_rep_def)
    moreover obtain n where "get_sub_node env l (ctx_at bw bs1 d) = Inr n"
        "remove_all env (ctx_at bw bs1 d) n ((k + ?B * j) mod 2 ^ 64) = Some (Inr (changes enc k m1 Map.empty (j * ?B) (Suc j * ?B)))"
      by (rule remove_block [OF assms(2) [unfolded 2(1)] assms(4,6), of enc])
    ultimately show ?thesis using cut 2 by (simp add: diff_link.simps del: mult_Suc mult_Suc_right)
  next
    case (3 l)
    have "?m1 = Map.empty" "?m2 \<noteq> Map.empty" using assms(2,3) 3 by (auto simp: link_rep_def)
    moreover obtain n where "get_sub_node env l (ctx_at bw bs2 d) = Inr n"
        "add_all env (ctx_at bw bs2 d) n ((k + ?B * j) mod 2 ^ 64) = Some (Inr (changes enc k Map.empty m2 (j * ?B) (Suc j * ?B)))"
      by (rule add_block [OF assms(3) [unfolded 3(2)] assms(5,6), of enc])
    ultimately show ?thesis using cut 3 by (simp add: diff_link.simps del: mult_Suc mult_Suc_right)
  next
    case (4 l l')
    obtain n1 where n1: "get_sub_node env l (ctx_at bw bs1 d) = Inr n1" "anode env bs1 bw d n1 ?m1" "?m1 \<noteq> Map.empty"
      by (rule link_rep_sub [OF assms(2) [unfolded 4(1)]])
    obtain n2 where n2: "get_sub_node env l' (ctx_at bw bs2 d) = Inr n2" "anode env bs2 bw d n2 ?m2" "?m2 \<noteq> Map.empty"
      by (rule link_rep_sub [OF assms(3) [unfolded 4(2)]])
    note idx1 = indexed_sub [OF assms(4), of j bw "Suc d"] and idx2 = indexed_sub [OF assms(5), of j bw "Suc d"]
    show ?thesis
    proof (cases "same_cid l l'")
      case True
      then have "?m1 = ?m2" using same_cid_same [OF assms(1) assms(2) [unfolded 4(1)] assms(3) [unfolded 4(2)]] by blast
      then have "changes enc k m1 m2 (j * ?B) (Suc j * ?B) = []" unfolding block_changes [symmetric] by (simp add: changes_same)
      then show ?thesis using True 4 n1(1) n2(1) by (simp add: diff_link.simps)
    next
      case False
      then show ?thesis
        using 4 n1(1) n2(1) block_offset [OF assms(4) n1(3)] sub [OF n1(2) n2(2) idx1 idx2 indexed_offset [OF idx1 n1(3)]]
          block_changes [of enc k j bw "Suc d" m1 m2]
        by (simp add: diff_link.simps)
    qed
  qed
qed


text \<open>
  When one array is higher than the other, its first link is followed until the heights agree. If that
  link is missing on the way, the lower array is not looked at: what of it is seen.
\<close>

definition seen :: "nat \<Rightarrow> nat \<Rightarrow> nat \<Rightarrow> (nat \<Rightarrow> 'v option) \<Rightarrow> (nat \<Rightarrow> 'v option) \<Rightarrow> (nat \<Rightarrow> 'v option)" where
  "seen bw h h' m m' = (if h < h' \<and> dom m' \<inter> {..<2 ^ (bw * (h + 1))} = {} then Map.empty else m)"

lemma seen_higher: "h' \<le> h \<Longrightarrow> seen bw h h' m m' = m"
  by (simp add: seen_def)

lemma seen_step:
  assumes "h \<le> d"
  shows "seen bw h (Suc d) m m' = (if sub_map bw (Suc d) 0 m' = Map.empty then Map.empty else seen bw h d m (sub_map bw (Suc d) 0 m'))"
proof -
  have "bw * (h + 1) \<le> bw * Suc d" using assms by (intro mult_le_mono2) simp
  then have le: "(2 :: nat) ^ (bw * (h + 1)) \<le> 2 ^ (bw * Suc d)" by (intro power_increasing) simp_all
  have dom: "dom (sub_map bw (Suc d) 0 m') = dom m' \<inter> {..<2 ^ (bw * Suc d)}" by (auto simp: sub_map_def split: if_splits)
  have sub: "dom (sub_map bw (Suc d) 0 m') \<inter> {..<2 ^ (bw * (h + 1))} = dom m' \<inter> {..<2 ^ (bw * (h + 1))}"
    unfolding dom using less_le_trans [OF _ le] by fastforce
  show ?thesis
  proof (cases "sub_map bw (Suc d) 0 m' = Map.empty")
    case True
    then have "dom m' \<inter> {..<2 ^ (bw * (h + 1))} = {}" using sub by simp
    then show ?thesis using True assms by (simp add: seen_def)
  next
    case False
    then have ne: "dom m' \<inter> {..<2 ^ (bw * Suc d)} \<noteq> {}" using dom by (metis dom_eq_empty_conv)
    have "seen bw h (Suc d) m m' = seen bw h d m (sub_map bw (Suc d) 0 m')"
    proof (cases "h = d")
      case True
      then show ?thesis using ne by (simp add: seen_def)
    next
      case False
      then show ?thesis using assms sub by (simp add: seen_def)
    qed
    then show ?thesis using False by simp
  qed
qed

lemma seen_dom: "dom m \<subseteq> D \<Longrightarrow> dom (seen bw h h' m m') \<subseteq> D"
  by (simp add: seen_def)

lemma anode_dom_le:
  assumes "anode env bs bw h n m" "h \<le> d"
  shows "dom m \<subseteq> {..<2 ^ (bw * Suc d)}"
proof -
  have "bw * (h + 1) \<le> bw * Suc d" using assms(2) by (intro mult_le_mono2) simp
  then have "(2 :: nat) ^ (bw * (h + 1)) \<le> 2 ^ (bw * Suc d)" by (intro power_increasing) simp_all
  then show ?thesis using anode_dom [OF assms(1)] by (meson lessThan_subset_iff subset_trans)
qed

text \<open>Past the first block there is nothing of the lower array.\<close>

lemma changes_low:
  assumes "dom m1 \<subseteq> {..<B}" "B \<le> N"
  shows "changes enc k m1 m2 0 N = changes enc k m1 m2 0 B @ changes enc k Map.empty m2 B N"
    "changes enc k m2 m1 0 N = changes enc k m2 m1 0 B @ changes enc k m2 Map.empty B N"
proof -
  have "m1 i = None" if "B \<le> i" for i using that assms(1) by (meson domIff in_mono lessThan_iff not_le)
  then have "changes enc k m1 m2 B N = changes enc k Map.empty m2 B N" "changes enc k m2 m1 B N = changes enc k m2 Map.empty B N"
    by (auto intro!: changes_cong)
  then show "changes enc k m1 m2 0 N = changes enc k m1 m2 0 B @ changes enc k Map.empty m2 B N"
    "changes enc k m2 m1 0 N = changes enc k m2 m1 0 B @ changes enc k m2 Map.empty B N"
    using changes_split [of 0 B N enc k] assms(2) by simp_all
qed

lemma changes_first: "changes enc k m1 (sub_map bw h 0 m2) 0 (2 ^ (bw * h)) = changes enc k m1 m2 0 (2 ^ (bw * h))"
  "changes enc k (sub_map bw h 0 m1) m2 0 (2 ^ (bw * h)) = changes enc k m1 m2 0 (2 ^ (bw * h))"
  by (rule changes_cong, simp add: sub_map_def)+

lemma span_Suc: "(2 :: nat) ^ (bw * (Suc d + 1)) = 2 ^ bw * 2 ^ (bw * Suc d)"
  by (simp add: power_add)

lemma diff_node_grown:
  assumes "anode env bs1 bw h n1 m1" "anode env bs2 bw (Suc d) n2 m2" "h \<le> d" "bw * Suc d < 64"
    and "indexed k m1" "indexed k m2" "k mod 2 ^ 64 = k"
    and sub: "\<And>n m. anode env bs2 bw d n m \<Longrightarrow> indexed k m \<Longrightarrow>
      diff_node env enc (ctx_at bw bs1 h) n1 (ctx_at bw bs2 d) n k = Some (Inr (changes enc k (seen bw h d m1 m) m 0 (2 ^ (bw * Suc d))))"
  shows "diff_node env enc (ctx_at bw bs1 h) n1 (ctx_at bw bs2 (Suc d)) n2 k =
    Some (Inr (changes enc k (seen bw h (Suc d) m1 m2) m2 0 (2 ^ (bw * (Suc d + 1)))))"
proof -
  let ?B = "2 ^ (bw * Suc d) :: nat" and ?s = "seen bw h (Suc d) m1 m2" and ?m = "sub_map bw (Suc d) 0 m2"
  obtain links where links: "n2 = LinkNode links" "length links = 2 ^ bw"
      "\<And>j. j < 2 ^ bw \<Longrightarrow> link_rep env bs2 bw d (links ! j) (sub_map bw (Suc d) j m2)" by (rule links_of [OF assms(2)]) blast
  have rest: "diff_grown env enc (ctx_at bw bs1 h) n1 (ctx_at bw bs2 (Suc d)) k 1 (tl links) =
      Some (Inr (changes enc k Map.empty m2 ?B (2 ^ bw * ?B)))"
    using grown_rest [OF assms(4,6) links(2,3), of 1 enc "ctx_at bw bs1 h" n1] by (simp add: drop_Suc)
  obtain lo ls where ls: "links = lo # ls" using links(2) by (cases links) auto
  have first: "link_rep env bs2 bw d lo ?m" using links(3) [of 0] ls by simp
  have "1 * ?B \<le> 2 ^ bw * ?B" by (rule mult_le_mono1) simp
  then have all: "changes enc k ?s m2 0 (2 ^ bw * ?B) = changes enc k ?s m2 0 ?B @ changes enc k Map.empty m2 ?B (2 ^ bw * ?B)"
    by (intro changes_low(1) [OF seen_dom [OF anode_dom_le [OF assms(1,3)]]]) simp
  have node: "diff_node env enc (ctx_at bw bs1 h) n1 (ctx_at bw bs2 (Suc d)) n2 k =
      diff_grown env enc (ctx_at bw bs1 h) n1 (ctx_at bw bs2 (Suc d)) k 0 (lo # ls)"
    using assms(3) links(1) ls by (subst diff_node.simps) simp
  show ?thesis
  proof (cases lo)
    case None
    then have "?m = Map.empty" using first by (simp add: link_rep_def)
    then have "changes enc k ?s m2 0 ?B = []" using seen_step [OF assms(3), of bw m1 m2] changes_first(1) [of enc k Map.empty bw "Suc d" m2]
      by (simp add: changes_same)
    then show ?thesis using node rest all ls None span_Suc [of bw d] by simp
  next
    case (Some l)
    obtain n where n: "get_sub_node env l (ctx_at bw bs2 d) = Inr n" "anode env bs2 bw d n ?m" "?m \<noteq> Map.empty"
      by (rule link_rep_sub [OF first [unfolded Some]])
    have idx: "indexed k ?m" using indexed_sub [OF assms(6), of 0 bw "Suc d"] by simp
    have "diff_node env enc (ctx_at bw bs1 h) n1 (ctx_at bw bs2 d) n k = Some (Inr (changes enc k ?s m2 0 ?B))"
      using sub [OF n(2) idx] seen_step [OF assms(3), of bw m1 m2] n(3) changes_first(1) [where h = "Suc d"] by (simp del: mult_Suc_right)
    then show ?thesis using node rest all ls Some n(1) assms(7) span_Suc [of bw d] by (simp add: Let_def)
  qed
qed

lemma diff_node_shrunk:
  assumes "anode env bs1 bw (Suc d) n1 m1" "anode env bs2 bw h n2 m2" "h \<le> d" "bw * Suc d < 64"
    and "indexed k m1" "indexed k m2" "k mod 2 ^ 64 = k"
    and sub: "\<And>n m. anode env bs1 bw d n m \<Longrightarrow> indexed k m \<Longrightarrow>
      diff_node env enc (ctx_at bw bs1 d) n (ctx_at bw bs2 h) n2 k = Some (Inr (changes enc k m (seen bw h d m2 m) 0 (2 ^ (bw * Suc d))))"
  shows "diff_node env enc (ctx_at bw bs1 (Suc d)) n1 (ctx_at bw bs2 h) n2 k =
    Some (Inr (changes enc k m1 (seen bw h (Suc d) m2 m1) 0 (2 ^ (bw * (Suc d + 1)))))"
proof -
  let ?B = "2 ^ (bw * Suc d) :: nat" and ?s = "seen bw h (Suc d) m2 m1" and ?m = "sub_map bw (Suc d) 0 m1"
  obtain links where links: "n1 = LinkNode links" "length links = 2 ^ bw"
      "\<And>j. j < 2 ^ bw \<Longrightarrow> link_rep env bs1 bw d (links ! j) (sub_map bw (Suc d) j m1)" by (rule links_of [OF assms(1)]) blast
  have rest: "diff_shrunk env enc (ctx_at bw bs1 (Suc d)) (ctx_at bw bs2 h) n2 k 1 (tl links) =
      Some (Inr (changes enc k m1 Map.empty ?B (2 ^ bw * ?B)))"
    using shrunk_rest [OF assms(4,5) links(2,3), of 1 enc "ctx_at bw bs2 h" n2] by (simp add: drop_Suc)
  obtain lo ls where ls: "links = lo # ls" using links(2) by (cases links) auto
  have first: "link_rep env bs1 bw d lo ?m" using links(3) [of 0] ls by simp
  have "1 * ?B \<le> 2 ^ bw * ?B" by (rule mult_le_mono1) simp
  then have all: "changes enc k m1 ?s 0 (2 ^ bw * ?B) = changes enc k m1 ?s 0 ?B @ changes enc k m1 Map.empty ?B (2 ^ bw * ?B)"
    by (intro changes_low(2) [OF seen_dom [OF anode_dom_le [OF assms(2,3)]]]) simp
  have node: "diff_node env enc (ctx_at bw bs1 (Suc d)) n1 (ctx_at bw bs2 h) n2 k =
      diff_shrunk env enc (ctx_at bw bs1 (Suc d)) (ctx_at bw bs2 h) n2 k 0 (lo # ls)"
    using assms(3) links(1) ls by (subst diff_node.simps) simp
  show ?thesis
  proof (cases lo)
    case None
    then have "?m = Map.empty" using first by (simp add: link_rep_def)
    then have "changes enc k m1 ?s 0 ?B = []" using seen_step [OF assms(3), of bw m2 m1] changes_first(2) [of enc k bw "Suc d" m1 Map.empty]
      by (simp add: changes_same)
    then show ?thesis using node rest all ls None span_Suc [of bw d] by simp
  next
    case (Some l)
    obtain n where n: "get_sub_node env l (ctx_at bw bs1 d) = Inr n" "anode env bs1 bw d n ?m" "?m \<noteq> Map.empty"
      by (rule link_rep_sub [OF first [unfolded Some]])
    have idx: "indexed k ?m" using indexed_sub [OF assms(5), of 0 bw "Suc d"] by simp
    have "diff_node env enc (ctx_at bw bs1 d) n (ctx_at bw bs2 h) n2 k = Some (Inr (changes enc k m1 ?s 0 ?B))"
      using sub [OF n(2) idx] seen_step [OF assms(3), of bw m2 m1] n(3) changes_first(2) [where h = "Suc d"] by (simp del: mult_Suc_right)
    then show ?thesis using node rest all ls Some n(1) assms(7) span_Suc [of bw d] by (simp add: Let_def)
  qed
qed

lemma diff_node_changes:
  assumes "amt_codec_ok env" "\<And>v. enc v \<noteq> None"
  shows "anode env bs1 bw h1 n1 m1 \<Longrightarrow> anode env bs2 bw h2 n2 m2 \<Longrightarrow> bw * h1 < 64 \<Longrightarrow> bw * h2 < 64 \<Longrightarrow>
    indexed k m1 \<Longrightarrow> indexed k m2 \<Longrightarrow> k mod 2 ^ 64 = k \<Longrightarrow>
    diff_node env enc (ctx_at bw bs1 h1) n1 (ctx_at bw bs2 h2) n2 k =
      Some (Inr (changes enc k (seen bw h1 h2 m1 m2) (seen bw h2 h1 m2 m1) 0 (2 ^ (bw * (max h1 h2 + 1)))))"
proof (induction "h1 + h2" arbitrary: h1 h2 n1 n2 m1 m2 k rule: less_induct)
  case less
  consider "h1 = 0 \<and> h2 = 0" | "h1 < h2" | "h2 < h1" | "h1 = h2 \<and> h1 \<noteq> 0" by linarith
  then show ?case
  proof cases
    case 1
    then obtain v1 v2 where v: "n1 = LeafNode v1" "length v1 = 2 ^ bw" "m1 = opt_nth v1" "n2 = LeafNode v2" "length v2 = 2 ^ bw" "m2 = opt_nth v2"
      using less.prems(1,2) by auto
    have "diff_values enc k 0 v1 v2 = Inr (changes enc k m1 m2 0 (0 + length v1))"
      by (rule diff_values_changes [OF assms(2), of v1 v2 k m1 m2 "[]" "[]"]) (use v less.prems in simp_all)
    then show ?thesis using 1 v by (subst diff_node.simps) (simp add: diff_leaves_def seen_higher)
  next
    case less_height: 2
    then obtain d where 2: "h2 = Suc d" "h1 \<le> d" by (cases h2) auto
    have "diff_node env enc (ctx_at bw bs1 h1) n1 (ctx_at bw bs2 d) n k = Some (Inr (changes enc k (seen bw h1 d m1 m) m 0 (2 ^ (bw * Suc d))))"
      if "anode env bs2 bw d n m" "indexed k m" for n m
      using less.hyps [OF _ less.prems(1) that(1) less.prems(3)] 2 less.prems that(2) by (simp add: seen_higher max_def)
    then show ?thesis using diff_node_grown [OF less.prems(1) less.prems(2) [unfolded 2(1)] 2(2) less.prems(4) [unfolded 2(1)] less.prems(5-7), of enc] 2
      by (simp add: seen_higher max_def)
  next
    case greater_height: 3
    then obtain d where 3: "h1 = Suc d" "h2 \<le> d" by (cases h1) auto
    have "diff_node env enc (ctx_at bw bs1 d) n (ctx_at bw bs2 h2) n2 k = Some (Inr (changes enc k m (seen bw h2 d m2 m) 0 (2 ^ (bw * Suc d))))"
      if "anode env bs1 bw d n m" "indexed k m" for n m
      using less.hyps [OF _ that(1) less.prems(2) _ less.prems(4)] 3 less.prems that(2) by (simp add: seen_higher max_def)
    then show ?thesis using diff_node_shrunk [OF less.prems(1) [unfolded 3(1)] less.prems(2) 3(2) less.prems(3) [unfolded 3(1)] less.prems(5-7), of enc] 3
      by (simp add: seen_higher max_def)
  next
    case same_height: 4
    then obtain d where 4: "h1 = Suc d" "h2 = Suc d" by (cases h1) auto
    obtain l1 where l1: "n1 = LinkNode l1" "length l1 = 2 ^ bw"
        "\<And>j. j < 2 ^ bw \<Longrightarrow> link_rep env bs1 bw d (l1 ! j) (sub_map bw (Suc d) j m1)" by (rule links_of [OF less.prems(1) [unfolded 4(1)]]) blast
    obtain l2 where l2: "n2 = LinkNode l2" "length l2 = 2 ^ bw"
        "\<And>j. j < 2 ^ bw \<Longrightarrow> link_rep env bs2 bw d (l2 ! j) (sub_map bw (Suc d) j m2)" by (rule links_of [OF less.prems(2) [unfolded 4(2)]]) blast
    note B = less.prems(3) [unfolded 4(1)]
    have sub: "diff_node env enc (ctx_at bw bs1 d) n1 (ctx_at bw bs2 d) n2 k = Some (Inr (changes enc k m1 m2 0 (2 ^ (bw * (d + 1)))))"
      if "anode env bs1 bw d n1 m1" "anode env bs2 bw d n2 m2" "indexed k m1" "indexed k m2" "k mod 2 ^ 64 = k" for n1 n2 m1 m2 k
      using less.hyps [OF _ that(1,2) _ _ that(3-5)] 4 height_less [OF B] by (simp add: seen_higher)
    have "diff_links env enc (ctx_at bw bs1 (Suc d)) (ctx_at bw bs2 (Suc d)) k 0 (drop 0 l1) (drop 0 l2) =
        Some (Inr (changes enc k m1 m2 (0 * 2 ^ (bw * Suc d)) (2 ^ bw * 2 ^ (bw * Suc d))))"
      by (rule links_rest [OF l1(2) l2(2) nodes_at_ctx [OF B]])
        (rule diff_link_changes [OF assms(1) l1(3) l2(3) less.prems(5,6) B sub], simp_all)
    then show ?thesis using 4 l1(1,2) l2(1,2) span_Suc [of bw d] by (subst diff_node.simps) (simp add: seen_higher)
  qed
qed


subsection \<open>Whole arrays\<close>

lemma context_at: "context_of t = ctx_at (amt_bit_width (amt_root t)) (amt_store t) (amt_height (amt_root t))"
  by (simp add: context_of_def ctx_at_def)

lemma amt_count_zero: "amt_rep env t m \<Longrightarrow> amt_count (amt_root t) = 0 \<longleftrightarrow> m = Map.empty"
  using finite_index [of m] amt_repD [of env t m] by simp

lemma changes_extend:
  assumes "dom m1 \<subseteq> {..<a}" "dom m2 \<subseteq> {..<a}" "a \<le> b"
  shows "changes enc k m1 m2 0 a = changes enc k m1 m2 0 b"
proof -
  have "changes enc k m1 m2 a b = []"
    by (rule changes_same) (use assms(1,2) in \<open>metis domIff in_mono lessThan_iff not_le\<close>)
  then show ?thesis using changes_split [of 0 a b enc k m1 m2] assms(3) by simp
qed

lemma amt_span_less:
  assumes "amt_bit_width (amt_root t1) = amt_bit_width (amt_root t2)" "0 < amt_bit_width (amt_root t1)"
  shows "amt_span t1 < amt_span t2 \<longleftrightarrow> amt_height (amt_root t1) < amt_height (amt_root t2)"
  using assms by (simp add: amt_span_def power_strict_increasing_iff)

lemma amt_diff_seen:
  assumes "amt_codec_ok env" "\<forall>v. enc v \<noteq> None" "amt_rep env t1 m1" "amt_rep env t2 m2"
    and "amt_bit_width (amt_root t1) = amt_bit_width (amt_root t2)"
  defines "lost \<equiv> \<lambda>t t' m m'. amt_span t < amt_span t' \<and> m' \<noteq> Map.empty \<and> dom m' \<inter> {..<amt_span t} = {}"
  shows "amt_diff env enc t1 t2 = Some (Inr (changes enc 0 (if lost t1 t2 m1 m2 then Map.empty else m1)
    (if lost t2 t1 m2 m1 then Map.empty else m2) 0 (max (amt_span t1) (amt_span t2))))"
proof -
  let ?bw = "amt_bit_width (amt_root t1)" and ?h1 = "amt_height (amt_root t1)" and ?h2 = "amt_height (amt_root t2)"
  note r1 = amt_repD [OF assms(3)] and r2 = amt_repD [OF assms(4)]
  have n1: "anode env (amt_store t1) ?bw ?h1 (amt_node (amt_root t1)) m1" "?bw * ?h1 < 64" "indexed 0 m1" "0 < ?bw" "dom m1 \<subseteq> {..<amt_span t1}"
    using r1 anode_dom [of env "amt_store t1" ?bw ?h1 "amt_node (amt_root t1)" m1] by (auto simp: indexed_def width_ok_def amt_span_def)
  have n2: "anode env (amt_store t2) ?bw ?h2 (amt_node (amt_root t2)) m2" "?bw * ?h2 < 64" "indexed 0 m2" "dom m2 \<subseteq> {..<amt_span t2}"
    using r2 assms(5) anode_dom [of env "amt_store t2" ?bw ?h2 "amt_node (amt_root t2)" m2] by (auto simp: indexed_def amt_span_def)
  note count = amt_count_zero [OF assms(3)] amt_count_zero [OF assms(4)]
  have span: "amt_span t1 = 2 ^ (?bw * (?h1 + 1))" "amt_span t2 = 2 ^ (?bw * (?h2 + 1))" using assms(5) by (simp_all add: amt_span_def)
  have less: "amt_span t1 < amt_span t2 \<longleftrightarrow> ?h1 < ?h2" "amt_span t2 < amt_span t1 \<longleftrightarrow> ?h2 < ?h1"
    using amt_span_less [OF assms(5)] amt_span_less [OF assms(5) [symmetric]] n1(4) assms(5) by simp_all
  consider "m1 = Map.empty" "m2 \<noteq> Map.empty" | "m1 \<noteq> Map.empty" "m2 = Map.empty" | "m1 = Map.empty \<longleftrightarrow> m2 = Map.empty" by blast
  then show ?thesis
  proof cases
    case 1
    have "add_all env (context_of t2) (amt_node (amt_root t2)) 0 = Some (Inr (changes enc 0 Map.empty m2 0 (amt_span t2)))"
      using add_all_changes [of env "context_of t2" "amt_node (amt_root t2)" m2 0 enc] n2 assms(5) span by (simp add: context_at)
    moreover have "changes enc 0 Map.empty m2 0 (amt_span t2) = changes enc 0 Map.empty m2 0 (max (amt_span t1) (amt_span t2))"
      by (rule changes_extend) (use n2 in simp_all)
    moreover have "amt_diff env enc t1 t2 = add_all env (context_of t2) (amt_node (amt_root t2)) 0" using 1 count assms(5) by (simp add: amt_diff_def)
    moreover have "(if lost t1 t2 m1 m2 then Map.empty else m1) = Map.empty" "\<not> lost t2 t1 m2 m1" using 1 by (simp_all add: lost_def)
    ultimately show ?thesis by (simp only: if_False)
  next
    case 2
    have "remove_all env (context_of t1) (amt_node (amt_root t1)) 0 = Some (Inr (changes enc 0 m1 Map.empty 0 (amt_span t1)))"
      using remove_all_changes [of env "context_of t1" "amt_node (amt_root t1)" m1 0 enc] n1 span by (simp add: context_at)
    moreover have "changes enc 0 m1 Map.empty 0 (amt_span t1) = changes enc 0 m1 Map.empty 0 (max (amt_span t1) (amt_span t2))"
      by (rule changes_extend) (use n1 in simp_all)
    moreover have "amt_diff env enc t1 t2 = remove_all env (context_of t1) (amt_node (amt_root t1)) 0" using 2 count assms(5) by (simp add: amt_diff_def)
    moreover have "(if lost t2 t1 m2 m1 then Map.empty else m2) = Map.empty" "\<not> lost t1 t2 m1 m2" using 2 by (simp_all add: lost_def)
    ultimately show ?thesis by (simp only: if_False)
  next
    case 3
    have max: "max (amt_span t1) (amt_span t2) = 2 ^ (?bw * (max ?h1 ?h2 + 1))" using less span by (auto simp: max_def not_le not_less)
    have "diff_node env enc (context_of t1) (amt_node (amt_root t1)) (context_of t2) (amt_node (amt_root t2)) 0 =
        Some (Inr (changes enc 0 (seen ?bw ?h1 ?h2 m1 m2) (seen ?bw ?h2 ?h1 m2 m1) 0 (max (amt_span t1) (amt_span t2))))"
      using diff_node_changes [OF assms(1) _ n1(1) n2(1) n1(2) n2(2) n1(3) n2(3), of enc] assms(2,5) max by (simp add: context_at)
    moreover have "seen ?bw ?h1 ?h2 m1 m2 = (if lost t1 t2 m1 m2 then Map.empty else m1)" "seen ?bw ?h2 ?h1 m2 m1 = (if lost t2 t1 m2 m1 then Map.empty else m2)"
      using 3 less span by (auto simp: seen_def lost_def)
    ultimately show ?thesis using 3 count assms(5) by (simp add: amt_diff_def)
  qed
qed

end
