(* ===== verification/AmtTheorems.thy ===== *)
theory AmtTheorems
  imports AmtDiff "HOL-Library.Countable"
begin

text \<open>
  The theorems about the AMT as its users see it (\<open>ipld/amt/src/amt.rs\<close>), each with an instance.
\<close>

subsection \<open>A concrete AMT\<close>

definition cid_parts :: "Cid \<Rightarrow> u64 \<times> u64 \<times> u64 \<times> bytes" where
  "cid_parts c = (cid_version c, cid_codec c, mh_code c, mh_digest c)"

definition collapsed_number :: "nat CollapsedNode \<Rightarrow> nat" where
  "collapsed_number x = (case x of CollapsedNode bmap cs vs \<Rightarrow> to_nat (bmap, map cid_parts cs, vs))"

definition root_number :: "nat root_ser \<Rightarrow> nat" where
  "root_number x = (case x of (bw, h, c, n) \<Rightarrow> to_nat (bw, h, c, collapsed_number n))"

definition amt_example_env :: "nat amt_env" where
  "amt_example_env = \<lparr>am_node = numbering_codec collapsed_number, am_root = numbering_codec root_number, am_version = V3\<rparr>"

lemma cid_parts_inj: "inj cid_parts"
  by (rule injI) (simp add: cid_parts_def)

lemma collapsed_number_inj: "inj collapsed_number"
  by (rule injI) (auto simp: collapsed_number_def inj_map_eq_map [OF cid_parts_inj] split: CollapsedNode.splits)

lemma root_number_inj: "inj root_number"
  by (rule injI) (auto simp: root_number_def inj_eq [OF collapsed_number_inj])

lemma amt_example_ok: "amt_codec_ok amt_example_env" "width_ok amt_example_env 3"
  by (simp_all add: amt_codec_ok_def amt_example_env_def numbering_codec_ok collapsed_number_inj root_number_inj width_ok_def,
      simp add: numbering_codec_def)

subsection \<open>Operations\<close>

lemma batch_set_rep:
  "amt_rep env t m \<Longrightarrow> i + length vs \<le> MAX_INDEX + 1 \<Longrightarrow>
    \<exists>t'. amt_batch_set_from env i vs t = Some (Inr (), t') \<and>
      amt_rep env t' (\<lambda>j. if i \<le> j \<and> j < i + length vs then Some (vs ! (j - i)) else m j)"
proof (induction vs arbitrary: i t m)
  case Nil
  have "(\<lambda>j. if i \<le> j \<and> j < i + length [] then Some ([] ! (j - i)) else m j) = m" by (auto simp: fun_eq_iff)
  then show ?case using Nil.prems(1) by simp
next
  case (Cons v vs)
  obtain t1 where t1: "amt_set env i v t = Some (Inr (), t1)" "amt_rep env t1 (m(i \<mapsto> v))"
    using amt_set_rep [OF Cons.prems(1), of i v] Cons.prems(2) by auto
  obtain t2 where t2: "amt_batch_set_from env (i + 1) vs t1 = Some (Inr (), t2)"
      "amt_rep env t2 (\<lambda>j. if i + 1 \<le> j \<and> j < i + 1 + length vs then Some (vs ! (j - (i + 1))) else (m(i \<mapsto> v)) j)"
    using Cons.IH [OF t1(2), of "i + 1"] Cons.prems(2) by auto
  have "(\<lambda>j. if i + 1 \<le> j \<and> j < i + 1 + length vs then Some (vs ! (j - (i + 1))) else (m(i \<mapsto> v)) j) =
      (\<lambda>j. if i \<le> j \<and> j < i + length (v # vs) then Some ((v # vs) ! (j - i)) else m j)"
    by (auto simp: fun_eq_iff nth_Cons')
  then show ?case using t1(1) t2 by simp
qed

lemma delete_all_rep:
  "amt_rep env t m \<Longrightarrow> set is \<subseteq> {..MAX_INDEX} \<Longrightarrow>
    \<exists>t'. amt_delete_all env False b is t = (Inr (b \<or> (\<exists>i \<in> set is. m i \<noteq> None)), t') \<and> amt_rep env t' (m |` (- set is))"
proof (induction "is" arbitrary: t m b)
  case Nil
  then show ?case by simp
next
  case (Cons i "is")
  obtain t1 where t1: "amt_delete env i t = (Inr (m i), t1)" "amt_rep env t1 (m(i := None))"
    using amt_delete_rep [OF Cons.prems(1), of i] Cons.prems(2) by auto
  obtain t2 where t2: "amt_delete_all env False (b \<or> m i \<noteq> None) is t1 =
        (Inr ((b \<or> m i \<noteq> None) \<or> (\<exists>k \<in> set is. (m(i := None)) k \<noteq> None)), t2)" "amt_rep env t2 ((m(i := None)) |` (- set is))"
    using Cons.IH [OF t1(2), of "b \<or> m i \<noteq> None"] Cons.prems(2) unfolding list.set insert_subset by blast
  have "(m(i := None)) |` (- set is) = m |` (- set (i # is))" by (auto simp: restrict_map_def fun_eq_iff)
  moreover have "((b \<or> m i \<noteq> None) \<or> (\<exists>k \<in> set is. (m(i := None)) k \<noteq> None)) = (b \<or> (\<exists>k \<in> set (i # is). m k \<noteq> None))"
    by auto
  ultimately show ?case using t1(1) t2 by simp
qed

text \<open>
  C28: An AMT that holds the entries of \<open>m\<close> reads and is written as \<open>m\<close>. For an index up to \<open>MAX_INDEX\<close>, getting
  gives the entry, setting always ends and stores the value, deleting returns the entry and removes it,
  and each keeps the invariant: exact count, minimal height, no empty nodes. A larger index is out of
  range and changes nothing. Setting or deleting several entries is setting or deleting each.
\<close>

theorem amt_refines_array:
  assumes "amt_rep env t m"
  shows "amt_count (amt_root t) = card (dom m) \<and>
    (i \<le> MAX_INDEX \<longrightarrow>
      (\<exists>t'. amt_get env i t = (Inr (m i), t') \<and> amt_rep env t' m) \<and>
      (\<exists>t'. amt_set env i v t = Some (Inr (), t') \<and> amt_rep env t' (m(i \<mapsto> v))) \<and>
      (\<exists>t'. amt_delete env i t = (Inr (m i), t') \<and> amt_rep env t' (m(i := None)))) \<and>
    (MAX_INDEX < i \<longrightarrow> amt_get env i t = (Inl (OutOfRange i), t) \<and> amt_set env i v t = Some (Inl (OutOfRange i), t) \<and>
      amt_delete env i t = (Inl (OutOfRange i), t)) \<and>
    (length vs \<le> MAX_INDEX + 1 \<longrightarrow> (\<exists>t'. amt_batch_set env vs t = Some (Inr (), t') \<and>
      amt_rep env t' (\<lambda>j. if j < length vs then Some (vs ! j) else m j))) \<and>
    (set is \<subseteq> {..MAX_INDEX} \<longrightarrow> (\<exists>t'. amt_batch_delete env is False t = (Inr (\<exists>i \<in> set is. m i \<noteq> None), t') \<and>
      amt_rep env t' (m |` (- set is))))"
proof (intro conjI impI)
  show "amt_count (amt_root t) = card (dom m)" using amt_repD [OF assms] by blast
  show "\<exists>t'. amt_get env i t = (Inr (m i), t') \<and> amt_rep env t' m" if "i \<le> MAX_INDEX" by (rule amt_get_rep [OF assms that])
  show "\<exists>t'. amt_set env i v t = Some (Inr (), t') \<and> amt_rep env t' (m(i \<mapsto> v))" if "i \<le> MAX_INDEX" by (rule amt_set_rep [OF assms that])
  show "\<exists>t'. amt_delete env i t = (Inr (m i), t') \<and> amt_rep env t' (m(i := None))" if "i \<le> MAX_INDEX" by (rule amt_delete_rep [OF assms that])
  show "\<exists>t'. amt_batch_set env vs t = Some (Inr (), t') \<and> amt_rep env t' (\<lambda>j. if j < length vs then Some (vs ! j) else m j)"
    if "length vs \<le> MAX_INDEX + 1" using batch_set_rep [OF assms, of 0 vs] that by (simp add: amt_batch_set_def cong: if_cong)
  show "\<exists>t'. amt_batch_delete env is False t = (Inr (\<exists>i \<in> set is. m i \<noteq> None), t') \<and> amt_rep env t' (m |` (- set is))"
    if "set is \<subseteq> {..MAX_INDEX}" using delete_all_rep [OF assms, of "sort is" False] that by (simp add: amt_batch_delete_def)
qed (simp_all add: amt_get_def amt_set_def amt_delete_def Let_def)

theorem amt_refines_array_witness:
  "\<exists>t. amt_set amt_example_env 100 7 (amt_new_with_bit_width (\<lambda>_. Inr None) 3) = Some (Inr (), t) \<and>
    amt_rep amt_example_env t [100 \<mapsto> 7] \<and> amt_count (amt_root t) = 1"
proof -
  have "100 \<le> MAX_INDEX" by (simp add: MAX_INDEX_def u64_max_def)
  then obtain t where t: "amt_set amt_example_env 100 7 (amt_new_with_bit_width (\<lambda>_. Inr None) 3) = Some (Inr (), t)"
      "amt_rep amt_example_env t [100 \<mapsto> 7]"
    using amt_refines_array [OF amt_new_rep [OF amt_example_ok(2), of "\<lambda>_. Inr None"], of 100 7] by blast
  moreover have "amt_count (amt_root t) = card (dom [100 :: nat \<mapsto> 7 :: nat])" using amt_refines_array [OF t(2)] by blast
  ultimately show ?thesis by simp
qed

subsection \<open>Roots\<close>

lemma amt_flush_rep:
  assumes "amt_codec_ok env" "amt_rep env t m"
  obtains c t' where "amt_flush env t = (Inr c, t')" "amt_rep env t' m" "amt_bit_width (amt_root t') = amt_bit_width (amt_root t)"
    "root_stored env (amt_store t') (amt_bit_width (amt_root t)) (amt_height (amt_root t)) c m"
proof (cases "amt_flushed_cid t")
  case (Some c)
  then show ?thesis using amt_repD [OF assms(2)] assms(2) by (intro that [of c t]) (simp_all add: amt_flush_def)
next
  case None
  note rep = amt_repD [OF assms(2)]
  let ?bw = "amt_bit_width (amt_root t)" and ?h = "amt_height (amt_root t)"
  obtain n bs where f: "amt_node_flush env (amt_node (amt_root t)) (amt_store t) = (Inr (), n, bs)"
      "anode env bs ?bw ?h n m" "settled_node n"
    using amt_flush_array(1) [OF assms(1)] rep by blast
  obtain x where x: "node_collapse n = Inr x" "aser env bs ?bw ?h x m" by (rule collapse_settled [OF f(2,3)])
  let ?ser = "root_ser_of env (amt_root t) x"
  have ok: "codec_ok (am_root env)" using assms(1) by (simp add: amt_codec_ok_def)
  obtain bs' where put: "cbor_put (am_root env) bs ?ser = Inr (obj_cid (am_root env) ?ser, bs')"
      "cbor_get (am_root env) bs' (obj_cid (am_root env) ?ser) = Inr (Some ?ser)"
    by (rule cbor_put_get [OF ok])
  have ext: "extends_store (am_node env) bs bs'" by (rule put_root_extends [OF assms(1) put(1)])
  have ser: "?ser = ((case am_version env of V0 \<Rightarrow> None | V3 \<Rightarrow> Some ?bw), ?h, card (dom m), x)"
    using rep by (simp add: root_ser_of_def split: AmtVersion.splits)
  have st: "root_stored env bs' ?bw ?h (obj_cid (am_root env) ?ser) m"
    unfolding root_stored_def Let_def using put(2) aser_mono [OF x(2) ext] ser by (intro exI [of _ x]) simp
  define t' where "t' = t\<lparr>amt_root := (amt_root t)\<lparr>amt_node := n\<rparr>, amt_store := bs', amt_flushed_cid := Some (obj_cid (am_root env) ?ser)\<rparr>"
  have "amt_flush env t = (Inr (obj_cid (am_root env) ?ser), t')"
    using None f(1) x(1) put(1) by (simp add: amt_flush_def t'_def Let_def)
  moreover have "amt_rep env t' m" using rep anode_mono [OF f(2) ext] st by (simp add: amt_rep_def t'_def)
  ultimately show ?thesis using that [of "obj_cid (am_root env) ?ser" t'] st by (simp add: t'_def)
qed

lemma amt_load_rep:
  assumes "root_stored env bs bw h c m" "width_ok env bw" "bw * h < 64" "dom m \<subseteq> {..MAX_INDEX}" "min_height bw h m"
  shows "\<exists>t. amt_load env c bs = Inr t \<and> amt_rep env t m \<and> amt_bit_width (amt_root t) = bw"
proof -
  obtain x where x: "cbor_get (am_root env) bs c = Inr (Some ((case am_version env of V0 \<Rightarrow> None | V3 \<Rightarrow> Some bw), h, card (dom m), x))"
      "aser env bs bw h x m"
    using assms(1) unfolding root_stored_def Let_def by blast
  have "h = 0 \<or> m \<noteq> Map.empty" using assms(5) by (auto simp: min_height_def)
  then obtain n where n: "node_expand bw x = Inr n" "anode env bs bw h n m" using aser_expand [OF x(2)] by blast
  have bw: "(case (case am_version env of V0 \<Rightarrow> None | V3 \<Rightarrow> Some bw) of None \<Rightarrow> DEFAULT_BIT_WIDTH | Some w \<Rightarrow> w) = bw"
    using assms(2) by (simp add: width_ok_def split: AmtVersion.splits)
  have "1 * h \<le> bw * h" by (rule mult_le_mono1) (use assms(2) in \<open>simp add: width_ok_def\<close>)
  then have "h \<le> MAX_HEIGHT" using assms(3) unfolding MAX_HEIGHT_def by linarith
  then show ?thesis using x(1) n bw assms by (simp add: amt_load_def amt_rep_def Let_def)
qed

text \<open>
  Flushing an AMT always succeeds and keeps what it holds, and the root it returns loads as an AMT
  that holds the same entries.
\<close>

theorem amt_flush_load:
  assumes "amt_codec_ok env" "amt_rep env t m"
  shows "\<exists>c t' t''. amt_flush env t = (Inr c, t') \<and> amt_rep env t' m \<and> amt_load env c (amt_store t') = Inr t'' \<and> amt_rep env t'' m"
proof -
  obtain c t' where f: "amt_flush env t = (Inr c, t')" "amt_rep env t' m"
      "root_stored env (amt_store t') (amt_bit_width (amt_root t)) (amt_height (amt_root t)) c m"
    using amt_flush_rep [OF assms] by blast
  then show ?thesis using amt_load_rep [OF f(3)] amt_repD [OF assms(2)] by blast
qed

theorem amt_flush_load_witness:
  "\<exists>c t' t''. amt_flush amt_example_env (amt_new_with_bit_width (\<lambda>_. Inr None) 3) = (Inr c, t') \<and>
    amt_load amt_example_env c (amt_store t') = Inr t'' \<and> amt_rep amt_example_env t'' Map.empty"
  using amt_flush_load [OF amt_example_ok(1) amt_new_rep [OF amt_example_ok(2), of "\<lambda>_. Inr None"]] by blast


lemma amt_expand_width:
  assumes "amt_expand i r = Some r'"
  shows "amt_bit_width r' = amt_bit_width r"
  by (rule amt_expand.raw_induct [OF _ assms]) (fastforce split: if_splits)

lemma amt_set_width:
  assumes "amt_set env i v t = Some (Inr (), t')" "i \<le> MAX_INDEX"
  shows "amt_bit_width (amt_root t') = amt_bit_width (amt_root t)"
proof -
  obtain r where r: "amt_expand i (amt_root t) = Some r" using assms by (auto simp: amt_set_def Option.bind_eq_Some_conv)
  obtain res n where n: "amt_node_set env (amt_store t) (amt_bit_width r) (amt_height r) i v (amt_node r) = (res, n)" by force
  show ?thesis using amt_expand_width [OF r] assms r n by (auto simp: amt_set_def split: sum.splits)
qed

lemma aser_dom: "aser env bs bw h x m \<Longrightarrow> dom m \<subseteq> {..<2 ^ (bw * Suc h)}"
  using aser_expand [of env bs bw h x m] anode_dom [of env bs bw h _ m] by (cases "m = Map.empty") force+

lemma root_stored_height:
  assumes "root_stored env bs bw h c m" "root_stored env' bs' bw h' c m'" "am_root env = am_root env'" "codec_ok (am_root env)"
  obtains x where "h = h'" "aser env bs bw h x m" "aser env' bs' bw h' x m'"
proof -
  obtain x where x: "c = obj_cid (am_root env) ((case am_version env of V0 \<Rightarrow> None | V3 \<Rightarrow> Some bw), h, card (dom m), x)"
      "aser env bs bw h x m"
    using assms(1) unfolding root_stored_def Let_def by blast
  obtain y where y: "c = obj_cid (am_root env) ((case am_version env' of V0 \<Rightarrow> None | V3 \<Rightarrow> Some bw), h', card (dom m'), y)"
      "aser env' bs' bw h' y m'"
    using assms(2) unfolding root_stored_def Let_def assms(3) by blast
  show ?thesis using obj_cid_inject [OF assms(4) trans [OF x(1) [symmetric] y(1)]] x(2) y(2) by (intro that [of x]) simp_all
qed

lemma min_height_le:
  assumes "min_height bw h m" "aser env bs bw h' x m" "0 < bw"
  shows "h \<le> h'"
proof (rule ccontr)
  assume "\<not> h \<le> h'"
  then have "h \<noteq> 0" and "bw * Suc h' \<le> bw * h" by (simp, intro mult_le_mono2, simp)
  then have "(2 :: nat) ^ (bw * Suc h') \<le> 2 ^ (bw * h)" by (intro power_increasing) simp_all
  moreover have "dom m \<subseteq> {..<2 ^ (bw * Suc h')}" by (rule aser_dom [OF assms(2)])
  ultimately have "dom m \<subseteq> {..<2 ^ (bw * h)}" by (meson lessThan_subset_iff subset_trans)
  then show False using assms(1) \<open>h \<noteq> 0\<close> by (simp add: min_height_def)
qed

text \<open>
  C29: The root is canonical: two AMTs of the same bit width, in whatever stores and with whatever
  history of sets and deletions, flush to the same root exactly when they hold the same entries.
\<close>

theorem amt_root_canonical:
  assumes "amt_codec_ok env" "amt_rep env t1 m1" "amt_rep env t2 m2" "amt_bit_width (amt_root t1) = amt_bit_width (amt_root t2)"
    and "amt_flush env t1 = (Inr c1, t1')" "amt_flush env t2 = (Inr c2, t2')"
  shows "c1 = c2 \<longleftrightarrow> m1 = m2"
proof -
  let ?bw = "amt_bit_width (amt_root t1)" and ?h1 = "amt_height (amt_root t1)" and ?h2 = "amt_height (amt_root t2)"
  have s1: "root_stored env (amt_store t1') ?bw ?h1 c1 m1" by (rule amt_flush_rep [OF assms(1,2)]) (use assms(5) in simp)
  have s2: "root_stored env (amt_store t2') ?bw ?h2 c2 m2" by (rule amt_flush_rep [OF assms(1,3)]) (use assms(4,6) in simp)
  note r1 = amt_repD [OF assms(2)] and r2 = amt_repD [OF assms(3)]
  have ok: "codec_ok (am_root env)" using assms(1) by (simp add: amt_codec_ok_def)
  show ?thesis
  proof
    assume "c1 = c2"
    then obtain x where "?h1 = ?h2" "aser env (amt_store t1') ?bw ?h1 x m1" "aser env (amt_store t2') ?bw ?h2 x m2"
      using root_stored_height [OF s1, of env "amt_store t2'" ?h2 m2] s2 ok by metis
    then show "m1 = m2" using aser_inject [OF assms(1)] by metis
  next
    assume eq: "m1 = m2"
    obtain x1 where x1: "c1 = obj_cid (am_root env) ((case am_version env of V0 \<Rightarrow> None | V3 \<Rightarrow> Some ?bw), ?h1, card (dom m1), x1)"
        "aser env (amt_store t1') ?bw ?h1 x1 m1"
      using s1 unfolding root_stored_def Let_def by blast
    obtain x2 where x2: "c2 = obj_cid (am_root env) ((case am_version env of V0 \<Rightarrow> None | V3 \<Rightarrow> Some ?bw), ?h2, card (dom m1), x2)"
        "aser env (amt_store t2') ?bw ?h2 x2 m1"
      using s2 unfolding root_stored_def Let_def eq by blast
    have bw: "0 < ?bw" using r1 by (simp add: width_ok_def)
    have "?h1 \<le> ?h2" by (rule min_height_le [OF _ x2(2) bw]) (use r1 in simp)
    moreover have "?h2 \<le> ?h1" by (rule min_height_le [OF _ x1(2) bw]) (use r2 assms(4) eq in simp)
    ultimately have h: "?h1 = ?h2" by simp
    have "x1 = x2" by (rule aser_unique [OF x1(2)]) (use x2(2) h in simp)
    then show "c1 = c2" using x1(1) x2(1) h by simp
  qed
qed

theorem amt_root_canonical_witness:
  "\<exists>t c0 t0 c1 t1. amt_set amt_example_env 100 7 (amt_new_with_bit_width (\<lambda>_. Inr None) 3) = Some (Inr (), t) \<and>
    amt_flush amt_example_env (amt_new_with_bit_width (\<lambda>_. Inr None) 3) = (Inr c0, t0) \<and>
    amt_flush amt_example_env t = (Inr c1, t1) \<and> c0 \<noteq> c1"
proof -
  note new = amt_new_rep [OF amt_example_ok(2), of "\<lambda>_. Inr None"]
  have "100 \<le> MAX_INDEX" by (simp add: MAX_INDEX_def u64_max_def)
  then obtain t where t: "amt_set amt_example_env 100 7 (amt_new_with_bit_width (\<lambda>_. Inr None) 3) = Some (Inr (), t)"
      "amt_rep amt_example_env t [100 \<mapsto> 7]" "amt_bit_width (amt_root t) = 3"
    using amt_set_rep [OF new, of 100 7] amt_set_width [of amt_example_env 100 7 "amt_new_with_bit_width (\<lambda>_. Inr None) 3"]
    by (auto simp: amt_new_with_bit_width_def)
  obtain c0 t0 where f0: "amt_flush amt_example_env (amt_new_with_bit_width (\<lambda>_. Inr None) 3) = (Inr c0, t0)"
    by (rule amt_flush_rep [OF amt_example_ok(1) new])
  obtain c1 t1 where f1: "amt_flush amt_example_env t = (Inr c1, t1)"
    by (rule amt_flush_rep [OF amt_example_ok(1) t(2)])
  have "c0 \<noteq> c1" using amt_root_canonical [OF amt_example_ok(1) new t(2) _ f0 f1] t(3)
    by (auto simp: fun_eq_iff amt_new_with_bit_width_def)
  then show ?thesis using t(1) f0 f1 by blast
qed


subsection \<open>Traversals\<close>

text \<open>
  C30: Traversals of an AMT that holds \<open>m\<close> always end. They call the function on every entry of \<open>m\<close> once, in
  the order of the indices, until it fails or asks to stop. A traversal that starts at an index which
  has an entry visits the entries from this index on; with a limit it stops after that many entries,
  and it returns how many it visited and the index of the next one.
\<close>

theorem amt_iteration:
  assumes "amt_rep env t m"
  shows "\<exists>kvs. sorted_wrt (<) (map fst kvs) \<and> map_of kvs = m \<and>
    (\<forall>f s. amt_for_each env f t (s :: 's) = Some (visit_entries f kvs s)) \<and>
    (\<forall>f s. amt_for_each_while env f t (s :: 's) = Some (map_prod (map_sum id (\<lambda>_. ())) id (visit_entries_while f kvs s))) \<and>
    (\<forall>i limit f s. i = 0 \<or> m i \<noteq> None \<longrightarrow>
      amt_for_each_ranged env (Some i) limit f t (s :: 's) = Some (ranged_entries limit f (filter (\<lambda>(k, v). i \<le> k) kvs) s)) \<and>
    (\<forall>i limit f s. i = 0 \<or> m i \<noteq> None \<longrightarrow>
      amt_for_each_while_ranged env (Some i) limit f t (s :: 's) = Some (ranged_entries_while limit f (filter (\<lambda>(k, v). i \<le> k) kvs) s))"
proof -
  let ?kvs = "amt_entries t m"
  note rep = amt_repD [OF assms]
  have from_index: "\<exists>it. amt_iter_from env i t = Inr it \<and> amt_yields env (amt_store t) it (filter (\<lambda>(k, v). i \<le> k) ?kvs)"
    if "i = 0 \<or> m i \<noteq> None" for i
  proof -
    have "start_gap bw d m' 0 = 0" for bw d and m' :: "nat \<Rightarrow> 'a option" by (induction d arbitrary: m') (simp_all add: Let_def)
    then have gap: "amt_gap t m i = 0" using that by (auto simp: amt_gap_def start_gap_entry)
    have "i \<le> u64_max" using that rep by (auto simp: MAX_INDEX_def)
    moreover have "filter (\<lambda>(k, v). i \<le> k \<and> k \<le> MAX_INDEX) ?kvs = filter (\<lambda>(k, v). i \<le> k) ?kvs"
      by (rule filter_cong) (auto simp: amt_entries_def array_entries_set)
    ultimately show ?thesis using amt_iter_from_yields [OF assms, of i] gap by (simp add: case_prod_beta)
  qed
  have "amt_for_each_ranged env (Some i) limit f t s = Some (ranged_entries limit f (filter (\<lambda>(k, v). i \<le> k) ?kvs) s)"
    if "i = 0 \<or> m i \<noteq> None" for i limit f and s :: 's
    using from_index [OF that] by (auto simp: amt_for_each_ranged_def visit_ranged_all)
  moreover have "amt_for_each_while_ranged env (Some i) limit f t s = Some (ranged_entries_while limit f (filter (\<lambda>(k, v). i \<le> k) ?kvs) s)"
    if "i = 0 \<or> m i \<noteq> None" for i limit f and s :: 's
    using from_index [OF that] by (auto simp: amt_for_each_while_ranged_def visit_while_ranged_all)
  moreover have "amt_for_each env f t s = Some (visit_entries f ?kvs s)" for f and s :: 's
    unfolding amt_for_each_def by (rule visit_yields [OF amt_iter_yields [OF assms]])
  moreover have "amt_for_each_while env f t s = Some (map_prod (map_sum id (\<lambda>_. ())) id (visit_entries_while f ?kvs s))" for f and s :: 's
    unfolding amt_for_each_while_def by (rule visit_while_yields [OF amt_iter_yields [OF assms]])
  ultimately show ?thesis using amt_entries_ok [OF assms] by (intro exI [of _ ?kvs]) simp
qed

lemma amt_example_set:
  "i \<le> MAX_INDEX \<Longrightarrow> \<exists>t. amt_set amt_example_env i v (amt_new_with_bit_width (\<lambda>_. Inr None) 3) = Some (Inr (), t) \<and>
    amt_rep amt_example_env t [i \<mapsto> v]"
  using amt_set_rep [OF amt_new_rep [OF amt_example_ok(2), of "\<lambda>_. Inr None"], of i v] by simp

lemma entries_single:
  fixes kvs :: "(nat \<times> 'v) list"
  assumes "map_of kvs = [i \<mapsto> v]" "sorted_wrt (<) (map fst kvs)"
  shows "kvs = [(i, v)]"
proof -
  have "distinct (map fst kvs)" using assms(2) by (simp add: strict_sorted_iff)
  then have "set kvs = {(i, v)}" using assms(1) by (auto simp: map_of_eq_Some_iff [symmetric] split: if_splits)
  moreover have "distinct kvs" using \<open>distinct (map fst kvs)\<close> by (simp add: distinct_map)
  ultimately have "length kvs = Suc 0" using distinct_card by fastforce
  then obtain kv where "kvs = [kv]" by (metis length_0_conv length_Suc_conv)
  then show ?thesis using \<open>set kvs = {(i, v)}\<close> by simp
qed

lemma exponent_8: "16 < (8 :: nat) ^ (h + 1) \<Longrightarrow> h = 0 \<or> (8 :: nat) ^ h \<le> 16 \<Longrightarrow> h = 1"
proof (cases "h \<le> 1")
  case False
  then have "(8 :: nat) ^ 2 \<le> 8 ^ h" by (intro power_increasing) simp_all
  then show "h = 0 \<or> (8 :: nat) ^ h \<le> 16 \<Longrightarrow> h = 1" using False by simp
qed (auto simp: le_Suc_eq)

theorem amt_iteration_witness:
  "\<exists>t. amt_set amt_example_env 16 (7 :: nat) (amt_new_with_bit_width (\<lambda>_. Inr None) 3) = Some (Inr (), t) \<and>
    amt_for_each amt_example_env (\<lambda>k v s. (Inr (), (k, v) # s)) t [] = Some (Inr (), [(16, 7)]) \<and>
    amt_for_each_ranged amt_example_env (Some 16) (Some 1) (\<lambda>k v s. (Inr (), (k, v) # s)) t [] = Some (Inr (1, None), [(16, 7)])"
proof -
  have "16 \<le> MAX_INDEX" by (simp add: MAX_INDEX_def u64_max_def)
  then obtain t where t: "amt_set amt_example_env 16 (7 :: nat) (amt_new_with_bit_width (\<lambda>_. Inr None) 3) = Some (Inr (), t)"
      "amt_rep amt_example_env t [16 \<mapsto> 7]" using amt_example_set by blast
  obtain kvs where kvs: "sorted_wrt (<) (map fst kvs)" "map_of kvs = [16 \<mapsto> 7]"
      "\<forall>f s. amt_for_each amt_example_env f t (s :: (nat \<times> nat) list) = Some (visit_entries f kvs s)"
      "\<forall>i limit f s. i = 0 \<or> [16 \<mapsto> (7 :: nat)] i \<noteq> None \<longrightarrow> amt_for_each_ranged amt_example_env (Some i) limit f t (s :: (nat \<times> nat) list) =
        Some (ranged_entries limit f (filter (\<lambda>(k, v). i \<le> k) kvs) s)"
    by (rule exE [OF amt_iteration [OF t(2)]], elim conjE, rule that) assumption+
  have "kvs = [(16, 7)]" by (rule entries_single [OF kvs(2,1)])
  then show ?thesis using t(1) kvs(3) kvs(4) [rule_format, of 16]
    by (intro exI [of _ t]) (simp add: ranged_entries_def limit_list_def after_limit_def first_key_def)
qed

text \<open>
  C31: What \<open>iter_from\<close> yields for any start. It never fails. It yields the entries from the start on, but
  when the start lies in a block of indices without entries, it reports every index too large, by the
  distance of the start from the beginning of this block, and drops the entries whose reported index
  would exceed \<open>MAX_INDEX\<close>.
\<close>

theorem amt_iter_from_keys:
  assumes "amt_rep env t m" "i \<le> u64_max"
  shows "\<exists>it. amt_iter_from env i t = Inr it \<and> amt_yields env (amt_store t) it
    (map (\<lambda>(k, v). (k + amt_gap t m i, v)) (filter (\<lambda>(k, v). i \<le> k \<and> k + amt_gap t m i \<le> MAX_INDEX) (amt_entries t m)))"
  by (rule amt_iter_from_yields [OF assms])

theorem amt_iter_from_keys_witness:
  "\<exists>t it. amt_set amt_example_env 16 (7 :: nat) (amt_new_with_bit_width (\<lambda>_. Inr None) 3) = Some (Inr (), t) \<and>
    fst (amt_get amt_example_env 16 t) = Inr (Some 7) \<and>
    amt_iter_from amt_example_env 9 t = Inr it \<and> amt_yields amt_example_env (amt_store t) it [(17, 7)]"
proof -
  have max: "16 \<le> MAX_INDEX" "9 \<le> u64_max" "17 \<le> MAX_INDEX" by (simp_all add: MAX_INDEX_def u64_max_def)
  obtain t where t: "amt_set amt_example_env 16 (7 :: nat) (amt_new_with_bit_width (\<lambda>_. Inr None) 3) = Some (Inr (), t)"
      "amt_rep amt_example_env t [16 \<mapsto> 7]" using amt_example_set [OF max(1)] by blast
  let ?m = "[16 \<mapsto> 7] :: nat \<Rightarrow> nat option"
  note rep = amt_repD [OF t(2)]
  have bw: "amt_bit_width (amt_root t) = 3" using amt_set_width [OF t(1) max(1)] by (simp add: amt_new_with_bit_width_def)
  have pow: "(2 :: nat) ^ (3 * x) = 8 ^ x" for x by (simp add: power_mult)
  have "dom ?m \<subseteq> {..<2 ^ (3 * (amt_height (amt_root t) + 1))}" "min_height 3 (amt_height (amt_root t)) ?m"
    using rep bw anode_dom [of amt_example_env "amt_store t" 3 "amt_height (amt_root t)" "amt_node (amt_root t)" ?m] by simp_all
  then have "16 < (8 :: nat) ^ (amt_height (amt_root t) + 1)" "amt_height (amt_root t) = 0 \<or> (8 :: nat) ^ amt_height (amt_root t) \<le> 16"
    unfolding min_height_def pow by auto
  then have h: "amt_height (amt_root t) = 1" by (rule exponent_8)
  have "sub_map 3 1 1 ?m = Map.empty" by (auto simp: sub_map_def fun_eq_iff)
  then have gap: "amt_gap t ?m 9 = 1" using bw h by (simp add: amt_gap_def amt_span_def Let_def)
  have "amt_entries t ?m = [(16, 7)]" by (rule entries_single [OF amt_entries_ok(2,1) [OF t(2)]])
  then obtain it where "amt_iter_from amt_example_env 9 t = Inr it" "amt_yields amt_example_env (amt_store t) it [(17, 7)]"
    using amt_iter_from_keys [OF t(2) max(2)] gap max by auto
  moreover have "fst (amt_get amt_example_env 16 t) = Inr (Some 7)" using amt_get_rep [OF t(2) max(1)] by auto
  ultimately show ?thesis using t(1) by blast
qed


subsection \<open>Differences\<close>

text \<open>
  C32: The difference of two AMTs of the same bit width. It always ends with a list of changes in the
  order of the indices, one for every index at which the two arrays differ, with the value before and
  after, provided that the higher array has an entry among the indices of the lower one (or one of the
  arrays is empty).
\<close>

theorem amt_diff_changes:
  assumes "amt_codec_ok env" "\<forall>v. enc v \<noteq> None" "amt_rep env t1 m1" "amt_rep env t2 m2"
    and "amt_bit_width (amt_root t1) = amt_bit_width (amt_root t2)"
    and "amt_span t1 < amt_span t2 \<longrightarrow> m1 = Map.empty \<or> (\<exists>i \<in> dom m2. i < amt_span t1)"
    and "amt_span t2 < amt_span t1 \<longrightarrow> m2 = Map.empty \<or> (\<exists>i \<in> dom m1. i < amt_span t2)"
  shows "\<exists>cs. amt_diff env enc t1 t2 = Some (Inr cs) \<and> sorted_wrt (<) (map ch_key cs) \<and>
    set cs = {\<lparr>ch_key = i, ch_before = m1 i, ch_after = m2 i\<rparr> | i. map_option enc (m1 i) \<noteq> map_option enc (m2 i)}"
proof -
  let ?N = "max (amt_span t1) (amt_span t2)"
  have "amt_diff env enc t1 t2 = Some (Inr (changes enc 0 m1 m2 0 ?N))"
    using amt_diff_seen [OF assms(1-5)] assms(6,7) by (auto split: if_splits)
  moreover have "i < ?N" if "map_option enc (m1 i) \<noteq> map_option enc (m2 i)" for i
  proof -
    have dom: "dom m1 \<subseteq> {..<amt_span t1}" "dom m2 \<subseteq> {..<amt_span t2}"
      using amt_repD [OF assms(3)] amt_repD [OF assms(4)] anode_dom unfolding amt_span_def by blast+
    have "m1 i \<noteq> None \<or> m2 i \<noteq> None" using that by auto
    then show ?thesis using dom by (auto simp: less_max_iff_disj)
  qed
  ultimately show ?thesis using changes_sorted changes_set [of enc 0 m1 m2 0 ?N] by (intro exI [of _ "changes enc 0 m1 m2 0 ?N"]) auto
qed

lemma amt_example_pair:
  assumes "i \<le> MAX_INDEX"
  obtains t where "amt_set amt_example_env i v (amt_new_with_bit_width (\<lambda>_. Inr None) 3) = Some (Inr (), t)"
    "amt_rep amt_example_env t [i \<mapsto> v]" "amt_bit_width (amt_root t) = 3"
  using amt_example_set [OF assms, of v] amt_set_width [OF _ assms, of amt_example_env v "amt_new_with_bit_width (\<lambda>_. Inr None) 3"]
  by (auto simp: amt_new_with_bit_width_def)

theorem amt_diff_changes_witness:
  "\<exists>t1 t2 cs. amt_set amt_example_env 3 (7 :: nat) (amt_new_with_bit_width (\<lambda>_. Inr None) 3) = Some (Inr (), t1) \<and>
    amt_set amt_example_env 3 8 (amt_new_with_bit_width (\<lambda>_. Inr None) 3) = Some (Inr (), t2) \<and>
    amt_diff amt_example_env (\<lambda>v. Some [of_nat v]) t1 t2 = Some (Inr cs) \<and>
    set cs = {\<lparr>ch_key = 3, ch_before = Some 7, ch_after = Some 8\<rparr>}"
proof -
  let ?enc = "\<lambda>v. Some [of_nat v] :: bytes option"
  have max: "3 \<le> MAX_INDEX" by (simp add: MAX_INDEX_def u64_max_def)
  obtain t1 where t1: "amt_set amt_example_env 3 (7 :: nat) (amt_new_with_bit_width (\<lambda>_. Inr None) 3) = Some (Inr (), t1)"
      "amt_rep amt_example_env t1 [3 \<mapsto> 7]" "amt_bit_width (amt_root t1) = 3" by (rule amt_example_pair [OF max])
  obtain t2 where t2: "amt_set amt_example_env 3 (8 :: nat) (amt_new_with_bit_width (\<lambda>_. Inr None) 3) = Some (Inr (), t2)"
      "amt_rep amt_example_env t2 [3 \<mapsto> 8]" "amt_bit_width (amt_root t2) = 3" by (rule amt_example_pair [OF max])
  have "3 < (2 :: nat) ^ (3 * (h + 1))" for h
    using power_increasing [of 3 "3 * (h + 1)" "2 :: nat"] by simp
  then have span: "3 < amt_span t1" "3 < amt_span t2" using t1(3) t2(3) by (simp_all add: amt_span_def)
  have enc: "\<forall>v. ?enc v \<noteq> None" and bw: "amt_bit_width (amt_root t1) = amt_bit_width (amt_root t2)" using t1(3) t2(3) by simp_all
  have "\<exists>i \<in> dom [3 \<mapsto> 7 :: nat]. i < amt_span t2" "\<exists>i \<in> dom [3 \<mapsto> 8 :: nat]. i < amt_span t1" using span by simp_all
  then obtain cs where "amt_diff amt_example_env ?enc t1 t2 = Some (Inr cs)"
      "set cs = {\<lparr>ch_key = i, ch_before = [3 \<mapsto> 7] i, ch_after = [3 \<mapsto> 8] i\<rparr> | i. map_option ?enc ([3 \<mapsto> 7] i) \<noteq> map_option ?enc ([3 \<mapsto> 8] i)}"
    using amt_diff_changes [OF amt_example_ok(1) enc t1(2) t2(2) bw] by blast
  moreover have "map_option ?enc ([3 \<mapsto> 7] i) \<noteq> map_option ?enc ([3 \<mapsto> 8] i) \<longleftrightarrow> i = (3 :: nat)" for i by simp
  ultimately have "set cs = {\<lparr>ch_key = 3, ch_before = Some 7, ch_after = Some 8\<rparr>}" "amt_diff amt_example_env ?enc t1 t2 = Some (Inr cs)" by simp_all
  then show ?thesis using t1(1) t2(1) by blast
qed

text \<open>
  C33: Removed entries that the difference does not report. When the second array is higher and has no
  entry among the indices of the first, every change that is returned is an addition: no entry of the
  first array is reported as removed, though all of them are gone.
\<close>

theorem amt_diff_misses_removals:
  assumes "amt_codec_ok env" "\<forall>v. enc v \<noteq> None" "amt_rep env t1 m1" "amt_rep env t2 m2"
    and "amt_bit_width (amt_root t1) = amt_bit_width (amt_root t2)"
    and "m1 \<noteq> Map.empty" "m2 \<noteq> Map.empty" "\<forall>i \<in> dom m2. amt_span t1 \<le> i"
  shows "\<exists>cs. amt_diff env enc t1 t2 = Some (Inr cs) \<and>
    set cs = {\<lparr>ch_key = i, ch_before = None, ch_after = Some v\<rparr> | i v. m2 i = Some v}"
proof -
  let ?N = "max (amt_span t1) (amt_span t2)"
  have dom: "dom m2 \<subseteq> {..<amt_span t2}" using amt_repD [OF assms(4)] anode_dom unfolding amt_span_def by blast
  obtain i v where i: "m2 i = Some v" using assms(7) by (auto simp: fun_eq_iff)
  then have "amt_span t1 \<le> i" "i < amt_span t2" using assms(8) dom by auto
  then have span: "amt_span t1 < amt_span t2" by simp
  have "dom m2 \<inter> {..<amt_span t1} = {}" using assms(8) by (auto simp: disjoint_iff not_less)
  note span = span this
  have "amt_diff env enc t1 t2 = Some (Inr (changes enc 0 Map.empty m2 0 ?N))"
    using amt_diff_seen [OF assms(1-5)] assms(7) span by simp
  moreover have "i < ?N" if "m2 i = Some v" for i v using that dom by (auto simp: less_max_iff_disj)
  ultimately show ?thesis using changes_set [of enc 0 Map.empty m2 0 ?N] by (intro exI [of _ "changes enc 0 Map.empty m2 0 ?N"]) auto
qed

theorem amt_diff_misses_removals_witness:
  "\<exists>t1 t2 cs. amt_set amt_example_env 0 (7 :: nat) (amt_new_with_bit_width (\<lambda>_. Inr None) 3) = Some (Inr (), t1) \<and>
    amt_set amt_example_env 16 8 (amt_new_with_bit_width (\<lambda>_. Inr None) 3) = Some (Inr (), t2) \<and>
    amt_diff amt_example_env (\<lambda>v. Some [of_nat v]) t1 t2 = Some (Inr cs) \<and>
    set cs = {\<lparr>ch_key = 16, ch_before = None, ch_after = Some 8\<rparr>}"
proof -
  let ?enc = "\<lambda>v. Some [of_nat v] :: bytes option"
  have max: "0 \<le> MAX_INDEX" "16 \<le> MAX_INDEX" by (simp_all add: MAX_INDEX_def u64_max_def)
  obtain t1 where t1: "amt_set amt_example_env 0 (7 :: nat) (amt_new_with_bit_width (\<lambda>_. Inr None) 3) = Some (Inr (), t1)"
      "amt_rep amt_example_env t1 [0 \<mapsto> 7]" "amt_bit_width (amt_root t1) = 3" by (rule amt_example_pair [OF max(1)])
  obtain t2 where t2: "amt_set amt_example_env 16 (8 :: nat) (amt_new_with_bit_width (\<lambda>_. Inr None) 3) = Some (Inr (), t2)"
      "amt_rep amt_example_env t2 [16 \<mapsto> 8]" "amt_bit_width (amt_root t2) = 3" by (rule amt_example_pair [OF max(2)])
  have "min_height 3 (amt_height (amt_root t1)) [0 \<mapsto> 7 :: nat]" using amt_repD [OF t1(2)] t1(3) by simp
  then have "amt_height (amt_root t1) = 0" by (auto simp: min_height_def)
  then have span: "amt_span t1 = 8" using t1(3) by (simp add: amt_span_def)
  have enc: "\<forall>v. ?enc v \<noteq> None" and bw: "amt_bit_width (amt_root t1) = amt_bit_width (amt_root t2)" using t1(3) t2(3) by simp_all
  have "\<forall>i \<in> dom [16 \<mapsto> 8 :: nat]. amt_span t1 \<le> i" using span by simp
  then obtain cs where "amt_diff amt_example_env ?enc t1 t2 = Some (Inr cs)"
      "set cs = {\<lparr>ch_key = i, ch_before = None, ch_after = Some v\<rparr> | i v. [16 \<mapsto> 8] i = Some v}"
    using amt_diff_misses_removals [OF amt_example_ok(1) enc t1(2) t2(2) bw map_upd_nonempty map_upd_nonempty] by blast
  moreover have "[16 \<mapsto> 8] i = Some v \<longleftrightarrow> i = (16 :: nat) \<and> v = (8 :: nat)" for i v by auto
  ultimately have "set cs = {\<lparr>ch_key = 16, ch_before = None, ch_after = Some 8\<rparr>}" "amt_diff amt_example_env ?enc t1 t2 = Some (Inr cs)" by simp_all
  then show ?thesis using t1(1) t2(1) by blast
qed

end
