(* ===== verification/BlockStores.thy ===== *)
theory BlockStores
  imports CborStore
begin

text \<open>
  Block stores: the trait \<open>Blockstore\<close> with its default methods (\<open>ipld/blockstore/src/lib.rs\<close>), the store in
  memory (\<open>memory.rs\<close>), the store that discards (\<open>fvm/src/blockstore/discard.rs\<close>), and the buffered store of the virtual machine
  (\<open>fvm/src/blockstore/buffered.rs\<close>), which keeps new blocks in a write buffer until a flush moves those
  reachable from a root into the store below.

  A store is a state with the operations of the trait. The laws that clients rely on are the locale
  \<open>block_store\<close>. Reading a CID from bytes (\<open>Cid::try_from\<close>) belongs to the \<open>cid\<close> crate and is an argument,
  as is the hash of a block. Arithmetic on \<open>u64\<close> wraps around, as in the release build; the panic of a
  slice out of range is an error.
\<close>

subsection \<open>The trait\<close>

record 's store_ops =
  so_get :: "'s \<Rightarrow> Cid \<Rightarrow> (store_error + bytes option) \<times> 's"
  so_has :: "'s \<Rightarrow> Cid \<Rightarrow> (store_error + bool) \<times> 's"
  so_put_keyed :: "'s \<Rightarrow> Cid \<Rightarrow> bytes \<Rightarrow> (store_error + unit) \<times> 's"
  so_put_many_keyed :: "'s \<Rightarrow> (Cid \<times> bytes) list \<Rightarrow> (store_error + unit) \<times> 's"

text \<open>The default methods.\<close>

definition default_has :: "('s \<Rightarrow> Cid \<Rightarrow> (store_error + bytes option) \<times> 's) \<Rightarrow> 's \<Rightarrow> Cid \<Rightarrow> (store_error + bool) \<times> 's" where
  "default_has get s k = (case get s k of (r, s') \<Rightarrow> (map_sum id (\<lambda>b. b \<noteq> None) r, s'))"

fun default_put_many_keyed :: "('s \<Rightarrow> Cid \<Rightarrow> bytes \<Rightarrow> (store_error + unit) \<times> 's) \<Rightarrow> 's \<Rightarrow> (Cid \<times> bytes) list \<Rightarrow> (store_error + unit) \<times> 's" where
  "default_put_many_keyed put s [] = (Inr (), s)"
| "default_put_many_keyed put s ((c, b) # blocks) =
    (case put s c b of (Inl e, s') \<Rightarrow> (Inl e, s') | (Inr _, s') \<Rightarrow> default_put_many_keyed put s' blocks)"

text \<open>A block with its codec; the hash functions are an argument.\<close>

record StoreBlock =
  ib_codec :: u64
  ib_data :: bytes

type_synonym hasher = "u64 \<Rightarrow> bytes \<Rightarrow> bytes"

definition ipld_cid :: "hasher \<Rightarrow> u64 \<Rightarrow> StoreBlock \<Rightarrow> Cid" where
  "ipld_cid hash mc block = \<lparr>cid_version = 1, cid_codec = ib_codec block, mh_code = mc, mh_digest = hash mc (ib_data block)\<rparr>"

definition store_put :: "hasher \<Rightarrow> 's store_ops \<Rightarrow> 's \<Rightarrow> u64 \<Rightarrow> StoreBlock \<Rightarrow> (store_error + Cid) \<times> 's" where
  "store_put hash ops s mc block =
    (let k = ipld_cid hash mc block
     in case so_put_keyed ops s k (ib_data block) of (Inl e, s') \<Rightarrow> (Inl e, s') | (Inr _, s') \<Rightarrow> (Inr k, s'))"

definition store_put_many :: "hasher \<Rightarrow> 's store_ops \<Rightarrow> 's \<Rightarrow> (u64 \<times> StoreBlock) list \<Rightarrow> (store_error + unit) \<times> 's" where
  "store_put_many hash ops s blocks = so_put_many_keyed ops s (map (\<lambda>(mc, b). (ipld_cid hash mc b, ib_data b)) blocks)"

subsection \<open>The store in memory and the discarding store\<close>

type_synonym MemoryBlockstore = "Cid \<rightharpoonup> bytes"

definition memory_put_keyed :: "MemoryBlockstore \<Rightarrow> Cid \<Rightarrow> bytes \<Rightarrow> (store_error + unit) \<times> MemoryBlockstore" where
  "memory_put_keyed s k block = (Inr (), s(k \<mapsto> block))"

definition memory_ops :: "MemoryBlockstore store_ops" where
  "memory_ops = \<lparr>so_get = \<lambda>s k. (Inr (s k), s), so_has = \<lambda>s k. (Inr (s k \<noteq> None), s), so_put_keyed = memory_put_keyed,
    so_put_many_keyed = default_put_many_keyed memory_put_keyed\<rparr>"

definition discard_ops :: "unit store_ops" where
  "discard_ops =
    (let get = \<lambda>s _. (Inl ''Blockstore#get not supported with DiscardBlockstore'', s); put = \<lambda>s _ _. (Inr (), s)
     in \<lparr>so_get = get, so_has = default_has get, so_put_keyed = put, so_put_many_keyed = default_put_many_keyed put\<rparr>)"

subsection \<open>Links of a buffered block\<close>

datatype FlushError = FlushError string | FlushPanic

type_synonym cid_parser = "bytes \<Rightarrow> Cid option"

definition buf_read_fixed :: "nat \<Rightarrow> bytes \<Rightarrow> FlushError + bytes \<times> bytes" where
  "buf_read_fixed n r = (if length r < n then Inl (FlushError ''failed to fill whole buffer'') else Inr (take n r, drop n r))"

definition buf_read_header :: "bytes \<Rightarrow> FlushError + u8 \<times> u64 \<times> bytes" where
  "buf_read_header br =
    (case buf_read_fixed 1 br of
       Inl e \<Rightarrow> Inl e
     | Inr (b, br) \<Rightarrow>
         let first = hd b;
             maj = drop_bit 5 (first AND 0xe0);
             low = first AND 0x1f;
             wide = (\<lambda>n. case buf_read_fixed n br of Inl e \<Rightarrow> Inl e | Inr (bs, br) \<Rightarrow> Inr (maj, be_value bs, br))
         in if low \<le> 23 then Inr (maj, ucast low, br)
            else if low = 24 then wide 1
            else if low = 25 then wide 2
            else if low = 26 then wide 4
            else if low = 27 then wide 8
            else Inl (FlushError ''invalid header cbor_read_header_buf''))"

text \<open>The CID behind a tag 42: the CID and the rest of the buffer.\<close>

definition read_tagged_cid :: "cid_parser \<Rightarrow> bytes \<Rightarrow> FlushError + Cid \<times> bytes" where
  "read_tagged_cid try_from buf =
    (case buf_read_header buf of
       Inl e \<Rightarrow> Inl e
     | Inr (maj, extra, buf) \<Rightarrow>
         if maj \<noteq> 2 then Inl (FlushError ''expected cbor type byte string in input'')
         else if unat extra > length buf then Inl (FlushError ''unexpected end of cbor stream'')
         else if buf = [] \<or> hd buf \<noteq> 0 then Inl (FlushError ''DagCBOR CID does not start with a 0x byte'')
         else
           let cid_buf = take (unat extra) buf; buf = drop (unat extra) buf
           in if cid_buf = [] then Inl FlushPanic
              else case try_from (drop 1 cid_buf) of
                None \<Rightarrow> Inl (FlushError ''invalid CID'')
              | Some c \<Rightarrow> Inr (c, buf))"

text \<open>One round of the loop: the items still expected, the rest of the buffer and the CIDs that were found.\<close>

definition scan_item :: "cid_parser \<Rightarrow> u64 \<Rightarrow> bytes \<Rightarrow> FlushError + u64 \<times> bytes \<times> Cid list" where
  "scan_item try_from remaining buf =
    (case buf_read_header buf of
       Inl e \<Rightarrow> Inl e
     | Inr (maj, extra, buf) \<Rightarrow>
         if maj = 0 \<or> maj = 1 \<or> maj = 7 then Inr (remaining - 1, buf, [])
         else if maj = 2 \<or> maj = 3 then
           (if unat extra > length buf then Inl (FlushError ''unexpected end of cbor stream'')
            else Inr (remaining - 1, drop (unat extra) buf, []))
         else if maj = 6 then
           (if extra = 42 then
              (case read_tagged_cid try_from buf of Inl e \<Rightarrow> Inl e | Inr (c, buf) \<Rightarrow> Inr (remaining - 1, buf, [c]))
            else Inr (remaining + 1 - 1, buf, []))
         else if maj = 4 then Inr (remaining + extra - 1, buf, [])
         else if maj = 5 then Inr (remaining + extra * 2 - 1, buf, [])
         else Inl (FlushError ''invalid cbor tag exceeds 3 bits''))"

lemma buf_read_header_shorter: "buf_read_header b = Inr (maj, v, rest) \<Longrightarrow> length rest < length b"
  by (auto simp: buf_read_header_def buf_read_fixed_def Let_def split: if_splits)

lemma read_tagged_shorter: "read_tagged_cid try_from b = Inr (c, rest) \<Longrightarrow> length rest < length b"
  by (auto simp: read_tagged_cid_def Let_def dest!: buf_read_header_shorter split: sum.splits if_splits option.splits)

lemma scan_item_shorter: "scan_item try_from remaining b = Inr (remaining', rest, cs) \<Longrightarrow> length rest < length b"
  by (auto simp: scan_item_def dest!: buf_read_header_shorter read_tagged_shorter split: sum.splits if_splits)

text \<open>The loop of \<open>scan_for_links\<close>; every round consumes bytes. The CIDs are returned in the order they are pushed.\<close>

function scan_loop :: "cid_parser \<Rightarrow> u64 \<Rightarrow> bytes \<Rightarrow> FlushError + Cid list" where
  "scan_loop try_from remaining buf =
    (if remaining = 0 then Inr []
     else case scan_item try_from remaining buf of
       Inl e \<Rightarrow> Inl e
     | Inr (remaining', buf', cs) \<Rightarrow> (case scan_loop try_from remaining' buf' of Inl e \<Rightarrow> Inl e | Inr cs' \<Rightarrow> Inr (cs @ cs')))"
  by pat_completeness auto
termination
  by (relation "measure (\<lambda>(_, _, buf). length buf)") (auto dest: scan_item_shorter)

declare scan_loop.simps [simp del]

definition scan_for_links :: "cid_parser \<Rightarrow> bytes \<Rightarrow> FlushError + Cid list" where
  "scan_for_links try_from buf = scan_loop try_from 1 buf"

subsection \<open>The buffered store\<close>

text \<open>
  What \<open>take_reachable\<close> does with a CID: it is ignored or its codec or hash is refused. The links of an
  inline CID are those of its digest.
\<close>

definition check_cid :: "Cid \<Rightarrow> FlushError + bool" where
  "check_cid k =
    (if cid_codec k = FIL_COMMITMENT_UNSEALED \<or> cid_codec k = FIL_COMMITMENT_SEALED then Inr False
     else if \<not> (cid_codec k = IPLD_RAW \<or> cid_codec k = DAG_CBOR \<or> cid_codec k = CBOR) then Inl (FlushError ''unexpected codec'')
     else if (mh_code k = BLAKE2B_256 \<and> length (mh_digest k) = 32) \<or> mh_code k = IDENTITY_HASH then Inr True
     else Inl (FlushError ''unexpected multihash''))"

definition links_in :: "cid_parser \<Rightarrow> Cid \<Rightarrow> bytes \<Rightarrow> FlushError + Cid list" where
  "links_in try_from k data = (if cid_codec k = DAG_CBOR then scan_for_links try_from data else Inr [])"

text \<open>
  The loop of \<open>take_reachable\<close>. The stack has its top first. The cache is changed in place, also when the
  result is an error.
\<close>

partial_function (option) take_loop ::
  "cid_parser \<Rightarrow> Cid list \<Rightarrow> (Cid \<rightharpoonup> bytes) \<Rightarrow> (Cid \<times> bytes) list \<Rightarrow> ((FlushError + (Cid \<times> bytes) list) \<times> (Cid \<rightharpoonup> bytes)) option" where
  "take_loop try_from stack cache result =
    (case stack of
       [] \<Rightarrow> Some (Inr result, cache)
     | k # stack \<Rightarrow>
         (case check_cid k of
            Inl e \<Rightarrow> Some (Inl e, cache)
          | Inr tracked \<Rightarrow>
              if \<not> tracked then take_loop try_from stack cache result
              else if mh_code k = IDENTITY_HASH then
                (case links_in try_from k (mh_digest k) of
                   Inl e \<Rightarrow> Some (Inl e, cache)
                 | Inr cs \<Rightarrow> take_loop try_from (rev cs @ stack) cache result)
              else case cache k of
                None \<Rightarrow> take_loop try_from stack cache result
              | Some block \<Rightarrow>
                  (case links_in try_from k block of
                     Inl e \<Rightarrow> Some (Inl e, cache(k := None))
                   | Inr cs \<Rightarrow> take_loop try_from (rev cs @ stack) (cache(k := None)) (result @ [(k, block)]))))"

definition take_reachable :: "cid_parser \<Rightarrow> (Cid \<rightharpoonup> bytes) \<Rightarrow> Cid \<Rightarrow> ((FlushError + (Cid \<times> bytes) list) \<times> (Cid \<rightharpoonup> bytes)) option" where
  "take_reachable try_from cache root = take_loop try_from [root] cache []"

record 's BufferedBlockstore =
  bb_base :: 's
  bb_write :: "Cid \<rightharpoonup> bytes"

definition buffered_new :: "'s \<Rightarrow> 's BufferedBlockstore" where
  "buffered_new base = \<lparr>bb_base = base, bb_write = Map.empty\<rparr>"

definition buffered_into_inner :: "'s BufferedBlockstore \<Rightarrow> 's" where
  "buffered_into_inner b = bb_base b"

definition buffered_flush :: "cid_parser \<Rightarrow> 's store_ops \<Rightarrow> Cid \<Rightarrow> 's BufferedBlockstore \<Rightarrow> ((FlushError + unit) \<times> 's BufferedBlockstore) option" where
  "buffered_flush try_from ops root b =
    Option.bind (take_reachable try_from (bb_write b) root) (\<lambda>(r, cache).
    let b' = b\<lparr>bb_write := cache\<rparr>
    in case r of
      Inl e \<Rightarrow> Some (Inl e, b')
    | Inr blocks \<Rightarrow>
        (case so_put_many_keyed ops (bb_base b') blocks of
           (Inl e, base) \<Rightarrow> Some (Inl (FlushError e), b'\<lparr>bb_base := base\<rparr>)
         | (Inr _, base) \<Rightarrow> Some (Inr (), b'\<lparr>bb_base := base\<rparr>)))"

definition buffered_get :: "'s store_ops \<Rightarrow> 's BufferedBlockstore \<Rightarrow> Cid \<Rightarrow> (store_error + bytes option) \<times> 's BufferedBlockstore" where
  "buffered_get ops b k =
    (case bb_write b k of
       Some data \<Rightarrow> (Inr (Some data), b)
     | None \<Rightarrow> (case so_get ops (bb_base b) k of (r, base) \<Rightarrow> (r, b\<lparr>bb_base := base\<rparr>)))"

definition buffered_has :: "'s store_ops \<Rightarrow> 's BufferedBlockstore \<Rightarrow> Cid \<Rightarrow> (store_error + bool) \<times> 's BufferedBlockstore" where
  "buffered_has ops b k =
    (if bb_write b k \<noteq> None then (Inr True, b)
     else (case so_has ops (bb_base b) k of (r, base) \<Rightarrow> (r, b\<lparr>bb_base := base\<rparr>)))"

definition buffered_ops :: "'s store_ops \<Rightarrow> 's BufferedBlockstore store_ops" where
  "buffered_ops ops =
    \<lparr>so_get = buffered_get ops, so_has = buffered_has ops,
     so_put_keyed = \<lambda>b k data. (Inr (), b\<lparr>bb_write := (bb_write b)(k \<mapsto> data)\<rparr>),
     so_put_many_keyed = \<lambda>b blocks. (Inr (), b\<lparr>bb_write := bb_write b ++ map_of (rev blocks)\<rparr>)\<rparr>"


subsection \<open>What clients rely on\<close>

locale block_store =
  fixes ops :: "'s store_ops"
  assumes get_keeps: "fst (so_get ops (snd (so_get ops s c)) c') = fst (so_get ops s c')"
    and has_get: "fst (so_has ops s c) = map_sum id (\<lambda>b. b \<noteq> None) (fst (so_get ops s c))"
    and has_keeps: "fst (so_get ops (snd (so_has ops s c)) c') = fst (so_get ops s c')"
    and put_get: "so_put_keyed ops s k b = (Inr (), s') \<Longrightarrow> fst (so_get ops s' c) = (if c = k then Inr (Some b) else fst (so_get ops s c))"
    and put_many_get: "so_put_many_keyed ops s blocks = (Inr (), s') \<Longrightarrow>
      fst (so_get ops s' c) = (case map_of (rev blocks) c of Some b \<Rightarrow> Inr (Some b) | None \<Rightarrow> fst (so_get ops s c))"
begin

text \<open>A block is found under the CID that putting it returns.\<close>

lemma put_found:
  assumes "store_put hash ops s mc block = (Inr k, s')"
  shows "k = ipld_cid hash mc block" "fst (so_get ops s' k) = Inr (Some (ib_data block))" "fst (so_has ops s' k) = Inr True"
proof -
  obtain r s1 where r: "so_put_keyed ops s (ipld_cid hash mc block) (ib_data block) = (r, s1)" by fastforce
  then have k: "k = ipld_cid hash mc block" "r = Inr ()" "s1 = s'" using assms by (auto simp: store_put_def Let_def split: sum.splits)
  then show "k = ipld_cid hash mc block" by simp
  show get: "fst (so_get ops s' k) = Inr (Some (ib_data block))" using put_get r k by auto
  then show "fst (so_has ops s' k) = Inr True" by (simp add: has_get)
qed

end

lemma default_put_many_get:
  assumes "\<And>s k b s' c. put s k b = (Inr (), s') \<Longrightarrow> get s' c = (if c = k then Inr (Some b) else get s c)"
  shows "default_put_many_keyed put s blocks = (Inr (), s') \<Longrightarrow>
    get s' c = (case map_of (rev blocks) c of Some b \<Rightarrow> Inr (Some b) | None \<Rightarrow> get s c)"
proof (induction blocks arbitrary: s)
  case (Cons x blocks)
  obtain k b where x: "x = (k, b)" by fastforce
  obtain r s1 where r: "put s k b = (r, s1)" by fastforce
  then have s1: "put s k b = (Inr (), s1)" "default_put_many_keyed put s1 blocks = (Inr (), s')"
    using Cons.prems x by (auto split: sum.splits)
  show ?case using Cons.IH [OF s1(2)] assms [OF s1(1), of c] x by (auto simp: map_add_def split: option.splits)
qed simp

interpretation mem: block_store memory_ops
proof (unfold_locales, goal_cases)
  case (5 s blocks s' c)
  have put: "default_put_many_keyed memory_put_keyed s blocks = (Inr (), s')" using 5 by (simp add: memory_ops_def)
  have "(Inr (s' c) :: store_error + bytes option) = (case map_of (rev blocks) c of Some b \<Rightarrow> Inr (Some b) | None \<Rightarrow> Inr (s c))"
    by (rule default_put_many_get [where get = "\<lambda>s c. Inr (s c)", OF _ put]) (auto simp: memory_put_keyed_def)
  then show ?case by (simp add: memory_ops_def split: option.splits)
qed (auto simp: memory_ops_def memory_put_keyed_def)

lemma memory_store: "block_store memory_ops"
  by (rule mem.block_store_axioms)

lemma buffered_put_many: "bb_write b ++ map_of (rev blocks) = (\<lambda>c. case map_of (rev blocks) c of Some x \<Rightarrow> Some x | None \<Rightarrow> bb_write b c)"
  by (auto simp: map_add_def)

text \<open>A buffered store over a store that satisfies the laws satisfies them.\<close>

locale buffered_store = block_store ops
  for ops :: "'s store_ops"

sublocale buffered_store \<subseteq> buf: block_store "buffered_ops ops"
proof (unfold_locales, goal_cases)
  case (1 s c c')
  then show ?case using get_keeps [of "bb_base s" c c']
    by (auto simp: buffered_ops_def buffered_get_def split: option.splits prod.splits)
next
  case (2 s c)
  then show ?case using has_get [of "bb_base s" c]
    by (auto simp: buffered_ops_def buffered_get_def buffered_has_def split: option.splits prod.splits)
next
  case (3 s c c')
  then show ?case using has_keeps [of "bb_base s" c c']
    by (auto simp: buffered_ops_def buffered_get_def buffered_has_def split: option.splits prod.splits)
next
  case (4 s k b s' c)
  then show ?case by (auto simp: buffered_ops_def buffered_get_def split: option.splits prod.splits)
next
  case (5 s blocks s' c)
  then show ?case by (auto simp: buffered_ops_def buffered_get_def buffered_put_many split: option.splits prod.splits)
qed

subsection \<open>A flush ends\<close>

text \<open>A CID is longer than its digest.\<close>

definition cid_parser_ok :: "cid_parser \<Rightarrow> bool" where
  "cid_parser_ok try_from \<longleftrightarrow> (\<forall>b c. try_from b = Some c \<longrightarrow> length (mh_digest c) < length b)"

definition cid_weight :: "Cid \<Rightarrow> nat" where
  "cid_weight c = length (mh_digest c) + 1"

lemma read_tagged_weight:
  assumes "cid_parser_ok try_from" "read_tagged_cid try_from b = Inr (c, rest)"
  shows "cid_weight c + length rest \<le> length b"
proof -
  obtain maj extra buf where h: "buf_read_header b = Inr (maj, extra, buf)" using assms(2) by (auto simp: read_tagged_cid_def split: sum.splits)
  then have c: "try_from (drop 1 (take (unat extra) buf)) = Some c" "rest = drop (unat extra) buf" "unat extra \<le> length buf"
    using assms(2) by (auto simp: read_tagged_cid_def Let_def split: if_splits option.splits)
  have "length (mh_digest c) < length (drop 1 (take (unat extra) buf))" using assms(1) c(1) unfolding cid_parser_ok_def by blast
  then show ?thesis using c(2,3) buf_read_header_shorter [OF h] by (simp add: cid_weight_def)
qed

lemma scan_item_weight:
  assumes "cid_parser_ok try_from" "scan_item try_from remaining b = Inr (remaining', rest, cs)"
  shows "sum_list (map cid_weight cs) + length rest \<le> length b"
proof -
  obtain maj extra buf where h: "buf_read_header b = Inr (maj, extra, buf)" using assms(2) by (auto simp: scan_item_def split: sum.splits)
  have buf: "length buf \<le> length b" using buf_read_header_shorter [OF h] by simp
  consider "cs = []" | c where "cs = [c]" "read_tagged_cid try_from buf = Inr (c, rest)"
    using assms(2) h by (auto simp: scan_item_def split: if_splits sum.splits)
  then show ?thesis
  proof cases
    case 1
    then show ?thesis using scan_item_shorter [OF assms(2)] by simp
  next
    case (2 c)
    then show ?thesis using read_tagged_weight [OF assms(1) 2(2)] buf by simp
  qed
qed

lemma scan_loop_weight:
  "cid_parser_ok try_from \<Longrightarrow> scan_loop try_from remaining b = Inr cs \<Longrightarrow> sum_list (map cid_weight cs) \<le> length b"
proof (induction try_from remaining b arbitrary: cs rule: scan_loop.induct)
  case (1 try_from remaining b)
  show ?case
  proof (cases "remaining = 0")
    case True
    then show ?thesis using "1.prems"(2) by (subst (asm) scan_loop.simps) simp
  next
    case False
    then obtain remaining' rest cs1 cs2 where s: "scan_item try_from remaining b = Inr (remaining', rest, cs1)"
        "scan_loop try_from remaining' rest = Inr cs2" "cs = cs1 @ cs2"
      using "1.prems"(2) by (subst (asm) scan_loop.simps) (auto split: sum.splits)
    have "sum_list (map cid_weight cs2) \<le> length rest" using "1.IH" [OF False s(1) refl refl "1.prems"(1) s(2)] by simp
    then show ?thesis using scan_item_weight [OF "1.prems"(1) s(1)] s(3) by simp
  qed
qed

lemma links_in_weight: "cid_parser_ok try_from \<Longrightarrow> links_in try_from k b = Inr cs \<Longrightarrow> sum_list (map cid_weight cs) \<le> length b"
  using scan_loop_weight by (auto simp: links_in_def scan_for_links_def split: if_splits)

definition cache_weight :: "(Cid \<rightharpoonup> bytes) \<Rightarrow> nat" where
  "cache_weight m = (\<Sum>k \<in> dom m. length (the (m k)))"

lemma cache_weight_remove:
  assumes "finite (dom m)" "m k = Some b"
  shows "cache_weight m = length b + cache_weight (m(k := None))"
proof -
  have "(\<Sum>j \<in> dom m - {k}. length (the ((m(k := None)) j))) = (\<Sum>j \<in> dom m - {k}. length (the (m j)))" by (rule sum.cong) auto
  moreover have "dom (m(k := None)) = dom m - {k}" by auto
  moreover have "k \<in> dom m" using assms(2) by auto
  ultimately show ?thesis using sum.remove [OF assms(1), of k "\<lambda>j. length (the (m j))"] assms(2) by (simp add: cache_weight_def del: fun_upd_apply dom_fun_upd)
qed

subsection \<open>What a flush moves\<close>

text \<open>The links that a flush follows from a CID, and what is reached by them.\<close>

definition flush_links :: "cid_parser \<Rightarrow> (Cid \<rightharpoonup> bytes) \<Rightarrow> Cid \<Rightarrow> Cid list" where
  "flush_links try_from cache k =
    (if check_cid k \<noteq> Inr True then []
     else if mh_code k = IDENTITY_HASH then (case links_in try_from k (mh_digest k) of Inr cs \<Rightarrow> cs | Inl _ \<Rightarrow> [])
     else (case cache k of None \<Rightarrow> [] | Some b \<Rightarrow> (case links_in try_from k b of Inr cs \<Rightarrow> cs | Inl _ \<Rightarrow> [])))"

inductive reached :: "cid_parser \<Rightarrow> (Cid \<rightharpoonup> bytes) \<Rightarrow> Cid \<Rightarrow> Cid \<Rightarrow> bool" for try_from cache root where
  reached_root: "reached try_from cache root root"
| reached_link: "reached try_from cache root k \<Longrightarrow> c \<in> set (flush_links try_from cache k) \<Longrightarrow> reached try_from cache root c"

text \<open>The blocks of the buffer that belong to a set of CIDs.\<close>

definition stored_in :: "(Cid \<rightharpoonup> bytes) \<Rightarrow> Cid set \<Rightarrow> Cid set" where
  "stored_in cache P = {k \<in> P. check_cid k = Inr True \<and> mh_code k \<noteq> IDENTITY_HASH \<and> cache k \<noteq> None}"

text \<open>The state of the loop after the CIDs in \<open>P\<close>.\<close>

definition taking :: "cid_parser \<Rightarrow> (Cid \<rightharpoonup> bytes) \<Rightarrow> Cid \<Rightarrow> Cid set \<Rightarrow> Cid list \<Rightarrow> (Cid \<rightharpoonup> bytes) \<Rightarrow> (Cid \<times> bytes) list \<Rightarrow> bool" where
  "taking try_from W root P stack cache result \<longleftrightarrow>
    root \<in> P \<union> set stack \<and>
    (\<forall>k \<in> P \<union> set stack. reached try_from W root k) \<and>
    (\<forall>k \<in> P. set (flush_links try_from W k) \<subseteq> P \<union> set stack) \<and>
    distinct (map fst result) \<and> set result = {(k, the (W k)) | k. k \<in> stored_in W P} \<and>
    cache = W |` (- stored_in W P)"

lemma taking_skip:
  assumes "taking try_from W root P (k # stack) cache result" "k \<notin> stored_in W (insert k P) \<or> k \<in> P"
    and "set (flush_links try_from W k) \<subseteq> insert k P \<union> set (cs @ stack)" "set cs \<subseteq> set (flush_links try_from W k)"
  shows "taking try_from W root (insert k P) (cs @ stack) cache result"
proof -
  have "stored_in W (insert k P) = stored_in W P" using assms(2) by (auto simp: stored_in_def)
  moreover have "reached try_from W root c" if "c \<in> set cs" for c
    using that assms(1,4) reached_link by (fastforce simp: taking_def)
  ultimately show ?thesis using assms(1,3) by (auto simp: taking_def)
qed

lemma taking_block:
  assumes "taking try_from W root P (k # stack) cache result" "cache k = Some b" "check_cid k = Inr True" "mh_code k \<noteq> IDENTITY_HASH"
    and "set (flush_links try_from W k) = set cs"
  shows "taking try_from W root (insert k P) (cs @ stack) (cache(k := None)) (result @ [(k, b)])"
proof -
  have k: "k \<notin> stored_in W P" "W k = Some b" using assms(1,2) by (auto simp: taking_def restrict_map_def split: if_splits)
  have ins: "stored_in W (insert k P) = insert k (stored_in W P)" using assms(3,4) k(2) by (auto simp: stored_in_def)
  have "k \<notin> fst ` set result" using assms(1) k(1) by (auto simp: taking_def)
  moreover have "reached try_from W root c" if "c \<in> set cs" for c
    using that assms(1,5) reached_link by (fastforce simp: taking_def)
  moreover have "cache(k := None) = W |` (- stored_in W (insert k P))" using assms(1) ins by (auto simp: taking_def restrict_map_def fun_eq_iff)
  ultimately show ?thesis using assms(1,5) k(2) ins by (auto simp: taking_def)
qed


lemma take_loop_step:
  "take_loop try_from [] cache result = Some (Inr result, cache)"
  "check_cid k = Inl e \<Longrightarrow> take_loop try_from (k # stack) cache result = Some (Inl e, cache)"
  "check_cid k = Inr False \<Longrightarrow> take_loop try_from (k # stack) cache result = take_loop try_from stack cache result"
  "check_cid k = Inr True \<Longrightarrow> mh_code k = IDENTITY_HASH \<Longrightarrow> take_loop try_from (k # stack) cache result =
    (case links_in try_from k (mh_digest k) of
       Inl e \<Rightarrow> Some (Inl e, cache)
     | Inr cs \<Rightarrow> take_loop try_from (rev cs @ stack) cache result)"
  "check_cid k = Inr True \<Longrightarrow> mh_code k \<noteq> IDENTITY_HASH \<Longrightarrow> cache k = None \<Longrightarrow>
    take_loop try_from (k # stack) cache result = take_loop try_from stack cache result"
  "check_cid k = Inr True \<Longrightarrow> mh_code k \<noteq> IDENTITY_HASH \<Longrightarrow> cache k = Some block \<Longrightarrow>
    take_loop try_from (k # stack) cache result =
    (case links_in try_from k block of
       Inl e \<Rightarrow> Some (Inl e, cache(k := None))
     | Inr cs \<Rightarrow> take_loop try_from (rev cs @ stack) (cache(k := None)) (result @ [(k, block)]))"
  by (subst take_loop.simps, simp)+

lemma check_cases:
  obtains (refused) e where "check_cid k = Inl e" | (ignored) "check_cid k = Inr False"
    | (inline) "check_cid k = Inr True" "mh_code k = IDENTITY_HASH"
    | (absent) "check_cid k = Inr True" "mh_code k \<noteq> IDENTITY_HASH" "cache k = None"
    | (present) b where "check_cid k = Inr True" "mh_code k \<noteq> IDENTITY_HASH" "cache k = Some b"
proof (cases "check_cid k")
  case (Inr tracked)
  then show thesis using ignored inline absent present by (cases tracked; cases "cache k") auto
qed (rule refused)

lemma take_loop_taking:
  assumes "cid_parser_ok try_from" "finite (dom W)"
  shows "taking try_from W root P stack cache result \<Longrightarrow>
    \<exists>r cache'. take_loop try_from stack cache result = Some (r, cache') \<and> (\<forall>res. r = Inr res \<longrightarrow> (\<exists>P'. taking try_from W root P' [] cache' res))"
proof (induction "sum_list (map cid_weight stack) + cache_weight cache" arbitrary: P stack cache result rule: less_induct)
  case less
  have cache: "cache = W |` (- stored_in W P)" using less.prems by (simp add: taking_def)
  then have fin: "finite (dom cache)" using assms(2) by (simp add: dom_restrict)
  show ?case
  proof (cases stack)
    case Nil
    then show ?thesis using less.prems by (auto simp: take_loop_step)
  next
    case (Cons k stack')
    note t = less.prems [unfolded Cons]
    have IH: ?thesis if "taking try_from W root P' stack1 cache1 result1" "take_loop try_from stack cache result = take_loop try_from stack1 cache1 result1"
        "sum_list (map cid_weight stack1) + cache_weight cache1 < sum_list (map cid_weight stack) + cache_weight cache" for P' stack1 cache1 result1
      using less.hyps [OF that(3,1)] that(2) by simp
    show ?thesis
    proof (cases rule: check_cases [where k = k and cache = cache])
      case (refused e)
      then show ?thesis using Cons by (auto simp: take_loop_step)
    next
      case ignored
      have "taking try_from W root (insert k P) ([] @ stack') cache result"
        by (rule taking_skip [OF t]) (use ignored in \<open>auto simp: stored_in_def flush_links_def\<close>)
      then show ?thesis using IH [of "insert k P" stack' cache result] ignored Cons by (simp add: take_loop_step cid_weight_def)
    next
      case inline
      show ?thesis
      proof (cases "links_in try_from k (mh_digest k)")
        case (Inl e)
        then show ?thesis using inline Cons by (auto simp: take_loop_step)
      next
        case (Inr cs)
        have "taking try_from W root (insert k P) (rev cs @ stack') cache result"
          by (rule taking_skip [OF t]) (use inline Inr in \<open>auto simp: stored_in_def flush_links_def\<close>)
        then show ?thesis using IH [of "insert k P" "rev cs @ stack'" cache result] inline Inr Cons links_in_weight [OF assms(1) Inr]
          by (simp add: take_loop_step cid_weight_def rev_map [symmetric])
      qed
    next
      case absent
      have "k \<in> P \<or> W k = None" using absent cache by (auto simp: restrict_map_def stored_in_def split: if_splits)
      moreover have "set (flush_links try_from W k) \<subseteq> P \<union> set (k # stack')" if "k \<in> P" using t that by (auto simp: taking_def)
      ultimately have "taking try_from W root (insert k P) ([] @ stack') cache result"
        by (intro taking_skip [OF t]) (use absent in \<open>auto simp: stored_in_def flush_links_def\<close>)
      then show ?thesis using IH [of "insert k P" stack' cache result] absent Cons by (simp add: take_loop_step cid_weight_def)
    next
      case (present b)
      show ?thesis
      proof (cases "links_in try_from k b")
        case (Inl e)
        then show ?thesis using present Cons by (auto simp: take_loop_step)
      next
        case (Inr cs)
        have "W k = Some b" using present(3) cache by (auto simp: restrict_map_def split: if_splits)
        then have "taking try_from W root (insert k P) (rev cs @ stack') (cache(k := None)) (result @ [(k, b)])"
          by (intro taking_block [OF t present(3,1,2)]) (use present Inr in \<open>simp add: flush_links_def\<close>)
        then show ?thesis using IH [of "insert k P" "rev cs @ stack'" "cache(k := None)" "result @ [(k, b)]"] present Inr Cons
            links_in_weight [OF assms(1) Inr] cache_weight_remove [OF fin present(3)]
          by (simp add: take_loop_step cid_weight_def rev_map [symmetric])
      qed
    qed
  qed
qed

definition moved :: "cid_parser \<Rightarrow> (Cid \<rightharpoonup> bytes) \<Rightarrow> Cid \<Rightarrow> Cid set" where
  "moved try_from W root = stored_in W {k. reached try_from W root k}"

lemma take_reachable_moves:
  assumes "cid_parser_ok try_from" "finite (dom W)"
  shows "\<exists>r cache. take_reachable try_from W root = Some (r, cache) \<and>
    (\<forall>blocks. r = Inr blocks \<longrightarrow> cache = W |` (- moved try_from W root) \<and> map_of (rev blocks) = W |` moved try_from W root)"
proof -
  have "taking try_from W root {} [root] W []"
    by (auto simp: taking_def stored_in_def restrict_map_def intro: reached_root)
  then obtain r cache where r: "take_loop try_from [root] W [] = Some (r, cache)" "\<forall>res. r = Inr res \<longrightarrow> (\<exists>P'. taking try_from W root P' [] cache res)"
    using take_loop_taking [OF assms] by blast
  have "cache = W |` (- moved try_from W root) \<and> map_of (rev blocks) = W |` moved try_from W root" if "r = Inr blocks" for blocks
  proof -
    obtain P where P: "taking try_from W root P [] cache blocks" using r(2) \<open>r = Inr blocks\<close> by blast
    have "k \<in> P" if "reached try_from W root k" for k using that by induction (use P in \<open>auto simp: taking_def\<close>)
    then have moved: "moved try_from W root = stored_in W P" using P by (auto simp: moved_def stored_in_def taking_def)
    have "map_of (rev blocks) k = (W |` stored_in W P) k" for k
    proof (cases "k \<in> stored_in W P")
      case True
      then have "(k, the (W k)) \<in> set (rev blocks)" using P by (auto simp: taking_def)
      moreover have "distinct (map fst (rev blocks))" using P by (simp add: taking_def rev_map [symmetric])
      ultimately have "map_of (rev blocks) k = Some (the (W k))" by (simp del: set_rev)
      then show ?thesis using True by (auto simp: stored_in_def)
    next
      case False
      then have "k \<notin> fst ` set (rev blocks)" using P by (auto simp: taking_def)
      then show ?thesis using False by (simp add: map_of_eq_None_iff)
    qed
    then show ?thesis using P moved by (auto simp: taking_def)
  qed
  then show ?thesis using r(1) by (simp add: take_reachable_def)
qed


subsection \<open>Blocks that the kernel accepted\<close>

text \<open>
  The kernel scans a block when an actor creates it (\<open>CborScan\<close>). Its scan is stricter than that of the
  flush: what it accepts, the flush can scan, and finds only CIDs that it accepts.
\<close>

definition same_parser :: "(bytes \<Rightarrow> (Cid \<times> bytes) option) \<Rightarrow> cid_parser \<Rightarrow> bool" where
  "same_parser read_cid try_from \<longleftrightarrow> (\<forall>b c. read_cid b = Some (c, []) \<longrightarrow> try_from b = Some c)"

lemma headers_agree: "cbor_read_header_buf b = Inr h \<Longrightarrow> buf_read_header b = Inr h"
  by (cases b) (auto simp: cbor_read_header_buf_def buf_read_header_def read_fixed_def buf_read_fixed_def Let_def split: if_splits)

lemma read_link_agree:
  assumes "same_parser read_cid try_from" "read_link read_cid visit buf v = (Inr buf', v')"
  obtains c v1 where "read_tagged_cid try_from buf = Inr (c, buf')" "visit c v1 = (Inr (), v')"
proof -
  obtain maj extra b where h: "cbor_read_header_buf buf = Inr (maj, extra, b)"
      "(if maj \<noteq> 2 then rthrow (Syscall Serialization)
        else if unat extra > length b then rthrow (Syscall Serialization)
        else if extra < 1 \<or> b = [] \<or> hd b \<noteq> 0 then rthrow (Syscall Serialization)
        else
          let cid_buf = take (unat extra - 1) (drop 1 b); b = drop (unat extra - 1) (drop 1 b)
          in case read_cid cid_buf of
               None \<Rightarrow> rthrow (Syscall Serialization)
             | Some (cid, cid_buf) \<Rightarrow>
                 if cid_buf \<noteq> [] then rthrow (Syscall Serialization)
                 else rbind (visit cid) (\<lambda>_. rreturn b)) v = (Inr buf', v')"
    by (rule rbind_Inr [OF assms(2) [unfolded read_link_def]]) (auto simp: rlift_Inr simp del: One_nat_def)
  obtain c where c: "maj = 2" "unat extra \<le> length b" "\<not> extra < 1" "b \<noteq> []" "hd b = 0"
      "read_cid (take (unat extra - 1) (drop 1 b)) = Some (c, [])"
      "rbind (visit c) (\<lambda>_. rreturn (drop (unat extra - 1) (drop 1 b))) v = (Inr buf', v')"
    using h(2) by (auto simp: Let_def rthrow_def split: if_splits option.splits)
  obtain e where e: "unat extra = Suc e" using c(3) by (cases "unat extra") (auto simp: word_less_nat_alt)
  obtain bs where bs: "b = 0 # bs" using c(4,5) by (cases b) auto
  have "try_from (take e bs) = Some c" using assms(1) c(6) e bs by (simp add: same_parser_def)
  moreover have v: "visit c v = (Inr (), v')" "buf' = drop e bs" using c(7) e bs by (auto simp: rreturn_def elim!: rbind_Inr)
  ultimately show thesis using that [of c v] headers_agree [OF h(1)] c(1,2) e bs by (simp add: read_tagged_cid_def Let_def)
qed

lemma checked_agree:
  "rlift (or_error Serialization (ok_or () (checked_add r e))) v = (Inr x, v') \<longleftrightarrow> checked_add r e = Some x \<and> v' = v"
  by (auto simp: rlift_Inr or_error_def ok_or_def split: option.splits)

definition scan_tail :: "(bytes \<Rightarrow> (Cid \<times> bytes) option) \<Rightarrow> (Cid \<Rightarrow> unit lv_op) \<Rightarrow> u64 \<Rightarrow> PriceList \<Rightarrow> u8 \<times> u64 \<times> bytes \<Rightarrow> (u64 \<times> bytes) lv_op" where
  "scan_tail read_cid visit r p h =
    (case h of (maj, extra, b) \<Rightarrow>
       if maj = 0 \<or> maj = 1 \<or> maj = 7 then rreturn (r, b)
       else if maj = 2 \<or> maj = 3 then
         if unat extra > length b then rthrow (Syscall Serialization)
         else rreturn (r, drop (unat extra) b)
       else if maj = 6 then
         if extra \<noteq> 42 then rreturn (r + 1, b)
         else
           rbind (lv_charge_gas (p_ipld_cbor_scan_per_cid p)) (\<lambda>_.
           rbind (read_link read_cid visit b) (\<lambda>b. rreturn (r, b)))
       else if maj = 4 then
         rbind (rlift (or_error Serialization (ok_or () (checked_add r extra)))) (\<lambda>r. rreturn (r, b))
       else
         rbind (rlift (or_error Serialization (ok_or () (Option.bind (checked_mul extra 2) (\<lambda>x. checked_add x r))))) (\<lambda>r. rreturn (r, b)))"

lemma scan_step_tail:
  "scan_step read_cid visit remaining buf =
    rbind (rget lv_price_list) (\<lambda>p. rbind (lv_charge_gas (p_ipld_cbor_scan_per_field p)) (\<lambda>_.
    rbind (rlift (cbor_read_header_buf buf)) (scan_tail read_cid visit (remaining - 1) p)))"
  unfolding scan_step_def scan_tail_def Let_def by (rule arg_cong2 [where f = rbind] refl ext)+

lemma header_major: "buf_read_header b = Inr (maj, extra, rest) \<Longrightarrow> maj \<in> {0, 1, 2, 3, 4, 5, 6, 7}"
proof -
  have "drop_bit 5 (x AND 0xe0) \<in> {0, 1, 2, 3, 4, 5, 6, 7}" for x :: u8
  proof -
    let ?w = "drop_bit 5 (x AND 0xe0)"
    have "unat (x AND 0xe0) < 2 ^ 8" using unsigned_less [of "x AND 0xe0"] by simp
    then have "unat ?w < 8" by (simp add: drop_bit_eq_div unat_div)
    then have "unat ?w \<in> {0, 1, 2, 3, 4, 5, 6, 7}" by auto
    moreover have "?w = of_nat (unat ?w)" by simp
    ultimately show ?thesis by (elim insertE emptyE) (simp_all only: of_nat_numeral of_nat_0 of_nat_1, simp_all)
  qed
  then show "buf_read_header b = Inr (maj, extra, rest) \<Longrightarrow> ?thesis"
    by (auto simp: buf_read_header_def buf_read_fixed_def Let_def split: if_splits)
qed

lemma scan_step_agree:
  assumes "same_parser read_cid try_from" "scan_step read_cid visit remaining buf v = (Inr (remaining', buf'), v')"
  shows "\<exists>cs. scan_item try_from remaining buf = Inr (remaining', buf', cs) \<and> (\<forall>c \<in> set cs. \<exists>v1 v2. visit c v1 = (Inr (), v2))"
proof -
  obtain p v1 maj extra b where h: "cbor_read_header_buf buf = Inr (maj, extra, b)"
      "scan_tail read_cid visit (remaining - 1) p (maj, extra, b) v1 = (Inr (remaining', buf'), v')"
    using assms(2) unfolding scan_step_tail by (auto simp: rlift_Inr elim!: rbind_Inr)
  note hd = headers_agree [OF h(1)]
  consider "maj \<in> {0, 1, 2, 3, 7}" | "maj = 4" | "maj = 5" | "maj = 6" "extra \<noteq> 42" | "maj = 6" "extra = 42" using header_major [OF hd] by auto
  then show ?thesis
  proof cases
    case 1
    then show ?thesis using h(2) hd by (auto simp: scan_tail_def scan_item_def rreturn_def rthrow_def split: if_splits)
  next
    case 2
    then have "checked_add (remaining - 1) extra = Some remaining'" "buf' = b"
      using h(2) by (auto simp: scan_tail_def rreturn_def checked_agree elim!: rbind_Inr)
    then show ?thesis using 2 hd by (auto simp: scan_item_def checked_add_eq_Some)
  next
    case 3
    have "rbind (rlift (or_error Serialization (ok_or () (Option.bind (checked_mul extra 2) (\<lambda>x. checked_add x (remaining - 1)))))) (\<lambda>r. rreturn (r, b)) v1 =
        (Inr (remaining', buf'), v')" using 3 h(2) by (simp add: scan_tail_def)
    then have "Option.bind (checked_mul extra 2) (\<lambda>x. checked_add x (remaining - 1)) = Some remaining'" "buf' = b"
      by (auto simp: rreturn_def rlift_Inr or_error_def ok_or_def elim!: rbind_Inr split: option.splits)
    then have "remaining' = extra * 2 + (remaining - 1)" "buf' = b" by (auto simp: Option.bind_eq_Some_conv checked_add_eq_Some checked_mul_def split: if_splits)
    then show ?thesis using 3 hd by (auto simp: scan_item_def)
  next
    case 4
    then show ?thesis using h(2) hd by (auto simp: scan_tail_def scan_item_def rreturn_def)
  next
    case 5
    have "rbind (lv_charge_gas (p_ipld_cbor_scan_per_cid p)) (\<lambda>_. rbind (read_link read_cid visit b) (\<lambda>b. rreturn (remaining - 1, b))) v1 =
        (Inr (remaining', buf'), v')" using 5 h(2) by (simp add: scan_tail_def)
    then obtain v2 where "read_link read_cid visit b v2 = (Inr buf', v')" "remaining' = remaining - 1"
      by (auto simp: rreturn_def elim!: rbind_Inr)
    then obtain c v3 where "read_tagged_cid try_from b = Inr (c, buf')" "visit c v3 = (Inr (), v')" "remaining' = remaining - 1"
      using read_link_agree [OF assms(1)] by metis
    then show ?thesis using 5 hd by (auto simp: scan_item_def)
  qed
qed


lemma walk_agree:
  assumes "same_parser read_cid try_from"
  shows "scan_walk read_cid visit remaining buf v = (Inr (), v') \<Longrightarrow>
    \<exists>cs. scan_loop try_from remaining buf = Inr cs \<and> (\<forall>c \<in> set cs. \<exists>v1 v2. visit c v1 = (Inr (), v2))"
proof (induction "length buf" arbitrary: remaining buf v rule: less_induct)
  case less
  show ?case
  proof (cases "remaining = 0")
    case True
    then show ?thesis by (subst scan_loop.simps) simp
  next
    case False
    obtain remaining' buf' v1 where s: "scan_step read_cid visit remaining buf v = (Inr (remaining', buf'), v1)"
        "scan_walk read_cid visit remaining' buf' v1 = (Inr (), v')"
      using less.prems False by (subst (asm) scan_walk.simps) (auto split: prod.splits sum.splits)
    obtain cs where cs: "scan_item try_from remaining buf = Inr (remaining', buf', cs)" "\<forall>c \<in> set cs. \<exists>v1 v2. visit c v1 = (Inr (), v2)"
      using scan_step_agree [OF assms s(1)] by blast
    obtain cs' where "scan_loop try_from remaining' buf' = Inr cs'" "\<forall>c \<in> set cs'. \<exists>v1 v2. visit c v1 = (Inr (), v2)"
      using less.hyps [OF scan_step_shorter [OF s(1)] s(2)] by blast
    then show ?thesis using False cs by (subst scan_loop.simps) auto
  qed
qed

definition accepted_cid :: "(bytes \<Rightarrow> (Cid \<times> bytes) option) \<Rightarrow> Cid \<Rightarrow> bool" where
  "accepted_cid read_cid c \<longleftrightarrow> (\<exists>fuel v v'. visit_cid read_cid fuel c v = (Inr (), v'))"

lemma inner_agree:
  assumes "same_parser read_cid try_from" "scan_for_links_inner read_cid fuel (cid_codec k) data v = (Inr (), v')"
  shows "\<exists>cs. links_in try_from k data = Inr cs \<and> (\<forall>c \<in> set cs. accepted_cid read_cid c)"
  using assms(2) walk_agree [OF assms(1), of "visit_cid read_cid fuel" 1 data v v']
  by (auto simp: scan_for_links_inner.simps links_in_def scan_for_links_def accepted_cid_def) blast

lemma accepted_check:
  assumes "same_parser read_cid try_from" "accepted_cid read_cid c"
  shows "\<exists>tracked. check_cid c = Inr tracked \<and>
    (tracked \<and> mh_code c = IDENTITY_HASH \<longrightarrow> (\<exists>cs. links_in try_from c (mh_digest c) = Inr cs \<and> (\<forall>c' \<in> set cs. accepted_cid read_cid c')))"
proof -
  obtain fuel v v' where v: "visit_cid read_cid fuel c v = (Inr (), v')" using assms(2) by (auto simp: accepted_cid_def)
  show ?thesis
  proof (cases "cid_codec c \<in> set IGNORED_CODECS")
    case True
    then show ?thesis by (auto simp: check_cid_def IGNORED_CODECS_def)
  next
    case False
    then have codec: "cid_codec c \<in> set ALLOWED_CODECS" using v by (auto simp: visit_cid.simps Let_def rthrow_def split: if_splits)
    show ?thesis
    proof (cases "mh_code c = IDENTITY_HASH")
      case True
      then obtain n where "scan_for_links_inner read_cid n (cid_codec c) (mh_digest c) v = (Inr (), v')"
        using v False codec by (auto simp: visit_cid.simps Let_def rthrow_def split: nat.splits)
      moreover have "check_cid c = Inr True" using True False codec by (auto simp: check_cid_def IGNORED_CODECS_def ALLOWED_CODECS_def)
      ultimately show ?thesis using inner_agree [OF assms(1)] by blast
    next
      case other: False
      then have "mh_code c = BLAKE2B_256 \<and> length (mh_digest c) = 32"
        using v False codec by (auto simp: visit_cid.simps Let_def rthrow_def split: if_splits)
      then show ?thesis using other False codec by (auto simp: check_cid_def IGNORED_CODECS_def ALLOWED_CODECS_def)
    qed
  qed
qed

text \<open>The blocks that the kernel let an actor create.\<close>

definition accepted_block :: "(bytes \<Rightarrow> (Cid \<times> bytes) option) \<Rightarrow> Cid \<Rightarrow> bytes \<Rightarrow> bool" where
  "accepted_block read_cid k data \<longleftrightarrow> (\<exists>fuel v v'. scan_for_links_inner read_cid fuel (cid_codec k) data v = (Inr (), v'))"

lemma take_loop_accepts:
  assumes "take_loop try_from stack cache result = Some y"
  shows "same_parser read_cid try_from \<longrightarrow> (\<forall>k \<in> set stack. accepted_cid read_cid k) \<longrightarrow> (\<forall>k b. cache k = Some b \<longrightarrow> accepted_block read_cid k b) \<longrightarrow> (\<exists>res. fst y = Inr res)"
proof (rule take_loop.raw_induct [OF _ assms], goal_cases)
  case (1 loop try_from stack cache result y)
  note IH = 1(1) [rule_format] and step = 1(2)
  show ?case
  proof (intro impI, cases stack)
    case Nil
    then show "\<exists>res. fst y = Inr res" using step by auto
  next
    case (Cons k ks)
    assume same: "same_parser read_cid try_from" and acc: "\<forall>k \<in> set stack. accepted_cid read_cid k" and blocks: "\<forall>k b. cache k = Some b \<longrightarrow> accepted_block read_cid k b"
    have k: "accepted_cid read_cid k" "\<forall>k \<in> set ks. accepted_cid read_cid k" using acc Cons by auto
    note k1 = accepted_check [OF same k(1)]
    show "\<exists>res. fst y = Inr res"
    proof (cases rule: check_cases [where k = k and cache = cache])
      case (refused e)
      then show ?thesis using k1 by auto
    next
      case ignored
      then show ?thesis using IH [of try_from ks cache result y] step Cons same k(2) blocks by simp
    next
      case inline
      then obtain cs where "links_in try_from k (mh_digest k) = Inr cs" "\<forall>c' \<in> set cs. accepted_cid read_cid c'" using k1 by auto
      then show ?thesis using IH [of try_from "rev cs @ ks" cache result y] step Cons same inline k(2) blocks by auto
    next
      case absent
      then show ?thesis using IH [of try_from ks cache result y] step Cons same k(2) blocks by simp
    next
      case (present b)
      then obtain fuel v v' where "scan_for_links_inner read_cid fuel (cid_codec k) b v = (Inr (), v')"
        using blocks unfolding accepted_block_def by blast
      then obtain cs where "links_in try_from k b = Inr cs" "\<forall>c \<in> set cs. accepted_cid read_cid c" using inner_agree [OF same] by blast
      moreover have "\<forall>k' b. (cache(k := None)) k' = Some b \<longrightarrow> accepted_block read_cid k' b" using blocks by simp
      moreover have "\<forall>k \<in> set (rev cs @ ks). accepted_cid read_cid k" using k(2) calculation(2) by auto
      ultimately show ?thesis using IH [of try_from "rev cs @ ks" "cache(k := None)" "result @ [(k, b)]" y] step Cons same present
        by (simp del: fun_upd_apply)
    qed
  qed
qed

subsection \<open>Theorems\<close>

lemma buffered_get_fst: "fst (buffered_get ops b c) = (case bb_write b c of Some data \<Rightarrow> Inr (Some data) | None \<Rightarrow> fst (so_get ops (bb_base b) c))"
  by (auto simp: buffered_get_def split: option.splits prod.splits)

text \<open>
  C34: A flush of the buffered store always ends. When it succeeds, it has moved exactly the blocks of the
  write buffer that are reached from the root by the links of buffered DAG-CBOR blocks and of inline CIDs:
  they are in the store below and no longer in the buffer, every other block of the buffer and of the
  store below is as it was, and no reader of the buffered store sees a difference.
\<close>

theorem flush_moves_reachable:
  assumes "block_store ops" "cid_parser_ok try_from" "finite (dom (bb_write b))"
  shows "\<exists>r b'. buffered_flush try_from ops root b = Some (r, b') \<and>
    (r = Inr () \<longrightarrow>
      (\<forall>c. fst (buffered_get ops b' c) = fst (buffered_get ops b c)) \<and>
      (\<forall>c. fst (so_get ops (bb_base b') c) =
        (if c \<in> moved try_from (bb_write b) root then Inr (bb_write b c) else fst (so_get ops (bb_base b) c))) \<and>
      bb_write b' = bb_write b |` (- moved try_from (bb_write b) root))"
proof -
  let ?W = "bb_write b" and ?M = "moved try_from (bb_write b) root"
  obtain r cache where r: "take_reachable try_from ?W root = Some (r, cache)"
      "\<forall>blocks. r = Inr blocks \<longrightarrow> cache = ?W |` (- ?M) \<and> map_of (rev blocks) = ?W |` ?M"
    using take_reachable_moves [OF assms(2,3)] by blast
  show ?thesis
  proof (cases r)
    case (Inl e)
    then show ?thesis using r(1) by (simp add: buffered_flush_def Let_def)
  next
    case (Inr blocks)
    obtain q base where put: "so_put_many_keyed ops (bb_base b) blocks = (q, base)" by fastforce
    show ?thesis
    proof (cases q)
      case (Inl e)
      then show ?thesis using r(1) Inr put by (simp add: buffered_flush_def Let_def)
    next
      case ok: (Inr u)
      let ?b = "b\<lparr>bb_write := cache, bb_base := base\<rparr>"
      have M: "?W c \<noteq> None" if "c \<in> ?M" for c using that by (simp add: moved_def stored_in_def)
      have base: "fst (so_get ops base c) = (if c \<in> ?M then Inr (?W c) else fst (so_get ops (bb_base b) c))" for c
        using block_store.put_many_get [OF assms(1), of "bb_base b" blocks base c] put ok r(2) Inr M [of c] by (auto simp: restrict_map_def)
      have wr: "cache = ?W |` (- ?M)" using r(2) Inr by blast
      have view: "fst (buffered_get ops ?b c) = fst (buffered_get ops b c)" for c
        using M [of c] by (auto simp: buffered_get_fst base wr restrict_map_def split: option.splits)
      have "buffered_flush try_from ops root b = Some (Inr (), ?b)" using r(1) Inr put ok by (simp add: buffered_flush_def Let_def)
      then show ?thesis using base wr view by simp
    qed
  qed
qed

text \<open>A small store: a root block without links.\<close>

definition sample_cid :: "u64 \<Rightarrow> bytes \<Rightarrow> Cid" where
  "sample_cid codec digest = \<lparr>cid_version = 1, cid_codec = codec, mh_code = BLAKE2B_256, mh_digest = digest\<rparr>"

definition sample_root :: Cid where
  "sample_root = sample_cid IPLD_RAW (replicate 32 7)"

definition no_cids :: cid_parser where
  "no_cids b = None"

lemma sample_root_moved: "moved no_cids [sample_root \<mapsto> [1]] sample_root = {sample_root}"
proof -
  have links: "flush_links no_cids [sample_root \<mapsto> [1]] sample_root = []"
    by (simp add: flush_links_def links_in_def sample_root_def sample_cid_def IDENTITY_HASH_def BLAKE2B_256_def codec_defs)
  have "k = sample_root" if "reached no_cids [sample_root \<mapsto> [1]] sample_root k" for k
    using that by induction (use links in auto)
  then show ?thesis
    by (auto simp: moved_def stored_in_def check_cid_def sample_root_def sample_cid_def IDENTITY_HASH_def BLAKE2B_256_def codec_defs intro: reached_root)
qed

theorem flush_moves_reachable_witness:
  "\<exists>b'. buffered_flush no_cids memory_ops sample_root \<lparr>bb_base = Map.empty, bb_write = [sample_root \<mapsto> [1]]\<rparr> = Some (Inr (), b') \<and>
    fst (so_get memory_ops (bb_base b') sample_root) = Inr (Some [1]) \<and> bb_write b' sample_root = None"
proof -
  let ?b = "\<lparr>bb_base = Map.empty, bb_write = [sample_root \<mapsto> [1]]\<rparr> :: MemoryBlockstore BufferedBlockstore"
  have root: "check_cid sample_root = Inr True" "mh_code sample_root \<noteq> IDENTITY_HASH" "links_in no_cids sample_root [1] = Inr []"
    by (simp_all add: check_cid_def links_in_def sample_root_def sample_cid_def codec_defs IDENTITY_HASH_def BLAKE2B_256_def)
  have "take_reachable no_cids (bb_write ?b) sample_root = Some (Inr [(sample_root, [1])], (bb_write ?b)(sample_root := None))"
    using root by (simp add: take_reachable_def take_loop_step)
  then obtain b1 where b1: "buffered_flush no_cids memory_ops sample_root ?b = Some (Inr (), b1)"
    by (simp add: buffered_flush_def memory_ops_def memory_put_keyed_def Let_def)
  have "finite (dom (bb_write ?b))" "cid_parser_ok no_cids" by (simp_all add: cid_parser_ok_def no_cids_def)
  then show ?thesis using flush_moves_reachable [OF memory_store, of no_cids ?b sample_root] b1 by (auto simp: sample_root_moved)
qed

text \<open>
  C35: What the kernel accepts can be flushed. When every buffered block passed the link scan of the kernel
  (which every block that an actor creates does) and the root is a CID that the kernel accepts, the traversal of a
  flush does not fail, and the flush succeeds whenever the store below takes the blocks.
\<close>

theorem accepted_blocks_flush:
  assumes "block_store ops" "cid_parser_ok try_from" "finite (dom (bb_write b))" "same_parser read_cid try_from"
    and "accepted_cid read_cid root" "\<forall>k data. bb_write b k = Some data \<longrightarrow> accepted_block read_cid k data"
  shows "\<exists>blocks cache. take_reachable try_from (bb_write b) root = Some (Inr blocks, cache) \<and>
    (\<forall>base. so_put_many_keyed ops (bb_base b) blocks = (Inr (), base) \<longrightarrow>
      buffered_flush try_from ops root b = Some (Inr (), b\<lparr>bb_base := base, bb_write := cache\<rparr>))"
proof -
  obtain r cache where r: "take_loop try_from [root] (bb_write b) [] = Some (r, cache)"
    using take_reachable_moves [OF assms(2,3), of root] by (auto simp: take_reachable_def)
  then obtain blocks where "r = Inr blocks" using take_loop_accepts [OF r, of read_cid] assms(4,5,6) by auto
  then show ?thesis using r by (auto simp: take_reachable_def buffered_flush_def Let_def)
qed

theorem accepted_blocks_flush_witness:
  "\<exists>blocks cache. take_reachable no_cids [sample_root \<mapsto> [1]] sample_root = Some (Inr blocks, cache)"
proof -
  let ?b = "\<lparr>bb_base = Map.empty, bb_write = [sample_root \<mapsto> [1]]\<rparr> :: MemoryBlockstore BufferedBlockstore"
  have codec: "cid_codec sample_root = IPLD_RAW" "mh_code sample_root = BLAKE2B_256" "length (mh_digest sample_root) = 32"
    by (simp_all add: sample_root_def sample_cid_def)
  have "accepted_cid (\<lambda>_. None) sample_root"
    unfolding accepted_cid_def using codec
    by (auto simp: visit_cid.simps Let_def rmodify_def codec_defs IDENTITY_HASH_def BLAKE2B_256_def)
  moreover have "\<forall>k data. bb_write ?b k = Some data \<longrightarrow> accepted_block (\<lambda>_. None) k data"
    using codec by (auto simp: accepted_block_def scan_for_links_inner.simps rreturn_def codec_defs split: if_splits)
  moreover have "finite (dom (bb_write ?b))" "cid_parser_ok no_cids" "same_parser (\<lambda>_. None) no_cids"
    by (simp_all add: cid_parser_ok_def no_cids_def same_parser_def)
  ultimately show ?thesis using accepted_blocks_flush [OF memory_store, of no_cids ?b "\<lambda>_. None" sample_root] by auto
qed





end
