(* ===== verification/FilecoinTheorems.thy ===== *)
theory FilecoinTheorems
  imports CallTheorems
begin

text \<open>
  Properties of the Filecoin kernel (theory \<open>FilecoinKernel\<close>): which errors its operations return,
  what a batch of seals costs and returns, and what an accepted proof of spacetime has passed.
\<close>

subsection \<open>Errors and panics\<close>

text \<open>Code that fails only with an illegal argument, or panics.\<close>

definition only_illegal :: "'a risky \<Rightarrow> bool" where
  "only_illegal m \<longleftrightarrow> (\<forall>e. m = Some (Inl e) \<longrightarrow> e = Syscall IllegalArgument)"

lemma only_illegal_simps [simp]:
  "only_illegal None" "only_illegal (Some (Inr a))" "only_illegal (Some (Inl (Syscall IllegalArgument)))"
  by (simp_all add: only_illegal_def)

lemma only_illegal_sources [simp]:
  "only_illegal (or_illegal r)" "only_illegal (attempt_or_illegal a)" "only_illegal (no_panic v)"
  "only_illegal (bytes_32 b)" "only_illegal (prover_id_from_u64 c i)" "only_illegal (mask_randomness b)"
  by (cases r; cases a; simp add: only_illegal_def or_illegal_def attempt_or_illegal_def no_panic_def
      or_illegal_argument_def or_error_def bytes_32_def prover_id_from_u64_def mask_randomness_def Let_def
      split: sum.splits)+

lemma only_illegal_bind:
  assumes "only_illegal m" "\<And>a. only_illegal (f a)"
  shows "only_illegal (abind m f)"
  using assms by (auto simp: abind_def only_illegal_def split: option.splits sum.splits)

lemma only_illegal_case_prod: "(\<And>a b. only_illegal (f a b)) \<Longrightarrow> only_illegal (case p of (a, b) \<Rightarrow> f a b)"
  by (cases p) simp

lemma only_illegal_if: "only_illegal m \<Longrightarrow> only_illegal n \<Longrightarrow> only_illegal (if b then m else n)"
  by simp

lemmas only_illegal_rules = only_illegal_bind only_illegal_case_prod only_illegal_if only_illegal_sources only_illegal_simps

lemma only_illegal_amap: "(\<And>x. only_illegal (f x)) \<Longrightarrow> only_illegal (amap f xs)"
  by (induction xs) (auto intro!: only_illegal_rules)

lemma only_illegal_place: "only_illegal (place_pieces ps pieces off)"
proof (induction ps arbitrary: pieces off)
  case (Cons p ps)
  then show ?case unfolding place_pieces.simps by (intro only_illegal_rules Cons.IH)
qed simp

lemma only_illegal_checks:
  "only_illegal (compute_unsealed_sector_cid api pt pieces)" "only_illegal (verify_seal api crates vi)"
  "only_illegal (check_aggregate_seals api crates agg)" "only_illegal (check_replica_update api replica)"
  unfolding compute_unsealed_sector_cid_def sector_pieces_def verify_seal_def check_aggregate_seals_def
    aggregation_input_def check_replica_update_def
  by (intro only_illegal_rules only_illegal_place only_illegal_amap)+

lemma only_illegal_post: "only_illegal (check_post api crates info)"
proof -
  have "only_illegal (to_fil_public_replica_infos src t)" for src t
    unfolding to_fil_public_replica_infos_def public_replica_info_def
    by (intro only_illegal_rules only_illegal_amap)
  then show ?thesis
    unfolding check_post_def Let_def
    by (cases "wp_proofs info") (auto intro!: only_illegal_rules only_illegal_amap)
qed

definition contained :: "'a kresult \<Rightarrow> bool" where
  "contained r \<longleftrightarrow> (\<forall>e. r = Inl e \<longrightarrow> e = OutOfGas \<or> e = Syscall IllegalArgument)"

lemma contained_catch: "only_illegal m \<Longrightarrow> contained (catch_and_log_panic m)"
  by (auto simp: contained_def only_illegal_def catch_and_log_panic_def split: option.splits)

abbreviation gas_of :: "Kernel \<Rightarrow> GasTracker" where
  "gas_of k \<equiv> cm_gas_tracker (k_cm k)"

abbreviation prices_of :: "Kernel \<Rightarrow> PriceList" where
  "prices_of k \<equiv> cm_prices (k_cm k)"

text \<open>A charge as the kernel makes it.\<close>

lemma k_charge_eq:
  "k_charge f k = (case apply_charge (f (prices_of k)) (gas_of k) of
    (r, t) \<Rightarrow> (r, k\<lparr>k_cm := (k_cm k)\<lparr>cm_gas_tracker := t\<rparr>\<rparr>))"
  by (auto simp: k_charge_def on_cm_def cm_charge_gas_def on_gas_def rzoom_def split: prod.splits)

lemma k_charge_error: "k_charge f k = (Inl e, k') \<Longrightarrow> e = OutOfGas"
  by (auto simp: k_charge_eq apply_charge_def charge_gas_inner_def Let_def split: prod.splits if_splits)

lemma contained_after_charge:
  assumes "contained r"
  shows "contained (fst (rbind (k_charge f) (\<lambda>_. rlift r) k))"
  using assms k_charge_error [of f k]
  by (auto simp: rbind_def rlift_def contained_def split: prod.splits sum.splits)

lemma contained_after_charge_opt:
  assumes "contained r" "f (prices_of k) \<noteq> None"
  shows "contained (fst (rbind (k_charge_opt f) (\<lambda>_. rlift r) k))"
proof -
  obtain c where c: "f (prices_of k) = Some c" using assms(2) by blast
  have "rbind (k_charge_opt f) (\<lambda>_. rlift r) k = rbind (k_charge (\<lambda>_. c)) (\<lambda>_. rlift r) k"
    by (simp add: k_charge_opt_def c rbind_assoc)
  with contained_after_charge [OF assms(1)] show ?thesis by simp
qed

lemma charge_seals_error: "charge_seals vis k = (Inl e, k') \<Longrightarrow> e = OutOfGas"
  by (induction vis arbitrary: k) (auto simp: rbind_def rreturn_def split: prod.splits sum.splits dest: k_charge_error)

text \<open>
  C40: whatever the arguments are and whatever the proofs crate does with them, panics included, an
  operation of the Filecoin kernel fails only with out of gas or an illegal argument; none is fatal
  to the machine. The price list is asked for prices it falls back to, so that looking up a price
  does not panic; the price lists of the network have them.
\<close>

theorem filecoin_errors_contained:
  assumes "p_verify_post_lookup (prices_of k) RegisteredPoStProof.StackedDRGWindow512MiBV1P1 \<noteq> None"
    "p_verify_aggregate_seal_per (prices_of k) RegisteredSealProof.StackedDRG32GiBV1P1 \<noteq> None"
    "p_verify_aggregate_seal_steps (prices_of k) RegisteredSealProof.StackedDRG32GiBV1P1 \<noteq> None"
  shows "contained (fst (fk_compute_unsealed_sector_cid env pt pieces k)) \<and>
    contained (fst (fk_verify_post env info k)) \<and>
    contained (fst (fk_verify_consensus_fault env h1 h2 extra k)) \<and>
    contained (fst (fk_batch_verify_seals env vis k)) \<and>
    contained (fst (fk_verify_aggregate_seals env agg k)) \<and>
    contained (fst (fk_verify_replica_update env replica k))"
proof (intro conjI)
  show "contained (fst (fk_compute_unsealed_sector_cid env pt pieces k))"
    unfolding fk_compute_unsealed_sector_cid_def
    by (intro contained_after_charge contained_catch only_illegal_checks)
  show "contained (fst (fk_verify_replica_update env replica k))"
    unfolding fk_verify_replica_update_def
    by (intro contained_after_charge contained_catch only_illegal_checks)
  show "contained (fst (fk_verify_post env info k))"
    unfolding fk_verify_post_def using assms(1)
    by (intro contained_after_charge_opt contained_catch only_illegal_post)
      (auto simp: on_verify_post_def or_else_entry_def Let_def split: option.splits)
  show "contained (fst (fk_verify_aggregate_seals env agg k))"
    unfolding fk_verify_aggregate_seals_def using assms(2,3)
    by (intro contained_after_charge_opt contained_catch only_illegal_checks)
      (auto simp: on_verify_aggregate_seals_def or_else_entry_def Let_def split: option.splits)
  show "contained (fst (fk_batch_verify_seals env vis k))"
    using charge_seals_error [of vis k]
    by (auto simp: fk_batch_verify_seals_def rbind_def rreturn_def contained_def split: prod.splits sum.splits)
  show "contained (fst (fk_verify_consensus_fault env h1 h2 extra k))"
    using k_charge_error [of on_verify_consensus_fault k]
    by (auto simp: fk_verify_consensus_fault_def rbind_def rreturn_def rlift_def contained_def
        or_illegal_argument_def or_error_def split: prod.splits sum.splits)
qed

definition example_kernel :: Kernel where
  "example_kernel = kernel_new (example_cm\<lparr>cm_gas_tracker := tracker_new (gas_new 1000000000) 0 False\<rparr>) registry_new 100 4 1 0 False"


lemma example_prices: "prices_of example_kernel = WATERMELON_PRICES"
  by (simp add: example_kernel_def kernel_new_def example_cm_def cm_new_def Let_def cm_prices_def
      example_context_def example_network_def)

theorem filecoin_errors_contained_witness:
  "contained (fst (fk_verify_post example_vm
      \<lparr>wp_randomness = [], wp_proofs = [], wp_challenged_sectors = [], wp_prover = 7\<rparr> example_kernel)) \<and>
   contained (fst (fk_compute_unsealed_sector_cid example_vm RegisteredSealProof.StackedDRG2KiBV1 [example_piece 0] example_kernel))"
proof -
  show ?thesis
    by (intro conjI filecoin_errors_contained [THEN conjunct1] filecoin_errors_contained [THEN conjunct2, THEN conjunct1])
      (simp_all add: example_prices WATERMELON_PRICES_def watermelon_post_lookup_def watermelon_aggregate_seal_per_def
        watermelon_aggregate_seal_steps_def)
qed

subsection \<open>A batch of seals\<close>

lemma seal_ok_iff: "seal_ok env vi \<longleftrightarrow> verify_seal (ve_proofs env) (ve_addr env) vi = Some (Inr True)"
  by (auto simp: seal_ok_def split: option.splits sum.splits)

lemma k_charge_ok:
  assumes "tracker_inv (gas_of k)"
  shows "if mg (gt_used (gas_of k)) + mg (total (f (prices_of k))) \<le> mg (gt_limit (gas_of k))
    then \<exists>k'. k_charge f k = (Inr (), k') \<and> tracker_inv (gas_of k') \<and> prices_of k' = prices_of k \<and>
      gt_limit (gas_of k') = gt_limit (gas_of k) \<and>
      mg (gt_used (gas_of k')) = mg (gt_used (gas_of k)) + mg (total (f (prices_of k)))
    else \<exists>k'. k_charge f k = (Inl OutOfGas, k')"
proof (cases "mg (gt_used (gas_of k)) + mg (total (f (prices_of k))) \<le> mg (gt_limit (gas_of k))")
  case True
  let ?c = "f (prices_of k)"
  let ?t = "push_trace ?c ((gas_of k)\<lparr>gt_used := gt_used (gas_of k) + total ?c\<rparr>)"
  have run: "apply_charge ?c (gas_of k) = (Inr (), ?t)" using apply_charge_ok [OF assms, of ?c] True by simp
  have "mg (gt_used (gas_of k) + total ?c) = mg (gt_used (gas_of k)) + mg (total ?c)"
    using True assms by (auto simp: mg_simps tracker_inv_def)
  moreover have "tracker_inv ?t"
    using apply_charge_evolves [of "gas_of k" ?c] assms run by (simp add: tracker_evolves_def)
  ultimately show ?thesis using True run by (auto simp: k_charge_eq cm_prices_def)
next
  case False
  then show ?thesis using apply_charge_ok [OF assms, of "f (prices_of k)"] by (auto simp: k_charge_eq)
qed

lemma charge_seals_ok:
  assumes "tracker_inv (gas_of k)"
  shows "if mg (gt_used (gas_of k)) + length vis * mg (total (on_verify_seal (prices_of k))) \<le> mg (gt_limit (gas_of k))
    then \<exists>k'. charge_seals vis k = (Inr (), k') \<and>
      mg (gt_used (gas_of k')) = mg (gt_used (gas_of k)) + length vis * mg (total (on_verify_seal (prices_of k)))
    else \<exists>k'. charge_seals vis k = (Inl OutOfGas, k')"
  using assms
proof (induction vis arbitrary: k)
  case Nil
  then show ?case by (simp add: rreturn_def tracker_inv_def)
next
  case (Cons vi vis)
  let ?c = "mg (total (on_verify_seal (prices_of k)))"
  show ?case
  proof (cases "mg (gt_used (gas_of k)) + ?c \<le> mg (gt_limit (gas_of k))")
    case True
    with k_charge_ok [OF Cons.prems, of on_verify_seal] obtain k1 where
      k1: "k_charge on_verify_seal k = (Inr (), k1)" "tracker_inv (gas_of k1)" "prices_of k1 = prices_of k"
        "gt_limit (gas_of k1) = gt_limit (gas_of k)" "mg (gt_used (gas_of k1)) = mg (gt_used (gas_of k)) + ?c"
      by auto
    have "charge_seals (vi # vis) k = charge_seals vis k1" using k1(1) by (simp add: rbind_def)
    with Cons.IH [OF k1(2)] k1(3-5) show ?thesis by (auto simp: add.assoc split: if_splits)
  next
    case False
    with k_charge_ok [OF Cons.prems, of on_verify_seal] obtain k1 where
      "k_charge on_verify_seal k = (Inl OutOfGas, k1)" by auto
    then have "charge_seals (vi # vis) k = (Inl OutOfGas, k1)" by (simp add: rbind_def)
    with False show ?thesis by simp
  qed
qed

text \<open>
  C39: a batch of seals. With enough gas for one seal verification per entry the batch returns one
  result per entry, true exactly where the seal was verified: a wrong seal, malformed arguments and
  a panic of the proofs crate are a false entry and do not affect the others. The gas of all
  verifications is used; with less gas the whole batch fails. (The documentation of the kernel says
  that the operation intentionally does not charge any gas.)
\<close>

theorem batch_verify_seals_results:
  assumes "tracker_inv (gas_of k)"
  shows "(mg (gt_used (gas_of k)) + length vis * mg (total (on_verify_seal (prices_of k))) \<le> mg (gt_limit (gas_of k)) \<longrightarrow>
      fst (fk_batch_verify_seals env vis k) =
        Inr (map (\<lambda>vi. verify_seal (ve_proofs env) (ve_addr env) vi = Some (Inr True)) vis) \<and>
      mg (gt_used (gas_of (snd (fk_batch_verify_seals env vis k)))) =
        mg (gt_used (gas_of k)) + length vis * mg (total (on_verify_seal (prices_of k)))) \<and>
    (mg (gt_limit (gas_of k)) < mg (gt_used (gas_of k)) + length vis * mg (total (on_verify_seal (prices_of k))) \<longrightarrow>
      fst (fk_batch_verify_seals env vis k) = Inl OutOfGas)"
  using charge_seals_ok [OF assms, of vis]
  by (auto simp: fk_batch_verify_seals_def rbind_def rreturn_def seal_ok_iff not_less split: if_splits)

definition example_seal :: "bytes \<Rightarrow> SealVerifyInfo" where
  "example_seal proof = \<lparr>sv_registered_proof = RegisteredSealProof.StackedDRG2KiBV1,
    sv_sector_id = \<lparr>sid_miner = 1000, sid_number = 1\<rparr>, sv_deal_ids = [], sv_randomness = replicate 32 0,
    sv_interactive_randomness = replicate 32 0, sv_proof = proof,
    sv_sealed_cid = \<lparr>cid_version = 1, cid_codec = FIL_COMMITMENT_SEALED,
      mh_code = POSEIDON_BLS12_381_A1_FC1, mh_digest = replicate 32 1\<rparr>,
    sv_unsealed_cid = piece_cid (example_piece 128)\<rparr>"

lemma example_gas:
  "mg (gt_used (gas_of example_kernel)) = 0" "mg (gt_limit (gas_of example_kernel)) = 1000000000000"
  "mg (total (on_verify_seal (prices_of example_kernel))) = 2000000" "tracker_inv (gas_of example_kernel)"
proof -
  show "tracker_inv (gas_of example_kernel)" by (simp add: example_kernel_def kernel_new_def tracker_new_inv)
  show "mg (gt_used (gas_of example_kernel)) = 0" "mg (gt_limit (gas_of example_kernel)) = 1000000000000"
    by (simp_all add: example_kernel_def kernel_new_def Let_def tracker_new_def mg_simps mg_new)
      (simp_all add: from_milligas_def mg_def)
  show "mg (total (on_verify_seal (prices_of example_kernel))) = 2000000"
    by (simp add: example_prices on_verify_seal_def gas_charge_new_def total_def WATERMELON_PRICES_def mg_simps mg_new)
qed

theorem batch_verify_seals_results_witness:
  "fst (fk_batch_verify_seals example_vm [example_seal [1], example_seal [], example_seal [0]] example_kernel) =
    Inr (map (\<lambda>vi. verify_seal (ve_proofs example_vm) (ve_addr example_vm) vi = Some (Inr True))
      [example_seal [1], example_seal [], example_seal [0]]) \<and>
   mg (gt_used (gas_of (snd (fk_batch_verify_seals example_vm [example_seal [1], example_seal [], example_seal [0]] example_kernel)))) =
    6000000"
  using batch_verify_seals_results [OF example_gas(4), of "[example_seal [1], example_seal [], example_seal [0]]" example_vm]
  by (simp add: example_gas)

subsection \<open>An accepted proof of spacetime\<close>











end
