(* ===== verification/KamtExt.thy ===== *)
theory KamtExt
  imports HashBits
begin

text \<open>
  The extensions of KAMT links: \<open>ipld/kamt/src/ext.rs\<close> and \<open>ipld/kamt/src/hash_bits.rs\<close>. An extension is
  a path of bits, packed into bytes, that all keys below a link have in common; the levels it covers have
  no nodes. The theory shows that packing, splitting and merging extensions are taking, cutting and
  appending lists of bits, and what the two searches for common prefixes return.

  The bits of a key are taken as in the HAMT (\<open>next_bits\<close>, here with 32-bit words; at most eight bits
  are taken at a time). Lengths are natural numbers; they are at most the length of a key in bits.
\<close>

subsection \<open>Positions in a path\<close>

text \<open>\<open>HashBits::next\<close> on the first \<open>len\<close> bits of \<open>b\<close>: the number of the next bits and the new position.\<close>

definition kb_next :: "bytes \<Rightarrow> nat \<Rightarrow> nat \<Rightarrow> nat \<Rightarrow> HamtError + nat \<times> nat" where
  "kb_next b len consumed i =
    (if i > 8 \<or> i = 0 then Inl InvalidHashBitLen
     else if consumed \<ge> len then Inl MaxDepth
     else
       let maxi = len - consumed
       in case next_bits b consumed (min i maxi) of
            None \<Rightarrow> Inl Panic
          | Some (w, consumed) \<Rightarrow> Inr (unat w, consumed))"

lemma kb_next_value:
  assumes "0 < i" "i \<le> 8" "consumed < len" "len \<le> 8 * length b"
  defines "n \<equiv> min i (len - consumed)"
  shows "kb_next b len consumed i = Inr (bits_value (take n (drop consumed (key_bits b))), consumed + n)"
proof -
  have "0 < n" "n \<le> 8" "consumed + n \<le> 8 * length b" using assms by (auto simp: n_def)
  then obtain w where "next_bits b consumed n = Some (w, consumed + n)" "unat w = bits_value (take n (drop consumed (key_bits b)))"
    using next_bits_value by blast
  then show ?thesis using assms by (simp add: kb_next_def Let_def)
qed

lemma kb_next_width: "kb_next b len c i = Inr r \<Longrightarrow> 0 < i \<and> c < len"
  by (auto simp: kb_next_def split: if_splits)

lemma next_bits_step: "next_bits b c i = Some (w, c') \<Longrightarrow> c' = c + i"
proof (induction b c i arbitrary: w c' rule: next_bits.induct)
  case (1 b c i)
  then show ?case
    by (subst (asm) (2) next_bits.simps) (auto simp: Let_def split: if_splits)
qed

lemma kb_next_less: "kb_next b len c i = Inr (w, c') \<Longrightarrow> c < c' \<and> c' \<le> len"
  by (auto simp: kb_next_def Let_def dest!: next_bits_step split: if_splits option.splits)

subsection \<open>Building an extension\<close>

record Extension =
  ext_length :: nat
  ext_path :: bytes

definition ext_default :: Extension where
  "ext_default = \<lparr>ext_length = 0, ext_path = []\<rparr>"

record ExtensionBuilder =
  eb_written :: nat
  eb_out :: u8
  eb_path :: bytes

definition eb_new :: ExtensionBuilder where
  "eb_new = \<lparr>eb_written = 0, eb_out = 0, eb_path = []\<rparr>"

definition eb_add :: "nat \<Rightarrow> u8 \<Rightarrow> ExtensionBuilder \<Rightarrow> ExtensionBuilder" where
  "eb_add bw n s =
    (let j = eb_written s mod 8;
         i = bw;
         (path, out) =
           (if j + i > 8 then
              let carry = j + i - 8
              in (eb_path s @ [eb_out s + drop_bit carry n], push_bit (8 - carry) (n AND mkmask carry))
            else (eb_path s, eb_out s + push_bit (8 - j - i) n));
         written = eb_written s + i
     in if written mod 8 = 0 then \<lparr>eb_written = written, eb_out = 0, eb_path = path @ [out]\<rparr>
        else \<lparr>eb_written = written, eb_out = out, eb_path = path\<rparr>)"

definition eb_build :: "ExtensionBuilder \<Rightarrow> Extension" where
  "eb_build s = \<lparr>ext_length = eb_written s,
    ext_path = (if eb_written s mod 8 \<noteq> 0 then eb_path s @ [eb_out s] else eb_path s)\<rparr>"

subsection \<open>Operations on extensions\<close>

definition ext_next :: "Extension \<Rightarrow> nat \<Rightarrow> nat \<Rightarrow> HamtError + nat \<times> nat" where
  "ext_next e consumed i = kb_next (ext_path e) (ext_length e) consumed i"

definition ext_is_empty :: "Extension \<Rightarrow> bool" where
  "ext_is_empty e \<longleftrightarrow> ext_length e = 0"

text \<open>
  The loop of \<open>longest_match\<close>: positions in the key and in the path, and the bits matched so far; it
  returns the bits matched and the position in the key.
\<close>

function match_loop :: "Extension \<Rightarrow> bytes \<Rightarrow> nat \<Rightarrow> nat \<Rightarrow> nat \<Rightarrow> nat \<Rightarrow> HamtError + nat \<times> nat" where
  "match_loop e key bw consumed path matched =
    (if matched < ext_length e then
       (case kb_next key (8 * length key) consumed bw of
          Inl err \<Rightarrow> Inl err
        | Inr (n1, consumed') \<Rightarrow>
            (case ext_next e path bw of
               Inl err \<Rightarrow> Inl err
             | Inr (n2, path') \<Rightarrow>
                 if n1 \<noteq> n2 then Inr (matched, consumed)
                 else match_loop e key bw consumed' path' (matched + bw)))
     else Inr (matched, consumed))"
  by pat_completeness auto
termination
  by (relation "measure (\<lambda>(e, key, bw, consumed, path, matched). ext_length e - matched)")
    (auto dest: kb_next_width)

declare match_loop.simps [simp del]

definition longest_match :: "Extension \<Rightarrow> bytes \<Rightarrow> nat \<Rightarrow> nat \<Rightarrow> HamtError + nat \<times> nat" where
  "longest_match e key consumed bw = match_loop e key bw consumed 0 0"

text \<open>
  The next bits of each of the hashes are compared with those of the key; all of them are at the same
  position. \<open>None\<close>: one of them differs.
\<close>

fun next_all :: "nat \<Rightarrow> nat \<Rightarrow> nat \<Rightarrow> bytes list \<Rightarrow> HamtError + bool" where
  "next_all n consumed bw [] = Inr True"
| "next_all n consumed bw (h # hs) =
    (case kb_next h (8 * length h) consumed bw of
       Inl err \<Rightarrow> Inl err
     | Inr (nh, _) \<Rightarrow> if n \<noteq> nh then Inr False else next_all n consumed bw hs)"

function prefix_loop :: "bytes \<Rightarrow> nat \<Rightarrow> bytes list \<Rightarrow> nat \<Rightarrow> ExtensionBuilder \<Rightarrow> HamtError + ExtensionBuilder \<times> nat" where
  "prefix_loop key bw hashes consumed s =
    (if consumed < 8 * length key then
       (case kb_next key (8 * length key) consumed bw of
          Inl err \<Rightarrow> Inl err
        | Inr (n, consumed') \<Rightarrow>
            (case next_all n consumed bw hashes of
               Inl err \<Rightarrow> Inl err
             | Inr False \<Rightarrow> Inr (s, consumed)
             | Inr True \<Rightarrow> prefix_loop key bw hashes consumed' (eb_add bw (of_nat n) s)))
     else Inr (s, consumed))"
  by pat_completeness auto
termination
  by (relation "measure (\<lambda>(key, bw, hashes, consumed, s). 8 * length key - consumed)")
    (auto dest!: kb_next_less)

declare prefix_loop.simps [simp del]

definition longest_common_prefix :: "bytes \<Rightarrow> nat \<Rightarrow> nat \<Rightarrow> bytes list \<Rightarrow> HamtError + Extension \<times> nat" where
  "longest_common_prefix key consumed bw hashes =
    map_sum id (\<lambda>(s, consumed). (eb_build s, consumed)) (prefix_loop key bw hashes consumed eb_new)"

text \<open>\<open>from_bits\<close> packs the next bits of a path, eight at a time.\<close>

function bits_loop :: "bytes \<Rightarrow> nat \<Rightarrow> nat \<Rightarrow> nat \<Rightarrow> ExtensionBuilder \<Rightarrow> HamtError + ExtensionBuilder \<times> nat" where
  "bits_loop b len consumed n s =
    (if n > 0 then
       let i = min n 8
       in case kb_next b len consumed i of
            Inl err \<Rightarrow> Inl err
          | Inr (x, consumed) \<Rightarrow> bits_loop b len consumed (n - i) (eb_add i (of_nat x) s)
     else Inr (s, consumed))"
  by pat_completeness auto
termination
  by (relation "measure (\<lambda>(b, len, consumed, n, s). n)") auto

declare bits_loop.simps [simp del]

definition ext_from_bits :: "bytes \<Rightarrow> nat \<Rightarrow> nat \<Rightarrow> nat \<Rightarrow> HamtError + Extension \<times> nat" where
  "ext_from_bits b len consumed n =
    map_sum id (\<lambda>(s, consumed). (eb_build s, consumed)) (bits_loop b len consumed n eb_new)"

text \<open>A split beyond the end of the path underflows.\<close>

definition ext_split :: "Extension \<Rightarrow> nat \<Rightarrow> nat \<Rightarrow> HamtError + Extension \<times> Extension \<times> Extension" where
  "ext_split e consumed bw =
    (case ext_from_bits (ext_path e) (ext_length e) 0 consumed of
       Inl err \<Rightarrow> Inl err
     | Inr (head, c1) \<Rightarrow>
         (case ext_from_bits (ext_path e) (ext_length e) c1 bw of
            Inl err \<Rightarrow> Inl err
          | Inr (idx, c2) \<Rightarrow>
              if ext_length head + ext_length idx > ext_length e then Inl Panic
              else
                (case ext_from_bits (ext_path e) (ext_length e) c2 (ext_length e - ext_length head - ext_length idx) of
                   Inl err \<Rightarrow> Inl err
                 | Inr (tail, _) \<Rightarrow> Inr (head, idx, tail))))"

function merge_one :: "Extension \<Rightarrow> nat \<Rightarrow> nat \<Rightarrow> nat \<Rightarrow> ExtensionBuilder \<Rightarrow> HamtError + ExtensionBuilder" where
  "merge_one e bw path bits_left s =
    (if bits_left > 0 then
       let i = min bw bits_left
       in case ext_next e path i of
            Inl err \<Rightarrow> Inl err
          | Inr (n, path) \<Rightarrow> merge_one e bw path (bits_left - i) (eb_add i (of_nat n) s)
     else Inr s)"
  by pat_completeness auto
termination
  by (relation "measure (\<lambda>(e, bw, path, bits_left, s). bits_left)")
    (auto simp: ext_next_def dest!: kb_next_width)

declare merge_one.simps [simp del]

fun merge_all :: "Extension list \<Rightarrow> nat \<Rightarrow> ExtensionBuilder \<Rightarrow> HamtError + ExtensionBuilder" where
  "merge_all [] bw s = Inr s"
| "merge_all (e # es) bw s = (case merge_one e bw 0 (ext_length e) s of Inl err \<Rightarrow> Inl err | Inr s \<Rightarrow> merge_all es bw s)"

definition ext_merge :: "Extension list \<Rightarrow> nat \<Rightarrow> HamtError + Extension" where
  "ext_merge es bw = map_sum id eb_build (merge_all es bw eb_new)"

definition ext_unsplit :: "Extension \<Rightarrow> Extension \<Rightarrow> Extension \<Rightarrow> HamtError + Extension" where
  "ext_unsplit e1 idx e2 = ext_merge [e1, idx, e2] (ext_length idx)"

definition ext_from_idx :: "nat \<Rightarrow> nat \<Rightarrow> Extension" where
  "ext_from_idx idx bw = eb_build (eb_add bw (of_nat idx) eb_new)"

subsection \<open>Bits and bytes\<close>

definition nat_bits :: "nat \<Rightarrow> nat \<Rightarrow> bool list" where
  "nat_bits i n = map (bit n) (rev [0..<i])"

lemma nat_bits_length [simp]: "length (nat_bits i n) = i"
  by (simp add: nat_bits_def)

lemma nat_bits_value: "bits_value xs = n \<Longrightarrow> length xs = i \<Longrightarrow> nat_bits i n = xs"
proof (induction xs arbitrary: n i rule: rev_induct)
  case Nil
  then show ?case by (simp add: nat_bits_def)
next
  case (snoc x xs)
  have one: "bits_value [y] = of_bool y" for y by (simp add: bits_value_def)
  have n: "n = 2 * bits_value xs + of_bool x" using snoc.prems by (simp add: bits_value_append one)
  have "nat_bits (Suc (length xs)) n = map (bit n) (rev (map Suc [0..<length xs])) @ [bit n 0]"
    by (simp add: nat_bits_def upt_conv_Cons flip: map_Suc_upt del: upt_Suc)
  also have "map (bit n) (rev (map Suc [0..<length xs])) = nat_bits (length xs) (bits_value xs)"
    by (simp add: nat_bits_def rev_map n bit_Suc)
  also have "nat_bits (length xs) (bits_value xs) = xs" using snoc.IH [OF refl refl] .
  also have "bit n 0 = x" by (simp add: n bit_0)
  finally show ?case using snoc.prems by simp
qed

lemma byte_bits_nth: "q < 8 \<Longrightarrow> byte_bits w ! q = bit w (7 - q)"
  by (simp add: byte_bits_def rev_nth)

lemma byte_bits_length [simp]: "length (byte_bits w) = 8"
  by (simp add: byte_bits_def)

text \<open>The bits that a builder has taken; the rest of its last byte is zero.\<close>

definition eb_bits :: "ExtensionBuilder \<Rightarrow> bool list" where
  "eb_bits s = key_bits (eb_path s) @ take (eb_written s mod 8) (byte_bits (eb_out s))"

definition eb_ok :: "ExtensionBuilder \<Rightarrow> bool" where
  "eb_ok s \<longleftrightarrow> length (eb_path s) = eb_written s div 8 \<and> (\<forall>p < 8 - eb_written s mod 8. \<not> bit (eb_out s) p)"

lemma key_bits_snoc: "key_bits (b @ [w]) = key_bits b @ byte_bits w"
  by (simp add: key_bits_def)

lemma eb_new_bits [simp]: "eb_bits eb_new = []" "eb_ok eb_new" "eb_written eb_new = 0"
  by (simp_all add: eb_bits_def eb_new_def eb_ok_def key_bits_def)

text \<open>Two words without common bits.\<close>

lemma bit_add_disjoint:
  fixes a b :: u8
  assumes "\<And>p. \<not> (bit a p \<and> bit b p)"
  shows "bit (a + b) p \<longleftrightarrow> bit a p \<or> bit b p"
proof -
  have "a AND b = 0" by (rule bit_eqI) (use assms in \<open>simp add: bit_and_iff\<close>)
  then show ?thesis by (simp add: disjunctive_add_eq_or bit_or_iff)
qed

lemma small_bits: "n < 2 ^ i \<Longrightarrow> bit (n :: nat) p \<Longrightarrow> p < i"
proof (rule ccontr)
  assume n: "n < 2 ^ i" and b: "bit n p" and "\<not> p < i"
  then have "(2 :: nat) ^ i \<le> 2 ^ p" by (intro power_increasing) auto
  with n have "n < 2 ^ p" by linarith
  then have "n div 2 ^ p = 0" by (rule div_less)
  with b show False by (simp add: bit_iff_odd)
qed

lemma bit_u8_of_nat: "n < 2 ^ 8 \<Longrightarrow> bit (of_nat n :: u8) p \<longleftrightarrow> bit n p"
  using small_bits [of n 8 p] by (auto simp: bit_of_nat_iff)

lemma nat_bits_nth: "q < i \<Longrightarrow> nat_bits i n ! q = bit n (i - 1 - q)"
  by (simp add: nat_bits_def rev_nth)

lemma bit_push_u8: "bit (push_bit k (w :: u8)) p \<longleftrightarrow> p < 8 \<and> k \<le> p \<and> bit w (p - k)"
  by (auto simp: bit_push_bit_iff)

lemma bit_mask_u8: "k \<le> 8 \<Longrightarrow> bit (w AND mkmask k :: u8) p \<longleftrightarrow> bit w p \<and> p < k"
  by (auto simp: mkmask_mask bit_and_iff bit_mask_iff dest: bit_imp_le_length)

text \<open>The bits of the byte that is filled and of the next one, when the new bits do not fit.\<close>

lemma carry_bits:
  fixes out :: u8
  assumes out0: "\<And>p. p < 8 - j \<Longrightarrow> \<not> bit out p" and j: "j < 8" and n: "n < 2 ^ i" "n < 2 ^ 8"
    and carry: "0 < carry" "carry < 8" "carry < i" "i = carry + 8 - j"
  shows "byte_bits (out + drop_bit carry (of_nat n)) = take j (byte_bits out) @ take (8 - j) (nat_bits i n)" (is "byte_bits ?W = _")
    and "take carry (byte_bits (push_bit (8 - carry) (of_nat n AND mkmask carry))) = drop (8 - j) (nat_bits i n)" (is "take carry (byte_bits ?out) = _")
    and "p < 8 - carry \<Longrightarrow> \<not> bit (push_bit (8 - carry) (of_nat n AND mkmask carry) :: u8) p"
proof -
  note bn = bit_u8_of_nat [OF n(2)]
  have nlow: "p < i" if "bit n p" for p using small_bits [OF n(1) that] .
  have W: "bit ?W p \<longleftrightarrow> bit out p \<or> bit n (p + carry)" for p
    using out0 nlow carry j by (subst bit_add_disjoint) (auto simp: bit_drop_bit_eq bn add.commute dest!: nlow)
  have bout: "bit ?out p \<longleftrightarrow> p < 8 \<and> 8 - carry \<le> p \<and> bit n (p - (8 - carry))" for p
  proof -
    have "p - (8 - carry) < carry \<longleftrightarrow> p < 8" if "8 - carry \<le> p" using that carry(1,2) by auto
    then show ?thesis unfolding bit_push_u8 bit_mask_u8 [OF less_imp_le [OF carry(2)]] bn by auto
  qed
  then show "p < 8 - carry \<Longrightarrow> \<not> bit ?out p" by simp
  show "byte_bits ?W = take j (byte_bits out) @ take (8 - j) (nat_bits i n)"
  proof (rule nth_equalityI)
    fix k assume "k < length (byte_bits ?W)"
    then have k: "k < 8" by simp
    show "byte_bits ?W ! k = (take j (byte_bits out) @ take (8 - j) (nat_bits i n)) ! k"
    proof (cases "k < j")
      case True
      have "\<not> bit n (7 - k + carry)" using nlow [of "7 - k + carry"] True carry j by auto
      then show ?thesis using True k by (simp add: byte_bits_nth nth_append W)
    next
      case False
      then have "\<not> bit out (7 - k)" using out0 k j by simp
      moreover have "7 - k + carry = i - 1 - (k - j)" using carry k False j by simp
      ultimately show ?thesis using False k carry j by (simp add: byte_bits_nth nth_append W nat_bits_nth)
    qed
  qed (use carry j in simp)
  show "take carry (byte_bits ?out) = drop (8 - j) (nat_bits i n)"
  proof (rule nth_equalityI)
    fix k assume "k < length (take carry (byte_bits ?out))"
    then have k: "k < carry" using carry by simp
    have "7 - k - (8 - carry) = i - 1 - (8 - j + k)" "7 - k < 8" "8 - carry \<le> 7 - k" using carry k j by simp_all
    then have "bit ?out (7 - k) \<longleftrightarrow> bit n (i - 1 - (8 - j + k))" unfolding bout by simp
    then show "take carry (byte_bits ?out) ! k = drop (8 - j) (nat_bits i n) ! k"
      using k carry j by (simp add: byte_bits_nth nat_bits_nth)
  qed (use carry j in simp)
qed

text \<open>The bits of the byte when they fit.\<close>

lemma fitting_bits:
  fixes out :: u8
  assumes out0: "\<And>p. p < 8 - j \<Longrightarrow> \<not> bit out p" and j: "j + i \<le> 8" and n: "n < 2 ^ i" "n < 2 ^ 8"
  shows "take (j + i) (byte_bits (out + push_bit (8 - j - i) (of_nat n))) = take j (byte_bits out) @ nat_bits i n" (is "take _ (byte_bits ?out) = _")
    and "p < 8 - (j + i) \<Longrightarrow> \<not> bit (out + push_bit (8 - j - i) (of_nat n)) p"
proof -
  note bn = bit_u8_of_nat [OF n(2)]
  have nlow: "p < i" if "bit n p" for p using small_bits [OF n(1) that] .
  have bout: "bit ?out p \<longleftrightarrow> bit out p \<or> p < 8 \<and> 8 - j - i \<le> p \<and> bit n (p - (8 - j - i))" for p
    using out0 j by (subst bit_add_disjoint) (auto simp: bit_push_u8 bn dest!: nlow)
  then show "p < 8 - (j + i) \<Longrightarrow> \<not> bit ?out p" using out0 by simp
  show "take (j + i) (byte_bits ?out) = take j (byte_bits out) @ nat_bits i n"
  proof (rule nth_equalityI)
    fix k assume "k < length (take (j + i) (byte_bits ?out))"
    then have k: "k < j + i" "k < 8" using j by simp_all
    show "take (j + i) (byte_bits ?out) ! k = (take j (byte_bits out) @ nat_bits i n) ! k"
    proof (cases "k < j")
      case True
      then have "\<not> bit n (7 - k - (8 - j - i))" using nlow [of "7 - k - (8 - j - i)"] j by auto
      then have "bit ?out (7 - k) \<longleftrightarrow> bit out (7 - k)" unfolding bout by simp
      then show ?thesis using True k j by (simp add: byte_bits_nth nth_append)
    next
      case False
      then have "\<not> bit out (7 - k)" using out0 k j by simp
      moreover have "7 - k - (8 - j - i) = i - 1 - (k - j)" "8 - j - i \<le> 7 - k" "7 - k < 8" using k False j by simp_all
      ultimately have "bit ?out (7 - k) \<longleftrightarrow> bit n (i - 1 - (k - j))" unfolding bout by metis
      then show ?thesis using False k j by (simp add: byte_bits_nth nth_append nat_bits_nth)
    qed
  qed (use j in simp)
qed

lemma eb_add_bits:
  assumes ok: "eb_ok s" and i: "0 < i" "i \<le> 8" and n: "n < 2 ^ i"
  shows "eb_bits (eb_add i (of_nat n) s) = eb_bits s @ nat_bits i n \<and> eb_ok (eb_add i (of_nat n) s) \<and>
    eb_written (eb_add i (of_nat n) s) = eb_written s + i"
proof -
  define j q where "j = eb_written s mod 8" and "q = eb_written s div 8"
  have j: "j < 8" and w: "eb_written s = 8 * q + j" by (simp_all add: j_def q_def)
  have out0: "\<not> bit (eb_out s) p" if "p < 8 - j" for p using ok that by (simp add: eb_ok_def j_def)
  have "(2 :: nat) ^ i \<le> 2 ^ 8" using i by (intro power_increasing) auto
  then have n256: "n < 2 ^ 8" using n by linarith
  let ?n = "of_nat n :: u8"
  have jm: "eb_written s mod 8 = j" by (simp add: j_def)
  have bits_of: "eb_bits s = key_bits (eb_path s) @ take j (byte_bits (eb_out s))" by (simp add: eb_bits_def jm)
  have path: "length (eb_path s) = q" using ok by (simp add: eb_ok_def q_def)
  consider "j + i > 8" | "j + i = 8" | "j + i < 8" by linarith
  then show ?thesis
  proof cases
    case 1
    define carry where "carry = j + i - 8"
    have carry: "0 < carry" "carry < 8" "carry < i" "i = carry + 8 - j" using 1 i j by (auto simp: carry_def)
    have whole: "eb_written s + i = 8 * (q + 1) + carry" using carry w by simp
    have written: "(eb_written s + i) mod 8 = carry" "(eb_written s + i) div 8 = q + 1"
      unfolding whole using carry(2) by presburger+
    have add: "eb_add i ?n s = \<lparr>eb_written = eb_written s + i, eb_out = push_bit (8 - carry) (?n AND mkmask carry),
        eb_path = eb_path s @ [eb_out s + drop_bit carry ?n]\<rparr>"
      using 1 carry(1) written(1) by (simp add: eb_add_def Let_def jm carry_def)
    note bits = carry_bits [OF out0 j n n256 carry]
    have "eb_bits (eb_add i ?n s) = key_bits (eb_path s) @ take j (byte_bits (eb_out s)) @ take (8 - j) (nat_bits i n) @ drop (8 - j) (nat_bits i n)"
      using bits(1,2) written by (simp add: add eb_bits_def key_bits_snoc)
    then show ?thesis using bits_of written path bits(3) by (simp add: add eb_ok_def)
  next
    case 2
    have whole: "eb_written s + i = 8 * (q + 1)" using w 2 by simp
    have written: "(eb_written s + i) mod 8 = 0" "(eb_written s + i) div 8 = q + 1" unfolding whole by presburger+
    have add: "eb_add i ?n s = \<lparr>eb_written = eb_written s + i, eb_out = 0, eb_path = eb_path s @ [eb_out s + push_bit (8 - j - i) ?n]\<rparr>"
      using 2 written by (simp add: eb_add_def Let_def jm)
    show ?thesis using bits_of written path fitting_bits(1) [OF out0, of j i n] n n256 2
      by (simp add: add eb_ok_def eb_bits_def key_bits_snoc)
  next
    case 3
    have whole: "eb_written s + i = 8 * q + (j + i)" using w by simp
    have written: "(eb_written s + i) mod 8 = j + i" "(eb_written s + i) div 8 = q" unfolding whole using 3 by presburger+
    have add: "eb_add i ?n s = \<lparr>eb_written = eb_written s + i, eb_out = eb_out s + push_bit (8 - j - i) ?n, eb_path = eb_path s\<rparr>"
      using 3 written i by (simp add: eb_add_def Let_def jm)
    show ?thesis using bits_of written path fitting_bits [OF out0, of j i n] n n256 3 by (simp add: add eb_ok_def eb_bits_def)
  qed
qed

subsection \<open>Extensions as lists of bits\<close>

text \<open>The bits of an extension. A packed extension has as many bytes as it needs, and the rest of the last one is zero.\<close>

definition ext_bits :: "Extension \<Rightarrow> bool list" where
  "ext_bits e = take (ext_length e) (key_bits (ext_path e))"

definition ext_packed :: "Extension \<Rightarrow> bool" where
  "ext_packed e \<longleftrightarrow> length (ext_path e) = (ext_length e + 7) div 8 \<and> (\<forall>x \<in> set (drop (ext_length e) (key_bits (ext_path e))). \<not> x)"

lemma ext_bits_length: "ext_packed e \<Longrightarrow> length (ext_bits e) = ext_length e"
proof -
  assume "ext_packed e"
  then have "ext_length e \<le> 8 * length (ext_path e)" by (simp add: ext_packed_def)
  then show ?thesis by (simp add: ext_bits_def key_bits_length)
qed

lemma ext_packed_room: "ext_packed e \<Longrightarrow> ext_length e \<le> 8 * length (ext_path e)"
  by (simp add: ext_packed_def)

lemma byte_bits_inject: "byte_bits a = byte_bits b \<Longrightarrow> a = b"
proof (rule bit_word_eqI)
  fix p
  assume eq: "byte_bits a = byte_bits b" and "p < LENGTH(8)"
  then have "byte_bits a ! (7 - p) = byte_bits b ! (7 - p)" "p < 8" by simp_all
  then show "bit a p = bit b p" by (simp add: byte_bits_nth)
qed

lemma path_bytes_inject: "key_bits a = key_bits b \<Longrightarrow> a = b"
proof (induction a arbitrary: b)
  case Nil
  then have "length (key_bits b) = 0" by (simp add: key_bits_def)
  then show ?case by (simp add: key_bits_length)
next
  case (Cons x a)
  have "length (x # a) = length b" using arg_cong [OF Cons.prems, of length] by (simp add: key_bits_length)
  then obtain y b' where b: "b = y # b'" by (cases b) simp_all
  have "byte_bits x = byte_bits y" "key_bits a = key_bits b'" using Cons.prems by (simp_all add: b key_bits_def)
  then show ?case using Cons.IH byte_bits_inject by (simp add: b)
qed

text \<open>A packed extension is determined by its bits.\<close>

lemma ext_packed_inject:
  assumes "ext_packed e1" "ext_packed e2" "ext_bits e1 = ext_bits e2"
  shows "e1 = e2"
proof -
  have len: "ext_length e1 = ext_length e2" using assms ext_bits_length by metis
  have pad: "drop (ext_length e) (key_bits (ext_path e)) = replicate (8 * ((ext_length e + 7) div 8) - ext_length e) False"
    if "ext_packed e" for e
  proof (rule replicate_eqI)
    show "y = False" if "y \<in> set (drop (ext_length e) (key_bits (ext_path e)))" for y
      using \<open>ext_packed e\<close> that by (auto simp: ext_packed_def)
  qed (use that in \<open>simp add: ext_packed_def key_bits_length\<close>)
  have "key_bits (ext_path e) = ext_bits e @ drop (ext_length e) (key_bits (ext_path e))" for e by (simp add: ext_bits_def)
  then have "key_bits (ext_path e1) = key_bits (ext_path e2)" using pad [OF assms(1)] pad [OF assms(2)] len assms(3) by metis
  then have "ext_path e1 = ext_path e2" by (rule path_bytes_inject)
  then show ?thesis using len by simp
qed

lemma eb_bits_length: "eb_ok s \<Longrightarrow> length (eb_bits s) = eb_written s"
  by (simp add: eb_ok_def eb_bits_def key_bits_length min_absorb1)

lemma eb_build_bits:
  assumes "eb_ok s"
  shows "ext_bits (eb_build s) = eb_bits s" "ext_packed (eb_build s)" "ext_length (eb_build s) = eb_written s"
proof -
  define q j where "q = eb_written s div 8" and "j = eb_written s mod 8"
  have s: "eb_written s = 8 * q + j" "j < 8" "length (eb_path s) = q" using assms by (simp_all add: q_def j_def eb_ok_def)
  have low: "\<not> bit (eb_out s) p" if "p < 8 - j" for p using assms that by (simp add: eb_ok_def j_def)
  have bits: "eb_bits s = key_bits (eb_path s) @ take j (byte_bits (eb_out s))" by (simp add: eb_bits_def j_def)
  show "ext_length (eb_build s) = eb_written s" by (simp add: eb_build_def)
  show "ext_bits (eb_build s) = eb_bits s"
    using s bits by (cases "j = 0") (simp_all add: ext_bits_def eb_build_def key_bits_snoc key_bits_length flip: j_def)
  show "ext_packed (eb_build s)"
  proof (cases "j = 0")
    case True
    then show ?thesis using s by (simp add: ext_packed_def eb_build_def key_bits_length)
  next
    case False
    have "\<not> drop j (byte_bits (eb_out s)) ! k" if "k < 8 - j" for k
      using that low s(2) by (simp add: byte_bits_nth)
    then have "\<forall>x \<in> set (drop j (byte_bits (eb_out s))). \<not> x" by (auto simp: in_set_conv_nth)
    moreover have "(8 * q + j + 7) div 8 = q + 1" using False s(2) by presburger
    ultimately show ?thesis using False s
      by (simp add: ext_packed_def eb_build_def key_bits_length key_bits_snoc)
  qed
qed

lemma ext_default_bits [simp]: "ext_bits ext_default = []" "ext_packed ext_default" "ext_length ext_default = 0"
  by (simp_all add: ext_default_def ext_bits_def ext_packed_def key_bits_def)

lemma ext_empty_default: "ext_packed e \<Longrightarrow> ext_length e = 0 \<Longrightarrow> e = ext_default"
  by (rule ext_packed_inject) (simp_all add: ext_bits_def)

text \<open>The next bits of a path, as a list.\<close>

lemma kb_next_bits:
  assumes "0 < i" "i \<le> 8" "c < len" "len \<le> 8 * length b"
  shows "kb_next b len c i = Inr (bits_value (take i (drop c (take len (key_bits b)))), c + min i (len - c))"
proof -
  have "take (min i (len - c)) (drop c (key_bits b)) = take i (drop c (take len (key_bits b)))"
    by (simp add: drop_take min.commute)
  then show ?thesis using kb_next_value [OF assms] by simp
qed

lemma ext_next_bits:
  assumes "ext_packed e" "0 < i" "i \<le> 8" "c < ext_length e"
  shows "ext_next e c i = Inr (bits_value (take i (drop c (ext_bits e))), c + min i (ext_length e - c))"
  using kb_next_bits [OF assms(2-4) ext_packed_room [OF assms(1)]] by (simp add: ext_next_def ext_bits_def)

lemma chunk_less: "bits_value (take i xs) < 2 ^ i"
proof -
  have "bits_value (take i xs) < 2 ^ length (take i xs)" by (rule bits_value_less)
  also have "\<dots> \<le> (2 :: nat) ^ i" by (intro power_increasing) simp_all
  finally show ?thesis .
qed

lemma eb_add_chunk:
  assumes "eb_ok s" "0 < i" "i \<le> 8" "i \<le> length xs"
  defines "s' \<equiv> eb_add i (of_nat (bits_value (take i xs))) s"
  shows "eb_ok s'" "eb_bits s' = eb_bits s @ take i xs" "eb_written s' = eb_written s + i"
proof -
  have "nat_bits i (bits_value (take i xs)) = take i xs" by (rule nat_bits_value) (use assms in simp_all)
  then show "eb_ok s'" "eb_bits s' = eb_bits s @ take i xs" "eb_written s' = eb_written s + i"
    using eb_add_bits [OF assms(1-3) chunk_less [of i xs]] by (simp_all add: s'_def)
qed

lemma bits_loop_bits:
  "eb_ok s \<Longrightarrow> c + n \<le> len \<Longrightarrow> len \<le> 8 * length b \<Longrightarrow>
    \<exists>s'. bits_loop b len c n s = Inr (s', c + n) \<and> eb_ok s' \<and> eb_bits s' = eb_bits s @ take n (drop c (key_bits b))"
proof (induction b len c n s rule: bits_loop.induct)
  case (1 b len c n s)
  show ?case
  proof (cases "n = 0")
    case True
    then show ?thesis using 1 by (simp add: bits_loop.simps)
  next
    case False
    let ?i = "min n 8" and ?xs = "drop c (take len (key_bits b))"
    have i: "0 < ?i" "?i \<le> 8" "?i \<le> length ?xs" "c < len" "min ?i (len - c) = ?i"
      using False "1.prems" by (auto simp: key_bits_length)
    have nx: "kb_next b len c ?i = Inr (bits_value (take ?i ?xs), c + ?i)"
      using kb_next_bits [OF i(1,2,4) "1.prems"(3)] i(5) by simp
    note add = eb_add_chunk [OF "1.prems"(1) i(1-3)]
    obtain s' where s': "bits_loop b len (c + ?i) (n - ?i) (eb_add ?i (of_nat (bits_value (take ?i ?xs))) s) = Inr (s', c + n)"
        "eb_ok s'" "eb_bits s' = eb_bits s @ take ?i ?xs @ take (n - ?i) (drop (c + ?i) (key_bits b))"
      using "1.IH" [OF _ refl nx refl] False "1.prems" add by (auto simp: min_def)
    have "take ?i ?xs = take ?i (drop c (key_bits b))" using i "1.prems" by (simp add: drop_take min_def)
    moreover have "take n (drop c (key_bits b)) = take ?i (drop c (key_bits b)) @ take (n - ?i) (drop (c + ?i) (key_bits b))"
      using take_split [of ?i n "drop c (key_bits b)"] by (simp add: add.commute)
    ultimately show ?thesis using s' nx False by (subst bits_loop.simps) (simp add: Let_def)
  qed
qed

lemma ext_from_bits_bits:
  assumes "c + n \<le> len" "len \<le> 8 * length b"
  shows "\<exists>e. ext_from_bits b len c n = Inr (e, c + n) \<and> ext_packed e \<and> ext_length e = n \<and> ext_bits e = take n (drop c (key_bits b))"
proof -
  obtain s where s: "bits_loop b len c n eb_new = Inr (s, c + n)" "eb_ok s" "eb_bits s = take n (drop c (key_bits b))"
    using bits_loop_bits [OF eb_new_bits(2) assms] by auto
  then have "eb_written s = n" using eb_bits_length [OF s(2)] assms by (simp add: key_bits_length)
  then show ?thesis using s eb_build_bits [OF s(2)] by (simp add: ext_from_bits_def)
qed

subsection \<open>Splitting and merging\<close>

lemma ext_split_bits:
  assumes "ext_packed e" "c + bw \<le> ext_length e"
  shows "\<exists>head idx tail. ext_split e c bw = Inr (head, idx, tail) \<and> ext_packed head \<and> ext_packed idx \<and> ext_packed tail \<and>
    ext_length head = c \<and> ext_length idx = bw \<and> ext_length tail = ext_length e - c - bw \<and>
    ext_bits head = take c (ext_bits e) \<and> ext_bits idx = take bw (drop c (ext_bits e)) \<and> ext_bits tail = drop (c + bw) (ext_bits e)"
proof -
  note room = ext_packed_room [OF assms(1)]
  let ?n = "ext_length e" and ?b = "ext_path e"
  obtain head where head: "ext_from_bits ?b ?n 0 c = Inr (head, c)" "ext_packed head" "ext_length head = c" "ext_bits head = take c (key_bits ?b)"
    using ext_from_bits_bits [of 0 c ?n ?b] assms(2) room by auto
  obtain idx where idx: "ext_from_bits ?b ?n c bw = Inr (idx, c + bw)" "ext_packed idx" "ext_length idx = bw"
      "ext_bits idx = take bw (drop c (key_bits ?b))"
    using ext_from_bits_bits [of c bw ?n ?b] assms(2) room by auto
  obtain tail where tail: "ext_from_bits ?b ?n (c + bw) (?n - c - bw) = Inr (tail, ?n)" "ext_packed tail" "ext_length tail = ?n - c - bw"
      "ext_bits tail = take (?n - c - bw) (drop (c + bw) (key_bits ?b))"
    using ext_from_bits_bits [of "c + bw" "?n - c - bw" ?n ?b] assms(2) room by auto
  have "ext_split e c bw = Inr (head, idx, tail)" using head idx tail assms(2) by (simp add: ext_split_def)
  then show ?thesis using head idx tail assms(2) by (simp add: ext_bits_def drop_take min_def)
qed

lemma merge_one_bits:
  assumes "ext_packed e" "0 < bw" "bw \<le> 8"
  shows "eb_ok s \<Longrightarrow> path + left = ext_length e \<Longrightarrow>
    \<exists>s'. merge_one e bw path left s = Inr s' \<and> eb_ok s' \<and> eb_bits s' = eb_bits s @ drop path (ext_bits e)"
proof (induction left arbitrary: path s rule: less_induct)
  case (less left)
  show ?case
  proof (cases "left = 0")
    case True
    then show ?thesis using less.prems ext_bits_length [OF assms(1)] by (simp add: merge_one.simps)
  next
    case False
    let ?i = "min bw left" and ?xs = "drop path (ext_bits e)"
    have i: "0 < ?i" "?i \<le> 8" "?i \<le> length ?xs" "path < ext_length e" "min ?i (ext_length e - path) = ?i"
      using assms False less.prems by (auto simp: ext_bits_length [OF assms(1)])
    have nx: "ext_next e path ?i = Inr (bits_value (take ?i ?xs), path + ?i)"
      using ext_next_bits [OF assms(1) i(1,2,4)] i(5) by simp
    note add = eb_add_chunk [OF less.prems(1) i(1-3)]
    obtain s' where s': "merge_one e bw (path + ?i) (left - ?i) (eb_add ?i (of_nat (bits_value (take ?i ?xs))) s) = Inr s'" "eb_ok s'"
        "eb_bits s' = eb_bits s @ take ?i ?xs @ drop ?i ?xs"
      using less.IH [OF _ add(1), of "left - ?i" "path + ?i"] add i(1) False less.prems(2) by (auto simp: min_def add.commute)
    moreover from this have "eb_bits s' = eb_bits s @ ?xs" unfolding append_take_drop_id by blast
    ultimately show ?thesis using nx False by (subst merge_one.simps) (simp add: Let_def)
  qed
qed

lemma merge_all_bits:
  "0 < bw \<Longrightarrow> bw \<le> 8 \<Longrightarrow> \<forall>e \<in> set es. ext_packed e \<Longrightarrow> eb_ok s \<Longrightarrow>
    \<exists>s'. merge_all es bw s = Inr s' \<and> eb_ok s' \<and> eb_bits s' = eb_bits s @ concat (map ext_bits es)"
proof (induction es arbitrary: s)
  case (Cons e es)
  then obtain s1 where "merge_one e bw 0 (ext_length e) s = Inr s1" "eb_ok s1" "eb_bits s1 = eb_bits s @ ext_bits e"
    using merge_one_bits [of e bw s 0 "ext_length e"] by auto
  then show ?case using Cons.IH [of s1] Cons.prems by simp
qed simp

lemma ext_unsplit_bits:
  assumes "ext_packed e1" "ext_packed idx" "ext_packed e2" "0 < ext_length idx" "ext_length idx \<le> 8"
  shows "\<exists>e. ext_unsplit e1 idx e2 = Inr e \<and> ext_packed e \<and> ext_bits e = ext_bits e1 @ ext_bits idx @ ext_bits e2 \<and>
    ext_length e = ext_length e1 + ext_length idx + ext_length e2"
proof -
  obtain s where s: "merge_all [e1, idx, e2] (ext_length idx) eb_new = Inr s" "eb_ok s" "eb_bits s = ext_bits e1 @ ext_bits idx @ ext_bits e2"
    using merge_all_bits [OF assms(4,5), of "[e1, idx, e2]" eb_new] assms by auto
  moreover have "ext_length (eb_build s) = ext_length e1 + ext_length idx + ext_length e2"
    using s(3) eb_bits_length [OF s(2)] assms eb_build_bits(3) [OF s(2)] by (simp add: ext_bits_length)
  ultimately show ?thesis using eb_build_bits [OF s(2)] by (simp add: ext_unsplit_def ext_merge_def)
qed

lemma ext_from_idx_bits:
  assumes "0 < bw" "bw \<le> 8" "length xs = bw"
  shows "ext_packed (ext_from_idx (bits_value xs) bw)" "ext_bits (ext_from_idx (bits_value xs) bw) = xs"
    "ext_length (ext_from_idx (bits_value xs) bw) = bw"
proof -
  have "take bw xs = xs" using assms(3) by simp
  then have "eb_ok (eb_add bw (of_nat (bits_value xs)) eb_new)" "eb_bits (eb_add bw (of_nat (bits_value xs)) eb_new) = xs"
      "eb_written (eb_add bw (of_nat (bits_value xs)) eb_new) = bw"
    using eb_add_chunk [OF eb_new_bits(2) assms(1,2), of xs] assms(3) by simp_all
  then show "ext_packed (ext_from_idx (bits_value xs) bw)" "ext_bits (ext_from_idx (bits_value xs) bw) = xs"
      "ext_length (ext_from_idx (bits_value xs) bw) = bw"
    by (simp_all add: ext_from_idx_def eb_build_bits)
qed

subsection \<open>Common prefixes\<close>

lemma take_chunk: "take (t * bw + bw) xs = take (t * bw) xs @ take bw (drop (t * bw) xs)"
  by (simp add: take_add)

text \<open>A key is matched with an extension of \<open>s\<close> chunks: \<open>t\<close> of them agree, and the next one does not.\<close>

lemma match_loop_bits:
  assumes "ext_packed e" "ext_length e = s * bw" "0 < bw" "bw \<le> 8" "c + s * bw \<le> 8 * length key"
  shows "r \<le> s \<Longrightarrow> take (r * bw) (drop c (key_bits key)) = take (r * bw) (ext_bits e) \<Longrightarrow>
    \<exists>t \<le> s. match_loop e key bw (c + r * bw) (r * bw) (r * bw) = Inr (t * bw, c + t * bw) \<and>
      take (t * bw) (drop c (key_bits key)) = take (t * bw) (ext_bits e) \<and>
      (t < s \<longrightarrow> take bw (drop (c + t * bw) (key_bits key)) \<noteq> take bw (drop (t * bw) (ext_bits e)))"
proof (induction "s - r" arbitrary: r rule: less_induct)
  case less
  show ?case
  proof (cases "r = s")
    case True
    then have "match_loop e key bw (c + r * bw) (r * bw) (r * bw) = Inr (r * bw, c + r * bw)"
      using assms(2) by (simp add: match_loop.simps)
    then show ?thesis using less.prems True by (intro exI [of _ s]) simp
  next
    case False
    then have "Suc r * bw \<le> s * bw" using less.prems(1) by (intro mult_right_mono) simp_all
    then have r: "r * bw + bw \<le> ext_length e" "r < s" "r * bw < ext_length e" using assms False less.prems(1) by simp_all
    let ?x = "take bw (drop (c + r * bw) (key_bits key))" and ?y = "take bw (drop (r * bw) (ext_bits e))"
    have n1: "kb_next key (8 * length key) (c + r * bw) bw = Inr (bits_value ?x, c + r * bw + bw)"
      using kb_next_bits [of bw "c + r * bw" "8 * length key" key] assms r by (simp add: key_bits_length min_def)
    have n2: "ext_next e (r * bw) bw = Inr (bits_value ?y, r * bw + bw)"
      using ext_next_bits [OF assms(1,3,4) r(3)] r(1) by (simp add: min_def)
    have len: "length ?x = bw" "length ?y = bw" using assms r by (simp_all add: key_bits_length ext_bits_length)
    show ?thesis
    proof (cases "?x = ?y")
      case True
      have "take (Suc r * bw) (drop c (key_bits key)) = take (Suc r * bw) (ext_bits e)"
        using True less.prems(2) take_chunk [of r bw "drop c (key_bits key)"] take_chunk [of r bw "ext_bits e"]
        by (simp add: add.commute)
      then obtain t where t: "t \<le> s" "match_loop e key bw (c + Suc r * bw) (Suc r * bw) (Suc r * bw) = Inr (t * bw, c + t * bw)"
          "take (t * bw) (drop c (key_bits key)) = take (t * bw) (ext_bits e)"
          "t < s \<longrightarrow> take bw (drop (c + t * bw) (key_bits key)) \<noteq> take bw (drop (t * bw) (ext_bits e))"
        using less.hyps [of "Suc r"] r(2) by (metis Suc_leI diff_less_mono2 lessI)
      have "match_loop e key bw (c + r * bw) (r * bw) (r * bw) = match_loop e key bw (c + Suc r * bw) (Suc r * bw) (Suc r * bw)"
        using n1 n2 True r(3) by (subst match_loop.simps) (simp add: algebra_simps)
      then show ?thesis using t by auto
    next
      case diff: False
      then have "bits_value ?x \<noteq> bits_value ?y" using bits_value_inject [of ?x ?y] len by metis
      then have "match_loop e key bw (c + r * bw) (r * bw) (r * bw) = Inr (r * bw, c + r * bw)"
        using n1 n2 r(3) by (subst match_loop.simps) simp
      then show ?thesis using less.prems diff by (intro exI [of _ r]) simp
    qed
  qed
qed

lemmas longest_match_bits = match_loop_bits [where r = 0, simplified, folded longest_match_def]

lemma next_all_bits:
  assumes "0 < bw" "bw \<le> 8" "c < 8 * N"
  shows "\<forall>h \<in> set hs. length h = N \<Longrightarrow>
    next_all n c bw hs = Inr (\<forall>h \<in> set hs. n = bits_value (take bw (drop c (key_bits h))))"
proof (induction hs)
  case (Cons h hs)
  have "kb_next h (8 * length h) c bw = Inr (bits_value (take bw (drop c (key_bits h))), c + min bw (8 * N - c))"
    using kb_next_bits [of bw c "8 * length h" h] assms Cons.prems by (simp add: key_bits_length)
  moreover have "next_all n c bw hs = Inr (\<forall>h \<in> set hs. n = bits_value (take bw (drop c (key_bits h))))" using Cons by simp
  ultimately show ?case by (cases "n = bits_value (take bw (drop c (key_bits h)))") simp_all
qed simp

lemma prefix_loop_bits:
  assumes "0 < bw" "bw \<le> 8" "length key = N" "\<forall>h \<in> set hs. length h = N"
  shows "eb_ok s \<Longrightarrow> c \<le> 8 * N \<Longrightarrow> \<exists>h \<in> set hs. drop c (key_bits h) \<noteq> drop c (key_bits key) \<Longrightarrow>
    \<exists>t s'. prefix_loop key bw hs c s = Inr (s', c + t * bw) \<and> c + t * bw < 8 * N \<and> eb_ok s' \<and>
      eb_bits s' = eb_bits s @ take (t * bw) (drop c (key_bits key)) \<and>
      (\<forall>h \<in> set hs. take (t * bw) (drop c (key_bits h)) = take (t * bw) (drop c (key_bits key))) \<and>
      (\<exists>h \<in> set hs. take bw (drop (c + t * bw) (key_bits h)) \<noteq> take bw (drop (c + t * bw) (key_bits key)))"
proof (induction "8 * N - c" arbitrary: c s rule: less_induct)
  case less
  obtain h0 where h0: "h0 \<in> set hs" "drop c (key_bits h0) \<noteq> drop c (key_bits key)" using less.prems(3) by blast
  have c: "c < 8 * N" using h0 assms less.prems(2) by (cases "c = 8 * N") (auto simp: key_bits_length)
  let ?x = "take bw (drop c (key_bits key))"
  have nx: "kb_next key (8 * length key) c bw = Inr (bits_value ?x, c + min bw (8 * N - c))"
    using kb_next_bits [of bw c "8 * length key" key] assms c by (simp add: key_bits_length)
  have all: "next_all (bits_value ?x) c bw hs = Inr (\<forall>h \<in> set hs. ?x = take bw (drop c (key_bits h)))" (is "_ = Inr ?same")
  proof -
    have "bits_value ?x = bits_value (take bw (drop c (key_bits h))) \<longleftrightarrow> ?x = take bw (drop c (key_bits h))" if "h \<in> set hs" for h
      using bits_value_inject [of ?x "take bw (drop c (key_bits h))"] assms that by (auto simp: key_bits_length)
    then show ?thesis using next_all_bits [OF assms(1,2) c assms(4)] by simp
  qed
  show ?case
  proof (cases ?same)
    case False
    then have "prefix_loop key bw hs c s = Inr (s, c)"
      using nx all c assms(3) by (subst prefix_loop.simps) (auto split: bool.splits)
    moreover obtain h where "h \<in> set hs" "take bw (drop c (key_bits h)) \<noteq> ?x" using False by metis
    ultimately show ?thesis using less.prems c by (intro exI [of _ 0] exI [of _ s]) auto
  next
    case True
    have full: "c + bw \<le> 8 * N"
    proof (rule ccontr)
      assume "\<not> c + bw \<le> 8 * N"
      then have "drop c (key_bits h0) = drop c (key_bits key)" using True h0(1) assms by (auto simp: key_bits_length)
      then show False using h0(2) by simp
    qed
    have "drop (c + bw) (key_bits h0) \<noteq> drop (c + bw) (key_bits key)"
    proof
      assume eq: "drop (c + bw) (key_bits h0) = drop (c + bw) (key_bits key)"
      have "drop c xs = take bw (drop c xs) @ drop (c + bw) xs" for xs :: "bool list"
        using append_take_drop_id [of bw "drop c xs"] by (simp add: add.commute)
      then show False using True h0 eq by metis
    qed
    then have next_diff: "\<exists>h \<in> set hs. drop (c + bw) (key_bits h) \<noteq> drop (c + bw) (key_bits key)" using h0(1) by blast
    note add = eb_add_chunk [OF less.prems(1) assms(1,2), of "drop c (key_bits key)"]
    have add: "eb_ok (eb_add bw (of_nat (bits_value ?x)) s)" "eb_bits (eb_add bw (of_nat (bits_value ?x)) s) = eb_bits s @ ?x"
      using add full assms(3) by (simp_all add: key_bits_length)
    obtain t s' where t: "prefix_loop key bw hs (c + bw) (eb_add bw (of_nat (bits_value ?x)) s) = Inr (s', c + bw + t * bw)"
        "c + bw + t * bw < 8 * N" "eb_ok s'" "eb_bits s' = eb_bits s @ ?x @ take (t * bw) (drop (c + bw) (key_bits key))"
        "\<forall>h \<in> set hs. take (t * bw) (drop (c + bw) (key_bits h)) = take (t * bw) (drop (c + bw) (key_bits key))"
        "\<exists>h \<in> set hs. take bw (drop (c + bw + t * bw) (key_bits h)) \<noteq> take bw (drop (c + bw + t * bw) (key_bits key))"
      using less.hyps [OF diff_less_mono2 [OF less_add_same_cancel1 [THEN iffD2, OF assms(1)] c] add(1) full next_diff]
      unfolding add(2) append_assoc by blast
    have step: "take (Suc t * bw) (drop c xs) = take bw (drop c xs) @ take (t * bw) (drop (c + bw) xs)" for xs :: "bool list"
      by (simp add: take_add add.commute)
    have "min bw (8 * N - c) = bw" using full by simp
    then have "prefix_loop key bw hs c s = Inr (s', c + Suc t * bw)"
      using nx all True c assms(3) t(1) by (subst prefix_loop.simps) (simp add: add.assoc)
    then show ?thesis using t(2-6) True
      by (intro exI [of _ "Suc t"] exI [of _ s']) (simp add: step add.assoc [symmetric] del: mult_Suc, simp add: add.assoc)
  qed
qed

text \<open>The extension that keys have in common: maximal, and matched by each of them.\<close>

lemma longest_common_prefix_bits:
  assumes "0 < bw" "bw \<le> 8" "length key = N" "\<forall>h \<in> set hs. length h = N" "c \<le> 8 * N"
    and "\<exists>h \<in> set hs. drop c (key_bits h) \<noteq> drop c (key_bits key)"
  shows "\<exists>t e. longest_common_prefix key c bw hs = Inr (e, c + t * bw) \<and> c + t * bw < 8 * N \<and> ext_packed e \<and> ext_length e = t * bw \<and>
    ext_bits e = take (t * bw) (drop c (key_bits key)) \<and>
    (\<forall>h \<in> set hs. take (t * bw) (drop c (key_bits h)) = ext_bits e) \<and>
    (\<exists>h \<in> set hs. take bw (drop (c + t * bw) (key_bits h)) \<noteq> take bw (drop (c + t * bw) (key_bits key)))"
proof -
  obtain t s where t: "prefix_loop key bw hs c eb_new = Inr (s, c + t * bw)" "c + t * bw < 8 * N" "eb_ok s"
      "eb_bits s = take (t * bw) (drop c (key_bits key))"
      "\<forall>h \<in> set hs. take (t * bw) (drop c (key_bits h)) = take (t * bw) (drop c (key_bits key))"
      "\<exists>h \<in> set hs. take bw (drop (c + t * bw) (key_bits h)) \<noteq> take bw (drop (c + t * bw) (key_bits key))"
    using prefix_loop_bits [OF assms(1-4) eb_new_bits(2) assms(5,6)] by auto
  note b = eb_build_bits [OF t(3)]
  have "eb_written s = t * bw" using eb_bits_length [OF t(3)] t(2,4) assms(3) by (simp add: key_bits_length)
  then show ?thesis using t b by (intro exI [of _ t] exI [of _ "eb_build s"]) (simp add: longest_common_prefix_def)
qed

subsection \<open>Properties of extensions\<close>

text \<open>
  Splitting an extension at any point takes it apart into the bits before, the next chunk and the bits
  after, all packed, and merging the three parts gives the extension back, byte for byte.
\<close>

theorem ext_split_unsplit:
  assumes "ext_packed e" "c + bw \<le> ext_length e" "0 < bw" "bw \<le> 8"
  shows "\<exists>head idx tail. ext_split e c bw = Inr (head, idx, tail) \<and> ext_packed head \<and> ext_packed idx \<and> ext_packed tail \<and>
    ext_length head = c \<and> ext_length idx = bw \<and> ext_bits e = ext_bits head @ ext_bits idx @ ext_bits tail \<and>
    ext_unsplit head idx tail = Inr e"
proof -
  obtain head idx tail where s: "ext_split e c bw = Inr (head, idx, tail)" "ext_packed head" "ext_packed idx" "ext_packed tail"
      "ext_length head = c" "ext_length idx = bw"
      "ext_bits head = take c (ext_bits e)" "ext_bits idx = take bw (drop c (ext_bits e))" "ext_bits tail = drop (c + bw) (ext_bits e)"
    using ext_split_bits [OF assms(1,2)] by blast
  have "take bw (drop c (ext_bits e)) @ drop (c + bw) (ext_bits e) = drop c (ext_bits e)"
    using append_take_drop_id [of bw "drop c (ext_bits e)"] by (simp add: add.commute)
  then have bits: "ext_bits e = ext_bits head @ ext_bits idx @ ext_bits tail" by (simp add: s(7-9))
  obtain e' where "ext_unsplit head idx tail = Inr e'" "ext_packed e'" "ext_bits e' = ext_bits head @ ext_bits idx @ ext_bits tail"
    using ext_unsplit_bits [OF s(2-4)] s(6) assms(3,4) by auto
  moreover from this have "e' = e" using ext_packed_inject [OF _ assms(1)] bits by simp
  ultimately show ?thesis using s bits by blast
qed

theorem ext_split_unsplit_witness:
  "\<exists>head idx tail. ext_split \<lparr>ext_length = 12, ext_path = [0xab, 0xc0]\<rparr> 3 5 = Inr (head, idx, tail) \<and>
    ext_unsplit head idx tail = Inr \<lparr>ext_length = 12, ext_path = [0xab, 0xc0]\<rparr>"
proof -
  have "ext_packed \<lparr>ext_length = 12, ext_path = [0xab, 0xc0]\<rparr>"
    unfolding ext_packed_def key_bits_def byte_bits_def by code_simp
  then show ?thesis using ext_split_unsplit [of "\<lparr>ext_length = 12, ext_path = [0xab, 0xc0]\<rparr>" 3 5] by auto
qed

text \<open>
  The extension that a key and the keys of a bucket have in common is the longest one: every one of
  the keys matches all of it and stops right behind it, and one of them has a different next chunk than
  the key. It is found whenever one of the keys differs from the key, and some bits of the key are left.
\<close>

theorem longest_common_prefix_maximal:
  assumes "0 < bw" "bw \<le> 8" "length key = N" "\<forall>h \<in> set hs. length h = N" "c \<le> 8 * N"
    and "\<exists>h \<in> set hs. drop c (key_bits h) \<noteq> drop c (key_bits key)"
  shows "\<exists>t e. longest_common_prefix key c bw hs = Inr (e, c + t * bw) \<and> ext_packed e \<and> ext_length e = t * bw \<and> c + t * bw < 8 * N \<and>
    (\<forall>h \<in> set (key # hs). longest_match e h c bw = Inr (ext_length e, c + t * bw)) \<and>
    (\<exists>h \<in> set hs. take bw (drop (c + t * bw) (key_bits h)) \<noteq> take bw (drop (c + t * bw) (key_bits key)))"
proof -
  obtain t e where e: "longest_common_prefix key c bw hs = Inr (e, c + t * bw)" "c + t * bw < 8 * N" "ext_packed e" "ext_length e = t * bw"
      "ext_bits e = take (t * bw) (drop c (key_bits key))" "\<forall>h \<in> set hs. take (t * bw) (drop c (key_bits h)) = ext_bits e"
      "\<exists>h \<in> set hs. take bw (drop (c + t * bw) (key_bits h)) \<noteq> take bw (drop (c + t * bw) (key_bits key))"
    using longest_common_prefix_bits [OF assms] by blast
  have "longest_match e h c bw = Inr (ext_length e, c + t * bw)" if "h \<in> set (key # hs)" for h
  proof -
    have h: "length h = N" "take (t * bw) (drop c (key_bits h)) = ext_bits e" using that assms(3,4) e(5,6) by auto
    obtain r where r: "r \<le> t" "longest_match e h c bw = Inr (r * bw, c + r * bw)"
        "r < t \<longrightarrow> take bw (drop (c + r * bw) (key_bits h)) \<noteq> take bw (drop (r * bw) (ext_bits e))"
      using longest_match_bits [OF e(3,4) assms(1,2), of c h] e(2) h(1) by auto
    have "r = t"
    proof (rule ccontr)
      assume "r \<noteq> t"
      then have "Suc r * bw \<le> t * bw" using r(1) by (intro mult_right_mono) simp_all
      then have "take bw (drop (r * bw) (take (t * bw) (drop c (key_bits h)))) = take bw (drop (c + r * bw) (key_bits h))"
        by (simp add: drop_take min_def add.commute)
      then show False using r(1,3) \<open>r \<noteq> t\<close> h(2) by simp
    qed
    then show ?thesis using r(2) e(4) by simp
  qed
  then show ?thesis using e by blast
qed

theorem longest_common_prefix_maximal_witness:
  "\<exists>t e. longest_common_prefix [0xab, 0xcd] 4 3 [[0xab, 0xcf]] = Inr (e, 4 + t * 3) \<and>
    longest_match e [0xab, 0xcd] 4 3 = Inr (ext_length e, 4 + t * 3)"
proof -
  have "drop 4 (key_bits [0xab, 0xcf :: u8]) \<noteq> drop 4 (key_bits [0xab, 0xcd])" unfolding key_bits_def byte_bits_def by code_simp
  then show ?thesis using longest_common_prefix_maximal [of 3 "[0xab, 0xcd]" 2 "[[0xab, 0xcf]]" 4] by auto
qed


end
