(* ===== verification/Kamt.thy ===== *)
theory Kamt
  imports Hamt KamtExt
begin

text \<open>
  The KAMT of \<open>ipld/kamt/src\<close>: nodes and pointers (\<open>node.rs\<close>, \<open>pointer.rs\<close>) and the map on top of them
  (\<open>kamt.rs\<close>). It is a trie over the bits of fixed-size keys. A link or an unstored node comes with an
  extension, the bits that all keys below it have in common, whose levels have no nodes. The
  configuration, the bit fields and the buckets are those of the HAMT. As there, every operation returns
  its result together with the node it leaves behind, on errors too.

  The conversion of keys into bytes, their length, the serializer and the CIDs are parameters. A panic,
  and an underflow of \<open>u32\<close>, is the error \<open>Panic\<close>.
\<close>

datatype ('k, 'v) KPointer =
    KValues "('k \<times> 'v) list"
  | KLink Cid Extension "('k, 'v) KNode option"
  | KDirty "('k, 'v) KNode" Extension
and ('k, 'v) KNode = KNode (kn_bitfield: Bitfield) (kn_pointers: "('k, 'v) KPointer list")

definition kn_default :: "('k, 'v) KNode" where
  "kn_default = KNode bm_zero []"

text \<open>What is stored of a pointer: the CID of a link with the length and the bytes of its extension.\<close>

datatype ('k, 'v) KPointerSer = KSerValues "('k \<times> 'v) list" | KSerLink Cid nat bytes

type_synonym ('k, 'v) knode_codec = "(Bitfield \<times> ('k, 'v) KPointerSer list) codec"

record ('k, 'v) kamt_env =
  kv_conf :: Config
  kv_codec :: "('k, 'v) knode_codec"
  kv_hash :: "'k \<Rightarrow> bytes"
  kv_n :: nat

definition kpointer_de :: "('k, 'v) KPointerSer \<Rightarrow> ('k, 'v) KPointer" where
  "kpointer_de p = (case p of KSerValues kvs \<Rightarrow> KValues kvs | KSerLink c l b \<Rightarrow> KLink c \<lparr>ext_length = l, ext_path = b\<rparr> None)"

fun kpointers_ser :: "('k, 'v) KPointer list \<Rightarrow> HamtError + ('k, 'v) KPointerSer list" where
  "kpointers_ser [] = Inr []"
| "kpointers_ser (p # ps) =
    (case (case p of KValues kvs \<Rightarrow> Inr (KSerValues kvs) | KLink c e _ \<Rightarrow> Inr (KSerLink c (ext_length e) (ext_path e))
             | KDirty _ _ \<Rightarrow> Inl (Dynamic ''Cannot serialize cached values'')) of
       Inl e \<Rightarrow> Inl e
     | Inr q \<Rightarrow> (case kpointers_ser ps of Inl e \<Rightarrow> Inl e | Inr qs \<Rightarrow> Inr (q # qs)))"

definition kn_put :: "('k, 'v) knode_codec \<Rightarrow> ('k, 'v) KNode \<Rightarrow> Blocks \<Rightarrow> HamtError + Cid \<times> Blocks" where
  "kn_put cd n bs =
    (case kpointers_ser (kn_pointers n) of
       Inl e \<Rightarrow> Inl e
     | Inr qs \<Rightarrow> (case cbor_put cd bs (kn_bitfield n, qs) of Inl e \<Rightarrow> Inl (Dynamic e) | Inr r \<Rightarrow> Inr r))"

subsection \<open>Loading a node\<close>

fun kcheck_pointers :: "Config \<Rightarrow> nat \<Rightarrow> nat \<Rightarrow> ('k::linorder, 'v) KPointer list \<Rightarrow> HamtError option" where
  "kcheck_pointers conf N depth [] = None"
| "kcheck_pointers conf N depth (p # ps) =
    (case (case p of
        KValues kvs \<Rightarrow>
          if depth < min_data_depth conf then Some (Dynamic ''values not allowed below the minimum data depth'')
          else if kvs = [] then Some (Dynamic ''empty HAMT bucket'')
          else if length kvs > max_array_width conf then Some (Dynamic ''too many items in bucket'')
          else if \<not> keys_ascending kvs then Some (Dynamic ''duplicate or unsorted keys in bucket'')
          else None
      | KLink c e _ \<Rightarrow>
          if cid_codec c \<noteq> DAG_CBOR then Some (Dynamic ''kamt nodes must be DagCBOR'')
          else if bit_width conf = 0 then Some Panic
          else if ext_length e mod bit_width conf \<noteq> 0 then Some (Dynamic ''extension length is not a multiple of the bit-width'')
          else if (depth + 1) * bit_width conf > 8 * N then Some Panic
          else if 8 * N - (depth + 1) * bit_width conf \<le> ext_length e then Some (Dynamic ''extension length must be less than the remaining bits'')
          else None
      | KDirty _ _ \<Rightarrow> Some Panic) of
       Some e \<Rightarrow> Some e
     | None \<Rightarrow> kcheck_pointers conf N depth ps)"

definition kn_load :: "('k::linorder, 'v) kamt_env \<Rightarrow> Blocks \<Rightarrow> Cid \<Rightarrow> nat \<Rightarrow> HamtError + ('k, 'v) KNode" where
  "kn_load env bs k depth =
    (case cbor_get (kv_codec env) bs k of
       Inl e \<Rightarrow> Inl (Dynamic e)
     | Inr None \<Rightarrow> Inl CidNotFound
     | Inr (Some (bitfield, qs)) \<Rightarrow>
         let pointers = map kpointer_de qs
         in if length pointers > 2 ^ bit_width (kv_conf env) then Inl (Dynamic ''number of pointers exceeds the bitwidth'')
            else if bm_count_ones bitfield \<noteq> length pointers then Inl (Dynamic ''number of pointers does not match bitfield'')
            else if pointers = [] \<and> depth \<noteq> 0 then Inl ZeroPointers
            else case kcheck_pointers (kv_conf env) (kv_n env) depth pointers of
              Some e \<Rightarrow> Inl e
            | None \<Rightarrow> Inr (KNode bitfield pointers))"

text \<open>\<open>cache.get_or_try_init\<close>: the cached node, or the loaded one.\<close>

definition kcached :: "('k::linorder, 'v) kamt_env \<Rightarrow> Blocks \<Rightarrow> Cid \<Rightarrow> ('k, 'v) KNode option \<Rightarrow> nat \<Rightarrow> HamtError + ('k, 'v) KNode" where
  "kcached env bs c cache depth = (case cache of Some n \<Rightarrow> Inr n | None \<Rightarrow> kn_load env bs c depth)"

subsection \<open>Children\<close>

definition kwith_child :: "('k, 'v) KNode \<Rightarrow> nat \<Rightarrow> ('k, 'v) KPointer \<Rightarrow> ('k, 'v) KNode" where
  "kwith_child n i p = KNode (kn_bitfield n) ((kn_pointers n)[i := p])"

definition kinsert_pointer :: "('k, 'v) KNode \<Rightarrow> nat \<Rightarrow> ('k, 'v) KPointer \<Rightarrow> ('k, 'v) KNode" where
  "kinsert_pointer n idx p =
    (let i = index_for_bit_pos (kn_bitfield n) idx
     in KNode (bm_set_bit (kn_bitfield n) idx) (vec_insert i p (kn_pointers n)))"

definition kinsert_child :: "('k, 'v) KNode \<Rightarrow> nat \<Rightarrow> 'k \<Rightarrow> 'v \<Rightarrow> ('k, 'v) KNode" where
  "kinsert_child n idx key val = kinsert_pointer n idx (KValues [(key, val)])"

definition kinsert_child_link :: "('k, 'v) KNode \<Rightarrow> nat \<Rightarrow> Cid \<Rightarrow> Extension \<Rightarrow> ('k, 'v) KNode option \<Rightarrow> ('k, 'v) KNode" where
  "kinsert_child_link n idx c e cache = kinsert_pointer n idx (KLink c e cache)"

definition kinsert_child_dirty :: "('k, 'v) KNode \<Rightarrow> nat \<Rightarrow> ('k, 'v) KNode \<Rightarrow> Extension \<Rightarrow> ('k, 'v) KNode" where
  "kinsert_child_dirty n idx node e = kinsert_pointer n idx (KDirty node e)"

definition krm_child :: "('k, 'v) KNode \<Rightarrow> nat \<Rightarrow> nat \<Rightarrow> ('k, 'v) KNode" where
  "krm_child n i idx = KNode (bm_clear_bit (kn_bitfield n) idx) (vec_remove i (kn_pointers n))"

subsection \<open>Matching and splitting extensions\<close>

definition key_next :: "('k, 'v) kamt_env \<Rightarrow> bytes \<Rightarrow> nat \<Rightarrow> HamtError + nat \<times> nat" where
  "key_next env h consumed = kb_next h (8 * kv_n env) consumed (bit_width (kv_conf env))"

lemma key_next_less: "key_next env h c = Inr (w, c') \<Longrightarrow> c < c' \<and> c' \<le> 8 * kv_n env"
  unfolding key_next_def by (rule kb_next_less)

text \<open>The levels that are skipped, or the bits that matched; with the new position in the key.\<close>

datatype ExtensionMatch = FullMatch nat | PartialMatch nat

definition match_extension :: "Config \<Rightarrow> bytes \<Rightarrow> nat \<Rightarrow> Extension \<Rightarrow> HamtError + ExtensionMatch \<times> nat" where
  "match_extension conf h consumed e =
    (if ext_is_empty e then Inr (FullMatch 0, consumed)
     else case longest_match e h consumed (bit_width conf) of
       Inl err \<Rightarrow> Inl err
     | Inr (matched, consumed) \<Rightarrow>
         let skipped = matched div bit_width conf
         in if matched = ext_length e then Inr (FullMatch skipped, consumed) else Inr (PartialMatch matched, consumed))"

lemma match_loop_le: "match_loop e h bw c p m = Inr (r, c') \<Longrightarrow> c \<le> c'"
proof (induction e h bw c p m rule: match_loop.induct)
  case (1 e h bw c p m)
  show ?case
    using "1.prems" "1.IH"
    by (subst (asm) match_loop.simps) (fastforce dest: kb_next_less split: if_splits sum.splits prod.splits)
qed

lemma match_extension_le: "match_extension conf h c e = Inr (r, c') \<Longrightarrow> c \<le> c'"
  by (auto simp: match_extension_def longest_match_def Let_def dest: match_loop_le split: if_splits sum.splits prod.splits)

lemma prefix_loop_le: "prefix_loop key bw hs c s = Inr (s', c') \<Longrightarrow> c \<le> c'"
proof (induction key bw hs c s rule: prefix_loop.induct)
  case (1 key bw hs c s)
  show ?case
    using "1.prems" "1.IH"
    by (subst (asm) prefix_loop.simps) (fastforce dest: kb_next_less split: if_splits sum.splits prod.splits bool.splits)
qed

lemma longest_common_prefix_le: "longest_common_prefix key c bw hs = Inr (e, c') \<Longrightarrow> c \<le> c'"
  by (auto simp: longest_common_prefix_def map_sum_def dest: prefix_loop_le split: sum.splits)

text \<open>\<open>PartialMatch::split\<close>: the next chunk of the path is the slot of the original child.\<close>

definition partial_split :: "Extension \<Rightarrow> nat \<Rightarrow> nat \<Rightarrow> HamtError + Extension \<times> nat \<times> Extension" where
  "partial_split e matched bw =
    (case ext_split e matched bw of
       Inl err \<Rightarrow> Inl err
     | Inr (head, idx, tail) \<Rightarrow>
         (case ext_next idx 0 bw of Inl err \<Rightarrow> Inl err | Inr (i, _) \<Rightarrow> Inr (head, i, tail)))"

text \<open>
  \<open>split_extension\<close> puts a new node where a key leaves the extension. \<open>put_child\<close> puts the original child
  there. When the last step fails the child has been taken out of its pointer; the flag says so.
\<close>

definition split_extension ::
  "('k, 'v) kamt_env \<Rightarrow> bytes \<Rightarrow> nat \<Rightarrow> Extension \<Rightarrow> nat \<Rightarrow> 'k \<Rightarrow> 'v \<Rightarrow> (('k, 'v) KNode \<Rightarrow> nat \<Rightarrow> Extension \<Rightarrow> ('k, 'v) KNode) \<Rightarrow>
    (HamtError + ('k, 'v) KPointer) \<times> bool" where
  "split_extension env h consumed e matched key val put_child =
    (case partial_split e matched (bit_width (kv_conf env)) of
       Inl err \<Rightarrow> (Inl err, False)
     | Inr (head, i, tail) \<Rightarrow>
         let midway = put_child kn_default i tail
         in (case key_next env h consumed of
              Inl err \<Rightarrow> (Inl err, True)
            | Inr (idx, _) \<Rightarrow> (Inr (KDirty (kinsert_child midway idx key val) head), True)))"

subsection \<open>Looking up\<close>

function kget_value ::
  "('k::linorder, 'v) kamt_env \<Rightarrow> Blocks \<Rightarrow> 'k \<Rightarrow> bytes \<Rightarrow> nat \<Rightarrow> nat \<Rightarrow> ('k, 'v) KNode \<Rightarrow>
    (HamtError + 'v option) \<times> ('k, 'v) KNode" where
  "kget_value env bs key h consumed depth n =
    (case key_next env h consumed of
       Inl e \<Rightarrow> (Inl e, n)
     | Inr (idx, c1) \<Rightarrow>
         if \<not> bm_test_bit (kn_bitfield n) idx then (Inr None, n)
         else
           let i = index_for_bit_pos (kn_bitfield n) idx
           in if i \<ge> length (kn_pointers n) then (Inl Panic, n)
              else case kn_pointers n ! i of
                KLink c ext cache \<Rightarrow>
                  (case kcached env bs c cache (depth + 1) of
                     Inl e \<Rightarrow> (Inl e, n)
                   | Inr node \<Rightarrow>
                       (case match_extension (kv_conf env) h c1 ext of
                          Inl e \<Rightarrow> (Inl e, kwith_child n i (KLink c ext (Some node)))
                        | Inr (PartialMatch _, _) \<Rightarrow> (Inr None, kwith_child n i (KLink c ext (Some node)))
                        | Inr (FullMatch _, c2) \<Rightarrow>
                            (case kget_value env bs key h c2 (depth + 1) node of
                               (r, node') \<Rightarrow> (r, kwith_child n i (KLink c ext (Some node'))))))
              | KDirty node ext \<Rightarrow>
                  (case match_extension (kv_conf env) h c1 ext of
                     Inl e \<Rightarrow> (Inl e, n)
                   | Inr (PartialMatch _, _) \<Rightarrow> (Inr None, n)
                   | Inr (FullMatch _, c2) \<Rightarrow>
                       (case kget_value env bs key h c2 (depth + 1) node of
                          (r, node') \<Rightarrow> (r, kwith_child n i (KDirty node' ext))))
              | KValues vals \<Rightarrow> (Inr (map_option snd (List.find (\<lambda>kv. key = fst kv) vals)), n))"
  by pat_completeness auto
termination
  by (relation "measure (\<lambda>(env, bs, key, h, consumed, depth, n). 8 * kv_n env - consumed)")
    (auto dest!: key_next_less match_extension_le)

declare kget_value.simps [simp del]

subsection \<open>Setting a value\<close>

text \<open>
  A full bucket is taken apart into a new node below the longest extension that its keys and the new
  key have in common; \<open>kmodify_all\<close> is the loop that puts its pairs there. When that fails, the pairs are
  gone.
\<close>

function kmodify_value ::
  "('k::linorder, 'v) kamt_env \<Rightarrow> Blocks \<Rightarrow> bool \<Rightarrow> 'k \<Rightarrow> 'v \<Rightarrow> bytes \<Rightarrow> nat \<Rightarrow> nat \<Rightarrow> ('k, 'v) KNode \<Rightarrow>
    (HamtError + 'v option \<times> bool) \<times> ('k, 'v) KNode"
  and kmodify_all ::
  "('k::linorder, 'v) kamt_env \<Rightarrow> Blocks \<Rightarrow> bool \<Rightarrow> (('k \<times> 'v) \<times> bytes) list \<Rightarrow> nat \<Rightarrow> nat \<Rightarrow> ('k, 'v) KNode \<Rightarrow>
    (HamtError + unit) \<times> ('k, 'v) KNode" where
  "kmodify_value env bs overwrite key val h consumed depth n =
    (case key_next env h consumed of
       Inl e \<Rightarrow> (Inl e, n)
     | Inr (idx, c1) \<Rightarrow>
         if \<not> bm_test_bit (kn_bitfield n) idx then
           if min_data_depth (kv_conf env) \<le> depth then (Inr (None, True), kinsert_child n idx key val)
           else
             (case kmodify_value env bs overwrite key val h c1 (depth + 1) kn_default of
                (Inl e, sub) \<Rightarrow> (Inl e, n)
              | (Inr _, sub) \<Rightarrow> (Inr (None, True), kinsert_child_dirty n idx sub ext_default))
         else
           let i = index_for_bit_pos (kn_bitfield n) idx
           in if i \<ge> length (kn_pointers n) then (Inl Panic, n)
              else case kn_pointers n ! i of
                KLink c ext cache \<Rightarrow>
                  (case match_extension (kv_conf env) h c1 ext of
                     Inl e \<Rightarrow> (Inl e, n)
                   | Inr (FullMatch skipped, c2) \<Rightarrow>
                       (case kcached env bs c cache (depth + 1) of
                          Inl e \<Rightarrow> (Inl e, n)
                        | Inr node \<Rightarrow>
                            (case kmodify_value env bs overwrite key val h c2 (depth + 1 + skipped) node of
                               (Inl e, node') \<Rightarrow> (Inl e, kwith_child n i (KLink c ext (Some node')))
                             | (Inr (old, modified), node') \<Rightarrow>
                                 (Inr (old, modified),
                                  kwith_child n i (if modified then KDirty node' ext else KLink c ext (Some node')))))
                   | Inr (PartialMatch matched, c2) \<Rightarrow>
                       (case split_extension env h c2 ext matched key val (\<lambda>midway idx tail. kinsert_child_link midway idx c tail cache) of
                          (Inl e, taken) \<Rightarrow> (Inl e, if taken then kwith_child n i (KLink c ext None) else n)
                        | (Inr p, _) \<Rightarrow> (Inr (None, True), kwith_child n i p)))
              | KDirty node ext \<Rightarrow>
                  (case match_extension (kv_conf env) h c1 ext of
                     Inl e \<Rightarrow> (Inl e, n)
                   | Inr (FullMatch skipped, c2) \<Rightarrow>
                       (case kmodify_value env bs overwrite key val h c2 (depth + 1 + skipped) node of
                          (r, node') \<Rightarrow> (r, kwith_child n i (KDirty node' ext)))
                   | Inr (PartialMatch matched, c2) \<Rightarrow>
                       (case split_extension env h c2 ext matched key val (\<lambda>midway idx tail. kinsert_child_dirty midway idx node tail) of
                          (Inl e, taken) \<Rightarrow> (Inl e, if taken then kwith_child n i (KDirty kn_default ext) else n)
                        | (Inr p, _) \<Rightarrow> (Inr (None, True), kwith_child n i p)))
              | KValues vals \<Rightarrow>
                  (case position (\<lambda>p. fst p = key) vals of
                     Some j \<Rightarrow>
                       if overwrite
                       then (Inr (Some (snd (vals ! j)), snd (vals ! j) \<noteq> val),
                             kwith_child n i (KValues (vals[j := (fst (vals ! j), val)])))
                       else (Inr (None, False), n)
                   | None \<Rightarrow>
                       if length vals \<ge> max_array_width (kv_conf env) then
                         let hashes = map (\<lambda>kv. kv_hash env (fst kv)) vals
                         in (case longest_common_prefix h c1 (bit_width (kv_conf env)) hashes of
                              Inl e \<Rightarrow> (Inl e, kwith_child n i (KValues []))
                            | Inr (ext, c2) \<Rightarrow>
                                let skipped = ext_length ext div bit_width (kv_conf env)
                                in (case kmodify_value env bs overwrite key val h c2 (depth + 1 + skipped) kn_default of
                                      (Inl e, sub) \<Rightarrow> (Inl e, kwith_child n i (KValues []))
                                    | (Inr modified, sub) \<Rightarrow>
                                        (case kmodify_all env bs overwrite (zip vals hashes) c2 (depth + 1 + skipped) sub of
                                           (Inl e, sub) \<Rightarrow> (Inl e, kwith_child n i (KValues []))
                                         | (Inr _, sub) \<Rightarrow> (Inr modified, kwith_child n i (KDirty sub ext)))))
                       else
                         let j = (case position (\<lambda>c. fst c > key) vals of Some j \<Rightarrow> j | None \<Rightarrow> length vals)
                         in (Inr (None, True), kwith_child n i (KValues (vec_insert j (key, val) vals)))))"
| "kmodify_all env bs overwrite [] consumed depth sub = (Inr (), sub)"
| "kmodify_all env bs overwrite (kvh # kvhs) consumed depth sub =
    (case kmodify_value env bs overwrite (fst (fst kvh)) (snd (fst kvh)) (snd kvh) consumed depth sub of
       (Inl e, sub) \<Rightarrow> (Inl e, sub)
     | (Inr _, sub) \<Rightarrow> kmodify_all env bs overwrite kvhs consumed depth sub)"
  by pat_completeness auto
termination
  by (relation "measures
      [\<lambda>x. case x of Inl (env, bs, overwrite, key, val, h, consumed, depth, n) \<Rightarrow> 8 * kv_n env - consumed
             | Inr (env, bs, overwrite, kvhs, consumed, depth, sub) \<Rightarrow> 8 * kv_n env - consumed,
       \<lambda>x. case x of Inl _ \<Rightarrow> 0 | Inr (env, bs, overwrite, kvhs, consumed, depth, sub) \<Rightarrow> Suc (length kvhs)]")
    (auto dest!: key_next_less match_extension_le longest_common_prefix_le)

declare kmodify_value.simps [simp del]

subsection \<open>Removing a value\<close>

text \<open>\<open>Bitfield::last_one_idx\<close>: the highest bit that is set, word by word from the highest one.\<close>

definition leading_zeros :: "u64 \<Rightarrow> nat" where
  "leading_zeros w = length (takeWhile Not (map (bit w) (rev [0..<64])))"

fun last_one_in :: "u64 list \<Rightarrow> nat \<Rightarrow> nat option" where
  "last_one_in [] idx = None"
| "last_one_in (w # ws) idx =
    (let v = leading_zeros w; idx = idx - v in if v < 64 then Some (idx - 1) else last_one_in ws idx)"

definition last_one_idx :: "Bitfield \<Rightarrow> nat option" where
  "last_one_idx b = last_one_in [w3 b, w2 b, w1 b, w0 b] 256"

definition unsplit_ext :: "Config \<Rightarrow> Bitfield \<Rightarrow> Extension \<Rightarrow> Extension \<Rightarrow> HamtError + Extension" where
  "unsplit_ext conf bf parent_ext child_ext =
    (case last_one_idx bf of
       None \<Rightarrow> Inl ZeroPointers
     | Some idx \<Rightarrow> ext_unsplit parent_ext (ext_from_idx idx (bit_width conf)) child_ext)"

fun kbucket_of :: "('k, 'v) KPointer \<Rightarrow> ('k \<times> 'v) list option" where
  "kbucket_of (KValues vals) = Some vals"
| "kbucket_of _ = None"

text \<open>
  \<open>Pointer::clean\<close> of a node under an extension: a node with one child gives way to the child, a node
  with few values goes back into a bucket.
\<close>

definition kpointer_clean :: "Config \<Rightarrow> nat \<Rightarrow> ('k::linorder, 'v) KNode \<Rightarrow> Extension \<Rightarrow> HamtError + ('k, 'v) KPointer" where
  "kpointer_clean conf depth n ext1 =
    (let ps = kn_pointers n
     in if length ps = 0 then Inl ZeroPointers
        else if depth < min_data_depth conf then Inr (KDirty n ext1)
        else if length ps = 1 then
          (case ps ! 0 of
             KValues vals \<Rightarrow> Inr (KValues vals)
           | KLink c ext2 cache \<Rightarrow> map_sum id (\<lambda>ext. KLink c ext cache) (unsplit_ext conf (kn_bitfield n) ext1 ext2)
           | KDirty sub ext2 \<Rightarrow> map_sum id (\<lambda>ext. KDirty sub ext) (unsplit_ext conf (kn_bitfield n) ext1 ext2))
        else if length ps \<le> max_array_width conf then
          if list_all (\<lambda>p. kbucket_of p \<noteq> None) ps then
            let vals = concat (map (\<lambda>p. the (kbucket_of p)) ps)
            in if length vals > max_array_width conf then Inr (KDirty n ext1) else Inr (KValues (sort_key fst vals))
          else Inr (KDirty n ext1)
        else Inr (KDirty n ext1))"

text \<open>\<open>Node::clean\<close>: nothing when the child is empty and may be removed.\<close>

definition kn_clean :: "Config \<Rightarrow> nat \<Rightarrow> ('k::linorder, 'v) KNode \<Rightarrow> Extension \<Rightarrow> HamtError + ('k, 'v) KPointer option" where
  "kn_clean conf depth n ext =
    (case kpointer_clean conf depth n ext of
       Inr p \<Rightarrow> Inr (Some p)
     | Inl ZeroPointers \<Rightarrow> if depth < min_data_depth conf then Inr None else Inl ZeroPointers
     | Inl e \<Rightarrow> Inl e)"

definition kcleaned :: "('k::linorder, 'v) kamt_env \<Rightarrow> nat \<Rightarrow> ('k, 'v) KNode \<Rightarrow> nat \<Rightarrow> nat \<Rightarrow> ('k, 'v) KNode \<Rightarrow> Extension \<Rightarrow> 'v \<Rightarrow>
    (HamtError + 'v option) \<times> ('k, 'v) KNode" where
  "kcleaned env depth n i idx node ext deleted =
    (case kn_clean (kv_conf env) depth node ext of
       Inl e \<Rightarrow> (Inl e, kwith_child n i (KDirty node ext))
     | Inr (Some p) \<Rightarrow> (Inr (Some deleted), kwith_child n i p)
     | Inr None \<Rightarrow> (Inr (Some deleted), krm_child n i idx))"

function krm_value ::
  "('k::linorder, 'v) kamt_env \<Rightarrow> Blocks \<Rightarrow> 'k \<Rightarrow> bytes \<Rightarrow> nat \<Rightarrow> nat \<Rightarrow> ('k, 'v) KNode \<Rightarrow>
    (HamtError + 'v option) \<times> ('k, 'v) KNode" where
  "krm_value env bs key h consumed depth n =
    (case key_next env h consumed of
       Inl e \<Rightarrow> (Inl e, n)
     | Inr (idx, c1) \<Rightarrow>
         if \<not> bm_test_bit (kn_bitfield n) idx then (Inr None, n)
         else
           let i = index_for_bit_pos (kn_bitfield n) idx
           in if i \<ge> length (kn_pointers n) then (Inl Panic, n)
              else case kn_pointers n ! i of
                KLink c ext cache \<Rightarrow>
                  (case match_extension (kv_conf env) h c1 ext of
                     Inl e \<Rightarrow> (Inl e, n)
                   | Inr (PartialMatch _, _) \<Rightarrow> (Inr None, n)
                   | Inr (FullMatch skipped, c2) \<Rightarrow>
                       (case kcached env bs c cache (depth + 1) of
                          Inl e \<Rightarrow> (Inl e, n)
                        | Inr node \<Rightarrow>
                            (case krm_value env bs key h c2 (depth + 1 + skipped) node of
                               (Inl e, node') \<Rightarrow> (Inl e, kwith_child n i (KLink c ext (Some node')))
                             | (Inr None, node') \<Rightarrow> (Inr None, kwith_child n i (KLink c ext (Some node')))
                             | (Inr (Some v), node') \<Rightarrow> kcleaned env depth n i idx node' ext v)))
              | KDirty node ext \<Rightarrow>
                  (case match_extension (kv_conf env) h c1 ext of
                     Inl e \<Rightarrow> (Inl e, n)
                   | Inr (PartialMatch _, _) \<Rightarrow> (Inr None, n)
                   | Inr (FullMatch skipped, c2) \<Rightarrow>
                       (case krm_value env bs key h c2 (depth + 1 + skipped) node of
                          (Inl e, node') \<Rightarrow> (Inl e, kwith_child n i (KDirty node' ext))
                        | (Inr None, node') \<Rightarrow> (Inr None, kwith_child n i (KDirty node' ext))
                        | (Inr (Some v), node') \<Rightarrow> kcleaned env depth n i idx node' ext v))
              | KValues vals \<Rightarrow>
                  (case position (\<lambda>p. key = fst p) vals of
                     None \<Rightarrow> (Inr None, n)
                   | Some j \<Rightarrow>
                       if length vals = 1 then (Inr (Some (snd (vals ! 0))), krm_child n i idx)
                       else (Inr (Some (snd (vals ! j))), kwith_child n i (KValues (vec_remove j vals)))))"
  by pat_completeness auto
termination
  by (relation "measure (\<lambda>(env, bs, key, h, consumed, depth, n). 8 * kv_n env - consumed)")
    (auto dest!: key_next_less match_extension_le)

declare krm_value.simps [simp del]

subsection \<open>Storing the nodes\<close>

text \<open>
  \<open>Node::flush\<close> stores the dirty nodes bottom up and turns them into links that keep the node cached.
  It stops at the first error with what was stored so far.
\<close>

fun kn_flush :: "('k, 'v) knode_codec \<Rightarrow> ('k, 'v) KNode \<Rightarrow> Blocks \<Rightarrow> (HamtError + unit) \<times> ('k, 'v) KNode \<times> Blocks"
  and kpointers_flush :: "('k, 'v) knode_codec \<Rightarrow> ('k, 'v) KPointer list \<Rightarrow> Blocks \<Rightarrow>
    (HamtError + unit) \<times> ('k, 'v) KPointer list \<times> Blocks"
  and kpointer_flush :: "('k, 'v) knode_codec \<Rightarrow> ('k, 'v) KPointer \<Rightarrow> Blocks \<Rightarrow>
    (HamtError + unit) \<times> ('k, 'v) KPointer \<times> Blocks" where
  "kn_flush cd (KNode b ps) bs = (case kpointers_flush cd ps bs of (r, ps', bs') \<Rightarrow> (r, KNode b ps', bs'))"
| "kpointers_flush cd [] bs = (Inr (), [], bs)"
| "kpointers_flush cd (p # ps) bs =
    (case kpointer_flush cd p bs of
       (Inl e, p', bs') \<Rightarrow> (Inl e, p' # ps, bs')
     | (Inr _, p', bs') \<Rightarrow> (case kpointers_flush cd ps bs' of (r, ps', bs'') \<Rightarrow> (r, p' # ps', bs'')))"
| "kpointer_flush cd (KDirty n ext) bs =
    (case kn_flush cd n bs of
       (Inl e, n', bs') \<Rightarrow> (Inl e, KDirty n' ext, bs')
     | (Inr _, n', bs') \<Rightarrow>
         (case kn_put cd n' bs' of
            Inl e \<Rightarrow> (Inl e, KDirty n' ext, bs')
          | Inr (c, bs'') \<Rightarrow> (Inr (), KLink c ext (Some n'), bs'')))"
| "kpointer_flush cd p bs = (Inr (), p, bs)"

subsection \<open>The map\<close>

record ('k, 'v) Kamt =
  kamt_root :: "('k, 'v) KNode"
  kamt_blocks :: Blocks
  kamt_flushed_cid :: "Cid option"

definition kamt_new :: "Blocks \<Rightarrow> ('k, 'v) Kamt" where
  "kamt_new bs = \<lparr>kamt_root = kn_default, kamt_blocks = bs, kamt_flushed_cid = None\<rparr>"

definition kamt_load :: "('k::linorder, 'v) kamt_env \<Rightarrow> Cid \<Rightarrow> Blocks \<Rightarrow> HamtError + ('k, 'v) Kamt" where
  "kamt_load env c bs =
    (case kn_load env bs c 0 of
       Inl e \<Rightarrow> Inl e
     | Inr n \<Rightarrow> Inr \<lparr>kamt_root = n, kamt_blocks = bs, kamt_flushed_cid = Some c\<rparr>)"

text \<open>Unlike in the HAMT, setting the root leaves the remembered CID as it was.\<close>

definition kamt_set_root :: "('k::linorder, 'v) kamt_env \<Rightarrow> Cid \<Rightarrow> ('k, 'v) Kamt \<Rightarrow> (HamtError + unit) \<times> ('k, 'v) Kamt" where
  "kamt_set_root env c t =
    (case kn_load env (kamt_blocks t) c 0 of
       Inl e \<Rightarrow> (Inl e, t)
     | Inr n \<Rightarrow> (Inr (), t\<lparr>kamt_root := n\<rparr>))"

definition kamt_modify :: "('k::linorder, 'v) kamt_env \<Rightarrow> bool \<Rightarrow> 'k \<Rightarrow> 'v \<Rightarrow> ('k, 'v) Kamt \<Rightarrow>
    (HamtError + 'v option \<times> bool) \<times> ('k, 'v) Kamt" where
  "kamt_modify env overwrite key val t =
    (case kmodify_value env (kamt_blocks t) overwrite key val (kv_hash env key) 0 0 (kamt_root t) of
       (Inl e, n) \<Rightarrow> (Inl e, t\<lparr>kamt_root := n\<rparr>)
     | (Inr (old, modified), n) \<Rightarrow>
         (Inr (old, modified), t\<lparr>kamt_root := n, kamt_flushed_cid := (if modified then None else kamt_flushed_cid t)\<rparr>))"

definition kamt_set :: "('k::linorder, 'v) kamt_env \<Rightarrow> 'k \<Rightarrow> 'v \<Rightarrow> ('k, 'v) Kamt \<Rightarrow> (HamtError + 'v option) \<times> ('k, 'v) Kamt" where
  "kamt_set env key val t = map_prod (map_sum id fst) id (kamt_modify env True key val t)"

definition kamt_set_if_absent :: "('k::linorder, 'v) kamt_env \<Rightarrow> 'k \<Rightarrow> 'v \<Rightarrow> ('k, 'v) Kamt \<Rightarrow> (HamtError + bool) \<times> ('k, 'v) Kamt" where
  "kamt_set_if_absent env key val t = map_prod (map_sum id snd) id (kamt_modify env False key val t)"

definition kamt_get :: "('k::linorder, 'v) kamt_env \<Rightarrow> 'k \<Rightarrow> ('k, 'v) Kamt \<Rightarrow> (HamtError + 'v option) \<times> ('k, 'v) Kamt" where
  "kamt_get env key t =
    (case kget_value env (kamt_blocks t) key (kv_hash env key) 0 0 (kamt_root t) of (r, n) \<Rightarrow> (r, t\<lparr>kamt_root := n\<rparr>))"

definition kamt_contains_key :: "('k::linorder, 'v) kamt_env \<Rightarrow> 'k \<Rightarrow> ('k, 'v) Kamt \<Rightarrow> (HamtError + bool) \<times> ('k, 'v) Kamt" where
  "kamt_contains_key env key t = map_prod (map_sum id (\<lambda>v. v \<noteq> None)) id (kamt_get env key t)"

definition kamt_delete :: "('k::linorder, 'v) kamt_env \<Rightarrow> 'k \<Rightarrow> ('k, 'v) Kamt \<Rightarrow> (HamtError + 'v option) \<times> ('k, 'v) Kamt" where
  "kamt_delete env key t =
    (case krm_value env (kamt_blocks t) key (kv_hash env key) 0 0 (kamt_root t) of
       (Inl e, n) \<Rightarrow> (Inl e, t\<lparr>kamt_root := n\<rparr>)
     | (Inr deleted, n) \<Rightarrow>
         (Inr deleted, t\<lparr>kamt_root := n, kamt_flushed_cid := (if deleted \<noteq> None then None else kamt_flushed_cid t)\<rparr>))"

definition kamt_flush :: "('k, 'v) kamt_env \<Rightarrow> ('k, 'v) Kamt \<Rightarrow> (HamtError + Cid) \<times> ('k, 'v) Kamt" where
  "kamt_flush env t =
    (case kamt_flushed_cid t of
       Some c \<Rightarrow> (Inr c, t)
     | None \<Rightarrow>
         (case kn_flush (kv_codec env) (kamt_root t) (kamt_blocks t) of
            (Inl e, n, bs) \<Rightarrow> (Inl e, t\<lparr>kamt_root := n, kamt_blocks := bs\<rparr>)
          | (Inr _, n, bs) \<Rightarrow>
              (case kn_put (kv_codec env) n bs of
                 Inl e \<Rightarrow> (Inl e, t\<lparr>kamt_root := n, kamt_blocks := bs\<rparr>)
               | Inr (c, bs') \<Rightarrow> (Inr c, t\<lparr>kamt_root := n, kamt_blocks := bs', kamt_flushed_cid := Some c\<rparr>))))"

definition kamt_is_empty :: "('k, 'v) Kamt \<Rightarrow> bool" where
  "kamt_is_empty t \<longleftrightarrow> kn_pointers (kamt_root t) = []"

definition kamt_clear :: "('k, 'v) Kamt \<Rightarrow> ('k, 'v) Kamt" where
  "kamt_clear t = (if kamt_is_empty t then t else t\<lparr>kamt_root := kn_default, kamt_flushed_cid := None\<rparr>)"

end
