(* ===== verification/KamtTree.thy ===== *)
theory KamtTree
  imports Kamt HamtStore
begin

text \<open>
  The maps that KAMT nodes stand for. \<open>ktree env bs d n m\<close> says that node \<open>n\<close>, at depth \<open>d\<close>, holds exactly
  the entries of \<open>m\<close> in canonical form: every key is in the slot that its bits select, buckets are sorted,
  not empty and not too long, there are no buckets above the minimum data depth, and a child node is
  there only where a bucket would be too long, below the longest extension that its keys have in
  common (or above the minimum data depth, without an extension). \<open>kstored\<close> says the same of what a CID
  leads to in the store. Every link leads to the stored form of the entries below it.

  The depth of a node counts the levels that extensions skip: a node at depth \<open>d\<close> looks at the chunk of
  bits that starts at \<open>d\<close> times the bit width.
\<close>

subsection \<open>Keys and their chunks\<close>

definition kenv_ok :: "('k, 'v) kamt_env \<Rightarrow> bool" where
  "kenv_ok env \<longleftrightarrow> 0 < bit_width (kv_conf env) \<and> bit_width (kv_conf env) \<le> 8 \<and> 0 < max_array_width (kv_conf env) \<and>
    min_data_depth (kv_conf env) * bit_width (kv_conf env) < 8 * kv_n env \<and>
    (\<forall>k. length (kv_hash env k) = kv_n env) \<and> inj (kv_hash env) \<and> codec_ok (kv_codec env)"

definition kwidth :: "('k, 'v) kamt_env \<Rightarrow> nat" where
  "kwidth env = bit_width (kv_conf env)"

definition kbits :: "('k, 'v) kamt_env \<Rightarrow> 'k \<Rightarrow> bool list" where
  "kbits env k = key_bits (kv_hash env k)"

definition kslot :: "('k, 'v) kamt_env \<Rightarrow> nat \<Rightarrow> 'k \<Rightarrow> nat" where
  "kslot env d k = bits_value (take (kwidth env) (drop (d * kwidth env) (kbits env k)))"

text \<open>The bits of \<open>s\<close> levels.\<close>

definition kpath :: "('k, 'v) kamt_env \<Rightarrow> nat \<Rightarrow> nat \<Rightarrow> 'k \<Rightarrow> bool list" where
  "kpath env d s k = take (s * kwidth env) (drop (d * kwidth env) (kbits env k))"

definition within :: "('k, 'v) kamt_env \<Rightarrow> nat \<Rightarrow> bool" where
  "within env d \<longleftrightarrow> d * kwidth env < 8 * kv_n env"

lemma kwidth_bounds: "kenv_ok env \<Longrightarrow> 0 < kwidth env \<and> kwidth env \<le> 8"
  by (simp add: kenv_ok_def kwidth_def)

lemma kbits_length: "kenv_ok env \<Longrightarrow> length (kbits env k) = 8 * kv_n env"
  by (simp add: kenv_ok_def kbits_def key_bits_length)

lemma kbits_inject: "kenv_ok env \<Longrightarrow> kbits env x = kbits env y \<Longrightarrow> x = y"
  unfolding kenv_ok_def kbits_def by (metis injD path_bytes_inject)

lemma within_mono: "within env d \<Longrightarrow> d' \<le> d \<Longrightarrow> within env d'"
  unfolding within_def by (meson mult_le_mono1 order_le_less_trans)

lemma within_measure:
  assumes "kenv_ok env" "within env d"
  shows "d < 8 * kv_n env"
proof -
  have "d * 1 \<le> d * kwidth env" using kwidth_bounds [OF assms(1)] by (intro mult_le_mono2) simp
  also have "\<dots> < 8 * kv_n env" using assms(2) by (simp only: within_def)
  finally show ?thesis by simp
qed

lemma kslot_width: "kslot env d k < 2 ^ kwidth env"
  unfolding kslot_def by (rule chunk_less)

lemma kslot_bound: "kenv_ok env \<Longrightarrow> kslot env d k < 256"
proof -
  assume "kenv_ok env"
  then have "(2 :: nat) ^ kwidth env \<le> 2 ^ 8" using kwidth_bounds by (intro power_increasing) auto
  then show ?thesis using kslot_width [of env d k] by simp
qed

lemma key_next_slot:
  assumes "kenv_ok env" "within env d"
  shows "key_next env (kv_hash env k) (d * kwidth env) = Inr (kslot env d k, min ((d + 1) * kwidth env) (8 * kv_n env))"
proof -
  have len: "length (kv_hash env k) = kv_n env" using assms(1) by (simp add: kenv_ok_def)
  have "key_next env (kv_hash env k) (d * kwidth env) =
      Inr (bits_value (take (kwidth env) (drop (d * kwidth env) (take (8 * kv_n env) (key_bits (kv_hash env k))))),
        d * kwidth env + min (kwidth env) (8 * kv_n env - d * kwidth env))"
    unfolding key_next_def kwidth_def [symmetric]
    using kwidth_bounds [OF assms(1)] assms(2) len by (intro kb_next_bits) (simp_all add: within_def)
  moreover have "take (8 * kv_n env) (key_bits (kv_hash env k)) = kbits env k" using len by (simp add: kbits_def key_bits_length)
  moreover have "d * kwidth env + min (kwidth env) (8 * kv_n env - d * kwidth env) = min ((d + 1) * kwidth env) (8 * kv_n env)"
    using assms(2) by (auto simp: within_def min_def)
  ultimately show ?thesis by (simp add: kslot_def)
qed

lemma key_next_inner:
  assumes "kenv_ok env" "within env (d + 1)"
  shows "key_next env (kv_hash env k) (d * kwidth env) = Inr (kslot env d k, (d + 1) * kwidth env)"
  using key_next_slot [OF assms(1) within_mono [OF assms(2), of d]] assms(2) by (simp add: within_def)

text \<open>Chunks that are equal as numbers are equal.\<close>

lemma kslot_chunk:
  assumes "kenv_ok env"
  shows "kslot env d x = kslot env d y \<longleftrightarrow> kpath env d 1 x = kpath env d 1 y"
  using bits_value_inject [of "kpath env d 1 x" "kpath env d 1 y"] kbits_length [OF assms]
  by (auto simp: kslot_def kpath_def)

lemma kpath_add: "kpath env d (s + t) k = kpath env d s k @ kpath env (d + s) t k"
  by (simp add: kpath_def take_add add.commute distrib_right)

lemma kpath_length: "kenv_ok env \<Longrightarrow> within env (d + s) \<Longrightarrow> length (kpath env d s k) = s * kwidth env"
  by (simp add: kpath_def kbits_length within_def distrib_right)

lemma kpath_0 [simp]: "kpath env d 0 k = []"
  by (simp add: kpath_def)

text \<open>Keys with the same bits up to a depth.\<close>

definition kagree :: "('k, 'v) kamt_env \<Rightarrow> nat \<Rightarrow> 'k set \<Rightarrow> bool" where
  "kagree env d K \<longleftrightarrow> (\<forall>x \<in> K. \<forall>y \<in> K. kpath env 0 d x = kpath env 0 d y)"

lemma kagree_0: "kagree env 0 K"
  by (simp add: kagree_def)

lemma kagree_subset: "kagree env d K \<Longrightarrow> L \<subseteq> K \<Longrightarrow> kagree env d L"
  unfolding kagree_def by blast

lemma kagree_extend:
  assumes "kagree env d K" "\<And>x y. x \<in> K \<Longrightarrow> y \<in> K \<Longrightarrow> kpath env d s x = kpath env d s y"
  shows "kagree env (d + s) K"
  unfolding kagree_def
proof (intro ballI)
  fix x y
  assume xy: "x \<in> K" "y \<in> K"
  have "kpath env 0 d x = kpath env 0 d y" using assms(1) xy unfolding kagree_def by blast
  then show "kpath env 0 (d + s) x = kpath env 0 (d + s) y" using assms(2) [OF xy] by (simp add: kpath_add)
qed

lemma kagree_slot:
  assumes "kenv_ok env" "kagree env d K" "\<And>x. x \<in> K \<Longrightarrow> kslot env d x = i"
  shows "kagree env (d + 1) K"
proof (rule kagree_extend [OF assms(2)])
  fix x y
  assume "x \<in> K" "y \<in> K"
  then have "kslot env d x = kslot env d y" using assms(3) by simp
  then show "kpath env d 1 x = kpath env d 1 y" by (simp only: kslot_chunk [OF assms(1)])
qed

lemma take_drop_ext: "take n xs = take n ys \<Longrightarrow> drop n xs = drop n ys \<Longrightarrow> xs = ys"
  using append_take_drop_id [of n xs] append_take_drop_id [of n ys] by argo

text \<open>Different keys that agree so far differ later.\<close>

lemma kagree_differ:
  assumes "kenv_ok env" "kagree env d K" "x \<in> K" "y \<in> K" "x \<noteq> y"
  shows "drop (d * kwidth env) (kbits env x) \<noteq> drop (d * kwidth env) (kbits env y)"
proof
  assume eq: "drop (d * kwidth env) (kbits env x) = drop (d * kwidth env) (kbits env y)"
  have "take (d * kwidth env) (kbits env x) = take (d * kwidth env) (kbits env y)"
    using bspec [OF bspec [OF assms(2) [unfolded kagree_def] assms(3)] assms(4)] by (simp add: kpath_def)
  then have "kbits env x = kbits env y"
    using eq by (rule take_drop_ext)
  then show False using kbits_inject [OF assms(1)] assms(5) by blast
qed

subsection \<open>The tree of a map\<close>

definition kn_slot :: "('k, 'v) KNode \<Rightarrow> nat \<Rightarrow> ('k, 'v) KPointer option" where
  "kn_slot n = slot_get (kn_bitfield n) (kn_pointers n)"

definition kn_ok :: "('k, 'v) KNode \<Rightarrow> bool" where
  "kn_ok n \<longleftrightarrow> slots_ok (kn_bitfield n) (kn_pointers n)"

definition kat :: "('k, 'v) kamt_env \<Rightarrow> nat \<Rightarrow> ('k \<Rightarrow> 'v option) \<Rightarrow> nat \<Rightarrow> ('k \<Rightarrow> 'v option)" where
  "kat env d m i = m |` {k. kslot env d k = i}"

definition kskip :: "('k, 'v) kamt_env \<Rightarrow> Extension \<Rightarrow> nat" where
  "kskip env e = ext_length e div kwidth env"

text \<open>What justifies a child node with the extension \<open>e\<close> below depth \<open>d\<close>.\<close>

definition kchild_ok :: "('k, 'v) kamt_env \<Rightarrow> nat \<Rightarrow> Extension \<Rightarrow> ('k \<Rightarrow> 'v option) \<Rightarrow> bool" where
  "kchild_ok env d e m \<longleftrightarrow>
    ext_packed e \<and> ext_length e = kskip env e * kwidth env \<and> within env (d + 1 + kskip env e) \<and>
    (\<forall>k \<in> dom m. kpath env (d + 1) (kskip env e) k = ext_bits e) \<and>
    (if min_data_depth (kv_conf env) \<le> d
     then max_array_width (kv_conf env) < card (dom m) \<and>
       (\<exists>x \<in> dom m. \<exists>y \<in> dom m. kslot env (d + 1 + kskip env e) x \<noteq> kslot env (d + 1 + kskip env e) y)
     else kskip env e = 0 \<and> m \<noteq> Map.empty)"

text \<open>The canonical form of a map in the store.\<close>

inductive kstored :: "('k::linorder, 'v) kamt_env \<Rightarrow> Blocks \<Rightarrow> nat \<Rightarrow> Cid \<Rightarrow> ('k \<Rightarrow> 'v option) \<Rightarrow> bool"
  for env bs where
  kstored_node:
  "within env d \<Longrightarrow> cbor_get (kv_codec env) bs cid = Inr (Some (b, qs)) \<Longrightarrow> cid = obj_cid (kv_codec env) (b, qs) \<Longrightarrow> slots_ok b qs \<Longrightarrow>
    \<forall>i. slot_get b qs i = None \<longrightarrow> kat env d m i = Map.empty \<Longrightarrow>
    \<forall>i vs. slot_get b qs i = Some (KSerValues vs) \<longrightarrow>
      min_data_depth (kv_conf env) \<le> d \<and> bucket_ok (kv_conf env) vs \<and> kat env d m i = map_of vs \<Longrightarrow>
    \<forall>i l len path. slot_get b qs i = Some (KSerLink l len path) \<longrightarrow>
      kchild_ok env d \<lparr>ext_length = len, ext_path = path\<rparr> (kat env d m i) \<and>
      kstored env bs (d + 1 + kskip env \<lparr>ext_length = len, ext_path = path\<rparr>) l (kat env d m i) \<Longrightarrow>
    kstored env bs d cid m"

inductive ktree :: "('k::linorder, 'v) kamt_env \<Rightarrow> Blocks \<Rightarrow> nat \<Rightarrow> ('k, 'v) KNode \<Rightarrow> ('k \<Rightarrow> 'v option) \<Rightarrow> bool"
  for env bs where
  ktree_node:
  "within env d \<Longrightarrow> kn_ok n \<Longrightarrow>
    \<forall>i. kn_slot n i = None \<longrightarrow> kat env d m i = Map.empty \<Longrightarrow>
    \<forall>i vs. kn_slot n i = Some (KValues vs) \<longrightarrow>
      min_data_depth (kv_conf env) \<le> d \<and> bucket_ok (kv_conf env) vs \<and> kat env d m i = map_of vs \<Longrightarrow>
    \<forall>i l e cache. kn_slot n i = Some (KLink l e cache) \<longrightarrow>
      kchild_ok env d e (kat env d m i) \<and> kstored env bs (d + 1 + kskip env e) l (kat env d m i) \<and>
      (\<forall>n'. cache = Some n' \<longrightarrow> ktree env bs (d + 1 + kskip env e) n' (kat env d m i)) \<Longrightarrow>
    \<forall>i e n'. kn_slot n i = Some (KDirty n' e) \<longrightarrow>
      kchild_ok env d e (kat env d m i) \<and> ktree env bs (d + 1 + kskip env e) n' (kat env d m i) \<Longrightarrow>
    ktree env bs d n m"

text \<open>What a slot holds, in the store and in memory.\<close>

definition kser_rep :: "('k::linorder, 'v) kamt_env \<Rightarrow> Blocks \<Rightarrow> nat \<Rightarrow> ('k, 'v) KPointerSer option \<Rightarrow> ('k \<Rightarrow> 'v option) \<Rightarrow> bool" where
  "kser_rep env bs d qo m =
    (case qo of
       None \<Rightarrow> m = Map.empty
     | Some (KSerValues vs) \<Rightarrow> min_data_depth (kv_conf env) \<le> d \<and> bucket_ok (kv_conf env) vs \<and> m = map_of vs
     | Some (KSerLink l len path) \<Rightarrow>
         kchild_ok env d \<lparr>ext_length = len, ext_path = path\<rparr> m \<and>
         kstored env bs (d + 1 + kskip env \<lparr>ext_length = len, ext_path = path\<rparr>) l m)"

definition kslot_rep :: "('k::linorder, 'v) kamt_env \<Rightarrow> Blocks \<Rightarrow> nat \<Rightarrow> ('k, 'v) KPointer option \<Rightarrow> ('k \<Rightarrow> 'v option) \<Rightarrow> bool" where
  "kslot_rep env bs d po m =
    (case po of
       None \<Rightarrow> m = Map.empty
     | Some (KValues vs) \<Rightarrow> min_data_depth (kv_conf env) \<le> d \<and> bucket_ok (kv_conf env) vs \<and> m = map_of vs
     | Some (KLink l e cache) \<Rightarrow>
         kchild_ok env d e m \<and> kstored env bs (d + 1 + kskip env e) l m \<and>
         (\<forall>n'. cache = Some n' \<longrightarrow> ktree env bs (d + 1 + kskip env e) n' m)
     | Some (KDirty n' e) \<Rightarrow> kchild_ok env d e m \<and> ktree env bs (d + 1 + kskip env e) n' m)"

lemma kser_rep_split:
  "kser_rep env bs d qo m \<longleftrightarrow>
    (qo = None \<longrightarrow> m = Map.empty) \<and>
    (\<forall>vs. qo = Some (KSerValues vs) \<longrightarrow> min_data_depth (kv_conf env) \<le> d \<and> bucket_ok (kv_conf env) vs \<and> m = map_of vs) \<and>
    (\<forall>l len path. qo = Some (KSerLink l len path) \<longrightarrow>
      kchild_ok env d \<lparr>ext_length = len, ext_path = path\<rparr> m \<and>
      kstored env bs (d + 1 + kskip env \<lparr>ext_length = len, ext_path = path\<rparr>) l m)"
  by (simp add: kser_rep_def split: option.split KPointerSer.split)

lemma kslot_rep_split:
  "kslot_rep env bs d po m \<longleftrightarrow>
    (po = None \<longrightarrow> m = Map.empty) \<and>
    (\<forall>vs. po = Some (KValues vs) \<longrightarrow> min_data_depth (kv_conf env) \<le> d \<and> bucket_ok (kv_conf env) vs \<and> m = map_of vs) \<and>
    (\<forall>l e cache. po = Some (KLink l e cache) \<longrightarrow> kchild_ok env d e m \<and> kstored env bs (d + 1 + kskip env e) l m \<and>
      (\<forall>n'. cache = Some n' \<longrightarrow> ktree env bs (d + 1 + kskip env e) n' m)) \<and>
    (\<forall>e n'. po = Some (KDirty n' e) \<longrightarrow> kchild_ok env d e m \<and> ktree env bs (d + 1 + kskip env e) n' m)"
  unfolding kslot_rep_def by (simp split: option.split KPointer.split)

lemma kstored_iff:
  "kstored env bs d cid m \<longleftrightarrow>
    (\<exists>b qs. within env d \<and> cbor_get (kv_codec env) bs cid = Inr (Some (b, qs)) \<and> cid = obj_cid (kv_codec env) (b, qs) \<and>
      slots_ok b qs \<and> (\<forall>i. kser_rep env bs d (slot_get b qs i) (kat env d m i)))"
  unfolding kstored.simps [of env bs d cid m] kser_rep_split all_conj_distrib by blast

lemma ktree_iff: "ktree env bs d n m \<longleftrightarrow> within env d \<and> kn_ok n \<and> (\<forall>i. kslot_rep env bs d (kn_slot n i) (kat env d m i))"
  unfolding kslot_rep_split all_conj_distrib
proof (rule iffI, goal_cases)
  case 1
  then show ?case by (cases rule: ktree.cases) (intro conjI; assumption)
next
  case 2
  then show ?case by (elim conjE) (rule ktree_node; assumption)
qed

lemma ktreeD:
  assumes "ktree env bs d n m"
  shows "within env d" "kn_ok n" "kslot_rep env bs d (kn_slot n i) (kat env d m i)"
  using assms by (simp_all add: ktree_iff)

lemma ktree_change:
  assumes "ktree env bs d n m" "kn_ok n'" "kn_slot n' = (kn_slot n)(i := po)"
    and "kslot_rep env bs d po (kat env d m' i)" "\<And>j. j \<noteq> i \<Longrightarrow> kat env d m' j = kat env d m j"
  shows "ktree env bs d n' m'"
  unfolding ktree_iff
proof (intro conjI allI)
  show "within env d" "kn_ok n'" using ktreeD(1) [OF assms(1)] assms(2) by simp_all
  fix j
  show "kslot_rep env bs d (kn_slot n' j) (kat env d m' j)"
    using assms(3-5) ktreeD(3) [OF assms(1), of j] by (cases "j = i") simp_all
qed

lemma kat_key: "kat env d m (kslot env d k) k = m k"
  by (simp add: kat_def)

lemma kat_dom: "k \<in> dom (kat env d m i) \<longleftrightarrow> k \<in> dom m \<and> kslot env d k = i"
  by (auto simp: kat_def restrict_map_def split: if_splits)

lemma kat_upd:
  "kat env d (m(k := v)) (kslot env d k) = (kat env d m (kslot env d k))(k := v)"
  "j \<noteq> kslot env d k \<Longrightarrow> kat env d (m(k := v)) j = kat env d m j"
  by (auto simp: kat_def restrict_map_def fun_eq_iff)

lemma ktree_empty: "within env d \<Longrightarrow> ktree env bs d kn_default Map.empty"
  by (simp add: ktree_iff kn_ok_def kn_default_def slots_ok_def count_ones_slots kn_slot_def slot_get_None kslot_rep_def kat_def)

subsection \<open>Children of a node\<close>

lemma kwith_child_slot:
  assumes "kn_ok n" "i < 256" "bm_test_bit (kn_bitfield n) i"
  defines "j \<equiv> index_for_bit_pos (kn_bitfield n) i"
  shows "kn_ok (kwith_child n j p)" "kn_slot (kwith_child n j p) = (kn_slot n)(i \<mapsto> p)"
    "j < length (kn_pointers n)" "kn_slot n i = Some (kn_pointers n ! j)"
    "kn_ok (krm_child n j i)" "kn_slot (krm_child n j i) = (kn_slot n)(i := None)"
proof -
  have i: "i \<in> slots (kn_bitfield n)" using assms(2,3) by (simp add: slots_def)
  note ok = assms(1) [unfolded kn_ok_def]
  show "kn_ok (kwith_child n j p)" "kn_slot (kwith_child n j p) = (kn_slot n)(i \<mapsto> p)"
    using slot_update [OF ok i] by (simp_all add: kwith_child_def kn_ok_def kn_slot_def j_def)
  show "j < length (kn_pointers n)" "kn_slot n i = Some (kn_pointers n ! j)"
    using index_bound [OF ok i] slot_get_Some [OF ok i] by (simp_all add: j_def kn_slot_def)
  show "kn_ok (krm_child n j i)" "kn_slot (krm_child n j i) = (kn_slot n)(i := None)"
    using slot_remove [OF ok i] by (simp_all add: krm_child_def kn_ok_def kn_slot_def j_def)
qed

lemma kinsert_slot:
  assumes "kn_ok n" "i < 256" "\<not> bm_test_bit (kn_bitfield n) i"
  shows "kn_ok (kinsert_pointer n i p)" "kn_slot (kinsert_pointer n i p) = (kn_slot n)(i \<mapsto> p)" "kn_slot n i = None"
proof -
  have i: "i \<notin> slots (kn_bitfield n)" using assms(3) by (simp add: slots_def)
  show "kn_ok (kinsert_pointer n i p)" "kn_slot (kinsert_pointer n i p) = (kn_slot n)(i \<mapsto> p)"
    using slot_insert [OF assms(1) [unfolded kn_ok_def] assms(2) i] by (simp_all add: kinsert_pointer_def kn_ok_def kn_slot_def Let_def)
  show "kn_slot n i = None" using i by (simp add: kn_slot_def slot_get_None)
qed

lemma kn_slot_list: "kn_ok n \<Longrightarrow> kn_pointers n = map (\<lambda>i. the (kn_slot n i)) (sorted_list_of_set (slots (kn_bitfield n)))"
  using slot_list [of "kn_bitfield n" "kn_pointers n"] by (simp add: kn_ok_def kn_slot_def)

lemma kn_slot_dom: "kn_ok n \<Longrightarrow> kn_slot n i \<noteq> None \<longleftrightarrow> i \<in> slots (kn_bitfield n)"
  using slot_get_dom [of "kn_bitfield n" "kn_pointers n"] by (simp add: kn_ok_def kn_slot_def)

lemma kn_slot_Some:
  assumes "kn_ok n" "i \<in> slots (kn_bitfield n)"
  obtains p where "kn_slot n i = Some p" "p \<in> set (kn_pointers n)"
proof -
  obtain p where p: "kn_slot n i = Some p" using kn_slot_dom [OF assms(1), of i] assms(2) by (cases "kn_slot n i") simp_all
  moreover have "set (kn_pointers n) = {p. \<exists>i. kn_slot n i = Some p}"
    using slot_set assms(1) by (simp add: kn_ok_def kn_slot_def)
  ultimately show ?thesis using that by blast
qed

lemma kn_pointer_slot: "kn_ok n \<Longrightarrow> p \<in> set (kn_pointers n) \<Longrightarrow> \<exists>i. kn_slot n i = Some p"
  using slot_set [of "kn_bitfield n" "kn_pointers n"] by (simp add: kn_ok_def kn_slot_def)

lemma kn_pointers_length: "kn_ok n \<Longrightarrow> length (kn_pointers n) = card (slots (kn_bitfield n))"
  by (simp add: kn_ok_def slots_ok_def count_ones_slots)

subsection \<open>Loading\<close>

lemma kcheck_pointers_None:
  "kcheck_pointers conf N x ps = None \<longleftrightarrow>
    (\<forall>p \<in> set ps. case p of
       KValues vs \<Rightarrow> min_data_depth conf \<le> x \<and> bucket_ok conf vs
     | KLink l e _ \<Rightarrow> cid_codec l = DAG_CBOR \<and> bit_width conf \<noteq> 0 \<and> ext_length e mod bit_width conf = 0 \<and>
         (x + 1) * bit_width conf \<le> 8 * N \<and> ext_length e < 8 * N - (x + 1) * bit_width conf
     | KDirty _ _ \<Rightarrow> False)"
  by (induction ps) (auto simp: keys_ascending_sorted bucket_ok_def not_less not_le split: KPointer.splits)

text \<open>
  A node is loaded with the number of links above it as its depth, or with the depth of its parent plus
  one. Both are at most the depth of the node, and equal to it down to the minimum data depth.
\<close>

definition kdepth_ok :: "Config \<Rightarrow> nat \<Rightarrow> nat \<Rightarrow> bool" where
  "kdepth_ok conf x d \<longleftrightarrow> x \<le> d \<and> (x = 0 \<longrightarrow> d = 0) \<and> (x < min_data_depth conf \<longrightarrow> x = d)"

lemma kdepth_refl: "kdepth_ok conf d d"
  by (simp add: kdepth_ok_def)

lemma kdepth_child: "kdepth_ok (kv_conf env) x d \<Longrightarrow> kchild_ok env d e m \<Longrightarrow> kdepth_ok (kv_conf env) (x + 1) (d + 1 + kskip env e)"
  by (auto simp: kdepth_ok_def kchild_ok_def split: if_splits)

lemma kchild_nonempty: "kchild_ok env d e m \<Longrightarrow> m \<noteq> Map.empty"
  by (auto simp: kchild_ok_def split: if_splits)

lemma kser_slots_keys:
  assumes "slots_ok b qs" "\<forall>i. kser_rep env bs d (slot_get b qs i) (kat env d m i)"
  shows "slots b = kslot env d ` dom m"
proof (intro set_eqI iffI)
  fix i
  have rep: "kser_rep env bs d (slot_get b qs i) (kat env d m i)" using assms(2) by blast
  show "i \<in> kslot env d ` dom m" if "i \<in> slots b"
  proof -
    have "slot_get b qs i \<noteq> None" using that slot_get_dom [OF assms(1)] by blast
    then have "kat env d m i \<noteq> Map.empty"
      using rep by (auto simp: kser_rep_def bucket_ok_def dest: kchild_nonempty split: option.splits KPointerSer.splits)
    then obtain k where "k \<in> dom (kat env d m i)" by (auto simp: fun_eq_iff)
    then show ?thesis using kat_dom [of k env d m i] by blast
  qed
  show "i \<in> slots b" if i: "i \<in> kslot env d ` dom m"
  proof (rule ccontr)
    assume "i \<notin> slots b"
    then have "kat env d m i = Map.empty" using rep slot_get_None [of i b qs] by (simp add: kser_rep_def)
    then show False using i kat_dom [of _ env d m i] by auto
  qed
qed

text \<open>A link in a node at depth \<open>d\<close> passes the check of \<open>Node::load\<close>.\<close>

lemma kchild_loadable:
  assumes "kenv_ok env" "kchild_ok env d e m" "x \<le> d"
  shows "ext_length e mod bit_width (kv_conf env) = 0" "(x + 1) * bit_width (kv_conf env) \<le> 8 * kv_n env"
    "ext_length e < 8 * kv_n env - (x + 1) * bit_width (kv_conf env)"
proof -
  have e: "ext_length e = kskip env e * kwidth env" "(d + 1 + kskip env e) * kwidth env < 8 * kv_n env"
    using assms(2) by (simp_all add: kchild_ok_def within_def)
  have "(x + 1 + kskip env e) * kwidth env \<le> (d + 1 + kskip env e) * kwidth env" using assms(3) by (intro mult_le_mono1) simp
  then have "(x + 1) * kwidth env + ext_length e < 8 * kv_n env" using e by (simp only: distrib_right)
  then show "(x + 1) * bit_width (kv_conf env) \<le> 8 * kv_n env" "ext_length e < 8 * kv_n env - (x + 1) * bit_width (kv_conf env)"
    by (simp_all add: kwidth_def)
  show "ext_length e mod bit_width (kv_conf env) = 0" using e(1) by (simp add: kwidth_def)
qed

lemma kstored_load:
  assumes ok: "kenv_ok env" and st: "kstored env bs d cid m" and ne: "d = 0 \<or> m \<noteq> Map.empty"
  shows "\<exists>n. ktree env bs d n m \<and> (\<forall>x. kdepth_ok (kv_conf env) x d \<longrightarrow> kn_load env bs cid x = Inr n)"
proof -
  let ?conf = "kv_conf env"
  obtain b qs where x: "within env d" "cbor_get (kv_codec env) bs cid = Inr (Some (b, qs))" "slots_ok b qs"
      and rep: "\<forall>i. kser_rep env bs d (slot_get b qs i) (kat env d m i)"
    using st unfolding kstored_iff by blast
  let ?n = "KNode b (map kpointer_de qs)"
  have slots: "slots b = kslot env d ` dom m" by (rule kser_slots_keys [OF x(3) rep])
  have len: "length qs = card (slots b)" using x(3) by (simp add: slots_ok_def count_ones_slots)
  have "slots b \<subseteq> {..<2 ^ bit_width ?conf}" using kslot_width [of env d] slots by (auto simp: kwidth_def)
  then have width: "length qs \<le> 2 ^ bit_width ?conf" using len card_mono [of "{..<2 ^ bit_width ?conf}" "slots b"] by simp
  have empty: "qs \<noteq> []" if "d \<noteq> 0"
  proof -
    have "slots b \<noteq> {}" using that ne slots by auto
    then show ?thesis using len finite_slots [of b] by auto
  qed
  have check: "kcheck_pointers ?conf (kv_n env) y (map kpointer_de qs) = None" if y: "kdepth_ok ?conf y d" for y
    unfolding kcheck_pointers_None
  proof (intro ballI)
    fix p assume "p \<in> set (map kpointer_de qs)"
    then obtain q where q: "q \<in> set qs" "p = kpointer_de q" by auto
    obtain i where "slot_get b qs i = Some q" using q(1) unfolding slot_set [OF x(3)] by blast
    then have r: "kser_rep env bs d (Some q) (kat env d m i)" using rep by metis
    show "case p of KValues vs \<Rightarrow> min_data_depth ?conf \<le> y \<and> bucket_ok ?conf vs
       | KLink l e _ \<Rightarrow> cid_codec l = DAG_CBOR \<and> bit_width ?conf \<noteq> 0 \<and> ext_length e mod bit_width ?conf = 0 \<and>
           (y + 1) * bit_width ?conf \<le> 8 * kv_n env \<and> ext_length e < 8 * kv_n env - (y + 1) * bit_width ?conf
       | KDirty _ _ \<Rightarrow> False"
    proof (cases q)
      case (KSerValues vs)
      then show ?thesis using r y q(2) by (auto simp: kser_rep_def kpointer_de_def kdepth_ok_def)
    next
      case (KSerLink l len path)
      then have c: "kchild_ok env d \<lparr>ext_length = len, ext_path = path\<rparr> (kat env d m i)"
          "kstored env bs (d + 1 + kskip env \<lparr>ext_length = len, ext_path = path\<rparr>) l (kat env d m i)"
        using r by (simp_all add: kser_rep_def)
      have "\<exists>z. l = obj_cid (kv_codec env) z" using c(2) unfolding kstored_iff by blast
      then have "cid_codec l = DAG_CBOR" using obj_cid_codec [of "kv_codec env"] ok by (auto simp: kenv_ok_def)
      moreover have "y \<le> d" "bit_width ?conf \<noteq> 0" using y ok by (simp_all add: kdepth_ok_def kenv_ok_def)
      ultimately show ?thesis using kchild_loadable [OF ok c(1), of y] KSerLink q(2) unfolding kpointer_de_def by simp
    qed
  qed
  have load: "kn_load env bs cid y = Inr ?n" if y: "kdepth_ok ?conf y d" for y
  proof -
    have "bm_count_ones b = length qs" "\<not> (qs = [] \<and> y \<noteq> 0)" using x(3) empty y by (auto simp: slots_ok_def kdepth_ok_def)
    then show ?thesis unfolding kn_load_def using x(2) width check [OF y] by (simp add: Let_def)
  qed
  have "kslot_rep env bs d (kn_slot ?n i) (kat env d m i)" for i
    using spec [OF rep, of i]
    by (auto simp: kn_slot_def slot_get_map kslot_rep_def kser_rep_def kpointer_de_def split: option.splits KPointerSer.splits)
  then have "ktree env bs d ?n m" using x(1,3) by (simp add: ktree_iff kn_ok_def slots_ok_def)
  then show ?thesis using load by blast
qed

subsection \<open>Pointers to children\<close>

fun kext :: "('k, 'v) KPointer \<Rightarrow> Extension" where
  "kext (KLink _ e _) = e"
| "kext (KDirty _ e) = e"
| "kext (KValues _) = ext_default"

fun kchild :: "('k::linorder, 'v) kamt_env \<Rightarrow> Blocks \<Rightarrow> nat \<Rightarrow> ('k, 'v) KPointer \<Rightarrow> ('k, 'v) KNode option" where
  "kchild env bs x (KDirty n _) = Some n"
| "kchild env bs x (KLink c _ cache) = (case kcached env bs c cache x of Inl _ \<Rightarrow> None | Inr n \<Rightarrow> Some n)"
| "kchild env bs x (KValues _) = None"

text \<open>A child pointer whose node is replaced, as far as the cache or the dirty node goes.\<close>

fun krefill :: "('k, 'v) KPointer \<Rightarrow> ('k, 'v) KNode \<Rightarrow> ('k, 'v) KPointer" where
  "krefill (KLink c e _) n = KLink c e (Some n)"
| "krefill (KDirty _ e) n = KDirty n e"
| "krefill (KValues vs) n = KValues vs"

lemma kslot_rep_dirty: "kslot_rep env bs d (Some (KDirty n e)) m \<longleftrightarrow> kchild_ok env d e m \<and> ktree env bs (d + 1 + kskip env e) n m"
  by (simp add: kslot_rep_def)

lemma kslot_rep_bucket:
  "kslot_rep env bs d (Some (KValues vs)) m \<longleftrightarrow> min_data_depth (kv_conf env) \<le> d \<and> bucket_ok (kv_conf env) vs \<and> m = map_of vs"
  by (simp add: kslot_rep_def)

lemma kslot_rep_refill:
  assumes "kslot_rep env bs d (Some p) m" "kbucket_of p = None" "ktree env bs (d + 1 + kskip env (kext p)) n m"
  shows "kslot_rep env bs d (Some (krefill p n)) m"
  using assms by (cases p) (simp_all add: kslot_rep_def)

lemma kslot_rep_cases:
  assumes "kenv_ok env" "kslot_rep env bs d (Some p) m"
  obtains (bucket) vs where "p = KValues vs" "min_data_depth (kv_conf env) \<le> d" "bucket_ok (kv_conf env) vs" "m = map_of vs"
    | (child) "kbucket_of p = None" "kchild_ok env d (kext p) m"
      "\<And>x. kdepth_ok (kv_conf env) x (d + 1 + kskip env (kext p)) \<Longrightarrow>
        \<exists>n. kchild env bs x p = Some n \<and> ktree env bs (d + 1 + kskip env (kext p)) n m"
proof (cases p)
  case (KValues vs)
  then show ?thesis using bucket assms(2) by (simp add: kslot_rep_bucket)
next
  case (KDirty n e)
  then show ?thesis using child assms(2) by (simp add: kslot_rep_dirty)
next
  case (KLink l e cache)
  then have r: "kchild_ok env d e m" "kstored env bs (d + 1 + kskip env e) l m"
      "\<forall>n'. cache = Some n' \<longrightarrow> ktree env bs (d + 1 + kskip env e) n' m" using assms(2) by (simp_all add: kslot_rep_def)
  have "\<exists>n. kchild env bs x p = Some n \<and> ktree env bs (d + 1 + kskip env e) n m" if "kdepth_ok (kv_conf env) x (d + 1 + kskip env e)" for x
    using kstored_load [OF assms(1) r(2)] kchild_nonempty [OF r(1)] r(3) that KLink by (cases cache) (auto simp: kcached_def)
  then show ?thesis using child r(1) KLink by simp
qed

subsection \<open>Matching an extension\<close>

lemma match_extension_full:
  assumes "kenv_ok env" "ext_packed e" "ext_length e = kskip env e * kwidth env" "within env (d + kskip env e)"
    and "kpath env d (kskip env e) k = ext_bits e"
  shows "match_extension (kv_conf env) (kv_hash env k) (d * kwidth env) e = Inr (FullMatch (kskip env e), (d + kskip env e) * kwidth env)"
    (is "?m = ?r")
proof (cases "kskip env e = 0")
  case True
  then show ?thesis using assms(3) by (simp add: match_extension_def ext_is_empty_def)
next
  case False
  let ?s = "kskip env e" and ?w = "kwidth env"
  note w = kwidth_bounds [OF assms(1)]
  obtain t where t: "t \<le> ?s" "longest_match e (kv_hash env k) (d * ?w) ?w = Inr (t * ?w, d * ?w + t * ?w)"
      "t < ?s \<longrightarrow> take ?w (drop (d * ?w + t * ?w) (kbits env k)) \<noteq> take ?w (drop (t * ?w) (ext_bits e))"
    using longest_match_bits [OF assms(2,3), of "d * ?w" "kv_hash env k"] w assms(1,4)
    by (auto simp: within_def distrib_right kenv_ok_def kbits_def)
  have "t = ?s"
  proof (rule ccontr)
    assume "t \<noteq> ?s"
    then have "Suc t * ?w \<le> ?s * ?w" using t(1) by (intro mult_le_mono1) simp
    then have "take ?w (drop (t * ?w) (ext_bits e)) = take ?w (drop (d * ?w + t * ?w) (kbits env k))"
      unfolding assms(5) [symmetric] kpath_def by (simp add: drop_take min_def add.commute)
    then show False using t(1,3) \<open>t \<noteq> ?s\<close> by simp
  qed
  then show ?thesis using t(2) False w assms(3)
    by (simp add: match_extension_def ext_is_empty_def kwidth_def [symmetric] distrib_right)
qed

lemma match_extension_partial:
  assumes "kenv_ok env" "ext_packed e" "ext_length e = kskip env e * kwidth env" "within env (d + kskip env e)"
    and "kpath env d (kskip env e) k \<noteq> ext_bits e"
  shows "\<exists>t < kskip env e. match_extension (kv_conf env) (kv_hash env k) (d * kwidth env) e =
      Inr (PartialMatch (t * kwidth env), (d + t) * kwidth env) \<and>
    kpath env d t k = take (t * kwidth env) (ext_bits e) \<and> kpath env (d + t) 1 k \<noteq> take (kwidth env) (drop (t * kwidth env) (ext_bits e))"
proof -
  let ?s = "kskip env e" and ?w = "kwidth env"
  note w = kwidth_bounds [OF assms(1)]
  obtain t where t: "t \<le> ?s" "longest_match e (kv_hash env k) (d * ?w) ?w = Inr (t * ?w, d * ?w + t * ?w)"
      "take (t * ?w) (drop (d * ?w) (kbits env k)) = take (t * ?w) (ext_bits e)"
      "t < ?s \<longrightarrow> take ?w (drop (d * ?w + t * ?w) (kbits env k)) \<noteq> take ?w (drop (t * ?w) (ext_bits e))"
    using longest_match_bits [OF assms(2,3), of "d * ?w" "kv_hash env k"] w assms(1,4)
    by (auto simp: within_def distrib_right kenv_ok_def kbits_def)
  have "t \<noteq> ?s" using t(3) assms(3,5) ext_bits_length [OF assms(2)] by (auto simp: kpath_def)
  then have lt: "t < ?s" using t(1) by simp
  then have "0 < ?s" "t * ?w \<noteq> ?s * ?w" using w by simp_all
  then have "match_extension (kv_conf env) (kv_hash env k) (d * ?w) e = Inr (PartialMatch (t * ?w), (d + t) * ?w)"
    using t(2) assms(3) w by (simp add: match_extension_def ext_is_empty_def kwidth_def [symmetric] distrib_right)
  then show ?thesis using lt t(3,4) by (intro exI [of _ t]) (simp add: kpath_def distrib_right)
qed

end
