(* ===== verification/KamtUpdate.thy ===== *)
theory KamtUpdate
  imports KamtTree
begin

text \<open>
  Looking up, setting and removing in a KAMT refine the operations on the map that it holds, and keep
  the canonical form. Different keys have different bytes, so setting never fails.
\<close>

subsection \<open>Looking up\<close>

lemma kwith_child_same: "j < length (kn_pointers n) \<Longrightarrow> kwith_child n j (kn_pointers n ! j) = n"
  by (cases n) (simp add: kwith_child_def)

lemma kget_value_empty:
  assumes "key_next env h c = Inr (i, c1)" "\<not> bm_test_bit (kn_bitfield n) i"
  shows "kget_value env bs k h c x n = (Inr None, n)"
  using assms by (subst kget_value.simps) simp

lemma kget_value_bucket:
  assumes "key_next env h c = Inr (i, c1)" "bm_test_bit (kn_bitfield n) i"
    and "index_for_bit_pos (kn_bitfield n) i = j" "j < length (kn_pointers n)" "kn_pointers n ! j = KValues vs"
  shows "kget_value env bs k h c x n = (Inr (map_option snd (List.find (\<lambda>kv. k = fst kv) vs)), n)"
  using assms by (subst kget_value.simps) simp

lemma kget_value_child:
  assumes "key_next env h c = Inr (i, c1)" "bm_test_bit (kn_bitfield n) i"
    and "index_for_bit_pos (kn_bitfield n) i = j" "j < length (kn_pointers n)"
    and "kchild env bs (x + 1) (kn_pointers n ! j) = Some n1"
  shows "kget_value env bs k h c x n =
    (case match_extension (kv_conf env) h c1 (kext (kn_pointers n ! j)) of
       Inl e \<Rightarrow> (Inl e, kwith_child n j (krefill (kn_pointers n ! j) n1))
     | Inr (PartialMatch _, _) \<Rightarrow> (Inr None, kwith_child n j (krefill (kn_pointers n ! j) n1))
     | Inr (FullMatch _, c2) \<Rightarrow>
         (case kget_value env bs k h c2 (x + 1) n1 of (r, n2) \<Rightarrow> (r, kwith_child n j (krefill (kn_pointers n ! j) n2))))"
proof (cases "kn_pointers n ! j")
  case (KLink l e cache)
  then show ?thesis using assms
    by (subst kget_value.simps) (auto split: sum.splits ExtensionMatch.splits prod.splits)
next
  case (KDirty n' e)
  then have "kwith_child n j (krefill (kn_pointers n ! j) n') = n" using kwith_child_same [OF assms(4)] by simp
  then show ?thesis using assms KDirty
    by (subst kget_value.simps) (auto split: sum.splits ExtensionMatch.splits prod.splits)
qed (use assms in simp)

lemma kfind_bucket: "map_option snd (List.find (\<lambda>kv. k = fst kv) vs) = map_of vs k"
  by (induction vs) auto

lemma kchild_match:
  assumes "kenv_ok env" "kchild_ok env d e m"
  shows "ext_packed e" "ext_length e = kskip env e * kwidth env" "within env (d + 1 + kskip env e)" "within env (d + 1)"
    "k \<in> dom m \<Longrightarrow> kpath env (d + 1) (kskip env e) k = ext_bits e"
  using assms(2) within_mono [of env "d + 1 + kskip env e" "d + 1"] by (simp_all add: kchild_ok_def)

lemma kchild_finite: "kchild_ok env d e m \<Longrightarrow> min_data_depth (kv_conf env) \<le> d \<Longrightarrow> finite (dom m)"
  by (rule card_ge_0_finite) (simp add: kchild_ok_def)

lemma kchild_measure:
  assumes "kenv_ok env" "kchild_ok env d e m"
  shows "8 * kv_n env - (d + 1 + kskip env e) < 8 * kv_n env - d"
  using within_measure [OF assms(1) kchild_match(3) [OF assms]] by linarith

lemma kget_value_tree:
  assumes ok: "kenv_ok env"
  shows "ktree env bs d n m \<Longrightarrow> kdepth_ok (kv_conf env) x d \<Longrightarrow>
    \<exists>n'. kget_value env bs k (kv_hash env k) (d * kwidth env) x n = (Inr (m k), n') \<and> ktree env bs d n' m"
proof (induction "8 * kv_n env - d" arbitrary: d n m x rule: less_induct)
  case less
  let ?i = "kslot env d k" and ?h = "kv_hash env k" and ?w = "kwidth env"
  note t = ktreeD [OF less.prems(1)]
  obtain c1 where c1: "key_next env ?h (d * ?w) = Inr (?i, c1)" using key_next_slot [OF ok t(1)] by simp
  show ?case
  proof (cases "bm_test_bit (kn_bitfield n) ?i")
    case False
    then have "kn_slot n ?i = None" by (rule kinsert_slot(3) [OF t(2) kslot_bound [OF ok]])
    then have "m k = None" using t(3) [of ?i] kat_key [of env d m k] by (simp add: kslot_rep_def)
    then show ?thesis using kget_value_empty [OF c1 False] less.prems by simp
  next
    case True
    define j where "j = index_for_bit_pos (kn_bitfield n) ?i"
    note ch = kwith_child_slot [OF t(2) kslot_bound [OF ok] True, folded j_def]
    let ?p = "kn_pointers n ! j" and ?m = "kat env d m ?i"
    have rep: "kslot_rep env bs d (Some ?p) ?m" using t(3) [of ?i] ch(4) by simp
    from ok rep show ?thesis
    proof (cases rule: kslot_rep_cases)
      case (bucket vs)
      then have "m k = map_of vs k" using kat_key [of env d m k] by simp
      then show ?thesis using kget_value_bucket [OF c1 True j_def [symmetric] ch(3) bucket(1)] less.prems by (simp add: kfind_bucket)
    next
      case child
      let ?e = "kext ?p"
      let ?D = "d + 1 + kskip env ?e"
      note km = kchild_match [OF ok child(2)]
      have c1': "c1 = (d + 1) * ?w" using key_next_inner [OF ok km(4)] c1 by simp
      have x: "kdepth_ok (kv_conf env) (x + 1) ?D" by (rule kdepth_child [OF less.prems(2) child(2)])
      obtain n1 where n1: "kchild env bs (x + 1) ?p = Some n1" "ktree env bs ?D n1 ?m" using child(3) [OF x] by blast
      note unf = kget_value_child [OF c1 True j_def [symmetric] ch(3) n1(1), of k]
      have keep: "ktree env bs d (kwith_child n j (krefill ?p n2)) m" if "ktree env bs ?D n2 ?m" for n2
        using kslot_rep_refill [OF rep child(1) that] by (intro ktree_change [OF less.prems(1) ch(1,2)]) simp_all
      show ?thesis
      proof (cases "kpath env (d + 1) (kskip env ?e) k = ext_bits ?e")
        case full: True
        obtain n2 where n2: "kget_value env bs k ?h (?D * ?w) (x + 1) n1 = (Inr (?m k), n2)" "ktree env bs ?D n2 ?m"
          using less.hyps [OF kchild_measure [OF ok child(2)] n1(2) x] by blast
        then show ?thesis using unf match_extension_full [OF ok km(1,2,3) full] keep [OF n2(2)] c1' by (simp add: kat_key)
      next
        case False
        then have "k \<notin> dom ?m" using km(5) [of k] by blast
        then have "m k = None" using kat_key [of env d m k] by (auto simp: domIff)
        then show ?thesis using unf match_extension_partial [OF ok km(1,2,3) False] keep [OF n1(2)] c1' by auto
      qed
    qed
  qed
qed

subsection \<open>Parts of a path\<close>

lemma kpath_parts:
  assumes "kenv_ok env" "within env (d + s)" "t < s"
  shows "kpath env d t k = take (t * kwidth env) (kpath env d s k)"
    "kpath env (d + t) 1 k = take (kwidth env) (drop (t * kwidth env) (kpath env d s k))"
    "kpath env (d + t + 1) (s - t - 1) k = drop (t * kwidth env + kwidth env) (kpath env d s k)"
proof -
  have s: "s = t + (1 + (s - t - 1))" using assms(3) by simp
  have "kpath env d s k = kpath env d t k @ kpath env (d + t) 1 k @ kpath env (d + t + 1) (s - t - 1) k"
    by (subst s) (simp only: kpath_add)
  moreover have "length (kpath env d t k) = t * kwidth env" "length (kpath env (d + t) 1 k) = kwidth env"
    using kpath_length [OF assms(1), of d t k] kpath_length [OF assms(1), of "d + t" 1 k] assms(2,3)
      within_mono [OF assms(2), of "d + t"] within_mono [OF assms(2), of "d + t + 1"] by simp_all
  ultimately show "kpath env d t k = take (t * kwidth env) (kpath env d s k)"
    "kpath env (d + t) 1 k = take (kwidth env) (drop (t * kwidth env) (kpath env d s k))"
    "kpath env (d + t + 1) (s - t - 1) k = drop (t * kwidth env + kwidth env) (kpath env d s k)" by simp_all
qed

lemma kslot_value: "kslot env d k = bits_value (kpath env d 1 k)"
  by (simp add: kslot_def kpath_def)

lemma kskip_eq: "kenv_ok env \<Longrightarrow> ext_length e = s * kwidth env \<Longrightarrow> kskip env e = s"
  using kwidth_bounds [of env] by (simp add: kskip_def)

text \<open>A child pointer under another extension.\<close>

fun krelink :: "('k, 'v) KPointer \<Rightarrow> Extension \<Rightarrow> ('k, 'v) KPointer" where
  "krelink (KLink c _ cache) e = KLink c e cache"
| "krelink (KDirty n _) e = KDirty n e"
| "krelink (KValues vs) e = KValues vs"

lemma krelink_rep:
  assumes "kslot_rep env bs d (Some p) m" "kbucket_of p = None" "kchild_ok env d' e' m"
    and "d' + 1 + kskip env e' = d + 1 + kskip env (kext p)"
  shows "kslot_rep env bs d' (Some (krelink p e')) m"
  using assms by (cases p) (simp_all add: kslot_rep_def)

subsection \<open>Splitting an extension\<close>

lemma partial_split_bits:
  assumes "kenv_ok env" "ext_packed e" "ext_length e = s * kwidth env" "t < s"
  shows "\<exists>head tail. partial_split e (t * kwidth env) (kwidth env) =
      Inr (head, bits_value (take (kwidth env) (drop (t * kwidth env) (ext_bits e))), tail) \<and>
    ext_packed head \<and> ext_length head = t * kwidth env \<and> ext_bits head = take (t * kwidth env) (ext_bits e) \<and>
    ext_packed tail \<and> ext_length tail = (s - t - 1) * kwidth env \<and> ext_bits tail = drop (t * kwidth env + kwidth env) (ext_bits e)"
proof -
  let ?w = "kwidth env"
  note w = kwidth_bounds [OF assms(1)]
  have le: "t * ?w + ?w \<le> ext_length e" using mult_le_mono1 [of "Suc t" s ?w] assms(3,4) by simp
  obtain head idx tail where sp: "ext_split e (t * ?w) ?w = Inr (head, idx, tail)" "ext_packed head" "ext_packed idx" "ext_packed tail"
      "ext_length head = t * ?w" "ext_length idx = ?w" "ext_length tail = ext_length e - t * ?w - ?w"
      "ext_bits head = take (t * ?w) (ext_bits e)" "ext_bits idx = take ?w (drop (t * ?w) (ext_bits e))"
      "ext_bits tail = drop (t * ?w + ?w) (ext_bits e)"
    using ext_split_bits [OF assms(2) le] by blast
  have "ext_next idx 0 ?w = Inr (bits_value (take ?w (drop (t * ?w) (ext_bits e))), ?w)"
    using ext_next_bits [OF sp(3), of ?w 0] w sp(6,9) by simp
  moreover have "ext_length tail = (s - t - 1) * ?w" using sp(7) assms(3) by (simp add: diff_mult_distrib)
  ultimately show ?thesis using sp by (simp add: partial_split_def)
qed

lemma kn_default_slots: "kn_ok (kn_default :: ('k, 'v) KNode)" "\<not> bm_test_bit (kn_bitfield (kn_default :: ('k, 'v) KNode)) i" if "i < 256"
proof -
  have "slots (bm_zero :: Bitfield) = {}" using slot_get_None by (simp add: slots_def bm_test_bit_def bm_zero_def word_at_def Let_def)
  then show "kn_ok (kn_default :: ('k, 'v) KNode)" "\<not> bm_test_bit (kn_bitfield (kn_default :: ('k, 'v) KNode)) i"
    using that by (auto simp: kn_ok_def kn_default_def slots_ok_def count_ones_slots slots_def)
qed

text \<open>The new node at the split holds the original child and the new pair.\<close>

lemma midway_tree:
  fixes p :: "('k::linorder, 'v) KPointer"
  assumes ok: "kenv_ok env" and D: "within env D" "min_data_depth (kv_conf env) \<le> D"
    and rep: "kslot_rep env bs D (Some p) m" and slot: "\<And>x. x \<in> dom m \<Longrightarrow> kslot env D x = i" "i < 256" "kslot env D k \<noteq> i"
  shows "ktree env bs D (kinsert_child (kinsert_pointer kn_default i p) (kslot env D k) k v) (m(k \<mapsto> v))"
proof -
  let ?i = "kslot env D k" and ?n1 = "kinsert_pointer kn_default i p"
  have kd: "k \<notin> dom m" using slot(1) [of k] slot(3) by blast
  note d0 = kn_default_slots [OF slot(2)]
  note n1 = kinsert_slot(1,2) [OF d0(1) slot(2) d0(2), of p]
  have "kat env D m i x = m x" for x using slot(1) [of x] by (cases "m x") (auto simp: kat_def restrict_map_def)
  then have "kat env D m i = m" by (rule ext)
  moreover have "kat env D m j = Map.empty" if "j \<noteq> i" for j
    using slot(1) that kat_dom [of _ env D m j] by (metis dom_empty domIff ext)
  ultimately have t1: "ktree env bs D ?n1 m"
    using rep by (intro ktree_change [OF ktree_empty [OF D(1)] n1(1,2)]) (simp_all add: kat_def)
  have "kn_slot ?n1 ?i = None" using n1(2) slot(3) by (simp add: kn_slot_def kn_default_def slot_get_def)
  then have nb: "\<not> bm_test_bit (kn_bitfield ?n1) ?i"
    using kn_slot_dom [OF n1(1), of ?i] kslot_bound [OF ok, of D k] by (auto simp: slots_def)
  note n2 = kinsert_slot [OF n1(1) kslot_bound [OF ok] nb]
  have e: "kat env D m ?i = Map.empty" using ktreeD(3) [OF t1, of ?i] n2(3) by (simp add: kslot_rep_def)
  have "bucket_ok (kv_conf env) [(k, v)]" using ok by (simp add: bucket_ok_def kenv_ok_def Suc_le_eq)
  then show ?thesis using D(2) e unfolding kinsert_child_def
    by (intro ktree_change [OF t1 n2(1,2)]) (simp_all add: kat_upd kslot_rep_bucket)
qed

lemma split_rep:
  assumes ok: "kenv_ok env" and rep: "kslot_rep env bs d (Some p) m" "kbucket_of p = None" "kchild_ok env d (kext p) m"
    and t: "t < kskip env (kext p)" "kpath env (d + 1) t k = take (t * kwidth env) (ext_bits (kext p))"
      "kpath env (d + 1 + t) 1 k \<noteq> take (kwidth env) (drop (t * kwidth env) (ext_bits (kext p)))"
  shows "\<exists>q. split_extension env (kv_hash env k) ((d + 1 + t) * kwidth env) (kext p) (t * kwidth env) k v
        (\<lambda>midway idx tail. kinsert_pointer midway idx (krelink p tail)) = (Inr q, True) \<and> kslot_rep env bs d (Some q) (m(k \<mapsto> v))"
proof -
  let ?e = "kext p" and ?w = "kwidth env" and ?D = "d + 1 + t"
  let ?s = "kskip env ?e" and ?chunk = "take ?w (drop (t * ?w) (ext_bits ?e))"
  note km = kchild_match [OF ok rep(3)]
  obtain head tail where sp: "partial_split ?e (t * ?w) ?w = Inr (head, bits_value ?chunk, tail)"
      "ext_packed head" "ext_length head = t * ?w" "ext_bits head = take (t * ?w) (ext_bits ?e)"
      "ext_packed tail" "ext_length tail = (?s - t - 1) * ?w" "ext_bits tail = drop (t * ?w + ?w) (ext_bits ?e)"
    using partial_split_bits [OF ok km(1,2) t(1)] by blast
  have skip: "kskip env head = t" "kskip env tail = ?s - t - 1" using kskip_eq [OF ok] sp(3,6) by blast+
  have D: "within env ?D" "within env (?D + 1)" using within_mono [OF km(3)] t(1) by simp_all
  have min: "min_data_depth (kv_conf env) \<le> d" using rep(3) t(1) by (auto simp: kchild_ok_def split: if_splits)
  have w: "within env (d + 1 + ?s)" using km(3) .
  note parts = kpath_parts [OF ok w t(1)]
  have x: "kpath env (d + 1) t y = ext_bits head" "kpath env ?D 1 y = ?chunk" "kpath env (?D + 1) (?s - t - 1) y = ext_bits tail"
    if "y \<in> dom m" for y using parts [of y] km(5) [OF that] sp(4,7) by simp_all
  have slot: "kslot env ?D y = bits_value ?chunk" if "y \<in> dom m" for y using x(2) [OF that] by (simp add: kslot_value)
  obtain y0 where y0: "y0 \<in> dom m" using kchild_nonempty [OF rep(3)] by (auto simp: fun_eq_iff)
  have other: "kslot env ?D k \<noteq> bits_value ?chunk"
    using t(3) x(2) [OF y0] slot [OF y0] kslot_chunk [OF ok, of ?D k y0] by simp
  have tail: "kslot_rep env bs ?D (Some (krelink p tail)) m"
    using rep(3) min t(1) x(3) sp(5,6) skip(2) by (intro krelink_rep [OF rep(1,2)]) (auto simp: kchild_ok_def)
  have "bits_value ?chunk < 256" using slot [OF y0] kslot_bound [OF ok, of ?D y0] by simp
  note mid = midway_tree [OF ok D(1) _ tail slot this other, of v]
  have "card (dom m) \<le> card (dom (m(k \<mapsto> v)))"
    using kchild_finite [OF rep(3) min] by (intro card_mono) auto
  moreover have "\<exists>a \<in> dom (m(k \<mapsto> v)). \<exists>b \<in> dom (m(k \<mapsto> v)). kslot env ?D a \<noteq> kslot env ?D b"
    using y0 slot [OF y0] other by (intro bexI [of _ k] bexI [of _ y0]) simp_all
  ultimately have "kchild_ok env d head (m(k \<mapsto> v))"
    using rep(3) min D(1) skip(1) sp(2-4) x(1) t(2) by (auto simp: kchild_ok_def)
  then have "kslot_rep env bs d (Some (KDirty (kinsert_child (kinsert_pointer kn_default (bits_value ?chunk) (krelink p tail)) (kslot env ?D k) k v) head))
      (m(k \<mapsto> v))" using mid min skip(1) by (simp add: kslot_rep_dirty)
  then show ?thesis using sp(1) key_next_slot [OF ok D(1), of k] by (simp add: split_extension_def kwidth_def [symmetric])
qed

subsection \<open>Setting\<close>

definition kmodified ::
  "('k::linorder, 'v) kamt_env \<Rightarrow> Blocks \<Rightarrow> nat \<Rightarrow> bool \<Rightarrow> 'k \<Rightarrow> 'v \<Rightarrow> ('k \<Rightarrow> 'v option) \<Rightarrow>
    (HamtError + 'v option \<times> bool) \<times> ('k, 'v) KNode \<Rightarrow> bool" where
  "kmodified env bs d ow k v m res \<longleftrightarrow>
    fst res = Inr (put_old ow k m, put_map ow k v m \<noteq> m) \<and> ktree env bs d (snd res) (put_map ow k v m)"

lemma kat_put:
  "kat env d (put_map ow k v m) (kslot env d k) = put_map ow k v (kat env d m (kslot env d k))"
  "j \<noteq> kslot env d k \<Longrightarrow> kat env d (put_map ow k v m) j = kat env d m j"
  by (simp_all add: put_map_def kat_key kat_upd)

text \<open>How a node's change follows from the change in one of its slots.\<close>

lemma kmodified_slot:
  assumes "ktree env bs d n m" "kn_ok n'" "kn_slot n' = (kn_slot n)(kslot env d k \<mapsto> p)"
    and "kslot_rep env bs d (Some p) (put_map ow k v (kat env d m (kslot env d k)))"
    and "old = put_old ow k (kat env d m (kslot env d k))"
    and "b \<longleftrightarrow> put_map ow k v (kat env d m (kslot env d k)) \<noteq> kat env d m (kslot env d k)"
  shows "kmodified env bs d ow k v m (Inr (old, b), n')"
proof -
  have "ktree env bs d n' (put_map ow k v m)"
    using assms(4) by (intro ktree_change [OF assms(1-3)]) (simp_all add: kat_put)
  moreover have "b \<longleftrightarrow> put_map ow k v m \<noteq> m" using assms(6) by (simp add: put_changes kat_key)
  ultimately show ?thesis using assms(5) by (simp add: kmodified_def put_old_def kat_key)
qed

lemma kmodify_value_empty:
  assumes "key_next env h c = Inr (i, c1)" "\<not> bm_test_bit (kn_bitfield n) i"
  shows "kmodify_value env bs ow k v h c d n =
    (if min_data_depth (kv_conf env) \<le> d then (Inr (None, True), kinsert_child n i k v)
     else case kmodify_value env bs ow k v h c1 (d + 1) kn_default of
       (Inl e, sub) \<Rightarrow> (Inl e, n) | (Inr _, sub) \<Rightarrow> (Inr (None, True), kinsert_child_dirty n i sub ext_default))"
  using assms by (subst kmodify_value.simps) simp

lemma kmodify_value_full:
  assumes "key_next env h c = Inr (i, c1)" "bm_test_bit (kn_bitfield n) i"
    and "index_for_bit_pos (kn_bitfield n) i = j" "j < length (kn_pointers n)" "kchild env bs (d + 1) (kn_pointers n ! j) = Some n1"
    and "match_extension (kv_conf env) h c1 (kext (kn_pointers n ! j)) = Inr (FullMatch s, c2)"
    and "kmodify_value env bs ow k v h c2 (d + 1 + s) n1 = (Inr (old, b), n2)"
  shows "kmodify_value env bs ow k v h c d n =
    (Inr (old, b), kwith_child n j (if b then KDirty n2 (kext (kn_pointers n ! j)) else krefill (kn_pointers n ! j) n2))"
  using assms by (subst kmodify_value.simps) (cases "kn_pointers n ! j", auto split: sum.splits)

lemma kmodify_value_partial:
  assumes "key_next env h c = Inr (i, c1)" "bm_test_bit (kn_bitfield n) i"
    and "index_for_bit_pos (kn_bitfield n) i = j" "j < length (kn_pointers n)" "kn_pointers n ! j = p" "kbucket_of p = None"
    and "match_extension (kv_conf env) h c1 (kext p) = Inr (PartialMatch mt, c2)"
    and "split_extension env h c2 (kext p) mt k v (\<lambda>midway idx tail. kinsert_pointer midway idx (krelink p tail)) = (Inr q, taken)"
  shows "kmodify_value env bs ow k v h c d n = (Inr (None, True), kwith_child n j q)"
  using assms by (subst kmodify_value.simps) (cases p, auto simp: kinsert_child_link_def [abs_def] kinsert_child_dirty_def [abs_def])

lemma kmodify_value_bucket:
  assumes "key_next env h c = Inr (i, c1)" "bm_test_bit (kn_bitfield n) i"
    and "index_for_bit_pos (kn_bitfield n) i = j" "j < length (kn_pointers n)" "kn_pointers n ! j = KValues vals"
  shows "kmodify_value env bs ow k v h c d n =
    (case position (\<lambda>p. fst p = k) vals of
       Some l \<Rightarrow> if ow then (Inr (Some (snd (vals ! l)), snd (vals ! l) \<noteq> v), kwith_child n j (KValues (vals[l := (fst (vals ! l), v)])))
                else (Inr (None, False), n)
     | None \<Rightarrow>
         if length vals \<ge> max_array_width (kv_conf env) then
           let hashes = map (\<lambda>kv. kv_hash env (fst kv)) vals
           in (case longest_common_prefix h c1 (bit_width (kv_conf env)) hashes of
                 Inl e \<Rightarrow> (Inl e, kwith_child n j (KValues []))
               | Inr (ext, c2) \<Rightarrow>
                   let skipped = ext_length ext div bit_width (kv_conf env)
                   in (case kmodify_value env bs ow k v h c2 (d + 1 + skipped) kn_default of
                         (Inl e, sub) \<Rightarrow> (Inl e, kwith_child n j (KValues []))
                       | (Inr modified, sub) \<Rightarrow>
                           (case kmodify_all env bs ow (zip vals hashes) c2 (d + 1 + skipped) sub of
                              (Inl e, sub) \<Rightarrow> (Inl e, kwith_child n j (KValues []))
                            | (Inr _, sub) \<Rightarrow> (Inr modified, kwith_child n j (KDirty sub ext)))))
         else
           let l = (case position (\<lambda>c. fst c > k) vals of Some l \<Rightarrow> l | None \<Rightarrow> length vals)
           in (Inr (None, True), kwith_child n j (KValues (vec_insert l (k, v) vals))))"
  using assms by (subst kmodify_value.simps) simp

text \<open>Putting several new pairs, when putting one is right.\<close>

lemma kmodify_all_tree:
  assumes one: "\<And>n m k v. ktree env bs d n m \<Longrightarrow> kagree env d (insert k (dom m)) \<Longrightarrow>
      kmodified env bs d ow k v m (kmodify_value env bs ow k v (kv_hash env k) c d n)"
  shows "ktree env bs d n m \<Longrightarrow> kagree env d (fst ` set kvs \<union> dom m) \<Longrightarrow> distinct (map fst kvs) \<Longrightarrow> dom m \<inter> fst ` set kvs = {} \<Longrightarrow>
    \<exists>n'. kmodify_all env bs ow (zip kvs (map (\<lambda>kv. kv_hash env (fst kv)) kvs)) c d n = (Inr (), n') \<and> ktree env bs d n' (m ++ map_of kvs)"
proof (induction kvs arbitrary: n m)
  case (Cons kv kvs)
  obtain k v where kv: "kv = (k, v)" by (cases kv)
  have new: "m k = None" using Cons.prems(4) by (auto simp: kv)
  have "kagree env d (insert k (dom m))" by (rule kagree_subset [OF Cons.prems(2)]) (auto simp: kv)
  then have step: "kmodified env bs d ow k v m (kmodify_value env bs ow k v (kv_hash env k) c d n)"
    by (rule one [OF Cons.prems(1)])
  obtain ob n1 where n1: "kmodify_value env bs ow k v (kv_hash env k) c d n = (Inr ob, n1)" "ktree env bs d n1 (m(k \<mapsto> v))"
    using step put_map_new [of m k ow v, OF new] by (cases "kmodify_value env bs ow k v (kv_hash env k) c d n") (auto simp: kmodified_def)
  have eq: "fst ` set kvs \<union> dom (m(k \<mapsto> v)) = fst ` set (kv # kvs) \<union> dom m" by (auto simp: kv)
  have ag: "kagree env d (fst ` set kvs \<union> dom (m(k \<mapsto> v)))" using Cons.prems(2) eq by simp
  have dj: "dom (m(k \<mapsto> v)) \<inter> fst ` set kvs = {}" using Cons.prems(3,4) by (auto simp: kv)
  obtain n' where n': "kmodify_all env bs ow (zip kvs (map (\<lambda>kv. kv_hash env (fst kv)) kvs)) c d n1 = (Inr (), n')"
      "ktree env bs d n' (m(k \<mapsto> v) ++ map_of kvs)"
    using Cons.IH [OF n1(2) ag distinct_tl [OF Cons.prems(3), unfolded list.map list.sel] dj] by blast
  have "m(k \<mapsto> v) ++ map_of kvs = m ++ map_of (kv # kvs)"
    using Cons.prems(3) by (auto simp: kv map_add_upd_left image_def dom_map_of_conv_image_fst)
  then have "ktree env bs d n' (m ++ map_of (kv # kvs))" using n'(2) by (simp only:)
  then show ?case using n1(1) n'(1) by (simp add: kv del: map_of.simps)
qed simp

lemma kagree_at:
  assumes "kenv_ok env" "kagree env d (insert k (dom m))"
  shows "kagree env (d + 1) (insert k (dom (kat env d m (kslot env d k))))"
proof (rule kagree_slot [OF assms(1)])
  show "kagree env d (insert k (dom (kat env d m (kslot env d k))))"
    by (rule kagree_subset [OF assms(2)]) (auto simp: kat_def)
  show "kslot env d x = kslot env d k" if "x \<in> insert k (dom (kat env d m (kslot env d k)))" for x
    using that kat_dom [of x env d m] by auto
qed

lemma kagree_within:
  assumes "kenv_ok env" "kagree env d K" "x \<in> K" "y \<in> K" "x \<noteq> y"
  shows "within env d"
  using kagree_differ [OF assms] kbits_length [OF assms(1)] by (cases "within env d") (simp_all add: within_def)

text \<open>A full bucket becomes a node below the longest common extension.\<close>

lemma bucket_extension:
  assumes ok: "kenv_ok env" and D: "within env D" and vs: "vs \<noteq> []" "k \<notin> fst ` set vs"
    and agree: "kagree env D (insert k (fst ` set vs))"
  shows "\<exists>e. longest_common_prefix (kv_hash env k) (D * kwidth env) (kwidth env) (map (\<lambda>kv. kv_hash env (fst kv)) vs) =
      Inr (e, (D + kskip env e) * kwidth env) \<and> ext_packed e \<and> ext_length e = kskip env e * kwidth env \<and> within env (D + kskip env e) \<and>
    (\<forall>x \<in> insert k (fst ` set vs). kpath env D (kskip env e) x = ext_bits e) \<and>
    (\<exists>y \<in> fst ` set vs. kslot env (D + kskip env e) y \<noteq> kslot env (D + kskip env e) k)"
proof -
  let ?w = "kwidth env" and ?hs = "map (\<lambda>kv. kv_hash env (fst kv)) vs"
  obtain kv where kv: "kv \<in> set vs" using vs(1) by (cases vs) auto
  then have "drop (D * ?w) (kbits env (fst kv)) \<noteq> drop (D * ?w) (kbits env k)"
    using vs(2) by (intro kagree_differ [OF ok agree]) auto
  then have diff: "\<exists>h \<in> set ?hs. drop (D * ?w) (key_bits h) \<noteq> drop (D * ?w) (key_bits (kv_hash env k))"
    using kv by (auto simp: kbits_def)
  have len: "length (kv_hash env k) = kv_n env" "\<forall>h \<in> set ?hs. length h = kv_n env" "D * ?w \<le> 8 * kv_n env" "0 < ?w" "?w \<le> 8"
    using ok D kwidth_bounds [OF ok] by (auto simp: kenv_ok_def within_def)
  obtain t e where e: "longest_common_prefix (kv_hash env k) (D * ?w) ?w ?hs = Inr (e, D * ?w + t * ?w)" "D * ?w + t * ?w < 8 * kv_n env"
      "ext_packed e" "ext_length e = t * ?w" "ext_bits e = take (t * ?w) (drop (D * ?w) (key_bits (kv_hash env k)))"
      "\<forall>h \<in> set ?hs. take (t * ?w) (drop (D * ?w) (key_bits h)) = ext_bits e"
      "\<exists>h \<in> set ?hs. take ?w (drop (D * ?w + t * ?w) (key_bits h)) \<noteq> take ?w (drop (D * ?w + t * ?w) (key_bits (kv_hash env k)))"
    using longest_common_prefix_bits [OF len(4,5) len(1,2,3) diff] by blast
  have skip: "kskip env e = t" by (rule kskip_eq [OF ok e(4)])
  obtain kv' where kv': "kv' \<in> set vs" "kpath env (D + t) 1 (fst kv') \<noteq> kpath env (D + t) 1 k"
    using e(7) by (auto simp: kpath_def kbits_def distrib_right)
  then have "\<exists>y \<in> fst ` set vs. kslot env (D + t) y \<noteq> kslot env (D + t) k" using kslot_chunk [OF ok, of "D + t"] by blast
  moreover have "kpath env D t x = ext_bits e" if "x \<in> insert k (fst ` set vs)" for x
    using that e(5,6) by (auto simp: kpath_def kbits_def)
  ultimately show ?thesis using e(1-4) by (intro exI [of _ e]) (simp add: skip within_def distrib_right)
qed

lemma ksplit_bucket:
  assumes ok: "kenv_ok env"
    and IH: "\<And>D n m k v. d < D \<Longrightarrow> ktree env bs D n m \<Longrightarrow> kagree env D (insert k (dom m)) \<Longrightarrow>
      kmodified env bs D ow k v m (kmodify_value env bs ow k v (kv_hash env k) (D * kwidth env) D n)"
    and vs: "bucket_ok (kv_conf env) vs" "k \<notin> fst ` set vs" "max_array_width (kv_conf env) \<le> length vs" "min_data_depth (kv_conf env) \<le> d"
    and agree: "kagree env (d + 1) (insert k (fst ` set vs))" and D: "within env (d + 1)"
  defines "hs \<equiv> map (\<lambda>kv. kv_hash env (fst kv)) vs"
  shows "\<exists>e sub1 sub. longest_common_prefix (kv_hash env k) ((d + 1) * kwidth env) (kwidth env) hs = Inr (e, (d + 1 + kskip env e) * kwidth env) \<and>
    kmodify_value env bs ow k v (kv_hash env k) ((d + 1 + kskip env e) * kwidth env) (d + 1 + kskip env e) kn_default = (Inr (None, True), sub1) \<and>
    kmodify_all env bs ow (zip vs hs) ((d + 1 + kskip env e) * kwidth env) (d + 1 + kskip env e) sub1 = (Inr (), sub) \<and>
    kslot_rep env bs d (Some (KDirty sub e)) ((map_of vs)(k \<mapsto> v))"
proof -
  have ne: "vs \<noteq> []" and dist: "distinct (map fst vs)" using vs(1) bucket_distinct by (auto simp: bucket_ok_def)
  let ?K = "insert k (fst ` set vs)"
  obtain e where e: "longest_common_prefix (kv_hash env k) ((d + 1) * kwidth env) (kwidth env) hs = Inr (e, (d + 1 + kskip env e) * kwidth env)"
      "ext_packed e" "ext_length e = kskip env e * kwidth env" "within env (d + 1 + kskip env e)"
      "\<forall>x \<in> ?K. kpath env (d + 1) (kskip env e) x = ext_bits e"
      "\<exists>y \<in> fst ` set vs. kslot env (d + 1 + kskip env e) y \<noteq> kslot env (d + 1 + kskip env e) k"
    using bucket_extension [OF ok D ne vs(2) agree] unfolding hs_def by blast
  let ?D = "d + 1 + kskip env e"
  have ag: "kagree env ?D ?K"
  proof (rule kagree_extend [OF agree])
    show "kpath env (d + 1) (kskip env e) x = kpath env (d + 1) (kskip env e) y" if "x \<in> ?K" "y \<in> ?K" for x y
      using bspec [OF e(5) that(1)] bspec [OF e(5) that(2)] by (rule trans [OF _ sym])
  qed
  have lt: "d < ?D" by simp
  have "kagree env ?D (insert k (dom Map.empty))" by (rule kagree_subset [OF ag]) simp
  then have "kmodified env bs ?D ow k v Map.empty (kmodify_value env bs ow k v (kv_hash env k) (?D * kwidth env) ?D kn_default)"
    by (rule IH [OF lt ktree_empty [OF e(4)]])
  then obtain sub1 where sub1: "kmodify_value env bs ow k v (kv_hash env k) (?D * kwidth env) ?D kn_default = (Inr (None, True), sub1)"
      "ktree env bs ?D sub1 [k \<mapsto> v]"
    by (cases "kmodify_value env bs ow k v (kv_hash env k) (?D * kwidth env) ?D kn_default") (auto simp: kmodified_def)
  have ag2: "kagree env ?D (fst ` set vs \<union> dom [k \<mapsto> v])" by (rule kagree_subset [OF ag]) auto
  have dj: "dom [k \<mapsto> v] \<inter> fst ` set vs = {}" using vs(2) by simp
  obtain sub where sub: "kmodify_all env bs ow (zip vs hs) (?D * kwidth env) ?D sub1 = (Inr (), sub)"
      "ktree env bs ?D sub ([k \<mapsto> v] ++ map_of vs)"
    using kmodify_all_tree [OF IH [OF lt] sub1(2) ag2 dist dj] unfolding hs_def by blast
  have eq: "[k \<mapsto> v] ++ map_of vs = (map_of vs)(k \<mapsto> v)"
    using vs(2) map_of_eq_None_iff [of vs k] by (auto simp: fun_eq_iff map_add_def split: option.splits)
  have dom: "dom ((map_of vs)(k \<mapsto> v)) = ?K" by (simp add: dom_map_of_conv_image_fst)
  have "card (fst ` set vs) = length vs" using distinct_card [OF dist] by simp
  then have "max_array_width (kv_conf env) < card ?K" using vs(2,3) by simp
  moreover have "\<exists>x \<in> ?K. \<exists>y \<in> ?K. kslot env ?D x \<noteq> kslot env ?D y" using e(6) by blast
  ultimately have "kchild_ok env d e ((map_of vs)(k \<mapsto> v))"
    using e(2-5) vs(4) unfolding kchild_ok_def dom by simp
  then have "kslot_rep env bs d (Some (KDirty sub e)) ((map_of vs)(k \<mapsto> v))" using sub(2) eq by (simp add: kslot_rep_dirty)
  then show ?thesis using e(1) sub1(1) sub(1) by blast
qed

lemma kmodify_empty_tree:
  assumes ok: "kenv_ok env" and t: "ktree env bs d n m"
    and IH: "\<And>D n m k v. d < D \<Longrightarrow> ktree env bs D n m \<Longrightarrow> kagree env D (insert k (dom m)) \<Longrightarrow>
      kmodified env bs D ow k v m (kmodify_value env bs ow k v (kv_hash env k) (D * kwidth env) D n)"
    and ag: "kagree env d (insert k (dom m))" and none: "\<not> bm_test_bit (kn_bitfield n) (kslot env d k)"
  shows "kmodified env bs d ow k v m (kmodify_value env bs ow k v (kv_hash env k) (d * kwidth env) d n)"
proof -
  let ?i = "kslot env d k" and ?w = "kwidth env"
  note ins = kinsert_slot [OF ktreeD(2) [OF t] kslot_bound [OF ok] none]
  have e: "kat env d m ?i = Map.empty" using ktreeD(3) [OF t, of ?i] ins(3) by (simp add: kslot_rep_def)
  note unf = kmodify_value_empty [OF key_next_slot [OF ok ktreeD(1) [OF t]] none, of bs ow k v d]
  show ?thesis
  proof (cases "min_data_depth (kv_conf env) \<le> d")
    case True
    have "bucket_ok (kv_conf env) [(k, v)]" using ok by (simp add: bucket_ok_def kenv_ok_def Suc_le_eq)
    then show ?thesis unfolding unf using True
      by (auto simp: kinsert_child_def kslot_rep_bucket e intro!: kmodified_slot [OF t ins(1,2)])
  next
    case False
    have "within env (min_data_depth (kv_conf env))" using ok by (simp add: kenv_ok_def within_def kwidth_def)
    then have in1: "within env (d + 1)" by (rule within_mono) (use False in simp)
    have "kagree env (d + 1) (insert k (dom Map.empty))" using kagree_at [OF ok ag] by (rule kagree_subset) simp
    then have "kmodified env bs (d + 1) ow k v Map.empty (kmodify_value env bs ow k v (kv_hash env k) ((d + 1) * ?w) (d + 1) kn_default)"
      by (rule IH [OF _ ktree_empty [OF in1], rotated]) simp
    then obtain r n1 where r: "kmodify_value env bs ow k v (kv_hash env k) ((d + 1) * ?w) (d + 1) kn_default = (Inr r, n1)"
        "ktree env bs (d + 1) n1 [k \<mapsto> v]"
      by (cases "kmodify_value env bs ow k v (kv_hash env k) ((d + 1) * ?w) (d + 1) kn_default") (auto simp: kmodified_def)
    have "min ((d + 1) * ?w) (8 * kv_n env) = (d + 1) * ?w" using in1 by (simp add: within_def)
    moreover have "kskip env ext_default = 0" by (simp add: kskip_def)
    then have "kslot_rep env bs d (Some (KDirty n1 ext_default)) [k \<mapsto> v]"
      using False r(2) in1 by (simp add: kslot_rep_dirty kchild_ok_def)
    ultimately show ?thesis unfolding unf using r(1) False
      by (auto simp: kinsert_child_dirty_def e intro!: kmodified_slot [OF t ins(1,2)])
  qed
qed

lemma kmodify_bucket_tree:
  assumes ok: "kenv_ok env" and t: "ktree env bs d n m"
    and IH: "\<And>D n m k v. d < D \<Longrightarrow> ktree env bs D n m \<Longrightarrow> kagree env D (insert k (dom m)) \<Longrightarrow>
      kmodified env bs D ow k v m (kmodify_value env bs ow k v (kv_hash env k) (D * kwidth env) D n)"
    and ag: "kagree env d (insert k (dom m))" and some: "bm_test_bit (kn_bitfield n) (kslot env d k)"
    and j: "j = index_for_bit_pos (kn_bitfield n) (kslot env d k)"
    and vs: "kn_pointers n ! j = KValues vs" "min_data_depth (kv_conf env) \<le> d" "bucket_ok (kv_conf env) vs"
      "kat env d m (kslot env d k) = map_of vs"
  shows "kmodified env bs d ow k v m (kmodify_value env bs ow k v (kv_hash env k) (d * kwidth env) d n)"
proof -
  let ?i = "kslot env d k" and ?w = "kwidth env"
  note ch = kwith_child_slot [OF ktreeD(2) [OF t] kslot_bound [OF ok] some, folded j]
  note unf = kmodify_value_bucket [OF key_next_slot [OF ok ktreeD(1) [OF t]] some j [symmetric] ch(3) vs(1), of bs ow k v d]
  show ?thesis
  proof (cases "position (\<lambda>p. fst p = k) vs")
    case (Some l)
    note b = bucket_update [OF vs(3) Some]
    have "kmodified env bs d ow k v m (Inr (None, False), n)" if "\<not> ow"
    proof -
      have "m k = Some (snd (vs ! l))" using b(3) vs(4) kat_key [of env d m k] by simp
      then show ?thesis using that t by (simp add: kmodified_def put_map_def put_old_def)
    qed
    moreover have "kslot_rep env bs d (Some (KValues (vs[l := (fst (vs ! l), v)]))) (put_map True k v (map_of vs))"
      using b(1,2) vs(2) by (simp add: kslot_rep_bucket put_map_def)
    moreover have "(snd (vs ! l) \<noteq> v) = (put_map True k v (map_of vs) \<noteq> map_of vs)" using b(3) by (simp add: put_changes)
    ultimately show ?thesis unfolding unf using Some b(3)
      by (cases ow) (simp_all add: vs(4) put_old_def kmodified_slot [OF t ch(1,2)])
  next
    case None
    then have k: "k \<notin> fst ` set vs" by (auto simp: position_None)
    then have new: "map_of vs k = None" by (simp add: map_of_eq_None_iff)
    note put = put_map_new [of "map_of vs" k ow v, OF new]
    have chg: "(map_of vs)(k \<mapsto> v) \<noteq> map_of vs" using put by metis
    have put_in: "kmodified env bs d ow k v m (Inr (None, True), kwith_child n j p)"
      if "kslot_rep env bs d (Some p) ((map_of vs)(k \<mapsto> v))" for p
      using that by (intro kmodified_slot [OF t ch(1,2)]) (simp_all add: vs(4) put chg del: fun_upd_apply)
    show ?thesis
    proof (cases "max_array_width (kv_conf env) \<le> length vs")
      case True
      have agree: "kagree env (d + 1) (insert k (fst ` set vs))"
        using kagree_at [OF ok ag] by (simp add: vs(4) dom_map_of_conv_image_fst)
      obtain kv where "kv \<in> set vs" using vs(3) by (cases vs) (auto simp: bucket_ok_def)
      then have in1: "within env (d + 1)" using k by (intro kagree_within [OF ok agree, of k "fst kv"]) auto
      then have c1: "min ((d + 1) * ?w) (8 * kv_n env) = (d + 1) * ?w" by (simp add: within_def)
      obtain e sub1 sub where e: "longest_common_prefix (kv_hash env k) ((d + 1) * ?w) ?w (map (\<lambda>kv. kv_hash env (fst kv)) vs) =
            Inr (e, (d + 1 + kskip env e) * ?w)"
          "kmodify_value env bs ow k v (kv_hash env k) ((d + 1 + kskip env e) * ?w) (d + 1 + kskip env e) kn_default = (Inr (None, True), sub1)"
          "kmodify_all env bs ow (zip vs (map (\<lambda>kv. kv_hash env (fst kv)) vs)) ((d + 1 + kskip env e) * ?w) (d + 1 + kskip env e) sub1 = (Inr (), sub)"
          "kslot_rep env bs d (Some (KDirty sub e)) ((map_of vs)(k \<mapsto> v))"
        using ksplit_bucket [OF ok IH vs(3) k True vs(2) agree in1] by blast
      have "kmodify_value env bs ow k v (kv_hash env k) (d * ?w) d n = (Inr (None, True), kwith_child n j (KDirty sub e))"
        unfolding unf c1 kwidth_def [symmetric] kskip_def [symmetric] using None True e(1-3)
        by (simp add: kwidth_def [symmetric] kskip_def [symmetric] Let_def del: mult_Suc add_Suc)
      then show ?thesis using put_in [OF e(4)] by simp
    next
      case False
      then have len: "length vs < max_array_width (kv_conf env)" by simp
      let ?j = "case position (\<lambda>c. fst c > k) vs of Some j \<Rightarrow> j | None \<Rightarrow> length vs"
      note b = bucket_insert [OF vs(3) None len]
      have "kslot_rep env bs d (Some (KValues (vec_insert ?j (k, v) vs))) ((map_of vs)(k \<mapsto> v))"
        using b(1,2) vs(2) by (simp add: kslot_rep_bucket)
      then show ?thesis unfolding unf using None False put_in by (simp add: Let_def)
    qed
  qed
qed

lemma kchild_ok_put:
  assumes "kenv_ok env" "kchild_ok env d e m" "kpath env (d + 1) (kskip env e) k = ext_bits e"
  shows "kchild_ok env d e (put_map ow k v m)"
proof -
  have sub: "dom m \<subseteq> dom (put_map ow k v m)" "dom (put_map ow k v m) \<subseteq> insert k (dom m)" by (auto simp: put_map_def split: if_splits)
  have "put_map ow k v m \<noteq> Map.empty" using sub(1) kchild_nonempty [OF assms(2)] by auto
  moreover have "card (dom m) \<le> card (dom (put_map ow k v m))" if "min_data_depth (kv_conf env) \<le> d"
    using kchild_finite [OF assms(2) that] sub by (metis card_mono finite.insertI finite_subset)
  moreover have "\<forall>x \<in> dom (put_map ow k v m). kpath env (d + 1) (kskip env e) x = ext_bits e"
    using sub(2) assms(2,3) unfolding kchild_ok_def by blast
  ultimately show ?thesis using assms(2) sub(1) unfolding kchild_ok_def by (auto split: if_splits) (meson domI order_less_le_trans subsetD)+
qed

lemma kmodify_child_tree:
  assumes ok: "kenv_ok env" and t: "ktree env bs d n m"
    and IH: "\<And>D n m k v. d < D \<Longrightarrow> ktree env bs D n m \<Longrightarrow> kagree env D (insert k (dom m)) \<Longrightarrow>
      kmodified env bs D ow k v m (kmodify_value env bs ow k v (kv_hash env k) (D * kwidth env) D n)"
    and ag: "kagree env d (insert k (dom m))" and some: "bm_test_bit (kn_bitfield n) (kslot env d k)"
    and j: "j = index_for_bit_pos (kn_bitfield n) (kslot env d k)"
    and p: "kslot_rep env bs d (Some (kn_pointers n ! j)) (kat env d m (kslot env d k))" "kbucket_of (kn_pointers n ! j) = None"
      "kchild_ok env d (kext (kn_pointers n ! j)) (kat env d m (kslot env d k))"
      "kchild env bs (d + 1) (kn_pointers n ! j) = Some n1"
      "ktree env bs (d + 1 + kskip env (kext (kn_pointers n ! j))) n1 (kat env d m (kslot env d k))"
  shows "kmodified env bs d ow k v m (kmodify_value env bs ow k v (kv_hash env k) (d * kwidth env) d n)"
proof -
  let ?i = "kslot env d k" and ?w = "kwidth env" and ?p = "kn_pointers n ! j"
  let ?e = "kext ?p" and ?m = "kat env d m ?i"
  let ?D = "d + 1 + kskip env ?e"
  note ch = kwith_child_slot [OF ktreeD(2) [OF t] kslot_bound [OF ok] some, folded j]
  note km = kchild_match [OF ok p(3)]
  note nx = key_next_inner [OF ok km(4), of k]
  show ?thesis
  proof (cases "kpath env (d + 1) (kskip env ?e) k = ext_bits ?e")
    case True
    have same: "kpath env (d + 1) (kskip env ?e) x = ext_bits ?e" if "x \<in> insert k (dom ?m)" for x using that True km(5) by blast
    have ag': "kagree env ?D (insert k (dom ?m))"
      by (rule kagree_extend [OF kagree_at [OF ok ag]]) (simp only: same)
    have "kmodified env bs ?D ow k v ?m (kmodify_value env bs ow k v (kv_hash env k) (?D * ?w) ?D n1)"
      by (rule IH [OF _ p(5) ag']) simp
    then obtain old b n2 where r: "kmodify_value env bs ow k v (kv_hash env k) (?D * ?w) ?D n1 = (Inr (old, b), n2)"
        "old = put_old ow k ?m" "b \<longleftrightarrow> put_map ow k v ?m \<noteq> ?m" "ktree env bs ?D n2 (put_map ow k v ?m)"
      by (cases "kmodify_value env bs ow k v (kv_hash env k) (?D * ?w) ?D n1") (auto simp: kmodified_def)
    note unf = kmodify_value_full [OF nx some j [symmetric] ch(3) p(4) match_extension_full [OF ok km(1,2,3) True] r(1)]
    have "kslot_rep env bs d (Some (if b then KDirty n2 ?e else krefill ?p n2)) (put_map ow k v ?m)"
    proof (cases b)
      case True
      then show ?thesis using r(4) kchild_ok_put [OF ok p(3) \<open>kpath env (d + 1) (kskip env ?e) k = ext_bits ?e\<close>] by (simp add: kslot_rep_dirty)
    next
      case False
      then show ?thesis using r(3,4) kslot_rep_refill [OF p(1,2), of n2] by simp
    qed
    then show ?thesis unfolding unf by (rule kmodified_slot [OF t ch(1,2) _ r(2,3)])
  next
    case False
    then have "k \<notin> dom ?m" using km(5) [of k] by blast
    then have new: "?m k = None" by (simp add: domIff)
    obtain s where s: "s < kskip env ?e" "match_extension (kv_conf env) (kv_hash env k) ((d + 1) * ?w) ?e =
          Inr (PartialMatch (s * ?w), (d + 1 + s) * ?w)" "kpath env (d + 1) s k = take (s * ?w) (ext_bits ?e)"
        "kpath env (d + 1 + s) 1 k \<noteq> take ?w (drop (s * ?w) (ext_bits ?e))"
      using match_extension_partial [OF ok km(1,2,3) False] by blast
    obtain q where q: "split_extension env (kv_hash env k) ((d + 1 + s) * ?w) ?e (s * ?w) k v
          (\<lambda>midway idx tail. kinsert_pointer midway idx (krelink ?p tail)) = (Inr q, True)" "kslot_rep env bs d (Some q) (?m(k \<mapsto> v))"
      using split_rep [OF ok p(1,2,3) s(1,3,4)] by blast
    note unf = kmodify_value_partial [OF nx some j [symmetric] ch(3) refl p(2) s(2) q(1)]
    note put = put_map_new [of ?m k ow v, OF new]
    have chg: "?m(k \<mapsto> v) \<noteq> ?m" using put by metis
    show ?thesis unfolding unf using q(2) by (intro kmodified_slot [OF t ch(1,2)]) (simp_all add: put chg del: fun_upd_apply)
  qed
qed

lemma kmodify_value_tree:
  assumes ok: "kenv_ok env"
  shows "ktree env bs d n m \<Longrightarrow> kagree env d (insert k (dom m)) \<Longrightarrow>
    kmodified env bs d ow k v m (kmodify_value env bs ow k v (kv_hash env k) (d * kwidth env) d n)"
proof (induction "8 * kv_n env - d" arbitrary: d n m k v rule: less_induct)
  case less
  let ?i = "kslot env d k"
  note t = ktreeD [OF less.prems(1)]
  have IH: "kmodified env bs D ow k v m (kmodify_value env bs ow k v (kv_hash env k) (D * kwidth env) D n)"
    if "d < D" "ktree env bs D n m" "kagree env D (insert k (dom m))" for D n m k v
    using less.hyps [OF _ that(2,3)] within_measure [OF ok ktreeD(1) [OF that(2)]] that(1) by simp
  show ?case
  proof (cases "bm_test_bit (kn_bitfield n) ?i")
    case False
    show ?thesis by (rule kmodify_empty_tree [OF ok less.prems(1) IH less.prems(2) False])
  next
    case True
    define j where "j = index_for_bit_pos (kn_bitfield n) ?i"
    have rep: "kslot_rep env bs d (Some (kn_pointers n ! j)) (kat env d m ?i)"
      using t(3) [of ?i] kwith_child_slot(4) [OF t(2) kslot_bound [OF ok] True] by (simp add: j_def)
    from ok rep show ?thesis
    proof (cases rule: kslot_rep_cases)
      case (bucket vs)
      show ?thesis by (rule kmodify_bucket_tree [OF ok less.prems(1) IH less.prems(2) True j_def bucket])
    next
      case child
      obtain n1 where n1: "kchild env bs (d + 1) (kn_pointers n ! j) = Some n1"
          "ktree env bs (d + 1 + kskip env (kext (kn_pointers n ! j))) n1 (kat env d m ?i)"
        using child(3) [OF kdepth_child [OF kdepth_refl child(2)]] by blast
      show ?thesis by (rule kmodify_child_tree [OF ok less.prems(1) IH less.prems(2) True j_def rep child(1,2) n1])
    qed
  qed
qed

end
