(* ===== verification/KamtRemove.thy ===== *)
theory KamtRemove
  imports KamtUpdate
begin

text \<open>
  Removing from a KAMT refines removing from the map, and keeps the canonical form: what is left of a node
  goes back into a bucket when it fits, and a node that is left with one child gives way to it, whose
  extension grows by that of the node and the chunk between them.
\<close>

subsection \<open>The entries of a node\<close>

lemma kat_union: "kenv_ok env \<Longrightarrow> dom m \<subseteq> (\<Union>i < 256. dom (kat env d m i))"
  using kslot_bound [of env d] by (fastforce simp: kat_def restrict_map_def)

lemma ktree_finite: "kenv_ok env \<Longrightarrow> ktree env bs d n m \<Longrightarrow> finite (dom m)"
proof (induction "8 * kv_n env - d" arbitrary: d n m rule: less_induct)
  case less
  note t = ktreeD [OF less.prems(2)]
  have "finite (dom (kat env d m i))" for i
  proof (cases "kn_slot n i")
    case None
    then show ?thesis using t(3) [of i] by (simp add: kslot_rep_def)
  next
    case (Some p)
    then have "kslot_rep env bs d (Some p) (kat env d m i)" using t(3) [of i] by simp
    with less.prems(1) show ?thesis
    proof (cases rule: kslot_rep_cases)
      case child
      obtain n1 where "ktree env bs (d + 1 + kskip env (kext p)) n1 (kat env d m i)"
        using child(3) [OF kdepth_child [OF kdepth_refl child(2)]] by blast
      then show ?thesis by (rule less.hyps [OF kchild_measure [OF less.prems(1) child(2)] less.prems(1)])
    qed (simp add: finite_dom_map_of)
  qed
  then show ?case using finite_subset [OF kat_union [OF less.prems(1)]] by blast
qed

lemma kslot_nonempty:
  assumes "kenv_ok env" "kslot_rep env bs d (Some p) m"
  shows "m \<noteq> Map.empty"
  using assms
proof (cases rule: kslot_rep_cases)
  case (bucket vs)
  then show ?thesis by (cases vs) (auto simp: bucket_ok_def)
qed (rule kchild_nonempty)

lemma ktree_slots_keys:
  assumes "kenv_ok env" "ktree env bs d n m"
  shows "slots (kn_bitfield n) = kslot env d ` dom m"
proof (intro set_eqI iffI)
  note t = ktreeD [OF assms(2)]
  fix i
  show "i \<in> kslot env d ` dom m" if mem: "i \<in> slots (kn_bitfield n)"
  proof -
    obtain p where "kn_slot n i = Some p" by (rule kn_slot_Some [OF t(2) mem])
    then have "kat env d m i \<noteq> Map.empty" using t(3) [of i] kslot_nonempty [OF assms(1)] by simp
    then obtain k where "k \<in> dom (kat env d m i)" by (auto simp: fun_eq_iff)
    then show ?thesis using kat_dom [of k env d m i] by blast
  qed
  show "i \<in> slots (kn_bitfield n)" if i: "i \<in> kslot env d ` dom m"
  proof (rule ccontr)
    assume "i \<notin> slots (kn_bitfield n)"
    then have "kat env d m i = Map.empty" using kn_slot_dom [OF t(2), of i] t(3) [of i] by (simp add: kslot_rep_def)
    then show False using i kat_dom [of _ env d m i] by auto
  qed
qed

lemma ktree_pointers:
  assumes "kenv_ok env" "ktree env bs d n m"
  shows "length (kn_pointers n) \<le> card (dom m)" "kn_pointers n = [] \<longleftrightarrow> m = Map.empty"
    "length (kn_pointers n) = card (kslot env d ` dom m)"
proof -
  show len: "length (kn_pointers n) = card (kslot env d ` dom m)"
    using kn_pointers_length [OF ktreeD(2) [OF assms(2)]] ktree_slots_keys [OF assms] by simp
  show "length (kn_pointers n) \<le> card (dom m)" unfolding len by (rule card_image_le [OF ktree_finite [OF assms]])
  have "kn_pointers n = [] \<longleftrightarrow> kslot env d ` dom m = {}" using len ktree_finite [OF assms] by (simp flip: length_0_conv)
  then show "kn_pointers n = [] \<longleftrightarrow> m = Map.empty" by simp
qed

text \<open>A node that has a child node holds many entries.\<close>

lemma kchild_many:
  assumes "kenv_ok env" "ktree env bs d n m" "min_data_depth (kv_conf env) \<le> d" "p \<in> set (kn_pointers n)" "kbucket_of p = None"
  shows "max_array_width (kv_conf env) < card (dom m)"
proof -
  note t = ktreeD [OF assms(2)]
  obtain i where i: "kn_slot n i = Some p" using kn_pointer_slot [OF t(2) assms(4)] by blast
  then have "kslot_rep env bs d (Some p) (kat env d m i)" using t(3) [of i] by simp
  with assms(1) have "kchild_ok env d (kext p) (kat env d m i)" using assms(5) by (cases rule: kslot_rep_cases) auto
  then have "max_array_width (kv_conf env) < card (dom (kat env d m i))" using assms(3) by (simp add: kchild_ok_def)
  also have "\<dots> \<le> card (dom m)"
    using kat_dom [of _ env d m i] by (intro card_mono [OF ktree_finite [OF assms(1,2)]] subsetI) simp
  finally show ?thesis .
qed

text \<open>The entries of a node, slot by slot.\<close>

lemma kslots_concat:
  assumes "kenv_ok env" "ktree env bs d n m"
    and slot: "\<And>i. i \<in> slots (kn_bitfield n) \<Longrightarrow> distinct (map fst (f i)) \<and> map_of (f i) = kat env d m i"
  defines "vals \<equiv> concat (map f (sorted_list_of_set (slots (kn_bitfield n))))"
  shows "distinct (map fst vals)" "map_of vals = m"
proof -
  have keys: "kslot env d k = i" if "i \<in> slots (kn_bitfield n)" "k \<in> fst ` set (f i)" for i k
    using slot [OF that(1)] that(2) kat_dom [of k env d m i] by (metis dom_map_of_conv_image_fst)
  show dist: "distinct (map fst vals)"
    unfolding vals_def using slot keys finite_slots [of "kn_bitfield n"] by (intro distinct_keys_concat) (simp_all, blast)
  show "map_of vals = m"
  proof
    fix k
    have "map_of vals k = Some v \<longleftrightarrow> m k = Some v" for v
    proof -
      have "map_of vals k = Some v \<longleftrightarrow> (\<exists>i \<in> slots (kn_bitfield n). (k, v) \<in> set (f i))"
        using map_of_eq_Some_iff [OF dist, of k v] unfolding vals_def using finite_slots [of "kn_bitfield n"] by simp
      also have "\<dots> \<longleftrightarrow> (\<exists>i \<in> slots (kn_bitfield n). kat env d m i k = Some v)"
        using slot by (metis map_of_eq_Some_iff)
      also have "\<dots> \<longleftrightarrow> m k = Some v"
        unfolding ktree_slots_keys [OF assms(1,2)] by (auto simp: kat_def restrict_map_def split: if_splits)
      finally show ?thesis .
    qed
    then show "map_of vals k = m k" by (metis not_Some_eq)
  qed
qed

lemma kall_buckets:
  assumes "kenv_ok env" "ktree env bs d n m" "list_all (\<lambda>p. kbucket_of p \<noteq> None) (kn_pointers n)"
  defines "vals \<equiv> concat (map (\<lambda>p. the (kbucket_of p)) (kn_pointers n))"
  shows "distinct (map fst vals)" "map_of vals = m"
proof -
  note t = ktreeD [OF assms(2)]
  let ?f = "\<lambda>i. the (kbucket_of (the (kn_slot n i)))"
  have vals: "vals = concat (map ?f (sorted_list_of_set (slots (kn_bitfield n))))"
    unfolding vals_def by (subst kn_slot_list [OF t(2)]) (simp add: comp_def)
  have slot: "distinct (map fst (?f i)) \<and> map_of (?f i) = kat env d m i" if mem: "i \<in> slots (kn_bitfield n)" for i
  proof -
    obtain p where p: "kn_slot n i = Some p" "p \<in> set (kn_pointers n)" by (rule kn_slot_Some [OF t(2) mem])
    then obtain vs where vs: "p = KValues vs" using assms(3) by (cases p) (auto simp: list_all_iff)
    then show ?thesis using t(3) [of i] p bucket_distinct by (auto simp: kslot_rep_bucket)
  qed
  show "distinct (map fst vals)" unfolding vals by (rule kslots_concat(1) [OF assms(1,2) slot])
  show "map_of vals = m" unfolding vals by (rule kslots_concat(2) [OF assms(1,2) slot])
qed

subsection \<open>The only slot of a node\<close>

lemma leading_zeros_one:
  assumes "n < 64" "\<And>p. bit w p \<longleftrightarrow> p = n"
  shows "leading_zeros w = 63 - n"
proof -
  have "[0..<64] = [0..<n] @ n # [Suc n..<64]" using assms(1) by (metis upt_add_eq_append upt_conv_Cons le_add_diff_inverse less_imp_le zero_le)
  then have "rev [0..<64] = rev [Suc n..<64] @ n # rev [0..<n]" by simp
  moreover have "takeWhile (\<lambda>p. \<not> bit w p) (rev [Suc n..<64] @ n # rev [0..<n]) = rev [Suc n..<64]"
    using assms(2) by (subst takeWhile_append2) auto
  ultimately have "takeWhile (\<lambda>p. \<not> bit w p) (rev [0..<64]) = rev [Suc n..<64]" by simp
  then show ?thesis unfolding leading_zeros_def takeWhile_map length_map comp_def by simp
qed

lemma leading_zeros_0: "leading_zeros 0 = 64"
proof -
  have "takeWhile Not (map (bit (0 :: u64)) (rev [0..<64])) = map (bit (0 :: u64)) (rev [0..<64])" by (rule takeWhile_eq_all_conv [THEN iffD2]) simp
  then show ?thesis unfolding leading_zeros_def by (simp only: length_map length_rev length_upt)
qed

lemma last_one_single:
  assumes "slots b = {i}"
  shows "last_one_idx b = Some i"
proof -
  have i: "i < 256" using assms by (auto simp: slots_def)
  have bits: "bit (word_at b j) n \<longleftrightarrow> 64 * j + n = i" if "j < 4" "n < 64" for j n
  proof -
    have r: "64 * j + n < 256" "(64 * j + n) div 64 = j" "(64 * j + n) mod 64 = n" using that by auto
    have "64 * j + n \<in> slots b \<longleftrightarrow> bit (word_at b j) n" using r by (simp add: slots_def test_bit_bit)
    then show ?thesis using assms by auto
  qed
  have zero: "word_at b j = 0" if "j < 4" "j \<noteq> i div 64" for j
  proof (rule bit_word_eqI)
    fix n assume "n < LENGTH(64)"
    then show "bit (word_at b j) n = bit (0 :: u64) n" using bits [OF that(1), of n] that(2) by auto
  qed
  have "bit (word_at b (i div 64)) p \<longleftrightarrow> p = i mod 64" for p
  proof (cases "p < 64")
    case True
    then have "64 * (i div 64) + p = i \<longleftrightarrow> p = i mod 64" by presburger
    then show ?thesis using bits [of "i div 64" p] i True by simp
  next
    case False
    then have "\<not> bit (word_at b (i div 64)) p" "p \<noteq> i mod 64" using bit_imp_le_length [of "word_at b (i div 64)" p] by auto
    then show ?thesis by simp
  qed
  then have one: "leading_zeros (word_at b (i div 64)) = 63 - i mod 64" by (intro leading_zeros_one) simp_all
  have w: "word_at b 0 = w0 b" "word_at b 1 = w1 b" "word_at b 2 = w2 b" "word_at b 3 = w3 b" by (simp_all add: word_at_def)
  have "i div 64 = 0 \<or> i div 64 = 1 \<or> i div 64 = 2 \<or> i div 64 = 3" using i by auto
  moreover have "i = 64 * (i div 64) + i mod 64" "i mod 64 < 64" by simp_all
  ultimately show ?thesis
    using one zero [of 0] zero [of 1] zero [of 2] zero [of 3] w
    by (elim disjE) (simp_all add: last_one_idx_def leading_zeros_0 Let_def)
qed

subsection \<open>Cleaning a node after a removal\<close>

text \<open>The parent of a child node, its extension and the chunk between them, in one extension.\<close>

lemma unsplit_rep:
  assumes ok: "kenv_ok env" and t: "ktree env bs (d + 1 + kskip env e1) n m" and min: "min_data_depth (kv_conf env) \<le> d"
    and e1: "ext_packed e1" "ext_length e1 = kskip env e1 * kwidth env" "\<forall>x \<in> dom m. kpath env (d + 1) (kskip env e1) x = ext_bits e1"
    and one: "kn_pointers n = [p]" "kbucket_of p = None"
  shows "\<exists>e. unsplit_ext (kv_conf env) (kn_bitfield n) e1 (kext p) = Inr e \<and> kslot_rep env bs d (Some (krelink p e)) m"
proof -
  let ?D = "d + 1 + kskip env e1" and ?w = "kwidth env"
  note td = ktreeD [OF t]
  obtain i where i: "kn_slot n i = Some p" using kn_pointer_slot [OF td(2), of p] one(1) by auto
  have "card (slots (kn_bitfield n)) = 1" using kn_pointers_length [OF td(2)] one(1) by simp
  moreover have "i \<in> slots (kn_bitfield n)" using kn_slot_dom [OF td(2), of i] i by simp
  ultimately have slots: "slots (kn_bitfield n) = {i}" by (metis card_1_singletonE singletonD)
  have slot: "kslot env ?D x = i" if "x \<in> dom m" for x using ktree_slots_keys [OF ok t] slots that by auto
  have "kat env ?D m i x = m x" for x using slot [of x] by (cases "m x") (auto simp: kat_def restrict_map_def)
  then have "kat env ?D m i = m" by (rule ext)
  then have rep: "kslot_rep env bs ?D (Some p) m" using td(3) [of i] i by simp
  with ok have c: "kchild_ok env ?D (kext p) m" using one(2) by (cases rule: kslot_rep_cases) auto
  note km = kchild_match [OF ok c]
  obtain x0 where x0: "x0 \<in> dom m" using kchild_nonempty [OF c] by (auto simp: fun_eq_iff)
  let ?chunk = "kpath env ?D 1 x0"
  have len: "length ?chunk = ?w" using kpath_length [OF ok km(4), of x0] by simp
  have idx: "bits_value ?chunk = i" using slot [OF x0] by (simp add: kslot_value)
  note fi = ext_from_idx_bits [OF conjunct1 [OF kwidth_bounds [OF ok]] conjunct2 [OF kwidth_bounds [OF ok]] len, unfolded idx]
  obtain e where e: "ext_unsplit e1 (ext_from_idx i ?w) (kext p) = Inr e" "ext_packed e"
      "ext_bits e = ext_bits e1 @ ?chunk @ ext_bits (kext p)" "ext_length e = ext_length e1 + ?w + ext_length (kext p)"
    using ext_unsplit_bits [OF e1(1) fi(1) km(1)] fi(2,3) kwidth_bounds [OF ok] by auto
  let ?s = "kskip env e1 + 1 + kskip env (kext p)"
  have elen: "ext_length e = ?s * ?w" using e(4) e1(2) km(2) by (simp add: algebra_simps)
  have skip: "kskip env e = ?s" by (rule kskip_eq [OF ok elen])
  have depth: "d + 1 + ?s = ?D + 1 + kskip env (kext p)" by simp
  have path: "kpath env (d + 1) ?s x = ext_bits e" if "x \<in> dom m" for x
  proof -
    have "kpath env ?D 1 x = ?chunk" using kslot_chunk [OF ok, of ?D x x0] slot [OF that] slot [OF x0] by simp
    then show ?thesis using e1(3) km(5) [OF that] that e(3) by (simp only: kpath_add) (simp add: add.assoc)
  qed
  have "kchild_ok env d e m"
    using c min e(2) elen path unfolding kchild_ok_def skip depth by simp
  then have "kslot_rep env bs d (Some (krelink p e)) m" using depth skip by (intro krelink_rep [OF rep one(2)]) simp_all
  then show ?thesis using e(1) last_one_single [OF slots] by (simp add: unsplit_ext_def kwidth_def [symmetric])
qed

lemma kpointer_clean_tree:
  assumes ok: "kenv_ok env" and t: "ktree env bs (d + 1 + kskip env e) n m" and min: "min_data_depth (kv_conf env) \<le> d" and m: "m \<noteq> Map.empty"
    and e: "ext_packed e" "ext_length e = kskip env e * kwidth env" "\<forall>x \<in> dom m. kpath env (d + 1) (kskip env e) x = ext_bits e"
  shows "\<exists>p. kpointer_clean (kv_conf env) d n e = Inr p \<and> kslot_rep env bs d (Some p) m"
proof (cases "length (kn_pointers n) = 1")
  case True
  then obtain p where p: "kn_pointers n = [p]" by (cases "kn_pointers n") auto
  show ?thesis
  proof (cases "kbucket_of p")
    case (Some vs)
    then have pv: "p = KValues vs" by (cases p) auto
    have "list_all (\<lambda>p. kbucket_of p \<noteq> None) (kn_pointers n)" using p pv by simp
    note v = kall_buckets [OF ok t this]
    obtain i where "kn_slot n i = Some p" using kn_pointer_slot [OF ktreeD(2) [OF t], of p] p by auto
    then have "bucket_ok (kv_conf env) vs" using ktreeD(3) [OF t, of i] pv by (simp add: kslot_rep_bucket)
    then show ?thesis using p pv v(2) min by (simp add: kpointer_clean_def kslot_rep_bucket)
  next
    case None
    obtain e' where "unsplit_ext (kv_conf env) (kn_bitfield n) e (kext p) = Inr e'" "kslot_rep env bs d (Some (krelink p e')) m"
      using unsplit_rep [OF ok t min e p None] by blast
    then show ?thesis using p min None by (cases p) (simp_all add: kpointer_clean_def)
  qed
next
  case False
  let ?ps = "kn_pointers n" and ?D = "d + 1 + kskip env e" and ?w = "max_array_width (kv_conf env)"
  let ?vals = "concat (map (\<lambda>p. the (kbucket_of p)) ?ps)"
  have ne: "?ps \<noteq> []" using ktree_pointers(2) [OF ok t] m by simp
  have "\<not> (\<forall>x \<in> dom m. \<forall>y \<in> dom m. kslot env ?D x = kslot env ?D y)"
  proof
    assume same: "\<forall>x \<in> dom m. \<forall>y \<in> dom m. kslot env ?D x = kslot env ?D y"
    obtain x where "x \<in> dom m" using m by (auto simp: fun_eq_iff)
    then have "kslot env ?D ` dom m = {kslot env ?D x}" using same by blast
    then show False using ktree_pointers(3) [OF ok t] False by simp
  qed
  then have "kchild_ok env d e m" if "?w < card (dom m)" using that e min ktreeD(1) [OF t] unfolding kchild_ok_def by simp
  then have dirty: "kslot_rep env bs d (Some (KDirty n e)) m" if "?w < card (dom m)" using that t by (simp add: kslot_rep_dirty)
  show ?thesis
  proof (cases "list_all (\<lambda>p. kbucket_of p \<noteq> None) ?ps")
    case some: False
    then obtain p where p: "p \<in> set ?ps" "kbucket_of p = None" by (auto simp: list_all_iff)
    then have "?w < card (dom m)" using kchild_many [OF ok t] min by simp
    then show ?thesis using dirty some False ne min by (simp add: kpointer_clean_def Let_def)
  next
    case all: True
    note v = kall_buckets [OF ok t all]
    have len: "length ?vals = card (dom m)"
      using distinct_card [OF v(1)] dom_map_of_conv_image_fst [of ?vals] unfolding v(2) set_map length_map by simp
    have vne: "?vals \<noteq> []" using m v(2) by auto
    show ?thesis
    proof (cases "?w < card (dom m)")
      case True
      then show ?thesis using dirty False all ne min len by (simp add: kpointer_clean_def Let_def)
    next
      case few: False
      then have "kpointer_clean (kv_conf env) d n e = Inr (KValues (sort_key fst ?vals))"
        using False all ne min len ktree_pointers(1) [OF ok t] by (simp add: kpointer_clean_def Let_def)
      moreover have "bucket_ok (kv_conf env) (sort_key fst ?vals)" "map_of (sort_key fst ?vals) = m"
        using sorted_bucket [OF v(1) vne, of "kv_conf env"] few len v(2) by simp_all
      ultimately show ?thesis using min by (simp add: kslot_rep_bucket)
    qed
  qed
qed

subsection \<open>Removing\<close>

lemma krm_value_empty:
  assumes "key_next env h c = Inr (i, c1)" "\<not> bm_test_bit (kn_bitfield n) i"
  shows "krm_value env bs k h c d n = (Inr None, n)"
  using assms by (subst krm_value.simps) simp

lemma krm_value_partial:
  assumes "key_next env h c = Inr (i, c1)" "bm_test_bit (kn_bitfield n) i"
    and "index_for_bit_pos (kn_bitfield n) i = j" "j < length (kn_pointers n)" "kbucket_of (kn_pointers n ! j) = None"
    and "match_extension (kv_conf env) h c1 (kext (kn_pointers n ! j)) = Inr (PartialMatch mt, c2)"
  shows "krm_value env bs k h c d n = (Inr None, n)"
  using assms by (subst krm_value.simps) (cases "kn_pointers n ! j", auto)

lemma krm_value_full:
  assumes "key_next env h c = Inr (i, c1)" "bm_test_bit (kn_bitfield n) i"
    and "index_for_bit_pos (kn_bitfield n) i = j" "j < length (kn_pointers n)" "kchild env bs (d + 1) (kn_pointers n ! j) = Some n1"
    and "match_extension (kv_conf env) h c1 (kext (kn_pointers n ! j)) = Inr (FullMatch s, c2)"
    and "krm_value env bs k h c2 (d + 1 + s) n1 = (Inr r, n2)"
  shows "krm_value env bs k h c d n =
    (case r of None \<Rightarrow> (Inr None, kwith_child n j (krefill (kn_pointers n ! j) n2))
     | Some v \<Rightarrow> kcleaned env d n j i n2 (kext (kn_pointers n ! j)) v)"
  using assms by (subst krm_value.simps) (cases "kn_pointers n ! j", auto split: sum.splits option.splits)

lemma krm_value_bucket:
  assumes "key_next env h c = Inr (i, c1)" "bm_test_bit (kn_bitfield n) i"
    and "index_for_bit_pos (kn_bitfield n) i = j" "j < length (kn_pointers n)" "kn_pointers n ! j = KValues vals"
  shows "krm_value env bs k h c d n =
    (case position (\<lambda>p. k = fst p) vals of
       None \<Rightarrow> (Inr None, n)
     | Some l \<Rightarrow>
         if length vals = 1 then (Inr (Some (snd (vals ! 0))), krm_child n j i)
         else (Inr (Some (snd (vals ! l))), kwith_child n j (KValues (vec_remove l vals))))"
  using assms by (subst krm_value.simps) simp

text \<open>What the node becomes when the entries of a child shrink.\<close>

lemma kcleaned_tree:
  assumes ok: "kenv_ok env" and t: "ktree env bs d n m"
    and i: "i < 256" "bm_test_bit (kn_bitfield n) i" and j: "j = index_for_bit_pos (kn_bitfield n) i"
    and sub: "ktree env bs (d + 1 + kskip env e) n2 (kat env d m' i)" and rest: "\<And>l. l \<noteq> i \<Longrightarrow> kat env d m' l = kat env d m l"
    and e: "kchild_ok env d e (kat env d m i)" "dom (kat env d m' i) \<subseteq> dom (kat env d m i)"
    and size: "min_data_depth (kv_conf env) \<le> d \<Longrightarrow> kat env d m' i \<noteq> Map.empty"
  shows "\<exists>n'. kcleaned env d n j i n2 e v = (Inr (Some v), n') \<and> ktree env bs d n' m'"
proof -
  let ?m = "kat env d m' i" and ?conf = "kv_conf env"
  note ch = kwith_child_slot [OF ktreeD(2) [OF t] i, folded j]
  have replace: "ktree env bs d (kwith_child n j p) m'" if "kslot_rep env bs d (Some p) ?m" for p
    by (rule ktree_change [OF t ch(1,2) that rest])
  note km = kchild_match [OF ok e(1)]
  show ?thesis
  proof (cases "min_data_depth ?conf \<le> d")
    case True
    obtain p where p: "kpointer_clean ?conf d n2 e = Inr p" "kslot_rep env bs d (Some p) ?m"
      using kpointer_clean_tree [OF ok sub True size [OF True] km(1,2)] km(5) e(2) by blast
    then have "kcleaned env d n j i n2 e v = (Inr (Some v), kwith_child n j p)" by (simp add: kcleaned_def kn_clean_def)
    then show ?thesis using replace [OF p(2)] by blast
  next
    case False
    show ?thesis
    proof (cases "?m = Map.empty")
      case True
      then have "kn_pointers n2 = []" using ktree_pointers(2) [OF ok sub] by simp
      then have "kcleaned env d n j i n2 e v = (Inr (Some v), krm_child n j i)"
        using False by (simp add: kcleaned_def kn_clean_def kpointer_clean_def)
      moreover have "ktree env bs d (krm_child n j i) m'"
        using True by (intro ktree_change [OF t ch(5,6) _ rest]) (simp_all add: kslot_rep_def)
      ultimately show ?thesis by blast
    next
      case ne: False
      then have "kn_pointers n2 \<noteq> []" using ktree_pointers(2) [OF ok sub] by simp
      then have "kcleaned env d n j i n2 e v = (Inr (Some v), kwith_child n j (KDirty n2 e))"
        using False by (simp add: kcleaned_def kn_clean_def kpointer_clean_def Let_def)
      moreover have "kchild_ok env d e ?m" using e ne False unfolding kchild_ok_def by auto
      then have "kslot_rep env bs d (Some (KDirty n2 e)) ?m" using sub by (simp add: kslot_rep_dirty)
      ultimately show ?thesis using replace by blast
    qed
  qed
qed

lemma krm_bucket_tree:
  assumes ok: "kenv_ok env" and t: "ktree env bs d n m" and some: "bm_test_bit (kn_bitfield n) (kslot env d k)"
    and j: "j = index_for_bit_pos (kn_bitfield n) (kslot env d k)"
    and vs: "kn_pointers n ! j = KValues vs" "min_data_depth (kv_conf env) \<le> d" "bucket_ok (kv_conf env) vs"
      "kat env d m (kslot env d k) = map_of vs"
  shows "\<exists>n'. krm_value env bs k (kv_hash env k) (d * kwidth env) d n = (Inr (m k), n') \<and> ktree env bs d n' (m(k := None))"
proof -
  let ?i = "kslot env d k"
  note ch = kwith_child_slot [OF ktreeD(2) [OF t] kslot_bound [OF ok] some, folded j]
  note unf = krm_value_bucket [OF key_next_slot [OF ok ktreeD(1) [OF t]] some j [symmetric] ch(3) vs(1), of bs k d]
  have mk: "m k = map_of vs k" using vs(4) kat_key [of env d m k] by simp
  show ?thesis
  proof (cases "position (\<lambda>p. k = fst p) vs")
    case None
    then have "map_of vs k = None" by (auto simp: position_None map_of_eq_None_iff)
    then have "m(k := None) = m" "m k = None" using mk by (simp_all add: fun_upd_idem)
    then show ?thesis using None t by (simp add: unf)
  next
    case (Some l)
    note p = position_Some [OF Some]
    have mk: "m k = Some (snd (vs ! l))"
      using mk p map_of_eq_Some_iff [OF bucket_distinct [OF vs(3)], of k "snd (vs ! l)"] nth_mem [OF p(1)] by simp
    show ?thesis
    proof (cases "length vs = 1")
      case True
      then have l: "l = 0" using p(1) by simp
      have "vs = [vs ! 0]" using True by (cases vs) auto
      then have "kat env d (m(k := None)) ?i = Map.empty"
        using p(2) l map_of.simps(2) [of "vs ! 0" "[]"] vs(4) by (simp add: kat_upd)
      then have "ktree env bs d (krm_child n j ?i) (m(k := None))"
        by (intro ktree_change [OF t ch(5,6)]) (simp_all add: kslot_rep_def kat_upd)
      then show ?thesis unfolding mk using Some True l by (simp add: unf)
    next
      case False
      note b = bucket_remove [OF vs(3) Some False]
      have "ktree env bs d (kwith_child n j (KValues (vec_remove l vs))) (m(k := None))"
        using b vs(2) by (intro ktree_change [OF t ch(1,2)]) (simp_all add: kslot_rep_bucket kat_upd vs(4))
      then show ?thesis unfolding mk using Some False by (simp add: unf)
    qed
  qed
qed

lemma krm_value_tree:
  assumes ok: "kenv_ok env"
  shows "ktree env bs d n m \<Longrightarrow>
    \<exists>n'. krm_value env bs k (kv_hash env k) (d * kwidth env) d n = (Inr (m k), n') \<and> ktree env bs d n' (m(k := None))"
proof (induction "8 * kv_n env - d" arbitrary: d n m rule: less_induct)
  case less
  let ?i = "kslot env d k" and ?h = "kv_hash env k" and ?w = "kwidth env"
  note t = ktreeD [OF less.prems]
  have gone: "m(k := None) = m" if "m k = None" using that by (simp add: fun_upd_idem)
  show ?case
  proof (cases "bm_test_bit (kn_bitfield n) ?i")
    case False
    then have "kn_slot n ?i = None" by (rule kinsert_slot(3) [OF t(2) kslot_bound [OF ok]])
    then have "m k = None" using t(3) [of ?i] kat_key [of env d m k] by (simp add: kslot_rep_def)
    then show ?thesis using krm_value_empty [OF key_next_slot [OF ok t(1)] False] less.prems gone by simp
  next
    case True
    define j where "j = index_for_bit_pos (kn_bitfield n) ?i"
    note ch = kwith_child_slot [OF t(2) kslot_bound [OF ok] True, folded j_def]
    let ?p = "kn_pointers n ! j" and ?m = "kat env d m ?i"
    have rep: "kslot_rep env bs d (Some ?p) ?m" using t(3) [of ?i] ch(4) by simp
    from ok rep show ?thesis
    proof (cases rule: kslot_rep_cases)
      case (bucket vs)
      show ?thesis by (rule krm_bucket_tree [OF ok less.prems True j_def bucket])
    next
      case child
      let ?e = "kext ?p"
      let ?D = "d + 1 + kskip env ?e"
      note km = kchild_match [OF ok child(2)]
      note nx = key_next_inner [OF ok km(4), of k]
      show ?thesis
      proof (cases "kpath env (d + 1) (kskip env ?e) k = ext_bits ?e")
        case False
        then have "k \<notin> dom ?m" using km(5) [of k] by blast
        then have "m k = None" using kat_key [of env d m k] by (auto simp: domIff)
        moreover obtain s where "match_extension (kv_conf env) ?h ((d + 1) * ?w) ?e = Inr (PartialMatch (s * ?w), (d + 1 + s) * ?w)"
          using match_extension_partial [OF ok km(1,2,3) False] by blast
        ultimately show ?thesis using krm_value_partial [OF nx True j_def [symmetric] ch(3) child(1)] less.prems gone by simp
      next
        case full: True
        obtain n1 where n1: "kchild env bs (d + 1) ?p = Some n1" "ktree env bs ?D n1 ?m"
          using child(3) [OF kdepth_child [OF kdepth_refl child(2)]] by blast
        obtain n2 where n2: "krm_value env bs k ?h (?D * ?w) ?D n1 = (Inr (m k), n2)" "ktree env bs ?D n2 (?m(k := None))"
          using less.hyps [OF kchild_measure [OF ok child(2)] n1(2)] kat_key [of env d m k] by auto
        note unf = krm_value_full [OF nx True j_def [symmetric] ch(3) n1(1) match_extension_full [OF ok km(1,2,3) full] n2(1)]
        show ?thesis
        proof (cases "m k")
          case None
          then have "?m(k := None) = ?m" using kat_key [of env d m k] by (simp add: fun_upd_idem)
          then have "kslot_rep env bs d (Some (krefill ?p n2)) ?m" using n2(2) by (intro kslot_rep_refill [OF rep child(1)]) simp
          then have "ktree env bs d (kwith_child n j (krefill ?p n2)) m" by (intro ktree_change [OF less.prems ch(1,2)]) simp_all
          then show ?thesis using None unf gone by simp
        next
          case (Some v)
          have "?m(k := None) \<noteq> Map.empty" if min: "min_data_depth (kv_conf env) \<le> d"
          proof
            assume "?m(k := None) = Map.empty"
            then have "dom ?m \<subseteq> {k}" by (auto simp: fun_eq_iff dom_def split: if_splits)
            then have "card (dom ?m) \<le> 1" using card_mono [of "{k}" "dom ?m"] by simp
            then show False using child(2) min ok by (auto simp: kchild_ok_def kenv_ok_def)
          qed
          then have "\<exists>n'. kcleaned env d n j ?i n2 ?e v = (Inr (Some v), n') \<and> ktree env bs d n' (m(k := None))"
            using n2(2) child(2) by (intro kcleaned_tree [OF ok less.prems kslot_bound [OF ok] True j_def]) (auto simp: kat_upd)
          then show ?thesis using Some unf by simp
        qed
      qed
    qed
  qed
qed

end
