(* ===== verification/KamtStore.thy ===== *)
theory KamtStore
  imports KamtRemove
begin

text \<open>
  KAMTs in the store. A flush stores the canonical form of the map, loading its root gives the map back,
  and the root CID is determined by the map and determines it, whatever operations built the tree and
  whatever is cached.
\<close>

subsection \<open>Larger stores\<close>

lemma kstored_mono: "kstored env bs d cid m \<Longrightarrow> extends_store (kv_codec env) bs bs' \<Longrightarrow> kstored env bs' d cid m"
proof (induction rule: kstored.induct)
  case (kstored_node d cid b qs m)
  show ?case
    using kstored_node by (intro kstored.kstored_node [of _ _ _ _ b qs]) (auto simp: extends_store_def)
qed

lemma ktree_mono: "ktree env bs d n m \<Longrightarrow> extends_store (kv_codec env) bs bs' \<Longrightarrow> ktree env bs' d n m"
proof (induction rule: ktree.induct)
  case (ktree_node d n m)
  show ?case
    using ktree_node.hyps(3,4) ktree_node.IH ktree_node.prems kstored_mono [OF _ ktree_node.prems]
    by (intro ktree.ktree_node [OF ktree_node.hyps(1,2)]) blast+
qed

lemma kslot_rep_mono: "kslot_rep env bs d po m \<Longrightarrow> extends_store (kv_codec env) bs bs' \<Longrightarrow> kslot_rep env bs' d po m"
  using ktree_mono [of env bs] kstored_mono [of env bs] unfolding kslot_rep_split by blast

subsection \<open>Storing\<close>

fun ksettled :: "('k, 'v) KPointer \<Rightarrow> bool" where
  "ksettled (KDirty _ _) = False"
| "ksettled _ = True"

fun kpointer_se :: "('k, 'v) KPointer \<Rightarrow> ('k, 'v) KPointerSer" where
  "kpointer_se (KValues vs) = KSerValues vs"
| "kpointer_se (KLink l e _) = KSerLink l (ext_length e) (ext_path e)"
| "kpointer_se (KDirty _ _) = KSerValues []"

lemma ksettled_ser: "list_all ksettled ps \<Longrightarrow> kpointers_ser ps = Inr (map kpointer_se ps)"
proof (induction ps)
  case (Cons p ps)
  then show ?case by (cases p) auto
qed simp

lemma ext_surjective: "\<lparr>ext_length = ext_length e, ext_path = ext_path e\<rparr> = e"
  by (cases e) simp

lemma kput_settled:
  assumes "codec_ok (kv_codec env)" "ktree env bs d n m" "list_all ksettled (kn_pointers n)"
  obtains cid bs' where "kn_put (kv_codec env) n bs = Inr (cid, bs')" "extends_store (kv_codec env) bs bs'" "kstored env bs' d cid m"
proof -
  let ?x = "(kn_bitfield n, map kpointer_se (kn_pointers n))"
  obtain bs' where put: "cbor_put (kv_codec env) bs ?x = Inr (obj_cid (kv_codec env) ?x, bs')"
      "cbor_get (kv_codec env) bs' (obj_cid (kv_codec env) ?x) = Inr (Some ?x)" "extends_store (kv_codec env) bs bs'"
    by (rule cbor_put_get [OF assms(1)])
  note t = ktreeD [OF ktree_mono [OF assms(2) put(3)]]
  have "kser_rep env bs' d (slot_get (kn_bitfield n) (map kpointer_se (kn_pointers n)) i) (kat env d m i)" for i
  proof (cases "kn_slot n i")
    case None
    then show ?thesis using t(3) [of i] by (simp add: kn_slot_def slot_get_map kslot_rep_def kser_rep_def)
  next
    case (Some p)
    then have "p \<in> set (kn_pointers n)" using slot_set [of "kn_bitfield n" "kn_pointers n"] t(2)
      by (auto simp: kn_ok_def kn_slot_def)
    then have "ksettled p" using assms(3) by (simp add: list_all_iff)
    then show ?thesis using t(3) [of i] Some 
      by (cases p) (simp_all add: kn_slot_def slot_get_map kslot_rep_def kser_rep_def ext_surjective)
  qed
  then have "kstored env bs' d (obj_cid (kv_codec env) ?x) m"
    unfolding kstored_iff using put(2) t(1,2) by (intro exI [of _ "fst ?x"] exI [of _ "snd ?x"]) (simp add: kn_ok_def slots_ok_def)
  moreover have "kn_put (kv_codec env) n bs = Inr (obj_cid (kv_codec env) ?x, bs')"
    using put(1) ksettled_ser [OF assms(3)] by (simp add: kn_put_def)
  ultimately show ?thesis using that put(3) by blast
qed

text \<open>The tree of a node by the list of its pointers.\<close>

lemma ktree_list_iff:
  "ktree env bs d (KNode b ps) m \<longleftrightarrow> within env d \<and> kn_ok (KNode b ps) \<and>
    list_all2 (\<lambda>p. kslot_rep env bs d (Some p)) ps (map (kat env d m) (sorted_list_of_set (slots b))) \<and>
    (\<forall>i. i \<notin> slots b \<longrightarrow> kat env d m i = Map.empty)"
proof (cases "kn_ok (KNode b ps)")
  case True
  let ?xs = "sorted_list_of_set (slots b)" and ?n = "KNode b ps"
  have ps: "ps = map (\<lambda>i. the (kn_slot ?n i)) ?xs" using kn_slot_list [OF True] by simp
  have "list_all2 (\<lambda>p. kslot_rep env bs d (Some p)) ps (map (kat env d m) ?xs) \<longleftrightarrow>
      (\<forall>i \<in> slots b. kslot_rep env bs d (Some (the (kn_slot ?n i))) (kat env d m i))"
    by (subst ps) (simp add: list.rel_map list.rel_refl_strong list_all2_same finite_slots)
  also have "\<dots> \<longleftrightarrow> (\<forall>i \<in> slots b. kslot_rep env bs d (kn_slot ?n i) (kat env d m i))"
    using kn_slot_dom [OF True] by (intro ball_cong) auto
  finally have "list_all2 (\<lambda>p. kslot_rep env bs d (Some p)) ps (map (kat env d m) ?xs) \<longleftrightarrow>
      (\<forall>i \<in> slots b. kslot_rep env bs d (kn_slot ?n i) (kat env d m i))" .
  moreover have "kslot_rep env bs d (kn_slot ?n i) (kat env d m i) \<longleftrightarrow> kat env d m i = Map.empty" if "i \<notin> slots b" for i
    using that kn_slot_dom [OF True, of i] by (simp add: kslot_rep_def)
  ultimately show ?thesis using True unfolding ktree_iff by blast
qed (simp add: ktree_iff)

lemma kflush_tree:
  fixes env :: "('k::linorder, 'v) kamt_env"
  assumes ok: "codec_ok (kv_codec env)"
  shows "ktree env bs d n m \<Longrightarrow> \<exists>n' bs'. kn_flush (kv_codec env) n bs = (Inr (), n', bs') \<and>
      extends_store (kv_codec env) bs bs' \<and> ktree env bs' d n' m \<and> list_all ksettled (kn_pointers n')"
    and "list_all2 (\<lambda>p. kslot_rep env bs d (Some p)) ps ms \<Longrightarrow> \<exists>ps' bs'. kpointers_flush (kv_codec env) ps bs = (Inr (), ps', bs') \<and>
      extends_store (kv_codec env) bs bs' \<and> list_all2 (\<lambda>p. kslot_rep env bs' d (Some p)) ps' ms \<and> list_all ksettled ps'"
    and "kslot_rep env bs d (Some p) m \<Longrightarrow> \<exists>p' bs'. kpointer_flush (kv_codec env) p bs = (Inr (), p', bs') \<and>
      extends_store (kv_codec env) bs bs' \<and> kslot_rep env bs' d (Some p') m \<and> ksettled p'"
proof (induction "kv_codec env" n bs and "kv_codec env" ps bs and "kv_codec env" p bs arbitrary: d m and d ms and d m
    rule: kn_flush_kpointers_flush_kpointer_flush.induct)
  case (1 b ps bs)
  note t = "1.prems" [unfolded ktree_list_iff]
  obtain ps' bs' where f: "kpointers_flush (kv_codec env) ps bs = (Inr (), ps', bs')" "extends_store (kv_codec env) bs bs'"
      "list_all2 (\<lambda>p. kslot_rep env bs' d (Some p)) ps' (map (kat env d m) (sorted_list_of_set (slots b)))" "list_all ksettled ps'"
    using "1.hyps" [of d "map (kat env d m) (sorted_list_of_set (slots b))"] t by auto
  have "length ps' = length ps" using f(3) t by (auto dest!: list_all2_lengthD)
  then have "ktree env bs' d (KNode b ps') m" using t f(3) by (simp add: ktree_list_iff kn_ok_def slots_ok_def)
  then show ?case using f by simp
next
  case (2 bs)
  then show ?case by (simp add: extends_store_refl)
next
  case (3 p ps bs)
  obtain m0 ms0 where ms: "ms = m0 # ms0" "kslot_rep env bs d (Some p) m0" "list_all2 (\<lambda>p. kslot_rep env bs d (Some p)) ps ms0"
    using "3.prems" by (cases ms) auto
  obtain p' bs1 where p': "kpointer_flush (kv_codec env) p bs = (Inr (), p', bs1)" "extends_store (kv_codec env) bs bs1"
      "kslot_rep env bs1 d (Some p') m0" "ksettled p'"
    using "3.hyps"(1) [OF ms(2)] by blast
  have "list_all2 (\<lambda>p. kslot_rep env bs1 d (Some p)) ps ms0"
    using ms(3) by (rule list_all2_mono) (rule kslot_rep_mono [OF _ p'(2)])
  then obtain ps' bs2 where ps': "kpointers_flush (kv_codec env) ps bs1 = (Inr (), ps', bs2)" "extends_store (kv_codec env) bs1 bs2"
      "list_all2 (\<lambda>p. kslot_rep env bs2 d (Some p)) ps' ms0" "list_all ksettled ps'"
    using "3.hyps"(2) [OF p'(1) [symmetric] refl refl, of d ms0] by blast
  then show ?case using p' ms(1) kslot_rep_mono [OF p'(3) ps'(2)] extends_store_trans [OF p'(2) ps'(2)] by simp
next
  case (4 n e bs)
  let ?D = "d + 1 + kskip env e"
  have t: "kchild_ok env d e m" "ktree env bs ?D n m" using "4.prems" by (simp_all add: kslot_rep_dirty)
  obtain n' bs1 where f: "kn_flush (kv_codec env) n bs = (Inr (), n', bs1)" "extends_store (kv_codec env) bs bs1"
      "ktree env bs1 ?D n' m" "list_all ksettled (kn_pointers n')"
    using "4.hyps" [OF t(2)] by blast
  obtain cid bs2 where put: "kn_put (kv_codec env) n' bs1 = Inr (cid, bs2)" "extends_store (kv_codec env) bs1 bs2"
      "kstored env bs2 ?D cid m"
    by (rule kput_settled [OF ok f(3,4)])
  have "kslot_rep env bs2 d (Some (KLink cid e (Some n'))) m"
    using t(1) put(3) ktree_mono [OF f(3) put(2)] by (simp add: kslot_rep_def)
  then show ?case using f(1) put(1) extends_store_trans [OF f(2) put(2)] by simp
qed (simp_all add: extends_store_refl)

subsection \<open>The root is determined by the map\<close>

text \<open>The extension of a child is determined by the entries below it.\<close>

lemma kchild_ext_unique:
  assumes ok: "kenv_ok env" and c: "kchild_ok env d e1 m" "kchild_ok env d e2 m"
  shows "e1 = e2"
proof -
  have le: "\<not> kskip env a < kskip env b" if a: "kchild_ok env d a m" and b: "kchild_ok env d b m" for a b
  proof
    assume lt: "kskip env a < kskip env b"
    then have min: "min_data_depth (kv_conf env) \<le> d" using b by (auto simp: kchild_ok_def split: if_splits)
    note km = kchild_match [OF ok b]
    have same: "kpath env (d + 1 + kskip env a) 1 x = take (kwidth env) (drop (kskip env a * kwidth env) (ext_bits b))" if "x \<in> dom m" for x
      using kpath_parts(2) [OF ok km(3) lt, of x] km(5) [OF that] by simp
    obtain x y where "x \<in> dom m" "y \<in> dom m" "kslot env (d + 1 + kskip env a) x \<noteq> kslot env (d + 1 + kskip env a) y"
      using a min by (auto simp: kchild_ok_def)
    then show False using same kslot_chunk [OF ok] by metis
  qed
  then have skip: "kskip env e1 = kskip env e2" using c by (meson linorder_neqE_nat)
  obtain x where x: "x \<in> dom m" using kchild_nonempty [OF c(1)] by (auto simp: fun_eq_iff)
  then have "ext_bits e1 = ext_bits e2" using kchild_match(5) [OF ok c(1) x] kchild_match(5) [OF ok c(2) x] skip by simp
  then show ?thesis using kchild_match(1) [OF ok c(1)] kchild_match(1) [OF ok c(2)] by (rule ext_packed_inject [rotated 2])
qed

lemma kstored_unique:
  assumes "kenv_ok env"
  shows "kstored env bs1 d cid1 m \<Longrightarrow> kstored env bs2 d cid2 m \<Longrightarrow> cid1 = cid2"
proof (induction "8 * kv_n env - d" arbitrary: d cid1 cid2 m rule: less_induct)
  case less
  obtain b1 qs1 where s1: "cid1 = obj_cid (kv_codec env) (b1, qs1)" "slots_ok b1 qs1"
      "\<forall>i. kser_rep env bs1 d (slot_get b1 qs1 i) (kat env d m i)"
    using less.prems(1) unfolding kstored_iff by blast
  obtain b2 qs2 where s2: "cid2 = obj_cid (kv_codec env) (b2, qs2)" "slots_ok b2 qs2"
      "\<forall>i. kser_rep env bs2 d (slot_get b2 qs2 i) (kat env d m i)"
    using less.prems(2) unfolding kstored_iff by blast
  have b: "b1 = b2"
    using kser_slots_keys [OF s1(2,3)] kser_slots_keys [OF s2(2,3)] by (intro slots_inject) simp
  have "slot_get b1 qs1 i = slot_get b1 qs2 i" for i
  proof (cases "i \<in> slots b1")
    case False
    then show ?thesis by (simp add: slot_get_None)
  next
    case True
    then obtain q1 q2 where q: "slot_get b1 qs1 i = Some q1" "slot_get b1 qs2 i = Some q2"
      using slot_get_Some [OF s1(2)] slot_get_Some [OF s2(2)] b by blast
    then have rep: "kser_rep env bs1 d (Some q1) (kat env d m i)" "kser_rep env bs2 d (Some q2) (kat env d m i)"
      using spec [OF s1(3), of i] spec [OF s2(3), of i] b by simp_all
    have mixed: False if "min_data_depth (kv_conf env) \<le> d" "bucket_ok (kv_conf env) vs" "kat env d m i = map_of vs"
        "kchild_ok env d e (kat env d m i)" for vs e
      using that bucket_small [OF that(2)] by (simp add: kchild_ok_def)
    have "q1 = q2"
    proof (cases q1; cases q2)
      fix vs ws
      assume "q1 = KSerValues vs" "q2 = KSerValues ws"
      then show ?thesis using rep bucket_unique [of "kv_conf env" vs ws] by (simp add: kser_rep_def)
    next
      fix l1 len1 p1 l2 len2 p2
      assume l: "q1 = KSerLink l1 len1 p1" "q2 = KSerLink l2 len2 p2"
      let ?e1 = "\<lparr>ext_length = len1, ext_path = p1\<rparr>" and ?e2 = "\<lparr>ext_length = len2, ext_path = p2\<rparr>"
      have c: "kchild_ok env d ?e1 (kat env d m i)" "kchild_ok env d ?e2 (kat env d m i)" using rep l by (simp_all add: kser_rep_def)
      have e: "?e1 = ?e2" by (rule kchild_ext_unique [OF assms c])
      have "l1 = l2"
        using rep l e by (intro less.hyps [OF kchild_measure [OF assms c(1)]]) (auto simp: kser_rep_def)
      then show ?thesis using l e by simp
    qed (use rep mixed in \<open>auto simp: kser_rep_def\<close>)
    then show ?thesis using q by simp
  qed
  then have "qs1 = qs2" using slot_get_ext [OF s1(2)] s2(2) b by blast
  then show ?case using s1(1) s2(1) b by simp
qed

lemma kstored_inject:
  assumes "kenv_ok env"
  shows "kstored env bs1 d cid m1 \<Longrightarrow> kstored env bs2 d cid m2 \<Longrightarrow> m1 = m2"
proof (induction "8 * kv_n env - d" arbitrary: d cid m1 m2 rule: less_induct)
  case less
  have codec: "codec_ok (kv_codec env)" using assms by (simp add: kenv_ok_def)
  obtain b qs where s1: "cid = obj_cid (kv_codec env) (b, qs)" "slots_ok b qs"
      "\<forall>i. kser_rep env bs1 d (slot_get b qs i) (kat env d m1 i)"
    using less.prems(1) unfolding kstored_iff by blast
  obtain b2 qs2 where s2: "cid = obj_cid (kv_codec env) (b2, qs2)"
      "\<forall>i. kser_rep env bs2 d (slot_get b2 qs2 i) (kat env d m2 i)"
    using less.prems(2) unfolding kstored_iff by blast
  have "(b, qs) = (b2, qs2)" by (rule obj_cid_inject [OF codec]) (use s1(1) s2(1) in simp)
  then have s2: "\<forall>i. kser_rep env bs2 d (slot_get b qs i) (kat env d m2 i)" using s2(2) by simp
  have "kat env d m1 i = kat env d m2 i" for i
  proof (cases "slot_get b qs i")
    case None
    then show ?thesis using spec [OF s1(3), of i] spec [OF s2, of i] by (simp add: kser_rep_def)
  next
    case (Some q)
    then have rep: "kser_rep env bs1 d (Some q) (kat env d m1 i)" "kser_rep env bs2 d (Some q) (kat env d m2 i)"
      using spec [OF s1(3), of i] spec [OF s2, of i] by simp_all
    show ?thesis
    proof (cases q)
      case (KSerLink l len path)
      then have c: "kchild_ok env d \<lparr>ext_length = len, ext_path = path\<rparr> (kat env d m1 i)" using rep by (simp add: kser_rep_def)
      show ?thesis using rep KSerLink by (intro less.hyps [OF kchild_measure [OF assms c], of l]) (auto simp: kser_rep_def)
    qed (use rep in \<open>simp add: kser_rep_def\<close>)
  qed
  then show ?case using kat_key by (metis ext)
qed

subsection \<open>The map as a whole\<close>

definition kamt_rep :: "('k::linorder, 'v) kamt_env \<Rightarrow> ('k, 'v) Kamt \<Rightarrow> ('k \<Rightarrow> 'v option) \<Rightarrow> bool" where
  "kamt_rep env t m \<longleftrightarrow> ktree env (kamt_blocks t) 0 (kamt_root t) m \<and>
    (\<forall>cid. kamt_flushed_cid t = Some cid \<longrightarrow> kstored env (kamt_blocks t) 0 cid m)"

lemma within_0: "kenv_ok env \<Longrightarrow> within env 0"
  by (auto simp: kenv_ok_def within_def intro: order_le_less_trans [OF le0])

lemma kamt_new_rep: "kenv_ok env \<Longrightarrow> kamt_rep env (kamt_new bs) Map.empty"
  using ktree_empty [OF within_0, of env bs] by (simp add: kamt_rep_def kamt_new_def)

lemma kamt_get_rep:
  assumes "kenv_ok env" "kamt_rep env t m"
  shows "\<exists>t'. kamt_get env k t = (Inr (m k), t') \<and> kamt_rep env t' m"
proof -
  obtain n where "kget_value env (kamt_blocks t) k (kv_hash env k) 0 0 (kamt_root t) = (Inr (m k), n)" "ktree env (kamt_blocks t) 0 n m"
    using kget_value_tree [OF assms(1) _ kdepth_refl, of "kamt_blocks t" 0 "kamt_root t" m k] assms(2) by (auto simp: kamt_rep_def)
  then show ?thesis using assms(2) by (auto simp: kamt_rep_def kamt_get_def)
qed

lemma kamt_delete_rep:
  assumes "kenv_ok env" "kamt_rep env t m"
  shows "\<exists>t'. kamt_delete env k t = (Inr (m k), t') \<and> kamt_rep env t' (m(k := None))"
proof -
  obtain n where "krm_value env (kamt_blocks t) k (kv_hash env k) 0 0 (kamt_root t) = (Inr (m k), n)"
      "ktree env (kamt_blocks t) 0 n (m(k := None))"
    using krm_value_tree [OF assms(1), of "kamt_blocks t" 0 "kamt_root t" m k] assms(2) by (auto simp: kamt_rep_def)
  moreover have "m(k := None) = m" if "m k = None" using that by (simp add: fun_upd_idem)
  ultimately show ?thesis using assms(2) by (auto simp: kamt_delete_def kamt_rep_def)
qed

lemma kamt_modify_rep:
  assumes "kenv_ok env" "kamt_rep env t m"
  shows "\<exists>t'. kamt_modify env ow k v t = (Inr (put_old ow k m, put_map ow k v m \<noteq> m), t') \<and> kamt_rep env t' (put_map ow k v m)"
proof -
  have "kmodified env (kamt_blocks t) 0 ow k v m (kmodify_value env (kamt_blocks t) ow k v (kv_hash env k) 0 0 (kamt_root t))"
    using kmodify_value_tree [OF assms(1), of "kamt_blocks t" 0 "kamt_root t" m k ow v] assms(2) by (simp add: kamt_rep_def kagree_0)
  then obtain n where n: "kmodify_value env (kamt_blocks t) ow k v (kv_hash env k) 0 0 (kamt_root t) = (Inr (put_old ow k m, put_map ow k v m \<noteq> m), n)"
      "ktree env (kamt_blocks t) 0 n (put_map ow k v m)"
    by (cases "kmodify_value env (kamt_blocks t) ow k v (kv_hash env k) 0 0 (kamt_root t)") (simp add: kmodified_def)
  then show ?thesis using assms(2) by (auto simp: kamt_modify_def kamt_rep_def)
qed

lemma kamt_flush_rep:
  assumes "kenv_ok env" "kamt_rep env t m"
  obtains cid t' where "kamt_flush env t = (Inr cid, t')" "kamt_rep env t' m" "kstored env (kamt_blocks t') 0 cid m"
    "extends_store (kv_codec env) (kamt_blocks t) (kamt_blocks t')"
proof (cases "kamt_flushed_cid t")
  case (Some cid)
  then show ?thesis using assms(2) by (intro that [of cid t]) (auto simp: kamt_flush_def kamt_rep_def extends_store_refl)
next
  case None
  have codec: "codec_ok (kv_codec env)" using assms(1) by (simp add: kenv_ok_def)
  obtain n bs where f: "kn_flush (kv_codec env) (kamt_root t) (kamt_blocks t) = (Inr (), n, bs)"
      "extends_store (kv_codec env) (kamt_blocks t) bs" "ktree env bs 0 n m" "list_all ksettled (kn_pointers n)"
    using kflush_tree(1) [OF codec] assms(2) unfolding kamt_rep_def by blast
  obtain cid bs' where p: "kn_put (kv_codec env) n bs = Inr (cid, bs')" "extends_store (kv_codec env) bs bs'" "kstored env bs' 0 cid m"
    by (rule kput_settled [OF codec f(3,4)])
  have fl: "kamt_flush env t = (Inr cid, t\<lparr>kamt_root := n, kamt_blocks := bs', kamt_flushed_cid := Some cid\<rparr>)"
    using None f(1) p(1) by (simp add: kamt_flush_def)
  show ?thesis using p(3) ktree_mono [OF f(3) p(2)] extends_store_trans [OF f(2) p(2)]
    by (intro that [OF fl]) (simp_all add: kamt_rep_def)
qed

lemma kamt_load_rep:
  assumes "kenv_ok env" "kstored env bs 0 cid m"
  shows "\<exists>n. kn_load env bs cid 0 = Inr n \<and> ktree env bs 0 n m"
    and "\<exists>t. kamt_load env cid bs = Inr t \<and> kamt_rep env t m \<and> kamt_blocks t = bs"
proof -
  show n: "\<exists>n. kn_load env bs cid 0 = Inr n \<and> ktree env bs 0 n m"
    using kstored_load [OF assms] kdepth_refl [of "kv_conf env" 0] by blast
  then show "\<exists>t. kamt_load env cid bs = Inr t \<and> kamt_rep env t m \<and> kamt_blocks t = bs"
    using assms(2) by (auto simp: kamt_load_def kamt_rep_def)
qed

lemma kamt_empty_rep:
  assumes "kenv_ok env" "kamt_rep env t m"
  shows "kamt_is_empty t \<longleftrightarrow> m = Map.empty" "kamt_rep env (kamt_clear t) Map.empty"
proof -
  show e: "kamt_is_empty t \<longleftrightarrow> m = Map.empty"
    using ktree_pointers(2) [OF assms(1)] assms(2) unfolding kamt_is_empty_def kamt_rep_def by blast
  show "kamt_rep env (kamt_clear t) Map.empty"
    using e assms(2) within_0 [OF assms(1)] by (auto simp: kamt_clear_def kamt_rep_def ktree_empty)
qed

end
