(* ===== verification/KamtIter.thy ===== *)
theory KamtIter
  imports KamtStore HamtIter
begin

text \<open>
  Iteration over a KAMT: \<open>ipld/kamt/src/iter.rs\<close> and \<open>for_each\<close> of \<open>kamt.rs\<close>. An iterator is a stack of the
  pointers still to be visited, one list per level that has a node, and the rest of the bucket it is in.
  As for the HAMT, the loop of \<open>next\<close> is a partial function that is shown to end on every tree, and the
  caches it fills are not kept. Nodes are loaded with the height of the stack as their depth.

  The entries come in the order of the bits of their keys. This is the order of the keys themselves when
  the conversion of keys into bytes keeps their order.
\<close>

record ('k, 'v) KIter =
  ki_stack :: "('k, 'v) KPointer list list"
  ki_current :: "('k \<times> 'v) list"

definition kiter_new :: "('k, 'v) KNode \<Rightarrow> ('k, 'v) KIter" where
  "kiter_new root = \<lparr>ki_stack = [kn_pointers root], ki_current = []\<rparr>"

function kiter_start ::
  "('k::linorder, 'v) kamt_env \<Rightarrow> Blocks \<Rightarrow> 'k \<Rightarrow> bytes \<Rightarrow> nat \<Rightarrow> ('k, 'v) KNode \<Rightarrow> ('k, 'v) KPointer list list \<Rightarrow>
    HamtError + ('k, 'v) KIter" where
  "kiter_start env bs key h consumed n stack =
    (case key_next env h consumed of
       Inl e \<Rightarrow> Inl e
     | Inr (idx, c1) \<Rightarrow>
         let i = index_for_bit_pos (kn_bitfield n) idx
         in if i > length (kn_pointers n) then Inl Panic
            else case drop i (kn_pointers n) of
              [] \<Rightarrow> kiter_start env bs key h c1 n ([] # stack)
            | p # ps \<Rightarrow>
                (case p of
                   KLink c ext cache \<Rightarrow>
                     (case kcached env bs c cache (length (ps # stack)) of
                        Inl e \<Rightarrow> Inl e
                      | Inr node \<Rightarrow>
                          (case match_extension (kv_conf env) h c1 ext of
                             Inl e \<Rightarrow> Inl e
                           | Inr (PartialMatch _, _) \<Rightarrow> Inl StartKeyNotFound
                           | Inr (FullMatch _, c2) \<Rightarrow> kiter_start env bs key h c2 node (ps # stack)))
                 | KDirty node ext \<Rightarrow>
                     (case match_extension (kv_conf env) h c1 ext of
                        Inl e \<Rightarrow> Inl e
                      | Inr (PartialMatch _, _) \<Rightarrow> Inl StartKeyNotFound
                      | Inr (FullMatch _, c2) \<Rightarrow> kiter_start env bs key h c2 node (ps # stack))
                 | KValues vals \<Rightarrow>
                     (case position (\<lambda>kv. fst kv = key) vals of
                        Some offset \<Rightarrow> Inr \<lparr>ki_stack = ps # stack, ki_current = drop offset vals\<rparr>
                      | None \<Rightarrow> Inl StartKeyNotFound)))"
  by pat_completeness auto
termination
  by (relation "measure (\<lambda>(env, bs, key, h, consumed, n, stack). 8 * kv_n env - consumed)")
    (auto dest!: key_next_less match_extension_le)

declare kiter_start.simps [simp del]

definition kiter_new_from :: "('k::linorder, 'v) kamt_env \<Rightarrow> Blocks \<Rightarrow> ('k, 'v) KNode \<Rightarrow> 'k \<Rightarrow> HamtError + ('k, 'v) KIter" where
  "kiter_new_from env bs root key = kiter_start env bs key (kv_hash env key) 0 root []"

partial_function (option) kiter_loop ::
  "('k::linorder, 'v) kamt_env \<Rightarrow> Blocks \<Rightarrow> ('k, 'v) KPointer list list \<Rightarrow>
    ((HamtError + 'k \<times> 'v) option \<times> ('k, 'v) KIter) option" where
  "kiter_loop env bs stack =
    (case stack of
       [] \<Rightarrow> Some (None, \<lparr>ki_stack = [], ki_current = []\<rparr>)
     | level # rest \<Rightarrow>
         (case level of
            [] \<Rightarrow> kiter_loop env bs rest
          | p # ps \<Rightarrow>
              (case p of
                 KLink c ext cache \<Rightarrow>
                   (case kcached env bs c cache (length stack) of
                      Inl e \<Rightarrow> Some (Some (Inl e), \<lparr>ki_stack = ps # rest, ki_current = []\<rparr>)
                    | Inr node \<Rightarrow> kiter_loop env bs (kn_pointers node # ps # rest))
               | KDirty node ext \<Rightarrow> kiter_loop env bs (kn_pointers node # ps # rest)
               | KValues kvs \<Rightarrow>
                   (case kvs of
                      [] \<Rightarrow> kiter_loop env bs (ps # rest)
                    | kv # kvs' \<Rightarrow> Some (Some (Inr kv), \<lparr>ki_stack = ps # rest, ki_current = kvs'\<rparr>)))))"

definition kiter_next :: "('k::linorder, 'v) kamt_env \<Rightarrow> Blocks \<Rightarrow> ('k, 'v) KIter \<Rightarrow>
    ((HamtError + 'k \<times> 'v) option \<times> ('k, 'v) KIter) option" where
  "kiter_next env bs it =
    (case ki_current it of
       kv # kvs \<Rightarrow> Some (Some (Inr kv), it\<lparr>ki_current := kvs\<rparr>)
     | [] \<Rightarrow> kiter_loop env bs (ki_stack it))"

text \<open>\<open>for_each\<close> over an iterator.\<close>

partial_function (option) kiter_visit ::
  "('k::linorder, 'v) kamt_env \<Rightarrow> Blocks \<Rightarrow> ('k, 'v, 's) visitor \<Rightarrow> ('k, 'v) KIter \<Rightarrow> 's \<Rightarrow> ((HamtError + unit) \<times> 's) option" where
  "kiter_visit env bs f it s =
    Option.bind (kiter_next env bs it) (\<lambda>(item, it').
    case item of
      None \<Rightarrow> Some (Inr (), s)
    | Some (Inl e) \<Rightarrow> Some (Inl e, s)
    | Some (Inr kv) \<Rightarrow>
        (case f (fst kv) (snd kv) s of
           (Inl e, s') \<Rightarrow> Some (Inl (Dynamic e), s')
         | (Inr _, s') \<Rightarrow> kiter_visit env bs f it' s'))"

definition kamt_for_each :: "('k::linorder, 'v) kamt_env \<Rightarrow> ('k, 'v, 's) visitor \<Rightarrow> ('k, 'v) Kamt \<Rightarrow> 's \<Rightarrow> ((HamtError + unit) \<times> 's) option" where
  "kamt_for_each env f t s = kiter_visit env (kamt_blocks t) f (kiter_new (kamt_root t)) s"

definition kamt_iter_from :: "('k::linorder, 'v) kamt_env \<Rightarrow> 'k \<Rightarrow> ('k, 'v) Kamt \<Rightarrow> HamtError + ('k, 'v) KIter" where
  "kamt_iter_from env key t = kiter_new_from env (kamt_blocks t) (kamt_root t) key"

subsection \<open>What an iterator yields\<close>

inductive kyields :: "('k::linorder, 'v) kamt_env \<Rightarrow> Blocks \<Rightarrow> ('k, 'v) KIter \<Rightarrow> ('k \<times> 'v) list \<Rightarrow> bool" for env bs where
  kyields_done: "kiter_next env bs it = Some (None, it') \<Longrightarrow> kyields env bs it []"
| kyields_item: "kiter_next env bs it = Some (Some (Inr kv), it') \<Longrightarrow> kyields env bs it' kvs \<Longrightarrow> kyields env bs it (kv # kvs)"

lemma kyields_cong: "kiter_next env bs it = kiter_next env bs it' \<Longrightarrow> kyields env bs it kvs \<Longrightarrow> kyields env bs it' kvs"
proof -
  assume eq: "kiter_next env bs it = kiter_next env bs it'" and "kyields env bs it kvs"
  from this(2) show ?thesis by (cases rule: kyields.cases) (metis eq kyields_done, metis eq kyields_item)
qed

lemma kyields_current:
  "kyields env bs \<lparr>ki_stack = st, ki_current = []\<rparr> kvs \<Longrightarrow> kyields env bs \<lparr>ki_stack = st, ki_current = vs\<rparr> (vs @ kvs)"
  by (induction vs) (auto intro: kyields_item simp: kiter_next_def)

lemma kyields_empty: "kyields env bs \<lparr>ki_stack = [], ki_current = []\<rparr> []"
  by (rule kyields_done) (simp add: kiter_next_def kiter_loop.simps)

lemma kyields_pop: "kyields env bs \<lparr>ki_stack = rest, ki_current = []\<rparr> kvs \<Longrightarrow> kyields env bs \<lparr>ki_stack = [] # rest, ki_current = []\<rparr> kvs"
  by (erule kyields_cong [rotated]) (simp add: kiter_next_def kiter_loop.simps [of env bs "[] # rest"])

lemma kyields_bucket:
  assumes "kyields env bs \<lparr>ki_stack = ps # rest, ki_current = []\<rparr> kvs"
  shows "kyields env bs \<lparr>ki_stack = (KValues vs # ps) # rest, ki_current = []\<rparr> (vs @ kvs)"
proof (cases vs)
  case Nil
  have "kiter_next env bs \<lparr>ki_stack = ps # rest, ki_current = []\<rparr> = kiter_next env bs \<lparr>ki_stack = (KValues [] # ps) # rest, ki_current = []\<rparr>"
    by (simp add: kiter_next_def kiter_loop.simps [of env bs "(KValues [] # ps) # rest"])
  from kyields_cong [OF this assms] show ?thesis using Nil by simp
next
  case (Cons kv vs')
  have "kiter_next env bs \<lparr>ki_stack = (KValues vs # ps) # rest, ki_current = []\<rparr> = Some (Some (Inr kv), \<lparr>ki_stack = ps # rest, ki_current = vs'\<rparr>)"
    unfolding Cons by (simp add: kiter_next_def kiter_loop.simps [of env bs "(KValues (kv # vs') # ps) # rest"])
  then show ?thesis using Cons kyields_item kyields_current [OF assms, of vs'] by fastforce
qed

lemma kyields_child:
  assumes "kchild env bs (Suc (length rest)) p = Some n" "kyields env bs \<lparr>ki_stack = kn_pointers n # ps # rest, ki_current = []\<rparr> kvs"
  shows "kyields env bs \<lparr>ki_stack = (p # ps) # rest, ki_current = []\<rparr> kvs"
  using assms(2)
proof (rule kyields_cong [rotated])
  show "kiter_next env bs \<lparr>ki_stack = kn_pointers n # ps # rest, ki_current = []\<rparr> = kiter_next env bs \<lparr>ki_stack = (p # ps) # rest, ki_current = []\<rparr>"
    unfolding kiter_next_def using assms(1)
    by (cases p) (simp_all, (subst (2) kiter_loop.simps, auto split: sum.splits)+)
qed

text \<open>Starting at a key, from the pointer of its slot.\<close>

definition kpointer_start :: "('k::linorder, 'v) kamt_env \<Rightarrow> Blocks \<Rightarrow> 'k \<Rightarrow> nat \<Rightarrow> ('k, 'v) KPointer \<Rightarrow> ('k, 'v) KPointer list list \<Rightarrow>
    HamtError + ('k, 'v) KIter" where
  "kpointer_start env bs k c1 p stack =
    (case kchild env bs (length stack) p of
       Some n \<Rightarrow>
         (case match_extension (kv_conf env) (kv_hash env k) c1 (kext p) of
            Inl e \<Rightarrow> Inl e
          | Inr (PartialMatch _, _) \<Rightarrow> Inl StartKeyNotFound
          | Inr (FullMatch _, c2) \<Rightarrow> kiter_start env bs k (kv_hash env k) c2 n stack)
     | None \<Rightarrow>
         (case kbucket_of p of
            Some vals \<Rightarrow>
              (case position (\<lambda>kv. fst kv = k) vals of
                 Some offset \<Rightarrow> Inr \<lparr>ki_stack = stack, ki_current = drop offset vals\<rparr>
               | None \<Rightarrow> Inl StartKeyNotFound)
          | None \<Rightarrow> Inl Panic))"

lemma kiter_start_pointer:
  assumes "key_next env (kv_hash env k) c = Inr (i, c1)" "index_for_bit_pos (kn_bitfield n) i = j" "j < length (kn_pointers n)"
    and "kchild env bs (Suc (length rest)) (kn_pointers n ! j) \<noteq> None \<or> kbucket_of (kn_pointers n ! j) \<noteq> None"
  shows "kiter_start env bs k (kv_hash env k) c n rest =
    kpointer_start env bs k c1 (kn_pointers n ! j) (drop (Suc j) (kn_pointers n) # rest)"
  unfolding kiter_start.simps [of env bs k "kv_hash env k" c n rest] using assms Cons_nth_drop_Suc [OF assms(3), symmetric]
  by (cases "kn_pointers n ! j") (auto simp: kpointer_start_def split: sum.splits)

text \<open>The entries that a pointer or a node contributes, and where each of them starts.\<close>

definition kpointer_entries :: "('k::linorder, 'v) kamt_env \<Rightarrow> Blocks \<Rightarrow> nat \<Rightarrow> nat \<Rightarrow> ('k, 'v) KPointer \<Rightarrow> ('k \<times> 'v) list \<Rightarrow> bool" where
  "kpointer_entries env bs d x p kvs \<longleftrightarrow>
    (\<forall>ps rest r. length rest = x \<longrightarrow> kyields env bs \<lparr>ki_stack = ps # rest, ki_current = []\<rparr> r \<longrightarrow>
      kyields env bs \<lparr>ki_stack = (p # ps) # rest, ki_current = []\<rparr> (kvs @ r) \<and>
      (\<forall>i < length kvs. \<forall>c1. (kbucket_of p = None \<longrightarrow> c1 = (d + 1) * kwidth env) \<longrightarrow>
        (\<exists>it. kpointer_start env bs (fst (kvs ! i)) c1 p (ps # rest) = Inr it \<and> kyields env bs it (drop i kvs @ r))))"

definition knode_entries :: "('k::linorder, 'v) kamt_env \<Rightarrow> Blocks \<Rightarrow> nat \<Rightarrow> nat \<Rightarrow> ('k, 'v) KNode \<Rightarrow> ('k \<times> 'v) list \<Rightarrow> bool" where
  "knode_entries env bs d x n kvs \<longleftrightarrow>
    (\<forall>rest r. length rest = x \<longrightarrow> kyields env bs \<lparr>ki_stack = rest, ki_current = []\<rparr> r \<longrightarrow>
      kyields env bs \<lparr>ki_stack = kn_pointers n # rest, ki_current = []\<rparr> (kvs @ r) \<and>
      (\<forall>i < length kvs. \<exists>it. kiter_start env bs (fst (kvs ! i)) (kv_hash env (fst (kvs ! i))) (d * kwidth env) n rest = Inr it \<and>
        kyields env bs it (drop i kvs @ r)))"

lemma kbucket_entries:
  assumes "bucket_ok conf vs"
  shows "kpointer_entries env bs d x (KValues vs) vs"
  unfolding kpointer_entries_def
proof (intro allI impI conjI)
  fix ps :: "('a, 'b) KPointer list" and rest r i c1
  assume y: "kyields env bs \<lparr>ki_stack = ps # rest, ki_current = []\<rparr> r"
  show "kyields env bs \<lparr>ki_stack = (KValues vs # ps) # rest, ki_current = []\<rparr> (vs @ r)" by (rule kyields_bucket [OF y])
  assume i: "i < length vs"
  have "position (\<lambda>kv. fst kv = fst (vs ! i)) vs = Some i"
  proof (cases "position (\<lambda>kv. fst kv = fst (vs ! i)) vs")
    case None
    then show ?thesis using i by (auto simp: position_None)
  next
    case (Some j)
    then show ?thesis using position_Some [OF Some] i nth_eq_iff_index_eq [OF bucket_distinct [OF assms], of j i] by simp
  qed
  then show "\<exists>it. kpointer_start env bs (fst (vs ! i)) c1 (KValues vs) (ps # rest) = Inr it \<and> kyields env bs it (drop i vs @ r)"
    using kyields_current [OF y, of "drop i vs"] by (simp add: kpointer_start_def)
qed

lemma kchild_entries:
  assumes ok: "kenv_ok env" and c: "kchild_ok env d (kext p) m" "kbucket_of p = None" "kchild env bs (x + 1) p = Some n"
    and kvs: "knode_entries env bs (d + 1 + kskip env (kext p)) (x + 1) n kvs" "map_of kvs = m"
  shows "kpointer_entries env bs d x p kvs"
  unfolding kpointer_entries_def
proof (intro allI impI conjI)
  let ?D = "d + 1 + kskip env (kext p)"
  fix ps :: "('a, 'b) KPointer list" and rest r i c1
  assume x: "length rest = x" and y: "kyields env bs \<lparr>ki_stack = ps # rest, ki_current = []\<rparr> r"
  have n: "kyields env bs \<lparr>ki_stack = kn_pointers n # ps # rest, ki_current = []\<rparr> (kvs @ r)"
    "\<And>i. i < length kvs \<Longrightarrow> \<exists>it. kiter_start env bs (fst (kvs ! i)) (kv_hash env (fst (kvs ! i))) (?D * kwidth env) n (ps # rest) = Inr it \<and>
        kyields env bs it (drop i kvs @ r)"
    using kvs(1) x y unfolding knode_entries_def by simp_all
  show "kyields env bs \<lparr>ki_stack = (p # ps) # rest, ki_current = []\<rparr> (kvs @ r)"
    using kyields_child [OF _ n(1)] c(3) x by simp
  assume i: "i < length kvs" and c1: "kbucket_of p = None \<longrightarrow> c1 = (d + 1) * kwidth env"
  let ?k = "fst (kvs ! i)"
  have "?k \<in> dom m" using i kvs(2) dom_map_of_conv_image_fst [of kvs] by (metis image_eqI nth_mem)
  note km = kchild_match [OF ok c(1)]
  have "match_extension (kv_conf env) (kv_hash env ?k) ((d + 1) * kwidth env) (kext p) = Inr (FullMatch (kskip env (kext p)), ?D * kwidth env)"
    by (rule match_extension_full [OF ok km(1,2,3) km(5) [OF \<open>?k \<in> dom m\<close>]])
  then show "\<exists>it. kpointer_start env bs ?k c1 p (ps # rest) = Inr it \<and> kyields env bs it (drop i kvs @ r)"
    using n(2) [OF i] c(2,3) c1 x by (simp add: kpointer_start_def)
qed

lemma kpointers_entries:
  "length rest = x \<Longrightarrow> kyields env bs \<lparr>ki_stack = rest, ki_current = []\<rparr> r \<Longrightarrow> \<forall>i \<in> set xs. kpointer_entries env bs d x (p i) (f i) \<Longrightarrow>
    kyields env bs \<lparr>ki_stack = map p xs # rest, ki_current = []\<rparr> (concat (map f xs) @ r)"
proof (induction xs)
  case (Cons y xs)
  then show ?case by (simp add: kpointer_entries_def)
qed (simp add: kyields_pop)

subsection \<open>The order of the entries\<close>

text \<open>Keys in the order of their bits; the code compares keys, so this is what a conversion should keep.\<close>

definition korder :: "('k, 'v) kamt_env \<Rightarrow> 'k \<Rightarrow> 'k \<Rightarrow> bool" where
  "korder env x y \<longleftrightarrow> bits_value (kbits env x) < bits_value (kbits env y)"

lemma bits_value_mono:
  assumes "length as = length bs" "bits_value xs < bits_value ys"
  shows "bits_value (xs @ as) < bits_value (ys @ bs)"
proof -
  have "bits_value xs * 2 ^ length as + bits_value as < (bits_value xs + 1) * 2 ^ length as"
    using bits_value_less [of as] by simp
  also have "\<dots> \<le> bits_value ys * 2 ^ length as" using assms(2) by (intro mult_le_mono1) simp
  finally show ?thesis using assms(1) by (simp add: bits_value_append mult.commute)
qed

lemma korder_slot:
  assumes "kenv_ok env" "kagree env d K" "x \<in> K" "y \<in> K" "kslot env d x < kslot env d y"
  shows "korder env x y"
proof -
  let ?n = "d * kwidth env" and ?w = "kwidth env"
  let ?B = "\<lambda>k. take ?w (drop ?n (kbits env k))" and ?C = "\<lambda>k. drop ?w (drop ?n (kbits env k))"
  have split: "kbits env k = (take ?n (kbits env k) @ ?B k) @ ?C k" for k by (simp only: append.assoc append_take_drop_id)
  have pre: "take ?n (kbits env x) = take ?n (kbits env y)"
    using bspec [OF bspec [OF assms(2) [unfolded kagree_def] assms(3)] assms(4)] by (simp add: kpath_def)
  have "bits_value (take ?n (kbits env x) @ ?B x) < bits_value (take ?n (kbits env y) @ ?B y)"
    using assms(5) unfolding kslot_def pre bits_value_append by (simp add: kbits_length [OF assms(1)])
  then have "bits_value ((take ?n (kbits env x) @ ?B x) @ ?C x) < bits_value ((take ?n (kbits env y) @ ?B y) @ ?C y)"
    by (rule bits_value_mono [rotated]) (simp add: kbits_length [OF assms(1)])
  then show ?thesis unfolding korder_def split [symmetric] .
qed

lemma kagree_child:
  assumes "kenv_ok env" "kagree env d (dom m)" "kchild_ok env d e (kat env d m i)"
  shows "kagree env (d + 1 + kskip env e) (dom (kat env d m i))"
proof (rule kagree_extend)
  show "kagree env (d + 1) (dom (kat env d m i))"
    using kat_dom [of _ env d m i] by (intro kagree_slot [OF assms(1) kagree_subset [OF assms(2)], where i = i]) auto
  show "kpath env (d + 1) (kskip env e) x = kpath env (d + 1) (kskip env e) y" if "x \<in> dom (kat env d m i)" "y \<in> dom (kat env d m i)" for x y
    using assms(3) that by (simp add: kchild_ok_def)
qed

lemma sorted_concat:
  fixes xs :: "nat list"
  shows "sorted_wrt (<) xs \<Longrightarrow> \<forall>i \<in> set xs. sorted_wrt R (f i) \<Longrightarrow>
    \<forall>i \<in> set xs. \<forall>j \<in> set xs. i < j \<longrightarrow> (\<forall>x \<in> set (f i). \<forall>y \<in> set (f j). R x y) \<Longrightarrow> sorted_wrt R (concat (map f xs))"
  by (induction xs) (auto simp: sorted_wrt_append)

lemma kslots_sorted:
  assumes ok: "kenv_ok env" and t: "ktree env bs d n m" and ag: "kagree env d (dom m)" and ord: "\<And>x y. x < y \<longleftrightarrow> korder env x y"
    and slot: "\<And>i. i \<in> slots (kn_bitfield n) \<Longrightarrow> map_of (f i) = kat env d m i \<and> sorted_wrt (<) (map fst (f i))"
  shows "sorted_wrt (<) (map fst (concat (map f (sorted_list_of_set (slots (kn_bitfield n))))))"
proof -
  have keys: "k \<in> dom m \<and> kslot env d k = i" if "i \<in> slots (kn_bitfield n)" "k \<in> fst ` set (f i)" for i k
    using slot [OF that(1)] that(2) kat_dom [of k env d m i] by (metis dom_map_of_conv_image_fst)
  have "x < y" if ij: "i \<in> slots (kn_bitfield n)" "j \<in> slots (kn_bitfield n)" "i < j" "x \<in> fst ` set (f i)" "y \<in> fst ` set (f j)" for i j x y
  proof -
    have "x \<in> dom m" "y \<in> dom m" "kslot env d x < kslot env d y" using keys [OF ij(1,4)] keys [OF ij(2,5)] ij(3) by simp_all
    then show ?thesis unfolding ord by (rule korder_slot [OF ok ag])
  qed
  then have "sorted_wrt (<) (concat (map (\<lambda>i. map fst (f i)) (sorted_list_of_set (slots (kn_bitfield n)))))"
    using slot by (intro sorted_concat) (simp add: finite_slots, simp add: finite_slots, fastforce simp: finite_slots)
  then show ?thesis by (simp add: map_concat comp_def)
qed


lemma kslot_entries:
  assumes ok: "kenv_ok env" and t: "ktree env bs d n m" and x: "kdepth_ok (kv_conf env) x d" and mem: "i \<in> slots (kn_bitfield n)"
    and IH: "\<And>e n' m'. kchild_ok env d e m' \<Longrightarrow> ktree env bs (d + 1 + kskip env e) n' m' \<Longrightarrow>
      kdepth_ok (kv_conf env) (x + 1) (d + 1 + kskip env e) \<Longrightarrow>
      \<exists>kvs. distinct (map fst kvs) \<and> map_of kvs = m' \<and> knode_entries env bs (d + 1 + kskip env e) (x + 1) n' kvs \<and>
        ((\<forall>x y. x < y \<longleftrightarrow> korder env x y) \<longrightarrow> kagree env (d + 1 + kskip env e) (dom m') \<longrightarrow> sorted_wrt (<) (map fst kvs))"
  shows "\<exists>kvs. distinct (map fst kvs) \<and> map_of kvs = kat env d m i \<and> kpointer_entries env bs d x (the (kn_slot n i)) kvs \<and>
    ((\<forall>x y. x < y \<longleftrightarrow> korder env x y) \<longrightarrow> kagree env d (dom m) \<longrightarrow> sorted_wrt (<) (map fst kvs))"
proof -
  note td = ktreeD [OF t]
  obtain p where p: "kn_slot n i = Some p" by (rule kn_slot_Some [OF td(2) mem])
  then have "kslot_rep env bs d (Some p) (kat env d m i)" using td(3) [of i] by simp
  from ok this show ?thesis
  proof (cases rule: kslot_rep_cases)
    case (bucket vs)
    then show ?thesis using p kbucket_entries [OF bucket(3)] bucket_distinct [OF bucket(3)]
      by (intro exI [of _ vs]) (simp add: bucket_ok_def)
  next
    case child
    let ?D = "d + 1 + kskip env (kext p)"
    note dx = kdepth_child [OF x child(2)]
    obtain n' where n': "kchild env bs (x + 1) p = Some n'" "ktree env bs ?D n' (kat env d m i)" using child(3) [OF dx] by blast
    obtain kvs where kvs: "distinct (map fst kvs)" "map_of kvs = kat env d m i" "knode_entries env bs ?D (x + 1) n' kvs"
        "(\<forall>x y. x < y \<longleftrightarrow> korder env x y) \<longrightarrow> kagree env ?D (dom (kat env d m i)) \<longrightarrow> sorted_wrt (<) (map fst kvs)"
      using IH [OF child(2) n'(2) dx] by blast
    show ?thesis
      using kchild_entries [OF ok child(2,1) n'(1) kvs(3,2)] kagree_child [OF ok _ child(2)] kvs p by (intro exI [of _ kvs]) simp
  qed
qed

text \<open>An iteration that starts at an entry of a slot starts in the pointer of the slot.\<close>

lemma kstart_entries:
  assumes ok: "kenv_ok env" and t: "ktree env bs d n m" and x: "kdepth_ok (kv_conf env) x d"
    and f: "\<And>i. i \<in> slots (kn_bitfield n) \<Longrightarrow> map_of (f i) = kat env d m i \<and> kpointer_entries env bs d x (the (kn_slot n i)) (f i)"
  shows "knode_entries env bs d x n (concat (map f (sorted_list_of_set (slots (kn_bitfield n)))))"
  unfolding knode_entries_def
proof (intro allI impI conjI)
  let ?xs = "sorted_list_of_set (slots (kn_bitfield n))" and ?p = "\<lambda>i. the (kn_slot n i)"
  let ?kvs = "concat (map f ?xs)"
  note td = ktreeD [OF t]
  fix rest r i
  assume len: "length rest = x" and y: "kyields env bs \<lparr>ki_stack = rest, ki_current = []\<rparr> r"
  have set: "set ?xs = slots (kn_bitfield n)" by (simp add: finite_slots)
  have ps: "kn_pointers n = map ?p ?xs" by (rule kn_slot_list [OF td(2)])
  have suffix: "kyields env bs \<lparr>ki_stack = map ?p (drop l ?xs) # rest, ki_current = []\<rparr> (concat (map f (drop l ?xs)) @ r)" for l
    using f set set_drop_subset [of l ?xs] by (intro kpointers_entries [OF len y, of _ d ?p f]) blast
  show "kyields env bs \<lparr>ki_stack = kn_pointers n # rest, ki_current = []\<rparr> (?kvs @ r)" using suffix [of 0] ps by simp
  assume "i < length ?kvs"
  then obtain l j where lj: "l < length ?xs" "j < length (f (?xs ! l))" "?kvs ! i = f (?xs ! l) ! j"
      "drop i ?kvs = drop j (f (?xs ! l)) @ concat (map f (drop (Suc l) ?xs))"
    using concat_split by (metis (no_types, lifting))
  let ?i = "?xs ! l" and ?k = "fst (?kvs ! i)" and ?c = "min ((d + 1) * kwidth env) (8 * kv_n env)"
  have mem: "?i \<in> slots (kn_bitfield n)" using lj(1) set nth_mem by metis
  obtain q where q: "kn_slot n ?i = Some q" by (rule kn_slot_Some [OF td(2) mem])
  have rep: "kslot_rep env bs d (Some q) (kat env d m ?i)" using td(3) [of ?i] q by simp
  from ok rep have kind: "(kbucket_of q = None \<longrightarrow> ?c = (d + 1) * kwidth env) \<and>
      (kchild env bs (Suc (length rest)) q \<noteq> None \<or> kbucket_of q \<noteq> None)"
  proof (cases rule: kslot_rep_cases)
    case child
    show ?thesis using child(3) [OF kdepth_child [OF x child(2)]] len kchild_match(4) [OF ok child(2)] by (auto simp: within_def)
  qed simp
  obtain it where it: "kpointer_start env bs ?k ?c (?p ?i) (map ?p (drop (Suc l) ?xs) # rest) = Inr it"
      "kyields env bs it (drop j (f ?i) @ (concat (map f (drop (Suc l) ?xs)) @ r))"
    using conjunct2 [OF f [OF mem]] lj(2,3) len suffix [of "Suc l"] kind q unfolding kpointer_entries_def by (metis option.sel)
  have "?k \<in> dom (kat env d m ?i)" using f [OF mem] lj(2,3) by (metis dom_map_of_conv_image_fst image_eqI nth_mem)
  then have slot: "kslot env d ?k = ?i" using kat_dom [of ?k env d m ?i] by blast
  have ptr: "kn_pointers n ! l = ?p ?i" "l < length (kn_pointers n)" "drop (Suc l) (kn_pointers n) = map ?p (drop (Suc l) ?xs)"
    using lj(1) ps by (simp_all add: drop_map)
  have "kiter_start env bs ?k (kv_hash env ?k) (d * kwidth env) n rest = Inr it"
    using kiter_start_pointer [OF key_next_slot [OF ok td(1)], of n ?k l bs rest] slot slot_index [OF lj(1)] ptr q it(1) kind by simp
  then show "\<exists>it. kiter_start env bs ?k (kv_hash env ?k) (d * kwidth env) n rest = Inr it \<and> kyields env bs it (drop i ?kvs @ r)"
    using it(2) lj(4) by simp
qed

lemma ktree_entries:
  assumes ok: "kenv_ok env"
  shows "ktree env bs d n m \<Longrightarrow> kdepth_ok (kv_conf env) x d \<Longrightarrow>
    \<exists>kvs. distinct (map fst kvs) \<and> map_of kvs = m \<and> knode_entries env bs d x n kvs \<and>
      ((\<forall>x y. x < y \<longleftrightarrow> korder env x y) \<longrightarrow> kagree env d (dom m) \<longrightarrow> sorted_wrt (<) (map fst kvs))"
proof (induction "8 * kv_n env - d" arbitrary: d n m x rule: less_induct)
  case less
  have "\<exists>kvs. distinct (map fst kvs) \<and> map_of kvs = kat env d m i \<and> kpointer_entries env bs d x (the (kn_slot n i)) kvs \<and>
      ((\<forall>x y. x < y \<longleftrightarrow> korder env x y) \<longrightarrow> kagree env d (dom m) \<longrightarrow> sorted_wrt (<) (map fst kvs))" if "i \<in> slots (kn_bitfield n)" for i
    by (rule kslot_entries [OF ok less.prems that less.hyps]) (rule kchild_measure [OF ok])
  then have "\<exists>f. \<forall>i \<in> slots (kn_bitfield n). distinct (map fst (f i)) \<and> map_of (f i) = kat env d m i \<and>
      kpointer_entries env bs d x (the (kn_slot n i)) (f i) \<and>
      ((\<forall>x y. x < y \<longleftrightarrow> korder env x y) \<longrightarrow> kagree env d (dom m) \<longrightarrow> sorted_wrt (<) (map fst (f i)))"
    by (intro bchoice) blast
  then obtain f where f: "\<And>i. i \<in> slots (kn_bitfield n) \<Longrightarrow> distinct (map fst (f i)) \<and> map_of (f i) = kat env d m i"
      "\<And>i. i \<in> slots (kn_bitfield n) \<Longrightarrow> map_of (f i) = kat env d m i \<and> kpointer_entries env bs d x (the (kn_slot n i)) (f i)"
      "\<And>i. i \<in> slots (kn_bitfield n) \<Longrightarrow> \<forall>x y. x < y \<longleftrightarrow> korder env x y \<Longrightarrow> kagree env d (dom m) \<Longrightarrow>
        map_of (f i) = kat env d m i \<and> sorted_wrt (<) (map fst (f i))"
    by blast
  let ?kvs = "concat (map f (sorted_list_of_set (slots (kn_bitfield n))))"
  have "sorted_wrt (<) (map fst ?kvs)" if ord: "\<forall>x y. x < y \<longleftrightarrow> korder env x y" "kagree env d (dom m)"
    by (rule kslots_sorted [OF ok less.prems(1) ord(2)]) (use ord(1) f(3) [OF _ ord] in blast)+
  then show ?case
    using kslots_concat [OF ok less.prems(1), of f, OF f(1)] kstart_entries [OF ok less.prems, of f, OF f(2)] by blast
qed

subsection \<open>Traversals\<close>

lemma kiter_visit_yields: "kyields env bs it kvs \<Longrightarrow> kiter_visit env bs f it s = Some (visit_list f kvs s)"
proof (induction arbitrary: s rule: kyields.induct)
  case (kyields_done it it')
  then show ?case by (subst kiter_visit.simps) simp
next
  case (kyields_item it kv it' kvs)
  then show ?case by (subst kiter_visit.simps) (auto split: prod.splits sum.splits)
qed

lemma kamt_entries:
  assumes "kenv_ok env" "kamt_rep env t m"
  obtains kvs where "distinct (map fst kvs)" "map_of kvs = m" "kyields env (kamt_blocks t) (kiter_new (kamt_root t)) kvs"
    "\<And>i. i < length kvs \<Longrightarrow> \<exists>it. kamt_iter_from env (fst (kvs ! i)) t = Inr it \<and> kyields env (kamt_blocks t) it (drop i kvs)"
    "\<forall>x y. x < y \<longleftrightarrow> korder env x y \<Longrightarrow> sorted_wrt (<) (map fst kvs)"
proof -
  obtain kvs where kvs: "distinct (map fst kvs)" "map_of kvs = m" "knode_entries env (kamt_blocks t) 0 0 (kamt_root t) kvs"
      "(\<forall>x y. x < y \<longleftrightarrow> korder env x y) \<longrightarrow> kagree env 0 (dom m) \<longrightarrow> sorted_wrt (<) (map fst kvs)"
    using ktree_entries [OF assms(1) _ kdepth_refl, of "kamt_blocks t" 0 "kamt_root t" m] assms(2) by (auto simp: kamt_rep_def)
  have all: "kyields env (kamt_blocks t) \<lparr>ki_stack = kn_pointers (kamt_root t) # [], ki_current = []\<rparr> (kvs @ []) \<and>
      (\<forall>i < length kvs. \<exists>it. kiter_start env (kamt_blocks t) (fst (kvs ! i)) (kv_hash env (fst (kvs ! i))) (0 * kwidth env) (kamt_root t) [] = Inr it \<and>
        kyields env (kamt_blocks t) it (drop i kvs @ []))"
    using kvs(3) kyields_empty [of env "kamt_blocks t"] unfolding knode_entries_def by blast
  show ?thesis
  proof (rule that [OF kvs(1,2)])
    show "kyields env (kamt_blocks t) (kiter_new (kamt_root t)) kvs" using all by (simp add: kiter_new_def)
    show "\<exists>it. kamt_iter_from env (fst (kvs ! i)) t = Inr it \<and> kyields env (kamt_blocks t) it (drop i kvs)" if "i < length kvs" for i
      using all that by (simp add: kamt_iter_from_def kiter_new_from_def)
    show "sorted_wrt (<) (map fst kvs)" if "\<forall>x y. x < y \<longleftrightarrow> korder env x y" using kvs(4) that kagree_0 by blast
  qed
qed

end
