(* ===== verification/KamtTheorems.thy ===== *)
theory KamtTheorems
  imports KamtIter KeyedMap "HOL-Library.Countable"
begin

text \<open>
  The theorems about the KAMT as its users see it (\<open>ipld/kamt/src/kamt.rs\<close>), each with an instance.
\<close>

subsection \<open>Keys as they are\<close>

text \<open>
  \<open>Identity\<close> of \<open>id.rs\<close>: an array is its own key; a number is the bytes it has in memory, in the order of
  the host, followed by zeros.
\<close>

definition identity_arr :: "bytes \<Rightarrow> bytes" where
  "identity_arr key = key"

definition identity_hash :: "bytes \<Rightarrow> bytes" where
  "identity_hash ne_bytes = ne_bytes @ replicate (32 - length ne_bytes) 0"

subsection \<open>A concrete KAMT\<close>

definition kser_number :: "Bitfield \<times> (u8, nat) KPointerSer list \<Rightarrow> nat" where
  "kser_number x = to_nat ((w0 (fst x), w1 (fst x), w2 (fst x), w3 (fst x)),
    map (\<lambda>q. case q of KSerValues vs \<Rightarrow> Inl vs
      | KSerLink l len path \<Rightarrow> Inr ((cid_version l, cid_codec l, mh_code l, mh_digest l), len, path)) (snd x))"

definition kamt_example_env :: "(u8, nat) kamt_env" where
  "kamt_example_env = \<lparr>kv_conf = \<lparr>bit_width = 5, min_data_depth = 0, max_array_width = 3\<rparr>,
    kv_codec = numbering_codec kser_number, kv_hash = \<lambda>k. identity_hash [k], kv_n = 32\<rparr>"

lemma kser_number_inj: "inj kser_number"
proof (rule injI)
  fix x y :: "Bitfield \<times> (u8, nat) KPointerSer list"
  let ?f = "\<lambda>q :: (u8, nat) KPointerSer. case q of KSerValues vs \<Rightarrow> Inl vs
      | KSerLink l len path \<Rightarrow> Inr ((cid_version l, cid_codec l, mh_code l, mh_digest l), len, path)"
  assume "kser_number x = kser_number y"
  then have eq: "w0 (fst x) = w0 (fst y)" "w1 (fst x) = w1 (fst y)" "w2 (fst x) = w2 (fst y)" "w3 (fst x) = w3 (fst y)"
      "map ?f (snd x) = map ?f (snd y)" by (simp_all add: kser_number_def)
  have "inj ?f" by (rule injI) (auto split: KPointerSer.splits)
  then have "snd x = snd y" using eq(5) by (simp add: inj_map_eq_map)
  then show "x = y" using eq(1-4) by (simp add: prod_eq_iff Bitfield.expand)
qed

lemma kamt_example_ok: "kenv_ok kamt_example_env"
  by (auto simp: kamt_example_env_def kenv_ok_def identity_hash_def inj_def numbering_codec_ok [OF kser_number_inj])

lemma kamt_example_new: "kamt_rep kamt_example_env (kamt_new (\<lambda>_. Inr None)) Map.empty"
  by (rule kamt_new_rep [OF kamt_example_ok])

text \<open>Keys of one byte are iterated in their order.\<close>

lemma kamt_example_order: "\<forall>x y. x < y \<longleftrightarrow> korder kamt_example_env x y"
proof (intro allI)
  fix x y :: u8
  have bits: "kbits kamt_example_env k = byte_bits k @ key_bits (replicate 31 0)" for k
    by (simp add: kbits_def kamt_example_env_def identity_hash_def key_bits_def)
  have "bits_value (byte_bits k) = unat k" for k :: u8
  proof -
    have "unat k < 2 ^ LENGTH(8)" by (rule unsigned_less)
    then show ?thesis using bits_value_slice [of k 0 8] by (simp add: byte_bits_def)
  qed
  then have "x < y \<longleftrightarrow> bits_value (byte_bits x) < bits_value (byte_bits y)" by (simp add: word_less_nat_alt)
  then show "x < y \<longleftrightarrow> korder kamt_example_env x y" unfolding korder_def bits bits_value_append by simp
qed

subsection \<open>Operations\<close>

lemma kamt_set_rep:
  assumes "kenv_ok env" "kamt_rep env t m"
  shows "\<exists>t'. kamt_set env k v t = (Inr (m k), t') \<and> kamt_rep env t' (m(k \<mapsto> v))"
proof -
  have "put_old True k m = m k" "put_map True k v m = m(k \<mapsto> v)" by (auto simp: put_old_def put_map_def)
  then show ?thesis using kamt_modify_rep [OF assms, of True k v] by (auto simp: kamt_set_def)
qed

lemma kamt_set_if_absent_rep:
  assumes "kenv_ok env" "kamt_rep env t m"
  shows "\<exists>t'. kamt_set_if_absent env k v t = (Inr (m k = None), t') \<and> kamt_rep env t' (if m k = None then m(k \<mapsto> v) else m)"
proof -
  have "(put_map False k v m \<noteq> m) = (m k = None)" "put_map False k v m = (if m k = None then m(k \<mapsto> v) else m)"
    by (auto simp: put_map_def fun_eq_iff)
  then show ?thesis using kamt_modify_rep [OF assms, of False k v] by (auto simp: kamt_set_if_absent_def)
qed

text \<open>
  C20: A KAMT that holds the map \<open>m\<close> answers as \<open>m\<close> does and is updated as \<open>m\<close> is: getting a key and asking for
  it give what \<open>m\<close> has, deleting returns the value and removes it, setting returns the old value and
  setting if absent whether the key was new, and clearing empties it. No operation fails, whatever the
  keys have in common, and every operation keeps the invariant of the tree.
\<close>

theorem kamt_refines_map:
  assumes "kenv_ok env" "kamt_rep env t m"
  shows "(\<exists>t'. kamt_get env k t = (Inr (m k), t') \<and> kamt_rep env t' m) \<and>
    (\<exists>t'. kamt_contains_key env k t = (Inr (m k \<noteq> None), t') \<and> kamt_rep env t' m) \<and>
    (\<exists>t'. kamt_delete env k t = (Inr (m k), t') \<and> kamt_rep env t' (m(k := None))) \<and>
    (\<exists>t'. kamt_set env k v t = (Inr (m k), t') \<and> kamt_rep env t' (m(k \<mapsto> v))) \<and>
    (\<exists>t'. kamt_set_if_absent env k v t = (Inr (m k = None), t') \<and> kamt_rep env t' (if m k = None then m(k \<mapsto> v) else m)) \<and>
    (kamt_is_empty t \<longleftrightarrow> m = Map.empty) \<and> kamt_rep env (kamt_clear t) Map.empty"
proof (intro conjI)
  show get: "\<exists>t'. kamt_get env k t = (Inr (m k), t') \<and> kamt_rep env t' m" by (rule kamt_get_rep [OF assms])
  then show "\<exists>t'. kamt_contains_key env k t = (Inr (m k \<noteq> None), t') \<and> kamt_rep env t' m" by (auto simp: kamt_contains_key_def)
  show "\<exists>t'. kamt_delete env k t = (Inr (m k), t') \<and> kamt_rep env t' (m(k := None))" by (rule kamt_delete_rep [OF assms])
  show "\<exists>t'. kamt_set env k v t = (Inr (m k), t') \<and> kamt_rep env t' (m(k \<mapsto> v))" by (rule kamt_set_rep [OF assms])
  show "\<exists>t'. kamt_set_if_absent env k v t = (Inr (m k = None), t') \<and> kamt_rep env t' (if m k = None then m(k \<mapsto> v) else m)"
    by (rule kamt_set_if_absent_rep [OF assms])
  show "kamt_is_empty t \<longleftrightarrow> m = Map.empty" "kamt_rep env (kamt_clear t) Map.empty" by (rule kamt_empty_rep [OF assms])+
qed

theorem kamt_refines_map_witness:
  "\<exists>t. kamt_set kamt_example_env 5 7 (kamt_new (\<lambda>_. Inr None)) = (Inr None, t) \<and> kamt_rep kamt_example_env t [5 \<mapsto> 7]"
  using kamt_refines_map [OF kamt_example_ok kamt_example_new, of 5 7] by simp

subsection \<open>Histories and roots\<close>

definition kamt_step :: "('k::linorder, 'v) kamt_env \<Rightarrow> ('k, 'v) map_op \<Rightarrow> ('k, 'v) Kamt \<Rightarrow> (HamtError + 'v map_result) \<times> ('k, 'v) Kamt" where
  "kamt_step env x t =
    (case x of
       MGet k \<Rightarrow> map_prod (map_sum id RValue) id (kamt_get env k t)
     | MContains k \<Rightarrow> map_prod (map_sum id RBool) id (kamt_contains_key env k t)
     | MSet k v \<Rightarrow> map_prod (map_sum id RValue) id (kamt_set env k v t)
     | MSetIfAbsent k v \<Rightarrow> map_prod (map_sum id RBool) id (kamt_set_if_absent env k v t)
     | MDelete k \<Rightarrow> map_prod (map_sum id RValue) id (kamt_delete env k t)
     | MClear \<Rightarrow> (Inr RUnit, kamt_clear t)
     | MFlush \<Rightarrow> map_prod (map_sum id (\<lambda>_. RUnit)) id (kamt_flush env t))"

lemma kamt_contains_key_rep:
  assumes "kenv_ok env" "kamt_rep env t m"
  shows "\<exists>t'. kamt_contains_key env k t = (Inr (m k \<noteq> None), t') \<and> kamt_rep env t' m"
  using kamt_get_rep [OF assms, of k] by (auto simp: kamt_contains_key_def)

lemma kamt_step_rep:
  assumes "kenv_ok env" "kamt_rep env t m"
  shows "\<exists>t'. kamt_step env x t = (Inr (fst (map_step x m)), t') \<and> kamt_rep env t' (snd (map_step x m))"
proof (cases x)
  case MFlush
  obtain c t' where "kamt_flush env t = (Inr c, t')" "kamt_rep env t' m" by (rule kamt_flush_rep [OF assms])
  then show ?thesis using MFlush by (simp add: kamt_step_def)
next
  case (MGet k)
  then show ?thesis using kamt_get_rep [OF assms, of k] by (auto simp: kamt_step_def)
next
  case (MContains k)
  then show ?thesis using kamt_contains_key_rep [OF assms, of k] by (auto simp: kamt_step_def)
next
  case (MSet k v)
  then show ?thesis using kamt_set_rep [OF assms, of k v] by (auto simp: kamt_step_def)
next
  case (MSetIfAbsent k v)
  then show ?thesis using kamt_set_if_absent_rep [OF assms, of k v] by (auto simp: kamt_step_def)
next
  case (MDelete k)
  then show ?thesis using kamt_delete_rep [OF assms, of k] by (auto simp: kamt_step_def)
qed (use kamt_empty_rep(2) [OF assms] in \<open>simp add: kamt_step_def\<close>)

lemma kamt_root_unique:
  assumes "kenv_ok env" "kamt_rep env t1 m1" "kamt_rep env t2 m2" "kamt_flush env t1 = (Inr c1, t1')" "kamt_flush env t2 = (Inr c2, t2')"
  shows "c1 = c2 \<longleftrightarrow> m1 = m2"
proof -
  have s1: "kstored env (kamt_blocks t1') 0 c1 m1" by (rule kamt_flush_rep [OF assms(1,2)]) (use assms(4) in simp)
  have s2: "kstored env (kamt_blocks t2') 0 c2 m2" by (rule kamt_flush_rep [OF assms(1,3)]) (use assms(5) in simp)
  show ?thesis using kstored_unique [OF assms(1)] kstored_inject [OF assms(1)] s1 s2 by metis
qed

interpretation kamt_map: rooted_map "\<lambda>t m. kenv_ok env \<and> kamt_rep env t m" "kamt_step env" "kamt_flush env"
  for env :: "('k::linorder, 'v) kamt_env"
proof unfold_locales
  fix t :: "('k, 'v) Kamt" and m x
  assume "kenv_ok env \<and> kamt_rep env t m"
  then have r: "kenv_ok env" "kamt_rep env t m" by blast+
  show "\<exists>t'. kamt_step env x t = (Inr (fst (map_step x m)), t') \<and> kenv_ok env \<and> kamt_rep env t' (snd (map_step x m))"
    using kamt_step_rep [OF r, of x] r(1) by blast
  show "\<exists>c t'. kamt_flush env t = (Inr c, t') \<and> kenv_ok env \<and> kamt_rep env t' m"
    by (rule kamt_flush_rep [OF r]) (use r(1) in blast)
qed (rule kamt_root_unique; blast)

lemma kamt_flush_loads:
  assumes "kenv_ok env" "kamt_rep env t m" "kamt_flush env t = (Inr c, t')"
  shows "\<exists>t''. kamt_load env c (kamt_blocks t') = Inr t'' \<and> kamt_rep env t'' m"
proof -
  have "kstored env (kamt_blocks t') 0 c m" by (rule kamt_flush_rep [OF assms(1,2)]) (use assms(3) in simp)
  then show ?thesis using kamt_load_rep(2) [OF assms(1)] by blast
qed

text \<open>
  C21: Whatever is done with a KAMT (getting, setting, setting if absent, deleting, clearing and flushing in
  any order), the results are those of the same operations on a map, flushing then succeeds, and the
  root loads as a KAMT that holds the resulting map. The root depends on this map only: two KAMTs with
  whatever histories, in whatever stores, flush to the same root exactly when their maps are equal.
\<close>

theorem kamt_history_root:
  fixes env :: "('k::linorder, 'v) kamt_env" and xs ys :: "('k, 'v) map_op list"
  assumes "kenv_ok env"
  shows "let m1 = snd (run_ops map_step xs Map.empty); m2 = snd (run_ops map_step ys Map.empty) in
    \<exists>t1 t2 c1 c2 t1' t2'.
    run_ops (kamt_step env) xs (kamt_new bs1) = (map Inr (fst (run_ops map_step xs Map.empty)), t1) \<and> kamt_flush env t1 = (Inr c1, t1') \<and>
    run_ops (kamt_step env) ys (kamt_new bs2) = (map Inr (fst (run_ops map_step ys Map.empty)), t2) \<and> kamt_flush env t2 = (Inr c2, t2') \<and>
    (\<exists>t. kamt_load env c1 (kamt_blocks t1') = Inr t \<and> kamt_rep env t m1) \<and>
    (\<exists>t. kamt_load env c2 (kamt_blocks t2') = Inr t \<and> kamt_rep env t m2) \<and>
    (c1 = c2 \<longleftrightarrow> m1 = m2)"
proof -
  define m1 where "m1 = snd (run_ops map_step xs Map.empty)"
  define m2 where "m2 = snd (run_ops map_step ys Map.empty)"
  have new: "kenv_ok env \<and> kamt_rep env (kamt_new bs) Map.empty" for bs using kamt_new_rep [OF assms] assms by blast
  obtain t1 where r1: "run_ops (kamt_step env) xs (kamt_new bs1) = (map Inr (fst (run_ops map_step xs Map.empty)), t1)" "kamt_rep env t1 m1"
    using kamt_map.history [OF new, of xs bs1] by (auto simp: m1_def)
  obtain t2 where r2: "run_ops (kamt_step env) ys (kamt_new bs2) = (map Inr (fst (run_ops map_step ys Map.empty)), t2)" "kamt_rep env t2 m2"
    using kamt_map.history [OF new, of ys bs2] by (auto simp: m2_def)
  obtain c1 c2 t1' t2' where f: "kamt_flush env t1 = (Inr c1, t1')" "kamt_flush env t2 = (Inr c2, t2')" "c1 = c2 \<longleftrightarrow> m1 = m2"
    using kamt_map.history_root [OF new new, of xs bs1 ys bs2] r1(1) r2(1) by (auto simp: m1_def m2_def)
  show ?thesis unfolding Let_def m1_def [symmetric] m2_def [symmetric]
    using r1(1) r2(1) f kamt_flush_loads [OF assms r1(2) f(1)] kamt_flush_loads [OF assms r2(2) f(2)] by blast
qed

theorem kamt_history_root_witness:
  "\<exists>t1 t2 c t1' t2'.
    run_ops (kamt_step kamt_example_env) [MSet 5 7] (kamt_new (\<lambda>_. Inr None)) = ([Inr (RValue None)], t1) \<and>
    run_ops (kamt_step kamt_example_env) [MSet 5 7, MSet 6 1, MFlush, MDelete 6] (kamt_new (\<lambda>_. Inr None)) =
      ([Inr (RValue None), Inr (RValue None), Inr RUnit, Inr (RValue (Some 1))], t2) \<and>
    kamt_flush kamt_example_env t1 = (Inr c, t1') \<and> kamt_flush kamt_example_env t2 = (Inr c, t2')"
proof -
  have "snd (run_ops map_step [MSet (5 :: u8) (7 :: nat)] Map.empty) = snd (run_ops map_step [MSet 5 7, MSet 6 1, MFlush, MDelete 6] Map.empty)"
    by (simp add: fun_eq_iff)
  then show ?thesis
    using kamt_history_root [OF kamt_example_ok, of "[MSet 5 7]" "[MSet 5 7, MSet 6 1, MFlush, MDelete 6]" "\<lambda>_. Inr None" "\<lambda>_. Inr None"] unfolding Let_def by auto
qed

text \<open>
  After setting the root a KAMT holds the new map, but it still remembers the CID of the old root: the
  next flush returns the old one, from which the old map is loaded.
\<close>

theorem kamt_set_root_stale:
  assumes "kenv_ok env" "kamt_rep env t m" "kamt_flushed_cid t = Some old" "kstored env (kamt_blocks t) 0 new m'"
  shows "\<exists>t'. kamt_set_root env new t = (Inr (), t') \<and> (\<forall>k. fst (kamt_get env k t') = Inr (m' k)) \<and>
    kamt_flush env t' = (Inr old, t') \<and> (\<exists>t''. kamt_load env old (kamt_blocks t') = Inr t'' \<and> kamt_rep env t'' m)"
proof -
  obtain n where n: "kn_load env (kamt_blocks t) new 0 = Inr n" "ktree env (kamt_blocks t) 0 n m'"
    using kamt_load_rep(1) [OF assms(1,4)] by blast
  let ?t = "t\<lparr>kamt_root := n\<rparr>"
  have "kstored env (kamt_blocks t) 0 old m" using assms(2,3) by (simp add: kamt_rep_def)
  then have "\<exists>t''. kamt_load env old (kamt_blocks ?t) = Inr t'' \<and> kamt_rep env t'' m"
    using kamt_load_rep(2) [OF assms(1), of "kamt_blocks t" old m] by auto
  moreover have "fst (kamt_get env k ?t) = Inr (m' k)" for k
    using kget_value_tree [OF assms(1) n(2) kdepth_refl, of k] by (auto simp: kamt_get_def)
  ultimately show ?thesis using n(1) assms(3) by (intro exI [of _ ?t]) (simp add: kamt_set_root_def kamt_flush_def)
qed

subsection \<open>Traversals\<close>

text \<open>
  C22: Traversals of a KAMT end and visit every entry of the map exactly once. An iteration from a key of the
  map yields the entries from this key on. When the conversion of keys into bytes keeps the order of
  the keys, the entries come in ascending order of their keys. The first error of the visiting function
  ends the traversal.
\<close>

theorem kamt_iteration:
  fixes env :: "('k::linorder, 'v) kamt_env" and s :: 's
  assumes "kenv_ok env" "kamt_rep env t m"
  shows "\<exists>kvs. distinct (map fst kvs) \<and> map_of kvs = m \<and>
    (\<forall>(f :: ('k, 'v, 's) visitor) s. kamt_for_each env f t s = Some (visit_list f kvs s)) \<and>
    (\<forall>i < length kvs. \<exists>it. kamt_iter_from env (fst (kvs ! i)) t = Inr it \<and>
      (\<forall>(f :: ('k, 'v, 's) visitor) s. kiter_visit env (kamt_blocks t) f it s = Some (visit_list f (drop i kvs) s))) \<and>
    ((\<forall>x y. x < y \<longleftrightarrow> korder env x y) \<longrightarrow> sorted_wrt (<) (map fst kvs))"
proof -
  obtain kvs where kvs: "distinct (map fst kvs)" "map_of kvs = m" "kyields env (kamt_blocks t) (kiter_new (kamt_root t)) kvs"
      "\<And>i. i < length kvs \<Longrightarrow> \<exists>it. kamt_iter_from env (fst (kvs ! i)) t = Inr it \<and> kyields env (kamt_blocks t) it (drop i kvs)"
      "\<forall>x y. x < y \<longleftrightarrow> korder env x y \<Longrightarrow> sorted_wrt (<) (map fst kvs)"
    by (rule kamt_entries [OF assms]) blast
  show ?thesis
  proof (intro exI [of _ kvs] conjI allI impI)
    show "kamt_for_each env f t s = Some (visit_list f kvs s)" for f :: "('k, 'v, 's) visitor" and s
      unfolding kamt_for_each_def by (rule kiter_visit_yields [OF kvs(3)])
    show "\<exists>it. kamt_iter_from env (fst (kvs ! i)) t = Inr it \<and>
      (\<forall>(f :: ('k, 'v, 's) visitor) s. kiter_visit env (kamt_blocks t) f it s = Some (visit_list f (drop i kvs) s))" if ilen: "i < length kvs" for i
    proof -
      obtain it where it: "kamt_iter_from env (fst (kvs ! i)) t = Inr it" "kyields env (kamt_blocks t) it (drop i kvs)"
        using kvs(4) [OF ilen] by blast
      then show ?thesis using kiter_visit_yields [OF it(2)] by blast
    qed
  qed (use kvs in simp_all)
qed

theorem kamt_iteration_witness:
  "\<exists>t. kamt_set kamt_example_env 5 7 (kamt_new (\<lambda>_. Inr None)) = (Inr None, t) \<and>
    kamt_for_each kamt_example_env (\<lambda>k v acc. (Inr (), acc @ [k])) t [] = Some (Inr (), [5])"
proof -
  obtain t where t: "kamt_set kamt_example_env 5 7 (kamt_new (\<lambda>_. Inr None)) = (Inr None, t)" "kamt_rep kamt_example_env t [5 \<mapsto> 7]"
    using kamt_set_rep [OF kamt_example_ok kamt_example_new, of 5 7] by auto
  obtain kvs where kvs: "distinct (map fst kvs)" "map_of kvs = [5 \<mapsto> 7]"
      "\<forall>(f :: (u8, nat, u8 list) visitor) s. kamt_for_each kamt_example_env f t s = Some (visit_list f kvs s)"
    using kamt_iteration [OF kamt_example_ok t(2)] by blast
  have "fst ` set kvs = {5}" using dom_map_of_conv_image_fst [of kvs] kvs(2) by simp
  then have "length kvs = 1" using distinct_card [OF kvs(1)] by simp
  then obtain k v where "kvs = [(k, v)]" by (auto simp: length_Suc_conv)
  then have "kvs = [(5, v)]" using \<open>fst ` set kvs = {5}\<close> by simp
  then show ?thesis using t(1) kvs(3) by auto
qed

end
