(* ===== verification/Spec2Isabelle.thy ===== *)
theory Spec2Isabelle
  imports Executor RegisteredProof RlePlus HamtTheorems AmtTheorems BlockStores FilecoinTheorems KamtTheorems
begin

text \<open>
  A verification of the reference Filecoin Virtual Machine, \<open>ref-fvm\<close> (Rust).

  \<^bold>\<open>The program.\<close> The FVM executes a message on a tree of actors. The executor checks a message and
  hands it to a call manager, which owns the state tree, the gas tracker, the access tracker, the
  events and the memory limiter of that message. For every actor it calls, the call manager makes
  a kernel (the interface presented to actor code) and runs the actor's Wasm code in the engine;
  syscall bindings connect the two. The kernel sends messages through the call manager again, so
  calls nest.

  \<^bold>\<open>The theories.\<close> Paths are relative to the repository.

  \<^item> \<open>Prelude\<close>: words and saturating arithmetic, the monad \<open>rsm\<close> for code that returns a \<open>Result\<close> and
    mutates state (the state persists when an error is returned), the predicate \<open>keeps R f\<close> (every run
    of \<open>f\<close> relates the states before and after by \<open>R\<close>) and its locale of composition rules.
  \<^item> \<open>Errors\<close>: \<open>shared/src/error\<close>, \<open>fvm/src/kernel/error.rs\<close>, \<open>fvm/src/syscalls/error.rs\<close>.
  \<^item> \<open>Gas\<close>, \<open>GasOutputs\<close>, \<open>PriceList\<close>: \<open>fvm/src/gas\<close>. Gas is a 64-bit count of milligas with the
    saturating operations of the code; the tracker has its stack of limits; every charge and the
    Watermelon prices are there.
  \<^item> \<open>HistoryMap\<close>: \<open>fvm/src/history_map.rs\<close>, and the locale of nested transactions that the state
    tree, the access tracker and the events instantiate.
  \<^item> \<open>Address\<close>: \<open>shared/src/address\<close>, payloads and the byte encoding.
  \<^item> \<open>StateTree\<close>: \<open>shared/src/state/mod.rs\<close>, \<open>fvm/src/state_tree.rs\<close>, \<open>fvm/src/init_actor.rs\<close>. The HAMT
    under the tree is a map; \<open>st_view\<close> is what a caller sees through the caches.
  \<^item> \<open>AccessTracker\<close>, \<open>Events\<close>, \<open>Limiter\<close>, \<open>Blocks\<close>, \<open>Machine\<close>: the smaller parts of
    \<open>fvm/src/call_manager\<close>, \<open>fvm/src/machine\<close> and \<open>fvm/src/kernel/blocks.rs\<close>.
  \<^item> \<open>CborScan\<close>: \<open>fvm/src/ipld\<close>, the links of a block.
  \<^item> \<open>CallManager\<close>, \<open>Supply\<close>, \<open>CallContracts\<close>: \<open>fvm/src/call_manager/default.rs\<close> without the calls;
    the sum of all balances; the relations \<open>evolves\<close> and \<open>frozen\<close> that its operations keep.
  \<^item> \<open>Kernel\<close>, \<open>EmitEvent\<close>, \<open>Syscalls\<close>, \<open>KernelContracts\<close>: \<open>fvm/src/kernel/default.rs\<close>, the bindings in
    \<open>fvm/src/syscalls\<close>, and that all of them keep any relation of the locale \<open>call_relation\<close>.
  \<^item> \<open>Sectors\<close>, \<open>SectorLayout\<close>, \<open>FilecoinKernel\<close>, \<open>FilecoinTheorems\<close>: \<open>shared/src/sector\<close>, \<open>shared/src/piece\<close>,
    \<open>shared/src/commcid\<close>, \<open>fvm/src/kernel/filecoin.rs\<close> and \<open>fvm/src/syscalls/filecoin.rs\<close>: proofs, pieces and
    commitments, and the operations that the Filecoin kernel adds. Its syscalls are part of the table that actor
    code calls, so every property of calls covers them.
  \<^item> \<open>Vm\<close>: execution gas, the linker, \<open>instantiate\<close> and the calls (\<open>call_actor\<close> and what it uses).
  \<^item> \<open>CallProperties\<close>, \<open>CallBound\<close>, \<open>CallTheorems\<close>: the properties of calls.
  \<^item> \<open>Executor\<close>: \<open>fvm/src/executor\<close>, \<open>fvm/src/machine/default.rs\<close>, \<open>shared/src/message.rs\<close>: the checks
    before a message, its execution, the receipt and the settlement of fees.
  \<^item> \<open>RegisteredProof\<close>: \<open>shared/src/sector/registered_proof.rs\<close>.
  \<^item> \<open>RangeSets\<close>, \<open>BitField\<close>, \<open>RlePlus\<close>: \<open>ipld/bitfield/src\<close>. Range iterators are the lists they yield; a bit
    field is its ranges with the bits set and unset since; the RLE+ reader and writer work on 16-bit and
    32-bit buffers as in the code.
  \<^item> \<open>CborStore\<close>: \<open>ipld/encoding/src/cbor_store.rs\<close>, typed objects in a block store.
  \<^item> \<open>BlockStores\<close>: \<open>ipld/blockstore/src\<close>, \<open>fvm/src/blockstore\<close>: the trait of block stores, whose laws are the
    locale \<open>block_store\<close>, the store in memory and the buffered store, which interpret it, and the flush.
  \<^item> \<open>SparseSlots\<close>, \<open>HashBits\<close>, \<open>Hamt\<close>, \<open>HamtIter\<close>: \<open>ipld/hamt/src\<close>, the slots of a node, the bits of a hashed
    key, the operations of nodes and of the map, and its traversals.
  \<^item> \<open>HamtTree\<close>, \<open>HamtUpdate\<close>, \<open>HamtStore\<close>, \<open>HamtTheorems\<close>: what a HAMT holds. \<open>tree\<close> relates a node to the map of
    its entries in canonical form, \<open>stored\<close> a CID to the map stored under it, \<open>hamt_rep\<close> a HAMT to its map.
  \<^item> \<open>Amt\<close>, \<open>AmtIter\<close>, \<open>AmtDiff\<close>: \<open>ipld/amt/src\<close>, the array mapped trie, its traversals and the difference of two.
  \<^item> \<open>AmtTree\<close>, \<open>AmtStore\<close>, \<open>AmtTheorems\<close>: what an AMT holds. \<open>anode\<close> relates a node to the array of its entries,
    \<open>astored\<close> a CID to the array stored under it, \<open>amt_rep\<close> an AMT to its array.
  \<^item> \<open>KeyedMap\<close>: the contract that the HAMT and the KAMT share as maps with a root, the locale \<open>rooted_map\<close>, which
    both interpret, and what follows from it for histories of operations.
  \<^item> \<open>KamtExt\<close>, \<open>Kamt\<close>, \<open>KamtIter\<close>: \<open>ipld/kamt/src\<close>, the packed paths of bits that links skip, the operations of
    nodes and of the map, and its traversals. Bit fields and configurations are those of the HAMT.
  \<^item> \<open>KamtTree\<close>, \<open>KamtUpdate\<close>, \<open>KamtRemove\<close>, \<open>KamtStore\<close>, \<open>KamtTheorems\<close>: what a KAMT holds. \<open>ktree\<close> relates a node
    to the map of its entries in canonical form, \<open>kstored\<close> a CID, \<open>kamt_rep\<close> a KAMT.

  \<^bold>\<open>What is shown.\<close> No message creates tokens; a failed message changes nothing but its fees; a message
  is charged once; receipts stay within the gas limit; settlement succeeds. No call creates tokens or makes a balance negative; a read-only call changes
  nothing; a failed call is undone exactly, in the tree, the events and the access records; every
  call gives back the call depth, the call stack and the limits it found, within its gas; transfers
  are exact; a flush writes what callers see; link scanning tracks only supported links, never
  fails fatally and never overspends; event parsing accepts exactly the well-formed events; block
  handles are fresh and stable; address bytes and proof numbers round trip; fees add up to the
  deposit. Actor code is arbitrary in all of them. Bit fields are sets of bits under all operators, and
  RLE+ strings and bit fields correspond one to one. A HAMT is the map it holds under every operation;
  its root CID is determined by the map and loads as the map; traversals visit every entry once. The
  same holds of an AMT and its array; where the code of its iterators and of \<open>diff\<close> falls short of that,
  the theorems say what it does instead. A flush of the buffered store moves exactly what is reachable,
  and cannot fail on blocks that the kernel accepted. The pieces of a sector are laid out at multiples of their
  sizes and fill whole sectors; a batch of seals has one result and one charge per entry; no panic or error of the
  proofs crate is fatal, and no proof of spacetime is accepted without it. A KAMT is the map it holds
  under every operation and never fails; its root depends on the map only, whatever was done before; it is traversed
  in the order of the bits of the keys. Splitting and merging the extension of a KAMT link are inverse, and the search
  for the extension of several keys finds the longest.

  \<^bold>\<open>Bounds.\<close> \<open>call_actor\<close> takes a bound on nested calls; the remaining call depth of the network is
  enough, by theorem \<open>call_bound_enough\<close>, since \<open>with_stack_frame\<close> refuses deeper calls. The link
  scan recurses into inline CIDs with the length of the data as its bound; larger bounds give the same
  result, by theorem \<open>scan_links_sound\<close>. A Wasm program is a tree with finite paths: metered code
  cannot run forever.

  \<^bold>\<open>Parameters.\<close> Crates and services outside the repository are arguments: the hash functions,
  signature checks, varints, CID parsing and CBOR encodings (\<open>vm_env\<close>, \<open>ipld_env\<close>, \<open>addr_crates\<close>), the proofs
  crate (\<open>proofs_api\<close>), the externs of the node, and the Wasm runtime (\<open>engine\<close>, \<open>wasm_module\<close>, \<open>prog\<close>). What is needed of them
  is a named hypothesis (\<open>varint_ok\<close>, \<open>read_cid_ok\<close>, \<open>codec_ok\<close>, \<open>amt_codec_ok\<close>, \<open>kenv_ok\<close>) of the theorem that needs it. \<open>codec_ok\<close> says that
  objects are serialized and read back and that CIDs do not collide;
  \<open>kenv_ok\<close> says also that keys are converted into different byte strings of one length.

  \<^bold>\<open>Not modelled.\<close> Messages of errors, log lines, wall-clock timers and the writing of debugging
  artifacts have no effect on the state. The syscalls behind the features \<open>upgrade-actor\<close>, \<open>m2-native\<close>
  and \<open>verify-signature\<close> are modelled as enabled; the preload of code in \<open>call_actor_resolved\<close> under
  \<open>m2-native\<close> is left out. Compilation of Wasm, the module cache and the instance pool belong to the
  runtime. The thread that wraps an executor, the text form of addresses and the SDK are not
  modelled yet; tests, calibration and conformance drivers are outside the system.
\<close>

end
